(* ===== verification/Prelude.thy ===== *)
theory Prelude
  imports Main "HOL-Library.Word"
begin

text \<open>
  The shared base of the development: the fault type of the C programs (failed assertions, accesses
  outside an array, null dereferences, kernel panics, signed overflow, loops that do not end, waiting for a lock), the sequencing of
  fallible steps, the first-fit scan \<open>for (i = 0; i < N; i++) if (P (a[i])) ...\<close> that most of the
  tables of the repository use, and the interface of a table whose slots are taken and given back
  by such scans. \<open>scan_simps\<close> collects the rewrite rules for scans, \<open>inv_intros\<close> the rules
  \<open>an operation keeps the invariant\<close> of the components.
\<close>

named_theorems scan_simps
named_theorems inv_intros

type_synonym byte = "8 word"
type_synonym uint32 = "32 word"

subsection \<open>Faults and fallible steps\<close>

datatype fault =
    Assertion            \<comment> \<open>a failed \<open>assert\<close>\<close>
  | Out_of_bounds        \<comment> \<open>an array or memory access outside the object\<close>
  | Null_deref           \<comment> \<open>a null pointer is followed\<close>
  | Panic string         \<comment> \<open>the kernel's \<open>panic\<close>, or a program's \<open>exit\<close> on an error\<close>
  | Diverges             \<comment> \<open>the loop never ends\<close>
  | Int_overflow         \<comment> \<open>a signed integer overflows\<close>
  | Sleeps               \<comment> \<open>the process waits for a lock that another one holds\<close>

definition ebind :: "'e + 'a \<Rightarrow> ('a \<Rightarrow> 'e + 'b) \<Rightarrow> 'e + 'b" where
  "ebind m k = (case m of Inl e \<Rightarrow> Inl e | Inr x \<Rightarrow> k x)"

definition eguard :: "'e \<Rightarrow> bool \<Rightarrow> 'e + unit" where
  "eguard e b = (if b then Inr () else Inl e)"

lemma ebind_simps [simp]:
  "ebind (Inl e) k = Inl e"
  "ebind (Inr x) k = k x"
  by (simp_all add: ebind_def)

lemma ebind_eq_Inr [simp]:
  "ebind m k = Inr y \<longleftrightarrow> (\<exists>x. m = Inr x \<and> k x = Inr y)"
  by (cases m) simp_all

lemma eguard_simps [simp]:
  "eguard e True = Inr ()"
  "eguard e False = Inl e"
  by (simp_all add: eguard_def)

lemma eguard_eq [simp]:
  "eguard e b = Inr u \<longleftrightarrow> b"
  "eguard e b = Inl e' \<longleftrightarrow> \<not> b \<and> e' = e"
  by (auto simp: eguard_def)

lemma ebind_cong [fundef_cong]:
  "m = m' \<Longrightarrow> (\<And>x. m' = Inr x \<Longrightarrow> k x = k' x) \<Longrightarrow> ebind m k = ebind m' k'"
  by (cases m') simp_all

lemma ebind_assoc: "ebind (ebind m f) g = ebind m (\<lambda>x. ebind (f x) g)"
  by (cases m) simp_all

lemma ebind_eguard: "ebind (eguard e b) k = (if b then k () else Inl e)"
  by simp

subsection \<open>The first-fit scan\<close>

text \<open>\<open>find_slot P xs\<close> is the index at which \<open>for (i = 0; i < N; i++) if (P (xs[i])) break;\<close> stops,
  \<open>None\<close> when the loop runs to its end.\<close>

fun find_slot :: "('a \<Rightarrow> bool) \<Rightarrow> 'a list \<Rightarrow> nat option" where
  "find_slot P [] = None"
| "find_slot P (x # xs) = (if P x then Some 0 else map_option Suc (find_slot P xs))"

lemma find_slot_None [scan_simps]: "find_slot P xs = None \<longleftrightarrow> (\<forall>x \<in> set xs. \<not> P x)"
  by (induction xs) auto

lemma find_slot_SomeD:
  "find_slot P xs = Some i \<Longrightarrow> i < length xs \<and> P (xs ! i) \<and> (\<forall>j < i. \<not> P (xs ! j))"
proof (induction xs arbitrary: i)
  case Nil
  then show ?case by simp
next
  case (Cons x xs)
  show ?case
  proof (cases "P x")
    case True
    with Cons.prems show ?thesis by simp
  next
    case False
    with Cons.prems obtain k where k: "find_slot P xs = Some k" "i = Suc k"
      by (auto split: if_splits)
    with Cons.IH [of k] False show ?thesis
      by (auto simp: less_Suc_eq_0_disj)
  qed
qed

lemma find_slot_SomeI:
  "i < length xs \<Longrightarrow> P (xs ! i) \<Longrightarrow> (\<And>j. j < i \<Longrightarrow> \<not> P (xs ! j)) \<Longrightarrow> find_slot P xs = Some i"
proof (induction xs arbitrary: i)
  case Nil
  then show ?case by simp
next
  case (Cons x xs)
  show ?case
  proof (cases i)
    case 0
    with Cons.prems show ?thesis by simp
  next
    case (Suc k)
    have "find_slot P xs = Some k"
    proof (rule Cons.IH)
      show "k < length xs" "P (xs ! k)" using Cons.prems Suc by auto
      show "\<not> P (xs ! j)" if "j < k" for j using Cons.prems(3) [of "Suc j"] that Suc by simp
    qed
    moreover have "\<not> P x" using Cons.prems(3) [of 0] Suc by simp
    ultimately show ?thesis using Suc by simp
  qed
qed

lemma find_slot_Some:
  "find_slot P xs = Some i \<longleftrightarrow> i < length xs \<and> P (xs ! i) \<and> (\<forall>j < i. \<not> P (xs ! j))"
  by (auto dest: find_slot_SomeD intro: find_slot_SomeI)

lemma find_slot_bound: "find_slot P xs = Some i \<Longrightarrow> i < length xs"
  by (simp add: find_slot_Some)

lemma find_slot_sat: "find_slot P xs = Some i \<Longrightarrow> P (xs ! i)"
  by (simp add: find_slot_Some)

lemma find_slot_in_set: "find_slot P xs = Some i \<Longrightarrow> xs ! i \<in> set xs"
  by (simp add: find_slot_Some)

lemma find_slot_exists: "x \<in> set xs \<Longrightarrow> P x \<Longrightarrow> \<exists>i. find_slot P xs = Some i"
  using find_slot_None [of P xs] by fastforce

lemma find_slot_cong [fundef_cong]:
  "xs = ys \<Longrightarrow> (\<And>x. x \<in> set ys \<Longrightarrow> P x = Q x) \<Longrightarrow> find_slot P xs = find_slot Q ys"
  by (induction ys arbitrary: xs) auto

subsection \<open>Counting slots\<close>

definition slots :: "('a \<Rightarrow> bool) \<Rightarrow> 'a list \<Rightarrow> nat" where
  "slots P xs = length (filter P xs)"

lemma slots_simps [simp]:
  "slots P [] = 0"
  "slots P (x # xs) = (if P x then Suc (slots P xs) else slots P xs)"
  by (simp_all add: slots_def)

lemma slots_le_length: "slots P xs \<le> length xs"
  by (simp add: slots_def)

lemma slots_update:
  "i < length xs \<Longrightarrow>
    slots P (xs[i := y]) + (if P (xs ! i) then 1 else 0) = slots P xs + (if P y then 1 else 0)"
proof (induction xs arbitrary: i)
  case Nil
  then show ?case by simp
next
  case (Cons x xs)
  then show ?case by (cases i) auto
qed

lemma slots_take:
  "i < length xs \<Longrightarrow> P (xs ! i) \<Longrightarrow> \<not> P y \<Longrightarrow> Suc (slots P (xs[i := y])) = slots P xs"
  using slots_update [of i xs P y] by simp

lemma slots_give:
  "i < length xs \<Longrightarrow> \<not> P (xs ! i) \<Longrightarrow> P y \<Longrightarrow> slots P (xs[i := y]) = Suc (slots P xs)"
  using slots_update [of i xs P y] by simp

lemma slots_same:
  "i < length xs \<Longrightarrow> P (xs ! i) = P y \<Longrightarrow> slots P (xs[i := y]) = slots P xs"
  using slots_update [of i xs P y] by (simp split: if_splits)

lemma slots_zero_iff: "slots P xs = 0 \<longleftrightarrow> (\<forall>x \<in> set xs. \<not> P x)"
  by (simp add: slots_def filter_empty_conv)

lemma slots_all: "slots P xs = length xs \<Longrightarrow> x \<in> set xs \<Longrightarrow> P x"
proof (induction xs)
  case (Cons y ys)
  then show ?case using slots_le_length [of P ys] by (auto split: if_splits)
qed simp

subsection \<open>A table with slots that are taken and given back\<close>

text \<open>
  The interface of a table of slots: \<open>is_free\<close> tells a free slot, \<open>taken i\<close> is what the allocating
  code writes into slot \<open>i\<close>, \<open>given\<close> what the releasing code writes. The two laws are all that the users
  of a table rely on. The development interprets it for the inode and data block free lists and the
  handle table of SSUFS.
\<close>

locale slot_table =
  fixes is_free :: "'s \<Rightarrow> bool"
    and taken :: "nat \<Rightarrow> 's \<Rightarrow> 's"
    and given :: "'s \<Rightarrow> 's"
  assumes taken_not_free: "is_free x \<Longrightarrow> \<not> is_free (taken i x)"
    and given_free: "is_free (given x)"
begin

definition grab :: "'s list \<Rightarrow> (nat \<times> 's list) option" where
  "grab xs = map_option (\<lambda>i. (i, xs[i := taken i (xs ! i)])) (find_slot is_free xs)"

lemma grab_None: "grab xs = None \<longleftrightarrow> slots is_free xs = 0"
  by (simp add: grab_def find_slot_None slots_zero_iff)

lemma grab_fresh:
  "grab xs = Some (i, ys) \<Longrightarrow> i < length xs \<and> is_free (xs ! i) \<and> \<not> is_free (ys ! i)"
  by (auto simp: grab_def find_slot_Some taken_not_free)

lemma grab_frame: "grab xs = Some (i, ys) \<Longrightarrow> j \<noteq> i \<Longrightarrow> ys ! j = xs ! j"
  by (auto simp: grab_def)

lemma grab_length: "grab xs = Some (i, ys) \<Longrightarrow> length ys = length xs"
  by (auto simp: grab_def)

lemma grab_count: "grab xs = Some (i, ys) \<Longrightarrow> Suc (slots is_free ys) = slots is_free xs"
  by (auto simp: grab_def find_slot_Some taken_not_free intro: slots_take)

lemma grab_not_taken:
  "grab xs = Some (i, ys) \<Longrightarrow> j < length xs \<Longrightarrow> \<not> is_free (xs ! j) \<Longrightarrow> i \<noteq> j"
  using grab_fresh by blast

lemma give_count:
  "i < length xs \<Longrightarrow> \<not> is_free (xs ! i) \<Longrightarrow>
    slots is_free (xs[i := given (xs ! i)]) = Suc (slots is_free xs)"
  by (simp add: slots_give given_free)

lemma give_grab:
  assumes "grab xs = Some (i, ys)"
  shows "slots is_free (ys[i := given (ys ! i)]) = slots is_free xs"
proof -
  from assms have "i < length ys" "\<not> is_free (ys ! i)"
    by (simp_all add: grab_fresh grab_length)
  then have "slots is_free (ys[i := given (ys ! i)]) = Suc (slots is_free ys)"
    by (rule give_count)
  with grab_count [OF assms] show ?thesis by simp
qed

end

subsection \<open>Lists updated in the middle\<close>

text \<open>\<open>patch xs off ys\<close> is \<open>memcpy (&xs[off], ys, length ys)\<close>.\<close>

definition patch :: "'a list \<Rightarrow> nat \<Rightarrow> 'a list \<Rightarrow> 'a list" where
  "patch xs off ys = take off xs @ ys @ drop (off + length ys) xs"

lemma length_patch [simp]: "off + length ys \<le> length xs \<Longrightarrow> length (patch xs off ys) = length xs"
  by (simp add: patch_def)

lemma nth_patch:
  assumes "off + length ys \<le> length xs" and "i < length xs"
  shows "patch xs off ys ! i = (if off \<le> i \<and> i < off + length ys then ys ! (i - off) else xs ! i)"
proof -
  consider "i < off" | "off \<le> i" "i < off + length ys" | "off + length ys \<le> i" by linarith
  then show ?thesis
  proof cases
    case 1
    with assms show ?thesis by (simp add: patch_def nth_append)
  next
    case 2
    then have "i - off < length ys" by simp
    with 2 assms show ?thesis by (simp add: patch_def nth_append)
  next
    case 3
    then have "\<not> i - off < length ys" "\<not> i < off" by linarith+
    with 3 assms show ?thesis by (simp add: patch_def nth_append)
  qed
qed

lemma patch_Nil [simp]: "patch xs off [] = xs"
  by (simp add: patch_def)

lemma take_drop_patch:
  "off + length ys \<le> length xs \<Longrightarrow> take (length ys) (drop off (patch xs off ys)) = ys"
  by (simp add: patch_def)

end
