(* ===== verification/SSU_Alloc.thy ===== *)
theory SSU_Alloc
  imports Prelude
begin

text \<open>
  The page allocator of \<open>src/project5/alloc.c\<close>: one 4096-byte page handed out in chunks, described
  by an array of chunk headers that are linked through \<open>next\<close> and \<open>prev\<close>. The header of a chunk
  lies at index \<open>offset / MINALLOC\<close>, so a pointer to a header is that index. \<open>ealloc.c\<close> holds the
  same code for each of its pages with another \<open>MINALLOC\<close>; therefore the definitions take
  \<open>MINALLOC\<close> as their first argument. The header array is a function with the bounds of
  \<open>chunks[CHUNK_BUF_SIZE]\<close> checked at every index the code computes.
\<close>

subsection \<open>The state and the operations\<close>

definition PAGESIZE :: nat where "PAGESIZE = 4096"
definition MINALLOC :: nat where "MINALLOC = 8"

definition CHUNK_BUF_SIZE :: "nat \<Rightarrow> nat" where
  "CHUNK_BUF_SIZE mina = PAGESIZE div mina"

record chunk_t =
  c_next :: "nat option"
  c_prev :: "nat option"
  c_sz :: int
  c_offset :: nat
  c_assigned :: bool

record mman_t =
  mm_addr :: nat
  mm_chunk_list :: "nat option"
  mm_chunks :: "nat \<Rightarrow> chunk_t"

definition zero_chunk :: chunk_t where
  "zero_chunk = \<lparr>c_next = None, c_prev = None, c_sz = 0, c_offset = 0, c_assigned = False\<rparr>"

text \<open>The static \<open>mman\<close> is zero before \<open>init_alloc\<close>.\<close>

definition static_mman :: mman_t where
  "static_mman = \<lparr>mm_addr = 0, mm_chunk_list = None, mm_chunks = (\<lambda>_. zero_chunk)\<rparr>"

definition upd_chunk :: "nat \<Rightarrow> (chunk_t \<Rightarrow> chunk_t) \<Rightarrow> mman_t \<Rightarrow> mman_t" where
  "upd_chunk i f m = m\<lparr>mm_chunks := (mm_chunks m)(i := f (mm_chunks m i))\<rparr>"

definition chunk_new :: "nat \<Rightarrow> mman_t \<Rightarrow> nat \<Rightarrow> int \<Rightarrow> fault + nat \<times> mman_t" where
  "chunk_new mina m off sz =
     (let chunk_idx = off div mina in
      if sz mod int mina \<noteq> 0 then Inl (Panic ''chunk_new sizeerror'')
      else if \<not> chunk_idx < CHUNK_BUF_SIZE mina then Inl Out_of_bounds
      else Inr (chunk_idx, upd_chunk chunk_idx (\<lambda>_. zero_chunk\<lparr>c_assigned := False, c_sz := sz,
                  c_next := None, c_prev := None\<rparr>) m))"

text \<open>\<open>mmap\<close> is the operating system's: its result is an argument, \<open>None\<close> for \<open>MAP_FAILED\<close>, the
  pointer value -1.\<close>

definition MAP_FAILED :: nat where "MAP_FAILED = 2 ^ 64 - 1"

definition init_alloc :: "nat \<Rightarrow> nat option \<Rightarrow> mman_t \<Rightarrow> fault + int \<times> mman_t" where
  "init_alloc mina mmap_result m =
     (case mmap_result of
        None \<Rightarrow> Inr (-1, m\<lparr>mm_addr := MAP_FAILED\<rparr>)
      | Some a \<Rightarrow>
          ebind (chunk_new mina (m\<lparr>mm_addr := a\<rparr>) 0 (int PAGESIZE)) (\<lambda>(chunk, m1).
            Inr (0, (upd_chunk chunk (\<lambda>c. c\<lparr>c_offset := 0\<rparr>) m1)\<lparr>mm_chunk_list := Some chunk\<rparr>)))"

text \<open>The part of the loop of \<open>alloc\<close> after the two \<open>continue\<close>s: the chunk \<open>i\<close> fits.\<close>

definition take_chunk :: "nat \<Rightarrow> mman_t \<Rightarrow> nat \<Rightarrow> int \<Rightarrow> fault + nat option \<times> mman_t" where
  "take_chunk mina m i req =
     ebind (if c_sz (mm_chunks m i) \<noteq> req
            then
              (let nxt = c_next (mm_chunks m i) in
               ebind (chunk_new mina m (c_offset (mm_chunks m i) + nat req) (c_sz (mm_chunks m i) - req))
                 (\<lambda>(n, m1).
                    let m2 = upd_chunk i (\<lambda>c. c\<lparr>c_next := Some n\<rparr>) m1
                    in Inr (case nxt of None \<Rightarrow> m2
                            | Some x \<Rightarrow> upd_chunk n (\<lambda>c. c\<lparr>c_next := Some x\<rparr>) m2)))
            else Inr m)
       (\<lambda>m3.
          let m4 = (case c_next (mm_chunks m3 i) of
                      None \<Rightarrow> m3
                    | Some n \<Rightarrow>
                        upd_chunk n (\<lambda>c. c\<lparr>c_prev := Some i\<rparr>)
                          (upd_chunk n (\<lambda>c. c\<lparr>c_offset := c_offset (mm_chunks m3 i) + nat req\<rparr>) m3));
              m5 = upd_chunk i (\<lambda>c. c\<lparr>c_assigned := True, c_sz := req\<rparr>) m4
          in Inr (Some (mm_addr m5 + c_offset (mm_chunks m5 i)), m5))"

text \<open>The loop over \<open>iter\<close>. A next-chain that ends visits each header at most once, so the fuel of
  \<open>alloc\<close>, one more than the number of headers, runs out on a cyclic chain only.\<close>

fun alloc_loop :: "nat \<Rightarrow> nat \<Rightarrow> mman_t \<Rightarrow> int \<Rightarrow> nat option \<Rightarrow> fault + nat option \<times> mman_t" where
  "alloc_loop 0 mina m req iter = Inl Diverges"
| "alloc_loop (Suc fuel) mina m req None = Inr (None, m)"
| "alloc_loop (Suc fuel) mina m req (Some i) =
     (if c_assigned (mm_chunks m i) then alloc_loop fuel mina m req (c_next (mm_chunks m i))
      else if req > c_sz (mm_chunks m i) then alloc_loop fuel mina m req (c_next (mm_chunks m i))
      else take_chunk mina m i req)"

definition alloc :: "nat \<Rightarrow> mman_t \<Rightarrow> int \<Rightarrow> fault + nat option \<times> mman_t" where
  "alloc mina m req =
     (if req mod int mina \<noteq> 0 then Inr (None, m)
      else if req < int mina then Inr (None, m)
      else alloc_loop (Suc (CHUNK_BUF_SIZE mina)) mina m req (mm_chunk_list m))"

text \<open>\<open>dealloc\<close>, the comment "merge piv and right" and the line that clears \<open>assigned\<close>.\<close>

definition merge_right :: "mman_t \<Rightarrow> nat \<Rightarrow> nat option \<Rightarrow> mman_t" where
  "merge_right m piv r_seeker =
     upd_chunk piv (\<lambda>c. c\<lparr>c_assigned := False\<rparr>)
       (case r_seeker of
          None \<Rightarrow> m
        | Some r \<Rightarrow>
            if c_assigned (mm_chunks m r) then m
            else
              (let m1 = (case c_next (mm_chunks m r) of
                           None \<Rightarrow> m
                         | Some rr \<Rightarrow> upd_chunk rr (\<lambda>c. c\<lparr>c_prev := Some piv\<rparr>) m);
                   m2 = upd_chunk piv (\<lambda>c. c\<lparr>c_next := c_next (mm_chunks m1 r)\<rparr>) m1
               in upd_chunk piv (\<lambda>c. c\<lparr>c_sz := c_sz c + c_sz (mm_chunks m2 r)\<rparr>) m2))"

text \<open>\<open>dealloc\<close>, the comment "merge left and piv".\<close>

definition merge_left :: "mman_t \<Rightarrow> nat \<Rightarrow> nat option \<Rightarrow> mman_t" where
  "merge_left m piv l_seeker =
     (case l_seeker of
        None \<Rightarrow> m
      | Some l \<Rightarrow>
          if c_assigned (mm_chunks m l) then m
          else
            (let m1 = (case c_next (mm_chunks m piv) of
                         None \<Rightarrow> m
                       | Some n \<Rightarrow> upd_chunk n (\<lambda>c. c\<lparr>c_prev := Some l\<rparr>) m);
                 m2 = upd_chunk l (\<lambda>c. c\<lparr>c_next := c_next (mm_chunks m1 piv)\<rparr>) m1
             in upd_chunk l (\<lambda>c. c\<lparr>c_sz := c_sz c + c_sz (mm_chunks m2 piv)\<rparr>) m2))"

definition dealloc :: "nat \<Rightarrow> mman_t \<Rightarrow> nat \<Rightarrow> fault + mman_t" where
  "dealloc mina m ptr =
     (let victim = (ptr - mm_addr m) div mina in
      if ptr < mm_addr m \<or> \<not> victim < CHUNK_BUF_SIZE mina then Inl Out_of_bounds
      else
        (let r_seeker = c_next (mm_chunks m victim);
             l_seeker = c_prev (mm_chunks m victim)
         in Inr (merge_left (merge_right m victim r_seeker) victim l_seeker)))"


subsection \<open>The chain of headers and the tiling of the page\<close>

text \<open>\<open>seg h p cs q\<close>: following \<open>next\<close> from \<open>p\<close> visits the headers \<open>cs\<close> and arrives at \<open>q\<close>.
  \<open>lay k h o cs e\<close>: the chunks \<open>cs\<close> tile the offsets from \<open>o\<close> to \<open>e\<close> without gap or overlap, each
  at its own index and of a positive size that is a multiple of \<open>k\<close>. \<open>prevs h p cs\<close>: the \<open>prev\<close>
  pointers of \<open>cs\<close> are right, the first one being \<open>p\<close>.\<close>

fun seg :: "(nat \<Rightarrow> chunk_t) \<Rightarrow> nat option \<Rightarrow> nat list \<Rightarrow> nat option \<Rightarrow> bool" where
  "seg h p [] q \<longleftrightarrow> p = q"
| "seg h p (c # cs) q \<longleftrightarrow> p = Some c \<and> seg h (c_next (h c)) cs q"

fun lay :: "nat \<Rightarrow> (nat \<Rightarrow> chunk_t) \<Rightarrow> nat \<Rightarrow> nat list \<Rightarrow> nat \<Rightarrow> bool" where
  "lay k h b [] e \<longleftrightarrow> b = e"
| "lay k h b (c # cs) e \<longleftrightarrow>
     c_offset (h c) = b \<and> b = k * c \<and> 0 < c_sz (h c) \<and> int k dvd c_sz (h c) \<and>
     lay k h (b + nat (c_sz (h c))) cs e"

fun prevs :: "(nat \<Rightarrow> chunk_t) \<Rightarrow> nat option \<Rightarrow> nat list \<Rightarrow> bool" where
  "prevs h p [] \<longleftrightarrow> True"
| "prevs h p (c # cs) \<longleftrightarrow> c_prev (h c) = p \<and> prevs h (Some c) cs"

type_synonym block = "nat \<times> int \<times> bool"

definition blk :: "(nat \<Rightarrow> chunk_t) \<Rightarrow> nat \<Rightarrow> block" where
  "blk h c = (c_offset (h c), c_sz (h c), c_assigned (h c))"

text \<open>The state describes the page: \<open>tiled\<close> is what every \<open>alloc\<close> needs and keeps,
  \<open>linked_back\<close> what \<open>dealloc\<close> needs on top of it.\<close>

definition tiled :: "nat \<Rightarrow> mman_t \<Rightarrow> nat list \<Rightarrow> bool" where
  "tiled k m cs \<longleftrightarrow>
     seg (mm_chunks m) (mm_chunk_list m) cs None \<and> lay k (mm_chunks m) 0 cs PAGESIZE"

definition linked_back :: "mman_t \<Rightarrow> nat list \<Rightarrow> bool" where
  "linked_back m cs \<longleftrightarrow> prevs (mm_chunks m) None cs"

definition blocks :: "mman_t \<Rightarrow> nat list \<Rightarrow> block list" where
  "blocks m cs = map (blk (mm_chunks m)) cs"

subsection \<open>The specification: a first-fit heap of blocks\<close>

fun ff_alloc :: "int \<Rightarrow> block list \<Rightarrow> (nat \<times> block list) option" where
  "ff_alloc n [] = None"
| "ff_alloc n ((b, s, u) # bs) =
     (if \<not> u \<and> n \<le> s
      then Some (b, (b, n, True) # (if s = n then bs else (b + nat n, s - n, False) # bs))
      else map_option (\<lambda>(a, bs'). (a, (b, s, u) # bs')) (ff_alloc n bs))"

text \<open>Releasing marks the block free and joins it with a free block to its right, then with a free
  block to its left.\<close>

fun join_right :: "nat \<Rightarrow> int \<Rightarrow> block list \<Rightarrow> block list" where
  "join_right b s [] = [(b, s, False)]"
| "join_right b s ((b', s', u) # bs) =
     (if u then (b, s, False) # (b', s', u) # bs else (b, s + s', False) # bs)"

fun join_left :: "block \<Rightarrow> block list \<Rightarrow> block list" where
  "join_left (b, s, u) [] = [(b, s, u)]"
| "join_left (b, s, u) ((b', s', u') # bs) =
     (if u then (b, s, u) # (b', s', u') # bs else (b, s + s', False) # bs)"

fun ff_free :: "nat \<Rightarrow> block list \<Rightarrow> block list" where
  "ff_free a [] = []"
| "ff_free a [(b, s, u)] = (if b = a then join_right b s [] else [(b, s, u)])"
| "ff_free a ((b, s, u) # (b', s', u') # bs) =
     (if b = a then join_right b s ((b', s', u') # bs)
      else if b' = a then join_left (b, s, u) (join_right b' s' bs)
      else (b, s, u) # ff_free a ((b', s', u') # bs))"

subsection \<open>Facts about chains and tilings\<close>

lemma seg_append: "seg h p (xs @ ys) q \<longleftrightarrow> (\<exists>r. seg h p xs r \<and> seg h r ys q)"
  by (induction xs arbitrary: p) auto

lemma lay_append: "lay k h b (xs @ ys) e \<longleftrightarrow> (\<exists>d. lay k h b xs d \<and> lay k h d ys e)"
  by (induction xs arbitrary: b) auto

lemma prevs_append:
  "prevs h p (xs @ ys) \<longleftrightarrow> prevs h p xs \<and> prevs h (if xs = [] then p else Some (last xs)) ys"
  by (induction xs arbitrary: p) auto

lemma seg_frame: "(\<And>c. c \<in> set cs \<Longrightarrow> c_next (h' c) = c_next (h c)) \<Longrightarrow> seg h' p cs q = seg h p cs q"
  by (induction cs arbitrary: p) auto

lemma lay_frame:
  "(\<And>c. c \<in> set cs \<Longrightarrow> c_offset (h' c) = c_offset (h c) \<and> c_sz (h' c) = c_sz (h c)) \<Longrightarrow>
    lay k h' b cs e = lay k h b cs e"
  by (induction cs arbitrary: b) auto

lemma prevs_frame: "(\<And>c. c \<in> set cs \<Longrightarrow> c_prev (h' c) = c_prev (h c)) \<Longrightarrow> prevs h' p cs = prevs h p cs"
  by (induction cs arbitrary: p) auto

lemma off_chain_upd [simp]:
  "c \<notin> set cs \<Longrightarrow> seg (h(c := v)) p cs q = seg h p cs q"
  "c \<notin> set cs \<Longrightarrow> lay k (h(c := v)) b cs e = lay k h b cs e"
  "c \<notin> set cs \<Longrightarrow> prevs (h(c := v)) p cs = prevs h p cs"
  "c \<notin> set cs \<Longrightarrow> map (blk (h(c := v))) cs = map (blk h) cs"
  by (auto intro!: seg_frame lay_frame prevs_frame simp: blk_def)

lemma seg_head: "seg h p (c # cs) q \<Longrightarrow> p = Some c"
  by simp

lemma seg_None_iff: "seg h p cs None \<Longrightarrow> p = None \<longleftrightarrow> cs = []"
  by (cases cs) auto

text \<open>Headers are visited in the order of their offsets, so no header is visited twice.\<close>

lemma lay_le: "lay k h b cs e \<Longrightarrow> b \<le> e"
  by (induction cs arbitrary: b) (auto, force)

lemma lay_mem:
  "lay k h b cs e \<Longrightarrow> c \<in> set cs \<Longrightarrow>
    b \<le> k * c \<and> k * c + nat (c_sz (h c)) \<le> e \<and> c_offset (h c) = k * c \<and> 0 < c_sz (h c) \<and>
    int k dvd c_sz (h c)"
proof (induction cs arbitrary: b)
  case Nil
  then show ?case by simp
next
  case (Cons d cs)
  show ?case
  proof (cases "c = d")
    case True
    with Cons.prems show ?thesis by (auto dest: lay_le)
  next
    case False
    with Cons.prems have "c \<in> set cs" "lay k h (b + nat (c_sz (h d))) cs e" by auto
    from Cons.IH [OF this(2,1)] show ?thesis by auto
  qed
qed

lemma lay_distinct: "lay k h b cs e \<Longrightarrow> distinct cs"
proof (induction cs arbitrary: b)
  case Nil
  then show ?case by simp
next
  case (Cons c cs)
  then have "lay k h (b + nat (c_sz (h c))) cs e" "b = k * c" "0 < c_sz (h c)" by auto
  with Cons.IH lay_mem [of k h "b + nat (c_sz (h c))" cs e c] show ?case by auto
qed

lemma lay_total: "lay k h b cs e \<Longrightarrow> int b + (\<Sum>c \<leftarrow> cs. c_sz (h c)) = int e"
  by (induction cs arbitrary: b) fastforce+

text \<open>Distinct chunks occupy disjoint address ranges.\<close>

lemma lay_disjoint:
  assumes "lay k h b cs e" and "c \<in> set cs" and "d \<in> set cs" and "c \<noteq> d"
  shows "k * c + nat (c_sz (h c)) \<le> k * d \<or> k * d + nat (c_sz (h d)) \<le> k * c"
  using assms
proof (induction cs arbitrary: b)
  case Nil
  then show ?case by simp
next
  case (Cons a cs)
  have rest: "lay k h (b + nat (c_sz (h a))) cs e" and ba: "b = k * a" using Cons.prems(1) by auto
  show ?case
  proof (cases "c = a \<or> d = a")
    case True
    with Cons.prems rest ba show ?thesis
      using lay_mem [OF rest, of c] lay_mem [OF rest, of d] by auto
  next
    case False
    with Cons.prems Cons.IH [OF rest] show ?thesis by auto
  qed
qed

lemma upd_chunk_simps [simp]:
  "mm_chunks (upd_chunk i f m) = (mm_chunks m)(i := f (mm_chunks m i))"
  "mm_addr (upd_chunk i f m) = mm_addr m"
  "mm_chunk_list (upd_chunk i f m) = mm_chunk_list m"
  by (simp_all add: upd_chunk_def)

subsection \<open>The loop of \<open>alloc\<close> finds the first fit\<close>

definition fits :: "mman_t \<Rightarrow> int \<Rightarrow> nat \<Rightarrow> bool" where
  "fits m req c \<longleftrightarrow> \<not> c_assigned (mm_chunks m c) \<and> req \<le> c_sz (mm_chunks m c)"

lemma alloc_loop_find:
  "seg (mm_chunks m) p cs None \<Longrightarrow> length cs < fuel \<Longrightarrow>
    alloc_loop fuel k m req p =
      (case find (fits m req) cs of None \<Rightarrow> Inr (None, m) | Some c \<Rightarrow> take_chunk k m c req)"
proof (induction cs arbitrary: p fuel)
  case Nil
  then show ?case by (cases fuel) auto
next
  case (Cons c cs)
  then obtain f where f: "fuel = Suc f" "length cs < f" by (cases fuel) auto
  from Cons.prems have "p = Some c" "seg (mm_chunks m) (c_next (mm_chunks m c)) cs None" by auto
  with f Cons.IH [of "c_next (mm_chunks m c)" f] show ?case by (auto simp: fits_def)
qed

lemma ff_alloc_find:
  "ff_alloc n (map (blk (mm_chunks m)) cs) =
    (case find (fits m n) cs of
       None \<Rightarrow> None
     | Some c \<Rightarrow>
         map_option (\<lambda>(a, bs). (a, map (blk (mm_chunks m)) (takeWhile (\<lambda>d. \<not> fits m n d) cs) @ bs))
           (ff_alloc n (map (blk (mm_chunks m)) (dropWhile (\<lambda>d. \<not> fits m n d) cs))))"
proof (induction cs)
  case Nil
  then show ?case by simp
next
  case (Cons c cs)
  show ?case
  proof (cases "fits m n c")
    case True
    then show ?thesis by (simp add: option.map_id)
  next
    case False
    have "ff_alloc n (map (blk (mm_chunks m)) (c # cs)) =
        map_option (\<lambda>(a, bs). (a, blk (mm_chunks m) c # bs)) (ff_alloc n (map (blk (mm_chunks m)) cs))"
      using False by (auto simp: blk_def fits_def)
    also have "\<dots> = (case find (fits m n) cs of None \<Rightarrow> None
      | Some c' \<Rightarrow> map_option (\<lambda>(a, bs). (a, map (blk (mm_chunks m)) (takeWhile (\<lambda>d. \<not> fits m n d) (c # cs)) @ bs))
           (ff_alloc n (map (blk (mm_chunks m)) (dropWhile (\<lambda>d. \<not> fits m n d) (c # cs)))))"
      using False
      by (auto simp: Cons.IH option.map_comp o_def case_prod_beta split: option.split
          intro!: option.map_cong)
    finally show ?thesis using False by simp
  qed
qed

lemma find_split:
  "find P xs = Some c \<Longrightarrow>
    \<exists>ys. dropWhile (\<lambda>d. \<not> P d) xs = c # ys \<and> xs = takeWhile (\<lambda>d. \<not> P d) xs @ c # ys \<and> P c"
  by (induction xs) (auto split: if_splits)

subsection \<open>Pages whose \<open>MINALLOC\<close> divides the page size\<close>

text \<open>What the proofs need of \<open>MINALLOC\<close>; \<open>alloc.c\<close> and \<open>ealloc.c\<close> interpret it with 8 and 256.\<close>

locale page_heap =
  fixes k :: nat
  assumes k_pos: "0 < k" and k_dvd: "k dvd PAGESIZE"
begin

lemma page_index: "k * c < PAGESIZE \<Longrightarrow> c < CHUNK_BUF_SIZE k"
proof -
  assume c: "k * c < PAGESIZE"
  have "k * (PAGESIZE div k) = PAGESIZE" using k_dvd by simp
  with c have "k * c < k * (PAGESIZE div k)" by simp
  then show ?thesis by (simp add: CHUNK_BUF_SIZE_def)
qed

lemma lay_index: "lay k h 0 cs PAGESIZE \<Longrightarrow> c \<in> set cs \<Longrightarrow> c < CHUNK_BUF_SIZE k"
proof -
  assume "lay k h 0 cs PAGESIZE" "c \<in> set cs"
  then have "k * c < PAGESIZE" using lay_mem [of k h 0 cs PAGESIZE c] by auto
  then show ?thesis by (rule page_index)
qed

lemma tiled_length: "tiled k m cs \<Longrightarrow> length cs \<le> CHUNK_BUF_SIZE k"
proof -
  assume "tiled k m cs"
  then have "set cs \<subseteq> {..<CHUNK_BUF_SIZE k}" "distinct cs"
    by (auto simp: tiled_def lay_index dest: lay_distinct)
  then show ?thesis
    using card_mono [of "{..<CHUNK_BUF_SIZE k}" "set cs"] by (simp add: distinct_card)
qed

lemma take_exact:
  assumes t: "tiled k m (xs @ c # ys)" and eq: "c_sz (mm_chunks m c) = req"
  shows "\<exists>m'. take_chunk k m c req = Inr (Some (mm_addr m + k * c), m') \<and>
    tiled k m' (xs @ c # ys) \<and> mm_addr m' = mm_addr m \<and>
    blocks m' (xs @ c # ys) = map (blk (mm_chunks m)) xs @ (k * c, req, True) # map (blk (mm_chunks m)) ys \<and>
    (linked_back m (xs @ c # ys) \<longrightarrow> linked_back m' (xs @ c # ys))"
proof -
  let ?h = "mm_chunks m"
  from t have lay: "lay k ?h 0 (xs @ c # ys) PAGESIZE" and sg: "seg ?h (mm_chunk_list m) (xs @ c # ys) None"
    by (auto simp: tiled_def)
  from lay have dist: "distinct (xs @ c # ys)" by (rule lay_distinct)
  have off: "c_offset (?h c) = k * c" and pos: "0 < req"
    using lay_mem [OF lay, of c] eq by auto
  show ?thesis
  proof (cases ys)
    case Nil
    with sg have "c_next (?h c) = None" by (auto simp: seg_append)
    with Nil t dist eq off show ?thesis
      by (auto simp: take_chunk_def tiled_def linked_back_def blocks_def blk_def seg_append lay_append prevs_append)
  next
    case (Cons n zs)
    with sg have nx: "c_next (?h c) = Some n" by (auto simp: seg_append)
    have offn: "c_offset (?h n) = k * c + nat req"
      using lay eq off Cons by (auto simp: lay_append)
    have prv: "prevs ?h None (xs @ c # ys) \<Longrightarrow> c_prev (?h n) = Some c"
      using Cons by (simp add: prevs_append)
    from dist Cons nx have "n \<noteq> c" by auto
    with Cons t dist eq off nx offn prv show ?thesis
      by (auto simp: take_chunk_def tiled_def linked_back_def blocks_def blk_def seg_append lay_append prevs_append)
  qed
qed


lemma split_index:
  assumes lay: "lay k h 0 (xs @ c # ys) PAGESIZE" and req: "0 < req" "int k dvd req" "req < c_sz (h c)"
  defines "n \<equiv> (k * c + nat req) div k"
  shows "k * n = k * c + nat req" and "n \<notin> set (xs @ c # ys)" and "n < CHUNK_BUF_SIZE k"
proof -
  from req have "int k dvd int (nat req)" by simp
  then have "k dvd nat req" by (simp only: int_dvd_int_iff)
  then have "k dvd k * c + nat req" by simp
  then show kn: "k * n = k * c + nat req" by (simp add: n_def)
  from lay have xs: "lay k h 0 xs (k * c)" and ys: "lay k h (k * c + nat (c_sz (h c))) ys PAGESIZE"
    by (auto simp: lay_append)
  have "n \<notin> set xs" using lay_mem [OF xs, of n] kn req by auto
  moreover have "n \<noteq> c" using kn req by auto
  moreover have "n \<notin> set ys" using lay_mem [OF ys, of n] kn req by auto
  ultimately show "n \<notin> set (xs @ c # ys)" by simp
  have "k * n < PAGESIZE" using kn req lay_le [OF ys] by auto
  then show "n < CHUNK_BUF_SIZE k" by (rule page_index)
qed

lemma take_split:
  assumes t: "tiled k m (xs @ c # ys)"
    and req: "0 < req" "int k dvd req" "req < c_sz (mm_chunks m c)"
  defines "n \<equiv> (k * c + nat req) div k"
  shows "\<exists>m'. take_chunk k m c req = Inr (Some (mm_addr m + k * c), m') \<and>
    tiled k m' (xs @ c # n # ys) \<and> mm_addr m' = mm_addr m \<and>
    blocks m' (xs @ c # n # ys) =
      map (blk (mm_chunks m)) xs @ (k * c, req, True) # (k * c + nat req, c_sz (mm_chunks m c) - req, False) #
      map (blk (mm_chunks m)) ys \<and>
    (linked_back m (xs @ c # ys) \<longrightarrow> ys = [] \<longrightarrow> linked_back m' (xs @ c # n # ys))"
proof -
  let ?h = "mm_chunks m"
  from t have lay: "lay k ?h 0 (xs @ c # ys) PAGESIZE" and sg: "seg ?h (mm_chunk_list m) (xs @ c # ys) None"
    by (auto simp: tiled_def)
  from lay have dist: "distinct (xs @ c # ys)" by (rule lay_distinct)
  have off: "c_offset (?h c) = k * c" and dvd: "int k dvd c_sz (?h c)"
    using lay_mem [OF lay, of c] by auto
  note n = split_index [OF lay req, folded n_def]
  have szd: "(c_sz (?h c) - req) mod int k = 0" "int k dvd c_sz (?h c) - req"
    using dvd req(2) by auto
  have end1: "nat req + nat (c_sz (?h c) - req) = nat (c_sz (?h c))"
    "nat req + (nat (c_sz (?h c) - req) + x) = nat (c_sz (?h c)) + x" for x using req by simp_all
  have layc: "lay k ?h 0 xs (k * c)" "lay k ?h (k * c + nat (c_sz (?h c))) ys PAGESIZE"
    using lay by (auto simp: lay_append)
  have nx: "c_next (?h c) = (case ys of [] \<Rightarrow> None | y # _ \<Rightarrow> Some y)"
    using sg by (cases ys) (auto simp: seg_append)
  have sgc: "seg ?h (mm_chunk_list m) xs (Some c)" "seg ?h (c_next (?h c)) ys None"
    using sg by (auto simp: seg_append)
  have idx: "(k * c + nat req) div k = n" by (simp add: n_def)
  from n dist have neq: "n \<noteq> c" "n \<notin> set xs" "n \<notin> set ys" "c \<notin> set xs" "c \<notin> set ys" by auto
  show ?thesis
    using neq off szd layc sgc req n(1,3) nx
    by (cases ys)
      (auto simp: take_chunk_def chunk_new_def Let_def idx zero_chunk_def tiled_def linked_back_def blocks_def
        blk_def seg_append lay_append prevs_append add.assoc end1)
qed


lemma alloc_refines:
  assumes t: "tiled k m cs" and req: "req mod int k = 0" "int k \<le> req"
  shows "\<exists>r m' cs'. alloc k m req = Inr (r, m') \<and> tiled k m' cs' \<and> mm_addr m' = mm_addr m \<and>
    (case ff_alloc req (blocks m cs) of
       None \<Rightarrow> r = None \<and> m' = m \<and> cs' = cs
     | Some (a, bs) \<Rightarrow> r = Some (mm_addr m + a) \<and> blocks m' cs' = bs)"
proof -
  let ?h = "mm_chunks m"
  have loop: "alloc k m req =
      (case find (fits m req) cs of None \<Rightarrow> Inr (None, m) | Some c \<Rightarrow> take_chunk k m c req)"
    using t req tiled_length [OF t] by (simp add: alloc_def tiled_def alloc_loop_find)
  have pos: "0 < req" "int k dvd req" using req k_pos by auto
  show ?thesis
  proof (cases "find (fits m req) cs")
    case None
    then have "ff_alloc req (blocks m cs) = None" by (simp add: blocks_def ff_alloc_find)
    with None loop t show ?thesis by auto
  next
    case (Some c)
    let ?xs = "takeWhile (\<lambda>d. \<not> fits m req d) cs"
    from find_split [OF Some] obtain ys where ys: "dropWhile (\<lambda>d. \<not> fits m req d) cs = c # ys"
      "cs = ?xs @ c # ys" "fits m req c" by blast
    then have tc: "tiled k m (?xs @ c # ys)" using t by simp
    then have off: "c_offset (?h c) = k * c" by (auto simp: tiled_def lay_append)
    have spec: "ff_alloc req (blocks m cs) = Some (k * c, map (blk ?h) ?xs @ (k * c, req, True) #
        (if c_sz (?h c) = req then map (blk ?h) ys
         else (k * c + nat req, c_sz (?h c) - req, False) # map (blk ?h) ys))"
      using ys(1,3) Some by (simp add: blocks_def ff_alloc_find blk_def fits_def off)
    show ?thesis
    proof (cases "c_sz (?h c) = req")
      case True
      with take_exact [OF tc True] loop Some spec show ?thesis by auto
    next
      case False
      with ys(3) have "req < c_sz (?h c)" by (simp add: fits_def)
      from take_split [OF tc pos this] False loop Some spec show ?thesis by auto
    qed
  qed
qed

end

subsection \<open>Releasing a chunk\<close>

definition right_done :: "(nat \<Rightarrow> chunk_t) \<Rightarrow> nat list \<Rightarrow> nat list" where
  "right_done h ys = (case ys of [] \<Rightarrow> [] | r # zs \<Rightarrow> if c_assigned (h r) then ys else zs)"

definition left_done :: "(nat \<Rightarrow> chunk_t) \<Rightarrow> nat list \<Rightarrow> nat \<Rightarrow> nat list" where
  "left_done h xs c = (if xs = [] \<or> c_assigned (h (last xs)) then xs @ [c] else xs)"

lemma ff_free_here: "ff_free a ((a, s, u) # bs) = join_right a s bs"
  by (cases bs) auto

lemma ff_free_skip:
  "\<forall>x \<in> set (bs @ [l]). fst x \<noteq> a \<Longrightarrow>
    ff_free a (bs @ l # (a, s, u) # rest) = bs @ join_left l (join_right a s rest)"
proof (induction bs)
  case Nil
  then show ?case by (cases l) auto
next
  case (Cons x bs)
  then have IH: "ff_free a (bs @ l # (a, s, u) # rest) = bs @ join_left l (join_right a s rest)" by auto
  obtain b s' u' where x: "x = (b, s', u')" by (cases x)
  with Cons.prems have "b \<noteq> a" by auto
  moreover have "\<exists>y ys. bs @ l # (a, s, u) # rest = y # ys \<and> fst y \<noteq> a"
    using Cons.prems by (cases bs) auto
  ultimately show ?case using IH x by (auto simp: split: prod.splits)
qed

lemmas page_simps = tiled_def linked_back_def blocks_def blk_def
  seg_append lay_append prevs_append nat_add_distrib add.assoc

lemma tiled_distinct: "tiled k m cs \<Longrightarrow> distinct cs"
  unfolding tiled_def by (elim conjE) (rule lay_distinct)

lemma merge_right_assigned:
  "d \<noteq> c \<Longrightarrow> c_assigned (mm_chunks (merge_right m c p) d) = c_assigned (mm_chunks m d)"
  by (auto simp: merge_right_def Let_def split: option.splits)

context page_heap
begin

lemma merge_right_refines:
  assumes t: "tiled k m (xs @ c # ys)" and l: "linked_back m (xs @ c # ys)"
  defines "m' \<equiv> merge_right m c (c_next (mm_chunks m c))"
  shows "tiled k m' (xs @ c # right_done (mm_chunks m) ys)"
    and "linked_back m' (xs @ c # right_done (mm_chunks m) ys)"
    and "blocks m' (xs @ c # right_done (mm_chunks m) ys) =
      map (blk (mm_chunks m)) xs @ join_right (k * c) (c_sz (mm_chunks m c)) (map (blk (mm_chunks m)) ys)"
    and "mm_addr m' = mm_addr m"
proof -
  let ?h = "mm_chunks m"
  from t have dist: "distinct (xs @ c # ys)" by (rule tiled_distinct)
  have off: "c_offset (?h c) = k * c" using t by (auto simp: tiled_def lay_append)
  consider "ys = []" | r where "ys = [r]" | r rr zs where "ys = r # rr # zs" by (metis list.exhaust)
  note ys_cases = this
  show "mm_addr m' = mm_addr m"
    by (auto simp: m'_def merge_right_def Let_def split: option.splits)
  show "tiled k m' (xs @ c # right_done ?h ys)"
    using t dist by (cases rule: ys_cases)
      (auto simp: m'_def merge_right_def right_done_def Let_def page_simps)
  show "linked_back m' (xs @ c # right_done ?h ys)"
    using t l dist by (cases rule: ys_cases)
      (auto simp: m'_def merge_right_def right_done_def Let_def page_simps)
  show "blocks m' (xs @ c # right_done ?h ys) =
      map (blk ?h) xs @ join_right (k * c) (c_sz (?h c)) (map (blk ?h) ys)"
    using t dist off by (cases rule: ys_cases)
      (auto simp: m'_def merge_right_def right_done_def Let_def page_simps)
qed

lemma merge_left_refines:
  assumes t: "tiled k m (xs @ a # c # ys)" and l: "linked_back m (xs @ a # c # ys)"
    and free: "\<not> c_assigned (mm_chunks m a)"
  defines "m' \<equiv> merge_left m c (Some a)"
  shows "tiled k m' (xs @ a # ys)"
    and "linked_back m' (xs @ a # ys)"
    and "blocks m' (xs @ a # ys) = map (blk (mm_chunks m)) xs @
      (c_offset (mm_chunks m a), c_sz (mm_chunks m a) + c_sz (mm_chunks m c), False) # map (blk (mm_chunks m)) ys"
    and "mm_addr m' = mm_addr m"
proof -
  let ?h = "mm_chunks m"
  from t have dist: "distinct (xs @ a # c # ys)" by (rule tiled_distinct)
  consider "ys = []" | r zs where "ys = r # zs" by (cases ys) auto
  note ys_cases = this
  show "mm_addr m' = mm_addr m"
    by (auto simp: m'_def merge_left_def Let_def split: option.splits)
  show "tiled k m' (xs @ a # ys)"
    using t dist free by (cases rule: ys_cases) (auto simp: m'_def merge_left_def Let_def page_simps)
  show "linked_back m' (xs @ a # ys)"
    using t l dist free by (cases rule: ys_cases) (auto simp: m'_def merge_left_def Let_def page_simps)
  show "blocks m' (xs @ a # ys) = map (blk ?h) xs @
      (c_offset (?h a), c_sz (?h a) + c_sz (?h c), False) # map (blk ?h) ys"
    using t dist free by (cases rule: ys_cases) (auto simp: m'_def merge_left_def Let_def page_simps)
qed


lemma dealloc_refines:
  assumes t: "tiled k m (xs @ c # ys)" and l: "linked_back m (xs @ c # ys)"
  defines "cs' \<equiv> left_done (mm_chunks m) xs c @ right_done (mm_chunks m) ys"
  shows "\<exists>m'. dealloc k m (mm_addr m + k * c) = Inr m' \<and> mm_addr m' = mm_addr m \<and>
    tiled k m' cs' \<and> linked_back m' cs' \<and> blocks m' cs' = ff_free (k * c) (blocks m (xs @ c # ys))"
proof -
  let ?h = "mm_chunks m" and ?m1 = "merge_right m c (c_next (mm_chunks m c))"
  have lay: "lay k ?h 0 (xs @ c # ys) PAGESIZE" using t by (simp add: tiled_def)
  have idx: "c < CHUNK_BUF_SIZE k" by (rule lay_index [OF lay]) simp
  have run: "dealloc k m (mm_addr m + k * c) = Inr (merge_left ?m1 c (c_prev (?h c)))"
    using idx k_pos by (simp add: dealloc_def)
  have off: "\<And>d. d \<in> set (xs @ c # ys) \<Longrightarrow> c_offset (?h d) = k * d" using lay_mem [OF lay] by blast
  note right = merge_right_refines [OF t l]
  have dist: "distinct (xs @ c # ys)" by (rule tiled_distinct [OF t])
  show ?thesis
  proof (cases xs rule: rev_cases)
    case Nil
    with l have "c_prev (?h c) = None" by (simp add: linked_back_def)
    with run right Nil off show ?thesis
      by (simp add: merge_left_def cs'_def left_done_def blocks_def blk_def ff_free_here)
  next
    case (snoc ws a)
    with l have pa: "c_prev (?h c) = Some a" by (simp add: linked_back_def prevs_append)
    have "\<forall>x \<in> set (map (blk ?h) ws @ [blk ?h a]). fst x \<noteq> k * c"
      using snoc dist off k_pos by (auto simp: blk_def)
    from ff_free_skip [OF this] have spec: "ff_free (k * c) (blocks m (xs @ c # ys)) =
        map (blk ?h) ws @ join_left (blk ?h a) (join_right (k * c) (c_sz (?h c)) (map (blk ?h) ys))"
      using snoc off by (simp add: blocks_def blk_def)
    have asg: "c_assigned (mm_chunks ?m1 a) = c_assigned (?h a)"
      using dist snoc by (intro merge_right_assigned) auto
    have blk_a: "blk (mm_chunks ?m1) a = blk ?h a" and blk_ws: "map (blk (mm_chunks ?m1)) ws = map (blk ?h) ws"
      and blk_r: "blk (mm_chunks ?m1) c # map (blk (mm_chunks ?m1)) (right_done ?h ys) =
        join_right (k * c) (c_sz (?h c)) (map (blk ?h) ys)"
      using right(3) snoc by (auto simp: blocks_def append_eq_append_conv)
    show ?thesis
    proof (cases "c_assigned (?h a)")
      case True
      have "join_left (blk ?h a) bs = blk ?h a # bs" for bs
        using True by (cases bs) (auto simp: blk_def)
      with True run pa asg right snoc spec blk_r show ?thesis
        by (simp add: merge_left_def cs'_def left_done_def)
    next
      case False
      have t1: "tiled k ?m1 (ws @ a # c # right_done ?h ys)" "linked_back ?m1 (ws @ a # c # right_done ?h ys)"
        using right(1,2) snoc by simp_all
      have free1: "\<not> c_assigned (mm_chunks ?m1 a)" using False asg by simp
      note left = merge_left_refines [OF t1 free1]
      have "join_left (blk ?h a) (blk (mm_chunks ?m1) c # bs) =
          (c_offset (mm_chunks ?m1 a), c_sz (mm_chunks ?m1 a) + c_sz (mm_chunks ?m1 c), False) # bs" for bs
        using blk_a free1 by (simp add: blk_def)
      with False run pa left right(4) snoc spec blk_ws blk_r [symmetric] show ?thesis
        by (simp add: cs'_def left_done_def)
    qed
  qed
qed

end

subsection \<open>What the specification promises\<close>

text \<open>\<open>tiles b bs e\<close>: the blocks cover \<open>b\<close> to \<open>e\<close> in order, without gap or overlap.\<close>

fun tiles :: "nat \<Rightarrow> block list \<Rightarrow> nat \<Rightarrow> bool" where
  "tiles b [] e \<longleftrightarrow> b = e"
| "tiles b ((b', s, u) # bs) e \<longleftrightarrow> b' = b \<and> 0 < s \<and> tiles (b + nat s) bs e"

fun coalesced :: "block list \<Rightarrow> bool" where
  "coalesced ((b, s, u) # (b', s', u') # bs) \<longleftrightarrow> (u \<or> u') \<and> coalesced ((b', s', u') # bs)"
| "coalesced _ \<longleftrightarrow> True"

definition apart :: "nat \<Rightarrow> int \<Rightarrow> nat \<Rightarrow> int \<Rightarrow> bool" where
  "apart b s b' s' \<longleftrightarrow> b + nat s \<le> b' \<or> b' + nat s' \<le> b"

lemma tiled_blocks_tile: "tiled k m cs \<Longrightarrow> tiles 0 (blocks m cs) PAGESIZE"
proof -
  have "lay k h b cs e \<Longrightarrow> tiles b (map (blk h) cs) e" for h b e
    by (induction cs arbitrary: b) (auto simp: blk_def)
  then show "tiled k m cs \<Longrightarrow> tiles 0 (blocks m cs) PAGESIZE"
    by (simp add: tiled_def blocks_def)
qed

lemma tiles_le: "tiles b bs e \<Longrightarrow> b \<le> e"
  by (induction b bs e rule: tiles.induct) auto

lemma tiles_mem: "tiles b bs e \<Longrightarrow> (b', s, u) \<in> set bs \<Longrightarrow> b \<le> b' \<and> b' + nat s \<le> e \<and> 0 < s"
proof (induction b bs e rule: tiles.induct)
  case (2 b b0 s0 u0 bs e)
  then show ?case by (auto dest: tiles_le)
qed simp

lemma tiles_apart:
  "tiles b bs e \<Longrightarrow> (b1, s1, u1) \<in> set bs \<Longrightarrow> (b2, s2, u2) \<in> set bs \<Longrightarrow>
    (b1, s1, u1) = (b2, s2, u2) \<or> apart b1 s1 b2 s2"
proof (induction b bs e rule: tiles.induct)
  case (2 b b0 s0 u0 bs e)
  then show ?case
    using tiles_mem [of "b + nat s0" bs e b1 s1 u1] tiles_mem [of "b + nat s0" bs e b2 s2 u2]
    by (auto simp: apart_def)
qed simp

lemma ff_alloc_SomeD:
  "ff_alloc n bs = Some (a, bs') \<Longrightarrow>
    (a, n, True) \<in> set bs' \<and> (\<forall>x \<in> set bs. snd (snd x) \<longrightarrow> x \<in> set bs') \<and>
    (\<exists>s. (a, s, False) \<in> set bs \<and> n \<le> s)"
  by (induction n bs arbitrary: bs' rule: ff_alloc.induct) (fastforce split: if_splits)+

lemma ff_alloc_None: "ff_alloc n bs = None \<longleftrightarrow> (\<forall>(b, s, u) \<in> set bs. u \<or> s < n)"
  by (induction n bs rule: ff_alloc.induct) auto

lemma ff_alloc_tiles: "ff_alloc n bs = Some (a, bs') \<Longrightarrow> 0 < n \<Longrightarrow> tiles b bs e \<Longrightarrow> tiles b bs' e"
proof (induction n bs arbitrary: bs' b rule: ff_alloc.induct)
  case (2 n b0 s u bs)
  then show ?case by (auto split: if_splits simp: add.assoc simp flip: nat_add_distrib)
qed simp

lemma coalesced_Cons:
  "coalesced ((b, s, u) # bs) \<longleftrightarrow> (case bs of [] \<Rightarrow> True | (b', s', u') # _ \<Rightarrow> u \<or> u') \<and> coalesced bs"
  by (cases bs) auto

lemma ff_alloc_coalesced: "ff_alloc n bs = Some (a, bs') \<Longrightarrow> coalesced bs \<Longrightarrow> coalesced bs'"
proof (induction n bs arbitrary: bs' rule: ff_alloc.induct)
  case (2 n b s u bs)
  show ?case
  proof (cases "\<not> u \<and> n \<le> s")
    case True
    with 2 show ?thesis by (auto simp: coalesced_Cons split: list.splits if_splits)
  next
    case False
    with 2 obtain cs where cs: "ff_alloc n bs = Some (a, cs)" "bs' = (b, s, u) # cs" by auto
    with 2 False have "coalesced cs" by (auto simp: coalesced_Cons)
    moreover have "case cs of [] \<Rightarrow> True | (b', s', u') # _ \<Rightarrow> u \<or> u'"
    proof (cases bs)
      case (Cons x xs)
      obtain b1 s1 u1 where x: "x = (b1, s1, u1)" by (cases x)
      with cs Cons 2(3) show ?thesis by (auto split: if_splits)
    qed (use cs in simp)
    ultimately show ?thesis using cs by (simp add: coalesced_Cons)
  qed
qed simp

lemma join_shape:
  "\<exists>s2 tl. join_right b s bs = (b, s2, False) # tl"
  "\<exists>s2 tl. join_left (b, s, u) bs = (b, s2, u) # tl"
  by (cases bs; auto)+

lemma ff_free_coalesced: "coalesced bs \<Longrightarrow> coalesced (ff_free a bs)"
proof (induction a bs rule: ff_free.induct)
  case (2 a b s u)
  then show ?case by simp
next
  case (3 a b s u b' s' u' bs)
  show ?case
  proof (cases "b = a")
    case True
    with 3 show ?thesis by (cases bs) (auto simp: coalesced_Cons split: list.splits)
  next
    case False
    show ?thesis
    proof (cases "b' = a")
      case True
      with 3(2) False show ?thesis by (cases bs) (auto simp: coalesced_Cons split: list.splits)
    next
      case b': False
      have "coalesced (ff_free a ((b', s', u') # bs))" using 3 False b' by simp
      moreover have "\<exists>s2 tl. ff_free a ((b', s', u') # bs) = (b', s2, u') # tl"
        using b' by (cases bs) (auto split: prod.splits simp: join_shape)
      ultimately show ?thesis using False b' 3(2) by (auto simp: coalesced_Cons)
    qed
  qed
qed simp

subsection \<open>The allocator of \<open>alloc.c\<close>\<close>

interpretation page8: page_heap MINALLOC
  by unfold_locales (simp_all add: MINALLOC_def PAGESIZE_def)

datatype heap_op = Alloc int | Dealloc nat

text \<open>A client's sequence of calls, with the pointers the calls of \<open>alloc\<close> returned.\<close>

fun run_heap :: "mman_t \<Rightarrow> heap_op list \<Rightarrow> fault + nat option list \<times> mman_t" where
  "run_heap m [] = Inr ([], m)"
| "run_heap m (Alloc n # ops) =
     ebind (alloc MINALLOC m n) (\<lambda>(r, m1).
       ebind (run_heap m1 ops) (\<lambda>(rs, m2). Inr (r # rs, m2)))"
| "run_heap m (Dealloc p # ops) = ebind (dealloc MINALLOC m p) (\<lambda>m1. run_heap m1 ops)"

definition start_heap :: "nat \<Rightarrow> mman_t" where
  "start_heap a = \<lparr>mm_addr = a, mm_chunk_list = Some 0,
     mm_chunks = (\<lambda>_. zero_chunk)(0 := zero_chunk\<lparr>c_sz := 4096\<rparr>)\<rparr>"

lemma start_heap_tiled: "tiled MINALLOC (start_heap a) [0]" "linked_back (start_heap a) [0]"
  by (simp_all add: tiled_def linked_back_def start_heap_def zero_chunk_def MINALLOC_def PAGESIZE_def)

lemma start_heap_blocks: "blocks (start_heap a) [0] = [(0, 4096, False)]"
  by (simp add: blocks_def blk_def start_heap_def zero_chunk_def)

text \<open>\<open>init_alloc\<close> sets up a page that is one free chunk of 4096 bytes, fully linked, and
  returns 0; when \<open>mmap\<close> fails it returns -1.\<close>

lemma init_alloc_ready:
  "init_alloc MINALLOC (Some a) static_mman = Inr (0, start_heap a) \<and>
   init_alloc MINALLOC None m = Inr (-1, m\<lparr>mm_addr := MAP_FAILED\<rparr>) \<and>
   tiled MINALLOC (start_heap a) [0] \<and> linked_back (start_heap a) [0] \<and>
   blocks (start_heap a) [0] = [(0, 4096, False)]"
  using start_heap_tiled start_heap_blocks
  by (simp add: init_alloc_def chunk_new_def CHUNK_BUF_SIZE_def MINALLOC_def PAGESIZE_def static_mman_def
      start_heap_def upd_chunk_def zero_chunk_def)

lemma alloc_first_fit:
  assumes "tiled MINALLOC m cs"
  shows "\<exists>r m' cs'. alloc MINALLOC m req = Inr (r, m') \<and> tiled MINALLOC m' cs' \<and>
    (if req mod 8 = 0 \<and> 8 \<le> req
     then (case ff_alloc req (blocks m cs) of
             None \<Rightarrow> r = None \<and> m' = m
           | Some (a, bs) \<Rightarrow> r = Some (mm_addr m + a) \<and> blocks m' cs' = bs)
     else r = None \<and> m' = m)"
proof (cases "req mod 8 = 0 \<and> 8 \<le> req")
  case True
  then have "req mod int MINALLOC = 0" "int MINALLOC \<le> req" by (simp_all add: MINALLOC_def)
  from page8.alloc_refines [OF assms this] True show ?thesis by (auto split: option.splits)
next
  case False
  with assms show ?thesis by (auto simp: alloc_def MINALLOC_def)
qed

text \<open>C38: On a page that is tiled by its chunks, \<open>alloc\<close> of a multiple of 8 refines first fit on the
  list of blocks: it never fails, returns the address of the first free block that is large enough
  and splits that block, or returns NULL and changes nothing when no free block is large enough;
  the page stays tiled. Other sizes give NULL and change nothing.\<close>

theorem alloc_refines_first_fit:
  assumes "tiled MINALLOC m cs"
  shows "\<exists>r m' cs'. alloc MINALLOC m req = Inr (r, m') \<and> tiled MINALLOC m' cs' \<and>
    (if req mod 8 = 0 \<and> 8 \<le> req
     then (case ff_alloc req (blocks m cs) of
             None \<Rightarrow> r = None \<and> m' = m
           | Some (a, bs) \<Rightarrow> r = Some (mm_addr m + a) \<and> blocks m' cs' = bs)
     else r = None \<and> m' = m)"
  using assms by (rule alloc_first_fit)

theorem alloc_refines_first_fit_witness:
  "\<exists>r m' cs'. alloc MINALLOC (start_heap 40) 32 = Inr (r, m') \<and> tiled MINALLOC m' cs' \<and>
     r = Some 40 \<and> blocks m' cs' = [(0, 32, True), (32, 4064, False)]"
  using alloc_refines_first_fit [OF start_heap_tiled(1), of 40 32]
  by (simp add: start_heap_blocks) (auto simp: start_heap_def)

text \<open>No double allocation by \<open>alloc\<close>: a returned range lies inside the page and apart from every
  block that was in use, and the blocks in use stay in use at their place and size.\<close>

theorem alloc_no_overlap:
  assumes "tiled MINALLOC m cs" and "alloc MINALLOC m req = Inr (Some p, m')"
  shows "mm_addr m \<le> p \<and> p + nat req \<le> mm_addr m + 4096 \<and>
    (\<exists>cs'. tiled MINALLOC m' cs' \<and>
      (\<forall>(b, s, u) \<in> set (blocks m cs). u \<longrightarrow>
         apart (p - mm_addr m) req b s \<and> (b, s, True) \<in> set (blocks m' cs')))"
proof -
  from assms(2) have req: "req mod 8 = 0 \<and> 8 \<le> req"
    by (auto simp: alloc_def MINALLOC_def split: if_splits)
  from alloc_first_fit [OF assms(1), of req] assms(2) req obtain cs' a bs where
    t': "tiled MINALLOC m' cs'" and ff: "ff_alloc req (blocks m cs) = Some (a, bs)"
    and p: "p = mm_addr m + a" and bs: "blocks m' cs' = bs"
    by (auto split: option.splits)
  have tl: "tiles 0 (blocks m cs) PAGESIZE" and tl': "tiles 0 bs PAGESIZE"
    using tiled_blocks_tile assms(1) t' bs by blast+
  have D: "(a, req, True) \<in> set bs" "\<forall>x \<in> set (blocks m cs). snd (snd x) \<longrightarrow> x \<in> set bs"
    and old: "\<exists>s. (a, s, False) \<in> set (blocks m cs) \<and> req \<le> s"
    using ff_alloc_SomeD [OF ff] by auto
  have "apart a req b s" if "(b, s, True) \<in> set (blocks m cs)" for b s
    using old tiles_apart [OF tl that] by (fastforce simp: apart_def)
  then show ?thesis
    using tiles_mem [OF tl' D(1)] D(2) p t' bs by (auto simp: PAGESIZE_def)
qed

theorem alloc_no_overlap_witness:
  "\<exists>p m'. alloc MINALLOC (start_heap 40) 32 = Inr (Some p, m') \<and> 40 \<le> p \<and> p + 32 \<le> 40 + 4096"
proof -
  have "\<exists>m'. alloc MINALLOC (start_heap 40) 32 = Inr (Some 40, m')"
    using alloc_first_fit [OF start_heap_tiled(1), of 40 32]
    by (simp add: start_heap_blocks) (auto simp: start_heap_def)
  then obtain m' where m': "alloc MINALLOC (start_heap 40) 32 = Inr (Some 40, m')" by blast
  from alloc_no_overlap [OF start_heap_tiled(1) this] m' show ?thesis
    by (auto simp: start_heap_def)
qed

lemma dealloc_release:
  assumes "tiled MINALLOC m cs" and "linked_back m cs" and "c \<in> set cs"
  shows "\<exists>m' cs'. dealloc MINALLOC m (mm_addr m + c_offset (mm_chunks m c)) = Inr m' \<and>
    tiled MINALLOC m' cs' \<and> linked_back m' cs' \<and>
    blocks m' cs' = ff_free (c_offset (mm_chunks m c)) (blocks m cs)"
proof -
  from assms(3) obtain xs ys where cs: "cs = xs @ c # ys" by (meson split_list)
  have "c_offset (mm_chunks m c) = MINALLOC * c"
    using assms(1,3) lay_mem by (auto simp: tiled_def)
  with page8.dealloc_refines [of m xs c ys] assms(1,2) cs show ?thesis by auto
qed

text \<open>C39: On a page that is tiled and whose \<open>prev\<close> pointers are right, \<open>dealloc\<close> of a chunk's
  address never fails and refines the release on the list of blocks (the block becomes free and is
  joined with its free neighbours); tiling and links are kept, and when no two free blocks were
  adjacent before, none are afterwards.\<close>

theorem dealloc_refines_release:
  assumes "tiled MINALLOC m cs" and "linked_back m cs" and "c \<in> set cs"
  shows "\<exists>m' cs'. dealloc MINALLOC m (mm_addr m + c_offset (mm_chunks m c)) = Inr m' \<and>
    tiled MINALLOC m' cs' \<and> linked_back m' cs' \<and>
    blocks m' cs' = ff_free (c_offset (mm_chunks m c)) (blocks m cs) \<and>
    (coalesced (blocks m cs) \<longrightarrow> coalesced (blocks m' cs'))"
  using dealloc_release [OF assms] by (metis ff_free_coalesced)

theorem dealloc_refines_release_witness:
  "\<exists>m'. dealloc MINALLOC (start_heap 40) 40 = Inr m' \<and> (\<exists>cs'. tiled MINALLOC m' cs')"
  using dealloc_refines_release [OF start_heap_tiled, of 0 40]
  by (auto simp: start_heap_def zero_chunk_def)

lemma alloc_loop_step:
  "0 < fuel \<Longrightarrow> alloc_loop fuel k m req None = Inr (None, m)"
  "0 < fuel \<Longrightarrow> alloc_loop fuel k m req (Some i) =
     (if c_assigned (mm_chunks m i) \<or> req > c_sz (mm_chunks m i)
      then alloc_loop (fuel - 1) k m req (c_next (mm_chunks m i)) else take_chunk k m i req)"
  by (cases fuel; simp)+

text \<open>\<open>alloc\<close> does not maintain the \<open>prev\<close> pointer of the chunk behind a chunk it splits, so the
  invariant \<open>linked_back\<close> is lost by an interior split, and a later \<open>dealloc\<close> joins chunks that are
  not adjacent: after the eight calls below the last \<open>alloc\<close> returns 10000, whose 16 bytes
  overlap the 8 bytes at 10008 that are still allocated.\<close>

theorem alloc_can_overlap_after_interior_split:
  "map_sum id fst (run_heap (start_heap 10000)
     [Alloc 32, Alloc 8, Dealloc 10000, Alloc 8, Alloc 8, Dealloc 10000, Dealloc 10032, Alloc 16]) =
   Inr [Some 10000, Some 10032, Some 10000, Some 10008, Some 10000] \<and>
   \<not> apart 10000 16 10008 8"
  by (simp add: start_heap_def zero_chunk_def upd_chunk_def alloc_def alloc_loop_step take_chunk_def chunk_new_def dealloc_def
      merge_right_def merge_left_def Let_def apart_def MINALLOC_def PAGESIZE_def CHUNK_BUF_SIZE_def)

end
