(* ===== verification/SSU_Ealloc.thy ===== *)
theory SSU_Ealloc
  imports SSU_Alloc
begin

text \<open>
  The growing heap of \<open>src/project5/ealloc.c\<close>: up to 16 pages, each managed as in \<open>alloc.c\<close> with a
  \<open>MINALLOC\<close> of 256, and mapped when no page in use can serve a request. The functions
  \<open>small_init_alloc\<close>, \<open>small_alloc\<close> and \<open>small_dealloc\<close> of the C file repeat the code of \<open>alloc.c\<close>
  for the page \<open>cmans[cmi]\<close>, so their models apply the definitions of \<open>SSU_Alloc\<close> to that page.
\<close>

subsection \<open>The state and the operations\<close>

definition EMINALLOC :: nat where "EMINALLOC = 256"

definition NCMANS :: nat where "NCMANS = 16"

record emman_t =
  e_cmans :: "nat \<Rightarrow> mman_t"
  e_sz :: nat

definition static_emman :: emman_t where
  "static_emman = \<lparr>e_cmans = (\<lambda>_. static_mman), e_sz = 0\<rparr>"

definition put_cman :: "nat \<Rightarrow> mman_t \<Rightarrow> emman_t \<Rightarrow> emman_t" where
  "put_cman cmi m e = e\<lparr>e_cmans := (e_cmans e)(cmi := m)\<rparr>"

definition small_init_alloc :: "nat option \<Rightarrow> emman_t \<Rightarrow> nat \<Rightarrow> fault + emman_t" where
  "small_init_alloc mmap_result e cmi =
     (if \<not> cmi < NCMANS then Inl Out_of_bounds
      else ebind (init_alloc EMINALLOC mmap_result (e_cmans e cmi)) (\<lambda>(_, m). Inr (put_cman cmi m e)))"

definition einit_alloc :: "emman_t \<Rightarrow> emman_t" where
  "einit_alloc e = e\<lparr>e_sz := 0\<rparr>"

definition ecleanup :: "emman_t \<Rightarrow> emman_t" where
  "ecleanup e = e\<lparr>e_sz := 0\<rparr>"

definition small_alloc :: "emman_t \<Rightarrow> nat \<Rightarrow> int \<Rightarrow> fault + nat option \<times> emman_t" where
  "small_alloc e cmi req =
     (if \<not> cmi < NCMANS then Inl Out_of_bounds
      else ebind (alloc EMINALLOC (e_cmans e cmi) req) (\<lambda>(res, m). Inr (res, put_cman cmi m e)))"

text \<open>The loop \<open>for (int cmi = 0; cmi < mman.sz; cmi++)\<close> of \<open>alloc\<close>, over the page numbers still
  to be tried.\<close>

fun ealloc_scan :: "emman_t \<Rightarrow> int \<Rightarrow> nat list \<Rightarrow> fault + nat option \<times> emman_t" where
  "ealloc_scan e req [] = Inr (None, e)"
| "ealloc_scan e req (cmi # cmis) =
     ebind (small_alloc e cmi req) (\<lambda>(res, e1).
       case res of Some p \<Rightarrow> Inr (Some p, e1) | None \<Rightarrow> ealloc_scan e1 req cmis)"

definition ealloc :: "nat option \<Rightarrow> emman_t \<Rightarrow> int \<Rightarrow> fault + nat option \<times> emman_t" where
  "ealloc mmap_result e req =
     ebind (ealloc_scan e req [0..<e_sz e]) (\<lambda>(res, e1).
       case res of
         Some p \<Rightarrow> Inr (Some p, e1)
       | None \<Rightarrow>
           ebind (small_init_alloc mmap_result e1 (e_sz e1)) (\<lambda>e2.
             ebind (small_alloc e2 (e_sz e2) req) (\<lambda>(r, e3).
               Inr (r, e3\<lparr>e_sz := e_sz e3 + 1\<rparr>))))"

definition small_dealloc :: "emman_t \<Rightarrow> nat \<Rightarrow> nat \<Rightarrow> fault + emman_t" where
  "small_dealloc e cmi ptr =
     (if \<not> cmi < NCMANS then Inl Out_of_bounds
      else ebind (dealloc EMINALLOC (e_cmans e cmi) ptr) (\<lambda>m. Inr (put_cman cmi m e)))"

fun edealloc_scan :: "emman_t \<Rightarrow> nat \<Rightarrow> nat list \<Rightarrow> fault + emman_t" where
  "edealloc_scan e ptr [] = Inr e"
| "edealloc_scan e ptr (cmi # cmis) =
     (if \<not> cmi < NCMANS then Inl Out_of_bounds
      else
        (let l_addr = mm_addr (e_cmans e cmi); r_addr = l_addr + PAGESIZE in
         if l_addr \<le> ptr \<and> ptr < r_addr then small_dealloc e cmi ptr
         else edealloc_scan e ptr cmis))"

definition edealloc :: "emman_t \<Rightarrow> nat \<Rightarrow> fault + emman_t" where
  "edealloc e ptr = edealloc_scan e ptr [0..<e_sz e]"

subsection \<open>The invariant\<close>

definition page_at :: "emman_t \<Rightarrow> nat \<Rightarrow> nat set" where
  "page_at e i = {mm_addr (e_cmans e i) ..< mm_addr (e_cmans e i) + PAGESIZE}"

definition pages_ok :: "emman_t \<Rightarrow> bool" where
  "pages_ok e \<longleftrightarrow> e_sz e \<le> NCMANS \<and>
     (\<forall>i < e_sz e. \<exists>cs. tiled EMINALLOC (e_cmans e i) cs) \<and>
     (\<forall>i < e_sz e. \<forall>j < e_sz e. i \<noteq> j \<longrightarrow> page_at e i \<inter> page_at e j = {})"

text \<open>What \<open>mmap\<close> promises: a mapped page overlaps no page mapped before.\<close>

definition fresh_page :: "emman_t \<Rightarrow> nat \<Rightarrow> bool" where
  "fresh_page e a \<longleftrightarrow> (\<forall>i < e_sz e. {a ..< a + PAGESIZE} \<inter> page_at e i = {})"

definition valid_req :: "int \<Rightarrow> bool" where
  "valid_req req \<longleftrightarrow> req mod 256 = 0 \<and> 256 \<le> req"

text \<open>The page \<open>i\<close> has a free block of at least \<open>req\<close> bytes.\<close>

definition page_serves :: "emman_t \<Rightarrow> int \<Rightarrow> nat \<Rightarrow> bool" where
  "page_serves e req i \<longleftrightarrow>
     valid_req req \<and> (\<exists>cs. tiled EMINALLOC (e_cmans e i) cs \<and> ff_alloc req (blocks (e_cmans e i) cs) \<noteq> None)"

interpretation page256: page_heap EMINALLOC
  by unfold_locales (simp_all add: EMINALLOC_def PAGESIZE_def)

lemma valid_req_iff: "valid_req req \<longleftrightarrow> req mod int EMINALLOC = 0 \<and> int EMINALLOC \<le> req"
  by (simp add: valid_req_def EMINALLOC_def)

lemma tiled_unique: "tiled k m cs \<Longrightarrow> tiled k m cs' \<Longrightarrow> cs = cs'"
proof -
  have "seg h p cs None \<Longrightarrow> seg h p cs' None \<Longrightarrow> cs = cs'" for h p
  proof (induction cs arbitrary: p cs')
    case Nil
    then show ?case by (cases cs') auto
  next
    case (Cons c cs)
    then show ?case by (cases cs') auto
  qed
  then show "tiled k m cs \<Longrightarrow> tiled k m cs' \<Longrightarrow> cs = cs'" by (auto simp: tiled_def)
qed

lemma put_cman_simps [simp]:
  "e_cmans (put_cman i m e) = (e_cmans e)(i := m)"
  "e_sz (put_cman i m e) = e_sz e"
  by (simp_all add: put_cman_def)

lemma put_cman_same [simp]: "put_cman i (e_cmans e i) e = e"
  by (simp add: put_cman_def)

lemma page_serves_iff:
  "tiled EMINALLOC (e_cmans e i) cs \<Longrightarrow>
    page_serves e req i \<longleftrightarrow> valid_req req \<and> ff_alloc req (blocks (e_cmans e i) cs) \<noteq> None"
  unfolding page_serves_def using tiled_unique by metis

lemma small_alloc_refuses:
  assumes "tiled EMINALLOC (e_cmans e i) cs" and "i < NCMANS" and "\<not> page_serves e req i"
  shows "small_alloc e i req = Inr (None, e)"
proof (cases "valid_req req")
  case True
  with assms page_serves_iff have "ff_alloc req (blocks (e_cmans e i) cs) = None" by blast
  with page256.alloc_refines [OF assms(1), of req] True
  have "alloc EMINALLOC (e_cmans e i) req = Inr (None, e_cmans e i)" by (auto simp: valid_req_iff)
  with assms(2) show ?thesis by (simp add: small_alloc_def)
next
  case False
  with assms(2) show ?thesis by (auto simp: small_alloc_def alloc_def valid_req_iff)
qed

lemma small_alloc_serves:
  assumes "tiled EMINALLOC (e_cmans e i) cs" and "i < NCMANS" and "page_serves e req i"
  obtains a bs m cs' where "small_alloc e i req = Inr (Some (mm_addr m + a), put_cman i m e)"
    and "tiled EMINALLOC m cs'" and "mm_addr m = mm_addr (e_cmans e i)"
    and "ff_alloc req (blocks (e_cmans e i) cs) = Some (a, bs)" and "blocks m cs' = bs"
proof -
  from assms have v: "valid_req req" and "ff_alloc req (blocks (e_cmans e i) cs) \<noteq> None"
    by (simp_all add: page_serves_iff)
  then obtain a bs where ff: "ff_alloc req (blocks (e_cmans e i) cs) = Some (a, bs)" by auto
  with page256.alloc_refines [OF assms(1), of req] v obtain m cs' where
    "alloc EMINALLOC (e_cmans e i) req = Inr (Some (mm_addr (e_cmans e i) + a), m)"
    "tiled EMINALLOC m cs'" "mm_addr m = mm_addr (e_cmans e i)" "blocks m cs' = bs"
    by (auto simp: valid_req_iff)
  with assms(2) ff show thesis by (intro that [of m a cs' bs]) (simp_all add: small_alloc_def)
qed

lemma pages_ok_put:
  assumes "pages_ok e" and "tiled EMINALLOC m cs" and "mm_addr m = mm_addr (e_cmans e i)"
  shows "pages_ok (put_cman i m e)"
  using assms by (auto simp: pages_ok_def page_at_def)

lemma ealloc_scan_refuses:
  assumes "pages_ok e" and "set is \<subseteq> {..<e_sz e}" and "\<forall>i \<in> set is. \<not> page_serves e req i"
  shows "ealloc_scan e req is = Inr (None, e)"
  using assms(2,3)
proof (induction "is")
  case (Cons i "is")
  then obtain cs where "tiled EMINALLOC (e_cmans e i) cs" "i < NCMANS"
    using assms(1) by (fastforce simp: pages_ok_def)
  with Cons small_alloc_refuses show ?case by simp
qed simp

lemma ealloc_scan_first:
  assumes "pages_ok e" and "set (is @ i # js) \<subseteq> {..<e_sz e}"
    and "\<forall>j \<in> set is. \<not> page_serves e req j" and "small_alloc e i req = Inr (Some p, e1)"
  shows "ealloc_scan e req (is @ i # js) = Inr (Some p, e1)"
  using assms(2,3)
proof (induction "is")
  case Nil
  with assms(4) show ?case by simp
next
  case (Cons j "is")
  then obtain cs where "tiled EMINALLOC (e_cmans e j) cs" "j < NCMANS"
    using assms(1) by (fastforce simp: pages_ok_def)
  with Cons small_alloc_refuses show ?case by simp
qed

lemma small_init_alloc_page:
  assumes "cmi < NCMANS"
  obtains m where "small_init_alloc (Some a) e cmi = Inr (put_cman cmi m e)" and "mm_addr m = a"
    and "tiled EMINALLOC m [0]" and "blocks m [0] = [(0, 4096, False)]"
proof -
  obtain r m where "init_alloc EMINALLOC (Some a) (e_cmans e cmi) = Inr (r, m)" "mm_addr m = a"
    "tiled EMINALLOC m [0]" "blocks m [0] = [(0, 4096, False)]"
    by (auto simp: init_alloc_def chunk_new_def CHUNK_BUF_SIZE_def EMINALLOC_def PAGESIZE_def upd_chunk_def
        zero_chunk_def tiled_def blocks_def blk_def)
  with assms show thesis by (intro that [of m]) (simp_all add: small_init_alloc_def)
qed

definition upto_page :: "int \<Rightarrow> bool" where
  "upto_page req \<longleftrightarrow> valid_req req \<and> req \<le> 4096"

lemma pages_ok_grow:
  assumes "pages_ok e" and "e_sz e < NCMANS" and "fresh_page e (mm_addr m)" and "tiled EMINALLOC m cs"
  shows "pages_ok ((put_cman (e_sz e) m e)\<lparr>e_sz := Suc (e_sz e)\<rparr>)"
  using assms by (auto simp: pages_ok_def fresh_page_def page_at_def less_Suc_eq Int_commute)

lemma ealloc_new_page:
  assumes ok: "pages_ok e" and sz: "e_sz e < NCMANS" and fr: "fresh_page e a"
    and no: "\<forall>i < e_sz e. \<not> page_serves e req i"
  shows "\<exists>m. ealloc (Some a) e req =
      Inr (if upto_page req then Some a else None, (put_cman (e_sz e) m e)\<lparr>e_sz := Suc (e_sz e)\<rparr>) \<and>
    mm_addr m = a \<and> (\<exists>cs. tiled EMINALLOC m cs)"
proof -
  have scan: "ealloc_scan e req [0..<e_sz e] = Inr (None, e)"
    using ok no by (intro ealloc_scan_refuses) auto
  from small_init_alloc_page [OF sz] obtain m where
    m: "small_init_alloc (Some a) e (e_sz e) = Inr (put_cman (e_sz e) m e)" "mm_addr m = a"
      "tiled EMINALLOC m [0]" "blocks m [0] = [(0, 4096, False)]" by blast
  let ?e = "put_cman (e_sz e) m e"
  have t: "tiled EMINALLOC (e_cmans ?e (e_sz e)) [0]" using m by simp
  have serves: "page_serves ?e req (e_sz e) \<longleftrightarrow> upto_page req"
    using m by (simp add: page_serves_iff [OF t] upto_page_def)
  show ?thesis
  proof (cases "upto_page req")
    case True
    with serves small_alloc_serves [OF t sz] obtain a' bs m' cs' where
      "small_alloc ?e (e_sz e) req = Inr (Some (mm_addr m' + a'), put_cman (e_sz e) m' ?e)"
      "tiled EMINALLOC m' cs'" "mm_addr m' = a" "ff_alloc req (blocks m [0]) = Some (a', bs)"
      using m by (metis fun_upd_same put_cman_simps(1))
    with True scan m show ?thesis
      by (intro exI [of _ m']) (auto simp: ealloc_def put_cman_def split: if_splits)
  next
    case False
    with serves small_alloc_refuses [OF t sz, of req] scan m show ?thesis
      by (intro exI [of _ m]) (auto simp: ealloc_def)
  qed
qed

lemma ealloc_old_page:
  assumes ok: "pages_ok e" and i: "i < e_sz e" "page_serves e req i"
    and before: "\<forall>j < i. \<not> page_serves e req j"
  shows "\<exists>p m cs. (\<forall>mr. ealloc mr e req = Inr (Some p, put_cman i m e)) \<and> tiled EMINALLOC m cs \<and>
    mm_addr m = mm_addr (e_cmans e i) \<and> {p ..< p + nat req} \<subseteq> page_at e i"
proof -
  have iN: "i < NCMANS" using ok i(1) by (simp add: pages_ok_def)
  obtain cs where t: "tiled EMINALLOC (e_cmans e i) cs"
    using ok i(1) unfolding pages_ok_def by blast
  obtain a bs m cs' where
    s: "small_alloc e i req = Inr (Some (mm_addr m + a), put_cman i m e)" "tiled EMINALLOC m cs'"
      "mm_addr m = mm_addr (e_cmans e i)" "ff_alloc req (blocks (e_cmans e i) cs) = Some (a, bs)"
      "blocks m cs' = bs" by (rule small_alloc_serves [OF t iN i(2)])
  have upt: "[0..<e_sz e] = [0..<i] @ i # [Suc i..<e_sz e]"
    using i(1) upt_add_eq_append [of 0 i "e_sz e - i"] by (simp add: upt_conv_Cons)
  have sub: "set ([0..<i] @ i # [Suc i..<e_sz e]) \<subseteq> {..<e_sz e}" using i(1) by auto
  have none: "\<forall>j \<in> set [0..<i]. \<not> page_serves e req j" using before by simp
  have "ealloc_scan e req [0..<e_sz e] = Inr (Some (mm_addr m + a), put_cman i m e)"
    unfolding upt by (rule ealloc_scan_first [OF ok sub none s(1)])
  then have "ealloc mr e req = Inr (Some (mm_addr m + a), put_cman i m e)" for mr
    by (simp add: ealloc_def)
  moreover have "a + nat req \<le> PAGESIZE"
    using tiles_mem [OF tiled_blocks_tile [OF s(2)], of a req True] ff_alloc_SomeD [OF s(4)] s(5) by simp
  then have "{mm_addr m + a ..< mm_addr m + a + nat req} \<subseteq> page_at e i"
    unfolding page_at_def s(3) by auto
  ultimately show ?thesis using s(2,3) by blast
qed

text \<open>C40: \<open>alloc\<close> of \<open>ealloc.c\<close> for a valid size (a positive multiple of 256 up to 4096) while fewer than the four pages of the specification are in use: it
  succeeds and keeps the pages tiled and disjoint. When some page can serve the
  request, the first such page serves it, the returned range lies in that page, every other page
  and the number of pages are unchanged, and \<open>mmap\<close> is not used. Otherwise exactly one page is mapped and appended, and the
  request is served from its start.\<close>

theorem ealloc_first_page_or_grow:
  assumes "pages_ok e" and "e_sz e < 4" and "fresh_page e a" and "upto_page req"
  shows "\<exists>p e'. ealloc (Some a) e req = Inr (Some p, e') \<and> pages_ok e' \<and> e_sz e' \<le> 4 \<and>
    (case find_slot (page_serves e req) [0..<e_sz e] of
       Some i \<Rightarrow> e_sz e' = e_sz e \<and> (\<forall>j. j \<noteq> i \<longrightarrow> e_cmans e' j = e_cmans e j) \<and>
         {p ..< p + nat req} \<subseteq> page_at e i \<and> ealloc None e req = Inr (Some p, e')
     | None \<Rightarrow> e_sz e' = Suc (e_sz e) \<and> (\<forall>j < e_sz e. e_cmans e' j = e_cmans e j) \<and> p = a \<and> page_at e' (e_sz e) = {a ..< a + 4096})"
proof (cases "find_slot (page_serves e req) [0..<e_sz e]")
  case None
  then have no: "\<forall>i < e_sz e. \<not> page_serves e req i" by (simp add: find_slot_None)
  have sz: "e_sz e < NCMANS" using assms(2) by (simp add: NCMANS_def)
  from ealloc_new_page [OF assms(1) sz assms(3) no] obtain m cs where
    "ealloc (Some a) e req = Inr (Some a, (put_cman (e_sz e) m e)\<lparr>e_sz := Suc (e_sz e)\<rparr>)"
    "mm_addr m = a" "tiled EMINALLOC m cs"
    using assms(4) by auto
  with None assms sz pages_ok_grow [of e m cs] show ?thesis
    by (simp add: page_at_def PAGESIZE_def)
next
  case (Some i)
  then have i: "i < e_sz e" "page_serves e req i" "\<forall>j < i. \<not> page_serves e req j"
    by (auto simp: find_slot_Some)
  from ealloc_old_page [OF assms(1) i] obtain p m cs where
    "ealloc (Some a) e req = Inr (Some p, put_cman i m e)" "ealloc None e req = Inr (Some p, put_cman i m e)"
    "tiled EMINALLOC m cs" "mm_addr m = mm_addr (e_cmans e i)" "{p ..< p + nat req} \<subseteq> page_at e i" by auto
  with Some assms pages_ok_put [of e m cs i] show ?thesis by simp
qed

lemma pages_ok_init: "pages_ok (einit_alloc e)" "fresh_page (einit_alloc e) a"
  by (simp_all add: pages_ok_def fresh_page_def einit_alloc_def)

theorem ealloc_first_page_or_grow_witness:
  "\<exists>e'. ealloc (Some 4096) (einit_alloc static_emman) 512 = Inr (Some 4096, e') \<and> pages_ok e' \<and> e_sz e' = 1"
  using ealloc_first_page_or_grow [OF pages_ok_init(1) _ pages_ok_init(2), where a = 4096 and req = 512]
  by (auto simp: einit_alloc_def upto_page_def valid_req_def)

lemma edealloc_scan_page:
  assumes "set (is @ i # js) \<subseteq> {..<NCMANS}" and "\<forall>j \<in> set is. ptr \<notin> page_at e j" and "ptr \<in> page_at e i"
  shows "edealloc_scan e ptr (is @ i # js) = small_dealloc e i ptr"
  using assms by (induction "is") (auto simp: page_at_def)

lemma edealloc_scan_none:
  "set is \<subseteq> {..<NCMANS} \<Longrightarrow> \<forall>j \<in> set is. ptr \<notin> page_at e j \<Longrightarrow> edealloc_scan e ptr is = Inr e"
  by (induction "is") (auto simp: page_at_def)

lemma edealloc_page:
  assumes "pages_ok e" and "i < e_sz e" and "ptr \<in> page_at e i"
  shows "edealloc e ptr = small_dealloc e i ptr"
proof -
  have upt: "[0..<e_sz e] = [0..<i] @ i # [Suc i..<e_sz e]"
    using assms(2) upt_add_eq_append [of 0 i "e_sz e - i"] by (simp add: upt_conv_Cons)
  have sub: "set ([0..<i] @ i # [Suc i..<e_sz e]) \<subseteq> {..<NCMANS}"
    using assms(1,2) by (auto simp: pages_ok_def)
  have other: "\<forall>j \<in> set [0..<i]. ptr \<notin> page_at e j"
  proof
    fix j assume "j \<in> set [0..<i]"
    then have "page_at e j \<inter> page_at e i = {}" using assms(1,2) unfolding pages_ok_def by simp
    then show "ptr \<notin> page_at e j" using assms(3) by blast
  qed
  show ?thesis unfolding edealloc_def upt by (rule edealloc_scan_page [OF sub other assms(3)])
qed

text \<open>\<open>dealloc\<close> of \<open>ealloc.c\<close> finds the page of the pointer and changes that page only. When the
  \<open>prev\<close> pointers of the page are right, the chunk at the pointer is released and joined
  with its free neighbours, and the pages stay tiled and disjoint. A pointer into no page is ignored.\<close>

theorem edealloc_frees_in_its_page:
  assumes "pages_ok e"
  shows "(\<forall>i < e_sz e. \<forall>cs. \<forall>c \<in> set cs. tiled EMINALLOC (e_cmans e i) cs \<longrightarrow>
      linked_back (e_cmans e i) cs \<longrightarrow>
      (\<exists>m cs'. edealloc e (mm_addr (e_cmans e i) + c_offset (mm_chunks (e_cmans e i) c)) = Inr (put_cman i m e) \<and>
        tiled EMINALLOC m cs' \<and> linked_back m cs' \<and> pages_ok (put_cman i m e) \<and>
        blocks m cs' = ff_free (c_offset (mm_chunks (e_cmans e i) c)) (blocks (e_cmans e i) cs))) \<and>
    (\<forall>ptr. (\<forall>i < e_sz e. ptr \<notin> page_at e i) \<longrightarrow> edealloc e ptr = Inr e)"
proof (intro conjI allI impI ballI)
  fix i cs c
  assume i: "i < e_sz e" and c: "c \<in> set cs" and t: "tiled EMINALLOC (e_cmans e i) cs"
    and l: "linked_back (e_cmans e i) cs"
  let ?m = "e_cmans e i"
  have lay: "lay EMINALLOC (mm_chunks ?m) 0 cs PAGESIZE" using t by (simp add: tiled_def)
  have off: "c_offset (mm_chunks ?m c) = EMINALLOC * c" using lay_mem [OF lay c] by blast
  have "(c_offset (mm_chunks ?m c), c_sz (mm_chunks ?m c), c_assigned (mm_chunks ?m c)) \<in> set (blocks ?m cs)"
    using c by (auto simp: blocks_def blk_def)
  then have "c_offset (mm_chunks ?m c) < PAGESIZE"
    using tiles_mem [OF tiled_blocks_tile [OF t]] by fastforce
  then have "mm_addr ?m + c_offset (mm_chunks ?m c) \<in> page_at e i" by (simp add: page_at_def)
  note run = edealloc_page [OF assms i this]
  from c obtain xs ys where cs: "cs = xs @ c # ys" by (meson split_list)
  obtain m cs' where m: "dealloc EMINALLOC ?m (mm_addr ?m + EMINALLOC * c) = Inr m"
    "mm_addr m = mm_addr ?m" "tiled EMINALLOC m cs'" "linked_back m cs'"
    "blocks m cs' = ff_free (EMINALLOC * c) (blocks ?m cs)"
    using page256.dealloc_refines [of ?m xs c ys] t l cs by blast
  have "i < NCMANS" using assms i by (simp add: pages_ok_def)
  with m(1) run off have "edealloc e (mm_addr ?m + c_offset (mm_chunks ?m c)) = Inr (put_cman i m e)"
    by (simp add: small_dealloc_def)
  with m off pages_ok_put [OF assms m(3) m(2)]
  show "\<exists>m cs'. edealloc e (mm_addr ?m + c_offset (mm_chunks ?m c)) = Inr (put_cman i m e) \<and>
        tiled EMINALLOC m cs' \<and> linked_back m cs' \<and> pages_ok (put_cman i m e) \<and>
        blocks m cs' = ff_free (c_offset (mm_chunks ?m c)) (blocks ?m cs)" by auto
next
  fix ptr assume "\<forall>i < e_sz e. ptr \<notin> page_at e i"
  then show "edealloc e ptr = Inr e"
    using assms by (auto simp: edealloc_def pages_ok_def intro: edealloc_scan_none)
qed

definition one_page :: emman_t where
  "one_page = \<lparr>e_cmans = (\<lambda>_. start_heap 8192), e_sz = 1\<rparr>"

lemma one_page_tiled: "tiled EMINALLOC (e_cmans one_page 0) [0]" "linked_back (e_cmans one_page 0) [0]"
  by (simp_all add: tiled_def linked_back_def one_page_def start_heap_def zero_chunk_def EMINALLOC_def PAGESIZE_def)

lemma one_page_ok: "pages_ok one_page"
proof -
  have "e_sz one_page = 1" by (simp add: one_page_def)
  with one_page_tiled(1) show ?thesis unfolding pages_ok_def by (auto simp: NCMANS_def)
qed

theorem edealloc_frees_in_its_page_witness:
  "\<exists>m. edealloc one_page 8192 = Inr (put_cman 0 m one_page) \<and> edealloc one_page 4096 = Inr one_page"
proof -
  have "e_sz one_page = 1" "mm_addr (e_cmans one_page 0) = 8192"
    "c_offset (mm_chunks (e_cmans one_page 0) 0) = 0" "4096 \<notin> page_at one_page 0"
    by (simp_all add: one_page_def start_heap_def zero_chunk_def page_at_def)
  with edealloc_frees_in_its_page [OF one_page_ok] one_page_tiled show ?thesis
    by (metis One_nat_def add_0_right less_Suc0 list.set_intros(1))
qed

text \<open>With 16 pages in use, a request that no page can serve (for instance one that is no multiple
  of 256) makes \<open>alloc\<close> of \<open>ealloc.c\<close> write behind the array \<open>cmans[16]\<close>; such requests themselves
  use up the pages, one by one.\<close>

theorem ealloc_overruns_cmans:
  assumes "pages_ok e" and "\<forall>i < e_sz e. \<not> page_serves e req i"
  shows "(e_sz e = 16 \<longrightarrow> ealloc mr e req = Inl Out_of_bounds) \<and>
    (e_sz e < 16 \<and> \<not> valid_req req \<and> fresh_page e a \<longrightarrow>
      (\<exists>e'. ealloc (Some a) e req = Inr (None, e') \<and> e_sz e' = Suc (e_sz e)))"
proof (intro conjI impI)
  have scan: "ealloc_scan e req [0..<e_sz e] = Inr (None, e)"
    using assms by (intro ealloc_scan_refuses) auto
  then show "ealloc mr e req = Inl Out_of_bounds" if "e_sz e = 16"
    using that by (simp add: ealloc_def small_init_alloc_def NCMANS_def)
  assume "e_sz e < 16 \<and> \<not> valid_req req \<and> fresh_page e a"
  then show "\<exists>e'. ealloc (Some a) e req = Inr (None, e') \<and> e_sz e' = Suc (e_sz e)"
    using ealloc_new_page [OF assms(1) _ _ assms(2), of a] by (auto simp: NCMANS_def upto_page_def)
qed

theorem ealloc_overruns_cmans_witness:
  "\<exists>e'. ealloc (Some 4096) (einit_alloc static_emman) 100 = Inr (None, e') \<and> e_sz e' = 1"
  using ealloc_overruns_cmans [OF pages_ok_init(1), of static_emman 100 None 4096] pages_ok_init(2)
  by (simp add: einit_alloc_def valid_req_def)

end
