(* ===== verification/SSU_Pthread.thy ===== *)
theory SSU_Pthread
  imports Prelude
begin

text \<open>
  The part of POSIX threads that the programs of \<open>src/project4\<close> use. The state of a program has a list with
  the control state of every thread, and for every mutex the index of its owner. \<open>pthread_mutex_lock\<close> is a step
  that is possible only while the mutex has no owner. A thread in \<open>pthread_cond_wait\<close> has given up the mutex and is in
  a control state \<open>waiting\<close>; \<open>pthread_cond_signal\<close> and \<open>pthread_cond_broadcast\<close> put one or all of them into
  the control state \<open>woken\<close>, from which the mutex is locked again. A waiting thread may also be woken without
  a signal, as POSIX allows. The lemmas tie the owner of a mutex to the control states in which it is held.
\<close>

type_synonym tid = nat

definition owned :: "tid option \<Rightarrow> ('p \<Rightarrow> bool) \<Rightarrow> 'p list \<Rightarrow> bool" where
  "owned m H ps \<longleftrightarrow> (\<forall>t. m = Some t \<longleftrightarrow> t < length ps \<and> H (ps ! t))"

text \<open>When a thread goes on to the control state \<open>l\<close>, the owner of a mutex changes exactly when \<open>l\<close> and the
  old control state differ in holding it.\<close>

lemma owned_update_iff:
  assumes "owned m H ps" "t < length ps" "H l \<longrightarrow> H (ps ! t) \<or> m = None"
  shows "owned m' H (ps[t := l]) \<longleftrightarrow> m' = (if H l = H (ps ! t) then m else if H l then Some t else None)"
proof -
  have o: "u < length ps \<and> H (ps ! u) \<longleftrightarrow> m = Some u" for u using assms(1) by (simp add: owned_def)
  define n where "n = (if H l = H (ps ! t) then m else if H l then Some t else None)"
  have "u < length (ps[t := l]) \<and> H (ps[t := l] ! u) \<longleftrightarrow> n = Some u" for u
  proof (cases "u = t")
    case True
    then show ?thesis using assms(2,3) o [of t] by (auto simp: n_def)
  next
    case False
    then show ?thesis using assms(2,3) o [of t] o [of u] by (auto simp: n_def)
  qed
  then have "owned m' H (ps[t := l]) \<longleftrightarrow> (\<forall>u. m' = Some u \<longleftrightarrow> n = Some u)" by (simp add: owned_def)
  also have "\<dots> \<longleftrightarrow> m' = n" by (cases m'; cases n) auto
  finally show ?thesis by (simp add: n_def)
qed

lemma owned_map: "(\<And>x. H (f x) = H x) \<Longrightarrow> owned m H (map f ps) \<longleftrightarrow> owned m H ps"
  by (simp add: owned_def) (metis (full_types) nth_map)

lemma owned_holder: "owned m H ps \<Longrightarrow> t < length ps \<Longrightarrow> H (ps ! t) \<Longrightarrow> m = Some t"
  by (simp add: owned_def)

lemma owned_unique: "owned m H ps \<Longrightarrow> t < length ps \<Longrightarrow> u < length ps \<Longrightarrow> H (ps ! t) \<Longrightarrow> H (ps ! u) \<Longrightarrow> t = u"
  using owned_holder [of m H ps t] owned_holder [of m H ps u] by simp

lemma owned_Some: "owned m H ps \<Longrightarrow> m = Some t \<Longrightarrow> t < length ps \<and> H (ps ! t)"
  unfolding owned_def by blast

lemma owned_slots:
  assumes "owned m H ps" "\<And>x. P x \<Longrightarrow> H x"
  shows "slots P ps \<le> 1"
proof -
  have "card {i. i < length ps \<and> P (ps ! i)} \<le> Suc 0"
    using owned_unique [OF assms(1)] assms(2) by (subst card_le_Suc0_iff_eq) auto
  then show ?thesis by (simp add: slots_def length_filter_conv_card)
qed

lemma slots_goto:
  "t < length ps \<Longrightarrow> int (slots P (ps[t := l])) = int (slots P ps) + of_bool (P l) - of_bool (P (ps ! t))"
  using slots_update [of t ps P l] by (cases "P l"; cases "P (ps ! t)") simp_all

lemma slots_pos: "t < length ps \<Longrightarrow> P (ps ! t) \<Longrightarrow> 1 \<le> int (slots P ps)"
  using slots_zero_iff [of P ps] by (cases "slots P ps") auto

subsection \<open>Systems of threads with an invariant\<close>

text \<open>The interface of a system of threads to the statements about what it can reach: the state in which it is started,
  its step relation and an invariant that every step keeps.\<close>

locale thread_system =
  fixes start :: "'s"
    and step :: "'s \<Rightarrow> 's \<Rightarrow> bool"
    and inv :: "'s \<Rightarrow> bool"
  assumes start_inv: "inv start"
    and step_inv: "inv s \<Longrightarrow> step s s' \<Longrightarrow> inv s'"
begin

definition reachable :: "'s \<Rightarrow> bool" where
  "reachable s \<longleftrightarrow> step\<^sup>*\<^sup>* start s"

lemma reachable_inv: "reachable s \<Longrightarrow> inv s"
  unfolding reachable_def by (induction rule: rtranclp_induct) (blast intro: start_inv step_inv)+

lemma reachable_step: "reachable s \<Longrightarrow> step s s' \<Longrightarrow> reachable s'"
  unfolding reachable_def by (rule rtranclp.rtrancl_into_rtrancl)

end

end
