(* ===== verification/SSU_Sem.thy ===== *)
theory SSU_Sem
  imports SSU_Pthread
begin

text \<open>
  The semaphore of \<open>src/project4/3/SSU_Sem.c\<close>. A control state of a thread is named after the call or statement it
  is about to execute; \<open>usleep\<close> has no effect on the state. The counters \<open>ups\<close> and \<open>downs\<close> record the
  increments and the calls of \<open>SSU_Sem_down\<close> whose loop has ended. The counter is a mathematical integer: it
  stays between the negative number of waiting threads and the number of increments.
\<close>

datatype sem_pc =
    Idle
  | D_lock_down | D_lock_counter | D_dec | D_test | D_waiting | D_woken | D_unlock_counter | D_unlock_down
  | U_lock_up | U_lock_counter | U_inc | U_broadcast | U_unlock_counter | U_unlock_up

record SSU_Sem =
  counter :: int
  mutex_counter :: "tid option"
  mutex_up :: "tid option"
  mutex_down :: "tid option"

record sem_sys =
  sem :: SSU_Sem
  pc :: "sem_pc list"
  ups :: nat
  downs :: nat

definition SSU_Sem_init :: "int \<Rightarrow> SSU_Sem" where
  "SSU_Sem_init value = \<lparr>counter = value, mutex_counter = None, mutex_up = None, mutex_down = None\<rparr>"

definition sem_goto :: "tid \<Rightarrow> sem_pc \<Rightarrow> sem_sys \<Rightarrow> sem_sys" where
  "sem_goto t l s = s\<lparr>pc := (pc s)[t := l]\<rparr>"

text \<open>One step of a thread inside \<open>SSU_Sem_down\<close>; \<open>None\<close> when the thread is not there or is blocked.\<close>

definition SSU_Sem_down :: "tid \<Rightarrow> sem_sys \<Rightarrow> sem_sys option" where
  "SSU_Sem_down t s =
     (let r = sem s in
      case pc s ! t of
        D_lock_down \<Rightarrow> if mutex_down r = None then Some (sem_goto t D_lock_counter (s\<lparr>sem := r\<lparr>mutex_down := Some t\<rparr>\<rparr>)) else None
      | D_lock_counter \<Rightarrow> if mutex_counter r = None then Some (sem_goto t D_dec (s\<lparr>sem := r\<lparr>mutex_counter := Some t\<rparr>\<rparr>)) else None
      | D_dec \<Rightarrow> Some (sem_goto t D_test (s\<lparr>sem := r\<lparr>counter := counter r - 1\<rparr>\<rparr>))
      | D_test \<Rightarrow>
          if counter r < 0 then Some (sem_goto t D_waiting (s\<lparr>sem := r\<lparr>mutex_counter := None\<rparr>\<rparr>))
          else Some (sem_goto t D_unlock_counter (s\<lparr>downs := downs s + 1\<rparr>))
      | D_woken \<Rightarrow> if mutex_counter r = None then Some (sem_goto t D_test (s\<lparr>sem := r\<lparr>mutex_counter := Some t\<rparr>\<rparr>)) else None
      | D_unlock_counter \<Rightarrow> Some (sem_goto t D_unlock_down (s\<lparr>sem := r\<lparr>mutex_counter := None\<rparr>\<rparr>))
      | D_unlock_down \<Rightarrow> Some (sem_goto t Idle (s\<lparr>sem := r\<lparr>mutex_down := None\<rparr>\<rparr>))
      | _ \<Rightarrow> None)"

definition broadcast_signal :: "sem_sys \<Rightarrow> sem_sys" where
  "broadcast_signal s = s\<lparr>pc := map (\<lambda>p. if p = D_waiting then D_woken else p) (pc s)\<rparr>"

definition SSU_Sem_up :: "tid \<Rightarrow> sem_sys \<Rightarrow> sem_sys option" where
  "SSU_Sem_up t s =
     (let r = sem s in
      case pc s ! t of
        U_lock_up \<Rightarrow> if mutex_up r = None then Some (sem_goto t U_lock_counter (s\<lparr>sem := r\<lparr>mutex_up := Some t\<rparr>\<rparr>)) else None
      | U_lock_counter \<Rightarrow> if mutex_counter r = None then Some (sem_goto t U_inc (s\<lparr>sem := r\<lparr>mutex_counter := Some t\<rparr>\<rparr>)) else None
      | U_inc \<Rightarrow> Some (sem_goto t U_broadcast (s\<lparr>sem := r\<lparr>counter := counter r + 1\<rparr>, ups := ups s + 1\<rparr>))
      | U_broadcast \<Rightarrow> Some (sem_goto t U_unlock_counter (broadcast_signal s))
      | U_unlock_counter \<Rightarrow> Some (sem_goto t U_unlock_up (s\<lparr>sem := r\<lparr>mutex_counter := None\<rparr>\<rparr>))
      | U_unlock_up \<Rightarrow> Some (sem_goto t Idle (s\<lparr>sem := r\<lparr>mutex_up := None\<rparr>\<rparr>))
      | _ \<Rightarrow> None)"

text \<open>The system: any number of threads, each of which calls \<open>SSU_Sem_down\<close> and \<open>SSU_Sem_up\<close> whenever it likes.
  A waiting thread may wake up without a signal, as POSIX allows.\<close>

definition sem_start :: "int \<Rightarrow> nat \<Rightarrow> sem_sys" where
  "sem_start v n = \<lparr>sem = SSU_Sem_init v, pc = replicate n Idle, ups = 0, downs = 0\<rparr>"

inductive sem_step :: "sem_sys \<Rightarrow> sem_sys \<Rightarrow> bool" where
  call_down: "t < length (pc s) \<Longrightarrow> pc s ! t = Idle \<Longrightarrow> sem_step s (sem_goto t D_lock_down s)"
| call_up: "t < length (pc s) \<Longrightarrow> pc s ! t = Idle \<Longrightarrow> sem_step s (sem_goto t U_lock_up s)"
| down: "t < length (pc s) \<Longrightarrow> SSU_Sem_down t s = Some s' \<Longrightarrow> sem_step s s'"
| up: "t < length (pc s) \<Longrightarrow> SSU_Sem_up t s = Some s' \<Longrightarrow> sem_step s s'"
| spurious: "t < length (pc s) \<Longrightarrow> pc s ! t = D_waiting \<Longrightarrow> sem_step s (sem_goto t D_woken s)"

fun holds_counter :: "sem_pc \<Rightarrow> bool" where
  "holds_counter l \<longleftrightarrow> l \<in> {D_dec, D_test, D_unlock_counter, U_inc, U_broadcast, U_unlock_counter}"

fun holds_down :: "sem_pc \<Rightarrow> bool" where
  "holds_down l \<longleftrightarrow> l \<in> {D_lock_counter, D_dec, D_test, D_waiting, D_woken, D_unlock_counter, D_unlock_down}"

fun holds_up :: "sem_pc \<Rightarrow> bool" where
  "holds_up l \<longleftrightarrow> l \<in> {U_lock_counter, U_inc, U_broadcast, U_unlock_counter, U_unlock_up}"

text \<open>A thread that has taken its unit but has not got it yet.\<close>

fun pending :: "sem_pc \<Rightarrow> bool" where
  "pending l \<longleftrightarrow> l \<in> {D_test, D_waiting, D_woken}"

definition sem_locks :: "sem_sys \<Rightarrow> bool" where
  "sem_locks s \<longleftrightarrow> owned (mutex_counter (sem s)) holds_counter (pc s) \<and> owned (mutex_down (sem s)) holds_down (pc s) \<and>
     owned (mutex_up (sem s)) holds_up (pc s)"

definition sem_count :: "int \<Rightarrow> sem_sys \<Rightarrow> bool" where
  "sem_count v s \<longleftrightarrow> counter (sem s) = v + int (ups s) - int (downs s) - int (slots pending (pc s)) \<and>
     (downs s = 0 \<or> int (downs s) \<le> v + int (ups s))"

definition sem_waits :: "sem_sys \<Rightarrow> bool" where
  "sem_waits s \<longleftrightarrow> (D_waiting \<in> set (pc s) \<longrightarrow> counter (sem s) < 0 \<or> U_broadcast \<in> set (pc s))"

definition sem_inv :: "int \<Rightarrow> sem_sys \<Rightarrow> bool" where
  "sem_inv v s \<longleftrightarrow> sem_locks s \<and> sem_count v s \<and> sem_waits s"

lemma sem_inv_start: "sem_inv v (sem_start v n)"
  by (auto simp: sem_inv_def sem_locks_def sem_count_def sem_waits_def sem_start_def SSU_Sem_init_def owned_def slots_def)

lemma sem_locksD:
  assumes "sem_locks s"
  shows "owned (mutex_counter (sem s)) holds_counter (pc s)" "owned (mutex_down (sem s)) holds_down (pc s)" "owned (mutex_up (sem s)) holds_up (pc s)"
  using assms by (simp_all add: sem_locks_def)

lemma sem_locks_down: 
  assumes s: "sem_locks s" and t: "t < length (pc s)" and d: "SSU_Sem_down t s = Some s'"
  shows "sem_locks s'"
proof -
  note u = sem_locksD [OF s, THEN owned_update_iff, OF t]
  show ?thesis using d
    by (cases "pc s ! t") (auto simp: SSU_Sem_down_def Let_def sem_goto_def sem_locks_def u split: if_splits)
qed

lemma sem_locks_broadcast: "sem_locks s \<Longrightarrow> sem_locks (broadcast_signal s)"
  by (simp add: sem_locks_def broadcast_signal_def owned_map)

lemma sem_locks_up:
  assumes s: "sem_locks s" and t: "t < length (pc s)" and d: "SSU_Sem_up t s = Some s'"
  shows "sem_locks s'"
proof (cases "pc s ! t = U_broadcast")
  case False
  note u = sem_locksD [OF s, THEN owned_update_iff, OF t]
  show ?thesis using d False
    by (cases "pc s ! t") (auto simp: SSU_Sem_up_def Let_def sem_goto_def sem_locks_def u split: if_splits)
next
  case True
  have b: "t < length (pc (broadcast_signal s))" "pc (broadcast_signal s) ! t = U_broadcast" using t True by (simp_all add: broadcast_signal_def)
  note u = sem_locksD [OF sem_locks_broadcast [OF s], THEN owned_update_iff, OF b(1)]
  have "s' = sem_goto t U_unlock_counter (broadcast_signal s)" using d True by (simp add: SSU_Sem_up_def Let_def)
  then show ?thesis using b(2) by (simp add: sem_goto_def sem_locks_def u)
qed

lemma slots_map_waiting: "slots pending (map (\<lambda>p. if p = D_waiting then D_woken else p) ps) = slots pending ps"
  by (induction ps) auto

lemma sem_count_down:
  assumes s: "sem_count v s" and t: "t < length (pc s)" and d: "SSU_Sem_down t s = Some s'"
  shows "sem_count v s'"
  using s d slots_pos [OF t, of pending]
  by (cases "pc s ! t") (auto simp: SSU_Sem_down_def Let_def sem_goto_def sem_count_def slots_goto [OF t] split: if_splits)

lemma sem_count_up:
  assumes s: "sem_count v s" and t: "t < length (pc s)" and d: "SSU_Sem_up t s = Some s'"
  shows "sem_count v s'"
  using s d t slots_goto [of t "map (\<lambda>p. if p = D_waiting then D_woken else p) (pc s)" pending]
  by (cases "pc s ! t") (auto simp: SSU_Sem_up_def Let_def sem_goto_def sem_count_def broadcast_signal_def slots_map_waiting slots_goto [OF t] split: if_splits)

lemma sem_waits_goto:
  assumes "sem_waits s" "t < length (pc s)" "l \<noteq> D_waiting" "pc s ! t \<noteq> U_broadcast" "counter (sem s') \<le> counter (sem s)" "pc s' = (pc s)[t := l]"
  shows "sem_waits s'"
proof -
  have "U_broadcast \<in> set ((pc s)[t := l])" if "U_broadcast \<in> set (pc s)"
    using that assms(2,4) by (auto simp: in_set_conv_nth) (metis length_list_update nth_list_update_neq)
  moreover have "D_waiting \<in> set (pc s)" if "D_waiting \<in> set ((pc s)[t := l])"
    using set_update_subset_insert [of "pc s" t l] that assms(3) by auto
  ultimately show ?thesis using assms(1,5,6) by (auto simp: sem_waits_def)
qed

lemma sem_waits_down:
  assumes s: "sem_waits s" and t: "t < length (pc s)" and d: "SSU_Sem_down t s = Some s'"
  shows "sem_waits s'"
proof (cases "pc s ! t = D_test \<and> counter (sem s) < 0")
  case True
  then show ?thesis using d by (auto simp: SSU_Sem_down_def sem_waits_def sem_goto_def Let_def)
next
  case False
  have "pc s ! t \<noteq> U_broadcast \<and> counter (sem s') \<le> counter (sem s) \<and> (\<exists>l. l \<noteq> D_waiting \<and> pc s' = (pc s)[t := l])"
    using d False by (cases "pc s ! t") (auto simp: SSU_Sem_down_def sem_goto_def Let_def split: if_splits)
  then show ?thesis using sem_waits_goto [OF s t] by blast
qed

lemma sem_waits_up:
  assumes s: "sem_waits s" and t: "t < length (pc s)" and d: "SSU_Sem_up t s = Some s'"
  shows "sem_waits s'"
proof -
  consider "pc s ! t = U_inc" | "pc s ! t = U_broadcast" | "pc s ! t \<noteq> U_inc" "pc s ! t \<noteq> U_broadcast" by blast
  then show ?thesis
  proof cases
    case 1
    then have "U_broadcast \<in> set (pc s')" using d t by (auto simp: SSU_Sem_up_def sem_goto_def Let_def set_update_memI)
    then show ?thesis by (simp add: sem_waits_def)
  next
    case 2
    then have "pc s' = (map (\<lambda>p. if p = D_waiting then D_woken else p) (pc s))[t := U_unlock_counter]"
      using d by (auto simp: SSU_Sem_up_def sem_goto_def broadcast_signal_def Let_def)
    then have "D_waiting \<notin> set (pc s')"
      using set_update_subset_insert [of "map (\<lambda>p. if p = D_waiting then D_woken else p) (pc s)" t U_unlock_counter] by (auto split: if_splits)
    then show ?thesis by (simp add: sem_waits_def)
  next
    case 3
    have "counter (sem s') \<le> counter (sem s) \<and> (\<exists>l. l \<noteq> D_waiting \<and> pc s' = (pc s)[t := l])"
      using d 3 by (cases "pc s ! t") (auto simp: SSU_Sem_up_def sem_goto_def Let_def split: if_splits)
    then show ?thesis using sem_waits_goto [OF s t _ 3(2)] by blast
  qed
qed

lemma sem_inv_move:
  assumes s: "sem_inv v s" and t: "t < length (pc s)"
    and l: "(pc s ! t = Idle \<and> l \<in> {D_lock_down, U_lock_up}) \<or> (pc s ! t = D_waiting \<and> l = D_woken)"
  shows "sem_inv v (sem_goto t l s)"
proof -
  have k: "sem_locks s" "sem_count v s" "sem_waits s" using s by (simp_all add: sem_inv_def)
  note u = sem_locksD [OF k(1), THEN owned_update_iff, OF t]
  have "sem_locks (sem_goto t l s)" using l by (auto simp: sem_locks_def sem_goto_def u)
  moreover have "sem_count v (sem_goto t l s)" using k(2) l by (auto simp: sem_count_def sem_goto_def slots_goto [OF t])
  moreover have "sem_waits (sem_goto t l s)" using l by (intro sem_waits_goto [OF k(3) t]) (auto simp: sem_goto_def)
  ultimately show ?thesis by (simp add: sem_inv_def)
qed

lemma sem_inv_step: "sem_inv v s \<Longrightarrow> sem_step s s' \<Longrightarrow> sem_inv v s'"
  by (erule sem_step.cases) (auto intro: sem_inv_move, auto simp: sem_inv_def intro: sem_locks_down sem_locks_up sem_count_down sem_count_up sem_waits_down sem_waits_up)

interpretation sem_threads: thread_system "sem_start v n" sem_step "sem_inv v" for v n
  by unfold_locales (rule sem_inv_start, rule sem_inv_step)

text \<open>No thread can go on by itself: every thread is outside, waiting for a signal, or blocked at a mutex.\<close>

definition sem_stuck :: "sem_sys \<Rightarrow> bool" where
  "sem_stuck s \<longleftrightarrow> (\<forall>t < length (pc s). SSU_Sem_down t s = None \<and> SSU_Sem_up t s = None)"

lemma stuck_pc:
  assumes inv: "sem_inv v s" and st: "sem_stuck s" and t: "t < length (pc s)"
  shows "pc s ! t \<in> {Idle, D_lock_down, D_waiting}"
proof -
  have k: "sem_locks s" using inv by (simp add: sem_inv_def)
  have n: "SSU_Sem_down u s = None" "SSU_Sem_up u s = None" if "u < length (pc s)" for u using st that by (simp_all add: sem_stuck_def)
  have free: "mutex_counter (sem s) = None"
  proof (cases "mutex_counter (sem s)")
    case (Some u)
    then have "u < length (pc s)" "holds_counter (pc s ! u)" using owned_Some [OF sem_locksD(1) [OF k]] by blast+
    then show ?thesis using n [of u] by (auto simp: SSU_Sem_down_def SSU_Sem_up_def Let_def split: if_splits)
  qed
  have up: "mutex_up (sem s) = None"
  proof (cases "mutex_up (sem s)")
    case (Some u)
    then have "u < length (pc s)" "holds_up (pc s ! u)" using owned_Some [OF sem_locksD(3) [OF k]] by blast+
    then show ?thesis using n [of u] free by (auto simp: SSU_Sem_down_def SSU_Sem_up_def Let_def split: if_splits)
  qed
  show ?thesis using n [OF t] free up
    by (cases "pc s ! t") (simp_all add: SSU_Sem_down_def SSU_Sem_up_def Let_def split: if_splits)
qed

text \<open>C13: the semaphore of \<open>SSU_Sem.c\<close>, for any number of threads that call \<open>SSU_Sem_down\<close> and
  \<open>SSU_Sem_up\<close> in any order and interleaving. The number of calls of \<open>SSU_Sem_down\<close> that got through never exceeds the
  initial value plus the number of increments. No wakeup is lost and no lock is left behind: when no thread can
  go on although some are inside a call, then all units are used up, and all of them are inside \<open>SSU_Sem_down\<close>.\<close>

theorem semaphore_correct:
  assumes "0 \<le> v" "sem_step\<^sup>*\<^sup>* (sem_start v n) s"
  shows "int (downs s) \<le> v + int (ups s) \<and>
    (sem_stuck s \<longrightarrow> (\<exists>t < length (pc s). pc s ! t \<noteq> Idle) \<longrightarrow>
      int (downs s) = v + int (ups s) \<and> (\<forall>t < length (pc s). pc s ! t \<in> {Idle, D_lock_down, D_waiting}))"
proof -
  have inv: "sem_inv v s" using sem_threads.reachable_inv [of v n s] assms(2) by (simp add: sem_threads.reachable_def)
  then have k: "sem_locks s" "sem_count v s" "sem_waits s" by (simp_all add: sem_inv_def)
  have le: "int (downs s) \<le> v + int (ups s)" using k(2) assms(1) by (auto simp: sem_count_def)
  have "int (downs s) = v + int (ups s)" if st: "sem_stuck s" and t: "t < length (pc s)" "pc s ! t \<noteq> Idle" for t
  proof -
    note p = stuck_pc [OF inv st]
    have "\<exists>u < length (pc s). pc s ! u = D_waiting"
    proof (cases "pc s ! t = D_waiting")
      case False
      then have "pc s ! t = D_lock_down" "SSU_Sem_down t s = None" using p [OF t(1)] t st by (auto simp: sem_stuck_def)
      then have "mutex_down (sem s) \<noteq> None" by (auto simp: SSU_Sem_down_def Let_def split: if_splits)
      then obtain u where u: "mutex_down (sem s) = Some u" by blast
      then have "u < length (pc s)" "holds_down (pc s ! u)" using owned_Some [OF sem_locksD(2) [OF k(1)]] by blast+
      then show ?thesis using p [of u] by auto
    qed (use t in blast)
    then obtain u where u: "u < length (pc s)" "pc s ! u = D_waiting" by blast
    have "U_broadcast \<notin> set (pc s)" using p by (fastforce simp: in_set_conv_nth)
    then have "counter (sem s) < 0" using k(3) nth_mem [OF u(1)] u(2) by (auto simp: sem_waits_def)
    moreover have "slots pending (pc s) \<le> 1" by (rule owned_slots [OF sem_locksD(2) [OF k(1)]]) auto
    ultimately show ?thesis using k(2) le by (simp add: sem_count_def)
  qed
  then show ?thesis using le stuck_pc [OF inv] by blast
qed

text \<open>A schedule: the listed threads make one step each, if they can; an idle thread calls \<open>SSU_Sem_down\<close> or \<open>SSU_Sem_up\<close>.\<close>

definition sem_move :: "tid \<times> bool \<Rightarrow> sem_sys \<Rightarrow> sem_sys" where
  "sem_move m s =
     (case m of (t, d) \<Rightarrow>
        if \<not> t < length (pc s) then s
        else if pc s ! t = Idle then sem_goto t (if d then D_lock_down else U_lock_up) s
        else case SSU_Sem_down t s of Some s' \<Rightarrow> s' | None \<Rightarrow> (case SSU_Sem_up t s of Some s' \<Rightarrow> s' | None \<Rightarrow> s))"

lemma sem_move_reach: "sem_step\<^sup>*\<^sup>* s (sem_move m s)"
  by (cases m) (auto simp: sem_move_def intro: call_down call_up down up split: option.splits)

lemma sem_schedule_reach: "sem_step\<^sup>*\<^sup>* s (fold sem_move ms s)"
  by (induction ms arbitrary: s) (auto intro: rtranclp_trans [OF sem_move_reach])

text \<open>Witness: with the value 1, thread 0 gets through \<open>SSU_Sem_down\<close>, and thread 1 waits in it.\<close>

theorem semaphore_correct_witness:
  "let s = fold sem_move (replicate 7 (0, True) @ replicate 5 (1, True)) (sem_start 1 2) in
   sem_stuck s \<and> pc s = [Idle, D_waiting] \<and> int (downs s) = 1 + int (ups s)"
proof -
  define s where "s = fold sem_move (replicate 7 (0, True) @ replicate 5 (1, True)) (sem_start 1 2)"
  have r: "sem_step\<^sup>*\<^sup>* (sem_start 1 2) s" unfolding s_def by (rule sem_schedule_reach)
  have p: "pc s = [Idle, D_waiting]"
    by (simp add: s_def numeral_eq_Suc sem_move_def sem_start_def SSU_Sem_init_def SSU_Sem_down_def sem_goto_def Let_def)
  then have st: "sem_stuck s" by (auto simp: sem_stuck_def SSU_Sem_down_def SSU_Sem_up_def Let_def less_Suc_eq)
  have "\<exists>t < length (pc s). pc s ! t \<noteq> Idle" using p by (intro exI [of _ 1]) simp
  then have "int (downs s) = 1 + int (ups s)" using semaphore_correct [of 1 2 s] r st by simp
  then show ?thesis unfolding Let_def s_def [symmetric] using p st by blast
qed

end
