(* ===== verification/SSU_RwLock.thy ===== *)
theory SSU_RwLock
  imports SSU_Pthread
begin

text \<open>
  The two reader-writer locks of \<open>src/project4/2\<close>: \<open>rw_lock-r-test.c\<close>, which prefers readers, and \<open>rw_lock-w-test.c\<close>,
  which prefers writers. They differ in the order of the two critical sections of \<open>r_lock\<close> and of \<open>w_lock\<close>.
  A control state is named after the statement the thread is about to execute. A reader is in the critical section of the client
  in the control state \<open>R_in\<close>, a writer in \<open>W_in\<close>.
\<close>

datatype rw_pc =
    Outside
  | RA_lock | RA_inc | RA_unlock
  | RB_lock | RB_test | RB_waiting | RB_woken | RB_unlock
  | R_in
  | RU_lock | RU_dec | RU_test | RU_unlock
  | WA_lock | WA_test | WA_waiting | WA_woken | WA_unlock
  | WB_lock | WB_inc | WB_unlock
  | WC_lock
  | W_in
  | WU_lock | WU_dec | WU_test | WU_unlock | WU_release

record rw_lock =
  num_readers :: int
  num_writers :: int
  cmutex_write :: "tid option"
  cmutex_read :: "tid option"
  mutex_write :: "tid option"

record rw_sys =
  rw :: rw_lock
  rpc :: "rw_pc list"

definition init_rwlock :: rw_lock where
  "init_rwlock = \<lparr>num_readers = 0, num_writers = 0, cmutex_write = None, cmutex_read = None, mutex_write = None\<rparr>"

definition rw_goto :: "tid \<Rightarrow> rw_pc \<Rightarrow> rw_lock \<Rightarrow> rw_sys \<Rightarrow> rw_sys" where
  "rw_goto t l r s = s\<lparr>rw := r, rpc := (rpc s)[t := l]\<rparr>"

definition broadcast_read :: "rw_sys \<Rightarrow> rw_sys" where
  "broadcast_read s = s\<lparr>rpc := map (\<lambda>p. if p = WA_waiting then WA_woken else p) (rpc s)\<rparr>"

definition broadcast_write :: "rw_sys \<Rightarrow> rw_sys" where
  "broadcast_write s = s\<lparr>rpc := map (\<lambda>p. if p = RB_waiting then RB_woken else p) (rpc s)\<rparr>"

text \<open>The section of \<open>r_lock\<close> that counts the reader, and the one that waits for the writers; \<open>k\<close> is the control state
  behind it.\<close>

definition r_count :: "rw_pc \<Rightarrow> tid \<Rightarrow> rw_sys \<Rightarrow> rw_sys option" where
  "r_count k t s =
     (let r = rw s in
      case rpc s ! t of
        RA_lock \<Rightarrow> if cmutex_read r = None then Some (rw_goto t RA_inc (r\<lparr>cmutex_read := Some t\<rparr>) s) else None
      | RA_inc \<Rightarrow> Some (rw_goto t RA_unlock (r\<lparr>num_readers := num_readers r + 1\<rparr>) s)
      | RA_unlock \<Rightarrow> Some (rw_goto t k (r\<lparr>cmutex_read := None\<rparr>) s)
      | _ \<Rightarrow> None)"

definition r_wait :: "rw_pc \<Rightarrow> tid \<Rightarrow> rw_sys \<Rightarrow> rw_sys option" where
  "r_wait k t s =
     (let r = rw s in
      case rpc s ! t of
        RB_lock \<Rightarrow> if cmutex_write r = None then Some (rw_goto t RB_test (r\<lparr>cmutex_write := Some t\<rparr>) s) else None
      | RB_test \<Rightarrow>
          if num_writers r > 0 then Some (rw_goto t RB_waiting (r\<lparr>cmutex_write := None\<rparr>) s)
          else Some (rw_goto t RB_unlock r s)
      | RB_woken \<Rightarrow> if cmutex_write r = None then Some (rw_goto t RB_test (r\<lparr>cmutex_write := Some t\<rparr>) s) else None
      | RB_unlock \<Rightarrow> Some (rw_goto t k (r\<lparr>cmutex_write := None\<rparr>) s)
      | _ \<Rightarrow> None)"

definition w_count :: "rw_pc \<Rightarrow> tid \<Rightarrow> rw_sys \<Rightarrow> rw_sys option" where
  "w_count k t s =
     (let r = rw s in
      case rpc s ! t of
        WB_lock \<Rightarrow> if cmutex_write r = None then Some (rw_goto t WB_inc (r\<lparr>cmutex_write := Some t\<rparr>) s) else None
      | WB_inc \<Rightarrow> Some (rw_goto t WB_unlock (r\<lparr>num_writers := num_writers r + 1\<rparr>) s)
      | WB_unlock \<Rightarrow> Some (rw_goto t k (r\<lparr>cmutex_write := None\<rparr>) s)
      | _ \<Rightarrow> None)"

definition w_wait :: "rw_pc \<Rightarrow> tid \<Rightarrow> rw_sys \<Rightarrow> rw_sys option" where
  "w_wait k t s =
     (let r = rw s in
      case rpc s ! t of
        WA_lock \<Rightarrow> if cmutex_read r = None then Some (rw_goto t WA_test (r\<lparr>cmutex_read := Some t\<rparr>) s) else None
      | WA_test \<Rightarrow>
          if num_readers r > 0 then Some (rw_goto t WA_waiting (r\<lparr>cmutex_read := None\<rparr>) s)
          else Some (rw_goto t WA_unlock r s)
      | WA_woken \<Rightarrow> if cmutex_read r = None then Some (rw_goto t WA_test (r\<lparr>cmutex_read := Some t\<rparr>) s) else None
      | WA_unlock \<Rightarrow> Some (rw_goto t k (r\<lparr>cmutex_read := None\<rparr>) s)
      | _ \<Rightarrow> None)"

definition w_enter :: "tid \<Rightarrow> rw_sys \<Rightarrow> rw_sys option" where
  "w_enter t s =
     (if rpc s ! t = WC_lock \<and> mutex_write (rw s) = None then Some (rw_goto t W_in ((rw s)\<lparr>mutex_write := Some t\<rparr>) s) else None)"

definition r_unlock :: "tid \<Rightarrow> rw_sys \<Rightarrow> rw_sys option" where
  "r_unlock t s =
     (let r = rw s in
      case rpc s ! t of
        RU_lock \<Rightarrow> if cmutex_read r = None then Some (rw_goto t RU_dec (r\<lparr>cmutex_read := Some t\<rparr>) s) else None
      | RU_dec \<Rightarrow> Some (rw_goto t RU_test (if num_readers r > 0 then r\<lparr>num_readers := num_readers r - 1\<rparr> else r) s)
      | RU_test \<Rightarrow> Some (rw_goto t RU_unlock r (if num_readers r = 0 then broadcast_read s else s))
      | RU_unlock \<Rightarrow> Some (rw_goto t Outside (r\<lparr>cmutex_read := None\<rparr>) s)
      | _ \<Rightarrow> None)"

definition w_unlock :: "tid \<Rightarrow> rw_sys \<Rightarrow> rw_sys option" where
  "w_unlock t s =
     (let r = rw s in
      case rpc s ! t of
        WU_lock \<Rightarrow> if cmutex_write r = None then Some (rw_goto t WU_dec (r\<lparr>cmutex_write := Some t\<rparr>) s) else None
      | WU_dec \<Rightarrow> Some (rw_goto t WU_test (if num_writers r > 0 then r\<lparr>num_writers := num_writers r - 1\<rparr> else r) s)
      | WU_test \<Rightarrow> Some (rw_goto t WU_unlock r (if num_writers r = 0 then broadcast_write s else s))
      | WU_unlock \<Rightarrow> Some (rw_goto t WU_release (r\<lparr>cmutex_write := None\<rparr>) s)
      | WU_release \<Rightarrow> Some (rw_goto t Outside (r\<lparr>mutex_write := None\<rparr>) s)
      | _ \<Rightarrow> None)"

definition or_else :: "'a option \<Rightarrow> 'a option \<Rightarrow> 'a option" where
  "or_else x y = (case x of None \<Rightarrow> y | Some _ \<Rightarrow> x)"

text \<open>\<open>rw_lock-r-test.c\<close>: the reader counts itself, then waits for the writers; the writer waits for the readers, then counts itself.\<close>

definition r_lock_r :: "tid \<Rightarrow> rw_sys \<Rightarrow> rw_sys option" where
  "r_lock_r t s = or_else (r_count RB_lock t s) (r_wait R_in t s)"

definition w_lock_r :: "tid \<Rightarrow> rw_sys \<Rightarrow> rw_sys option" where
  "w_lock_r t s = or_else (w_wait WB_lock t s) (or_else (w_count WC_lock t s) (w_enter t s))"

text \<open>\<open>rw_lock-w-test.c\<close>: the other way round.\<close>

definition r_lock_w :: "tid \<Rightarrow> rw_sys \<Rightarrow> rw_sys option" where
  "r_lock_w t s = or_else (r_wait RA_lock t s) (r_count R_in t s)"

definition w_lock_w :: "tid \<Rightarrow> rw_sys \<Rightarrow> rw_sys option" where
  "w_lock_w t s = or_else (w_count WA_lock t s) (or_else (w_wait WC_lock t s) (w_enter t s))"

definition rw_start :: "nat \<Rightarrow> rw_sys" where
  "rw_start n = \<lparr>rw = init_rwlock, rpc = replicate n Outside\<rparr>"

text \<open>The threads call the lock functions in turn; \<open>pref\<close> tells the program, \<open>True\<close> for \<open>rw_lock-r-test.c\<close>.\<close>

definition thread_moves :: "bool \<Rightarrow> tid \<Rightarrow> rw_sys \<Rightarrow> rw_sys option" where
  "thread_moves pref t s =
     or_else (if pref then r_lock_r t s else r_lock_w t s)
      (or_else (if pref then w_lock_r t s else w_lock_w t s) (or_else (r_unlock t s) (w_unlock t s)))"

inductive rw_step :: "bool \<Rightarrow> rw_sys \<Rightarrow> rw_sys \<Rightarrow> bool" for pref where
  call_r_lock: "t < length (rpc s) \<Longrightarrow> rpc s ! t = Outside \<Longrightarrow> rw_step pref s (rw_goto t (if pref then RA_lock else RB_lock) (rw s) s)"
| call_w_lock: "t < length (rpc s) \<Longrightarrow> rpc s ! t = Outside \<Longrightarrow> rw_step pref s (rw_goto t (if pref then WA_lock else WB_lock) (rw s) s)"
| call_r_unlock: "t < length (rpc s) \<Longrightarrow> rpc s ! t = R_in \<Longrightarrow> rw_step pref s (rw_goto t RU_lock (rw s) s)"
| call_w_unlock: "t < length (rpc s) \<Longrightarrow> rpc s ! t = W_in \<Longrightarrow> rw_step pref s (rw_goto t WU_lock (rw s) s)"
| moves: "t < length (rpc s) \<Longrightarrow> thread_moves pref t s = Some s' \<Longrightarrow> rw_step pref s s'"
| spurious_r: "t < length (rpc s) \<Longrightarrow> rpc s ! t = RB_waiting \<Longrightarrow> rw_step pref s (rw_goto t RB_woken (rw s) s)"
| spurious_w: "t < length (rpc s) \<Longrightarrow> rpc s ! t = WA_waiting \<Longrightarrow> rw_step pref s (rw_goto t WA_woken (rw s) s)"

fun holds_cr :: "rw_pc \<Rightarrow> bool" where
  "holds_cr l \<longleftrightarrow> l \<in> {RA_inc, RA_unlock, RU_dec, RU_test, RU_unlock, WA_test, WA_unlock}"

fun holds_cw :: "rw_pc \<Rightarrow> bool" where
  "holds_cw l \<longleftrightarrow> l \<in> {RB_test, RB_unlock, WB_inc, WB_unlock, WU_dec, WU_test, WU_unlock}"

fun holds_mw :: "rw_pc \<Rightarrow> bool" where
  "holds_mw l \<longleftrightarrow> l \<in> {W_in, WU_lock, WU_dec, WU_test, WU_unlock, WU_release}"

text \<open>The control states between the increment and the decrement of \<open>num_readers\<close> and \<open>num_writers\<close>.\<close>

fun reader_counted :: "bool \<Rightarrow> rw_pc \<Rightarrow> bool" where
  "reader_counted pref l \<longleftrightarrow> l \<in> {RA_unlock, R_in, RU_lock, RU_dec} \<or> pref \<and> l \<in> {RB_lock, RB_test, RB_waiting, RB_woken, RB_unlock}"

fun writer_counted :: "bool \<Rightarrow> rw_pc \<Rightarrow> bool" where
  "writer_counted pref l \<longleftrightarrow> l \<in> {WB_unlock, WC_lock, W_in, WU_lock, WU_dec} \<or> \<not> pref \<and> l \<in> {WA_lock, WA_test, WA_waiting, WA_woken, WA_unlock}"

definition rw_inv :: "bool \<Rightarrow> rw_sys \<Rightarrow> bool" where
  "rw_inv pref s \<longleftrightarrow> owned (cmutex_read (rw s)) holds_cr (rpc s) \<and> owned (cmutex_write (rw s)) holds_cw (rpc s) \<and>
     owned (mutex_write (rw s)) holds_mw (rpc s) \<and>
     num_readers (rw s) = int (slots (reader_counted pref) (rpc s)) \<and> num_writers (rw s) = int (slots (writer_counted pref) (rpc s))"

lemma rw_invD:
  assumes "rw_inv pref s"
  shows "owned (cmutex_read (rw s)) holds_cr (rpc s)" "owned (cmutex_write (rw s)) holds_cw (rpc s)" "owned (mutex_write (rw s)) holds_mw (rpc s)"
    "num_readers (rw s) = int (slots (reader_counted pref) (rpc s))" "num_writers (rw s) = int (slots (writer_counted pref) (rpc s))"
  using assms by (simp_all add: rw_inv_def)

lemma rw_inv_start: "rw_inv pref (rw_start n)"
  by (auto simp: rw_inv_def rw_start_def init_rwlock_def owned_def slots_def)

lemma or_else_Some: "or_else x y = Some z \<longleftrightarrow> x = Some z \<or> x = None \<and> y = Some z"
  by (cases x) (auto simp: or_else_def)

lemma slots_map_same: "(\<And>x. P (f x) = P x) \<Longrightarrow> slots P (map f ps) = slots P ps"
  by (induction ps) auto

lemma rw_inv_broadcast:
  assumes "rw_inv pref s"
  shows "rw_inv pref (broadcast_read s)" "rw_inv pref (broadcast_write s)"
  using assms by (simp_all add: rw_inv_def broadcast_read_def broadcast_write_def owned_map slots_map_same)

lemma rw_inv_r_lock:
  assumes i: "rw_inv pref s" and t: "t < length (rpc s)" and m: "(if pref then r_lock_r t s else r_lock_w t s) = Some s'"
  shows "rw_inv pref s'"
proof -
  note u = rw_invD(1-3) [OF i, THEN owned_update_iff, OF t] and n = rw_invD(4,5) [OF i]
  show ?thesis using m
    by (cases "rpc s ! t") (auto simp: r_lock_r_def r_lock_w_def r_count_def r_wait_def or_else_def Let_def rw_goto_def rw_inv_def u n slots_goto [OF t] split: if_splits)
qed

lemma rw_inv_w_lock:
  assumes i: "rw_inv pref s" and t: "t < length (rpc s)" and m: "(if pref then w_lock_r t s else w_lock_w t s) = Some s'"
  shows "rw_inv pref s'"
proof -
  note u = rw_invD(1-3) [OF i, THEN owned_update_iff, OF t] and n = rw_invD(4,5) [OF i]
  show ?thesis using m
    by (cases "rpc s ! t") (auto simp: w_lock_r_def w_lock_w_def w_count_def w_wait_def w_enter_def or_else_def Let_def rw_goto_def rw_inv_def u n slots_goto [OF t] split: if_splits)
qed

lemma rw_inv_goto:
  assumes i: "rw_inv pref s" and t: "t < length (rpc s)"
    and l: "holds_cr l = holds_cr (rpc s ! t)" "holds_cw l = holds_cw (rpc s ! t)" "holds_mw l = holds_mw (rpc s ! t)"
      "reader_counted pref l = reader_counted pref (rpc s ! t)" "writer_counted pref l = writer_counted pref (rpc s ! t)"
  shows "rw_inv pref (rw_goto t l (rw s) s)"
proof -
  note u = rw_invD(1-3) [OF i, THEN owned_update_iff, OF t] and n = rw_invD(4,5) [OF i]
  show ?thesis
    by (simp del: holds_cr.simps holds_cw.simps holds_mw.simps reader_counted.simps writer_counted.simps
        add: rw_inv_def rw_goto_def u n slots_goto [OF t] l)
qed

lemma rw_inv_r_unlock:
  assumes i: "rw_inv pref s" and t: "t < length (rpc s)" and m: "r_unlock t s = Some s'"
  shows "rw_inv pref s'"
proof (cases "rpc s ! t = RU_test")
  case True
  let ?b = "if num_readers (rw s) = 0 then broadcast_read s else s"
  have b: "rw_inv pref ?b" "t < length (rpc ?b)" "rpc ?b ! t = RU_test" "rw ?b = rw s"
    using i t True rw_inv_broadcast(1) by (simp_all add: broadcast_read_def)
  have "s' = rw_goto t RU_unlock (rw ?b) ?b" using m True b(4) by (simp add: r_unlock_def Let_def)
  then show ?thesis using rw_inv_goto [OF b(1,2), of RU_unlock] b(3) by simp
next
  case False
  note u = rw_invD(1-3) [OF i, THEN owned_update_iff, OF t] and n = rw_invD(4,5) [OF i]
  show ?thesis using m False slots_pos [OF t, of "reader_counted pref"]
    by (cases "rpc s ! t") (auto simp: r_unlock_def Let_def rw_goto_def rw_inv_def u n slots_goto [OF t] split: if_splits)
qed

lemma rw_inv_w_unlock:
  assumes i: "rw_inv pref s" and t: "t < length (rpc s)" and m: "w_unlock t s = Some s'"
  shows "rw_inv pref s'"
proof (cases "rpc s ! t = WU_test")
  case True
  let ?b = "if num_writers (rw s) = 0 then broadcast_write s else s"
  have b: "rw_inv pref ?b" "t < length (rpc ?b)" "rpc ?b ! t = WU_test" "rw ?b = rw s"
    using i t True rw_inv_broadcast(2) by (simp_all add: broadcast_write_def)
  have "s' = rw_goto t WU_unlock (rw ?b) ?b" using m True b(4) by (simp add: w_unlock_def Let_def)
  then show ?thesis using rw_inv_goto [OF b(1,2), of WU_unlock] b(3) by simp
next
  case False
  note u = rw_invD(1-3) [OF i, THEN owned_update_iff, OF t] and n = rw_invD(4,5) [OF i]
  show ?thesis using m False slots_pos [OF t, of "writer_counted pref"]
    by (cases "rpc s ! t") (auto simp: w_unlock_def Let_def rw_goto_def rw_inv_def u n slots_goto [OF t] split: if_splits)
qed

lemma rw_inv_moves: "rw_inv pref s \<Longrightarrow> t < length (rpc s) \<Longrightarrow> thread_moves pref t s = Some s' \<Longrightarrow> rw_inv pref s'"
  unfolding thread_moves_def or_else_Some by (blast intro: rw_inv_r_lock rw_inv_w_lock rw_inv_r_unlock rw_inv_w_unlock)

lemma rw_inv_step:
  assumes "rw_inv pref s" "rw_step pref s s'"
  shows "rw_inv pref s'"
  using assms(2,1)
proof cases
  case (moves t)
  then show ?thesis using rw_inv_moves assms(1) by blast
qed (auto intro!: rw_inv_goto)

interpretation rw_threads: thread_system "rw_start n" "rw_step pref" "rw_inv pref" for n pref
  by unfold_locales (rule rw_inv_start, rule rw_inv_step)

text \<open>C28: what the two reader-writer locks guarantee, for any number of threads and in every interleaving: at most one writer is in its
  critical section; \<open>num_readers\<close> and \<open>num_writers\<close> count the threads between their increment and
  decrement; a writer leaves its waiting loop only at a moment when no reader is in its critical section, and a
  reader only when no writer is in its.\<close>

theorem rw_lock_guarantees:
  assumes "(rw_step pref)\<^sup>*\<^sup>* (rw_start n) s"
  shows "slots (\<lambda>p. p = W_in) (rpc s) \<le> 1 \<and>
    num_readers (rw s) = int (slots (reader_counted pref) (rpc s)) \<and> num_writers (rw s) = int (slots (writer_counted pref) (rpc s)) \<and>
    (\<forall>t k s'. t < length (rpc s) \<longrightarrow> rpc s ! t = WA_test \<longrightarrow> w_wait k t s = Some s' \<longrightarrow> rpc s' ! t = WA_unlock \<longrightarrow> R_in \<notin> set (rpc s)) \<and>
    (\<forall>t k s'. t < length (rpc s) \<longrightarrow> rpc s ! t = RB_test \<longrightarrow> r_wait k t s = Some s' \<longrightarrow> rpc s' ! t = RB_unlock \<longrightarrow> W_in \<notin> set (rpc s))"
proof -
  have i: "rw_inv pref s" using rw_threads.reachable_inv [of n pref s] assms by (simp add: rw_threads.reachable_def)
  have "slots (\<lambda>p. p = W_in) (rpc s) \<le> 1" by (rule owned_slots [OF rw_invD(3) [OF i]]) simp
  moreover have "R_in \<notin> set (rpc s)" if "t < length (rpc s)" "rpc s ! t = WA_test" "w_wait k t s = Some s'" "rpc s' ! t = WA_unlock" for t k s'
  proof -
    have "\<not> num_readers (rw s) > 0" using that by (auto simp: w_wait_def Let_def rw_goto_def split: if_splits)
    then have "slots (reader_counted pref) (rpc s) = 0" using rw_invD(4) [OF i] by simp
    then show ?thesis by (auto simp: slots_zero_iff)
  qed
  moreover have "W_in \<notin> set (rpc s)" if "t < length (rpc s)" "rpc s ! t = RB_test" "r_wait k t s = Some s'" "rpc s' ! t = RB_unlock" for t k s'
  proof -
    have "\<not> num_writers (rw s) > 0" using that by (auto simp: r_wait_def Let_def rw_goto_def split: if_splits)
    then have "slots (writer_counted pref) (rpc s) = 0" using rw_invD(5) [OF i] by simp
    then show ?thesis by (auto simp: slots_zero_iff)
  qed
  ultimately show ?thesis using rw_invD(4,5) [OF i] by blast
qed

text \<open>A schedule: the listed threads make one step each, if they can; a thread outside calls \<open>r_lock\<close> or \<open>w_lock\<close>.\<close>

definition rw_move :: "bool \<Rightarrow> tid \<times> bool \<Rightarrow> rw_sys \<Rightarrow> rw_sys" where
  "rw_move pref m s =
     (case m of (t, reader) \<Rightarrow>
        if \<not> t < length (rpc s) then s
        else if rpc s ! t = Outside
        then rw_goto t (if reader then if pref then RA_lock else RB_lock else if pref then WA_lock else WB_lock) (rw s) s
        else case thread_moves pref t s of Some s' \<Rightarrow> s' | None \<Rightarrow> s)"

lemma rw_move_reach: "(rw_step pref)\<^sup>*\<^sup>* s (rw_move pref m s)"
  using call_r_lock [of _ s pref] call_w_lock [of _ s pref] by (cases m) (auto simp: rw_move_def intro: moves split: option.splits)

lemma rw_schedule_reach: "(rw_step pref)\<^sup>*\<^sup>* s (fold (rw_move pref) ms s)"
  by (induction ms arbitrary: s) (auto intro: rtranclp_trans [OF rw_move_reach])

lemmas rw_eval = rw_move_def rw_start_def init_rwlock_def thread_moves_def or_else_def rw_goto_def Let_def numeral_eq_Suc
  r_lock_r_def w_lock_r_def r_lock_w_def w_lock_w_def r_count_def r_wait_def w_count_def w_wait_def w_enter_def r_unlock_def w_unlock_def

text \<open>Witness: a writer has entered the lock that prefers readers.\<close>

theorem rw_lock_guarantees_witness:
  "slots (\<lambda>p. p = W_in) (rpc (fold (rw_move True) (replicate 8 (0, False)) (rw_start 2))) \<le> 1 \<and>
   W_in \<in> set (rpc (fold (rw_move True) (replicate 8 (0, False)) (rw_start 2)))"
proof -
  define s where "s = fold (rw_move True) (replicate 8 (0, False)) (rw_start 2)"
  have r: "(rw_step True)\<^sup>*\<^sup>* (rw_start 2) s" unfolding s_def by (rule rw_schedule_reach)
  have "rpc s = [W_in, Outside]" by (simp add: s_def rw_eval)
  then show ?thesis using rw_lock_guarantees [OF r] unfolding s_def [symmetric] by simp
qed

text \<open>Neither lock keeps readers and writers apart. Between the end of its waiting loop and the increment of its own
  counter a thread is not seen by the other side: both programs reach a state in which a reader and a writer are in
  their critical sections at the same time.\<close>

theorem rw_lock_overlap:
  "\<exists>s. (rw_step pref)\<^sup>*\<^sup>* (rw_start 2) s \<and> R_in \<in> set (rpc s) \<and> W_in \<in> set (rpc s)"
proof (cases pref)
  case True
  let ?s = "fold (rw_move True) (replicate 4 (0, False) @ replicate 7 (1, True) @ replicate 4 (0, False)) (rw_start 2)"
  have "rpc ?s = [W_in, R_in]" by (simp add: rw_eval)
  then show ?thesis using rw_schedule_reach [of True "rw_start 2"] True by (metis list.set_intros)
next
  case False
  let ?s = "fold (rw_move False) (replicate 4 (1, True) @ replicate 8 (0, False) @ replicate 3 (1, True)) (rw_start 2)"
  have "rpc ?s = [W_in, R_in]" by (simp add: rw_eval)
  then show ?thesis using rw_schedule_reach [of False "rw_start 2"] False by (metis list.set_intros)
qed


subsection \<open>The helpers of the tests\<close>

text \<open>\<open>rw_lock.c\<close>: the pointer returned is an index into the range.\<close>

definition max_element :: "int list \<Rightarrow> nat" where
  "max_element xs = fold (\<lambda>i m. if xs ! m < xs ! i then i else m) [1..<length xs] 0"

definition min_element :: "int list \<Rightarrow> nat" where
  "min_element xs = fold (\<lambda>i m. if xs ! m > xs ! i then i else m) [1..<length xs] 0"

lemma index_of_max:
  fixes f :: "nat \<Rightarrow> int"
  shows "0 < n \<Longrightarrow> fold (\<lambda>i m. if f m < f i then i else m) [1..<n] 0 < n \<and> (\<forall>j < n. f j \<le> f (fold (\<lambda>i m. if f m < f i then i else m) [1..<n] 0))"
proof (induction n)
  case (Suc n)
  define m where "m = fold (\<lambda>i m. if f m < f i then i else m) [1..<n] 0"
  show ?case
  proof (cases "n = 0")
    case False
    then have "fold (\<lambda>i m. if f m < f i then i else m) [1..<Suc n] 0 = (if f m < f n then n else m)" by (simp add: m_def)
    moreover have "m < n" "\<forall>j < n. f j \<le> f m" using Suc.IH False by (simp_all add: m_def)
    ultimately show ?thesis by (auto simp: less_Suc_eq intro: order_trans less_imp_le)
  qed simp
qed simp

lemma max_element_max:
  assumes "xs \<noteq> []"
  shows "max_element xs < length xs \<and> (\<forall>x \<in> set xs. x \<le> xs ! max_element xs)"
  using index_of_max [of "length xs" "\<lambda>i. xs ! i"] assms by (auto simp: max_element_def in_set_conv_nth)

lemma min_element_min:
  assumes "xs \<noteq> []"
  shows "min_element xs < length xs \<and> (\<forall>x \<in> set xs. xs ! min_element xs \<le> x)"
  using index_of_max [of "length xs" "\<lambda>i. - xs ! i"] assms by (auto simp: min_element_def in_set_conv_nth)

end
