(* ===== verification/SSU_Workers.thy ===== *)
theory SSU_Workers
  imports SSU_Pthread "HOL-Library.Multiset"
begin

text \<open>
  The master-worker pool of \<open>src/project4/1/master-worker.c\<close>: threads \<open>0 .. num_masters - 1\<close> run
  \<open>generate_requests_loop\<close>, the next \<open>num_workers\<close> threads \<open>generate_responses_loop\<close>, and the last one is \<open>main\<close> behind the
  creation of the threads. The control states carry the loop variable. \<open>produced\<close> and \<open>consumed\<close> are the numbers that
  \<open>print_produced\<close> and \<open>print_consumed\<close> have written; \<open>overrun\<close> is set when \<open>buffer\<close> is accessed outside
  its bounds. The arguments of the program are taken to be nonnegative numbers.
\<close>

record mw_cfg =
  total_items :: nat
  max_buf_size :: nat
  num_workers :: nat
  num_masters :: nat

datatype mw_pc =
    M_for nat | M_lock nat | M_test nat | M_signal nat | M_check nat | M_waiting nat | M_woken nat | M_put nat | M_unlock nat
  | M_end_lock | M_end_test | M_end_unlock | M_done
  | W_for nat | W_lock nat | W_test nat | W_signal nat | W_wait nat | W_waiting nat | W_woken nat | W_take nat | W_unlock nat
  | W_end_lock | W_end_signal | W_end_unlock | W_done
  | P_join_masters | P_lock | P_test | P_unlock | P_join_workers | P_done

record mw_sys =
  buffer :: "nat list"
  curr_buf_size :: nat
  item_to_produce :: nat
  mw_mutex :: "tid option"
  tpc :: "mw_pc list"
  produced :: "nat list"
  consumed :: "nat list"
  overrun :: bool

definition m_start :: "mw_cfg \<Rightarrow> nat \<Rightarrow> nat" where
  "m_start c i = i * (total_items c div num_masters c)"

definition m_end :: "mw_cfg \<Rightarrow> nat \<Rightarrow> nat" where
  "m_end c i = min ((i + 1) * (total_items c div num_masters c)) (total_items c) + (if i = num_masters c - 1 then total_items c mod num_masters c else 0)"

definition w_start :: "mw_cfg \<Rightarrow> nat \<Rightarrow> nat" where
  "w_start c j = j * (total_items c div num_workers c)"

definition w_end :: "mw_cfg \<Rightarrow> nat \<Rightarrow> nat" where
  "w_end c j = min ((j + 1) * (total_items c div num_workers c)) (total_items c) + (if j = 0 then total_items c mod num_workers c else 0)"

definition go :: "tid \<Rightarrow> mw_pc \<Rightarrow> mw_sys \<Rightarrow> mw_sys" where
  "go t l s = s\<lparr>tpc := (tpc s)[t := l]\<rparr>"

definition lock_go :: "tid \<Rightarrow> mw_pc \<Rightarrow> mw_sys \<Rightarrow> mw_sys option" where
  "lock_go t l s = (if mw_mutex s = None then Some (go t l (s\<lparr>mw_mutex := Some t\<rparr>)) else None)"

definition unlock_go :: "tid \<Rightarrow> mw_pc \<Rightarrow> mw_sys \<Rightarrow> mw_sys" where
  "unlock_go t l s = go t l (s\<lparr>mw_mutex := None\<rparr>)"

text \<open>The masters wait for \<open>cond_can_produce\<close>, the workers for \<open>cond_can_consume\<close>. A signal wakes one of the waiting
  threads, here the thread \<open>u\<close>, and nothing when none waits.\<close>

fun woken :: "mw_pc \<Rightarrow> mw_pc" where
  "woken (M_waiting n) = M_woken n"
| "woken (W_waiting n) = W_woken n"
| "woken p = p"

fun waits_produce :: "mw_pc \<Rightarrow> bool" where
  "waits_produce (M_waiting n) = True" | "waits_produce p = False"

fun waits_consume :: "mw_pc \<Rightarrow> bool" where
  "waits_consume (W_waiting n) = True" | "waits_consume p = False"

definition cond_signal :: "(mw_pc \<Rightarrow> bool) \<Rightarrow> tid \<Rightarrow> mw_sys \<Rightarrow> mw_sys option" where
  "cond_signal w u s =
     (if list_ex w (tpc s) then if u < length (tpc s) \<and> w (tpc s ! u) then Some (go u (woken (tpc s ! u)) s) else None
      else Some s)"

definition generate_requests_loop :: "mw_cfg \<Rightarrow> tid \<Rightarrow> tid \<Rightarrow> mw_sys \<Rightarrow> mw_sys option" where
  "generate_requests_loop c t u s =
     (case tpc s ! t of
        M_for n \<Rightarrow> Some (go t (if n < m_end c t then M_lock n else M_end_lock) s)
      | M_lock n \<Rightarrow> lock_go t (M_test n) s
      | M_test n \<Rightarrow> Some (go t (if curr_buf_size s \<ge> max_buf_size c then M_signal n else M_put n) s)
      | M_signal n \<Rightarrow> map_option (go t (M_check n)) (cond_signal waits_consume u s)
      | M_check n \<Rightarrow> Some (if item_to_produce s \<noteq> total_items c then unlock_go t (M_waiting n) s else go t (M_test n) s)
      | M_woken n \<Rightarrow> lock_go t (M_test n) s
      | M_put n \<Rightarrow>
          Some (go t (M_unlock n)
            (s\<lparr>buffer := (buffer s)[curr_buf_size s := n], curr_buf_size := curr_buf_size s + 1, item_to_produce := item_to_produce s + 1,
               produced := produced s @ [n], overrun := overrun s \<or> \<not> curr_buf_size s < length (buffer s)\<rparr>))
      | M_unlock n \<Rightarrow> Some (unlock_go t (M_for (n + 1)) s)
      | M_end_lock \<Rightarrow> lock_go t M_end_test s
      | M_end_test \<Rightarrow> map_option (go t M_end_unlock) (if curr_buf_size s \<ge> 1 then cond_signal waits_consume u s else Some s)
      | M_end_unlock \<Rightarrow> Some (unlock_go t M_done s)
      | _ \<Rightarrow> None)"

definition generate_responses_loop :: "mw_cfg \<Rightarrow> tid \<Rightarrow> tid \<Rightarrow> mw_sys \<Rightarrow> mw_sys option" where
  "generate_responses_loop c t u s =
     (case tpc s ! t of
        W_for n \<Rightarrow> Some (go t (if n < w_end c (t - num_masters c) then W_lock n else W_end_lock) s)
      | W_lock n \<Rightarrow> lock_go t (W_test n) s
      | W_test n \<Rightarrow> Some (go t (if curr_buf_size s \<le> 0 then W_signal n else W_take n) s)
      | W_signal n \<Rightarrow> map_option (go t (W_wait n)) (cond_signal waits_produce u s)
      | W_wait n \<Rightarrow> Some (unlock_go t (W_waiting n) s)
      | W_woken n \<Rightarrow> lock_go t (W_test n) s
      | W_take n \<Rightarrow>
          Some (go t (W_unlock n)
            (s\<lparr>curr_buf_size := curr_buf_size s - 1, consumed := consumed s @ [buffer s ! (curr_buf_size s - 1)],
               buffer := (buffer s)[curr_buf_size s - 1 := 0],
               overrun := overrun s \<or> curr_buf_size s = 0 \<or> \<not> curr_buf_size s - 1 < length (buffer s)\<rparr>))
      | W_unlock n \<Rightarrow> Some (unlock_go t (W_for (n + 1)) s)
      | W_end_lock \<Rightarrow> lock_go t W_end_signal s
      | W_end_signal \<Rightarrow> map_option (go t W_end_unlock) (cond_signal waits_produce u s)
      | W_end_unlock \<Rightarrow> Some (unlock_go t W_done s)
      | _ \<Rightarrow> None)"

text \<open>\<open>main\<close> from the first \<open>pthread_join\<close> on.\<close>

definition main_joins :: "mw_cfg \<Rightarrow> tid \<Rightarrow> tid \<Rightarrow> mw_sys \<Rightarrow> mw_sys option" where
  "main_joins c t u s =
     (case tpc s ! t of
        P_join_masters \<Rightarrow> if \<forall>i < num_masters c. tpc s ! i = M_done then Some (go t P_lock s) else None
      | P_lock \<Rightarrow> lock_go t P_test s
      | P_test \<Rightarrow> map_option (go t P_unlock) (if curr_buf_size s \<ge> 1 then cond_signal waits_consume u s else Some s)
      | P_unlock \<Rightarrow> Some (unlock_go t P_join_workers s)
      | P_join_workers \<Rightarrow> if \<forall>j < num_workers c. tpc s ! (num_masters c + j) = W_done then Some (go t P_done s) else None
      | _ \<Rightarrow> None)"

definition mw_start :: "mw_cfg \<Rightarrow> mw_sys" where
  "mw_start c = \<lparr>buffer = replicate (max_buf_size c) 0, curr_buf_size = 0, item_to_produce = 0, mw_mutex = None,
     tpc = map (\<lambda>i. M_for (m_start c i)) [0..<num_masters c] @ map (\<lambda>j. W_for (w_start c j)) [0..<num_workers c] @ [P_join_masters],
     produced = [], consumed = [], overrun = False\<rparr>"

inductive mw_step :: "mw_cfg \<Rightarrow> mw_sys \<Rightarrow> mw_sys \<Rightarrow> bool" for c where
  master: "t < length (tpc s) \<Longrightarrow> generate_requests_loop c t u s = Some s' \<Longrightarrow> mw_step c s s'"
| worker: "t < length (tpc s) \<Longrightarrow> generate_responses_loop c t u s = Some s' \<Longrightarrow> mw_step c s s'"
| main: "t < length (tpc s) \<Longrightarrow> main_joins c t u s = Some s' \<Longrightarrow> mw_step c s s'"
| spurious: "t < length (tpc s) \<Longrightarrow> mw_step c s (go t (woken (tpc s ! t)) s)"

subsection \<open>The chunks of the masters and the workers\<close>

lemma chunk_le: "i < k \<Longrightarrow> (i + 1) * (n div k) \<le> n" for i k n :: nat
proof -
  assume "i < k"
  then have "(i + 1) * (n div k) \<le> k * (n div k)" by (intro mult_le_mono1) simp
  also have "\<dots> \<le> n" by simp
  finally show ?thesis .
qed

lemma m_end_eq:
  assumes "i < num_masters c"
  shows "m_end c i = (if i = num_masters c - 1 then total_items c else m_start c (i + 1))"
proof (cases "i = num_masters c - 1")
  case True
  then have "i + 1 = num_masters c" using assms by simp
  then have "m_end c i = num_masters c * (total_items c div num_masters c) + total_items c mod num_masters c"
    using True by (simp add: m_end_def min_def)
  then show ?thesis using True by simp
next
  case False
  then show ?thesis using chunk_le [OF assms, of "total_items c"] by (simp add: m_end_def m_start_def)
qed

lemma m_start_mono: "i \<le> j \<Longrightarrow> m_start c i \<le> m_start c j"
  by (simp add: m_start_def mult_le_mono1)

lemma m_start_le_end: "i < num_masters c \<Longrightarrow> m_start c i \<le> m_end c i"
  using chunk_le [of i "num_masters c" "total_items c"] m_start_mono [of i "i + 1" c] by (auto simp: m_end_eq) (auto simp: m_start_def)

lemma m_chunks_disjoint:
  assumes "i < num_masters c" "j < num_masters c" "m_start c i \<le> x" "x < m_end c i" "m_start c j \<le> x" "x < m_end c j"
  shows "i = j"
proof (rule ccontr)
  have *: False if "i < j" "i < num_masters c" "j < num_masters c" "x < m_end c i" "m_start c j \<le> x" for i j
    using that m_end_eq [of i c] m_start_mono [of "i + 1" j c] by (auto split: if_splits)
  assume "i \<noteq> j"
  then show False using * [of i j] * [of j i] assms by linarith
qed

lemma m_chunks_cover:
  assumes "0 < num_masters c"
  shows "(\<exists>i < num_masters c. m_start c i \<le> x \<and> x < m_end c i) \<longleftrightarrow> x < total_items c"
proof
  assume "\<exists>i < num_masters c. m_start c i \<le> x \<and> x < m_end c i"
  then obtain i where i: "i < num_masters c" "x < m_end c i" by blast
  then show "x < total_items c" using m_end_eq [OF i(1)] chunk_le [OF i(1), of "total_items c"] by (auto simp: m_start_def split: if_splits)
next
  assume x: "x < total_items c"
  have *: "\<exists>i < k. m_start c i \<le> x \<and> x < m_start c (i + 1)" if "x < m_start c k" for k
    using that
  proof (induction k)
    case (Suc k)
    show ?case
    proof (cases "x < m_start c k")
      case True
      then show ?thesis using Suc.IH by (meson less_SucI)
    next
      case False
      then show ?thesis using Suc.prems by (intro exI [of _ k]) simp
    qed
  qed (simp add: m_start_def)
  show "\<exists>i < num_masters c. m_start c i \<le> x \<and> x < m_end c i"
  proof (cases "x < m_start c (num_masters c - 1)")
    case True
    then obtain i where i: "i < num_masters c - 1" "m_start c i \<le> x" "x < m_start c (i + 1)" using * by blast
    then show ?thesis using m_end_eq [of i c] by (intro exI [of _ i]) auto
  next
    case False
    then show ?thesis using assms x m_end_eq [of "num_masters c - 1" c] by (intro exI [of _ "num_masters c - 1"]) simp
  qed
qed

lemma w_end_eq:
  assumes "j < num_workers c"
  shows "w_end c j = w_start c (j + 1) + (if j = 0 then total_items c mod num_workers c else 0)"
  using chunk_le [OF assms, of "total_items c"] by (simp add: w_end_def w_start_def)

lemma w_chunks_total:
  assumes "0 < num_workers c"
  shows "(\<Sum>j < num_workers c. w_end c j - w_start c j) = total_items c"
proof -
  have "w_end c j - w_start c j = total_items c div num_workers c + (if j = 0 then total_items c mod num_workers c else 0)" if "j < num_workers c" for j
    using w_end_eq [OF that] by (simp add: w_start_def)
  then have "(\<Sum>j < num_workers c. w_end c j - w_start c j) = (\<Sum>j < num_workers c. total_items c div num_workers c + (if j = 0 then total_items c mod num_workers c else 0))"
    by simp
  also have "\<dots> = num_workers c * (total_items c div num_workers c) + total_items c mod num_workers c"
    using assms by (simp add: sum.distrib)
  finally show ?thesis by simp
qed

lemma w_start_le_end: "j < num_workers c \<Longrightarrow> w_start c j \<le> w_end c j"
  by (simp add: w_end_eq) (simp add: w_start_def)

subsection \<open>The invariant\<close>

fun mw_holds :: "mw_pc \<Rightarrow> bool" where
  "mw_holds (M_test n) = True" | "mw_holds (M_signal n) = True" | "mw_holds (M_check n) = True" | "mw_holds (M_put n) = True"
| "mw_holds (M_unlock n) = True" | "mw_holds M_end_test = True" | "mw_holds M_end_unlock = True"
| "mw_holds (W_test n) = True" | "mw_holds (W_signal n) = True" | "mw_holds (W_wait n) = True" | "mw_holds (W_take n) = True"
| "mw_holds (W_unlock n) = True" | "mw_holds W_end_signal = True" | "mw_holds W_end_unlock = True"
| "mw_holds P_test = True" | "mw_holds P_unlock = True" | "mw_holds p = False"

text \<open>The number a master will produce next, and how far a worker has come.\<close>

fun m_next :: "mw_cfg \<Rightarrow> nat \<Rightarrow> mw_pc \<Rightarrow> nat" where
  "m_next c i (M_for n) = n" | "m_next c i (M_lock n) = n" | "m_next c i (M_test n) = n" | "m_next c i (M_signal n) = n" | "m_next c i (M_check n) = n"
| "m_next c i (M_waiting n) = n" | "m_next c i (M_woken n) = n" | "m_next c i (M_put n) = n" | "m_next c i (M_unlock n) = n + 1" | "m_next c i p = m_end c i"

fun w_next :: "mw_cfg \<Rightarrow> nat \<Rightarrow> mw_pc \<Rightarrow> nat" where
  "w_next c j (W_for n) = n" | "w_next c j (W_lock n) = n" | "w_next c j (W_test n) = n" | "w_next c j (W_signal n) = n" | "w_next c j (W_wait n) = n"
| "w_next c j (W_waiting n) = n" | "w_next c j (W_woken n) = n" | "w_next c j (W_take n) = n" | "w_next c j (W_unlock n) = n + 1" | "w_next c j p = w_end c j"

text \<open>The control states that a master, a worker and \<open>main\<close> can be in.\<close>

fun m_ok :: "mw_cfg \<Rightarrow> nat \<Rightarrow> mw_pc \<Rightarrow> bool" where
  "m_ok c i (M_for n) \<longleftrightarrow> m_start c i \<le> n \<and> n \<le> m_end c i"
| "m_ok c i p \<longleftrightarrow> (case p of M_lock n \<Rightarrow> m_start c i \<le> n \<and> n < m_end c i | M_test n \<Rightarrow> m_start c i \<le> n \<and> n < m_end c i | M_signal n \<Rightarrow> m_start c i \<le> n \<and> n < m_end c i
     | M_check n \<Rightarrow> m_start c i \<le> n \<and> n < m_end c i | M_waiting n \<Rightarrow> m_start c i \<le> n \<and> n < m_end c i | M_woken n \<Rightarrow> m_start c i \<le> n \<and> n < m_end c i
     | M_put n \<Rightarrow> m_start c i \<le> n \<and> n < m_end c i | M_unlock n \<Rightarrow> m_start c i \<le> n \<and> n < m_end c i
     | M_end_lock \<Rightarrow> True | M_end_test \<Rightarrow> True | M_end_unlock \<Rightarrow> True | M_done \<Rightarrow> True | _ \<Rightarrow> False)"

fun w_ok :: "mw_cfg \<Rightarrow> nat \<Rightarrow> mw_pc \<Rightarrow> bool" where
  "w_ok c j (W_for n) \<longleftrightarrow> w_start c j \<le> n \<and> n \<le> w_end c j"
| "w_ok c j p \<longleftrightarrow> (case p of W_lock n \<Rightarrow> w_start c j \<le> n \<and> n < w_end c j | W_test n \<Rightarrow> w_start c j \<le> n \<and> n < w_end c j | W_signal n \<Rightarrow> w_start c j \<le> n \<and> n < w_end c j
     | W_wait n \<Rightarrow> w_start c j \<le> n \<and> n < w_end c j | W_waiting n \<Rightarrow> w_start c j \<le> n \<and> n < w_end c j | W_woken n \<Rightarrow> w_start c j \<le> n \<and> n < w_end c j
     | W_take n \<Rightarrow> w_start c j \<le> n \<and> n < w_end c j | W_unlock n \<Rightarrow> w_start c j \<le> n \<and> n < w_end c j
     | W_end_lock \<Rightarrow> True | W_end_signal \<Rightarrow> True | W_end_unlock \<Rightarrow> True | W_done \<Rightarrow> True | _ \<Rightarrow> False)"

fun p_ok :: "mw_pc \<Rightarrow> bool" where
  "p_ok p \<longleftrightarrow> p \<in> {P_join_masters, P_lock, P_test, P_unlock, P_join_workers, P_done}"

definition pc_ok :: "mw_cfg \<Rightarrow> tid \<Rightarrow> mw_pc \<Rightarrow> bool" where
  "pc_ok c t p \<longleftrightarrow> (if t < num_masters c then m_ok c t p else if t < num_masters c + num_workers c then w_ok c (t - num_masters c) p else p_ok p)"

fun room :: "mw_cfg \<Rightarrow> nat \<Rightarrow> mw_pc \<Rightarrow> bool" where
  "room c k (M_put n) \<longleftrightarrow> k < max_buf_size c"
| "room c k (W_take n) \<longleftrightarrow> 0 < k"
| "room c k p \<longleftrightarrow> True"

definition mw_threads_ok :: "mw_cfg \<Rightarrow> mw_sys \<Rightarrow> bool" where
  "mw_threads_ok c s \<longleftrightarrow> length (tpc s) = num_masters c + num_workers c + 1 \<and> owned (mw_mutex s) mw_holds (tpc s) \<and>
     (\<forall>t < length (tpc s). pc_ok c t (tpc s ! t) \<and> room c (curr_buf_size s) (tpc s ! t))"

definition mw_buffer_ok :: "mw_cfg \<Rightarrow> mw_sys \<Rightarrow> bool" where
  "mw_buffer_ok c s \<longleftrightarrow> length (buffer s) = max_buf_size c \<and> curr_buf_size s \<le> max_buf_size c \<and> \<not> overrun s \<and>
     mset (produced s) = mset (consumed s) + mset (take (curr_buf_size s) (buffer s))"

definition mw_produced_ok :: "mw_cfg \<Rightarrow> mw_sys \<Rightarrow> bool" where
  "mw_produced_ok c s \<longleftrightarrow> distinct (produced s) \<and> item_to_produce s = length (produced s) \<and>
     (\<forall>x. x \<in> set (produced s) \<longleftrightarrow> (\<exists>i < num_masters c. m_start c i \<le> x \<and> x < m_next c i (tpc s ! i)))"

definition taken_by :: "mw_cfg \<Rightarrow> mw_sys \<Rightarrow> nat \<Rightarrow> nat" where
  "taken_by c s j = w_next c j (tpc s ! (num_masters c + j)) - w_start c j"

definition mw_consumed_ok :: "mw_cfg \<Rightarrow> mw_sys \<Rightarrow> bool" where
  "mw_consumed_ok c s \<longleftrightarrow> length (consumed s) = (\<Sum>j < num_workers c. taken_by c s j)"

definition mw_inv :: "mw_cfg \<Rightarrow> mw_sys \<Rightarrow> bool" where
  "mw_inv c s \<longleftrightarrow> mw_threads_ok c s \<and> mw_buffer_ok c s \<and> mw_produced_ok c s \<and> mw_consumed_ok c s"

lemma mw_invD:
  assumes "mw_inv c s"
  shows "length (tpc s) = num_masters c + num_workers c + 1" "owned (mw_mutex s) mw_holds (tpc s)"
    "\<And>t. t < length (tpc s) \<Longrightarrow> pc_ok c t (tpc s ! t)" "\<And>t. t < length (tpc s) \<Longrightarrow> room c (curr_buf_size s) (tpc s ! t)"
    "mw_buffer_ok c s" "mw_produced_ok c s" "mw_consumed_ok c s"
  using assms by (simp_all add: mw_inv_def mw_threads_ok_def)

text \<open>A step of thread \<open>t\<close> that changes only its control state and the mutex.\<close>

definition same_next :: "mw_cfg \<Rightarrow> tid \<Rightarrow> mw_pc \<Rightarrow> mw_pc \<Rightarrow> bool" where
  "same_next c t p l \<longleftrightarrow> (t < num_masters c \<longrightarrow> m_next c t l = m_next c t p) \<and>
     (num_masters c \<le> t \<and> t < num_masters c + num_workers c \<longrightarrow> w_next c (t - num_masters c) l = w_next c (t - num_masters c) p)"

lemma mw_inv_go:
  assumes i: "mw_inv c s" and t: "t < length (tpc s)" and l: "pc_ok c t l" "room c (curr_buf_size s) l" "same_next c t (tpc s ! t) l"
    and h: "mw_holds l \<longrightarrow> mw_holds (tpc s ! t) \<or> mw_mutex s = None"
    and m: "m = (if mw_holds l = mw_holds (tpc s ! t) then mw_mutex s else if mw_holds l then Some t else None)"
  shows "mw_inv c (go t l (s\<lparr>mw_mutex := m\<rparr>))"
proof -
  note d = mw_invD [OF i]
  let ?s = "go t l (s\<lparr>mw_mutex := m\<rparr>)"
  have p: "tpc ?s = (tpc s)[t := l]" by (simp add: go_def)
  have "owned m mw_holds ((tpc s)[t := l])" using owned_update_iff [OF d(2) t h] m by blast
  moreover have "pc_ok c u ((tpc s)[t := l] ! u) \<and> room c (curr_buf_size s) ((tpc s)[t := l] ! u)" if "u < length (tpc s)" for u
    using d(3,4) [OF that] l(1,2) t by (cases "u = t") simp_all
  ultimately have "mw_threads_ok c ?s" using d(1) by (simp add: mw_threads_ok_def go_def)
  moreover have "mw_buffer_ok c ?s" using d(5) by (simp add: mw_buffer_ok_def go_def)
  moreover have "m_next c i ((tpc s)[t := l] ! i) = m_next c i (tpc s ! i)" if "i < num_masters c" for i
    using l(3) that t by (cases "i = t") (simp_all add: same_next_def)
  then have "mw_produced_ok c ?s" using d(6) by (simp add: mw_produced_ok_def go_def cong: conj_cong)
  moreover have "taken_by c ?s j = taken_by c s j" if "j < num_workers c" for j
    using l(3) that t d(1) by (cases "num_masters c + j = t") (auto simp: taken_by_def p same_next_def)
  then have "mw_consumed_ok c ?s" using d(7) by (simp add: mw_consumed_ok_def go_def)
  ultimately show ?thesis by (simp add: mw_inv_def)
qed

lemma woken_cases:
  obtains "woken p = p" | n where "p = M_waiting n" "woken p = M_woken n" | n where "p = W_waiting n" "woken p = W_woken n"
  by (cases p) simp_all

lemma woken_same:
  assumes "pc_ok c t p"
  shows "pc_ok c t (woken p)" "room c k (woken p) = room c k p" "same_next c t p (woken p)" "mw_holds (woken p) = mw_holds p"
proof -
  have "pc_ok c t (woken p) \<and> room c k (woken p) = room c k p \<and> same_next c t p (woken p) \<and> mw_holds (woken p) = mw_holds p"
    using assms by (cases rule: woken_cases [of p]) (simp_all add: pc_ok_def same_next_def split: if_splits)
  then show "pc_ok c t (woken p)" "room c k (woken p) = room c k p" "same_next c t p (woken p)" "mw_holds (woken p) = mw_holds p" by simp_all
qed

lemma mw_inv_wake:
  assumes i: "mw_inv c s" and t: "t < length (tpc s)"
  shows "mw_inv c (go t (woken (tpc s ! t)) s)"
  using mw_inv_go [OF i t woken_same(1) [OF mw_invD(3) [OF i t]] _ woken_same(3) [OF mw_invD(3) [OF i t]], of "mw_mutex s"] mw_invD(4) [OF i t]
  by (simp add: woken_same(2,4) [OF mw_invD(3) [OF i t]])

lemma mw_inv_signal:
  assumes "mw_inv c s" "cond_signal w u s = Some s'"
  shows "mw_inv c s' \<and> length (tpc s') = length (tpc s) \<and> mw_mutex s' = mw_mutex s \<and> curr_buf_size s' = curr_buf_size s"
  using assms mw_inv_wake [OF assms(1), of u] by (auto simp: cond_signal_def go_def split: if_splits)

lemma signal_other: "cond_signal w u s = Some s' \<Longrightarrow> \<not> w (tpc s ! t) \<Longrightarrow> tpc s' ! t = tpc s ! t"
  by (cases "u = t") (auto simp: cond_signal_def go_def split: if_splits)

lemma mw_inv_lock_go:
  assumes "mw_inv c s" "t < length (tpc s)" "lock_go t l s = Some s'"
    "pc_ok c t l" "room c (curr_buf_size s) l" "same_next c t (tpc s ! t) l" "mw_holds l" "\<not> mw_holds (tpc s ! t)"
  shows "mw_inv c s'"
  using mw_inv_go [OF assms(1,2,4,5,6), of "Some t"] assms(3,7,8) by (auto simp: lock_go_def split: if_splits)

lemma mw_inv_unlock_go:
  assumes "mw_inv c s" "t < length (tpc s)" "pc_ok c t l" "room c (curr_buf_size s) l" "same_next c t (tpc s ! t) l" "\<not> mw_holds l" "mw_holds (tpc s ! t)"
  shows "mw_inv c (unlock_go t l s)"
  using mw_inv_go [OF assms(1-5), of None] assms(6,7) by (simp add: unlock_go_def)

lemma mw_inv_keep_go:
  assumes "mw_inv c s" "t < length (tpc s)" "pc_ok c t l" "room c (curr_buf_size s) l" "same_next c t (tpc s ! t) l" "mw_holds l = mw_holds (tpc s ! t)"
  shows "mw_inv c (go t l s)"
  using mw_inv_go [OF assms(1-5), of "mw_mutex s"] assms(6) by simp

lemma mw_inv_signal_go:
  assumes i: "mw_inv c s" and t: "t < length (tpc s)" and s': "map_option (go t l) (cond_signal w u s) = Some s'" and w: "\<not> w (tpc s ! t)"
    and l: "pc_ok c t l" "\<And>k. room c k l" "same_next c t (tpc s ! t) l" "mw_holds l = mw_holds (tpc s ! t)"
  shows "mw_inv c s'"
proof -
  obtain s1 where s1: "cond_signal w u s = Some s1" "s' = go t l s1" using s' by auto
  note a = mw_inv_signal [OF i s1(1)] signal_other [OF s1(1) w]
  show ?thesis unfolding s1(2) using a t l by (intro mw_inv_keep_go) simp_all
qed

lemma sum_update:
  fixes f g :: "nat \<Rightarrow> nat"
  assumes "j < n" "\<And>i. i < n \<Longrightarrow> i \<noteq> j \<Longrightarrow> g i = f i" "g j = f j + 1"
  shows "(\<Sum>i < n. g i) = (\<Sum>i < n. f i) + 1"
proof -
  have "(\<Sum>i < n. g i) = g j + (\<Sum>i \<in> {..<n} - {j}. g i)" using assms(1) by (simp add: sum.remove [of _ j])
  also have "(\<Sum>i \<in> {..<n} - {j}. g i) = (\<Sum>i \<in> {..<n} - {j}. f i)" using assms(2) by (intro sum.cong) auto
  also have "g j + \<dots> = (\<Sum>i < n. f i) + 1" using assms(1,3) by (simp add: sum.remove [of _ j])
  finally show ?thesis .
qed

lemma only_holder:
  assumes "mw_inv c s" "t < length (tpc s)" "u < length (tpc s)" "mw_holds (tpc s ! t)" "u \<noteq> t"
  shows "room c k (tpc s ! u)"
proof -
  have "\<not> mw_holds (tpc s ! u)" using owned_unique [OF mw_invD(2) [OF assms(1)] assms(2,3,4)] assms(5) by blast
  then show ?thesis by (cases "tpc s ! u") simp_all
qed

lemma master_pc:
  assumes "pc_ok c t p" "p \<in> range M_for \<union> range M_lock \<union> range M_test \<union> range M_signal \<union> range M_check \<union> range M_waiting \<union> range M_woken \<union>
    range M_put \<union> range M_unlock \<union> {M_end_lock, M_end_test, M_end_unlock, M_done}"
  shows "t < num_masters c \<and> m_ok c t p"
  using assms by (auto simp: pc_ok_def split: if_splits)

lemma worker_pc:
  assumes "pc_ok c t p" "p \<in> range W_for \<union> range W_lock \<union> range W_test \<union> range W_signal \<union> range W_wait \<union> range W_waiting \<union> range W_woken \<union>
    range W_take \<union> range W_unlock \<union> {W_end_lock, W_end_signal, W_end_unlock, W_done}"
  shows "num_masters c \<le> t \<and> t < num_masters c + num_workers c \<and> w_ok c (t - num_masters c) p"
  using assms by (auto simp: pc_ok_def split: if_splits)

lemma mw_inv_put:
  assumes i: "mw_inv c s" and t: "t < length (tpc s)" and p: "tpc s ! t = M_put n"
  shows "mw_inv c (go t (M_unlock n)
    (s\<lparr>buffer := (buffer s)[curr_buf_size s := n], curr_buf_size := curr_buf_size s + 1, item_to_produce := item_to_produce s + 1,
       produced := produced s @ [n], overrun := overrun s \<or> \<not> curr_buf_size s < length (buffer s)\<rparr>))"
    (is "mw_inv c ?s")
proof -
  note d = mw_invD [OF i]
  have m: "t < num_masters c" "m_start c t \<le> n" "n < m_end c t" using master_pc [OF d(3) [OF t]] p by auto
  have k: "curr_buf_size s < max_buf_size c" using d(4) [OF t] p by simp
  have q: "tpc ?s = (tpc s)[t := M_unlock n]" "mw_mutex ?s = mw_mutex s" by (simp_all add: go_def)
  have "owned (mw_mutex s) mw_holds ((tpc s)[t := M_unlock n])" using owned_update_iff [OF d(2) t, of "M_unlock n"] p by simp
  moreover have "pc_ok c u ((tpc s)[t := M_unlock n] ! u) \<and> room c (curr_buf_size s + 1) ((tpc s)[t := M_unlock n] ! u)" if "u < length (tpc s)" for u
    using d(3) [OF that] only_holder [OF i t that] m t p by (cases "u = t") (simp_all add: pc_ok_def)
  ultimately have "mw_threads_ok c ?s" using d(1) by (simp add: mw_threads_ok_def go_def)
  moreover have "take (curr_buf_size s + 1) ((buffer s)[curr_buf_size s := n]) = take (curr_buf_size s) (buffer s) @ [n]"
    using k d(5) by (simp add: mw_buffer_ok_def take_Suc_conv_app_nth)
  then have "mw_buffer_ok c ?s" using d(5) k by (simp add: mw_buffer_ok_def go_def)
  moreover have "mw_produced_ok c ?s"
  proof -
    have nx: "m_next c u ((tpc s)[t := M_unlock n] ! u) = (if u = t then n + 1 else m_next c u (tpc s ! u))" if "u < num_masters c" for u
      using that t by simp
    have in_p: "x \<in> set (produced s) \<longleftrightarrow> (\<exists>u < num_masters c. m_start c u \<le> x \<and> x < m_next c u (tpc s ! u))" for x
      using d(6) by (simp add: mw_produced_ok_def)
    have "n \<notin> set (produced s)"
    proof
      assume "n \<in> set (produced s)"
      then obtain u where u: "u < num_masters c" "m_start c u \<le> n" "n < m_next c u (tpc s ! u)" using in_p by blast
      have "m_ok c u (tpc s ! u)" using d(3) [of u] u(1) d(1) by (simp add: pc_ok_def)
      then have "n < m_end c u" using u(3) by (cases "tpc s ! u") simp_all
      then have "u = t" using m_chunks_disjoint [OF u(1) m(1) u(2) _ m(2,3)] by blast
      then show False using u(3) p by simp
    qed
    moreover have "x \<in> insert n (set (produced s)) \<longleftrightarrow> (\<exists>u < num_masters c. m_start c u \<le> x \<and> x < m_next c u ((tpc s)[t := M_unlock n] ! u))" for x
    proof -
      have "(\<exists>u < num_masters c. m_start c u \<le> x \<and> x < m_next c u ((tpc s)[t := M_unlock n] ! u)) \<longleftrightarrow>
        (\<exists>u < num_masters c. m_start c u \<le> x \<and> x < m_next c u (tpc s ! u)) \<or> x = n"
      proof (cases "x = n")
        case True
        then show ?thesis using nx [OF m(1)] m(1,2) by auto
      next
        case False
        then have "x < m_next c u ((tpc s)[t := M_unlock n] ! u) \<longleftrightarrow> x < m_next c u (tpc s ! u)" if "u < num_masters c" for u
          using nx [OF that] p by (cases "u = t") auto
        then show ?thesis using False by (simp cong: conj_cong)
      qed
      then show ?thesis using in_p by auto
    qed
    ultimately show ?thesis using d(6) by (simp add: mw_produced_ok_def go_def)
  qed
  moreover have "taken_by c ?s j = taken_by c s j" for j using m(1) by (simp add: taken_by_def go_def)
  then have "mw_consumed_ok c ?s" using d(7) by (simp add: mw_consumed_ok_def go_def)
  ultimately show ?thesis by (simp add: mw_inv_def)
qed

lemma mw_inv_take:
  assumes i: "mw_inv c s" and t: "t < length (tpc s)" and p: "tpc s ! t = W_take n"
  shows "mw_inv c (go t (W_unlock n)
    (s\<lparr>curr_buf_size := curr_buf_size s - 1, consumed := consumed s @ [buffer s ! (curr_buf_size s - 1)],
       buffer := (buffer s)[curr_buf_size s - 1 := 0],
       overrun := overrun s \<or> curr_buf_size s = 0 \<or> \<not> curr_buf_size s - 1 < length (buffer s)\<rparr>))"
    (is "mw_inv c ?s")
proof -
  note d = mw_invD [OF i]
  let ?j = "t - num_masters c"
  have m: "num_masters c \<le> t" "t < num_masters c + num_workers c" "w_start c ?j \<le> n" "n < w_end c ?j" using worker_pc [OF d(3) [OF t]] p by auto
  have k: "0 < curr_buf_size s" using d(4) [OF t] p by simp
  have q: "tpc ?s = (tpc s)[t := W_unlock n]" by (simp add: go_def)
  have "owned (mw_mutex s) mw_holds ((tpc s)[t := W_unlock n])" using owned_update_iff [OF d(2) t, of "W_unlock n"] p by simp
  moreover have "pc_ok c u ((tpc s)[t := W_unlock n] ! u) \<and> room c (curr_buf_size s - 1) ((tpc s)[t := W_unlock n] ! u)" if "u < length (tpc s)" for u
    using d(3) [OF that] only_holder [OF i t that] m t p by (cases "u = t") (simp_all add: pc_ok_def)
  ultimately have "mw_threads_ok c ?s" using d(1) by (simp add: mw_threads_ok_def go_def)
  moreover have "mw_buffer_ok c ?s"
  proof -
    have b: "curr_buf_size s - 1 < length (buffer s)" "curr_buf_size s \<le> max_buf_size c" using k d(5) by (auto simp: mw_buffer_ok_def)
    have "take (curr_buf_size s) (buffer s) = take (curr_buf_size s - 1) (buffer s) @ [buffer s ! (curr_buf_size s - 1)]"
      using take_Suc_conv_app_nth [OF b(1)] k by simp
    then show ?thesis using d(5) k b by (simp add: mw_buffer_ok_def go_def)
  qed
  moreover have "m_next c u ((tpc s)[t := W_unlock n] ! u) = m_next c u (tpc s ! u)" if "u < num_masters c" for u using that m(1) by simp
  then have "mw_produced_ok c ?s" using d(6) by (simp add: mw_produced_ok_def go_def cong: conj_cong)
  moreover have "(\<Sum>j < num_workers c. taken_by c ?s j) = (\<Sum>j < num_workers c. taken_by c s j) + 1"
  proof (rule sum_update)
    show "?j < num_workers c" using m by linarith
    show "taken_by c ?s j = taken_by c s j" if "j \<noteq> ?j" for j using that m(1) by (auto simp: taken_by_def go_def nth_list_update_neq)
    show "taken_by c ?s ?j = taken_by c s ?j + 1" using m t p by (simp add: taken_by_def go_def Suc_diff_le)
  qed
  then have "mw_consumed_ok c ?s" using d(7) by (simp add: mw_consumed_ok_def go_def)
  ultimately show ?thesis by (simp add: mw_inv_def)
qed

lemma mw_inv_master:
  assumes i: "mw_inv c s" and t: "t < length (tpc s)" and g: "generate_requests_loop c t u s = Some s'"
  shows "mw_inv c s'"
proof (cases "\<exists>n. tpc s ! t = M_put n")
  case True
  then show ?thesis using mw_inv_put [OF i t] g by (auto simp: generate_requests_loop_def)
next
  case False
  note ok = master_pc [OF mw_invD(3) [OF i t]]
  note rules = mw_inv_lock_go [OF i t] mw_inv_unlock_go [OF i t] mw_inv_keep_go [OF i t] mw_inv_signal_go [OF i t]
  show ?thesis using g ok False
    by (cases "tpc s ! t") (auto simp: generate_requests_loop_def pc_ok_def same_next_def simp del: map_option_eq_Some split: if_splits intro: rules)
qed

lemma mw_inv_worker:
  assumes i: "mw_inv c s" and t: "t < length (tpc s)" and g: "generate_responses_loop c t u s = Some s'"
  shows "mw_inv c s'"
proof (cases "\<exists>n. tpc s ! t = W_take n")
  case True
  then show ?thesis using mw_inv_take [OF i t] g by (auto simp: generate_responses_loop_def)
next
  case False
  note ok = worker_pc [OF mw_invD(3) [OF i t]]
  note rules = mw_inv_lock_go [OF i t] mw_inv_unlock_go [OF i t] mw_inv_keep_go [OF i t] mw_inv_signal_go [OF i t]
  show ?thesis using g ok False
    by (cases "tpc s ! t") (auto simp: generate_responses_loop_def pc_ok_def same_next_def simp del: map_option_eq_Some split: if_splits intro: rules)
qed

lemma mw_inv_main:
  assumes i: "mw_inv c s" and t: "t < length (tpc s)" and g: "main_joins c t u s = Some s'"
  shows "mw_inv c s'"
proof -
  have ok: "\<not> t < num_masters c" "\<not> t < num_masters c + num_workers c" if "p_ok (tpc s ! t)"
    using mw_invD(3) [OF i t] that by (auto simp: pc_ok_def split: if_splits)
  note rules = mw_inv_lock_go [OF i t] mw_inv_unlock_go [OF i t] mw_inv_keep_go [OF i t] mw_inv_signal_go [OF i t]
  show ?thesis using g ok
    by (cases "tpc s ! t") (auto simp: main_joins_def pc_ok_def same_next_def simp del: map_option_eq_Some split: if_splits intro: rules)
qed

lemma mw_inv_start: "mw_inv c (mw_start c)"
proof -
  let ?s = "mw_start c"
  have len: "length (tpc ?s) = num_masters c + num_workers c + 1" by (simp add: mw_start_def)
  have p: "tpc ?s ! t = (if t < num_masters c then M_for (m_start c t) else if t < num_masters c + num_workers c then W_for (w_start c (t - num_masters c)) else P_join_masters)"
    if "t < length (tpc ?s)" for t using that by (auto simp: mw_start_def nth_append)
  have "pc_ok c t (tpc ?s ! t) \<and> room c (curr_buf_size ?s) (tpc ?s ! t) \<and> \<not> mw_holds (tpc ?s ! t)" if "t < length (tpc ?s)" for t
    using p [OF that] m_start_le_end w_start_le_end [of "t - num_masters c" c] by (simp add: pc_ok_def)
  then have "mw_threads_ok c ?s" using len by (auto simp: mw_threads_ok_def owned_def) (simp_all add: mw_start_def)
  moreover have "mw_buffer_ok c ?s" by (simp add: mw_buffer_ok_def mw_start_def)
  moreover have "m_next c i (tpc ?s ! i) = m_start c i" if "i < num_masters c" for i using p [of i] that len by simp
  then have "mw_produced_ok c ?s" by (auto simp: mw_produced_ok_def) (simp_all add: mw_start_def)
  moreover have "taken_by c ?s j = 0" if "j < num_workers c" for j using p [of "num_masters c + j"] that len by (simp add: taken_by_def)
  then have "mw_consumed_ok c ?s" by (simp add: mw_consumed_ok_def) (simp add: mw_start_def)
  ultimately show ?thesis by (simp add: mw_inv_def)
qed

lemma mw_inv_step: "mw_inv c s \<Longrightarrow> mw_step c s s' \<Longrightarrow> mw_inv c s'"
  by (erule mw_step.cases) (blast intro: mw_inv_master mw_inv_worker mw_inv_main mw_inv_wake)+

interpretation mw_threads: thread_system "mw_start c" "mw_step c" "mw_inv c" for c
  by unfold_locales (rule mw_inv_start, rule mw_inv_step)

text \<open>C9: the master-worker pool, for any numbers of masters, workers and items, any size of the buffer, and in every interleaving. The buffer is never
  accessed outside its bounds; every number is produced at most once and consumed at most once, and only after it has
  been produced, and only numbers below \<open>total_items\<close> are. When all threads have ended, every number from
  0 to \<open>total_items - 1\<close> has been produced and consumed exactly once and the buffer is empty.\<close>

theorem master_worker_exactly_once:
  assumes "0 < num_masters c" "0 < num_workers c" "(mw_step c)\<^sup>*\<^sup>* (mw_start c) s"
  shows "\<not> overrun s \<and> curr_buf_size s \<le> max_buf_size c \<and> distinct (produced s) \<and> distinct (consumed s) \<and>
    set (consumed s) \<subseteq> set (produced s) \<and> set (produced s) \<subseteq> {..<total_items c} \<and>
    ((\<forall>i < num_masters c. tpc s ! i = M_done) \<and> (\<forall>j < num_workers c. tpc s ! (num_masters c + j) = W_done) \<longrightarrow>
      set (produced s) = {..<total_items c} \<and> set (consumed s) = {..<total_items c} \<and> curr_buf_size s = 0)"
proof -
  have i: "mw_inv c s" using mw_threads.reachable_inv [of c s] assms(3) by (simp add: mw_threads.reachable_def)
  note d = mw_invD [OF i]
  have b: "\<not> overrun s" "curr_buf_size s \<le> max_buf_size c" "length (buffer s) = max_buf_size c"
    "mset (produced s) = mset (consumed s) + mset (take (curr_buf_size s) (buffer s))" using d(5) by (simp_all add: mw_buffer_ok_def)
  have pr: "distinct (produced s)" "x \<in> set (produced s) \<longleftrightarrow> (\<exists>i < num_masters c. m_start c i \<le> x \<and> x < m_next c i (tpc s ! i))" for x
    using d(6) by (simp_all add: mw_produced_ok_def)
  have sub: "set (consumed s) \<subseteq> set (produced s)" using arg_cong [OF b(4), of set_mset] by auto
  have dc: "distinct (consumed s)"
  proof -
    have "mset (consumed s @ take (curr_buf_size s) (buffer s)) = mset (produced s)" using b(4) by simp
    then have "distinct (consumed s @ take (curr_buf_size s) (buffer s))" using pr(1) mset_eq_imp_distinct_iff by blast
    then show ?thesis by simp
  qed
  have nx: "m_next c u (tpc s ! u) \<le> m_end c u" if "u < num_masters c" for u
  proof -
    have "m_ok c u (tpc s ! u)" using d(3) [of u] that d(1) by (simp add: pc_ok_def)
    then show ?thesis by (cases "tpc s ! u") simp_all
  qed
  have tot: "set (produced s) \<subseteq> {..<total_items c}"
    using pr(2) nx m_chunks_cover [OF assms(1)] by (auto 4 3) (meson less_le_trans)
  have "set (produced s) = {..<total_items c} \<and> set (consumed s) = {..<total_items c} \<and> curr_buf_size s = 0"
    if m: "\<forall>i < num_masters c. tpc s ! i = M_done" and w: "\<forall>j < num_workers c. tpc s ! (num_masters c + j) = W_done"
  proof -
    have "x \<in> set (produced s) \<longleftrightarrow> x < total_items c" for x using pr(2) [of x] m m_chunks_cover [OF assms(1), of x] by (simp cong: conj_cong)
    then have sp: "set (produced s) = {..<total_items c}" by auto
    have "length (consumed s) = (\<Sum>j < num_workers c. w_end c j - w_start c j)"
      using d(7) w by (simp add: mw_consumed_ok_def taken_by_def)
    then have lc: "length (consumed s) = total_items c" using w_chunks_total [OF assms(2)] by simp
    have "length (produced s) = total_items c" using distinct_card [OF pr(1)] sp by simp
    moreover have "length (produced s) = length (consumed s) + curr_buf_size s" using arg_cong [OF b(4), of size] b(2,3) by simp
    ultimately have "curr_buf_size s = 0" using lc by simp
    moreover have "set (consumed s) = {..<total_items c}"
      using distinct_card [OF dc] lc sub sp by (intro card_subset_eq) simp_all
    ultimately show ?thesis using sp by blast
  qed
  then show ?thesis using b(1,2) pr(1) dc sub tot by blast
qed

text \<open>A schedule: the listed threads make one step each, if they can; a signal wakes the second thread of the pair.\<close>

definition mw_move :: "mw_cfg \<Rightarrow> tid \<times> tid \<Rightarrow> mw_sys \<Rightarrow> mw_sys" where
  "mw_move c m s =
     (case m of (t, u) \<Rightarrow>
        if \<not> t < length (tpc s) then s
        else case generate_requests_loop c t u s of Some s' \<Rightarrow> s'
          | None \<Rightarrow> (case generate_responses_loop c t u s of Some s' \<Rightarrow> s' | None \<Rightarrow> (case main_joins c t u s of Some s' \<Rightarrow> s' | None \<Rightarrow> s)))"

lemma mw_move_reach: "(mw_step c)\<^sup>*\<^sup>* s (mw_move c m s)"
  by (cases m) (auto simp: mw_move_def intro: master worker main split: option.splits)

lemma mw_schedule_reach: "(mw_step c)\<^sup>*\<^sup>* s (fold (mw_move c) ms s)"
  by (induction ms arbitrary: s) (auto intro: rtranclp_trans [OF mw_move_reach])

text \<open>Witness: one master and one worker hand over two numbers and end.\<close>

definition mw_small :: mw_cfg where
  "mw_small = \<lparr>total_items = 2, max_buf_size = 2, num_workers = 1, num_masters = 1\<rparr>"

lemma mw_small_run:
  "tpc (fold (mw_move mw_small) (replicate 14 (0, 1) @ replicate 14 (1, 0)) (mw_start mw_small)) = [M_done, W_done, P_join_masters]"
  by code_simp

theorem master_worker_exactly_once_witness:
  "let s = fold (mw_move mw_small) (replicate 14 (0, 1) @ replicate 14 (1, 0)) (mw_start mw_small) in
   set (produced s) = {0, 1} \<and> set (consumed s) = {0, 1} \<and> curr_buf_size s = 0 \<and> \<not> overrun s"
proof -
  define s where "s = fold (mw_move mw_small) (replicate 14 (0, 1) @ replicate 14 (1, 0)) (mw_start mw_small)"
  have r: "(mw_step mw_small)\<^sup>*\<^sup>* (mw_start mw_small) s" unfolding s_def by (rule mw_schedule_reach)
  have c: "num_masters mw_small = 1" "num_workers mw_small = 1" "{..<total_items mw_small} = {0, 1}" by (auto simp: mw_small_def)
  have "tpc s = [M_done, W_done, P_join_masters]" using mw_small_run by (simp only: s_def)
  then show ?thesis using master_worker_exactly_once [OF _ _ r] unfolding s_def [symmetric] Let_def by (simp add: c)
qed

text \<open>No thread can make a step by itself.\<close>

definition mw_stuck :: "mw_cfg \<Rightarrow> mw_sys \<Rightarrow> bool" where
  "mw_stuck c s \<longleftrightarrow> (\<forall>t < length (tpc s). \<forall>u. generate_requests_loop c t u s = None \<and> generate_responses_loop c t u s = None \<and> main_joins c t u s = None)"

definition mw_bad :: mw_cfg where
  "mw_bad = \<lparr>total_items = 6, max_buf_size = 3, num_workers = 4, num_masters = 1\<rparr>"

definition bad_schedule :: "(tid \<times> tid) list" where
  "bad_schedule = replicate 20 (0, 1) @ replicate 19 (1, 0) @ replicate 5 (2, 0) @ replicate 5 (3, 0) @ replicate 5 (4, 0) @
     replicate 18 (0, 2) @ replicate 4 (5, 3) @ replicate 8 (2, 0) @ replicate 8 (3, 0)"

lemma bad_run:
  "tpc (fold (mw_move mw_bad) bad_schedule (mw_start mw_bad)) = [M_done, W_done, W_done, W_done, W_waiting 3, P_join_workers]"
  "curr_buf_size (fold (mw_move mw_bad) bad_schedule (mw_start mw_bad)) = 1"
  by code_simp+

text \<open>The pool can hang. \<open>pthread_cond_signal\<close> wakes one worker only, the last master signals once and \<open>main\<close> once more;
  with six items, a buffer of three, four workers and one master the program reaches a state with a number left in the buffer in
  which the last worker waits for a signal, \<open>main\<close> waits for that worker, and no thread can make a step.\<close>

theorem master_worker_hangs:
  "\<exists>s. (mw_step mw_bad)\<^sup>*\<^sup>* (mw_start mw_bad) s \<and> mw_stuck mw_bad s \<and> curr_buf_size s = 1 \<and> W_waiting 3 \<in> set (tpc s) \<and> P_join_workers \<in> set (tpc s)"
proof -
  define s where "s = fold (mw_move mw_bad) bad_schedule (mw_start mw_bad)"
  have p: "tpc s = [M_done, W_done, W_done, W_done, W_waiting 3, P_join_workers]" "curr_buf_size s = 1" using bad_run by (simp_all only: s_def)
  have "num_masters mw_bad = 1" "num_workers mw_bad = 4" by (simp_all add: mw_bad_def)
  then have "mw_stuck mw_bad s"
    by (auto simp: mw_stuck_def p less_Suc_eq generate_requests_loop_def generate_responses_loop_def main_joins_def intro: exI [of _ 3])
  then show ?thesis using mw_schedule_reach [where c = mw_bad and s = "mw_start mw_bad" and ms = bad_schedule] p unfolding s_def [symmetric] by auto
qed

end
