(* ===== verification/SSU_Shell.thy ===== *)
theory SSU_Shell
  imports Prelude
begin

text \<open>
  The shell of the second project, \<open>src/project2/ssu_shell.c\<close>. A line is the list of its bytes before the final zero. The array of tokens
  has 64 cells, which are indeterminate until they are assigned; the buffers have their sizes, and an access outside of them, to
  an indeterminate cell or through a null pointer is a fault. The descriptors of a process are a table; \<open>pipe\<close> takes the two lowest free
  ones, \<open>fork\<close> copies the table, and the ends of the pipes of a line are named by the index of the pipe in \<open>pipefds\<close>. Whether a
  program can be executed, and the home directory of the user, are arguments. The lemmas relate \<open>tokenize\<close> to splitting at blanks, and the
  loop over the commands to a pipeline: which command runs with which arguments, and who holds which end of which pipe.
\<close>

subsection \<open>The program\<close>

definition MAX_INPUT_SIZE :: nat where "MAX_INPUT_SIZE = 1024"
definition MAX_TOKEN_SIZE :: nat where "MAX_TOKEN_SIZE = 64"
definition MAX_NUM_TOKENS :: nat where "MAX_NUM_TOKENS = 64"
definition MAX_NUM_PIPES :: nat where "MAX_NUM_PIPES = 64"

lemmas shell_consts = MAX_INPUT_SIZE_def MAX_TOKEN_SIZE_def MAX_NUM_TOKENS_def MAX_NUM_PIPES_def

datatype shell_fault =
    Overflow          \<comment> \<open>an access outside of an array\<close>
  | Null_pointer      \<comment> \<open>a null pointer is followed\<close>
  | Indeterminate     \<comment> \<open>a variable is read that has not been assigned\<close>
  | No_descriptor     \<comment> \<open>\<open>pipe\<close> finds no free descriptors\<close>

datatype cell = Undef | Null | Str "byte list"

definition cell_at :: "cell list \<Rightarrow> nat \<Rightarrow> shell_fault + byte list option" where
  "cell_at ts i =
     (if length ts \<le> i then Inl Overflow
      else case ts ! i of Undef \<Rightarrow> Inl Indeterminate | Null \<Rightarrow> Inr None | Str w \<Rightarrow> Inr (Some w))"

definition blank :: "byte \<Rightarrow> bool" where
  "blank c \<longleftrightarrow> c = 32 \<or> c = 10 \<or> c = 9"

fun tokenize_loop :: "byte list \<Rightarrow> byte list \<Rightarrow> byte list list \<Rightarrow> shell_fault + byte list list" where
  "tokenize_loop [] token toks = Inr toks"
| "tokenize_loop (c # cs) token toks =
     (if blank c
      then
        if MAX_TOKEN_SIZE \<le> length token then Inl Overflow
        else if token \<noteq> []
        then if MAX_NUM_TOKENS \<le> length toks then Inl Overflow else tokenize_loop cs [] (toks @ [token])
        else tokenize_loop cs token toks
      else if MAX_TOKEN_SIZE \<le> length token then Inl Overflow
      else tokenize_loop cs (token @ [c]) toks)"

definition tokenize :: "byte list \<Rightarrow> shell_fault + cell list" where
  "tokenize line =
     ebind (tokenize_loop line [] []) (\<lambda>toks.
       if MAX_NUM_TOKENS \<le> length toks then Inl Overflow
       else Inr (map Str toks @ [Null] @ replicate (MAX_NUM_TOKENS - 1 - length toks) Undef))"

record queue =
  front :: nat
  rear :: nat
  body :: "int option list"

definition queue_new :: queue where
  "queue_new = \<lparr>front = 0, rear = 0, body = replicate 128 None\<rparr>"

definition queue_push :: "int \<Rightarrow> queue \<Rightarrow> shell_fault + queue" where
  "queue_push elem q =
     (if 128 \<le> rear q then Inl Overflow else Inr (q\<lparr>body := (body q)[rear q := Some elem], rear := rear q + 1\<rparr>))"

definition queue_front :: "queue \<Rightarrow> shell_fault + int" where
  "queue_front q =
     (if 128 \<le> front q then Inl Overflow else case body q ! front q of None \<Rightarrow> Inl Indeterminate | Some x \<Rightarrow> Inr x)"

definition queue_pop :: "queue \<Rightarrow> bool \<times> queue" where
  "queue_pop q =
     (if front q = rear q then (False, q) else (True, q\<lparr>body := (body q)[front q := Some 0], front := front q + 1\<rparr>))"

definition queue_empty :: "queue \<Rightarrow> bool" where
  "queue_empty q \<longleftrightarrow> rear q = front q"

definition queue_length :: "queue \<Rightarrow> nat" where
  "queue_length q = rear q - front q"

text \<open>The descriptors: an entry is closed or refers to a file that the shell was started with, or to an end of a pipe.\<close>

datatype fend = File nat | Rd nat | Wr nat

type_synonym fds = "fend option list"

definition pipe :: "nat \<Rightarrow> fds \<Rightarrow> shell_fault + (nat \<times> nat) \<times> fds" where
  "pipe i t =
     (case find_slot (\<lambda>e. e = None) t of
        None \<Rightarrow> Inl No_descriptor
      | Some r \<Rightarrow>
          (let t1 = t[r := Some (Rd i)] in
           case find_slot (\<lambda>e. e = None) t1 of
             None \<Rightarrow> Inl No_descriptor
           | Some w \<Rightarrow> Inr ((r, w), t1[w := Some (Wr i)])))"

definition dup2 :: "nat \<Rightarrow> nat \<Rightarrow> fds \<Rightarrow> fds" where
  "dup2 old new t = t[new := t ! old]"

definition close :: "nat \<Rightarrow> fds \<Rightarrow> fds" where
  "close fd t = t[fd := None]"

fun close_pipes :: "(nat \<times> nat) list \<Rightarrow> fds \<Rightarrow> fds" where
  "close_pipes [] t = t"
| "close_pipes ((r, w) # ps) t = close_pipes ps (close w (close r t))"

text \<open>The search for the tokens that start with a bar.\<close>

function find_bars :: "nat \<Rightarrow> cell list \<Rightarrow> queue \<Rightarrow> shell_fault + cell list \<times> queue" where
  "find_bars i ts q =
     ebind (cell_at ts i) (\<lambda>w.
       case w of
         None \<Rightarrow> Inr (ts, q)
       | Some w \<Rightarrow>
           if take 1 w \<noteq> [124] then find_bars (i + 1) ts q
           else ebind (queue_push (int i) q) (find_bars (i + 1) (ts[i := Null])))"
  by pat_completeness auto
termination
  by (relation "measure (\<lambda>(i, ts, q). length ts - i)") (auto simp: cell_at_def split: if_splits)

declare find_bars.simps [simp del]

fun make_pipes :: "nat \<Rightarrow> nat \<Rightarrow> fds \<Rightarrow> shell_fault + (nat \<times> nat) list \<times> fds" where
  "make_pipes i 0 t = Inr ([], t)"
| "make_pipes i (Suc n) t =
     (if MAX_NUM_PIPES \<le> i then Inl Overflow
      else ebind (pipe i t) (\<lambda>(p, t1). ebind (make_pipes (i + 1) n t1) (\<lambda>(ps, t2). Inr (p # ps, t2))))"

text \<open>The arguments of \<open>execvp\<close>: the tokens up to the next null pointer.\<close>

function argv_from :: "cell list \<Rightarrow> nat \<Rightarrow> shell_fault + byte list list" where
  "argv_from ts i =
     ebind (cell_at ts i) (\<lambda>w. case w of None \<Rightarrow> Inr [] | Some w \<Rightarrow> ebind (argv_from ts (i + 1)) (\<lambda>ws. Inr (w # ws)))"
  by pat_completeness auto
termination
  by (relation "measure (\<lambda>(ts, i). length ts - i)") (auto simp: cell_at_def split: if_splits)

declare argv_from.simps [simp del]

datatype outcome =
    Ran "byte list list" fds     \<comment> \<open>the program runs with these arguments and descriptors\<close>
  | Incorrect_command            \<comment> \<open>\<open>execvp\<close> fails: the message, and \<open>exit(1)\<close>\<close>
  | Crashed shell_fault          \<comment> \<open>the child process faults\<close>

definition pps :: "byte list" where "pps = [112, 112, 115]"
definition ttop :: "byte list" where "ttop = [116, 116, 111, 112]"

definition run_child ::
  "byte list \<Rightarrow> (byte list \<Rightarrow> bool) \<Rightarrow> (nat \<times> nat) list \<Rightarrow> nat \<Rightarrow> nat \<Rightarrow> cell list \<Rightarrow> queue \<Rightarrow> fds \<Rightarrow> outcome" where
  "run_child home runs pipefds cmd_length cmdc ts q t =
     (let t1 = (if cmdc \<noteq> 1 then dup2 (fst (pipefds ! (cmdc - 1))) 0 t else t);
          t2 = (if cmdc \<noteq> cmd_length then dup2 (snd (pipefds ! cmdc)) 1 t1 else t1);
          t3 = close_pipes (take cmdc pipefds) t2
      in
      case ebind (queue_front q) (\<lambda>div_index. let k = nat (div_index + 1) in ebind (cell_at ts k) (\<lambda>w. Inr (k, w))) of
        Inl f \<Rightarrow> Crashed f
      | Inr (k, None) \<Rightarrow> Crashed Null_pointer
      | Inr (k, Some w) \<Rightarrow>
          if (w = pps \<or> w = ttop) \<and> MAX_TOKEN_SIZE \<le> length home + 1 + length w then Crashed Overflow
          else
            let ts1 = (if w = pps \<or> w = ttop then ts[k := Str (home @ [47] @ w)] else ts) in
            (case argv_from ts1 k of
               Inl f \<Rightarrow> Crashed f
             | Inr argv \<Rightarrow> if runs (hd argv) then Ran argv t3 else Incorrect_command))"

text \<open>The loop that forks a child for every command; the parent pops the queue.\<close>

function fork_loop ::
  "byte list \<Rightarrow> (byte list \<Rightarrow> bool) \<Rightarrow> (nat \<times> nat) list \<Rightarrow> nat \<Rightarrow> nat \<Rightarrow> cell list \<Rightarrow> queue \<Rightarrow> fds \<Rightarrow> outcome list" where
  "fork_loop home runs pipefds cmd_length cmdc ts q t =
     (if queue_empty q \<or> rear q < front q then []
      else run_child home runs pipefds cmd_length (cmdc + 1) ts q t #
        fork_loop home runs pipefds cmd_length (cmdc + 1) ts (snd (queue_pop q)) t)"
  by pat_completeness auto
termination
  by (relation "measure (\<lambda>(home, runs, pipefds, cmd_length, cmdc, ts, q, t). rear q - front q)") (auto simp: queue_empty_def queue_pop_def)

declare fork_loop.simps [simp del]

text \<open>\<open>for (int i = 0; i < token_len; i++) if (tokens[i] != NULL) free(tokens[i]);\<close>\<close>

definition free_tokens :: "nat option \<Rightarrow> cell list \<Rightarrow> shell_fault + unit" where
  "free_tokens token_len ts =
     (case token_len of
        None \<Rightarrow> Inl Indeterminate
      | Some n \<Rightarrow>
          if length ts < n then Inl Overflow else if Undef \<in> set (take n ts) then Inl Indeterminate else Inr ())"

text \<open>The body of the loop of \<open>main\<close> for a line that ends in a newline: the children, the descriptors and \<open>token_len\<close>, which is \<open>None\<close> until the
  first line with a token.\<close>

definition do_line ::
  "byte list \<Rightarrow> (byte list \<Rightarrow> bool) \<Rightarrow> byte list \<Rightarrow> nat option \<Rightarrow> fds \<Rightarrow> shell_fault + outcome list \<times> nat option \<times> fds" where
  "do_line home runs line token_len t =
     ebind (tokenize line) (\<lambda>ts.
       ebind (cell_at ts 0) (\<lambda>first.
         let token_len1 = (if first = None then token_len else Some (length (takeWhile (\<lambda>c. c \<noteq> Null) ts) - 1)) in
         ebind (if first \<noteq> None then queue_push (-1) queue_new else Inr queue_new) (\<lambda>q.
           ebind (find_bars 0 ts q) (\<lambda>(ts1, q1).
             let cmd_length = queue_length q1 in
             ebind (make_pipes 0 cmd_length t) (\<lambda>(pipefds, t1).
               let children = fork_loop home runs pipefds cmd_length 0 ts1 q1 t1; t2 = close_pipes pipefds t1 in
               ebind (free_tokens token_len1 ts1) (\<lambda>_. Inr (children, token_len1, t2)))))))"

subsection \<open>Input\<close>

text \<open>\<open>fgets\<close> reads up to and including the next newline, at most 1023 bytes.\<close>

definition fgets :: "byte list \<Rightarrow> (byte list \<times> byte list) option" where
  "fgets inp =
     (if inp = [] then None
      else
        let l = takeWhile (\<lambda>c. c \<noteq> 10) inp; n = min (MAX_INPUT_SIZE - 1) (length l + 1) in Some (take n inp, drop n inp))"

text \<open>\<open>line[strlen(line) - 1] = 0; line[strlen(line)] = '\n';\<close>\<close>

definition batch_line :: "byte list \<Rightarrow> shell_fault + byte list" where
  "batch_line buf =
     (let s = takeWhile (\<lambda>c. c \<noteq> 0) buf in if s = [] then Inl Overflow else Inr (butlast s @ [10]))"

text \<open>\<open>scanf("%[^\n]", line); getchar(); line[strlen(line)] = '\n';\<close> The line and the rest of the input. The buffer has no room for a final
  zero when the newline is its last byte; a zero byte in the input is overwritten by the newline.\<close>

definition interactive_line :: "byte list \<Rightarrow> shell_fault + byte list \<times> byte list" where
  "interactive_line inp =
     (let l = takeWhile (\<lambda>c. c \<noteq> 10) inp; s = takeWhile (\<lambda>c. c \<noteq> 0) l in
      if MAX_INPUT_SIZE \<le> length l \<or> MAX_INPUT_SIZE \<le> length s + 1 then Inl Overflow
      else Inr (s @ [10] @ takeWhile (\<lambda>c. c \<noteq> 0) (drop (length s + 1) l), drop (length l + 1) inp))"

function run_batch ::
  "byte list \<Rightarrow> (byte list \<Rightarrow> bool) \<Rightarrow> byte list \<Rightarrow> nat option \<Rightarrow> fds \<Rightarrow> shell_fault + outcome list list" where
  "run_batch home runs inp token_len t =
     (case fgets inp of
        None \<Rightarrow> Inr []
      | Some (buf, rest) \<Rightarrow>
          ebind (batch_line buf) (\<lambda>line.
            ebind (do_line home runs line token_len t) (\<lambda>(children, token_len1, t1).
              ebind (run_batch home runs rest token_len1 t1) (\<lambda>cs. Inr (children # cs)))))"
  by pat_completeness auto
termination
  by (relation "measure (\<lambda>(home, runs, inp, token_len, t). length inp)")
    (auto simp: fgets_def Let_def shell_consts split: if_splits)

declare run_batch.simps [simp del]

subsection \<open>Tokens\<close>

text \<open>The reference: the non-empty pieces between blanks.\<close>

fun split_at :: "('a \<Rightarrow> bool) \<Rightarrow> 'a list \<Rightarrow> 'a list list" where
  "split_at P [] = [[]]"
| "split_at P (x # xs) = (if P x then [] # split_at P xs else (x # hd (split_at P xs)) # tl (split_at P xs))"

lemma split_at_nonempty [simp]: "split_at P xs \<noteq> []"
  by (cases xs) auto

definition words :: "byte list \<Rightarrow> byte list list" where
  "words line = filter (\<lambda>w. w \<noteq> []) (split_at blank line)"

definition words_after :: "byte list \<Rightarrow> byte list \<Rightarrow> byte list list" where
  "words_after token line = filter (\<lambda>w. w \<noteq> []) ((token @ hd (split_at blank line)) # tl (split_at blank line))"

lemma words_after_simps:
  "words_after token [] = (if token = [] then [] else [token])"
  "blank c \<Longrightarrow> words_after token (c # cs) = (if token = [] then [] else [token]) @ words_after [] cs"
  "\<not> blank c \<Longrightarrow> words_after token (c # cs) = words_after (token @ [c]) cs"
  "words_after [] line = words line"
  by (simp_all add: words_after_def words_def)

lemma words_after_long: "length token = 64 \<Longrightarrow> \<exists>w \<in> set (words_after token line). 64 \<le> length w"
  by (cases "token = []") (auto simp: words_after_def)

lemma tokenize_loop_words:
  assumes "length token \<le> 64" "length toks \<le> 64"
  shows "tokenize_loop (line @ [10]) token toks =
    (if (\<forall>w \<in> set (words_after token line). length w < 64) \<and> length toks + length (words_after token line) \<le> 64
     then Inr (toks @ words_after token line) else Inl Overflow)"
  using assms
proof (induction line arbitrary: token toks)
  case Nil
  then show ?case by (auto simp: words_after_simps blank_def shell_consts)
next
  case (Cons c cs)
  show ?case
  proof (cases "blank c")
    case True
    show ?thesis
    proof (cases "token = []")
      case True
      then show ?thesis using \<open>blank c\<close> Cons.IH [of "[]" toks] Cons.prems by (simp add: words_after_simps(2) shell_consts)
    next
      case False
      consider "length token = 64" | "length token < 64" "length toks = 64" | "length token < 64" "length toks < 64" using Cons.prems by linarith
      then show ?thesis
      proof cases
        case 3
        then show ?thesis using True False Cons.IH [of "[]" "toks @ [token]"] by (simp add: words_after_simps(2) shell_consts)
      qed (use True False in \<open>simp_all add: words_after_simps(2) shell_consts\<close>)
    qed
  next
    case False
    show ?thesis
    proof (cases "length token < 64")
      case True
      then show ?thesis using False Cons.IH [of "token @ [c]" toks] Cons.prems by (simp add: words_after_simps(3) shell_consts)
    next
      case F: False
      then have "\<exists>w \<in> set (words_after token (c # cs)). 64 \<le> length w" using words_after_long [of token "c # cs"] Cons.prems(1) by simp
      then show ?thesis using False F by (auto simp: shell_consts not_less [symmetric])
    qed
  qed
qed

lemma tokenize_words:
  "tokenize (line @ [10]) =
    (if (\<forall>w \<in> set (words line). length w < 64) \<and> length (words line) < 64
     then Inr (map Str (words line) @ [Null] @ replicate (63 - length (words line)) Undef) else Inl Overflow)"
  using tokenize_loop_words [of "[]" "[]" line] by (auto simp: tokenize_def words_after_simps(4) shell_consts)

subsection \<open>The commands of a line\<close>

definition bar :: "byte list \<Rightarrow> bool" where
  "bar w \<longleftrightarrow> take 1 w = [124]"

definition commands :: "byte list list \<Rightarrow> byte list list list" where
  "commands ws = split_at bar ws"

definition bars :: "byte list list \<Rightarrow> nat \<Rightarrow> nat list" where
  "bars ws i = filter (\<lambda>j. bar (ws ! (j - i))) [i..<i + length ws]"

definition cut :: "byte list list \<Rightarrow> cell list" where
  "cut ws = map (\<lambda>w. if bar w then Null else Str w) ws"

lemma bars_Cons: "bars (w # ws) i = (if bar w then [i] else []) @ bars ws (Suc i)"
proof -
  have "[i..<i + length (w # ws)] = i # [Suc i..<Suc i + length ws]" by (simp add: upt_conv_Cons del: upt_Suc)
  moreover have "filter (\<lambda>j. bar ((w # ws) ! (j - i))) [Suc i..<Suc i + length ws] = filter (\<lambda>j. bar (ws ! (j - Suc i))) [Suc i..<Suc i + length ws]"
    by (rule filter_cong) (auto simp: nth_Cons')
  ultimately show ?thesis by (simp add: bars_def)
qed

lemma bars_Nil [simp]: "bars [] i = []"
  by (simp add: bars_def)

lemma length_bars: "length (bars ws i) = length (filter bar ws)" "length (split_at bar ws) = Suc (length (filter bar ws))"
  by (induction ws arbitrary: i) (auto simp: bars_Cons)

text \<open>Command \<open>k\<close> starts after bar \<open>k - 1\<close>.\<close>

lemma nth_commands:
  "k \<le> length (bars ws i) \<Longrightarrow> split_at bar ws ! k = takeWhile (\<lambda>w. \<not> bar w) (drop ((if k = 0 then 0 else Suc (bars ws i ! (k - 1) - i))) ws)"
proof (induction ws arbitrary: i k)
  case (Cons w ws)
  have ge: "j \<in> set (bars ws (Suc i)) \<Longrightarrow> Suc i \<le> j" for j by (auto simp: bars_def)
  show ?case
  proof (cases k)
    case 0
    have "hd (split_at bar ws) = takeWhile (\<lambda>w. \<not> bar w) ws" using Cons.IH [of 0 "Suc i"] hd_conv_nth [of "split_at bar ws"] by simp
    then show ?thesis using 0 by simp
  next
    case (Suc l)
    show ?thesis
    proof (cases "bar w")
      case True
      then have b: "bars (w # ws) i = i # bars ws (Suc i)" by (simp add: bars_Cons)
      show ?thesis
      proof (cases l)
        case 0
        then show ?thesis using True Suc b Cons.IH [of 0 "Suc i"] by simp
      next
        case (Suc m)
        then have m: "m < length (bars ws (Suc i))" using Cons.prems \<open>k = Suc l\<close> b by simp
        then have "Suc i \<le> bars ws (Suc i) ! m" using ge nth_mem by blast
        then have "bars ws (Suc i) ! m - i = Suc (bars ws (Suc i) ! m - Suc i)" by simp
        then show ?thesis using True Suc \<open>k = Suc l\<close> b Cons.IH [of l "Suc i"] m by simp
      qed
    next
      case False
      then have b: "bars (w # ws) i = bars ws (Suc i)" by (simp add: bars_Cons)
      have l: "l < length (bars ws (Suc i))" using Cons.prems Suc b by simp
      then have "Suc i \<le> bars ws (Suc i) ! l" using ge nth_mem by blast
      then have e: "bars ws (Suc i) ! l - i = Suc (bars ws (Suc i) ! l - Suc i)" by simp
      have "l < length (tl (split_at bar ws))" using l by (simp add: length_bars)
      then have "split_at bar (w # ws) ! k = split_at bar ws ! k" using False Suc by (simp add: nth_tl)
      then show ?thesis using Suc b e Cons.IH [of k "Suc i"] l by simp
    qed
  qed
qed simp

definition qlist :: "queue \<Rightarrow> int list" where
  "qlist q = map the (take (rear q - front q) (drop (front q) (body q)))"

definition q_ok :: "queue \<Rightarrow> bool" where
  "q_ok q \<longleftrightarrow> front q \<le> rear q \<and> rear q \<le> 128 \<and> length (body q) = 128 \<and> (\<forall>j. front q \<le> j \<longrightarrow> j < rear q \<longrightarrow> body q ! j \<noteq> None)"

lemma queue_new_ok: "q_ok queue_new \<and> qlist queue_new = [] \<and> rear queue_new = 0 \<and> front queue_new = 0"
  by (simp add: q_ok_def queue_new_def qlist_def)

lemma queue_push_ok:
  assumes "q_ok q" "rear q < 128"
  shows "\<exists>q'. queue_push x q = Inr q' \<and> q_ok q' \<and> qlist q' = qlist q @ [x] \<and> rear q' = rear q + 1 \<and> front q' = front q"
proof -
  have "take (rear q + 1 - front q) (drop (front q) ((body q)[rear q := Some x])) = take (rear q - front q) (drop (front q) (body q)) @ [Some x]"
  proof -
    have "front q \<le> rear q" "length (body q) = 128" using assms(1) by (simp_all add: q_ok_def)
    then show ?thesis using assms(2) by (simp add: Suc_diff_le drop_update_swap take_Suc_conv_app_nth)
  qed
  then show ?thesis using assms by (auto simp: queue_push_def q_ok_def qlist_def nth_list_update)
qed

lemma queue_pop_ok:
  assumes "q_ok q" "qlist q = x # xs"
  shows "queue_front q = Inr x" "q_ok (snd (queue_pop q))" "qlist (snd (queue_pop q)) = xs" "\<not> queue_empty q"
proof -
  have lt: "front q < rear q"
  proof (rule ccontr)
    assume "\<not> front q < rear q"
    then show False using assms(2) by (simp add: qlist_def)
  qed
  have b: "front q < 128" "length (body q) = 128" "body q ! front q \<noteq> None" using assms(1) lt by (auto simp: q_ok_def)
  have e: "take (rear q - front q) (drop (front q) (body q)) = body q ! front q # take (rear q - Suc (front q)) (drop (Suc (front q)) (body q))"
    using lt b(1,2) by (metis Cons_nth_drop_Suc Suc_diff_Suc take_Suc_Cons)
  then show "queue_front q = Inr x" using assms(2) b by (auto simp: queue_front_def qlist_def split: option.splits)
  show "q_ok (snd (queue_pop q))" using assms(1) lt by (auto simp: queue_pop_def q_ok_def)
  show "qlist (snd (queue_pop q)) = xs" using assms(2) e lt by (auto simp: queue_pop_def qlist_def)
  show "\<not> queue_empty q" using lt by (simp add: queue_empty_def)
qed

lemma queue_none: "q_ok q \<Longrightarrow> qlist q = [] \<Longrightarrow> queue_empty q"
  by (auto simp: q_ok_def qlist_def queue_empty_def)

lemma length_qlist: "q_ok q \<Longrightarrow> length (qlist q) = queue_length q"
  by (auto simp: qlist_def queue_length_def q_ok_def min_def)
lemma cell_at_append [simp]:
  "cell_at (xs @ y # ys) (length xs) = (case y of Undef \<Rightarrow> Inl Indeterminate | Null \<Rightarrow> Inr None | Str w \<Rightarrow> Inr (Some w))"
  by (simp add: cell_at_def)

lemma find_bars_ok:
  assumes "q_ok q" "rear q + length post \<le> 128"
  shows "\<exists>q'. find_bars (length pre) (cut pre @ map Str post @ Null # us) q = Inr (cut (pre @ post) @ Null # us, q') \<and> q_ok q' \<and>
    qlist q' = qlist q @ map int (bars post (length pre))"
  using assms
proof (induction post arbitrary: pre q)
  case Nil
  have "find_bars (length pre) (cut pre @ Null # us) q = Inr (cut pre @ Null # us, q)"
    using cell_at_append [of "cut pre" Null us] by (subst find_bars.simps) (simp add: cut_def)
  then show ?case using Nil by simp
next
  case (Cons w post)
  define ts where "ts = cut pre @ map Str (w # post) @ Null # us"
  have c: "cell_at ts (length pre) = Inr (Some w)"
    using cell_at_append [of "cut pre" "Str w"] by (simp add: cut_def ts_def)
  show ?case
  proof (cases "bar w")
    case True
    from queue_push_ok [OF Cons.prems(1), of "int (length pre)"] Cons.prems(2) obtain q1 where q1: "queue_push (int (length pre)) q = Inr q1"
      "q_ok q1" "qlist q1 = qlist q @ [int (length pre)]" "rear q1 = rear q + 1" by auto
    have u: "ts[length pre := Null] = cut (pre @ [w]) @ map Str post @ Null # us"
      using True by (simp add: cut_def list_update_append ts_def)
    have step: "find_bars (length pre) ts q = find_bars (length (pre @ [w])) (cut (pre @ [w]) @ map Str post @ Null # us) q1"
      unfolding u [symmetric] using True c q1(1) by (subst find_bars.simps) (simp add: bar_def)
    have "rear q1 + length post \<le> 128" using q1(4) Cons.prems(2) by simp
    from Cons.IH [OF q1(2) this, of "pre @ [w]"] show ?thesis
      unfolding step [unfolded ts_def] using True q1(3) by (simp add: bars_Cons)
  next
    case False
    have u: "ts = cut (pre @ [w]) @ map Str post @ Null # us" using False by (simp add: cut_def ts_def)
    have step: "find_bars (length pre) ts q = find_bars (length (pre @ [w])) ts q"
      using False c by (subst find_bars.simps) (simp add: bar_def)
    have "rear q + length post \<le> 128" using Cons.prems(2) by simp
    from Cons.IH [OF Cons.prems(1) this, of "pre @ [w]"]
    have "\<exists>q'. find_bars (length pre) ts q = Inr (cut (pre @ w # post) @ Null # us, q') \<and> q_ok q' \<and>
        qlist q' = qlist q @ map int (bars (w # post) (length pre))"
      unfolding u [symmetric] step using False by (simp add: bars_Cons)
    then show ?thesis unfolding ts_def .
  qed
qed

lemma argv_from_cut: "argv_from (xs @ cut post @ Null # us) (length xs) = Inr (takeWhile (\<lambda>w. \<not> bar w) post)"
proof (induction post arbitrary: xs)
  case Nil
  then show ?case by (subst argv_from.simps) (simp add: cut_def)
next
  case (Cons w post)
  show ?case
  proof (cases "bar w")
    case True
    then show ?thesis by (subst argv_from.simps) (simp add: cut_def)
  next
    case False
    then show ?thesis using Cons.IH [of "xs @ [Str w]"] by (subst argv_from.simps) (simp add: cut_def)
  qed
qed

subsection \<open>Descriptors\<close>

lemma close_pipes_nth:
  "length (close_pipes ps t) = length t \<and> (f < length t \<longrightarrow> close_pipes ps t ! f = (if \<exists>p \<in> set ps. f = fst p \<or> f = snd p then None else t ! f))"
proof (induction ps arbitrary: t)
  case (Cons p ps)
  obtain r w where p: "p = (r, w)" by (cases p)
  have "close w (close r t) ! f = (if f = r \<or> f = w then None else t ! f)" if "f < length t"
    using that by (cases "f = w"; cases "f = r") (auto simp: close_def)
  then show ?case using p Cons.IH [of "close w (close r t)"] by (auto simp: close_def)
qed simp

text \<open>After the pipes have been made: each has two descriptors, which were free, and nothing else has changed.\<close>

definition piped :: "nat \<Rightarrow> fds \<Rightarrow> (nat \<times> nat) list \<Rightarrow> fds \<Rightarrow> bool" where
  "piped i t ps t' \<longleftrightarrow> length t' = length t \<and>
     (\<forall>j < length ps. fst (ps ! j) < length t \<and> snd (ps ! j) < length t \<and> t ! fst (ps ! j) = None \<and> t ! snd (ps ! j) = None \<and>
        t' ! fst (ps ! j) = Some (Rd (i + j)) \<and> t' ! snd (ps ! j) = Some (Wr (i + j))) \<and>
     (\<forall>f < length t. t' ! f = t ! f \<or> (\<exists>j < length ps. f = fst (ps ! j) \<or> f = snd (ps ! j)))"

lemma pipe_ok:
  assumes "2 \<le> slots (\<lambda>e. e = None) t"
  shows "\<exists>r w t'. pipe i t = Inr ((r, w), t') \<and> length t' = length t \<and> r < length t \<and> w < length t \<and> r \<noteq> w \<and> t ! r = None \<and> t ! w = None \<and>
    t' = t[r := Some (Rd i), w := Some (Wr i)] \<and> slots (\<lambda>e. e = None) t' + 2 = slots (\<lambda>e. e = None) t"
proof -
  obtain r where r: "find_slot (\<lambda>e. e = None) t = Some r"
    using assms find_slot_None [of "\<lambda>e. e = None" t] slots_zero_iff [of "\<lambda>e. e = None" t] by (cases "find_slot (\<lambda>e. e = None) t") auto
  then have R: "r < length t" "t ! r = None" by (auto simp: find_slot_Some)
  let ?t = "t[r := Some (Rd i)]"
  have s: "Suc (slots (\<lambda>e. e = None) ?t) = slots (\<lambda>e. e = None) t" by (rule slots_take) (use R in auto)
  obtain w where w: "find_slot (\<lambda>e. e = None) ?t = Some w"
    using assms s find_slot_None [of "\<lambda>e. e = None" ?t] slots_zero_iff [of "\<lambda>e. e = None" ?t] by (cases "find_slot (\<lambda>e. e = None) ?t") auto
  then have W: "w < length t" "?t ! w = None" by (auto simp: find_slot_Some)
  then have rw: "r \<noteq> w" "t ! w = None" using R by (auto simp: nth_list_update split: if_splits)
  have "Suc (slots (\<lambda>e. e = None) (?t[w := Some (Wr i)])) = slots (\<lambda>e. e = None) ?t" by (rule slots_take) (use W in auto)
  then show ?thesis using r w R W rw s by (simp add: pipe_def Let_def)
qed

lemma make_pipes_ok:
  "2 * n \<le> slots (\<lambda>e. e = None) t \<Longrightarrow> i + n \<le> 64 \<Longrightarrow> \<exists>ps t'. make_pipes i n t = Inr (ps, t') \<and> length ps = n \<and> piped i t ps t'"
proof (induction n arbitrary: i t)
  case 0
  then show ?case by (simp add: piped_def)
next
  case (Suc n)
  then have two: "2 \<le> slots (\<lambda>e. e = None) t" by simp
  obtain r w t1 where P: "pipe i t = Inr ((r, w), t1)" "length t1 = length t" "r < length t" "w < length t" "r \<noteq> w" "t ! r = None" "t ! w = None"
    "t1 = t[r := Some (Rd i), w := Some (Wr i)]" "slots (\<lambda>e. e = None) t1 + 2 = slots (\<lambda>e. e = None) t"
    using pipe_ok [OF two] by blast
  have "2 * n \<le> slots (\<lambda>e. e = None) t1" "i + 1 + n \<le> 64" using P(9) Suc.prems by simp_all
  from Suc.IH [OF this] obtain ps t' where Q: "make_pipes (i + 1) n t1 = Inr (ps, t')" "length ps = n" "piped (i + 1) t1 ps t'" by blast
  have e1: "t1 ! r = Some (Rd i)" "t1 ! w = Some (Wr i)" using P(3-5,8) by simp_all
  have q: "fst (ps ! j) < length t" "snd (ps ! j) < length t" "t1 ! fst (ps ! j) = None" "t1 ! snd (ps ! j) = None"
    "t' ! fst (ps ! j) = Some (Rd (i + 1 + j))" "t' ! snd (ps ! j) = Some (Wr (i + 1 + j))" if "j < n" for j
    using Q(2,3) that P(2) by (auto simp: piped_def)
  have keep: "t' ! f = t1 ! f" if "f < length t" "t1 ! f \<noteq> None" for f
    using Q(3) that q P(2) unfolding piped_def Q(2) by metis
  have old: "t ! f = None" if "f < length t" "t1 ! f = None" for f
    using that P(6,7,8) by (cases "f = w"; cases "f = r") auto
  have "fst (((r, w) # ps) ! j) < length t \<and> snd (((r, w) # ps) ! j) < length t \<and> t ! fst (((r, w) # ps) ! j) = None \<and> t ! snd (((r, w) # ps) ! j) = None \<and>
      t' ! fst (((r, w) # ps) ! j) = Some (Rd (i + j)) \<and> t' ! snd (((r, w) # ps) ! j) = Some (Wr (i + j))" if "j < Suc n" for j
  proof (cases j)
    case 0
    then show ?thesis using P(3-7) keep [of r] keep [of w] e1 by simp
  next
    case (Suc l)
    then have l: "l < n" using that by simp
    show ?thesis using Suc q [OF l] old by simp
  qed
  moreover have "t' ! f = t ! f \<or> (\<exists>j < Suc n. f = fst (((r, w) # ps) ! j) \<or> f = snd (((r, w) # ps) ! j))" if f: "f < length t" for f
  proof (cases "f = r \<or> f = w")
    case True
    then show ?thesis by (intro disjI2 exI [of _ 0]) auto
  next
    case False
    then have "t1 ! f = t ! f" using P(8) by simp
    then consider "t' ! f = t ! f" | l where "l < n" "f = fst (ps ! l) \<or> f = snd (ps ! l)"
      using Q(3) f P(2) unfolding piped_def Q(2) by metis
    then show ?thesis
    proof cases
      case (2 l)
      then show ?thesis by (intro disjI2 exI [of _ "Suc l"]) auto
    qed simp
  qed
  ultimately have "piped i t ((r, w) # ps) t'" using Q(2,3) P(2) by (simp add: piped_def)
  moreover have "make_pipes i (Suc n) t = Inr ((r, w) # ps, t')" using P(1) Q(1) Suc.prems(2) by (simp add: shell_consts)
  ultimately show ?case using Q(2) by (metis length_Cons)
qed

lemma piped_closed:
  assumes "piped i t ps t'"
  shows "close_pipes ps t' = t"
proof (rule nth_equalityI)
  show "length (close_pipes ps t') = length t" using assms close_pipes_nth [of ps t'] by (simp add: piped_def)
  fix f assume "f < length (close_pipes ps t')"
  then have f: "f < length t" using assms close_pipes_nth [of ps t'] by (simp add: piped_def)
  have c: "close_pipes ps t' ! f = (if \<exists>p \<in> set ps. f = fst p \<or> f = snd p then None else t' ! f)"
    using close_pipes_nth [of ps t' f] f assms by (simp add: piped_def)
  show "close_pipes ps t' ! f = t ! f"
  proof (cases "\<exists>p \<in> set ps. f = fst p \<or> f = snd p")
    case True
    then obtain j where "j < length ps" "f = fst (ps ! j) \<or> f = snd (ps ! j)" by (auto simp: in_set_conv_nth)
    then have "t ! f = None" using assms by (auto simp: piped_def)
    then show ?thesis using c True by simp
  next
    case False
    then have "t' ! f = t ! f" using assms f nth_mem [of _ ps] unfolding piped_def by metis
    then show ?thesis using c False by simp
  qed
qed
text \<open>The descriptors of the shell before a line: standard input and output are open, and no pipe is.\<close>

definition fds_ok :: "fds \<Rightarrow> bool" where
  "fds_ok t \<longleftrightarrow> 1 < length t \<and> t ! 0 \<noteq> None \<and> t ! 1 \<noteq> None \<and> (\<forall>p. Some (Rd p) \<notin> set t \<and> Some (Wr p) \<notin> set t)"

text \<open>What child \<open>c\<close> of \<open>n\<close> holds: it reads from pipe \<open>c - 1\<close> and writes to pipe \<open>c\<close>; it keeps both ends of the pipes from \<open>c\<close> on.\<close>

definition child_holds :: "fds \<Rightarrow> nat \<Rightarrow> nat \<Rightarrow> fds \<Rightarrow> bool" where
  "child_holds t n c t' \<longleftrightarrow> t' ! 0 = (if c = 1 then t ! 0 else Some (Rd (c - 1))) \<and> t' ! 1 = (if c = n then t ! 1 else Some (Wr c)) \<and>
     (\<forall>p < n. (Some (Rd p) \<in> set t' \<longleftrightarrow> c \<le> p \<or> 1 < c \<and> p = c - 1) \<and> (Some (Wr p) \<in> set t' \<longleftrightarrow> c \<le> p))"

lemma child_fds:
  assumes ok: "fds_ok t" and P: "piped 0 t ps T" and n: "length ps = n" and c: "1 \<le> c" "c \<le> n"
  defines "t1 \<equiv> (if c \<noteq> 1 then dup2 (fst (ps ! (c - 1))) 0 T else T)"
  defines "t2 \<equiv> (if c \<noteq> n then dup2 (snd (ps ! c)) 1 t1 else t1)"
  shows "child_holds t n c (close_pipes (take c ps) t2)"
proof -
  let ?t = "close_pipes (take c ps) t2"
  have A: "fst (ps ! j) < length t" "snd (ps ! j) < length t" "t ! fst (ps ! j) = None" "t ! snd (ps ! j) = None"
    "T ! fst (ps ! j) = Some (Rd j)" "T ! snd (ps ! j) = Some (Wr j)" if "j < n" for j using P that n by (auto simp: piped_def)
  have O: "1 < length t" "t ! 0 \<noteq> None" "t ! 1 \<noteq> None" "Some (Rd p) \<notin> set t" "Some (Wr p) \<notin> set t" for p using ok by (auto simp: fds_ok_def)
  have lT: "length T = length t" using P by (simp add: piped_def)
  have ge: "fst (ps ! j) \<noteq> 0" "fst (ps ! j) \<noteq> 1" "snd (ps ! j) \<noteq> 0" "snd (ps ! j) \<noteq> 1" if "j < n" for j
    using A(3,4) [OF that] O(2,3) by metis+
  have fr: "T ! f = t ! f \<or> (\<exists>j < n. f = fst (ps ! j)) \<or> (\<exists>j < n. f = snd (ps ! j))" if "f < length t" for f
    using P n that unfolding piped_def by blast
  have only: "f = fst (ps ! p) \<and> p < n" if f: "f < length t" "T ! f = Some (Rd p)" for f p
    using fr [OF f(1)]
  proof (elim disjE exE conjE)
    assume "T ! f = t ! f"
    then show ?thesis using f O(4) [of p] nth_mem [OF f(1)] by simp
  qed (use f(2) A(5,6) in auto)
  have only': "f = snd (ps ! p) \<and> p < n" if f: "f < length t" "T ! f = Some (Wr p)" for f p
    using fr [OF f(1)]
  proof (elim disjE exE conjE)
    assume "T ! f = t ! f"
    then show ?thesis using f O(5) [of p] nth_mem [OF f(1)] by simp
  qed (use f(2) A(5,6) in auto)
  have T0: "T ! 0 = t ! 0" "T ! 1 = t ! 1"
    using fr [of 0] fr [of 1] O(1) ge by (metis less_trans zero_less_one)+
  have l0: "0 < length T" "Suc 0 < length T" "T \<noteq> []" using O(1) lT by auto
  have l2: "length t2 = length t" by (simp add: t2_def t1_def dup2_def lT)
  have e0: "t2 ! 0 = (if c = 1 then t ! 0 else Some (Rd (c - 1)))"
    using c A(5) [of "c - 1"] l0 T0(1) by (auto simp: t2_def t1_def dup2_def)
  have e1: "t2 ! 1 = (if c = n then t ! 1 else Some (Wr c))"
    using c A(6) [of c] ge(3) [of c] l0 T0(2) by (auto simp: t2_def t1_def dup2_def)
  have e2: "t2 ! f = T ! f" if "f \<noteq> 0" "f \<noteq> 1" for f using that by (simp add: t2_def t1_def dup2_def)
  have cl: "?t ! f = (if \<exists>j < c. f = fst (ps ! j) \<or> f = snd (ps ! j) then None else t2 ! f)" if "f < length t" for f
  proof -
    have "(\<exists>p \<in> set (take c ps). f = fst p \<or> f = snd p) \<longleftrightarrow> (\<exists>j < c. f = fst (ps ! j) \<or> f = snd (ps ! j))"
      using c(2) n by (force simp: in_set_conv_nth)
    then show ?thesis using close_pipes_nth [of "take c ps" t2 f] that l2 by simp
  qed
  have np: "t ! 0 \<noteq> Some (Rd p)" "t ! 0 \<noteq> Some (Wr p)" "t ! 1 \<noteq> Some (Rd p)" "t ! 1 \<noteq> Some (Wr p)" for p
    using O(4,5) [of p] nth_mem [of 0 t] nth_mem [of 1 t] l0(1,2) lT by (metis One_nat_def)+
  have nc: "\<not> (\<exists>j < c. 0 = fst (ps ! j) \<or> 0 = snd (ps ! j))" "\<not> (\<exists>j < c. 1 = fst (ps ! j) \<or> 1 = snd (ps ! j))"
    using ge c(2) by (metis less_le_trans)+
  have c0: "?t ! 0 = t2 ! 0" "?t ! 1 = t2 ! 1" using cl [of 0] cl [of 1] l0(1,2) lT unfolding if_not_P [OF nc(1)] if_not_P [OF nc(2)] by simp_all
  have mem: "x \<in> set ?t \<longleftrightarrow> (\<exists>f < length t. ?t ! f = x)" for x
    using close_pipes_nth [of "take c ps" t2] l2 by (auto simp: in_set_conv_nth)
  have rd: "Some (Rd p) \<in> set ?t \<longleftrightarrow> c \<le> p \<or> 1 < c \<and> p = c - 1" if p: "p < n" for p
  proof
    assume "Some (Rd p) \<in> set ?t"
    then obtain f where f: "f < length t" "?t ! f = Some (Rd p)" using mem by blast
    consider "f = 0" | "f = 1" | "f \<noteq> 0" "f \<noteq> 1" by blast
    then show "c \<le> p \<or> 1 < c \<and> p = c - 1"
    proof cases
      case 1
      then show ?thesis using f c0(1) e0 c(1) np np [THEN not_sym] by (auto split: if_splits)
    next
      case 2
      then show ?thesis using f c0(2) e1 np np [THEN not_sym] by (auto split: if_splits)
    next
      case 3
      then have "T ! f = Some (Rd p)" "\<not> (\<exists>j < c. f = fst (ps ! j) \<or> f = snd (ps ! j))" using f cl [OF f(1)] e2 by (auto split: if_splits)
      then show ?thesis using only [OF f(1)] not_less by blast
    qed
  next
    assume "c \<le> p \<or> 1 < c \<and> p = c - 1"
    then show "Some (Rd p) \<in> set ?t"
    proof
      assume le: "c \<le> p"
      have "\<not> (\<exists>j < c. fst (ps ! p) = fst (ps ! j) \<or> fst (ps ! p) = snd (ps ! j))"
        using A(5) [OF p] A(5,6) c(2) le by fastforce
      then have "?t ! fst (ps ! p) = Some (Rd p)" using cl [OF A(1) [OF p]] e2 [OF ge(1,2) [OF p]] A(5) [OF p] by simp
      then show ?thesis using mem A(1) [OF p] by blast
    next
      assume "1 < c \<and> p = c - 1"
      then have "?t ! 0 = Some (Rd p)" using c0(1) e0 by simp
      moreover have "0 < length t" using O(1) by linarith
      ultimately show ?thesis using mem by blast
    qed
  qed
  have wr: "Some (Wr p) \<in> set ?t \<longleftrightarrow> c \<le> p" if p: "p < n" for p
  proof
    assume "Some (Wr p) \<in> set ?t"
    then obtain f where f: "f < length t" "?t ! f = Some (Wr p)" using mem by blast
    consider "f = 0" | "f = 1" | "f \<noteq> 0" "f \<noteq> 1" by blast
    then show "c \<le> p"
    proof cases
      case 1
      then show ?thesis using f c0(1) e0 np np [THEN not_sym] by (auto split: if_splits)
    next
      case 2
      then show ?thesis using f c0(2) e1 np np [THEN not_sym] by (auto split: if_splits)
    next
      case 3
      then have "T ! f = Some (Wr p)" "\<not> (\<exists>j < c. f = fst (ps ! j) \<or> f = snd (ps ! j))" using f cl [OF f(1)] e2 by (auto split: if_splits)
      then show ?thesis using only' [OF f(1)] not_less by blast
    qed
  next
    assume le: "c \<le> p"
    have "\<not> (\<exists>j < c. snd (ps ! p) = fst (ps ! j) \<or> snd (ps ! p) = snd (ps ! j))"
      using A(6) [OF p] A(5,6) c(2) le by fastforce
    then have "?t ! snd (ps ! p) = Some (Wr p)" using cl [OF A(2) [OF p]] e2 [OF ge(3,4) [OF p]] A(6) [OF p] by simp
    then show "Some (Wr p) \<in> set ?t" using mem A(2) [OF p] by blast
  qed
  show ?thesis unfolding child_holds_def using c0 e0 e1 rd wr by simp
qed
subsection \<open>A line of commands\<close>

definition prog :: "byte list \<Rightarrow> byte list list \<Rightarrow> byte list list" where
  "prog home seg = (if hd seg = pps \<or> hd seg = ttop then (home @ [47] @ hd seg) # tl seg else seg)"

definition outcome_of :: "byte list \<Rightarrow> (byte list \<Rightarrow> bool) \<Rightarrow> byte list list \<Rightarrow> fds \<Rightarrow> outcome" where
  "outcome_of home runs seg t =
     (if seg = [] then Crashed Null_pointer
      else if (hd seg = pps \<or> hd seg = ttop) \<and> 64 \<le> length home + 1 + length (hd seg) then Crashed Overflow
      else if runs (hd (prog home seg)) then Ran (prog home seg) t else Incorrect_command)"

lemma child_outcome:
  assumes c: "1 \<le> c" "c \<le> length (commands ws)" and q: "queue_front q = Inr ((-1 # map int (bars ws 0)) ! (c - 1))"
  shows "run_child home runs ps n c (cut ws @ Null # us) q T =
    outcome_of home runs (commands ws ! (c - 1))
      (close_pipes (take c ps) (let t1 = (if c \<noteq> 1 then dup2 (fst (ps ! (c - 1))) 0 T else T) in if c \<noteq> n then dup2 (snd (ps ! c)) 1 t1 else t1))"
proof -
  let ?seg = "commands ws ! (c - 1)" and ?ts = "cut ws @ Null # us"
  define k where "k = (if c = 1 then 0 else Suc (bars ws 0 ! (c - 2)))"
  define post where "post = drop k ws"
  have lc: "length (commands ws) = Suc (length (bars ws 0))" by (simp add: commands_def length_bars)
  have kb: "k \<le> length ws"
  proof (cases "c = 1")
    case False
    then have "bars ws 0 ! (c - 2) \<in> set (bars ws 0)" using c lc by (intro nth_mem) simp
    then show ?thesis using False by (auto simp: k_def bars_def)
  qed (simp add: k_def)
  have seg: "?seg = takeWhile (\<lambda>w. \<not> bar w) post"
    using nth_commands [of "c - 1" ws 0] c lc by (auto simp: commands_def k_def post_def numeral_2_eq_2)
  have dv: "nat ((-1 # map int (bars ws 0)) ! (c - 1) + 1) = k"
  proof (cases "c = 1")
    case False
    then have "(-1 # map int (bars ws 0)) ! (c - 1) = int (bars ws 0 ! (c - 2))" using c lc by (simp add: nth_Cons' numeral_2_eq_2)
    then show ?thesis using False by (simp add: k_def nat_add_distrib)
  qed (simp add: k_def)
  have "cut ws = cut (take k ws) @ cut post" unfolding cut_def post_def map_append [symmetric] append_take_drop_id ..
  then have ts: "?ts = cut (take k ws) @ cut post @ Null # us" by simp
  have lk: "length (cut (take k ws)) = k" using kb by (simp add: cut_def)
  have cell: "cell_at ?ts k = Inr (if ?seg = [] then None else Some (hd ?seg))"
    unfolding ts seg using cell_at_append [of "cut (take k ws)"] lk by (cases post) (auto simp: cut_def)
  have argv: "argv_from ?ts k = Inr ?seg" unfolding ts seg using argv_from_cut [of "cut (take k ws)" post us] lk by simp
  have argv': "argv_from (?ts[k := Str v]) k = Inr (v # tl ?seg)" if ne: "?seg \<noteq> []" for v
  proof -
    obtain w post' where post: "post = w # post'" "\<not> bar w" using ne seg by (cases post) (auto split: if_splits)
    have u: "?ts[k := Str v] = (cut (take k ws) @ [Str v]) @ cut post' @ Null # us" unfolding ts post(1) using lk by (simp add: list_update_append cut_def)
    have "argv_from (?ts[k := Str v]) (Suc k) = Inr (tl ?seg)" unfolding u seg post(1)
      using argv_from_cut [of "cut (take k ws) @ [Str v]" post' us] lk post(2) by simp
    moreover have "cell_at (?ts[k := Str v]) k = Inr (Some v)" unfolding u using cell_at_append [of "cut (take k ws)" "Str v"] lk by simp
    ultimately show ?thesis by (subst argv_from.simps) simp
  qed
  have hd: "hd (prog home ?seg) = (if hd ?seg = pps \<or> hd ?seg = ttop then home @ [47] @ hd ?seg else hd ?seg)" by (simp add: prog_def)
  show ?thesis
  proof (cases "?seg = []")
    case True
    then show ?thesis using q cell dv by (simp add: run_child_def Let_def outcome_of_def)
  next
    case False
    then show ?thesis
      using q cell dv argv argv' [OF False] hd by (auto simp: run_child_def Let_def outcome_of_def shell_consts prog_def)
  qed
qed

lemma fork_loop_children:
  assumes "q_ok q"
  shows "length (fork_loop home runs ps n cmdc ts q t) = length (qlist q) \<and>
    (\<forall>j < length (qlist q). \<exists>q'. queue_front q' = Inr (qlist q ! j) \<and>
       fork_loop home runs ps n cmdc ts q t ! j = run_child home runs ps n (cmdc + 1 + j) ts q' t)"
  using assms
proof (induction "qlist q" arbitrary: q cmdc)
  case Nil
  then have "fork_loop home runs ps n cmdc ts q t = []" using queue_none [OF Nil.prems] by (subst fork_loop.simps) simp
  then show ?case using Nil.hyps by simp
next
  case (Cons x xs)
  note Q = queue_pop_ok [OF Cons.prems Cons.hyps(2) [symmetric]]
  have ne: "\<not> (queue_empty q \<or> rear q < front q)" using Q(4) Cons.prems by (auto simp: q_ok_def)
  have F: "fork_loop home runs ps n cmdc ts q t =
      run_child home runs ps n (cmdc + 1) ts q t # fork_loop home runs ps n (cmdc + 1) ts (snd (queue_pop q)) t"
    using ne by (subst fork_loop.simps) simp
  note IH = Cons.hyps(1) [OF Q(3) [symmetric] Q(2), of "cmdc + 1", unfolded Q(3)]
  have "\<exists>q'. queue_front q' = Inr ((x # xs) ! j) \<and> fork_loop home runs ps n cmdc ts q t ! j = run_child home runs ps n (cmdc + 1 + j) ts q' t"
    if "j < length (x # xs)" for j
  proof (cases j)
    case 0
    then show ?thesis using F Q(1) by auto
  next
    case (Suc l)
    then show ?thesis using F IH that by auto
  qed
  then show ?case using F IH unfolding Cons.hyps(2) [symmetric] by simp
qed
text \<open>An empty line runs nothing, but the loop that frees the tokens uses the number of tokens of the line before.\<close>

lemma do_line_empty:
  assumes "words line = []" and "\<And>n. token_len = Some n \<Longrightarrow> n < 64"
  shows "do_line home runs (line @ [10]) token_len t =
    (case token_len of None \<Rightarrow> Inl Indeterminate | Some n \<Rightarrow> if n \<le> 1 then Inr ([], Some n, t) else Inl Indeterminate)"
proof -
  have tk: "tokenize (line @ [10]) = Inr (Null # replicate 63 Undef)" using tokenize_words [of line] assms by simp
  have fb: "find_bars 0 (Null # replicate 63 Undef) queue_new = Inr (Null # replicate 63 Undef, queue_new)"
    by (subst find_bars.simps) (simp add: cell_at_def)
  have fl: "fork_loop home runs [] 0 0 ts queue_new t = []" for ts by (subst fork_loop.simps) (simp add: queue_empty_def queue_new_def)
  have fr: "free_tokens (Some n) (Null # replicate 63 Undef) = (if n \<le> 1 then Inr () else Inl Indeterminate)" if "n < 64" for n
    using that by (cases n) (auto simp: free_tokens_def min_def)
  have z: "cell_at (Null # replicate 63 Undef) 0 = Inr None" "queue_length queue_new = 0" by (simp_all add: cell_at_def queue_length_def queue_new_def)
  show ?thesis
  proof (cases token_len)
    case None
    then show ?thesis using tk fb z by (simp add: do_line_def Let_def free_tokens_def)
  next
    case (Some n)
    then show ?thesis using tk fb fl z fr [OF assms(2) [OF Some]] by (simp add: do_line_def Let_def)
  qed
qed

lemma do_line_children:
  assumes fit: "\<forall>w \<in> set (words line). length w < 64" "length (words line) < 64" and ne: "words line \<noteq> []"
    and t: "fds_ok t" and room: "2 * length (commands (words line)) \<le> slots (\<lambda>e. e = None) t"
  shows "\<exists>children. do_line home runs (line @ [10]) token_len t = Inr (children, Some (length (words line) - 1), t) \<and>
    length children = length (commands (words line)) \<and>
    (\<forall>c. 1 \<le> c \<and> c \<le> length children \<longrightarrow> (\<exists>t'. children ! (c - 1) = outcome_of home runs (commands (words line) ! (c - 1)) t' \<and>
      child_holds t (length children) c t'))"
proof -
  let ?ws = "words line"
  define us where "us = replicate (63 - length ?ws) Undef"
  define n where "n = length (commands ?ws)"
  have tk: "tokenize (line @ [10]) = Inr (map Str ?ws @ Null # us)" using tokenize_words [of line] fit by (simp add: us_def)
  have first: "cell_at (map Str ?ws @ Null # us) 0 = Inr (Some (hd ?ws))" using ne by (cases ?ws) (simp_all add: cell_at_def)
  have tw: "takeWhile (\<lambda>c. c \<noteq> Null) (map Str ?ws @ Null # us) = map Str ?ws" by (subst takeWhile_append2) auto
  obtain q where q: "queue_push (-1) queue_new = Inr q" "q_ok q" "qlist q = [-1]" "rear q = 1"
    using queue_push_ok [of queue_new "-1"] queue_new_ok by auto
  have "rear q + length ?ws \<le> 128" using q(4) fit(2) by simp
  from find_bars_ok [OF q(2) this, of "[]" us] obtain q1 where b: "find_bars 0 (map Str ?ws @ Null # us) q = Inr (cut ?ws @ Null # us, q1)"
    "q_ok q1" "qlist q1 = -1 # map int (bars ?ws 0)" using q(3) by (auto simp: cut_def)
  have lq: "length (qlist q1) = n" using b(3) by (simp add: n_def commands_def length_bars)
  have "length (filter bar ?ws) < 64" using length_filter_le fit(2) by (rule le_less_trans)
  then have n64: "0 + n \<le> 64" by (simp add: n_def commands_def length_bars)
  obtain ps T where P: "make_pipes 0 n t = Inr (ps, T)" "length ps = n" "piped 0 t ps T"
    using make_pipes_ok [OF _ n64, of t] room by (auto simp: n_def)
  define children where "children = fork_loop home runs ps n 0 (cut ?ws @ Null # us) q1 T"
  have "Undef \<notin> set (take (length ?ws - 1) (cut ?ws @ Null # us))"
    using set_take_subset [of "length ?ws - 1" "cut ?ws"] by (auto simp: cut_def)
  then have fr: "free_tokens (Some (length ?ws - 1)) (cut ?ws @ Null # us) = Inr ()" by (simp add: free_tokens_def cut_def)
  have "do_line home runs (line @ [10]) token_len t = Inr (children, Some (length ?ws - 1), t)"
    using tk first tw q(1) b(1) P(1) fr piped_closed [OF P(3)] length_qlist [OF b(2)] lq unfolding children_def
    by (simp add: do_line_def Let_def)
  moreover have len: "length children = n" using fork_loop_children [OF b(2)] lq by (simp add: children_def)
  moreover have "\<exists>t'. children ! (c - 1) = outcome_of home runs (commands ?ws ! (c - 1)) t' \<and> child_holds t n c t'" if c: "1 \<le> c" "c \<le> n" for c
  proof -
    have j: "c - 1 < length (qlist q1)" "0 + 1 + (c - 1) = c" using c lq by simp_all
    obtain q' where
      q': "queue_front q' = Inr (qlist q1 ! (c - 1))" "children ! (c - 1) = run_child home runs ps n c (cut ?ws @ Null # us) q' T"
      using fork_loop_children [OF b(2), of home runs ps n 0 "cut ?ws @ Null # us" T] j unfolding children_def by metis
    show ?thesis
      unfolding q'(2) child_outcome [OF c(1) c(2) [unfolded n_def] q'(1) [unfolded b(3)]]
      using child_fds [OF t P(3,2) c] unfolding Let_def by blast
  qed
  ultimately show ?thesis by (auto simp: n_def)
qed




subsection \<open>Lines that go wrong\<close>

definition shell_fds :: fds where
  "shell_fds = [Some (File 0), Some (File 1), Some (File 2)] @ replicate 8 None"

lemma shell_fds_ok: "fds_ok shell_fds" "slots (\<lambda>e. e = None) shell_fds = 8"
  by (simp_all add: fds_ok_def shell_fds_def eval_nat_numeral)

text \<open>\<open>ls |wc\<close>, without a blank behind the bar: the word \<open>|wc\<close> is taken for the bar, and the second child follows a null pointer.\<close>

lemma bar_without_blank:
  "\<exists>child. do_line home runs ([108, 115, 32, 124, 119, 99] @ [10]) None shell_fds = Inr ([child, Crashed Null_pointer], Some 1, shell_fds)"
proof -
  let ?l = "[108, 115, 32, 124, 119, 99 :: byte]"
  have w: "words ?l = [[108, 115], [124, 119, 99]]" by (simp add: words_def blank_def)
  have c: "commands (words ?l) = [[[108, 115]], []]" by (simp add: w commands_def bar_def)
  obtain cs where A: "do_line home runs (?l @ [10]) None shell_fds = Inr (cs, Some 1, shell_fds)" "length cs = 2"
    and C: "\<forall>k. 1 \<le> k \<and> k \<le> length cs \<longrightarrow> (\<exists>t'. cs ! (k - 1) = outcome_of home runs (commands (words ?l) ! (k - 1)) t' \<and> child_holds shell_fds (length cs) k t')"
    using do_line_children [of ?l shell_fds home runs None] shell_fds_ok unfolding c by (auto simp: w numeral_2_eq_2)
  have "cs ! 1 = Crashed Null_pointer" using C [rule_format, of 2] A(2) by (auto simp: c outcome_of_def)
  then have "cs = [cs ! 0, Crashed Null_pointer]" using A(2) by (intro nth_equalityI) (auto simp: less_2_cases_iff nth_Cons')
  then show ?thesis using A(1) by metis
qed

text \<open>The file \<open>echo a b\<close>, with an empty line behind it: the second line frees cells that have never been assigned.\<close>

lemma empty_line_frees_garbage:
  "run_batch home runs [101, 99, 104, 111, 32, 97, 32, 98, 10, 10] None shell_fds = Inl Indeterminate"
proof -
  let ?l = "[101, 99, 104, 111, 32, 97, 32, 98 :: byte]"
  have w: "words ?l = [[101, 99, 104, 111], [97], [98]]" by (simp add: words_def blank_def)
  have c: "commands (words ?l) = [words ?l]" by (simp add: w commands_def bar_def)
  obtain cs where A: "do_line home runs (?l @ [10]) None shell_fds = Inr (cs, Some 2, shell_fds)"
    using do_line_children [of ?l shell_fds home runs None] shell_fds_ok unfolding c by (auto simp: w)
  have f: "fgets (?l @ [10, 10]) = Some (?l @ [10], [10])" "fgets [10] = Some ([10], [])" by (simp_all add: fgets_def shell_consts)
  have b: "batch_line (?l @ [10]) = Inr (?l @ [10])" "batch_line [10] = Inr ([] @ [10])" by (simp_all add: batch_line_def)
  have "do_line home runs ([] @ [10]) (Some 2) shell_fds = Inl Indeterminate"
    using do_line_empty [of "[]" "Some 2" home runs shell_fds] by (simp add: words_def)
  then have "run_batch home runs [10] (Some 2) shell_fds = Inl Indeterminate" using f b by (subst run_batch.simps) simp
  then show ?thesis using f(1) b(1) A by (subst run_batch.simps) simp
qed

text \<open>A last line without a newline loses its last byte: \<open>ls\<close> runs \<open>l\<close>.\<close>

lemma last_line_loses_byte:
  assumes "runs [108]"
  shows "\<exists>t. run_batch home runs [108, 115] None shell_fds = Inr [[Ran [[108]] t]]"
proof -
  have w: "words [108] = [[108 :: byte]]" by (simp add: words_def blank_def)
  have c: "commands (words [108]) = [[[108]]]" by (simp add: w commands_def bar_def)
  obtain cs t' where A: "do_line home runs ([108] @ [10]) None shell_fds = Inr (cs, Some 0, shell_fds)" "length cs = 1"
    and C: "cs ! 0 = outcome_of home runs [[108]] t'"
    using do_line_children [of "[108]" shell_fds home runs None] shell_fds_ok unfolding c by (auto simp: w)
  have "cs = [Ran [[108]] t']" using A(2) C assms by (cases cs) (auto simp: outcome_of_def prog_def pps_def ttop_def)
  moreover have "fgets [108, 115] = Some ([108, 115], [])" "fgets [] = None" "batch_line [108, 115] = Inr ([108] @ [10])"
    by (simp_all add: fgets_def batch_line_def shell_consts)
  moreover have "run_batch home runs [] (Some 0) shell_fds = Inr []" by (subst run_batch.simps) (simp add: fgets_def)
  ultimately show ?thesis using A(1) by (subst run_batch.simps) simp
qed

end
