(* ===== verification/SSUFS_Disk.thy ===== *)
theory SSUFS_Disk
  imports Prelude
begin

text \<open>
  The emulated disk of \<open>src/project6/ssufs-disk.c\<close>: a file of 35 blocks of 64 bytes (superblock, four
  blocks with two inodes each, thirty data blocks) and the table of open files. The three regions
  never overlap (\<open>layout_disjoint\<close> below), so the model keeps the superblock, the inodes and the
  data blocks as separate fields and the length of the file beside them: a \<open>read\<close> behind the end of
  the file is short, which fails the assertion that follows it in the code. An inode or block number
  below 0 would address another region; the model reports it as \<open>Out_of_bounds\<close>. Writes to the file
  are taken to succeed, as the repository's README prescribes.
\<close>

subsection \<open>Constants and structures\<close>

definition BLOCKSIZE :: nat where "BLOCKSIZE = 64"
definition NUM_DATA_BLOCKS :: nat where "NUM_DATA_BLOCKS = 30"
definition NUM_INODES :: nat where "NUM_INODES = 8"
definition MAX_FILE_SIZE :: nat where "MAX_FILE_SIZE = 4"
definition MAX_OPEN_FILES :: nat where "MAX_OPEN_FILES = 20"
definition MAX_NAME_STRLEN :: nat where "MAX_NAME_STRLEN = 8"
definition INODE_FREE :: char where "INODE_FREE = CHR ''x''"
definition INODE_IN_USE :: char where "INODE_IN_USE = CHR ''1''"
definition DATA_BLOCK_FREE :: char where "DATA_BLOCK_FREE = CHR ''x''"
definition DATA_BLOCK_USED :: char where "DATA_BLOCK_USED = CHR ''1''"

definition NUL :: char where "NUL = CHR 0x00"

lemmas ssufs_consts = BLOCKSIZE_def NUM_DATA_BLOCKS_def NUM_INODES_def MAX_FILE_SIZE_def MAX_OPEN_FILES_def
  MAX_NAME_STRLEN_def

record superblock_t =
  sb_name :: "char list"
  inode_freelist :: "char list"
  datablock_freelist :: "char list"

record inode_t =
  i_status :: char
  i_name :: "char list"
  i_file_size :: int
  i_direct_blocks :: "int list"

record filehandle_t =
  fh_offset :: int
  fh_inode_number :: int

record ssufs =
  d_len :: nat
  d_super :: superblock_t
  d_inodes :: "inode_t list"
  d_blocks :: "char list list"
  file_handle_array :: "filehandle_t list"

text \<open>The byte ranges of the regions on the file: 64 bytes of superblock, inode \<open>i\<close> at
  \<open>BLOCKSIZE + i * sizeof(struct inode_t)\<close>, data block \<open>b\<close> at \<open>BLOCKSIZE * (5 + b)\<close>.\<close>

definition inode_end :: "nat \<Rightarrow> nat" where
  "inode_end i = BLOCKSIZE + (i + 1) * 32"

definition block_end :: "nat \<Rightarrow> nat" where
  "block_end b = BLOCKSIZE * (5 + b) + BLOCKSIZE"

lemma layout_disjoint:
  "i < NUM_INODES \<Longrightarrow> BLOCKSIZE \<le> inode_end i - 32 \<and> inode_end i \<le> block_end b - BLOCKSIZE"
  "i < j \<Longrightarrow> inode_end i \<le> inode_end j - 32"
  "b < c \<Longrightarrow> block_end b \<le> block_end c - BLOCKSIZE"
  by (auto simp: inode_end_def block_end_def ssufs_consts)

subsection \<open>Superblock, inodes and data blocks\<close>

definition ssufs_readSuperBlock :: "ssufs \<Rightarrow> fault + superblock_t" where
  "ssufs_readSuperBlock st = (if BLOCKSIZE \<le> d_len st then Inr (d_super st) else Inl Assertion)"

definition ssufs_writeSuperBlock :: "superblock_t \<Rightarrow> ssufs \<Rightarrow> ssufs" where
  "ssufs_writeSuperBlock superblock st = st\<lparr>d_super := superblock, d_len := max (d_len st) BLOCKSIZE\<rparr>"

definition ssufs_readInode :: "int \<Rightarrow> ssufs \<Rightarrow> fault + inode_t" where
  "ssufs_readInode inodenum st =
     (if \<not> inodenum < int NUM_INODES then Inl Assertion
      else if inodenum < 0 then Inl Out_of_bounds
      else if \<not> inode_end (nat inodenum) \<le> d_len st then Inl Assertion
      else Inr (d_inodes st ! nat inodenum))"

definition ssufs_writeInode :: "int \<Rightarrow> inode_t \<Rightarrow> ssufs \<Rightarrow> fault + ssufs" where
  "ssufs_writeInode inodenum inode st =
     (if \<not> inodenum < int NUM_INODES then Inl Assertion
      else if inodenum < 0 then Inl Out_of_bounds
      else Inr (st\<lparr>d_inodes := (d_inodes st)[nat inodenum := inode],
                   d_len := max (d_len st) (inode_end (nat inodenum))\<rparr>))"

text \<open>\<open>fopen("ssufs", "w+")\<close> empties the file. \<open>malloc\<close> does not initialise the structures:
  \<open>over\<close> are the two bytes that \<open>memcpy(superblock->name, "ssufs", 8)\<close> reads behind the
  literal, \<open>junk\<close> the seven bytes of \<open>name\<close> that the code leaves as they are.\<close>

definition blank_inode :: "char list \<Rightarrow> inode_t" where
  "blank_inode junk = \<lparr>i_status = INODE_FREE, i_name = NUL # junk, i_file_size = 0,
     i_direct_blocks = replicate MAX_FILE_SIZE (-1)\<rparr>"

definition ssufs_formatDisk :: "char list \<Rightarrow> char list \<Rightarrow> fault + ssufs" where
  "ssufs_formatDisk over junk =
     (let superblock = \<lparr>sb_name = ''ssufs'' @ [NUL] @ over,
            inode_freelist = replicate NUM_INODES INODE_FREE,
            datablock_freelist = replicate NUM_DATA_BLOCKS DATA_BLOCK_FREE\<rparr>;
          st0 = \<lparr>d_len = 0, d_super = superblock, d_inodes = replicate NUM_INODES (blank_inode junk),
            d_blocks = replicate NUM_DATA_BLOCKS (replicate BLOCKSIZE NUL),
            file_handle_array = replicate MAX_OPEN_FILES \<lparr>fh_offset = 0, fh_inode_number = -1\<rparr>\<rparr>
      in fold (\<lambda>i m. ebind m (ssufs_writeInode (int i) (blank_inode junk))) [0..<NUM_INODES]
           (Inr (ssufs_writeSuperBlock superblock st0)))"

text \<open>\<open>strcmp\<close> reads \<open>name\<close> up to the first NUL; a name of eight characters has none, and the
  comparison runs on into the bytes of \<open>file_size\<close> and \<open>direct_blocks\<close>, which follow it in the
  structure.\<close>

definition le32 :: "int \<Rightarrow> char list" where
  "le32 x = map (\<lambda>k. char_of (x div 256 ^ k)) [0, 1, 2, 3]"

definition name_bytes :: "inode_t \<Rightarrow> char list" where
  "name_bytes inode = i_name inode @ le32 (i_file_size inode) @ concat (map le32 (i_direct_blocks inode))"

definition c_string :: "char list \<Rightarrow> char list" where
  "c_string bs = takeWhile (\<lambda>c. c \<noteq> NUL) bs"

definition has_name :: "char list \<Rightarrow> inode_t \<Rightarrow> bool" where
  "has_name filename inode \<longleftrightarrow> c_string (name_bytes inode) = filename"

fun open_namei_scan :: "char list \<Rightarrow> superblock_t \<Rightarrow> ssufs \<Rightarrow> nat list \<Rightarrow> fault + int" where
  "open_namei_scan filename superblock st [] = Inr (-1)"
| "open_namei_scan filename superblock st (i # is) =
     (if inode_freelist superblock ! i = INODE_IN_USE
      then ebind (ssufs_readInode (int i) st) (\<lambda>tmp.
             if has_name filename tmp then Inr (int i) else open_namei_scan filename superblock st is)
      else open_namei_scan filename superblock st is)"

definition open_namei :: "char list \<Rightarrow> ssufs \<Rightarrow> fault + int" where
  "open_namei filename st =
     (if length filename > MAX_NAME_STRLEN then Inr (-1)
      else ebind (ssufs_readSuperBlock st) (\<lambda>superblock.
             open_namei_scan filename superblock st [0..<NUM_INODES]))"

definition ssufs_allocInode :: "ssufs \<Rightarrow> fault + int \<times> ssufs" where
  "ssufs_allocInode st =
     ebind (ssufs_readSuperBlock st) (\<lambda>superblock.
       case find_slot (\<lambda>c. c = INODE_FREE) (inode_freelist superblock) of
         Some i \<Rightarrow>
           Inr (int i, ssufs_writeSuperBlock
             (superblock\<lparr>inode_freelist := (inode_freelist superblock)[i := INODE_IN_USE]\<rparr>) st)
       | None \<Rightarrow> Inr (-1, st))"

definition ssufs_allocDataBlock :: "ssufs \<Rightarrow> fault + int \<times> ssufs" where
  "ssufs_allocDataBlock st =
     ebind (ssufs_readSuperBlock st) (\<lambda>superblock.
       case find_slot (\<lambda>c. c = DATA_BLOCK_FREE) (datablock_freelist superblock) of
         Some i \<Rightarrow>
           Inr (int i, ssufs_writeSuperBlock
             (superblock\<lparr>datablock_freelist := (datablock_freelist superblock)[i := DATA_BLOCK_USED]\<rparr>) st)
       | None \<Rightarrow> Inr (-1, st))"

definition ssufs_freeDataBlock :: "int \<Rightarrow> ssufs \<Rightarrow> fault + ssufs" where
  "ssufs_freeDataBlock blocknum st =
     ebind (ssufs_readSuperBlock st) (\<lambda>superblock.
       if \<not> (0 \<le> blocknum \<and> blocknum < int NUM_DATA_BLOCKS) then Inl Out_of_bounds
       else if datablock_freelist superblock ! nat blocknum \<noteq> DATA_BLOCK_USED then Inl Assertion
       else Inr (ssufs_writeSuperBlock
              (superblock\<lparr>datablock_freelist :=
                 (datablock_freelist superblock)[nat blocknum := DATA_BLOCK_FREE]\<rparr>) st))"

text \<open>The loop of \<open>ssufs_freeInode\<close> over the direct blocks, with its local copies of the superblock
  and the inode.\<close>

fun free_direct :: "nat list \<Rightarrow> superblock_t \<Rightarrow> inode_t \<Rightarrow> ssufs \<Rightarrow> fault + superblock_t \<times> inode_t \<times> ssufs" where
  "free_direct [] superblock inode st = Inr (superblock, inode, st)"
| "free_direct (i # is) superblock inode st =
     ebind (if i_direct_blocks inode ! i \<noteq> -1
            then ebind (ssufs_freeDataBlock (i_direct_blocks inode ! i) (ssufs_writeSuperBlock superblock st))
                   (\<lambda>st1. ebind (ssufs_readSuperBlock st1) (\<lambda>superblock1. Inr (superblock1, st1)))
            else Inr (superblock, st))
       (\<lambda>(superblock1, st1).
          free_direct is superblock1 (inode\<lparr>i_direct_blocks := (i_direct_blocks inode)[i := -1]\<rparr>) st1)"

definition ssufs_freeInode :: "int \<Rightarrow> ssufs \<Rightarrow> fault + ssufs" where
  "ssufs_freeInode inodenum st =
     (if \<not> inodenum < int NUM_INODES then Inl Assertion
      else
        ebind (ssufs_readSuperBlock st) (\<lambda>superblock.
          ebind (ssufs_readInode inodenum st) (\<lambda>inode.
            if inode_freelist superblock ! nat inodenum \<noteq> INODE_IN_USE then Inl Assertion
            else
              ebind (free_direct [0..<MAX_FILE_SIZE]
                 (superblock\<lparr>inode_freelist := (inode_freelist superblock)[nat inodenum := INODE_FREE]\<rparr>)
                 (inode\<lparr>i_status := INODE_FREE, i_file_size := 0\<rparr>) st)
                (\<lambda>(superblock1, inode1, st1).
                   ssufs_writeInode inodenum inode1 (ssufs_writeSuperBlock superblock1 st1)))))"

definition ssufs_readDataBlock :: "int \<Rightarrow> ssufs \<Rightarrow> fault + char list" where
  "ssufs_readDataBlock blocknum st =
     (if \<not> blocknum < int NUM_DATA_BLOCKS then Inl Assertion
      else if blocknum < 0 then Inl Out_of_bounds
      else if \<not> block_end (nat blocknum) \<le> d_len st then Inl Assertion
      else Inr (d_blocks st ! nat blocknum))"

definition ssufs_writeDataBlock :: "int \<Rightarrow> char list \<Rightarrow> ssufs \<Rightarrow> fault + ssufs" where
  "ssufs_writeDataBlock blocknum buf st =
     (if \<not> blocknum < int NUM_DATA_BLOCKS then Inl Assertion
      else if blocknum < 0 then Inl Out_of_bounds
      else Inr (st\<lparr>d_blocks := (d_blocks st)[nat blocknum := buf],
                   d_len := max (d_len st) (block_end (nat blocknum))\<rparr>))"

subsection \<open>The tables of the disk\<close>

interpretation inode_table: slot_table "\<lambda>c. c = INODE_FREE" "\<lambda>_ _. INODE_IN_USE" "\<lambda>_. INODE_FREE"
  by unfold_locales (simp_all add: INODE_FREE_def INODE_IN_USE_def)

interpretation block_table: slot_table "\<lambda>c. c = DATA_BLOCK_FREE" "\<lambda>_ _. DATA_BLOCK_USED" "\<lambda>_. DATA_BLOCK_FREE"
  by unfold_locales (simp_all add: DATA_BLOCK_FREE_def DATA_BLOCK_USED_def)

definition free_inodes :: "ssufs \<Rightarrow> nat" where
  "free_inodes st = slots (\<lambda>c. c = INODE_FREE) (inode_freelist (d_super st))"

definition free_blocks :: "ssufs \<Rightarrow> nat" where
  "free_blocks st = slots (\<lambda>c. c = DATA_BLOCK_FREE) (datablock_freelist (d_super st))"

lemma marks_differ [simp]:
  "INODE_FREE \<noteq> INODE_IN_USE" "INODE_IN_USE \<noteq> INODE_FREE"
  "DATA_BLOCK_FREE \<noteq> DATA_BLOCK_USED" "DATA_BLOCK_USED \<noteq> DATA_BLOCK_FREE"
  by (simp_all add: INODE_FREE_def INODE_IN_USE_def DATA_BLOCK_FREE_def DATA_BLOCK_USED_def)

lemma readSuperBlock_ok [simp]: "64 \<le> d_len st \<Longrightarrow> ssufs_readSuperBlock st = Inr (d_super st)"
  by (simp add: ssufs_readSuperBlock_def BLOCKSIZE_def)

lemma writeSuperBlock_simps [simp]:
  "d_super (ssufs_writeSuperBlock sb st) = sb"
  "d_inodes (ssufs_writeSuperBlock sb st) = d_inodes st"
  "d_blocks (ssufs_writeSuperBlock sb st) = d_blocks st"
  "file_handle_array (ssufs_writeSuperBlock sb st) = file_handle_array st"
  "64 \<le> d_len st \<Longrightarrow> d_len (ssufs_writeSuperBlock sb st) = d_len st"
  "ssufs_writeSuperBlock sb (ssufs_writeSuperBlock sb' st) = ssufs_writeSuperBlock sb st"
  by (simp_all add: ssufs_writeSuperBlock_def BLOCKSIZE_def)

lemma writeSuperBlock_le: "64 \<le> d_len (ssufs_writeSuperBlock sb st)"
  by (simp add: ssufs_writeSuperBlock_def BLOCKSIZE_def)

lemma allocDataBlock_grab:
  assumes "64 \<le> d_len st"
  shows "ssufs_allocDataBlock st = Inr (case block_table.grab (datablock_freelist (d_super st)) of
      None \<Rightarrow> (-1, st)
    | Some (i, fl) \<Rightarrow> (int i, ssufs_writeSuperBlock ((d_super st)\<lparr>datablock_freelist := fl\<rparr>) st))"
  using assms by (simp add: ssufs_allocDataBlock_def block_table.grab_def split: option.split)

lemma allocInode_grab:
  assumes "64 \<le> d_len st"
  shows "ssufs_allocInode st = Inr (case inode_table.grab (inode_freelist (d_super st)) of
      None \<Rightarrow> (-1, st)
    | Some (i, fl) \<Rightarrow> (int i, ssufs_writeSuperBlock ((d_super st)\<lparr>inode_freelist := fl\<rparr>) st))"
  using assms by (simp add: ssufs_allocInode_def inode_table.grab_def split: option.split)

subsection \<open>The invariant of the disk\<close>

definition owned :: "inode_t \<Rightarrow> int set" where
  "owned inode = set (i_direct_blocks inode) - {-1}"

definition block_ok :: "ssufs \<Rightarrow> int \<Rightarrow> bool" where
  "block_ok st b \<longleftrightarrow> 0 \<le> b \<and> b < 30 \<and> datablock_freelist (d_super st) ! nat b = DATA_BLOCK_USED \<and>
     block_end (nat b) \<le> d_len st"

definition inode_ok :: "ssufs \<Rightarrow> inode_t \<Rightarrow> bool" where
  "inode_ok st inode \<longleftrightarrow> length (i_name inode) = 8 \<and> length (i_direct_blocks inode) = 4 \<and>
     i_file_size inode = 64 * int (slots (\<lambda>b. b \<noteq> -1) (i_direct_blocks inode)) \<and>
     distinct (filter (\<lambda>b. b \<noteq> -1) (i_direct_blocks inode)) \<and>
     (\<forall>b \<in> owned inode. block_ok st b)"

text \<open>Every file's blocks are in use, inside the image and owned by no other file; a free inode owns
  no block; sizes count whole blocks.\<close>

definition disk_ok :: "ssufs \<Rightarrow> bool" where
  "disk_ok st \<longleftrightarrow> 320 \<le> d_len st \<and>
     length (inode_freelist (d_super st)) = 8 \<and> length (datablock_freelist (d_super st)) = 30 \<and>
     set (inode_freelist (d_super st)) \<subseteq> {INODE_FREE, INODE_IN_USE} \<and>
     length (d_inodes st) = 8 \<and> length (d_blocks st) = 30 \<and> (\<forall>b \<in> set (d_blocks st). length b = 64) \<and>
     (\<forall>i < 8. inode_ok st (d_inodes st ! i)) \<and>
     (\<forall>i < 8. inode_freelist (d_super st) ! i = INODE_FREE \<longrightarrow> owned (d_inodes st ! i) = {}) \<and>
     (\<forall>i < 8. \<forall>j < 8. i \<noteq> j \<longrightarrow> owned (d_inodes st ! i) \<inter> owned (d_inodes st ! j) = {})"

lemma disk_okD:
  assumes "disk_ok st"
  shows "320 \<le> d_len st" "64 \<le> d_len st"
    "length (inode_freelist (d_super st)) = 8" "length (datablock_freelist (d_super st)) = 30"
    "length (d_inodes st) = 8" "length (d_blocks st) = 30"
    "i < 8 \<Longrightarrow> inode_ok st (d_inodes st ! i)"
    "b < 30 \<Longrightarrow> length (d_blocks st ! b) = 64"
    "i < 8 \<Longrightarrow> inode_freelist (d_super st) ! i = INODE_FREE \<Longrightarrow> owned (d_inodes st ! i) = {}"
    "i < 8 \<Longrightarrow> j < 8 \<Longrightarrow> i \<noteq> j \<Longrightarrow> owned (d_inodes st ! i) \<inter> owned (d_inodes st ! j) = {}"
  using assms unfolding disk_ok_def by auto

lemma readInode_ok [simp]:
  "disk_ok st \<Longrightarrow> i < 8 \<Longrightarrow> ssufs_readInode (int i) st = Inr (d_inodes st ! i)"
  by (auto simp: ssufs_readInode_def ssufs_consts inode_end_def disk_ok_def)

lemma writeInode_ok [simp]:
  "320 \<le> d_len st \<Longrightarrow> i < 8 \<Longrightarrow>
    ssufs_writeInode (int i) inode st = Inr (st\<lparr>d_inodes := (d_inodes st)[i := inode]\<rparr>)"
  by (auto simp: ssufs_writeInode_def ssufs_consts inode_end_def max_def)

lemma readDataBlock_ok:
  "block_ok st b \<Longrightarrow> ssufs_readDataBlock b st = Inr (d_blocks st ! nat b)"
  by (auto simp: ssufs_readDataBlock_def block_ok_def ssufs_consts)

lemma writeInode_blank:
  "d_inodes st = replicate 8 x \<Longrightarrow> 0 \<le> i \<Longrightarrow> i < 8 \<Longrightarrow>
    ssufs_writeInode i x st = Inr (st\<lparr>d_len := max (d_len st) (inode_end (nat i))\<rparr>)"
  using list_update_id [of "replicate 8 x" "nat i"] by (simp add: ssufs_writeInode_def NUM_INODES_def)

lemma formatDisk_ok:
  assumes "length over = 2" and "length junk = 7"
  shows "\<exists>st. ssufs_formatDisk over junk = Inr st \<and> disk_ok st \<and> free_inodes st = 8 \<and> free_blocks st = 30 \<and>
    file_handle_array st = replicate 20 \<lparr>fh_offset = 0, fh_inode_number = -1\<rparr>"
proof -
  have up: "[0..<8] = [0, 1, 2, 3, 4, 5, 6, 7::nat]" by (simp add: upt_rec)
  have "\<exists>st. ssufs_formatDisk over junk = Inr st \<and>
      d_len st = 320 \<and> d_inodes st = replicate 8 (blank_inode junk) \<and>
      d_blocks st = replicate 30 (replicate 64 NUL) \<and> 
      inode_freelist (d_super st) = replicate 8 INODE_FREE \<and>
      datablock_freelist (d_super st) = replicate 30 DATA_BLOCK_FREE \<and>
      file_handle_array st = replicate 20 \<lparr>fh_offset = 0, fh_inode_number = -1\<rparr>"
    by (simp add: ssufs_formatDisk_def up writeInode_blank ssufs_writeSuperBlock_def
        NUM_INODES_def NUM_DATA_BLOCKS_def BLOCKSIZE_def MAX_OPEN_FILES_def inode_end_def)
  then obtain st where st: "ssufs_formatDisk over junk = Inr st"
      "d_len st = 320" "d_inodes st = replicate 8 (blank_inode junk)"
      "d_blocks st = replicate 30 (replicate 64 NUL)"
      "inode_freelist (d_super st) = replicate 8 INODE_FREE"
      "datablock_freelist (d_super st) = replicate 30 DATA_BLOCK_FREE"
      "file_handle_array st = replicate 20 \<lparr>fh_offset = 0, fh_inode_number = -1\<rparr>" by blast
  have own: "owned (blank_inode junk) = {}" by (simp add: owned_def blank_inode_def ssufs_consts)
  have "inode_ok st (blank_inode junk)"
    unfolding inode_ok_def own using assms(2) by (simp add: blank_inode_def ssufs_consts slots_def)
  with st own show ?thesis
    by (auto simp: disk_ok_def free_inodes_def free_blocks_def slots_def)
qed

subsection \<open>Freeing an inode\<close>

text \<open>The effect of \<open>ssufs_freeInode\<close> on the free list of the data blocks.\<close>

definition release :: "char list \<Rightarrow> int list \<Rightarrow> char list" where
  "release fl bs = fold (\<lambda>b fl. fl[nat b := DATA_BLOCK_FREE]) bs fl"

lemma release_simps [simp]:
  "release fl [] = fl"
  "release fl (b # bs) = release (fl[nat b := DATA_BLOCK_FREE]) bs"
  by (simp_all add: release_def)

lemma length_release [simp]: "length (release fl bs) = length fl"
  by (induction bs arbitrary: fl) simp_all

lemma nth_release:
  "k < length fl \<Longrightarrow> release fl bs ! k = (if k \<in> nat ` set bs then DATA_BLOCK_FREE else fl ! k)"
  by (induction bs arbitrary: fl) (auto simp: nth_list_update)

lemma slots_release:
  assumes "distinct bs" and "\<forall>b \<in> set bs. 0 \<le> b \<and> nat b < length fl \<and> fl ! nat b = DATA_BLOCK_USED"
  shows "slots (\<lambda>c. c = DATA_BLOCK_FREE) (release fl bs) = slots (\<lambda>c. c = DATA_BLOCK_FREE) fl + length bs"
  using assms
proof (induction bs arbitrary: fl)
  case (Cons b bs)
  let ?fl = "fl[nat b := DATA_BLOCK_FREE]"
  have "\<forall>c \<in> set bs. 0 \<le> c \<and> nat c < length ?fl \<and> ?fl ! nat c = DATA_BLOCK_USED"
    using Cons.prems by (auto simp: nth_list_update eq_nat_nat_iff)
  moreover have "slots (\<lambda>c. c = DATA_BLOCK_FREE) ?fl = Suc (slots (\<lambda>c. c = DATA_BLOCK_FREE) fl)"
    using Cons.prems by (intro slots_give) auto
  ultimately show ?case using Cons by simp
qed simp

lemma freeDataBlock_used:
  assumes "0 \<le> b" and "b < 30" and "datablock_freelist sb ! nat b = DATA_BLOCK_USED"
  shows "ssufs_freeDataBlock b (ssufs_writeSuperBlock sb st) =
    Inr (ssufs_writeSuperBlock (sb\<lparr>datablock_freelist := (datablock_freelist sb)[nat b := DATA_BLOCK_FREE]\<rparr>) st)"
  using assms writeSuperBlock_le by (simp add: ssufs_freeDataBlock_def NUM_DATA_BLOCKS_def)

definition clear_at :: "nat list \<Rightarrow> int list \<Rightarrow> int list" where
  "clear_at is ds = fold (\<lambda>i ds. ds[i := -1]) is ds"

lemma clear_at_simps [simp]:
  "clear_at [] ds = ds"
  "clear_at (i # is) ds = clear_at is (ds[i := -1])"
  by (simp_all add: clear_at_def)

lemma clear_at_all: "length ds = 4 \<Longrightarrow> clear_at [0..<4] ds = [-1, -1, -1, -1]"
  by (auto simp: clear_at_def upt_rec length_Suc_conv eval_nat_numeral)

lemma free_direct_spec:
  assumes "bs = filter (\<lambda>b. b \<noteq> -1) (map ((!) (i_direct_blocks inode)) ks)" and "distinct bs" and "distinct ks"
    and "length (datablock_freelist sb) = 30"
    and "\<forall>b \<in> set bs. 0 \<le> b \<and> b < 30 \<and> datablock_freelist sb ! nat b = DATA_BLOCK_USED"
  shows "\<exists>st'. free_direct ks sb inode st =
      Inr (sb\<lparr>datablock_freelist := release (datablock_freelist sb) bs\<rparr>,
           inode\<lparr>i_direct_blocks := clear_at ks (i_direct_blocks inode)\<rparr>, st') \<and>
    (\<forall>x. ssufs_writeSuperBlock x st' = ssufs_writeSuperBlock x st)"
  using assms
proof (induction ks arbitrary: bs sb inode st)
  case Nil
  then show ?case by simp
next
  case (Cons i ks)
  let ?d = "i_direct_blocks inode" and ?b = "i_direct_blocks inode ! i"
  let ?inode = "inode\<lparr>i_direct_blocks := ?d[i := -1]\<rparr>"
  have same: "map ((!) (?d[i := -1])) ks = map ((!) ?d) ks"
    using Cons.prems(3) by (auto intro!: nth_list_update_neq)
  show ?case
  proof (cases "?b = -1")
    case True
    have "bs = filter (\<lambda>b. b \<noteq> -1) (map ((!) (i_direct_blocks ?inode)) ks)"
      using Cons.prems(1) by (simp add: same True)
    from Cons.IH [OF this] Cons.prems True show ?thesis by simp
  next
    case False
    define bs' where "bs' = filter (\<lambda>b. b \<noteq> -1) (map ((!) ?d) ks)"
    have bs: "bs = ?b # bs'" using Cons.prems(1) False by (simp add: bs'_def)
    let ?sb = "sb\<lparr>datablock_freelist := (datablock_freelist sb)[nat ?b := DATA_BLOCK_FREE]\<rparr>"
    have b: "0 \<le> ?b" "?b < 30" "datablock_freelist sb ! nat ?b = DATA_BLOCK_USED"
      using Cons.prems(5) bs by auto
    have u: "\<forall>c \<in> set bs'. 0 \<le> c \<and> c < 30 \<and> datablock_freelist ?sb ! nat c = DATA_BLOCK_USED"
      using Cons.prems(2,4,5) bs b by (auto simp: nth_list_update eq_nat_nat_iff)
    have f: "bs' = filter (\<lambda>b. b \<noteq> -1) (map ((!) (i_direct_blocks ?inode)) ks)"
      by (simp add: same bs'_def)
    have d: "distinct bs'" "distinct ks" "length (datablock_freelist ?sb) = 30"
      using Cons.prems(2-4) unfolding bs by simp_all
    obtain st' where
      "free_direct ks ?sb ?inode (ssufs_writeSuperBlock ?sb st) =
        Inr (?sb\<lparr>datablock_freelist := release (datablock_freelist ?sb) bs'\<rparr>,
           ?inode\<lparr>i_direct_blocks := clear_at ks (i_direct_blocks ?inode)\<rparr>, st')"
      "\<forall>x. ssufs_writeSuperBlock x st' = ssufs_writeSuperBlock x st"
      using Cons.IH [OF f d u, of "ssufs_writeSuperBlock ?sb st"] by auto
    with False bs b show ?thesis by (simp add: freeDataBlock_used writeSuperBlock_le)
  qed
qed

definition freed_state :: "nat \<Rightarrow> ssufs \<Rightarrow> ssufs" where
  "freed_state i st =
     (ssufs_writeSuperBlock (d_super st\<lparr>inode_freelist := (inode_freelist (d_super st))[i := INODE_FREE],
        datablock_freelist := release (datablock_freelist (d_super st))
          (filter (\<lambda>b. b \<noteq> -1) (i_direct_blocks (d_inodes st ! i)))\<rparr>) st)
     \<lparr>d_inodes := (d_inodes st)[i := (d_inodes st ! i)\<lparr>i_status := INODE_FREE, i_file_size := 0,
        i_direct_blocks := [-1, -1, -1, -1]\<rparr>]\<rparr>"

lemma set_filter_owned: "set (filter (\<lambda>b. b \<noteq> -1) (i_direct_blocks inode)) = owned inode"
  by (auto simp: owned_def)

lemma freeInode_run:
  assumes ok: "disk_ok st" and i: "i < 8" and use: "inode_freelist (d_super st) ! i = INODE_IN_USE"
  shows "ssufs_freeInode (int i) st = Inr (freed_state i st)"
proof -
  let ?inode = "d_inodes st ! i"
  let ?bs = "filter (\<lambda>b. b \<noteq> -1) (i_direct_blocks ?inode)"
  have io: "inode_ok st ?inode" by (rule disk_okD(7) [OF ok i])
  then have len: "length (i_direct_blocks ?inode) = 4" by (simp add: inode_ok_def)
  then have m: "map ((!) (i_direct_blocks ?inode)) [0..<4] = i_direct_blocks ?inode"
    by (metis map_nth)
  have used: "\<forall>b \<in> set ?bs. 0 \<le> b \<and> b < 30 \<and> datablock_freelist (d_super st) ! nat b = DATA_BLOCK_USED"
    using io unfolding set_filter_owned inode_ok_def block_ok_def by blast
  have "distinct ?bs" using io by (simp add: inode_ok_def)
  then obtain st' where
    "free_direct [0..<4] (d_super st\<lparr>inode_freelist := (inode_freelist (d_super st))[i := INODE_FREE]\<rparr>)
        (?inode\<lparr>i_status := INODE_FREE, i_file_size := 0\<rparr>) st =
      Inr (d_super st\<lparr>inode_freelist := (inode_freelist (d_super st))[i := INODE_FREE],
             datablock_freelist := release (datablock_freelist (d_super st)) ?bs\<rparr>,
           ?inode\<lparr>i_status := INODE_FREE, i_file_size := 0, i_direct_blocks := [-1, -1, -1, -1]\<rparr>, st')"
    "\<forall>x. ssufs_writeSuperBlock x st' = ssufs_writeSuperBlock x st"
    using free_direct_spec [where inode = "?inode\<lparr>i_status := INODE_FREE, i_file_size := 0\<rparr>" and ks = "[0..<4]"
        and bs = ?bs and st = st
        and sb = "d_super st\<lparr>inode_freelist := (inode_freelist (d_super st))[i := INODE_FREE]\<rparr>"]
      used m disk_okD [OF ok] clear_at_all [OF len] by auto
  with assms show ?thesis
    using disk_okD [OF ok]
    by (simp add: ssufs_freeInode_def NUM_INODES_def MAX_FILE_SIZE_def freed_state_def)
qed

lemma freed_disk_ok:
  assumes ok: "disk_ok st" and i: "i < 8"
  shows "disk_ok (freed_state i st)"
    and "free_blocks (freed_state i st) = free_blocks st + card (owned (d_inodes st ! i))"
proof -
  let ?st = "freed_state i st" and ?inode = "d_inodes st ! i"
  let ?bs = "filter (\<lambda>b. b \<noteq> -1) (i_direct_blocks ?inode)"
  let ?fl = "datablock_freelist (d_super st)"
  note D = disk_okD [OF ok]
  have fields: "d_len ?st = d_len st" "d_blocks ?st = d_blocks st"
    "inode_freelist (d_super ?st) = (inode_freelist (d_super st))[i := INODE_FREE]"
    "datablock_freelist (d_super ?st) = release ?fl ?bs"
    using D by (simp_all add: freed_state_def)
  have inode: "d_inodes ?st ! j = (if j = i then ?inode\<lparr>i_status := INODE_FREE, i_file_size := 0,
      i_direct_blocks := [-1, -1, -1, -1]\<rparr> else d_inodes st ! j)" if "j < 8" for j
    using D(5) that by (simp add: freed_state_def nth_list_update)
  have own: "owned (d_inodes ?st ! j) = (if j = i then {} else owned (d_inodes st ! j))" if "j < 8" for j
    using inode [OF that] by (simp add: owned_def)
  have io: "inode_ok st ?inode" by (rule D(7) [OF i])
  have used: "\<forall>b \<in> owned ?inode. block_ok st b" using io by (simp add: inode_ok_def)
  have "inode_ok ?st (d_inodes ?st ! j)" if j: "j < 8" for j
  proof (cases "j = i")
    case True
    with inode [OF j] io show ?thesis by (simp add: inode_ok_def owned_def)
  next
    case False
    have jo: "inode_ok st (d_inodes st ! j)" by (rule D(7) [OF j])
    have "block_ok ?st b" if b: "b \<in> owned (d_inodes st ! j)" for b
    proof -
      have bo: "block_ok st b" using jo b by (simp add: inode_ok_def)
      have "b \<notin> owned ?inode" using D(10) [OF j i False] b by blast
      then have "nat b \<notin> nat ` set ?bs"
        unfolding set_filter_owned using used bo by (auto simp: block_ok_def eq_nat_nat_iff)
      moreover have "nat b < length ?fl" using bo D(4) by (simp add: block_ok_def nat_less_iff)
      ultimately have "release ?fl ?bs ! nat b = ?fl ! nat b" by (simp only: nth_release if_False)
      with bo show ?thesis by (simp add: block_ok_def fields)
    qed
    with jo False inode [OF j] show ?thesis by (simp add: inode_ok_def)
  qed
  with D own show "disk_ok ?st"
    unfolding disk_ok_def fields
    using ok set_update_subset_insert [of "inode_freelist (d_super st)" i INODE_FREE]
    by (auto simp: freed_state_def disk_ok_def nth_list_update)
  have "\<forall>b \<in> set ?bs. 0 \<le> b \<and> nat b < length ?fl \<and> ?fl ! nat b = DATA_BLOCK_USED"
    unfolding set_filter_owned using used D(4) by (auto simp: block_ok_def)
  moreover have "distinct ?bs" using io by (simp add: inode_ok_def)
  ultimately show "free_blocks ?st = free_blocks st + card (owned ?inode)"
    using slots_release [of ?bs ?fl] distinct_card [of ?bs] unfolding set_filter_owned
    by (simp add: free_blocks_def fields)
qed


end
