(* ===== verification/SSUFS_Ops.thy ===== *)
theory SSUFS_Ops
  imports SSUFS_Disk
begin

text \<open>
  The file operations of \<open>src/project6/ssufs-ops.c\<close> over the disk of \<open>SSUFS_Disk\<close>, the invariant of
  the file system, and the properties of the operations: allocation, deletion, writing and reading.
\<close>

subsection \<open>The operations\<close>

definition valid_handle :: "int \<Rightarrow> bool" where
  "valid_handle file_handle \<longleftrightarrow> 0 \<le> file_handle \<and> file_handle < int MAX_OPEN_FILES"

definition handle_of :: "ssufs \<Rightarrow> int \<Rightarrow> filehandle_t" where
  "handle_of st file_handle = file_handle_array st ! nat file_handle"

definition set_offset :: "int \<Rightarrow> int \<Rightarrow> ssufs \<Rightarrow> ssufs" where
  "set_offset file_handle off st =
     st\<lparr>file_handle_array := (file_handle_array st)
          [nat file_handle := (handle_of st file_handle)\<lparr>fh_offset := off\<rparr>]\<rparr>"

definition ssufs_allocFileHandle :: "ssufs \<Rightarrow> int \<times> ssufs" where
  "ssufs_allocFileHandle st =
     (case find_slot (\<lambda>h. fh_inode_number h = -1) (file_handle_array st) of
        Some i \<Rightarrow> (int i, st\<lparr>file_handle_array := (file_handle_array st)
                     [i := \<lparr>fh_offset = 0, fh_inode_number = int i\<rparr>]\<rparr>)
      | None \<Rightarrow> (-1, st))"

text \<open>\<open>strncpy (dst, src, n)\<close> copies at most \<open>n\<close> characters and fills up with NUL.\<close>

definition strncpy :: "char list \<Rightarrow> nat \<Rightarrow> char list" where
  "strncpy src n = take n (src @ replicate n NUL)"

definition ssufs_create :: "char list \<Rightarrow> ssufs \<Rightarrow> fault + int \<times> ssufs" where
  "ssufs_create filename st =
     ebind (ssufs_allocInode st) (\<lambda>(inode_idx, st1).
       if inode_idx = -1 then Inr (-1, st1)
       else
         ebind (ssufs_readInode inode_idx st1) (\<lambda>inode.
           ebind (ssufs_writeInode inode_idx
                    (inode\<lparr>i_status := INODE_IN_USE, i_name := strncpy filename 8\<rparr>) st1)
             (\<lambda>st2. Inr (inode_idx, st2))))"

definition ssufs_delete :: "char list \<Rightarrow> ssufs \<Rightarrow> fault + ssufs" where
  "ssufs_delete filename st =
     ebind (open_namei filename st) (\<lambda>inode_idx.
       if inode_idx = -1 then Inr st else ssufs_freeInode inode_idx st)"

definition ssufs_open :: "char list \<Rightarrow> ssufs \<Rightarrow> fault + int \<times> ssufs" where
  "ssufs_open filename st =
     ebind (open_namei filename st) (\<lambda>inode_idx.
       if inode_idx = -1 then Inr (-1, st) else Inr (ssufs_allocFileHandle st))"

definition ssufs_close :: "int \<Rightarrow> ssufs \<Rightarrow> fault + ssufs" where
  "ssufs_close file_handle st =
     (if \<not> valid_handle file_handle then Inl Out_of_bounds
      else Inr (st\<lparr>file_handle_array := (file_handle_array st)
             [nat file_handle := \<lparr>fh_offset = 0, fh_inode_number = -1\<rparr>]\<rparr>))"

definition ssufs_lseek :: "int \<Rightarrow> int \<Rightarrow> ssufs \<Rightarrow> fault + int \<times> ssufs" where
  "ssufs_lseek file_handle nseek st =
     (if \<not> valid_handle file_handle then Inl Out_of_bounds
      else
        ebind (ssufs_readInode (fh_inode_number (handle_of st file_handle)) st) (\<lambda>tmp.
          let fsize = i_file_size tmp; off = fh_offset (handle_of st file_handle) + nseek in
          if fsize = -1 \<or> off < 0 \<or> off > fsize then Inr (-1, st)
          else Inr (0, set_offset file_handle off st)))"

text \<open>The loops of \<open>ssufs_read\<close> and \<open>ssufs_write\<close>; \<open>rd\<close> and \<open>wr\<close> are the local counters \<open>read\<close> and
  \<open>write\<close>. The bytes of \<open>buf\<close> that have been read are collected in order.\<close>

definition jump_of :: "int \<Rightarrow> int \<Rightarrow> int" where
  "jump_of off rest = (if int BLOCKSIZE - off mod int BLOCKSIZE > rest then rest else int BLOCKSIZE - off mod int BLOCKSIZE)"

lemma jump_of_pos: "0 < rest \<Longrightarrow> 0 < jump_of off rest"
proof -
  have "off mod 64 < 64" by (rule pos_mod_bound) simp
  then show "0 < rest \<Longrightarrow> 0 < jump_of off rest" by (simp add: jump_of_def BLOCKSIZE_def)
qed

function read_loop :: "int \<Rightarrow> inode_t \<Rightarrow> int \<Rightarrow> int \<Rightarrow> char list \<Rightarrow> ssufs \<Rightarrow> fault + int \<times> char list \<times> ssufs" where
  "read_loop file_handle inode nbytes rd buf st =
     (if \<not> rd < nbytes then Inr (0, buf, st)
      else
        (let offset = fh_offset (handle_of st file_handle);
             block = offset div int BLOCKSIZE;
             off = offset mod int BLOCKSIZE;
             jump = jump_of offset (nbytes - rd)
         in
         if \<not> (0 \<le> block \<and> block < int MAX_FILE_SIZE) then Inl Out_of_bounds
         else
           ebind (ssufs_readDataBlock (i_direct_blocks inode ! nat block) st) (\<lambda>tmp.
             ebind (ssufs_lseek file_handle jump st) (\<lambda>(r, st1).
               if r < 0 then Inr (-1, buf @ take (nat jump) (drop (nat off) tmp), st1)
               else read_loop file_handle inode nbytes (rd + jump)
                      (buf @ take (nat jump) (drop (nat off) tmp)) st1))))"
  by pat_completeness auto
termination
  by (relation "measure (\<lambda>(fh, inode, nbytes, rd, buf, st). nat (nbytes - rd))") (auto simp: jump_of_pos)

declare read_loop.simps [simp del]

definition ssufs_read :: "int \<Rightarrow> int \<Rightarrow> ssufs \<Rightarrow> fault + int \<times> char list \<times> ssufs" where
  "ssufs_read file_handle nbytes st =
     (if \<not> valid_handle file_handle then Inl Out_of_bounds
      else
        (let inodenum = fh_inode_number (handle_of st file_handle) in
         if inodenum = -1 then Inr (-1, [], st)
         else
           ebind (ssufs_readInode inodenum st) (\<lambda>inode.
             if i_file_size inode < nbytes then Inr (-1, [], st)
             else
               (let nblock_in_use = int (slots (\<lambda>b. b \<noteq> -1) (i_direct_blocks inode)) in
                if int BLOCKSIZE * nblock_in_use - fh_offset (handle_of st file_handle) < nbytes
                then Inr (-1, [], st)
                else read_loop file_handle inode nbytes 0 [] st))))"

text \<open>The first part of an iteration of \<open>ssufs_write\<close>: the block to write to, allocated and cleared
  when the inode has none. \<open>None\<close> is the \<open>return -1\<close> when the disk is full.\<close>

definition write_block :: "inode_t \<Rightarrow> nat \<Rightarrow> ssufs \<Rightarrow> fault + (int \<times> inode_t) option \<times> ssufs" where
  "write_block inode block st =
     (let blocknum = i_direct_blocks inode ! block in
      if blocknum = -1
      then
        ebind (ssufs_allocDataBlock st) (\<lambda>(blocknum, st1).
          if blocknum = -1 then Inr (None, st1)
          else
            ebind (ssufs_writeDataBlock blocknum (replicate BLOCKSIZE NUL) st1) (\<lambda>st2.
              Inr (Some (blocknum, inode\<lparr>i_file_size := i_file_size inode + int BLOCKSIZE,
                     i_direct_blocks := (i_direct_blocks inode)[block := blocknum]\<rparr>), st2)))
      else Inr (Some (blocknum, inode), st))"

function write_loop :: "int \<Rightarrow> char list \<Rightarrow> int \<Rightarrow> int \<Rightarrow> inode_t \<Rightarrow> ssufs \<Rightarrow> fault + (inode_t option) \<times> ssufs" where
  "write_loop file_handle buf nbytes wr inode st =
     (if \<not> wr < nbytes then Inr (Some inode, st)
      else
        (let offset = fh_offset (handle_of st file_handle);
             block = offset div int BLOCKSIZE;
             off = offset mod int BLOCKSIZE;
             jump = jump_of offset (nbytes - wr)
         in
         if \<not> (0 \<le> block \<and> block < int MAX_FILE_SIZE) then Inl Out_of_bounds
         else
           ebind (write_block inode (nat block) st) (\<lambda>(res, st1).
             case res of
               None \<Rightarrow> Inr (None, st1)
             | Some (blocknum, inode1) \<Rightarrow>
                 ebind (ssufs_readDataBlock blocknum st1) (\<lambda>tmp.
                   if \<not> nat wr + nat jump \<le> length buf then Inl Out_of_bounds
                   else
                     ebind (ssufs_writeDataBlock blocknum
                              (patch tmp (nat off) (take (nat jump) (drop (nat wr) buf))) st1)
                       (\<lambda>st2. write_loop file_handle buf nbytes (wr + jump) inode1
                                (set_offset file_handle (offset + jump) st2))))))"
  by pat_completeness auto
termination
  by (relation "measure (\<lambda>(fh, buf, nbytes, wr, inode, st). nat (nbytes - wr))") (auto simp: jump_of_pos)

declare write_loop.simps [simp del]

text \<open>\<open>strlen(buf)\<close>, whose result the code does not use, reads behind a buffer without a NUL.\<close>

definition ssufs_write :: "int \<Rightarrow> char list \<Rightarrow> int \<Rightarrow> ssufs \<Rightarrow> fault + int \<times> ssufs" where
  "ssufs_write file_handle buf nbytes st =
     (if \<not> valid_handle file_handle then Inl Out_of_bounds
      else
        (let inodenum = fh_inode_number (handle_of st file_handle) in
         if inodenum = -1 then Inr (-1, st)
         else
           ebind (ssufs_readInode inodenum st) (\<lambda>inode.
             if NUL \<notin> set buf then Inl Out_of_bounds
             else if int BLOCKSIZE * 4 - fh_offset (handle_of st file_handle) < nbytes then Inr (-1, st)
             else
               ebind (write_loop file_handle buf nbytes 0 inode st) (\<lambda>(res, st1).
                 case res of
                   None \<Rightarrow> Inr (-1, st1)
                 | Some inode1 \<Rightarrow>
                     ebind (ssufs_writeInode inodenum inode1 st1) (\<lambda>st2. Inr (0, st2))))))"

subsection \<open>Names\<close>

lemma open_namei_scan_find:
  assumes "disk_ok st" and "set ks \<subseteq> {..<8}"
  shows "open_namei_scan f (d_super st) st ks = Inr (case find
      (\<lambda>i. inode_freelist (d_super st) ! i = INODE_IN_USE \<and> has_name f (d_inodes st ! i)) ks of
        None \<Rightarrow> -1 | Some i \<Rightarrow> int i)"
  using assms(2) by (induction ks) (auto simp: assms(1))

lemma open_namei_find:
  assumes "disk_ok st"
  shows "open_namei f st = Inr (if 8 < length f then -1 else case find
      (\<lambda>i. inode_freelist (d_super st) ! i = INODE_IN_USE \<and> has_name f (d_inodes st ! i)) [0..<8] of
        None \<Rightarrow> -1 | Some i \<Rightarrow> int i)"
  using assms open_namei_scan_find [OF assms, of "[0..<8]" f] disk_okD(2) [OF assms]
  by (simp add: open_namei_def MAX_NAME_STRLEN_def NUM_INODES_def atLeast0LessThan [symmetric] del: upt_rec_numeral)

lemma open_namei_cases:
  assumes "disk_ok st"
  obtains (found) i where "open_namei f st = Inr (int i)" "i < 8" "length f \<le> 8"
      "inode_freelist (d_super st) ! i = INODE_IN_USE" "has_name f (d_inodes st ! i)"
      "\<forall>j < i. \<not> (inode_freelist (d_super st) ! j = INODE_IN_USE \<and> has_name f (d_inodes st ! j))"
    | (missing) "open_namei f st = Inr (-1)" "8 < length f \<or>
      (\<forall>i < 8. \<not> (inode_freelist (d_super st) ! i = INODE_IN_USE \<and> has_name f (d_inodes st ! i)))"
proof (cases "find (\<lambda>i. inode_freelist (d_super st) ! i = INODE_IN_USE \<and> has_name f (d_inodes st ! i)) [0..<8]")
  case None
  have "open_namei f st = Inr (-1)" using open_namei_find [OF assms, of f] by (simp only: None) simp
  moreover have "\<forall>i < 8. \<not> (inode_freelist (d_super st) ! i = INODE_IN_USE \<and> has_name f (d_inodes st ! i))"
    using None by (auto simp: find_None_iff simp del: upt_rec_numeral)
  ultimately show thesis using missing by blast
next
  case (Some i)
  then have "i < 8" "inode_freelist (d_super st) ! i = INODE_IN_USE" "has_name f (d_inodes st ! i)"
    "\<forall>j < i. \<not> (inode_freelist (d_super st) ! j = INODE_IN_USE \<and> has_name f (d_inodes st ! j))"
    by (auto simp: find_Some_iff simp del: upt_rec_numeral)
  with Some show thesis using open_namei_find [OF assms, of f] found [of i] missing
    by (cases "8 < length f") auto
qed

lemma c_string_prefix: "NUL \<notin> set f \<Longrightarrow> c_string (f @ NUL # bs) = f"
  unfolding c_string_def by (induction f) auto

lemma name_created:
  assumes "NUL \<notin> set f" and "length f \<le> 8" and "i_name inode = strncpy f 8" and "i_file_size inode = 0"
  shows "has_name f inode"
proof -
  have le: "le32 0 = [NUL, NUL, NUL, NUL]" by (simp add: le32_def NUL_def char_of_def)
  have "\<exists>bs. name_bytes inode = f @ NUL # bs"
  proof (cases "length f = 8")
    case True
    then show ?thesis using assms by (simp add: name_bytes_def strncpy_def le)
  next
    case False
    then have "8 - length f = Suc (7 - length f)" using assms by simp
    then show ?thesis using assms by (simp add: name_bytes_def strncpy_def)
  qed
  with assms(1) show ?thesis unfolding has_name_def by (auto simp: c_string_prefix)
qed

subsection \<open>Create, delete, open, close\<close>

definition put_inode :: "nat \<Rightarrow> inode_t \<Rightarrow> ssufs \<Rightarrow> ssufs" where
  "put_inode i inode st = st\<lparr>d_inodes := (d_inodes st)[i := inode]\<rparr>"

lemma put_inode_simps [simp]:
  "d_len (put_inode i inode st) = d_len st"
  "d_super (put_inode i inode st) = d_super st"
  "d_blocks (put_inode i inode st) = d_blocks st"
  "d_inodes (put_inode i inode st) = (d_inodes st)[i := inode]"
  "file_handle_array (put_inode i inode st) = file_handle_array st"
  "block_ok (put_inode i inode st) b = block_ok st b"
  "inode_ok (put_inode i inode st) x = inode_ok st x"
  "free_blocks (put_inode i inode st) = free_blocks st"
  by (simp_all add: put_inode_def block_ok_def inode_ok_def free_blocks_def)

definition created_state :: "char list \<Rightarrow> nat \<Rightarrow> ssufs \<Rightarrow> ssufs" where
  "created_state f i st =
     put_inode i ((d_inodes st ! i)\<lparr>i_status := INODE_IN_USE, i_name := strncpy f 8\<rparr>)
       (ssufs_writeSuperBlock (d_super st\<lparr>inode_freelist := (inode_freelist (d_super st))[i := INODE_IN_USE]\<rparr>) st)"

lemma disk_ok_mark:
  assumes "disk_ok st"
  shows "disk_ok (ssufs_writeSuperBlock (d_super st\<lparr>inode_freelist := (inode_freelist (d_super st))[i := INODE_IN_USE]\<rparr>) st)"
proof -
  let ?fl = "inode_freelist (d_super st)"
  have "?fl[i := INODE_IN_USE] ! j = INODE_FREE \<Longrightarrow> ?fl ! j = INODE_FREE" if "j < 8" for j
    using that disk_okD(3) [OF assms] by (cases "i = j") simp_all
  then show ?thesis
    using assms disk_okD(2) [OF assms] set_update_subset_insert [of ?fl i INODE_IN_USE]
    by (auto simp: disk_ok_def inode_ok_def block_ok_def)
qed

lemma disk_ok_put_meta:
  assumes "disk_ok st" and "i < 8" and "length (i_name inode) = 8"
    and "i_file_size inode = i_file_size (d_inodes st ! i)" "i_direct_blocks inode = i_direct_blocks (d_inodes st ! i)"
  shows "disk_ok (put_inode i inode st)"
proof -
  have "owned inode = owned (d_inodes st ! i)" using assms by (simp add: owned_def)
  moreover have "inode_ok st inode"
    using disk_okD(7) [OF assms(1,2)] assms(3-5) calculation by (simp add: inode_ok_def)
  ultimately show ?thesis
    using assms(1,2) by (auto simp: disk_ok_def nth_list_update)
qed

lemma create_run:
  assumes "disk_ok st"
  shows "ssufs_create f st = Inr (case find_slot (\<lambda>c. c = INODE_FREE) (inode_freelist (d_super st)) of
      None \<Rightarrow> (-1, st) | Some i \<Rightarrow> (int i, created_state f i st))"
proof (cases "find_slot (\<lambda>c. c = INODE_FREE) (inode_freelist (d_super st))")
  case None
  with disk_okD(2) [OF assms] show ?thesis by (simp add: ssufs_create_def ssufs_allocInode_def)
next
  case (Some i)
  then have i: "i < 8" using disk_okD(3) [OF assms] find_slot_bound by fastforce
  note ok = disk_ok_mark [OF assms, of i]
  show ?thesis
    using Some i disk_okD(1,2) [OF assms] readInode_ok [OF ok i] writeInode_ok [OF disk_okD(1) [OF ok] i]
    by (simp add: ssufs_create_def ssufs_allocInode_def created_state_def put_inode_def)
qed

lemma length_strncpy [simp]: "length (strncpy f n) = n"
  by (simp add: strncpy_def)

lemma created_disk_ok: "disk_ok st \<Longrightarrow> i < 8 \<Longrightarrow> disk_ok (created_state f i st)"
  unfolding created_state_def by (rule disk_ok_put_meta [OF disk_ok_mark]) simp_all


subsection \<open>The contents of a file\<close>

definition fbyte :: "inode_t \<Rightarrow> char list list \<Rightarrow> nat \<Rightarrow> char option" where
  "fbyte inode bs pos =
     (let b = i_direct_blocks inode ! (pos div 64) in
      if b = -1 then None else Some (bs ! nat b ! (pos mod 64)))"

definition file_byte :: "ssufs \<Rightarrow> nat \<Rightarrow> nat \<Rightarrow> char option" where
  "file_byte st i = fbyte (d_inodes st ! i) (d_blocks st)"

text \<open>A write of \<open>n\<close> bytes at \<open>o\<close> touches block \<open>k\<close> of the file. The specification of a write on the
  contents: the bytes of \<open>data\<close> at \<open>off\<close>, NUL elsewhere in the blocks that are new, and the rest as
  it was.\<close>

definition touched :: "nat \<Rightarrow> nat \<Rightarrow> nat \<Rightarrow> bool" where
  "touched off n k \<longleftrightarrow> 0 < n \<and> off < 64 * (k + 1) \<and> 64 * k < off + n"

definition write_spec :: "(nat \<Rightarrow> char option) \<Rightarrow> nat \<Rightarrow> char list \<Rightarrow> nat \<Rightarrow> char option" where
  "write_spec f off data pos =
     (if off \<le> pos \<and> pos < off + length data then Some (data ! (pos - off))
      else if touched off (length data) (pos div 64) \<and> f pos = None then Some NUL
      else f pos)"

text \<open>The number of blocks a write has to allocate.\<close>

definition need :: "inode_t \<Rightarrow> nat \<Rightarrow> nat \<Rightarrow> nat" where
  "need inode off n = slots (\<lambda>k. touched off n k \<and> i_direct_blocks inode ! k = -1) [0..<4]"

lemma touched_add: "touched off (m + n) k \<longleftrightarrow> touched off m k \<or> touched (off + m) n k"
  by (auto simp: touched_def)

lemma write_spec_append:
  assumes "d1 \<noteq> []"
  shows "write_spec (write_spec f off d1) (off + length d1) d2 pos = write_spec f off (d1 @ d2) pos"
  using touched_add [of off "length d1" "length d2" "pos div 64"]
  by (auto simp: write_spec_def nth_append)

lemma write_spec_Nil [simp]: "write_spec f off [] = f"
  by (auto simp: write_spec_def touched_def fun_eq_iff)

lemma touched_one:
  assumes "off div 64 = k" and "0 < n" and "off + n \<le> 64 * (k + 1)"
  shows "touched off n j \<longleftrightarrow> j = k"
  using assms by (auto simp: touched_def)

lemma need_alt: "need inode off n = card {k. k < 4 \<and> touched off n k \<and> i_direct_blocks inode ! k = -1}"
proof -
  have "need inode off n = card (set (filter (\<lambda>k. touched off n k \<and> i_direct_blocks inode ! k = -1) [0..<4]))"
    unfolding need_def slots_def by (metis distinct_card distinct_filter distinct_upt)
  also have "set (filter (\<lambda>k. touched off n k \<and> i_direct_blocks inode ! k = -1) [0..<4]) =
      {k. k < 4 \<and> touched off n k \<and> i_direct_blocks inode ! k = -1}"
    by (auto simp del: upt_rec_numeral)
  finally show ?thesis .
qed

lemma need_step:
  assumes "\<And>k. k < 4 \<Longrightarrow> i_direct_blocks inode' ! k = -1 \<longleftrightarrow> i_direct_blocks inode ! k = -1 \<and> \<not> touched off m k"
  shows "need inode off (m + n) = need inode off m + need inode' (off + m) n"
proof -
  let ?A = "{k. k < 4 \<and> touched off m k \<and> i_direct_blocks inode ! k = -1}"
  let ?B = "{k. k < 4 \<and> touched (off + m) n k \<and> i_direct_blocks inode' ! k = -1}"
  have "{k. k < 4 \<and> touched off (m + n) k \<and> i_direct_blocks inode ! k = -1} = ?A \<union> ?B"
    using assms by (auto simp: touched_add)
  moreover have "?A \<inter> ?B = {}" using assms by auto
  ultimately show ?thesis by (simp add: need_alt card_Un_disjoint)
qed

subsection \<open>One block of a write\<close>

lemma write_block_have:
  "i_direct_blocks inode ! k \<noteq> -1 \<Longrightarrow> write_block inode k st = Inr (Some (i_direct_blocks inode ! k, inode), st)"
  by (simp add: write_block_def)

lemma write_block_full:
  "i_direct_blocks inode ! k = -1 \<Longrightarrow> 64 \<le> d_len st \<Longrightarrow> free_blocks st = 0 \<Longrightarrow>
    write_block inode k st = Inr (None, st)"
  by (simp add: write_block_def allocDataBlock_grab free_blocks_def
      iffD2 [OF block_table.grab_None])

text \<open>The state after a new block \<open>b\<close> has been taken for the file.\<close>

definition grown :: "nat \<Rightarrow> ssufs \<Rightarrow> ssufs" where
  "grown b st = st\<lparr>d_super := (d_super st)\<lparr>datablock_freelist := (datablock_freelist (d_super st))[b := DATA_BLOCK_USED]\<rparr>,
     d_blocks := (d_blocks st)[b := replicate 64 NUL], d_len := max (d_len st) (block_end b)\<rparr>"

definition grown_inode :: "nat \<Rightarrow> nat \<Rightarrow> inode_t \<Rightarrow> inode_t" where
  "grown_inode k b inode = inode\<lparr>i_file_size := i_file_size inode + 64,
     i_direct_blocks := (i_direct_blocks inode)[k := int b]\<rparr>"

lemma write_block_new:
  assumes "i_direct_blocks inode ! k = -1" and "64 \<le> d_len st" and "length (datablock_freelist (d_super st)) = 30"
    and "find_slot (\<lambda>c. c = DATA_BLOCK_FREE) (datablock_freelist (d_super st)) = Some b"
  shows "write_block inode k st = Inr (Some (int b, grown_inode k b inode), grown b st)"
proof -
  have "b < 30" using find_slot_bound [OF assms(4)] assms(3) by simp
  with assms show ?thesis
    by (simp add: write_block_def ssufs_allocDataBlock_def ssufs_writeDataBlock_def NUM_DATA_BLOCKS_def
        BLOCKSIZE_def grown_def grown_inode_def ssufs_writeSuperBlock_def max_def)
qed

lemma owned_grown:
  assumes "length (i_direct_blocks inode) = 4" and "k < 4" and "i_direct_blocks inode ! k = -1"
  shows "owned (grown_inode k b inode) = insert (int b) (owned inode)"
proof -
  have "set ((i_direct_blocks inode)[k := int b]) - {-1} = insert (int b) (set (i_direct_blocks inode) - {-1})"
    using assms by (auto simp: set_conv_nth nth_list_update)
  then show ?thesis by (simp add: owned_def grown_inode_def)
qed

lemma distinct_filter_update:
  assumes "distinct (filter P xs)" and "k < length xs" and "\<not> P (xs ! k)" and "y \<notin> set (filter P xs)"
  shows "distinct (filter P (xs[k := y]))"
  using assms
proof (induction xs arbitrary: k)
  case (Cons x xs)
  show ?case
  proof (cases k)
    case 0
    with Cons show ?thesis by auto
  next
    case (Suc l)
    have "set (filter P (xs[l := y])) \<subseteq> insert y (set (filter P xs))"
      using set_update_subset_insert [of xs l y] by auto
    with Suc Cons show ?thesis by (auto split: if_splits)
  qed
qed simp

lemma list_update_keep: "n < length xs \<Longrightarrow> xs ! n = v \<Longrightarrow> xs[b := v] ! n = v"
  by (cases "b = n") simp_all

lemma block_ok_grown: "length (datablock_freelist (d_super st)) = 30 \<Longrightarrow> block_ok st c \<Longrightarrow> block_ok (grown b st) c"
  by (simp add: block_ok_def grown_def list_update_keep nat_less_iff le_max_iff_disj)

lemma inode_ok_grown:
  assumes ok: "inode_ok st inode" and k: "k < 4" "i_direct_blocks inode ! k = -1"
    and fl: "length (datablock_freelist (d_super st)) = 30" and b: "b < 30" "int b \<notin> owned inode"
  shows "inode_ok (grown b st) (grown_inode k b inode)"
proof -
  let ?d = "i_direct_blocks inode"
  have len: "length ?d = 4" using ok by (simp add: inode_ok_def)
  have "slots (\<lambda>b. b \<noteq> -1) (?d[k := int b]) = Suc (slots (\<lambda>b. b \<noteq> -1) ?d)"
    using len k by (intro slots_give) simp_all
  moreover have "distinct (filter (\<lambda>b. b \<noteq> -1) (?d[k := int b]))"
    using ok len k b by (intro distinct_filter_update) (simp_all add: inode_ok_def owned_def)
  moreover have "block_ok (grown b st) c" if "c = int b \<or> c \<in> owned inode" for c
    using that ok fl b block_ok_grown [OF fl, of c b]
    by (auto simp: inode_ok_def) (simp add: block_ok_def grown_def)
  moreover have "owned (inode\<lparr>i_file_size := i_file_size inode + 64, i_direct_blocks := ?d[k := int b]\<rparr>) =
      insert (int b) (owned inode)"
    using owned_grown [OF len k, of b] by (simp add: grown_inode_def)
  ultimately show ?thesis using ok by (simp add: inode_ok_def grown_inode_def)
qed

lemma inode_ok_grown_other:
  assumes ok: "inode_ok st inode" and "length (datablock_freelist (d_super st)) = 30"
  shows "inode_ok (grown b st) inode"
  using assms by (simp add: inode_ok_def block_ok_grown)

lemma free_block_unowned:
  assumes "inode_ok st inode" and "datablock_freelist (d_super st) ! b = DATA_BLOCK_FREE"
  shows "int b \<notin> owned inode"
proof
  assume "int b \<in> owned inode"
  then have "block_ok st (int b)" using assms(1) by (simp add: inode_ok_def)
  then show False using assms(2) by (simp add: block_ok_def)
qed

lemma disk_ok_grown:
  assumes ok: "disk_ok (put_inode i inode st)" and i: "i < 8"
    and use: "inode_freelist (d_super st) ! i = INODE_IN_USE" and k: "k < 4" "i_direct_blocks inode ! k = -1"
    and b: "b < 30" "datablock_freelist (d_super st) ! b = DATA_BLOCK_FREE"
  shows "disk_ok (put_inode i (grown_inode k b inode) (grown b st))"
proof -
  let ?st = "put_inode i inode st"
  note D = disk_okD [OF ok]
  have ino: "d_inodes ?st ! i = inode" using D(5) i by simp
  have io: "inode_ok st inode" using D(7) [OF i] ino by simp
  have other: "inode_ok st (d_inodes st ! j)" if "j < 8" "j \<noteq> i" for j
    using D(7) [OF that(1)] that by simp
  have fl: "length (datablock_freelist (d_super st)) = 30" using D(4) by simp
  have len: "length (i_direct_blocks inode) = 4" using io by (simp add: inode_ok_def)
  note own = owned_grown [OF len k, of b]
  have "inode_ok (grown b st) (d_inodes (put_inode i (grown_inode k b inode) (grown b st)) ! j)" if "j < 8" for j
    using that D(5) i inode_ok_grown [OF io k fl b(1) free_block_unowned [OF io b(2)]]
      inode_ok_grown_other [OF other fl]
    by (cases "j = i") (simp_all add: grown_def)
  moreover have "int b \<notin> owned (d_inodes st ! j)" if "j < 8" "j \<noteq> i" for j
    by (rule free_block_unowned [OF other [OF that] b(2)])
  moreover have "owned inode \<inter> owned (d_inodes st ! j) = {}" if "j < 8" "j \<noteq> i" for j
    using D(10) [OF i that(1)] that ino by auto
  moreover have "owned (d_inodes st ! a) \<inter> owned (d_inodes st ! j) = {}"
    if "a < 8" "j < 8" "a \<noteq> j" "a \<noteq> i" "j \<noteq> i" for a j
    using D(10) [OF that(1-3)] that(4,5) by simp
  ultimately show ?thesis
    using ok D(5) i use own set_update_subset_insert [of "d_blocks st" b "replicate 64 NUL"]
    unfolding disk_ok_def by (auto simp: grown_def nth_list_update)
qed

lemma free_blocks_grown:
  assumes "b < length (datablock_freelist (d_super st))" "datablock_freelist (d_super st) ! b = DATA_BLOCK_FREE"
  shows "free_blocks st = Suc (free_blocks (grown b st))"
  using assms slots_take [of b _ "\<lambda>c. c = DATA_BLOCK_FREE" DATA_BLOCK_USED] by (simp add: free_blocks_def grown_def)

text \<open>\<open>wrote i off data inode st inode' st'\<close>: with the local copy \<open>inode\<close> of inode \<open>i\<close>, the code has
  written \<open>data\<close> at \<open>off\<close> of the file and ended with the copy \<open>inode'\<close>; apart from the contents of the
  file only the free list of the data blocks has changed, by the number of new blocks.\<close>

definition wrote :: "nat \<Rightarrow> nat \<Rightarrow> char list \<Rightarrow> inode_t \<Rightarrow> ssufs \<Rightarrow> inode_t \<Rightarrow> ssufs \<Rightarrow> bool" where
  "wrote i off data inode st inode' st' \<longleftrightarrow>
     disk_ok (put_inode i inode' st') \<and> d_inodes st' = d_inodes st \<and>
     inode_freelist (d_super st') = inode_freelist (d_super st) \<and>
     i_name inode' = i_name inode \<and> i_status inode' = i_status inode \<and>
     (\<forall>pos < 256. fbyte inode' (d_blocks st') pos = write_spec (fbyte inode (d_blocks st)) off data pos) \<and>
     (\<forall>j < 8. j \<noteq> i \<longrightarrow> (\<forall>pos < 256. fbyte (d_inodes st ! j) (d_blocks st') pos = fbyte (d_inodes st ! j) (d_blocks st) pos)) \<and>
     free_blocks st = free_blocks st' + need inode off (length data) \<and>
     owned inode \<subseteq> owned inode'"

lemma fbyte_None: "fbyte inode bs pos = None \<longleftrightarrow> i_direct_blocks inode ! (pos div 64) = -1"
  by (simp add: fbyte_def Let_def)

lemma wrote_direct:
  assumes "wrote i off data inode st inode' st'" and "k < 4"
  shows "i_direct_blocks inode' ! k = -1 \<longleftrightarrow> i_direct_blocks inode ! k = -1 \<and> \<not> touched off (length data) k"
proof -
  have "64 * k < 256" using assms(2) by simp
  then have e: "fbyte inode' (d_blocks st') (64 * k) = write_spec (fbyte inode (d_blocks st)) off data (64 * k)"
    using assms(1) unfolding wrote_def by blast
  have "off \<le> 64 * k \<and> 64 * k < off + length data \<Longrightarrow> touched off (length data) k"
    by (auto simp: touched_def)
  moreover have "i_direct_blocks inode' ! k = -1 \<longleftrightarrow> fbyte inode' (d_blocks st') (64 * k) = None"
    "i_direct_blocks inode ! k = -1 \<longleftrightarrow> fbyte inode (d_blocks st) (64 * k) = None"
    by (simp_all add: fbyte_None)
  ultimately show ?thesis unfolding e by (auto simp: write_spec_def)
qed

lemma wrote_refl: "disk_ok (put_inode i inode st) \<Longrightarrow> wrote i off [] inode st inode st"
  by (simp add: wrote_def need_def touched_def slots_def)

lemma wrote_trans:
  assumes 1: "wrote i off d1 inode st inode1 st1" and ne: "d1 \<noteq> []"
    and 2: "wrote i (off + length d1) d2 inode1 st1 inode2 st2"
  shows "wrote i off (d1 @ d2) inode st inode2 st2"
proof -
  have "need inode off (length d1 + length d2) = need inode off (length d1) + need inode1 (off + length d1) (length d2)"
    by (rule need_step) (rule wrote_direct [OF 1])
  moreover have "write_spec (fbyte inode1 (d_blocks st1)) (off + length d1) d2 pos =
      write_spec (fbyte inode (d_blocks st)) off (d1 @ d2) pos" if "pos < 256" for pos
  proof -
    have "fbyte inode1 (d_blocks st1) pos = write_spec (fbyte inode (d_blocks st)) off d1 pos"
      using 1 that unfolding wrote_def by blast
    then have "write_spec (fbyte inode1 (d_blocks st1)) (off + length d1) d2 pos =
        write_spec (write_spec (fbyte inode (d_blocks st)) off d1) (off + length d1) d2 pos"
      by (simp add: write_spec_def)
    then show ?thesis using write_spec_append [OF ne] by simp
  qed
  ultimately show ?thesis using 1 2 unfolding wrote_def by auto
qed

lemma fbyte_other_block:
  assumes ok: "inode_ok st x" and b: "int b \<notin> owned x" and pos: "pos < 256"
  shows "fbyte x (bs[b := c]) pos = fbyte x bs pos"
proof -
  let ?d = "i_direct_blocks x ! (pos div 64)"
  have "pos div 64 < 4" using pos by simp
  then have m: "?d \<in> set (i_direct_blocks x)" using ok by (simp add: inode_ok_def)
  have "nat ?d \<noteq> b" if "?d \<noteq> -1"
  proof
    assume "nat ?d = b"
    have "?d \<in> owned x" using m that by (simp add: owned_def)
    then have "0 \<le> ?d" using ok by (auto simp: inode_ok_def block_ok_def)
    with \<open>nat ?d = b\<close> \<open>?d \<in> owned x\<close> b show False by auto
  qed
  then have "?d \<noteq> -1 \<longrightarrow> b \<noteq> nat ?d" by blast
  then show ?thesis by (simp add: fbyte_def Let_def)
qed

lemma direct_inj:
  assumes "distinct (filter P xs)" and "P (xs ! j)" and "xs ! j = xs ! k" and "j < length xs" "k < length xs"
  shows "j = k"
  using assms
proof (induction xs arbitrary: j k)
  case (Cons x xs)
  show ?case
  proof (cases "j = 0 \<or> k = 0")
    case True
    with Cons.prems show ?thesis
      by (cases j; cases k) (auto dest: nth_mem)
  next
    case False
    then obtain j' k' where "j = Suc j'" "k = Suc k'" by (metis not0_implies_Suc)
    with Cons show ?thesis by (auto split: if_splits)
  qed
qed simp

definition put_block :: "nat \<Rightarrow> char list \<Rightarrow> ssufs \<Rightarrow> ssufs" where
  "put_block b c st = st\<lparr>d_blocks := (d_blocks st)[b := c]\<rparr>"

lemma disk_ok_put_block:
  assumes "disk_ok (put_inode i inode st)" and "length c = 64"
  shows "disk_ok (put_inode i inode (put_block b c st))"
  using assms set_update_subset_insert [of "d_blocks st" b c]
  by (auto simp: disk_ok_def put_block_def inode_ok_def block_ok_def)

lemma patch_wrote:
  assumes ok: "disk_ok (put_inode i inode st)" and i: "i < 8"
    and b: "i_direct_blocks inode ! k \<noteq> -1" "nat (i_direct_blocks inode ! k) = b"
    and k: "off div 64 = k" "k < 4" and data: "0 < length data" "off + length data \<le> 64 * (k + 1)"
  shows "wrote i off data inode st inode (put_block b (patch (d_blocks st ! b) (off mod 64) data) st)"
proof -
  note D = disk_okD [OF ok]
  let ?c = "patch (d_blocks st ! b) (off mod 64) data" and ?B = "d_blocks st"
  have ino: "d_inodes (put_inode i inode st) ! i = inode" using D(5) i by simp
  have io: "inode_ok st inode" using D(7) [OF i] ino by simp
  then have len: "length (i_direct_blocks inode) = 4" by (simp add: inode_ok_def)
  have own: "i_direct_blocks inode ! k \<in> owned inode" using b len k by (simp add: owned_def)
  then have bo: "block_ok st (i_direct_blocks inode ! k)" using io by (simp add: inode_ok_def)
  have b30: "b < 30" "int b = i_direct_blocks inode ! k" using bo b by (auto simp: block_ok_def)
  have lb: "length (?B ! b) = 64" using D(8) [OF b30(1)] by simp
  have off: "off = 64 * k + off mod 64" using k(1) by (metis mult_div_mod_eq)
  have fit: "off mod 64 + length data \<le> 64" using off data distrib_left [of 64 k 1] by linarith
  have one: "\<And>j. touched off (length data) j \<longleftrightarrow> j = k" by (rule touched_one [OF k(1) data])
  have mine: "fbyte inode (?B[b := ?c]) pos = write_spec (fbyte inode ?B) off data pos" if "pos < 256" for pos
  proof (cases "pos div 64 = k")
    case True
    then have pos: "pos = 64 * k + pos mod 64" by (metis mult_div_mod_eq)
    have rng: "off \<le> pos \<and> pos < off + length data \<longleftrightarrow> off mod 64 \<le> pos mod 64 \<and> pos mod 64 < off mod 64 + length data"
      "pos - off = pos mod 64 - off mod 64" using off pos by linarith+
    have "pos mod 64 < length (?B ! b)" using lb by simp
    then have "?c ! (pos mod 64) = (if off \<le> pos \<and> pos < off + length data then data ! (pos - off) else ?B ! b ! (pos mod 64))"
      using nth_patch [of "off mod 64" data "?B ! b" "pos mod 64"] fit lb rng by simp
    then show ?thesis
      using True b b30(1) D(6) by (simp add: fbyte_def write_spec_def Let_def)
  next
    case False
    then have "\<not> (off \<le> pos \<and> pos < off + length data)" using k(1) data by auto
    moreover have "i_direct_blocks inode ! (pos div 64) \<noteq> -1 \<longrightarrow> b \<noteq> nat (i_direct_blocks inode ! (pos div 64))"
    proof (intro impI notI)
      assume n: "i_direct_blocks inode ! (pos div 64) \<noteq> -1" and e: "b = nat (i_direct_blocks inode ! (pos div 64))"
      have p4: "pos div 64 < 4" using that by simp
      then have "i_direct_blocks inode ! (pos div 64) \<in> owned inode" using n len by (simp add: owned_def)
      then have "i_direct_blocks inode ! (pos div 64) = i_direct_blocks inode ! k"
        using io e b30(2) by (auto simp: inode_ok_def block_ok_def)
      with direct_inj [of "\<lambda>b. b \<noteq> -1" "i_direct_blocks inode" "pos div 64" k] n io p4 k len False
      show False by (auto simp: inode_ok_def)
    qed
    ultimately show ?thesis using False one by (auto simp: write_spec_def fbyte_def Let_def)
  qed
  have others: "fbyte (d_inodes st ! j) (?B[b := ?c]) pos = fbyte (d_inodes st ! j) ?B pos"
    if "j < 8" "j \<noteq> i" "pos < 256" for j pos
  proof (rule fbyte_other_block [OF _ _ that(3)])
    show "inode_ok st (d_inodes st ! j)" using D(7) [OF that(1)] that(2) by simp
    have "owned (d_inodes st ! j) \<inter> owned inode = {}" using D(10) [OF that(1) i that(2)] that(2) ino by simp
    then show "int b \<notin> owned (d_inodes st ! j)" using own b30(2) by auto
  qed
  have "need inode off (length data) = 0"
    using b(1) unfolding need_def one slots_zero_iff by blast
  moreover have "length ?c = 64" using lb fit by simp
  ultimately show ?thesis
    unfolding wrote_def using disk_ok_put_block [OF ok] mine others
    by (simp add: put_block_def free_blocks_def)
qed

lemma grow_wrote:
  assumes ok: "disk_ok (put_inode i inode st)" and i: "i < 8" and k: "k < 4" "i_direct_blocks inode ! k = -1"
    and b: "b < 30" "datablock_freelist (d_super st) ! b = DATA_BLOCK_FREE"
    and one: "\<And>j. touched off (length data) j \<longleftrightarrow> j = k"
    and w: "wrote i off data (grown_inode k b inode) (grown b st) inode2 st2"
  shows "wrote i off data inode st inode2 st2"
proof -
  note D = disk_okD [OF ok]
  have ino: "d_inodes (put_inode i inode st) ! i = inode" using D(5) i by simp
  have io: "inode_ok st inode" using D(7) [OF i] ino by simp
  then have len: "length (i_direct_blocks inode) = 4" by (simp add: inode_ok_def)
  have fb: "fbyte (grown_inode k b inode) (d_blocks (grown b st)) pos =
      (if pos div 64 = k then Some NUL else fbyte inode (d_blocks st) pos)" if "pos < 256" for pos
  proof (cases "pos div 64 = k")
    case True
    then show ?thesis using k len b(1) D(6) by (simp add: fbyte_def grown_inode_def grown_def)
  next
    case False
    then have "fbyte (grown_inode k b inode) (d_blocks (grown b st)) pos = fbyte inode ((d_blocks st)[b := replicate 64 NUL]) pos"
      by (simp add: fbyte_def grown_inode_def grown_def)
    with fbyte_other_block [OF io free_block_unowned [OF io b(2)] that] False show ?thesis by simp
  qed
  have none: "fbyte inode (d_blocks st) pos = None" if "pos div 64 = k" for pos
    using that k by (simp add: fbyte_None)
  have ws: "write_spec (fbyte (grown_inode k b inode) (d_blocks (grown b st))) off data pos =
      write_spec (fbyte inode (d_blocks st)) off data pos" if "pos < 256" for pos
    using fb [OF that] none [of pos] one by (simp add: write_spec_def)
  have "fbyte (d_inodes st ! j) (d_blocks (grown b st)) pos = fbyte (d_inodes st ! j) (d_blocks st) pos"
    if "j < 8" "j \<noteq> i" "pos < 256" for j pos
  proof -
    have "inode_ok st (d_inodes st ! j)" using D(7) [OF that(1)] that(2) by simp
    from fbyte_other_block [OF this free_block_unowned [OF this b(2)] that(3)] show ?thesis
      by (simp add: grown_def)
  qed
  moreover have "need inode off (length data) = 1"
  proof -
    have "{j. j < 4 \<and> j = k \<and> i_direct_blocks inode ! j = -1} = {k}" using k by auto
    then show ?thesis unfolding need_alt one by simp
  qed
  moreover have "need (grown_inode k b inode) off (length data) = 0"
    using k len unfolding need_def one slots_zero_iff by (auto simp: grown_inode_def)
  moreover have "free_blocks st = Suc (free_blocks (grown b st))"
    using b D(4) by (intro free_blocks_grown) simp_all
  moreover have "owned inode \<subseteq> owned (grown_inode k b inode)" using owned_grown [OF len k] by blast
  ultimately show ?thesis using w ws unfolding wrote_def by (auto simp: grown_def grown_inode_def)
qed

subsection \<open>The loop of a write\<close>

lemma set_offset_simps [simp]:
  "d_len (set_offset fh off st) = d_len st"
  "d_super (set_offset fh off st) = d_super st"
  "d_blocks (set_offset fh off st) = d_blocks st"
  "d_inodes (set_offset fh off st) = d_inodes st"
  "disk_ok (set_offset fh off st) = disk_ok st"
  "free_blocks (set_offset fh off st) = free_blocks st"
  "put_inode i inode (set_offset fh off st) = set_offset fh off (put_inode i inode st)"
  by (simp_all add: set_offset_def disk_ok_def inode_ok_def block_ok_def free_blocks_def put_inode_def handle_of_def)

lemma wrote_set_offset [simp]:
  "wrote i off data inode (set_offset fh o1 st) inode' st' = wrote i off data inode st inode' st'"
  by (simp add: wrote_def)

lemma writeDataBlock_ok:
  "block_ok st b \<Longrightarrow> ssufs_writeDataBlock b c st = Inr (put_block (nat b) c st)"
  by (auto simp: ssufs_writeDataBlock_def block_ok_def put_block_def NUM_DATA_BLOCKS_def max_def)

lemma handle_of_set_offset:
  "valid_handle fh \<Longrightarrow> length (file_handle_array st) = 20 \<Longrightarrow>
    handle_of (set_offset fh off st) fh = (handle_of st fh)\<lparr>fh_offset := off\<rparr>"
  by (simp add: handle_of_def set_offset_def valid_handle_def MAX_OPEN_FILES_def nat_less_iff)

lemma handles_put_block: "file_handle_array (put_block b c st) = file_handle_array st"
  by (simp add: put_block_def)

lemma jump_of_nat:
  assumes "off = 64 * k + r" and "r < 64"
  shows "jump_of (int off) (int n) = int (min (64 - r) n)"
proof -
  have "int off mod 64 = int r" using assms by simp
  then show ?thesis using assms(2) unfolding jump_of_def BLOCKSIZE_def min_def by simp arith
qed

lemma write_iter:
  assumes ok: "disk_ok (put_inode i inode st)" and i: "i < 8" and use: "inode_freelist (d_super st) ! i = INODE_IN_USE"
    and h: "fh_offset (handle_of st fh) = int off" and off: "off + n \<le> 256" and n: "0 < n" and buf: "wr + n \<le> length buf"
  defines "k \<equiv> off div 64" and "jump \<equiv> min (64 - off mod 64) n"
  defines "data \<equiv> take jump (drop wr buf)"
  shows "if i_direct_blocks inode ! k = -1 \<and> free_blocks st = 0
     then write_loop fh buf (int (wr + n)) (int wr) inode st = Inr (None, st)
     else \<exists>inode1 st1. wrote i off data inode st inode1 st1 \<and> file_handle_array st1 = file_handle_array st \<and>
       write_loop fh buf (int (wr + n)) (int wr) inode st =
       write_loop fh buf (int (wr + n)) (int (wr + jump)) inode1 (set_offset fh (int (off + jump)) st1)"
proof -
  note D = disk_okD [OF ok]
  have ino: "d_inodes (put_inode i inode st) ! i = inode" using D(5) i by simp
  have io: "inode_ok st inode" using D(7) [OF i] ino by simp
  then have len: "length (i_direct_blocks inode) = 4" by (simp add: inode_ok_def)
  have k4: "k < 4" using off n by (simp add: k_def)
  have kdef: "off div 64 = k" by (simp add: k_def)
  have offk: "off = 64 * k + off mod 64" by (simp add: k_def)
  have j: "jump_of (int off) (int n) = int jump" unfolding jump_def by (rule jump_of_nat [OF offk]) simp
  have jpos: "0 < jump" "jump \<le> n" using n by (simp_all add: jump_def)
  have dlen: "length data = jump" using buf jpos by (simp add: data_def)
  have fit: "off + length data \<le> 64 * (k + 1)" using offk dlen by (simp add: jump_def)
  have blk: "int off div 64 = int k" "int off mod 64 = int (off mod 64)"
    by (simp_all add: k_def zdiv_int zmod_int)
  have run: "write_loop fh buf (int (wr + n)) (int wr) inode st =
      ebind (write_block inode k st) (\<lambda>(res, st1). case res of None \<Rightarrow> Inr (None, st1)
        | Some (b, inode1) \<Rightarrow> ebind (ssufs_readDataBlock b st1) (\<lambda>tmp.
            ebind (ssufs_writeDataBlock b (patch tmp (off mod 64) data) st1) (\<lambda>st2.
              write_loop fh buf (int (wr + n)) (int (wr + jump)) inode1 (set_offset fh (int (off + jump)) st2))))"
    using n k4 jpos buf
    by (subst write_loop.simps) (simp add: h j blk BLOCKSIZE_def MAX_FILE_SIZE_def data_def Let_def cong: option.case_cong)
  have step: "write_loop fh buf (int (wr + n)) (int wr) inode st =
      write_loop fh buf (int (wr + n)) (int (wr + jump)) inode1 (set_offset fh (int (off + jump))
         (put_block (nat b) (patch (d_blocks st1 ! nat b) (off mod 64) data) st1))"
    if "write_block inode k st = Inr (Some (b, inode1), st1)" "block_ok st1 b" for b inode1 st1
    unfolding run using that by (simp add: readDataBlock_ok writeDataBlock_ok)
  show ?thesis
  proof (cases "i_direct_blocks inode ! k = -1")
    case False
    let ?b = "i_direct_blocks inode ! k"
    have "?b \<in> owned inode" using False len k4 by (simp add: owned_def)
    then have "block_ok st ?b" using io by (simp add: inode_ok_def)
    note s = step [OF write_block_have [OF False] this]
    have w: "wrote i off data inode st inode (put_block (nat ?b) (patch (d_blocks st ! nat ?b) (off mod 64) data) st)"
      using patch_wrote [OF ok i False refl kdef k4 _ fit] dlen jpos by simp
    have go: "\<not> (?b = -1 \<and> free_blocks st = 0)" using False by simp
    show ?thesis unfolding if_not_P [OF go] by (intro exI conjI, rule w, rule handles_put_block, rule s)
  next
    case True
    have fl: "length (datablock_freelist (d_super st)) = 30" "64 \<le> d_len st" using D by simp_all
    show ?thesis
    proof (cases "find_slot (\<lambda>c. c = DATA_BLOCK_FREE) (datablock_freelist (d_super st))")
      case None
      then have "free_blocks st = 0" by (simp add: free_blocks_def find_slot_None slots_zero_iff)
      with True write_block_full [OF True fl(2)] run show ?thesis by simp
    next
      case (Some b)
      then have b: "b < 30" "datablock_freelist (d_super st) ! b = DATA_BLOCK_FREE"
        using find_slot_SomeD [OF Some] fl by auto
      have go: "\<not> (i_direct_blocks inode ! k = -1 \<and> free_blocks st = 0)" using free_blocks_grown [of b st] b fl by simp
      note ok1 = disk_ok_grown [OF ok i use k4 True b]
      have bo: "block_ok (grown b st) (int b)" using b fl by (simp add: block_ok_def grown_def)
      note s = step [OF write_block_new [OF True fl(2,1) Some] bo]
      have gk: "i_direct_blocks (grown_inode k b inode) ! k = int b" using len k4 by (simp add: grown_inode_def)
      have "wrote i off data (grown_inode k b inode) (grown b st) (grown_inode k b inode)
          (put_block b (patch (d_blocks (grown b st) ! b) (off mod 64) data) (grown b st))"
        by (rule patch_wrote [OF ok1 i _ _ kdef k4 _ fit]) (simp_all add: gk dlen jpos)
      from grow_wrote [OF ok i k4 True b _ this] touched_one [OF kdef _ fit] dlen jpos
      have w: "wrote i off data inode st (grown_inode k b inode)
          (put_block (nat (int b)) (patch (d_blocks (grown b st) ! nat (int b)) (off mod 64) data) (grown b st))"
        unfolding nat_int by blast
      have "file_handle_array (put_block c x (grown b st)) = file_handle_array st" for c x
        by (simp add: put_block_def grown_def)
      with w s go show ?thesis unfolding if_not_P [OF go] by blast
    qed
  qed
qed

lemma wrote_inuse: "wrote i off data inode st inode' st' \<Longrightarrow> inode_freelist (d_super st') = inode_freelist (d_super st)"
  by (simp add: wrote_def)

lemma set_offset_twice:
  assumes "file_handle_array st1 = file_handle_array st"
  shows "file_handle_array (set_offset fh o2 (set_offset fh o1 st1)) = file_handle_array (set_offset fh o2 st)"
  using assms by (cases "nat fh < length (file_handle_array st)") (simp_all add: set_offset_def handle_of_def list_update_beyond)

lemma write_loop_spec:
  assumes "disk_ok (put_inode i inode st)" and i: "i < 8" and "inode_freelist (d_super st) ! i = INODE_IN_USE"
    and fh: "valid_handle fh" and "length (file_handle_array st) = 20"
    and "fh_offset (handle_of st fh) = int off" and "off + n \<le> 256" and "wr + n \<le> length buf"
  shows "if need inode off n \<le> free_blocks st
     then \<exists>inode' st'. write_loop fh buf (int (wr + n)) (int wr) inode st = Inr (Some inode', st') \<and>
       wrote i off (take n (drop wr buf)) inode st inode' st' \<and>
       file_handle_array st' = file_handle_array (set_offset fh (int (off + n)) st)
     else \<exists>st'. write_loop fh buf (int (wr + n)) (int wr) inode st = Inr (None, st') \<and>
       free_blocks st' = 0 \<and> d_inodes st' = d_inodes st"
  using assms
proof (induction n arbitrary: off wr inode st rule: less_induct)
  case (less n)
  note ok = less.prems(1) and use = less.prems(3) and h20 = less.prems(5) and h = less.prems(6)
    and off = less.prems(7) and buf = less.prems(8)
  show ?case
  proof (cases "n = 0")
    case True
    have "(handle_of st fh)\<lparr>fh_offset := int off\<rparr> = handle_of st fh" using h by simp
    then have "file_handle_array (set_offset fh (int off) st) = file_handle_array st"
      by (simp add: set_offset_def) (simp add: handle_of_def)
    then show ?thesis using True wrote_refl [OF ok]
      by (subst write_loop.simps) (simp add: need_def touched_def slots_def write_loop.simps)
  next
    case False
    define j where "j = min (64 - off mod 64) n"
    let ?k = "off div 64"
    let ?data = "take j (drop wr buf)"
    have j: "0 < j" "j \<le> n" "length ?data = j" using False buf by (auto simp: j_def)
    have iter: "if i_direct_blocks inode ! ?k = -1 \<and> free_blocks st = 0
       then write_loop fh buf (int (wr + n)) (int wr) inode st = Inr (None, st)
       else \<exists>inode1 st1. wrote i off ?data inode st inode1 st1 \<and> file_handle_array st1 = file_handle_array st \<and>
         write_loop fh buf (int (wr + n)) (int wr) inode st =
         write_loop fh buf (int (wr + n)) (int (wr + j)) inode1 (set_offset fh (int (off + j)) st1)"
      using write_iter [OF ok i use h off _ buf] False unfolding j_def by blast
    show ?thesis
    proof (cases "i_direct_blocks inode ! ?k = -1 \<and> free_blocks st = 0")
      case True
      have "?k < 4" "touched off n ?k" using False off by (auto simp: touched_def)
      with True have "need inode off n \<noteq> 0" unfolding need_def slots_zero_iff by auto
      with True iter show ?thesis by auto
    next
      case go: False
      with iter obtain inode1 st1 where w: "wrote i off ?data inode st inode1 st1"
        and ha: "file_handle_array st1 = file_handle_array st"
        and run: "write_loop fh buf (int (wr + n)) (int wr) inode st =
         write_loop fh buf (int (wr + n)) (int (wr + j)) inode1 (set_offset fh (int (off + j)) st1)" by auto
      let ?st = "set_offset fh (int (off + j)) st1"
      have ho: "handle_of ?st fh = (handle_of st1 fh)\<lparr>fh_offset := int (off + j)\<rparr>"
        using handle_of_set_offset [OF fh, of st1] ha h20 by simp
      have len: "length (file_handle_array ?st) = 20" using ha h20 by (simp add: set_offset_def)
      have nn: "j + (n - j) = n" using j by simp
      have IH: "if need inode1 (off + j) (n - j) \<le> free_blocks ?st
        then \<exists>inode' st'. write_loop fh buf (int (wr + j + (n - j))) (int (wr + j)) inode1 ?st = Inr (Some inode', st') \<and>
          wrote i (off + j) (take (n - j) (drop (wr + j) buf)) inode1 ?st inode' st' \<and>
          file_handle_array st' = file_handle_array (set_offset fh (int (off + j + (n - j))) ?st)
        else \<exists>st'. write_loop fh buf (int (wr + j + (n - j))) (int (wr + j)) inode1 ?st = Inr (None, st') \<and>
          free_blocks st' = 0 \<and> d_inodes st' = d_inodes ?st"
      proof (rule less.IH)
        show "disk_ok (put_inode i inode1 ?st)" using w by (simp add: wrote_def)
        show "inode_freelist (d_super ?st) ! i = INODE_IN_USE" using use w by (simp add: wrote_inuse)
        show "fh_offset (handle_of ?st fh) = int (off + j)" unfolding ho by simp
        show "n - j < n" "off + j + (n - j) \<le> 256" "wr + j + (n - j) \<le> length buf" using j off buf by auto
      qed (use len i fh in auto)
      have need: "need inode off n = need inode off j + need inode1 (off + j) (n - j)"
        using need_step [OF wrote_direct [OF w], of "n - j"] nn unfolding j(3) by simp
      have fr: "free_blocks st = free_blocks st1 + need inode off j" "d_inodes st1 = d_inodes st"
        using w j(3) by (auto simp: wrote_def)
      have app: "take n (drop wr buf) = ?data @ take (n - j) (drop (wr + j) buf)"
        using take_add [of j "n - j" "drop wr buf"] nn by (simp add: add.commute)
      have asc: "wr + j + (n - j) = wr + n" "off + j + (n - j) = off + n" using nn by linarith+
      show ?thesis
      proof (cases "need inode off n \<le> free_blocks st")
        case True
        then have "need inode1 (off + j) (n - j) \<le> free_blocks ?st" using need fr by simp
        from IH [unfolded if_P [OF this] asc wrote_set_offset] obtain inode' st' where
          r: "write_loop fh buf (int (wr + n)) (int (wr + j)) inode1 ?st = Inr (Some inode', st')"
            "wrote i (off + length ?data) (take (n - j) (drop (wr + j) buf)) inode1 st1 inode' st'"
            "file_handle_array st' = file_handle_array (set_offset fh (int (off + n)) ?st)"
          unfolding j(3) by blast
        have "wrote i off (take n (drop wr buf)) inode st inode' st'"
          unfolding app by (rule wrote_trans [OF w _ r(2)]) (use j in auto)
        moreover have "file_handle_array st' = file_handle_array (set_offset fh (int (off + n)) st)"
          using r(3) set_offset_twice [OF ha] by simp
        ultimately show ?thesis using True r(1) unfolding run by auto
      next
        case no: False
        then have "\<not> need inode1 (off + j) (n - j) \<le> free_blocks ?st" using need fr by simp
        from IH [unfolded if_not_P [OF this] asc] fr(2) no show ?thesis unfolding run by auto
      qed
    qed
  qed
qed


subsection \<open>Writing\<close>

text \<open>Handle \<open>fh\<close> is open on inode \<open>i\<close>, which is in use, with offset \<open>off\<close>.\<close>

definition open_on :: "ssufs \<Rightarrow> int \<Rightarrow> nat \<Rightarrow> nat \<Rightarrow> bool" where
  "open_on st fh i off \<longleftrightarrow> valid_handle fh \<and> length (file_handle_array st) = 20 \<and>
     fh_offset (handle_of st fh) = int off \<and> fh_inode_number (handle_of st fh) = int i \<and> i < 8 \<and>
     inode_freelist (d_super st) ! i = INODE_IN_USE"

lemma open_on_moved:
  assumes "open_on st fh i off" and "file_handle_array st' = file_handle_array (set_offset fh (int off') st)"
    and "inode_freelist (d_super st') = inode_freelist (d_super st)"
  shows "open_on st' fh i off'"
proof -
  have "handle_of st' fh = handle_of (set_offset fh (int off') st) fh" using assms(2) by (simp add: handle_of_def)
  then show ?thesis
    using assms handle_of_set_offset [of fh st "int off'"] by (simp add: open_on_def) (simp add: set_offset_def)
qed

lemma put_inode_same: "i < length (d_inodes st) \<Longrightarrow> put_inode i (d_inodes st ! i) st = st"
  by (simp add: put_inode_def)

lemma write_run:
  assumes ok: "disk_ok st" and op: "open_on st fh i off" and buf: "n \<le> length buf" "NUL \<in> set buf"
  shows "\<exists>r st'. ssufs_write fh buf (int n) st = Inr (r, st') \<and>
    (if 256 < off + n then r = -1 \<and> st' = st
     else if free_blocks st < need (d_inodes st ! i) off n
     then r = -1 \<and> free_blocks st' = 0 \<and> d_inodes st' = d_inodes st
     else r = 0 \<and> disk_ok st' \<and> open_on st' fh i (off + n) \<and>
       (\<forall>pos < 256. file_byte st' i pos = write_spec (file_byte st i) off (take n buf) pos) \<and>
       (\<forall>j < 8. j \<noteq> i \<longrightarrow> (\<forall>pos < 256. file_byte st' j pos = file_byte st j pos)) \<and>
       free_blocks st = free_blocks st' + need (d_inodes st ! i) off n)"
proof (cases "256 < off + n")
  case True
  with assms show ?thesis
    by (auto simp: ssufs_write_def open_on_def BLOCKSIZE_def)
next
  case False
  let ?inode = "d_inodes st ! i"
  have o: "valid_handle fh" "length (file_handle_array st) = 20" "fh_offset (handle_of st fh) = int off"
    "fh_inode_number (handle_of st fh) = int i" "i < 8" "inode_freelist (d_super st) ! i = INODE_IN_USE"
    using op by (auto simp: open_on_def)
  have run: "ssufs_write fh buf (int n) st =
      ebind (write_loop fh buf (int n) 0 ?inode st) (\<lambda>(res, st1). case res of None \<Rightarrow> Inr (-1, st1)
        | Some inode1 \<Rightarrow> ebind (ssufs_writeInode (int i) inode1 st1) (\<lambda>st2. Inr (0, st2)))"
    using False o ok buf by (simp add: ssufs_write_def BLOCKSIZE_def)
  have ok': "disk_ok (put_inode i ?inode st)" using ok o(5) disk_okD(5) [OF ok] by (simp add: put_inode_same)
  have fit: "off + n \<le> 256" "0 + n \<le> length buf" using False buf by auto
  note spec = write_loop_spec [OF ok' o(5,6,1,2,3) fit, simplified]
  show ?thesis
  proof (cases "need ?inode off n \<le> free_blocks st")
    case True
    with spec obtain inode' st' where w: "write_loop fh buf (int n) 0 ?inode st = Inr (Some inode', st')"
      "wrote i off (take n buf) ?inode st inode' st'"
      "file_handle_array st' = file_handle_array (set_offset fh (int off + int n) st)" by auto
    have dk: "disk_ok (put_inode i inode' st')" using w(2) by (simp add: wrote_def)
    then have l: "320 \<le> d_len st'" "length (d_inodes st') = 8" using disk_okD(1,5) [OF dk] by simp_all
    have "open_on (put_inode i inode' st') fh i (off + n)"
      by (rule open_on_moved [OF op]) (use w in \<open>simp_all add: wrote_def\<close>)
    moreover have "ssufs_write fh buf (int n) st = Inr (0, put_inode i inode' st')"
      unfolding run using w(1) writeInode_ok [OF l(1) o(5)] by (simp add: put_inode_def)
    ultimately show ?thesis
      using False True w(2) o(5) l(2) min.absorb2 [OF buf(1)] by (auto simp: wrote_def file_byte_def)
  next
    case no: False
    with spec run False show ?thesis by auto
  qed
qed

text \<open>C11: \<open>ssufs_write\<close> of \<open>n\<close> bytes through a handle on a file, when the disk has the blocks for it or the file would grow beyond its limit:
  it never fails an assertion. Up to 256 bytes it returns 0, the file's contents are
  updated exactly at the written range (new blocks are NUL elsewhere), the other files are untouched,
  exactly the missing blocks are taken, the offset moves by \<open>n\<close> and the invariant of the disk is kept.
  Beyond 256 bytes it returns -1 and changes nothing. What happens with too few free blocks is \<open>ssufs_write_leaks_blocks\<close> below.\<close>

theorem ssufs_write_correct:
  assumes "disk_ok st" and "open_on st fh i off" and "n \<le> length buf" and "NUL \<in> set buf"
    and room: "off + n \<le> 256 \<Longrightarrow> need (d_inodes st ! i) off n \<le> free_blocks st"
  shows "\<exists>r st'. ssufs_write fh buf (int n) st = Inr (r, st') \<and>
    (if 256 < off + n then r = -1 \<and> st' = st
     else r = 0 \<and> disk_ok st' \<and> open_on st' fh i (off + n) \<and>
       (\<forall>pos < 256. file_byte st' i pos = write_spec (file_byte st i) off (take n buf) pos) \<and>
       (\<forall>j < 8. j \<noteq> i \<longrightarrow> (\<forall>pos < 256. file_byte st' j pos = file_byte st j pos)) \<and>
       free_blocks st = free_blocks st' + need (d_inodes st ! i) off n)"
proof -
  from write_run [OF assms(1-4)] obtain r st' where "ssufs_write fh buf (int n) st = Inr (r, st')"
    and "if 256 < off + n then r = -1 \<and> st' = st
     else if free_blocks st < need (d_inodes st ! i) off n
     then r = -1 \<and> free_blocks st' = 0 \<and> d_inodes st' = d_inodes st
     else r = 0 \<and> disk_ok st' \<and> open_on st' fh i (off + n) \<and>
       (\<forall>pos < 256. file_byte st' i pos = write_spec (file_byte st i) off (take n buf) pos) \<and>
       (\<forall>j < 8. j \<noteq> i \<longrightarrow> (\<forall>pos < 256. file_byte st' j pos = file_byte st j pos)) \<and>
       free_blocks st = free_blocks st' + need (d_inodes st ! i) off n" by blast
  then show ?thesis using room by (intro exI [of _ r] exI [of _ st']) (auto split: if_splits)
qed

text \<open>A write that finds too few free blocks returns -1 but does not give back the blocks it had
  already taken: afterwards no block of the disk is free, although no inode has changed. The
  repository's README asks for the blocks to be released.\<close>

theorem ssufs_write_leaks_blocks:
  assumes "disk_ok st" and "open_on st fh i off" and "n \<le> length buf" and "NUL \<in> set buf" and "off + n \<le> 256"
    and "free_blocks st < need (d_inodes st ! i) off n"
  shows "\<exists>st'. ssufs_write fh buf (int n) st = Inr (-1, st') \<and> free_blocks st' = 0 \<and> d_inodes st' = d_inodes st"
  using write_run [OF assms(1-4)] assms(5,6) by (auto split: if_splits)

subsection \<open>Reading\<close>

definition file_size :: "ssufs \<Rightarrow> nat \<Rightarrow> int" where
  "file_size st i = i_file_size (d_inodes st ! i)"

lemma lseek_run:
  assumes ok: "disk_ok st" and op: "open_on st fh i off"
  shows "ssufs_lseek fh d st =
    Inr (if int off + d < 0 \<or> int off + d > file_size st i then (-1, st) else (0, set_offset fh (int off + d) st))"
proof -
  have "inode_ok st (d_inodes st ! i)" using op disk_okD(7) [OF ok] by (simp add: open_on_def)
  then have "i_file_size (d_inodes st ! i) \<noteq> -1" by (simp add: inode_ok_def)
  then show ?thesis using op ok by (simp add: ssufs_lseek_def open_on_def file_size_def)
qed

lemma set_offset_offset:
  assumes "valid_handle fh" and "length (file_handle_array st) = 20"
  shows "set_offset fh a (set_offset fh b st) = set_offset fh a st"
  using assms by (simp add: set_offset_def handle_of_def valid_handle_def MAX_OPEN_FILES_def nat_less_iff)

lemma file_byte_set_offset: "file_byte (set_offset fh off st) i = file_byte st i"
  by (simp add: file_byte_def)

lemma block_pos: "r < 64 \<Longrightarrow> (64 * k + r) div 64 = k \<and> (64 * k + r) mod 64 = (r::nat)"
  by simp

lemma read_loop_spec:
  assumes ok: "disk_ok st" and "open_on st fh i off" and "int (off + n) \<le> file_size st i"
    and "\<forall>pos. off \<le> pos \<and> pos < off + n \<longrightarrow> file_byte st i pos \<noteq> None" and "off + n \<le> 256"
  shows "read_loop fh (d_inodes st ! i) (int (rd + n)) (int rd) buf st =
    Inr (0, buf @ map (\<lambda>pos. the (file_byte st i pos)) [off..<off + n], if n = 0 then st else set_offset fh (int (off + n)) st)"
  using assms
proof (induction n arbitrary: off rd buf st rule: less_induct)
  case (less n)
  note ok = less.prems(1) and op = less.prems(2) and size = less.prems(3) and some = less.prems(4) and off = less.prems(5)
  let ?inode = "d_inodes st ! i"
  show ?case
  proof (cases "n = 0")
    case True
    then show ?thesis by (subst read_loop.simps) simp
  next
    case False
    define j where "j = min (64 - off mod 64) n"
    define k where "k = off div 64"
    have offk: "off = 64 * k + off mod 64" by (simp add: k_def)
    have j: "0 < j" "j \<le> n" "off mod 64 + j \<le> 64" using False by (auto simp: j_def)
    have jmp: "jump_of (int off) (int n) = int j" unfolding j_def by (rule jump_of_nat [OF offk]) simp
    have k4: "k < 4" using off False by (simp add: k_def)
    have o: "valid_handle fh" "length (file_handle_array st) = 20" "fh_offset (handle_of st fh) = int off"
      "i < 8" using op by (auto simp: open_on_def)
    have io: "inode_ok st ?inode" by (rule disk_okD(7) [OF ok o(4)])
    let ?b = "i_direct_blocks ?inode ! k"
    have "file_byte st i off \<noteq> None" using some False by simp
    then have b: "?b \<noteq> -1" by (simp add: file_byte_def fbyte_None k_def)
    have "?b \<in> owned ?inode" using b io k4 by (simp add: owned_def inode_ok_def)
    then have bo: "block_ok st ?b" using io by (simp add: inode_ok_def)
    let ?B = "d_blocks st ! nat ?b" and ?st = "set_offset fh (int (off + j)) st"
    have lb: "length ?B = 64" using disk_okD(8) [OF ok] bo by (simp add: block_ok_def nat_less_iff)
    have blk: "int off div 64 = int k" "int off mod 64 = int (off mod 64)"
      by (simp_all add: k_def zdiv_int zmod_int)
    have piece: "take j (drop (off mod 64) ?B) = map (\<lambda>pos. the (file_byte st i pos)) [off..<off + j]"
    proof (rule nth_equalityI)
      show "length (take j (drop (off mod 64) ?B)) = length (map (\<lambda>pos. the (file_byte st i pos)) [off..<off + j])"
        using lb j by simp
      fix x assume "x < length (take j (drop (off mod 64) ?B))"
      then have x: "x < j" by simp
      have "off mod 64 + x < 64" using x j by simp
      moreover have "off + x = 64 * k + (off mod 64 + x)" using offk by simp
      ultimately have "(off + x) div 64 = k" "(off + x) mod 64 = off mod 64 + x"
        using block_pos [of "off mod 64 + x" k] by metis+
      with x b lb j show "take j (drop (off mod 64) ?B) ! x = map (\<lambda>pos. the (file_byte st i pos)) [off..<off + j] ! x"
        by (simp add: file_byte_def fbyte_def Let_def)
    qed
    have "\<not> (int off + int j < 0 \<or> int off + int j > file_size st i)" using size j by linarith
    then have seek: "ssufs_lseek fh (int j) st = Inr (0, ?st)"
      using lseek_run [OF ok op, of "int j"] by simp
    have run: "read_loop fh ?inode (int (rd + n)) (int rd) buf st =
        read_loop fh ?inode (int (rd + j + (n - j))) (int (rd + j)) (buf @ take j (drop (off mod 64) ?B)) ?st"
      using False k4 j o seek
      by (subst read_loop.simps) (simp add: jmp blk BLOCKSIZE_def MAX_FILE_SIZE_def readDataBlock_ok [OF bo] Let_def)
    have op': "open_on ?st fh i (off + j)"
      by (rule open_on_moved [OF op]) simp_all
    have fb: "file_byte ?st i = file_byte st i" "file_size ?st i = file_size st i"
      by (simp_all add: file_byte_set_offset file_size_def)
    have "read_loop fh (d_inodes ?st ! i) (int (rd + j + (n - j))) (int (rd + j)) (buf @ take j (drop (off mod 64) ?B)) ?st =
        Inr (0, (buf @ take j (drop (off mod 64) ?B)) @ map (\<lambda>pos. the (file_byte ?st i pos)) [off + j..<off + j + (n - j)],
          if n - j = 0 then ?st else set_offset fh (int (off + j + (n - j))) ?st)"
      by (rule less.IH) (use ok op' size some off j fb in auto)
    moreover have "off + j + (n - j) = off + n" using j by simp
    moreover have "[off..<off + n] = [off..<off + j] @ [off + j..<off + n]"
      using upt_add_eq_append [of off "off + j" "n - j"] j by simp
    ultimately show ?thesis
      using False j set_offset_offset [OF o(1,2)] unfolding run
      by (cases "n = j") (simp_all add: piece file_byte_set_offset)
  qed
qed

lemma read_run:
  assumes ok: "disk_ok st" and op: "open_on st fh i off"
  shows "\<not> int (off + n) \<le> file_size st i \<Longrightarrow> ssufs_read fh (int n) st = Inr (-1, [], st)"
    and "int (off + n) \<le> file_size st i \<Longrightarrow> \<forall>pos. off \<le> pos \<and> pos < off + n \<longrightarrow> file_byte st i pos \<noteq> None \<Longrightarrow>
      ssufs_read fh (int n) st = Inr (0, map (\<lambda>pos. the (file_byte st i pos)) [off..<off + n],
        if n = 0 then st else set_offset fh (int (off + n)) st)"
proof -
  let ?inode = "d_inodes st ! i"
  have o: "valid_handle fh" "fh_offset (handle_of st fh) = int off"
    "fh_inode_number (handle_of st fh) = int i" "i < 8" using op by (auto simp: open_on_def)
  have io: "inode_ok st ?inode" by (rule disk_okD(7) [OF ok o(4)])
  have size: "file_size st i = 64 * int (slots (\<lambda>b. b \<noteq> -1) (i_direct_blocks ?inode))"
    using io by (simp add: inode_ok_def file_size_def)
  have run: "ssufs_read fh (int n) st =
      (if int (off + n) \<le> file_size st i then read_loop fh ?inode (int (0 + n)) (int 0) [] st else Inr (-1, [], st))"
    using o ok size unfolding ssufs_read_def by (auto simp: file_size_def BLOCKSIZE_def)
  show "\<not> int (off + n) \<le> file_size st i \<Longrightarrow> ssufs_read fh (int n) st = Inr (-1, [], st)" by (simp add: run)
  assume fit: "int (off + n) \<le> file_size st i" and some: "\<forall>pos. off \<le> pos \<and> pos < off + n \<longrightarrow> file_byte st i pos \<noteq> None"
  have "slots (\<lambda>b. b \<noteq> -1) (i_direct_blocks ?inode) \<le> 4"
    using slots_le_length [of _ "i_direct_blocks ?inode"] io by (metis inode_ok_def)
  then have "off + n \<le> 256" using fit size by linarith
  from read_loop_spec [OF ok op fit some this, of 0 "[]"] fit
  show "ssufs_read fh (int n) st = Inr (0, map (\<lambda>pos. the (file_byte st i pos)) [off..<off + n],
      if n = 0 then st else set_offset fh (int (off + n)) st)"
    unfolding run by simp
qed


text \<open>A file without holes: its blocks are the first ones.\<close>

definition dense :: "ssufs \<Rightarrow> nat \<Rightarrow> bool" where
  "dense st i \<longleftrightarrow> (\<forall>k < 4. i_direct_blocks (d_inodes st ! i) ! k \<noteq> -1 \<longleftrightarrow> int (64 * k) < file_size st i)"

lemma size_count:
  assumes "disk_ok st" and "i < 8" and "\<And>k. k < 4 \<Longrightarrow> i_direct_blocks (d_inodes st ! i) ! k \<noteq> -1 \<longleftrightarrow> k < m" and "m \<le> 4"
  shows "file_size st i = int (64 * m)"
proof -
  have io: "inode_ok st (d_inodes st ! i)" by (rule disk_okD(7) [OF assms(1,2)])
  have "slots (\<lambda>b. b \<noteq> -1) (i_direct_blocks (d_inodes st ! i)) = card {k. k < 4 \<and> i_direct_blocks (d_inodes st ! i) ! k \<noteq> -1}"
    using io by (simp add: slots_def length_filter_conv_card inode_ok_def)
  moreover have "k < 4 \<and> i_direct_blocks (d_inodes st ! i) ! k \<noteq> -1 \<longleftrightarrow> k < m" for k
    using assms(3) [of k] assms(4) by auto
  ultimately show ?thesis using io by (simp add: inode_ok_def file_size_def)
qed

lemma dense_blocks:
  assumes "disk_ok st" and "i < 8" and "dense st i"
  obtains m where "m \<le> 4" and "file_size st i = int (64 * m)"
    and "\<And>k. k < 4 \<Longrightarrow> i_direct_blocks (d_inodes st ! i) ! k \<noteq> -1 \<longleftrightarrow> k < m"
proof -
  let ?m = "slots (\<lambda>b. b \<noteq> -1) (i_direct_blocks (d_inodes st ! i))"
  have io: "inode_ok st (d_inodes st ! i)" by (rule disk_okD(7) [OF assms(1,2)])
  then have "file_size st i = int (64 * ?m)" by (simp add: inode_ok_def file_size_def)
  moreover have "?m \<le> 4" using slots_le_length [of _ "i_direct_blocks (d_inodes st ! i)"] io by (metis inode_ok_def)
  ultimately show thesis using assms(3) by (intro that [of ?m]) (auto simp: dense_def)
qed

lemma file_byte_direct: "i_direct_blocks (d_inodes st ! i) ! k \<noteq> -1 \<longleftrightarrow> file_byte st i (64 * k) \<noteq> None"
  by (simp add: file_byte_def fbyte_None)

lemma write_keeps_dense:
  assumes ok: "disk_ok st" "disk_ok st'" and i: "i < 8" and dn: "dense st i" and off: "int off \<le> file_size st i"
    and n: "0 < n" "n = length data" "off + n \<le> 256"
    and w: "\<forall>pos < 256. file_byte st' i pos = write_spec (file_byte st i) off data pos"
  shows "dense st' i \<and> int (off + n) \<le> file_size st' i"
proof -
  from dense_blocks [OF ok(1) i dn] obtain m where m: "m \<le> 4" "file_size st i = int (64 * m)"
    "\<And>k. k < 4 \<Longrightarrow> i_direct_blocks (d_inodes st ! i) ! k \<noteq> -1 \<longleftrightarrow> k < m" by blast
  define m' where "m' = max m ((off + n - 1) div 64 + 1)"
  have last: "(off + n - 1) div 64 < 4" using n by simp
  have om: "off \<le> 64 * m" using off m(2) by simp
  have d: "i_direct_blocks (d_inodes st' ! i) ! k \<noteq> -1 \<longleftrightarrow> k < m'" if k: "k < 4" for k
  proof -
    have "i_direct_blocks (d_inodes st' ! i) ! k \<noteq> -1 \<longleftrightarrow> k < m \<or> touched off n k"
      unfolding file_byte_direct using w k m(3) [OF k] unfolding file_byte_direct n(2)
      by (auto simp: write_spec_def touched_def)
    moreover have "touched off n k \<longleftrightarrow> off div 64 \<le> k \<and> k \<le> (off + n - 1) div 64"
      using n(1) div_less_iff_less_mult [of 64 off "k + 1"] less_eq_div_iff_mult_less_eq [of 64 k "off + n - 1"]
      by (auto simp: touched_def mult.commute)
    moreover have "off div 64 \<le> m" using om by simp
    ultimately show ?thesis unfolding m'_def by auto
  qed
  have m4: "m' \<le> 4" using m(1) last by (simp add: m'_def)
  have sz: "file_size st' i = int (64 * m')" by (rule size_count [OF ok(2) i d m4])
  have "off + n - 1 < 64 * ((off + n - 1) div 64 + 1)"
    using mult_div_mod_eq [of 64 "off + n - 1"] mod_less_divisor [of 64 "off + n - 1"] by simp
  moreover have "64 * ((off + n - 1) div 64 + 1) \<le> 64 * m'"
    unfolding m'_def by (rule mult_le_mono2) (rule max.cobounded2)
  ultimately have "off + n \<le> 64 * m'" by linarith
  with sz d show ?thesis by (auto simp: dense_def)
qed

text \<open>C2: What is written is read back: on a file without holes, with the offset inside the file, enough
  free blocks and room for \<open>n\<close> bytes, \<open>ssufs_write\<close> of \<open>n\<close> bytes, \<open>ssufs_lseek\<close> by \<open>-n\<close> and
  \<open>ssufs_read\<close> of \<open>n\<close> bytes all return 0, the bytes read are the bytes written, and the file still has
  no holes.\<close>

theorem ssufs_write_read_roundtrip:
  assumes "disk_ok st" and "open_on st fh i off" and "dense st i" and "int off \<le> file_size st i"
    and "0 < n" and "n \<le> length buf" and "NUL \<in> set buf" and "off + n \<le> 256"
    and "need (d_inodes st ! i) off n \<le> free_blocks st"
  shows "\<exists>st1 st2 st3. ssufs_write fh buf (int n) st = Inr (0, st1) \<and>
    ssufs_lseek fh (- int n) st1 = Inr (0, st2) \<and>
    ssufs_read fh (int n) st2 = Inr (0, take n buf, st3) \<and> disk_ok st3 \<and> dense st1 i"
proof -
  have i: "i < 8" using assms(2) by (simp add: open_on_def)
  from write_run [OF assms(1,2,6,7)] assms(8,9) obtain st1 where
    w: "ssufs_write fh buf (int n) st = Inr (0, st1)" "disk_ok st1" "open_on st1 fh i (off + n)"
      "\<forall>pos < 256. file_byte st1 i pos = write_spec (file_byte st i) off (take n buf) pos"
    by (auto split: if_splits)
  have len: "n = length (take n buf)" using assms(6) by simp
  have dn: "dense st1 i" "int (off + n) \<le> file_size st1 i"
    using write_keeps_dense [OF assms(1) w(2) i assms(3,4,5) len assms(8) w(4)] by simp_all
  define st2 where "st2 = set_offset fh (int off) st1"
  have seek: "ssufs_lseek fh (- int n) st1 = Inr (0, st2)"
    using lseek_run [OF w(2,3), of "- int n"] dn(2) by (simp add: st2_def)
  have ok2: "disk_ok st2" using w(2) by (simp add: st2_def)
  have op2: "open_on st2 fh i off" unfolding st2_def by (rule open_on_moved [OF w(3)]) simp_all
  have fb: "file_byte st2 i pos = Some (buf ! (pos - off))" if "off \<le> pos" "pos < off + n" for pos
    using w(4) that assms(6,8) by (simp add: st2_def file_byte_set_offset write_spec_def)
  have size2: "int (off + n) \<le> file_size st2 i" using dn(2) by (simp add: st2_def file_size_def)
  have "map (\<lambda>pos. the (file_byte st2 i pos)) [off..<off + n] = take n buf"
    using assms(6) fb by (intro nth_equalityI) simp_all
  with read_run(2) [OF ok2 op2 size2] fb have
    "ssufs_read fh (int n) st2 = Inr (0, take n buf, set_offset fh (int (off + n)) st2)"
    using assms(5) by simp
  moreover have "disk_ok (set_offset fh (int (off + n)) st2)" using ok2 by simp
  ultimately show ?thesis using w(1) seek dn(1) by blast
qed


subsection \<open>A disk to try the operations on\<close>

definition blank_fs :: ssufs where
  "blank_fs = projr (ssufs_formatDisk [NUL, NUL] (replicate 7 NUL))"

text \<open>The disk after formatting, \<open>ssufs_create("f1.txt")\<close> and \<open>ssufs_open("f1.txt")\<close>, as in
  \<open>ssufs_test.c\<close>.\<close>

definition demo_fs :: ssufs where
  "demo_fs = snd (ssufs_allocFileHandle (created_state ''f1.txt'' 0 blank_fs))"

lemma blank_fs_facts:
  "disk_ok blank_fs" "free_inodes blank_fs = 8" "free_blocks blank_fs = 30"
  "file_handle_array blank_fs = replicate 20 \<lparr>fh_offset = 0, fh_inode_number = -1\<rparr>"
  using formatDisk_ok [of "[NUL, NUL]" "replicate 7 NUL"] by (auto simp: blank_fs_def)

lemma disk_ok_handles [simp]: "disk_ok (st\<lparr>file_handle_array := hs\<rparr>) = disk_ok st"
  by (simp add: disk_ok_def inode_ok_def block_ok_def)

lemma allocFileHandle_first:
  assumes "file_handle_array st = \<lparr>fh_offset = 0, fh_inode_number = -1\<rparr> # hs"
  shows "ssufs_allocFileHandle st = (0, st\<lparr>file_handle_array := \<lparr>fh_offset = 0, fh_inode_number = 0\<rparr> # hs\<rparr>)"
  using assms by (simp add: ssufs_allocFileHandle_def)

lemma created_handles [simp]: "file_handle_array (created_state f i st) = file_handle_array st"
  by (simp add: created_state_def)

lemma demo_fs_eq:
  "demo_fs = (created_state ''f1.txt'' 0 blank_fs)\<lparr>file_handle_array :=
     \<lparr>fh_offset = 0, fh_inode_number = 0\<rparr> # replicate 19 \<lparr>fh_offset = 0, fh_inode_number = -1\<rparr>\<rparr>"
  unfolding demo_fs_def using blank_fs_facts(4)
  by (subst allocFileHandle_first [where hs = "replicate 19 \<lparr>fh_offset = 0, fh_inode_number = -1\<rparr>"])
    (simp_all add: replicate_app_Cons_same eval_nat_numeral)

lemma slots_none: "owned inode = {} \<Longrightarrow> slots (\<lambda>b. b \<noteq> -1) (i_direct_blocks inode) = 0"
  by (auto simp: slots_zero_iff owned_def)

lemma created_empty:
  assumes "disk_ok st" and "i < 8" and "inode_freelist (d_super st) ! i = INODE_FREE"
  shows "file_size (created_state f i st) i = 0"
    and "k < 4 \<Longrightarrow> i_direct_blocks (d_inodes (created_state f i st) ! i) ! k = -1"
proof -
  have io: "inode_ok st (d_inodes st ! i)" and own: "owned (d_inodes st ! i) = {}"
    using disk_okD(7,9) [OF assms(1,2)] assms(3) by simp_all
  have ino: "d_inodes (created_state f i st) ! i = (d_inodes st ! i)\<lparr>i_status := INODE_IN_USE, i_name := strncpy f 8\<rparr>"
    using assms(2) disk_okD(5) [OF assms(1)] by (simp add: created_state_def)
  show "file_size (created_state f i st) i = 0"
    using io slots_none [OF own] by (simp add: file_size_def ino inode_ok_def)
  show "k < 4 \<Longrightarrow> i_direct_blocks (d_inodes (created_state f i st) ! i) ! k = -1"
    using own io nth_mem [of k "i_direct_blocks (d_inodes st ! i)"]
    by (auto simp: ino owned_def inode_ok_def simp del: nth_mem)
qed

lemma blank_free: "i < 8 \<Longrightarrow> inode_freelist (d_super blank_fs) ! i = INODE_FREE"
proof -
  have "slots (\<lambda>c. c = INODE_FREE) (inode_freelist (d_super blank_fs)) = length (inode_freelist (d_super blank_fs))"
    using blank_fs_facts(2) disk_okD(3) [OF blank_fs_facts(1)] by (simp add: free_inodes_def)
  from slots_all [OF this] show "i < 8 \<Longrightarrow> inode_freelist (d_super blank_fs) ! i = INODE_FREE"
    using disk_okD(3) [OF blank_fs_facts(1)] by simp
qed

lemma demo_fs_facts:
  "disk_ok demo_fs" "open_on demo_fs 0 0 0" "dense demo_fs 0" "file_size demo_fs 0 = 0" "free_blocks demo_fs = 30"
  "need (d_inodes demo_fs ! 0) 0 3 \<le> 30"
proof -
  let ?c = "created_state ''f1.txt'' 0 blank_fs"
  note e = created_empty [of blank_fs 0, OF blank_fs_facts(1) _ blank_free, where f = "''f1.txt''"]
  show "disk_ok demo_fs" unfolding demo_fs_eq using created_disk_ok [OF blank_fs_facts(1), of 0] by simp
  have "inode_freelist (d_super ?c) ! 0 = INODE_IN_USE"
    using disk_okD(3) [OF blank_fs_facts(1)] by (simp add: created_state_def)
  then show "open_on demo_fs 0 0 0"
    unfolding open_on_def demo_fs_eq by (simp add: valid_handle_def MAX_OPEN_FILES_def handle_of_def)
  have fs: "file_size demo_fs 0 = file_size ?c 0" by (simp add: demo_fs_eq file_size_def)
  show "file_size demo_fs 0 = 0" using e(1) fs by simp
  show "dense demo_fs 0" using e fs by (simp add: dense_def demo_fs_eq file_size_def)
  show "free_blocks demo_fs = 30"
    using blank_fs_facts(3) by (simp add: demo_fs_eq free_blocks_def created_state_def)
  show "need (d_inodes demo_fs ! 0) 0 3 \<le> 30"
    unfolding need_def using slots_le_length [of _ "[0..<4]"] by (rule order_trans) simp
qed

theorem ssufs_write_correct_witness:
  "\<exists>st'. ssufs_write 0 [CHR ''a'', CHR ''b'', NUL] 3 demo_fs = Inr (0, st') \<and> file_byte st' 0 1 = Some (CHR ''b'')"
proof -
  have "need (d_inodes demo_fs ! 0) 0 3 \<le> free_blocks demo_fs" using demo_fs_facts(5,6) by simp
  with ssufs_write_correct [OF demo_fs_facts(1,2), of 3 "[CHR ''a'', CHR ''b'', NUL]"] show ?thesis
    by (auto simp: write_spec_def)
qed

theorem ssufs_write_read_roundtrip_witness:
  "\<exists>st1 st2 st3. ssufs_write 0 [CHR ''a'', CHR ''b'', NUL] 3 demo_fs = Inr (0, st1) \<and>
     ssufs_lseek 0 (- 3) st1 = Inr (0, st2) \<and>
     ssufs_read 0 3 st2 = Inr (0, [CHR ''a'', CHR ''b'', NUL], st3)"
  using ssufs_write_read_roundtrip [OF demo_fs_facts(1-3), of 3 "[CHR ''a'', CHR ''b'', NUL]"] demo_fs_facts(4-6)
  by auto


text \<open>A disk with one free block left, the other ones lost.\<close>

definition tight_fs :: ssufs where
  "tight_fs = demo_fs\<lparr>d_super := (d_super demo_fs)\<lparr>datablock_freelist := replicate 29 DATA_BLOCK_USED @ [DATA_BLOCK_FREE]\<rparr>\<rparr>"

lemma demo_fs_empty: "j < 8 \<Longrightarrow> owned (d_inodes demo_fs ! j) = {}"
proof -
  assume j: "j < 8"
  have d: "d_inodes demo_fs = d_inodes (created_state ''f1.txt'' 0 blank_fs)" by (simp add: demo_fs_eq)
  show ?thesis
  proof (cases "j = 0")
    case True
    have "length (i_direct_blocks (d_inodes demo_fs ! 0)) = 4"
      using disk_okD(7) [OF demo_fs_facts(1), of 0] by (simp add: inode_ok_def)
    with created_empty(2) [of blank_fs 0, OF blank_fs_facts(1) _ blank_free, where f = "''f1.txt''"] d True
    show ?thesis by (auto simp: owned_def in_set_conv_nth)
  next
    case False
    with j d show ?thesis
      using disk_okD(9) [OF blank_fs_facts(1) j blank_free [OF j]] disk_okD(5) [OF blank_fs_facts(1)]
      by (simp add: created_state_def)
  qed
qed

lemma tight_fs_facts: "disk_ok tight_fs" "open_on tight_fs 0 0 0" "free_blocks tight_fs = 1"
  "need (d_inodes tight_fs ! 0) 0 128 = 2"
proof -
  have "inode_ok tight_fs (d_inodes demo_fs ! j)" if "j < 8" for j
    using disk_okD(7) [OF demo_fs_facts(1) that] demo_fs_empty [OF that] by (simp add: inode_ok_def)
  then show "disk_ok tight_fs"
    using demo_fs_facts(1) unfolding disk_ok_def by (simp add: tight_fs_def)
  show "open_on tight_fs 0 0 0"
    using demo_fs_facts(2) by (simp add: open_on_def tight_fs_def handle_of_def)
  show "free_blocks tight_fs = 1" by (simp add: free_blocks_def tight_fs_def slots_def)
  have "\<forall>k < 4. i_direct_blocks (d_inodes demo_fs ! 0) ! k = -1"
    using demo_fs_facts(3,4) by (simp add: dense_def)
  then have "i_direct_blocks (d_inodes demo_fs ! 0) ! 0 = -1" "i_direct_blocks (d_inodes demo_fs ! 0) ! 1 = -1"
    "i_direct_blocks (d_inodes demo_fs ! 0) ! 2 = -1" "i_direct_blocks (d_inodes demo_fs ! 0) ! 3 = -1" by auto
  then show "need (d_inodes tight_fs ! 0) 0 128 = 2"
    by (simp add: need_def tight_fs_def touched_def upt_rec)
qed

theorem ssufs_write_leaks_blocks_witness:
  "\<exists>st'. ssufs_write 0 (replicate 128 NUL) 128 tight_fs = Inr (-1, st') \<and> free_blocks st' = 0 \<and>
     d_inodes st' = d_inodes tight_fs \<and> free_blocks tight_fs = 1"
  using ssufs_write_leaks_blocks [OF tight_fs_facts(1,2), of 128 "replicate 128 NUL"] tight_fs_facts(3,4) by simp

subsection \<open>Creating, deleting and opening files\<close>

text \<open>\<open>ssufs_create\<close> takes the first free inode for an empty file of the given name, keeps the
  invariant, leaves the other inodes and all data alone, and the name is found afterwards by
  \<open>open_namei\<close>; without a free inode it returns -1 and changes nothing.\<close>

theorem ssufs_create_correct:
  assumes "disk_ok st" and "NUL \<notin> set f" and "length f \<le> 8"
  shows "\<exists>r st'. ssufs_create f st = Inr (r, st') \<and> disk_ok st' \<and>
    (if free_inodes st = 0 then r = -1 \<and> st' = st
     else \<exists>i < 8. r = int i \<and> inode_freelist (d_super st) ! i = INODE_FREE \<and>
       (\<forall>j < i. inode_freelist (d_super st) ! j \<noteq> INODE_FREE) \<and>
       inode_freelist (d_super st') = (inode_freelist (d_super st))[i := INODE_IN_USE] \<and>
       Suc (free_inodes st') = free_inodes st \<and> has_name f (d_inodes st' ! i) \<and> file_size st' i = 0 \<and>
       (\<forall>j. j \<noteq> i \<longrightarrow> d_inodes st' ! j = d_inodes st ! j) \<and> d_blocks st' = d_blocks st \<and>
       (\<exists>k \<le> i. open_namei f st' = Inr (int k)))"
proof (cases "find_slot (\<lambda>c. c = INODE_FREE) (inode_freelist (d_super st))")
  case None
  with assms(1) create_run [OF assms(1), of f] show ?thesis
    by (simp add: find_slot_None free_inodes_def slots_zero_iff)
next
  case (Some i)
  let ?st = "created_state f i st"
  have i: "i < 8" "inode_freelist (d_super st) ! i = INODE_FREE" "\<forall>j < i. inode_freelist (d_super st) ! j \<noteq> INODE_FREE"
    using find_slot_SomeD [OF Some] disk_okD(3) [OF assms(1)] by auto
  have len: "length (inode_freelist (d_super st)) = 8" "length (d_inodes st) = 8" using disk_okD [OF assms(1)] by simp_all
  have ok: "disk_ok ?st" by (rule created_disk_ok [OF assms(1) i(1)])
  have fl: "inode_freelist (d_super ?st) = (inode_freelist (d_super st))[i := INODE_IN_USE]"
    by (simp add: created_state_def)
  have cnt: "Suc (free_inodes ?st) = free_inodes st"
    unfolding free_inodes_def fl using i len by (intro slots_take) simp_all
  have sz: "file_size ?st i = 0" by (rule created_empty(1) [OF assms(1) i(1,2)])
  have nm: "has_name f (d_inodes ?st ! i)"
    using sz i(1) len by (intro name_created [OF assms(2,3)]) (simp_all add: created_state_def file_size_def)
  have "\<exists>k \<le> i. open_namei f ?st = Inr (int k)"
  proof (cases rule: open_namei_cases [OF ok, of f])
    case (1 k)
    have "\<not> i < k" using 1(6) nm fl len i(1) by auto
    with 1(1) show ?thesis by auto
  next
    case 2
    with nm fl len i(1) assms(3) show ?thesis by auto
  qed
  moreover have "\<forall>j. j \<noteq> i \<longrightarrow> d_inodes ?st ! j = d_inodes st ! j" "d_blocks ?st = d_blocks st"
    by (simp_all add: created_state_def)
  ultimately show ?thesis
    using create_run [OF assms(1), of f] Some i ok fl cnt nm sz by auto
qed

theorem ssufs_create_correct_witness:
  "\<exists>i st'. ssufs_create ''f1.txt'' blank_fs = Inr (int i, st') \<and> disk_ok st' \<and> free_inodes st' = 7"
  using ssufs_create_correct [OF blank_fs_facts(1), of "''f1.txt''"] blank_fs_facts(2)
  by (auto simp: NUL_def)

text \<open>C16: \<open>ssufs_delete\<close> never fails an assertion: a name that is not found changes nothing; otherwise the
  inode found becomes free, exactly its data blocks become free, nothing else changes and the
  invariant is kept.\<close>

theorem ssufs_delete_correct:
  assumes "disk_ok st"
  shows "\<exists>r st'. open_namei f st = Inr r \<and> ssufs_delete f st = Inr st' \<and> disk_ok st' \<and>
    (if r = -1 then st' = st
     else 0 \<le> r \<and> r < 8 \<and> has_name f (d_inodes st ! nat r) \<and>
       inode_freelist (d_super st') = (inode_freelist (d_super st))[nat r := INODE_FREE] \<and>
       free_inodes st' = Suc (free_inodes st) \<and>
       free_blocks st' = free_blocks st + card (owned (d_inodes st ! nat r)) \<and>
       owned (d_inodes st' ! nat r) = {} \<and> (\<forall>j. j \<noteq> nat r \<longrightarrow> d_inodes st' ! j = d_inodes st ! j) \<and>
       d_blocks st' = d_blocks st \<and> file_handle_array st' = file_handle_array st)"
proof (cases rule: open_namei_cases [OF assms, of f])
  case (1 i)
  let ?st = "freed_state i st"
  have fl: "inode_freelist (d_super ?st) = (inode_freelist (d_super st))[i := INODE_FREE]"
    by (simp add: freed_state_def)
  have "free_inodes ?st = Suc (free_inodes st)"
    unfolding free_inodes_def fl using 1 disk_okD(3) [OF assms] by (intro slots_give) simp_all
  moreover have "owned (d_inodes ?st ! i) = {}" "\<forall>j. j \<noteq> i \<longrightarrow> d_inodes ?st ! j = d_inodes st ! j"
    using 1 disk_okD(5) [OF assms] by (simp_all add: freed_state_def owned_def)
  moreover have "ssufs_delete f st = Inr ?st"
    using 1 freeInode_run [OF assms] by (simp add: ssufs_delete_def)
  ultimately show ?thesis
    using 1 fl freed_disk_ok [OF assms 1(2)] by (simp add: freed_state_def)
next
  case 2
  with assms show ?thesis by (simp add: ssufs_delete_def)
qed

theorem ssufs_delete_correct_witness:
  "\<exists>r st'. ssufs_delete ''f1.txt'' demo_fs = Inr st' \<and> open_namei ''f1.txt'' demo_fs = Inr r \<and> disk_ok st'"
  using ssufs_delete_correct [OF demo_fs_facts(1), of "''f1.txt''"] by auto

text \<open>\<open>ssufs_open\<close> does not connect the handle with the file: for any file that is found, the first
  free handle \<open>h\<close> is returned and refers to inode \<open>h\<close>, whatever inode the file has. From handle 8 on
  there is no such inode, and reading or writing fails an assertion.\<close>

theorem ssufs_open_ignores_file:
  assumes "disk_ok st" and "open_namei f st = Inr (int i)"
    and "find_slot (\<lambda>h. fh_inode_number h = -1) (file_handle_array st) = Some h" and "length (file_handle_array st) = 20"
  shows "\<exists>st'. ssufs_open f st = Inr (int h, st') \<and> fh_inode_number (handle_of st' (int h)) = int h \<and>
    (8 \<le> h \<longrightarrow> ssufs_read (int h) n st' = Inl Assertion \<and> ssufs_write (int h) buf n st' = Inl Assertion)"
proof -
  let ?st = "st\<lparr>file_handle_array := (file_handle_array st)[h := \<lparr>fh_offset = 0, fh_inode_number = int h\<rparr>]\<rparr>"
  have h: "h < 20" using find_slot_bound [OF assms(3)] assms(4) by simp
  have run: "ssufs_open f st = Inr (int h, ?st)"
    using assms by (simp add: ssufs_open_def ssufs_allocFileHandle_def)
  have ho: "handle_of ?st (int h) = \<lparr>fh_offset = 0, fh_inode_number = int h\<rparr>"
    using h assms(4) by (simp add: handle_of_def)
  have "ssufs_readInode (int h) ?st = Inl Assertion" if "8 \<le> h"
    using that by (simp add: ssufs_readInode_def NUM_INODES_def)
  then show ?thesis using run ho h
    by (auto simp: ssufs_read_def ssufs_write_def valid_handle_def MAX_OPEN_FILES_def)
qed


definition two_fs :: ssufs where
  "two_fs = created_state ''b'' 1 (created_state ''a'' 0 blank_fs)"

lemma two_fs_facts: "disk_ok two_fs" "open_namei ''b'' two_fs = Inr (int 1)"
proof -
  let ?s0 = "created_state ''a'' 0 blank_fs"
  note B = disk_okD [OF blank_fs_facts(1)]
  have ok0: "disk_ok ?s0" by (rule created_disk_ok [OF blank_fs_facts(1)]) simp
  show ok: "disk_ok two_fs" unfolding two_fs_def by (rule created_disk_ok [OF ok0]) simp
  have fl0: "inode_freelist (d_super ?s0) = (inode_freelist (d_super blank_fs))[0 := INODE_IN_USE]"
    by (simp add: created_state_def)
  have fl: "inode_freelist (d_super two_fs) = (inode_freelist (d_super blank_fs))[0 := INODE_IN_USE, 1 := INODE_IN_USE]"
    by (simp add: two_fs_def created_state_def)
  have free1: "inode_freelist (d_super ?s0) ! 1 = INODE_FREE" using blank_free [of 1] by (simp add: fl0)
  have n1: "has_name ''b'' (d_inodes two_fs ! 1)"
  proof (rule name_created)
    show "i_file_size (d_inodes two_fs ! 1) = 0"
      using created_empty(1) [OF ok0 _ free1, of "''b''"] by (simp add: two_fs_def file_size_def)
  qed (use disk_okD(5) [OF ok0] in \<open>simp_all add: NUL_def two_fs_def created_state_def\<close>)
  have "has_name ''a'' (d_inodes two_fs ! 0)"
  proof (rule name_created)
    show "i_file_size (d_inodes two_fs ! 0) = 0"
      using created_empty(1) [of blank_fs 0 "''a''"] blank_free [of 0] blank_fs_facts(1)
      by (simp add: two_fs_def file_size_def created_state_def)
  qed (use B(5) in \<open>simp_all add: NUL_def two_fs_def created_state_def\<close>)
  then have n0: "\<not> has_name ''b'' (d_inodes two_fs ! 0)" by (auto simp: has_name_def)
  have use1: "inode_freelist (d_super two_fs) ! 1 = INODE_IN_USE" using B(3) by (simp add: fl)
  have other: "inode_freelist (d_super two_fs) ! i \<noteq> INODE_IN_USE" if "1 < i" "i < 8" for i
    using that blank_free [of i] by (simp add: fl)
  show "open_namei ''b'' two_fs = Inr (int 1)"
  proof (cases rule: open_namei_cases [OF ok, of "''b''"])
    case (1 i)
    have "\<not> 1 < i" using 1(2,4) other by blast
    moreover have "i \<noteq> 0" using 1(5) n0 by metis
    ultimately have "i = 1" by simp
    with 1(1) show ?thesis by simp
  next
    case 2
    with n1 use1 show ?thesis by auto
  qed
qed

theorem ssufs_open_ignores_file_witness:
  "\<exists>st'. open_namei ''b'' two_fs = Inr 1 \<and> ssufs_open ''b'' two_fs = Inr (0, st') \<and>
     fh_inode_number (handle_of st' 0) = 0"
proof -
  have h: "file_handle_array two_fs = replicate 20 \<lparr>fh_offset = 0, fh_inode_number = -1\<rparr>"
    by (simp add: two_fs_def blank_fs_facts(4))
  have "find_slot (\<lambda>h. fh_inode_number h = -1) (file_handle_array two_fs) = Some 0"
    unfolding h by (rule find_slot_SomeI) simp_all
  from ssufs_open_ignores_file [OF two_fs_facts this] h two_fs_facts(2) show ?thesis by simp
qed

lemma takeWhile_no: "\<forall>x \<in> set xs. P x \<Longrightarrow> takeWhile P (xs @ ys) = xs @ takeWhile P ys"
  by (induction xs) auto

text \<open>A file whose name has eight characters can no longer be found once it has data: \<open>name\<close> then has
  no terminating NUL and \<open>strcmp\<close> in \<open>open_namei\<close> reads on into \<open>file_size\<close>, whose first byte is not 0 for
  64, 128 or 192 bytes. So it can be neither opened nor deleted.\<close>

theorem eight_character_name_lost:
  assumes "length f = 8" and "NUL \<notin> set f" and "i_name inode = strncpy f 8" and "0 < i_file_size inode" "i_file_size inode < 256"
  shows "\<not> has_name f inode"
proof -
  let ?c = "char_of (i_file_size inode) :: char"
  have "of_char ?c = i_file_size inode" using assms(4,5) by simp
  moreover have "of_char NUL = (0::int)" by (simp add: NUL_def)
  ultimately have c: "?c \<noteq> NUL" using assms(4) by (metis less_irrefl)
  have "\<exists>bs. name_bytes inode = f @ ?c # bs"
    using assms(1,3) by (simp add: name_bytes_def strncpy_def le32_def)
  then obtain bs where "name_bytes inode = f @ ?c # bs" by blast
  moreover have "\<forall>x \<in> set f. x \<noteq> NUL" using assms(2) by auto
  ultimately have "c_string (name_bytes inode) = f @ ?c # takeWhile (\<lambda>c. c \<noteq> NUL) bs"
    using c by (simp add: c_string_def takeWhile_no)
  then show ?thesis by (simp add: has_name_def)
qed

theorem eight_character_name_lost_witness:
  "\<not> has_name ''abcdefgh'' ((blank_inode (replicate 7 NUL))\<lparr>i_name := ''abcdefgh'', i_file_size := 64\<rparr>)"
  by (rule eight_character_name_lost) (simp_all add: NUL_def strncpy_def)

subsection \<open>The handle table\<close>

interpretation handle_table: slot_table "\<lambda>h. fh_inode_number h = -1"
  "\<lambda>i _. \<lparr>fh_offset = 0, fh_inode_number = int i\<rparr>" "\<lambda>_. \<lparr>fh_offset = 0, fh_inode_number = -1\<rparr>"
  by unfold_locales simp_all

definition free_handles :: "ssufs \<Rightarrow> nat" where
  "free_handles st = slots (\<lambda>h. fh_inode_number h = -1) (file_handle_array st)"

lemma allocFileHandle_grab:
  "ssufs_allocFileHandle st = (case handle_table.grab (file_handle_array st) of
     None \<Rightarrow> (-1, st) | Some (i, hs) \<Rightarrow> (int i, st\<lparr>file_handle_array := hs\<rparr>))"
  by (simp add: ssufs_allocFileHandle_def handle_table.grab_def split: option.split)

text \<open>The handle table is a pool of 20 handles: \<open>ssufs_allocFileHandle\<close> returns -1 exactly when no
  handle is free, otherwise a handle that was free, and \<open>ssufs_close\<close> of that handle restores
  the number of free handles.\<close>

lemma handle_pool:
  assumes run: "ssufs_allocFileHandle st = (r, st')" and len: "length (file_handle_array st) = 20"
  shows "(r = -1 \<longleftrightarrow> free_handles st = 0) \<and> (r = -1 \<longrightarrow> st' = st) \<and>
    (r \<noteq> -1 \<longrightarrow> valid_handle r \<and> fh_inode_number (handle_of st r) = -1 \<and> Suc (free_handles st') = free_handles st \<and>
      (\<exists>st2. ssufs_close r st' = Inr st2 \<and> free_handles st2 = free_handles st))"
proof (cases "handle_table.grab (file_handle_array st)")
  case None
  then show ?thesis
    using run handle_table.grab_None [of "file_handle_array st"] by (auto simp: allocFileHandle_grab free_handles_def)
next
  case (Some p)
  obtain i hs where p: "p = (i, hs)" by (cases p)
  have g: "handle_table.grab (file_handle_array st) = Some (i, hs)" using Some p by simp
  note fresh = handle_table.grab_fresh [OF g] and taken = handle_table.grab_count [OF g]
    and released = handle_table.give_grab [OF g]
  have r: "r = int i" "st' = st\<lparr>file_handle_array := hs\<rparr>" using run g by (simp_all add: allocFileHandle_grab)
  have "free_handles st \<noteq> 0" using taken by (simp add: free_handles_def)
  with r fresh taken released len show ?thesis
    by (auto simp: free_handles_def valid_handle_def MAX_OPEN_FILES_def handle_of_def ssufs_close_def)
qed

lemma handle_pool_example:
  "Suc (free_handles (snd (ssufs_allocFileHandle blank_fs))) = free_handles blank_fs"
  using handle_pool [of blank_fs "fst (ssufs_allocFileHandle blank_fs)" "snd (ssufs_allocFileHandle blank_fs)"]
    blank_fs_facts(4) by (auto simp: free_handles_def slots_def)


end
