(* ===== verification/XV6_Proc.thy ===== *)
theory XV6_Proc
  imports Prelude
begin

text \<open>
  The process table, the scheduler and the process system calls of xv6
  (\<open>src/project3/xv6-modified/proc.c\<close>, \<open>proc.h\<close>), with the repository's changes: priorities,
  context switch counters and the calls that inspect the table. \<open>param.h\<close> fixes one CPU, and every
  section under \<open>ptable.lock\<close> runs with interrupts off, so such a section is one transition. \<open>fork\<close> and
  \<open>exit\<close> do most of their work outside the lock, where a timer interrupt can take the CPU away and a service may sleep: they are
  cut into sections, the step relation \<open>kstep\<close> interleaves the sections of all processes, and the functions \<open>fork\<close> and
  \<open>exit_proc\<close> are the sections run one after the other. A process pointer is an index into \<open>ptable.proc\<close>.

  The memory, file and inode operations that these functions call work on other state of the
  kernel. They are collected in a record of services over an arbitrary type of that state, which
  the definitions take as an argument, and a service may panic.
\<close>

subsection \<open>Processes\<close>

definition NPROC :: nat where "NPROC = 64"
definition NOFILE :: nat where "NOFILE = 16"
definition KSTACKSIZE :: nat where "KSTACKSIZE = 4096"
definition INT_MAX :: int where "INT_MAX = 2147483647"

datatype procstate = UNUSED | EMBRYO | SLEEPING | RUNNABLE | RUNNING | ZOMBIE

text \<open>A sleep channel is an address: that of a process structure or of any other object.\<close>

datatype chan = Chan_proc nat | Chan_addr nat

datatype entry = Forkret | Trapret

record trapframe =
  tf_eax :: uint32
  tf_eip :: uint32
  tf_esp :: uint32
  tf_user :: bool          \<comment> \<open>the segment registers select user segments\<close>
  tf_if :: bool            \<comment> \<open>\<open>FL_IF\<close> of \<open>eflags\<close>\<close>
  tf_regs :: "uint32 list" \<comment> \<open>the other registers\<close>

definition zero_tf :: trapframe where
  "zero_tf = \<lparr>tf_eax = 0, tf_eip = 0, tf_esp = 0, tf_user = False, tf_if = False, tf_regs = []\<rparr>"

record proc =
  p_sz :: uint32
  p_pgdir :: "nat option"
  p_kstack :: "nat option"
  p_state :: procstate
  p_pid :: int
  p_parent :: "nat option"
  p_tf :: trapframe
  p_tf_addr :: nat
  p_context :: nat
  p_entry :: "entry list"
  p_chan :: "chan option"
  p_killed :: bool
  p_ofile :: "nat \<Rightarrow> nat option" \<comment> \<open>the array of the \<open>NOFILE\<close> open files\<close>
  p_cwd :: "nat option"
  p_name :: string
  p_nice :: uint32
  p_prio :: int

definition zero_proc :: proc where
  "zero_proc = \<lparr>p_sz = 0, p_pgdir = None, p_kstack = None, p_state = UNUSED, p_pid = 0, p_parent = None,
     p_tf = zero_tf, p_tf_addr = 0, p_context = 0, p_entry = [], p_chan = None, p_killed = False,
     p_ofile = (\<lambda>_. None), p_cwd = None, p_name = '''', p_nice = 0, p_prio = 0\<rparr>"

text \<open>\<open>sch_pc\<close> is the position of \<open>scheduler\<close>, with its local variables \<open>p\<close> and \<open>highest\<close>: in the loop that
  computes \<open>highest\<close>, which runs with interrupts enabled, or in the loop that picks processes.
  \<open>cur\<close> is \<open>c->proc\<close>.\<close>

datatype sched_pc = Computing nat int | Picking nat int

record 'k kernel =
  ptable :: "proc list"
  initproc :: "nat option"
  nextpid :: int
  cur :: "nat option"
  sch_pc :: sched_pc
  rest :: 'k

record 'k services =
  sv_kalloc :: "'k \<Rightarrow> fault + nat option \<times> 'k"
  sv_kfree :: "nat option \<Rightarrow> 'k \<Rightarrow> fault + 'k"
  sv_setupkvm :: "'k \<Rightarrow> fault + nat option \<times> 'k"
  sv_inituvm :: "nat \<Rightarrow> 'k \<Rightarrow> fault + 'k"
  sv_copyuvm :: "nat option \<Rightarrow> uint32 \<Rightarrow> 'k \<Rightarrow> fault + nat option \<times> 'k"
  sv_freevm :: "nat option \<Rightarrow> 'k \<Rightarrow> fault + 'k"
  sv_allocuvm :: "nat option \<Rightarrow> uint32 \<Rightarrow> uint32 \<Rightarrow> 'k \<Rightarrow> fault + uint32 \<times> 'k"
  sv_deallocuvm :: "nat option \<Rightarrow> uint32 \<Rightarrow> uint32 \<Rightarrow> 'k \<Rightarrow> fault + uint32 \<times> 'k"
  sv_filedup :: "nat \<Rightarrow> 'k \<Rightarrow> fault + 'k"
  sv_fileclose :: "nat \<Rightarrow> 'k \<Rightarrow> fault + 'k"
  sv_idup :: "nat option \<Rightarrow> 'k \<Rightarrow> fault + 'k"
  sv_iput_op :: "nat option \<Rightarrow> 'k \<Rightarrow> fault + 'k"
  sv_namei_root :: "'k \<Rightarrow> fault + nat option \<times> 'k"

definition proc_at :: "'k kernel \<Rightarrow> nat \<Rightarrow> proc" where
  "proc_at k i = ptable k ! i"

definition upd_proc :: "nat \<Rightarrow> (proc \<Rightarrow> proc) \<Rightarrow> 'k kernel \<Rightarrow> 'k kernel" where
  "upd_proc i f k = k\<lparr>ptable := (ptable k)[i := f (ptable k ! i)]\<rparr>"

text \<open>\<open>myproc()\<close>; following a null result faults.\<close>

definition myproc :: "'k kernel \<Rightarrow> fault + nat" where
  "myproc k = (case cur k of None \<Rightarrow> Inl Null_deref | Some i \<Rightarrow> Inr i)"

subsection \<open>Creating processes\<close>

text \<open>The part of \<open>allocproc\<close> under the lock. \<open>nextpid\<close> is an \<open>int\<close>, and \<open>nextpid++\<close> overflows at its largest value.\<close>

definition alloc_entry :: "'k kernel \<Rightarrow> fault + nat option \<times> 'k kernel" where
  "alloc_entry k =
     (case find_slot (\<lambda>p. p_state p = UNUSED) (ptable k) of
        None \<Rightarrow> Inr (None, k)
      | Some i \<Rightarrow>
          if nextpid k = INT_MAX then Inl Int_overflow
          else Inr (Some i, (upd_proc i (\<lambda>p. p\<lparr>p_state := EMBRYO, p_nice := 0, p_prio := 0, p_pid := nextpid k\<rparr>) k)
                              \<lparr>nextpid := nextpid k + 1\<rparr>))"

text \<open>The rest of \<open>allocproc\<close>, without the lock; the result tells whether there was a page for the kernel stack.\<close>

definition alloc_stack :: "'k services \<Rightarrow> nat \<Rightarrow> 'k kernel \<Rightarrow> fault + bool \<times> 'k kernel" where
  "alloc_stack S i k =
     ebind (sv_kalloc S (rest k)) (\<lambda>(kstack, r).
       let k1 = upd_proc i (\<lambda>p. p\<lparr>p_kstack := kstack\<rparr>) (k\<lparr>rest := r\<rparr>) in
       case kstack of
         None \<Rightarrow> Inr (False, upd_proc i (\<lambda>p. p\<lparr>p_state := UNUSED\<rparr>) k1)
       | Some ks \<Rightarrow>
           (let sp = ks + KSTACKSIZE - 76; sp2 = sp - 4; sp3 = sp2 - 20
            in Inr (True, upd_proc i (\<lambda>p. p\<lparr>p_tf_addr := sp, p_context := sp3,
                 p_entry := [Forkret, Trapret]\<rparr>) k1)))"

definition allocproc :: "'k services \<Rightarrow> 'k kernel \<Rightarrow> fault + nat option \<times> 'k kernel" where
  "allocproc S k =
     ebind (alloc_entry k) (\<lambda>(p, k1).
       case p of
         None \<Rightarrow> Inr (None, k1)
       | Some i \<Rightarrow> ebind (alloc_stack S i k1) (\<lambda>(ok, k2). Inr (if ok then Some i else None, k2)))"

definition userinit :: "'k services \<Rightarrow> 'k kernel \<Rightarrow> fault + 'k kernel" where
  "userinit S k =
     ebind (allocproc S k) (\<lambda>(p, k1).
       let k2 = k1\<lparr>initproc := p\<rparr> in
       case p of
         None \<Rightarrow> Inl Null_deref
       | Some i \<Rightarrow>
           ebind (sv_setupkvm S (rest k2)) (\<lambda>(pgdir, r).
             let k3 = upd_proc i (\<lambda>p. p\<lparr>p_pgdir := pgdir\<rparr>) (k2\<lparr>rest := r\<rparr>) in
             case pgdir of
               None \<Rightarrow> Inl (Panic ''userinit: out of memory?'')
             | Some pd \<Rightarrow>
                 ebind (sv_inituvm S pd (rest k3)) (\<lambda>r4.
                   ebind (sv_namei_root S r4) (\<lambda>(cwd, r5).
                     Inr (upd_proc i (\<lambda>p. p\<lparr>p_sz := 4096,
                            p_tf := zero_tf\<lparr>tf_user := True, tf_if := True, tf_esp := 4096, tf_eip := 0\<rparr>,
                            p_name := ''initcode'', p_cwd := cwd, p_state := RUNNABLE\<rparr>)
                          (k3\<lparr>rest := r5\<rparr>))))))"

definition growproc :: "'k services \<Rightarrow> int \<Rightarrow> 'k kernel \<Rightarrow> fault + int \<times> 'k kernel" where
  "growproc S n k =
     ebind (myproc k) (\<lambda>i.
       let sz = p_sz (proc_at k i) in
       ebind (if n > 0 then sv_allocuvm S (p_pgdir (proc_at k i)) sz (sz + word_of_int n) (rest k)
              else if n < 0 then sv_deallocuvm S (p_pgdir (proc_at k i)) sz (sz + word_of_int n) (rest k)
              else Inr (sz, rest k))
         (\<lambda>(sz1, r).
            if n \<noteq> 0 \<and> sz1 = 0 then Inr (-1, k\<lparr>rest := r\<rparr>)
            else Inr (0, upd_proc i (\<lambda>p. p\<lparr>p_sz := sz1\<rparr>) (k\<lparr>rest := r\<rparr>))))"

text \<open>The sections of \<open>fork\<close> behind \<open>allocproc\<close>, for the caller \<open>c\<close> and the new entry \<open>i\<close>: copying the memory, with the way
  back when there is none; the fields; one iteration of \<open>for(i = 0; i < NOFILE; i++) if(curproc->ofile[i]) np->ofile[i] = filedup(...)\<close>,
  in which a slot that is empty in the parent keeps what it had in the entry; the directory and the name; and the section under the
  lock that makes the child runnable.\<close>

definition fork_vm :: "'k services \<Rightarrow> nat \<Rightarrow> nat \<Rightarrow> 'k kernel \<Rightarrow> fault + bool \<times> 'k kernel" where
  "fork_vm S c i k =
     ebind (sv_copyuvm S (p_pgdir (proc_at k c)) (p_sz (proc_at k c)) (rest k)) (\<lambda>(pgdir, r).
       let k1 = upd_proc i (\<lambda>p. p\<lparr>p_pgdir := pgdir\<rparr>) (k\<lparr>rest := r\<rparr>) in
       case pgdir of
         None \<Rightarrow>
           ebind (sv_kfree S (p_kstack (proc_at k1 i)) (rest k1)) (\<lambda>r2.
             Inr (False, upd_proc i (\<lambda>p. p\<lparr>p_kstack := None, p_state := UNUSED\<rparr>) (k1\<lparr>rest := r2\<rparr>)))
       | Some _ \<Rightarrow> Inr (True, k1))"

definition fork_fields :: "nat \<Rightarrow> nat \<Rightarrow> 'k kernel \<Rightarrow> 'k kernel" where
  "fork_fields c i k =
     upd_proc i (\<lambda>p. p\<lparr>p_sz := p_sz (proc_at k c), p_parent := Some c,
       p_tf := (p_tf (proc_at k c))\<lparr>tf_eax := 0\<rparr>\<rparr>) k"

definition fork_file :: "'k services \<Rightarrow> nat \<Rightarrow> nat \<Rightarrow> nat \<Rightarrow> 'k kernel \<Rightarrow> fault + 'k kernel" where
  "fork_file S c i n k =
     (case p_ofile (proc_at k c) n of
        None \<Rightarrow> Inr k
      | Some f \<Rightarrow>
          ebind (sv_filedup S f (rest k)) (\<lambda>r.
            Inr (upd_proc i (\<lambda>p. p\<lparr>p_ofile := (p_ofile p)(n := Some f)\<rparr>) (k\<lparr>rest := r\<rparr>))))"

fun fork_files :: "'k services \<Rightarrow> nat \<Rightarrow> nat \<Rightarrow> nat list \<Rightarrow> 'k kernel \<Rightarrow> fault + 'k kernel" where
  "fork_files S c i [] k = Inr k"
| "fork_files S c i (n # ns) k = ebind (fork_file S c i n k) (fork_files S c i ns)"

definition fork_cwd :: "'k services \<Rightarrow> nat \<Rightarrow> nat \<Rightarrow> 'k kernel \<Rightarrow> fault + 'k kernel" where
  "fork_cwd S c i k =
     ebind (sv_idup S (p_cwd (proc_at k c)) (rest k)) (\<lambda>r.
       Inr (upd_proc i (\<lambda>p. p\<lparr>p_cwd := p_cwd (proc_at k c), p_name := p_name (proc_at k c)\<rparr>) (k\<lparr>rest := r\<rparr>)))"

definition fork_publish :: "nat \<Rightarrow> nat \<Rightarrow> 'k kernel \<Rightarrow> int \<times> 'k kernel" where
  "fork_publish c i k =
     (p_pid (proc_at k i), upd_proc i (\<lambda>p. p\<lparr>p_state := RUNNABLE, p_prio := p_prio (proc_at k c)\<rparr>) k)"

definition fork :: "'k services \<Rightarrow> 'k kernel \<Rightarrow> fault + int \<times> 'k kernel" where
  "fork S k =
     ebind (myproc k) (\<lambda>c.
       ebind (allocproc S k) (\<lambda>(np, k1).
         case np of
           None \<Rightarrow> Inr (-1, k1)
         | Some i \<Rightarrow>
             ebind (fork_vm S c i k1) (\<lambda>(ok, k2).
               if \<not> ok then Inr (-1, k2)
               else
                 ebind (fork_files S c i [0..<NOFILE] (fork_fields c i k2)) (\<lambda>k3.
                   ebind (fork_cwd S c i k3) (\<lambda>k4. Inr (fork_publish c i k4))))))"

subsection \<open>Wakeup, exit and wait\<close>

definition wakeup1 :: "chan \<Rightarrow> proc list \<Rightarrow> proc list" where
  "wakeup1 ch = map (\<lambda>p. if p_state p = SLEEPING \<and> p_chan p = Some ch then p\<lparr>p_state := RUNNABLE\<rparr> else p)"

definition wakeup :: "chan \<Rightarrow> 'k kernel \<Rightarrow> 'k kernel" where
  "wakeup ch k = k\<lparr>ptable := wakeup1 ch (ptable k)\<rparr>"

text \<open>One iteration of the loop that passes abandoned children to init.\<close>

definition abandon :: "nat \<Rightarrow> nat \<Rightarrow> nat \<Rightarrow> proc list \<Rightarrow> proc list" where
  "abandon c ini j ps =
     (if p_parent (ps ! j) = Some c
      then
        (let ps1 = ps[j := (ps ! j)\<lparr>p_parent := Some ini\<rparr>]
         in if p_state (ps1 ! j) = ZOMBIE then wakeup1 (Chan_proc ini) ps1 else ps1)
      else ps)"

text \<open>\<open>sched()\<close> after the state change: the CPU goes back to the scheduler, which counts the switch and
  goes on with the next entry. The panics of \<open>sched\<close> about the lock and the interrupt flag are
  excluded by the shape of the callers; the one about the state is kept.\<close>

definition sched :: "'k kernel \<Rightarrow> fault + 'k kernel" where
  "sched k =
     ebind (myproc k) (\<lambda>c.
       if p_state (proc_at k c) = RUNNING then Inl (Panic ''sched running'')
       else Inr ((upd_proc c (\<lambda>p. p\<lparr>p_nice := p_nice p + 1\<rparr>) k)\<lparr>cur := None,
              sch_pc := (case sch_pc k of Picking _ h \<Rightarrow> Picking (Suc c) h | pc \<Rightarrow> pc)\<rparr>))"

text \<open>The sections of \<open>exit\<close>: the test for init, one iteration of the loop that closes the files, the release of the directory inside a log
  operation, and the section under the lock.\<close>

definition exit_begin :: "'k kernel \<Rightarrow> fault + nat" where
  "exit_begin k =
     ebind (myproc k) (\<lambda>c.
       case initproc k of
         None \<Rightarrow> Inl Null_deref
       | Some ini \<Rightarrow> if c = ini then Inl (Panic ''init exiting'') else Inr c)"

definition exit_file :: "'k services \<Rightarrow> nat \<Rightarrow> nat \<Rightarrow> 'k kernel \<Rightarrow> fault + 'k kernel" where
  "exit_file S c n k =
     (case p_ofile (proc_at k c) n of
        None \<Rightarrow> Inr k
      | Some f \<Rightarrow>
          ebind (sv_fileclose S f (rest k)) (\<lambda>r.
            Inr (upd_proc c (\<lambda>p. p\<lparr>p_ofile := (p_ofile p)(n := None)\<rparr>) (k\<lparr>rest := r\<rparr>))))"

fun exit_files :: "'k services \<Rightarrow> nat \<Rightarrow> nat list \<Rightarrow> 'k kernel \<Rightarrow> fault + 'k kernel" where
  "exit_files S c [] k = Inr k"
| "exit_files S c (n # ns) k = ebind (exit_file S c n k) (exit_files S c ns)"

definition exit_cwd :: "'k services \<Rightarrow> nat \<Rightarrow> 'k kernel \<Rightarrow> fault + 'k kernel" where
  "exit_cwd S c k =
     ebind (sv_iput_op S (p_cwd (proc_at k c)) (rest k)) (\<lambda>r.
       Inr (upd_proc c (\<lambda>p. p\<lparr>p_cwd := None\<rparr>) (k\<lparr>rest := r\<rparr>)))"

definition exit_close :: "'k services \<Rightarrow> nat \<Rightarrow> 'k kernel \<Rightarrow> fault + 'k kernel" where
  "exit_close S c k = ebind (exit_files S c [0..<NOFILE] k) (exit_cwd S c)"

definition exit_last :: "nat \<Rightarrow> 'k kernel \<Rightarrow> fault + 'k kernel" where
  "exit_last c k =
     (case initproc k of
        None \<Rightarrow> Inl Null_deref
      | Some ini \<Rightarrow>
          (let ps1 = (case p_parent (proc_at k c) of
                        Some par \<Rightarrow> wakeup1 (Chan_proc par) (ptable k) | None \<Rightarrow> ptable k);
               ps2 = fold (abandon c ini) [0..<length ps1] ps1
           in sched (upd_proc c (\<lambda>p. p\<lparr>p_state := ZOMBIE\<rparr>) (k\<lparr>ptable := ps2\<rparr>))))"

definition exit_proc :: "'k services \<Rightarrow> 'k kernel \<Rightarrow> fault + 'k kernel" where
  "exit_proc S k = ebind (exit_begin k) (\<lambda>c. ebind (exit_close S c k) (exit_last c))"

text \<open>One pass of \<open>wait\<close> over the table: the result (a pid or -1), or a sleep on the caller's own
  address. A sleeping caller runs the pass again when it is scheduled.\<close>

datatype wait_result = Returned int | Slept

definition sleep_on :: "chan \<Rightarrow> 'k kernel \<Rightarrow> fault + 'k kernel" where
  "sleep_on ch k =
     (case cur k of
        None \<Rightarrow> Inl (Panic ''sleep'')
      | Some c \<Rightarrow> sched (upd_proc c (\<lambda>p. p\<lparr>p_chan := Some ch, p_state := SLEEPING\<rparr>) k))"

definition reap :: "'k services \<Rightarrow> nat \<Rightarrow> 'k kernel \<Rightarrow> fault + int \<times> 'k kernel" where
  "reap S i k =
     ebind (sv_kfree S (p_kstack (proc_at k i)) (rest k)) (\<lambda>r1.
       ebind (sv_freevm S (p_pgdir (proc_at k i)) r1) (\<lambda>r2.
         Inr (p_pid (proc_at k i),
              upd_proc i (\<lambda>p. p\<lparr>p_kstack := None, p_pid := 0, p_parent := None, p_name := '''',
                p_killed := False, p_prio := 0, p_state := UNUSED\<rparr>) (k\<lparr>rest := r2\<rparr>))))"

definition wait_pass :: "'k services \<Rightarrow> 'k kernel \<Rightarrow> fault + wait_result \<times> 'k kernel" where
  "wait_pass S k =
     ebind (myproc k) (\<lambda>c.
       case find_slot (\<lambda>p. p_parent p = Some c \<and> p_state p = ZOMBIE) (ptable k) of
         Some i \<Rightarrow> ebind (reap S i k) (\<lambda>(pid, k1). Inr (Returned pid, k1))
       | None \<Rightarrow>
           if \<not> (\<exists>p \<in> set (ptable k). p_parent p = Some c) \<or> p_killed (proc_at k c)
           then Inr (Returned (-1), k)
           else ebind (sleep_on (Chan_proc c) k) (\<lambda>k1. Inr (Slept, k1)))"

text \<open>When the process runs again, \<open>sleep\<close> clears the channel.\<close>

definition resume :: "'k kernel \<Rightarrow> fault + 'k kernel" where
  "resume k = ebind (myproc k) (\<lambda>c. Inr (upd_proc c (\<lambda>p. p\<lparr>p_chan := None\<rparr>) k))"

subsection \<open>The scheduler\<close>

definition candidate :: "'k kernel \<Rightarrow> nat \<Rightarrow> int \<Rightarrow> nat option" where
  "candidate k i highest =
     find (\<lambda>j. p_state (proc_at k j) = RUNNABLE \<and> p_prio (proc_at k j) = highest) [i..<length (ptable k)]"

definition switch_to :: "nat \<Rightarrow> int \<Rightarrow> 'k kernel \<Rightarrow> 'k kernel" where
  "switch_to i highest k =
     (upd_proc i (\<lambda>p. p\<lparr>p_state := RUNNING\<rparr>) k)\<lparr>cur := Some i, sch_pc := Picking i highest\<rparr>"

text \<open>A step of \<open>scheduler\<close> while no process runs: one iteration of the first loop (an interrupt may come
  between two of them), or the second loop, which holds the lock, up to the next switch or its
  end.\<close>

definition scheduler_step :: "'k kernel \<Rightarrow> 'k kernel" where
  "scheduler_step k =
     (case sch_pc k of
        Computing i highest \<Rightarrow>
          if i < length (ptable k)
          then
            (let p = proc_at k i in
             k\<lparr>sch_pc := Computing (Suc i)
                 (if p_state p = RUNNABLE \<and> p_prio p \<ge> highest then p_prio p else highest)\<rparr>)
          else k\<lparr>sch_pc := Picking 0 highest\<rparr>
      | Picking i highest \<Rightarrow>
          (case candidate k i highest of
             Some j \<Rightarrow> switch_to j highest k
           | None \<Rightarrow> k\<lparr>sch_pc := Computing 0 0\<rparr>))"

definition yield_cpu :: "'k kernel \<Rightarrow> fault + 'k kernel" where
  "yield_cpu k = ebind (myproc k) (\<lambda>c. sched (upd_proc c (\<lambda>p. p\<lparr>p_state := RUNNABLE\<rparr>) k))"

subsection \<open>The remaining calls\<close>

definition kill :: "int \<Rightarrow> 'k kernel \<Rightarrow> int \<times> 'k kernel" where
  "kill pid k =
     (case find_slot (\<lambda>p. p_pid p = pid) (ptable k) of
        Some i \<Rightarrow> (0, upd_proc i (\<lambda>p. p\<lparr>p_killed := True,
                     p_state := (if p_state p = SLEEPING then RUNNABLE else p_state p)\<rparr>) k)
      | None \<Rightarrow> (-1, k))"

definition get_num_proc :: "'k kernel \<Rightarrow> int" where
  "get_num_proc k = fold (\<lambda>p n. if p_state p = UNUSED then n else n + 1) (ptable k) 0"

definition get_max_pid :: "'k kernel \<Rightarrow> int" where
  "get_max_pid k = fold (\<lambda>p m. if p_state p = UNUSED then m else if m > p_pid p then m else p_pid p) (ptable k) 0"

record processInfo =
  ppid :: int
  psize :: uint32
  numberContextSwitches :: uint32

definition get_proc_info :: "int \<Rightarrow> 'k kernel \<Rightarrow> processInfo option" where
  "get_proc_info pid k =
     (case find_slot (\<lambda>p. p_pid p = pid) (ptable k) of
        Some i \<Rightarrow> Some \<lparr>ppid = (case p_parent (proc_at k i) of None \<Rightarrow> 0 | Some q \<Rightarrow> p_pid (proc_at k q)),
                     psize = p_sz (proc_at k i), numberContextSwitches = p_nice (proc_at k i)\<rparr>
      | None \<Rightarrow> None)"

definition get_prio :: "'k kernel \<Rightarrow> fault + int" where
  "get_prio k = ebind (myproc k) (\<lambda>c. Inr (p_prio (proc_at k c)))"

definition set_prio :: "int \<Rightarrow> 'k kernel \<Rightarrow> fault + int \<times> 'k kernel" where
  "set_prio n k = ebind (myproc k) (\<lambda>c. Inr (0, upd_proc c (\<lambda>p. p\<lparr>p_prio := n\<rparr>) k))"

subsection \<open>The steps of the kernel\<close>

text \<open>Where a process is inside the kernel, as far as the process table is concerned: between two sections of \<open>fork\<close> (with the
  entry of the child, and the number of files copied) or of \<open>exit\<close> (with the number of files closed), or elsewhere: in user mode or in another call.\<close>

datatype kcall = Elsewhere | Fork_stack nat | Fork_vm nat | Fork_fields nat | Fork_files nat nat | Fork_publish nat
  | Exit_files nat | Exit_last

record 'k system =
  sk :: "'k kernel"
  spc :: "nat \<Rightarrow> kcall"

definition goes_to :: "'k system \<Rightarrow> nat \<Rightarrow> kcall \<Rightarrow> 'k kernel \<Rightarrow> 'k system" where
  "goes_to s c pc k = \<lparr>sk = k, spc = (spc s)(c := pc)\<rparr>"

text \<open>The transitions: the running process goes on with its next section or begins a call; it may be
  preempted (\<open>Yield\<close>) or sleep between any two sections, and goes on where it was (\<open>Resume\<close> clears the channel behind \<open>sched\<close>); wakeups
  come at any time, the scheduler steps while no process runs. Between the sections the rest of the kernel may change in any way
  (\<open>Other\<close>: interrupt handlers, other processes, the part of a service before it sleeps), and the calls on files and \<open>exec\<close>
  may give any values to the fields of the calling process that they write (\<open>Own\<close>).\<close>

inductive kstep :: "'k services \<Rightarrow> 'k system \<Rightarrow> 'k system \<Rightarrow> bool" for S where
  Fork_full: "cur (sk s) = Some c \<Longrightarrow> spc s c = Elsewhere \<Longrightarrow> alloc_entry (sk s) = Inr (None, k) \<Longrightarrow>
    kstep S s (goes_to s c Elsewhere k)"
| Fork_begin: "cur (sk s) = Some c \<Longrightarrow> spc s c = Elsewhere \<Longrightarrow> alloc_entry (sk s) = Inr (Some i, k) \<Longrightarrow>
    kstep S s (goes_to s c (Fork_stack i) k)"
| Fork_stack: "cur (sk s) = Some c \<Longrightarrow> spc s c = Fork_stack i \<Longrightarrow> alloc_stack S i (sk s) = Inr (ok, k) \<Longrightarrow>
    kstep S s (goes_to s c (if ok then Fork_vm i else Elsewhere) k)"
| Fork_vm: "cur (sk s) = Some c \<Longrightarrow> spc s c = Fork_vm i \<Longrightarrow> fork_vm S c i (sk s) = Inr (ok, k) \<Longrightarrow>
    kstep S s (goes_to s c (if ok then Fork_fields i else Elsewhere) k)"
| Fork_fields: "cur (sk s) = Some c \<Longrightarrow> spc s c = Fork_fields i \<Longrightarrow>
    kstep S s (goes_to s c (Fork_files i 0) (fork_fields c i (sk s)))"
| Fork_file: "cur (sk s) = Some c \<Longrightarrow> spc s c = Fork_files i n \<Longrightarrow> n < NOFILE \<Longrightarrow> fork_file S c i n (sk s) = Inr k \<Longrightarrow>
    kstep S s (goes_to s c (Fork_files i (Suc n)) k)"
| Fork_cwd: "cur (sk s) = Some c \<Longrightarrow> spc s c = Fork_files i NOFILE \<Longrightarrow> fork_cwd S c i (sk s) = Inr k \<Longrightarrow>
    kstep S s (goes_to s c (Fork_publish i) k)"
| Fork_publish: "cur (sk s) = Some c \<Longrightarrow> spc s c = Fork_publish i \<Longrightarrow> fork_publish c i (sk s) = (r, k) \<Longrightarrow>
    kstep S s (goes_to s c Elsewhere k)"
| Exit_begin: "cur (sk s) = Some c \<Longrightarrow> spc s c = Elsewhere \<Longrightarrow> exit_begin (sk s) = Inr c \<Longrightarrow>
    kstep S s (goes_to s c (Exit_files 0) (sk s))"
| Exit_file: "cur (sk s) = Some c \<Longrightarrow> spc s c = Exit_files n \<Longrightarrow> n < NOFILE \<Longrightarrow> exit_file S c n (sk s) = Inr k \<Longrightarrow>
    kstep S s (goes_to s c (Exit_files (Suc n)) k)"
| Exit_cwd: "cur (sk s) = Some c \<Longrightarrow> spc s c = Exit_files NOFILE \<Longrightarrow> exit_cwd S c (sk s) = Inr k \<Longrightarrow>
    kstep S s (goes_to s c Exit_last k)"
| Exit_last: "cur (sk s) = Some c \<Longrightarrow> spc s c = Exit_last \<Longrightarrow> exit_last c (sk s) = Inr k \<Longrightarrow>
    kstep S s (goes_to s c Elsewhere k)"
| Wait: "cur (sk s) = Some c \<Longrightarrow> spc s c = Elsewhere \<Longrightarrow> wait_pass S (sk s) = Inr (w, k) \<Longrightarrow> kstep S s (s\<lparr>sk := k\<rparr>)"
| Grow: "cur (sk s) = Some c \<Longrightarrow> spc s c = Elsewhere \<Longrightarrow> growproc S n (sk s) = Inr (r, k) \<Longrightarrow> kstep S s (s\<lparr>sk := k\<rparr>)"
| Set_prio: "cur (sk s) = Some c \<Longrightarrow> spc s c = Elsewhere \<Longrightarrow> set_prio n (sk s) = Inr (r, k) \<Longrightarrow> kstep S s (s\<lparr>sk := k\<rparr>)"
| Kill: "cur (sk s) = Some c \<Longrightarrow> spc s c = Elsewhere \<Longrightarrow> kill pid (sk s) = (r, k) \<Longrightarrow> kstep S s (s\<lparr>sk := k\<rparr>)"
| Own: "cur (sk s) = Some c \<Longrightarrow> spc s c = Elsewhere \<Longrightarrow>
    kstep S s (s\<lparr>sk := upd_proc c (\<lambda>p. p\<lparr>p_ofile := fs, p_cwd := d, p_sz := sz, p_pgdir := pg, p_name := nm, p_tf := tf\<rparr>) (sk s)\<rparr>)"
| Sleep: "sleep_on ch (sk s) = Inr k \<Longrightarrow> kstep S s (s\<lparr>sk := k\<rparr>)"
| Yield: "yield_cpu (sk s) = Inr k \<Longrightarrow> kstep S s (s\<lparr>sk := k\<rparr>)"
| Resume: "resume (sk s) = Inr k \<Longrightarrow> kstep S s (s\<lparr>sk := k\<rparr>)"
| Wakeup: "kstep S s (s\<lparr>sk := wakeup ch (sk s)\<rparr>)"
| Other: "kstep S s (s\<lparr>sk := (sk s)\<lparr>rest := r\<rparr>\<rparr>)"
| Schedule: "cur (sk s) = None \<Longrightarrow> kstep S s (s\<lparr>sk := scheduler_step (sk s)\<rparr>)"

definition live :: "proc \<Rightarrow> bool" where
  "live p \<longleftrightarrow> p_state p \<in> {SLEEPING, RUNNABLE, RUNNING}"

definition no_files :: "proc \<Rightarrow> bool" where
  "no_files p \<longleftrightarrow> (\<forall>n < NOFILE. p_ofile p n = None)"

definition pc_ok :: "sched_pc \<Rightarrow> bool" where
  "pc_ok pc \<longleftrightarrow> (case pc of Computing _ h \<Rightarrow> 0 \<le> h | Picking _ h \<Rightarrow> 0 \<le> h)"

text \<open>The entry that a process inside \<open>fork\<close> is filling, and whether its parent is set already; the number of files that a process inside
  \<open>exit\<close> has closed.\<close>

fun making :: "kcall \<Rightarrow> (nat \<times> bool) option" where
  "making (Fork_stack i) = Some (i, False)"
| "making (Fork_vm i) = Some (i, False)"
| "making (Fork_fields i) = Some (i, False)"
| "making (Fork_files i n) = Some (i, True)"
| "making (Fork_publish i) = Some (i, True)"
| "making _ = None"

fun closed :: "kcall \<Rightarrow> nat option" where
  "closed (Exit_files n) = Some n"
| "closed Exit_last = Some NOFILE"
| "closed _ = None"

text \<open>The invariant of the table: at most one process runs, and it is the CPU's; the init process is alive; sleepers have a channel;
  the pids of the entries in use are distinct, positive and below \<open>nextpid\<close>; free entries have no parent, free entries and zombies no open files. An
  entry is \<open>EMBRYO\<close> exactly while a living process is filling it inside \<open>fork\<close>, one entry at a time, and that process is
  its parent as soon as it has one; every other process but init has a living parent. A process inside \<open>exit\<close> is
  alive and not init.\<close>

definition ptable_ok :: "(nat \<Rightarrow> kcall) \<Rightarrow> nat \<Rightarrow> nat option \<Rightarrow> int \<Rightarrow> proc list \<Rightarrow> bool" where
  "ptable_ok pcs ini c np ps \<longleftrightarrow> length ps = 64 \<and> ini < 64 \<and> live (ps ! ini) \<and>
     (\<forall>i < 64. p_state (ps ! i) = RUNNING \<longleftrightarrow> c = Some i) \<and> (\<forall>i. c = Some i \<longrightarrow> i < 64) \<and>
     (\<forall>i < 64. p_state (ps ! i) = EMBRYO \<longrightarrow> (\<exists>q b. making (pcs q) = Some (i, b))) \<and>
     (\<forall>i < 64. p_state (ps ! i) = UNUSED \<longrightarrow> p_parent (ps ! i) = None) \<and>
     (\<forall>i < 64. p_state (ps ! i) = SLEEPING \<longrightarrow> p_chan (ps ! i) \<noteq> None) \<and>
     (\<forall>i < 64. p_state (ps ! i) \<noteq> UNUSED \<longrightarrow> 0 < p_pid (ps ! i) \<and> p_pid (ps ! i) < np) \<and>
     (\<forall>i < 64. \<forall>j < 64. i \<noteq> j \<longrightarrow> p_state (ps ! i) \<noteq> UNUSED \<longrightarrow> p_state (ps ! j) \<noteq> UNUSED \<longrightarrow>
        p_pid (ps ! i) \<noteq> p_pid (ps ! j)) \<and>
     (\<forall>i < 64. i \<noteq> ini \<longrightarrow> p_state (ps ! i) \<notin> {UNUSED, EMBRYO} \<longrightarrow>
        (\<exists>q < 64. p_parent (ps ! i) = Some q \<and> live (ps ! q))) \<and>
     (\<forall>i < 64. p_state (ps ! i) \<in> {UNUSED, ZOMBIE} \<longrightarrow> no_files (ps ! i)) \<and>
     (\<forall>q i b. making (pcs q) = Some (i, b) \<longrightarrow> q < 64 \<and> i < 64 \<and> live (ps ! q) \<and> p_state (ps ! i) = EMBRYO \<and>
        p_parent (ps ! i) = (if b then Some q else None) \<and> (b \<or> no_files (ps ! i))) \<and>
     (\<forall>q q' i b b'. making (pcs q) = Some (i, b) \<longrightarrow> making (pcs q') = Some (i, b') \<longrightarrow> q = q') \<and>
     (\<forall>q n. closed (pcs q) = Some n \<longrightarrow> q < 64 \<and> live (ps ! q) \<and> q \<noteq> ini \<and> (\<forall>m < n. p_ofile (ps ! q) m = None))"

definition kernel_inv :: "(nat \<Rightarrow> kcall) \<Rightarrow> 'k kernel \<Rightarrow> bool" where
  "kernel_inv pcs k \<longleftrightarrow> (\<exists>ini. initproc k = Some ini \<and> ptable_ok pcs ini (cur k) (nextpid k) (ptable k)) \<and>
     0 < nextpid k \<and> nextpid k \<le> INT_MAX \<and> pc_ok (sch_pc k)"

text \<open>The same for a kernel by itself, when the running process is not inside \<open>fork\<close> or \<open>exit\<close>; others may be.\<close>

definition proc_inv :: "'k kernel \<Rightarrow> bool" where
  "proc_inv k \<longleftrightarrow> (\<exists>pcs. kernel_inv pcs k \<and> (\<forall>c. cur k = Some c \<longrightarrow> pcs c = Elsewhere))"


subsection \<open>Keeping the invariant\<close>

lemma upd_proc_simps [simp]:
  "ptable (upd_proc i f k) = (ptable k)[i := f (ptable k ! i)]"
  "initproc (upd_proc i f k) = initproc k"
  "nextpid (upd_proc i f k) = nextpid k"
  "cur (upd_proc i f k) = cur k"
  "sch_pc (upd_proc i f k) = sch_pc k"
  "rest (upd_proc i f k) = rest k"
  by (simp_all add: upd_proc_def)

lemma goes_to_simps [simp]: "sk (goes_to s c pc k) = k" "spc (goes_to s c pc k) = (spc s)(c := pc)"
  by (simp_all add: goes_to_def)

lemma myproc_simps [simp]:
  "myproc k = Inr c \<longleftrightarrow> cur k = Some c"
  by (auto simp: myproc_def split: option.splits)

lemma live_not [simp]: "live p \<Longrightarrow> p_state p \<noteq> UNUSED" "live p \<Longrightarrow> p_state p \<noteq> ZOMBIE" "live p \<Longrightarrow> p_state p \<noteq> EMBRYO"
  by (auto simp: live_def)

text \<open>The clauses of the invariant one by one, and the rule that puts them together.\<close>

lemma ptable_ok_clauses:
  assumes "ptable_ok pcs ini c np ps"
  shows "length ps = 64"
    "ini < 64"
    "live (ps ! ini)"
    "\<forall>i < 64. p_state (ps ! i) = RUNNING \<longleftrightarrow> c = Some i"
    "\<forall>i. c = Some i \<longrightarrow> i < 64"
    "\<forall>i < 64. p_state (ps ! i) = EMBRYO \<longrightarrow> (\<exists>q b. making (pcs q) = Some (i, b))"
    "\<forall>i < 64. p_state (ps ! i) = UNUSED \<longrightarrow> p_parent (ps ! i) = None"
    "\<forall>i < 64. p_state (ps ! i) = SLEEPING \<longrightarrow> p_chan (ps ! i) \<noteq> None"
    "\<forall>i < 64. p_state (ps ! i) \<noteq> UNUSED \<longrightarrow> 0 < p_pid (ps ! i) \<and> p_pid (ps ! i) < np"
    "\<forall>i < 64. \<forall>j < 64. i \<noteq> j \<longrightarrow> p_state (ps ! i) \<noteq> UNUSED \<longrightarrow> p_state (ps ! j) \<noteq> UNUSED \<longrightarrow>
        p_pid (ps ! i) \<noteq> p_pid (ps ! j)"
    "\<forall>i < 64. i \<noteq> ini \<longrightarrow> p_state (ps ! i) \<notin> {UNUSED, EMBRYO} \<longrightarrow>
        (\<exists>q < 64. p_parent (ps ! i) = Some q \<and> live (ps ! q))"
    "\<forall>i < 64. p_state (ps ! i) \<in> {UNUSED, ZOMBIE} \<longrightarrow> no_files (ps ! i)"
    "\<forall>q i b. making (pcs q) = Some (i, b) \<longrightarrow> q < 64 \<and> i < 64 \<and> live (ps ! q) \<and> p_state (ps ! i) = EMBRYO \<and>
        p_parent (ps ! i) = (if b then Some q else None) \<and> (b \<or> no_files (ps ! i))"
    "\<forall>q q' i b b'. making (pcs q) = Some (i, b) \<longrightarrow> making (pcs q') = Some (i, b') \<longrightarrow> q = q'"
    "\<forall>q n. closed (pcs q) = Some n \<longrightarrow> q < 64 \<and> live (ps ! q) \<and> q \<noteq> ini \<and> (\<forall>m < n. p_ofile (ps ! q) m = None)"
  using assms unfolding ptable_ok_def by - (elim conjE, assumption)+

lemma ptable_okD:
  assumes "ptable_ok pcs ini c np ps"
  shows "length ps = 64"
    "ini < 64"
    "live (ps ! ini)"
    "i < 64 \<Longrightarrow> p_state (ps ! i) = RUNNING \<longleftrightarrow> c = Some i"
    "c = Some i \<Longrightarrow> i < 64"
    "i < 64 \<Longrightarrow> p_state (ps ! i) = EMBRYO \<Longrightarrow> \<exists>q b. making (pcs q) = Some (i, b)"
    "i < 64 \<Longrightarrow> p_state (ps ! i) = UNUSED \<Longrightarrow> p_parent (ps ! i) = None"
    "i < 64 \<Longrightarrow> p_state (ps ! i) = SLEEPING \<Longrightarrow> p_chan (ps ! i) \<noteq> None"
    "i < 64 \<Longrightarrow> p_state (ps ! i) \<noteq> UNUSED \<Longrightarrow> 0 < p_pid (ps ! i) \<and> p_pid (ps ! i) < np"
    "i < 64 \<Longrightarrow> j < 64 \<Longrightarrow> i \<noteq> j \<Longrightarrow> p_state (ps ! i) \<noteq> UNUSED \<Longrightarrow> p_state (ps ! j) \<noteq> UNUSED \<Longrightarrow> p_pid (ps ! i) \<noteq> p_pid (ps ! j)"
    "i < 64 \<Longrightarrow> i \<noteq> ini \<Longrightarrow> p_state (ps ! i) \<notin> {UNUSED, EMBRYO} \<Longrightarrow> \<exists>q < 64. p_parent (ps ! i) = Some q \<and> live (ps ! q)"
    "i < 64 \<Longrightarrow> p_state (ps ! i) \<in> {UNUSED, ZOMBIE} \<Longrightarrow> no_files (ps ! i)"
    "making (pcs q) = Some (i, b) \<Longrightarrow> q < 64 \<and> i < 64 \<and> live (ps ! q) \<and> p_state (ps ! i) = EMBRYO \<and>
        p_parent (ps ! i) = (if b then Some q else None) \<and> (b \<or> no_files (ps ! i))"
    "making (pcs q) = Some (i, b) \<Longrightarrow> making (pcs q') = Some (i, b') \<Longrightarrow> q = q'"
    "closed (pcs q) = Some n \<Longrightarrow> q < 64 \<and> live (ps ! q) \<and> q \<noteq> ini \<and> (\<forall>m < n. p_ofile (ps ! q) m = None)"
  subgoal by (rule ptable_ok_clauses(1) [OF assms])
  subgoal by (rule ptable_ok_clauses(2) [OF assms])
  subgoal by (rule ptable_ok_clauses(3) [OF assms])
  subgoal by (use ptable_ok_clauses(4) [OF assms] in blast)
  subgoal by (use ptable_ok_clauses(5) [OF assms] in blast)
  subgoal by (use ptable_ok_clauses(6) [OF assms] in blast)
  subgoal by (use ptable_ok_clauses(7) [OF assms] in blast)
  subgoal by (use ptable_ok_clauses(8) [OF assms] in blast)
  subgoal by (use ptable_ok_clauses(9) [OF assms] in blast)
  subgoal by (use ptable_ok_clauses(10) [OF assms] in blast)
  subgoal by (use ptable_ok_clauses(11) [OF assms] in blast)
  subgoal by (use ptable_ok_clauses(12) [OF assms] in blast)
  subgoal by (use ptable_ok_clauses(13) [OF assms] in blast)
  subgoal by (use ptable_ok_clauses(14) [OF assms] in blast)
  subgoal by (use ptable_ok_clauses(15) [OF assms] in blast)
  done

lemma ptable_okI:
  assumes "length ps = 64"
    "ini < 64"
    "live (ps ! ini)"
    "\<And>i. i < 64 \<Longrightarrow> p_state (ps ! i) = RUNNING \<longleftrightarrow> c = Some i"
    "\<And>i. c = Some i \<Longrightarrow> i < 64"
    "\<And>i. i < 64 \<Longrightarrow> p_state (ps ! i) = EMBRYO \<Longrightarrow> \<exists>q b. making (pcs q) = Some (i, b)"
    "\<And>i. i < 64 \<Longrightarrow> p_state (ps ! i) = UNUSED \<Longrightarrow> p_parent (ps ! i) = None"
    "\<And>i. i < 64 \<Longrightarrow> p_state (ps ! i) = SLEEPING \<Longrightarrow> p_chan (ps ! i) \<noteq> None"
    "\<And>i. i < 64 \<Longrightarrow> p_state (ps ! i) \<noteq> UNUSED \<Longrightarrow> 0 < p_pid (ps ! i) \<and> p_pid (ps ! i) < np"
    "\<And>i j. i < 64 \<Longrightarrow> j < 64 \<Longrightarrow> i \<noteq> j \<Longrightarrow> p_state (ps ! i) \<noteq> UNUSED \<Longrightarrow> p_state (ps ! j) \<noteq> UNUSED \<Longrightarrow> p_pid (ps ! i) \<noteq> p_pid (ps ! j)"
    "\<And>i. i < 64 \<Longrightarrow> i \<noteq> ini \<Longrightarrow> p_state (ps ! i) \<notin> {UNUSED, EMBRYO} \<Longrightarrow> \<exists>q < 64. p_parent (ps ! i) = Some q \<and> live (ps ! q)"
    "\<And>i. i < 64 \<Longrightarrow> p_state (ps ! i) \<in> {UNUSED, ZOMBIE} \<Longrightarrow> no_files (ps ! i)"
    "\<And>q i b. making (pcs q) = Some (i, b) \<Longrightarrow> q < 64 \<and> i < 64 \<and> live (ps ! q) \<and> p_state (ps ! i) = EMBRYO \<and>
        p_parent (ps ! i) = (if b then Some q else None) \<and> (b \<or> no_files (ps ! i))"
    "\<And>q q' i b b'. making (pcs q) = Some (i, b) \<Longrightarrow> making (pcs q') = Some (i, b') \<Longrightarrow> q = q'"
    "\<And>q n. closed (pcs q) = Some n \<Longrightarrow> q < 64 \<and> live (ps ! q) \<and> q \<noteq> ini \<and> (\<forall>m < n. p_ofile (ps ! q) m = None)"
  shows "ptable_ok pcs ini c np ps"
  unfolding ptable_ok_def
  by (intro conjI; (rule assms(1) | rule assms(2) | rule assms(3) | (intro allI impI, rule assms(4-), assumption+)))

text \<open>Changes that neither create nor end a process.\<close>

lemma ptable_ok_same:
  assumes ok: "ptable_ok pcs ini c np ps" and len: "length ps' = 64"
    and same: "\<And>i. i < 64 \<Longrightarrow> p_pid (ps' ! i) = p_pid (ps ! i) \<and> p_parent (ps' ! i) = p_parent (ps ! i) \<and>
      p_ofile (ps' ! i) = p_ofile (ps ! i) \<and> live (ps' ! i) = live (ps ! i) \<and>
      (live (ps ! i) \<or> p_state (ps' ! i) = p_state (ps ! i)) \<and>
      (p_state (ps' ! i) = SLEEPING \<longrightarrow> p_chan (ps' ! i) \<noteq> None) \<and> (p_state (ps' ! i) = RUNNING \<longleftrightarrow> c' = Some i)"
    and c': "\<And>i. c' = Some i \<Longrightarrow> i < 64"
  shows "ptable_ok pcs ini c' np ps'"
proof (rule ptable_okI)
  note D = ptable_okD [OF ok]
  have st: "p_state (ps' ! i) = s \<longleftrightarrow> p_state (ps ! i) = s" if "i < 64" "s \<in> {UNUSED, EMBRYO, ZOMBIE}" for i s
    using same [OF that(1)] that(2) by (cases "live (ps ! i)") (auto simp: live_def)
  have nf: "no_files (ps' ! i) = no_files (ps ! i)" if "i < 64" for i using same [OF that] by (simp add: no_files_def)
  show "length ps' = 64" "ini < 64" by (fact len, fact D(2))
  show "live (ps' ! ini)" using D(2,3) same by blast
  show "i < 64" if "c' = Some i" for i by (rule c' [OF that])
  show "p_state (ps' ! i) = RUNNING \<longleftrightarrow> c' = Some i" if "i < 64" for i using same [OF that] by blast
  show "\<exists>q b. making (pcs q) = Some (i, b)" if "i < 64" "p_state (ps' ! i) = EMBRYO" for i
    using D(6) st that by simp
  show "p_parent (ps' ! i) = None" if "i < 64" "p_state (ps' ! i) = UNUSED" for i using D(7) st same that by simp
  show "p_chan (ps' ! i) \<noteq> None" if "i < 64" "p_state (ps' ! i) = SLEEPING" for i using same that by blast
  show "0 < p_pid (ps' ! i) \<and> p_pid (ps' ! i) < np" if "i < 64" "p_state (ps' ! i) \<noteq> UNUSED" for i
    using D(9) st same that by simp
  show "p_pid (ps' ! i) \<noteq> p_pid (ps' ! j)"
    if "i < 64" "j < 64" "i \<noteq> j" "p_state (ps' ! i) \<noteq> UNUSED" "p_state (ps' ! j) \<noteq> UNUSED" for i j
    using D(10) st same that by simp
  show "\<exists>q < 64. p_parent (ps' ! i) = Some q \<and> live (ps' ! q)"
    if "i < 64" "i \<noteq> ini" "p_state (ps' ! i) \<notin> {UNUSED, EMBRYO}" for i
  proof -
    from D(11) [OF that(1,2)] st [OF that(1)] that(3) obtain q where "q < 64" "p_parent (ps ! i) = Some q" "live (ps ! q)"
      by auto
    then show ?thesis using same [OF that(1)] same [of q] by auto
  qed
  show "no_files (ps' ! i)" if "i < 64" "p_state (ps' ! i) \<in> {UNUSED, ZOMBIE}" for i
    using D(12) [OF that(1)] st [OF that(1)] nf [OF that(1)] that(2) by auto
  show "q < 64 \<and> i < 64 \<and> live (ps' ! q) \<and> p_state (ps' ! i) = EMBRYO \<and>
      p_parent (ps' ! i) = (if b then Some q else None) \<and> (b \<or> no_files (ps' ! i))" if "making (pcs q) = Some (i, b)" for q i b
    using D(13) [OF that] same [of q] same [of i] st [of i EMBRYO] nf [of i] by auto
  show "q = q'" if "making (pcs q) = Some (i, b)" "making (pcs q') = Some (i, b')" for q q' i b b' by (rule D(14) [OF that])
  show "q < 64 \<and> live (ps' ! q) \<and> q \<noteq> ini \<and> (\<forall>m < n. p_ofile (ps' ! q) m = None)" if "closed (pcs q) = Some n" for q n
    using D(15) [OF that] same [of q] by auto
qed

text \<open>A change of one entry, while the processes are at new positions: the other entries are made by the same processes as before.\<close>

lemma ptable_ok_entry:
  assumes ok: "ptable_ok pcs ini c np ps" and i: "i < 64" and lv: "live (ps ! i) \<Longrightarrow> live p'"
    and run: "p_state p' = RUNNING \<longleftrightarrow> c' = Some i" "\<And>j. j \<noteq> i \<Longrightarrow> c = Some j \<longleftrightarrow> c' = Some j"
    and chan: "p_state p' = SLEEPING \<Longrightarrow> p_chan p' \<noteq> None"
    and np: "np \<le> np'" and pid: "p_state p' \<noteq> UNUSED \<Longrightarrow> 0 < p_pid p' \<and> p_pid p' < np'"
      "\<And>j. j < 64 \<Longrightarrow> j \<noteq> i \<Longrightarrow> p_state (ps ! j) \<noteq> UNUSED \<Longrightarrow> p_state p' \<noteq> UNUSED \<Longrightarrow> p_pid p' \<noteq> p_pid (ps ! j)"
    and free: "p_state p' = UNUSED \<Longrightarrow> p_parent p' = None" "p_state p' \<in> {UNUSED, ZOMBIE} \<Longrightarrow> no_files p'"
    and par: "i \<noteq> ini \<Longrightarrow> p_state p' \<notin> {UNUSED, EMBRYO} \<Longrightarrow> \<exists>q < 64. p_parent p' = Some q \<and> live (ps ! q)"
    and mk: "\<And>q j b. j \<noteq> i \<Longrightarrow> making (pcs' q) = Some (j, b) \<longleftrightarrow> making (pcs q) = Some (j, b)"
      "p_state p' = EMBRYO \<Longrightarrow> \<exists>q b. making (pcs' q) = Some (i, b)"
      "\<And>q b. making (pcs' q) = Some (i, b) \<Longrightarrow> q < 64 \<and> live (ps ! q) \<and> p_state p' = EMBRYO \<and>
        p_parent p' = (if b then Some q else None) \<and> (b \<or> no_files p')"
      "\<And>q q' b b'. making (pcs' q) = Some (i, b) \<Longrightarrow> making (pcs' q') = Some (i, b') \<Longrightarrow> q = q'"
    and cl: "\<And>q n. q \<noteq> i \<Longrightarrow> closed (pcs' q) = Some n \<Longrightarrow> closed (pcs q) = Some n"
      "\<And>n. closed (pcs' i) = Some n \<Longrightarrow> live p' \<and> i \<noteq> ini \<and> (\<forall>m < n. p_ofile p' m = None)"
  shows "ptable_ok pcs' ini c' np' (ps[i := p'])"
proof (rule ptable_okI)
  note D = ptable_okD [OF ok]
  have at: "ps[i := p'] ! j = (if j = i then p' else ps ! j)" for j using D(1) i by (simp add: nth_list_update)
  have lv': "live (ps[i := p'] ! q)" if "live (ps ! q)" for q using lv that by (cases "q = i") (simp_all add: at)
  show "length (ps[i := p']) = 64" "ini < 64" using D(1,2) by simp_all
  show "live (ps[i := p'] ! ini)" by (rule lv' [OF D(3)])
  show "j < 64" if "c' = Some j" for j using that run(2) [of j] D(5) [of j] i by (cases "j = i") auto
  show "p_state (ps[i := p'] ! j) = RUNNING \<longleftrightarrow> c' = Some j" if "j < 64" for j
    using run D(4) [OF that] by (simp add: at)
  show "\<exists>q b. making (pcs' q) = Some (j, b)" if "j < 64" "p_state (ps[i := p'] ! j) = EMBRYO" for j
    using that mk(2) mk(1) [of j] D(6) [of j] by (cases "j = i") (auto simp: at)
  show "p_parent (ps[i := p'] ! j) = None" if "j < 64" "p_state (ps[i := p'] ! j) = UNUSED" for j
    using that free D(7) [of j] by (auto simp: at split: if_splits)
  show "p_chan (ps[i := p'] ! j) \<noteq> None" if "j < 64" "p_state (ps[i := p'] ! j) = SLEEPING" for j
    using that chan D(8) [of j] by (auto simp: at split: if_splits)
  show "0 < p_pid (ps[i := p'] ! j) \<and> p_pid (ps[i := p'] ! j) < np'" if "j < 64" "p_state (ps[i := p'] ! j) \<noteq> UNUSED" for j
    using that pid(1) D(9) [of j] np by (cases "j = i") (auto simp: at)
  show "p_pid (ps[i := p'] ! j) \<noteq> p_pid (ps[i := p'] ! l)"
    if "j < 64" "l < 64" "j \<noteq> l" "p_state (ps[i := p'] ! j) \<noteq> UNUSED" "p_state (ps[i := p'] ! l) \<noteq> UNUSED" for j l
    using that pid(2) [of j] pid(2) [of l] D(10) [of j l] by (cases "j = i"; cases "l = i") (auto simp: at)
  show "\<exists>q < 64. p_parent (ps[i := p'] ! j) = Some q \<and> live (ps[i := p'] ! q)"
    if "j < 64" "j \<noteq> ini" "p_state (ps[i := p'] ! j) \<notin> {UNUSED, EMBRYO}" for j
  proof -
    have "\<exists>q < 64. p_parent (ps[i := p'] ! j) = Some q \<and> live (ps ! q)"
      using that par D(11) [of j] by (cases "j = i") (simp_all add: at)
    then show ?thesis using lv' by blast
  qed
  show "no_files (ps[i := p'] ! j)" if "j < 64" "p_state (ps[i := p'] ! j) \<in> {UNUSED, ZOMBIE}" for j
    using that free(2) D(12) [of j] by (cases "j = i") (simp_all add: at)
  show "q < 64 \<and> j < 64 \<and> live (ps[i := p'] ! q) \<and> p_state (ps[i := p'] ! j) = EMBRYO \<and>
      p_parent (ps[i := p'] ! j) = (if b then Some q else None) \<and> (b \<or> no_files (ps[i := p'] ! j))"
    if "making (pcs' q) = Some (j, b)" for q j b
  proof (cases "j = i")
    case True
    with mk(3) [of q b] that lv' [of q] i show ?thesis by (simp add: at)
  next
    case False
    with mk(1) [OF False, of q b] that D(13) [of q j b] lv' [of q] show ?thesis by (simp add: at)
  qed
  show "q = q'" if "making (pcs' q) = Some (j, b)" "making (pcs' q') = Some (j, b')" for q q' j b b'
    using that mk(4) mk(1) [of j] D(14) by (cases "j = i") blast+
  show "q < 64 \<and> live (ps[i := p'] ! q) \<and> q \<noteq> ini \<and> (\<forall>m < n. p_ofile (ps[i := p'] ! q) m = None)"
    if "closed (pcs' q) = Some n" for q n
    using that cl D(15) [of q n] i by (cases "q = i") (auto simp: at)
qed

text \<open>The running process, or one that was picked to run, changes fields of its own.\<close>

lemma ptable_ok_own:
  assumes ok: "ptable_ok pcs ini c np ps" and i: "i < 64" and l: "live (ps ! i)" "live p'"
    and same: "p_pid p' = p_pid (ps ! i)" "p_parent p' = p_parent (ps ! i)"
    and chan: "p_state p' = SLEEPING \<Longrightarrow> p_chan p' \<noteq> None"
    and run: "p_state p' = RUNNING \<longleftrightarrow> c' = Some i" "\<And>j. j \<noteq> i \<Longrightarrow> c = Some j \<longleftrightarrow> c' = Some j"
    and mk: "\<And>q. making (pcs' q) = making (pcs q)"
    and cl: "\<And>q. q \<noteq> i \<Longrightarrow> closed (pcs' q) = closed (pcs q)"
      "\<And>n. closed (pcs' i) = Some n \<Longrightarrow> i \<noteq> ini \<and> (\<forall>m < n. p_ofile p' m = None)"
  shows "ptable_ok pcs' ini c' np (ps[i := p'])"
proof (rule ptable_ok_entry [OF ok i])
  note D = ptable_okD [OF ok]
  have st: "p_state (ps ! i) \<notin> {UNUSED, EMBRYO, ZOMBIE}" "p_state p' \<notin> {UNUSED, EMBRYO, ZOMBIE}" using l by (auto simp: live_def)
  have nm: "making (pcs q) \<noteq> Some (i, b)" for q b using D(13) [of q i b] st by auto
  show "0 < p_pid p' \<and> p_pid p' < np" using D(9) [OF i] st same by simp
  show "p_pid p' \<noteq> p_pid (ps ! j)" if "j < 64" "j \<noteq> i" "p_state (ps ! j) \<noteq> UNUSED" for j
    using D(10) [OF i that(1)] that st same by simp
  show "\<exists>q < 64. p_parent p' = Some q \<and> live (ps ! q)" if "i \<noteq> ini" using D(11) [OF i that] st same by simp
  show "q < 64 \<and> live (ps ! q) \<and> p_state p' = EMBRYO \<and> p_parent p' = (if b then Some q else None) \<and> (b \<or> no_files p')"
    if "making (pcs' q) = Some (i, b)" for q b using that nm mk by simp
  show "q = q'" if "making (pcs' q) = Some (i, b)" for q q' b using that nm mk by simp
qed (use l run chan mk cl in \<open>auto simp: live_def\<close>)

text \<open>The life of an entry while \<open>fork\<close> fills it: taken, changed by its maker, given back, or published.\<close>

lemma ptable_ok_taken:
  assumes ok: "ptable_ok pcs ini c np ps" and i: "i < 64" "p_state (ps ! i) = UNUSED" and q: "q < 64" "live (ps ! q)" "pcs q = Elsewhere"
    and p': "p_state p' = EMBRYO" "p_pid p' = np" "p_parent p' = p_parent (ps ! i)" "p_ofile p' = p_ofile (ps ! i)" and np: "0 < np"
  shows "ptable_ok (pcs(q := Fork_stack i)) ini c (np + 1) (ps[i := p'])"
proof (rule ptable_ok_entry [OF ok i(1)])
  note D = ptable_okD [OF ok]
  have nm: "making (pcs q') \<noteq> Some (i, b)" for q' b using D(13) [of q' i b] i by auto
  have nf: "no_files p'" using D(12) [OF i(1)] i(2) p'(4) by (simp add: no_files_def)
  show "p_pid p' \<noteq> p_pid (ps ! j)" if "j < 64" "j \<noteq> i" "p_state (ps ! j) \<noteq> UNUSED" for j using D(9) [OF that(1,3)] p'(2) by simp
  show "\<exists>q' b. making ((pcs(q := Fork_stack i)) q') = Some (i, b)" by (intro exI [of _ q] exI [of _ False]) simp
  show "q' < 64 \<and> live (ps ! q') \<and> p_state p' = EMBRYO \<and> p_parent p' = (if b then Some q' else None) \<and> (b \<or> no_files p')"
    if "making ((pcs(q := Fork_stack i)) q') = Some (i, b)" for q' b
    using that nm [of q' b] q nf p' D(7) [OF i] by (cases "q' = q") auto
  show "making ((pcs(q := Fork_stack i)) q') = Some (j, b) \<longleftrightarrow> making (pcs q') = Some (j, b)" if "j \<noteq> i" for q' j b
    using that q(3) by (cases "q' = q") auto
  show "q' = q''" if "making ((pcs(q := Fork_stack i)) q') = Some (i, b)" "making ((pcs(q := Fork_stack i)) q'') = Some (i, b')" for q' q'' b b'
    using that nm by (cases "q' = q"; cases "q'' = q") auto
  show "closed (pcs q') = Some n" if "closed ((pcs(q := Fork_stack i)) q') = Some n" for q' n
    using that by (cases "q' = q") auto
  show "live p' \<and> i \<noteq> ini \<and> (\<forall>m < n. p_ofile p' m = None)" if "closed ((pcs(q := Fork_stack i)) i) = Some n" for n
    using that D(15) [of i n] i by (cases "i = q") auto
  show "p_state p' = RUNNING \<longleftrightarrow> c = Some i" using D(4) [OF i(1)] i(2) p'(1) by simp
qed (use i p' np in \<open>auto simp: live_def\<close>)

lemma making_unique:
  assumes "ptable_ok pcs ini c np ps" and "making (pcs q) = Some (i, b)" and "making (pcs q') = Some (i, b')"
  shows "q' = q" "b' = b"
  using ptable_okD(14) [OF assms] assms(2,3) by auto

text \<open>The maker of an entry goes on to a position where it fills the entry, or leaves it (in state \<open>UNUSED\<close> or \<open>RUNNABLE\<close>).\<close>

lemma ptable_ok_maker:
  assumes ok: "ptable_ok pcs ini c np ps" and mk: "making (pcs q) = Some (i, b)"
    and same: "p_pid p' = p_pid (ps ! i)"
    and pc: "closed pc = None" "case making pc of
        Some (j, b') \<Rightarrow> j = i \<and> p_state p' = EMBRYO \<and> p_parent p' = (if b' then Some q else None) \<and> (b' \<or> no_files p')
      | None \<Rightarrow> p_state p' = UNUSED \<and> p_parent p' = None \<and> no_files p' \<or> p_state p' = RUNNABLE \<and> p_parent p' = Some q"
  shows "ptable_ok (pcs(q := pc)) ini c np (ps[i := p'])"
proof -
  note D = ptable_okD [OF ok]
  have M: "q < 64" "i < 64" "live (ps ! q)" "p_state (ps ! i) = EMBRYO" using D(13) [OF mk] by simp_all
  have only: "making (pcs q') = Some (i, b') \<Longrightarrow> q' = q" for q' b' using making_unique [OF ok mk] by blast
  have pcE: "p_state p' \<in> {UNUSED, RUNNABLE, EMBRYO}" "p_state p' = UNUSED \<Longrightarrow> p_parent p' = None \<and> no_files p'"
    "p_state p' = RUNNABLE \<Longrightarrow> p_parent p' = Some q" "p_state p' = EMBRYO \<longleftrightarrow> making pc \<noteq> None"
    using pc(2) by (auto split: option.splits prod.splits)
  show ?thesis
  proof (rule ptable_ok_entry [OF ok M(2)])
    show "p_pid p' \<noteq> p_pid (ps ! j)" if "j < 64" "j \<noteq> i" "p_state (ps ! j) \<noteq> UNUSED" for j
      using D(10) [OF that(1) M(2) that(2,3)] M(4) same by simp
    show "0 < p_pid p' \<and> p_pid p' < np" using D(9) [OF M(2)] M(4) same by simp
    show "making ((pcs(q := pc)) q') = Some (j, b') \<longleftrightarrow> making (pcs q') = Some (j, b')" if "j \<noteq> i" for q' j b'
      using that mk pc(2) by (cases "q' = q") (auto split: option.splits)
    show "\<exists>q' b. making ((pcs(q := pc)) q') = Some (i, b)" if "p_state p' = EMBRYO"
      using that pc(2) by (intro exI [of _ q]) (auto split: option.splits)
    show "q' < 64 \<and> live (ps ! q') \<and> p_state p' = EMBRYO \<and> p_parent p' = (if b' then Some q' else None) \<and> (b' \<or> no_files p')"
      if "making ((pcs(q := pc)) q') = Some (i, b')" for q' b'
      using that only [of q' b'] pc(2) M by (cases "q' = q") auto
    show "q' = q''" if "making ((pcs(q := pc)) q') = Some (i, b1)" "making ((pcs(q := pc)) q'') = Some (i, b2)" for q' q'' b1 b2
      using that only by (cases "q' = q"; cases "q'' = q") auto
    show "closed (pcs q') = Some n" if "closed ((pcs(q := pc)) q') = Some n" for q' n
      using that pc(1) by (cases "q' = q") auto
    show "live p' \<and> i \<noteq> ini \<and> (\<forall>m < n. p_ofile p' m = None)" if "closed ((pcs(q := pc)) i) = Some n" for n
      using that pc(1) D(15) [of i n] M(4) by (cases "i = q") auto
    show "p_state p' = RUNNING \<longleftrightarrow> c = Some i" using D(4) [OF M(2)] M(4) pcE(1) by auto
    show "\<exists>q < 64. p_parent p' = Some q \<and> live (ps ! q)" if "p_state p' \<notin> {UNUSED, EMBRYO}"
      using that pcE M by auto
  qed (use M pcE in \<open>auto simp: live_def\<close>)
qed

lemma ptable_ok_reap:
  assumes ok: "ptable_ok pcs ini c np ps" and i: "i < 64" and st: "p_state (ps ! i) = ZOMBIE" "p_state p' = UNUSED"
    and p': "p_parent p' = None" "p_ofile p' = p_ofile (ps ! i)"
  shows "ptable_ok pcs ini c np (ps[i := p'])"
proof (rule ptable_ok_entry [OF ok i])
  note D = ptable_okD [OF ok]
  have nm: "making (pcs q) \<noteq> Some (i, b)" for q b using D(13) [of q i b] st by auto
  show "q < 64 \<and> live (ps ! q) \<and> p_state p' = EMBRYO \<and> p_parent p' = (if b then Some q else None) \<and> (b \<or> no_files p')"
    if "making (pcs q) = Some (i, b)" for q b using that nm by simp
  show "q = q'" if "making (pcs q) = Some (i, b)" for q q' b using that nm by simp
  show "no_files p'" using D(12) [OF i] st p' by (simp add: no_files_def)
  show "live p' \<and> i \<noteq> ini \<and> (\<forall>m < n. p_ofile p' m = None)" if "closed (pcs i) = Some n" for n
    using D(15) [OF that] st by simp
  show "p_state p' = RUNNING \<longleftrightarrow> c = Some i" using D(4) [OF i] st by simp
qed (use st p' in \<open>auto simp: live_def\<close>)

text \<open>A wakeup changes a state at most from \<open>SLEEPING\<close> to \<open>RUNNABLE\<close>.\<close>

definition woken :: "procstate \<Rightarrow> procstate \<Rightarrow> bool" where
  "woken s s' \<longleftrightarrow> s' = s \<or> s = SLEEPING \<and> s' = RUNNABLE"

lemma wakeup1_simps [simp]:
  "length (wakeup1 ch ps) = length ps"
  "i < length ps \<Longrightarrow> wakeup1 ch ps ! i =
     (if p_state (ps ! i) = SLEEPING \<and> p_chan (ps ! i) = Some ch then (ps ! i)\<lparr>p_state := RUNNABLE\<rparr> else ps ! i)"
  by (simp_all add: wakeup1_def)

lemma woken_simps [simp]: "woken s s" "woken SLEEPING RUNNABLE"
  by (simp_all add: woken_def)

lemma abandon_fold:
  assumes "set js \<subseteq> {..<length ps}" and "c \<noteq> ini"
  shows "length (fold (abandon c ini) js ps) = length ps \<and> (\<forall>i < length ps.
    p_pid (fold (abandon c ini) js ps ! i) = p_pid (ps ! i) \<and>
    p_chan (fold (abandon c ini) js ps ! i) = p_chan (ps ! i) \<and>
    p_ofile (fold (abandon c ini) js ps ! i) = p_ofile (ps ! i) \<and>
    woken (p_state (ps ! i)) (p_state (fold (abandon c ini) js ps ! i)) \<and>
    p_parent (fold (abandon c ini) js ps ! i) =
      (if i \<in> set js \<and> p_parent (ps ! i) = Some c then Some ini else p_parent (ps ! i)))"
  using assms(1)
proof (induction js arbitrary: ps)
  case Nil
  then show ?case by simp
next
  case (Cons j js)
  let ?ps = "abandon c ini j ps"
  have len: "length ?ps = length ps" by (simp add: abandon_def Let_def)
  have j: "j < length ps" using Cons.prems by simp
  have one: "p_pid (?ps ! i) = p_pid (ps ! i) \<and> p_chan (?ps ! i) = p_chan (ps ! i) \<and> p_ofile (?ps ! i) = p_ofile (ps ! i) \<and>
      woken (p_state (ps ! i)) (p_state (?ps ! i)) \<and>
      p_parent (?ps ! i) = (if i = j \<and> p_parent (ps ! i) = Some c then Some ini else p_parent (ps ! i))"
    if i: "i < length ps" for i
    using i j by (cases "i = j") (simp_all add: abandon_def Let_def)
  have IH: "length (fold (abandon c ini) js ?ps) = length ?ps" "\<And>i. i < length ps \<Longrightarrow>
      p_pid (fold (abandon c ini) js ?ps ! i) = p_pid (?ps ! i) \<and>
      p_chan (fold (abandon c ini) js ?ps ! i) = p_chan (?ps ! i) \<and>
      p_ofile (fold (abandon c ini) js ?ps ! i) = p_ofile (?ps ! i) \<and>
      woken (p_state (?ps ! i)) (p_state (fold (abandon c ini) js ?ps ! i)) \<and>
      p_parent (fold (abandon c ini) js ?ps ! i) =
        (if i \<in> set js \<and> p_parent (?ps ! i) = Some c then Some ini else p_parent (?ps ! i))"
    using Cons.IH [of ?ps] Cons.prems len by auto
  show ?case
  proof (intro conjI allI impI)
    show "length (fold (abandon c ini) (j # js) ps) = length ps" using IH(1) len by simp
    fix i assume i: "i < length ps"
    note IHi = IH(2) [OF i] and onei = one [OF i]
    show "p_pid (fold (abandon c ini) (j # js) ps ! i) = p_pid (ps ! i)"
      "p_chan (fold (abandon c ini) (j # js) ps ! i) = p_chan (ps ! i)"
      "p_ofile (fold (abandon c ini) (j # js) ps ! i) = p_ofile (ps ! i)" using IHi onei by simp_all
    show "woken (p_state (ps ! i)) (p_state (fold (abandon c ini) (j # js) ps ! i))"
      using IHi onei by (auto simp: woken_def)
    show "p_parent (fold (abandon c ini) (j # js) ps ! i) =
      (if i \<in> set (j # js) \<and> p_parent (ps ! i) = Some c then Some ini else p_parent (ps ! i))"
      using IHi onei assms(2) by (cases "p_parent (ps ! i) = Some c"; cases "i = j") auto
  qed
qed

lemma ptable_ok_exit:
  assumes ok: "ptable_ok pcs ini (Some c) np ps" and ci: "c \<noteq> ini" and len: "length ps' = 64"
    and pc: "making (pcs c) = None" "no_files (ps ! c)"
    and new: "\<And>i. i < 64 \<Longrightarrow> p_pid (ps' ! i) = p_pid (ps ! i) \<and> p_chan (ps' ! i) = p_chan (ps ! i) \<and> p_ofile (ps' ! i) = p_ofile (ps ! i) \<and>
      (if i = c then p_state (ps' ! i) = ZOMBIE else woken (p_state (ps ! i)) (p_state (ps' ! i))) \<and>
      p_parent (ps' ! i) = (if p_parent (ps ! i) = Some c then Some ini else p_parent (ps ! i))"
  shows "ptable_ok (pcs(c := Elsewhere)) ini None np ps'"
proof (rule ptable_okI)
  note D = ptable_okD [OF ok]
  have c: "c < 64" using D(5) by simp
  have run: "p_state (ps ! c) = RUNNING" using D(4) [OF c] by simp
  have lv: "live (ps' ! i) \<longleftrightarrow> live (ps ! i) \<and> i \<noteq> c" if "i < 64" for i
    using new [OF that] run by (cases "i = c") (auto simp: live_def woken_def)
  have un: "p_state (ps' ! i) = s \<longleftrightarrow> p_state (ps ! i) = s" if "i < 64" "s \<in> {UNUSED, EMBRYO}" for i s
    using new [OF that(1)] run that(2) by (cases "i = c") (auto simp: woken_def)
  have nf: "no_files (ps' ! i) = no_files (ps ! i)" if "i < 64" for i using new [OF that] by (simp add: no_files_def)
  have other: "p_parent (ps ! i) \<noteq> Some c" if "making (pcs q) = Some (i, b)" "q \<noteq> c" for q i b
    using D(13) [OF that(1)] that(2) by auto
  have mk: "making (pcs q) = Some (i, b) \<and> q \<noteq> c" if "making ((pcs(c := Elsewhere)) q) = Some (i, b)" for q i b
    using that by (cases "q = c") auto
  show "length ps' = 64" "ini < 64" by (fact len, fact D(2))
  show li: "live (ps' ! ini)" using lv [OF D(2)] D(3) ci by simp
  show "p_state (ps' ! j) = RUNNING \<longleftrightarrow> None = Some j" if "j < 64" for j
    using new [OF that] D(4) [OF that] by (cases "j = c") (auto simp: woken_def)
  show "\<exists>q b. making ((pcs(c := Elsewhere)) q) = Some (j, b)" if "j < 64" "p_state (ps' ! j) = EMBRYO" for j
  proof -
    from D(6) [OF that(1)] un [OF that(1)] that(2) obtain q b where "making (pcs q) = Some (j, b)" by auto
    with pc(1) show ?thesis by (intro exI [of _ q]) (auto split: if_splits)
  qed
  show "p_parent (ps' ! j) = None" if "j < 64" "p_state (ps' ! j) = UNUSED" for j using un D(7) new that by simp
  show "p_chan (ps' ! j) \<noteq> None" if "j < 64" "p_state (ps' ! j) = SLEEPING" for j
    using new [OF that(1)] D(8) [OF that(1)] that(2) by (cases "j = c") (auto simp: woken_def)
  show "0 < p_pid (ps' ! j) \<and> p_pid (ps' ! j) < np" if "j < 64" "p_state (ps' ! j) \<noteq> UNUSED" for j
    using D(9) un new that by simp
  show "p_pid (ps' ! j) \<noteq> p_pid (ps' ! l)"
    if "j < 64" "l < 64" "j \<noteq> l" "p_state (ps' ! j) \<noteq> UNUSED" "p_state (ps' ! l) \<noteq> UNUSED" for j l
    using D(10) un new that by simp
  show "\<exists>q < 64. p_parent (ps' ! j) = Some q \<and> live (ps' ! q)"
    if "j < 64" "j \<noteq> ini" "p_state (ps' ! j) \<notin> {UNUSED, EMBRYO}" for j
  proof -
    from D(11) [OF that(1,2)] un [OF that(1)] that(3) obtain q where q: "q < 64" "p_parent (ps ! j) = Some q" "live (ps ! q)"
      by auto
    then show ?thesis using new [OF that(1)] lv [OF q(1)] li D(2) by (cases "q = c") auto
  qed
  show "no_files (ps' ! j)" if "j < 64" "p_state (ps' ! j) \<in> {UNUSED, ZOMBIE}" for j
  proof (cases "j = c")
    case False
    then have "p_state (ps ! j) \<in> {UNUSED, ZOMBIE}" using new [OF that(1)] that(2) by (auto simp: woken_def)
    then show ?thesis using D(12) [OF that(1)] nf [OF that(1)] by simp
  qed (use pc(2) nf [OF c] in simp)
  show "q < 64 \<and> i < 64 \<and> live (ps' ! q) \<and> p_state (ps' ! i) = EMBRYO \<and>
      p_parent (ps' ! i) = (if b then Some q else None) \<and> (b \<or> no_files (ps' ! i))"
    if "making ((pcs(c := Elsewhere)) q) = Some (i, b)" for q i b
    using D(13) [of q i b] mk [OF that] other [of q i b] new [of i] un [of i EMBRYO] lv [of q] nf [of i] by auto
  show "q = q'" if "making ((pcs(c := Elsewhere)) q) = Some (i, b)" "making ((pcs(c := Elsewhere)) q') = Some (i, b')" for q q' i b b'
    using mk [OF that(1)] mk [OF that(2)] D(14) by blast
  show "q < 64 \<and> live (ps' ! q) \<and> q \<noteq> ini \<and> (\<forall>m < n. p_ofile (ps' ! q) m = None)"
    if "closed ((pcs(c := Elsewhere)) q) = Some n" for q n
    using that D(15) [of q n] lv [of q] new [of q] by (cases "q = c") auto
qed simp

subsection \<open>The sections keep the invariant\<close>

lemma kernel_invE:
  assumes "kernel_inv pcs k"
  obtains ini where "initproc k = Some ini" "ptable_ok pcs ini (cur k) (nextpid k) (ptable k)" "0 < nextpid k"
    "nextpid k \<le> INT_MAX" "pc_ok (sch_pc k)"
  using assms by (auto simp: kernel_inv_def)

lemma kernel_invI:
  assumes "initproc k = Some ini" and "ptable_ok pcs ini (cur k) (nextpid k) (ptable k)" and "0 < nextpid k"
    and "nextpid k \<le> INT_MAX" and "pc_ok (sch_pc k)"
  shows "kernel_inv pcs k"
  using assms by (simp add: kernel_inv_def)

lemma proc_invE:
  assumes "proc_inv k"
  obtains pcs where "kernel_inv pcs k" "\<forall>c. cur k = Some c \<longrightarrow> pcs c = Elsewhere"
  using assms unfolding proc_inv_def by blast

lemma proc_invI: "kernel_inv pcs k \<Longrightarrow> (\<And>c. cur k = Some c \<Longrightarrow> pcs c = Elsewhere) \<Longrightarrow> proc_inv k"
  by (auto simp: proc_inv_def)

text \<open>A step that keeps the table consistent for all positions of the processes, and does not give the CPU to another process.\<close>

lemma proc_inv_step:
  assumes "proc_inv k" and "cur k' = None \<or> cur k' = cur k"
    and "\<And>pcs. kernel_inv pcs k \<Longrightarrow> (\<And>c. cur k = Some c \<Longrightarrow> pcs c = Elsewhere) \<Longrightarrow> kernel_inv pcs k'"
  shows "proc_inv k'"
proof -
  from assms(1) obtain pcs where pcs: "kernel_inv pcs k" "\<forall>c. cur k = Some c \<longrightarrow> pcs c = Elsewhere" by (rule proc_invE)
  show ?thesis by (rule proc_invI [of pcs], rule assms(3) [OF pcs(1)]) (use assms(2) pcs(2) in auto)
qed

lemma kcur_live:
  assumes "kernel_inv pcs k" and "cur k = Some c"
  shows "c < 64" "p_state (ptable k ! c) = RUNNING" "live (ptable k ! c)" "length (ptable k) = 64"
  using assms ptable_okD(1,4,5) by (auto simp: kernel_inv_def live_def)

lemma cur_live:
  assumes "proc_inv k" and "cur k = Some c"
  shows "c < 64" "p_state (ptable k ! c) = RUNNING" "live (ptable k ! c)" "length (ptable k) = 64"
  using assms kcur_live by (auto simp: proc_inv_def)

lemma kernel_inv_rest [simp]: "kernel_inv pcs (k\<lparr>rest := r\<rparr>) = kernel_inv pcs k"
  by (simp add: kernel_inv_def)

lemma proc_inv_rest [simp]: "proc_inv (k\<lparr>rest := r\<rparr>) = proc_inv k"
  by (simp add: proc_inv_def)

lemma upd_proc_upd: "i < length (ptable k) \<Longrightarrow> upd_proc i g (upd_proc i f k) = upd_proc i (\<lambda>p. g (f p)) k"
  by (simp add: upd_proc_def)

lemma upd_proc_rest: "(upd_proc i f k)\<lparr>rest := r\<rparr> = upd_proc i f (k\<lparr>rest := r\<rparr>)"
  by (simp add: upd_proc_def)

definition picked :: "nat \<Rightarrow> sched_pc \<Rightarrow> sched_pc" where
  "picked c pc = (case pc of Picking _ h \<Rightarrow> Picking (Suc c) h | pc \<Rightarrow> pc)"

lemma pc_ok_picked [simp]: "pc_ok (picked c pc) = pc_ok pc"
  by (cases pc) (simp_all add: picked_def pc_ok_def)

lemma sched_run:
  assumes "cur k = Some c" and "c < length (ptable k)" and "p_state (f (ptable k ! c)) \<noteq> RUNNING"
  shows "sched (upd_proc c f k) = Inr ((upd_proc c (\<lambda>p. (f p)\<lparr>p_nice := p_nice (f p) + 1\<rparr>) k)
    \<lparr>cur := None, sch_pc := picked c (sch_pc k)\<rparr>)"
proof -
  have "myproc (upd_proc c f k) = Inr c" using assms(1) by simp
  with assms show ?thesis by (simp add: sched_def proc_at_def upd_proc_def picked_def)
qed

lemma sched_kinv:
  assumes inv: "kernel_inv pcs k" and c: "cur k = Some c" and f: "p_state (f (ptable k ! c)) \<in> {RUNNABLE, SLEEPING}"
    "p_state (f (ptable k ! c)) = SLEEPING \<Longrightarrow> p_chan (f (ptable k ! c)) \<noteq> None"
    "p_pid (f (ptable k ! c)) = p_pid (ptable k ! c)" "p_parent (f (ptable k ! c)) = p_parent (ptable k ! c)"
    "p_ofile (f (ptable k ! c)) = p_ofile (ptable k ! c)"
    and run: "sched (upd_proc c f k) = Inr k'"
  shows "kernel_inv pcs k'"
proof -
  note C = kcur_live [OF inv c]
  from inv obtain ini where ini: "initproc k = Some ini" "ptable_ok pcs ini (cur k) (nextpid k) (ptable k)" "0 < nextpid k"
    "nextpid k \<le> INT_MAX" "pc_ok (sch_pc k)" by (rule kernel_invE)
  have k': "k' = (upd_proc c (\<lambda>p. (f p)\<lparr>p_nice := p_nice (f p) + 1\<rparr>) k)\<lparr>cur := None, sch_pc := picked c (sch_pc k)\<rparr>"
    using run sched_run [of k c f] c C f(1) by auto
  have "ptable_ok pcs ini None (nextpid k) ((ptable k)[c := (f (ptable k ! c))\<lparr>p_nice := p_nice (f (ptable k ! c)) + 1\<rparr>])"
  proof (rule ptable_ok_own [OF ini(2) C(1,3)])
    show "c \<noteq> ini \<and> (\<forall>m < n. p_ofile ((f (ptable k ! c))\<lparr>p_nice := p_nice (f (ptable k ! c)) + 1\<rparr>) m = None)"
      if "closed (pcs c) = Some n" for n using ptable_okD(15) [OF ini(2) that] f by simp
  qed (use f c in \<open>auto simp: live_def\<close>)
  then show ?thesis using ini k' by (simp add: kernel_inv_def)
qed

lemma yield_kinv: "kernel_inv pcs k \<Longrightarrow> yield_cpu k = Inr k' \<Longrightarrow> kernel_inv pcs k'"
  by (auto simp: yield_cpu_def elim!: sched_kinv [rotated -1])

lemma sleep_kinv: "kernel_inv pcs k \<Longrightarrow> sleep_on ch k = Inr k' \<Longrightarrow> kernel_inv pcs k'"
  by (auto simp: sleep_on_def split: option.splits elim!: sched_kinv [rotated -1])

text \<open>The running process changes fields of its own; inside \<open>exit\<close> it may also have closed one more file.\<close>

lemma own_kinv:
  assumes inv: "kernel_inv pcs k" and c: "cur k = Some c"
    and f: "p_state (f (ptable k ! c)) = p_state (ptable k ! c)" "p_pid (f (ptable k ! c)) = p_pid (ptable k ! c)"
      "p_parent (f (ptable k ! c)) = p_parent (ptable k ! c)"
    and pc: "making pc = making (pcs c)" "\<And>n. closed pc = Some n \<Longrightarrow> initproc k \<noteq> Some c \<and> (\<forall>m < n. p_ofile (f (ptable k ! c)) m = None)"
  shows "kernel_inv (pcs(c := pc)) (upd_proc c f (k\<lparr>rest := r\<rparr>))"
proof -
  note C = kcur_live [OF inv c]
  from inv obtain ini where ini: "initproc k = Some ini" "ptable_ok pcs ini (cur k) (nextpid k) (ptable k)" "0 < nextpid k"
    "nextpid k \<le> INT_MAX" "pc_ok (sch_pc k)" by (rule kernel_invE)
  have "ptable_ok (pcs(c := pc)) ini (cur k) (nextpid k) ((ptable k)[c := f (ptable k ! c)])"
  proof (rule ptable_ok_own [OF ini(2) C(1,3)])
    show "c \<noteq> ini \<and> (\<forall>m < n. p_ofile (f (ptable k ! c)) m = None)" if "closed ((pcs(c := pc)) c) = Some n" for n
      using pc(2) [of n] that ini(1) by auto
  qed (use C f c pc(1) in \<open>auto simp: live_def\<close>)
  then show ?thesis using ini by (simp add: kernel_inv_def)
qed

lemma own_same_kinv:
  assumes inv: "kernel_inv pcs k" and c: "cur k = Some c"
    and f: "p_state (f (ptable k ! c)) = p_state (ptable k ! c)" "p_pid (f (ptable k ! c)) = p_pid (ptable k ! c)"
      "p_parent (f (ptable k ! c)) = p_parent (ptable k ! c)" "p_ofile (f (ptable k ! c)) = p_ofile (ptable k ! c) \<or> pcs c = Elsewhere"
  shows "kernel_inv pcs (upd_proc c f (k\<lparr>rest := r\<rparr>))"
proof -
  from inv obtain ini where ini: "initproc k = Some ini" "ptable_ok pcs ini (cur k) (nextpid k) (ptable k)" by (rule kernel_invE)
  have "kernel_inv (pcs(c := pcs c)) (upd_proc c f (k\<lparr>rest := r\<rparr>))"
  proof (rule own_kinv [OF inv c, where f = f, OF f(1-3)])
    show "initproc k \<noteq> Some c \<and> (\<forall>m < n. p_ofile (f (ptable k ! c)) m = None)" if "closed (pcs c) = Some n" for n
      using f(4) ptable_okD(15) [OF ini(2) that] ini(1) that by auto
  qed simp
  then show ?thesis by simp
qed

lemmas own_same_kinv2 = own_same_kinv [where r = "rest k" and k = k for k, simplified]

lemma resume_kinv: "kernel_inv pcs k \<Longrightarrow> resume k = Inr k' \<Longrightarrow> kernel_inv pcs k'"
  by (auto simp: resume_def own_same_kinv2)

lemma set_prio_kinv: "kernel_inv pcs k \<Longrightarrow> set_prio n k = Inr (r, k') \<Longrightarrow> kernel_inv pcs k'"
  by (auto simp: set_prio_def own_same_kinv2)

lemma grow_kinv: "kernel_inv pcs k \<Longrightarrow> growproc S n k = Inr (r, k') \<Longrightarrow> kernel_inv pcs k'"
  by (auto simp: growproc_def Let_def own_same_kinv own_same_kinv2 split: if_splits)

lemma wakeup_kinv:
  assumes "kernel_inv pcs k"
  shows "kernel_inv pcs (wakeup ch k)"
proof -
  from assms obtain ini where ini: "initproc k = Some ini" "ptable_ok pcs ini (cur k) (nextpid k) (ptable k)" "0 < nextpid k"
    "nextpid k \<le> INT_MAX" "pc_ok (sch_pc k)" by (rule kernel_invE)
  note D = ptable_okD [OF ini(2)]
  have "ptable_ok pcs ini (cur k) (nextpid k) (wakeup1 ch (ptable k))"
  proof (rule ptable_ok_same [OF ini(2)])
    let ?ps = "wakeup1 ch (ptable k)"
    fix j :: nat assume "j < 64"
    then show "p_pid (?ps ! j) = p_pid (ptable k ! j) \<and> p_parent (?ps ! j) = p_parent (ptable k ! j) \<and>
      p_ofile (?ps ! j) = p_ofile (ptable k ! j) \<and> live (?ps ! j) = live (ptable k ! j) \<and>
      (live (ptable k ! j) \<or> p_state (?ps ! j) = p_state (ptable k ! j)) \<and>
      (p_state (?ps ! j) = SLEEPING \<longrightarrow> p_chan (?ps ! j) \<noteq> None) \<and> (p_state (?ps ! j) = RUNNING \<longleftrightarrow> cur k = Some j)"
      using D(1) D(4,8) [of j] by (auto simp: live_def)
  qed (use D in auto)
  with ini show ?thesis by (simp add: kernel_inv_def wakeup_def)
qed

lemma kill_kinv:
  assumes "kernel_inv pcs k" and "kill pid k = (r, k')"
  shows "kernel_inv pcs k'"
proof (cases "find_slot (\<lambda>p. p_pid p = pid) (ptable k)")
  case None
  with assms show ?thesis by (simp add: kill_def)
next
  case (Some i)
  from assms(1) obtain ini where ini: "initproc k = Some ini" "ptable_ok pcs ini (cur k) (nextpid k) (ptable k)" "0 < nextpid k"
    "nextpid k \<le> INT_MAX" "pc_ok (sch_pc k)" by (rule kernel_invE)
  note D = ptable_okD [OF ini(2)]
  have i: "i < 64" using find_slot_bound [OF Some] D(1) by simp
  let ?p = "(ptable k ! i)\<lparr>p_killed := True, p_state := (if p_state (ptable k ! i) = SLEEPING then RUNNABLE else p_state (ptable k ! i))\<rparr>"
  let ?ps = "(ptable k)[i := ?p]"
  have "ptable_ok pcs ini (cur k) (nextpid k) ?ps"
  proof (rule ptable_ok_same [OF ini(2)])
    fix j :: nat assume "j < 64"
    then show "p_pid (?ps ! j) = p_pid (ptable k ! j) \<and> p_parent (?ps ! j) = p_parent (ptable k ! j) \<and>
      p_ofile (?ps ! j) = p_ofile (ptable k ! j) \<and> live (?ps ! j) = live (ptable k ! j) \<and>
      (live (ptable k ! j) \<or> p_state (?ps ! j) = p_state (ptable k ! j)) \<and>
      (p_state (?ps ! j) = SLEEPING \<longrightarrow> p_chan (?ps ! j) \<noteq> None) \<and> (p_state (?ps ! j) = RUNNING \<longleftrightarrow> cur k = Some j)"
      using D(1) D(4,8) [of j] by (cases "j = i") (auto simp: live_def)
  qed (use D in auto)
  with assms Some ini show ?thesis by (auto simp: kill_def kernel_inv_def)
qed

lemma candidateD:
  "candidate k i h = Some j \<Longrightarrow> i \<le> j \<and> j < length (ptable k) \<and> p_state (ptable k ! j) = RUNNABLE \<and>
     p_prio (ptable k ! j) = h"
  by (auto simp: candidate_def proc_at_def find_Some_iff)

lemma switch_kinv:
  assumes inv: "kernel_inv pcs k" and idle: "cur k = None" and i: "i < 64" "p_state (ptable k ! i) = RUNNABLE" and h: "0 \<le> h"
  shows "kernel_inv pcs (switch_to i h k)"
proof -
  from inv obtain ini where ini: "initproc k = Some ini" "ptable_ok pcs ini (cur k) (nextpid k) (ptable k)" "0 < nextpid k"
    "nextpid k \<le> INT_MAX" by (rule kernel_invE)
  have "ptable_ok pcs ini (Some i) (nextpid k) ((ptable k)[i := (ptable k ! i)\<lparr>p_state := RUNNING\<rparr>])"
  proof (rule ptable_ok_own [OF ini(2) i(1)])
    show "i \<noteq> ini \<and> (\<forall>m < n. p_ofile ((ptable k ! i)\<lparr>p_state := RUNNING\<rparr>) m = None)" if "closed (pcs i) = Some n" for n
      using ptable_okD(15) [OF ini(2) that] by simp
  qed (use i idle in \<open>auto simp: live_def\<close>)
  with ini h show ?thesis by (simp add: switch_to_def kernel_inv_def pc_ok_def)
qed

lemma scheduler_kinv:
  assumes inv: "kernel_inv pcs k" and idle: "cur k = None"
  shows "kernel_inv pcs (scheduler_step k)"
proof (cases "sch_pc k")
  case (Computing i h)
  with inv show ?thesis by (auto simp: scheduler_step_def kernel_inv_def pc_ok_def Let_def)
next
  case (Picking i h)
  show ?thesis
  proof (cases "candidate k i h")
    case None
    with inv Picking show ?thesis by (auto simp: scheduler_step_def kernel_inv_def pc_ok_def)
  next
    case (Some j)
    have "0 \<le> h" "length (ptable k) = 64" using inv Picking ptable_okD(1) by (auto simp: kernel_inv_def pc_ok_def)
    then show ?thesis using switch_kinv [OF inv idle, of j h] candidateD [OF Some] Picking Some by (simp add: scheduler_step_def)
  qed
qed

text \<open>The sections of \<open>fork\<close>.\<close>

lemma making_entry:
  assumes "kernel_inv pcs k" and "making (pcs c) = Some (i, b)"
  shows "i < 64" "i < length (ptable k)" "p_state (ptable k ! i) = EMBRYO" "p_parent (ptable k ! i) = (if b then Some c else None)"
    "b \<or> no_files (ptable k ! i)" "c < 64" "live (ptable k ! c)" "c \<noteq> i"
  using assms ptable_okD(1,13) by (fastforce simp: kernel_inv_def live_def)+

lemma maker_kinv:
  assumes inv: "kernel_inv pcs k" and mk: "making (pcs c) = Some (i, b)"
    and f: "p_pid (f (ptable k ! i)) = p_pid (ptable k ! i)"
    and pc: "closed pc = None" "case making pc of
        Some (j, b') \<Rightarrow> j = i \<and> p_state (f (ptable k ! i)) = EMBRYO \<and> p_parent (f (ptable k ! i)) = (if b' then Some c else None) \<and>
          (b' \<or> no_files (f (ptable k ! i)))
      | None \<Rightarrow> p_state (f (ptable k ! i)) = UNUSED \<and> p_parent (f (ptable k ! i)) = None \<and> no_files (f (ptable k ! i)) \<or>
          p_state (f (ptable k ! i)) = RUNNABLE \<and> p_parent (f (ptable k ! i)) = Some c"
  shows "kernel_inv (pcs(c := pc)) (upd_proc i f (k\<lparr>rest := r\<rparr>))"
proof -
  from inv obtain ini where ini: "initproc k = Some ini" "ptable_ok pcs ini (cur k) (nextpid k) (ptable k)" "0 < nextpid k"
    "nextpid k \<le> INT_MAX" "pc_ok (sch_pc k)" by (rule kernel_invE)
  from ptable_ok_maker [OF ini(2) mk f pc] ini show ?thesis by (simp add: kernel_inv_def)
qed

lemma no_files_simps [simp]:
  "no_files (p\<lparr>p_state := s\<rparr>) = no_files p" "no_files (p\<lparr>p_kstack := ks\<rparr>) = no_files p" "no_files (p\<lparr>p_pgdir := pg\<rparr>) = no_files p"
  "no_files (p\<lparr>p_tf_addr := a\<rparr>) = no_files p" "no_files (p\<lparr>p_context := a\<rparr>) = no_files p" "no_files (p\<lparr>p_entry := es\<rparr>) = no_files p"
  by (simp_all add: no_files_def)

lemma alloc_entry_kinv:
  assumes inv: "kernel_inv pcs k" and c: "cur k = Some c" "pcs c = Elsewhere" and run: "alloc_entry k = Inr (Some i, k')"
  shows "kernel_inv (pcs(c := Fork_stack i)) k'"
proof -
  note C = kcur_live [OF inv c(1)]
  from inv obtain ini where ini: "initproc k = Some ini" "ptable_ok pcs ini (cur k) (nextpid k) (ptable k)" "0 < nextpid k"
    "nextpid k \<le> INT_MAX" "pc_ok (sch_pc k)" by (rule kernel_invE)
  let ?f = "\<lambda>p. p\<lparr>p_state := EMBRYO, p_nice := 0, p_prio := 0, p_pid := nextpid k\<rparr>"
  from run have slot: "find_slot (\<lambda>p. p_state p = UNUSED) (ptable k) = Some i" and np: "nextpid k \<noteq> INT_MAX"
    and k': "k' = (upd_proc i ?f k)\<lparr>nextpid := nextpid k + 1\<rparr>"
    by (auto simp: alloc_entry_def split: option.splits if_splits)
  note s = find_slot_SomeD [OF slot]
  have "ptable_ok (pcs(c := Fork_stack i)) ini (cur k) (nextpid k + 1) ((ptable k)[i := ?f (ptable k ! i)])"
    by (rule ptable_ok_taken [OF ini(2) _ _ C(1,3) c(2)]) (use s C(4) ini(3) in simp_all)
  then show ?thesis using ini np by (simp add: k' kernel_inv_def)
qed

lemma alloc_stack_kinv:
  assumes inv: "kernel_inv pcs k" and pc: "pcs c = Fork_stack i" and run: "alloc_stack S i k = Inr (ok, k')"
  shows "kernel_inv (pcs(c := if ok then Fork_vm i else Elsewhere)) k'"
proof -
  have mk: "making (pcs c) = Some (i, False)" by (simp add: pc)
  note M = making_entry [OF inv mk]
  from run obtain ks r where ks: "sv_kalloc S (rest k) = Inr (ks, r)" by (auto simp: alloc_stack_def)
  show ?thesis
  proof (cases ks)
    case None
    with run ks M(2) have "ok = False" "k' = upd_proc i (\<lambda>p. p\<lparr>p_kstack := None, p_state := UNUSED\<rparr>) (k\<lparr>rest := r\<rparr>)"
      by (auto simp: alloc_stack_def Let_def upd_proc_upd)
    then show ?thesis using M by (auto intro!: maker_kinv [OF inv mk])
  next
    case (Some a)
    with run ks M(2) obtain sp ct where "ok = True"
      "k' = upd_proc i (\<lambda>p. p\<lparr>p_kstack := Some a, p_tf_addr := sp, p_context := ct, p_entry := [Forkret, Trapret]\<rparr>) (k\<lparr>rest := r\<rparr>)"
      by (auto simp: alloc_stack_def Let_def upd_proc_upd)
    then show ?thesis using M by (auto intro!: maker_kinv [OF inv mk])
  qed
qed

lemma fork_vm_kinv:
  assumes inv: "kernel_inv pcs k" and pc: "pcs c = Fork_vm i" and run: "fork_vm S c i k = Inr (ok, k')"
  shows "kernel_inv (pcs(c := if ok then Fork_fields i else Elsewhere)) k'"
proof -
  have mk: "making (pcs c) = Some (i, False)" by (simp add: pc)
  note M = making_entry [OF inv mk]
  from run obtain pg r where pg: "sv_copyuvm S (p_pgdir (proc_at k c)) (p_sz (proc_at k c)) (rest k) = Inr (pg, r)"
    by (auto simp: fork_vm_def)
  show ?thesis
  proof (cases pg)
    case None
    with run pg M(2) obtain r2 where "ok = False"
      "k' = upd_proc i (\<lambda>p. p\<lparr>p_pgdir := None, p_kstack := None, p_state := UNUSED\<rparr>) (k\<lparr>rest := r2\<rparr>)"
      by (auto simp: fork_vm_def Let_def upd_proc_upd upd_proc_rest)
    then show ?thesis using M by (auto intro!: maker_kinv [OF inv mk])
  next
    case (Some a)
    with run pg M(2) have "ok = True" "k' = upd_proc i (\<lambda>p. p\<lparr>p_pgdir := Some a\<rparr>) (k\<lparr>rest := r\<rparr>)"
      by (auto simp: fork_vm_def Let_def)
    then show ?thesis using M by (auto intro!: maker_kinv [OF inv mk])
  qed
qed

lemmas maker_kinv2 = maker_kinv [where r = "rest k" and k = k for k, simplified]

lemma fork_fields_kinv:
  assumes inv: "kernel_inv pcs k" and pc: "pcs c = Fork_fields i"
  shows "kernel_inv (pcs(c := Fork_files i 0)) (fork_fields c i k)"
proof -
  have mk: "making (pcs c) = Some (i, False)" by (simp add: pc)
  show ?thesis unfolding fork_fields_def by (rule maker_kinv2 [OF inv mk]) (use making_entry [OF inv mk] in simp_all)
qed

lemma fork_file_kinv:
  assumes inv: "kernel_inv pcs k" and pc: "pcs c = Fork_files i m" and run: "fork_file S c i n k = Inr k'"
  shows "kernel_inv (pcs(c := Fork_files i m')) k'"
proof -
  have mk: "making (pcs c) = Some (i, True)" by (simp add: pc)
  have same: "kernel_inv (pcs(c := Fork_files i m')) (upd_proc i (\<lambda>p. p\<lparr>p_ofile := F p\<rparr>) (k\<lparr>rest := r\<rparr>))" for F r
    by (rule maker_kinv [OF inv mk]) (use making_entry [OF inv mk] in simp_all)
  have id: "upd_proc i (\<lambda>p. p\<lparr>p_ofile := p_ofile p\<rparr>) (k\<lparr>rest := rest k\<rparr>) = k" by (simp add: upd_proc_def)
  show ?thesis
  proof (cases "p_ofile (proc_at k c) n")
    case None
    with run have "k' = k" by (simp add: fork_file_def)
    then show ?thesis using same [of p_ofile "rest k"] unfolding id by simp
  next
    case (Some f)
    with run obtain r where "k' = upd_proc i (\<lambda>p. p\<lparr>p_ofile := (p_ofile p)(n := Some f)\<rparr>) (k\<lparr>rest := r\<rparr>)"
      by (auto simp: fork_file_def)
    then show ?thesis using same by simp
  qed
qed

lemma fork_cwd_kinv:
  assumes inv: "kernel_inv pcs k" and pc: "pcs c = Fork_files i m" and run: "fork_cwd S c i k = Inr k'"
  shows "kernel_inv (pcs(c := Fork_publish i)) k'"
proof -
  have mk: "making (pcs c) = Some (i, True)" by (simp add: pc)
  from run obtain r where
    "k' = upd_proc i (\<lambda>p. p\<lparr>p_cwd := p_cwd (proc_at k c), p_name := p_name (proc_at k c)\<rparr>) (k\<lparr>rest := r\<rparr>)"
    by (auto simp: fork_cwd_def)
  then show ?thesis using making_entry [OF inv mk] by (auto intro!: maker_kinv [OF inv mk])
qed

lemma fork_publish_kinv:
  assumes inv: "kernel_inv pcs k" and pc: "pcs c = Fork_publish i" and run: "fork_publish c i k = (r, k')"
  shows "kernel_inv (pcs(c := Elsewhere)) k'"
proof -
  have mk: "making (pcs c) = Some (i, True)" by (simp add: pc)
  from run have "k' = upd_proc i (\<lambda>p. p\<lparr>p_state := RUNNABLE, p_prio := p_prio (proc_at k c)\<rparr>) k" by (simp add: fork_publish_def)
  then show ?thesis using making_entry [OF inv mk] by (auto intro!: maker_kinv2 [OF inv mk])
qed

text \<open>The sections of \<open>exit\<close>.\<close>

lemma exit_begin_kinv:
  assumes inv: "kernel_inv pcs k" and pc: "pcs c = Elsewhere" and run: "exit_begin k = Inr c"
  shows "kernel_inv (pcs(c := Exit_files 0)) k"
proof -
  from run have c: "cur k = Some c" "initproc k \<noteq> Some c" by (auto simp: exit_begin_def split: option.splits if_splits)
  have "kernel_inv (pcs(c := Exit_files 0)) (upd_proc c id (k\<lparr>rest := rest k\<rparr>))"
    by (rule own_kinv [OF inv c(1)]) (use c(2) pc in simp_all)
  then show ?thesis by (simp add: upd_proc_def)
qed

lemma exit_file_kinv:
  assumes inv: "kernel_inv pcs k" and c: "cur k = Some c" "pcs c = Exit_files n" and run: "exit_file S c n k = Inr k'"
  shows "kernel_inv (pcs(c := Exit_files (Suc n))) k'"
proof -
  from inv obtain ini where ini: "initproc k = Some ini" "ptable_ok pcs ini (cur k) (nextpid k) (ptable k)" by (rule kernel_invE)
  have cl: "c \<noteq> ini" "\<forall>m < n. p_ofile (ptable k ! c) m = None" using ptable_okD(15) [OF ini(2), of c n] c(2) by simp_all
  have close: "kernel_inv (pcs(c := Exit_files (Suc n))) (upd_proc c (\<lambda>p. p\<lparr>p_ofile := (p_ofile p)(n := None)\<rparr>) (k\<lparr>rest := r\<rparr>))" for r
    by (rule own_kinv [OF inv c(1)]) (use cl ini(1) c(2) in \<open>auto simp: less_Suc_eq\<close>)
  show ?thesis
  proof (cases "p_ofile (proc_at k c) n")
    case None
    with run have "k' = k" by (simp add: exit_file_def)
    moreover from None have "(p_ofile (ptable k ! c))(n := None) = p_ofile (ptable k ! c)" by (auto simp: proc_at_def)
    then have "upd_proc c (\<lambda>p. p\<lparr>p_ofile := (p_ofile p)(n := None)\<rparr>) (k\<lparr>rest := rest k\<rparr>) = k" by (simp add: upd_proc_def)
    ultimately show ?thesis using close [of "rest k"] by simp
  next
    case (Some f)
    with run obtain r where "k' = upd_proc c (\<lambda>p. p\<lparr>p_ofile := (p_ofile p)(n := None)\<rparr>) (k\<lparr>rest := r\<rparr>)" by (auto simp: exit_file_def)
    then show ?thesis using close by simp
  qed
qed

lemma exit_cwd_kinv:
  assumes inv: "kernel_inv pcs k" and c: "cur k = Some c" "pcs c = Exit_files NOFILE" and run: "exit_cwd S c k = Inr k'"
  shows "kernel_inv (pcs(c := Exit_last)) k'"
proof -
  from inv obtain ini where ini: "initproc k = Some ini" "ptable_ok pcs ini (cur k) (nextpid k) (ptable k)" by (rule kernel_invE)
  have cl: "c \<noteq> ini" "\<forall>m < NOFILE. p_ofile (ptable k ! c) m = None" using ptable_okD(15) [OF ini(2), of c NOFILE] c(2) by simp_all
  from run obtain r where k': "k' = upd_proc c (\<lambda>p. p\<lparr>p_cwd := None\<rparr>) (k\<lparr>rest := r\<rparr>)" by (auto simp: exit_cwd_def)
  show ?thesis unfolding k' by (rule own_kinv [OF inv c(1)]) (use cl ini(1) c(2) in auto)
qed

lemma exit_last_cases:
  assumes inv: "kernel_inv pcs k" and c: "cur k = Some c" and run: "exit_last c k = Inr k'" and ini: "initproc k = Some ini" "c \<noteq> ini"
  shows "initproc k' = Some ini" "nextpid k' = nextpid k" "cur k' = None" "sch_pc k' = picked c (sch_pc k)" "length (ptable k') = 64"
    "rest k' = rest k"
    "\<forall>i < 64. p_pid (ptable k' ! i) = p_pid (ptable k ! i) \<and> p_chan (ptable k' ! i) = p_chan (ptable k ! i) \<and>
      p_ofile (ptable k' ! i) = p_ofile (ptable k ! i) \<and>
      (if i = c then p_state (ptable k' ! i) = ZOMBIE else woken (p_state (ptable k ! i)) (p_state (ptable k' ! i))) \<and>
      p_parent (ptable k' ! i) = (if p_parent (ptable k ! i) = Some c then Some ini else p_parent (ptable k ! i))"
    "\<forall>par. p_parent (ptable k ! c) = Some par \<longrightarrow> par \<noteq> c \<longrightarrow> par < 64 \<longrightarrow> p_state (ptable k ! par) = SLEEPING \<longrightarrow>
       p_chan (ptable k ! par) = Some (Chan_proc par) \<longrightarrow> p_state (ptable k' ! par) = RUNNABLE"
proof -
  note C = kcur_live [OF inv c]
  define ps1 where "ps1 = (case p_parent (ptable k ! c) of Some par \<Rightarrow> wakeup1 (Chan_proc par) (ptable k) | None \<Rightarrow> ptable k)"
  define ps2 where "ps2 = fold (abandon c ini) [0..<length ps1] ps1"
  have len: "length ps1 = 64" using C(4) by (auto simp: ps1_def split: option.splits)
  have pn: "p_pid (ps1 ! i) = p_pid (ptable k ! i) \<and> p_chan (ps1 ! i) = p_chan (ptable k ! i) \<and> p_ofile (ps1 ! i) = p_ofile (ptable k ! i) \<and>
      woken (p_state (ptable k ! i)) (p_state (ps1 ! i)) \<and> p_parent (ps1 ! i) = p_parent (ptable k ! i)" if "i < 64" for i
    using that C(4) by (auto simp: ps1_def split: option.split)
  have "set [0..<length ps1] \<subseteq> {..<length ps1}" by auto
  note A = abandon_fold [OF this ini(2), folded ps2_def]
  have len2: "length ps2 = 64" using A len by simp
  have p2: "p_pid (ps2 ! i) = p_pid (ptable k ! i) \<and> p_chan (ps2 ! i) = p_chan (ptable k ! i) \<and> p_ofile (ps2 ! i) = p_ofile (ptable k ! i) \<and>
      woken (p_state (ps1 ! i)) (p_state (ps2 ! i)) \<and> woken (p_state (ptable k ! i)) (p_state (ps2 ! i)) \<and>
      p_parent (ps2 ! i) = (if p_parent (ptable k ! i) = Some c then Some ini else p_parent (ptable k ! i))"
    if i: "i < 64" for i
    using A pn [OF i] i len by (auto simp: woken_def)
  define k2 where "k2 = k\<lparr>ptable := ps2\<rparr>"
  have "sched (upd_proc c (\<lambda>p. p\<lparr>p_state := ZOMBIE\<rparr>) k2) = Inr k'"
    using run ini by (simp add: exit_last_def k2_def ps2_def ps1_def proc_at_def Let_def)
  then have k': "k' = (upd_proc c (\<lambda>p. p\<lparr>p_state := ZOMBIE, p_nice := p_nice p + 1\<rparr>) k2)\<lparr>cur := None, sch_pc := picked c (sch_pc k2)\<rparr>"
    using sched_run [of k2 c "\<lambda>p. p\<lparr>p_state := ZOMBIE\<rparr>"] c C(1) len2 by (simp add: k2_def)
  have t: "ptable k' = ps2[c := (ps2 ! c)\<lparr>p_state := ZOMBIE, p_nice := p_nice (ps2 ! c) + 1\<rparr>]"
    by (simp add: k' k2_def)
  show "initproc k' = Some ini" "nextpid k' = nextpid k" "cur k' = None" "sch_pc k' = picked c (sch_pc k)"
    "length (ptable k') = 64" "rest k' = rest k" using ini len2 by (simp_all add: k' k2_def)
  show "\<forall>i < 64. p_pid (ptable k' ! i) = p_pid (ptable k ! i) \<and> p_chan (ptable k' ! i) = p_chan (ptable k ! i) \<and>
      p_ofile (ptable k' ! i) = p_ofile (ptable k ! i) \<and>
      (if i = c then p_state (ptable k' ! i) = ZOMBIE else woken (p_state (ptable k ! i)) (p_state (ptable k' ! i))) \<and>
      p_parent (ptable k' ! i) = (if p_parent (ptable k ! i) = Some c then Some ini else p_parent (ptable k ! i))"
  proof (intro allI impI)
    fix i :: nat assume i: "i < 64"
    show "p_pid (ptable k' ! i) = p_pid (ptable k ! i) \<and> p_chan (ptable k' ! i) = p_chan (ptable k ! i) \<and>
      p_ofile (ptable k' ! i) = p_ofile (ptable k ! i) \<and>
      (if i = c then p_state (ptable k' ! i) = ZOMBIE else woken (p_state (ptable k ! i)) (p_state (ptable k' ! i))) \<and>
      p_parent (ptable k' ! i) = (if p_parent (ptable k ! i) = Some c then Some ini else p_parent (ptable k ! i))"
      using p2 [OF i] i len2 unfolding t by (cases "i = c") auto
  qed
  show "\<forall>par. p_parent (ptable k ! c) = Some par \<longrightarrow> par \<noteq> c \<longrightarrow> par < 64 \<longrightarrow> p_state (ptable k ! par) = SLEEPING \<longrightarrow>
       p_chan (ptable k ! par) = Some (Chan_proc par) \<longrightarrow> p_state (ptable k' ! par) = RUNNABLE"
  proof (intro allI impI)
    fix par assume par: "p_parent (ptable k ! c) = Some par" "par \<noteq> c" "par < 64" "p_state (ptable k ! par) = SLEEPING"
      "p_chan (ptable k ! par) = Some (Chan_proc par)"
    then have "p_state (ps1 ! par) = RUNNABLE" using C(4) by (simp add: ps1_def)
    then show "p_state (ptable k' ! par) = RUNNABLE" using p2 [of par] par unfolding t by (auto simp: woken_def)
  qed
qed

lemma exit_last_kinv:
  assumes inv: "kernel_inv pcs k" and c: "cur k = Some c" "pcs c = Exit_last" and run: "exit_last c k = Inr k'"
  shows "kernel_inv (pcs(c := Elsewhere)) k'"
proof -
  from inv obtain ini where ini: "initproc k = Some ini" "ptable_ok pcs ini (cur k) (nextpid k) (ptable k)" "0 < nextpid k"
    "nextpid k \<le> INT_MAX" "pc_ok (sch_pc k)" by (rule kernel_invE)
  have cl: "c \<noteq> ini" "no_files (ptable k ! c)" using ptable_okD(15) [OF ini(2), of c NOFILE] c(2) by (simp_all add: no_files_def)
  note E = exit_last_cases [OF inv c(1) run ini(1) cl(1)]
  have "ptable_ok (pcs(c := Elsewhere)) ini None (nextpid k) (ptable k')"
    by (rule ptable_ok_exit [OF _ cl(1) E(5) _ cl(2)]) (use E(7) ini(2) c in auto)
  then show ?thesis using ini E by (simp add: kernel_inv_def)
qed

lemma reap_run:
  assumes "reap S i k = Inr (pid, k')"
  obtains p' where "pid = p_pid (ptable k ! i)" "ptable k' = (ptable k)[i := p']" "initproc k' = initproc k"
    "nextpid k' = nextpid k" "cur k' = cur k" "sch_pc k' = sch_pc k" "p_state p' = UNUSED" "p_parent p' = None"
    "p_pid p' = 0" "\<not> p_killed p'" "p_kstack p' = None" "p_ofile p' = p_ofile (ptable k ! i)"
proof (rule that)
  let ?p = "(ptable k ! i)\<lparr>p_kstack := None, p_pid := 0, p_parent := None, p_name := '''', p_killed := False,
    p_prio := 0, p_state := UNUSED\<rparr>"
  show "ptable k' = (ptable k)[i := ?p]" using assms by (auto simp: reap_def proc_at_def)
qed (use assms in \<open>auto simp: reap_def proc_at_def\<close>)

lemma wait_kinv:
  assumes inv: "kernel_inv pcs k" and run: "wait_pass S k = Inr (r, k')"
  shows "kernel_inv pcs k'"
proof -
  from run obtain c where c: "cur k = Some c" by (auto simp: wait_pass_def)
  from inv obtain ini where ini: "initproc k = Some ini" "ptable_ok pcs ini (cur k) (nextpid k) (ptable k)" "0 < nextpid k"
    "nextpid k \<le> INT_MAX" "pc_ok (sch_pc k)" by (rule kernel_invE)
  show ?thesis
  proof (cases "find_slot (\<lambda>p. p_parent p = Some c \<and> p_state p = ZOMBIE) (ptable k)")
    case None
    with run c inv sleep_kinv [OF inv] show ?thesis
      by (auto simp: wait_pass_def myproc_def split: if_splits)
  next
    case (Some i)
    have i: "i < 64" "p_state (ptable k ! i) = ZOMBIE"
      using find_slot_bound [OF Some] find_slot_sat [OF Some] ptable_okD(1) [OF ini(2)] by auto
    from run c Some obtain pid where "reap S i k = Inr (pid, k')" by (auto simp: wait_pass_def)
    then show ?thesis
    proof (cases rule: reap_run)
      case (1 p')
      from ptable_ok_reap [OF ini(2) i 1(7,8,12)] ini 1 show ?thesis by (simp add: kernel_inv_def)
    qed
  qed
qed

lemma own_fields_kinv:
  assumes "kernel_inv pcs k" and "cur k = Some c" and "pcs c = Elsewhere"
  shows "kernel_inv pcs (upd_proc c (\<lambda>p. p\<lparr>p_ofile := fs, p_cwd := d, p_sz := sz, p_pgdir := pg, p_name := nm, p_tf := tf\<rparr>) (k\<lparr>rest := r\<rparr>))"
  by (rule own_same_kinv [OF assms(1,2)]) (use assms(3) in simp_all)

lemmas own_fields_kinv2 = own_fields_kinv [where r = "rest k" and k = k for k, simplified]

lemma alloc_full: "alloc_entry k = Inr (None, k') \<Longrightarrow> k' = k"
  by (auto simp: alloc_entry_def split: option.splits if_splits)

lemma goes_to_same: "kernel_inv (spc s) k \<Longrightarrow> spc s c = pc \<Longrightarrow> kernel_inv (spc (goes_to s c pc k)) (sk (goes_to s c pc k))"
  by (auto simp: fun_upd_idem)

inductive_cases kstep_elim: "kstep S s s'"

lemma kstep_inv:
  assumes "kstep S s s'" and inv: "kernel_inv (spc s) (sk s)"
  shows "kernel_inv (spc s') (sk s')"
  using assms(1)
proof (cases rule: kstep.cases)
  case Fork_full
  then show ?thesis using inv alloc_full goes_to_same by metis
next
  case (Fork_begin c i k)
  then show ?thesis using alloc_entry_kinv [OF inv] by simp
next
  case (Fork_stack c i ok k)
  then show ?thesis using alloc_stack_kinv [OF inv] by simp
next
  case (Fork_vm c i ok k)
  then show ?thesis using fork_vm_kinv [OF inv] by simp
next
  case (Fork_fields c i)
  then show ?thesis using fork_fields_kinv [OF inv] by simp
next
  case (Fork_file c i n k)
  then show ?thesis using fork_file_kinv [OF inv] by simp
next
  case (Fork_cwd c i k)
  then show ?thesis using fork_cwd_kinv [OF inv] by simp
next
  case (Fork_publish c i r k)
  then show ?thesis using fork_publish_kinv [OF inv] by simp
next
  case (Exit_begin c)
  then show ?thesis using exit_begin_kinv [OF inv] by simp
next
  case (Exit_file c n k)
  then show ?thesis using exit_file_kinv [OF inv] by simp
next
  case (Exit_cwd c k)
  then show ?thesis using exit_cwd_kinv [OF inv] by simp
next
  case (Exit_last c k)
  then show ?thesis using exit_last_kinv [OF inv] by simp
qed (use inv in \<open>auto intro: wait_kinv grow_kinv set_prio_kinv kill_kinv own_fields_kinv2 sleep_kinv yield_kinv resume_kinv wakeup_kinv scheduler_kinv\<close>)

subsection \<open>The calls run without interruption\<close>

lemma sched_cur: "sched k = Inr k' \<Longrightarrow> cur k' = None"
  by (auto simp: sched_def split: if_splits)

lemma yield_cur: "yield_cpu k = Inr k' \<Longrightarrow> cur k' = None"
  by (auto simp: yield_cpu_def dest: sched_cur)

lemma sleep_cur: "sleep_on ch k = Inr k' \<Longrightarrow> cur k' = None"
  by (auto simp: sleep_on_def split: option.splits dest: sched_cur)

lemma yield_inv [inv_intros]: "proc_inv k \<Longrightarrow> yield_cpu k = Inr k' \<Longrightarrow> proc_inv k'"
  by (erule proc_inv_step) (auto dest: yield_cur intro: yield_kinv)

lemma sleep_inv [inv_intros]: "proc_inv k \<Longrightarrow> sleep_on ch k = Inr k' \<Longrightarrow> proc_inv k'"
  by (erule proc_inv_step) (auto dest: sleep_cur intro: sleep_kinv)

lemma cur_update_inv:
  assumes inv: "proc_inv k" and c: "cur k = Some c"
    and f: "p_state (f (ptable k ! c)) = p_state (ptable k ! c)" "p_pid (f (ptable k ! c)) = p_pid (ptable k ! c)"
      "p_parent (f (ptable k ! c)) = p_parent (ptable k ! c)"
  shows "proc_inv (upd_proc c f (k\<lparr>rest := r\<rparr>))"
  by (rule proc_inv_step [OF inv]) (use c in \<open>auto intro!: own_same_kinv f\<close>)

lemmas cur_update_inv2 = cur_update_inv [where r = "rest k" and k = k for k, simplified]

lemma grow_cur: "growproc S n k = Inr (r, k') \<Longrightarrow> cur k' = cur k"
  by (auto simp: growproc_def Let_def split: if_splits)

lemma grow_inv [inv_intros]: "proc_inv k \<Longrightarrow> growproc S n k = Inr (r, k') \<Longrightarrow> proc_inv k'"
  by (erule proc_inv_step) (auto dest: grow_cur intro: grow_kinv)

lemma wakeup_inv [inv_intros]: "proc_inv k \<Longrightarrow> proc_inv (wakeup ch k)"
  by (erule proc_inv_step) (auto simp: wakeup_def [of _ k] intro: wakeup_kinv [unfolded wakeup_def])

lemma kill_cur: "kill pid k = (r, k') \<Longrightarrow> cur k' = cur k"
  by (auto simp: kill_def split: option.splits)

lemma kill_inv [inv_intros]: "proc_inv k \<Longrightarrow> kill pid k = (r, k') \<Longrightarrow> proc_inv k'"
  by (erule proc_inv_step) (auto dest: kill_cur intro: kill_kinv)

lemma wait_cur: "wait_pass S k = Inr (w, k') \<Longrightarrow> cur k' = None \<or> cur k' = cur k"
  by (auto simp: wait_pass_def reap_def sleep_on_def sched_def split: option.splits if_splits)

lemma wait_inv [inv_intros]: "proc_inv k \<Longrightarrow> wait_pass S k = Inr (r, k') \<Longrightarrow> proc_inv k'"
  by (erule proc_inv_step) (auto dest: wait_cur intro: wait_kinv)

text \<open>The loop of \<open>fork\<close> over the files, as a change of one entry: \<open>dup_files\<close> is its effect on the rest of the kernel.\<close>

fun dup_files :: "'k services \<Rightarrow> (nat \<Rightarrow> nat option) \<Rightarrow> nat list \<Rightarrow> 'k \<Rightarrow> fault + 'k" where
  "dup_files S fs [] r = Inr r"
| "dup_files S fs (n # ns) r = (case fs n of None \<Rightarrow> dup_files S fs ns r | Some f \<Rightarrow> ebind (sv_filedup S f r) (dup_files S fs ns))"

definition over :: "(nat \<Rightarrow> nat option) \<Rightarrow> nat list \<Rightarrow> (nat \<Rightarrow> nat option) \<Rightarrow> nat \<Rightarrow> nat option" where
  "over fs ns gs = (\<lambda>n. if n \<in> set ns \<and> fs n \<noteq> None then fs n else gs n)"

lemma over_simps: "over fs [] gs = gs" "fs n = None \<Longrightarrow> over fs (n # ns) gs = over fs ns gs"
  "fs n = Some f \<Longrightarrow> over fs (n # ns) gs = over fs ns (gs(n := Some f))"
  by (auto simp: over_def fun_eq_iff)

lemma fork_files_run:
  assumes "c \<noteq> i" and "i < length (ptable k)"
  shows "fork_files S c i ns k =
    ebind (dup_files S (p_ofile (ptable k ! c)) ns (rest k)) (\<lambda>r.
      Inr (upd_proc i (\<lambda>p. p\<lparr>p_ofile := over (p_ofile (ptable k ! c)) ns (p_ofile p)\<rparr>) (k\<lparr>rest := r\<rparr>)))"
  using assms
proof (induction ns arbitrary: k)
  case Nil
  then show ?case by (simp add: upd_proc_def over_simps)
next
  case (Cons n ns)
  show ?case
  proof (cases "p_ofile (ptable k ! c) n")
    case None
    with Cons show ?thesis by (simp add: fork_file_def proc_at_def over_simps)
  next
    case (Some f)
    show ?thesis
    proof (cases "sv_filedup S f (rest k)")
      case (Inr r)
      let ?k = "upd_proc i (\<lambda>p. p\<lparr>p_ofile := (p_ofile p)(n := Some f)\<rparr>) (k\<lparr>rest := r\<rparr>)"
      have par: "ptable ?k ! c = ptable k ! c" using Cons.prems by simp
      have "fork_files S c i (n # ns) k = fork_files S c i ns ?k" using Some Inr by (simp add: fork_file_def proc_at_def)
      also have "\<dots> = ebind (dup_files S (p_ofile (ptable k ! c)) ns r) (\<lambda>r'.
          Inr (upd_proc i (\<lambda>p. p\<lparr>p_ofile := over (p_ofile (ptable k ! c)) ns (p_ofile p)\<rparr>) (?k\<lparr>rest := r'\<rparr>)))"
        using Cons.IH [of ?k] Cons.prems par by simp
      finally show ?thesis using Some Inr Cons.prems(2) by (simp add: upd_proc_rest upd_proc_upd over_simps)
    qed (use Some in \<open>simp add: fork_file_def proc_at_def\<close>)
  qed
qed

text \<open>The entry that \<open>allocproc\<close> leaves in the table.\<close>

lemma allocproc_cases:
  assumes "allocproc S k = Inr (r, k1)"
  obtains (full) "r = None" "k1 = k" "\<forall>p \<in> set (ptable k). p_state p \<noteq> UNUSED"
    | (taken) i ks pn where "find_slot (\<lambda>p. p_state p = UNUSED) (ptable k) = Some i" "nextpid k < INT_MAX \<or> INT_MAX < nextpid k"
      "sv_kalloc S (rest k) = Inr (ks, rest k1)" "ptable k1 = (ptable k)[i := pn]" "nextpid k1 = nextpid k + 1"
      "cur k1 = cur k" "initproc k1 = initproc k" "sch_pc k1 = sch_pc k"
      "p_pid pn = nextpid k" "p_prio pn = 0" "p_nice pn = 0" "p_parent pn = p_parent (ptable k ! i)" "p_kstack pn = ks"
      "p_killed pn = p_killed (ptable k ! i)" "p_ofile pn = p_ofile (ptable k ! i)" "p_chan pn = p_chan (ptable k ! i)"
      "r = None \<and> ks = None \<and> p_state pn = UNUSED \<or> r = Some i \<and> ks \<noteq> None \<and> p_state pn = EMBRYO"
proof (cases "find_slot (\<lambda>p. p_state p = UNUSED) (ptable k)")
  case None
  with assms show thesis by (intro full) (auto simp: allocproc_def alloc_entry_def find_slot_None)
next
  case (Some i)
  have i: "i < length (ptable k)" by (rule find_slot_bound [OF Some])
  from assms Some have np: "nextpid k \<noteq> INT_MAX" by (auto simp: allocproc_def alloc_entry_def split: if_splits)
  from assms Some np obtain ks rs where ks: "sv_kalloc S (rest k) = Inr (ks, rs)"
    by (auto simp: allocproc_def alloc_entry_def alloc_stack_def)
  let ?p = "(ptable k ! i)\<lparr>p_state := EMBRYO, p_nice := 0, p_prio := 0, p_pid := nextpid k, p_kstack := ks\<rparr>"
  have np': "nextpid k < INT_MAX \<or> INT_MAX < nextpid k" using np by auto
  show thesis
  proof (cases ks)
    case None
    show thesis
      by (rule taken [OF Some np', where pn = "?p\<lparr>p_state := UNUSED\<rparr>" and ks = ks])
        (use assms Some np ks None i in \<open>auto simp: allocproc_def alloc_entry_def alloc_stack_def Let_def\<close>)
  next
    case ks': (Some a)
    show thesis
      by (rule taken [OF Some np', where ks = ks and
            pn = "?p\<lparr>p_tf_addr := a + KSTACKSIZE - 76, p_context := a + KSTACKSIZE - 76 - 4 - 20, p_entry := [Forkret, Trapret]\<rparr>"])
        (use assms Some np ks ks' i in \<open>auto simp: allocproc_def alloc_entry_def alloc_stack_def Let_def\<close>)
  qed
qed

text \<open>The ways a \<open>fork\<close> can end.\<close>

lemma fork_cases:
  assumes inv: "proc_inv k" and c: "cur k = Some c" and run: "fork S k = Inr (r, k')"
  obtains (full) "r = -1" "k' = k" "\<forall>p \<in> set (ptable k). p_state p \<noteq> UNUSED"
    | (failed) i pn where "r = -1" "find_slot (\<lambda>p. p_state p = UNUSED) (ptable k) = Some i"
      "ptable k' = (ptable k)[i := pn]" "nextpid k' = nextpid k + 1" "cur k' = cur k" "initproc k' = initproc k"
      "p_state pn = UNUSED" "p_parent pn = p_parent (ptable k ! i)"
      "sv_kalloc S (rest k) = Inr (None, rest k') \<or> (\<exists>ks r1 r2. sv_kalloc S (rest k) = Inr (Some ks, r1) \<and>
        sv_copyuvm S (p_pgdir (ptable k ! c)) (p_sz (ptable k ! c)) r1 = Inr (None, r2) \<and> sv_kfree S (Some ks) r2 = Inr (rest k'))"
    | (forked) i pn ks pd r1 r2 r3 where "r = nextpid k" "find_slot (\<lambda>p. p_state p = UNUSED) (ptable k) = Some i"
      "ptable k' = (ptable k)[i := pn]" "nextpid k' = nextpid k + 1" "cur k' = cur k" "initproc k' = initproc k"
      "sv_kalloc S (rest k) = Inr (Some ks, r1)"
      "sv_copyuvm S (p_pgdir (ptable k ! c)) (p_sz (ptable k ! c)) r1 = Inr (Some pd, r2)"
      "dup_files S (p_ofile (ptable k ! c)) [0..<NOFILE] r2 = Inr r3" "sv_idup S (p_cwd (ptable k ! c)) r3 = Inr (rest k')"
      "p_state pn = RUNNABLE" "p_parent pn = Some c" "p_pid pn = nextpid k" "p_kstack pn = Some ks" "p_pgdir pn = Some pd"
      "p_sz pn = p_sz (ptable k ! c)" "p_tf pn = (p_tf (ptable k ! c))\<lparr>tf_eax := 0\<rparr>" "p_cwd pn = p_cwd (ptable k ! c)"
      "p_name pn = p_name (ptable k ! c)" "p_prio pn = p_prio (ptable k ! c)" "p_nice pn = 0"
      "p_killed pn = p_killed (ptable k ! i)" "\<forall>n < NOFILE. p_ofile pn n = p_ofile (ptable k ! c) n"
proof -
  note C = cur_live [OF inv c]
  from run c obtain np k1 where a: "allocproc S k = Inr (np, k1)" by (auto simp: fork_def)
  from a show thesis
  proof (cases rule: allocproc_cases)
    case full
    with run c a show thesis by (intro that(1)) (auto simp: fork_def)
  next
    case (taken i ks pn)
    note i = find_slot_SomeD [OF taken(1)]
    then have ci: "c \<noteq> i" using C(2) by auto
    have pc: "ptable k1 ! c = ptable k ! c" "i < length (ptable k1)" "ptable k1 ! i = pn" using taken(4) ci i by simp_all
    show thesis
    proof (cases np)
      case None
      with taken have pn: "p_state pn = UNUSED" "ks = None" by auto
      from None run c a have "r = -1" "k' = k1" by (auto simp: fork_def)
      with pn taken show thesis by (intro that(2) [of i pn]) simp_all
    next
      case (Some i')
      then have np: "np = Some i" "p_state pn = EMBRYO" "ks \<noteq> None" using taken(17) by auto
      from run c a np obtain pg r2 where pg: "sv_copyuvm S (p_pgdir (ptable k ! c)) (p_sz (ptable k ! c)) (rest k1) = Inr (pg, r2)"
        by (auto simp: fork_def fork_vm_def proc_at_def pc)
      show thesis
      proof (cases pg)
        case None
        from run c a np pg None obtain r3 where r3: "sv_kfree S ks r2 = Inr r3" and k': "r = -1"
          "k' = upd_proc i (\<lambda>p. p\<lparr>p_pgdir := None, p_kstack := None, p_state := UNUSED\<rparr>) (k1\<lparr>rest := r3\<rparr>)"
          by (auto simp: fork_def fork_vm_def proc_at_def pc taken(13) Let_def upd_proc_upd upd_proc_rest)
        have t: "ptable k' = (ptable k)[i := pn\<lparr>p_pgdir := None, p_kstack := None, p_state := UNUSED\<rparr>]"
          using i by (simp add: k' taken(4))
        show thesis by (rule that(2) [OF k'(1) taken(1) t]) (use taken(3) np(3) pg None r3 in \<open>auto simp: k'(2) taken(5-8,12)\<close>)
      next
        case (Some pd)
        define k2 where "k2 = upd_proc i (\<lambda>p. p\<lparr>p_pgdir := Some pd, p_sz := p_sz (ptable k ! c), p_parent := Some c,
             p_tf := (p_tf (ptable k ! c))\<lparr>tf_eax := 0\<rparr>\<rparr>) (k1\<lparr>rest := r2\<rparr>)"
        have k2: "ptable k2 ! c = ptable k ! c" "i < length (ptable k2)" "rest k2 = r2" using ci pc by (simp_all add: k2_def)
        let ?fs = "\<lambda>p. over (p_ofile (ptable k ! c)) [0..<NOFILE] (p_ofile p)"
        from run c a np pg Some have "ebind (fork_files S c i [0..<NOFILE] k2) (\<lambda>k3.
            ebind (fork_cwd S c i k3) (\<lambda>k4. Inr (fork_publish c i k4))) = Inr (r, k')"
          using ci by (simp add: fork_def fork_vm_def fork_fields_def proc_at_def pc Let_def upd_proc_upd k2_def myproc_def)
        then obtain r3 k3 where r3: "dup_files S (p_ofile (ptable k ! c)) [0..<NOFILE] r2 = Inr r3"
          and k3: "k3 = upd_proc i (\<lambda>p. p\<lparr>p_ofile := ?fs p\<rparr>) (k2\<lparr>rest := r3\<rparr>)"
          and run3: "ebind (fork_cwd S c i k3) (\<lambda>k4. Inr (fork_publish c i k4)) = Inr (r, k')"
          using fork_files_run [OF ci k2(2), of S "[0..<NOFILE]"] k2 by auto
        have c3: "ptable k3 ! c = ptable k ! c" "rest k3 = r3" using ci k2 by (simp_all add: k3)
        from run3 obtain r4 where r4: "sv_idup S (p_cwd (ptable k ! c)) r3 = Inr r4"
          and fin: "(r, k') = fork_publish c i (upd_proc i (\<lambda>p. p\<lparr>p_cwd := p_cwd (ptable k ! c), p_name := p_name (ptable k ! c)\<rparr>) (k3\<lparr>rest := r4\<rparr>))"
          by (auto simp: fork_cwd_def proc_at_def c3)
        define pn' where "pn' = pn\<lparr>p_pgdir := Some pd, p_sz := p_sz (ptable k ! c), p_parent := Some c,
             p_tf := (p_tf (ptable k ! c))\<lparr>tf_eax := 0\<rparr>, p_ofile := ?fs pn, p_cwd := p_cwd (ptable k ! c),
             p_name := p_name (ptable k ! c), p_state := RUNNABLE, p_prio := p_prio (ptable k ! c)\<rparr>"
        have t: "ptable k' = (ptable k)[i := pn']" and rest: "rest k' = r4" and r: "r = nextpid k"
          and o: "nextpid k' = nextpid k + 1" "cur k' = cur k" "initproc k' = initproc k"
          using fin ci i pc taken(4-9) by (simp_all add: fork_publish_def proc_at_def k3 k2_def pn'_def taken(4))
        from inv obtain pcs where "kernel_inv pcs k" by (rule proc_invE)
        then obtain ini where "ptable_ok pcs ini (cur k) (nextpid k) (ptable k)" by (rule kernel_invE)
        then have "no_files (ptable k ! i)" using ptable_okD(12) [of pcs ini "cur k" "nextpid k" "ptable k" i] i C(4) by simp
        then have fs: "\<forall>n < NOFILE. p_ofile pn' n = p_ofile (ptable k ! c) n" by (auto simp: pn'_def no_files_def over_def taken(15))
        obtain ks' where ks': "ks = Some ks'" using np(3) by blast
        show thesis
          by (rule that(3) [OF r taken(1) t o, of ks' "rest k1" pd r2 r3])
            (use taken(3,9-14) pg Some r3 r4 rest fs ks' in \<open>simp_all add: pn'_def\<close>)
      qed
    qed
  qed
qed

lemma proc_inv_cases:
  assumes "proc_inv k"
  obtains pcs ini where "ptable_ok pcs ini (cur k) (nextpid k) (ptable k)"
  using assms by (auto simp: proc_inv_def kernel_inv_def)

lemma proc_inv_length: "proc_inv k \<Longrightarrow> length (ptable k) = 64"
  by (erule proc_inv_cases) (rule ptable_okD(1))

lemma fork_cur: "proc_inv k \<Longrightarrow> cur k = Some c \<Longrightarrow> fork S k = Inr (r, k') \<Longrightarrow> cur k' = Some c"
  by (erule (2) fork_cases) auto

lemma fork_files_kinv:
  "kernel_inv pcs k \<Longrightarrow> pcs c = Fork_files i m \<Longrightarrow> fork_files S c i ns k = Inr k' \<Longrightarrow> kernel_inv pcs k'"
proof (induction ns arbitrary: k)
  case (Cons n ns)
  then obtain k1 where k1: "fork_file S c i n k = Inr k1" "fork_files S c i ns k1 = Inr k'" by auto
  have "kernel_inv (pcs(c := Fork_files i m)) k1" by (rule fork_file_kinv [OF Cons.prems(1,2) k1(1)])
  then have "kernel_inv pcs k1" using Cons.prems(2) by (simp add: fun_upd_idem)
  then show ?case by (rule Cons.IH [OF _ Cons.prems(2) k1(2)])
qed simp

text \<open>\<open>fork\<close> run from its first to its last section.\<close>

lemma fork_kinv:
  assumes inv: "kernel_inv pcs k" and c: "cur k = Some c" "pcs c = Elsewhere" and run: "fork S k = Inr (r, k')"
  shows "kernel_inv pcs k'"
proof -
  from run c(1) obtain p k1 where a: "alloc_entry k = Inr (p, k1)" by (auto simp: fork_def allocproc_def)
  show ?thesis
  proof (cases p)
    case None
    with run a c(1) have "k' = k1" by (auto simp: fork_def allocproc_def)
    then show ?thesis using inv alloc_full a None by blast
  next
    case (Some i)
    note i1 = alloc_entry_kinv [OF inv c a [unfolded Some]]
    from run a Some c(1) obtain ok k2 where st: "alloc_stack S i k1 = Inr (ok, k2)" by (auto simp: fork_def allocproc_def)
    have i2: "kernel_inv (pcs(c := if ok then Fork_vm i else Elsewhere)) k2" using alloc_stack_kinv [OF i1 _ st, of c] by simp
    show ?thesis
    proof (cases ok)
      case False
      with run a Some st c(1) have "k' = k2" by (auto simp: fork_def allocproc_def)
      with i2 False c(2) show ?thesis by (simp add: fun_upd_idem)
    next
      case True
      with run a Some st c(1) obtain ok2 k3 where vm: "fork_vm S c i k2 = Inr (ok2, k3)" by (auto simp: fork_def allocproc_def)
      have i3: "kernel_inv (pcs(c := if ok2 then Fork_fields i else Elsewhere)) k3"
        using fork_vm_kinv [OF i2 _ vm] True by simp
      show ?thesis
      proof (cases ok2)
        case False
        with run a Some st True vm c(1) have "k' = k3" by (auto simp: fork_def allocproc_def)
        with i3 False c(2) show ?thesis by (simp add: fun_upd_idem)
      next
        case ok2: True
        let ?p = "pcs(c := Fork_files i 0)"
        have i4: "kernel_inv ?p (fork_fields c i k3)" using fork_fields_kinv [OF i3, of c i] ok2 by simp
        from run a Some st True vm ok2 c(1) obtain k4 k5 where fs: "fork_files S c i [0..<NOFILE] (fork_fields c i k3) = Inr k4"
          and cw: "fork_cwd S c i k4 = Inr k5" and pb: "fork_publish c i k5 = (r, k')" by (auto simp: fork_def allocproc_def)
        have i5: "kernel_inv ?p k4" by (rule fork_files_kinv [OF i4 _ fs, of 0]) simp
        have i6: "kernel_inv (?p(c := Fork_publish i)) k5" by (rule fork_cwd_kinv [OF i5 _ cw, of 0]) simp
        have "kernel_inv (?p(c := Fork_publish i, c := Elsewhere)) k'" by (rule fork_publish_kinv [OF i6 _ pb]) simp
        then show ?thesis using c(2) by (simp add: fun_upd_idem)
      qed
    qed
  qed
qed

lemma fork_inv [inv_intros]:
  assumes inv: "proc_inv k" and run: "fork S k = Inr (r, k')"
  shows "proc_inv k'"
proof -
  from run obtain c where c: "cur k = Some c" by (auto simp: fork_def)
  show ?thesis by (rule proc_inv_step [OF inv]) (use fork_cur [OF inv c run] c run in \<open>auto intro: fork_kinv\<close>)
qed

text \<open>The loop of \<open>exit\<close> over the files; \<open>close_files\<close> is its effect on the rest of the kernel.\<close>

fun close_files :: "'k services \<Rightarrow> (nat \<Rightarrow> nat option) \<Rightarrow> nat list \<Rightarrow> 'k \<Rightarrow> fault + 'k" where
  "close_files S fs [] r = Inr r"
| "close_files S fs (n # ns) r = (case fs n of None \<Rightarrow> close_files S fs ns r | Some f \<Rightarrow> ebind (sv_fileclose S f r) (close_files S fs ns))"

definition without :: "nat list \<Rightarrow> (nat \<Rightarrow> nat option) \<Rightarrow> nat \<Rightarrow> nat option" where
  "without ns fs = (\<lambda>n. if n \<in> set ns then None else fs n)"

lemma close_files_same: "(\<And>n. n \<in> set ns \<Longrightarrow> fs n = gs n) \<Longrightarrow> close_files S fs ns r = close_files S gs ns r"
proof (induction ns arbitrary: r)
  case (Cons n ns)
  have n: "fs n = gs n" and ih: "close_files S fs ns = close_files S gs ns" using Cons by (auto intro!: ext)
  show ?case by (simp only: close_files.simps n ih)
qed simp

lemma exit_files_run:
  assumes "c < length (ptable k)" and "distinct ns"
  shows "exit_files S c ns k =
    ebind (close_files S (p_ofile (ptable k ! c)) ns (rest k)) (\<lambda>r.
      Inr (upd_proc c (\<lambda>p. p\<lparr>p_ofile := without ns (p_ofile p)\<rparr>) (k\<lparr>rest := r\<rparr>)))"
  using assms
proof (induction ns arbitrary: k)
  case Nil
  then show ?case by (simp add: upd_proc_def without_def)
next
  case (Cons n ns)
  let ?fs = "p_ofile (ptable k ! c)"
  show ?case
  proof (cases "?fs n")
    case None
    then have w: "without (n # ns) ?fs = without ns ?fs" by (auto simp: without_def)
    have "upd_proc c (\<lambda>p. p\<lparr>p_ofile := without (n # ns) (p_ofile p)\<rparr>) (k\<lparr>rest := r\<rparr>) =
        upd_proc c (\<lambda>p. p\<lparr>p_ofile := without ns (p_ofile p)\<rparr>) (k\<lparr>rest := r\<rparr>)" for r
      by (simp add: upd_proc_def w)
    with Cons None show ?thesis by (simp add: exit_file_def proc_at_def)
  next
    case (Some f)
    show ?thesis
    proof (cases "sv_fileclose S f (rest k)")
      case (Inr r)
      let ?k = "upd_proc c (\<lambda>p. p\<lparr>p_ofile := (p_ofile p)(n := None)\<rparr>) (k\<lparr>rest := r\<rparr>)"
      have fs: "close_files S (p_ofile (ptable ?k ! c)) ns (rest ?k) = close_files S ?fs ns r"
      proof -
        have "p_ofile (ptable ?k ! c) = ?fs(n := None)" using Cons.prems by simp
        moreover have "close_files S (?fs(n := None)) ns r = close_files S ?fs ns r"
          by (rule close_files_same) (use Cons.prems in auto)
        ultimately show ?thesis by simp
      qed
      have w: "without ns ((p_ofile p)(n := None)) = without (n # ns) (p_ofile p)" for p :: proc by (auto simp: without_def)
      have "exit_files S c (n # ns) k = exit_files S c ns ?k" using Some Inr by (simp add: exit_file_def proc_at_def)
      also have "\<dots> = ebind (close_files S ?fs ns r) (\<lambda>r'.
          Inr (upd_proc c (\<lambda>p. p\<lparr>p_ofile := without ns (p_ofile p)\<rparr>) (?k\<lparr>rest := r'\<rparr>)))"
        using Cons.IH [of ?k, unfolded fs] Cons.prems fs by simp
      finally show ?thesis using Some Inr Cons.prems(1) by (simp add: upd_proc_rest upd_proc_upd w)
    qed (use Some in \<open>simp add: exit_file_def proc_at_def\<close>)
  qed
qed

lemma exit_close_run:
  assumes "c < length (ptable k)"
  shows "exit_close S c k =
    ebind (close_files S (p_ofile (ptable k ! c)) [0..<NOFILE] (rest k)) (\<lambda>r1.
      ebind (sv_iput_op S (p_cwd (ptable k ! c)) r1) (\<lambda>r2.
        Inr (upd_proc c (\<lambda>p. p\<lparr>p_ofile := without [0..<NOFILE] (p_ofile p), p_cwd := None\<rparr>) (k\<lparr>rest := r2\<rparr>))))"
proof (cases "close_files S (p_ofile (ptable k ! c)) [0..<NOFILE] (rest k)")
  case (Inr r1)
  then show ?thesis using assms exit_files_run [OF assms, of "[0..<NOFILE]" S]
    by (simp add: exit_close_def exit_cwd_def proc_at_def upd_proc_rest upd_proc_upd)
qed (use assms exit_files_run [OF assms, of "[0..<NOFILE]" S] in \<open>simp add: exit_close_def\<close>)

lemma exit_files_kinv:
  "kernel_inv pcs k \<Longrightarrow> cur k = Some c \<Longrightarrow> pcs c = Exit_files n \<Longrightarrow> n \<le> m \<Longrightarrow> exit_files S c [n..<m] k = Inr k' \<Longrightarrow>
    kernel_inv (pcs(c := Exit_files m)) k' \<and> cur k' = Some c"
proof (induction "m - n" arbitrary: n k pcs)
  case 0
  then show ?case by (simp add: fun_upd_idem)
next
  case (Suc d)
  then have u: "[n..<m] = n # [Suc n..<m]" by (simp add: upt_conv_Cons)
  with Suc.prems obtain k1 where k1: "exit_file S c n k = Inr k1" "exit_files S c [Suc n..<m] k1 = Inr k'" by auto
  have c1: "cur k1 = Some c" using k1(1) Suc.prems(2) by (auto simp: exit_file_def split: option.splits)
  have "kernel_inv (pcs(c := Exit_files (Suc n))) k1" by (rule exit_file_kinv [OF Suc.prems(1,2,3) k1(1)])
  from Suc.hyps(1) [OF _ this c1 _ _ k1(2)] Suc.hyps(2) Suc.prems(4) show ?case by simp
qed

text \<open>\<open>exit\<close> run from its first to its last section.\<close>

lemma exit_close_kinv:
  assumes inv: "kernel_inv pcs k" and pc: "pcs c = Elsewhere" and b: "exit_begin k = Inr c" and run: "exit_close S c k = Inr k'"
  shows "kernel_inv (pcs(c := Exit_last)) k' \<and> cur k' = Some c"
proof -
  from b have c: "cur k = Some c" by (auto simp: exit_begin_def split: option.splits if_splits)
  note i1 = exit_begin_kinv [OF inv pc b]
  from run obtain k1 where k1: "exit_files S c [0..<NOFILE] k = Inr k1" "exit_cwd S c k1 = Inr k'" by (auto simp: exit_close_def)
  have i2: "kernel_inv (pcs(c := Exit_files NOFILE)) k1 \<and> cur k1 = Some c"
    using exit_files_kinv [OF i1 c _ _ k1(1)] by simp
  then have "kernel_inv (pcs(c := Exit_files NOFILE, c := Exit_last)) k'" using exit_cwd_kinv [OF _ _ _ k1(2), of "pcs(c := Exit_files NOFILE)"] by simp
  then show ?thesis using i2 k1(2) by (auto simp: exit_cwd_def)
qed

lemma exit_kinv:
  assumes inv: "kernel_inv pcs k" and c: "cur k = Some c" "pcs c = Elsewhere" and run: "exit_proc S k = Inr k'"
  shows "kernel_inv pcs k'"
proof -
  from run obtain c' k1 where c': "exit_begin k = Inr c'" "exit_close S c' k = Inr k1" "exit_last c' k1 = Inr k'"
    by (auto simp: exit_proc_def)
  then have "c' = c" using c(1) by (auto simp: exit_begin_def split: option.splits if_splits)
  with c' exit_close_kinv [OF inv c(2)] have "kernel_inv (pcs(c := Exit_last)) k1" "cur k1 = Some c" by auto
  from exit_last_kinv [OF this _ c'(3) [unfolded \<open>c' = c\<close>]] c(2) show ?thesis by (simp add: fun_upd_idem)
qed

lemma exit_cur: "exit_proc S k = Inr k' \<Longrightarrow> cur k' = None"
  by (auto simp: exit_proc_def exit_last_def Let_def split: option.splits dest: sched_cur)

lemma exit_inv [inv_intros]:
  assumes inv: "proc_inv k" and run: "exit_proc S k = Inr k'"
  shows "proc_inv k'"
proof -
  from run obtain c where c: "cur k = Some c" by (auto simp: exit_proc_def exit_begin_def)
  show ?thesis by (rule proc_inv_step [OF inv]) (use exit_cur [OF run] c run in \<open>auto intro: exit_kinv\<close>)
qed

subsection \<open>Booting\<close>

definition boot_kernel :: "'k \<Rightarrow> 'k kernel" where
  "boot_kernel r = \<lparr>ptable = replicate NPROC zero_proc, initproc = None, nextpid = 1, cur = None,
     sch_pc = Computing 0 0, rest = r\<rparr>"

lemma userinit_run:
  assumes "userinit S (boot_kernel r) = Inr k"
  obtains p where "ptable k = (replicate 64 zero_proc)[0 := p]" "initproc k = Some 0" "cur k = None"
    "nextpid k = 2" "sch_pc k = Computing 0 0" "p_state p = RUNNABLE" "p_pid p = 1"
    "p_parent p = None" "p_prio p = 0" "p_ofile p = (\<lambda>_. None)"
proof -
  have zf: "p_ofile zero_proc = (\<lambda>_. None)" by (simp add: zero_proc_def)
  have z: "p_parent zero_proc = None" by (simp add: zero_proc_def)
  have slot: "find_slot (\<lambda>p. p_state p = UNUSED) (replicate 64 zero_proc) = Some 0"
    by (rule find_slot_SomeI) (simp_all add: zero_proc_def)
  show thesis using assms
    by (auto simp: userinit_def boot_kernel_def NPROC_def allocproc_def alloc_entry_def alloc_stack_def INT_MAX_def slot Let_def z zf split: option.splits if_splits intro: that)
qed

lemma userinit_kinv:
  assumes "userinit S (boot_kernel r) = Inr k"
  shows "kernel_inv (\<lambda>_. Elsewhere) k"
  using assms
proof (cases rule: userinit_run)
  case (1 p)
  have at: "ptable k ! i = (if i = 0 then p else zero_proc)" if "i < 64" for i
    using that by (simp add: 1(1) nth_list_update)
  have z: "p_state zero_proc = UNUSED" "p_parent zero_proc = None" "no_files zero_proc" by (simp_all add: zero_proc_def no_files_def)
  have len: "length (ptable k) = 64" by (simp add: 1(1))
  have "ptable_ok (\<lambda>_. Elsewhere) 0 (cur k) (nextpid k) (ptable k)"
    by (rule ptable_okI) (use 1(2-) at z len in \<open>auto simp: live_def split: if_splits\<close>)
  then show ?thesis using 1(2-5) by (simp add: kernel_inv_def pc_ok_def INT_MAX_def)
qed

lemma userinit_inv: "userinit S (boot_kernel r) = Inr k \<Longrightarrow> proc_inv k"
  by (rule proc_invI [OF userinit_kinv]) simp_all

text \<open>C30: Every state that the kernel reaches from the state after \<open>userinit\<close>, whatever the memory and
  file services return, wherever the processes are preempted or sleep inside \<open>fork\<close> and \<open>exit\<close>, and whatever the rest of the kernel does
  in between, has a consistent process table: at most one process is running and it is
  the CPU's current one, init is alive, an entry is \<open>EMBRYO\<close> exactly while one living process is filling it inside \<open>fork\<close>, every other process
  but init has a living parent, processes have distinct positive pids below \<open>nextpid\<close>, which stays an \<open>int\<close> (the step at which \<open>nextpid++\<close> would
  overflow is a fault), sleepers have a channel, free entries have no parent, free entries and zombies no open files.\<close>

theorem xv6_process_table_invariant:
  assumes "userinit S (boot_kernel r) = Inr k0" and "(kstep S)\<^sup>*\<^sup>* \<lparr>sk = k0, spc = \<lambda>_. Elsewhere\<rparr> s"
  shows "kernel_inv (spc s) (sk s)"
  using assms(2)
proof (induction rule: rtranclp_induct)
  case base
  show ?case using userinit_kinv [OF assms(1)] by simp
qed (rule kstep_inv)

text \<open>A kernel whose services always succeed, to run the definitions on.\<close>

definition calm_services :: "nat services" where
  "calm_services = \<lparr>sv_kalloc = (\<lambda>n. Inr (Some (4096 * Suc n), Suc n)), sv_kfree = (\<lambda>_ n. Inr n),
     sv_setupkvm = (\<lambda>n. Inr (Some (4096 * Suc n), Suc n)), sv_inituvm = (\<lambda>_ n. Inr n),
     sv_copyuvm = (\<lambda>_ _ n. Inr (Some (4096 * Suc n), Suc n)), sv_freevm = (\<lambda>_ n. Inr n),
     sv_allocuvm = (\<lambda>_ _ new n. Inr (new, n)), sv_deallocuvm = (\<lambda>_ _ new n. Inr (new, n)),
     sv_filedup = (\<lambda>_ n. Inr n), sv_fileclose = (\<lambda>_ n. Inr n), sv_idup = (\<lambda>_ n. Inr n),
     sv_iput_op = (\<lambda>_ n. Inr n), sv_namei_root = (\<lambda>n. Inr (Some 0, n))\<rparr>"

definition first_kernel :: "nat kernel" where
  "first_kernel = projr (userinit calm_services (boot_kernel 0))"

lemma first_kernel_run: "userinit calm_services (boot_kernel 0) = Inr first_kernel"
proof -
  have slot: "find_slot (\<lambda>p. p_state p = UNUSED) (replicate 64 zero_proc) = Some 0"
    by (rule find_slot_SomeI) (simp_all add: zero_proc_def)
  have "\<exists>k. userinit calm_services (boot_kernel 0) = Inr k"
    by (simp add: userinit_def boot_kernel_def NPROC_def allocproc_def alloc_entry_def alloc_stack_def INT_MAX_def slot Let_def calm_services_def)
  then show ?thesis by (auto simp: first_kernel_def)
qed

subsection \<open>Fork, exit and wait\<close>

text \<open>C32: \<open>fork\<close> of the running process, when it is not interrupted, either returns -1 and leaves every existing process unchanged, or
  returns the new pid \<open>nextpid\<close> and fills the first free entry with a \<open>RUNNABLE\<close> child of the caller: a page directory that \<open>copyuvm\<close> made from
  the caller's, with the same size; the same open files, each duplicated once by \<open>filedup\<close>, and no others; the same directory (by \<open>idup\<close>), name and priority;
  the same trap frame except that the child sees 0 in \<open>eax\<close>; and all other entries unchanged. The table is full exactly when \<open>fork\<close>
  fails without advancing \<open>nextpid\<close>; when there is no memory for the copy, the kernel stack is given back.\<close>

theorem fork_correct:
  assumes "proc_inv k" and "cur k = Some c" and "fork S k = Inr (r, k')"
  shows "(\<forall>j < 64. p_state (proc_at k j) \<noteq> UNUSED \<longrightarrow> proc_at k' j = proc_at k j) \<and>
    (nextpid k' = nextpid k \<longleftrightarrow> (\<forall>p \<in> set (ptable k). p_state p \<noteq> UNUSED)) \<and>
    (if r = -1 then (\<forall>j < 64. p_state (proc_at k' j) = p_state (proc_at k j)) \<and>
       (k' = k \<or> sv_kalloc S (rest k) = Inr (None, rest k') \<or> (\<exists>ks r1 r2. sv_kalloc S (rest k) = Inr (Some ks, r1) \<and>
          sv_copyuvm S (p_pgdir (proc_at k c)) (p_sz (proc_at k c)) r1 = Inr (None, r2) \<and> sv_kfree S (Some ks) r2 = Inr (rest k')))
     else r = nextpid k \<and>
       (\<exists>i < 64. \<exists>ks pd r1 r2 r3. p_state (proc_at k i) = UNUSED \<and> (\<forall>j < i. p_state (proc_at k j) \<noteq> UNUSED) \<and>
          (\<forall>j. j \<noteq> i \<longrightarrow> proc_at k' j = proc_at k j) \<and>
          p_state (proc_at k' i) = RUNNABLE \<and> p_pid (proc_at k' i) = r \<and> p_parent (proc_at k' i) = Some c \<and>
          sv_kalloc S (rest k) = Inr (Some ks, r1) \<and> p_kstack (proc_at k' i) = Some ks \<and>
          sv_copyuvm S (p_pgdir (proc_at k c)) (p_sz (proc_at k c)) r1 = Inr (Some pd, r2) \<and> p_pgdir (proc_at k' i) = Some pd \<and>
          p_sz (proc_at k' i) = p_sz (proc_at k c) \<and>
          dup_files S (p_ofile (proc_at k c)) [0..<NOFILE] r2 = Inr r3 \<and> (\<forall>n < NOFILE. p_ofile (proc_at k' i) n = p_ofile (proc_at k c) n) \<and>
          sv_idup S (p_cwd (proc_at k c)) r3 = Inr (rest k') \<and> p_cwd (proc_at k' i) = p_cwd (proc_at k c) \<and>
          p_name (proc_at k' i) = p_name (proc_at k c) \<and> p_prio (proc_at k' i) = p_prio (proc_at k c) \<and>
          p_tf (proc_at k' i) = (p_tf (proc_at k c))\<lparr>tf_eax := 0\<rparr>))"
proof -
  have len: "length (ptable k) = 64" by (rule cur_live [OF assms(1,2)])
  have np: "0 < nextpid k" using assms(1) by (auto simp: proc_inv_def kernel_inv_def)
  show ?thesis
  proof (cases rule: fork_cases [OF assms])
    case 1
    then show ?thesis by auto
  next
    case (2 i p)
    note s = find_slot_SomeD [OF 2(2)]
    have "\<not> (\<forall>p \<in> set (ptable k). p_state p \<noteq> UNUSED)" using s nth_mem by blast
    moreover have "p_state (proc_at k' j) = p_state (proc_at k j)" if "j < 64" for j
      using 2 s len that by (cases "j = i") (auto simp: proc_at_def)
    moreover have "p_state (proc_at k j) \<noteq> UNUSED \<Longrightarrow> proc_at k' j = proc_at k j" for j
      using 2 s by (cases "j = i") (auto simp: proc_at_def)
    moreover have "nextpid k' \<noteq> nextpid k" using 2(4) by simp
    ultimately show ?thesis using 2(1,9) by (simp add: proc_at_def)
  next
    case (3 i p ks pd r1 r2 r3)
    note s = find_slot_SomeD [OF 3(2)]
    have full: "\<not> (\<forall>p \<in> set (ptable k). p_state p \<noteq> UNUSED)" using s nth_mem by blast
    have a: "proc_at k' j = (if j = i then p else proc_at k j)" for j
      using 3(3) s by (simp add: proc_at_def nth_list_update)
    have "nextpid k' \<noteq> nextpid k" "r \<noteq> -1" using 3(1,4) np by simp_all
    moreover have "p_state (proc_at k j) \<noteq> UNUSED \<Longrightarrow> proc_at k' j = proc_at k j" for j using s a [of j] by (cases "j = i") (auto simp: proc_at_def [of k])
    ultimately show ?thesis using full 3(1,7-) s len
      by (simp add: a) (intro exI [of _ i], simp add: proc_at_def)
  qed
qed

text \<open>After \<open>2 ^ 31 - 2\<close> successful or failed calls \<open>fork\<close> cannot make another pid.\<close>

lemma fork_pid_overflow:
  assumes "cur k = Some c" and "find_slot (\<lambda>p. p_state p = UNUSED) (ptable k) = Some i" and "nextpid k = 2 ^ 31 - 1"
  shows "fork S k = Inl Int_overflow"
  using assms by (simp add: fork_def myproc_def allocproc_def alloc_entry_def INT_MAX_def)

text \<open>The first process while it runs.\<close>

definition demo_kernel :: "nat kernel" where
  "demo_kernel = switch_to 0 0 first_kernel"

lemma demo_kinv: "kernel_inv (\<lambda>_. Elsewhere) demo_kernel"
  using first_kernel_run
proof (cases rule: userinit_run)
  case (1 p)
  show ?thesis unfolding demo_kernel_def by (rule switch_kinv [OF userinit_kinv [OF first_kernel_run]]) (use 1 in simp_all)
qed

lemma demo_kernel_facts: "proc_inv demo_kernel" "cur demo_kernel = Some 0"
  by (rule proc_invI [OF demo_kinv]) (simp_all add: demo_kernel_def switch_to_def)

lemma demo_kernel_slot: "find_slot (\<lambda>p. p_state p = UNUSED) (ptable demo_kernel) = Some 1"
  using first_kernel_run
proof (cases rule: userinit_run)
  case (1 p)
  then show ?thesis
    by (intro find_slot_SomeI) (auto simp: demo_kernel_def switch_to_def zero_proc_def nth_list_update)
qed

lemma calm_loops: "dup_files calm_services fs ns r = Inr r" "close_files calm_services fs ns r = Inr r"
  by (induction ns) (auto simp: calm_services_def split: option.split)

lemma calm_simps: "sv_kalloc calm_services r = Inr (Some (4096 * Suc r), Suc r)" "sv_copyuvm calm_services pg sz r = Inr (Some (4096 * Suc r), Suc r)"
  "sv_idup calm_services d r = Inr r" "sv_iput_op calm_services d r = Inr r"
  by (simp_all add: calm_services_def)

lemma calm_fork:
  assumes inv: "proc_inv k" and c: "cur k = Some c" and l: "find_slot (\<lambda>p. p_state p = UNUSED) (ptable k) = Some i" and np: "nextpid k < INT_MAX"
  shows "\<exists>k'. fork calm_services k = Inr (nextpid k, k')"
proof -
  note s = find_slot_SomeD [OF l]
  have ci: "c \<noteq> i" using cur_live(2) [OF inv c] s by auto
  obtain k1 where k1: "allocproc calm_services k = Inr (Some i, k1)"
    using l np by (simp add: allocproc_def alloc_entry_def alloc_stack_def calm_simps Let_def)
  obtain k2 where k2: "fork_vm calm_services c i k1 = Inr (True, k2)" by (simp add: fork_vm_def calm_simps Let_def)
  have "i < length (ptable k1) \<and> p_pid (ptable k1 ! i) = nextpid k" using k1 s by (cases rule: allocproc_cases) (auto split: if_splits)
  then have p2: "i < length (ptable (fork_fields c i k2))" "p_pid (ptable (fork_fields c i k2) ! i) = nextpid k"
    using k2 by (auto simp: fork_vm_def calm_simps Let_def fork_fields_def)
  obtain k3 where k3: "fork_files calm_services c i [0..<NOFILE] (fork_fields c i k2) = Inr k3" "p_pid (ptable k3 ! i) = nextpid k" "i < length (ptable k3)"
    using fork_files_run [OF ci p2(1), of calm_services "[0..<NOFILE]"] p2 by (simp add: calm_loops)
  have "\<exists>k4. fork_cwd calm_services c i k3 = Inr k4 \<and> p_pid (ptable k4 ! i) = nextpid k"
    using k3 by (simp add: fork_cwd_def calm_simps)
  then show ?thesis using c k1 k2 k3 by (auto simp: fork_def myproc_def fork_publish_def proc_at_def)
qed

lemma demo_fork: "\<exists>k'. fork calm_services demo_kernel = Inr (2, k') \<and> cur k' = Some 0"
proof -
  from first_kernel_run have "nextpid demo_kernel = 2"
    by (cases rule: userinit_run) (simp add: demo_kernel_def switch_to_def)
  then obtain k' where k': "fork calm_services demo_kernel = Inr (2, k')"
    using calm_fork [OF demo_kernel_facts demo_kernel_slot] by (auto simp: INT_MAX_def)
  then show ?thesis using fork_cur [OF demo_kernel_facts] by blast
qed

theorem fork_correct_witness:
  "\<exists>k' i. fork calm_services demo_kernel = Inr (2, k') \<and> p_state (proc_at k' i) = RUNNABLE \<and>
     p_parent (proc_at k' i) = Some 0 \<and> tf_eax (p_tf (proc_at k' i)) = 0"
proof -
  from demo_fork obtain k' where k': "fork calm_services demo_kernel = Inr (2, k')" by blast
  from fork_correct [OF demo_kernel_facts k'] obtain i where i:
    "p_state (proc_at k' i) = RUNNABLE" "p_parent (proc_at k' i) = Some 0"
    "p_tf (proc_at k' i) = (p_tf (proc_at demo_kernel 0))\<lparr>tf_eax := 0\<rparr>"
    by auto
  from i(3) have "tf_eax (p_tf (proc_at k' i)) = 0" by simp
  with k' i(1,2) show ?thesis by blast
qed

lemma abandon_length: "length (fold (abandon c ini) js ps) = length ps"
  by (induction js arbitrary: ps) (simp_all add: abandon_def Let_def)

lemma exit_last_total:
  assumes "cur k = Some c" and "c < length (ptable k)" and "initproc k = Some ini"
  shows "\<exists>k'. exit_last c k = Inr k'"
proof -
  define ps1 where "ps1 = (case p_parent (proc_at k c) of Some par \<Rightarrow> wakeup1 (Chan_proc par) (ptable k) | None \<Rightarrow> ptable k)"
  let ?k = "k\<lparr>ptable := fold (abandon c ini) [0..<length ps1] ps1\<rparr>"
  have "c < length (ptable ?k)" using assms(2) by (auto simp: ps1_def abandon_length split: option.splits)
  then show ?thesis using sched_run [of ?k c "\<lambda>p. p\<lparr>p_state := ZOMBIE\<rparr>"] assms by (simp add: exit_last_def ps1_def Let_def)
qed

lemma exit_cases:
  assumes inv: "proc_inv k" and run: "exit_proc S k = Inr k'"
  obtains c ini where "cur k = Some c" "initproc k = Some ini" "c \<noteq> ini" "initproc k' = Some ini" "nextpid k' = nextpid k"
    "cur k' = None" "sch_pc k' = picked c (sch_pc k)" "length (ptable k') = 64"
    "\<forall>i < 64. p_pid (ptable k' ! i) = p_pid (ptable k ! i) \<and> p_chan (ptable k' ! i) = p_chan (ptable k ! i) \<and>
      (if i = c then p_state (ptable k' ! i) = ZOMBIE else woken (p_state (ptable k ! i)) (p_state (ptable k' ! i))) \<and>
      p_parent (ptable k' ! i) = (if p_parent (ptable k ! i) = Some c then Some ini else p_parent (ptable k ! i))"
    "\<forall>par. p_parent (ptable k ! c) = Some par \<longrightarrow> par \<noteq> c \<longrightarrow> par < 64 \<longrightarrow> p_state (ptable k ! par) = SLEEPING \<longrightarrow>
       p_chan (ptable k ! par) = Some (Chan_proc par) \<longrightarrow> p_state (ptable k' ! par) = RUNNABLE"
proof -
  from run obtain c k1 where b: "exit_begin k = Inr c" and cl: "exit_close S c k = Inr k1" and l: "exit_last c k1 = Inr k'"
    by (auto simp: exit_proc_def)
  from b obtain ini where c: "cur k = Some c" and ini: "initproc k = Some ini" "c \<noteq> ini"
    by (auto simp: exit_begin_def split: option.splits if_splits)
  note C = cur_live [OF inv c]
  have cl_len: "c < length (ptable k)" using C by simp
  from inv c obtain pcs where pcs: "kernel_inv pcs k" "pcs c = Elsewhere" by (auto simp: proc_inv_def)
  from exit_close_kinv [OF pcs b cl] have k1: "kernel_inv (pcs(c := Exit_last)) k1" "cur k1 = Some c" by simp_all
  from cl [unfolded exit_close_run [OF cl_len]] obtain r where
    "k1 = upd_proc c (\<lambda>p. p\<lparr>p_ofile := without [0..<NOFILE] (p_ofile p), p_cwd := None\<rparr>) (k\<lparr>rest := r\<rparr>)" by auto
  then have s: "initproc k1 = initproc k" "nextpid k1 = nextpid k" "sch_pc k1 = sch_pc k"
    "\<And>i. p_pid (ptable k1 ! i) = p_pid (ptable k ! i) \<and> p_chan (ptable k1 ! i) = p_chan (ptable k ! i) \<and>
      p_state (ptable k1 ! i) = p_state (ptable k ! i) \<and> p_parent (ptable k1 ! i) = p_parent (ptable k ! i)"
    using C by (auto simp: nth_list_update)
  note E = exit_last_cases [OF k1 l, unfolded s(1), OF ini]
  show thesis by (rule that [OF c ini E(1) _ E(3) _ E(5)]) (use E s in auto)
qed

text \<open>\<open>exit\<close> makes the running process a zombie and gives up the CPU; its children become children of
  init, its parent is woken if it waits for a child, and no other process changes except
  by being woken. (The init process panics instead.)\<close>

theorem exit_hands_over:
  assumes "proc_inv k" and "exit_proc S k = Inr k'"
  shows "\<exists>c ini. cur k = Some c \<and> initproc k = Some ini \<and> c \<noteq> ini \<and> cur k' = None \<and> p_state (proc_at k' c) = ZOMBIE \<and>
    (\<forall>i < 64. p_parent (proc_at k' i) \<noteq> Some c) \<and>
    (\<forall>i < 64. p_parent (proc_at k i) = Some c \<longrightarrow> p_parent (proc_at k' i) = Some ini) \<and>
    (\<forall>i < 64. i \<noteq> c \<longrightarrow> p_pid (proc_at k' i) = p_pid (proc_at k i) \<and>
       (p_state (proc_at k' i) = p_state (proc_at k i) \<or>
        p_state (proc_at k i) = SLEEPING \<and> p_state (proc_at k' i) = RUNNABLE)) \<and>
    (\<forall>par < 64. p_parent (proc_at k c) = Some par \<longrightarrow> p_state (proc_at k par) = SLEEPING \<longrightarrow>
       p_chan (proc_at k par) = Some (Chan_proc par) \<longrightarrow> p_state (proc_at k' par) = RUNNABLE)"
proof (cases rule: exit_cases [OF assms])
  case (1 c ini)
  have c: "c < 64" "p_state (ptable k ! c) = RUNNING" using cur_live [OF assms(1) 1(1)] by simp_all
  have "\<forall>i < 64. p_parent (proc_at k' i) \<noteq> Some c" using 1(3,9) by (auto simp: proc_at_def)
  moreover have "p_state (proc_at k' c) = ZOMBIE" using 1(9) c by (simp add: proc_at_def)
  moreover have "p_state (proc_at k' par) = RUNNABLE" if "par < 64" "p_parent (proc_at k c) = Some par"
      "p_state (proc_at k par) = SLEEPING" "p_chan (proc_at k par) = Some (Chan_proc par)" for par
    using 1(10) that c by (cases "par = c") (auto simp: proc_at_def)
  moreover have "\<forall>i < 64. i \<noteq> c \<longrightarrow> p_pid (proc_at k' i) = p_pid (proc_at k i) \<and>
       (p_state (proc_at k' i) = p_state (proc_at k i) \<or>
        p_state (proc_at k i) = SLEEPING \<and> p_state (proc_at k' i) = RUNNABLE)"
    using 1(9) by (auto simp: proc_at_def woken_def)
  moreover have "\<forall>i < 64. p_parent (proc_at k i) = Some c \<longrightarrow> p_parent (proc_at k' i) = Some ini"
    using 1(9) by (simp add: proc_at_def)
  ultimately show ?thesis using 1(1-3,6) by blast
qed


text \<open>The child of the first process while it runs and its parent waits for it.\<close>

definition child_kernel :: "nat kernel" where
  "child_kernel = switch_to 1 0 (projr (sleep_on (Chan_proc 0) (snd (projr (fork calm_services demo_kernel)))))"

lemma child_kernel_facts: "proc_inv child_kernel" "cur child_kernel = Some 1" "initproc child_kernel = Some 0"
proof -
  let ?e = "\<lambda>_ :: nat. Elsewhere"
  from demo_fork obtain k1 where f: "fork calm_services demo_kernel = Inr (2, k1)" "cur k1 = Some 0" by blast
  have inv1: "kernel_inv ?e k1" by (rule fork_kinv [OF demo_kinv demo_kernel_facts(2) _ f(1)]) simp
  note C = kcur_live [OF inv1 f(2)]
  have run1: "p_state (ptable k1 ! 1) = RUNNABLE" "initproc k1 = initproc demo_kernel"
    by (cases rule: fork_cases [OF demo_kernel_facts f(1)]; use demo_kernel_slot find_slot_bound [OF demo_kernel_slot] in simp)+
  obtain k2 where k2: "sleep_on (Chan_proc 0) k1 = Inr k2" "cur k2 = None" "ptable k2 ! 1 = ptable k1 ! 1" "initproc k2 = initproc k1"
    using f(2) C sched_run [of k1 0 "\<lambda>p. p\<lparr>p_chan := Some (Chan_proc 0), p_state := SLEEPING\<rparr>"]
    by (simp add: sleep_on_def)
  have inv2: "kernel_inv ?e k2" by (rule sleep_kinv [OF inv1 k2(1)])
  have ck: "child_kernel = switch_to 1 0 k2" using f k2 by (simp add: child_kernel_def)
  have "kernel_inv ?e child_kernel" unfolding ck by (rule switch_kinv [OF inv2 k2(2)]) (use k2(3) run1 in simp_all)
  then show "proc_inv child_kernel" by (rule proc_invI) simp
  show "cur child_kernel = Some 1" by (simp add: ck switch_to_def)
  have "initproc demo_kernel = Some 0" using first_kernel_run by (cases rule: userinit_run) (simp add: demo_kernel_def switch_to_def)
  then show "initproc child_kernel = Some 0" by (simp add: ck switch_to_def k2(4) run1)
qed

lemma child_exits: "\<exists>k'. exit_proc calm_services child_kernel = Inr k'"
proof -
  note C = cur_live [OF child_kernel_facts(1,2)]
  obtain k1 where k1: "exit_close calm_services 1 child_kernel = Inr k1" "cur k1 = Some 1" "initproc k1 = Some 0" "1 < length (ptable k1)"
    using exit_close_run [of 1 child_kernel calm_services] C child_kernel_facts by (simp add: calm_loops calm_simps)
  have "exit_begin child_kernel = Inr 1" using child_kernel_facts by (simp add: exit_begin_def myproc_def)
  with k1 exit_last_total [OF k1(2,4,3)] show ?thesis by (simp add: exit_proc_def)
qed

theorem exit_hands_over_witness:
  "\<exists>k'. exit_proc calm_services child_kernel = Inr k' \<and> p_state (proc_at k' 1) = ZOMBIE \<and> cur k' = None"
proof -
  from child_exits obtain k' where k': "exit_proc calm_services child_kernel = Inr k'" by blast
  from exit_hands_over [OF child_kernel_facts(1) this] child_kernel_facts(2) k' show ?thesis by auto
qed

text \<open>A pass of \<open>wait\<close>: with a zombie child it returns that child's pid and frees its entry, all other
  entries being unchanged; without children, or when the caller has been killed, it returns -1 and
  changes nothing; otherwise the caller goes to sleep on its own address.\<close>

theorem wait_correct:
  assumes "proc_inv k" and "cur k = Some c" and "wait_pass S k = Inr (r, k')"
  shows "case find_slot (\<lambda>p. p_parent p = Some c \<and> p_state p = ZOMBIE) (ptable k) of
      Some i \<Rightarrow> r = Returned (p_pid (proc_at k i)) \<and> 0 < p_pid (proc_at k i) \<and> p_state (proc_at k' i) = UNUSED \<and>
        p_parent (proc_at k' i) = None \<and> (\<forall>j. j \<noteq> i \<longrightarrow> proc_at k' j = proc_at k j)
    | None \<Rightarrow>
        if (\<exists>i < 64. p_parent (proc_at k i) = Some c) \<and> \<not> p_killed (proc_at k c)
        then r = Slept \<and> cur k' = None \<and> p_state (proc_at k' c) = SLEEPING \<and>
          p_chan (proc_at k' c) = Some (Chan_proc c) \<and> (\<forall>j. j \<noteq> c \<longrightarrow> proc_at k' j = proc_at k j)
        else r = Returned (-1) \<and> k' = k"
proof -
  note C = cur_live [OF assms(1,2)]
  have kids: "(\<exists>p \<in> set (ptable k). p_parent p = Some c) \<longleftrightarrow> (\<exists>i < 64. p_parent (proc_at k i) = Some c)"
    using C(4) by (auto simp: proc_at_def set_conv_nth)
  show ?thesis
  proof (cases "find_slot (\<lambda>p. p_parent p = Some c \<and> p_state p = ZOMBIE) (ptable k)")
    case None
    show ?thesis
    proof (cases "(\<exists>i < 64. p_parent (proc_at k i) = Some c) \<and> \<not> p_killed (proc_at k c)")
      case True
      have "wait_pass S k = ebind (sleep_on (Chan_proc c) k) (\<lambda>k1. Inr (Slept, k1))"
        using None assms(2) True kids by (simp add: wait_pass_def myproc_def)
      moreover have "sleep_on (Chan_proc c) k = Inr ((upd_proc c (\<lambda>p. p\<lparr>p_chan := Some (Chan_proc c), p_state := SLEEPING,
          p_nice := p_nice p + 1\<rparr>) k)\<lparr>cur := None, sch_pc := picked c (sch_pc k)\<rparr>)"
        using assms(2) C sched_run [of k c "\<lambda>p. p\<lparr>p_chan := Some (Chan_proc c), p_state := SLEEPING\<rparr>"]
        by (simp add: sleep_on_def)
      ultimately show ?thesis using None True assms(3) C by (auto simp: proc_at_def)
    next
      case False
      with None assms(2,3) kids show ?thesis by (auto simp: wait_pass_def myproc_def)
    qed
  next
    case (Some i)
    from assms(2,3) Some obtain pid where pid: "reap S i k = Inr (pid, k')" "r = Returned pid"
      by (auto simp: wait_pass_def)
    have i: "i < 64" "p_state (ptable k ! i) = ZOMBIE"
      using find_slot_bound [OF Some] find_slot_sat [OF Some] C(4) by auto
    from assms(1) obtain pcs ini where "ptable_ok pcs ini (cur k) (nextpid k) (ptable k)" by (rule proc_inv_cases)
    then have "0 < p_pid (ptable k ! i)" using ptable_okD(9) i by auto
    moreover from pid(1) have "pid = p_pid (ptable k ! i) \<and> p_state (ptable k' ! i) = UNUSED \<and>
        p_parent (ptable k' ! i) = None \<and> (\<forall>j. j \<noteq> i \<longrightarrow> ptable k' ! j = ptable k ! j)"
      using i C(4) by (cases rule: reap_run) simp
    ultimately show ?thesis using Some pid(2) by (simp add: proc_at_def)
  qed
qed

theorem wait_correct_witness: "wait_pass calm_services demo_kernel = Inr (Returned (-1), demo_kernel)"
proof -
  from first_kernel_run have none: "\<forall>p \<in> set (ptable demo_kernel). p_parent p \<noteq> Some 0"
  proof (cases rule: userinit_run)
    case (1 p)
    let ?p = "p\<lparr>p_state := RUNNING\<rparr>"
    have "ptable demo_kernel = (replicate 64 zero_proc)[0 := ?p]" using 1 by (simp add: demo_kernel_def switch_to_def)
    moreover have "set ((replicate 64 zero_proc)[0 := ?p]) \<subseteq> insert ?p (set (replicate 64 zero_proc))"
      by (rule set_update_subset_insert)
    ultimately have "set (ptable demo_kernel) \<subseteq> {?p, zero_proc}" by simp
    moreover have "p_parent zero_proc = None" by (simp add: zero_proc_def)
    ultimately show ?thesis using 1(8) by fastforce
  qed
  then have f: "find_slot (\<lambda>p. p_parent p = Some 0 \<and> p_state p = ZOMBIE) (ptable demo_kernel) = None"
    by (auto simp: find_slot_None)
  have "wait_pass calm_services demo_kernel = Inr (Returned (-1), demo_kernel)"
    using demo_kernel_facts(2) f none by (simp add: wait_pass_def myproc_def)
  with wait_correct [OF demo_kernel_facts this] show ?thesis by simp
qed

subsection \<open>Scheduling\<close>

lemma fold_highest:
  fixes ps :: "proc list"
  defines "g \<equiv> \<lambda>p h. if p_state p = RUNNABLE \<and> p_prio p \<ge> h then p_prio p else h"
  shows "h \<le> fold g ps h \<and> (\<forall>p \<in> set ps. p_state p = RUNNABLE \<longrightarrow> p_prio p \<le> fold g ps h) \<and>
    (fold g ps h = h \<or> (\<exists>p \<in> set ps. p_state p = RUNNABLE \<and> p_prio p = fold g ps h))"
proof (induction ps arbitrary: h)
  case (Cons p ps)
  have "h \<le> g p h" "p_state p = RUNNABLE \<longrightarrow> p_prio p \<le> g p h" "g p h = h \<or> p_state p = RUNNABLE \<and> p_prio p = g p h"
    by (auto simp: g_def)
  with Cons [of "g p h"] show ?case by fastforce
qed simp

lemma computing_steps:
  assumes "sch_pc k = Computing i h" and "i + n \<le> length (ptable k)"
  shows "(scheduler_step ^^ n) k = k\<lparr>sch_pc := Computing (i + n)
    (fold (\<lambda>p h. if p_state p = RUNNABLE \<and> p_prio p \<ge> h then p_prio p else h) (take n (drop i (ptable k))) h)\<rparr>"
  using assms
proof (induction n arbitrary: i h k)
  case 0
  then show ?case by simp
next
  case (Suc n)
  let ?g = "\<lambda>p h. if p_state p = RUNNABLE \<and> p_prio p \<ge> h then p_prio p else h"
  let ?k = "k\<lparr>sch_pc := Computing (Suc i) (?g (ptable k ! i) h)\<rparr>"
  have i: "i < length (ptable k)" using Suc.prems by simp
  have s: "scheduler_step k = ?k" using Suc.prems i by (simp add: scheduler_step_def proc_at_def Let_def)
  have d: "drop i (ptable k) = ptable k ! i # drop (Suc i) (ptable k)" using i by (simp add: Cons_nth_drop_Suc)
  have "(scheduler_step ^^ Suc n) k = (scheduler_step ^^ n) ?k"
    by (simp only: funpow_Suc_right comp_apply s)
  also have "\<dots> = ?k\<lparr>sch_pc := Computing (Suc i + n)
      (fold ?g (take n (drop (Suc i) (ptable ?k))) (?g (ptable k ! i) h))\<rparr>"
    by (rule Suc.IH) (use Suc.prems in simp_all)
  finally show ?case by (simp add: d)
qed

text \<open>An idle CPU at the start of a scheduling round switches, if some process with a non-negative
  priority is runnable, after one pass over the table to a runnable process of the highest priority,
  the first one of that priority in the table.\<close>

theorem scheduler_picks_highest:
  assumes "proc_inv k" and "cur k = None" and "sch_pc k = Computing 0 0"
    and "j < 64" and "p_state (proc_at k j) = RUNNABLE" and "0 \<le> p_prio (proc_at k j)"
  shows "\<exists>i < 64. (scheduler_step ^^ 66) k = switch_to i (p_prio (proc_at k i)) k \<and> p_state (proc_at k i) = RUNNABLE \<and>
    (\<forall>l < 64. p_state (proc_at k l) = RUNNABLE \<longrightarrow> p_prio (proc_at k l) \<le> p_prio (proc_at k i)) \<and>
    (\<forall>l < i. p_state (proc_at k l) = RUNNABLE \<longrightarrow> p_prio (proc_at k l) < p_prio (proc_at k i))"
proof -
  have len: "length (ptable k) = 64" by (rule proc_inv_length [OF assms(1)])
  let ?g = "\<lambda>p h. if p_state p = RUNNABLE \<and> p_prio p \<ge> h then p_prio p else h"
  define h where "h = fold ?g (ptable k) 0"
  note F = fold_highest [of 0 "ptable k", folded h_def]
  have c64: "(scheduler_step ^^ 64) k = k\<lparr>sch_pc := Computing 64 h\<rparr>"
    using computing_steps [OF assms(3), of 64] len by (simp add: h_def)
  let ?k = "k\<lparr>sch_pc := Picking 0 h\<rparr>"
  have s1: "scheduler_step (k\<lparr>sch_pc := Computing 64 h\<rparr>) = ?k" using len by (simp add: scheduler_step_def)
  have mem: "ptable k ! j \<in> set (ptable k)" using assms(4) len by simp
  have "p_prio (ptable k ! j) \<le> h" using F mem assms(5) by (simp add: proc_at_def)
  then obtain p where p: "p \<in> set (ptable k)" "p_state p = RUNNABLE" "p_prio p = h"
    using F mem assms(5,6) by (force simp: proc_at_def)
  let ?P = "\<lambda>j. p_state (proc_at ?k j) = RUNNABLE \<and> p_prio (proc_at ?k j) = h"
  from p(1) obtain l where l: "l < 64" "ptable k ! l = p" using len by (auto simp: in_set_conv_nth)
  then have "candidate ?k 0 h \<noteq> None"
    using p len by (auto simp: candidate_def find_None_iff proc_at_def)
  then obtain i where i: "candidate ?k 0 h = Some i" by blast
  then have first: "i < 64" "p_state (proc_at k i) = RUNNABLE" "p_prio (proc_at k i) = h"
    "\<forall>l < i. \<not> (p_state (proc_at k l) = RUNNABLE \<and> p_prio (proc_at k l) = h)"
    using len by (auto simp: candidate_def find_Some_iff proc_at_def)
  have "(scheduler_step ^^ 66) k = scheduler_step (scheduler_step ((scheduler_step ^^ 64) k))"
    by (simp add: eval_nat_numeral)
  also have "\<dots> = switch_to i h ?k" unfolding c64 s1 by (simp add: scheduler_step_def i)
  also have "\<dots> = switch_to i h k" by (cases k) (simp add: switch_to_def upd_proc_def)
  finally have "(scheduler_step ^^ 66) k = switch_to i (p_prio (proc_at k i)) k" using first by simp
  moreover have "p_prio (proc_at k l) \<le> h" if "l < 64" "p_state (proc_at k l) = RUNNABLE" for l
    using F that len nth_mem [of l "ptable k"] by (auto simp: proc_at_def)
  moreover have "p_prio (proc_at k l) < h" if "l < i" "p_state (proc_at k l) = RUNNABLE" for l
    using calculation(2) [of l] that first by force
  ultimately show ?thesis using first by blast
qed

theorem scheduler_picks_highest_witness:
  "\<exists>i < 64. (scheduler_step ^^ 66) first_kernel = switch_to i (p_prio (proc_at first_kernel i)) first_kernel"
  using first_kernel_run
proof (cases rule: userinit_run)
  case (1 p)
  with scheduler_picks_highest [OF userinit_inv [OF first_kernel_run] 1(3,5), of 0] 1 show ?thesis
    by (auto simp: proc_at_def)
qed

text \<open>A process with a negative priority is never switched to, even when it is the only runnable one,
  because \<open>highest\<close> starts at 0: after \<open>set_prio(-1)\<close> and giving up the CPU it never runs again.\<close>

theorem negative_priority_starves:
  assumes "proc_inv k" and "cur k = None" and "i < 64" and "p_prio (proc_at k i) < 0"
  shows "cur (scheduler_step k) \<noteq> Some i \<and> proc_at (scheduler_step k) i = proc_at k i"
proof (cases "sch_pc k")
  case (Computing j h)
  with assms show ?thesis by (simp add: scheduler_step_def proc_at_def Let_def)
next
  case (Picking j h)
  have h: "0 \<le> h" using assms(1) Picking by (auto simp: proc_inv_def kernel_inv_def pc_ok_def)
  show ?thesis
  proof (cases "candidate k j h")
    case None
    with assms Picking show ?thesis by (simp add: scheduler_step_def proc_at_def)
  next
    case (Some l)
    then have "l \<noteq> i" using candidateD [OF Some] assms(4) h by (auto simp: proc_at_def)
    with Some Picking assms(2) show ?thesis by (simp add: scheduler_step_def switch_to_def proc_at_def)
  qed
qed

definition lazy_kernel :: "nat kernel" where
  "lazy_kernel = upd_proc 0 (\<lambda>p. p\<lparr>p_prio := -1\<rparr>) first_kernel"

theorem negative_priority_starves_witness: "cur (scheduler_step lazy_kernel) \<noteq> Some 0"
  using first_kernel_run
proof (cases rule: userinit_run)
  case (1 p)
  from userinit_kinv [OF first_kernel_run] obtain ini where ini: "initproc first_kernel = Some ini"
    "ptable_ok (\<lambda>_. Elsewhere) ini (cur first_kernel) (nextpid first_kernel) (ptable first_kernel)"
    "0 < nextpid first_kernel" "nextpid first_kernel \<le> INT_MAX" "pc_ok (sch_pc first_kernel)" by (rule kernel_invE)
  have "ptable_ok (\<lambda>_. Elsewhere) ini (cur first_kernel) (nextpid first_kernel)
      ((ptable first_kernel)[0 := (ptable first_kernel ! 0)\<lparr>p_prio := -1\<rparr>])"
    by (rule ptable_ok_own [OF ini(2)]) (use 1 in \<open>auto simp: live_def\<close>)
  then have "kernel_inv (\<lambda>_. Elsewhere) lazy_kernel" using ini by (simp add: lazy_kernel_def kernel_inv_def)
  then have "proc_inv lazy_kernel" by (rule proc_invI) simp
  with negative_priority_starves [of lazy_kernel 0] 1 show ?thesis
    by (simp add: lazy_kernel_def proc_at_def)
qed

text \<open>A process that has the CPU is followed by the next entry of the table in the loop of \<open>scheduler\<close>.
  What a step of the kernel does to the scheduler and to a process that waits for the CPU: it stays runnable with its priority, and the CPU stays where it
  is, is given up by the running process, or is handled by the scheduler.\<close>

lemma prio_wakeup1: "map p_prio (wakeup1 ch ps) = map p_prio ps"
  by (simp add: wakeup1_def)

lemma prio_abandon: "j < length ps \<Longrightarrow> map p_prio (abandon c ini j ps) = map p_prio ps"
proof -
  assume j: "j < length ps"
  have "map p_prio (ps[j := (ps ! j)\<lparr>p_parent := Some ini\<rparr>]) = map p_prio ps"
    using j by (simp add: list_eq_iff_nth_eq nth_list_update)
  then show ?thesis by (simp add: abandon_def Let_def prio_wakeup1)
qed

lemma prio_abandon_fold: "set js \<subseteq> {..<length ps} \<Longrightarrow> map p_prio (fold (abandon c ini) js ps) = map p_prio ps"
proof (induction js arbitrary: ps)
  case (Cons j js)
  have "length (abandon c ini j ps) = length ps" using abandon_length [of c ini "[j]" ps] by simp
  then have "map p_prio (fold (abandon c ini) js (abandon c ini j ps)) = map p_prio (abandon c ini j ps)"
    using Cons by simp
  then show ?case using prio_abandon Cons.prems by simp
qed simp

lemma sched_frame:
  assumes "sched (upd_proc c f k) = Inr k'" and "cur k = Some c" and "j \<noteq> c"
  shows "ptable k' ! j = ptable k ! j" "cur k' = None" "sch_pc k' = picked c (sch_pc k)"
  using assms by (auto simp: sched_def picked_def proc_at_def split: if_splits)

lemma exit_last_prio:
  assumes "exit_last c k = Inr k'" and "cur k = Some c" and "j \<noteq> c" and "j < length (ptable k)"
  shows "p_prio (ptable k' ! j) = p_prio (ptable k ! j)"
proof -
  from assms(1) obtain ini where ini: "initproc k = Some ini" by (auto simp: exit_last_def split: option.splits)
  define ps1 where "ps1 = (case p_parent (proc_at k c) of Some par \<Rightarrow> wakeup1 (Chan_proc par) (ptable k) | None \<Rightarrow> ptable k)"
  let ?k = "k\<lparr>ptable := fold (abandon c ini) [0..<length ps1] ps1\<rparr>"
  have run: "sched (upd_proc c (\<lambda>p. p\<lparr>p_state := ZOMBIE\<rparr>) ?k) = Inr k'"
    using assms(1) ini by (simp add: exit_last_def ps1_def Let_def)
  have "ptable k' ! j = fold (abandon c ini) [0..<length ps1] ps1 ! j" using sched_frame(1) [OF run _ assms(3)] assms(2) by simp
  moreover have "map p_prio (fold (abandon c ini) [0..<length ps1] ps1) = map p_prio ps1" by (rule prio_abandon_fold) auto
  moreover have "map p_prio ps1 = map p_prio (ptable k)" by (auto simp: ps1_def prio_wakeup1 split: option.split)
  ultimately show ?thesis using assms(4) by (metis length_map nth_map)
qed

definition waits :: "nat \<Rightarrow> int \<Rightarrow> 'k kernel \<Rightarrow> bool" where
  "waits i h k \<longleftrightarrow> p_state (ptable k ! i) = RUNNABLE \<and> p_prio (ptable k ! i) = h"

definition stays :: "nat \<Rightarrow> int \<Rightarrow> 'k kernel \<Rightarrow> 'k kernel \<Rightarrow> bool" where
  "stays i h k k' \<longleftrightarrow> waits i h k' \<and>
     (cur k' = cur k \<and> sch_pc k' = sch_pc k \<or> (\<exists>c. cur k = Some c \<and> cur k' = None \<and> sch_pc k' = picked c (sch_pc k)))"

lemma stays_other:
  assumes "waits i h k" and "ptable k' ! i = ptable k ! i" and "cur k' = cur k" and "sch_pc k' = sch_pc k"
  shows "stays i h k k'"
  using assms by (simp add: stays_def waits_def)

lemma stays_sched:
  assumes "waits i h k" and "cur k \<noteq> Some i" and "cur k = Some c" and "sched (upd_proc c f k) = Inr k'"
  shows "stays i h k k'"
  using assms sched_frame [OF assms(4,3), of i] by (simp add: stays_def waits_def)

lemma making_not_waits:
  assumes "kernel_inv pcs k" and "making (pcs c) = Some (j, b)" and "waits i h k"
  shows "j \<noteq> i"
  using making_entry(3) [OF assms(1,2)] assms(3) by (auto simp: waits_def)

lemma stays_fork:
  assumes inv: "kernel_inv pcs k" and w: "waits i h k"
  shows "alloc_entry k = Inr (p, k') \<Longrightarrow> stays i h k k'"
    "making (pcs c) = Some (j, b) \<Longrightarrow> alloc_stack S j k = Inr (ok, k') \<Longrightarrow> stays i h k k'"
    "making (pcs c) = Some (j, b) \<Longrightarrow> fork_vm S c j k = Inr (ok, k') \<Longrightarrow> stays i h k k'"
    "making (pcs c) = Some (j, b) \<Longrightarrow> stays i h k (fork_fields c j k)"
    "making (pcs c) = Some (j, b) \<Longrightarrow> fork_file S c j n k = Inr k' \<Longrightarrow> stays i h k k'"
    "making (pcs c) = Some (j, b) \<Longrightarrow> fork_cwd S c j k = Inr k' \<Longrightarrow> stays i h k k'"
    "making (pcs c) = Some (j, b) \<Longrightarrow> fork_publish c j k = (r, k') \<Longrightarrow> stays i h k k'"
proof -
  assume run: "alloc_entry k = Inr (p, k')"
  show "stays i h k k'"
  proof (cases "find_slot (\<lambda>p. p_state p = UNUSED) (ptable k)")
    case None
    then have "k' = k" using run by (simp add: alloc_entry_def)
    then show ?thesis using w by (simp add: stays_def)
  next
    case (Some l)
    then have "l \<noteq> i" using find_slot_sat [OF Some] w by (auto simp: waits_def)
    then show ?thesis using run Some w by (auto simp: alloc_entry_def split: if_splits intro!: stays_other)
  qed
next
  assume "making (pcs c) = Some (j, b)"
  from making_not_waits [OF inv this w] have j: "j \<noteq> i" .
  show "alloc_stack S j k = Inr (ok, k') \<Longrightarrow> stays i h k k'" "fork_vm S c j k = Inr (ok, k') \<Longrightarrow> stays i h k k'"
    "stays i h k (fork_fields c j k)" "fork_file S c j n k = Inr k' \<Longrightarrow> stays i h k k'" "fork_cwd S c j k = Inr k' \<Longrightarrow> stays i h k k'"
    "fork_publish c j k = (r, k') \<Longrightarrow> stays i h k k'"
    using j w by (auto simp: alloc_stack_def fork_vm_def fork_fields_def fork_file_def fork_cwd_def fork_publish_def Let_def
        split: option.splits intro!: stays_other)
qed

lemma stays_exit_last:
  assumes inv: "kernel_inv pcs k" and w: "waits i h k" "cur k \<noteq> Some i" "i < 64" and c: "cur k = Some c" "pcs c = Exit_last" and run: "exit_last c k = Inr k'"
  shows "stays i h k k'"
proof -
  from inv obtain ini where ini: "initproc k = Some ini" "ptable_ok pcs ini (cur k) (nextpid k) (ptable k)" by (rule kernel_invE)
  have "c \<noteq> ini" using ptable_okD(15) [OF ini(2), of c NOFILE] c(2) by simp
  note E = exit_last_cases [OF inv c(1) run ini(1) this]
  have "p_state (ptable k' ! i) = RUNNABLE" using E(7) w c by (auto simp: waits_def woken_def)
  moreover have "p_prio (ptable k' ! i) = p_prio (ptable k ! i)"
    using exit_last_prio [OF run c(1), of i] w c kcur_live(4) [OF inv c(1)] by auto
  ultimately show ?thesis using E(3,4) c w by (auto simp: stays_def waits_def)
qed

lemma stays_wait:
  assumes w: "waits i h k" "cur k \<noteq> Some i" and run: "wait_pass S k = Inr (r, k')"
  shows "stays i h k k'"
proof -
  from run obtain c where c: "cur k = Some c" by (auto simp: wait_pass_def)
  show ?thesis
  proof (cases "find_slot (\<lambda>p. p_parent p = Some c \<and> p_state p = ZOMBIE) (ptable k)")
    case None
    then consider "k' = k" | "sleep_on (Chan_proc c) k = Inr k'" using run c by (auto simp: wait_pass_def myproc_def split: if_splits)
    then show ?thesis
    proof cases
      case 2
      then show ?thesis using stays_sched [OF w c] c by (simp add: sleep_on_def)
    qed (use w in \<open>simp add: stays_def\<close>)
  next
    case (Some l)
    then have "l \<noteq> i" using find_slot_sat [OF Some] w by (auto simp: waits_def)
    from run c Some obtain pid where "reap S l k = Inr (pid, k')" by (auto simp: wait_pass_def)
    then show ?thesis using w \<open>l \<noteq> i\<close> by (cases rule: reap_run) (auto intro!: stays_other)
  qed
qed

lemma stays_kill:
  assumes "waits i h k" and "kill pid k = (r, k')"
  shows "stays i h k k'"
proof (cases "find_slot (\<lambda>p. p_pid p = pid) (ptable k)")
  case (Some l)
  then show ?thesis using assms find_slot_bound [OF Some]
    by (cases "l = i") (auto simp: kill_def stays_def waits_def)
qed (use assms in \<open>auto simp: kill_def stays_def\<close>)

lemma kstep_stays:
  assumes "kstep S s s'" and inv: "kernel_inv (spc s) (sk s)" and i: "i < 64" and w: "waits i h (sk s)" and n: "cur (sk s) \<noteq> Some i"
  shows "stays i h (sk s) (sk s') \<or> cur (sk s) = None \<and> sk s' = scheduler_step (sk s)"
  using assms(1)
proof (cases rule: kstep.cases)
  case (Fork_full c k)
  then show ?thesis using stays_fork(1) [OF inv w] by simp
next
  case (Fork_begin c j k)
  then show ?thesis using stays_fork(1) [OF inv w] by simp
next
  case (Fork_stack c j ok k)
  then show ?thesis using stays_fork(2) [OF inv w, of c j False] by simp
next
  case (Fork_vm c j ok k)
  then show ?thesis using stays_fork(3) [OF inv w, of c j False] by simp
next
  case (Fork_fields c j)
  then show ?thesis using stays_fork(4) [OF inv w, of c j False] by simp
next
  case (Fork_file c j n k)
  then show ?thesis using stays_fork(5) [OF inv w, of c j True] by simp
next
  case (Fork_cwd c j k)
  then show ?thesis using stays_fork(6) [OF inv w, of c j True] by simp
next
  case (Fork_publish c j r k)
  then show ?thesis using stays_fork(7) [OF inv w, of c j True] by simp
next
  case (Exit_last c k)
  then show ?thesis using stays_exit_last [OF inv w n i] by simp
next
  case (Wait c r k)
  then show ?thesis using stays_wait [OF w n] by simp
next
  case (Kill c pid r k)
  then show ?thesis using stays_kill [OF w] by simp
next
  case (Sleep ch k)
  then obtain c where "cur (sk s) = Some c" by (auto simp: sleep_on_def split: option.splits)
  with Sleep show ?thesis using stays_sched [OF w n] by (simp add: sleep_on_def)
next
  case (Yield k)
  then obtain c where "cur (sk s) = Some c" by (auto simp: yield_cpu_def)
  with Yield show ?thesis using stays_sched [OF w n] by (simp add: yield_cpu_def myproc_def)
next
  case (Wakeup ch)
  have "i < length (ptable (sk s))" using inv i ptable_okD(1) by (auto simp: kernel_inv_def)
  then have "waits i h (wakeup ch (sk s))" using w by (simp add: waits_def wakeup_def)
  then show ?thesis using Wakeup by (simp add: stays_def wakeup_def)
qed (use w n in \<open>auto simp: exit_file_def exit_cwd_def growproc_def set_prio_def resume_def Let_def stays_def waits_def
    split: option.splits if_splits\<close>)

text \<open>A run of the kernel in which the process \<open>i\<close> does not get the CPU, with the number of times that another process has given it up.\<close>

inductive turns :: "'k services \<Rightarrow> nat \<Rightarrow> 'k system \<Rightarrow> nat \<Rightarrow> 'k system \<Rightarrow> bool" for S i s where
  turns_none: "turns S i s 0 s"
| turns_step: "turns S i s n s1 \<Longrightarrow> kstep S s1 s2 \<Longrightarrow> cur (sk s2) \<noteq> Some i \<Longrightarrow>
    turns S i s (if cur (sk s1) \<noteq> None \<and> cur (sk s2) = None then Suc n else n) s2"

text \<open>The position of the scheduler while \<open>i\<close> waits in the loop that picks processes of its priority: at or before \<open>i\<close>, and it has passed an entry for
  every turn.\<close>

definition before :: "nat \<Rightarrow> int \<Rightarrow> nat \<Rightarrow> 'k kernel \<Rightarrow> bool" where
  "before i h m k \<longleftrightarrow> (\<exists>j \<le> i. m \<le> j \<and> sch_pc k = Picking j h \<and> (\<forall>c. cur k = Some c \<longrightarrow> c = j \<and> c \<noteq> i))"

lemma candidate_between:
  assumes "waits i h k" and "i < length (ptable k)" and "j \<le> i"
  shows "\<exists>l \<le> i. j \<le> l \<and> candidate k j h = Some l"
proof -
  let ?P = "\<lambda>l. p_state (proc_at k l) = RUNNABLE \<and> p_prio (proc_at k l) = h"
  have "i \<in> set [j..<length (ptable k)]" "?P i" using assms by (auto simp: waits_def proc_at_def)
  then have "find ?P [j..<length (ptable k)] \<noteq> None" by (auto simp: find_None_iff)
  then obtain l where l: "find ?P [j..<length (ptable k)] = Some l" by blast
  then obtain m where m: "m < length (ptable k) - j" "l = j + m" "\<forall>m' < m. \<not> ?P (j + m')"
    by (auto simp: find_Some_iff)
  have "l \<le> i"
  proof (rule ccontr)
    assume "\<not> l \<le> i"
    then have "i - j < m" using m(2) assms(3) by simp
    with m(3) \<open>?P i\<close> assms(3) show False by auto
  qed
  with l m show ?thesis by (auto simp: candidate_def)
qed

lemma before_step:
  assumes "kstep S s1 s2" and inv: "kernel_inv (spc s1) (sk s1)" and i: "i < 64" and w: "waits i h (sk s1)" and b: "before i h m (sk s1)"
    and n: "cur (sk s2) \<noteq> Some i"
  shows "waits i h (sk s2) \<and> before i h (if cur (sk s1) \<noteq> None \<and> cur (sk s2) = None then Suc m else m) (sk s2)"
proof -
  from b obtain j where j: "j \<le> i" "m \<le> j" "sch_pc (sk s1) = Picking j h" "\<forall>c. cur (sk s1) = Some c \<longrightarrow> c = j \<and> c \<noteq> i"
    by (auto simp: before_def)
  then have n1: "cur (sk s1) \<noteq> Some i" by blast
  have len: "i < length (ptable (sk s1))" using inv i ptable_okD(1) by (auto simp: kernel_inv_def)
  from kstep_stays [OF assms(1) inv i w n1] show ?thesis
  proof
    assume s: "stays i h (sk s1) (sk s2)"
    then consider "cur (sk s2) = cur (sk s1)" "sch_pc (sk s2) = sch_pc (sk s1)"
      | c where "cur (sk s1) = Some c" "cur (sk s2) = None" "sch_pc (sk s2) = picked c (sch_pc (sk s1))" by (auto simp: stays_def)
    then show ?thesis
    proof cases
      case 1
      then show ?thesis using s b by (auto simp: stays_def before_def)
    next
      case (2 c)
      then have "c = j" "j < i" using j by auto
      then show ?thesis using s 2 j by (auto simp: stays_def before_def picked_def)
    qed
  next
    assume s: "cur (sk s1) = None \<and> sk s2 = scheduler_step (sk s1)"
    from candidate_between [OF w len j(1)] obtain l where l: "l \<le> i" "j \<le> l" "candidate (sk s1) j h = Some l" by blast
    have k2: "sk s2 = switch_to l h (sk s1)" using s l j(3) by (simp add: scheduler_step_def)
    then have "l \<noteq> i" using n by (auto simp: switch_to_def)
    then show ?thesis using k2 l j(2) s w by (auto simp: before_def waits_def switch_to_def)
  qed
qed

lemma turns_before:
  assumes "turns S i s n s'" and inv: "kernel_inv (spc s) (sk s)" and i: "i < 64" and w: "waits i h (sk s)" and b: "before i h m (sk s)"
  shows "kernel_inv (spc s') (sk s') \<and> waits i h (sk s') \<and> before i h (m + n) (sk s')"
  using assms(1)
proof (induction rule: turns.induct)
  case turns_none
  show ?case using inv w b by simp
next
  case (turns_step n s1 s2)
  then have s1: "kernel_inv (spc s1) (sk s1)" "waits i h (sk s1)" "before i h (m + n) (sk s1)" by simp_all
  show ?case using kstep_inv [OF turns_step.hyps(2) s1(1)] before_step [OF turns_step.hyps(2) s1(1) i s1(2,3) turns_step.hyps(3)]
    by (auto split: if_splits)
qed

text \<open>C36: round robin inside a priority. A runnable process \<open>i\<close> of the priority that \<open>scheduler\<close> has chosen, which its loop over the table has not passed yet, waits for a bounded time: in every
  run from there, whatever the processes and interrupts do, at most \<open>i - j\<close> other processes have the CPU and give it up before \<open>i\<close> gets it, \<open>j\<close> being the position of the loop; \<open>i\<close> stays
  runnable, and whenever the CPU is free the next step of the scheduler gives it to a process of the same priority between the position and \<open>i\<close>, so that it is never
  idle and after \<open>i - j\<close> turns the process is \<open>i\<close> itself. (Between priorities the scheduler is not fair: processes below the highest one wait.)\<close>

theorem scheduler_round_robin:
  assumes "kernel_inv (spc s) (sk s)" and "cur (sk s) = None" and "sch_pc (sk s) = Picking j h" and "j \<le> i" and "i < 64"
    and "p_state (proc_at (sk s) i) = RUNNABLE" and "p_prio (proc_at (sk s) i) = h" and "turns S i s n s'"
  shows "n \<le> i - j \<and> p_state (proc_at (sk s') i) = RUNNABLE \<and> p_prio (proc_at (sk s') i) = h \<and>
    (cur (sk s') = None \<longrightarrow> (\<exists>l \<le> i. j + n \<le> l \<and> scheduler_step (sk s') = switch_to l h (sk s') \<and>
       p_state (proc_at (sk s') l) = RUNNABLE \<and> p_prio (proc_at (sk s') l) = h))"
proof -
  have w: "waits i h (sk s)" "before i h j (sk s)" using assms(2-7) by (auto simp: waits_def before_def proc_at_def)
  from turns_before [OF assms(8,1,5) w] have T: "kernel_inv (spc s') (sk s')" "waits i h (sk s')" "before i h (j + n) (sk s')" by simp_all
  from T(3) obtain j' where j': "j' \<le> i" "j + n \<le> j'" "sch_pc (sk s') = Picking j' h" by (auto simp: before_def)
  have len: "i < length (ptable (sk s'))" using T(1) assms(5) ptable_okD(1) by (auto simp: kernel_inv_def)
  from candidate_between [OF T(2) len j'(1)] obtain l where l: "l \<le> i" "j' \<le> l" "candidate (sk s') j' h = Some l" by blast
  have "scheduler_step (sk s') = switch_to l h (sk s')" using l(3) j'(3) by (simp add: scheduler_step_def)
  then have "\<exists>l \<le> i. j + n \<le> l \<and> scheduler_step (sk s') = switch_to l h (sk s') \<and>
      p_state (proc_at (sk s') l) = RUNNABLE \<and> p_prio (proc_at (sk s') l) = h"
    using l j'(2) candidateD [OF l(3)] by (intro exI [of _ l]) (simp add: proc_at_def)
  then show ?thesis using T(2) j'(1,2) by (simp add: waits_def proc_at_def)
qed

text \<open>Init and its child are both runnable: init runs first, and the child gets the CPU after that one turn.\<close>

theorem scheduler_round_robin_witness:
  "\<exists>s s' :: nat system. turns calm_services 1 s 1 s' \<and> scheduler_step (sk s') = switch_to 1 0 (sk s')"
proof -
  let ?e = "\<lambda>_ :: nat. Elsewhere"
  from demo_fork obtain k1 where f: "fork calm_services demo_kernel = Inr (2, k1)" "cur k1 = Some 0" by blast
  have inv1: "kernel_inv ?e k1" by (rule fork_kinv [OF demo_kinv demo_kernel_facts(2) _ f(1)]) simp
  note C = kcur_live [OF inv1 f(2)]
  have prio: "p_prio (ptable demo_kernel ! 0) = 0" using first_kernel_run
    by (cases rule: userinit_run) (simp add: demo_kernel_def switch_to_def)
  have one: "p_state (ptable k1 ! 1) = RUNNABLE \<and> p_prio (ptable k1 ! 1) = 0 \<and> p_prio (ptable k1 ! 0) = 0"
    by (cases rule: fork_cases [OF demo_kernel_facts f(1)]) (use demo_kernel_slot find_slot_bound [OF demo_kernel_slot] prio in auto)
  obtain k2 where y: "yield_cpu k1 = Inr k2" and k2: "cur k2 = None" "ptable k2 ! 1 = ptable k1 ! 1"
      "p_state (ptable k2 ! 0) = RUNNABLE" "p_prio (ptable k2 ! 0) = p_prio (ptable k1 ! 0)"
    using f(2) C sched_run [of k1 0 "\<lambda>p. p\<lparr>p_state := RUNNABLE\<rparr>"] by (simp add: yield_cpu_def myproc_def)
  define s where "s = \<lparr>sk = k2\<lparr>sch_pc := Picking 0 0\<rparr>, spc = ?e\<rparr>"
  have inv: "kernel_inv (spc s) (sk s)" using yield_kinv [OF inv1 y] by (simp add: s_def kernel_inv_def pc_ok_def)
  have len: "length (ptable (sk s)) = 64" using inv ptable_okD(1) by (auto simp: kernel_inv_def)
  have s: "cur (sk s) = None" "sch_pc (sk s) = Picking 0 0" "p_state (proc_at (sk s) 1) = RUNNABLE" "p_prio (proc_at (sk s) 1) = 0" "waits 0 0 (sk s)"
    using k2 one by (simp_all add: s_def proc_at_def waits_def)
  from candidate_between [OF s(5), of 0] len have "candidate (sk s) 0 0 = Some 0" by simp
  then have k3: "scheduler_step (sk s) = switch_to 0 0 (sk s)" using s(2) by (simp add: scheduler_step_def)
  define s1 where "s1 = s\<lparr>sk := switch_to 0 0 (sk s)\<rparr>"
  have st: "kstep calm_services s s1" using kstep.Schedule [OF s(1), of calm_services] k3 by (simp add: s1_def)
  obtain k4 where k4: "yield_cpu (sk s1) = Inr k4" "cur k4 = None"
    using len sched_run [of "sk s1" 0 "\<lambda>p. p\<lparr>p_state := RUNNABLE\<rparr>"] by (simp add: s1_def switch_to_def yield_cpu_def myproc_def)
  have "turns calm_services 1 s 0 s1" using turns_step [OF turns_none st, of 1] s(1) by (simp add: s1_def switch_to_def)
  from turns_step [OF this kstep.Yield [OF k4(1)]] k4(2) have t: "turns calm_services 1 s 1 (s1\<lparr>sk := k4\<rparr>)"
    by (simp add: s1_def switch_to_def)
  from scheduler_round_robin [OF inv s(1,2) _ _ s(3,4) t] k4(2) have "scheduler_step k4 = switch_to 1 0 k4" by auto
  with t show ?thesis by (intro exI [of _ s] exI [of _ "s1\<lparr>sk := k4\<rparr>"]) simp
qed

text \<open>A process is not picked in a round in which a runnable process has a higher priority: the round picks one priority only, at least
  that of every process that was runnable in the first loop.\<close>

theorem lower_priority_starves:
  assumes "proc_inv k" and "sch_pc k = Computing 0 0" and "q < 64" and "p_state (proc_at k q) = RUNNABLE" and "p_prio (proc_at k i) < p_prio (proc_at k q)"
  shows "\<exists>h. (scheduler_step ^^ 65) k = k\<lparr>sch_pc := Picking 0 h\<rparr> \<and> p_prio (proc_at k i) < h \<and>
    (\<forall>(k' :: 'k kernel) j. sch_pc k' = Picking j h \<and> p_prio (proc_at k' i) < h \<and> cur k' = None \<longrightarrow> cur (scheduler_step k') \<noteq> Some i)"
proof -
  have len: "length (ptable k) = 64" by (rule proc_inv_length [OF assms(1)])
  let ?g = "\<lambda>p h. if p_state p = RUNNABLE \<and> p_prio p \<ge> h then p_prio p else h"
  define h where "h = fold ?g (ptable k) 0"
  note F = fold_highest [of 0 "ptable k", folded h_def]
  have c64: "(scheduler_step ^^ 64) k = k\<lparr>sch_pc := Computing 64 h\<rparr>"
    using computing_steps [OF assms(2), of 64] len by (simp add: h_def)
  have "(scheduler_step ^^ 65) k = scheduler_step ((scheduler_step ^^ 64) k)" by (simp add: eval_nat_numeral)
  then have "(scheduler_step ^^ 65) k = k\<lparr>sch_pc := Picking 0 h\<rparr>" using len by (simp add: c64 scheduler_step_def)
  moreover have "ptable k ! q \<in> set (ptable k)" using assms(3) len by simp
  then have "p_prio (proc_at k q) \<le> h" using F assms(4) by (simp add: proc_at_def)
  moreover have "cur (scheduler_step k') \<noteq> Some i" if "sch_pc k' = Picking j h" "p_prio (proc_at k' i) < h" "cur k' = None" for k' :: "'k kernel" and j
    using that candidateD [of k' j h] by (auto simp: scheduler_step_def switch_to_def proc_at_def split: option.split)
  ultimately show ?thesis using assms(5) by (intro exI [of _ h]) auto
qed

subsection \<open>A reachable state inside fork\<close>

lemma idle_path:
  assumes "\<And>m. m < n \<Longrightarrow> cur ((scheduler_step ^^ m) k) = None"
  shows "(kstep S)\<^sup>*\<^sup>* \<lparr>sk = k, spc = pcs\<rparr> \<lparr>sk = (scheduler_step ^^ n) k, spc = pcs\<rparr>"
  using assms
proof (induction n)
  case (Suc n)
  let ?s = "\<lparr>sk = (scheduler_step ^^ n) k, spc = pcs\<rparr>"
  have "kstep S ?s (?s\<lparr>sk := scheduler_step (sk ?s)\<rparr>)" by (rule kstep.Schedule) (use Suc.prems [of n] in simp)
  moreover have "(kstep S)\<^sup>*\<^sup>* \<lparr>sk = k, spc = pcs\<rparr> ?s" using Suc by simp
  ultimately show ?case by (simp add: rtranclp.rtrancl_into_rtrancl)
qed simp

lemma demo_reached: "(kstep S)\<^sup>*\<^sup>* \<lparr>sk = first_kernel, spc = pcs\<rparr> \<lparr>sk = demo_kernel, spc = pcs\<rparr>"
  using first_kernel_run
proof (cases rule: userinit_run)
  case (1 p)
  have at: "ptable first_kernel ! i = (if i = 0 then p else zero_proc)" if "i < 64" for i
    using that by (simp add: 1(1) nth_list_update)
  have z: "p_state zero_proc = UNUSED" by (simp add: zero_proc_def)
  have len: "length (ptable first_kernel) = 64" by (simp add: 1(1))
  obtain i where i: "i < 64" "(scheduler_step ^^ 66) first_kernel = switch_to i (p_prio (proc_at first_kernel i)) first_kernel"
    "p_state (proc_at first_kernel i) = RUNNABLE"
    using scheduler_picks_highest [OF userinit_inv [OF first_kernel_run] 1(3,5), of 0] 1 by (auto simp: proc_at_def)
  then have "i = 0" using at z by (auto simp: proc_at_def split: if_splits)
  then have d: "(scheduler_step ^^ 66) first_kernel = demo_kernel" using i(2) at 1(9) by (simp add: demo_kernel_def proc_at_def)
  have idle: "cur ((scheduler_step ^^ m) first_kernel) = None" if "m < 66" for m
  proof (cases "m \<le> 64")
    case True
    then show ?thesis using computing_steps [OF 1(5), of m] len 1(3) by simp
  next
    case False
    then have "m = Suc 64" using that by simp
    then have "(scheduler_step ^^ m) first_kernel = scheduler_step ((scheduler_step ^^ 64) first_kernel)" by (simp only: funpow.simps comp_apply)
    then show ?thesis using computing_steps [OF 1(5), of 64] len 1(3) by (simp add: scheduler_step_def)
  qed
  show ?thesis using idle_path [OF idle, of 66 S pcs] unfolding d by simp
qed

text \<open>The first process is in the middle of \<open>fork\<close>: the entry of its child is \<open>EMBRYO\<close> and has no parent yet.\<close>

theorem xv6_process_table_invariant_witness:
  "\<exists>s :: nat system. kernel_inv (spc s) (sk s) \<and> spc s 0 = Fork_stack 1 \<and> p_state (proc_at (sk s) 1) = EMBRYO \<and> p_parent (proc_at (sk s) 1) = None"
proof -
  let ?s = "\<lparr>sk = demo_kernel, spc = \<lambda>_. Elsewhere\<rparr>"
  have "nextpid demo_kernel = 2" using first_kernel_run by (cases rule: userinit_run) (simp add: demo_kernel_def switch_to_def)
  then obtain k where k: "alloc_entry demo_kernel = Inr (Some 1, k)" using demo_kernel_slot by (simp add: alloc_entry_def INT_MAX_def)
  have "kstep calm_services ?s (goes_to ?s 0 (Fork_stack 1) k)" using k demo_kernel_facts(2) by (intro kstep.Fork_begin) simp_all
  with demo_reached have "(kstep calm_services)\<^sup>*\<^sup>* \<lparr>sk = first_kernel, spc = \<lambda>_. Elsewhere\<rparr> (goes_to ?s 0 (Fork_stack 1) k)"
    by (rule rtranclp.rtrancl_into_rtrancl)
  from xv6_process_table_invariant [OF first_kernel_run this]
  have inv: "kernel_inv (spc (goes_to ?s 0 (Fork_stack 1) k)) (sk (goes_to ?s 0 (Fork_stack 1) k))" .
  have "making (spc (goes_to ?s 0 (Fork_stack 1) k) 0) = Some (1, False)" by simp
  from making_entry [OF inv this] inv show ?thesis by (intro exI [of _ "goes_to ?s 0 (Fork_stack 1) k"]) (simp add: proc_at_def)
qed

subsection \<open>Kill and the calls that inspect the table\<close>

text \<open>\<open>kill(0)\<close> finds the first free entry, whose pid is 0, and marks it as killed; \<open>allocproc\<close> does not
  clear that mark, so the child of the next \<open>fork\<close> is killed at birth.\<close>

theorem kill_zero_kills_next_child:
  assumes "proc_inv k" and "cur k = Some c" and "\<forall>p \<in> set (ptable k). p_state p = UNUSED \<longrightarrow> p_pid p = 0"
    and "fork S (snd (kill 0 k)) = Inr (r, k')" and "r \<noteq> -1"
  shows "fst (kill 0 k) = 0 \<and> (\<exists>i < 64. p_pid (proc_at k' i) = r \<and> p_state (proc_at k' i) = RUNNABLE \<and> p_killed (proc_at k' i))"
proof -
  from assms(1) obtain pcs ini where "ptable_ok pcs ini (cur k) (nextpid k) (ptable k)" by (rule proc_inv_cases)
  note D = ptable_okD [OF this]
  have pid: "p_pid p = 0 \<longleftrightarrow> p_state p = UNUSED" if "p \<in> set (ptable k)" for p
    using that assms(3) D(1) D(9) by (force simp: in_set_conv_nth)
  have same: "find_slot (\<lambda>p. p_pid p = 0) (ptable k) = find_slot (\<lambda>p. p_state p = UNUSED) (ptable k)"
    by (rule find_slot_cong [OF refl pid])
  let ?k = "snd (kill 0 k)"
  have inv: "proc_inv ?k" using kill_inv [OF assms(1), of 0 "fst (kill 0 k)" ?k] by simp
  have cur: "cur ?k = Some c" using assms(2) by (auto simp: kill_def split: option.splits)
  show ?thesis
  proof (cases "find_slot (\<lambda>p. p_state p = UNUSED) (ptable k)")
    case None
    then have "?k = k" using same by (simp add: kill_def)
    with None assms(2,4,5) show ?thesis by (auto simp: fork_def allocproc_def alloc_entry_def myproc_def)
  next
    case (Some i)
    note s = find_slot_SomeD [OF Some]
    have run: "kill 0 k = (0, upd_proc i (\<lambda>p. p\<lparr>p_killed := True,
        p_state := (if p_state p = SLEEPING then RUNNABLE else p_state p)\<rparr>) k)"
      using Some same by (simp add: kill_def)
    have i': "find_slot (\<lambda>p. p_state p = UNUSED) (ptable ?k) = Some i"
      using s run by (intro find_slot_SomeI) auto
    show ?thesis
    proof (cases rule: fork_cases [OF inv cur assms(4)])
      case (3 l p ks pd r1 r2 r3)
      then have "l = i" using i' by simp
      moreover have "p_killed (ptable ?k ! i)" using run s by simp
      ultimately show ?thesis using 3 run s D(1)
        by (intro conjI exI [of _ i]) (auto simp: proc_at_def)
    qed (use assms(5) in auto)
  qed
qed

lemma demo_all_unused_zero: "\<forall>p \<in> set (ptable demo_kernel). p_state p = UNUSED \<longrightarrow> p_pid p = 0"
  using first_kernel_run
proof (cases rule: userinit_run)
  case (1 p)
  let ?p = "p\<lparr>p_state := RUNNING\<rparr>"
  have "ptable demo_kernel = (replicate 64 zero_proc)[0 := ?p]" using 1 by (simp add: demo_kernel_def switch_to_def)
  then have "set (ptable demo_kernel) \<subseteq> insert ?p (set (replicate 64 zero_proc))"
    using set_update_subset_insert by metis
  moreover have "p_pid zero_proc = 0" by (simp add: zero_proc_def)
  ultimately show ?thesis by fastforce
qed

lemma kill_unused:
  "i < length (ptable k) \<Longrightarrow> p_state (ptable k ! i) = UNUSED \<Longrightarrow>
    p_state (ptable (snd (kill pid k)) ! i) = UNUSED \<and> i < length (ptable (snd (kill pid k)))"
proof (cases "find_slot (\<lambda>p. p_pid p = pid) (ptable k)")
  case (Some j)
  then show "i < length (ptable k) \<Longrightarrow> p_state (ptable k ! i) = UNUSED \<Longrightarrow> ?thesis"
    by (cases "i = j") (simp_all add: kill_def)
qed (simp add: kill_def)

theorem kill_zero_kills_next_child_witness:
  "\<exists>r k' i. fork calm_services (snd (kill 0 demo_kernel)) = Inr (r, k') \<and> p_pid (proc_at k' i) = r \<and> p_killed (proc_at k' i)"
proof -
  let ?k = "snd (kill 0 demo_kernel)"
  have inv: "proc_inv ?k" using kill_inv [OF demo_kernel_facts(1), of 0 "fst (kill 0 demo_kernel)" ?k] by simp
  have cur: "cur ?k = Some 0" using demo_kernel_facts(2) by (auto simp: kill_def split: option.splits)
  have "kill 0 demo_kernel = (fst (kill 0 demo_kernel), ?k)" by simp
  have "\<exists>l. find_slot (\<lambda>p. p_state p = UNUSED) (ptable ?k) = Some l"
  proof -
    have u: "p_state (ptable demo_kernel ! 1) = UNUSED" "1 < length (ptable demo_kernel)"
      using find_slot_SomeD [OF demo_kernel_slot] by auto
    have "p_state (ptable ?k ! 1) = UNUSED \<and> 1 < length (ptable ?k)" by (rule kill_unused [OF u(2,1)])
    then show ?thesis using find_slot_exists [of "ptable ?k ! 1" "ptable ?k"] by auto
  qed
  then obtain l where l: "find_slot (\<lambda>p. p_state p = UNUSED) (ptable ?k) = Some l" by blast
  have "nextpid ?k = 2" using first_kernel_run
    by (cases rule: userinit_run) (simp add: demo_kernel_def switch_to_def kill_def split: option.splits)
  then have "\<exists>r k'. fork calm_services ?k = Inr (r, k') \<and> r \<noteq> -1" using calm_fork [OF inv cur l] by (auto simp: INT_MAX_def)
  then obtain r k' where f: "fork calm_services ?k = Inr (r, k')" "r \<noteq> -1" by blast
  from kill_zero_kills_next_child [OF demo_kernel_facts demo_all_unused_zero f] f show ?thesis by blast
qed

lemma fold_count: "fold (\<lambda>p n. if p_state p = UNUSED then n else n + 1) ps (m::int) = m + int (slots (\<lambda>p. p_state p \<noteq> UNUSED) ps)"
  by (induction ps arbitrary: m) auto

lemma slots_complement: "slots P xs + slots (\<lambda>x. \<not> P x) xs = length xs"
  by (induction xs) auto

lemma fold_max:
  fixes ps :: "proc list"
  defines "g \<equiv> \<lambda>p m. if p_state p = UNUSED then m else if m > p_pid p then m else p_pid p"
  shows "m \<le> fold g ps m \<and> (\<forall>p \<in> set ps. p_state p \<noteq> UNUSED \<longrightarrow> p_pid p \<le> fold g ps m) \<and>
    (fold g ps m = m \<or> (\<exists>p \<in> set ps. p_state p \<noteq> UNUSED \<and> p_pid p = fold g ps m))"
proof (induction ps arbitrary: m)
  case (Cons p ps)
  have "m \<le> g p m" "p_state p \<noteq> UNUSED \<longrightarrow> p_pid p \<le> g p m" "g p m = m \<or> p_state p \<noteq> UNUSED \<and> p_pid p = g p m"
    by (auto simp: g_def)
  with Cons [of "g p m"] show ?case by fastforce
qed simp

text \<open>\<open>get_num_proc\<close> counts the entries that are not free, and \<open>get_max_pid\<close> is the largest pid of a
  process, which exists in every reachable state.\<close>

lemma process_counts:
  assumes "proc_inv k"
  shows "get_num_proc k + int (slots (\<lambda>p. p_state p = UNUSED) (ptable k)) = 64 \<and> 0 < get_num_proc k \<and>
    (\<exists>i < 64. p_state (proc_at k i) \<noteq> UNUSED \<and> p_pid (proc_at k i) = get_max_pid k) \<and>
    (\<forall>i < 64. p_state (proc_at k i) \<noteq> UNUSED \<longrightarrow> p_pid (proc_at k i) \<le> get_max_pid k)"
proof -
  from assms obtain pcs ini where "ptable_ok pcs ini (cur k) (nextpid k) (ptable k)" by (rule proc_inv_cases)
  note D = ptable_okD [OF this]
  note F = fold_max [of 0 "ptable k", folded get_max_pid_def]
  have n: "get_num_proc k = int (slots (\<lambda>p. p_state p \<noteq> UNUSED) (ptable k))"
    by (simp add: get_num_proc_def fold_count)
  have ini: "ptable k ! ini \<in> set (ptable k)" "p_state (ptable k ! ini) \<noteq> UNUSED" "0 < p_pid (ptable k ! ini)"
    using D(1-3) D(9) [OF D(2)] by auto
  have "slots (\<lambda>p. p_state p \<noteq> UNUSED) (ptable k) \<noteq> 0" using ini by (auto simp: slots_zero_iff)
  moreover have "get_num_proc k + int (slots (\<lambda>p. p_state p = UNUSED) (ptable k)) = 64"
    using slots_complement [of "\<lambda>p. p_state p = UNUSED" "ptable k"] D(1) n by simp
  moreover have "0 < get_max_pid k" using F ini by force
  then obtain p where p: "p \<in> set (ptable k)" "p_state p \<noteq> UNUSED" "p_pid p = get_max_pid k" using F by force
  then have "\<exists>i < 64. p_state (proc_at k i) \<noteq> UNUSED \<and> p_pid (proc_at k i) = get_max_pid k"
    using D(1) by (auto simp: in_set_conv_nth proc_at_def)
  moreover have "\<forall>i < 64. p_state (proc_at k i) \<noteq> UNUSED \<longrightarrow> p_pid (proc_at k i) \<le> get_max_pid k"
    using F D(1) by (auto simp: proc_at_def)
  ultimately show ?thesis using n by simp
qed

lemma process_counts_example:
  "get_num_proc demo_kernel + int (slots (\<lambda>p. p_state p = UNUSED) (ptable demo_kernel)) = 64"
  using process_counts [OF demo_kernel_facts(1)] by blast


end
