(* ===== verification/XV6_Ring.thy ===== *)
theory XV6_Ring
  imports Prelude
begin

text \<open>
  Ring buffers with 32-bit counters that only grow and wrap around, as the pipes and the console of xv6 use them. The only
  thing their users rely on is that the size of the ring divides the range of the counters. \<open>seg\<close> is the part of
  the ring that starts at a counter.
\<close>

lemma unat_Suc: "unat (x :: uint32) < 2 ^ 32 - 1 \<Longrightarrow> unat (x + 1) = Suc (unat x)"
  by (simp add: unat_word_ariths)

lemma unat_pred:
  assumes "(x :: uint32) \<noteq> 0"
  shows "unat x = Suc (unat (x - 1))"
proof -
  have "x - 1 \<noteq> - 1" using assms by (simp add: algebra_simps)
  then have "unat (x - 1) \<noteq> 2 ^ 32 - 1" by (simp add: word_unat_eq_iff unsigned_minus_1_eq_mask mask_eq_exp_minus_1)
  then have "unat (x - 1) < 2 ^ 32 - 1" using unsigned_less [where 'a = nat, of "x - 1"] by simp
  from unat_Suc [OF this] show ?thesis by simp
qed

locale ring =
  fixes N :: nat
  assumes pos: "0 < N" and range: "N dvd 2 ^ 32"
begin

lemma wrap: "n mod 2 ^ 32 mod N = n mod N"
  using range by (rule mod_mod_cancel)

lemma ring_mod: "(unat ((x :: uint32) + 1) + k) mod N = (unat x + Suc k) mod N"
proof -
  have "unat (x + 1) = (unat x + 1) mod 2 ^ 32" by (simp add: unat_word_ariths)
  then have "(unat (x + 1) + k) mod N = ((unat x + 1) mod 2 ^ 32 mod N + k) mod N" by (simp only: mod_add_left_eq)
  also have "\<dots> = (unat x + 1 + k) mod N" by (simp only: wrap mod_add_left_eq)
  finally show ?thesis by simp
qed

lemma ring_ne: "k < n \<Longrightarrow> n < N \<Longrightarrow> ((a :: nat) + k) mod N \<noteq> (a + n) mod N"
proof
  assume lt: "k < n" "n < N" and "(a + k) mod N = (a + n) mod N"
  then have "N dvd (a + n) - (a + k)" using mod_eq_dvd_iff_nat [of "a + k" "a + n" N] by simp
  then have "N dvd n - k" using lt by simp
  then show False using nat_dvd_not_less [of "n - k" N] lt by simp
qed

lemma ring_index: "unat (w :: uint32) mod N = (unat r + unat (w - r)) mod N"
proof -
  have "unat w = unat (r + (w - r))" by simp
  also have "\<dots> = (unat r + unat (w - r)) mod 2 ^ 32" by (simp only: unat_word_ariths) simp
  finally have "unat w = (unat r + unat (w - r)) mod 2 ^ 32" .
  then have "unat w mod N = (unat r + unat (w - r)) mod 2 ^ 32 mod N" by simp
  then show ?thesis by (simp only: wrap)
qed

definition seg :: "'a list \<Rightarrow> uint32 \<Rightarrow> nat \<Rightarrow> 'a list" where
  "seg buf x n = map (\<lambda>k. buf ! ((unat x + k) mod N)) [0..<n]"

lemma seg_0 [simp]: "seg buf x 0 = []"
  by (simp add: seg_def)

lemma length_seg [simp]: "length (seg buf x n) = n"
  by (simp add: seg_def)

lemma seg_Suc: "seg buf x (Suc n) = buf ! (unat x mod N) # seg buf (x + 1) n"
proof -
  have "[0..<Suc n] = 0 # map Suc [0..<n]" by (simp add: upt_conv_Cons map_Suc_upt)
  then show ?thesis by (simp add: seg_def ring_mod)
qed

lemma seg_add: "seg buf x (n + m) = seg buf x n @ seg buf (x + word_of_nat n) m"
proof (induction n arbitrary: x)
  case (Suc n)
  then show ?case by (simp add: seg_Suc algebra_simps)
qed simp

lemma seg_last: "unat (y - x) = n \<Longrightarrow> seg buf x (Suc n) = seg buf x n @ [buf ! (unat y mod N)]"
  using ring_index [of y x] by (simp add: seg_def)

lemma seg_put:
  assumes "length buf = N" "unat (y - x) = n" "n < N"
  shows "seg (buf[unat y mod N := c]) x (Suc n) = seg buf x n @ [c]"
proof -
  have i: "unat y mod N = (unat x + n) mod N" using ring_index [of y x] assms(2) by simp
  have "buf[(unat x + n) mod N := c] ! ((unat x + k) mod N) = buf ! ((unat x + k) mod N)" if "k < n" for k
    using ring_ne [OF that assms(3), of "unat x"] by (metis nth_list_update_neq)
  then have "seg (buf[unat y mod N := c]) x n = seg buf x n" unfolding seg_def i by simp
  then show ?thesis using seg_last [OF assms(2), of "buf[unat y mod N := c]"] pos assms(1) by simp
qed

end

end
