(* ===== verification/XV6_String.thy ===== *)
theory XV6_String
  imports Prelude
begin

text \<open>
  Strings and memory: \<open>src/project3/xv6-modified/string.c\<close> (kernel), \<open>ulib.c\<close> and \<open>printf.c\<close> (user
  programs). The memory routines work on a memory that maps addresses to bytes, so that source and
  destination may overlap. A string argument is the array of bytes that starts at the pointer; a
  string function that reads past its end is a fault. The lemmas show that \<open>memmove\<close> copies also
  between overlapping regions, that \<open>memset\<close> with four-byte stores equals the one with single bytes, and
  that \<open>atoi\<close> reads what \<open>printint\<close> prints.
\<close>

type_synonym mem = "nat \<Rightarrow> byte"

subsection \<open>Memory\<close>

text \<open>\<open>stosb\<close> and \<open>stosl\<close> of \<open>x86.h\<close>: the \<open>rep stos\<close> instructions; words are stored little endian.\<close>

fun stosb :: "nat \<Rightarrow> byte \<Rightarrow> nat \<Rightarrow> mem \<Rightarrow> mem" where
  "stosb a c 0 m = m"
| "stosb a c (Suc n) m = stosb (a + 1) c n (m(a := c))"

definition store32 :: "nat \<Rightarrow> uint32 \<Rightarrow> mem \<Rightarrow> mem" where
  "store32 a w m = m(a := ucast w, a + 1 := ucast (drop_bit 8 w), a + 2 := ucast (drop_bit 16 w), a + 3 := ucast (drop_bit 24 w))"

fun stosl :: "nat \<Rightarrow> uint32 \<Rightarrow> nat \<Rightarrow> mem \<Rightarrow> mem" where
  "stosl a w 0 m = m"
| "stosl a w (Suc n) m = stosl (a + 4) w n (store32 a w m)"

unbundle bit_operations_syntax

definition memset_c :: "nat \<Rightarrow> uint32 \<Rightarrow> nat \<Rightarrow> mem \<Rightarrow> mem" where
  "memset_c dst c n m =
     (if dst mod 4 = 0 \<and> n mod 4 = 0
      then let b = c AND 0xFF in stosl dst (push_bit 24 b OR push_bit 16 b OR push_bit 8 b OR b) (n div 4) m
      else stosb dst (ucast c) n m)"

fun memcmp :: "nat \<Rightarrow> nat \<Rightarrow> nat \<Rightarrow> mem \<Rightarrow> int" where
  "memcmp p q 0 m = 0"
| "memcmp p q (Suc n) m = (if m p \<noteq> m q then uint (m p) - uint (m q) else memcmp (p + 1) (q + 1) n m)"

text \<open>The two loops of \<open>memmove\<close>: downwards from the end, upwards from the start.\<close>

fun copy_down :: "nat \<Rightarrow> nat \<Rightarrow> nat \<Rightarrow> mem \<Rightarrow> mem" where
  "copy_down d s 0 m = m"
| "copy_down d s (Suc n) m = copy_down d s n (m(d + n := m (s + n)))"

fun copy_up :: "nat \<Rightarrow> nat \<Rightarrow> nat \<Rightarrow> mem \<Rightarrow> mem" where
  "copy_up d s 0 m = m"
| "copy_up d s (Suc n) m = copy_up (d + 1) (s + 1) n (m(d := m s))"

definition memmove :: "nat \<Rightarrow> nat \<Rightarrow> nat \<Rightarrow> mem \<Rightarrow> mem" where
  "memmove dst src n m = (if src < dst \<and> src + n > dst then copy_down dst src n m else copy_up dst src n m)"

definition memcpy :: "nat \<Rightarrow> nat \<Rightarrow> nat \<Rightarrow> mem \<Rightarrow> mem" where
  "memcpy dst src n m = memmove dst src n m"

text \<open>The \<open>memmove\<close> and the \<open>memset\<close> of the user library.\<close>

definition user_memmove :: "nat \<Rightarrow> nat \<Rightarrow> nat \<Rightarrow> mem \<Rightarrow> mem" where
  "user_memmove vdst vsrc n m = copy_up vdst vsrc n m"

definition user_memset :: "nat \<Rightarrow> uint32 \<Rightarrow> nat \<Rightarrow> mem \<Rightarrow> mem" where
  "user_memset dst c n m = stosb dst (ucast c) n m"

subsection \<open>Strings\<close>

fun strncmp :: "nat \<Rightarrow> byte list \<Rightarrow> byte list \<Rightarrow> fault + int" where
  "strncmp 0 p q = Inr 0"
| "strncmp (Suc n) (x # p) (y # q) = (if x \<noteq> 0 \<and> x = y then strncmp n p q else Inr (uint x - uint y))"
| "strncmp (Suc n) p q = Inl Out_of_bounds"

text \<open>The bytes that \<open>strncpy\<close> and \<open>safestrcpy\<close> store.\<close>

fun strncpy :: "nat \<Rightarrow> byte list \<Rightarrow> fault + byte list" where
  "strncpy 0 t = Inr []"
| "strncpy (Suc n) [] = Inl Out_of_bounds"
| "strncpy (Suc n) (x # t) = (if x \<noteq> 0 then ebind (strncpy n t) (\<lambda>r. Inr (x # r)) else Inr (0 # replicate n 0))"

fun safestrcpy :: "nat \<Rightarrow> byte list \<Rightarrow> fault + byte list" where
  "safestrcpy 0 t = Inr []"
| "safestrcpy (Suc 0) t = Inr [0]"
| "safestrcpy (Suc (Suc n)) [] = Inl Out_of_bounds"
| "safestrcpy (Suc (Suc n)) (x # t) =
     (if x \<noteq> 0 then ebind (safestrcpy (Suc n) t) (\<lambda>r. Inr (x # r)) else Inr [0, 0])"

fun strlen_c :: "byte list \<Rightarrow> fault + nat" where
  "strlen_c [] = Inl Out_of_bounds"
| "strlen_c (x # s) = (if x \<noteq> 0 then ebind (strlen_c s) (\<lambda>n. Inr (n + 1)) else Inr 0)"

fun strcpy :: "byte list \<Rightarrow> fault + byte list" where
  "strcpy [] = Inl Out_of_bounds"
| "strcpy (x # t) = (if x \<noteq> 0 then ebind (strcpy t) (\<lambda>r. Inr (x # r)) else Inr [0])"

fun strcmp :: "byte list \<Rightarrow> byte list \<Rightarrow> fault + int" where
  "strcmp (x # p) (y # q) = (if x \<noteq> 0 \<and> x = y then strcmp p q else Inr (uint x - uint y))"
| "strcmp p q = Inl Out_of_bounds"

fun strchr :: "byte list \<Rightarrow> byte \<Rightarrow> fault + nat option" where
  "strchr [] c = Inl Out_of_bounds"
| "strchr (x # s) c =
     (if x = 0 then Inr None else if x = c then Inr (Some 0) else ebind (strchr s c) (\<lambda>r. Inr (map_option Suc r)))"

text \<open>\<open>gets\<close>: the bytes that \<open>read\<close> still delivers, and the room in the buffer. The result is the
  contents of the buffer and the rest of the input.\<close>

fun gets_loop :: "nat \<Rightarrow> byte list \<Rightarrow> byte list \<times> byte list" where
  "gets_loop 0 inp = ([], inp)"
| "gets_loop (Suc k) [] = ([], [])"
| "gets_loop (Suc k) (c # inp) =
     (if c = 10 \<or> c = 13 then ([c], inp) else let (r, rest) = gets_loop k inp in (c # r, rest))"

definition gets :: "nat \<Rightarrow> byte list \<Rightarrow> byte list \<times> byte list" where
  "gets mx inp = (let (r, rest) = gets_loop (mx - 1) inp in (r @ [0], rest))"

fun atoi_loop :: "uint32 \<Rightarrow> byte list \<Rightarrow> fault + uint32" where
  "atoi_loop n [] = Inl Out_of_bounds"
| "atoi_loop n (x # s) = (if 48 \<le> x \<and> x \<le> 57 then atoi_loop (n * 10 + ucast x - 48) s else Inr n)"

definition atoi :: "byte list \<Rightarrow> fault + uint32" where
  "atoi s = atoi_loop 0 s"

subsection \<open>Printing\<close>

definition digit :: "nat \<Rightarrow> byte" where
  "digit d = (if d < 10 then word_of_nat (48 + d) else word_of_nat (55 + d))"

text \<open>The contents of \<open>buf\<close> after the \<open>do\<close> loop.\<close>

function digits_loop :: "nat \<Rightarrow> nat \<Rightarrow> byte list" where
  "digits_loop base x = digit (x mod base) # (if x div base = 0 \<or> base < 2 then [] else digits_loop base (x div base))"
  by pat_completeness auto
termination
proof (relation "measure snd")
  fix base x :: nat
  assume a: "\<not> (x div base = 0 \<or> base < 2)"
  then have "0 < x" by (cases "x = 0") auto
  with a show "((base, x div base), (base, x)) \<in> measure snd" by simp
qed simp

declare digits_loop.simps [simp del]

definition printint :: "uint32 \<Rightarrow> nat \<Rightarrow> bool \<Rightarrow> fault + byte list" where
  "printint xx base sg =
     (let neg = sg \<and> sint xx < 0;
          x = (if neg then - xx else xx);
          buf = digits_loop base (unat x) @ (if neg then [45] else [])
      in if length buf > 16 then Inl Out_of_bounds else Inr (rev buf))"

text \<open>\<open>printf\<close> over the words on the stack; \<open>str\<close> gives the string at an address.\<close>

fun printf_loop :: "(uint32 \<Rightarrow> byte list) \<Rightarrow> bool \<Rightarrow> byte list \<Rightarrow> uint32 list \<Rightarrow> fault + byte list" where
  "printf_loop str pct [] ap = Inr []"
| "printf_loop str False (c # fmt) ap =
     (if c = 37 then printf_loop str True fmt ap
      else ebind (printf_loop str False fmt ap) (\<lambda>r. Inr (c # r)))"
| "printf_loop str True (c # fmt) ap =
     (if c = 100 \<or> c = 120 \<or> c = 112
      then (case ap of [] \<Rightarrow> Inl Out_of_bounds
            | a # ap' \<Rightarrow>
                ebind (if c = 100 then printint a 10 True else printint a 16 False) (\<lambda>o'.
                  ebind (printf_loop str False fmt ap') (\<lambda>r. Inr (o' @ r))))
      else if c = 115
      then (case ap of [] \<Rightarrow> Inl Out_of_bounds
            | a # ap' \<Rightarrow>
                ebind (printf_loop str False fmt ap') (\<lambda>r.
                  Inr ((if a = 0 then [40, 110, 117, 108, 108, 41] else takeWhile (\<lambda>x. x \<noteq> 0) (str a)) @ r)))
      else if c = 99
      then (case ap of [] \<Rightarrow> Inl Out_of_bounds
            | a # ap' \<Rightarrow> ebind (printf_loop str False fmt ap') (\<lambda>r. Inr (ucast a # r)))
      else if c = 37 then ebind (printf_loop str False fmt ap) (\<lambda>r. Inr (c # r))
      else ebind (printf_loop str False fmt ap) (\<lambda>r. Inr (37 # c # r)))"

definition printf :: "(uint32 \<Rightarrow> byte list) \<Rightarrow> byte list \<Rightarrow> uint32 list \<Rightarrow> fault + byte list" where
  "printf str fmt ap = printf_loop str False (takeWhile (\<lambda>c. c \<noteq> 0) fmt) ap"


subsection \<open>The memory routines\<close>

lemma copy_down_spec: "d > s \<or> d + n \<le> s \<or> s = d \<Longrightarrow> copy_down d s n m x = (if d \<le> x \<and> x < d + n then m (s + (x - d)) else m x)"
proof (induction n arbitrary: m)
  case (Suc n)
  have "copy_down d s (Suc n) m x = (if d \<le> x \<and> x < d + n then (m(d + n := m (s + n))) (s + (x - d)) else (m(d + n := m (s + n))) x)"
    using Suc by auto
  also have "\<dots> = (if d \<le> x \<and> x < d + Suc n then m (s + (x - d)) else m x)"
  proof (cases "d \<le> x \<and> x < d + n")
    case True
    then have "s + (x - d) \<noteq> d + n" using Suc.prems by linarith
    then show ?thesis using True by simp
  next
    case False
    then show ?thesis by (cases "x = d + n") auto
  qed
  finally show ?case .
qed auto

lemma copy_up_spec: "d < s \<or> s + n \<le> d \<or> s = d \<Longrightarrow> copy_up d s n m x = (if d \<le> x \<and> x < d + n then m (s + (x - d)) else m x)"
proof (induction n arbitrary: d s m)
  case (Suc n)
  have "copy_up d s (Suc n) m x = (if d + 1 \<le> x \<and> x < d + 1 + n then (m(d := m s)) (s + 1 + (x - (d + 1))) else (m(d := m s)) x)"
    using Suc by auto
  also have "\<dots> = (if d \<le> x \<and> x < d + Suc n then m (s + (x - d)) else m x)"
  proof (cases "d + 1 \<le> x \<and> x < d + 1 + n")
    case True
    then have "s + 1 + (x - (d + 1)) = s + (x - d)" "s + (x - d) \<noteq> d" using Suc.prems by linarith+
    then show ?thesis using True by simp
  next
    case False
    then show ?thesis by (cases "x = d") auto
  qed
  finally show ?case .
qed auto

lemma memmove_spec: "memmove dst src n m x = (if dst \<le> x \<and> x < dst + n then m (src + (x - dst)) else m x)"
proof (cases "src < dst \<and> src + n > dst")
  case True
  then show ?thesis using copy_down_spec [of src dst n m] by (simp add: memmove_def)
next
  case False
  then have "dst < src \<or> src + n \<le> dst \<or> src = dst" by linarith
  then show ?thesis unfolding memmove_def if_not_P [OF False] using copy_up_spec [of dst src n m] by blast
qed

text \<open>\<open>memmove\<close> of the kernel copies the region also when source and destination overlap: afterwards the
  destination holds the old bytes of the source and no other byte has changed. The \<open>memmove\<close> of the
  user library does the same as long as the destination does not start inside the source.\<close>

theorem memmove_correct:
  "(\<forall>x. memmove dst src n m x = (if dst \<le> x \<and> x < dst + n then m (src + (x - dst)) else m x)) \<and>
   (\<not> (src < dst \<and> dst < src + n) \<longrightarrow> user_memmove dst src n m = memmove dst src n m)"
  by (auto simp: memmove_spec) (auto simp: memmove_def user_memmove_def)

theorem memmove_correct_witness:
  "memmove 1 0 2 ((\<lambda>_. 0)(0 := 7, 1 := 8, 2 := 9)) 2 = 8 \<and>
   user_memmove 0 1 2 ((\<lambda>_. 0)(0 := 7, 1 := 8, 2 := 9)) = memmove 0 1 2 ((\<lambda>_. 0)(0 := 7, 1 := 8, 2 := 9)) \<and>
   user_memmove 1 0 2 ((\<lambda>_. 0)(0 := 7, 1 := 8, 2 := 9)) 2 = 7"
  using memmove_correct [of 1 0 2 "(\<lambda>_. 0)(0 := 7, 1 := 8, 2 := 9)"] memmove_correct [of 0 1 2 "(\<lambda>_. 0)(0 := 7, 1 := 8, 2 := 9)"]
  by (simp add: user_memmove_def numeral_2_eq_2)

lemma stosb_spec: "stosb a c n m x = (if a \<le> x \<and> x < a + n then c else m x)"
proof (induction n arbitrary: a m)
  case (Suc n)
  show ?case unfolding stosb.simps Suc.IH by auto
qed auto

lemma store32_same:
  fixes c :: uint32
  assumes "w = push_bit 24 (c AND 0xFF) OR push_bit 16 (c AND 0xFF) OR push_bit 8 (c AND 0xFF) OR (c AND 0xFF)"
  shows "store32 a w m x = (if a \<le> x \<and> x < a + 4 then ucast c else m x)"
proof -
  have ff: "(0xFF :: uint32) = mask 8" by (simp add: mask_eq_exp_minus_1)
  have "(ucast w :: byte) = ucast c" "(ucast (drop_bit 8 w) :: byte) = ucast c"
    "(ucast (drop_bit 16 w) :: byte) = ucast c" "(ucast (drop_bit 24 w) :: byte) = ucast c"
    unfolding assms ff by (rule bit_eqI; force simp: bit_simps)+
  then show ?thesis by (auto simp: store32_def)
qed

lemma stosl_spec:
  fixes c :: uint32
  assumes "w = push_bit 24 (c AND 0xFF) OR push_bit 16 (c AND 0xFF) OR push_bit 8 (c AND 0xFF) OR (c AND 0xFF)"
  shows "stosl a w n m x = (if a \<le> x \<and> x < a + 4 * n then ucast c else m x)"
proof (induction n arbitrary: a m)
  case (Suc n)
  show ?case unfolding stosl.simps Suc.IH store32_same [OF assms] by auto
qed auto

lemma memset_spec: "memset_c dst c n m x = (if dst \<le> x \<and> x < dst + n then ucast c else m x)"
proof (cases "dst mod 4 = 0 \<and> n mod 4 = 0")
  case True
  then have "4 * (n div 4) = n" by auto
  then show ?thesis using True stosl_spec [OF refl, of dst c "n div 4" m x] by (simp add: memset_c_def Let_def)
next
  case False
  show ?thesis unfolding memset_c_def if_not_P [OF False] by (rule stosb_spec)
qed

text \<open>The kernel's \<open>memset\<close>, which stores four bytes at a time when address and length allow it, has
  the same effect as the plain byte loop of the user library.\<close>

lemma memset_equiv: "memset_c dst c n m = user_memset dst c n m"
  by (auto simp: user_memset_def stosb_spec memset_spec fun_eq_iff)

subsection \<open>Numbers\<close>

lemma digits_loop_step:
  "digits_loop 10 x = digit (x mod 10) # (if x < 10 then [] else digits_loop 10 (x div 10))"
  by (subst digits_loop.simps) auto

lemma digit_dec: "d < 10 \<Longrightarrow> digit d = word_of_nat (48 + d)"
  by (simp add: digit_def)

lemma digit_unat: "d < 10 \<Longrightarrow> unat (digit d) = 48 + d"
  unfolding digit_dec unat_of_nat by simp

text \<open>The value of a list of decimal digits, the last digit first.\<close>

lemma atoi_digit:
  assumes "d < 10"
  shows "atoi_loop n (digit d # s) = atoi_loop (n * 10 + word_of_nat d) s"
proof -
  have u: "unat (digit d) = 48 + d" using assms by (rule digit_unat)
  have "48 \<le> digit d" "digit d \<le> 57" unfolding word_le_nat_alt u using assms by simp_all
  moreover have "(ucast (digit d) :: uint32) = word_of_nat (48 + d)"
    unfolding u [symmetric] by simp
  then have "n * 10 + ucast (digit d) - 48 = n * 10 + word_of_nat d" by simp
  ultimately show ?thesis by (simp only: atoi_loop.simps simp_thms if_True)
qed

lemma atoi_digits:
  "atoi_loop n (rev (digits_loop 10 x) @ s) = atoi_loop (n * 10 ^ length (digits_loop 10 x) + word_of_nat x) s"
proof (induction x arbitrary: n s rule: less_induct)
  case (less x)
  show ?case
  proof (cases "x < 10")
    case True
    then have "digits_loop 10 x = [digit x]" by (subst digits_loop_step) simp
    then show ?thesis using atoi_digit [OF True] by (simp del: atoi_loop.simps)
  next
    case False
    let ?l = "length (digits_loop 10 (x div 10))"
    have "x mod 10 < 10" by simp
    note ad = atoi_digit [OF this]
    have "atoi_loop n (rev (digits_loop 10 x) @ s) = atoi_loop n (rev (digits_loop 10 (x div 10)) @ digit (x mod 10) # s)"
      using False by (subst digits_loop_step) simp
    also have "\<dots> = atoi_loop (n * 10 ^ ?l + word_of_nat (x div 10)) (digit (x mod 10) # s)"
      using less [of "x div 10"] False by simp
    also have "\<dots> = atoi_loop ((n * 10 ^ ?l + word_of_nat (x div 10)) * 10 + word_of_nat (x mod 10)) s" by (rule ad)
    also have "(n * 10 ^ ?l + word_of_nat (x div 10)) * 10 + word_of_nat (x mod 10) = n * 10 ^ Suc ?l + word_of_nat x"
    proof -
      have "word_of_nat (x div 10 * 10 + x mod 10) = (word_of_nat x :: uint32)" by (simp only: div_mult_mod_eq)
      then have "word_of_nat (x div 10) * 10 + word_of_nat (x mod 10) = (word_of_nat x :: uint32)"
        by (simp only: of_nat_add of_nat_mult of_nat_numeral)
      moreover have "(n * 10 ^ ?l + word_of_nat (x div 10)) * 10 + word_of_nat (x mod 10) =
          n * 10 ^ Suc ?l + (word_of_nat (x div 10) * 10 + word_of_nat (x mod 10))"
        by (simp only: power_Suc ring_distribs ac_simps)
      ultimately show ?thesis by (simp only:)
    qed
    also have "Suc ?l = length (digits_loop 10 x)" using False by (subst (2) digits_loop_step) simp
    finally show ?thesis .
  qed
qed

lemma length_digits: "x < 10 ^ Suc k \<Longrightarrow> length (digits_loop 10 x) \<le> Suc k"
proof (induction k arbitrary: x)
  case 0
  then show ?case by (subst digits_loop_step) simp
next
  case (Suc k)
  have "x div 10 < 10 ^ Suc k" using Suc.prems by (simp add: div_less_iff_less_mult)
  from Suc.IH [OF this] show ?case by (subst digits_loop_step) simp
qed

lemma length_digits_word: "length (digits_loop 10 (unat (x :: uint32))) \<le> 10"
proof -
  have "unat x < 2 ^ 32" using unsigned_less [of x] by simp
  then have "unat x < 10 ^ Suc 9" by simp
  from length_digits [OF this] show ?thesis by simp
qed

text \<open>Decimal numbers round trip. Every 32-bit number fits into the buffer of \<open>printint\<close>; for a number that
  is printed without a sign, \<open>atoi\<close> reads back the number from the printed digits followed by the end of the
  string; a negative number is printed as a minus sign followed by digits from which \<open>atoi\<close> reads its
  absolute value, also for the smallest number, whose negation overflows.\<close>

theorem printint_atoi:
  "\<exists>ds. (if sgned \<and> sint x < 0 then printint x 10 sgned = Inr (45 # ds) \<and> atoi (ds @ [0]) = Inr (- x)
        else printint x 10 sgned = Inr ds \<and> atoi (ds @ [0]) = Inr x) \<and> length ds \<le> 10"
proof -
  let ?y = "if sgned \<and> sint x < 0 then - x else x"
  have a: "atoi (rev (digits_loop 10 (unat y)) @ [0]) = Inr y" for y :: uint32
    unfolding atoi_def by (simp add: atoi_digits)
  have l: "length (digits_loop 10 (unat y)) \<le> 10" for y :: uint32 by (rule length_digits_word)
  show ?thesis
    by (rule exI [of _ "rev (digits_loop 10 (unat ?y))"])
      (use a [of ?y] l [of ?y] in \<open>auto simp: printint_def Let_def\<close>)
qed

end
