(* ===== verification/XV6_Console.thy ===== *)
theory XV6_Console
  imports XV6_Ring XV6_String
begin

text \<open>
  The console of xv6, \<open>src/project3/xv6-modified/console.c\<close>: the screen memory with the cursor, the output of the
  kernel, the line editor that runs in the keyboard interrupt, and reading from the console. The operations run under \<open>cons.lock\<close>
  and are atomic up to the points where \<open>consoleread\<close> sleeps. The serial port is the list of the bytes sent to it. The
  lemmas show that the cursor stays on the screen, and that the ring buffer with its three counters implements
  a line editor on lists.
\<close>

definition BACKSPACE :: int where "BACKSPACE = 256"
definition INPUT_BUF :: nat where "INPUT_BUF = 128"

text \<open>\<open>C(x)\<close>, control-x.\<close>

definition Ctl :: "byte \<Rightarrow> byte" where "Ctl x = x - 64"

record console =
  crt :: "16 word list"
  cursor :: nat
  uart :: "byte list"
  panicked :: bool
  in_buf :: "byte list"
  in_r :: uint32
  in_w :: uint32
  in_e :: uint32

subsection \<open>Output\<close>

definition cga_cell :: "int \<Rightarrow> 16 word" where
  "cga_cell c = (word_of_int c AND 255) OR 1792"

text \<open>The screen has 25 rows of 80 cells; the first 24 are used.\<close>

definition cga_place :: "int \<Rightarrow> console \<Rightarrow> fault + nat \<times> 16 word list" where
  "cga_place c s =
     (let pos = cursor s in
      if c = 10 then Inr (pos + (80 - pos mod 80), crt s)
      else if c = BACKSPACE then Inr (pos - 1, crt s)
      else if pos < length (crt s) then Inr (pos + 1, (crt s)[pos := cga_cell c])
      else Inl Out_of_bounds)"

definition cga_scroll :: "nat \<Rightarrow> 16 word list \<Rightarrow> fault + nat \<times> 16 word list" where
  "cga_scroll pos m =
     (if pos div 80 \<ge> 24
      then if length m < 24 * 80 \<or> pos - 80 > 24 * 80 then Inl Out_of_bounds
        else Inr (pos - 80, patch (patch m 0 (take (23 * 80) (drop 80 m))) (pos - 80) (replicate (24 * 80 - (pos - 80)) 0))
      else Inr (pos, m))"

definition cgaputc :: "int \<Rightarrow> console \<Rightarrow> fault + console" where
  "cgaputc c s =
     ebind (cga_place c s) (\<lambda>(pos, m).
       if pos > 25 * 80 then Inl (Panic ''pos under/overflow'')
       else ebind (cga_scroll pos m) (\<lambda>(pos1, m1).
         if pos1 < length m1 then Inr (s\<lparr>cursor := pos1, crt := m1[pos1 := cga_cell 32]\<rparr>) else Inl Out_of_bounds))"

definition uartputc :: "byte \<Rightarrow> console \<Rightarrow> console" where
  "uartputc c s = s\<lparr>uart := uart s @ [c]\<rparr>"

definition consputc :: "int \<Rightarrow> console \<Rightarrow> fault + console" where
  "consputc c s =
     (if panicked s then Inl Diverges
      else cgaputc c (if c = BACKSPACE then uartputc 8 (uartputc 32 (uartputc 8 s)) else uartputc (word_of_int c) s))"

fun conswrite :: "byte list \<Rightarrow> console \<Rightarrow> fault + console" where
  "conswrite [] s = Inr s"
| "conswrite (c # cs) s = ebind (consputc (uint c) s) (conswrite cs)"

definition consolewrite :: "byte list \<Rightarrow> console \<Rightarrow> fault + nat \<times> console" where
  "consolewrite cs s = ebind (conswrite cs s) (\<lambda>s1. Inr (length cs, s1))"

text \<open>\<open>printint\<close> of the kernel has small letters; \<open>str\<close> gives the string at an address.\<close>

definition low_digit :: "byte \<Rightarrow> byte" where
  "low_digit d = (if d < 65 then d else d + 32)"

definition cons_printint :: "uint32 \<Rightarrow> nat \<Rightarrow> bool \<Rightarrow> console \<Rightarrow> fault + console" where
  "cons_printint xx base sg s =
     (let neg = sg \<and> sint xx < 0;
          x = (if neg then - xx else xx);
          buf = map low_digit (digits_loop base (unat x)) @ (if neg then [45] else [])
      in if length buf > 16 then Inl Out_of_bounds else conswrite (rev buf) s)"

fun cprintf_loop :: "(uint32 \<Rightarrow> byte list) \<Rightarrow> byte list \<Rightarrow> uint32 list \<Rightarrow> console \<Rightarrow> fault + console" where
  "cprintf_loop str [] ap s = Inr s"
| "cprintf_loop str [c] ap s = (if c = 37 then Inr s else consputc (uint c) s)"
| "cprintf_loop str (c # d # fmt) ap s =
     (if c \<noteq> 37 then ebind (consputc (uint c) s) (cprintf_loop str (d # fmt) ap)
      else if d = 100 \<or> d = 120 \<or> d = 112
      then (case ap of [] \<Rightarrow> Inl Out_of_bounds
            | a # ap' \<Rightarrow> ebind (if d = 100 then cons_printint a 10 True s else cons_printint a 16 False s) (cprintf_loop str fmt ap'))
      else if d = 115
      then (case ap of [] \<Rightarrow> Inl Out_of_bounds
            | a # ap' \<Rightarrow>
                ebind (conswrite (if a = 0 then [40, 110, 117, 108, 108, 41] else takeWhile (\<lambda>x. x \<noteq> 0) (str a)) s) (cprintf_loop str fmt ap'))
      else if d = 37 then ebind (consputc 37 s) (cprintf_loop str fmt ap)
      else ebind (consputc 37 s) (\<lambda>s1. ebind (consputc (uint d) s1) (cprintf_loop str fmt ap)))"

definition cprintf :: "(uint32 \<Rightarrow> byte list) \<Rightarrow> byte list option \<Rightarrow> uint32 list \<Rightarrow> console \<Rightarrow> fault + console" where
  "cprintf str fmt ap s =
     (case fmt of None \<Rightarrow> Inl (Panic ''null fmt'') | Some f \<Rightarrow> cprintf_loop str (takeWhile (\<lambda>c. c \<noteq> 0) f) ap s)"

subsection \<open>The line editor\<close>

text \<open>The loop of control-U.\<close>

function kill_line :: "console \<Rightarrow> fault + console" where
  "kill_line s =
     (if in_e s \<noteq> in_w s \<and> in_buf s ! (unat (in_e s - 1) mod INPUT_BUF) \<noteq> 10
      then ebind (consputc BACKSPACE (s\<lparr>in_e := in_e s - 1\<rparr>)) kill_line
      else Inr s)"
  by pat_completeness auto

lemma consputc_input:
  "consputc c s = Inr s' \<Longrightarrow> in_buf s' = in_buf s \<and> in_r s' = in_r s \<and> in_w s' = in_w s \<and> in_e s' = in_e s \<and> panicked s' = panicked s"
  by (auto simp: consputc_def cgaputc_def uartputc_def split: if_splits)

termination kill_line
proof (relation "measure (\<lambda>s. unat (in_e s - in_w s))", goal_cases)
  case (2 s s1)
  then have "in_e s1 = in_e s - 1" "in_w s1 = in_w s" using consputc_input [of BACKSPACE "s\<lparr>in_e := in_e s - 1\<rparr>" s1] by simp_all
  then have "in_e s1 - in_w s1 = in_e s - in_w s - 1" by simp
  then show ?case using unat_pred [of "in_e s - in_w s"] 2(1) by simp
qed simp

declare kill_line.simps [simp del]

text \<open>One character of \<open>consoleintr\<close>; the result says whether \<open>wakeup\<close> was called.\<close>

definition put_char :: "byte \<Rightarrow> console \<Rightarrow> fault + bool \<times> console" where
  "put_char c0 s =
     (if c0 \<noteq> 0 \<and> in_e s - in_r s < word_of_nat INPUT_BUF
      then
        let c = (if c0 = 13 then 10 else c0);
            s1 = s\<lparr>in_buf := (in_buf s)[unat (in_e s) mod INPUT_BUF := c], in_e := in_e s + 1\<rparr>
        in ebind (consputc (uint c) s1) (\<lambda>s2.
             if c = 10 \<or> c = Ctl 68 \<or> in_e s2 = in_r s2 + word_of_nat INPUT_BUF
             then Inr (True, s2\<lparr>in_w := in_e s2\<rparr>) else Inr (False, s2))
      else Inr (False, s))"

definition console_key :: "byte \<Rightarrow> console \<Rightarrow> fault + bool \<times> console" where
  "console_key c s =
     (if c = Ctl 80 then Inr (False, s)
      else if c = Ctl 85 then ebind (kill_line s) (\<lambda>s1. Inr (False, s1))
      else if c = Ctl 72 \<or> c = 127
      then if in_e s \<noteq> in_w s then ebind (consputc BACKSPACE (s\<lparr>in_e := in_e s - 1\<rparr>)) (\<lambda>s1. Inr (False, s1)) else Inr (False, s)
      else put_char c s)"

text \<open>\<open>consoleintr\<close> on the characters that \<open>getc\<close> delivers; the result says whether \<open>procdump\<close> is called and whether readers are woken.\<close>

fun consoleintr :: "byte list \<Rightarrow> console \<Rightarrow> fault + (bool \<times> bool) \<times> console" where
  "consoleintr [] s = Inr ((False, False), s)"
| "consoleintr (c # cs) s =
     ebind (console_key c s) (\<lambda>(w, s1). ebind (consoleintr cs s1) (\<lambda>((d, w'), s2). Inr ((d \<or> c = Ctl 80, w \<or> w'), s2)))"

subsection \<open>Reading\<close>

text \<open>\<open>target\<close> is the number of bytes asked for, \<open>n\<close> what is left of it, \<open>acc\<close> the bytes stored so far.\<close>

datatype read_result = Got "byte list" | Killed | Asleep_read nat "byte list"

function consoleread_loop :: "bool \<Rightarrow> nat \<Rightarrow> nat \<Rightarrow> byte list \<Rightarrow> console \<Rightarrow> read_result \<times> console" where
  "consoleread_loop killed target n acc s =
     (if n = 0 then (Got acc, s)
      else if in_r s = in_w s then if killed then (Killed, s) else (Asleep_read n acc, s)
      else
        let c = in_buf s ! (unat (in_r s) mod INPUT_BUF); s1 = s\<lparr>in_r := in_r s + 1\<rparr> in
        if c = Ctl 68 then (Got acc, if n < target then s1\<lparr>in_r := in_r s1 - 1\<rparr> else s1)
        else if c = 10 then (Got (acc @ [c]), s1)
        else consoleread_loop killed target (n - 1) (acc @ [c]) s1)"
  by pat_completeness auto
termination
  by (relation "measure (\<lambda>(k, t, n, acc, s). n)") auto

declare consoleread_loop.simps [simp del]

definition consoleread :: "bool \<Rightarrow> nat \<Rightarrow> console \<Rightarrow> read_result \<times> console" where
  "consoleread killed n s = consoleread_loop killed n n [] s"


subsection \<open>The screen\<close>

definition screen_ok :: "console \<Rightarrow> bool" where
  "screen_ok s \<longleftrightarrow> length (crt s) = 25 * 80 \<and> cursor s < 24 * 80 \<and> \<not> panicked s"

lemma cga_place_ok:
  assumes "screen_ok s"
  shows "\<exists>pos m. cga_place c s = Inr (pos, m) \<and> length m = 25 * 80 \<and> pos \<le> 24 * 80"
proof -
  have s: "length (crt s) = 2000" "cursor s < 1920" using assms by (simp_all add: screen_ok_def)
  have "cursor s mod 80 < 80" by simp
  then have "cursor s + (80 - cursor s mod 80) = (cursor s div 80 + 1) * 80" using div_mult_mod_eq [of "cursor s" 80] by arith
  moreover have "cursor s div 80 < 24" using s(2) by (simp add: less_mult_imp_div_less)
  then have "(cursor s div 80 + 1) * 80 \<le> 24 * 80" by (intro mult_le_mono1) simp
  ultimately have "cursor s + (80 - cursor s mod 80) \<le> 1920" by simp
  then show ?thesis using s by (auto simp: cga_place_def Let_def)
qed

lemma cga_scroll_ok:
  assumes "length m = 25 * 80" "pos \<le> 24 * 80"
  shows "\<exists>pos1 m1. cga_scroll pos m = Inr (pos1, m1) \<and> length m1 = 25 * 80 \<and> pos1 < 24 * 80"
proof (cases "pos div 80 \<ge> 24")
  case True
  then have "pos = 1920" using assms(2) by linarith
  then show ?thesis using assms(1) by (simp add: cga_scroll_def)
next
  case False
  then have "pos < 1920" by (simp add: div_less_iff_less_mult not_le)
  then show ?thesis using False assms(1) by (simp add: cga_scroll_def)
qed

lemma cgaputc_ok:
  assumes "screen_ok s"
  shows "\<exists>s'. cgaputc c s = Inr s' \<and> screen_ok s'"
proof -
  obtain pos m where p: "cga_place c s = Inr (pos, m)" "length m = 25 * 80" "pos \<le> 24 * 80" using cga_place_ok [OF assms] by blast
  obtain pos1 m1 where q: "cga_scroll pos m = Inr (pos1, m1)" "length m1 = 25 * 80" "pos1 < 24 * 80" using cga_scroll_ok [OF p(2,3)] by blast
  show ?thesis using p q assms by (simp add: cgaputc_def screen_ok_def)
qed

lemma consputc_ok:
  assumes "screen_ok s"
  shows "\<exists>s'. consputc c s = Inr s' \<and> screen_ok s'"
proof -
  let ?s = "if c = BACKSPACE then uartputc 8 (uartputc 32 (uartputc 8 s)) else uartputc (word_of_int c) s"
  have "screen_ok ?s" using assms by (simp add: screen_ok_def uartputc_def)
  moreover have "\<not> panicked s" using assms by (simp add: screen_ok_def)
  ultimately show ?thesis using cgaputc_ok [of ?s c] by (simp add: consputc_def)
qed

subsection \<open>The ring and the line editor on lists\<close>

interpretation ring128: ring 128
  by unfold_locales simp_all

definition committed :: "console \<Rightarrow> byte list" where
  "committed s = ring128.seg (in_buf s) (in_r s) (unat (in_w s - in_r s))"

definition editing :: "console \<Rightarrow> byte list" where
  "editing s = ring128.seg (in_buf s) (in_w s) (unat (in_e s - in_w s))"

definition con_ok :: "console \<Rightarrow> bool" where
  "con_ok s \<longleftrightarrow> screen_ok s \<and> length (in_buf s) = 128 \<and> unat (in_w s - in_r s) + unat (in_e s - in_w s) \<le> 128 \<and> 10 \<notin> set (editing s)"

definition key_spec :: "byte \<Rightarrow> byte list \<times> byte list \<Rightarrow> byte list \<times> byte list" where
  "key_spec c st =
     (case st of (q, l) \<Rightarrow>
        if c = Ctl 80 then (q, l)
        else if c = Ctl 85 then (q, [])
        else if c = Ctl 72 \<or> c = 127 then (q, butlast l)
        else if c = 0 \<or> length q + length l \<ge> 128 then (q, l)
        else
          let l1 = l @ [if c = 13 then 10 else c] in
          if c = 13 \<or> c = 10 \<or> c = Ctl 68 \<or> length q + length l1 = 128 then (q @ l1, []) else (q, l1))"

fun read_spec :: "bool \<Rightarrow> nat \<Rightarrow> nat \<Rightarrow> byte list \<Rightarrow> byte list \<Rightarrow> read_result \<times> byte list" where
  "read_spec killed target 0 acc q = (Got acc, q)"
| "read_spec killed target (Suc n) acc [] = (if killed then Killed else Asleep_read (Suc n) acc, [])"
| "read_spec killed target (Suc n) acc (c # q) =
     (if c = Ctl 68 then (Got acc, if Suc n < target then c # q else q)
      else if c = 10 then (Got (acc @ [c]), q)
      else read_spec killed target n (acc @ [c]) q)"

lemma same_input:
  assumes "in_buf s' = in_buf s" "in_r s' = in_r s" "in_w s' = in_w s" "in_e s' = in_e s"
  shows "committed s' = committed s" "editing s' = editing s"
  using assms by (simp_all add: committed_def editing_def)

lemma con_ok_out: "con_ok s \<Longrightarrow> \<exists>s'. consputc c s = Inr s' \<and> con_ok s' \<and> committed s' = committed s \<and> editing s' = editing s \<and>
    in_r s' = in_r s \<and> in_w s' = in_w s \<and> in_e s' = in_e s \<and> in_buf s' = in_buf s"
proof -
  assume ok: "con_ok s"
  obtain s' where s': "consputc c s = Inr s'" "screen_ok s'" using consputc_ok ok by (auto simp: con_ok_def)
  note i = consputc_input [OF s'(1)]
  then show ?thesis using s' ok same_input [of s' s] by (simp add: con_ok_def)
qed

lemma editing_length: "length (committed s) = unat (in_w s - in_r s)" "length (editing s) = unat (in_e s - in_w s)"
  by (simp_all add: committed_def editing_def)

lemma unat_add: "unat (x :: uint32) + unat y < 2 ^ 32 \<Longrightarrow> unat (x + y) = unat x + unat y"
  by (simp add: unat_word_ariths)

lemma in_use_len:
  assumes "con_ok s"
  shows "unat (in_e s - in_r s) = length (committed s) + length (editing s)"
proof -
  have "unat (in_w s - in_r s) + unat (in_e s - in_w s) < 2 ^ 32" using assms by (simp add: con_ok_def)
  from unat_add [OF this] show ?thesis by (simp add: editing_length)
qed

lemma erase_one:
  assumes ok: "con_ok s" and ne: "in_e s \<noteq> in_w s"
  shows "con_ok (s\<lparr>in_e := in_e s - 1\<rparr>)" "committed (s\<lparr>in_e := in_e s - 1\<rparr>) = committed s"
    "editing s = editing (s\<lparr>in_e := in_e s - 1\<rparr>) @ [in_buf s ! (unat (in_e s - 1) mod 128)]"
proof -
  have u: "unat (in_e s - in_w s) = Suc (unat (in_e s - 1 - in_w s))" using unat_pred [of "in_e s - in_w s"] ne by (simp add: algebra_simps)
  show e: "editing s = editing (s\<lparr>in_e := in_e s - 1\<rparr>) @ [in_buf s ! (unat (in_e s - 1) mod 128)]"
    unfolding editing_def u by (simp add: ring128.seg_last [OF refl])
  show "committed (s\<lparr>in_e := in_e s - 1\<rparr>) = committed s" by (simp add: committed_def)
  show "con_ok (s\<lparr>in_e := in_e s - 1\<rparr>)" using ok e u by (simp add: con_ok_def screen_ok_def)
qed


lemma kill_line_spec:
  "con_ok s \<Longrightarrow> \<exists>s'. kill_line s = Inr s' \<and> con_ok s' \<and> committed s' = committed s \<and> editing s' = []"
proof (induction "unat (in_e s - in_w s)" arbitrary: s)
  case 0
  then have "in_e s = in_w s" by (simp add: unat_eq_0)
  then show ?case using 0 by (simp add: kill_line.simps [of s] editing_def)
next
  case (Suc k)
  then have ne: "in_e s \<noteq> in_w s" by auto
  note e = erase_one [OF Suc.prems ne]
  obtain s1 where s1: "consputc BACKSPACE (s\<lparr>in_e := in_e s - 1\<rparr>) = Inr s1" "con_ok s1" "committed s1 = committed s" "in_e s1 = in_e s - 1" "in_w s1 = in_w s"
    using con_ok_out [OF e(1), of BACKSPACE] e(2) by auto
  have "in_buf s ! (unat (in_e s - 1) mod 128) \<noteq> 10" using Suc.prems e(3) by (auto simp: con_ok_def)
  then have "kill_line s = kill_line s1" using ne s1(1) by (subst kill_line.simps) (simp add: INPUT_BUF_def)
  moreover have "k = unat (in_e s1 - in_w s1)" using Suc.hyps(2) unat_pred [of "in_e s - in_w s"] ne s1(4,5) by (simp add: diff_right_commute)
  ultimately show ?case using Suc.hyps(1) [OF _ s1(2)] s1(3) by simp
qed

text \<open>A character stored behind the line being edited.\<close>

definition stored :: "byte \<Rightarrow> console \<Rightarrow> console" where
  "stored d s = s\<lparr>in_buf := (in_buf s)[unat (in_e s) mod INPUT_BUF := d], in_e := in_e s + 1\<rparr>"

lemma stored_spec:
  assumes ok: "con_ok s" and n: "length (committed s) + length (editing s) < 128"
  shows "editing (stored d s) = editing s @ [d]" "committed (stored d s) = committed s"
    "unat (in_e s + 1 - in_w s) = Suc (length (editing s))" "unat (in_e s + 1 - in_r s) = Suc (length (committed s) + length (editing s))"
    "ring128.seg (in_buf (stored d s)) (in_r s) (Suc (length (committed s) + length (editing s))) = committed s @ editing s @ [d]"
proof -
  have len: "length (in_buf s) = 128" using ok by (simp add: con_ok_def)
  let ?m = "unat (in_e s - in_w s)" and ?k = "unat (in_w s - in_r s)"
  have mk: "?k + ?m < 128" using n by (simp add: editing_length)
  show e1: "unat (in_e s + 1 - in_w s) = Suc (length (editing s))"
    using unat_Suc [of "in_e s - in_w s"] mk by (simp add: algebra_simps editing_length)
  show "unat (in_e s + 1 - in_r s) = Suc (length (committed s) + length (editing s))"
    using unat_Suc [of "in_e s - in_r s"] in_use_len [OF ok] mk by (simp add: algebra_simps editing_length)
  show ed: "editing (stored d s) = editing s @ [d]"
    using ring128.seg_put [OF len refl, of "in_e s" "in_w s" d] mk e1 by (simp add: editing_def stored_def INPUT_BUF_def)
  have "ring128.seg (in_buf (stored d s)) (in_r s) (Suc (?k + ?m)) = ring128.seg (in_buf s) (in_r s) (?k + ?m) @ [d]"
    using ring128.seg_put [OF len in_use_len [OF ok], of d] mk by (simp add: stored_def INPUT_BUF_def editing_length)
  then have "take ?k (ring128.seg (in_buf (stored d s)) (in_r s) (?k + Suc ?m)) = take ?k (ring128.seg (in_buf s) (in_r s) (?k + ?m) @ [d])" by simp
  then have "ring128.seg (in_buf (stored d s)) (in_r s) ?k = ring128.seg (in_buf s) (in_r s) ?k" unfolding ring128.seg_add by simp
  then show cm: "committed (stored d s) = committed s" by (simp add: committed_def stored_def)
  have "ring128.seg (in_buf (stored d s)) (in_r s) (?k + Suc ?m) = committed s @ editing s @ [d]"
    unfolding ring128.seg_add using cm ed e1 by (simp add: committed_def editing_def stored_def)
  then show "ring128.seg (in_buf (stored d s)) (in_r s) (Suc (length (committed s) + length (editing s))) = committed s @ editing s @ [d]"
    by (simp add: editing_length)
qed

lemma put_char_cases:
  assumes ok: "con_ok s" and d: "d = (if c = 13 then 10 else c)" and s2: "consputc (uint d) (stored d s) = Inr s2"
  shows "put_char c s =
    (if c = 0 \<or> \<not> length (committed s) + length (editing s) < 128 then Inr (False, s)
     else if d = 10 \<or> d = Ctl 68 \<or> length (committed s) + length (editing s) = 127 then Inr (True, s2\<lparr>in_w := in_e s2\<rparr>) else Inr (False, s2))"
proof -
  let ?n = "length (committed s) + length (editing s)"
  have lt: "in_e s - in_r s < word_of_nat INPUT_BUF \<longleftrightarrow> ?n < 128"
    using in_use_len [OF ok] by (simp add: word_less_nat_alt INPUT_BUF_def)
  have full: "in_e s2 = in_r s2 + word_of_nat INPUT_BUF \<longleftrightarrow> ?n = 127" if "?n < 128"
  proof -
    have "in_e s2 = in_r s2 + word_of_nat INPUT_BUF \<longleftrightarrow> in_e s + 1 - in_r s = 128"
      using consputc_input [OF s2] by (auto simp: stored_def INPUT_BUF_def algebra_simps)
    also have "\<dots> \<longleftrightarrow> ?n = 127" using stored_spec(4) [OF ok that] by (simp add: word_unat_eq_iff)
    finally show ?thesis .
  qed
  show ?thesis using lt full s2 unfolding put_char_def stored_def d Let_def by auto
qed

lemma put_char_spec:
  assumes ok: "con_ok s" and c: "c \<notin> {Ctl 80, Ctl 85, Ctl 72, 127}"
  shows "\<exists>w s'. put_char c s = Inr (w, s') \<and> con_ok s' \<and> (committed s', editing s') = key_spec c (committed s, editing s)"
proof -
  let ?n = "length (committed s) + length (editing s)"
  define d where "d = (if c = 13 then 10 else c)"
  obtain s2 where s2: "consputc (uint d) (stored d s) = Inr s2" "screen_ok s2"
    using consputc_ok [of "stored d s" "uint d"] ok by (auto simp: con_ok_def screen_ok_def stored_def)
  note i2 = consputc_input [OF s2(1)] and p = put_char_cases [OF ok d_def s2(1)]
  have ln: "length (in_buf s2) = 128" using i2 ok by (simp add: con_ok_def stored_def)
  consider "c = 0 \<or> \<not> ?n < 128" | "c \<noteq> 0" "?n < 128" "d = 10 \<or> d = Ctl 68 \<or> ?n = 127" | "c \<noteq> 0" "?n < 128" "\<not> (d = 10 \<or> d = Ctl 68 \<or> ?n = 127)" by blast
  then show ?thesis
  proof cases
    case 1
    then have "key_spec c (committed s, editing s) = (committed s, editing s)" using c by (auto simp: key_spec_def)
    then show ?thesis using 1 p ok by (intro exI [of _ False] exI [of _ s]) simp
  next
    case 2
    note st = stored_spec [OF ok 2(2)]
    let ?s = "s2\<lparr>in_w := in_e s2\<rparr>"
    have e: "editing ?s = []" by (simp add: editing_def)
    have q: "committed ?s = committed s @ editing s @ [d]" unfolding committed_def [of ?s] using st(4) st(5) [of d] i2 by (simp add: stored_def)
    have "con_ok ?s" using s2(2) e st(4) i2 ln 2(2) by (simp add: con_ok_def screen_ok_def stored_def)
    moreover have "key_spec c (committed s, editing s) = (committed s @ editing s @ [d], [])"
      using c 2 by (auto simp: key_spec_def d_def Let_def split: if_splits)
    ultimately show ?thesis using p 2 e q by (intro exI [of _ True] exI [of _ ?s]) simp
  next
    case 3
    note st = stored_spec [OF ok 3(2)]
    have e: "editing s2 = editing s @ [d]" "committed s2 = committed s" using st(1,2) [of d] same_input [of s2 "stored d s"] i2 by simp_all
    have "unat (in_w s2 - in_r s2) = length (committed s)" "unat (in_e s2 - in_w s2) = Suc (length (editing s))"
      using i2 st(3) by (simp_all add: stored_def editing_length)
    then have "con_ok s2" using s2(2) e ln 3 ok by (simp add: con_ok_def)
    moreover have "key_spec c (committed s, editing s) = (committed s, editing s @ [d])"
      using c 3 by (auto simp: key_spec_def d_def Let_def split: if_splits)
    ultimately show ?thesis using p 3 e by (intro exI [of _ False] exI [of _ s2]) simp
  qed
qed

lemma console_key_spec:
  assumes ok: "con_ok s"
  shows "\<exists>w s'. console_key c s = Inr (w, s') \<and> con_ok s' \<and> (committed s', editing s') = key_spec c (committed s, editing s)"
proof -
  consider "c = Ctl 80" | "c = Ctl 85" | "c = Ctl 72 \<or> c = 127" | "c \<notin> {Ctl 80, Ctl 85, Ctl 72, 127}" by blast
  then show ?thesis
  proof cases
    case 1
    then show ?thesis using ok by (intro exI [of _ False] exI [of _ s]) (simp add: console_key_def key_spec_def)
  next
    case 2
    then show ?thesis using kill_line_spec [OF ok] by (auto simp: console_key_def key_spec_def Ctl_def)
  next
    case 3
    have k: "key_spec c (committed s, editing s) = (committed s, butlast (editing s))" using 3 by (auto simp: key_spec_def Ctl_def)
    show ?thesis
    proof (cases "in_e s = in_w s")
      case True
      then have "editing s = []" by (simp add: editing_def)
      then show ?thesis using 3 True ok k by (intro exI [of _ False] exI [of _ s]) (auto simp: console_key_def Ctl_def)
    next
      case False
      note e = erase_one [OF ok False]
      obtain s1 where s1: "consputc BACKSPACE (s\<lparr>in_e := in_e s - 1\<rparr>) = Inr s1" "con_ok s1" "committed s1 = committed s" "editing s1 = editing (s\<lparr>in_e := in_e s - 1\<rparr>)"
        using con_ok_out [OF e(1), of BACKSPACE] e(2) by auto
      then show ?thesis using 3 False k e(3) by (intro exI [of _ False] exI [of _ s1]) (auto simp: console_key_def Ctl_def)
    qed
  next
    case 4
    then show ?thesis using put_char_spec [OF ok 4] by (auto simp: console_key_def)
  qed
qed

lemma consoleintr_spec:
  "con_ok s \<Longrightarrow> \<exists>f s'. consoleintr cs s = Inr (f, s') \<and> con_ok s' \<and> (committed s', editing s') = fold key_spec cs (committed s, editing s)"
proof (induction cs arbitrary: s)
  case (Cons c cs)
  obtain w s1 where s1: "console_key c s = Inr (w, s1)" "con_ok s1" "(committed s1, editing s1) = key_spec c (committed s, editing s)"
    using console_key_spec [OF Cons.prems] by blast
  obtain d w' s2 where s2: "consoleintr cs s1 = Inr ((d, w'), s2)" "con_ok s2" "(committed s2, editing s2) = fold key_spec cs (committed s1, editing s1)"
    using Cons.IH [OF s1(2)] by (metis surj_pair)
  then show ?case using s1 by simp
qed auto

lemma take_committed:
  assumes ok: "con_ok s" and ne: "in_r s \<noteq> in_w s"
  shows "con_ok (s\<lparr>in_r := in_r s + 1\<rparr>)" "editing (s\<lparr>in_r := in_r s + 1\<rparr>) = editing s"
    "committed s = in_buf s ! (unat (in_r s) mod 128) # committed (s\<lparr>in_r := in_r s + 1\<rparr>)"
proof -
  have u: "unat (in_w s - in_r s) = Suc (unat (in_w s - (in_r s + 1)))" using unat_pred [of "in_w s - in_r s"] ne by (simp add: diff_diff_eq)
  show e: "editing (s\<lparr>in_r := in_r s + 1\<rparr>) = editing s" by (simp add: editing_def)
  show "committed s = in_buf s ! (unat (in_r s) mod 128) # committed (s\<lparr>in_r := in_r s + 1\<rparr>)"
    unfolding committed_def u ring128.seg_Suc by simp
  show "con_ok (s\<lparr>in_r := in_r s + 1\<rparr>)" using ok e u by (simp add: con_ok_def screen_ok_def)
qed

lemma consoleread_loop_spec:
  "con_ok s \<Longrightarrow> consoleread_loop killed target n acc s = (r, s') \<Longrightarrow>
    con_ok s' \<and> editing s' = editing s \<and> read_spec killed target n acc (committed s) = (r, committed s')"
proof (induction n arbitrary: acc s)
  case 0
  then show ?case by (simp add: consoleread_loop.simps [of killed target 0])
next
  case (Suc n)
  show ?case
  proof (cases "in_r s = in_w s")
    case True
    then have "committed s = []" by (simp add: committed_def)
    then show ?thesis using Suc.prems True by (auto simp: consoleread_loop.simps [of killed target "Suc n"] split: if_splits)
  next
    case False
    note t = take_committed [OF Suc.prems(1) False]
    define c s1 where "c = in_buf s ! (unat (in_r s) mod 128)" and "s1 = s\<lparr>in_r := in_r s + 1\<rparr>"
    note run = Suc.prems(2) [unfolded consoleread_loop.simps [of killed target "Suc n"] Let_def INPUT_BUF_def, folded c_def s1_def]
    have q: "committed s = c # committed s1" "editing s1 = editing s" "con_ok s1" using t by (simp_all add: c_def s1_def)
    have undo: "s1\<lparr>in_r := in_r s1 - 1\<rparr> = s" by (simp add: s1_def)
    consider "c = Ctl 68" | "c \<noteq> Ctl 68" "c = 10" | "c \<noteq> Ctl 68" "c \<noteq> 10" by blast
    then show ?thesis
    proof cases
      case 1
      then show ?thesis using run False q undo Suc.prems(1) by (auto split: if_splits)
    next
      case 2
      then show ?thesis using run False q by (auto simp: Ctl_def)
    next
      case 3
      then have "consoleread_loop killed target n (acc @ [c]) s1 = (r, s')" using run False by simp
      from Suc.IH [OF q(3) this] show ?thesis using 3 q by simp
    qed
  qed
qed

text \<open>C14: the console is a line editor. For every sequence of characters from the keyboard \<open>consoleintr\<close> ends without a panic, keeps the cursor on the
  screen, and its ring buffer with the three wrapping counters behaves like two lists: the committed bytes and the line
  being edited. Backspace and control-U change only the line being edited, a line is handed over by a newline, control-D or
  when 128 bytes are in use. \<open>consoleread\<close> takes committed bytes up to a newline or control-D and nothing else.\<close>

theorem console_refines_line_editor:
  assumes "con_ok s"
  shows "(\<exists>f s'. consoleintr cs s = Inr (f, s') \<and> con_ok s' \<and> (committed s', editing s') = fold key_spec cs (committed s, editing s)) \<and>
    (\<forall>killed n r s'. consoleread killed n s = (r, s') \<longrightarrow>
      con_ok s' \<and> editing s' = editing s \<and> read_spec killed n n [] (committed s) = (r, committed s'))"
  using consoleintr_spec [OF assms] consoleread_loop_spec [OF assms] by (simp add: consoleread_def)

definition blank_console :: console where
  "blank_console = \<lparr>crt = replicate 2000 0, cursor = 0, uart = [], panicked = False, in_buf = replicate 128 0, in_r = 0, in_w = 0, in_e = 0\<rparr>"

lemma blank_console_ok: "con_ok blank_console" "committed blank_console = []" "editing blank_console = []"
  by (simp_all add: con_ok_def screen_ok_def blank_console_def committed_def editing_def)

lemma short_read: "read_spec False 10 10 [] [97, 99, 10] = (Got [97, 99, 10], [])"
  by code_simp

text \<open>Witness: the keys \<open>a\<close>, \<open>b\<close>, backspace, \<open>c\<close> and return on a new console, then a read of ten bytes.\<close>

theorem console_refines_line_editor_witness:
  "\<exists>f s' s''. consoleintr [97, 98, 8, 99, 13] blank_console = Inr (f, s') \<and> committed s' = [97, 99, 10] \<and> editing s' = [] \<and>
     consoleread False 10 s' = (Got [97, 99, 10], s'') \<and> committed s'' = []"
proof -
  obtain f s' where s': "consoleintr [97, 98, 8, 99, 13] blank_console = Inr (f, s')" "con_ok s'"
    "(committed s', editing s') = fold key_spec [97, 98, 8, 99, 13] (committed blank_console, editing blank_console)"
    using console_refines_line_editor [OF blank_console_ok(1)] by blast
  then have q: "committed s' = [97, 99, 10]" "editing s' = []" by (simp_all add: blank_console_ok key_spec_def Ctl_def)
  obtain r s'' where r: "consoleread False 10 s' = (r, s'')" by (cases "consoleread False 10 s'")
  then have "read_spec False 10 10 [] (committed s') = (r, committed s'')" using console_refines_line_editor [OF s'(2)] by blast
  then have "r = Got [97, 99, 10] \<and> committed s'' = []" using short_read by (simp add: q)
  then show ?thesis using s'(1) q r by blast
qed

end
