(* ===== verification/XV6_Umalloc.thy ===== *)
theory XV6_Umalloc
  imports Prelude
begin

text \<open>
  The allocator of the user library of xv6, \<open>src/project3/xv6-modified/umalloc.c\<close>: a circular list of free blocks in
  the order of their addresses. An address counts units of \<open>sizeof (Header)\<close>, that is 8 bytes, so that
  pointer arithmetic is plain addition; the break of the process is a multiple of 8 bytes. \<open>hptr\<close> and
  \<open>hsize\<close> are the two fields of the header at an address, \<open>base_at\<close> is the address of the static header \<open>base\<close>, and
  the null pointer is 0. \<open>sbrk\<close> is granted or refused by the kernel, which is an argument of the functions that call it. The two loops
  are partial functions, and it is shown that they end.
\<close>

record uheap =
  hptr :: "nat \<Rightarrow> nat"
  hsize :: "nat \<Rightarrow> nat"
  freep :: nat
  base_at :: nat
  ubrk :: nat

partial_function (option) free_find :: "nat \<Rightarrow> nat \<Rightarrow> uheap \<Rightarrow> nat option" where
  "free_find bp p h =
     (if bp > p \<and> bp < hptr h p then Some p
      else if p \<ge> hptr h p \<and> (bp > p \<or> bp < hptr h p) then Some p
      else free_find bp (hptr h p) h)"

definition join_upper :: "nat \<Rightarrow> nat \<Rightarrow> uheap \<Rightarrow> uheap" where
  "join_upper bp p h =
     (let nx = hptr h p in
      if bp + hsize h bp = nx
      then h\<lparr>hsize := (hsize h)(bp := hsize h bp + hsize h nx), hptr := (hptr h)(bp := hptr h nx)\<rparr>
      else h\<lparr>hptr := (hptr h)(bp := nx)\<rparr>)"

definition join_lower :: "nat \<Rightarrow> nat \<Rightarrow> uheap \<Rightarrow> uheap" where
  "join_lower bp p h =
     (if p + hsize h p = bp
      then h\<lparr>hsize := (hsize h)(p := hsize h p + hsize h bp), hptr := (hptr h)(p := hptr h bp)\<rparr>
      else h\<lparr>hptr := (hptr h)(p := bp)\<rparr>)"

definition ufree :: "nat \<Rightarrow> uheap \<Rightarrow> uheap option" where
  "ufree ap h =
     (let bp = ap - 1 in
      case free_find bp (freep h) h of None \<Rightarrow> None
      | Some p \<Rightarrow> Some ((join_lower bp p (join_upper bp p h))\<lparr>freep := p\<rparr>))"

text \<open>\<open>sbrk\<close> with an argument in bytes: the old break, or \<open>None\<close> for \<open>-1\<close>.\<close>

definition sbrk :: "bool \<Rightarrow> int \<Rightarrow> uheap \<Rightarrow> nat option \<times> uheap" where
  "sbrk grant n h = (if grant then (Some (ubrk h), h\<lparr>ubrk := nat (int (ubrk h) + n)\<rparr>) else (None, h))"

text \<open>The outer option is \<open>None\<close> when a loop does not end; the inner result is the pointer, 0 for failure.\<close>

definition morecore :: "bool \<Rightarrow> nat \<Rightarrow> uheap \<Rightarrow> (nat \<times> uheap) option" where
  "morecore grant nu0 h =
     (let nu = (if nu0 < 4096 then 4096 else nu0) in
      case sbrk grant (sint (word_of_nat (nu * 8) :: uint32)) h of
        (None, h1) \<Rightarrow> Some (0, h1)
      | (Some p, h1) \<Rightarrow>
          let hp = p div 8; h2 = h1\<lparr>hsize := (hsize h1)(hp := nu)\<rparr> in
          map_option (\<lambda>h3. (freep h3, h3)) (ufree (hp + 1) h2))"

definition take_block :: "nat \<Rightarrow> nat \<Rightarrow> nat \<Rightarrow> uheap \<Rightarrow> nat \<times> uheap" where
  "take_block nunits prevp p h =
     (if hsize h p = nunits then (p + 1, h\<lparr>hptr := (hptr h)(prevp := hptr h p), freep := prevp\<rparr>)
      else
        let s = hsize h p - nunits; q = p + s in
        (q + 1, h\<lparr>hsize := (hsize h)(p := s, q := nunits), freep := prevp\<rparr>))"

partial_function (option) malloc_loop :: "bool \<Rightarrow> nat \<Rightarrow> nat \<Rightarrow> nat \<Rightarrow> uheap \<Rightarrow> (nat \<times> uheap) option" where
  "malloc_loop grant nunits prevp p h =
     (if hsize h p \<ge> nunits then Some (take_block nunits prevp p h)
      else if p = freep h
      then (case morecore grant nunits h of None \<Rightarrow> None
            | Some (p1, h1) \<Rightarrow> if p1 = 0 then Some (0, h1) else malloc_loop grant nunits p1 (hptr h1 p1) h1)
      else malloc_loop grant nunits p (hptr h p) h)"

definition nunits_of :: "uint32 \<Rightarrow> nat" where
  "nunits_of nbytes = unat ((nbytes + 8 - 1) div 8 + 1)"

definition umalloc :: "bool \<Rightarrow> uint32 \<Rightarrow> uheap \<Rightarrow> (nat \<times> uheap) option" where
  "umalloc grant nbytes h =
     (let h1 = (if freep h = 0 then h\<lparr>hptr := (hptr h)(base_at h := base_at h), hsize := (hsize h)(base_at h := 0), freep := base_at h\<rparr> else h)
      in malloc_loop grant (nunits_of nbytes) (freep h1) (hptr h1 (freep h1)) h1)"

subsection \<open>The circular list\<close>

fun links :: "(nat \<Rightarrow> nat) \<Rightarrow> nat list \<Rightarrow> nat \<Rightarrow> bool" where
  "links f [] e \<longleftrightarrow> True"
| "links f (a # as) e \<longleftrightarrow> f a = hd (as @ [e]) \<and> links f as e"

fun gaps :: "(nat \<Rightarrow> nat) \<Rightarrow> nat list \<Rightarrow> bool" where
  "gaps z [] \<longleftrightarrow> True"
| "gaps z [a] \<longleftrightarrow> True"
| "gaps z (a # b # as) \<longleftrightarrow> a + z a < b \<and> gaps z (b # as)"

definition space :: "(nat \<Rightarrow> nat) \<Rightarrow> nat list \<Rightarrow> nat set" where
  "space z as = (\<Union>a \<in> set as. {a..<a + z a})"

text \<open>The blocks of the list lie in ascending order with a gap between neighbours, all but \<open>base\<close> have a size, and all lie below
  the break.\<close>

definition heap_ok :: "uheap \<Rightarrow> nat list \<Rightarrow> bool" where
  "heap_ok h as \<longleftrightarrow> as \<noteq> [] \<and> hd as = base_at h \<and> 0 < base_at h \<and> hsize h (base_at h) = 0 \<and> links (hptr h) as (base_at h) \<and> gaps (hsize h) as \<and>
     (\<forall>a \<in> set (tl as). 0 < hsize h a) \<and> freep h \<in> set as \<and> (\<forall>a \<in> set as. a + hsize h a \<le> ubrk h div 8) \<and> ubrk h mod 8 = 0 \<and> base_at h < ubrk h div 8"

lemma links_append: "links f (xs @ ys) e \<longleftrightarrow> links f xs (hd (ys @ [e])) \<and> links f ys e"
proof (induction xs)
  case (Cons x xs)
  then show ?case by (cases xs) auto
qed simp

lemma links_cong: "(\<And>a. a \<in> set as \<Longrightarrow> f a = g a) \<Longrightarrow> links f as e = links g as e"
  by (induction as) auto

lemma gaps_cong: "(\<And>a. a \<in> set as \<Longrightarrow> y a = z a) \<Longrightarrow> gaps y as = gaps z as"
  by (induction z as rule: gaps.induct) auto

lemma gaps_append: "gaps z (xs @ ys) \<longleftrightarrow> gaps z xs \<and> gaps z ys \<and> (xs \<noteq> [] \<and> ys \<noteq> [] \<longrightarrow> last xs + z (last xs) < hd ys)"
proof (induction z xs rule: gaps.induct)
  case (2 z a)
  then show ?case by (cases ys) auto
qed auto

lemma gaps_less: "gaps z (a # as) \<Longrightarrow> b \<in> set as \<Longrightarrow> a + z a < b"
proof (induction as arbitrary: a)
  case (Cons c as)
  then show ?case
  proof (cases "b = c")
    case False
    then have "c + z c < b" using Cons by simp
    then show ?thesis using Cons.prems(1) by simp
  qed simp
qed simp

lemma gaps_distinct: "gaps z as \<Longrightarrow> distinct as"
proof (induction as)
  case (Cons a as)
  have "a \<notin> set as" using gaps_less [OF Cons.prems, of a] by auto
  moreover have "gaps z as" using Cons.prems by (cases as) auto
  ultimately show ?case using Cons.IH by simp
qed simp

lemma gaps_tl: "gaps z (a # as) \<Longrightarrow> gaps z as"
  by (cases as) auto

lemma gaps_around: "gaps z (xs @ p # ys) \<Longrightarrow> x \<in> set xs \<Longrightarrow> x + z x < p"
proof (induction xs)
  case (Cons a xs)
  then show ?case using gaps_less [of z a "xs @ p # ys" p] gaps_tl [of z a "xs @ p # ys"] by auto
qed simp

subsection \<open>Finding the place of a block\<close>

lemma find_up:
  assumes "gaps z (zs @ [p])" "links (hptr h) zs p" "p < bp" "free_find bp p h = Some p"
  shows "free_find bp (hd (zs @ [p])) h = Some p"
  using assms(1,2)
proof (induction zs)
  case Nil
  then show ?case using assms(4) by simp
next
  case (Cons a zs)
  have nx: "hptr h a = hd (zs @ [p])" using Cons.prems(2) by simp
  have "hd (zs @ [p]) \<in> set (zs @ [p])" by (cases zs) auto
  then have "a < hd (zs @ [p])" "hd (zs @ [p]) \<le> p" using gaps_less [of z a "zs @ [p]"] Cons.prems(1) gaps_around [of z zs p "[]"] gaps_tl [of z a "zs @ [p]"]
    by (fastforce, cases zs) (auto, fastforce)
  moreover have "free_find bp (hptr h a) h = Some p" using Cons gaps_tl [of z a "zs @ [p]"] nx by simp
  ultimately show ?case using nx assms(3) by (subst free_find.simps) simp
qed

lemma find_down:
  assumes "gaps z zs" "links (hptr h) zs b" "zs \<noteq> []" "bp < hd zs" "b < bp" "free_find bp b h = Some p"
  shows "free_find bp (hd zs) h = Some p"
  using assms(1-4)
proof (induction zs)
  case (Cons a zs)
  show ?case
  proof (cases zs)
    case Nil
    then have "hptr h a = b" using Cons.prems(2) by simp
    then show ?thesis using Cons.prems(4) assms(5,6) by (subst free_find.simps) simp
  next
    case (Cons c cs)
    then have nx: "hptr h a = c" "a < c" using Cons.prems by auto
    have "free_find bp (hd zs) h = Some p" using Cons.prems Cons by (intro Cons.IH) auto
    then show ?thesis using nx Cons Cons.prems(4) by (subst free_find.simps) simp
  qed
qed simp


lemma heap_okD:
  assumes "heap_ok h as"
  shows "as \<noteq> []" "hd as = base_at h" "0 < base_at h" "hsize h (base_at h) = 0" "links (hptr h) as (base_at h)" "gaps (hsize h) as"
    "\<And>a. a \<in> set (tl as) \<Longrightarrow> 0 < hsize h a" "freep h \<in> set as" "\<And>a. a \<in> set as \<Longrightarrow> a + hsize h a \<le> ubrk h div 8" "ubrk h mod 8 = 0"
    "base_at h < ubrk h div 8"
  using assms by (simp_all add: heap_ok_def)

lemma base_least:
  assumes "heap_ok h as" "a \<in> set as"
  shows "base_at h \<le> a"
proof (cases as)
  case (Cons b bs)
  then show ?thesis using assms heap_okD(2,6) [OF assms(1)] gaps_less [of "hsize h" b bs a] by (cases "a = b") auto
qed (use assms in simp)

lemma free_find_pred:
  assumes ok: "heap_ok h (xs @ p # ys)" and lt: "p < bp" and up: "ys \<noteq> [] \<Longrightarrow> bp < hd ys" and q: "q \<in> set (xs @ p # ys)"
  shows "free_find bp q h = Some p"
proof -
  note d = heap_okD [OF ok]
  have l: "links (hptr h) xs p" "hptr h p = hd (ys @ [base_at h])" "links (hptr h) ys (base_at h)"
    using d(5) by (simp_all add: links_append)
  have bp: "base_at h \<le> p" using base_least [OF ok] by simp
  have at_p: "free_find bp p h = Some p"
  proof (cases ys)
    case Nil
    then show ?thesis using l(2) lt bp by (subst free_find.simps) simp
  next
    case (Cons y ys')
    then show ?thesis using l(2) lt up by (subst free_find.simps) simp
  qed
  have up_to: "free_find bp (hd (zs @ [p])) h = Some p" if "xs = us @ zs" for us zs
  proof (rule find_up [OF _ _ lt at_p])
    show "gaps (hsize h) (zs @ [p])" using d(6) that by (simp add: gaps_append)
    show "links (hptr h) zs p" using l(1) that by (simp add: links_append)
  qed
  have from_base: "free_find bp (base_at h) h = Some p"
    using up_to [of "[]" xs] d(2) by (cases xs) simp_all
  consider us vs where "xs = us @ q # vs" | "q = p" | us vs where "ys = us @ q # vs" using q by (auto dest: split_list)
  then show ?thesis
  proof cases
    case 1
    then show ?thesis using up_to [of us "q # vs"] by simp
  next
    case 2
    then show ?thesis using at_p by simp
  next
    case 3
    have gy: "gaps (hsize h) ys" using d(6) by (simp add: gaps_append) (cases ys; auto)
    have "bp < q"
    proof (cases us)
      case Nil
      then show ?thesis using 3 up by simp
    next
      case (Cons u us')
      then have "q \<in> set (us' @ q # vs)" "gaps (hsize h) (u # us' @ q # vs)" using gy 3 by simp_all
      then have "u < q" using gaps_less by fastforce
      then show ?thesis using 3 up Cons by simp
    qed
    then show ?thesis using find_down [of "hsize h" "q # vs" h "base_at h" bp p] gy l(3) 3 from_base lt bp
      by (simp add: gaps_append links_append)
  qed
qed

subsection \<open>Giving a block back\<close>

text \<open>The state after the first half of \<open>free\<close>: the block \<open>bp\<close> has taken in its upper neighbour when they touch.\<close>

lemma join_upper_spec:
  assumes ok: "heap_ok h (xs @ p # ys)" and lt: "p < bp" and up: "ys \<noteq> [] \<Longrightarrow> bp + hsize h bp \<le> hd ys" and sz: "0 < hsize h bp" and top: "bp + hsize h bp \<le> ubrk h div 8"
  shows "\<exists>n ys'. join_upper bp p h = h\<lparr>hsize := (hsize h)(bp := n), hptr := (hptr h)(bp := hd (ys' @ [base_at h]))\<rparr> \<and>
    links (hptr h) ys' (base_at h) \<and> gaps (hsize h) ys' \<and> (ys' \<noteq> [] \<longrightarrow> bp + n < hd ys') \<and> hsize h bp \<le> n \<and> bp + n \<le> ubrk h div 8 \<and>
    set ys' \<subseteq> set ys \<and> {bp..<bp + n} \<union> space (hsize h) ys' = {bp..<bp + hsize h bp} \<union> space (hsize h) ys"
proof -
  note d = heap_okD [OF ok]
  have l: "hptr h p = hd (ys @ [base_at h])" "links (hptr h) ys (base_at h)" using d(5) by (simp_all add: links_append)
  have gy: "gaps (hsize h) ys" using d(6) by (simp add: gaps_append) (cases ys; auto)
  have bp: "base_at h \<le> p" using base_least [OF ok] by simp
  show ?thesis
  proof (cases "bp + hsize h bp = hptr h p")
    case True
    then obtain y ys' where y: "ys = y # ys'" using l(1) lt bp by (cases ys) auto
    then have e: "bp + hsize h bp = y" "hptr h y = hd (ys' @ [base_at h])" using True l by simp_all
    let ?n = "hsize h bp + hsize h y"
    have "ys' \<noteq> [] \<longrightarrow> bp + ?n < hd ys'" using gy y e(1) by (cases ys') auto
    moreover have "bp + ?n \<le> ubrk h div 8" using d(9) [of y] y e(1) by simp
    moreover have "{bp..<bp + ?n} = {bp..<bp + hsize h bp} \<union> {y..<y + hsize h y}" using e(1) by auto
    then have "{bp..<bp + ?n} \<union> space (hsize h) ys' = {bp..<bp + hsize h bp} \<union> space (hsize h) ys" by (auto simp: space_def y)
    moreover have "join_upper bp p h = h\<lparr>hsize := (hsize h)(bp := ?n), hptr := (hptr h)(bp := hd (ys' @ [base_at h]))\<rparr>"
      using True e l(1) y by (simp add: join_upper_def Let_def)
    ultimately show ?thesis using l(2) gy y gaps_tl [of "hsize h" y ys'] by (intro exI [of _ ?n] exI [of _ ys']) auto
  next
    case False
    then have "join_upper bp p h = h\<lparr>hsize := (hsize h)(bp := hsize h bp), hptr := (hptr h)(bp := hd (ys @ [base_at h]))\<rparr>"
      using l(1) by (simp add: join_upper_def Let_def)
    moreover have "ys \<noteq> [] \<longrightarrow> bp + hsize h bp < hd ys" using up False l(1) by (cases ys) (auto simp: le_less)
    ultimately show ?thesis using l(2) gy top by (intro exI [of _ "hsize h bp"] exI [of _ ys]) auto
  qed
qed

lemma heap_relink:
  assumes ok: "heap_ok h (xs @ p # ys)"
    and f: "\<And>a. a \<in> set xs \<Longrightarrow> hptr h' a = hptr h a" "hptr h' p = hd (zs @ [base_at h])" "links (hptr h') zs (base_at h)"
    and z: "\<And>a. a \<in> set xs \<Longrightarrow> hsize h' a = hsize h a" "gaps (hsize h') (p # zs)" "hsize h p \<le> hsize h' p" "p = base_at h \<Longrightarrow> hsize h' p = 0"
      "\<And>a. a \<in> set zs \<Longrightarrow> 0 < hsize h' a" "\<And>a. a \<in> set (p # zs) \<Longrightarrow> a + hsize h' a \<le> ubrk h div 8"
    and r: "base_at h' = base_at h" "ubrk h' = ubrk h" "freep h' \<in> set (xs @ p # zs)"
  shows "heap_ok h' (xs @ p # zs)"
proof -
  note d = heap_okD [OF ok]
  have lx: "links (hptr h) xs p" and gx: "gaps (hsize h) xs" "xs \<noteq> [] \<longrightarrow> last xs + hsize h (last xs) < p"
    using d(5,6) by (simp_all add: links_append gaps_append)
  have "links (hptr h') xs p" using lx links_cong [of xs "hptr h'" "hptr h"] f(1) by simp
  then have "links (hptr h') (xs @ p # zs) (base_at h)" using f by (simp add: links_append)
  moreover have "gaps (hsize h') xs" using gx(1) gaps_cong [of xs "hsize h'" "hsize h"] z(1) by simp
  then have "gaps (hsize h') (xs @ p # zs)" using gx(2) z(1,2) by (simp add: gaps_append)
  moreover have "hd (xs @ p # zs) = base_at h" using d(2) by (cases xs) simp_all
  moreover have "hsize h' (base_at h) = 0"
  proof (cases xs)
    case Nil
    then show ?thesis using d(2) z(4) by simp
  next
    case (Cons x xs')
    then show ?thesis using d(2,4) z(1) by simp
  qed
  moreover have "0 < hsize h' a" if at: "a \<in> set (tl (xs @ p # zs))" for a
  proof (cases xs)
    case Nil
    then show ?thesis using at z(5) by simp
  next
    case (Cons x xs')
    then consider "a \<in> set xs'" | "a = p" | "a \<in> set zs" using at by auto
    then show ?thesis using d(7) [of a] z(1,3,5) Cons by cases auto
  qed
  moreover have "a + hsize h' a \<le> ubrk h div 8" if "a \<in> set (xs @ p # zs)" for a using that d(9) [of a] z(1,6) by auto
  ultimately show ?thesis using d(3,10,11) r by (simp add: heap_ok_def)
qed

definition free_space :: "uheap \<Rightarrow> nat list \<Rightarrow> nat set" where
  "free_space h as = space (hsize h) as"

text \<open>The block that is freed: it has a size, lies in the heap above \<open>base\<close> and apart from the free blocks.\<close>

definition block_ok :: "uheap \<Rightarrow> nat list \<Rightarrow> nat \<Rightarrow> bool" where
  "block_ok h as bp \<longleftrightarrow> base_at h < bp \<and> 0 < hsize h bp \<and> bp + hsize h bp \<le> ubrk h div 8 \<and> {bp..<bp + hsize h bp} \<inter> free_space h as = {} \<and> bp \<notin> set as"

lemma block_place:
  assumes ok: "heap_ok h as" and b: "block_ok h as bp"
  shows "\<exists>xs p ys. as = xs @ p # ys \<and> p < bp \<and> p + hsize h p \<le> bp \<and> (ys \<noteq> [] \<longrightarrow> bp + hsize h bp \<le> hd ys)"
proof -
  define us where "us = takeWhile (\<lambda>a. a < bp) as"
  define ys where "ys = dropWhile (\<lambda>a. a < bp) as"
  have as: "as = us @ ys" by (simp add: us_def ys_def)
  have "us \<noteq> []" using heap_okD(1,2) [OF ok] b by (cases as) (auto simp: us_def block_ok_def)
  then obtain xs p where xp: "us = xs @ [p]" by (metis rev_exhaust)
  have "p \<in> set us" using xp by simp
  then have p: "p < bp" "p \<in> set as" using set_takeWhileD [of p "\<lambda>a. a < bp" as] by (simp_all add: us_def)
  have apart: "x \<notin> {a..<a + hsize h a}" if "a \<in> set as" "x \<in> {bp..<bp + hsize h bp}" for a x
    using b that unfolding block_ok_def free_space_def space_def by blast
  have sz: "0 < hsize h bp" "bp \<notin> set as" using b by (simp_all add: block_ok_def)
  have "p + hsize h p \<le> bp" using apart [OF p(2), of bp] p(1) sz(1) by simp
  moreover have "bp + hsize h bp \<le> hd ys" if ne: "ys \<noteq> []"
  proof -
    have "\<not> hd ys < bp" using ne hd_dropWhile [of "\<lambda>a. a < bp" as] by (simp add: ys_def)
    moreover have y: "hd ys \<in> set as" using ne as by simp
    ultimately have "bp < hd ys" using sz(2) by (metis linorder_neqE_nat)
    moreover have "0 < hsize h (hd ys)"
    proof (rule heap_okD(7) [OF ok])
      show "hd ys \<in> set (tl as)" using as xp ne by (cases xs; cases ys) simp_all
    qed
    ultimately show ?thesis using apart [OF y, of "hd ys"] by (cases "hd ys < bp + hsize h bp") auto
  qed
  ultimately show ?thesis using as xp p(1) by auto
qed

lemma space_append: "space z (xs @ ys) = space z xs \<union> space z ys" "space z (a # ys) = {a..<a + z a} \<union> space z ys" "space z [] = {}"
  by (auto simp: space_def)

lemma space_cong: "(\<And>a. a \<in> set as \<Longrightarrow> y a = z a) \<Longrightarrow> space y as = space z as"
  by (simp add: space_def)

lemma ufree_spec:
  assumes ok: "heap_ok h as" and b: "block_ok h as bp"
  shows "\<exists>h' as'. ufree (bp + 1) h = Some h' \<and> heap_ok h' as' \<and> free_space h' as' = free_space h as \<union> {bp..<bp + hsize h bp} \<and>
    (\<forall>x. x \<notin> set as \<longrightarrow> x \<noteq> bp \<longrightarrow> hsize h' x = hsize h x) \<and> base_at h' = base_at h \<and> ubrk h' = ubrk h \<and>
    set as' \<subseteq> insert bp (set as) \<and> (\<exists>a \<in> set as'. hsize h bp \<le> hsize h' a)"
proof -
  obtain xs p ys where as: "as = xs @ p # ys" "p < bp" "p + hsize h p \<le> bp" "ys \<noteq> [] \<longrightarrow> bp + hsize h bp \<le> hd ys" using block_place [OF ok b] by blast
  have okp: "heap_ok h (xs @ p # ys)" using ok as(1) by simp
  note d = heap_okD [OF okp]
  have sz: "0 < hsize h bp" "bp + hsize h bp \<le> ubrk h div 8" "base_at h < bp" "bp \<notin> set xs" "bp \<notin> set ys" "bp \<noteq> p" using b as(1) by (auto simp: block_ok_def)
  obtain n ys' where u: "join_upper bp p h = h\<lparr>hsize := (hsize h)(bp := n), hptr := (hptr h)(bp := hd (ys' @ [base_at h]))\<rparr>"
      "links (hptr h) ys' (base_at h)" "gaps (hsize h) ys'" "ys' \<noteq> [] \<longrightarrow> bp + n < hd ys'" "hsize h bp \<le> n" "bp + n \<le> ubrk h div 8"
      "set ys' \<subseteq> set ys" "{bp..<bp + n} \<union> space (hsize h) ys' = {bp..<bp + hsize h bp} \<union> space (hsize h) ys"
    using join_upper_spec [OF okp as(2) _ sz(1,2)] as(4) by blast
  let ?h = "(join_lower bp p (join_upper bp p h))\<lparr>freep := p\<rparr>"
  have "ys \<noteq> [] \<Longrightarrow> bp < hd ys" using as(4) sz(1) by simp
  then have "free_find bp (freep h) h = Some p" using free_find_pred [OF okp as(2)] d(8) by blast
  then have run: "ufree (bp + 1) h = Some ?h" by (simp add: ufree_def Let_def)
  have n: "p \<notin> set xs" "p \<notin> set ys'" "bp \<notin> set ys'" "\<And>a. a \<in> set ys' \<Longrightarrow> 0 < hsize h a" "\<And>a. a \<in> set ys' \<Longrightarrow> a + hsize h a \<le> ubrk h div 8"
    using gaps_distinct [OF d(6)] u(7) sz(5) d(7) d(9) by (auto, (cases xs; auto)+)
  have lk: "links (\<lambda>a. if a = p then v else if a = bp then w else hptr h a) ys' e = links (hptr h) ys' e" for v w e using n(2,3) by (intro links_cong) auto
  have gp: "gaps (\<lambda>a. if a = p then v else if a = bp then w else hsize h a) ys'" for v w
    using u(3) n(2,3) by (subst gaps_cong [where z = "hsize h"]) auto
  show ?thesis
  proof (cases "p + hsize h p = bp")
    case True
    let ?z = "\<lambda>a. if a = p then hsize h p + n else if a = bp then n else hsize h a"
    have h': "hsize ?h = ?z" "hptr ?h = (\<lambda>a. if a = p then hd (ys' @ [base_at h]) else if a = bp then hd (ys' @ [base_at h]) else hptr h a)"
      "base_at ?h = base_at h" "ubrk ?h = ubrk h" "freep ?h = p"
      using True sz(6) by (auto simp: u(1) join_lower_def)
    have "p + ?z p < hd ys'" if "ys' \<noteq> []" using u(4) True that by simp
    then have "gaps ?z (p # ys')" using gp [of "hsize h p + n" n] by (cases ys') auto
    then have "heap_ok ?h (xs @ p # ys')"
      using h' u(2,6) n sz True d(4) by (intro heap_relink [OF okp]) (auto simp: lk)
    moreover have "free_space ?h (xs @ p # ys') = free_space h as \<union> {bp..<bp + hsize h bp}"
    proof -
      have "space ?z xs = space (hsize h) xs" "space ?z ys' = space (hsize h) ys'" using n(1,2,3) sz(4) by (auto intro!: space_cong)
      moreover have "{p..<p + ?z p} = {p..<p + hsize h p} \<union> {bp..<bp + n}" using True by auto
      ultimately show ?thesis using u(8) unfolding free_space_def h'(1) as(1) space_append by blast
    qed
    ultimately show ?thesis using run h' u(5,7) as(1) by (intro exI [of _ ?h] exI [of _ "xs @ p # ys'"]) auto
  next
    case False
    then have lt: "p + hsize h p < bp" using as(3) by simp
    let ?z = "\<lambda>a. if a = p then hsize h p else if a = bp then n else hsize h a"
    have h': "hsize ?h = ?z" "hptr ?h = (\<lambda>a. if a = p then bp else if a = bp then hd (ys' @ [base_at h]) else hptr h a)"
      "base_at ?h = base_at h" "ubrk ?h = ubrk h" "freep ?h = p"
      using False sz(6) by (auto simp: u(1) join_lower_def)
    have "gaps ?z (p # bp # ys')" using gp [of "hsize h p" n] u(4) lt sz(6) by (cases ys') auto
    then have "heap_ok ?h (xs @ p # bp # ys')"
      using h' u(2,5,6) n sz d(4) d(9) [of p] by (intro heap_relink [OF okp]) (auto simp: lk)
    moreover have "free_space ?h (xs @ p # bp # ys') = free_space h as \<union> {bp..<bp + hsize h bp}"
    proof -
      have "space ?z xs = space (hsize h) xs" "space ?z ys' = space (hsize h) ys'" using n(1,2,3) sz(4) by (auto intro!: space_cong)
      then show ?thesis using u(8) sz(6) unfolding free_space_def h'(1) as(1) space_append by auto
    qed
    ultimately show ?thesis using run h' u(5,7) as(1) sz(6) by (intro exI [of _ ?h] exI [of _ "xs @ p # bp # ys'"]) auto
  qed
qed

subsection \<open>Taking a block\<close>

lemma next_in_list:
  assumes ok: "heap_ok h as" and q: "q \<in> set as" "hptr h q \<noteq> base_at h"
  shows "\<exists>xs ys. as = xs @ q # hptr h q # ys"
proof -
  obtain xs zs where as: "as = xs @ q # zs" using q(1) by (auto dest: split_list)
  then have "hptr h q = hd (zs @ [base_at h])" using heap_okD(5) [OF ok] by (simp add: links_append)
  then show ?thesis using as q(2) by (cases zs) auto
qed

lemma take_block_spec:
  assumes ok: "heap_ok h as" and q: "q \<in> set as" "p = hptr h q" and n: "0 < n" "n \<le> hsize h p"
  shows "\<exists>b h' as'. take_block n q p h = (b + 1, h') \<and> heap_ok h' as' \<and> block_ok h' as' b \<and> hsize h' b = n \<and>
    free_space h as = free_space h' as' \<union> {b..<b + n} \<and> (\<forall>x. x \<notin> set as \<longrightarrow> x \<noteq> b \<longrightarrow> hsize h' x = hsize h x) \<and> base_at h' = base_at h \<and> ubrk h' = ubrk h"
proof -
  note d = heap_okD [OF ok]
  have "p \<noteq> base_at h" using n d(4) by auto
  then obtain xs ys where as: "as = xs @ q # p # ys" using next_in_list [OF ok q(1)] q(2) by blast
  have okq: "heap_ok h (xs @ q # p # ys)" using ok as by simp
  have l: "hptr h p = hd (ys @ [base_at h])" "links (hptr h) ys (base_at h)" using d(5) by (simp_all add: as links_append)
  have g: "gaps (hsize h) (q # p # ys)" using d(6) by (simp add: as gaps_append)
  have dist: "q \<notin> set xs" "p \<notin> set xs" "q \<noteq> p" "q \<notin> set ys" "p \<notin> set ys" using gaps_distinct [OF d(6)] by (auto simp: as)
  have above: "p + hsize h p < y" if "y \<in> set ys" for y using gaps_less [of "hsize h" p ys y] g that by simp
  have below: "a + hsize h a < p" if "a \<in> set (xs @ [q])" for a using gaps_around [of "hsize h" "xs @ [q]" p ys a] d(6) that by (simp add: as)
  have pb: "base_at h < p" using below [of q] base_least [OF ok q(1)] by simp
  have ub: "a + hsize h a \<le> ubrk h div 8" if "a \<in> set as" for a using d(9) that by blast
  have pos: "0 < hsize h a" if "a \<in> set (p # ys)" for a using d(7) [of a] that by (cases xs) (auto simp: as)
  show ?thesis
  proof (cases "hsize h p = n")
    case True
    let ?h = "h\<lparr>hptr := (hptr h)(q := hptr h p), freep := q\<rparr>"
    have "q + hsize h q < hd ys" if "ys \<noteq> []"
    proof -
      have "p + hsize h p < hd ys" using above that by simp
      then show ?thesis using below [of q] by simp
    qed
    then have "gaps (hsize h) (q # ys)" using g by (cases ys) auto
    moreover have "links ((hptr h)(q := hptr h p)) ys (base_at h)" using l(2) dist(4) by (subst links_cong [where g = "hptr h"]) auto
    ultimately have ok': "heap_ok ?h (xs @ q # ys)"
      using l(1) dist pos ub d(4) by (intro heap_relink [OF okq]) (auto simp: as)
    have "{p..<p + hsize h p} \<inter> free_space h (xs @ q # ys) = {}"
      unfolding free_space_def space_append using below above by (fastforce simp: space_def)
    then have "block_ok ?h (xs @ q # ys) p" using pb pos [of p] ub [of p] dist by (simp add: block_ok_def free_space_def as)
    moreover have "free_space h as = free_space ?h (xs @ q # ys) \<union> {p..<p + n}" by (auto simp: free_space_def as space_append True)
    ultimately show ?thesis using True ok' by (intro exI [of _ p] exI [of _ ?h] exI [of _ "xs @ q # ys"]) (simp add: take_block_def)
  next
    case False
    define s where "s = hsize h p - n"
    have s: "0 < s" "s + n = hsize h p" using n False by (simp_all add: s_def)
    define z where "z = (hsize h)(p := s, p + s := n)"
    let ?b = "p + s" and ?h = "h\<lparr>hsize := z, freep := q\<rparr>"
    have nb: "?b \<notin> set xs" "?b \<noteq> q" "?b \<noteq> p" "?b \<notin> set ys" using below above s n by (fastforce)+
    have z: "z p = s" "z q = hsize h q" "\<And>a. a \<in> set xs \<Longrightarrow> z a = hsize h a" "\<And>a. a \<in> set ys \<Longrightarrow> z a = hsize h a" "z ?b = n" using nb dist s by (auto simp: z_def)
    have "gaps z ys" using g gaps_tl [of "hsize h"] gaps_cong [of ys z "hsize h"] z(4) by auto
    then have gz: "gaps z (q # p # ys)" using g z(1,2) s by (cases ys) auto
    have ok': "heap_ok ?h (xs @ q # p # ys)"
    proof (rule heap_relink [OF okq])
      show "0 < hsize ?h a" if "a \<in> set (p # ys)" for a using that z(1,4) s(1) pos by auto
      show "a + hsize ?h a \<le> ubrk h div 8" if "a \<in> set (q # p # ys)" for a using that z(1,2,4) s(2) ub [of a] by (auto simp: as)
      show "q = base_at h \<Longrightarrow> hsize ?h q = 0" using d(4) z(2) by simp
    qed (use l z gz q(2) in simp_all)
    have sp: "space z xs = space (hsize h) xs" "space z ys = space (hsize h) ys" using z(3,4) by (auto intro!: space_cong)
    have "{?b..<?b + n} \<inter> free_space ?h (xs @ q # p # ys) = {}"
      unfolding free_space_def space_append using below above s sp z(1,2) by (fastforce simp: space_def)
    then have "block_ok ?h (xs @ q # p # ys) ?b" using pb n(1) ub [of p] nb s z(5) by (simp add: block_ok_def as)
    moreover have "free_space h as = free_space ?h (xs @ q # p # ys) \<union> {?b..<?b + n}"
    proof -
      have "{p..<p + hsize h p} = {p..<p + s} \<union> {?b..<?b + n}" using s by auto
      then show ?thesis using sp z(1,2) by (auto simp: free_space_def as space_append)
    qed
    moreover have "take_block n q p h = (?b + 1, ?h)" using False by (simp add: take_block_def Let_def z_def s_def)
    ultimately show ?thesis using ok' z(5) by (intro exI [of _ ?b] exI [of _ ?h] exI [of _ "xs @ q # p # ys"]) (simp add: as z_def)
  qed
qed

lemma walk_to:
  assumes "links (hptr h) bs a" "\<And>b. b \<in> set bs \<Longrightarrow> hsize h b < n \<and> b \<noteq> freep h"
  shows "malloc_loop g n prev (hd (bs @ [a])) h = malloc_loop g n (last (prev # bs)) a h"
  using assms
proof (induction bs arbitrary: prev)
  case (Cons b bs)
  have "malloc_loop g n prev b h = malloc_loop g n b (hptr h b) h" using Cons.prems(2) [of b] by (subst malloc_loop.simps) simp
  also have "\<dots> = malloc_loop g n (last (b # bs)) a h" using Cons.prems Cons.IH [of b] by simp
  finally show ?case by simp
qed simp

text \<open>The circle from the block behind \<open>freep\<close> round to \<open>freep\<close>.\<close>

lemma circle:
  assumes ok: "heap_ok h as"
  shows "\<exists>cs. set as = insert (freep h) (set cs) \<and> freep h \<notin> set cs \<and> links (hptr h) cs (freep h) \<and> hptr h (freep h) = hd (cs @ [freep h])"
proof -
  note d = heap_okD [OF ok]
  obtain us vs where as: "as = us @ freep h # vs" using d(8) by (auto dest: split_list)
  have l: "links (hptr h) us (freep h)" "hptr h (freep h) = hd (vs @ [base_at h])" "links (hptr h) vs (base_at h)" using d(5) by (subst (asm) as, simp add: links_append)+
  have b: "base_at h = hd (us @ [freep h])" using d(2) as by (cases us) auto
  have "links (hptr h) (vs @ us) (freep h)" using l b by (simp add: links_append)
  moreover have "hptr h (freep h) = hd ((vs @ us) @ [freep h])" using l(2) b by (cases vs) simp_all
  moreover have "distinct as" using gaps_distinct d(6) by blast
  then have "freep h \<notin> set (vs @ us)" by (subst (asm) as) auto
  moreover have "set as = insert (freep h) (set (vs @ us))" by (subst as) auto
  ultimately show ?thesis by blast
qed

lemma last_link: "links f bs a \<Longrightarrow> f prev = hd (bs @ [a]) \<Longrightarrow> f (last (prev # bs)) = a"
  by (induction bs arbitrary: prev) auto

lemma malloc_fits:
  assumes ok: "heap_ok h as" and fit: "a \<in> set as" "n \<le> hsize h a"
  shows "\<exists>q \<in> set as. n \<le> hsize h (hptr h q) \<and> malloc_loop g n (freep h) (hptr h (freep h)) h = Some (take_block n q (hptr h q) h)"
proof -
  obtain cs where cs: "set as = insert (freep h) (set cs)" "freep h \<notin> set cs" "links (hptr h) cs (freep h)" "hptr h (freep h) = hd (cs @ [freep h])"
    using circle [OF ok] by blast
  define bs where "bs = takeWhile (\<lambda>b. hsize h b < n) (cs @ [freep h])"
  define zs where "zs = dropWhile (\<lambda>b. hsize h b < n) (cs @ [freep h])"
  have split: "cs @ [freep h] = bs @ zs" by (simp add: bs_def zs_def)
  have "a \<in> set (cs @ [freep h])" "\<not> hsize h a < n" using fit cs(1) by auto
  then have "zs \<noteq> []" unfolding zs_def dropWhile_eq_Nil_conv by blast
  then obtain p ps where zs: "zs = p # ps" by (cases zs) auto
  have "\<not> hsize h (hd zs) < n" using \<open>zs \<noteq> []\<close> unfolding zs_def by (rule hd_dropWhile)
  then have p: "n \<le> hsize h p" using zs by simp
  have sub: "set bs \<subseteq> set cs"
  proof -
    have "butlast (cs @ [freep h]) = bs @ butlast zs" using split \<open>zs \<noteq> []\<close> by (simp add: butlast_append)
    then show ?thesis by simp
  qed
  have small: "hsize h b < n \<and> b \<noteq> freep h" if "b \<in> set bs" for b using that sub cs(2) set_takeWhileD [of b "\<lambda>b. hsize h b < n"] by (auto simp: bs_def)
  have "links (hptr h) (cs @ [freep h]) (hptr h (freep h))" using cs(3) by (simp add: links_append)
  then have l: "links (hptr h) bs p" unfolding split zs links_append by simp
  have st: "hptr h (freep h) = hd (bs @ [p])" using cs(4) split zs by (cases bs) simp_all
  let ?q = "last (freep h # bs)"
  have q: "hptr h ?q = p" using last_link [OF l st] .
  have "malloc_loop g n (freep h) (hptr h (freep h)) h = malloc_loop g n ?q p h" using walk_to [OF l small] st by simp
  also have "\<dots> = Some (take_block n ?q p h)" using p by (subst malloc_loop.simps) simp
  finally have "malloc_loop g n (freep h) (hptr h (freep h)) h = Some (take_block n ?q p h)" .
  moreover have "?q \<in> set as" using sub cs(1) by (cases bs rule: rev_cases) auto
  ultimately show ?thesis using q p by (intro bexI [of _ ?q]) simp_all
qed

lemma malloc_full:
  assumes ok: "heap_ok h as" and full: "\<And>a. a \<in> set as \<Longrightarrow> hsize h a < n"
  shows "malloc_loop g n (freep h) (hptr h (freep h)) h =
    (case morecore g n h of None \<Rightarrow> None | Some (p1, h1) \<Rightarrow> if p1 = 0 then Some (0, h1) else malloc_loop g n p1 (hptr h1 p1) h1)"
proof -
  obtain cs where cs: "set as = insert (freep h) (set cs)" "freep h \<notin> set cs" "links (hptr h) cs (freep h)" "hptr h (freep h) = hd (cs @ [freep h])"
    using circle [OF ok] by blast
  have "hsize h b < n \<and> b \<noteq> freep h" if "b \<in> set cs" for b using full cs(1,2) that by auto
  from walk_to [OF cs(3) this] have "malloc_loop g n (freep h) (hptr h (freep h)) h = malloc_loop g n (last (freep h # cs)) (freep h) h"
    unfolding cs(4) by blast
  also have "\<dots> = (case morecore g n h of None \<Rightarrow> None | Some (p1, h1) \<Rightarrow> if p1 = 0 then Some (0, h1) else malloc_loop g n p1 (hptr h1 p1) h1)"
    using full [of "freep h"] cs(1) by (subst malloc_loop.simps) simp
  finally show ?thesis .
qed

text \<open>The heap after \<open>sbrk\<close>, with the new block at the old break.\<close>

definition grown_by :: "nat \<Rightarrow> uheap \<Rightarrow> uheap" where
  "grown_by nu h = h\<lparr>ubrk := ubrk h + nu * 8, hsize := (hsize h)(ubrk h div 8 := nu)\<rparr>"

lemma break_not_listed:
  assumes ok: "heap_ok h as"
  shows "ubrk h div 8 \<notin> set as"
proof
  note d = heap_okD [OF ok]
  assume a: "ubrk h div 8 \<in> set as"
  then have "hsize h (ubrk h div 8) = 0" using d(9) [OF a] by simp
  then have "ubrk h div 8 \<notin> set (tl as)" using d(7) [of "ubrk h div 8"] by auto
  then have "ubrk h div 8 = hd as" using a d(1) by (cases as) auto
  then show False using d(2,11) by simp
qed

lemma grown_heap:
  assumes ok: "heap_ok h as" and nu: "0 < nu"
  shows "heap_ok (grown_by nu h) as" "block_ok (grown_by nu h) as (ubrk h div 8)" "free_space (grown_by nu h) as = free_space h as"
proof -
  note d = heap_okD [OF ok]
  let ?h = "grown_by nu h" and ?p = "ubrk h div 8"
  have brk: "ubrk ?h div 8 = ?p + nu" "ubrk ?h mod 8 = 0" using d(10) by (simp_all add: grown_by_def)
  have same: "hsize ?h a = hsize h a" if "a \<in> set as" for a using that break_not_listed [OF ok] by (auto simp: grown_by_def)
  have "gaps (hsize ?h) as" using d(6) gaps_cong [of as "hsize ?h" "hsize h"] same by simp
  moreover have "base_at h \<in> set as" using d(1,2) hd_in_set by metis
  then have "hsize ?h (base_at h) = 0" using same d(4) by simp
  moreover have "a + hsize ?h a \<le> ubrk ?h div 8" if "a \<in> set as" for a using same [OF that] d(9) [OF that] brk by simp
  moreover have "0 < hsize ?h a" if "a \<in> set (tl as)" for a using same [of a] d(7) [OF that] that by (simp add: list.set_sel(2) d(1))
  moreover have "base_at ?h = base_at h" "hptr ?h = hptr h" "freep ?h = freep h" by (simp_all add: grown_by_def)
  ultimately show "heap_ok ?h as" using d(1,2,3,5,8,11) brk by (simp add: heap_ok_def)
  show fs: "free_space ?h as = free_space h as" unfolding free_space_def by (rule space_cong) (rule same)
  have "x < ?p" if "x \<in> free_space h as" for x using that d(9) by (fastforce simp: free_space_def space_def)
  then have "{?p..<?p + nu} \<inter> free_space h as = {}" by fastforce
  moreover have "hsize ?h ?p = nu" by (simp add: grown_by_def)
  ultimately show "block_ok ?h as ?p" using fs break_not_listed [OF ok] nu brk d(11) by (simp add: block_ok_def \<open>base_at ?h = base_at h\<close>)
qed

lemma morecore_refused: "morecore False n h = Some (0, h)"
  by (simp add: morecore_def sbrk_def Let_def)

lemma morecore_spec:
  assumes ok: "heap_ok h as" and n: "n < 2 ^ 28"
  shows "\<exists>h' as'. morecore True n h = Some (freep h', h') \<and> freep h' \<noteq> 0 \<and> heap_ok h' as' \<and> free_space h' as' = free_space h as \<union> {ubrk h div 8..<ubrk h' div 8} \<and>
      (\<forall>x. x \<notin> set as \<longrightarrow> x < ubrk h div 8 \<longrightarrow> hsize h' x = hsize h x) \<and> base_at h' = base_at h \<and> ubrk h \<le> ubrk h' \<and>
      set as' \<subseteq> insert (ubrk h div 8) (set as) \<and> (\<exists>a \<in> set as'. n \<le> hsize h' a)"
proof -
  define nu where "nu = (if n < 4096 then 4096 else n)"
  let ?p = "ubrk h div 8"
  have nu: "0 < nu" "n \<le> nu" "nu * 8 < 2 ^ 31" using n by (auto simp: nu_def)
  have "sint (word_of_nat (nu * 8) :: uint32) = signed_take_bit 31 (int (nu * 8))" unfolding signed_of_nat by simp
  also have "\<dots> = int (nu * 8)" using nu(3) by (intro signed_take_bit_int_eq_self) simp_all
  finally have bytes: "sint (word_of_nat (nu * 8) :: uint32) = int (nu * 8)" .
  note g = grown_heap [OF ok nu(1)]
  have sz: "hsize (grown_by nu h) ?p = nu" "ubrk (grown_by nu h) = ubrk h + nu * 8" "base_at (grown_by nu h) = base_at h" by (simp_all add: grown_by_def)
  obtain h' as' where r: "ufree (?p + 1) (grown_by nu h) = Some h'" "heap_ok h' as'" "free_space h' as' = free_space h as \<union> {?p..<?p + nu}"
    "\<forall>x. x \<notin> set as \<longrightarrow> x \<noteq> ?p \<longrightarrow> hsize h' x = hsize (grown_by nu h) x" "base_at h' = base_at h" "ubrk h' = ubrk h + nu * 8" "set as' \<subseteq> insert ?p (set as)" "\<exists>a \<in> set as'. nu \<le> hsize h' a"
    using ufree_spec [OF g(1,2)] unfolding sz g(3) by blast
  have "morecore True n h = Some (freep h', h')"
    using r(1) bytes by (simp add: morecore_def sbrk_def Let_def nu_def [symmetric] nat_add_distrib nat_mult_distrib grown_by_def)
  moreover have "freep h' \<noteq> 0" using heap_okD(3,8) [OF r(2)] base_least [OF r(2)] by fastforce
  moreover have "{?p..<ubrk h' div 8} = {?p..<?p + nu}" using r(6) heap_okD(10) [OF ok] by (simp add: add.commute)
  moreover have "\<forall>x. x \<notin> set as \<longrightarrow> x < ?p \<longrightarrow> hsize h' x = hsize h x" using r(4) by (simp add: grown_by_def)
  moreover have "\<exists>a \<in> set as'. n \<le> hsize h' a" using r(8) nu(2) by (meson order_trans)
  ultimately show ?thesis using r by (intro exI [of _ h'] exI [of _ as']) simp
qed

subsection \<open>The allocator\<close>

text \<open>Before the first call \<open>freep\<close> is null and the static \<open>base\<close> is zero.\<close>

definition heap_ready :: "uheap \<Rightarrow> nat list \<Rightarrow> bool" where
  "heap_ready h as \<longleftrightarrow> heap_ok h as \<or>
     as = [base_at h] \<and> freep h = 0 \<and> 0 < base_at h \<and> hsize h (base_at h) = 0 \<and> base_at h < ubrk h div 8 \<and> ubrk h mod 8 = 0"

definition started :: "uheap \<Rightarrow> uheap" where
  "started h = (if freep h = 0 then h\<lparr>hptr := (hptr h)(base_at h := base_at h), hsize := (hsize h)(base_at h := 0), freep := base_at h\<rparr> else h)"

lemma started_ok:
  assumes "heap_ready h as"
  shows "heap_ok (started h) as" "hsize (started h) = hsize h" "base_at (started h) = base_at h" "ubrk (started h) = ubrk h"
proof -
  have "freep h \<noteq> 0" if "heap_ok h as" using heap_okD(3,8) [OF that] base_least [OF that] by fastforce
  then show "heap_ok (started h) as" "hsize (started h) = hsize h" "base_at (started h) = base_at h" "ubrk (started h) = ubrk h"
    using assms by (auto simp: heap_ready_def started_def) (simp add: heap_ok_def)
qed

lemma nunits_of_bytes:
  assumes "unat nbytes + 7 < 2 ^ 32"
  shows "nunits_of nbytes = (unat nbytes + 7) div 8 + 1" "unat nbytes \<le> 8 * (nunits_of nbytes - 1)"
proof -
  have "unat (nbytes + 7) = unat nbytes + 7" using assms by (simp add: unat_word_ariths)
  then have "unat ((nbytes + 7) div 8) = (unat nbytes + 7) div 8" by (simp add: unat_div_distrib)
  moreover have "(unat nbytes + 7) div 8 < 2 ^ 29" using assms by (simp add: less_mult_imp_div_less)
  ultimately have "unat ((nbytes + 7) div 8 + 1) = (unat nbytes + 7) div 8 + 1" by (simp add: unat_word_ariths)
  then show e: "nunits_of nbytes = (unat nbytes + 7) div 8 + 1" by (simp add: nunits_of_def add_diff_eq [symmetric])
  show "unat nbytes \<le> 8 * (nunits_of nbytes - 1)" unfolding e using div_mult_mod_eq [of "unat nbytes + 7" 8] mod_less_divisor [of 8 "unat nbytes + 7"] by linarith
qed

lemma malloc_run:
  assumes ok: "heap_ok h as" and n: "0 < n" "n < 2 ^ 28"
  shows "\<exists>r h'. malloc_loop grant n (freep h) (hptr h (freep h)) h = Some (r, h') \<and>
    (if r = 0 then \<not> grant \<and> h' = h \<and> (\<forall>a \<in> set as. hsize h a < n)
     else \<exists>as'. heap_ok h' as' \<and> block_ok h' as' (r - 1) \<and> hsize h' (r - 1) = n \<and> ubrk h \<le> ubrk h' \<and>
       free_space h' as' \<union> {r - 1..<r - 1 + n} = free_space h as \<union> {ubrk h div 8..<ubrk h' div 8} \<and>
       (\<forall>x. x \<notin> set as \<longrightarrow> x < ubrk h div 8 \<longrightarrow> x \<noteq> r - 1 \<longrightarrow> hsize h' x = hsize h x))"
proof (cases "\<exists>a \<in> set as. n \<le> hsize h a")
  case True
  then obtain q where q: "q \<in> set as" "n \<le> hsize h (hptr h q)" "malloc_loop grant n (freep h) (hptr h (freep h)) h = Some (take_block n q (hptr h q) h)"
    using malloc_fits [OF ok] by blast
  obtain b h' as' where t: "take_block n q (hptr h q) h = (b + 1, h')" "heap_ok h' as'" "block_ok h' as' b" "hsize h' b = n"
    "free_space h as = free_space h' as' \<union> {b..<b + n}" "\<forall>x. x \<notin> set as \<longrightarrow> x \<noteq> b \<longrightarrow> hsize h' x = hsize h x" "ubrk h' = ubrk h"
    using take_block_spec [OF ok q(1) refl n(1) q(2)] by blast
  then show ?thesis using q(3) by (intro exI [of _ "b + 1"] exI [of _ h']) auto
next
  case False
  then have small: "hsize h a < n" if "a \<in> set as" for a using that by (meson not_le)
  note full = malloc_full [OF ok small, of grant]
  show ?thesis
  proof (cases grant)
    case False
    then show ?thesis using full small morecore_refused by (intro exI [of _ 0] exI [of _ h]) simp
  next
    case True
    obtain h1 as1 where m: "morecore True n h = Some (freep h1, h1)" "freep h1 \<noteq> 0" "heap_ok h1 as1" "free_space h1 as1 = free_space h as \<union> {ubrk h div 8..<ubrk h1 div 8}"
      "\<forall>x. x \<notin> set as \<longrightarrow> x < ubrk h div 8 \<longrightarrow> hsize h1 x = hsize h x" "ubrk h \<le> ubrk h1" "set as1 \<subseteq> insert (ubrk h div 8) (set as)" "\<exists>a \<in> set as1. n \<le> hsize h1 a"
      using morecore_spec [OF ok n(2)] by blast
    obtain q where q: "q \<in> set as1" "n \<le> hsize h1 (hptr h1 q)" "malloc_loop grant n (freep h1) (hptr h1 (freep h1)) h1 = Some (take_block n q (hptr h1 q) h1)"
      using malloc_fits [OF m(3)] m(8) by blast
    obtain b h' as' where t: "take_block n q (hptr h1 q) h1 = (b + 1, h')" "heap_ok h' as'" "block_ok h' as' b" "hsize h' b = n"
      "free_space h1 as1 = free_space h' as' \<union> {b..<b + n}" "\<forall>x. x \<notin> set as1 \<longrightarrow> x \<noteq> b \<longrightarrow> hsize h' x = hsize h1 x" "ubrk h' = ubrk h1"
      using take_block_spec [OF m(3) q(1) refl n(1) q(2)] by blast
    have "malloc_loop grant n (freep h) (hptr h (freep h)) h = Some (b + 1, h')" using full m(1,2) q(3) t(1) True by simp
    moreover have "hsize h' x = hsize h x" if "x \<notin> set as" "x < ubrk h div 8" "x \<noteq> b" for x
    proof -
      have "x \<notin> set as1" using m(7) that by auto
      then show ?thesis using t(6) m(5) that by simp
    qed
    moreover have "free_space h' as' \<union> {b..<b + n} = free_space h as \<union> {ubrk h div 8..<ubrk h' div 8}" using t(5,7) m(4) by simp
    ultimately show ?thesis using t(2-4,7) m(6) by (intro exI [of _ "b + 1"] exI [of _ h']) auto
  qed
qed

text \<open>C10: \<open>malloc\<close> of the user library ends and is correct, for requests below 2 GB. It returns null only when no free block is large
  enough and the kernel refuses memory, and then changes nothing. Otherwise the block it returns has room for the
  request, consists of units that were free or come from the kernel, is apart from everything that is still free
  (so that it can be freed), and no header of a block in use changes; the free list is again a circular
  list in the order of the addresses with no two blocks touching.\<close>

theorem umalloc_correct:
  assumes "heap_ready h as" "unat nbytes < 2 ^ 31 - 16"
  shows "\<exists>r h'. umalloc grant nbytes h = Some (r, h') \<and>
    (if r = 0 then \<not> grant \<and> (\<forall>a \<in> set as. hsize h a < nunits_of nbytes) \<and> hsize h' = hsize h
     else \<exists>as'. heap_ok h' as' \<and> block_ok h' as' (r - 1) \<and> hsize h' (r - 1) = nunits_of nbytes \<and> unat nbytes \<le> 8 * (nunits_of nbytes - 1) \<and>
       free_space h' as' \<union> {r - 1..<r - 1 + nunits_of nbytes} = free_space h as \<union> {ubrk h div 8..<ubrk h' div 8} \<and>
       (\<forall>x. x \<notin> set as \<longrightarrow> x < ubrk h div 8 \<longrightarrow> x \<noteq> r - 1 \<longrightarrow> hsize h' x = hsize h x))"
proof -
  note s = started_ok [OF assms(1)]
  have n: "nunits_of nbytes = (unat nbytes + 7) div 8 + 1" "unat nbytes \<le> 8 * (nunits_of nbytes - 1)" using nunits_of_bytes [of nbytes] assms(2) by simp_all
  have b: "0 < nunits_of nbytes" "nunits_of nbytes < 2 ^ 28" using n(1) assms(2) by auto
  have "umalloc grant nbytes h = malloc_loop grant (nunits_of nbytes) (freep (started h)) (hptr (started h) (freep (started h))) (started h)"
    by (simp add: umalloc_def started_def Let_def)
  then obtain r h' where r: "umalloc grant nbytes h = Some (r, h')"
    "if r = 0 then \<not> grant \<and> h' = started h \<and> (\<forall>a \<in> set as. hsize h a < nunits_of nbytes)
     else \<exists>as'. heap_ok h' as' \<and> block_ok h' as' (r - 1) \<and> hsize h' (r - 1) = nunits_of nbytes \<and> ubrk h \<le> ubrk h' \<and>
       free_space h' as' \<union> {r - 1..<r - 1 + nunits_of nbytes} = free_space (started h) as \<union> {ubrk h div 8..<ubrk h' div 8} \<and>
       (\<forall>x. x \<notin> set as \<longrightarrow> x < ubrk h div 8 \<longrightarrow> x \<noteq> r - 1 \<longrightarrow> hsize h' x = hsize h x)"
    using malloc_run [OF s(1) b, of grant] unfolding s(2,4) by metis
  have "free_space (started h) as = free_space h as" by (simp add: free_space_def s(2))
  then show ?thesis using r n(2) s(2) by (cases "r = 0") auto
qed

text \<open>C15: \<open>free\<close> of a block in use ends: the search goes round the circular list to the place of the block. Exactly the units of the block become
  free, it is joined with the neighbours it touches, and the headers of all other blocks in use stay as they are.\<close>

theorem ufree_correct:
  assumes "heap_ok h as" "block_ok h as bp"
  shows "\<exists>h' as'. ufree (bp + 1) h = Some h' \<and> heap_ok h' as' \<and> free_space h' as' = free_space h as \<union> {bp..<bp + hsize h bp} \<and>
    (\<forall>x. x \<notin> set as \<longrightarrow> x \<noteq> bp \<longrightarrow> hsize h' x = hsize h x) \<and> ubrk h' = ubrk h"
  using ufree_spec [OF assms] by blast

definition new_heap :: uheap where
  "new_heap = \<lparr>hptr = (\<lambda>_. 0), hsize = (\<lambda>_. 0), freep = 0, base_at = 100, ubrk = 8192\<rparr>"

lemma new_heap_ready: "heap_ready new_heap [100]"
  by (simp add: heap_ready_def new_heap_def)

text \<open>Witness: the first call of \<open>malloc (20)\<close> with a kernel that grants memory takes four units.\<close>

theorem umalloc_correct_witness:
  "\<exists>r h'. umalloc True 20 new_heap = Some (r, h') \<and> r \<noteq> 0 \<and> hsize h' (r - 1) = 4"
proof -
  have "nunits_of 20 = 4" by (simp add: nunits_of_def)
  then show ?thesis using umalloc_correct [OF new_heap_ready, of 20 True] by (auto split: if_splits)
qed

text \<open>Witness: two blocks of four units, of which the lower one is free; the upper one is freed and joins it.\<close>

definition two_heap :: uheap where
  "two_heap = \<lparr>hptr = (\<lambda>a. if a = 100 then 1024 else 100), hsize = (\<lambda>a. if a = 1024 \<or> a = 1028 then 4 else 0), freep = 100, base_at = 100, ubrk = 8256\<rparr>"

theorem ufree_correct_witness:
  "heap_ok two_heap [100, 1024] \<and> (\<exists>h' as'. ufree 1029 two_heap = Some h' \<and> heap_ok h' as' \<and> free_space h' as' = {1024..<1032})"
proof -
  have ok: "heap_ok two_heap [100, 1024]" by (simp add: heap_ok_def two_heap_def)
  have b: "block_ok two_heap [100, 1024] 1028" "hsize two_heap 1028 = 4" by (auto simp: block_ok_def two_heap_def free_space_def space_def)
  have s: "free_space two_heap [100, 1024] = {1024..<1028}" by (auto simp: two_heap_def free_space_def space_def)
  have "{1024..<1028} \<union> {1028..<1032} = {1024..<1032 :: nat}" by auto
  then show ?thesis using ufree_correct [OF ok b(1)] ok b(2) s by auto
qed

text \<open>The sum in the number of units wraps around: a request of almost 4 GB gets a block that is only a header.\<close>

lemma nunits_wrap: "nunits_of 4294967295 = 1"
  by (simp add: nunits_of_def)

end
