(* ===== verification/XV6_Bio.thy ===== *)
theory XV6_Bio
  imports Prelude
begin

text \<open>
  The buffer cache of xv6 (\<open>src/project3/xv6-modified/bio.c\<close>, \<open>buf.h\<close>) over the memory disk of
  \<open>memide.c\<close>. A buffer pointer is an index into \<open>bcache.buf\<close>; the doubly linked list through
  \<open>prev\<close> and \<open>next\<close> is the sequence of indices that starts at \<open>head.next\<close>. The sleep lock of a buffer
  is the pid of its holder. An operation that has to sleep for a lock returns no buffer.
\<close>

subsection \<open>Buffers, the disk and the operations\<close>

definition NBUF :: nat where "NBUF = 30"
definition BSIZE :: nat where "BSIZE = 512"
definition FSSIZE :: nat where "FSSIZE = 1000"

type_synonym block = "byte list"

record buf =
  b_valid :: bool
  b_dirty :: bool
  b_dev :: nat
  b_blockno :: nat
  b_lock :: "int option"
  b_refcnt :: nat
  b_data :: block

record bcache =
  bc_buf :: "buf list"
  bc_mru :: "nat list"
  bc_disk :: "block list"

definition zero_buf :: buf where
  "zero_buf = \<lparr>b_valid = False, b_dirty = False, b_dev = 0, b_blockno = 0, b_lock = None, b_refcnt = 0,
     b_data = replicate BSIZE 0\<rparr>"

definition upd_buf :: "nat \<Rightarrow> (buf \<Rightarrow> buf) \<Rightarrow> bcache \<Rightarrow> bcache" where
  "upd_buf i f s = s\<lparr>bc_buf := (bc_buf s)[i := f (bc_buf s ! i)]\<rparr>"

text \<open>The loop of \<open>binit\<close> inserts every buffer at the head of the list.\<close>

definition binit :: "block list \<Rightarrow> bcache" where
  "binit disk = \<lparr>bc_buf = replicate NBUF zero_buf, bc_mru = fold (#) [0..<NBUF] [], bc_disk = disk\<rparr>"

definition holdingsleep :: "int \<Rightarrow> buf \<Rightarrow> bool" where
  "holdingsleep me b \<longleftrightarrow> b_lock b = Some me"

text \<open>\<open>iderw\<close> of \<open>memide.c\<close>: synchronise the buffer with the disk.\<close>

definition iderw :: "int \<Rightarrow> nat \<Rightarrow> bcache \<Rightarrow> fault + bcache" where
  "iderw me i s =
     (let b = bc_buf s ! i in
      if \<not> holdingsleep me b then Inl (Panic ''iderw: buf not locked'')
      else if b_valid b \<and> \<not> b_dirty b then Inl (Panic ''iderw: nothing to do'')
      else if b_dev b \<noteq> 1 then Inl (Panic ''iderw: request not for disk 1'')
      else if \<not> b_blockno b < length (bc_disk s) then Inl (Panic ''iderw: block out of range'')
      else if b_dirty b
      then Inr ((upd_buf i (\<lambda>b. b\<lparr>b_dirty := False, b_valid := True\<rparr>) s)
                 \<lparr>bc_disk := (bc_disk s)[b_blockno b := b_data b]\<rparr>)
      else Inr (upd_buf i (\<lambda>b. b\<lparr>b_data := bc_disk s ! b_blockno b, b_valid := True\<rparr>) s))"

definition acquiresleep_buf :: "int \<Rightarrow> nat \<Rightarrow> bcache \<Rightarrow> nat option \<times> bcache" where
  "acquiresleep_buf me i s =
     (if b_lock (bc_buf s ! i) = None then (Some i, upd_buf i (\<lambda>b. b\<lparr>b_lock := Some me\<rparr>) s) else (None, s))"

definition bget :: "int \<Rightarrow> nat \<Rightarrow> nat \<Rightarrow> bcache \<Rightarrow> fault + nat option \<times> bcache" where
  "bget me dev blockno s =
     (case find (\<lambda>i. b_dev (bc_buf s ! i) = dev \<and> b_blockno (bc_buf s ! i) = blockno) (bc_mru s) of
        Some i \<Rightarrow> Inr (acquiresleep_buf me i (upd_buf i (\<lambda>b. b\<lparr>b_refcnt := b_refcnt b + 1\<rparr>) s))
      | None \<Rightarrow>
          (case find (\<lambda>i. b_refcnt (bc_buf s ! i) = 0 \<and> \<not> b_dirty (bc_buf s ! i)) (rev (bc_mru s)) of
             Some i \<Rightarrow>
               Inr (acquiresleep_buf me i (upd_buf i (\<lambda>b. b\<lparr>b_dev := dev, b_blockno := blockno,
                      b_valid := False, b_dirty := False, b_refcnt := 1\<rparr>) s))
           | None \<Rightarrow> Inl (Panic ''bget: no buffers'')))"

definition bread :: "int \<Rightarrow> nat \<Rightarrow> nat \<Rightarrow> bcache \<Rightarrow> fault + nat option \<times> bcache" where
  "bread me dev blockno s =
     ebind (bget me dev blockno s) (\<lambda>(r, s1).
       case r of
         None \<Rightarrow> Inr (None, s1)
       | Some i \<Rightarrow>
           if \<not> b_valid (bc_buf s1 ! i) then ebind (iderw me i s1) (\<lambda>s2. Inr (Some i, s2))
           else Inr (Some i, s1))"

definition bwrite :: "int \<Rightarrow> nat \<Rightarrow> bcache \<Rightarrow> fault + bcache" where
  "bwrite me i s =
     (if \<not> holdingsleep me (bc_buf s ! i) then Inl (Panic ''bwrite'')
      else iderw me i (upd_buf i (\<lambda>b. b\<lparr>b_dirty := True\<rparr>) s))"

definition brelse :: "int \<Rightarrow> nat \<Rightarrow> bcache \<Rightarrow> fault + bcache" where
  "brelse me i s =
     (if \<not> holdingsleep me (bc_buf s ! i) then Inl (Panic ''brelse'')
      else
        (let s1 = upd_buf i (\<lambda>b. b\<lparr>b_lock := None, b_refcnt := b_refcnt b - 1\<rparr>) s in
         Inr (if b_refcnt (bc_buf s1 ! i) = 0
              then s1\<lparr>bc_mru := i # filter (\<lambda>j. j \<noteq> i) (bc_mru s1)\<rparr> else s1)))"

text \<open>A change of the data of a locked buffer by its holder, and the mark that \<open>log_write\<close> sets to keep
  the buffer in the cache.\<close>

definition set_data :: "nat \<Rightarrow> block \<Rightarrow> bcache \<Rightarrow> bcache" where
  "set_data i d s = upd_buf i (\<lambda>b. b\<lparr>b_data := d\<rparr>) s"

definition pin :: "nat \<Rightarrow> bcache \<Rightarrow> bcache" where
  "pin i s = upd_buf i (\<lambda>b. b\<lparr>b_dirty := True\<rparr>) s"

subsection \<open>The invariant\<close>

text \<open>Every buffer is on the list once, no block is cached twice, a lock holder counts as a reference,
  and a clean buffer that nobody holds agrees with the disk.\<close>

definition no_dup :: "buf list \<Rightarrow> bool" where
  "no_dup bs \<longleftrightarrow> (\<forall>i < 30. \<forall>j < 30. b_dev (bs ! i) = 1 \<longrightarrow> b_dev (bs ! j) = 1 \<longrightarrow>
     b_blockno (bs ! i) = b_blockno (bs ! j) \<longrightarrow> i = j)"

definition bio_ok :: "bcache \<Rightarrow> bool" where
  "bio_ok s \<longleftrightarrow> length (bc_buf s) = 30 \<and> distinct (bc_mru s) \<and> set (bc_mru s) = {..<30} \<and>
     no_dup (bc_buf s) \<and>
     (\<forall>i < 30. b_lock (bc_buf s ! i) \<noteq> None \<longrightarrow> 0 < b_refcnt (bc_buf s ! i)) \<and>
     (\<forall>i < 30. b_dev (bc_buf s ! i) \<noteq> 1 \<longrightarrow> \<not> b_valid (bc_buf s ! i)) \<and>
     (\<forall>i < 30. b_dirty (bc_buf s ! i) \<longrightarrow> b_valid (bc_buf s ! i)) \<and>
     (\<forall>i < 30. b_valid (bc_buf s ! i) \<longrightarrow> \<not> b_dirty (bc_buf s ! i) \<longrightarrow> b_lock (bc_buf s ! i) = None \<longrightarrow>
        b_data (bc_buf s ! i) = bc_disk s ! b_blockno (bc_buf s ! i))"

text \<open>What a reader of block \<open>n\<close> sees: the cached data if the block is cached, the disk otherwise.\<close>

definition view :: "bcache \<Rightarrow> nat \<Rightarrow> block" where
  "view s n =
     (case find (\<lambda>i. b_dev (bc_buf s ! i) = 1 \<and> b_blockno (bc_buf s ! i) = n \<and> b_valid (bc_buf s ! i)) (bc_mru s) of
        Some i \<Rightarrow> b_data (bc_buf s ! i) | None \<Rightarrow> bc_disk s ! n)"

lemma upd_buf_simps [simp]:
  "bc_buf (upd_buf i f s) = (bc_buf s)[i := f (bc_buf s ! i)]"
  "bc_mru (upd_buf i f s) = bc_mru s"
  "bc_disk (upd_buf i f s) = bc_disk s"
  by (simp_all add: upd_buf_def)

lemma bio_okD:
  assumes "bio_ok s"
  shows "length (bc_buf s) = 30" "distinct (bc_mru s)" "set (bc_mru s) = {..<30}"
    "no_dup (bc_buf s)"
    "i < 30 \<Longrightarrow> b_lock (bc_buf s ! i) \<noteq> None \<Longrightarrow> 0 < b_refcnt (bc_buf s ! i)"
    "i < 30 \<Longrightarrow> b_dev (bc_buf s ! i) \<noteq> 1 \<Longrightarrow> \<not> b_valid (bc_buf s ! i)"
    "i < 30 \<Longrightarrow> b_dirty (bc_buf s ! i) \<Longrightarrow> b_valid (bc_buf s ! i)"
    "i < 30 \<Longrightarrow> b_valid (bc_buf s ! i) \<Longrightarrow> \<not> b_dirty (bc_buf s ! i) \<Longrightarrow> b_lock (bc_buf s ! i) = None \<Longrightarrow>
      b_data (bc_buf s ! i) = bc_disk s ! b_blockno (bc_buf s ! i)"
  using assms unfolding bio_ok_def by blast+

lemma no_dupD:
  "no_dup bs \<Longrightarrow> i < 30 \<Longrightarrow> j < 30 \<Longrightarrow> b_dev (bs ! i) = 1 \<Longrightarrow> b_dev (bs ! j) = 1 \<Longrightarrow>
    b_blockno (bs ! i) = b_blockno (bs ! j) \<Longrightarrow> i = j"
  unfolding no_dup_def by metis

lemma find_in: "find P xs = Some x \<Longrightarrow> x \<in> set xs \<and> P x"
  by (induction xs) (auto split: if_splits)

lemma find_unique:
  assumes "x \<in> set xs" and "P x" and "\<And>y. y \<in> set xs \<Longrightarrow> P y \<Longrightarrow> y = x"
  shows "find P xs = Some x"
proof (cases "find P xs")
  case None
  with assms(1,2) show ?thesis unfolding find_None_iff by blast
next
  case (Some y)
  with find_in [OF Some] assms(3) [of y] show ?thesis by simp
qed

text \<open>The view of a block through the buffer that holds it.\<close>

lemma view_cached:
  assumes ok: "bio_ok s" and i: "i < 30" "b_dev (bc_buf s ! i) = 1" "b_blockno (bc_buf s ! i) = n" "b_valid (bc_buf s ! i)"
  shows "view s n = b_data (bc_buf s ! i)"
proof -
  have "find (\<lambda>i. b_dev (bc_buf s ! i) = 1 \<and> b_blockno (bc_buf s ! i) = n \<and> b_valid (bc_buf s ! i)) (bc_mru s) = Some i"
  proof (rule find_unique)
    fix j assume "j \<in> set (bc_mru s)"
      "b_dev (bc_buf s ! j) = 1 \<and> b_blockno (bc_buf s ! j) = n \<and> b_valid (bc_buf s ! j)"
    then show "j = i" using no_dupD [OF bio_okD(4) [OF ok], of j i] i bio_okD(3) [OF ok] by simp
  qed (use i bio_okD(3) [OF ok] in auto)
  then show ?thesis by (simp add: view_def)
qed

lemma view_uncached:
  assumes ok: "bio_ok s" and "\<And>i. i < 30 \<Longrightarrow> b_dev (bc_buf s ! i) = 1 \<Longrightarrow> b_blockno (bc_buf s ! i) = n \<Longrightarrow> \<not> b_valid (bc_buf s ! i)"
  shows "view s n = bc_disk s ! n"
proof -
  have "find (\<lambda>i. b_dev (bc_buf s ! i) = 1 \<and> b_blockno (bc_buf s ! i) = n \<and> b_valid (bc_buf s ! i)) (bc_mru s) = None"
    using assms(2) bio_okD(3) [OF ok] unfolding find_None_iff by auto
  then show ?thesis by (simp add: view_def)
qed

text \<open>Two caches with the same blocks in the same buffers and the same disk give the same view.\<close>

lemma view_cases:
  assumes "bio_ok s"
  obtains (cached) i where "i < 30" "b_dev (bc_buf s ! i) = 1" "b_blockno (bc_buf s ! i) = n" "b_valid (bc_buf s ! i)"
      "view s n = b_data (bc_buf s ! i)"
    | (uncached) "\<forall>i < 30. b_dev (bc_buf s ! i) = 1 \<longrightarrow> b_blockno (bc_buf s ! i) = n \<longrightarrow> \<not> b_valid (bc_buf s ! i)"
      "view s n = bc_disk s ! n"
proof (cases "\<exists>i < 30. b_dev (bc_buf s ! i) = 1 \<and> b_blockno (bc_buf s ! i) = n \<and> b_valid (bc_buf s ! i)")
  case True
  then obtain i where "i < 30" "b_dev (bc_buf s ! i) = 1" "b_blockno (bc_buf s ! i) = n" "b_valid (bc_buf s ! i)" by blast
  with view_cached [OF assms this] show thesis by (intro cached)
next
  case False
  with view_uncached [OF assms, of n] show thesis by (intro uncached) auto
qed

lemma bio_ok_upd:
  assumes ok: "bio_ok s" and i: "i < 30"
    and dup: "b_dev b' = 1 \<Longrightarrow> (\<And>j. j < 30 \<Longrightarrow> j \<noteq> i \<Longrightarrow> b_dev (bc_buf s ! j) = 1 \<Longrightarrow> b_blockno (bc_buf s ! j) \<noteq> b_blockno b')"
    and new: "b_lock b' \<noteq> None \<Longrightarrow> 0 < b_refcnt b'" "b_dev b' \<noteq> 1 \<Longrightarrow> \<not> b_valid b'" "b_dirty b' \<Longrightarrow> b_valid b'"
      "b_valid b' \<Longrightarrow> \<not> b_dirty b' \<Longrightarrow> b_lock b' = None \<Longrightarrow> b_data b' = bc_disk s ! b_blockno b'"
  shows "bio_ok (upd_buf i (\<lambda>_. b') s)"
proof -
  note D = bio_okD [OF ok]
  have at: "(bc_buf s)[i := b'] ! j = (if j = i then b' else bc_buf s ! j)" if "j < 30" for j
    using that D(1) i by simp
  have "no_dup ((bc_buf s)[i := b'])" unfolding no_dup_def
  proof (intro allI impI)
    fix j l :: nat
    assume a: "j < 30" "l < 30" "b_dev ((bc_buf s)[i := b'] ! j) = 1" "b_dev ((bc_buf s)[i := b'] ! l) = 1"
      "b_blockno ((bc_buf s)[i := b'] ! j) = b_blockno ((bc_buf s)[i := b'] ! l)"
    then show "j = l"
      using dup [of j] dup [of l] no_dupD [OF D(4), of j l] at [OF a(1)] at [OF a(2)]
      by (cases "j = i"; cases "l = i") auto
  qed
  moreover have "(b_lock ((bc_buf s)[i := b'] ! j) \<noteq> None \<longrightarrow> 0 < b_refcnt ((bc_buf s)[i := b'] ! j)) \<and>
      (b_dev ((bc_buf s)[i := b'] ! j) \<noteq> 1 \<longrightarrow> \<not> b_valid ((bc_buf s)[i := b'] ! j)) \<and>
      (b_dirty ((bc_buf s)[i := b'] ! j) \<longrightarrow> b_valid ((bc_buf s)[i := b'] ! j)) \<and>
      (b_valid ((bc_buf s)[i := b'] ! j) \<longrightarrow> \<not> b_dirty ((bc_buf s)[i := b'] ! j) \<longrightarrow>
        b_lock ((bc_buf s)[i := b'] ! j) = None \<longrightarrow>
        b_data ((bc_buf s)[i := b'] ! j) = bc_disk s ! b_blockno ((bc_buf s)[i := b'] ! j))" if "j < 30" for j
    unfolding at [OF that] using D(5-8) [OF that] new by (cases "j = i") simp_all
  ultimately show ?thesis unfolding bio_ok_def upd_buf_simps using D(1-3) by (simp only: length_list_update) blast
qed

lemma view_upd:
  assumes ok: "bio_ok s" and ok': "bio_ok (upd_buf i (\<lambda>_. b') s)" and i: "i < 30"
    and new: "b_dev b' = 1 \<Longrightarrow> b_valid b' \<Longrightarrow> b_data b' = view s (b_blockno b')"
    and old: "b_dev (bc_buf s ! i) = 1 \<Longrightarrow> b_valid (bc_buf s ! i) \<Longrightarrow>
      b_data (bc_buf s ! i) = bc_disk s ! b_blockno (bc_buf s ! i) \<or>
      b_dev b' = 1 \<and> b_valid b' \<and> b_blockno b' = b_blockno (bc_buf s ! i)"
  shows "view (upd_buf i (\<lambda>_. b') s) m = view s m"
proof -
  note D = bio_okD [OF ok]
  let ?s = "upd_buf i (\<lambda>_. b') s"
  have at: "bc_buf ?s ! j = (if j = i then b' else bc_buf s ! j)" if "j < 30" for j
    using that D(1) i by simp
  show ?thesis
  proof (cases rule: view_cases [OF ok', of m])
    case (1 j)
    then show ?thesis using at [OF 1(1)] new view_cached [OF ok, of j m] by (cases "j = i") auto
  next
    case 2
    have no: "\<not> (b_dev b' = 1 \<and> b_valid b' \<and> b_blockno b' = m)" using 2(1) at i by auto
    show ?thesis
    proof (cases rule: view_cases [OF ok, of m])
      case c: (1 j)
      then have "j = i" using 2(1) at [OF c(1)] by (cases "j = i") auto
      with c old no have "b_data (bc_buf s ! i) = bc_disk s ! m" by auto
      with c \<open>j = i\<close> 2(2) show ?thesis by simp
    next
      case c: 2
      with 2(2) show ?thesis by simp
    qed
  qed
qed

text \<open>The two ways in which \<open>bget\<close> returns a buffer.\<close>

lemma bget_cases:
  assumes ok: "bio_ok s" and run: "bget me 1 n s = Inr (Some i, s1)"
  obtains (hit) "i < 30" "b_dev (bc_buf s ! i) = 1" "b_blockno (bc_buf s ! i) = n" "b_lock (bc_buf s ! i) = None"
      "s1 = upd_buf i (\<lambda>_. (bc_buf s ! i)\<lparr>b_refcnt := b_refcnt (bc_buf s ! i) + 1, b_lock := Some me\<rparr>) s"
    | (recycled) "i < 30" "\<forall>j < 30. b_dev (bc_buf s ! j) = 1 \<longrightarrow> b_blockno (bc_buf s ! j) \<noteq> n"
      "b_refcnt (bc_buf s ! i) = 0" "\<not> b_dirty (bc_buf s ! i)" "b_lock (bc_buf s ! i) = None"
      "s1 = upd_buf i (\<lambda>_. (bc_buf s ! i)\<lparr>b_dev := 1, b_blockno := n, b_valid := False, b_dirty := False,
         b_refcnt := 1, b_lock := Some me\<rparr>) s"
proof -
  note D = bio_okD [OF ok]
  show thesis
  proof (cases "find (\<lambda>i. b_dev (bc_buf s ! i) = 1 \<and> b_blockno (bc_buf s ! i) = n) (bc_mru s)")
    case (Some j)
    from find_in [OF Some] D(3) have j: "j < 30" "b_dev (bc_buf s ! j) = 1" "b_blockno (bc_buf s ! j) = n" by auto
    have "i = j" "b_lock (bc_buf s ! j) = None"
      using run Some j D(1) by (auto simp: bget_def acquiresleep_buf_def split: if_splits)
    then show thesis using run Some j D(1) by (intro hit) (auto simp: bget_def acquiresleep_buf_def upd_buf_def)
  next
    case None
    then have no: "\<forall>j < 30. b_dev (bc_buf s ! j) = 1 \<longrightarrow> b_blockno (bc_buf s ! j) \<noteq> n"
      using D(3) unfolding find_None_iff by auto
    show thesis
    proof (cases "find (\<lambda>i. b_refcnt (bc_buf s ! i) = 0 \<and> \<not> b_dirty (bc_buf s ! i)) (rev (bc_mru s))")
      case fNone: None
      with None run show thesis by (simp add: bget_def)
    next
      case (Some j)
      from find_in [OF Some] D(3) have j: "j < 30" "b_refcnt (bc_buf s ! j) = 0" "\<not> b_dirty (bc_buf s ! j)" by auto
      have lk: "b_lock (bc_buf s ! j) = None" using D(5) [OF j(1)] j(2) by (cases "b_lock (bc_buf s ! j)") simp_all
      have "i = j" using run None Some j lk D(1) by (auto simp: bget_def acquiresleep_buf_def split: if_splits)
      then show thesis using run None Some j lk no D(1) by (intro recycled) (auto simp: bget_def acquiresleep_buf_def upd_buf_def)
    qed
  qed
qed

lemma no_dup_other:
  "no_dup bs \<Longrightarrow> i < 30 \<Longrightarrow> b_dev (bs ! i) = 1 \<Longrightarrow> j < 30 \<Longrightarrow> j \<noteq> i \<Longrightarrow> b_dev (bs ! j) = 1 \<Longrightarrow>
    b_blockno (bs ! j) \<noteq> b_blockno (bs ! i)"
  using no_dupD by blast

lemma bget_spec:
  assumes ok: "bio_ok s" and run: "bget me 1 n s = Inr (Some i, s1)"
  shows "bio_ok s1 \<and> i < 30 \<and> b_dev (bc_buf s1 ! i) = 1 \<and> b_blockno (bc_buf s1 ! i) = n \<and> b_lock (bc_buf s1 ! i) = Some me \<and>
    bc_disk s1 = bc_disk s \<and> (\<forall>m. view s1 m = view s m) \<and> (\<forall>j < 30. j \<noteq> i \<longrightarrow> bc_buf s1 ! j = bc_buf s ! j) \<and>
    (b_dirty (bc_buf s ! i) \<longrightarrow> b_dev (bc_buf s ! i) = 1 \<and> b_blockno (bc_buf s ! i) = n)"
proof (cases rule: bget_cases [OF ok run])
  case 1
  note D = bio_okD [OF ok]
  let ?b = "(bc_buf s ! i)\<lparr>b_refcnt := b_refcnt (bc_buf s ! i) + 1, b_lock := Some me\<rparr>"
  have ok1: "bio_ok (upd_buf i (\<lambda>_. ?b) s)"
    by (rule bio_ok_upd [OF ok 1(1)]) (use 1 D(6,7) [OF 1(1)] no_dup_other [OF D(4) 1(1,2)] in simp_all)
  have "view (upd_buf i (\<lambda>_. ?b) s) m = view s m" for m
    by (rule view_upd [OF ok ok1 1(1)]) (use 1 view_cached [OF ok 1(1,2,3)] in simp_all)
  with ok1 1 D(1) show ?thesis by simp
next
  case 2
  note D = bio_okD [OF ok]
  let ?b = "(bc_buf s ! i)\<lparr>b_dev := 1, b_blockno := n, b_valid := False, b_dirty := False, b_refcnt := 1, b_lock := Some me\<rparr>"
  have ok1: "bio_ok (upd_buf i (\<lambda>_. ?b) s)"
    by (rule bio_ok_upd [OF ok 2(1)]) (use 2(2) in simp_all)
  have "view (upd_buf i (\<lambda>_. ?b) s) m = view s m" for m
    by (rule view_upd [OF ok ok1 2(1)]) (use 2(3-5) D(8) [OF 2(1)] in simp_all)
  with ok1 2 D(1) show ?thesis by simp
qed

lemma bread_spec:
  assumes ok: "bio_ok s" and run: "bread me 1 n s = Inr (Some i, s')"
  shows "bio_ok s' \<and> i < 30 \<and> b_dev (bc_buf s' ! i) = 1 \<and> b_blockno (bc_buf s' ! i) = n \<and> b_valid (bc_buf s' ! i) \<and>
    b_lock (bc_buf s' ! i) = Some me \<and> b_data (bc_buf s' ! i) = view s n \<and> bc_disk s' = bc_disk s \<and>
    (\<forall>m. view s' m = view s m) \<and> (\<forall>j < 30. j \<noteq> i \<longrightarrow> bc_buf s' ! j = bc_buf s ! j) \<and>
    (b_dirty (bc_buf s ! i) \<longrightarrow> b_dev (bc_buf s ! i) = 1 \<and> b_blockno (bc_buf s ! i) = n)"
proof -
  from run obtain s1 where g: "bget me 1 n s = Inr (Some i, s1)"
    by (auto simp: bread_def split: option.splits if_splits)
  note G = bget_spec [OF ok g]
  note D = bio_okD [OF conjunct1 [OF G]]
  show ?thesis
  proof (cases "b_valid (bc_buf s1 ! i)")
    case True
    then have "s' = s1" using run g by (simp add: bread_def)
    with G True view_cached [of s1 i n] show ?thesis by auto
  next
    case False
    then have nd: "\<not> b_dirty (bc_buf s1 ! i)" using D(7) G by blast
    from run g False G nd have "s' = upd_buf i (\<lambda>b. b\<lparr>b_data := bc_disk s1 ! n, b_valid := True\<rparr>) s1"
      by (auto simp: bread_def iderw_def holdingsleep_def Let_def split: if_splits)
    then have s': "s' = upd_buf i (\<lambda>_. (bc_buf s1 ! i)\<lparr>b_data := bc_disk s1 ! n, b_valid := True\<rparr>) s1"
      by (simp add: upd_buf_def)
    let ?b = "(bc_buf s1 ! i)\<lparr>b_data := bc_disk s1 ! n, b_valid := True\<rparr>"
    have i: "i < 30" "b_dev (bc_buf s1 ! i) = 1" "b_blockno (bc_buf s1 ! i) = n" and ok1: "bio_ok s1" using G by auto
    have other: "j < 30 \<Longrightarrow> j \<noteq> i \<Longrightarrow> b_dev (bc_buf s1 ! j) = 1 \<Longrightarrow> b_blockno (bc_buf s1 ! j) \<noteq> n" for j
      using no_dup_other [OF D(4) i(1,2), of j] i(3) by simp
    have vw: "view s1 n = bc_disk s1 ! n"
    proof (rule view_uncached [OF ok1])
      fix j assume "j < 30" "b_dev (bc_buf s1 ! j) = 1" "b_blockno (bc_buf s1 ! j) = n"
      then show "\<not> b_valid (bc_buf s1 ! j)" using other [of j] False by (cases "j = i") simp_all
    qed
    have ok': "bio_ok (upd_buf i (\<lambda>_. ?b) s1)"
      by (rule bio_ok_upd [OF ok1 i(1)]) (use i other D(5) [OF i(1)] G in simp_all)
    have "view (upd_buf i (\<lambda>_. ?b) s1) m = view s1 m" for m
      by (rule view_upd [OF ok1 ok' i(1)]) (use i False vw in simp_all)
    with G ok' s' vw D(1) nd show ?thesis by simp
  qed
qed

lemma bwrite_spec:
  assumes ok: "bio_ok s" and i: "i < 30" "b_dev (bc_buf s ! i) = 1" "b_valid (bc_buf s ! i)" "b_lock (bc_buf s ! i) = Some me"
    and n: "b_blockno (bc_buf s ! i) < length (bc_disk s)"
  shows "\<exists>s'. bwrite me i s = Inr s' \<and> bio_ok s' \<and> bc_disk s' = (bc_disk s)[b_blockno (bc_buf s ! i) := b_data (bc_buf s ! i)] \<and>
    (\<forall>m. view s' m = view s m) \<and> bc_buf s' ! i = (bc_buf s ! i)\<lparr>b_dirty := False\<rparr> \<and>
    (\<forall>j < 30. j \<noteq> i \<longrightarrow> bc_buf s' ! j = bc_buf s ! j)"
proof -
  note D = bio_okD [OF ok]
  let ?b = "bc_buf s ! i"
  let ?d = "(bc_disk s)[b_blockno ?b := b_data ?b]"
  let ?s = "s\<lparr>bc_buf := (bc_buf s)[i := ?b\<lparr>b_dirty := False\<rparr>], bc_disk := ?d\<rparr>"
  have v: "?b\<lparr>b_dirty := False, b_valid := True\<rparr> = ?b\<lparr>b_dirty := False\<rparr>" using i(3) by (cases ?b) simp
  have "bwrite me i s = Inr (s\<lparr>bc_buf := (bc_buf s)[i := ?b\<lparr>b_dirty := False, b_valid := True\<rparr>], bc_disk := ?d\<rparr>)"
    using i n D(1) by (simp add: bwrite_def iderw_def holdingsleep_def Let_def upd_buf_def)
  then have run: "bwrite me i s = Inr ?s" unfolding v .
  have at: "bc_buf ?s ! j = (if j = i then ?b\<lparr>b_dirty := False\<rparr> else bc_buf s ! j)" if "j < 30" for j
    using that D(1) i by simp
  have other: "j < 30 \<Longrightarrow> j \<noteq> i \<Longrightarrow> b_dev (bc_buf s ! j) = 1 \<Longrightarrow> b_blockno (bc_buf s ! j) \<noteq> b_blockno ?b" for j
    using no_dup_other [OF D(4) i(1,2), of j] by simp
  have ok': "bio_ok ?s"
  proof -
    have "no_dup (bc_buf ?s)" unfolding no_dup_def
    proof (intro allI impI)
      fix j l :: nat
      assume a: "j < 30" "l < 30" "b_dev (bc_buf ?s ! j) = 1" "b_dev (bc_buf ?s ! l) = 1"
        "b_blockno (bc_buf ?s ! j) = b_blockno (bc_buf ?s ! l)"
      then show "j = l" using no_dupD [OF D(4), of j l] at [OF a(1)] at [OF a(2)]
        by (cases "j = i"; cases "l = i") auto
    qed
    moreover have "(b_lock (bc_buf ?s ! j) \<noteq> None \<longrightarrow> 0 < b_refcnt (bc_buf ?s ! j)) \<and>
        (b_dev (bc_buf ?s ! j) \<noteq> 1 \<longrightarrow> \<not> b_valid (bc_buf ?s ! j)) \<and> (b_dirty (bc_buf ?s ! j) \<longrightarrow> b_valid (bc_buf ?s ! j)) \<and>
        (b_valid (bc_buf ?s ! j) \<longrightarrow> \<not> b_dirty (bc_buf ?s ! j) \<longrightarrow> b_lock (bc_buf ?s ! j) = None \<longrightarrow>
          b_data (bc_buf ?s ! j) = ?d ! b_blockno (bc_buf ?s ! j))" if j: "j < 30" for j
    proof (cases "j = i")
      case True
      then show ?thesis unfolding at [OF j] using i D(5) [OF i(1)] by simp
    next
      case False
      have "b_valid (bc_buf s ! j) \<Longrightarrow> b_blockno (bc_buf s ! j) \<noteq> b_blockno ?b"
        using other [OF j False] D(6) [OF j] by auto
      then show ?thesis unfolding at [OF j] using False D(5-8) [OF j] by auto
    qed
    ultimately show ?thesis unfolding bio_ok_def using D(1-3) by simp
  qed
  have "view ?s m = view s m" for m
  proof (cases "m = b_blockno ?b")
    case True
    have "view ?s m = b_data (bc_buf ?s ! i)"
      by (rule view_cached [OF ok' i(1)]) (use at [OF i(1)] i True in simp_all)
    also have "\<dots> = view s m" using view_cached [OF ok i(1,2) _ i(3), of m] True at [OF i(1)] by simp
    finally show ?thesis .
  next
    case False
    show ?thesis
    proof (cases rule: view_cases [OF ok', of m])
      case (1 j)
      then have "j \<noteq> i" using False at [OF 1(1)] by auto
      then show ?thesis using 1 at [OF 1(1)] view_cached [OF ok 1(1), of m] by simp
    next
      case 2
      have "view s m = bc_disk s ! m"
      proof (rule view_uncached [OF ok])
        fix j assume j: "j < 30" "b_dev (bc_buf s ! j) = 1" "b_blockno (bc_buf s ! j) = m"
        then have "j \<noteq> i" using False by auto
        then show "\<not> b_valid (bc_buf s ! j)" using 2(1) j at [OF j(1)] by auto
      qed
      with 2 False show ?thesis by simp
    qed
  qed
  with run ok' at i show ?thesis by auto
qed

lemma brelse_spec:
  assumes ok: "bio_ok s" and i: "i < 30" "b_lock (bc_buf s ! i) = Some me"
    and clean: "b_valid (bc_buf s ! i)" "b_dirty (bc_buf s ! i) \<or> b_data (bc_buf s ! i) = bc_disk s ! b_blockno (bc_buf s ! i)"
  shows "\<exists>s'. brelse me i s = Inr s' \<and> bio_ok s' \<and> bc_disk s' = bc_disk s \<and> (\<forall>m. view s' m = view s m) \<and>
    b_lock (bc_buf s' ! i) = None \<and> (\<forall>j < 30. j \<noteq> i \<longrightarrow> bc_buf s' ! j = bc_buf s ! j) \<and>
    (if b_refcnt (bc_buf s ! i) = 1 then hd (bc_mru s') = i else bc_mru s' = bc_mru s)"
proof -
  note D = bio_okD [OF ok]
  let ?b = "(bc_buf s ! i)\<lparr>b_lock := None, b_refcnt := b_refcnt (bc_buf s ! i) - 1\<rparr>"
  let ?s = "upd_buf i (\<lambda>_. ?b) s"
  have "b_dev (bc_buf s ! i) = 1" using D(6) [OF i(1)] clean(1) by blast
  note other = no_dup_other [OF D(4) i(1) this]
  have ok1: "bio_ok ?s"
    by (rule bio_ok_upd [OF ok i(1)]) (use other D(6,7) [OF i(1)] clean in auto)
  have v1: "view ?s m = view s m" for m
    by (rule view_upd [OF ok ok1 i(1)]) (use view_cached [OF ok i(1) _ _ clean(1)] clean in simp_all)
  have "0 < b_refcnt (bc_buf s ! i)" using D(5) [OF i(1)] i(2) by simp
  then have run: "brelse me i s =
      Inr (if b_refcnt (bc_buf s ! i) = 1 then ?s\<lparr>bc_mru := i # filter (\<lambda>j. j \<noteq> i) (bc_mru s)\<rparr> else ?s)"
    using i D(1) by (simp add: brelse_def holdingsleep_def Let_def)
  show ?thesis
  proof (cases "b_refcnt (bc_buf s ! i) = 1")
    case True
    let ?s2 = "?s\<lparr>bc_mru := i # filter (\<lambda>j. j \<noteq> i) (bc_mru s)\<rparr>"
    have set2: "set (i # filter (\<lambda>j. j \<noteq> i) (bc_mru s)) = {..<30}" using D(3) i(1) by auto
    have ok2: "bio_ok ?s2" using ok1 D(2) set2 unfolding bio_ok_def by simp
    have "view ?s2 m = view ?s m" for m
    proof (cases rule: view_cases [OF ok2, of m])
      case (1 j)
      with view_cached [OF ok1, of j m] show ?thesis by simp
    next
      case 2
      with view_uncached [OF ok1, of m] show ?thesis by simp
    qed
    with True run ok2 v1 i D(1) show ?thesis by simp
  next
    case False
    with run ok1 v1 i D(1) show ?thesis by simp
  qed
qed

text \<open>The buffer cache is transparent: a buffer returned by \<open>bread\<close> holds what the last writer of the
  block left there (in the cache or on the disk), reading changes neither the disk nor what any other
  reader sees, the other buffers are untouched, and a buffer that \<open>log_write\<close> has marked dirty is
  never recycled for another block.\<close>

theorem bread_transparent:
  assumes "bio_ok s" and "bread me 1 n s = Inr (Some i, s')"
  shows "bio_ok s' \<and> b_blockno (bc_buf s' ! i) = n \<and> b_lock (bc_buf s' ! i) = Some me \<and> b_data (bc_buf s' ! i) = view s n \<and>
    bc_disk s' = bc_disk s \<and> (\<forall>m. view s' m = view s m) \<and> (\<forall>j < 30. j \<noteq> i \<longrightarrow> bc_buf s' ! j = bc_buf s ! j) \<and>
    (\<forall>j < 30. b_dirty (bc_buf s ! j) \<longrightarrow> b_blockno (bc_buf s' ! j) = b_blockno (bc_buf s ! j))"
  using bread_spec [OF assms] by metis

lemma binit_ok: "bio_ok (binit disk)"
proof -
  have "fold (#) xs ys = rev xs @ ys" for xs ys :: "nat list" by (induction xs arbitrary: ys) auto
  then show ?thesis
    by (auto simp: bio_ok_def no_dup_def binit_def NBUF_def zero_buf_def atLeast0LessThan simp del: upt_rec_numeral)
qed

theorem bread_transparent_witness:
  "\<exists>i s'. bread 7 1 0 (binit [replicate 512 5]) = Inr (Some i, s') \<and> b_data (bc_buf s' ! i) = replicate 512 5"
proof -
  let ?s = "binit [replicate 512 5]"
  have mru: "bc_mru ?s = rev [0..<30]"
  proof -
    have "fold (#) xs ys = rev xs @ ys" for xs ys :: "nat list" by (induction xs arbitrary: ys) auto
    then show ?thesis by (simp add: binit_def NBUF_def del: upt_rec_numeral)
  qed
  have z: "bc_buf ?s ! i = zero_buf" if "i < 30" for i using that by (simp add: binit_def NBUF_def)
  have "find (\<lambda>i. b_dev (bc_buf ?s ! i) = 1 \<and> b_blockno (bc_buf ?s ! i) = 0) (bc_mru ?s) = None"
    unfolding find_None_iff mru using z by (auto simp: zero_buf_def simp del: upt_rec_numeral)
  moreover have "find (\<lambda>i. b_refcnt (bc_buf ?s ! i) = 0 \<and> \<not> b_dirty (bc_buf ?s ! i)) (rev (bc_mru ?s)) = Some 0"
    unfolding mru using z by (simp add: upt_conv_Cons zero_buf_def)
  ultimately have "\<exists>s'. bread 7 1 0 ?s = Inr (Some 0, s')"
    by (simp add: bread_def bget_def acquiresleep_buf_def iderw_def holdingsleep_def Let_def binit_def NBUF_def zero_buf_def)
  then obtain s' where s': "bread 7 1 0 ?s = Inr (Some 0, s')" by blast
  have "view ?s 0 = replicate 512 5"
    using view_uncached [OF binit_ok, of "[replicate 512 5]" 0] z by (simp add: zero_buf_def) (simp add: binit_def)
  with bread_transparent [OF binit_ok s'] s' show ?thesis by auto
qed


end
