(* ===== verification/XV6_Log.thy ===== *)
theory XV6_Log
  imports XV6_Bio
begin

text \<open>
  The write-ahead log of xv6 (\<open>src/project3/xv6-modified/log.c\<close>) over the buffer cache. The
  in-memory header \<open>log.lh\<close> is the list of its \<open>n\<close> block numbers; on the disk it is the word \<open>n\<close>
  followed by the block numbers, little endian, in block \<open>log.start\<close>. The state records every disk
  image that the log code produces, one for each \<open>bwrite\<close>: these are the states in which the
  machine can crash. The main theorem says that recovery after a crash at any of these points finds
  all or nothing of the transaction.
\<close>

subsection \<open>Words in blocks\<close>

definition bytes32 :: "nat \<Rightarrow> byte list" where
  "bytes32 x = map (\<lambda>k. word_of_nat (x div 256 ^ k)) [0, 1, 2, 3]"

definition rd32 :: "byte list \<Rightarrow> nat \<Rightarrow> nat" where
  "rd32 bs off = unat (bs ! off) + 256 * unat (bs ! (off + 1)) + 65536 * unat (bs ! (off + 2)) +
     16777216 * unat (bs ! (off + 3))"

definition wr32 :: "byte list \<Rightarrow> nat \<Rightarrow> nat \<Rightarrow> byte list" where
  "wr32 bs off x = patch bs off (bytes32 x)"

lemma length_bytes32 [simp]: "length (bytes32 x) = 4"
  by (simp add: bytes32_def)

lemma length_wr32 [simp]: "off + 4 \<le> length bs \<Longrightarrow> length (wr32 bs off x) = length bs"
  by (simp add: wr32_def)

lemma horner256:
  fixes x y z w :: nat
  shows "x = a + 256 * y \<Longrightarrow> y = b + 256 * z \<Longrightarrow> z = c + 256 * w \<Longrightarrow> a + 256 * b + 65536 * c + 16777216 * w = x"
  by simp

lemma digits256:
  fixes x :: nat
  shows "x mod 256 + 256 * (x div 256 mod 256) + 65536 * (x div 65536 mod 256) + 16777216 * (x div 16777216) = x"
proof (rule horner256)
  show "x = x mod 256 + 256 * (x div 256)" by simp
  show "x div 256 = x div 256 mod 256 + 256 * (x div 65536)"
    using mod_mult_div_eq [of "x div 256" 256] by (simp add: div_mult2_eq [symmetric])
  show "x div 65536 = x div 65536 mod 256 + 256 * (x div 16777216)"
    using mod_mult_div_eq [of "x div 65536" 256] by (simp add: div_mult2_eq [symmetric])
qed

lemma rd32_wr32_same:
  assumes "off + 4 \<le> length bs" and "x < 2 ^ 32"
  shows "rd32 (wr32 bs off x) off = x"
proof -
  have "wr32 bs off x ! (off + k) = bytes32 x ! k" if "k < 4" for k
    using assms(1) that by (simp add: wr32_def nth_patch)
  note at = this [of 0] this [of 1] this [of 2] this [of 3]
  have "x div 16777216 < 256" using assms(2) by (simp add: div_less_iff_less_mult)
  then have "x div 16777216 mod 256 = x div 16777216" by simp
  with at show ?thesis
    using digits256 [of x] by (simp add: rd32_def bytes32_def unat_of_nat)
qed

lemma rd32_wr32_other:
  assumes "off + 4 \<le> length bs" "off' + 4 \<le> length bs" and "off + 4 \<le> off' \<or> off' + 4 \<le> off"
  shows "rd32 (wr32 bs off x) off' = rd32 bs off'"
  using assms by (auto simp: rd32_def wr32_def nth_patch)

subsection \<open>The log\<close>

definition LOGSIZE :: nat where "LOGSIZE = 30"
definition MAXOPBLOCKS :: nat where "MAXOPBLOCKS = 10"

record fslog =
  lg_start :: nat
  lg_size :: nat
  lg_outstanding :: int
  lg_committing :: bool
  lg_block :: "nat list"
  lg_cache :: bcache
  lg_hist :: "block list list"

definition with_cache :: "fslog \<Rightarrow> bcache \<Rightarrow> fslog" where
  "with_cache st s = st\<lparr>lg_cache := s\<rparr>"

text \<open>\<open>bread\<close> by the log code, which holds no other lock on the block: a sleeping result cannot occur
  and is reported as such.\<close>

definition log_bread :: "int \<Rightarrow> nat \<Rightarrow> fslog \<Rightarrow> fault + nat \<times> fslog" where
  "log_bread me n st =
     ebind (bread me 1 n (lg_cache st)) (\<lambda>(r, s).
       case r of Some i \<Rightarrow> Inr (i, with_cache st s) | None \<Rightarrow> Inl Diverges)"

definition log_bwrite :: "int \<Rightarrow> nat \<Rightarrow> fslog \<Rightarrow> fault + fslog" where
  "log_bwrite me i st =
     ebind (bwrite me i (lg_cache st)) (\<lambda>s.
       Inr (st\<lparr>lg_cache := s, lg_hist := lg_hist st @ [bc_disk s]\<rparr>))"

definition log_brelse :: "int \<Rightarrow> nat \<Rightarrow> fslog \<Rightarrow> fault + fslog" where
  "log_brelse me i st = ebind (brelse me i (lg_cache st)) (\<lambda>s. Inr (with_cache st s))"

definition buf_data :: "fslog \<Rightarrow> nat \<Rightarrow> block" where
  "buf_data st i = b_data (bc_buf (lg_cache st) ! i)"

definition put_data :: "nat \<Rightarrow> block \<Rightarrow> fslog \<Rightarrow> fslog" where
  "put_data i d st = with_cache st (set_data i d (lg_cache st))"

text \<open>An iteration of \<open>install_trans\<close>: log block \<open>tail\<close> is copied to its home.\<close>

definition install_one :: "int \<Rightarrow> nat \<Rightarrow> fslog \<Rightarrow> fault + fslog" where
  "install_one me tail st =
     ebind (log_bread me (lg_start st + tail + 1) st) (\<lambda>(lbuf, st1).
       ebind (log_bread me (lg_block st ! tail) st1) (\<lambda>(dbuf, st2).
         ebind (log_bwrite me dbuf (put_data dbuf (buf_data st2 lbuf) st2)) (\<lambda>st3.
           ebind (log_brelse me lbuf st3) (log_brelse me dbuf))))"

text \<open>An iteration of \<open>write_log\<close>: the cached block is copied to log block \<open>tail\<close>.\<close>

definition write_log_one :: "int \<Rightarrow> nat \<Rightarrow> fslog \<Rightarrow> fault + fslog" where
  "write_log_one me tail st =
     ebind (log_bread me (lg_start st + tail + 1) st) (\<lambda>(dst, st1).
       ebind (log_bread me (lg_block st ! tail) st1) (\<lambda>(src, st2).
         ebind (log_bwrite me dst (put_data dst (buf_data st2 src) st2)) (\<lambda>st3.
           ebind (log_brelse me src st3) (log_brelse me dst))))"

fun for_tail :: "(nat \<Rightarrow> fslog \<Rightarrow> fault + fslog) \<Rightarrow> nat list \<Rightarrow> fslog \<Rightarrow> fault + fslog" where
  "for_tail f [] st = Inr st"
| "for_tail f (t # ts) st = ebind (f t st) (for_tail f ts)"

definition install_trans :: "int \<Rightarrow> fslog \<Rightarrow> fault + fslog" where
  "install_trans me st = for_tail (install_one me) [0..<length (lg_block st)] st"

definition write_log :: "int \<Rightarrow> fslog \<Rightarrow> fault + fslog" where
  "write_log me st = for_tail (write_log_one me) [0..<length (lg_block st)] st"

text \<open>The header in the format of \<open>struct logheader\<close>. The count is a signed integer: a negative one
  makes every loop over the header empty.\<close>

fun put_words :: "block \<Rightarrow> nat \<Rightarrow> nat list \<Rightarrow> block" where
  "put_words d off [] = d"
| "put_words d off (x # xs) = put_words (wr32 d off x) (off + 4) xs"

definition put_header :: "block \<Rightarrow> nat list \<Rightarrow> block" where
  "put_header d bs = put_words (wr32 d 0 (length bs)) 4 bs"

definition get_header :: "block \<Rightarrow> nat list" where
  "get_header d = (if rd32 d 0 < 2 ^ 31 then map (\<lambda>i. rd32 d (4 + 4 * i)) [0..<rd32 d 0] else [])"

definition read_head :: "int \<Rightarrow> fslog \<Rightarrow> fault + fslog" where
  "read_head me st =
     ebind (log_bread me (lg_start st) st) (\<lambda>(b, st1).
       if LOGSIZE < rd32 (buf_data st1 b) 0 \<and> rd32 (buf_data st1 b) 0 < 2 ^ 31 then Inl Out_of_bounds
       else log_brelse me b (st1\<lparr>lg_block := get_header (buf_data st1 b)\<rparr>))"

definition write_head :: "int \<Rightarrow> fslog \<Rightarrow> fault + fslog" where
  "write_head me st =
     ebind (log_bread me (lg_start st) st) (\<lambda>(b, st1).
       ebind (log_bwrite me b (put_data b (put_header (buf_data st1 b) (lg_block st1)) st1)) (log_brelse me b))"

definition recover_from_log :: "int \<Rightarrow> fslog \<Rightarrow> fault + fslog" where
  "recover_from_log me st =
     ebind (read_head me st) (\<lambda>st1.
       ebind (install_trans me st1) (\<lambda>st2. write_head me (st2\<lparr>lg_block := []\<rparr>)))"

definition commit :: "int \<Rightarrow> fslog \<Rightarrow> fault + fslog" where
  "commit me st =
     (if lg_block st \<noteq> []
      then
        ebind (write_log me st) (\<lambda>st1.
          ebind (write_head me st1) (\<lambda>st2.
            ebind (install_trans me st2) (\<lambda>st3. write_head me (st3\<lparr>lg_block := []\<rparr>))))
      else Inr st)"

text \<open>\<open>initlog\<close> with the fields that \<open>readsb\<close> has read from the superblock.\<close>

definition initlog :: "int \<Rightarrow> nat \<Rightarrow> nat \<Rightarrow> block list \<Rightarrow> fault + fslog" where
  "initlog me start sz disk =
     recover_from_log me \<lparr>lg_start = start, lg_size = sz, lg_outstanding = 0, lg_committing = False, lg_block = [],
       lg_cache = binit disk, lg_hist = []\<rparr>"

text \<open>\<open>begin_op\<close>: \<open>None\<close> when the caller goes to sleep.\<close>

definition begin_op :: "fslog \<Rightarrow> fslog option" where
  "begin_op st =
     (if lg_committing st then None
      else if int (length (lg_block st)) + (lg_outstanding st + 1) * int MAXOPBLOCKS > int LOGSIZE then None
      else Some (st\<lparr>lg_outstanding := lg_outstanding st + 1\<rparr>))"

definition end_op :: "int \<Rightarrow> fslog \<Rightarrow> fault + fslog" where
  "end_op me st =
     (let st1 = st\<lparr>lg_outstanding := lg_outstanding st - 1\<rparr> in
      if lg_committing st1 then Inl (Panic ''log.committing'')
      else if lg_outstanding st1 = 0
      then ebind (commit me (st1\<lparr>lg_committing := True\<rparr>)) (\<lambda>st2. Inr (st2\<lparr>lg_committing := False\<rparr>))
      else Inr st1)"

definition log_write :: "nat \<Rightarrow> fslog \<Rightarrow> fault + fslog" where
  "log_write b st =
     (let blockno = b_blockno (bc_buf (lg_cache st) ! b) in
      if length (lg_block st) \<ge> LOGSIZE \<or> int (length (lg_block st)) \<ge> int (lg_size st) - 1
      then Inl (Panic ''too big a transaction'')
      else if lg_outstanding st < 1 then Inl (Panic ''log_write outside of trans'')
      else Inr (st\<lparr>lg_block := (if blockno \<in> set (lg_block st) then lg_block st else lg_block st @ [blockno]),
                   lg_cache := pin b (lg_cache st)\<rparr>))"

subsection \<open>The cache while the log code uses it\<close>

text \<open>The buffers in \<open>H\<close> are locked by the process \<open>me\<close>, nobody holds another one.\<close>

definition held :: "int \<Rightarrow> bcache \<Rightarrow> nat set \<Rightarrow> bool" where
  "held me s H \<longleftrightarrow> bio_ok s \<and> H \<subseteq> {..<30} \<and>
     (\<forall>i < 30. b_refcnt (bc_buf s ! i) = (if i \<in> H then 1 else 0) \<and>
        b_lock (bc_buf s ! i) = (if i \<in> H then Some me else None))"

definition dirtyi :: "bcache \<Rightarrow> nat set" where
  "dirtyi s = {i. i < 30 \<and> b_dirty (bc_buf s ! i)}"

lemma heldD:
  assumes "held me s H"
  shows "bio_ok s" "H \<subseteq> {..<30}" "finite H" "i < 30 \<Longrightarrow> i \<in> H \<Longrightarrow> b_lock (bc_buf s ! i) = Some me \<and> b_refcnt (bc_buf s ! i) = 1"
    "i < 30 \<Longrightarrow> i \<notin> H \<Longrightarrow> b_lock (bc_buf s ! i) = None \<and> b_refcnt (bc_buf s ! i) = 0"
  using assms finite_subset [of H "{..<30}"] by (auto simp: held_def)

lemma dirty_dev: "bio_ok s \<Longrightarrow> i \<in> dirtyi s \<Longrightarrow> b_dev (bc_buf s ! i) = 1 \<and> b_valid (bc_buf s ! i)"
  using bio_okD(6,7) by (auto simp: dirtyi_def)

lemma finite_dirtyi [simp]: "finite (dirtyi s)"
  by (simp add: dirtyi_def)

lemma clean_exists:
  assumes "held me s H" and "card (dirtyi s) + card H < 30"
  shows "\<exists>i < 30. i \<notin> H \<and> i \<notin> dirtyi s"
proof (rule ccontr)
  assume "\<not> ?thesis"
  then have "{..<30} \<subseteq> dirtyi s \<union> H" by auto
  then have "card {..<30::nat} \<le> card (dirtyi s \<union> H)" using heldD(3) [OF assms(1)] by (intro card_mono) auto
  also have "\<dots> \<le> card (dirtyi s) + card H" by (rule card_Un_le)
  finally show False using assms(2) by simp
qed

lemma bread_held:
  assumes h: "held me s H" and n: "n < length (bc_disk s)" and room: "card (dirtyi s) + card H < 30"
    and free: "\<forall>i \<in> H. b_blockno (bc_buf s ! i) \<noteq> n"
  obtains i s' where "bread me 1 n s = Inr (Some i, s')" "i < 30" "i \<notin> H" "held me s' (insert i H)"
    "b_dev (bc_buf s' ! i) = 1" "b_blockno (bc_buf s' ! i) = n" "b_valid (bc_buf s' ! i)" "b_data (bc_buf s' ! i) = view s n"
    "bc_disk s' = bc_disk s" "\<And>m. view s' m = view s m" "\<And>j. j < 30 \<Longrightarrow> j \<noteq> i \<Longrightarrow> bc_buf s' ! j = bc_buf s ! j"
    "dirtyi s' = dirtyi s"
proof -
  have ok: "bio_ok s" by (rule heldD(1) [OF h])
  note D = bio_okD [OF ok]
  have "\<exists>i s1. bget me 1 n s = Inr (Some i, s1)"
  proof (cases "find (\<lambda>i. b_dev (bc_buf s ! i) = 1 \<and> b_blockno (bc_buf s ! i) = n) (bc_mru s)")
    case (Some i)
    from find_in [OF Some] D(3) have i: "i < 30" "b_blockno (bc_buf s ! i) = n" by auto
    then have "i \<notin> H" using free by auto
    then have "b_lock (bc_buf s ! i) = None" using heldD(5) [OF h i(1)] by simp
    with Some i D(1) show ?thesis by (simp add: bget_def acquiresleep_buf_def)
  next
    case None
    from clean_exists [OF h room] obtain c where c: "c < 30" "c \<notin> H" "\<not> b_dirty (bc_buf s ! c)" by (auto simp: dirtyi_def)
    then have "b_refcnt (bc_buf s ! c) = 0" using heldD(5) [OF h] by simp
    with c D(3) have "find (\<lambda>i. b_refcnt (bc_buf s ! i) = 0 \<and> \<not> b_dirty (bc_buf s ! i)) (rev (bc_mru s)) \<noteq> None"
      unfolding find_None_iff by auto
    then obtain i where i: "find (\<lambda>i. b_refcnt (bc_buf s ! i) = 0 \<and> \<not> b_dirty (bc_buf s ! i)) (rev (bc_mru s)) = Some i" by blast
    from find_in [OF i] D(3) have i': "i < 30" "b_refcnt (bc_buf s ! i) = 0" by auto
    then have "b_lock (bc_buf s ! i) = None" using D(5) [OF i'(1)] by (cases "b_lock (bc_buf s ! i)") simp_all
    with None i i' D(1) show ?thesis by (simp add: bget_def acquiresleep_buf_def)
  qed
  then obtain i s1 where g: "bget me 1 n s = Inr (Some i, s1)" by blast
  note G = bget_spec [OF ok g]
  have "b_dirty (bc_buf s1 ! i) = b_dirty (bc_buf s ! i) \<and> b_refcnt (bc_buf s1 ! i) = 1 \<and> i \<notin> H"
  proof (cases rule: bget_cases [OF ok g])
    case 1
    then have "i \<notin> H" using heldD(4) [OF h] by auto
    then show ?thesis using 1 D(1) heldD(5) [OF h 1(1)] by simp
  next
    case 2
    then have "i \<notin> H" using heldD(4) [OF h] by auto
    then show ?thesis using 2 D(1) by simp
  qed
  note g2 = this
  have "\<exists>s'. bread me 1 n s = Inr (Some i, s') \<and> b_dirty (bc_buf s' ! i) = b_dirty (bc_buf s ! i) \<and> b_refcnt (bc_buf s' ! i) = 1"
  proof (cases "b_valid (bc_buf s1 ! i)")
    case True
    with g g2 show ?thesis by (simp add: bread_def)
  next
    case False
    then have "\<not> b_dirty (bc_buf s1 ! i)" using bio_okD(7) G by blast
    with False g g2 G n bio_okD(1) [OF conjunct1 [OF G]] show ?thesis
      by (simp add: bread_def iderw_def holdingsleep_def Let_def)
  qed
  then obtain s' where r: "bread me 1 n s = Inr (Some i, s')" "b_dirty (bc_buf s' ! i) = b_dirty (bc_buf s ! i)"
    "b_refcnt (bc_buf s' ! i) = 1" by blast
  note B = bread_spec [OF ok r(1)]
  have same: "bc_buf s' ! j = bc_buf s ! j" if "j < 30" "j \<noteq> i" for j using B that by blast
  have lk: "b_lock (bc_buf s' ! i) = Some me" and i30: "i < 30" using B by blast+
  have fl: "b_dirty (bc_buf s' ! j) = b_dirty (bc_buf s ! j)" if "j < 30" for j
    using r(2) same [OF that] by (cases "j = i") simp_all
  have di: "dirtyi s' = dirtyi s" using fl by (auto simp: dirtyi_def)
  have hl: "b_refcnt (bc_buf s' ! j) = (if j \<in> insert i H then 1 else 0) \<and>
      b_lock (bc_buf s' ! j) = (if j \<in> insert i H then Some me else None)" if "j < 30" for j
    using r(3) lk same [OF that] heldD(4,5) [OF h that] by (cases "j = i") simp_all
  have "held me s' (insert i H)"
    unfolding held_def using hl i30 heldD(2) [OF h] conjunct1 [OF B] by blast
  then show thesis using that [OF r(1)] B g2 same di by blast
qed

lemma set_data_held:
  assumes h: "held me s H" and i: "i \<in> H" "b_dev (bc_buf s ! i) = 1" "b_blockno (bc_buf s ! i) = n" "b_valid (bc_buf s ! i)"
  shows "bio_ok (set_data i d s)" "view (set_data i d s) m = (if m = n then d else view s m)"
    "j < 30 \<Longrightarrow> bc_buf (set_data i d s) ! j = (if j = i then (bc_buf s ! i)\<lparr>b_data := d\<rparr> else bc_buf s ! j)"
    "bc_disk (set_data i d s) = bc_disk s"
proof -
  have ok: "bio_ok s" by (rule heldD(1) [OF h])
  note D = bio_okD [OF ok]
  have i30: "i < 30" using heldD(2) [OF h] i by auto
  note lk = heldD(4) [OF h i30 i(1)]
  let ?b = "(bc_buf s ! i)\<lparr>b_data := d\<rparr>" and ?s = "set_data i d s"
  have s: "?s = upd_buf i (\<lambda>_. ?b) s" by (simp add: set_data_def upd_buf_def)
  show "bc_disk ?s = bc_disk s" by (simp add: s)
  show ok1: "bio_ok ?s"
    unfolding s by (rule bio_ok_upd [OF ok i30]) (use no_dup_other [OF D(4) i30 i(2)] D(6,7) [OF i30] lk in simp_all)
  show at: "bc_buf ?s ! j = (if j = i then ?b else bc_buf s ! j)" if "j < 30" for j using that D(1) i30 by (simp add: s)
  have b: "bc_buf ?s ! i = ?b" using at [OF i30] by simp
  show "view ?s m = (if m = n then d else view s m)"
  proof (cases rule: view_cases [OF ok1, of m])
    case (1 j)
    show ?thesis
    proof (cases "j = i")
      case True
      then show ?thesis using 1 b i by auto
    next
      case False
      then have "b_blockno (bc_buf s ! j) \<noteq> n"
        using no_dup_other [OF D(4) i30 i(2), of j] 1 at [OF 1(1)] i(3) by simp
      then show ?thesis using False 1 at [OF 1(1)] view_cached [OF ok 1(1), of m] by auto
    qed
  next
    case 2
    have "m \<noteq> n" using 2(1) b i i30 by auto
    moreover have "view s m = bc_disk s ! m"
    proof (rule view_uncached [OF ok])
      fix j assume j: "j < 30" "b_dev (bc_buf s ! j) = 1" "b_blockno (bc_buf s ! j) = m"
      then show "\<not> b_valid (bc_buf s ! j)" using 2(1) at [OF j(1)] calculation i by (cases "j = i") auto
    qed
    ultimately show ?thesis using 2(2) by (simp add: s)
  qed
qed

lemma write_held:
  assumes h: "held me s H" and i: "i \<in> H" "b_dev (bc_buf s ! i) = 1" "b_blockno (bc_buf s ! i) = n" "b_valid (bc_buf s ! i)"
    and n: "n < length (bc_disk s)"
  obtains s' where "bwrite me i (set_data i d s) = Inr s'" "held me s' H" "bc_disk s' = (bc_disk s)[n := d]"
    "\<And>m. view s' m = (if m = n then d else view s m)" "bc_buf s' ! i = (bc_buf s ! i)\<lparr>b_data := d, b_dirty := False\<rparr>"
    "\<And>j. j < 30 \<Longrightarrow> j \<noteq> i \<Longrightarrow> bc_buf s' ! j = bc_buf s ! j" "dirtyi s' = dirtyi s - {i}"
proof -
  have ok: "bio_ok s" by (rule heldD(1) [OF h])
  note D = bio_okD [OF ok]
  have i30: "i < 30" using heldD(2) [OF h] i by auto
  note lk = heldD(4) [OF h i30 i(1)]
  let ?b = "(bc_buf s ! i)\<lparr>b_data := d\<rparr>" and ?s = "set_data i d s"
  note S = set_data_held [OF h i, where d = d]
  have b: "bc_buf ?s ! i = ?b" using S(3) [OF i30] by simp
  from bwrite_spec [OF S(1) i30, of me] obtain s' where
    w: "bwrite me i ?s = Inr s'" "bio_ok s'" "bc_disk s' = (bc_disk s)[n := d]" "\<forall>m. view s' m = view ?s m"
      "bc_buf s' ! i = ?b\<lparr>b_dirty := False\<rparr>" "\<forall>j < 30. j \<noteq> i \<longrightarrow> bc_buf s' ! j = bc_buf ?s ! j"
    using b i n lk S(4) by auto
  have same: "bc_buf s' ! j = bc_buf s ! j" if "j < 30" "j \<noteq> i" for j using w(6) S(3) that by auto
  have hl: "b_refcnt (bc_buf s' ! j) = (if j \<in> H then 1 else 0) \<and> b_lock (bc_buf s' ! j) = (if j \<in> H then Some me else None)" if "j < 30" for j
    using w(5) lk i(1) same [OF that] heldD(4,5) [OF h that] by (cases "j = i") simp_all
  have "held me s' H" unfolding held_def using hl heldD(2) [OF h] w(2) by blast
  moreover have "b_dirty (bc_buf s' ! j) \<longleftrightarrow> b_dirty (bc_buf s ! j) \<and> j \<noteq> i" if "j < 30" for j
    using w(5) same [OF that] by (cases "j = i") simp_all
  then have "dirtyi s' = dirtyi s - {i}" by (auto simp: dirtyi_def)
  ultimately show thesis using that [OF w(1)] w(3,4,5) S(2) same by simp
qed

lemma release_held:
  assumes h: "held me s H" and i: "i \<in> H" "b_valid (bc_buf s ! i)"
    and clean: "b_dirty (bc_buf s ! i) \<or> b_data (bc_buf s ! i) = bc_disk s ! b_blockno (bc_buf s ! i)"
  obtains s' where "brelse me i s = Inr s'" "held me s' (H - {i})" "bc_disk s' = bc_disk s" "\<And>m. view s' m = view s m"
    "\<And>j. j < 30 \<Longrightarrow> j \<noteq> i \<Longrightarrow> bc_buf s' ! j = bc_buf s ! j" "dirtyi s' = dirtyi s"
proof -
  have ok: "bio_ok s" by (rule heldD(1) [OF h])
  note D = bio_okD [OF ok]
  have i30: "i < 30" using heldD(2) [OF h] i by auto
  note lk = heldD(4) [OF h i30 i(1)]
  from brelse_spec [OF ok i30 _ i(2) clean, of me] lk obtain s' where
    r: "brelse me i s = Inr s'" "bio_ok s'" "bc_disk s' = bc_disk s" "\<forall>m. view s' m = view s m"
      "b_lock (bc_buf s' ! i) = None" "\<forall>j < 30. j \<noteq> i \<longrightarrow> bc_buf s' ! j = bc_buf s ! j" by auto
  have b: "bc_buf s' ! i = (bc_buf s ! i)\<lparr>b_lock := None, b_refcnt := 0\<rparr>"
    using r(1) lk D(1) i30 by (auto simp: brelse_def holdingsleep_def Let_def)
  have same: "bc_buf s' ! j = bc_buf s ! j" if "j < 30" "j \<noteq> i" for j using r(6) that by blast
  have fl: "b_dirty (bc_buf s' ! j) = b_dirty (bc_buf s ! j) \<and> b_blockno (bc_buf s' ! j) = b_blockno (bc_buf s ! j)" if "j < 30" for j
    using b same [OF that] by (cases "j = i") auto
  have di: "dirtyi s' = dirtyi s" using fl by (auto simp: dirtyi_def)
  have hl: "b_refcnt (bc_buf s' ! j) = (if j \<in> H - {i} then 1 else 0) \<and>
      b_lock (bc_buf s' ! j) = (if j \<in> H - {i} then Some me else None)" if "j < 30" for j
    using b same [OF that] heldD(4,5) [OF h that] by (cases "j = i") simp_all
  have "held me s' (H - {i})" unfolding held_def using hl heldD(2) [OF h] r(2) by blast
  then show thesis using that [OF r(1)] r(3,4) same di by blast
qed



text \<open>A buffer that was just read is pinned or agrees with the disk.\<close>

lemma view_disk:
  assumes h: "held me s H" and free: "\<forall>i \<in> H. b_blockno (bc_buf s ! i) \<noteq> n"
    and none: "\<forall>j \<in> dirtyi s. b_blockno (bc_buf s ! j) \<noteq> n"
  shows "view s n = bc_disk s ! n"
proof (cases rule: view_cases [OF heldD(1) [OF h], of n])
  case (1 j)
  then have "j \<notin> H" "\<not> b_dirty (bc_buf s ! j)" using free none by (auto simp: dirtyi_def)
  then show ?thesis using 1 bio_okD(8) [OF heldD(1) [OF h] 1(1,4)] heldD(5) [OF h 1(1)] by simp
qed

lemma bread_pinned:
  assumes h: "held me s H" and free: "\<forall>i \<in> H. b_blockno (bc_buf s ! i) \<noteq> n" and h': "held me s' H'"
    and i: "i < 30" "b_dev (bc_buf s' ! i) = 1" "b_blockno (bc_buf s' ! i) = n"
    and same: "\<And>j. j < 30 \<Longrightarrow> j \<noteq> i \<Longrightarrow> bc_buf s' ! j = bc_buf s ! j" and di: "dirtyi s' = dirtyi s"
  shows "b_dirty (bc_buf s' ! i) \<or> view s n = bc_disk s ! n"
proof (cases "\<forall>j \<in> dirtyi s. b_blockno (bc_buf s ! j) \<noteq> n")
  case True
  then show ?thesis using view_disk [OF h free] by simp
next
  case False
  then obtain j where j: "j \<in> dirtyi s" "b_blockno (bc_buf s ! j) = n" by blast
  have j30: "j < 30" using j by (simp add: dirtyi_def)
  have "j = i"
  proof (rule ccontr)
    assume "j \<noteq> i"
    then show False
      using same [OF j30] j dirty_dev [OF heldD(1) [OF h] j(1)] no_dup_other [OF bio_okD(4) [OF heldD(1) [OF h']] i(1,2) j30] i(3) by simp
  qed
  then show ?thesis using j(1) di by (auto simp: dirtyi_def)
qed

definition quiet :: "int \<Rightarrow> fslog \<Rightarrow> bool" where
  "quiet me st \<longleftrightarrow> held me (lg_cache st) {} \<and> card (dirtyi (lg_cache st)) \<le> 28"

text \<open>What a step of the log code does: it writes \<open>d\<close> to block \<open>n\<close> and records the new disk.\<close>

definition writes :: "int \<Rightarrow> fslog \<Rightarrow> nat \<Rightarrow> block \<Rightarrow> fslog \<Rightarrow> bool" where
  "writes me st n d st' \<longleftrightarrow> quiet me st' \<and> bc_disk (lg_cache st') = (bc_disk (lg_cache st))[n := d] \<and>
     (\<forall>m. view (lg_cache st') m = (if m = n then d else view (lg_cache st) m)) \<and>
     st' = st\<lparr>lg_cache := lg_cache st', lg_hist := lg_hist st @ [bc_disk (lg_cache st')]\<rparr>"

lemma finish_copy:
  assumes h: "held me s {lb, db}" and ne: "lb \<noteq> db"
    and l: "b_blockno (bc_buf s ! lb) = m" "b_valid (bc_buf s ! lb)"
      "b_dirty (bc_buf s ! lb) \<or> b_data (bc_buf s ! lb) = bc_disk s ! m"
    and d: "b_dev (bc_buf s ! db) = 1" "b_blockno (bc_buf s ! db) = n" "b_valid (bc_buf s ! db)" "n < length (bc_disk s)"
    and mn: "m \<noteq> n" and few: "card (dirtyi s) \<le> 28"
  obtains s1 s2 s3 where "bwrite me db (set_data db x s) = Inr s1" "brelse me lb s1 = Inr s2" "brelse me db s2 = Inr s3"
    "held me s3 {}" "card (dirtyi s3) \<le> 28" "bc_disk s1 = (bc_disk s)[n := x]" "bc_disk s3 = (bc_disk s)[n := x]"
    "\<And>k. view s3 k = (if k = n then x else view s k)"
proof -
  from h have lb: "lb < 30" and db: "db < 30" using heldD(2) by blast+
  obtain s1 where s1: "bwrite me db (set_data db x s) = Inr s1" "held me s1 {lb, db}" "bc_disk s1 = (bc_disk s)[n := x]"
    "\<And>k. view s1 k = (if k = n then x else view s k)" "bc_buf s1 ! db = (bc_buf s ! db)\<lparr>b_data := x, b_dirty := False\<rparr>"
    "\<And>j. j < 30 \<Longrightarrow> j \<noteq> db \<Longrightarrow> bc_buf s1 ! j = bc_buf s ! j" "dirtyi s1 = dirtyi s - {db}"
    by (rule write_held [OF h _ d(1-4), of x]) simp_all
  have l1: "bc_buf s1 ! lb = bc_buf s ! lb" using s1(6) [OF lb ne] .
  have "b_dirty (bc_buf s1 ! lb) \<or> b_data (bc_buf s1 ! lb) = bc_disk s1 ! b_blockno (bc_buf s1 ! lb)"
    unfolding l1 s1(3) using l mn by auto
  note c1 = this
  have v1: "b_valid (bc_buf s1 ! lb)" using l1 l(2) by simp
  obtain s2 where s2: "brelse me lb s1 = Inr s2" "held me s2 ({lb, db} - {lb})" "bc_disk s2 = bc_disk s1"
    "\<And>k. view s2 k = view s1 k" "\<And>j. j < 30 \<Longrightarrow> j \<noteq> lb \<Longrightarrow> bc_buf s2 ! j = bc_buf s1 ! j" "dirtyi s2 = dirtyi s1"
    by (rule release_held [OF s1(2) _ v1 c1]) simp_all
  have d2: "bc_buf s2 ! db = (bc_buf s ! db)\<lparr>b_data := x, b_dirty := False\<rparr>" using s2(5) [OF db] ne s1(5) by simp
  have "b_dirty (bc_buf s2 ! db) \<or> b_data (bc_buf s2 ! db) = bc_disk s2 ! b_blockno (bc_buf s2 ! db)"
    unfolding d2 s2(3) s1(3) using d by simp
  note c2 = this
  have v2: "b_valid (bc_buf s2 ! db)" "db \<in> {lb, db} - {lb}" using d2 d(3) ne by simp_all
  obtain s3 where s3: "brelse me db s2 = Inr s3" "held me s3 ({lb, db} - {lb} - {db})" "bc_disk s3 = bc_disk s2"
    "\<And>k. view s3 k = view s2 k" "\<And>j. j < 30 \<Longrightarrow> j \<noteq> db \<Longrightarrow> bc_buf s3 ! j = bc_buf s2 ! j" "dirtyi s3 = dirtyi s2"
    by (rule release_held [OF s2(2) v2(2,1) c2]) blast
  have "card (dirtyi s3) \<le> 28"
    unfolding s3(6) s2(6) s1(7) using card_mono [of "dirtyi s" "dirtyi s - {db}"] few by auto
  moreover have "{lb, db} - {lb} - {db} = {}" by auto
  then have "held me s3 {}" using s3(2) by (simp only:)
  ultimately show thesis by (intro that [OF s1(1) s2(1) s3(1)]) (use s1(3,4) s2(3,4) s3(3,4) in simp_all)
qed

lemma quietI: "held me s {} \<Longrightarrow> card (dirtyi s) \<le> 28 \<Longrightarrow> lg_cache st = s \<Longrightarrow> quiet me st"
  by (simp add: quiet_def)

lemma two_reads:
  assumes q: "quiet me st" and m: "m < length (bc_disk (lg_cache st))" and n: "n < length (bc_disk (lg_cache st))" and mn: "m \<noteq> n"
  obtains i j s1 s2 where "bread me 1 m (lg_cache st) = Inr (Some i, s1)" "bread me 1 n s1 = Inr (Some j, s2)" "i \<noteq> j"
    "held me s2 {i, j}" "card (dirtyi s2) \<le> 28" "bc_disk s2 = bc_disk (lg_cache st)" "\<And>k. view s2 k = view (lg_cache st) k"
    "b_blockno (bc_buf s2 ! i) = m" "b_valid (bc_buf s2 ! i)" "b_dev (bc_buf s2 ! i) = 1" "b_data (bc_buf s2 ! i) = view (lg_cache st) m"
    "b_dirty (bc_buf s2 ! i) \<or> b_data (bc_buf s2 ! i) = bc_disk s2 ! m"
    "b_blockno (bc_buf s2 ! j) = n" "b_valid (bc_buf s2 ! j)" "b_dev (bc_buf s2 ! j) = 1" "b_data (bc_buf s2 ! j) = view (lg_cache st) n"
    "b_dirty (bc_buf s2 ! j) \<or> b_data (bc_buf s2 ! j) = bc_disk s2 ! n"
proof -
  let ?s = "lg_cache st"
  from q have h: "held me ?s {}" and few: "card (dirtyi ?s) \<le> 28" by (simp_all add: quiet_def)
  have room: "card (dirtyi ?s) + card {} < 30" using few by simp
  obtain i s1 where r1: "bread me 1 m ?s = Inr (Some i, s1)" "i < 30" "i \<notin> {}" "held me s1 (insert i {})"
      "b_dev (bc_buf s1 ! i) = 1" "b_blockno (bc_buf s1 ! i) = m" "b_valid (bc_buf s1 ! i)" "b_data (bc_buf s1 ! i) = view ?s m"
      "bc_disk s1 = bc_disk ?s" "\<And>k. view s1 k = view ?s k" "\<And>j. j < 30 \<Longrightarrow> j \<noteq> i \<Longrightarrow> bc_buf s1 ! j = bc_buf ?s ! j"
      "dirtyi s1 = dirtyi ?s"
    by (rule bread_held [OF h m room]) (simp, blast)
  have p1: "b_dirty (bc_buf s1 ! i) \<or> view ?s m = bc_disk ?s ! m"
    by (rule bread_pinned [OF h _ r1(4,2,5,6,11,12)]) simp
  have n1: "n < length (bc_disk s1)" and free1: "\<forall>k \<in> insert i {}. b_blockno (bc_buf s1 ! k) \<noteq> n" and room1: "card (dirtyi s1) + card (insert i {}) < 30"
    using n r1(6,9,12) mn few by simp_all
  obtain j s2 where r2: "bread me 1 n s1 = Inr (Some j, s2)" "j < 30" "j \<notin> insert i {}" "held me s2 (insert j (insert i {}))"
      "b_dev (bc_buf s2 ! j) = 1" "b_blockno (bc_buf s2 ! j) = n" "b_valid (bc_buf s2 ! j)" "b_data (bc_buf s2 ! j) = view s1 n"
      "bc_disk s2 = bc_disk s1" "\<And>k. view s2 k = view s1 k" "\<And>k. k < 30 \<Longrightarrow> k \<noteq> j \<Longrightarrow> bc_buf s2 ! k = bc_buf s1 ! k"
      "dirtyi s2 = dirtyi s1"
    by (rule bread_held [OF r1(4) n1 room1 free1]) blast
  have p2: "b_dirty (bc_buf s2 ! j) \<or> view s1 n = bc_disk s1 ! n"
    by (rule bread_pinned [OF r1(4) free1 r2(4,2,5,6,11,12)])
  have i2: "bc_buf s2 ! i = bc_buf s1 ! i" using r2(3,11) r1(2) by simp
  have hh: "held me s2 {i, j}" using r2(4) by (simp add: insert_commute)
  show thesis
    by (rule that [OF r1(1) r2(1) _ hh])
      (use r1(5-10,12) r2(3,5-10,12) p1 p2 i2 few in simp_all)
qed

lemma install_one_writes:
  assumes q: "quiet me st" and m: "lg_start st + tail + 1 < length (bc_disk (lg_cache st))"
    and n: "lg_block st ! tail < length (bc_disk (lg_cache st))" and mn: "lg_start st + tail + 1 \<noteq> lg_block st ! tail"
  shows "\<exists>st'. install_one me tail st = Inr st' \<and>
    writes me st (lg_block st ! tail) (view (lg_cache st) (lg_start st + tail + 1)) st'"
proof -
  let ?m = "lg_start st + tail + 1" and ?n = "lg_block st ! tail" and ?d = "view (lg_cache st) (lg_start st + tail + 1)"
  obtain i j s1 s2 where r: "bread me 1 ?m (lg_cache st) = Inr (Some i, s1)" "bread me 1 ?n s1 = Inr (Some j, s2)" "i \<noteq> j"
    "held me s2 {i, j}" "card (dirtyi s2) \<le> 28" "bc_disk s2 = bc_disk (lg_cache st)" "\<And>k. view s2 k = view (lg_cache st) k"
    "b_blockno (bc_buf s2 ! i) = ?m" "b_valid (bc_buf s2 ! i)" "b_dev (bc_buf s2 ! i) = 1" "b_data (bc_buf s2 ! i) = view (lg_cache st) ?m"
    "b_dirty (bc_buf s2 ! i) \<or> b_data (bc_buf s2 ! i) = bc_disk s2 ! ?m"
    "b_blockno (bc_buf s2 ! j) = ?n" "b_valid (bc_buf s2 ! j)" "b_dev (bc_buf s2 ! j) = 1" "b_data (bc_buf s2 ! j) = view (lg_cache st) ?n"
    "b_dirty (bc_buf s2 ! j) \<or> b_data (bc_buf s2 ! j) = bc_disk s2 ! ?n"
    by (rule two_reads [OF q m n mn]) blast
  have n2: "?n < length (bc_disk s2)" using n r(6) by simp
  obtain s3 s4 s5 where w: "bwrite me j (set_data j ?d s2) = Inr s3" "brelse me i s3 = Inr s4" "brelse me j s4 = Inr s5"
    "held me s5 {}" "card (dirtyi s5) \<le> 28" "bc_disk s3 = (bc_disk s2)[?n := ?d]" "bc_disk s5 = (bc_disk s2)[?n := ?d]"
    "\<And>k. view s5 k = (if k = ?n then ?d else view s2 k)"
    by (rule finish_copy [OF r(4,3,8,9,12,15,13,14) n2 mn r(5), of ?d]) blast
  show ?thesis
    using w r(1,2,6,7,11)
    by (simp add: install_one_def log_bread_def log_bwrite_def log_brelse_def with_cache_def put_data_def buf_data_def
        writes_def quiet_def)
qed

lemma write_log_one_writes:
  assumes q: "quiet me st" and m: "lg_start st + tail + 1 < length (bc_disk (lg_cache st))"
    and n: "lg_block st ! tail < length (bc_disk (lg_cache st))" and mn: "lg_start st + tail + 1 \<noteq> lg_block st ! tail"
  shows "\<exists>st'. write_log_one me tail st = Inr st' \<and>
    writes me st (lg_start st + tail + 1) (view (lg_cache st) (lg_block st ! tail)) st'"
proof -
  let ?m = "lg_start st + tail + 1" and ?n = "lg_block st ! tail" and ?d = "view (lg_cache st) (lg_block st ! tail)"
  obtain i j s1 s2 where r: "bread me 1 ?m (lg_cache st) = Inr (Some i, s1)" "bread me 1 ?n s1 = Inr (Some j, s2)" "i \<noteq> j"
    "held me s2 {i, j}" "card (dirtyi s2) \<le> 28" "bc_disk s2 = bc_disk (lg_cache st)" "\<And>k. view s2 k = view (lg_cache st) k"
    "b_blockno (bc_buf s2 ! i) = ?m" "b_valid (bc_buf s2 ! i)" "b_dev (bc_buf s2 ! i) = 1" "b_data (bc_buf s2 ! i) = view (lg_cache st) ?m"
    "b_dirty (bc_buf s2 ! i) \<or> b_data (bc_buf s2 ! i) = bc_disk s2 ! ?m"
    "b_blockno (bc_buf s2 ! j) = ?n" "b_valid (bc_buf s2 ! j)" "b_dev (bc_buf s2 ! j) = 1" "b_data (bc_buf s2 ! j) = view (lg_cache st) ?n"
    "b_dirty (bc_buf s2 ! j) \<or> b_data (bc_buf s2 ! j) = bc_disk s2 ! ?n"
    by (rule two_reads [OF q m n mn]) blast
  have m2: "?m < length (bc_disk s2)" using m r(6) by simp
  have h: "held me s2 {j, i}" using r(4) by (simp add: insert_commute)
  obtain s3 s4 s5 where w: "bwrite me i (set_data i ?d s2) = Inr s3" "brelse me j s3 = Inr s4" "brelse me i s4 = Inr s5"
    "held me s5 {}" "card (dirtyi s5) \<le> 28" "bc_disk s3 = (bc_disk s2)[?m := ?d]" "bc_disk s5 = (bc_disk s2)[?m := ?d]"
    "\<And>k. view s5 k = (if k = ?m then ?d else view s2 k)"
    by (rule finish_copy [OF h r(3) [symmetric] r(13,14,17,10,8,9) m2 mn [symmetric] r(5), of ?d]) blast
  show ?thesis
    using w r(1,2,6,7,16)
    by (simp add: write_log_one_def log_bread_def log_bwrite_def log_brelse_def with_cache_def put_data_def buf_data_def
        writes_def quiet_def)
qed

lemma write_head_writes:
  assumes q: "quiet me st" and n: "lg_start st < length (bc_disk (lg_cache st))"
  shows "\<exists>st'. write_head me st = Inr st' \<and>
    writes me st (lg_start st) (put_header (view (lg_cache st) (lg_start st)) (lg_block st)) st'"
proof -
  let ?s = "lg_cache st" and ?n = "lg_start st"
  let ?d = "put_header (view ?s ?n) (lg_block st)"
  from q have h: "held me ?s {}" and few: "card (dirtyi ?s) \<le> 28" by (simp_all add: quiet_def)
  have room: "card (dirtyi ?s) + card {} < 30" using few by simp
  obtain i s1 where r: "bread me 1 ?n ?s = Inr (Some i, s1)" "i < 30" "i \<notin> {}" "held me s1 (insert i {})"
      "b_dev (bc_buf s1 ! i) = 1" "b_blockno (bc_buf s1 ! i) = ?n" "b_valid (bc_buf s1 ! i)" "b_data (bc_buf s1 ! i) = view ?s ?n"
      "bc_disk s1 = bc_disk ?s" "\<And>k. view s1 k = view ?s k" "\<And>j. j < 30 \<Longrightarrow> j \<noteq> i \<Longrightarrow> bc_buf s1 ! j = bc_buf ?s ! j"
      "dirtyi s1 = dirtyi ?s"
    by (rule bread_held [OF h n room]) (simp, blast)
  have n1: "?n < length (bc_disk s1)" using n r(9) by simp
  obtain s2 where w: "bwrite me i (set_data i ?d s1) = Inr s2" "held me s2 (insert i {})" "bc_disk s2 = (bc_disk s1)[?n := ?d]"
    "\<And>k. view s2 k = (if k = ?n then ?d else view s1 k)" "bc_buf s2 ! i = (bc_buf s1 ! i)\<lparr>b_data := ?d, b_dirty := False\<rparr>"
    "\<And>j. j < 30 \<Longrightarrow> j \<noteq> i \<Longrightarrow> bc_buf s2 ! j = bc_buf s1 ! j" "dirtyi s2 = dirtyi s1 - {i}"
    by (rule write_held [OF r(4) _ r(5,6,7) n1, of ?d]) simp_all
  have "b_valid (bc_buf s2 ! i)" "b_dirty (bc_buf s2 ! i) \<or> b_data (bc_buf s2 ! i) = bc_disk s2 ! b_blockno (bc_buf s2 ! i)"
    unfolding w(5) w(3) using r(6,7) n1 by simp_all
  note c2 = this
  obtain s3 where l: "brelse me i s2 = Inr s3" "held me s3 (insert i {} - {i})" "bc_disk s3 = bc_disk s2"
    "\<And>k. view s3 k = view s2 k" "\<And>j. j < 30 \<Longrightarrow> j \<noteq> i \<Longrightarrow> bc_buf s3 ! j = bc_buf s2 ! j" "dirtyi s3 = dirtyi s2"
    by (rule release_held [OF w(2) _ c2]) simp_all
  have "card (dirtyi s3) \<le> 28"
    unfolding l(6) w(7) r(12) using card_mono [of "dirtyi ?s" "dirtyi ?s - {i}"] few by auto
  then show ?thesis
    using r(1,8,9,10) w(1,3,4) l(1-4)
    by (simp add: write_head_def log_bread_def log_bwrite_def log_brelse_def with_cache_def put_data_def buf_data_def
        writes_def quiet_def)
qed

subsection \<open>The header on the disk\<close>

lemma length_put_words: "off + 4 * length xs \<le> length d \<Longrightarrow> length (put_words d off xs) = length d"
  by (induction xs arbitrary: d off) auto

lemma rd32_put_words_below:
  "off + 4 * length xs \<le> length d \<Longrightarrow> o' + 4 \<le> off \<Longrightarrow> rd32 (put_words d off xs) o' = rd32 d o'"
  by (induction xs arbitrary: d off) (simp_all add: rd32_wr32_other)

lemma rd32_put_words:
  "off + 4 * length xs \<le> length d \<Longrightarrow> \<forall>x \<in> set xs. x < 2 ^ 32 \<Longrightarrow> i < length xs \<Longrightarrow>
    rd32 (put_words d off xs) (off + 4 * i) = xs ! i"
proof (induction xs arbitrary: d off i)
  case (Cons x xs)
  show ?case
  proof (cases i)
    case 0
    then show ?thesis using Cons.prems rd32_put_words_below [of "off + 4" xs "wr32 d off x" off]
      by (simp add: rd32_wr32_same)
  next
    case (Suc k)
    then show ?thesis using Cons.prems Cons.IH [of "off + 4" "wr32 d off x" k] by (simp add: add.assoc [symmetric])
  qed
qed simp

lemma length_put_header: "length bs \<le> 30 \<Longrightarrow> length d = 512 \<Longrightarrow> length (put_header d bs) = 512"
  by (simp add: put_header_def length_put_words)

lemma header_count: "length bs \<le> 30 \<Longrightarrow> length d = 512 \<Longrightarrow> rd32 (put_header d bs) 0 = length bs"
  by (simp add: put_header_def rd32_put_words_below rd32_wr32_same)

lemma get_put_header:
  assumes "length bs \<le> 30" and "length d = 512" and "\<forall>x \<in> set bs. x < 2 ^ 32"
  shows "get_header (put_header d bs) = bs"
proof -
  have "rd32 (put_header d bs) (4 + 4 * i) = bs ! i" if "i < length bs" for i
    using assms that by (simp add: put_header_def rd32_put_words)
  moreover have "length bs < 2147483648" using assms(1) by simp
  ultimately show ?thesis by (intro nth_equalityI) (simp_all add: get_header_def header_count assms)
qed

subsection \<open>The copy loops\<close>

text \<open>Home blocks lie outside the log area of \<open>start\<close>, which is \<open>[start, start + 31)\<close> at most.\<close>

definition log_layout :: "nat \<Rightarrow> nat list \<Rightarrow> block list \<Rightarrow> bool" where
  "log_layout start bs disk \<longleftrightarrow> length bs \<le> 30 \<and> distinct bs \<and> start + length bs < length disk \<and>
     (\<forall>b \<in> set bs. b < length disk \<and> (b < start \<or> start + length bs < b) \<and> b < 2 ^ 32) \<and> length (disk ! start) = 512"

lemma log_layoutD:
  assumes "log_layout start bs disk"
  shows "length bs \<le> 30" "distinct bs" "start + length bs < length disk" "b \<in> set bs \<Longrightarrow> b < length disk"
    "b \<in> set bs \<Longrightarrow> b < start \<or> start + length bs < b" "\<forall>b \<in> set bs. b < 2 ^ 32" "length (disk ! start) = 512"
  using assms unfolding log_layout_def by blast+

text \<open>A loop that copies block \<open>src t\<close> to block \<open>dst t\<close> for each \<open>t\<close>. Every disk image on the way
  differs from the first one in target blocks only.\<close>

definition copied :: "int \<Rightarrow> fslog \<Rightarrow> (nat \<Rightarrow> nat) \<Rightarrow> (nat \<Rightarrow> nat) \<Rightarrow> nat set \<Rightarrow> fslog \<Rightarrow> bool" where
  "copied me st src dst T st' \<longleftrightarrow> quiet me st' \<and> st' = st\<lparr>lg_cache := lg_cache st', lg_hist := lg_hist st'\<rparr> \<and>
     length (bc_disk (lg_cache st')) = length (bc_disk (lg_cache st)) \<and>
     (\<forall>t \<in> T. view (lg_cache st') (dst t) = view (lg_cache st) (src t) \<and>
        bc_disk (lg_cache st') ! dst t = view (lg_cache st) (src t)) \<and>
     (\<forall>m. m \<notin> dst ` T \<longrightarrow> view (lg_cache st') m = view (lg_cache st) m \<and>
        bc_disk (lg_cache st') ! m = bc_disk (lg_cache st) ! m) \<and>
     (\<exists>hs. lg_hist st' = lg_hist st @ hs \<and>
        (\<forall>d \<in> set hs. length d = length (bc_disk (lg_cache st)) \<and> (\<forall>m. m \<notin> dst ` T \<longrightarrow> d ! m = bc_disk (lg_cache st) ! m)))"

lemma copied_step:
  assumes w: "writes me st (dst t) (view (lg_cache st) (src t)) st1" and c: "copied me st1 src dst T st2"
    and t: "t \<notin> T" "dst t < length (bc_disk (lg_cache st))" "dst t \<notin> dst ` T" and ns: "\<forall>u \<in> T. src u \<noteq> dst t"
  shows "copied me st src dst (insert t T) st2"
proof -
  let ?s = "lg_cache st" and ?s1 = "lg_cache st1" and ?s2 = "lg_cache st2"
  from w have w1: "bc_disk ?s1 = (bc_disk ?s)[dst t := view ?s (src t)]"
      "\<And>m. view ?s1 m = (if m = dst t then view ?s (src t) else view ?s m)"
      "st1 = st\<lparr>lg_cache := ?s1, lg_hist := lg_hist st @ [bc_disk ?s1]\<rparr>"
    unfolding writes_def by blast+
  from c obtain hs where c1: "quiet me st2" "st2 = st1\<lparr>lg_cache := ?s2, lg_hist := lg_hist st2\<rparr>"
      "length (bc_disk ?s2) = length (bc_disk ?s1)"
      "\<And>u. u \<in> T \<Longrightarrow> view ?s2 (dst u) = view ?s1 (src u) \<and> bc_disk ?s2 ! dst u = view ?s1 (src u)"
      "\<And>m. m \<notin> dst ` T \<Longrightarrow> view ?s2 m = view ?s1 m \<and> bc_disk ?s2 ! m = bc_disk ?s1 ! m"
      "lg_hist st2 = lg_hist st1 @ hs"
      "\<And>d. d \<in> set hs \<Longrightarrow> length d = length (bc_disk ?s1) \<and> (\<forall>m. m \<notin> dst ` T \<longrightarrow> d ! m = bc_disk ?s1 ! m)"
    unfolding copied_def by blast
  have h1: "lg_hist st1 = lg_hist st @ [bc_disk ?s1]" by (subst w1(3)) simp
  have "st2 = st\<lparr>lg_cache := ?s2, lg_hist := lg_hist st2\<rparr>" by (subst c1(2), subst w1(3)) simp
  moreover have "view ?s2 (dst u) = view ?s (src u) \<and> bc_disk ?s2 ! dst u = view ?s (src u)" if "u \<in> insert t T" for u
  proof (cases "u = t")
    case True
    then show ?thesis using c1(5) [OF t(3)] w1(1,2) t(2) by simp
  next
    case False
    then have "u \<in> T" using that by simp
    then show ?thesis using c1(4) [of u] w1(2) ns by simp
  qed
  moreover have "view ?s2 m = view ?s m \<and> bc_disk ?s2 ! m = bc_disk ?s ! m" if "m \<notin> dst ` insert t T" for m
    using that c1(5) [of m] w1(1,2) by auto
  moreover have "length d = length (bc_disk ?s) \<and> (\<forall>m. m \<notin> dst ` insert t T \<longrightarrow> d ! m = bc_disk ?s ! m)"
    if "d \<in> set (bc_disk ?s1 # hs)" for d
  proof (cases "d = bc_disk ?s1")
    case False
    then show ?thesis using c1(7) [of d] that w1(1) by auto
  qed (use w1(1) in auto)
  ultimately show ?thesis
    unfolding copied_def using c1(1,3,6) h1 w1(1) by (auto intro!: exI [of _ "bc_disk ?s1 # hs"])
qed

lemma for_tail_copies:
  assumes step: "\<And>t st. t \<in> set ts \<Longrightarrow> quiet me st \<Longrightarrow> lg_block st = bs \<Longrightarrow> lg_start st = start \<Longrightarrow>
      length (bc_disk (lg_cache st)) = L \<Longrightarrow> \<exists>st'. f t st = Inr st' \<and> writes me st (dst t) (view (lg_cache st) (src t)) st'"
    and "quiet me st" "lg_block st = bs" "lg_start st = start" "length (bc_disk (lg_cache st)) = L"
    and "distinct ts" "inj_on dst (set ts)" "\<forall>t \<in> set ts. dst t < L" "\<forall>t \<in> set ts. \<forall>u \<in> set ts. src t \<noteq> dst u"
  shows "\<exists>st'. for_tail f ts st = Inr st' \<and> copied me st src dst (set ts) st'"
  using assms
proof (induction ts arbitrary: st)
  case Nil
  then show ?case by (simp add: copied_def)
next
  case (Cons t ts)
  obtain st1 where s1: "f t st = Inr st1" "writes me st (dst t) (view (lg_cache st) (src t)) st1"
    using Cons.prems(1) [of t st] Cons.prems(2-5) by auto
  have k: "quiet me st1" "lg_block st1 = bs" "lg_start st1 = start" "length (bc_disk (lg_cache st1)) = L"
  proof -
    from s1(2) have e: "st1 = st\<lparr>lg_cache := lg_cache st1, lg_hist := lg_hist st @ [bc_disk (lg_cache st1)]\<rparr>"
      and d: "bc_disk (lg_cache st1) = (bc_disk (lg_cache st))[dst t := view (lg_cache st) (src t)]" and "quiet me st1"
      unfolding writes_def by blast+
    then show "quiet me st1" by simp
    show "lg_block st1 = bs" using Cons.prems(3) by (subst e) simp
    show "lg_start st1 = start" using Cons.prems(4) by (subst e) simp
    show "length (bc_disk (lg_cache st1)) = L" using Cons.prems(5) d by simp
  qed
  obtain st2 where s2: "for_tail f ts st1 = Inr st2" "copied me st1 src dst (set ts) st2"
    using Cons.IH [OF _ k] Cons.prems(1,6-9) by auto
  have "copied me st src dst (insert t (set ts)) st2"
    using Cons.prems(5-9) by (intro copied_step [OF s1(2) s2(2)]) auto
  then show ?case using s1(1) s2(1) by simp
qed

abbreviation log_slots :: "nat \<Rightarrow> nat list \<Rightarrow> nat set" where
  "log_slots start bs \<equiv> (\<lambda>t. start + t + 1) ` set [0..<length bs]"

lemma layout_apart:
  assumes "log_layout start bs disk" and "t < length bs" and "u < length bs"
  shows "start + t + 1 \<noteq> bs ! u" "start + t + 1 < length disk" "bs ! u < length disk" "start \<noteq> bs ! u"
  using log_layoutD(3) [OF assms(1)] log_layoutD(4,5) [OF assms(1), of "bs ! u"] assms(2,3) by auto

lemma write_log_copies:
  assumes q: "quiet me st" and lay: "log_layout (lg_start st) (lg_block st) (bc_disk (lg_cache st))"
  shows "\<exists>st'. write_log me st = Inr st' \<and>
    copied me st ((!) (lg_block st)) (\<lambda>t. lg_start st + t + 1) (set [0..<length (lg_block st)]) st'"
  unfolding write_log_def
proof (rule for_tail_copies [OF _ q refl refl refl])
  fix t st1
  assume t: "t \<in> set [0..<length (lg_block st)]" and q1: "quiet me st1" and eqs: "lg_block st1 = lg_block st"
    "lg_start st1 = lg_start st" "length (bc_disk (lg_cache st1)) = length (bc_disk (lg_cache st))"
  show "\<exists>st'. write_log_one me t st1 = Inr st' \<and>
      writes me st1 (lg_start st + t + 1) (view (lg_cache st1) (lg_block st ! t)) st'"
    using write_log_one_writes [OF q1, of t] layout_apart [OF lay, of t t] t eqs by simp
qed (use layout_apart [OF lay] in \<open>auto simp: inj_on_def\<close>, metis)

lemma install_trans_copies:
  assumes q: "quiet me st" and lay: "log_layout (lg_start st) (lg_block st) (bc_disk (lg_cache st))"
  shows "\<exists>st'. install_trans me st = Inr st' \<and>
    copied me st (\<lambda>t. lg_start st + t + 1) ((!) (lg_block st)) (set [0..<length (lg_block st)]) st'"
  unfolding install_trans_def
proof (rule for_tail_copies [OF _ q refl refl refl])
  fix t st1
  assume t: "t \<in> set [0..<length (lg_block st)]" and q1: "quiet me st1" and eqs: "lg_block st1 = lg_block st"
    "lg_start st1 = lg_start st" "length (bc_disk (lg_cache st1)) = length (bc_disk (lg_cache st))"
  show "\<exists>st'. install_one me t st1 = Inr st' \<and>
      writes me st1 (lg_block st ! t) (view (lg_cache st1) (lg_start st + t + 1)) st'"
    using install_one_writes [OF q1, of t] layout_apart [OF lay, of t t] t eqs by simp
next
  show "inj_on ((!) (lg_block st)) (set [0..<length (lg_block st)])"
    using log_layoutD(2) [OF lay] by (auto simp: inj_on_def nth_eq_iff_index_eq)
qed (use layout_apart [OF lay] in auto)

lemma read_head_spec:
  assumes q: "quiet me st" and n: "lg_start st < length (bc_disk (lg_cache st))"
    and small: "rd32 (view (lg_cache st) (lg_start st)) 0 \<le> 30"
  shows "\<exists>st'. read_head me st = Inr st' \<and> quiet me st' \<and> bc_disk (lg_cache st') = bc_disk (lg_cache st) \<and>
    (\<forall>m. view (lg_cache st') m = view (lg_cache st) m) \<and>
    st' = st\<lparr>lg_cache := lg_cache st', lg_block := get_header (view (lg_cache st) (lg_start st))\<rparr>"
proof -
  let ?s = "lg_cache st" and ?n = "lg_start st"
  from q have h: "held me ?s {}" and few: "card (dirtyi ?s) \<le> 28" by (simp_all add: quiet_def)
  have room: "card (dirtyi ?s) + card {} < 30" using few by simp
  obtain i s1 where r: "bread me 1 ?n ?s = Inr (Some i, s1)" "i < 30" "i \<notin> {}" "held me s1 (insert i {})"
      "b_dev (bc_buf s1 ! i) = 1" "b_blockno (bc_buf s1 ! i) = ?n" "b_valid (bc_buf s1 ! i)" "b_data (bc_buf s1 ! i) = view ?s ?n"
      "bc_disk s1 = bc_disk ?s" "\<And>k. view s1 k = view ?s k" "\<And>j. j < 30 \<Longrightarrow> j \<noteq> i \<Longrightarrow> bc_buf s1 ! j = bc_buf ?s ! j"
      "dirtyi s1 = dirtyi ?s"
    by (rule bread_held [OF h n room]) (simp, blast)
  have "b_dirty (bc_buf s1 ! i) \<or> view ?s ?n = bc_disk ?s ! ?n"
    by (rule bread_pinned [OF h _ r(4,2,5,6,11,12)]) simp
  then have c: "b_dirty (bc_buf s1 ! i) \<or> b_data (bc_buf s1 ! i) = bc_disk s1 ! b_blockno (bc_buf s1 ! i)"
    unfolding r(6,8,9) .
  obtain s2 where l: "brelse me i s1 = Inr s2" "held me s2 (insert i {} - {i})" "bc_disk s2 = bc_disk s1"
    "\<And>k. view s2 k = view s1 k" "\<And>j. j < 30 \<Longrightarrow> j \<noteq> i \<Longrightarrow> bc_buf s2 ! j = bc_buf s1 ! j" "dirtyi s2 = dirtyi s1"
    by (rule release_held [OF r(4) _ r(7) c]) simp_all
  show ?thesis
    using r(1,8,9,10,12) l(1,2,3,4,6) small few
    by (simp add: read_head_def log_bread_def log_brelse_def with_cache_def buf_data_def quiet_def LOGSIZE_def)
qed

lemma writes_same:
  assumes "writes me st n d st'"
  shows "quiet me st'" "lg_block st' = lg_block st" "lg_start st' = lg_start st" "lg_hist st' = lg_hist st @ [bc_disk (lg_cache st')]"
    "bc_disk (lg_cache st') = (bc_disk (lg_cache st))[n := d]" "view (lg_cache st') m = (if m = n then d else view (lg_cache st) m)"
proof -
  from assms have e: "st' = st\<lparr>lg_cache := lg_cache st', lg_hist := lg_hist st @ [bc_disk (lg_cache st')]\<rparr>"
    unfolding writes_def by blast
  show "lg_block st' = lg_block st" "lg_start st' = lg_start st" "lg_hist st' = lg_hist st @ [bc_disk (lg_cache st')]"
    by (subst e, simp)+
qed (use assms in \<open>auto simp: writes_def\<close>)

lemma copied_same:
  assumes "copied me st src dst T st'"
  shows "quiet me st'" "lg_block st' = lg_block st" "lg_start st' = lg_start st"
    "length (bc_disk (lg_cache st')) = length (bc_disk (lg_cache st))"
    "t \<in> T \<Longrightarrow> view (lg_cache st') (dst t) = view (lg_cache st) (src t)"
    "t \<in> T \<Longrightarrow> bc_disk (lg_cache st') ! dst t = view (lg_cache st) (src t)"
    "m \<notin> dst ` T \<Longrightarrow> view (lg_cache st') m = view (lg_cache st) m"
    "m \<notin> dst ` T \<Longrightarrow> bc_disk (lg_cache st') ! m = bc_disk (lg_cache st) ! m"
proof -
  from assms have e: "st' = st\<lparr>lg_cache := lg_cache st', lg_hist := lg_hist st'\<rparr>" unfolding copied_def by blast
  show "lg_block st' = lg_block st" "lg_start st' = lg_start st" by (subst e, simp)+
qed (use assms in \<open>unfold copied_def, blast\<close>)+

lemma copied_hist:
  assumes "copied me st src dst T st'"
  obtains hs where "lg_hist st' = lg_hist st @ hs"
    "\<And>d. d \<in> set hs \<Longrightarrow> length d = length (bc_disk (lg_cache st))"
    "\<And>d m. d \<in> set hs \<Longrightarrow> m \<notin> dst ` T \<Longrightarrow> d ! m = bc_disk (lg_cache st) ! m"
  using assms unfolding copied_def by blast

subsection \<open>Recovery\<close>

lemma image_nth: "(!) xs ` set [0..<length xs] = set xs"
  by (metis list.set_map map_nth)

lemma cold_quiet: "held me (binit d) {}" "dirtyi (binit d) = {}" "view (binit d) m = d ! m"
proof -
  have b: "bc_buf (binit d) ! i = zero_buf" if "i < 30" for i using that by (simp add: binit_def NBUF_def)
  show h: "held me (binit d) {}" unfolding held_def using binit_ok b by (simp add: zero_buf_def)
  show e: "dirtyi (binit d) = {}" using b by (auto simp: dirtyi_def zero_buf_def)
  show "view (binit d) m = d ! m" using view_disk [OF h, of m] e by (simp add: binit_def)
qed

lemma put_header_nil: "length d = 512 \<Longrightarrow> rd32 (put_header d []) 0 = 0 \<and> length (put_header d []) = 512"
  using header_count [of "[]" d] length_put_header [of "[]" d] by simp

lemma initlog_installs:
  assumes lay: "log_layout start (get_header (d ! start)) d" and small: "rd32 (d ! start) 0 \<le> 30"
  shows "\<exists>rt. initlog me start sz d = Inr rt \<and> lg_block rt = [] \<and> rd32 (bc_disk (lg_cache rt) ! start) 0 = 0 \<and>
    length (bc_disk (lg_cache rt)) = length d \<and>
    (\<forall>t < length (get_header (d ! start)). bc_disk (lg_cache rt) ! (get_header (d ! start) ! t) = d ! (start + t + 1)) \<and>
    (\<forall>m. m \<noteq> start \<longrightarrow> m \<notin> set (get_header (d ! start)) \<longrightarrow> bc_disk (lg_cache rt) ! m = d ! m)"
proof -
  let ?hb = "get_header (d ! start)"
  let ?st = "\<lparr>lg_start = start, lg_size = sz, lg_outstanding = 0, lg_committing = False, lg_block = [],
       lg_cache = binit d, lg_hist = []\<rparr>"
  have q: "quiet me ?st" using cold_quiet(1,2) by (simp add: quiet_def)
  have disk: "bc_disk (binit d) = d" by (simp add: binit_def)
  have st: "start < length d" using log_layoutD(3) [OF lay] by simp
  obtain s1 where s1: "read_head me ?st = Inr s1" "quiet me s1" "bc_disk (lg_cache s1) = d" "\<And>m. view (lg_cache s1) m = d ! m"
      "lg_start s1 = start" "lg_block s1 = ?hb"
  proof -
    from read_head_spec [OF q] small st disk cold_quiet(3) [of d start]
    obtain s1 where a: "read_head me ?st = Inr s1" "quiet me s1" "bc_disk (lg_cache s1) = d" "\<forall>m. view (lg_cache s1) m = view (binit d) m"
      "s1 = ?st\<lparr>lg_cache := lg_cache s1, lg_block := ?hb\<rparr>" by auto
    have "lg_start s1 = start" "lg_block s1 = ?hb" by (subst a(5), simp)+
    with a cold_quiet(3) [of d] show thesis by (intro that) simp_all
  qed
  obtain s2 where s2: "install_trans me s1 = Inr s2" "copied me s1 (\<lambda>t. start + t + 1) ((!) ?hb) (set [0..<length ?hb]) s2"
    using install_trans_copies [OF s1(2)] s1(3,5,6) lay by auto
  from s2(2) have c: "quiet me s2" "s2 = s1\<lparr>lg_cache := lg_cache s2, lg_hist := lg_hist s2\<rparr>"
      "length (bc_disk (lg_cache s2)) = length d" "\<And>t. t < length ?hb \<Longrightarrow> bc_disk (lg_cache s2) ! (?hb ! t) = d ! (start + t + 1)"
      "\<And>m. m \<notin> set ?hb \<Longrightarrow> view (lg_cache s2) m = d ! m \<and> bc_disk (lg_cache s2) ! m = d ! m"
    unfolding copied_def image_nth s1(3,4) by auto
  have st2: "lg_start s2 = start" using s1(5) by (subst c(2)) simp
  have nm: "start \<notin> set ?hb" using log_layoutD(5) [OF lay, of start] by auto
  let ?s3 = "s2\<lparr>lg_block := []\<rparr>"
  have q3: "quiet me ?s3" using c(1) by (simp add: quiet_def)
  obtain rt where rt: "write_head me ?s3 = Inr rt" "writes me ?s3 start (put_header (view (lg_cache s2) start) []) rt"
    using write_head_writes [OF q3] st2 c(3) st by auto
  have v: "view (lg_cache s2) start = d ! start" using c(5) [OF nm] by simp
  have r: "bc_disk (lg_cache rt) = (bc_disk (lg_cache s2))[start := put_header (d ! start) []]" "lg_block rt = []"
    using writes_same(2,5) [OF rt(2)] v by simp_all
  have "initlog me start sz d = Inr rt" using s1(1) s2(1) rt(1) by (simp add: initlog_def recover_from_log_def)
  moreover have "start \<noteq> ?hb ! t" if "t < length ?hb" for t using that nm nth_mem by metis
  ultimately show ?thesis
    using r c(3-5) st put_header_nil [OF log_layoutD(7) [OF lay]] by (auto simp: nth_list_update)
qed

lemma initlog_empty:
  assumes "rd32 (d ! start) 0 = 0" and "start < length d" and "length (d ! start) = 512"
  shows "\<exists>rt. initlog me start sz d = Inr rt \<and> rd32 (bc_disk (lg_cache rt) ! start) 0 = 0 \<and>
    (\<forall>m. m \<noteq> start \<longrightarrow> bc_disk (lg_cache rt) ! m = d ! m)"
proof -
  have e: "get_header (d ! start) = []" using assms(1) by (simp add: get_header_def)
  then have "log_layout start (get_header (d ! start)) d" using assms(2,3) by (simp add: log_layout_def)
  from initlog_installs [OF this, of me sz] e assms(1) show ?thesis by auto
qed

lemma initlog_full:
  assumes lay: "log_layout start bs disk" and len: "length d = length disk" and hdr: "d ! start = put_header x bs" "length x = 512"
    and log: "\<And>t. t < length bs \<Longrightarrow> d ! (start + t + 1) = f (bs ! t)"
  shows "\<exists>rt. initlog me start sz d = Inr rt \<and> rd32 (bc_disk (lg_cache rt) ! start) 0 = 0 \<and>
    (\<forall>b \<in> set bs. bc_disk (lg_cache rt) ! b = f b) \<and> (\<forall>m. m \<noteq> start \<longrightarrow> m \<notin> set bs \<longrightarrow> bc_disk (lg_cache rt) ! m = d ! m)"
proof -
  note L = log_layoutD [OF lay]
  have g: "get_header (d ! start) = bs" unfolding hdr(1) by (rule get_put_header [OF L(1) hdr(2) L(6)])
  have c: "rd32 (d ! start) 0 \<le> 30" unfolding hdr(1) using header_count [OF L(1) hdr(2)] L(1) by simp
  have "length (d ! start) = 512" unfolding hdr(1) by (rule length_put_header [OF L(1) hdr(2)])
  then have "log_layout start (get_header (d ! start)) d" using lay len unfolding g log_layout_def by simp
  from initlog_installs [OF this c, of me sz] obtain rt where
    r: "initlog me start sz d = Inr rt" "rd32 (bc_disk (lg_cache rt) ! start) 0 = 0"
      "\<forall>t < length bs. bc_disk (lg_cache rt) ! (bs ! t) = d ! (start + t + 1)"
      "\<forall>m. m \<noteq> start \<longrightarrow> m \<notin> set bs \<longrightarrow> bc_disk (lg_cache rt) ! m = d ! m"
    unfolding g by blast
  have "bc_disk (lg_cache rt) ! b = f b" if "b \<in> set bs" for b
    using that r(3) log unfolding in_set_conv_nth by auto
  with r show ?thesis by blast
qed

text \<open>The four phases of \<open>commit\<close>: the log, the header that commits, the homes, the empty header.\<close>

definition phases :: "int \<Rightarrow> fslog \<Rightarrow> fslog \<Rightarrow> fslog \<Rightarrow> fslog \<Rightarrow> fslog \<Rightarrow> bool" where
  "phases me st st1 st2 st3 st4 \<longleftrightarrow>
     (let start = lg_start st; bs = lg_block st; T = set [0..<length bs] in
      copied me st ((!) bs) (\<lambda>t. start + t + 1) T st1 \<and>
      writes me st1 start (put_header (view (lg_cache st1) start) bs) st2 \<and>
      copied me st2 (\<lambda>t. start + t + 1) ((!) bs) T st3 \<and>
      writes me (st3\<lparr>lg_block := []\<rparr>) start (put_header (view (lg_cache st3) start) []) st4)"

lemma commit_phases:
  assumes q: "quiet me st" and lay: "log_layout (lg_start st) (lg_block st) (bc_disk (lg_cache st))" and ne: "lg_block st \<noteq> []"
    and len: "length (view (lg_cache st) (lg_start st)) = 512"
  shows "\<exists>st1 st2 st3 st4. commit me st = Inr st4 \<and> phases me st st1 st2 st3 st4"
proof -
  let ?start = "lg_start st" and ?bs = "lg_block st"
  note L = log_layoutD [OF lay]
  have st: "?start < length (bc_disk (lg_cache st))" using L(3) by simp
  obtain st1 where s1: "write_log me st = Inr st1" "copied me st ((!) ?bs) (\<lambda>t. ?start + t + 1) (set [0..<length ?bs]) st1"
    using write_log_copies [OF q lay] by blast
  note c1 = copied_same [OF s1(2)]
  have v1: "view (lg_cache st1) ?start = view (lg_cache st) ?start" by (rule c1(7)) auto
  obtain st2 where s2: "write_head me st1 = Inr st2" "writes me st1 ?start (put_header (view (lg_cache st1) ?start) ?bs) st2"
    using write_head_writes [OF c1(1)] c1(2,3,4) st by auto
  note w2 = writes_same [OF s2(2)]
  have "log_layout (lg_start st2) (lg_block st2) (bc_disk (lg_cache st2))"
    unfolding w2(2,3,5) c1(2,3) v1 log_layout_def length_list_update c1(4)
    using lay length_put_header [OF L(1) len] st c1(4) unfolding log_layout_def by simp
  then obtain st3 where s3: "install_trans me st2 = Inr st3"
      "copied me st2 (\<lambda>t. ?start + t + 1) ((!) ?bs) (set [0..<length ?bs]) st3"
    using install_trans_copies [OF w2(1)] unfolding w2(2,3) c1(2,3) by blast
  note c3 = copied_same [OF s3(2)]
  have q3: "quiet me (st3\<lparr>lg_block := []\<rparr>)" using c3(1) by (simp add: quiet_def)
  obtain st4 where s4: "write_head me (st3\<lparr>lg_block := []\<rparr>) = Inr st4"
      "writes me (st3\<lparr>lg_block := []\<rparr>) ?start (put_header (view (lg_cache st3) ?start) []) st4"
    using write_head_writes [OF q3] c3(3,4) w2(3,5) c1(3,4) st by auto
  show ?thesis using s1 s2 s3 s4 ne by (auto simp: commit_def phases_def Let_def)
qed

lemma phases_images:
  assumes p: "phases me st st1 st2 st3 st4" and lay: "log_layout (lg_start st) (lg_block st) (bc_disk (lg_cache st))"
  obtains h1 h3 where "lg_hist st4 = lg_hist st @ h1 @ bc_disk (lg_cache st2) # h3 @ [bc_disk (lg_cache st4)]"
    "\<And>d. d \<in> set h1 \<Longrightarrow> length d = length (bc_disk (lg_cache st)) \<and>
       (\<forall>m. m \<notin> log_slots (lg_start st) (lg_block st) \<longrightarrow> d ! m = bc_disk (lg_cache st) ! m)"
    "\<And>d. d \<in> set (bc_disk (lg_cache st2) # h3) \<Longrightarrow> length d = length (bc_disk (lg_cache st)) \<and>
       (\<forall>m. m \<notin> set (lg_block st) \<longrightarrow> d ! m = bc_disk (lg_cache st2) ! m)"
    "lg_block st4 = []"
proof -
  from p have c1: "copied me st ((!) (lg_block st)) (\<lambda>t. lg_start st + t + 1) (set [0..<length (lg_block st)]) st1"
    and w2: "writes me st1 (lg_start st) (put_header (view (lg_cache st1) (lg_start st)) (lg_block st)) st2"
    and c3: "copied me st2 (\<lambda>t. lg_start st + t + 1) ((!) (lg_block st)) (set [0..<length (lg_block st)]) st3"
    and w4: "writes me (st3\<lparr>lg_block := []\<rparr>) (lg_start st) (put_header (view (lg_cache st3) (lg_start st)) []) st4"
    by (simp_all add: phases_def Let_def)
  have len2: "length (bc_disk (lg_cache st2)) = length (bc_disk (lg_cache st))"
    using writes_same(5) [OF w2] copied_same(4) [OF c1] by simp
  obtain h1 where h1: "lg_hist st1 = lg_hist st @ h1" "\<And>d. d \<in> set h1 \<Longrightarrow> length d = length (bc_disk (lg_cache st))"
      "\<And>d m. d \<in> set h1 \<Longrightarrow> m \<notin> log_slots (lg_start st) (lg_block st) \<Longrightarrow> d ! m = bc_disk (lg_cache st) ! m"
    by (rule copied_hist [OF c1]) blast
  obtain h3 where h3: "lg_hist st3 = lg_hist st2 @ h3" "\<And>d. d \<in> set h3 \<Longrightarrow> length d = length (bc_disk (lg_cache st2))"
      "\<And>d m. d \<in> set h3 \<Longrightarrow> m \<notin> (!) (lg_block st) ` set [0..<length (lg_block st)] \<Longrightarrow> d ! m = bc_disk (lg_cache st2) ! m"
    by (rule copied_hist [OF c3]) blast
  show thesis
  proof (rule that)
    show "lg_hist st4 = lg_hist st @ h1 @ bc_disk (lg_cache st2) # h3 @ [bc_disk (lg_cache st4)]"
      using writes_same(4) [OF w4] h3(1) writes_same(4) [OF w2] h1(1) by simp
    show "lg_block st4 = []" using writes_same(2) [OF w4] by simp
  qed (use h1(2,3) h3(2,3) len2 in \<open>auto simp only: image_nth set_simps insert_iff\<close>)
qed

lemma phases_disks:
  assumes p: "phases me st st1 st2 st3 st4" and lay: "log_layout (lg_start st) (lg_block st) (bc_disk (lg_cache st))"
  shows "bc_disk (lg_cache st2) ! lg_start st = put_header (view (lg_cache st) (lg_start st)) (lg_block st)"
    "\<And>t. t < length (lg_block st) \<Longrightarrow> bc_disk (lg_cache st2) ! (lg_start st + t + 1) = view (lg_cache st) (lg_block st ! t)"
    "\<And>m. m \<notin> insert (lg_start st) (log_slots (lg_start st) (lg_block st)) \<Longrightarrow> bc_disk (lg_cache st2) ! m = bc_disk (lg_cache st) ! m"
    "bc_disk (lg_cache st4) ! lg_start st = put_header (put_header (view (lg_cache st) (lg_start st)) (lg_block st)) []"
    "\<And>b. b \<in> set (lg_block st) \<Longrightarrow> bc_disk (lg_cache st4) ! b = view (lg_cache st) b"
    "\<And>m. m \<notin> insert (lg_start st) (log_slots (lg_start st) (lg_block st) \<union> set (lg_block st)) \<Longrightarrow>
       bc_disk (lg_cache st4) ! m = bc_disk (lg_cache st) ! m"
    "length (bc_disk (lg_cache st4)) = length (bc_disk (lg_cache st))"
proof -
  let ?start = "lg_start st" and ?bs = "lg_block st"
  let ?T = "set [0..<length ?bs]"
  note L = log_layoutD [OF lay]
  from p have c1: "copied me st ((!) ?bs) (\<lambda>t. ?start + t + 1) ?T st1"
    and w2: "writes me st1 ?start (put_header (view (lg_cache st1) ?start) ?bs) st2"
    and c3: "copied me st2 (\<lambda>t. ?start + t + 1) ((!) ?bs) ?T st3"
    and w4: "writes me (st3\<lparr>lg_block := []\<rparr>) ?start (put_header (view (lg_cache st3) ?start) []) st4"
    by (simp_all add: phases_def Let_def)
  note c1 = copied_same [OF c1] and w2 = writes_same [OF w2] and c3 = copied_same [OF c3, unfolded image_nth] and w4 = writes_same [OF w4]
  have st: "?start < length (bc_disk (lg_cache st))" using L(3) by simp
  have nb: "?start \<notin> set ?bs" using L(5) [of ?start] by auto
  have v1: "view (lg_cache st1) ?start = view (lg_cache st) ?start" by (rule c1(7)) auto
  show d2: "bc_disk (lg_cache st2) ! ?start = put_header (view (lg_cache st) ?start) ?bs" using w2(5) v1 st c1(4) by simp
  show l2: "bc_disk (lg_cache st2) ! (?start + t + 1) = view (lg_cache st) (?bs ! t)" if "t < length ?bs" for t
    using w2(5) c1(6) [of t] that by simp
  show o2: "bc_disk (lg_cache st2) ! m = bc_disk (lg_cache st) ! m" if "m \<notin> insert ?start (log_slots ?start ?bs)" for m
    using w2(5) c1(8) [of m] that by simp
  have v2: "view (lg_cache st2) (?start + t + 1) = view (lg_cache st) (?bs ! t)" if "t < length ?bs" for t
    using w2(6) [of "?start + t + 1"] c1(5) [of t] that by simp
  have v3: "view (lg_cache st3) ?start = put_header (view (lg_cache st) ?start) ?bs"
    using c3(7) [OF nb] w2(6) [of ?start] v1 by simp
  have d4: "bc_disk (lg_cache st4) = (bc_disk (lg_cache st3))[?start := put_header (put_header (view (lg_cache st) ?start) ?bs) []]"
    using w4(5) v3 by simp
  have len: "length (bc_disk (lg_cache st3)) = length (bc_disk (lg_cache st))" using c3(4) w2(5) c1(4) by simp
  show "bc_disk (lg_cache st4) ! ?start = put_header (put_header (view (lg_cache st) ?start) ?bs) []" using d4 st len by simp
  show "length (bc_disk (lg_cache st4)) = length (bc_disk (lg_cache st))" using d4 len by simp
  show "bc_disk (lg_cache st4) ! b = view (lg_cache st) b" if b: "b \<in> set ?bs" for b
  proof -
    from b obtain t where t: "t < length ?bs" "b = ?bs ! t" unfolding in_set_conv_nth by blast
    moreover have "?start \<noteq> b" using nb b by auto
    ultimately show ?thesis using d4 c3(6) [of t] v2 [of t] by simp
  qed
  show "bc_disk (lg_cache st4) ! m = bc_disk (lg_cache st) ! m" if "m \<notin> insert ?start (log_slots ?start ?bs \<union> set ?bs)" for m
    using d4 c3(8) [of m] o2 [of m] that by simp
qed

subsection \<open>Crash safety\<close>

text \<open>Recovery of image \<open>d\<close> gives the homes in \<open>bs\<close> the contents \<open>f\<close>, leaves every block outside the
  log as in \<open>disk\<close> and empties the log.\<close>

definition recovers_to :: "nat \<Rightarrow> nat list \<Rightarrow> block list \<Rightarrow> block list \<Rightarrow> (nat \<Rightarrow> block) \<Rightarrow> bool" where
  "recovers_to start bs disk d f \<longleftrightarrow> (\<forall>pid sz. \<exists>rt. initlog pid start sz d = Inr rt \<and>
     rd32 (bc_disk (lg_cache rt) ! start) 0 = 0 \<and> (\<forall>b \<in> set bs. bc_disk (lg_cache rt) ! b = f b) \<and>
     (\<forall>m. m \<notin> set bs \<longrightarrow> m \<notin> {start..start + length bs} \<longrightarrow> bc_disk (lg_cache rt) ! m = disk ! m))"

lemma slots_inside: "insert start (log_slots start bs) = {start..start + length bs}"
proof
  show "{start..start + length bs} \<subseteq> insert start (log_slots start bs)"
  proof
    fix m assume "m \<in> {start..start + length bs}"
    then show "m \<in> insert start (log_slots start bs)" by (cases "m = start") (auto intro!: image_eqI [of _ _ "m - start - 1"])
  qed
qed auto

lemma recovers_uncommitted:
  assumes lay: "log_layout start bs disk" and hdr: "rd32 (disk ! start) 0 = 0" and len: "length d = length disk"
    and same: "\<forall>m. m \<notin> log_slots start bs \<longrightarrow> d ! m = disk ! m"
  shows "recovers_to start bs disk d (\<lambda>b. disk ! b)"
  unfolding recovers_to_def
proof (intro allI)
  fix pid sz
  note L = log_layoutD [OF lay]
  have "start \<notin> log_slots start bs" by auto
  then have s: "d ! start = disk ! start" using same by blast
  have l: "start < length d" "length (d ! start) = 512" using L(3,7) len s by simp_all
  have old: "d ! m = disk ! m \<and> m \<noteq> start" if "m \<in> set bs \<or> m \<notin> {start..start + length bs}" for m
    using that same slots_inside [of start bs] L(5) [of m] by auto
  from initlog_empty [OF _ l, of pid sz] hdr s obtain rt where
    rt: "initlog pid start sz d = Inr rt" "rd32 (bc_disk (lg_cache rt) ! start) 0 = 0"
      "\<forall>m. m \<noteq> start \<longrightarrow> bc_disk (lg_cache rt) ! m = d ! m" by auto
  then show "\<exists>rt. initlog pid start sz d = Inr rt \<and> rd32 (bc_disk (lg_cache rt) ! start) 0 = 0 \<and>
      (\<forall>b \<in> set bs. bc_disk (lg_cache rt) ! b = disk ! b) \<and>
      (\<forall>m. m \<notin> set bs \<longrightarrow> m \<notin> {start..start + length bs} \<longrightarrow> bc_disk (lg_cache rt) ! m = disk ! m)"
    using old by (intro exI [of _ rt]) simp
qed

lemma recovers_finished:
  assumes lay: "log_layout start bs disk" and len: "length d = length disk" and hdr: "d ! start = put_header x []" "length x = 512"
    and home: "\<And>b. b \<in> set bs \<Longrightarrow> d ! b = f b"
    and same: "\<And>m. m \<notin> insert start (log_slots start bs \<union> set bs) \<Longrightarrow> d ! m = disk ! m"
  shows "recovers_to start bs disk d f"
  unfolding recovers_to_def
proof (intro allI)
  fix pid sz
  note L = log_layoutD [OF lay]
  have l: "rd32 (d ! start) 0 = 0" "start < length d" "length (d ! start) = 512"
    using L(3) len hdr put_header_nil [OF hdr(2)] by simp_all
  have st: "m \<noteq> start" if "m \<in> set bs \<or> m \<notin> {start..start + length bs}" for m using that L(5) [of m] by auto
  have out: "d ! m = disk ! m" if "m \<notin> set bs" "m \<notin> {start..start + length bs}" for m
    using that same [of m] slots_inside [of start bs] by blast
  from initlog_empty [OF l, of pid sz] obtain rt where
    rt: "initlog pid start sz d = Inr rt" "rd32 (bc_disk (lg_cache rt) ! start) 0 = 0"
      "\<forall>m. m \<noteq> start \<longrightarrow> bc_disk (lg_cache rt) ! m = d ! m" by blast
  then show "\<exists>rt. initlog pid start sz d = Inr rt \<and> rd32 (bc_disk (lg_cache rt) ! start) 0 = 0 \<and>
      (\<forall>b \<in> set bs. bc_disk (lg_cache rt) ! b = f b) \<and>
      (\<forall>m. m \<notin> set bs \<longrightarrow> m \<notin> {start..start + length bs} \<longrightarrow> bc_disk (lg_cache rt) ! m = disk ! m)"
    using home out st by (intro exI [of _ rt]) simp
qed

lemma recovers_committed:
  assumes lay: "log_layout start bs disk" and len: "length d = length disk" and hdr: "d ! start = put_header x bs" "length x = 512"
    and log: "\<And>t. t < length bs \<Longrightarrow> d ! (start + t + 1) = f (bs ! t)"
    and same: "\<And>m. m \<notin> set bs \<Longrightarrow> m \<notin> {start..start + length bs} \<Longrightarrow> d ! m = disk ! m"
  shows "recovers_to start bs disk d f"
  unfolding recovers_to_def
proof (intro allI)
  fix pid sz
  obtain rt where "initlog pid start sz d = Inr rt \<and> rd32 (bc_disk (lg_cache rt) ! start) 0 = 0 \<and>
    (\<forall>b \<in> set bs. bc_disk (lg_cache rt) ! b = f b) \<and> (\<forall>m. m \<noteq> start \<longrightarrow> m \<notin> set bs \<longrightarrow> bc_disk (lg_cache rt) ! m = d ! m)"
    using initlog_full [OF lay len hdr, of f pid sz] log by blast
  moreover have "m \<noteq> start" if "m \<notin> {start..start + length bs}" for m using that by auto
  ultimately show "\<exists>rt. initlog pid start sz d = Inr rt \<and> rd32 (bc_disk (lg_cache rt) ! start) 0 = 0 \<and>
      (\<forall>b \<in> set bs. bc_disk (lg_cache rt) ! b = f b) \<and>
      (\<forall>m. m \<notin> set bs \<longrightarrow> m \<notin> {start..start + length bs} \<longrightarrow> bc_disk (lg_cache rt) ! m = disk ! m)"
    using same by (intro exI [of _ rt]) simp
qed

text \<open>C1: a transaction is atomic and durable. On a cache in which nobody holds a buffer, with an empty
  log on the disk and with homes outside the log, \<open>commit\<close> returns with every home block on the disk equal to what
  was in the cache, and whichever disk image the machine crashes with, \<open>initlog\<close> recovers either
  all home blocks as they were or all as the transaction left them, and no other block changes.
  After \<open>commit\<close> it recovers the new ones.\<close>

theorem commit_crash_atomic:
  assumes q: "quiet me st" and lay: "log_layout (lg_start st) (lg_block st) (bc_disk (lg_cache st))"
    and ne: "lg_block st \<noteq> []" and hdr: "rd32 (bc_disk (lg_cache st) ! lg_start st) 0 = 0"
    and len: "length (view (lg_cache st) (lg_start st)) = 512"
  shows "\<exists>st' hs. commit me st = Inr st' \<and> lg_block st' = [] \<and> lg_hist st' = lg_hist st @ hs \<and>
    (\<forall>b \<in> set (lg_block st). bc_disk (lg_cache st') ! b = view (lg_cache st) b) \<and>
    (\<forall>d \<in> set (bc_disk (lg_cache st) # hs).
       recovers_to (lg_start st) (lg_block st) (bc_disk (lg_cache st)) d (\<lambda>b. bc_disk (lg_cache st) ! b) \<or>
       recovers_to (lg_start st) (lg_block st) (bc_disk (lg_cache st)) d (view (lg_cache st))) \<and>
    recovers_to (lg_start st) (lg_block st) (bc_disk (lg_cache st)) (bc_disk (lg_cache st')) (view (lg_cache st))"
proof -
  let ?start = "lg_start st" and ?bs = "lg_block st" and ?disk = "bc_disk (lg_cache st)" and ?new = "view (lg_cache st)"
  note L = log_layoutD [OF lay]
  obtain st1 st2 st3 st4 where c: "commit me st = Inr st4" and p: "phases me st st1 st2 st3 st4"
    using commit_phases [OF q lay ne len] by blast
  note D = phases_disks [OF p lay]
  obtain h1 h3 where H: "lg_hist st4 = lg_hist st @ h1 @ bc_disk (lg_cache st2) # h3 @ [bc_disk (lg_cache st4)]"
    "\<And>d. d \<in> set h1 \<Longrightarrow> length d = length ?disk \<and> (\<forall>m. m \<notin> log_slots ?start ?bs \<longrightarrow> d ! m = ?disk ! m)"
    "\<And>d. d \<in> set (bc_disk (lg_cache st2) # h3) \<Longrightarrow> length d = length ?disk \<and> (\<forall>m. m \<notin> set ?bs \<longrightarrow> d ! m = bc_disk (lg_cache st2) ! m)"
    "lg_block st4 = []"
    by (rule phases_images [OF p lay]) blast
  have nb: "?start \<notin> set ?bs" using L(5) [of ?start] by auto
  have old: "recovers_to ?start ?bs ?disk d (\<lambda>b. ?disk ! b)" if "d \<in> set (?disk # h1)" for d
    using that H(2) [of d] by (intro recovers_uncommitted [OF lay hdr]) auto
  have mid: "recovers_to ?start ?bs ?disk d ?new" if d: "d \<in> set (bc_disk (lg_cache st2) # h3)" for d
  proof (rule recovers_committed [OF lay])
    show "length d = length ?disk" using H(3) [OF d] by blast
    show "d ! ?start = put_header (?new ?start) ?bs" using H(3) [OF d] nb D(1) by simp
    show "length (?new ?start) = 512" by (rule len)
    show "d ! (?start + t + 1) = ?new (?bs ! t)" if "t < length ?bs" for t
    proof -
      have "?start + t + 1 \<notin> set ?bs" using L(5) [of "?start + t + 1"] that by auto
      then show ?thesis using H(3) [OF d] D(2) [OF that] by simp
    qed
    show "d ! m = ?disk ! m" if "m \<notin> set ?bs" "m \<notin> {?start..?start + length ?bs}" for m
      using H(3) [OF d] that D(3) [unfolded slots_inside] by simp
  qed
  have fin: "recovers_to ?start ?bs ?disk (bc_disk (lg_cache st4)) ?new"
    by (rule recovers_finished [OF lay D(7,4) length_put_header [OF L(1) len] D(5,6)])
  show ?thesis
    using c H(1,4) D(5) old mid fin
    by (intro exI [of _ st4] exI [of _ "h1 @ bc_disk (lg_cache st2) # h3 @ [bc_disk (lg_cache st4)]"]) auto
qed

definition one_write :: fslog where
  "one_write = \<lparr>lg_start = 2, lg_size = 3, lg_outstanding = 0, lg_committing = True, lg_block = [0],
     lg_cache = upd_buf 0 (\<lambda>_. \<lparr>b_valid = True, b_dirty = True, b_dev = 1, b_blockno = 0, b_lock = None, b_refcnt = 0,
       b_data = replicate 512 7\<rparr>) (binit (replicate 5 (replicate 512 0))), lg_hist = []\<rparr>"

lemma one_write_quiet:
  "quiet 1 one_write" "view (lg_cache one_write) 0 = replicate 512 7" "view (lg_cache one_write) 2 = replicate 512 0"
  "bc_disk (lg_cache one_write) = replicate 5 (replicate 512 0)"
proof -
  let ?b = "\<lparr>b_valid = True, b_dirty = True, b_dev = 1, b_blockno = 0, b_lock = None, b_refcnt = 0, b_data = replicate 512 7\<rparr>"
  let ?cold = "binit (replicate 5 (replicate 512 0))" and ?s = "lg_cache one_write"
  have s: "?s = upd_buf 0 (\<lambda>_. ?b) ?cold" by (simp add: one_write_def)
  have z: "bc_buf ?cold ! i = zero_buf" if "i < 30" for i using that by (simp add: binit_def NBUF_def)
  have at: "bc_buf ?s ! i = (if i = 0 then ?b else zero_buf)" if "i < 30" for i
    using that z [OF that] bio_okD(1) [OF binit_ok] by (simp add: s)
  have ok: "bio_ok ?s" unfolding s by (rule bio_ok_upd [OF binit_ok]) (use z in \<open>auto simp: zero_buf_def\<close>)
  then have h: "held 1 ?s {}" unfolding held_def using at by (simp add: zero_buf_def)
  have d: "dirtyi ?s = {0}" using at by (auto simp: dirtyi_def zero_buf_def split: if_splits)
  show "quiet 1 one_write" using h d by (simp add: quiet_def)
  show "view ?s 0 = replicate 512 7" using view_cached [OF ok, of 0 0] at by simp
  show k: "bc_disk ?s = replicate 5 (replicate 512 0)" by (simp add: s binit_def)
  have "view ?s 2 = bc_disk ?s ! 2" by (rule view_disk [OF h]) (use d at in simp_all)
  then show "view ?s 2 = replicate 512 0" by (simp add: k)
qed

theorem commit_crash_atomic_witness:
  "\<exists>st'. commit 1 one_write = Inr st' \<and> bc_disk (lg_cache st') ! 0 = replicate 512 7 \<and>
     recovers_to 2 [0] (replicate 5 (replicate 512 0)) (bc_disk (lg_cache st')) (view (lg_cache one_write))"
proof -
  have f: "lg_start one_write = 2" "lg_block one_write = [0]" by (simp_all add: one_write_def)
  have z: "rd32 (replicate 512 0) 0 = 0" by (simp add: rd32_def)
  have "log_layout 2 [0] (replicate 5 (replicate 512 0))" by (simp add: log_layout_def)
  with commit_crash_atomic [OF one_write_quiet(1), unfolded f one_write_quiet(4)] z one_write_quiet(2,3)
  show ?thesis by auto
qed


subsection \<open>Reservation of log space\<close>

text \<open>The interleaving of file system operations as seen by the log: each running operation has a
  budget, the number of blocks it may still write, which starts at \<open>MAXOPBLOCKS\<close>. Between two steps
  the buffer cache may change in any way.\<close>

inductive log_reach :: "nat \<Rightarrow> nat \<Rightarrow> fslog \<Rightarrow> nat list \<Rightarrow> bool" where
  init: "log_reach start sz \<lparr>lg_start = start, lg_size = sz, lg_outstanding = 0, lg_committing = False, lg_block = [],
       lg_cache = c, lg_hist = []\<rparr> []"
| enter: "log_reach start sz st B \<Longrightarrow> begin_op st = Some st' \<Longrightarrow> log_reach start sz st' (MAXOPBLOCKS # B)"
| store: "log_reach start sz st (xs @ Suc k # ys) \<Longrightarrow> log_write b (st\<lparr>lg_cache := c\<rparr>) = Inr st' \<Longrightarrow>
    log_reach start sz st' (xs @ k # ys)"
| leave: "log_reach start sz st (xs @ k # ys) \<Longrightarrow> end_op me (st\<lparr>lg_cache := c\<rparr>) = Inr st' \<Longrightarrow> log_reach start sz st' (xs @ ys)"

definition same_log :: "fslog \<Rightarrow> fslog \<Rightarrow> bool" where
  "same_log st st' \<longleftrightarrow> lg_block st' = lg_block st \<and> lg_size st' = lg_size st \<and> lg_outstanding st' = lg_outstanding st"

lemma same_log_refl [simp]: "same_log st st"
  by (simp add: same_log_def)

lemma same_log_trans [trans]: "same_log a b \<Longrightarrow> same_log b c \<Longrightarrow> same_log a c"
  by (simp add: same_log_def)

lemma log_bread_same: "log_bread me n st = Inr (i, st') \<Longrightarrow> same_log st st'"
proof -
  assume "log_bread me n st = Inr (i, st')"
  then obtain r s where "(case r of Some i \<Rightarrow> Inr (i, with_cache st s) | None \<Rightarrow> Inl Diverges) = (Inr (i, st') :: fault + nat \<times> fslog)"
    unfolding log_bread_def by (simp only: ebind_eq_Inr split_paired_Ex prod.case) blast
  then have "st' = with_cache st s" by (cases r) simp_all
  then show ?thesis by (simp add: same_log_def with_cache_def)
qed

lemma log_bwrite_same: "log_bwrite me i (put_data j d st) = Inr st' \<Longrightarrow> same_log st st'"
  by (auto simp: same_log_def log_bwrite_def with_cache_def put_data_def)

lemma log_brelse_same: "log_brelse me i st = Inr st' \<Longrightarrow> same_log st st'"
  by (auto simp: same_log_def log_brelse_def with_cache_def)

lemma write_head_same:
  assumes "write_head me st = Inr st'"
  shows "same_log st st'"
proof -
  from assms obtain i st1 st2 d where s: "log_bread me (lg_start st) st = Inr (i, st1)"
      "log_bwrite me i (put_data i d st1) = Inr st2" "log_brelse me i st2 = Inr st'"
    unfolding write_head_def by (simp only: ebind_eq_Inr split_paired_Ex prod.case) blast
  note log_bread_same [OF s(1)]
  also note log_bwrite_same [OF s(2)]
  also note log_brelse_same [OF s(3)]
  finally show ?thesis .
qed

lemma install_one_same:
  assumes "install_one me t st = Inr st'"
  shows "same_log st st'"
proof -
  from assms obtain i st1 j st2 d st3 st4 where s: "log_bread me (lg_start st + t + 1) st = Inr (i, st1)"
      "log_bread me (lg_block st ! t) st1 = Inr (j, st2)"
      "log_bwrite me j (put_data j d st2) = Inr st3" "log_brelse me i st3 = Inr st4" "log_brelse me j st4 = Inr st'"
    unfolding install_one_def by (simp only: ebind_eq_Inr split_paired_Ex prod.case) blast
  note log_bread_same [OF s(1)]
  also note log_bread_same [OF s(2)]
  also note log_bwrite_same [OF s(3)]
  also note log_brelse_same [OF s(4)]
  also note log_brelse_same [OF s(5)]
  finally show ?thesis .
qed

lemma write_log_one_same:
  assumes "write_log_one me t st = Inr st'"
  shows "same_log st st'"
proof -
  from assms obtain i st1 j st2 d st3 st4 where s: "log_bread me (lg_start st + t + 1) st = Inr (i, st1)"
      "log_bread me (lg_block st ! t) st1 = Inr (j, st2)"
      "log_bwrite me i (put_data i d st2) = Inr st3" "log_brelse me j st3 = Inr st4" "log_brelse me i st4 = Inr st'"
    unfolding write_log_one_def by (simp only: ebind_eq_Inr split_paired_Ex prod.case) blast
  note log_bread_same [OF s(1)]
  also note log_bread_same [OF s(2)]
  also note log_bwrite_same [OF s(3)]
  also note log_brelse_same [OF s(4)]
  also note log_brelse_same [OF s(5)]
  finally show ?thesis .
qed

lemma for_tail_same:
  assumes "\<And>t st st'. f t st = Inr st' \<Longrightarrow> same_log st st'"
  shows "for_tail f ts st = Inr st' \<Longrightarrow> same_log st st'"
proof (induction ts arbitrary: st)
  case (Cons t ts)
  from Cons.prems obtain st1 where "f t st = Inr st1" "for_tail f ts st1 = Inr st'" by auto
  with Cons.IH [of st1] assms [of t st st1] same_log_trans show ?case by blast
qed simp

lemma commit_keeps:
  assumes "commit me st = Inr st'"
  shows "lg_block st' = [] \<and> lg_size st' = lg_size st \<and> lg_outstanding st' = lg_outstanding st"
proof (cases "lg_block st = []")
  case True
  with assms show ?thesis by (simp add: commit_def)
next
  case False
  with assms obtain st1 st2 st3 where s: "write_log me st = Inr st1" "write_head me st1 = Inr st2" "install_trans me st2 = Inr st3"
    "write_head me (st3\<lparr>lg_block := []\<rparr>) = Inr st'"
    by (simp only: commit_def if_True simp_thms ebind_eq_Inr) blast
  have "same_log st st1"
    using s(1) unfolding write_log_def by (rule for_tail_same [rotated]) (rule write_log_one_same)
  moreover have "same_log st2 st3"
    using s(3) unfolding install_trans_def by (rule for_tail_same [rotated]) (rule install_one_same)
  ultimately show ?thesis using write_head_same [OF s(2)] write_head_same [OF s(4)] by (simp add: same_log_def)
qed

lemma sum_list_le_mult: "\<forall>k \<in> set B. k \<le> (c :: nat) \<Longrightarrow> sum_list B \<le> length B * c"
  by (induction B) auto

lemma log_reach_inv:
  "log_reach start sz st B \<Longrightarrow> lg_size st = sz \<and> lg_outstanding st = int (length B) \<and> \<not> lg_committing st \<and>
    length (lg_block st) + sum_list B \<le> 30 \<and> (B = [] \<longrightarrow> lg_block st = []) \<and> (\<forall>k \<in> set B. k \<le> 10)"
proof (induction rule: log_reach.induct)
  case (enter start sz st B st')
  then have st': "st' = st\<lparr>lg_outstanding := lg_outstanding st + 1\<rparr>"
    and room: "int (length (lg_block st)) + (lg_outstanding st + 1) * 10 \<le> 30"
    by (auto simp: begin_op_def MAXOPBLOCKS_def LOGSIZE_def split: if_splits)
  have "sum_list B \<le> length B * 10" using enter.IH by (intro sum_list_le_mult) blast
  then show ?case using enter.IH room st' by (simp add: MAXOPBLOCKS_def)
next
  case (store start sz st xs k ys b c st')
  then show ?case by (auto simp: log_write_def Let_def split: if_splits)
next
  case (leave start sz st xs k ys me c st')
  show ?case
  proof (cases "xs @ ys = []")
    case True
    with leave obtain st2 where "commit me (st\<lparr>lg_cache := c, lg_outstanding := 0, lg_committing := True\<rparr>) = Inr st2"
      "st' = st2\<lparr>lg_committing := False\<rparr>"
      by (auto simp: end_op_def Let_def)
    with commit_keeps [OF this(1)] leave True show ?thesis by auto
  next
    case False
    then have "length xs + length ys \<noteq> 0" by auto
    then have "int (length xs) + int (length ys) \<noteq> 0" by linarith
    with leave have "st' = st\<lparr>lg_cache := c, lg_outstanding := lg_outstanding st - 1\<rparr>"
      by (auto simp: end_op_def Let_def)
    with leave False show ?thesis by auto
  qed
qed simp

text \<open>C37: the reservation of \<open>begin_op\<close> suffices when the log has more than \<open>LOGSIZE\<close> blocks: in every
  interleaving of operations that write at most \<open>MAXOPBLOCKS\<close> blocks each, an operation
  that has not used up its budget can call \<open>log_write\<close> on any buffer, no panic occurs, and the
  header never has more than \<open>LOGSIZE\<close> entries.\<close>

theorem log_reservation:
  assumes "log_reach start sz st (xs @ Suc k # ys)" and "31 \<le> sz"
  shows "\<exists>st'. log_write b (st\<lparr>lg_cache := c\<rparr>) = Inr st' \<and> length (lg_block st') \<le> LOGSIZE \<and>
    b_blockno (bc_buf c ! b) \<in> set (lg_block st') \<and> set (lg_block st) \<subseteq> set (lg_block st')"
  using log_reach_inv [OF assms(1)] assms(2) by (auto simp: log_write_def Let_def LOGSIZE_def)

lemma three_operations:
  "\<exists>st. log_reach 2 sz st [10, 10, 10] \<and> lg_block st = [] \<and> lg_outstanding st = 3"
proof -
  let ?st = "\<lambda>k. \<lparr>lg_start = 2, lg_size = sz, lg_outstanding = k, lg_committing = False, lg_block = [], lg_cache = binit [], lg_hist = []\<rparr>"
  have "log_reach 2 sz (?st 0) []" by (rule log_reach.init)
  from log_reach.enter [OF this, of "?st 1"] have "log_reach 2 sz (?st 1) [10]"
    by (simp add: begin_op_def MAXOPBLOCKS_def LOGSIZE_def)
  from log_reach.enter [OF this, of "?st 2"] have "log_reach 2 sz (?st 2) [10, 10]"
    by (simp add: begin_op_def MAXOPBLOCKS_def LOGSIZE_def)
  from log_reach.enter [OF this, of "?st 3"] have "log_reach 2 sz (?st 3) [10, 10, 10]"
    by (simp add: begin_op_def MAXOPBLOCKS_def LOGSIZE_def)
  then show ?thesis by (intro exI [of _ "?st 3"]) simp
qed

theorem log_reservation_witness:
  "\<exists>st st'. log_reach 2 31 st [10, 10, 10] \<and> log_write 0 (st\<lparr>lg_cache := binit []\<rparr>) = Inr st' \<and> lg_block st' = [0]"
proof -
  obtain st where st: "log_reach 2 31 st [10, 10, 10]" "lg_block st = []" using three_operations by blast
  have "log_reach 2 31 st ([] @ Suc 9 # [10, 10])" using st(1) by simp
  from log_reservation [OF this, of 0 "binit []"] obtain st' where w: "log_write 0 (st\<lparr>lg_cache := binit []\<rparr>) = Inr st'" by auto
  have "b_blockno (bc_buf (binit []) ! 0) = 0" by (simp add: binit_def NBUF_def zero_buf_def)
  with w st(2) have "lg_block st' = [0]" by (auto simp: log_write_def Let_def split: if_splits)
  with w st(1) show ?thesis by blast
qed

text \<open>The file system that \<open>mkfs\<close> builds has a log of \<open>LOGSIZE\<close> blocks, the header included.\<close>

lemma split_budget: "0 < sum_list B \<Longrightarrow> \<exists>xs k ys. B = xs @ Suc k # (ys :: nat list)"
proof (induction B)
  case (Cons a B)
  show ?case
  proof (cases a)
    case 0
    with Cons obtain xs k ys where "B = xs @ Suc k # ys" by auto
    then have "a # B = (a # xs) @ Suc k # ys" by simp
    then show ?thesis by blast
  next
    case (Suc k)
    then have "a # B = [] @ Suc k # B" by simp
    then show ?thesis by blast
  qed
qed simp

lemma fill_log:
  "n \<le> 29 \<Longrightarrow> \<exists>st B. log_reach 2 30 st B \<and> length (lg_block st) = n \<and> sum_list B = 30 - n \<and> set (lg_block st) \<subseteq> {..<n}"
proof (induction n)
  case 0
  obtain st where "log_reach 2 30 st [10, 10, 10]" "lg_block st = []" using three_operations by blast
  then show ?case by (intro exI [of _ st] exI [of _ "[10, 10, 10]"]) simp
next
  case (Suc n)
  then obtain st B where s: "log_reach 2 30 st B" "length (lg_block st) = n" "sum_list B = 30 - n" "set (lg_block st) \<subseteq> {..<n}" by auto
  with Suc.prems have "0 < sum_list B" by simp
  from split_budget [OF this] obtain xs k ys where B: "B = xs @ Suc k # ys" by blast
  note inv = log_reach_inv [OF s(1)]
  let ?c = "upd_buf 0 (\<lambda>b. b\<lparr>b_blockno := n\<rparr>) (binit [])"
  let ?st = "st\<lparr>lg_block := lg_block st @ [n], lg_cache := pin 0 ?c\<rparr>"
  have bn: "b_blockno (bc_buf ?c ! 0) = n" by (simp add: binit_def NBUF_def)
  have "n \<notin> set (lg_block st)" using s(4) by auto
  then have "log_write 0 (st\<lparr>lg_cache := ?c\<rparr>) = Inr ?st"
    using inv B s(2) Suc.prems bn by (simp add: log_write_def Let_def LOGSIZE_def)
  from log_reach.store [OF s(1) [unfolded B] this] have "log_reach 2 30 ?st (xs @ k # ys)" .
  moreover have "set (lg_block ?st) \<subseteq> {..<Suc n}" using s(4) by auto
  ultimately show ?case using s(2,3) B by (intro exI [of _ ?st] exI [of _ "xs @ k # ys"]) simp
qed

text \<open>With the log of 30 blocks that \<open>mkfs\<close> builds, the reservation is one block short: three
  operations that \<open>begin_op\<close> has admitted together can reach a state in which one of them, within its
  budget of \<open>MAXOPBLOCKS\<close> blocks, panics in \<open>log_write\<close>.\<close>

theorem log_reservation_short:
  "\<exists>st xs k ys. log_reach 2 LOGSIZE st (xs @ Suc k # ys) \<and> length (lg_block st) < LOGSIZE \<and>
     (\<forall>b c. log_write b (st\<lparr>lg_cache := c\<rparr>) = Inl (Panic ''too big a transaction''))"
proof -
  obtain st B where s: "log_reach 2 30 st B" "length (lg_block st) = 29" "sum_list B = 1" using fill_log [of 29] by auto
  from split_budget [of B] s(3) obtain xs k ys where B: "B = xs @ Suc k # ys" by auto
  have "lg_size st = 30" using log_reach_inv [OF s(1)] by blast
  with s B show ?thesis
    by (intro exI [of _ st] exI [of _ xs] exI [of _ k] exI [of _ ys]) (simp add: log_write_def Let_def LOGSIZE_def)
qed

end
