(* ===== verification/XV6_Fs.thy ===== *)
theory XV6_Fs
  imports XV6_Log
begin

text \<open>
  The file system of xv6 up to the contents of inodes (\<open>src/project3/xv6-modified/fs.c\<close>, \<open>fs.h\<close>,
  \<open>file.h\<close>): the block allocator on the free bit map, the inode cache, the block map of an inode with
  its indirect block, \<open>itrunc\<close>, \<open>readi\<close> and \<open>writei\<close>. The state has one list of blocks,
  which is what \<open>bread\<close> shows through the buffer cache (\<open>view\<close>), and the block numbers in the header
  of the log; \<open>block_write_refines\<close> proves that the sequence \<open>bread\<close>, change, \<open>log_write\<close>,
  \<open>brelse\<close> on the cache and the log implements \<open>wr_blk\<close>. A pointer to an inode is an index of the
  inode cache. A call that has to sleep for an inode lock is the fault \<open>Sleeps\<close>.
\<close>

subsection \<open>Layout\<close>

definition NDIRECT :: nat where "NDIRECT = 12"
definition NINDIRECT :: nat where "NINDIRECT = 128"
definition MAXFILE :: nat where "MAXFILE = NDIRECT + NINDIRECT"
definition IPB :: nat where "IPB = 8"
definition BPB :: nat where "BPB = 4096"
definition NINODE :: nat where "NINODE = 50"
definition NDEV :: int where "NDEV = 10"
definition ROOTDEV :: nat where "ROOTDEV = 1"
definition ROOTINO :: nat where "ROOTINO = 1"

definition T_DIR :: "16 word" where "T_DIR = 1"
definition T_FILE :: "16 word" where "T_FILE = 2"
definition T_DEV :: "16 word" where "T_DEV = 3"

lemmas fs_consts = NDIRECT_def NINDIRECT_def MAXFILE_def IPB_def BPB_def BSIZE_def

record superblock =
  sb_size :: nat
  sb_nblocks :: nat
  sb_ninodes :: nat
  sb_nlog :: nat
  sb_logstart :: nat
  sb_inodestart :: nat
  sb_bmapstart :: nat

record dinode =
  d_type :: "16 word"
  d_major :: "16 word"
  d_minor :: "16 word"
  d_nlink :: "16 word"
  d_size :: nat
  d_addrs :: "nat list"

record inode =
  i_dev :: nat
  i_inum :: nat
  i_ref :: int
  i_lock :: "int option"
  i_valid :: bool
  i_type :: "16 word"
  i_major :: "16 word"
  i_minor :: "16 word"
  i_nlink :: "16 word"
  i_size :: nat
  i_addrs :: "nat list"

record fsys =
  fs_sb :: superblock
  fs_blk :: "block list"
  fs_log :: "nat list"
  fs_outstanding :: int
  fs_inode :: "inode list"

definition IBLOCK :: "nat \<Rightarrow> superblock \<Rightarrow> nat" where
  "IBLOCK i sb = i div IPB + sb_inodestart sb"

definition BBLOCK :: "nat \<Rightarrow> superblock \<Rightarrow> nat" where
  "BBLOCK b sb = b div BPB + sb_bmapstart sb"

definition bytes16 :: "16 word \<Rightarrow> byte list" where
  "bytes16 x = [ucast x, ucast (drop_bit 8 x)]"

definition rd16 :: "byte list \<Rightarrow> nat \<Rightarrow> 16 word" where
  "rd16 bs off = word_of_nat (unat (bs ! off) + 256 * unat (bs ! (off + 1)))"

definition get_sb :: "block \<Rightarrow> superblock" where
  "get_sb d = \<lparr>sb_size = rd32 d 0, sb_nblocks = rd32 d 4, sb_ninodes = rd32 d 8, sb_nlog = rd32 d 12,
     sb_logstart = rd32 d 16, sb_inodestart = rd32 d 20, sb_bmapstart = rd32 d 24\<rparr>"

text \<open>An inode on the disk takes 64 bytes.\<close>

definition dinode_bytes :: "dinode \<Rightarrow> byte list" where
  "dinode_bytes di = bytes16 (d_type di) @ bytes16 (d_major di) @ bytes16 (d_minor di) @ bytes16 (d_nlink di) @
     bytes32 (d_size di) @ concat (map bytes32 (d_addrs di))"

definition get_dinode :: "block \<Rightarrow> nat \<Rightarrow> dinode" where
  "get_dinode d k =
     (let o' = 64 * k in
      \<lparr>d_type = rd16 d o', d_major = rd16 d (o' + 2), d_minor = rd16 d (o' + 4), d_nlink = rd16 d (o' + 6),
       d_size = rd32 d (o' + 8), d_addrs = map (\<lambda>j. rd32 d (o' + 12 + 4 * j)) [0..<NDIRECT + 1]\<rparr>)"

definition put_dinode :: "block \<Rightarrow> nat \<Rightarrow> dinode \<Rightarrow> block" where
  "put_dinode d k di = patch d (64 * k) (dinode_bytes di)"

subsection \<open>Blocks\<close>

text \<open>\<open>bread\<close> followed by \<open>brelse\<close>; and \<open>bread\<close>, a change of the data, \<open>log_write\<close> and \<open>brelse\<close>.\<close>

definition rd_blk :: "nat \<Rightarrow> nat \<Rightarrow> fsys \<Rightarrow> fault + block" where
  "rd_blk dev n s =
     (if dev \<noteq> 1 then Inl (Panic ''iderw: request not for disk 1'')
      else if n < length (fs_blk s) then Inr (fs_blk s ! n)
      else Inl (Panic ''iderw: block out of range''))"

definition wr_blk :: "nat \<Rightarrow> nat \<Rightarrow> (block \<Rightarrow> block) \<Rightarrow> fsys \<Rightarrow> fault + fsys" where
  "wr_blk dev n f s =
     ebind (rd_blk dev n s) (\<lambda>d.
       if length (fs_log s) \<ge> LOGSIZE \<or> int (length (fs_log s)) \<ge> int (sb_nlog (fs_sb s)) - 1
       then Inl (Panic ''too big a transaction'')
       else if fs_outstanding s < 1 then Inl (Panic ''log_write outside of trans'')
       else Inr (s\<lparr>fs_blk := (fs_blk s)[n := f d],
                   fs_log := (if n \<in> set (fs_log s) then fs_log s else fs_log s @ [n])\<rparr>))"

definition readsb :: "nat \<Rightarrow> fsys \<Rightarrow> fault + superblock" where
  "readsb dev s = ebind (rd_blk dev 1 s) (\<lambda>d. Inr (get_sb d))"

definition bzero :: "nat \<Rightarrow> nat \<Rightarrow> fsys \<Rightarrow> fault + fsys" where
  "bzero dev bno s = wr_blk dev bno (\<lambda>_. replicate BSIZE 0) s"

unbundle bit_operations_syntax

definition mask_of :: "nat \<Rightarrow> byte" where
  "mask_of bi = push_bit (bi mod 8) 1"

definition bit_clear :: "block \<Rightarrow> nat \<Rightarrow> bool" where
  "bit_clear d bi \<longleftrightarrow> (d ! (bi div 8)) AND mask_of bi = 0"

definition mark_used :: "nat \<Rightarrow> block \<Rightarrow> block" where
  "mark_used bi d = d[bi div 8 := (d ! (bi div 8)) OR mask_of bi]"

definition mark_free :: "nat \<Rightarrow> block \<Rightarrow> block" where
  "mark_free bi d = d[bi div 8 := (d ! (bi div 8)) AND NOT (mask_of bi)]"

text \<open>The outer loop of \<open>balloc\<close> runs over the blocks of the bit map, the inner one over the bits.\<close>

function balloc_from :: "nat \<Rightarrow> nat \<Rightarrow> fsys \<Rightarrow> fault + nat \<times> fsys" where
  "balloc_from dev b s =
     (if b < sb_size (fs_sb s)
      then
        ebind (rd_blk dev (BBLOCK b (fs_sb s)) s) (\<lambda>d.
          case find (bit_clear d) [0..<min BPB (sb_size (fs_sb s) - b)] of
            Some bi \<Rightarrow>
              ebind (wr_blk dev (BBLOCK b (fs_sb s)) (mark_used bi) s) (\<lambda>s1.
                ebind (bzero dev (b + bi) s1) (\<lambda>s2. Inr (b + bi, s2)))
          | None \<Rightarrow> balloc_from dev (b + BPB) s)
      else Inl (Panic ''balloc: out of blocks''))"
  by pat_completeness auto
termination
  by (relation "measure (\<lambda>(dev, b, s). sb_size (fs_sb s) - b)") (auto simp: BPB_def)

declare balloc_from.simps [simp del]

definition balloc :: "nat \<Rightarrow> fsys \<Rightarrow> fault + nat \<times> fsys" where
  "balloc dev s = balloc_from dev 0 s"

definition bfree :: "nat \<Rightarrow> nat \<Rightarrow> fsys \<Rightarrow> fault + fsys" where
  "bfree dev b s =
     ebind (readsb dev s) (\<lambda>sb.
       let s1 = s\<lparr>fs_sb := sb\<rparr> in
       ebind (rd_blk dev (BBLOCK b sb) s1) (\<lambda>d.
         if bit_clear d (b mod BPB) then Inl (Panic ''freeing free block'')
         else wr_blk dev (BBLOCK b sb) (mark_free (b mod BPB)) s1))"

subsection \<open>The inode cache\<close>

definition upd_inode :: "nat \<Rightarrow> (inode \<Rightarrow> inode) \<Rightarrow> fsys \<Rightarrow> fsys" where
  "upd_inode ip f s = s\<lparr>fs_inode := (fs_inode s)[ip := f (fs_inode s ! ip)]\<rparr>"

definition no_inode :: inode where
  "no_inode = \<lparr>i_dev = 0, i_inum = 0, i_ref = 0, i_lock = None, i_valid = False, i_type = 0, i_major = 0, i_minor = 0,
     i_nlink = 0, i_size = 0, i_addrs = replicate (NDIRECT + 1) 0\<rparr>"

definition iinit :: "nat \<Rightarrow> fsys \<Rightarrow> fault + fsys" where
  "iinit dev s = ebind (readsb dev s) (\<lambda>sb. Inr (s\<lparr>fs_inode := map (\<lambda>i. i\<lparr>i_lock := None\<rparr>) (fs_inode s), fs_sb := sb\<rparr>))"

definition iget :: "nat \<Rightarrow> nat \<Rightarrow> fsys \<Rightarrow> fault + nat \<times> fsys" where
  "iget dev inum s =
     (case find_slot (\<lambda>i. i_ref i > 0 \<and> i_dev i = dev \<and> i_inum i = inum) (fs_inode s) of
        Some ip \<Rightarrow> Inr (ip, upd_inode ip (\<lambda>i. i\<lparr>i_ref := i_ref i + 1\<rparr>) s)
      | None \<Rightarrow>
          (case find_slot (\<lambda>i. i_ref i = 0) (fs_inode s) of
             Some ip \<Rightarrow> Inr (ip, upd_inode ip (\<lambda>i. i\<lparr>i_dev := dev, i_inum := inum, i_ref := 1, i_valid := False\<rparr>) s)
           | None \<Rightarrow> Inl (Panic ''iget: no inodes'')))"

function ialloc_from :: "nat \<Rightarrow> 16 word \<Rightarrow> nat \<Rightarrow> fsys \<Rightarrow> fault + nat \<times> fsys" where
  "ialloc_from dev ty inum s =
     (if inum < sb_ninodes (fs_sb s)
      then
        ebind (rd_blk dev (IBLOCK inum (fs_sb s)) s) (\<lambda>d.
          if d_type (get_dinode d (inum mod IPB)) = 0
          then
            ebind (wr_blk dev (IBLOCK inum (fs_sb s)) (\<lambda>d. put_dinode d (inum mod IPB)
                \<lparr>d_type = ty, d_major = 0, d_minor = 0, d_nlink = 0, d_size = 0, d_addrs = replicate (NDIRECT + 1) 0\<rparr>) s)
              (iget dev inum)
          else ialloc_from dev ty (inum + 1) s)
      else Inl (Panic ''ialloc: no inodes''))"
  by pat_completeness auto
termination
  by (relation "measure (\<lambda>(dev, ty, inum, s). sb_ninodes (fs_sb s) - inum)") auto

declare ialloc_from.simps [simp del]

definition ialloc :: "nat \<Rightarrow> 16 word \<Rightarrow> fsys \<Rightarrow> fault + nat \<times> fsys" where
  "ialloc dev ty s = ialloc_from dev ty 1 s"

definition iupdate :: "nat \<Rightarrow> fsys \<Rightarrow> fault + fsys" where
  "iupdate ip s =
     (let i = fs_inode s ! ip in
      wr_blk (i_dev i) (IBLOCK (i_inum i) (fs_sb s)) (\<lambda>d. put_dinode d (i_inum i mod IPB)
        \<lparr>d_type = i_type i, d_major = i_major i, d_minor = i_minor i, d_nlink = i_nlink i, d_size = i_size i,
         d_addrs = i_addrs i\<rparr>) s)"

definition idup :: "nat \<Rightarrow> fsys \<Rightarrow> nat \<times> fsys" where
  "idup ip s = (ip, upd_inode ip (\<lambda>i. i\<lparr>i_ref := i_ref i + 1\<rparr>) s)"

definition acquiresleep_inode :: "int \<Rightarrow> nat \<Rightarrow> fsys \<Rightarrow> fault + fsys" where
  "acquiresleep_inode me ip s =
     (if i_lock (fs_inode s ! ip) = None then Inr (upd_inode ip (\<lambda>i. i\<lparr>i_lock := Some me\<rparr>) s) else Inl Sleeps)"

definition ilock :: "int \<Rightarrow> nat \<Rightarrow> fsys \<Rightarrow> fault + fsys" where
  "ilock me ip s =
     (if i_ref (fs_inode s ! ip) < 1 then Inl (Panic ''ilock'')
      else
        ebind (acquiresleep_inode me ip s) (\<lambda>s1.
          let i = fs_inode s1 ! ip in
          if \<not> i_valid i
          then
            ebind (rd_blk (i_dev i) (IBLOCK (i_inum i) (fs_sb s1)) s1) (\<lambda>d.
              let di = get_dinode d (i_inum i mod IPB);
                  s2 = upd_inode ip (\<lambda>i. i\<lparr>i_type := d_type di, i_major := d_major di, i_minor := d_minor di,
                         i_nlink := d_nlink di, i_size := d_size di, i_addrs := d_addrs di, i_valid := True\<rparr>) s1
              in if d_type di = 0 then Inl (Panic ''ilock: no type'') else Inr s2)
          else Inr s1))"

definition iunlock :: "int \<Rightarrow> nat \<Rightarrow> fsys \<Rightarrow> fault + fsys" where
  "iunlock me ip s =
     (if i_lock (fs_inode s ! ip) \<noteq> Some me \<or> i_ref (fs_inode s ! ip) < 1 then Inl (Panic ''iunlock'')
      else Inr (upd_inode ip (\<lambda>i. i\<lparr>i_lock := None\<rparr>) s))"

subsection \<open>The contents of an inode\<close>

definition addr_of :: "fsys \<Rightarrow> nat \<Rightarrow> nat \<Rightarrow> nat" where
  "addr_of s ip k = i_addrs (fs_inode s ! ip) ! k"

definition set_addr :: "nat \<Rightarrow> nat \<Rightarrow> nat \<Rightarrow> fsys \<Rightarrow> fsys" where
  "set_addr ip k a s = upd_inode ip (\<lambda>i. i\<lparr>i_addrs := (i_addrs i)[k := a]\<rparr>) s"

text \<open>\<open>if ((addr = ip->addrs[k]) == 0) ip->addrs[k] = addr = balloc(ip->dev);\<close>\<close>

definition get_addr :: "nat \<Rightarrow> nat \<Rightarrow> fsys \<Rightarrow> fault + nat \<times> fsys" where
  "get_addr ip k s =
     (if addr_of s ip k = 0
      then ebind (balloc (i_dev (fs_inode s ! ip)) s) (\<lambda>(a, s1). Inr (a, set_addr ip k a s1))
      else Inr (addr_of s ip k, s))"

definition bmap :: "nat \<Rightarrow> nat \<Rightarrow> fsys \<Rightarrow> fault + nat \<times> fsys" where
  "bmap ip bn s =
     (let dev = i_dev (fs_inode s ! ip) in
      if bn < NDIRECT then get_addr ip bn s
      else if bn - NDIRECT < NINDIRECT
      then
        ebind (get_addr ip NDIRECT s) (\<lambda>(ind, s1).
          ebind (rd_blk dev ind s1) (\<lambda>d.
            let a = rd32 d (4 * (bn - NDIRECT)) in
            if a = 0
            then
              ebind (balloc dev s1) (\<lambda>(a', s2).
                ebind (wr_blk dev ind (\<lambda>d. wr32 d (4 * (bn - NDIRECT)) a') s2) (\<lambda>s3. Inr (a', s3)))
            else Inr (a, s1)))
      else Inl (Panic ''bmap: out of range''))"

text \<open>The two loops of \<open>itrunc\<close>.\<close>

fun free_addrs :: "nat \<Rightarrow> nat list \<Rightarrow> fsys \<Rightarrow> fault + fsys" where
  "free_addrs ip [] s = Inr s"
| "free_addrs ip (k # ks) s =
     (if addr_of s ip k \<noteq> 0
      then ebind (bfree (i_dev (fs_inode s ! ip)) (addr_of s ip k) s) (\<lambda>s1. free_addrs ip ks (set_addr ip k 0 s1))
      else free_addrs ip ks s)"

fun free_entries :: "nat \<Rightarrow> nat list \<Rightarrow> fsys \<Rightarrow> fault + fsys" where
  "free_entries dev [] s = Inr s"
| "free_entries dev (a # as) s =
     (if a \<noteq> 0 then ebind (bfree dev a s) (free_entries dev as) else free_entries dev as s)"

definition itrunc :: "nat \<Rightarrow> fsys \<Rightarrow> fault + fsys" where
  "itrunc ip s =
     (let dev = i_dev (fs_inode s ! ip) in
      ebind (free_addrs ip [0..<NDIRECT] s) (\<lambda>s1.
        ebind
          (if addr_of s1 ip NDIRECT \<noteq> 0
           then
             ebind (rd_blk dev (addr_of s1 ip NDIRECT) s1) (\<lambda>d.
               ebind (free_entries dev (map (\<lambda>j. rd32 d (4 * j)) [0..<NINDIRECT]) s1) (\<lambda>s2.
                 ebind (bfree dev (addr_of s1 ip NDIRECT) s2) (\<lambda>s3. Inr (set_addr ip NDIRECT 0 s3))))
           else Inr s1)
          (\<lambda>s4. iupdate ip (upd_inode ip (\<lambda>i. i\<lparr>i_size := 0\<rparr>) s4))))"

definition iput :: "int \<Rightarrow> nat \<Rightarrow> fsys \<Rightarrow> fault + fsys" where
  "iput me ip s =
     ebind (acquiresleep_inode me ip s) (\<lambda>s1.
       ebind
         (if i_valid (fs_inode s1 ! ip) \<and> i_nlink (fs_inode s1 ! ip) = 0 \<and> i_ref (fs_inode s1 ! ip) = 1
          then
            ebind (itrunc ip s1) (\<lambda>s2.
              ebind (iupdate ip (upd_inode ip (\<lambda>i. i\<lparr>i_type := 0\<rparr>) s2)) (\<lambda>s3.
                Inr (upd_inode ip (\<lambda>i. i\<lparr>i_valid := False\<rparr>) s3)))
          else Inr s1)
         (\<lambda>s4. Inr (upd_inode ip (\<lambda>i. i\<lparr>i_lock := None, i_ref := i_ref i - 1\<rparr>) s4)))"

definition iunlockput :: "int \<Rightarrow> nat \<Rightarrow> fsys \<Rightarrow> fault + fsys" where
  "iunlockput me ip s = ebind (iunlock me ip s) (iput me ip)"

record stat =
  st_type :: "16 word"
  st_dev :: nat
  st_ino :: nat
  st_nlink :: "16 word"
  st_size :: nat

definition stati :: "nat \<Rightarrow> fsys \<Rightarrow> stat" where
  "stati ip s =
     (let i = fs_inode s ! ip in
      \<lparr>st_type = i_type i, st_dev = i_dev i, st_ino = i_inum i, st_nlink = i_nlink i, st_size = i_size i\<rparr>)"

text \<open>The table of device drivers, filled at run time: for a major number the \<open>read\<close> and \<open>write\<close>
  functions, if there are any.\<close>

record devsw =
  dv_read :: "int \<Rightarrow> (nat \<Rightarrow> nat \<Rightarrow> fsys \<Rightarrow> fault + byte list option \<times> fsys) option"
  dv_write :: "int \<Rightarrow> (nat \<Rightarrow> byte list \<Rightarrow> fsys \<Rightarrow> fault + nat option \<times> fsys) option"

function readi_loop :: "nat \<Rightarrow> nat \<Rightarrow> nat \<Rightarrow> fsys \<Rightarrow> fault + byte list \<times> fsys" where
  "readi_loop ip off n s =
     (if n = 0 then Inr ([], s)
      else
        ebind (bmap ip (off div BSIZE) s) (\<lambda>(a, s1).
          ebind (rd_blk (i_dev (fs_inode s ! ip)) a s1) (\<lambda>d.
            let m = min n (BSIZE - off mod BSIZE) in
            ebind (readi_loop ip (off + m) (n - m) s1) (\<lambda>(bs, s2).
              Inr (take m (drop (off mod BSIZE) d) @ bs, s2)))))"
  by pat_completeness auto
termination
  by (relation "measure (\<lambda>(ip, off, n, s). n)") (auto simp: BSIZE_def)

declare readi_loop.simps [simp del]

function writei_loop :: "nat \<Rightarrow> nat \<Rightarrow> byte list \<Rightarrow> fsys \<Rightarrow> fault + fsys" where
  "writei_loop ip off src s =
     (if src = [] then Inr s
      else
        ebind (bmap ip (off div BSIZE) s) (\<lambda>(a, s1).
          let m = min (length src) (BSIZE - off mod BSIZE) in
          ebind (wr_blk (i_dev (fs_inode s ! ip)) a (\<lambda>d. patch d (off mod BSIZE) (take m src)) s1)
            (writei_loop ip (off + m) (drop m src))))"
  by pat_completeness auto
termination
  by (relation "measure (\<lambda>(ip, off, src, s). length src)") (auto simp: BSIZE_def)

declare writei_loop.simps [simp del]

text \<open>Offsets and counts are unsigned 32-bit numbers. The result \<open>None\<close> is \<open>-1\<close>.\<close>

definition readi :: "devsw \<Rightarrow> nat \<Rightarrow> nat \<Rightarrow> nat \<Rightarrow> fsys \<Rightarrow> fault + byte list option \<times> fsys" where
  "readi dv ip off n s =
     (let i = fs_inode s ! ip in
      if i_type i = T_DEV
      then
        if sint (i_major i) < 0 \<or> sint (i_major i) \<ge> NDEV then Inr (None, s)
        else (case dv_read dv (sint (i_major i)) of None \<Rightarrow> Inr (None, s) | Some f \<Rightarrow> f ip n s)
      else if off > i_size i \<or> (off + n) mod 2 ^ 32 < off then Inr (None, s)
      else
        let n' = (if (off + n) mod 2 ^ 32 > i_size i then i_size i - off else n) in
        ebind (readi_loop ip off n' s) (\<lambda>(bs, s1). Inr (Some bs, s1)))"

definition writei :: "devsw \<Rightarrow> nat \<Rightarrow> byte list \<Rightarrow> nat \<Rightarrow> fsys \<Rightarrow> fault + nat option \<times> fsys" where
  "writei dv ip src off s =
     (let i = fs_inode s ! ip; n = length src in
      if i_type i = T_DEV
      then
        if sint (i_major i) < 0 \<or> sint (i_major i) \<ge> NDEV then Inr (None, s)
        else (case dv_write dv (sint (i_major i)) of None \<Rightarrow> Inr (None, s) | Some f \<Rightarrow> f ip src s)
      else if off > i_size i \<or> (off + n) mod 2 ^ 32 < off then Inr (None, s)
      else if (off + n) mod 2 ^ 32 > MAXFILE * BSIZE then Inr (None, s)
      else
        ebind (writei_loop ip off src s) (\<lambda>s1.
          if n > 0 \<and> off + n > i_size (fs_inode s1 ! ip)
          then ebind (iupdate ip (upd_inode ip (\<lambda>i. i\<lparr>i_size := off + n\<rparr>) s1)) (\<lambda>s2. Inr (Some n, s2))
          else Inr (Some n, s1)))"


subsection \<open>The free bit map\<close>

lemma bit_clear_bit: "bit_clear d bi \<longleftrightarrow> \<not> bit (d ! (bi div 8)) (bi mod 8)"
proof -
  have m: "bi mod 8 < 8" by simp
  have "(x AND push_bit (bi mod 8) 1 = 0) = (\<not> bit x (bi mod 8))" for x :: byte
  proof
    assume "x AND push_bit (bi mod 8) 1 = 0"
    then have "\<not> bit (x AND push_bit (bi mod 8) 1) (bi mod 8)" by simp
    then show "\<not> bit x (bi mod 8)" using m by (simp add: bit_simps)
  next
    assume "\<not> bit x (bi mod 8)"
    then show "x AND push_bit (bi mod 8) 1 = 0" by (intro bit_eqI) (auto simp: bit_simps)
  qed
  then show ?thesis by (simp add: bit_clear_def mask_of_def)
qed

lemma mask_bit: "k < 8 \<Longrightarrow> bit (mask_of bi) k \<longleftrightarrow> k = bi mod 8"
  by (auto simp: mask_of_def bit_simps)

lemma div_mod_8: "(i :: nat) div 8 = j div 8 \<Longrightarrow> i mod 8 = j mod 8 \<Longrightarrow> i = j"
  by (metis div_mult_mod_eq)

lemma mark_used_bit:
  assumes "length d = 512" and "bi < 4096"
  shows "bit_clear (mark_used bi d) j \<longleftrightarrow> j \<noteq> bi \<and> bit_clear d j"
proof (cases "j div 8 = bi div 8")
  case True
  then have "bit_clear (mark_used bi d) j \<longleftrightarrow> \<not> bit ((d ! (bi div 8)) OR mask_of bi) (j mod 8)"
    using assms by (simp add: bit_clear_bit mark_used_def div_less_iff_less_mult)
  also have "\<dots> \<longleftrightarrow> bit_clear d j \<and> j mod 8 \<noteq> bi mod 8"
    using True by (auto simp: bit_simps mask_bit bit_clear_bit)
  finally show ?thesis using True div_mod_8 [of j bi] by blast
next
  case False
  then show ?thesis by (auto simp: bit_clear_bit mark_used_def)
qed

lemma mark_free_bit:
  assumes "length d = 512" and "bi < 4096"
  shows "bit_clear (mark_free bi d) j \<longleftrightarrow> j = bi \<or> bit_clear d j"
proof (cases "j div 8 = bi div 8")
  case True
  have m: "j mod 8 < 8" by simp
  have "bit_clear (mark_free bi d) j \<longleftrightarrow> \<not> bit ((d ! (bi div 8)) AND NOT (mask_of bi)) (j mod 8)"
    using True assms by (simp add: bit_clear_bit mark_free_def div_less_iff_less_mult)
  also have "\<dots> \<longleftrightarrow> bit_clear d j \<or> j mod 8 = bi mod 8"
    using True m by (auto simp: bit_simps mask_bit bit_clear_bit)
  finally show ?thesis using True div_mod_8 [of j bi] by blast
next
  case False
  then show ?thesis by (auto simp: bit_clear_bit mark_free_def)
qed

lemma length_mark [simp]: "length (mark_used bi d) = length d" "length (mark_free bi d) = length d"
  by (simp_all add: mark_used_def mark_free_def)

text \<open>Block \<open>b\<close> is marked as used. The bit map covers the file system, lies inside it, and marks itself
  and block 0 as used.\<close>

definition used :: "fsys \<Rightarrow> nat \<Rightarrow> bool" where
  "used s b \<longleftrightarrow> \<not> bit_clear (fs_blk s ! BBLOCK b (fs_sb s)) (b mod BPB)"

definition bitmap :: "superblock \<Rightarrow> nat set" where
  "bitmap sb = (\<lambda>b. BBLOCK b sb) ` {..<sb_size sb}"

definition fs_ok :: "fsys \<Rightarrow> bool" where
  "fs_ok s \<longleftrightarrow> sb_size (fs_sb s) \<le> length (fs_blk s) \<and> (\<forall>n < length (fs_blk s). length (fs_blk s ! n) = 512) \<and>
     (\<forall>m \<in> bitmap (fs_sb s). m < length (fs_blk s)) \<and>
     (\<forall>b < sb_size (fs_sb s). \<not> used s b \<longrightarrow> b \<noteq> 0 \<and> b \<notin> bitmap (fs_sb s))"

lemma fs_okD:
  assumes "fs_ok s"
  shows "sb_size (fs_sb s) \<le> length (fs_blk s)" "n < length (fs_blk s) \<Longrightarrow> length (fs_blk s ! n) = 512"
    "b < sb_size (fs_sb s) \<Longrightarrow> BBLOCK b (fs_sb s) < length (fs_blk s)"
    "b < sb_size (fs_sb s) \<Longrightarrow> \<not> used s b \<Longrightarrow> b \<noteq> 0 \<and> b \<notin> bitmap (fs_sb s)"
  using assms unfolding fs_ok_def bitmap_def by auto

lemma BBLOCK_in: "b < sb_size sb \<Longrightarrow> BBLOCK b sb \<in> bitmap sb"
  by (auto simp: bitmap_def)

definition can_log :: "fsys \<Rightarrow> nat \<Rightarrow> bool" where
  "can_log s k \<longleftrightarrow> 1 \<le> fs_outstanding s \<and> length (fs_log s) + k \<le> LOGSIZE \<and>
     int (length (fs_log s) + k) \<le> int (sb_nlog (fs_sb s)) - 1"

lemma rd_blk_in [simp]: "n < length (fs_blk s) \<Longrightarrow> rd_blk (Suc 0) n s = Inr (fs_blk s ! n)"
  by (simp add: rd_blk_def)

lemma rd_blk_Inr: "rd_blk dev n s = Inr d \<longleftrightarrow> dev = 1 \<and> n < length (fs_blk s) \<and> d = fs_blk s ! n"
  by (auto simp: rd_blk_def)

lemma wr_blk_Inr:
  assumes "wr_blk dev n f s = Inr s'"
  shows "dev = 1" "n < length (fs_blk s)" "fs_blk s' = (fs_blk s)[n := f (fs_blk s ! n)]" "fs_sb s' = fs_sb s"
    "fs_inode s' = fs_inode s" "fs_outstanding s' = fs_outstanding s" "set (fs_log s') = insert n (set (fs_log s))"
  using assms unfolding wr_blk_def by (auto simp: rd_blk_def split: if_splits)

lemma wr_blk_total:
  assumes "n < length (fs_blk s)" and "can_log s (Suc k)"
  shows "\<exists>s'. wr_blk 1 n f s = Inr s' \<and> can_log s' k"
  using assms by (auto simp: wr_blk_def can_log_def)

text \<open>The effect of \<open>balloc\<close>: block \<open>b\<close> was free, is now used and zero; nothing else changes.\<close>

definition allocated :: "fsys \<Rightarrow> nat \<Rightarrow> fsys \<Rightarrow> bool" where
  "allocated s b s' \<longleftrightarrow> b < sb_size (fs_sb s) \<and> \<not> used s b \<and> used s' b \<and> (\<forall>c < sb_size (fs_sb s). c \<noteq> b \<longrightarrow> used s' c = used s c) \<and>
     fs_blk s' ! b = replicate 512 0 \<and> (\<forall>m. m \<noteq> b \<longrightarrow> m \<notin> bitmap (fs_sb s) \<longrightarrow> fs_blk s' ! m = fs_blk s ! m) \<and>
     fs_sb s' = fs_sb s \<and> fs_inode s' = fs_inode s \<and> length (fs_blk s') = length (fs_blk s)"

lemma allocate_bit:
  assumes ok: "fs_ok s" and b: "b < sb_size (fs_sb s)" "\<not> used s b"
    and w: "wr_blk 1 (BBLOCK b (fs_sb s)) (mark_used (b mod BPB)) s = Inr s1" and z: "bzero 1 b s1 = Inr s2"
  shows "allocated s b s2 \<and> fs_ok s2"
proof -
  note D = fs_okD [OF ok] and W = wr_blk_Inr [OF w] and Z = wr_blk_Inr [OF z [unfolded bzero_def]]
  have nb: "b \<noteq> 0" "b \<notin> bitmap (fs_sb s)" using D(4) [OF b] by auto
  have blk: "fs_blk s2 = (fs_blk s)[BBLOCK b (fs_sb s) := mark_used (b mod BPB) (fs_blk s ! BBLOCK b (fs_sb s)), b := replicate 512 0]"
    using W(3) Z(3) by (simp add: BSIZE_def)
  have sb: "fs_sb s2 = fs_sb s" using W(4) Z(4) by simp
  have bl: "b < length (fs_blk s)" using D(1) b(1) by simp
  have at: "fs_blk s2 ! m = (if m = BBLOCK b (fs_sb s) then mark_used (b mod BPB) (fs_blk s ! m) else fs_blk s ! m)"
    if "m \<in> bitmap (fs_sb s)" for m
  proof -
    have "m < length (fs_blk s)" using that ok unfolding fs_ok_def by blast
    moreover have "m \<noteq> b" using that nb by blast
    ultimately show ?thesis unfolding blk by simp
  qed
  have us: "used s2 c \<longleftrightarrow> c = b \<or> used s c" if "c < sb_size (fs_sb s)" for c
  proof -
    note c = at [OF BBLOCK_in [OF that]]
    have len: "length (fs_blk s ! BBLOCK b (fs_sb s)) = 512" using D(2,3) b(1) by blast
    have div: "BBLOCK c (fs_sb s) = BBLOCK b (fs_sb s) \<longleftrightarrow> c div BPB = b div BPB" by (simp add: BBLOCK_def)
    have eq: "c div BPB = b div BPB \<Longrightarrow> c mod BPB = b mod BPB \<Longrightarrow> c = b" by (metis div_mult_mod_eq)
    have m: "b mod BPB < 4096" by (simp add: BPB_def)
    show ?thesis unfolding used_def sb c
      using mark_used_bit [OF len m, of "c mod BPB"] div eq by auto
  qed
  have "fs_blk s2 ! m = fs_blk s ! m" if "m \<noteq> b" "m \<notin> bitmap (fs_sb s)" for m
  proof -
    have "m \<noteq> BBLOCK b (fs_sb s)" using that(2) BBLOCK_in [OF b(1)] by blast
    then show ?thesis unfolding blk using that(1) by simp
  qed
  moreover have "fs_blk s2 ! b = replicate 512 0" "length (fs_blk s2) = length (fs_blk s)" unfolding blk using bl by simp_all
  ultimately have "allocated s b s2"
    unfolding allocated_def using b us sb W(5) Z(5) by simp
  moreover have "length (fs_blk s2 ! n) = 512" if "n < length (fs_blk s2)" for n
    using that D(2) [of n] D(3) [OF b(1)] bl by (auto simp: blk nth_list_update)
  then have "fs_ok s2"
    using us ok unfolding fs_ok_def sb by (auto simp: blk)
  ultimately show ?thesis by blast
qed


lemma balloc_from_step:
  assumes "c < sb_size (fs_sb s)" and "BBLOCK c (fs_sb s) < length (fs_blk s)"
  shows "balloc_from 1 c s =
    (case find (bit_clear (fs_blk s ! BBLOCK c (fs_sb s))) [0..<min BPB (sb_size (fs_sb s) - c)] of
       Some bi \<Rightarrow> ebind (wr_blk 1 (BBLOCK c (fs_sb s)) (mark_used bi) s) (\<lambda>s1. ebind (bzero 1 (c + bi) s1) (\<lambda>s2. Inr (c + bi, s2)))
     | None \<Rightarrow> balloc_from 1 (c + BPB) s)"
  using assms by (subst balloc_from.simps) simp

lemma balloc_from_dev: "balloc_from dev c s = Inr r \<Longrightarrow> dev = 1 \<and> c < sb_size (fs_sb s) \<and> BBLOCK c (fs_sb s) < length (fs_blk s)"
  by (subst (asm) balloc_from.simps) (auto simp: rd_blk_def split: if_splits)

lemma balloc_from_Inr:
  assumes ok: "fs_ok s" and "balloc_from dev c s = Inr (b, s')" and "c mod BPB = 0"
  shows "dev = 1 \<and> allocated s b s' \<and> fs_ok s'"
  using assms(2,3)
proof (induction "sb_size (fs_sb s) - c" arbitrary: c rule: less_induct)
  case less
  note dev = balloc_from_dev [OF less.prems(1)]
  then have c: "c < sb_size (fs_sb s)" and dev1: "dev = 1" by blast+
  define d where "d = fs_blk s ! BBLOCK c (fs_sb s)"
  note run = less.prems(1) [unfolded dev1 balloc_from_step [OF conjunct1 [OF conjunct2 [OF dev]] conjunct2 [OF conjunct2 [OF dev]]] d_def [symmetric]]
  show ?case
  proof (cases "find (bit_clear d) [0..<min BPB (sb_size (fs_sb s) - c)]")
    case None
    then have "balloc_from dev (c + BPB) s = Inr (b, s')"
      using run dev1 by simp
    then show ?thesis using less.hyps [of "c + BPB"] c less.prems(2) by (simp add: BPB_def)
  next
    case (Some bi)
    from find_in [OF Some] have bi: "bi < BPB" "c + bi < sb_size (fs_sb s)" "bit_clear d bi" by auto
    from Some run obtain s1 where
      s1: "wr_blk 1 (BBLOCK c (fs_sb s)) (mark_used bi) s = Inr s1" "bzero 1 (c + bi) s1 = Inr s'" "b = c + bi"
      by auto
    have "(c + bi) div BPB = c div BPB" "(c + bi) mod BPB = bi"
      using less.prems(2) bi(1) by (auto simp: BPB_def)
    then have e: "BBLOCK b (fs_sb s) = BBLOCK c (fs_sb s)" "b mod BPB = bi" using s1(3) by (simp_all add: BBLOCK_def)
    have "\<not> used s b" using bi(3) by (simp add: used_def e d_def)
    with allocate_bit [OF ok, of b s1 s'] s1 bi(2) e dev1 show ?thesis by simp
  qed
qed

lemma balloc_Inr: "fs_ok s \<Longrightarrow> balloc dev s = Inr (b, s') \<Longrightarrow> dev = 1 \<and> allocated s b s' \<and> fs_ok s'"
  unfolding balloc_def by (rule balloc_from_Inr [OF _ _ mod_0])

lemma balloc_from_total:
  assumes ok: "fs_ok s" and free: "c \<le> b" "b < sb_size (fs_sb s)" "\<not> used s b" and room: "can_log s (Suc (Suc k))" and "c mod BPB = 0"
  shows "\<exists>b' s'. balloc_from 1 c s = Inr (b', s') \<and> can_log s' k"
  using free(1) assms(6)
proof (induction "sb_size (fs_sb s) - c" arbitrary: c rule: less_induct)
  case less
  have c: "c < sb_size (fs_sb s)" using less.prems free(2) by simp
  note D = fs_okD [OF ok]
  define d where "d = fs_blk s ! BBLOCK c (fs_sb s)"
  note step = balloc_from_step [OF c D(3) [OF c], folded d_def]
  show ?case
  proof (cases "find (bit_clear d) [0..<min BPB (sb_size (fs_sb s) - c)]")
    case None
    have "c + BPB \<le> b"
    proof (rule ccontr)
      assume "\<not> c + BPB \<le> b"
      then have b: "b - c < BPB" "b - c < sb_size (fs_sb s) - c" "c + (b - c) = b" using less.prems free(2) by auto
      have "(c + (b - c)) div BPB = c div BPB" "(c + (b - c)) mod BPB = b - c"
        using less.prems(2) b(1) by (auto simp: BPB_def)
      then have "b div BPB = c div BPB" "b mod BPB = b - c" unfolding b(3) .
      then have "bit_clear d (b - c)" using free(3) by (simp add: used_def d_def BBLOCK_def)
      then show False using None b unfolding find_None_iff by auto
    qed
    then show ?thesis
      using less.hyps [of "c + BPB"] c less.prems(2) None step by (simp add: BPB_def)
  next
    case (Some bi)
    from find_in [OF Some] have bi: "c + bi < length (fs_blk s)" using D(1) by auto
    from wr_blk_total [OF D(3) [OF c] room] obtain s1 where
      s1: "wr_blk 1 (BBLOCK c (fs_sb s)) (mark_used bi) s = Inr s1" "can_log s1 (Suc k)" by blast
    from wr_blk_total [of "c + bi" s1] wr_blk_Inr(3) [OF s1(1)] s1(2) bi obtain s2 where
      "bzero 1 (c + bi) s1 = Inr s2" "can_log s2 k" unfolding bzero_def by auto
    with Some s1 step show ?thesis by simp
  qed
qed

text \<open>\<open>balloc\<close> on a well-formed bit map returns a block that was free, marks it as used and fills it
  with zeros, and changes no other block outside the bit map and no other bit. It returns whenever a
  block is free and the log has room for two blocks, and panics when no block is free.\<close>

theorem balloc_correct:
  assumes ok: "fs_ok s"
  shows "(\<forall>dev b s'. balloc dev s = Inr (b, s') \<longrightarrow> allocated s b s' \<and> fs_ok s') \<and>
    ((\<exists>c < sb_size (fs_sb s). \<not> used s c) \<longrightarrow> can_log s 2 \<longrightarrow> (\<exists>b s'. balloc 1 s = Inr (b, s'))) \<and>
    ((\<forall>c < sb_size (fs_sb s). used s c) \<longrightarrow> (\<nexists>b s'. balloc 1 s = Inr (b, s')))"
proof (intro conjI impI allI)
  fix dev b s' assume "balloc dev s = Inr (b, s')"
  then show "allocated s b s'" "fs_ok s'" using balloc_Inr [OF ok] by blast+
next
  assume "\<exists>c < sb_size (fs_sb s). \<not> used s c" and "can_log s 2"
  then obtain c where "c < sb_size (fs_sb s)" "\<not> used s c" "can_log s (Suc (Suc 0))" by (auto simp: numeral_2_eq_2)
  from balloc_from_total [OF ok le0 this mod_0] show "\<exists>b s'. balloc 1 s = Inr (b, s')" unfolding balloc_def by blast
next
  assume "\<forall>c < sb_size (fs_sb s). used s c"
  then show "\<nexists>b s'. balloc 1 s = Inr (b, s')" using balloc_Inr [OF ok] unfolding allocated_def by blast
qed


subsection \<open>The blocks of a file\<close>

text \<open>The block that holds block \<open>bn\<close> of the file, 0 if there is none.\<close>

definition blockof :: "fsys \<Rightarrow> nat \<Rightarrow> nat \<Rightarrow> nat" where
  "blockof s ip bn =
     (if bn < 12 then addr_of s ip bn
      else if addr_of s ip 12 = 0 then 0 else rd32 (fs_blk s ! addr_of s ip 12) (4 * (bn - 12)))"

definition owned :: "fsys \<Rightarrow> nat \<Rightarrow> nat set" where
  "owned s ip = insert (addr_of s ip 12) (blockof s ip ` {..<140}) - {0}"

definition iblk :: "fsys \<Rightarrow> nat \<Rightarrow> nat" where
  "iblk s ip = IBLOCK (i_inum (fs_inode s ! ip)) (fs_sb s)"

text \<open>A block of the file is marked as used, is not part of the bit map and not the block of the inode.\<close>

definition block_ok :: "fsys \<Rightarrow> nat \<Rightarrow> nat \<Rightarrow> bool" where
  "block_ok s ip a \<longleftrightarrow> a < sb_size (fs_sb s) \<and> used s a \<and> a \<notin> bitmap (fs_sb s) \<and> a \<noteq> iblk s ip"

definition file_ok :: "fsys \<Rightarrow> nat \<Rightarrow> bool" where
  "file_ok s ip \<longleftrightarrow> fs_ok s \<and> ip < length (fs_inode s) \<and> length (i_addrs (fs_inode s ! ip)) = 13 \<and> i_dev (fs_inode s ! ip) = 1 \<and>
     sb_size (fs_sb s) \<le> 2 ^ 32 \<and> iblk s ip < length (fs_blk s) \<and> iblk s ip \<notin> bitmap (fs_sb s) \<and>
     (iblk s ip < sb_size (fs_sb s) \<longrightarrow> used s (iblk s ip)) \<and>
     (\<forall>a \<in> owned s ip. block_ok s ip a) \<and>
     (\<forall>k < 140. \<forall>l < 140. blockof s ip k = blockof s ip l \<longrightarrow> blockof s ip k \<noteq> 0 \<longrightarrow> k = l) \<and>
     (\<forall>k < 140. blockof s ip k = addr_of s ip 12 \<longrightarrow> blockof s ip k = 0)"

lemma file_okD:
  assumes "file_ok s ip"
  shows "fs_ok s" "ip < length (fs_inode s)" "length (i_addrs (fs_inode s ! ip)) = 13" "i_dev (fs_inode s ! ip) = 1"
    "sb_size (fs_sb s) \<le> 2 ^ 32" "iblk s ip < length (fs_blk s)" "iblk s ip \<notin> bitmap (fs_sb s)"
    "iblk s ip < sb_size (fs_sb s) \<Longrightarrow> used s (iblk s ip)"
    "a \<in> owned s ip \<Longrightarrow> block_ok s ip a"
    "k < 140 \<Longrightarrow> l < 140 \<Longrightarrow> blockof s ip k = blockof s ip l \<Longrightarrow> blockof s ip k \<noteq> 0 \<Longrightarrow> k = l"
    "k < 140 \<Longrightarrow> blockof s ip k = addr_of s ip 12 \<Longrightarrow> blockof s ip k = 0"
  using assms unfolding file_ok_def by blast+

definition fresh :: "fsys \<Rightarrow> nat \<Rightarrow> nat \<Rightarrow> bool" where
  "fresh s ip b \<longleftrightarrow> b \<noteq> 0 \<and> b \<notin> owned s ip \<and> block_ok s ip b"

lemma blockof_owned: "k < 140 \<Longrightarrow> blockof s ip k \<noteq> 0 \<Longrightarrow> blockof s ip k \<in> owned s ip"
  by (auto simp: owned_def)

lemma indirect_owned: "addr_of s ip 12 \<noteq> 0 \<Longrightarrow> addr_of s ip 12 \<in> owned s ip"
  by (auto simp: owned_def)

text \<open>The invariant and the block map depend on the blocks of the file and on the bit map only.\<close>

lemma file_ok_frame:
  assumes f: "file_ok s ip" and ok: "fs_ok s'" and same: "fs_sb s' = fs_sb s" "fs_inode s' = fs_inode s" "length (fs_blk s') = length (fs_blk s)"
    and us: "\<And>c. c < sb_size (fs_sb s) \<Longrightarrow> used s c \<Longrightarrow> used s' c"
    and blk: "addr_of s ip 12 \<noteq> 0 \<Longrightarrow> fs_blk s' ! addr_of s ip 12 = fs_blk s ! addr_of s ip 12"
  shows "file_ok s' ip \<and> (\<forall>k. blockof s' ip k = blockof s ip k) \<and> owned s' ip = owned s ip"
proof -
  note F = file_okD [OF f]
  have ad: "addr_of s' ip k = addr_of s ip k" for k by (simp add: addr_of_def same)
  have bo: "blockof s' ip k = blockof s ip k" for k using blk by (auto simp: blockof_def ad)
  have ow: "owned s' ip = owned s ip" by (simp add: owned_def ad bo)
  have ib: "iblk s' ip = iblk s ip" by (simp add: iblk_def same)
  have "block_ok s' ip a" if "a \<in> owned s ip" for a
    using F(9) [OF that] us by (auto simp: block_ok_def same ib)
  then have "file_ok s' ip"
    unfolding file_ok_def bo ow ib ad same using f ok us F(8) unfolding file_ok_def by blast
  with bo ow show ?thesis by blast
qed

lemma allocated_frame:
  assumes f: "file_ok s ip" and al: "allocated s b s'" and ok: "fs_ok s'"
  shows "file_ok s' ip \<and> (\<forall>k. blockof s' ip k = blockof s ip k) \<and> owned s' ip = owned s ip \<and> fresh s' ip b \<and>
    (\<forall>a \<in> owned s ip. fs_blk s' ! a = fs_blk s ! a) \<and> fs_blk s' ! b = replicate 512 0"
proof -
  note F = file_okD [OF f]
  from al have A: "b < sb_size (fs_sb s)" "\<not> used s b" "used s' b" "\<And>c. c < sb_size (fs_sb s) \<Longrightarrow> c \<noteq> b \<Longrightarrow> used s' c = used s c"
    "fs_blk s' ! b = replicate 512 0" "\<And>m. m \<noteq> b \<Longrightarrow> m \<notin> bitmap (fs_sb s) \<Longrightarrow> fs_blk s' ! m = fs_blk s ! m"
    "fs_sb s' = fs_sb s" "fs_inode s' = fs_inode s" "length (fs_blk s') = length (fs_blk s)"
    unfolding allocated_def by blast+
  have same: "fs_blk s' ! a = fs_blk s ! a" if "a \<in> owned s ip" for a
    using F(9) [OF that] A(2) A(6) [of a] by (auto simp: block_ok_def)
  have fr: "file_ok s' ip \<and> (\<forall>k. blockof s' ip k = blockof s ip k) \<and> owned s' ip = owned s ip"
  proof (rule file_ok_frame [OF f ok A(7,8,9)])
    show "used s' c" if "c < sb_size (fs_sb s)" "used s c" for c using A(2,4) that by blast
    show "fs_blk s' ! addr_of s ip 12 = fs_blk s ! addr_of s ip 12" if "addr_of s ip 12 \<noteq> 0"
      using same indirect_owned that by blast
  qed
  have "b \<noteq> 0 \<and> b \<notin> bitmap (fs_sb s)" using fs_okD(4) [OF F(1) A(1,2)] .
  moreover have "b \<notin> owned s ip" using F(9) A(2) by (auto simp: block_ok_def)
  moreover have "b \<noteq> iblk s ip" using F(8) A(1,2) by blast
  ultimately have "fresh s' ip b" using A(1,3,7,8) fr by (simp add: fresh_def block_ok_def iblk_def)
  with fr same A(5) show ?thesis by blast
qed

lemma set_addr_simps [simp]:
  "fs_sb (set_addr ip k a s) = fs_sb s" "fs_blk (set_addr ip k a s) = fs_blk s" "fs_log (set_addr ip k a s) = fs_log s"
  "length (fs_inode (set_addr ip k a s)) = length (fs_inode s)" "used (set_addr ip k a s) = used s"
  by (auto simp: set_addr_def upd_inode_def used_def)

lemma set_addr_inode:
  assumes "ip < length (fs_inode s)"
  shows "fs_inode (set_addr ip k a s) ! ip = (fs_inode s ! ip)\<lparr>i_addrs := (i_addrs (fs_inode s ! ip))[k := a]\<rparr>"
  using assms by (simp add: set_addr_def upd_inode_def)

lemma addr_of_set_addr:
  assumes "ip < length (fs_inode s)" and "k < length (i_addrs (fs_inode s ! ip))"
  shows "addr_of (set_addr ip k a s) ip l = (if l = k then a else addr_of s ip l)"
  using assms by (simp add: addr_of_def set_addr_inode)

lemma fs_ok_set_addr [simp]: "fs_ok (set_addr ip k a s) = fs_ok s"
  by (simp add: fs_ok_def)

lemma rd32_zero: "off + 4 \<le> 512 \<Longrightarrow> rd32 (replicate 512 0) off = 0"
  by (simp add: rd32_def)

text \<open>A fresh block becomes block \<open>bn\<close> of the file.\<close>

definition extended :: "fsys \<Rightarrow> nat \<Rightarrow> nat \<Rightarrow> nat \<Rightarrow> fsys \<Rightarrow> bool" where
  "extended s ip bn b s' \<longleftrightarrow> file_ok s' ip \<and> blockof s' ip bn = b \<and> (\<forall>k < 140. k \<noteq> bn \<longrightarrow> blockof s' ip k = blockof s ip k)"


lemma freshD:
  assumes "fresh s ip b"
  shows "b \<noteq> 0" "b \<noteq> addr_of s ip 12" "k < 140 \<Longrightarrow> blockof s ip k \<noteq> b" "block_ok s ip b"
proof -
  from assms have fb: "b \<noteq> 0" "b \<notin> owned s ip" "block_ok s ip b" unfolding fresh_def by blast+
  then show "b \<noteq> 0" "block_ok s ip b" by blast+
  show "b \<noteq> addr_of s ip 12" using fb indirect_owned [of s ip] by auto
  show "blockof s ip k \<noteq> b" if "k < 140" using fb blockof_owned [OF that, of s ip] by auto
qed

lemma file_ok_extend:
  assumes f: "file_ok s ip" and b: "fresh s ip b" and ok: "fs_ok s'"
    and same: "fs_sb s' = fs_sb s" "\<And>c. c < sb_size (fs_sb s) \<Longrightarrow> used s' c = used s c" "length (fs_inode s') = length (fs_inode s)" "length (fs_blk s') = length (fs_blk s)"
      "i_inum (fs_inode s' ! ip) = i_inum (fs_inode s ! ip)" "i_dev (fs_inode s' ! ip) = 1" "length (i_addrs (fs_inode s' ! ip)) = 13"
    and bn: "bn < 140" "blockof s' ip bn = b" and old: "\<And>k. k < 140 \<Longrightarrow> k \<noteq> bn \<Longrightarrow> blockof s' ip k = blockof s ip k"
    and ind: "addr_of s' ip 12 = addr_of s ip 12"
  shows "file_ok s' ip"
proof -
  note F = file_okD [OF f]
  note nb = freshD [OF b]
  have ib: "iblk s' ip = iblk s ip" by (simp add: iblk_def same)
  have sub: "owned s' ip \<subseteq> insert b (owned s ip)"
  proof
    fix a assume "a \<in> owned s' ip"
    then consider "a = addr_of s ip 12" "a \<noteq> 0" | k where "k < 140" "a = blockof s' ip k" "a \<noteq> 0" by (auto simp: owned_def ind)
    then show "a \<in> insert b (owned s ip)"
    proof cases
      case 2
      then show ?thesis using bn(2) old [of k] blockof_owned [of k s ip] by (cases "k = bn") simp_all
    qed (use indirect_owned in blast)
  qed
  have own: "block_ok s' ip a" if "a \<in> owned s' ip" for a
  proof -
    from sub that F(9) nb(4) have "block_ok s ip a" by blast
    then show ?thesis by (simp add: block_ok_def ib same(1,2))
  qed
  have new: "blockof s' ip k = (if k = bn then b else blockof s ip k)" if "k < 140" for k using bn(2) old [OF that] by simp
  have inj: "k = l" if kl: "k < 140" "l < 140" "blockof s' ip k = blockof s' ip l" "blockof s' ip k \<noteq> 0" for k l
  proof (cases "k = bn \<or> l = bn")
    case True
    then show ?thesis using kl(3) nb(3) [OF kl(1)] nb(3) [OF kl(2)] unfolding new [OF kl(1)] new [OF kl(2)] by metis
  next
    case False
    then show ?thesis using kl(3,4) F(10) [OF kl(1,2)] unfolding new [OF kl(1)] new [OF kl(2)] by simp
  qed
  have ap: "blockof s' ip k = 0" if k: "k < 140" "blockof s' ip k = addr_of s' ip 12" for k
    using k(2) F(11) [OF k(1)] nb(2) unfolding new [OF k(1)] ind by (cases "k = bn") simp_all
  have us: "iblk s ip < sb_size (fs_sb s) \<Longrightarrow> used s' (iblk s ip)" using F(8) same(2) by simp
  have l: "ip < length (fs_inode s')" "iblk s ip < length (fs_blk s')" using F(2,6) same(3,4) by simp_all
  have inj': "\<forall>k < 140. \<forall>l < 140. blockof s' ip k = blockof s' ip l \<longrightarrow> blockof s' ip k \<noteq> 0 \<longrightarrow> k = l" using inj by blast
  have ap': "\<forall>k < 140. blockof s' ip k = addr_of s' ip 12 \<longrightarrow> blockof s' ip k = 0" using ap by blast
  have own': "\<forall>a \<in> owned s' ip. block_ok s' ip a" using own by blast
  show ?thesis unfolding file_ok_def ib same(1) using ok l same(6,7) F(5,7) us own' inj' ap' by blast
qed

lemma file_ok_indirect:
  assumes f: "file_ok s ip" and b: "fresh s ip b" and none: "addr_of s ip 12 = 0" and zero: "fs_blk s ! b = replicate 512 0"
  shows "file_ok (set_addr ip 12 b s) ip \<and> (\<forall>k < 140. blockof (set_addr ip 12 b s) ip k = blockof s ip k)"
proof -
  note F = file_okD [OF f]
  let ?s = "set_addr ip 12 b s"
  note nb = freshD [OF b]
  have ad: "addr_of ?s ip k = (if k = 12 then b else addr_of s ip k)" for k
    using addr_of_set_addr F(2,3) by simp
  have same: "blockof ?s ip k = blockof s ip k" if "k < 140" for k
  proof (cases "k < 12")
    case False
    then have "rd32 (replicate 512 0) (4 * (k - 12)) = 0" using that by (intro rd32_zero) simp
    then show ?thesis using False none by (simp add: blockof_def ad zero)
  qed (simp add: blockof_def ad)
  have ib: "iblk ?s ip = iblk s ip" using F(2) by (simp add: iblk_def set_addr_inode)
  have "owned ?s ip \<subseteq> insert b (owned s ip)" using same by (auto simp: owned_def ad)
  then have "block_ok ?s ip a" if "a \<in> owned ?s ip" for a using that F(9) nb(4) by (auto simp: block_ok_def ib)
  moreover have "k = l" if "k < 140" "l < 140" "blockof ?s ip k = blockof ?s ip l" "blockof ?s ip k \<noteq> 0" for k l
    using that F(10) [of k l] same by simp
  moreover have "blockof ?s ip k = 0" if "k < 140" "blockof ?s ip k = addr_of ?s ip 12" for k
    using that nb(3) [OF that(1)] same by (simp add: ad)
  ultimately have "file_ok ?s ip"
    unfolding file_ok_def ib using F(1-8) by (auto simp: set_addr_inode)
  with same show ?thesis by blast
qed

lemma file_ok_direct:
  assumes f: "file_ok s ip" and b: "fresh s ip b" and k: "k < 12" "addr_of s ip k = 0"
  shows "extended s ip k b (set_addr ip k b s)"
proof -
  note F = file_okD [OF f]
  have ad: "addr_of (set_addr ip k b s) ip l = (if l = k then b else addr_of s ip l)" for l
    using addr_of_set_addr F(2,3) k(1) by simp
  have bn: "blockof (set_addr ip k b s) ip k = b" using k by (simp add: blockof_def ad)
  have old: "blockof (set_addr ip k b s) ip l = blockof s ip l" if "l \<noteq> k" for l using that k by (simp add: blockof_def ad)
  have "file_ok (set_addr ip k b s) ip"
    by (rule file_ok_extend [OF f b _ _ _ _ _ _ _ _ _ bn]) (use F k old ad in \<open>auto simp: set_addr_inode\<close>)
  with bn old show ?thesis by (simp add: extended_def)
qed

lemma file_ok_entry:
  assumes f: "file_ok s ip" and b: "fresh s ip b" and k: "12 \<le> k" "k < 140" "blockof s ip k = 0" and ind: "addr_of s ip 12 \<noteq> 0"
    and w: "wr_blk 1 (addr_of s ip 12) (\<lambda>d. wr32 d (4 * (k - 12)) b) s = Inr s'"
  shows "extended s ip k b s' \<and> (\<forall>m. m \<noteq> addr_of s ip 12 \<longrightarrow> fs_blk s' ! m = fs_blk s ! m) \<and> fs_inode s' = fs_inode s \<and> fs_sb s' = fs_sb s"
proof -
  note F = file_okD [OF f] and W = wr_blk_Inr [OF w]
  let ?i = "addr_of s ip 12"
  note io = F(9) [OF indirect_owned [OF ind], unfolded block_ok_def]
  have il: "length (fs_blk s ! ?i) = 512" using fs_okD(2) [OF F(1)] W(2) by blast
  have b32: "b < 2 ^ 32" using b F(5) by (auto simp: fresh_def block_ok_def)
  have ad: "addr_of s' ip l = addr_of s ip l" for l by (simp add: addr_of_def W(5))
  have at: "fs_blk s' ! ?i = wr32 (fs_blk s ! ?i) (4 * (k - 12)) b" using W(2,3) by simp
  have bn: "blockof s' ip k = b"
    using k(1,2) ind il b32 by (simp add: blockof_def ad at rd32_wr32_same)
  have old: "blockof s' ip l = blockof s ip l" if "l < 140" "l \<noteq> k" for l
  proof (cases "l < 12")
    case False
    then have "4 * (k - 12) + 4 \<le> 4 * (l - 12) \<or> 4 * (l - 12) + 4 \<le> 4 * (k - 12)" using that k(1) by linarith
    then show ?thesis
      using that False k(1,2) ind il by (simp add: blockof_def ad at rd32_wr32_other)
  qed (simp add: blockof_def ad)
  have us: "used s' c = used s c" if "c < sb_size (fs_sb s)" for c
  proof -
    have "?i \<noteq> BBLOCK c (fs_sb s)" using io BBLOCK_in [OF that] by auto
    then show ?thesis by (simp add: used_def W(3,4))
  qed
  have len: "length (fs_blk s' ! n) = 512" if "n < length (fs_blk s')" for n
    using that fs_okD(2) [OF F(1), of n] il k(1,2) W(2) by (cases "n = ?i") (simp_all add: W(3))
  have "fs_ok s'" using F(1) us len unfolding fs_ok_def W(4) by (auto simp: W(3))
  then have "file_ok s' ip"
    by (rule file_ok_extend [OF f b _ _ _ _ _ _ _ _ k(2) bn]) (use F W us old ad in simp_all)
  with bn old W(3,4,5) show ?thesis by (auto simp: extended_def)
qed


text \<open>What \<open>bmap\<close> promises: block \<open>bn\<close> of the file is \<open>a\<close>, zero if it was not there before, and the
  other blocks of the file and their contents stay.\<close>

definition inode_same :: "fsys \<Rightarrow> nat \<Rightarrow> fsys \<Rightarrow> bool" where
  "inode_same s ip s' \<longleftrightarrow> fs_sb s' = fs_sb s \<and> length (fs_inode s') = length (fs_inode s) \<and> length (fs_blk s') = length (fs_blk s) \<and>
     fs_inode s' ! ip = (fs_inode s ! ip)\<lparr>i_addrs := i_addrs (fs_inode s' ! ip)\<rparr> \<and>
     (\<forall>jp. jp \<noteq> ip \<longrightarrow> fs_inode s' ! jp = fs_inode s ! jp)"

definition mapped :: "fsys \<Rightarrow> nat \<Rightarrow> nat \<Rightarrow> nat \<Rightarrow> fsys \<Rightarrow> bool" where
  "mapped s ip bn a s' \<longleftrightarrow> file_ok s' ip \<and> blockof s' ip bn = a \<and> a \<noteq> 0 \<and> inode_same s ip s' \<and>
     (\<forall>k < 140. k \<noteq> bn \<longrightarrow> blockof s' ip k = blockof s ip k) \<and>
     (\<forall>k < 140. blockof s ip k \<noteq> 0 \<longrightarrow> fs_blk s' ! blockof s ip k = fs_blk s ! blockof s ip k) \<and>
     (if blockof s ip bn = 0 then fs_blk s' ! a = replicate 512 0 else s' = s \<and> a = blockof s ip bn)"

lemma inode_same_refl [simp]: "inode_same s ip s"
  by (simp add: inode_same_def)

lemma inode_same_trans: "inode_same s ip s1 \<Longrightarrow> inode_same s1 ip s2 \<Longrightarrow> inode_same s ip s2"
proof -
  assume a: "inode_same s ip s1" and b: "inode_same s1 ip s2"
  from b have "fs_inode s2 ! ip = (fs_inode s1 ! ip)\<lparr>i_addrs := i_addrs (fs_inode s2 ! ip)\<rparr>" by (simp add: inode_same_def)
  also from a have "\<dots> = (fs_inode s ! ip)\<lparr>i_addrs := i_addrs (fs_inode s2 ! ip)\<rparr>"
    unfolding inode_same_def by (metis (no_types, lifting) inode.surjective inode.update_convs(11))
  finally show ?thesis using a b unfolding inode_same_def by simp
qed

lemma inode_same_set_addr [simp]: "ip < length (fs_inode s) \<Longrightarrow> inode_same s ip (set_addr ip k a s)"
  by (simp add: inode_same_def set_addr_inode) (simp add: set_addr_def upd_inode_def)

lemma inode_same_eqI:
  "fs_sb s' = fs_sb s \<Longrightarrow> fs_inode s' = fs_inode s \<Longrightarrow> length (fs_blk s') = length (fs_blk s) \<Longrightarrow> inode_same s ip s'"
  by (simp add: inode_same_def)

lemma allocated_inode_same: "allocated s b s' \<Longrightarrow> inode_same s ip s'"
  unfolding allocated_def by (blast intro: inode_same_eqI)

lemma bmap_present:
  assumes f: "file_ok s ip" and bn: "bn < 140" "blockof s ip bn \<noteq> 0"
  shows "bmap ip bn s = Inr (blockof s ip bn, s)" "mapped s ip bn (blockof s ip bn) s"
proof -
  note F = file_okD [OF f]
  have "addr_of s ip 12 < length (fs_blk s)" if "\<not> bn < 12"
  proof -
    have "addr_of s ip 12 \<noteq> 0" using bn that by (auto simp: blockof_def split: if_splits)
    then show ?thesis using F(9) [OF indirect_owned] fs_okD(1) [OF F(1)] by (simp add: block_ok_def)
  qed
  then show "bmap ip bn s = Inr (blockof s ip bn, s)"
    using bn F(4) by (auto simp: bmap_def get_addr_def blockof_def fs_consts Let_def)
  show "mapped s ip bn (blockof s ip bn) s" using f bn by (simp add: mapped_def)
qed

lemma bmap_direct:
  assumes f: "file_ok s ip" and bn: "bn < 12" "addr_of s ip bn = 0" and run: "bmap ip bn s = Inr (a, s')"
  shows "mapped s ip bn a s'"
proof -
  note F = file_okD [OF f]
  from run bn F(4) obtain s1 where r: "balloc 1 s = Inr (a, s1)" "s' = set_addr ip bn a s1"
    by (auto simp: bmap_def get_addr_def fs_consts Let_def)
  note B = balloc_Inr [OF F(1) r(1)]
  note A = allocated_frame [OF f, of a s1] 
  have A: "file_ok s1 ip" "\<forall>k. blockof s1 ip k = blockof s ip k" "fresh s1 ip a" "\<forall>b \<in> owned s ip. fs_blk s1 ! b = fs_blk s ! b"
    "fs_blk s1 ! a = replicate 512 0" using A B by blast+
  have "addr_of s1 ip bn = 0" using A(2) bn by (metis blockof_def)
  from file_ok_direct [OF A(1,3) bn(1) this] have E: "extended s1 ip bn a s'" unfolding r(2) .
  have z: "blockof s ip bn = 0" using bn by (simp add: blockof_def)
  have "inode_same s ip s'"
    unfolding r(2) using B file_okD(2) [OF A(1)] by (blast intro: inode_same_trans allocated_inode_same inode_same_set_addr)
  moreover have "fs_blk s' ! blockof s ip k = fs_blk s ! blockof s ip k" if "k < 140" "blockof s ip k \<noteq> 0" for k
    using A(4) blockof_owned [OF that] r(2) by simp
  moreover have "a \<noteq> 0" using freshD(1) [OF A(3)] .
  ultimately show ?thesis using E A(2,5) z r(2) unfolding mapped_def extended_def by simp
qed

lemma get_addr_indirect:
  assumes f: "file_ok s ip" and run: "get_addr ip 12 s = Inr (ind, s1)"
  shows "file_ok s1 ip \<and> addr_of s1 ip 12 = ind \<and> ind \<noteq> 0 \<and> (\<forall>k < 140. blockof s1 ip k = blockof s ip k) \<and> inode_same s ip s1 \<and>
    (\<forall>k < 140. blockof s ip k \<noteq> 0 \<longrightarrow> fs_blk s1 ! blockof s ip k = fs_blk s ! blockof s ip k)"
proof (cases "addr_of s ip 12 = 0")
  case True
  note F = file_okD [OF f]
  from run True F(4) obtain t where r: "balloc 1 s = Inr (ind, t)" "s1 = set_addr ip 12 ind t"
    by (auto simp: get_addr_def)
  note B = balloc_Inr [OF F(1) r(1)]
  have A: "file_ok t ip" "\<forall>k. blockof t ip k = blockof s ip k" "fresh t ip ind" "\<forall>b \<in> owned s ip. fs_blk t ! b = fs_blk s ! b"
    "fs_blk t ! ind = replicate 512 0" using allocated_frame [OF f, of ind t] B by blast+
  have "fs_inode t = fs_inode s" using B by (simp add: allocated_def)
  then have z: "addr_of t ip 12 = 0" using True by (simp add: addr_of_def)
  note I = file_ok_indirect [OF A(1,3) z A(5)]
  have "addr_of s1 ip 12 = ind" unfolding r(2) using addr_of_set_addr file_okD(2,3) [OF A(1)] by simp
  moreover have "inode_same s ip s1"
    unfolding r(2) using B file_okD(2) [OF A(1)] by (blast intro: inode_same_trans allocated_inode_same inode_same_set_addr)
  moreover have "fs_blk s1 ! blockof s ip k = fs_blk s ! blockof s ip k" if "k < 140" "blockof s ip k \<noteq> 0" for k
    using A(4) blockof_owned [OF that] r(2) by simp
  ultimately show ?thesis using I A(2) freshD(1) [OF A(3)] r(2) by simp
next
  case False
  with run f show ?thesis by (auto simp: get_addr_def)
qed

lemma bmap_indirect:
  assumes f: "file_ok s ip" and bn: "12 \<le> bn" "bn < 140" "blockof s ip bn = 0" and run: "bmap ip bn s = Inr (a, s')"
  shows "mapped s ip bn a s'"
proof -
  note F = file_okD [OF f]
  have lt: "bn - 12 < 128" using bn by simp
  from run bn lt F(4) obtain ind s1 where g: "get_addr ip 12 s = Inr (ind, s1)"
    by (auto simp: bmap_def fs_consts Let_def)
  from get_addr_indirect [OF f g] have G: "file_ok s1 ip" "addr_of s1 ip 12 = ind" "ind \<noteq> 0" "\<And>k. k < 140 \<Longrightarrow> blockof s1 ip k = blockof s ip k"
    "inode_same s ip s1" "\<And>k. k < 140 \<Longrightarrow> blockof s ip k \<noteq> 0 \<Longrightarrow> fs_blk s1 ! blockof s ip k = fs_blk s ! blockof s ip k" by blast+
  have il: "ind < length (fs_blk s1)"
    using file_okD(9) [OF G(1) indirect_owned] G(2,3) fs_okD(1) [OF file_okD(1) [OF G(1)]] by (simp add: block_ok_def)
  have "blockof s1 ip bn = 0" using G(4) bn by simp
  then have "rd32 (fs_blk s1 ! ind) (4 * (bn - 12)) = 0" using G(2,3) bn(1) by (simp add: blockof_def)
  with run bn lt F(4) g il obtain s2 where r: "balloc 1 s1 = Inr (a, s2)" "wr_blk 1 ind (\<lambda>d. wr32 d (4 * (bn - 12)) a) s2 = Inr s'"
    by (auto simp: bmap_def fs_consts Let_def)
  note B = balloc_Inr [OF file_okD(1) [OF G(1)] r(1)]
  have A: "file_ok s2 ip" "\<And>k. blockof s2 ip k = blockof s1 ip k" "fresh s2 ip a" "\<And>b. b \<in> owned s1 ip \<Longrightarrow> fs_blk s2 ! b = fs_blk s1 ! b"
    "fs_blk s2 ! a = replicate 512 0" using allocated_frame [OF G(1), of a s2] B by blast+
  have i2: "addr_of s2 ip 12 = ind" using B G(2) by (simp add: addr_of_def allocated_def)
  have w: "wr_blk 1 (addr_of s2 ip 12) (\<lambda>d. wr32 d (4 * (bn - 12)) a) s2 = Inr s'" using r(2) i2 by simp
  have "blockof s2 ip bn = 0" using A(2) G(4) bn by simp
  from file_ok_entry [OF A(1,3) bn(1,2) this _ w] i2 G(3)
  have E: "extended s2 ip bn a s'" "\<And>m. m \<noteq> ind \<Longrightarrow> fs_blk s' ! m = fs_blk s2 ! m" "fs_inode s' = fs_inode s2" "fs_sb s' = fs_sb s2"
    by auto
  have "inode_same s2 ip s'" using E(3,4) wr_blk_Inr(3) [OF w] by (intro inode_same_eqI) simp_all
  with B G(5) have "inode_same s ip s'" by (blast intro: inode_same_trans allocated_inode_same)
  moreover have "fs_blk s' ! blockof s ip k = fs_blk s ! blockof s ip k" if k: "k < 140" "blockof s ip k \<noteq> 0" for k
  proof -
    have o1: "blockof s ip k \<in> owned s1 ip" using blockof_owned [of k s1 ip] k G(4) by simp
    have "blockof s ip k \<noteq> ind" using file_okD(11) [OF G(1) k(1)] G(2,4) k by auto
    then show ?thesis using E(2) A(4) [OF o1] G(6) [OF k] by simp
  qed
  moreover have "fs_blk s' ! a = replicate 512 0" using E(2) [of a] freshD(2) [OF A(3)] i2 A(5) by auto
  ultimately show ?thesis using E(1) A(2) G(4) bn freshD(1) [OF A(3)] unfolding mapped_def extended_def by simp
qed

lemma bmap_mapped:
  assumes f: "file_ok s ip" and bn: "bn < 140" and run: "bmap ip bn s = Inr (a, s')"
  shows "mapped s ip bn a s'"
proof (cases "blockof s ip bn = 0")
  case True
  show ?thesis
  proof (cases "bn < 12")
    case True
    with \<open>blockof s ip bn = 0\<close> bmap_direct [OF f _ _ run] show ?thesis by (simp add: blockof_def)
  next
    case False
    with \<open>blockof s ip bn = 0\<close> bmap_indirect [OF f _ bn _ run] show ?thesis by simp
  qed
next
  case False
  with bmap_present [OF f bn False] run show ?thesis by simp
qed

subsection \<open>Reading and writing files\<close>

text \<open>The byte at offset \<open>off\<close> of the file.\<close>

definition fbyte :: "fsys \<Rightarrow> nat \<Rightarrow> nat \<Rightarrow> byte" where
  "fbyte s ip off =
     (if blockof s ip (off div 512) = 0 then 0 else fs_blk s ! blockof s ip (off div 512) ! (off mod 512))"

lemma fbyte_mapped:
  assumes "mapped s ip bn a s'" and "off < 140 * 512"
  shows "fbyte s' ip off = fbyte s ip off"
proof (cases "off div 512 = bn")
  case True
  from assms(1) have m: "blockof s' ip bn = a" "a \<noteq> 0"
    "if blockof s ip bn = 0 then fs_blk s' ! a = replicate 512 0 else s' = s \<and> a = blockof s ip bn"
    unfolding mapped_def by blast+
  then show ?thesis using True by (auto simp: fbyte_def split: if_splits)
next
  case False
  have lt: "off div 512 < 140" using assms(2) by (simp add: div_less_iff_less_mult)
  with assms(1) False have "blockof s' ip (off div 512) = blockof s ip (off div 512)"
    "blockof s ip (off div 512) \<noteq> 0 \<Longrightarrow> fs_blk s' ! blockof s ip (off div 512) = fs_blk s ! blockof s ip (off div 512)"
    unfolding mapped_def by blast+
  then show ?thesis by (simp add: fbyte_def)
qed

text \<open>A change of block \<open>bn\<close> of the file.\<close>

lemma write_block_bytes:
  assumes f: "file_ok s ip" and bn: "bn < 140" "blockof s ip bn \<noteq> 0" and r: "r + length xs \<le> 512"
    and w: "wr_blk 1 (blockof s ip bn) (\<lambda>d. patch d r xs) s = Inr s'"
  shows "file_ok s' ip \<and> (\<forall>k. blockof s' ip k = blockof s ip k) \<and> inode_same s ip s' \<and>
    (\<forall>off < 140 * 512. fbyte s' ip off = (if bn * 512 + r \<le> off \<and> off < bn * 512 + r + length xs then xs ! (off - (bn * 512 + r)) else fbyte s ip off))"
proof -
  note F = file_okD [OF f] and W = wr_blk_Inr [OF w]
  let ?a = "blockof s ip bn"
  have B: "block_ok s ip ?a" using F(9) blockof_owned [OF bn] by blast
  have l: "length (fs_blk s ! ?a) = 512" using fs_okD(2) [OF F(1) W(2)] .
  have us: "used s' c = used s c" if "c < sb_size (fs_sb s)" for c
  proof -
    have "?a \<noteq> BBLOCK c (fs_sb s)" using B BBLOCK_in [OF that] by (auto simp: block_ok_def)
    then show ?thesis by (simp add: used_def W(3,4))
  qed
  have "length (fs_blk s' ! n) = 512" if "n < length (fs_blk s')" for n
    using that fs_okD(2) [OF F(1), of n] l W(2) r by (cases "n = ?a") (simp_all add: W(3))
  then have ok: "fs_ok s'" using F(1) us unfolding fs_ok_def W(4) by (auto simp: W(3))
  have ne: "?a \<noteq> addr_of s ip 12" using F(11) [OF bn(1)] bn(2) by blast
  have fr: "file_ok s' ip \<and> (\<forall>k. blockof s' ip k = blockof s ip k) \<and> owned s' ip = owned s ip"
    by (rule file_ok_frame [OF f ok W(4,5)]) (use us ne in \<open>simp_all add: W(3)\<close>)
  have "fbyte s' ip off = (if bn * 512 + r \<le> off \<and> off < bn * 512 + r + length xs then xs ! (off - (bn * 512 + r)) else fbyte s ip off)"
    if off: "off < 140 * 512" for off
  proof (cases "off div 512 = bn")
    case True
    then have o': "off = bn * 512 + off mod 512" by (metis div_mult_mod_eq)
    have "fbyte s' ip off = patch (fs_blk s ! ?a) r xs ! (off mod 512)"
      using fr True bn(2) W(2) by (simp add: fbyte_def W(3))
    also have "\<dots> = (if r \<le> off mod 512 \<and> off mod 512 < r + length xs then xs ! (off mod 512 - r) else fs_blk s ! ?a ! (off mod 512))"
      using l r by (simp add: nth_patch)
    also have "\<dots> = (if bn * 512 + r \<le> off \<and> off < bn * 512 + r + length xs then xs ! (off - (bn * 512 + r)) else fbyte s ip off)"
    proof -
      have "r \<le> off mod 512 \<longleftrightarrow> bn * 512 + r \<le> off" "off mod 512 < r + length xs \<longleftrightarrow> off < bn * 512 + r + length xs"
        "off mod 512 - r = off - (bn * 512 + r)" using o' by linarith+
      moreover have "fbyte s ip off = fs_blk s ! ?a ! (off mod 512)" using True bn(2) by (simp add: fbyte_def)
      ultimately show ?thesis by simp
    qed
    finally show ?thesis .
  next
    case False
    then have out: "\<not> (bn * 512 + r \<le> off \<and> off < bn * 512 + r + length xs)"
      using r by (auto simp: div_nat_eqI)
    have lt: "off div 512 < 140" using off by (simp add: div_less_iff_less_mult)
    have "?a \<noteq> blockof s ip (off div 512)" using F(10) [OF bn(1) lt] bn(2) False by blast
    then show ?thesis unfolding if_not_P [OF out] using fr by (simp add: fbyte_def W(3))
  qed
  then show ?thesis using fr W(3,4,5) by (auto intro: inode_same_eqI)
qed

lemma block_part:
  fixes off :: nat
  assumes "off div 512 = bn" and "m \<le> 512 - off mod 512"
  shows "bn * 512 + off mod 512 = off" "off mod 512 + m \<le> 512" "o' \<ge> off \<Longrightarrow> o' < off + m \<Longrightarrow> o' div 512 = bn"
proof -
  show e: "bn * 512 + off mod 512 = off" using assms(1) by (metis div_mult_mod_eq)
  have "off mod 512 < 512" by simp
  then show l: "off mod 512 + m \<le> 512" using assms(2) by linarith
  assume "o' \<ge> off" "o' < off + m"
  then have "bn * 512 \<le> o'" "o' < bn * 512 + 512" using e l by linarith+
  then show "o' div 512 = bn" by (intro div_nat_eqI) simp_all
qed

text \<open>The bytes after \<open>src\<close> has been written at \<open>off\<close>.\<close>

definition written :: "fsys \<Rightarrow> nat \<Rightarrow> nat \<Rightarrow> byte list \<Rightarrow> fsys \<Rightarrow> bool" where
  "written s ip off src s' \<longleftrightarrow> file_ok s' ip \<and> inode_same s ip s' \<and>
     (\<forall>o' < 140 * 512. fbyte s' ip o' = (if off \<le> o' \<and> o' < off + length src then src ! (o' - off) else fbyte s ip o')) \<and>
     (\<forall>k < 140. blockof s ip k \<noteq> 0 \<longrightarrow> blockof s' ip k = blockof s ip k) \<and>
     (\<forall>o'. off \<le> o' \<longrightarrow> o' < off + length src \<longrightarrow> blockof s' ip (o' div 512) \<noteq> 0)"

lemma written_part:
  assumes f: "file_ok s ip" and src: "src \<noteq> []" "off + length src \<le> 140 * 512"
    and m: "m = min (length src) (512 - off mod 512)"
    and b: "bmap ip (off div 512) s = Inr (a, s1)"
    and w: "wr_blk 1 a (\<lambda>d. patch d (off mod 512) (take m src)) s1 = Inr s2"
  shows "written s ip off (take m src) s2"
proof -
  let ?bn = "off div 512"
  have "off < 140 * 512" using src by (cases src) auto
  then have bn: "?bn < 140" by (simp add: div_less_iff_less_mult)
  note M = bmap_mapped [OF f bn b]
  then have M1: "file_ok s1 ip" "blockof s1 ip ?bn = a" "a \<noteq> 0" "inode_same s ip s1"
    "\<And>k. k < 140 \<Longrightarrow> k \<noteq> ?bn \<Longrightarrow> blockof s1 ip k = blockof s ip k"
    "blockof s ip ?bn \<noteq> 0 \<Longrightarrow> s1 = s" unfolding mapped_def by (auto split: if_splits)
  have lm: "length (take m src) = m" using m by simp
  note P = block_part [OF refl, of m off] 
  have P: "?bn * 512 + off mod 512 = off" "off mod 512 + m \<le> 512" "\<And>o'. o' \<ge> off \<Longrightarrow> o' < off + m \<Longrightarrow> o' div 512 = ?bn"
    using P m by simp_all
  have bn1: "blockof s1 ip ?bn \<noteq> 0" and len: "off mod 512 + length (take m src) \<le> 512" using M1(2,3) P(2) lm by simp_all
  from write_block_bytes [OF M1(1) bn bn1 len w [folded M1(2)]] have
    B: "file_ok s2 ip" "\<And>k. blockof s2 ip k = blockof s1 ip k" "inode_same s1 ip s2"
      "\<And>o'. o' < 140 * 512 \<Longrightarrow> fbyte s2 ip o' = (if off \<le> o' \<and> o' < off + length (take m src) then take m src ! (o' - off) else fbyte s1 ip o')"
    unfolding P(1) lm by blast+
  have "fbyte s2 ip o' = (if off \<le> o' \<and> o' < off + length (take m src) then take m src ! (o' - off) else fbyte s ip o')"
    if "o' < 140 * 512" for o' unfolding B(4) [OF that] fbyte_mapped [OF M that] ..
  moreover have "blockof s2 ip k = blockof s ip k" if "k < 140" "blockof s ip k \<noteq> 0" for k
    using that B(2) M1(5,6) by (cases "k = ?bn") simp_all
  moreover have "blockof s2 ip (o' div 512) \<noteq> 0" if "off \<le> o'" "o' < off + length (take m src)" for o'
    using P(3) [of o'] that B(2) bn1 lm by simp
  ultimately show ?thesis using B(1) inode_same_trans [OF M1(4) B(3)] unfolding written_def by blast
qed

lemma written_append:
  assumes a: "written s ip off xs s1" and b: "written s1 ip (off + length xs) ys s2" and l: "off + length (xs @ ys) \<le> 140 * 512"
  shows "written s ip off (xs @ ys) s2"
proof -
  from a have A: "inode_same s ip s1"
      "\<And>o'. o' < 140 * 512 \<Longrightarrow> fbyte s1 ip o' = (if off \<le> o' \<and> o' < off + length xs then xs ! (o' - off) else fbyte s ip o')"
      "\<And>k. k < 140 \<Longrightarrow> blockof s ip k \<noteq> 0 \<Longrightarrow> blockof s1 ip k = blockof s ip k"
      "\<And>o'. off \<le> o' \<Longrightarrow> o' < off + length xs \<Longrightarrow> blockof s1 ip (o' div 512) \<noteq> 0"
    unfolding written_def by blast+
  from b have B: "file_ok s2 ip" "inode_same s1 ip s2"
      "\<And>o'. o' < 140 * 512 \<Longrightarrow> fbyte s2 ip o' = (if off + length xs \<le> o' \<and> o' < off + length xs + length ys then ys ! (o' - (off + length xs)) else fbyte s1 ip o')"
      "\<And>k. k < 140 \<Longrightarrow> blockof s1 ip k \<noteq> 0 \<Longrightarrow> blockof s2 ip k = blockof s1 ip k"
      "\<And>o'. off + length xs \<le> o' \<Longrightarrow> o' < off + length xs + length ys \<Longrightarrow> blockof s2 ip (o' div 512) \<noteq> 0"
    unfolding written_def by blast+
  have "fbyte s2 ip o' = (if off \<le> o' \<and> o' < off + length (xs @ ys) then (xs @ ys) ! (o' - off) else fbyte s ip o')"
    if "o' < 140 * 512" for o'
  proof -
    consider "off + length xs \<le> o'" | "off \<le> o'" "o' < off + length xs" | "o' < off" by linarith
    then show ?thesis
      unfolding B(3) [OF that] A(2) [OF that] by cases (auto simp: nth_append)
  qed
  moreover have "blockof s2 ip k = blockof s ip k" if "k < 140" "blockof s ip k \<noteq> 0" for k
    using that A(3) [OF that] B(4) [of k] by simp
  moreover have "blockof s2 ip (o' div 512) \<noteq> 0" if o': "off \<le> o'" "o' < off + length (xs @ ys)" for o'
  proof (cases "off + length xs \<le> o'")
    case True
    then show ?thesis using B(5) o' by simp
  next
    case False
    have "o' div 512 < 140" using o'(2) l by (simp add: div_less_iff_less_mult)
    then show ?thesis using A(4) [of o'] B(4) [of "o' div 512"] o'(1) False by simp
  qed
  ultimately show ?thesis using B(1) inode_same_trans [OF A(1) B(2)] unfolding written_def by blast
qed

lemma writei_loop_written:
  "file_ok s ip \<Longrightarrow> off + length src \<le> 140 * 512 \<Longrightarrow> writei_loop ip off src s = Inr s' \<Longrightarrow> written s ip off src s'"
proof (induction "length src" arbitrary: off src s rule: less_induct)
  case less
  show ?case
  proof (cases "src = []")
    case True
    with less.prems show ?thesis by (auto simp: writei_loop.simps [of ip off "[]"] written_def)
  next
    case False
    define m where "m = min (length src) (512 - off mod 512)"
    from less.prems(3) False file_okD(4) [OF less.prems(1)] obtain a s1 s2 where
      r: "bmap ip (off div 512) s = Inr (a, s1)" "wr_blk 1 a (\<lambda>d. patch d (off mod 512) (take m src)) s1 = Inr s2"
        "writei_loop ip (off + m) (drop m src) s2 = Inr s'"
      by (auto simp: writei_loop.simps [of ip off src s] m_def BSIZE_def Let_def)
    have p: "written s ip off (take m src) s2" by (rule written_part [OF less.prems(1) False less.prems(2) m_def r(1,2)])
    then have f2: "file_ok s2 ip" by (simp add: written_def)
    have "0 < m" using False by (simp add: m_def)
    then have "length (drop m src) < length src" using False by (cases src) auto
    from less.hyps [OF this f2 _ r(3)] less.prems(2) m_def have q: "written s2 ip (off + m) (drop m src) s'" by simp
    have "length (take m src) = m" by (simp add: m_def)
    with written_append [OF p, of "drop m src" s'] q less.prems(2) show ?thesis by simp
  qed
qed

lemma readi_loop_present:
  "file_ok s ip \<Longrightarrow> off + n \<le> 140 * 512 \<Longrightarrow> (\<And>o'. off \<le> o' \<Longrightarrow> o' < off + n \<Longrightarrow> blockof s ip (o' div 512) \<noteq> 0) \<Longrightarrow>
    readi_loop ip off n s = Inr (map (fbyte s ip) [off..<off + n], s)"
proof (induction n arbitrary: off rule: less_induct)
  case (less n)
  show ?case
  proof (cases "n = 0")
    case True
    then show ?thesis by (simp add: readi_loop.simps [of ip off 0])
  next
    case False
    note F = file_okD [OF less.prems(1)]
    define m where "m = min n (512 - off mod 512)"
    have m: "0 < m" "m \<le> n" "m \<le> 512 - off mod 512" using False by (simp_all add: m_def)
    note P = block_part [OF refl m(3)]
    have a: "blockof s ip (off div 512) \<noteq> 0" using less.prems(3) [of off] False by simp
    have bn: "off div 512 < 140" using less.prems(2) False by (simp add: div_less_iff_less_mult)
    note B = bmap_present(1) [OF less.prems(1) bn a]
    have bl: "blockof s ip (off div 512) < length (fs_blk s)"
      using F(9) [OF blockof_owned [OF bn a]] fs_okD(1) [OF F(1)] by (simp add: block_ok_def)
    note dl = fs_okD(2) [OF F(1) bl]
    have tk: "take m (drop (off mod 512) (fs_blk s ! blockof s ip (off div 512))) = map (fbyte s ip) [off..<off + m]"
    proof (rule nth_equalityI)
      fix j assume "j < length (take m (drop (off mod 512) (fs_blk s ! blockof s ip (off div 512))))"
      then have j: "j < m" using P(2) dl by simp
      have "(off + j) div 512 = off div 512" using P(3) [of "off + j"] j by simp
      moreover have "(off + j) mod 512 = off mod 512 + j"
        using P(1,2) j calculation by (metis add.assoc add_left_imp_eq div_mult_mod_eq)
      ultimately show "take m (drop (off mod 512) (fs_blk s ! blockof s ip (off div 512))) ! j = map (fbyte s ip) [off..<off + m] ! j"
        using j a P(2) dl by (simp add: fbyte_def)
    qed (use P(2) dl in simp)
    have "readi_loop ip (off + m) (n - m) s = Inr (map (fbyte s ip) [off + m..<off + m + (n - m)], s)"
      using less.IH [of "n - m" "off + m"] less.prems m by simp
    then have "readi_loop ip off n s = Inr (map (fbyte s ip) [off..<off + m] @ map (fbyte s ip) [off + m..<off + n], s)"
      using False B bl F(4) tk m(2) by (simp add: readi_loop.simps [of ip off n s] BSIZE_def Let_def m_def)
    also have "map (fbyte s ip) [off..<off + m] @ map (fbyte s ip) [off + m..<off + n] = map (fbyte s ip) [off..<off + n]"
      using upt_add_eq_append [of off "off + m" "n - m"] m(2) by simp
    finally show ?thesis .
  qed
qed


lemma length_concat_bytes32 [simp]: "length (concat (map bytes32 xs)) = 4 * length xs"
  by (induction xs) auto

lemma length_dinode_bytes: "length (d_addrs di) = 13 \<Longrightarrow> length (dinode_bytes di) = 64"
  by (simp add: dinode_bytes_def bytes16_def)

lemma iupdate_frame:
  assumes f: "file_ok s ip" and run: "iupdate ip s = Inr s'"
  shows "file_ok s' ip \<and> (\<forall>k. blockof s' ip k = blockof s ip k) \<and> (\<forall>off < 140 * 512. fbyte s' ip off = fbyte s ip off) \<and>
    fs_inode s' = fs_inode s \<and> fs_sb s' = fs_sb s"
proof -
  note F = file_okD [OF f]
  obtain di where w: "wr_blk 1 (iblk s ip) (\<lambda>d. put_dinode d (i_inum (fs_inode s ! ip) mod 8) di) s = Inr s'" and di: "length (d_addrs di) = 13"
    using run F(3,4) by (simp add: iupdate_def iblk_def IPB_def Let_def)
  note W = wr_blk_Inr [OF w]
  have us: "used s' c = used s c" if "c < sb_size (fs_sb s)" for c
  proof -
    have "iblk s ip \<noteq> BBLOCK c (fs_sb s)" using F(7) BBLOCK_in [OF that] by auto
    then show ?thesis by (simp add: used_def W(3,4))
  qed
  have pl: "length (put_dinode d (i mod 8) di) = 512" if "length d = 512" for d i
  proof -
    have "i mod 8 \<le> 7" using mod_less_divisor [of 8 i] by linarith
    then have "64 * (i mod 8) + 64 \<le> 512" by linarith
    then show ?thesis using that length_dinode_bytes [OF di] by (simp add: put_dinode_def)
  qed
  have "length (fs_blk s' ! n) = 512" if "n < length (fs_blk s')" for n
    using that fs_okD(2) [OF F(1), of n] W(2) pl by (cases "n = iblk s ip") (simp_all add: W(3))
  then have ok: "fs_ok s'" using F(1) us unfolding fs_ok_def W(4) by (auto simp: W(3))
  have other: "fs_blk s' ! a = fs_blk s ! a" if "a \<in> owned s ip" for a
  proof -
    have "iblk s ip \<noteq> a" using F(9) [OF that] by (auto simp: block_ok_def)
    then show ?thesis by (simp add: W(3))
  qed
  have fr: "file_ok s' ip \<and> (\<forall>k. blockof s' ip k = blockof s ip k) \<and> owned s' ip = owned s ip"
    by (rule file_ok_frame [OF f ok W(4,5)]) (use us other indirect_owned in \<open>simp_all add: W(3)\<close>)
  have "fbyte s' ip off = fbyte s ip off" if "off < 140 * 512" for off
  proof -
    have "off div 512 < 140" using that by (simp add: div_less_iff_less_mult)
    then show ?thesis using fr other [OF blockof_owned] by (simp add: fbyte_def)
  qed
  then show ?thesis using fr W(4,5) by blast
qed

definition set_size :: "nat \<Rightarrow> nat \<Rightarrow> fsys \<Rightarrow> fsys" where
  "set_size ip n s = upd_inode ip (\<lambda>i. i\<lparr>i_size := n\<rparr>) s"

lemma set_size_frame:
  assumes f: "file_ok s ip"
  shows "file_ok (set_size ip n s) ip \<and> (\<forall>k. blockof (set_size ip n s) ip k = blockof s ip k) \<and> (\<forall>off. fbyte (set_size ip n s) ip off = fbyte s ip off) \<and>
    fs_inode (set_size ip n s) ! ip = (fs_inode s ! ip)\<lparr>i_size := n\<rparr> \<and> fs_sb (set_size ip n s) = fs_sb s"
proof -
  note F = file_okD [OF f]
  let ?s = "set_size ip n s"
  have i: "fs_inode ?s ! ip = (fs_inode s ! ip)\<lparr>i_size := n\<rparr>" using F(2) by (simp add: set_size_def upd_inode_def)
  have e: "fs_sb ?s = fs_sb s" "fs_blk ?s = fs_blk s" "length (fs_inode ?s) = length (fs_inode s)" by (simp_all add: set_size_def upd_inode_def)
  have us: "used ?s = used s" by (simp add: used_def fun_eq_iff e)
  have a: "addr_of ?s ip k = addr_of s ip k" for k by (simp add: addr_of_def i)
  have b: "blockof ?s ip k = blockof s ip k" for k by (simp add: blockof_def a e)
  have o': "owned ?s ip = owned s ip" by (simp add: owned_def a b)
  have ib: "iblk ?s ip = iblk s ip" by (simp add: iblk_def i e)
  have bo: "block_ok ?s ip = block_ok s ip" by (simp add: block_ok_def fun_eq_iff e us ib)
  have "fs_ok ?s = fs_ok s" by (simp add: fs_ok_def e us)
  then have "file_ok ?s ip" using f unfolding file_ok_def e us o' ib bo b a by (simp add: i)
  then show ?thesis using b i e by (simp add: fbyte_def)
qed

lemma writei_done:
  assumes f: "file_ok s ip" and ty: "i_type (fs_inode s ! ip) \<noteq> T_DEV" and sz: "i_size (fs_inode s ! ip) < 2 ^ 32" "length src < 2 ^ 32"
    and run: "writei dv ip src off s = Inr (Some n, s')"
  shows "n = length src \<and> file_ok s' ip \<and> i_size (fs_inode s' ! ip) = max (i_size (fs_inode s ! ip)) (off + n) \<and>
    readi dv ip off n s' = Inr (Some src, s') \<and> off \<le> i_size (fs_inode s ! ip) \<and> off + n \<le> 140 * 512 \<and>
    i_type (fs_inode s' ! ip) = i_type (fs_inode s ! ip) \<and>
    (\<forall>o' < 140 * 512. fbyte s' ip o' = (if off \<le> o' \<and> o' < off + n then src ! (o' - off) else fbyte s ip o')) \<and>
    (\<forall>k < 140. blockof s ip k \<noteq> 0 \<longrightarrow> blockof s' ip k = blockof s ip k) \<and>
    (\<forall>o'. off \<le> o' \<longrightarrow> o' < off + n \<longrightarrow> blockof s' ip (o' div 512) \<noteq> 0)"
proof -
  let ?i = "fs_inode s ! ip" and ?n = "length src"
  have off: "off \<le> i_size ?i" "off \<le> (off + ?n) mod 2 ^ 32" and mx: "(off + ?n) mod 2 ^ 32 \<le> 71680"
    using run ty by (auto simp: writei_def Let_def fs_consts split: if_splits)
  have nov: "(off + ?n) mod 2 ^ 32 = off + ?n"
  proof (rule ccontr)
    assume "(off + ?n) mod 2 ^ 32 \<noteq> off + ?n"
    then have ge: "2 ^ 32 \<le> off + ?n" by (meson mod_less not_le_imp_less)
    then have "(off + ?n) mod 2 ^ 32 = (off + ?n - 2 ^ 32) mod 2 ^ 32" by (rule le_mod_geq)
    then have "(off + ?n) mod 2 ^ 32 \<le> off + ?n - 2 ^ 32" using mod_less_eq_dividend by metis
    then show False using off(2) ge sz(2) by linarith
  qed
  have fit: "off + ?n \<le> 140 * 512" using mx unfolding nov by simp
  obtain s1 where s1: "writei_loop ip off src s = Inr s1" and
    fin: "if 0 < ?n \<and> i_size (fs_inode s1 ! ip) < off + ?n then iupdate ip (set_size ip (off + ?n) s1) = Inr s' else s' = s1" and nn: "n = ?n"
    using run ty off mx by (auto simp: writei_def Let_def set_size_def fs_consts split: if_splits)
  from writei_loop_written [OF f fit s1] have W: "file_ok s1 ip" "inode_same s ip s1"
    "\<And>o'. o' < 140 * 512 \<Longrightarrow> fbyte s1 ip o' = (if off \<le> o' \<and> o' < off + ?n then src ! (o' - off) else fbyte s ip o')"
    "\<And>o'. off \<le> o' \<Longrightarrow> o' < off + ?n \<Longrightarrow> blockof s1 ip (o' div 512) \<noteq> 0"
    "\<And>k. k < 140 \<Longrightarrow> blockof s ip k \<noteq> 0 \<Longrightarrow> blockof s1 ip k = blockof s ip k" unfolding written_def by blast+
  from W(2) have e: "fs_inode s1 ! ip = ?i\<lparr>i_addrs := i_addrs (fs_inode s1 ! ip)\<rparr>" unfolding inode_same_def by blast
  have i1: "i_size (fs_inode s1 ! ip) = i_size ?i" "i_type (fs_inode s1 ! ip) = i_type ?i" by (subst e, simp)+
  have R: "file_ok s' ip \<and> (\<forall>k. blockof s' ip k = blockof s1 ip k) \<and> (\<forall>o' < 140 * 512. fbyte s' ip o' = fbyte s1 ip o') \<and>
      i_size (fs_inode s' ! ip) = max (i_size ?i) (off + ?n) \<and> i_type (fs_inode s' ! ip) = i_type ?i"
  proof (cases "0 < ?n \<and> i_size ?i < off + ?n")
    case True
    with fin i1 have u: "iupdate ip (set_size ip (off + ?n) s1) = Inr s'" by simp
    note S = set_size_frame [OF W(1), of "off + ?n"]
    from iupdate_frame [OF conjunct1 [OF S] u] S i1 True show ?thesis by simp
  next
    case False
    then have "off + ?n \<le> i_size ?i" using off(1) by linarith
    with False fin i1 W(1) show ?thesis by (simp split: if_splits)
  qed
  have "readi_loop ip off ?n s' = Inr (map (fbyte s' ip) [off..<off + ?n], s')"
    using R W(4) fit by (intro readi_loop_present) simp_all
  moreover have "map (fbyte s' ip) [off..<off + ?n] = src"
    using R W(3) fit by (intro nth_equalityI) simp_all
  ultimately have "readi dv ip off n s' = Inr (Some src, s')"
    using R ty nov off nn by (simp add: readi_def Let_def)
  moreover have "fbyte s' ip o' = (if off \<le> o' \<and> o' < off + n then src ! (o' - off) else fbyte s ip o')" if "o' < 140 * 512" for o'
    using R W(3) [OF that] that nn by simp
  ultimately show ?thesis using R nn off(1) fit W(4,5) by simp
qed

text \<open>C4: the contents of a file. When \<open>writei\<close> accepts \<open>src\<close> at an offset of a file that is not a
  device, it has written all of it: the size is the larger of the old size and the end of the
  written range, no other byte of the file changes, the block map stays well-formed, and
  \<open>readi\<close> then returns exactly \<open>src\<close> without changing anything.\<close>

theorem writei_readi:
  assumes f: "file_ok s ip" and ty: "i_type (fs_inode s ! ip) \<noteq> T_DEV" and sz: "i_size (fs_inode s ! ip) < 2 ^ 32" "length src < 2 ^ 32"
    and run: "writei dv ip src off s = Inr (Some n, s')"
  shows "n = length src \<and> file_ok s' ip \<and> i_size (fs_inode s' ! ip) = max (i_size (fs_inode s ! ip)) (off + n) \<and>
    readi dv ip off n s' = Inr (Some src, s') \<and>
    (\<forall>o' < i_size (fs_inode s ! ip). o' < 140 * 512 \<longrightarrow> o' < off \<or> off + n \<le> o' \<longrightarrow> fbyte s' ip o' = fbyte s ip o')"
  using writei_done [OF assms] by auto

text \<open>A small file system: the bit map in block 3, blocks 4 to 7 free, an empty file in the inode cache.\<close>

definition tiny_fs :: fsys where
  "tiny_fs = \<lparr>fs_sb = \<lparr>sb_size = 8, sb_nblocks = 4, sb_ninodes = 8, sb_nlog = 30, sb_logstart = 2, sb_inodestart = 2, sb_bmapstart = 3\<rparr>,
     fs_blk = (replicate 8 (replicate 512 0))[3 := 15 # replicate 511 0], fs_log = [], fs_outstanding = 1,
     fs_inode = (replicate NINODE no_inode)[0 := no_inode\<lparr>i_dev := 1, i_inum := 1, i_ref := 1, i_valid := True, i_type := T_FILE\<rparr>]\<rparr>"

lemma tiny_sb: "sb_size (fs_sb tiny_fs) = 8" "BBLOCK b (fs_sb tiny_fs) = b div 4096 + 3" "bitmap (fs_sb tiny_fs) = {3}"
    "length (fs_blk tiny_fs) = 8" "fs_blk tiny_fs ! 3 = 15 # replicate 511 0"
  by (auto simp: tiny_fs_def BBLOCK_def bitmap_def fs_consts intro: image_eqI [of _ _ 0])

lemma tiny_used: "b < 8 \<Longrightarrow> used tiny_fs b \<longleftrightarrow> b < 4"
proof -
  assume b: "b < 8"
  then have "used tiny_fs b \<longleftrightarrow> bit (15 :: byte) b"
    by (simp add: used_def tiny_sb fs_consts bit_clear_bit)
  also have "(15 :: byte) = mask 4" by (simp add: mask_eq_exp_minus_1)
  finally show ?thesis using b by (simp add: bit_mask_iff)
qed

lemma tiny_ok: "fs_ok tiny_fs" "can_log tiny_fs 4"
proof -
  have "length (fs_blk tiny_fs ! n) = 512" if "n < 8" for n using that by (auto simp: tiny_fs_def nth_list_update)
  then show "fs_ok tiny_fs" using tiny_used by (auto simp: fs_ok_def tiny_sb)
  show "can_log tiny_fs 4" by (simp add: can_log_def tiny_fs_def LOGSIZE_def)
qed

theorem balloc_correct_witness:
  "\<exists>b s'. balloc 1 tiny_fs = Inr (b, s') \<and> 4 \<le> b \<and> b < 8 \<and> used s' b \<and> fs_blk s' ! b = replicate 512 0"
proof -
  note B = balloc_correct [OF tiny_ok(1)]
  have "can_log tiny_fs 2" using tiny_ok(2) by (simp add: can_log_def)
  moreover have "\<exists>c < sb_size (fs_sb tiny_fs). \<not> used tiny_fs c" using tiny_used [of 4] by (intro exI [of _ 4]) (simp add: tiny_sb)
  ultimately obtain b s' where b: "balloc 1 tiny_fs = Inr (b, s')" using B by blast
  then have "allocated tiny_fs b s'" using B by blast
  with b show ?thesis using tiny_used [of b] unfolding allocated_def tiny_sb(1) by (intro exI [of _ b] exI [of _ s']) auto
qed

lemma tiny_file: "file_ok tiny_fs 0" "fs_inode tiny_fs ! 0 = no_inode\<lparr>i_dev := 1, i_inum := 1, i_ref := 1, i_valid := True, i_type := T_FILE\<rparr>"
proof -
  show i: "fs_inode tiny_fs ! 0 = no_inode\<lparr>i_dev := 1, i_inum := 1, i_ref := 1, i_valid := True, i_type := T_FILE\<rparr>"
    by (simp add: tiny_fs_def NINODE_def)
  have a: "addr_of tiny_fs 0 k = 0" if "k < 13" for k using that by (simp add: addr_of_def i no_inode_def fs_consts)
  have b: "blockof tiny_fs 0 k = 0" for k using a by (simp add: blockof_def)
  have o': "owned tiny_fs 0 = {}" using a by (auto simp: owned_def b)
  have ib: "iblk tiny_fs 0 = 2" by (simp add: iblk_def i IBLOCK_def fs_consts) (simp add: tiny_fs_def)
  show "file_ok tiny_fs 0"
    unfolding file_ok_def o' ib b tiny_sb using tiny_ok(1) tiny_used [of 2]
    by (simp add: i no_inode_def fs_consts) (simp add: tiny_fs_def NINODE_def)
qed

lemma iupdate_total:
  assumes "can_log s (Suc k)" and "iblk s ip < length (fs_blk s)" and "i_dev (fs_inode s ! ip) = 1"
  shows "\<exists>s'. iupdate ip s = Inr s'"
  using wr_blk_total [OF assms(2,1)] unfolding iupdate_def Let_def assms(3) iblk_def by blast

lemma writei_loop_Nil [simp]: "writei_loop ip off [] s = Inr s"
  by (simp add: writei_loop.simps)

text \<open>A write of at most one block to an empty file returns when a block is free and the log has room
  for four blocks.\<close>

lemma first_write_total:
  assumes f: "file_ok s ip" and ty: "i_type (fs_inode s ! ip) \<noteq> T_DEV" and empty: "i_size (fs_inode s ! ip) = 0" "addr_of s ip 0 = 0"
    and free: "c < sb_size (fs_sb s)" "\<not> used s c" and room: "can_log s 4" and src: "src \<noteq> []" "length src \<le> 512"
  shows "\<exists>s'. writei dv ip src 0 s = Inr (Some (length src), s')"
proof -
  note F = file_okD [OF f]
  have d: "i_dev (fs_inode s ! ip) = Suc 0" using F(4) by simp
  have "can_log s (Suc (Suc 2))" using room by (simp add: can_log_def)
  from balloc_from_total [OF F(1) le0 free this mod_0]
  obtain b s1 where b: "balloc 1 s = Inr (b, s1)" "can_log s1 2" by (auto simp: balloc_def)
  note A = balloc_Inr [OF F(1) b(1)]
  then have s1: "fs_inode s1 = fs_inode s" "b < length (fs_blk s1)" "length (fs_blk s1) = length (fs_blk s)" "fs_sb s1 = fs_sb s"
    using fs_okD(1) [OF F(1)] unfolding allocated_def by auto
  let ?s = "set_addr ip 0 b s1"
  have m: "bmap ip 0 s = Inr (b, ?s)" using b(1) empty(2) d by (simp add: bmap_def get_addr_def fs_consts Let_def)
  have "can_log ?s (Suc 1)" using b(2) by (simp add: can_log_def set_addr_def upd_inode_def)
  with wr_blk_total [of b ?s 1] s1(2) obtain s2 where
    s2: "wr_blk 1 b (\<lambda>d. patch d 0 src) ?s = Inr s2" "can_log s2 1" by auto
  have "min (length src) (512 - 0 mod 512) = length src" using src(2) by simp
  then have w: "writei_loop ip 0 src s = Inr s2"
    using m s2 d src by (simp add: writei_loop.simps [of ip 0 src] fs_consts Let_def)
  note S = wr_blk_Inr [OF s2(1)]
  have i2: "fs_inode s2 ! ip = (fs_inode s ! ip)\<lparr>i_addrs := (i_addrs (fs_inode s ! ip))[0 := b]\<rparr>"
    using S(5) set_addr_inode [of ip s1 0 b] s1(1) F(2) by simp
  let ?t = "upd_inode ip (\<lambda>i. i\<lparr>i_size := length src\<rparr>) s2"
  have l2: "length (fs_inode s2) = length (fs_inode s)" using S(5) s1(1) by simp
  have t: "i_dev (fs_inode ?t ! ip) = 1" "iblk ?t ip = iblk s ip" "length (fs_blk ?t) = length (fs_blk s)"
    using i2 S(3,4) s1 F(2,4) l2 by (simp_all add: upd_inode_def iblk_def)
  have "can_log ?t (Suc 0)" using s2(2) by (simp add: can_log_def upd_inode_def)
  moreover have "iblk ?t ip < length (fs_blk ?t)" unfolding t(2,3) by (rule F(6))
  ultimately obtain s3 where u: "iupdate ip ?t = Inr s3" using iupdate_total t(1) by blast
  have len: "0 < length src" "length src mod 4294967296 = length src" "length src \<le> 71680" using src by simp_all
  show ?thesis using u w i2 ty empty(1) len by (simp add: writei_def Let_def fs_consts)
qed

lemma tiny_write: "\<exists>s'. writei dv 0 [7, 8, 9] 0 tiny_fs = Inr (Some 3, s')"
proof -
  have "\<exists>s'. writei dv 0 [7, 8, 9] 0 tiny_fs = Inr (Some (length [7, 8, 9 :: byte]), s')"
    by (rule first_write_total [OF tiny_file(1), where c = 4])
      (use tiny_used [of 4] tiny_ok(2) in \<open>simp_all add: addr_of_def tiny_file no_inode_def fs_consts T_FILE_def T_DEV_def tiny_sb\<close>)
  then show ?thesis by (simp add: numeral_3_eq_3)
qed

definition no_dev :: devsw where
  "no_dev = \<lparr>dv_read = (\<lambda>_. None), dv_write = (\<lambda>_. None)\<rparr>"

theorem writei_readi_witness:
  "\<exists>s'. writei no_dev 0 [7, 8, 9] 0 tiny_fs = Inr (Some 3, s') \<and> readi no_dev 0 0 3 s' = Inr (Some [7, 8, 9], s')"
proof -
  obtain s' where w: "writei no_dev 0 [7, 8, 9] 0 tiny_fs = Inr (Some 3, s')" using tiny_write by blast
  from writei_readi [OF tiny_file(1) _ _ _ w] show ?thesis
    using w by (simp add: tiny_file no_inode_def T_FILE_def T_DEV_def)
qed


subsection \<open>The block layer\<close>

text \<open>The interface between the file system and the layers below: blocks are read, and changed by a
  function; \<open>content\<close> is what a reader sees.\<close>

locale block_layer =
  fixes content :: "'s \<Rightarrow> nat \<Rightarrow> block"
    and inv :: "'s \<Rightarrow> bool"
    and nblocks :: "'s \<Rightarrow> nat"
    and rd :: "nat \<Rightarrow> 's \<Rightarrow> fault + block \<times> 's"
    and wr :: "nat \<Rightarrow> (block \<Rightarrow> block) \<Rightarrow> 's \<Rightarrow> fault + 's"
  assumes rd_law: "inv s \<Longrightarrow> n < nblocks s \<Longrightarrow>
      \<exists>s'. rd n s = Inr (content s n, s') \<and> inv s' \<and> nblocks s' = nblocks s \<and> (\<forall>m < nblocks s. content s' m = content s m)"
    and wr_law: "inv s \<Longrightarrow> n < nblocks s \<Longrightarrow> wr n f s = Inr s' \<Longrightarrow>
      inv s' \<and> nblocks s' = nblocks s \<and> (\<forall>m < nblocks s. content s' m = (if m = n then f (content s n) else content s m))"
begin

lemma read_after_write:
  assumes "inv s" and "n < nblocks s" and "wr n f s = Inr s'" and "m < nblocks s"
  shows "\<exists>s''. rd m s' = Inr (if m = n then f (content s n) else content s m, s'')"
  using wr_law [OF assms(1-3)] rd_law [of s' m] assms(4) by auto

fun wr_all :: "(nat \<times> (block \<Rightarrow> block)) list \<Rightarrow> 's \<Rightarrow> fault + 's" where
  "wr_all [] s = Inr s"
| "wr_all ((n, f) # ws) s = ebind (wr n f s) (wr_all ws)"

lemma untouched:
  "inv s \<Longrightarrow> \<forall>(n, f) \<in> set ws. n < nblocks s \<and> n \<noteq> m \<Longrightarrow> m < nblocks s \<Longrightarrow> wr_all ws s = Inr s' \<Longrightarrow>
    inv s' \<and> nblocks s' = nblocks s \<and> content s' m = content s m"
proof (induction ws arbitrary: s)
  case (Cons w ws)
  obtain n f where w: "w = (n, f)" by (cases w)
  with Cons.prems obtain s1 where s1: "wr n f s = Inr s1" "wr_all ws s1 = Inr s'" by auto
  from wr_law [OF Cons.prems(1) _ s1(1)] Cons.prems w Cons.IH [OF _ _ _ s1(2)] show ?case by auto
qed simp

end

interpretation fs_blocks: block_layer "\<lambda>s n. fs_blk s ! n" "\<lambda>_. True" "\<lambda>s. length (fs_blk s)"
  "\<lambda>n s. ebind (rd_blk 1 n s) (\<lambda>d. Inr (d, s))" "wr_blk 1"
proof
  fix s s' n f assume w: "wr_blk 1 n f s = Inr s'"
  show "True \<and> length (fs_blk s') = length (fs_blk s) \<and>
      (\<forall>m < length (fs_blk s). fs_blk s' ! m = (if m = n then f (fs_blk s ! n) else fs_blk s ! m))"
    using wr_blk_Inr(3) [OF w] by simp
qed simp

text \<open>The same operations on the buffer cache and the log.\<close>

definition cache_rd :: "int \<Rightarrow> nat \<Rightarrow> fslog \<Rightarrow> fault + block \<times> fslog" where
  "cache_rd me n st =
     ebind (log_bread me n st) (\<lambda>(i, st1). ebind (log_brelse me i st1) (\<lambda>st2. Inr (buf_data st1 i, st2)))"

definition cache_wr :: "int \<Rightarrow> nat \<Rightarrow> (block \<Rightarrow> block) \<Rightarrow> fslog \<Rightarrow> fault + fslog" where
  "cache_wr me n f st =
     ebind (log_bread me n st) (\<lambda>(i, st1).
       ebind (log_write i (put_data i (f (buf_data st1 i)) st1)) (log_brelse me i))"

text \<open>Nobody holds a buffer, the pinned buffers are those of the blocks in the header of the log, and the
  log is not larger than the one \<open>mkfs\<close> builds: so the cache always has a buffer left.\<close>

definition log_inv :: "int \<Rightarrow> fslog \<Rightarrow> bool" where
  "log_inv me st \<longleftrightarrow> held me (lg_cache st) {} \<and> (\<forall>j \<in> dirtyi (lg_cache st). b_blockno (bc_buf (lg_cache st) ! j) \<in> set (lg_block st)) \<and>
     lg_size st \<le> 30 \<and> length (lg_block st) < 30"

lemma log_inv_room:
  assumes "log_inv me st"
  shows "card (dirtyi (lg_cache st)) + card {} < 30"
proof -
  from assms have h: "held me (lg_cache st) {}" and pin: "\<forall>j \<in> dirtyi (lg_cache st). b_blockno (bc_buf (lg_cache st) ! j) \<in> set (lg_block st)"
    and l: "length (lg_block st) < 30" by (simp_all add: log_inv_def)
  have "inj_on (\<lambda>j. b_blockno (bc_buf (lg_cache st) ! j)) (dirtyi (lg_cache st))"
  proof (rule inj_onI)
    fix i j assume "i \<in> dirtyi (lg_cache st)" "j \<in> dirtyi (lg_cache st)" "b_blockno (bc_buf (lg_cache st) ! i) = b_blockno (bc_buf (lg_cache st) ! j)"
    then show "i = j"
      using dirty_dev [OF heldD(1) [OF h]] no_dupD [OF bio_okD(4) [OF heldD(1) [OF h]], of i j] by (simp add: dirtyi_def)
  qed
  then have "card (dirtyi (lg_cache st)) \<le> card (set (lg_block st))"
    using pin by (intro card_inj_on_le) auto
  also have "\<dots> \<le> length (lg_block st)" by (rule card_length)
  finally show ?thesis using l by simp
qed

lemma pin_held:
  assumes h: "held me s H" and i: "i \<in> H" "b_dev (bc_buf s ! i) = 1" "b_blockno (bc_buf s ! i) = n" "b_valid (bc_buf s ! i)"
  shows "held me (pin i (set_data i d s)) H" "view (pin i (set_data i d s)) m = (if m = n then d else view s m)"
    "bc_buf (pin i (set_data i d s)) ! i = (bc_buf s ! i)\<lparr>b_data := d, b_dirty := True\<rparr>"
    "j < 30 \<Longrightarrow> j \<noteq> i \<Longrightarrow> bc_buf (pin i (set_data i d s)) ! j = bc_buf s ! j"
    "bc_disk (pin i (set_data i d s)) = bc_disk s"
proof -
  note S = set_data_held [OF h i, where d = d]
  have i30: "i < 30" using heldD(2) [OF h] i by auto
  let ?t = "set_data i d s"
  let ?b = "(bc_buf ?t ! i)\<lparr>b_dirty := True\<rparr>"
  have p: "pin i ?t = upd_buf i (\<lambda>_. ?b) ?t" by (simp add: pin_def upd_buf_def)
  have ti: "bc_buf ?t ! i = (bc_buf s ! i)\<lparr>b_data := d\<rparr>" using S(3) [OF i30] by simp
  note D = bio_okD [OF S(1)]
  have ok: "bio_ok (pin i ?t)"
    unfolding p by (rule bio_ok_upd [OF S(1) i30]) (use no_dup_other [OF D(4) i30] D(5) [OF i30] i ti in simp_all)
  have "view (pin i ?t) m = view ?t m"
    unfolding p by (rule view_upd [OF S(1) ok [unfolded p] i30]) (use ti i view_cached [OF S(1) i30] in simp_all)
  then show "view (pin i ?t) m = (if m = n then d else view s m)" using S(2) by simp
  have at: "bc_buf (pin i ?t) ! j = (if j = i then ?b else bc_buf ?t ! j)" if "j < 30" for j using that D(1) i30 by (simp add: p)
  show bi: "bc_buf (pin i ?t) ! i = (bc_buf s ! i)\<lparr>b_data := d, b_dirty := True\<rparr>" using at [OF i30] ti by simp
  show same: "bc_buf (pin i ?t) ! j = bc_buf s ! j" if "j < 30" "j \<noteq> i" for j using at S(3) that by simp
  show "bc_disk (pin i ?t) = bc_disk s" using S(4) by (simp add: p)
  have "b_refcnt (bc_buf (pin i ?t) ! j) = (if j \<in> H then 1 else 0) \<and> b_lock (bc_buf (pin i ?t) ! j) = (if j \<in> H then Some me else None)"
    if "j < 30" for j
    using bi same [OF that] heldD(4,5) [OF h that] i(1) by (cases "j = i") simp_all
  then show "held me (pin i ?t) H" unfolding held_def using ok heldD(2) [OF h] by blast
qed


lemma brelse_blockno: "brelse me i s = Inr s' \<Longrightarrow> b_blockno (bc_buf s' ! j) = b_blockno (bc_buf s ! j)"
  by (cases "i < length (bc_buf s)"; cases "j = i") (auto simp: brelse_def Let_def list_update_beyond split: if_splits)

lemma read_buffer:
  assumes inv: "log_inv me st" and n: "n < length (bc_disk (lg_cache st))"
  obtains i s1 where "bread me 1 n (lg_cache st) = Inr (Some i, s1)" "i < 30" "held me s1 {i}" "b_dev (bc_buf s1 ! i) = 1"
    "b_blockno (bc_buf s1 ! i) = n" "b_valid (bc_buf s1 ! i)" "b_data (bc_buf s1 ! i) = view (lg_cache st) n"
    "bc_disk s1 = bc_disk (lg_cache st)" "\<And>m. view s1 m = view (lg_cache st) m" "dirtyi s1 = dirtyi (lg_cache st)"
    "b_dirty (bc_buf s1 ! i) \<or> b_data (bc_buf s1 ! i) = bc_disk s1 ! n"
    "\<And>j. j \<in> dirtyi s1 \<Longrightarrow> b_blockno (bc_buf s1 ! j) \<in> set (lg_block st)"
proof -
  let ?s = "lg_cache st"
  from inv have h: "held me ?s {}" and pin: "\<And>j. j \<in> dirtyi ?s \<Longrightarrow> b_blockno (bc_buf ?s ! j) \<in> set (lg_block st)" by (simp_all add: log_inv_def)
  obtain i s1 where r: "bread me 1 n ?s = Inr (Some i, s1)" "i < 30" "i \<notin> {}" "held me s1 (insert i {})"
      "b_dev (bc_buf s1 ! i) = 1" "b_blockno (bc_buf s1 ! i) = n" "b_valid (bc_buf s1 ! i)" "b_data (bc_buf s1 ! i) = view ?s n"
      "bc_disk s1 = bc_disk ?s" "\<And>k. view s1 k = view ?s k" "\<And>j. j < 30 \<Longrightarrow> j \<noteq> i \<Longrightarrow> bc_buf s1 ! j = bc_buf ?s ! j"
      "dirtyi s1 = dirtyi ?s"
    by (rule bread_held [OF h n log_inv_room [OF inv]]) (simp, blast)
  have c: "b_dirty (bc_buf s1 ! i) \<or> view ?s n = bc_disk ?s ! n"
    by (rule bread_pinned [OF h _ r(4,2,5,6,11,12)]) simp
  have "b_blockno (bc_buf s1 ! j) \<in> set (lg_block st)" if j: "j \<in> dirtyi s1" for j
  proof (cases "j = i")
    case True
    with j r(12) have "i \<in> dirtyi ?s" by simp
    then have "b_dirty (bc_buf ?s ! i)" by (simp add: dirtyi_def)
    then have "b_blockno (bc_buf ?s ! i) = n" using bread_spec [OF heldD(1) [OF h] r(1)] by blast
    then show ?thesis using pin [of i] j True r(6,12) by simp
  next
    case False
    then show ?thesis using pin [of j] r(11) [of j] j r(12) by (simp add: dirtyi_def)
  qed
  with r c show thesis by (intro that [of i s1]) simp_all
qed

lemma cache_rd_spec:
  assumes inv: "log_inv me st" and n: "n < length (bc_disk (lg_cache st))"
  shows "\<exists>st'. cache_rd me n st = Inr (view (lg_cache st) n, st') \<and> log_inv me st' \<and> bc_disk (lg_cache st') = bc_disk (lg_cache st) \<and>
    (\<forall>m. view (lg_cache st') m = view (lg_cache st) m)"
proof -
  let ?s = "lg_cache st"
  obtain i s1 where r: "bread me 1 n ?s = Inr (Some i, s1)" "i < 30" "held me s1 {i}" "b_dev (bc_buf s1 ! i) = 1"
    "b_blockno (bc_buf s1 ! i) = n" "b_valid (bc_buf s1 ! i)" "b_data (bc_buf s1 ! i) = view ?s n"
    "bc_disk s1 = bc_disk ?s" "\<And>m. view s1 m = view ?s m" "dirtyi s1 = dirtyi ?s"
    "b_dirty (bc_buf s1 ! i) \<or> b_data (bc_buf s1 ! i) = bc_disk s1 ! n"
    "\<And>j. j \<in> dirtyi s1 \<Longrightarrow> b_blockno (bc_buf s1 ! j) \<in> set (lg_block st)"
    by (rule read_buffer [OF inv n]) blast
  have c: "b_dirty (bc_buf s1 ! i) \<or> b_data (bc_buf s1 ! i) = bc_disk s1 ! b_blockno (bc_buf s1 ! i)" unfolding r(5) by (rule r(11))
  obtain s2 where l: "brelse me i s1 = Inr s2" "held me s2 ({i} - {i})" "bc_disk s2 = bc_disk s1"
    "\<And>k. view s2 k = view s1 k" "\<And>j. j < 30 \<Longrightarrow> j \<noteq> i \<Longrightarrow> bc_buf s2 ! j = bc_buf s1 ! j" "dirtyi s2 = dirtyi s1"
    by (rule release_held [OF r(3) _ r(6) c]) simp_all
  have bn: "b_blockno (bc_buf s2 ! j) = b_blockno (bc_buf s1 ! j)" if "j < 30" for j
  proof (cases "j = i")
    case True
    then show ?thesis using brelse_blockno [OF l(1)] by simp
  qed (use l(5) that in simp)
  have "log_inv me (st\<lparr>lg_cache := s2\<rparr>)"
    using l(2,6) r(12) inv bn by (auto simp: log_inv_def dirtyi_def)
  then show ?thesis
    using r(1,7,8,9) l(1,3,4)
    by (simp add: cache_rd_def log_bread_def log_brelse_def with_cache_def buf_data_def)
qed

text \<open>The log has room for another block, and an operation is running.\<close>

definition log_open :: "fslog \<Rightarrow> bool" where
  "log_open st \<longleftrightarrow> length (lg_block st) < LOGSIZE \<and> int (length (lg_block st)) < int (lg_size st) - 1 \<and> 1 \<le> lg_outstanding st"

lemma cache_wr_done:
  assumes inv: "log_inv me st" and n: "n < length (bc_disk (lg_cache st))" and op: "log_open st"
  shows "\<exists>st'. cache_wr me n f st = Inr st' \<and> log_inv me st' \<and> bc_disk (lg_cache st') = bc_disk (lg_cache st) \<and>
    (\<forall>m. view (lg_cache st') m = (if m = n then f (view (lg_cache st) n) else view (lg_cache st) m)) \<and>
    lg_block st' = (if n \<in> set (lg_block st) then lg_block st else lg_block st @ [n]) \<and>
    lg_outstanding st' = lg_outstanding st \<and> lg_size st' = lg_size st"
proof -
  let ?s = "lg_cache st" and ?d = "f (view (lg_cache st) n)"
  obtain i s1 where r: "bread me 1 n ?s = Inr (Some i, s1)" "i < 30" "held me s1 {i}" "b_dev (bc_buf s1 ! i) = 1"
    "b_blockno (bc_buf s1 ! i) = n" "b_valid (bc_buf s1 ! i)" "b_data (bc_buf s1 ! i) = view ?s n"
    "bc_disk s1 = bc_disk ?s" "\<And>m. view s1 m = view ?s m" "dirtyi s1 = dirtyi ?s"
    "b_dirty (bc_buf s1 ! i) \<or> b_data (bc_buf s1 ! i) = bc_disk s1 ! n"
    "\<And>j. j \<in> dirtyi s1 \<Longrightarrow> b_blockno (bc_buf s1 ! j) \<in> set (lg_block st)"
    by (rule read_buffer [OF inv n]) blast
  let ?p = "pin i (set_data i ?d s1)"
  have "i \<in> {i}" by simp
  note P = pin_held [OF r(3) this r(4,5,6), where d = ?d]
  have v: "b_valid (bc_buf ?p ! i)" "b_dirty (bc_buf ?p ! i) \<or> b_data (bc_buf ?p ! i) = bc_disk ?p ! b_blockno (bc_buf ?p ! i)"
    unfolding P(3) using r(6) by simp_all
  obtain s2 where l: "brelse me i ?p = Inr s2" "held me s2 ({i} - {i})" "bc_disk s2 = bc_disk ?p"
    "\<And>k. view s2 k = view ?p k" "\<And>j. j < 30 \<Longrightarrow> j \<noteq> i \<Longrightarrow> bc_buf s2 ! j = bc_buf ?p ! j" "dirtyi s2 = dirtyi ?p"
    by (rule release_held [OF P(1) _ v]) simp_all
  let ?L = "if n \<in> set (lg_block st) then lg_block st else lg_block st @ [n]"
  have len: "b_blockno (bc_buf (set_data i ?d s1) ! i) = n" using set_data_held(3) [OF r(3) _ r(4,5,6) r(2)] r(5) by simp
  have pinned: "b_blockno (bc_buf s2 ! j) \<in> set ?L" if j: "j \<in> dirtyi s2" for j
  proof (cases "j = i")
    case True
    then show ?thesis using brelse_blockno [OF l(1), of i] P(3) r(5) by simp
  next
    case False
    have j30: "j < 30" using j by (simp add: dirtyi_def)
    have "bc_buf s2 ! j = bc_buf s1 ! j" using l(5) [OF j30 False] P(4) [OF j30 False] by simp
    then show ?thesis using r(12) [of j] j j30 by (auto simp: dirtyi_def)
  qed
  have sz: "length ?L < 30 \<and> lg_size st \<le> 30" using inv op by (auto simp: log_inv_def log_open_def)
  let ?st = "st\<lparr>lg_block := ?L, lg_cache := s2\<rparr>"
  have "cache_wr me n f st = Inr ?st"
    using r(1,7) len l(1) op
    by (simp add: cache_wr_def log_bread_def log_write_def log_brelse_def with_cache_def buf_data_def put_data_def Let_def log_open_def)
  moreover have "log_inv me ?st" using l(2) pinned sz by (simp add: log_inv_def)
  moreover have "view s2 m = (if m = n then ?d else view ?s m)" for m using l(4) P(2) r(9) by simp
  ultimately show ?thesis using l(3) P(5) r(8) by (intro exI [of _ ?st]) simp
qed

lemma cache_wr_refused:
  assumes inv: "log_inv me st" and n: "n < length (bc_disk (lg_cache st))" and op: "\<not> log_open st"
  shows "cache_wr me n f st =
    Inl (Panic (if length (lg_block st) < LOGSIZE \<and> int (length (lg_block st)) < int (lg_size st) - 1
                then ''log_write outside of trans'' else ''too big a transaction''))"
proof -
  obtain i s1 where "bread me 1 n (lg_cache st) = Inr (Some i, s1)" by (rule read_buffer [OF inv n]) blast
  with op show ?thesis
    by (auto simp: cache_wr_def log_bread_def log_write_def with_cache_def put_data_def Let_def log_open_def)
qed

interpretation cache_blocks: block_layer "\<lambda>st. view (lg_cache st)" "log_inv me" "\<lambda>st. length (bc_disk (lg_cache st))"
  "cache_rd me" "cache_wr me" for me
proof
  fix st n
  assume "log_inv me st" "n < length (bc_disk (lg_cache st))"
  from cache_rd_spec [OF this] show "\<exists>st'. cache_rd me n st = Inr (view (lg_cache st) n, st') \<and> log_inv me st' \<and>
      length (bc_disk (lg_cache st')) = length (bc_disk (lg_cache st)) \<and>
      (\<forall>m < length (bc_disk (lg_cache st)). view (lg_cache st') m = view (lg_cache st) m)" by auto
next
  fix st st' n f
  assume a: "log_inv me st" "n < length (bc_disk (lg_cache st))" and w: "cache_wr me n f st = Inr st'"
  have "log_open st" using cache_wr_refused [OF a] w by fastforce
  from cache_wr_done [OF a this, of f] w show "log_inv me st' \<and> length (bc_disk (lg_cache st')) = length (bc_disk (lg_cache st)) \<and>
      (\<forall>m < length (bc_disk (lg_cache st)). view (lg_cache st') m = (if m = n then f (view (lg_cache st) n) else view (lg_cache st) m))" by auto
qed

text \<open>The state of the file system that the cache and the log represent.\<close>

definition fs_view :: "superblock \<Rightarrow> inode list \<Rightarrow> fslog \<Rightarrow> fsys" where
  "fs_view sb inodes st = \<lparr>fs_sb = sb, fs_blk = map (view (lg_cache st)) [0..<length (bc_disk (lg_cache st))], fs_log = lg_block st,
     fs_outstanding = lg_outstanding st, fs_inode = inodes\<rparr>"

text \<open>C21: the block operations of the file system model are implemented by the buffer cache and the log. On
  every state with the invariant of the log, reading a block with \<open>bread\<close> and \<open>brelse\<close> returns what
  \<open>rd_blk\<close> returns on the abstract state and leaves that state alone; \<open>bread\<close>, a change of the data,
  \<open>log_write\<close> and \<open>brelse\<close> commute with \<open>wr_blk\<close>, panics included, and keep the invariant, so \<open>bget\<close>
  never runs out of buffers.\<close>

theorem block_layer_refined:
  assumes inv: "log_inv me st" and n: "n < length (bc_disk (lg_cache st))" and sb: "sb_nlog sb = lg_size st"
  shows "(\<exists>d st'. cache_rd me n st = Inr (d, st') \<and> rd_blk 1 n (fs_view sb inodes st) = Inr d \<and>
      fs_blk (fs_view sb inodes st') = fs_blk (fs_view sb inodes st) \<and> log_inv me st') \<and>
    (case cache_wr me n f st of
       Inl e \<Rightarrow> wr_blk 1 n f (fs_view sb inodes st) = Inl e
     | Inr st' \<Rightarrow> wr_blk 1 n f (fs_view sb inodes st) = Inr (fs_view sb inodes st') \<and> log_inv me st')"
proof
  let ?s = "fs_view sb inodes st"
  have at: "fs_blk ?s ! n = view (lg_cache st) n" "n < length (fs_blk ?s)" using n by (simp_all add: fs_view_def)
  show "\<exists>d st'. cache_rd me n st = Inr (d, st') \<and> rd_blk 1 n ?s = Inr d \<and> fs_blk (fs_view sb inodes st') = fs_blk ?s \<and> log_inv me st'"
    using cache_rd_spec [OF inv n] at by (auto simp: fs_view_def)
  show "case cache_wr me n f st of Inl e \<Rightarrow> wr_blk 1 n f ?s = Inl e
     | Inr st' \<Rightarrow> wr_blk 1 n f ?s = Inr (fs_view sb inodes st') \<and> log_inv me st'"
  proof (cases "log_open st")
    case True
    from cache_wr_done [OF inv n True, of f] obtain st' where
      w: "cache_wr me n f st = Inr st'" "log_inv me st'" "bc_disk (lg_cache st') = bc_disk (lg_cache st)"
        "\<And>m. view (lg_cache st') m = (if m = n then f (view (lg_cache st) n) else view (lg_cache st) m)"
        "lg_block st' = (if n \<in> set (lg_block st) then lg_block st else lg_block st @ [n])" "lg_outstanding st' = lg_outstanding st" by blast
    have "map (view (lg_cache st')) [0..<length (bc_disk (lg_cache st))] =
        (map (view (lg_cache st)) [0..<length (bc_disk (lg_cache st))])[n := f (view (lg_cache st) n)]"
      using n by (intro nth_equalityI) (auto simp: w(4) nth_list_update)
    then have "wr_blk 1 n f ?s = Inr (fs_view sb inodes st')"
      using True n w(3,5,6) sb by (simp add: wr_blk_def rd_blk_def fs_view_def log_open_def)
    with w show ?thesis by simp
  next
    case False
    with cache_wr_refused [OF inv n False] at sb show ?thesis by (auto simp: wr_blk_def rd_blk_def fs_view_def log_open_def)
  qed
qed

theorem block_layer_refined_witness:
  "\<exists>st'. cache_wr 1 1 (\<lambda>_. [5]) \<lparr>lg_start = 0, lg_size = 30, lg_outstanding = 1, lg_committing = False, lg_block = [],
      lg_cache = binit [[], []], lg_hist = []\<rparr> = Inr st' \<and> fs_blk (fs_view (fs_sb tiny_fs) [] st') = [[], [5]]"
proof -
  let ?st = "\<lparr>lg_start = 0, lg_size = 30, lg_outstanding = 1, lg_committing = False, lg_block = [],
      lg_cache = binit [[], []], lg_hist = []\<rparr>"
  have inv: "log_inv 1 ?st" using cold_quiet(1,2) by (simp add: log_inv_def)
  have n: "1 < length (bc_disk (lg_cache ?st))" by (simp add: binit_def)
  have sb: "sb_nlog (fs_sb tiny_fs) = lg_size ?st" by (simp add: tiny_fs_def)
  have "log_open ?st" by (simp add: log_open_def LOGSIZE_def)
  from cache_wr_done [OF inv n this, of "\<lambda>_. [5]"] obtain st' where w: "cache_wr 1 1 (\<lambda>_. [5]) ?st = Inr st'" by blast
  have b: "fs_blk (fs_view (fs_sb tiny_fs) [] ?st) = [[], []]"
    using cold_quiet(3) by (simp add: fs_view_def binit_def upt_rec)
  from block_layer_refined [OF inv n sb, of "[]" "\<lambda>_. [5]"] w
  have "wr_blk 1 1 (\<lambda>_. [5]) (fs_view (fs_sb tiny_fs) [] ?st) = Inr (fs_view (fs_sb tiny_fs) [] st')" by simp
  from wr_blk_Inr(3) [OF this] b w show ?thesis by auto
qed

end
