(* ===== verification/XV6_Dir.thy ===== *)
theory XV6_Dir
  imports XV6_Fs XV6_String
begin

text \<open>
  Directories and path names of xv6 (\<open>src/project3/xv6-modified/fs.c\<close>, from \<open>namecmp\<close> on). A directory is a
  file of 16-byte entries, an inode number and a name of up to 14 bytes. A path is the list of its
  bytes before the terminating zero. The lemmas relate \<open>skipelem\<close> to the splitting of a path at slashes,
  and \<open>dirlink\<close> and \<open>dirlookup\<close> to a table of entries.
\<close>

definition DIRSIZ :: nat where "DIRSIZ = 14"

definition de_inum :: "byte list \<Rightarrow> 16 word" where
  "de_inum de = rd16 de 0"

definition de_name :: "byte list \<Rightarrow> byte list" where
  "de_name de = take DIRSIZ (drop 2 de)"

definition namecmp :: "byte list \<Rightarrow> byte list \<Rightarrow> fault + int" where
  "namecmp s t = strncmp DIRSIZ s t"

text \<open>The loop of \<open>dirlookup\<close>; the result has the inode and the offset of the entry.\<close>

function dirlookup_from :: "devsw \<Rightarrow> nat \<Rightarrow> byte list \<Rightarrow> nat \<Rightarrow> nat \<Rightarrow> fsys \<Rightarrow> fault + (nat \<times> nat) option \<times> fsys" where
  "dirlookup_from dv dp name sz off s =
     (if off < sz
      then
        ebind (readi dv dp off 16 s) (\<lambda>(r, s1).
          case r of
            None \<Rightarrow> Inl (Panic ''dirlookup read'')
          | Some de \<Rightarrow>
              if length de \<noteq> 16 then Inl (Panic ''dirlookup read'')
              else if de_inum de = 0 then dirlookup_from dv dp name sz (off + 16) s1
              else
                ebind (namecmp name (de_name de)) (\<lambda>c.
                  if c = 0
                  then ebind (iget (i_dev (fs_inode s1 ! dp)) (unat (de_inum de)) s1) (\<lambda>(ip, s2). Inr (Some (ip, off), s2))
                  else dirlookup_from dv dp name sz (off + 16) s1))
      else Inr (None, s))"
  by pat_completeness auto
termination
  by (relation "measure (\<lambda>(dv, dp, name, sz, off, s). sz - off)") auto

declare dirlookup_from.simps [simp del]

definition dirlookup :: "devsw \<Rightarrow> nat \<Rightarrow> byte list \<Rightarrow> fsys \<Rightarrow> fault + (nat \<times> nat) option \<times> fsys" where
  "dirlookup dv dp name s =
     (if i_type (fs_inode s ! dp) \<noteq> T_DIR then Inl (Panic ''dirlookup not DIR'')
      else dirlookup_from dv dp name (i_size (fs_inode s ! dp)) 0 s)"

text \<open>The search of \<open>dirlink\<close> for an entry that is not in use: the offset at which the loop stops.\<close>

function empty_dirent :: "devsw \<Rightarrow> nat \<Rightarrow> nat \<Rightarrow> nat \<Rightarrow> fsys \<Rightarrow> fault + nat \<times> fsys" where
  "empty_dirent dv dp sz off s =
     (if off < sz
      then
        ebind (readi dv dp off 16 s) (\<lambda>(r, s1).
          case r of
            None \<Rightarrow> Inl (Panic ''dirlink read'')
          | Some de \<Rightarrow>
              if length de \<noteq> 16 then Inl (Panic ''dirlink read'')
              else if de_inum de = 0 then Inr (off, s1)
              else empty_dirent dv dp sz (off + 16) s1)
      else Inr (off, s))"
  by pat_completeness auto
termination
  by (relation "measure (\<lambda>(dv, dp, sz, off, s). sz - off)") auto

declare empty_dirent.simps [simp del]

text \<open>\<open>dirlink\<close> returns whether it has stored the entry; the number of the inode is cut to 16 bits.\<close>

definition dirlink :: "devsw \<Rightarrow> int \<Rightarrow> nat \<Rightarrow> byte list \<Rightarrow> nat \<Rightarrow> fsys \<Rightarrow> fault + bool \<times> fsys" where
  "dirlink dv me dp name inum s =
     ebind (dirlookup dv dp name s) (\<lambda>(r, s1).
       case r of
         Some (ip, _) \<Rightarrow> ebind (iput me ip s1) (\<lambda>s2. Inr (False, s2))
       | None \<Rightarrow>
           ebind (empty_dirent dv dp (i_size (fs_inode s1 ! dp)) 0 s1) (\<lambda>(off, s2).
             ebind (strncpy DIRSIZ name) (\<lambda>nm.
               ebind (writei dv dp (bytes16 (word_of_nat inum) @ nm) off s2) (\<lambda>(w, s3).
                 if w \<noteq> Some 16 then Inl (Panic ''dirlink'') else Inr (True, s3)))))"

subsection \<open>Paths\<close>

text \<open>\<open>skipelem\<close>: the rest of the path and the contents of \<open>name\<close>, which has no final zero when the element
  has 14 bytes or more.\<close>

definition skipelem :: "byte list \<Rightarrow> (byte list \<times> byte list) option" where
  "skipelem path =
     (let p = dropWhile (\<lambda>c. c = 47) path in
      if p = [] then None
      else
        let e = takeWhile (\<lambda>c. c \<noteq> 47) p;
            name = (if length e \<ge> DIRSIZ then take DIRSIZ e else e @ [0])
        in Some (dropWhile (\<lambda>c. c = 47) (dropWhile (\<lambda>c. c \<noteq> 47) p), name))"

lemma skipelem_shorter: "skipelem path = Some (rest, name) \<Longrightarrow> length rest < length path"
proof -
  assume a: "skipelem path = Some (rest, name)"
  define p where "p = dropWhile (\<lambda>c. c = 47) path"
  from a have p: "p \<noteq> []" "rest = dropWhile (\<lambda>c. c = 47) (dropWhile (\<lambda>c. c \<noteq> 47) p)"
    by (auto simp: skipelem_def Let_def p_def split: if_splits)
  then have "hd p \<noteq> 47" using hd_dropWhile [of "\<lambda>c. c = 47" path] by (simp add: p_def)
  then obtain c q where "p = c # q" "c \<noteq> 47" using p(1) by (cases p) auto
  then have "length (dropWhile (\<lambda>c. c \<noteq> 47) p) < length p" using length_dropWhile_le [of "\<lambda>c. c \<noteq> 47" q] by simp
  moreover have "length p \<le> length path" unfolding p_def by (rule length_dropWhile_le)
  ultimately show ?thesis using p(2) length_dropWhile_le [of "\<lambda>c. c = 47" "dropWhile (\<lambda>c. c \<noteq> 47) p"] by simp
qed

text \<open>The loop of \<open>namex\<close>: the inode, if there is one, and the last contents of \<open>name\<close>.\<close>

function namex_loop :: "devsw \<Rightarrow> int \<Rightarrow> bool \<Rightarrow> byte list \<Rightarrow> byte list \<Rightarrow> nat \<Rightarrow> fsys \<Rightarrow> fault + (nat option \<times> byte list) \<times> fsys" where
  "namex_loop dv me parent path name ip s =
     (case skipelem path of
        None \<Rightarrow>
          if parent then ebind (iput me ip s) (\<lambda>s1. Inr ((None, name), s1)) else Inr ((Some ip, name), s)
      | Some (rest, nm) \<Rightarrow>
          ebind (ilock me ip s) (\<lambda>s1.
            if i_type (fs_inode s1 ! ip) \<noteq> T_DIR
            then ebind (iunlockput me ip s1) (\<lambda>s2. Inr ((None, nm), s2))
            else if parent \<and> rest = []
            then ebind (iunlock me ip s1) (\<lambda>s2. Inr ((Some ip, nm), s2))
            else
              ebind (dirlookup dv ip nm s1) (\<lambda>(r, s2).
                case r of
                  None \<Rightarrow> ebind (iunlockput me ip s2) (\<lambda>s3. Inr ((None, nm), s3))
                | Some (next, _) \<Rightarrow> ebind (iunlockput me ip s2) (namex_loop dv me parent rest nm next))))"
  by pat_completeness auto
termination
  by (relation "measure (\<lambda>(dv, me, parent, path, name, ip, s). length path)") (auto dest: skipelem_shorter)

declare namex_loop.simps [simp del]

definition namex :: "devsw \<Rightarrow> int \<Rightarrow> nat \<Rightarrow> byte list \<Rightarrow> bool \<Rightarrow> fsys \<Rightarrow> fault + (nat option \<times> byte list) \<times> fsys" where
  "namex dv me cwd path parent s =
     (if path \<noteq> [] \<and> hd path = 47
      then ebind (iget ROOTDEV ROOTINO s) (\<lambda>(ip, s1). namex_loop dv me parent path [] ip s1)
      else let (ip, s1) = idup cwd s in namex_loop dv me parent path [] ip s1)"

definition namei :: "devsw \<Rightarrow> int \<Rightarrow> nat \<Rightarrow> byte list \<Rightarrow> fsys \<Rightarrow> fault + nat option \<times> fsys" where
  "namei dv me cwd path s = ebind (namex dv me cwd path False s) (\<lambda>((r, _), s1). Inr (r, s1))"

definition nameiparent :: "devsw \<Rightarrow> int \<Rightarrow> nat \<Rightarrow> byte list \<Rightarrow> fsys \<Rightarrow> fault + (nat option \<times> byte list) \<times> fsys" where
  "nameiparent dv me cwd path s = namex dv me cwd path True s"

subsection \<open>The elements of a path\<close>

text \<open>The reference: the non-empty pieces between slashes, cut to 14 bytes.\<close>

fun pieces :: "byte list \<Rightarrow> byte list list" where
  "pieces [] = [[]]"
| "pieces (c # p) = (if c = 47 then [] # pieces p else (c # hd (pieces p)) # tl (pieces p))"

definition elements :: "byte list \<Rightarrow> byte list list" where
  "elements path = map (take DIRSIZ) (filter (\<lambda>e. e \<noteq> []) (pieces path))"

text \<open>The names that the loop of \<open>namex\<close> sees, without the final zero.\<close>

function walk :: "byte list \<Rightarrow> byte list list" where
  "walk path = (case skipelem path of None \<Rightarrow> [] | Some (rest, nm) \<Rightarrow> (if length nm < DIRSIZ \<or> last nm = 0 then butlast nm else nm) # walk rest)"
  by pat_completeness auto
termination
  by (relation "measure length") (auto dest: skipelem_shorter)

declare walk.simps [simp del]

lemma pieces_nonempty [simp]: "pieces p \<noteq> []"
  by (cases p) auto

lemma pieces_slashes: "filter (\<lambda>e. e \<noteq> []) (pieces (dropWhile (\<lambda>c. c = 47) p)) = filter (\<lambda>e. e \<noteq> []) (pieces p)"
  by (induction p) auto

lemma pieces_first:
  "pieces p = takeWhile (\<lambda>c. c \<noteq> 47) p # (if dropWhile (\<lambda>c. c \<noteq> 47) p = [] then [] else pieces (tl (dropWhile (\<lambda>c. c \<noteq> 47) p)))"
  by (induction p) auto

text \<open>The repeated calls of \<open>skipelem\<close> in \<open>namex\<close> take a path apart as its text says: for a path without zero bytes,
  the names are the non-empty pieces between slashes in order, each cut to its first 14 bytes; so leading, trailing and
  repeated slashes do not matter.\<close>

theorem skipelem_elements:
  assumes "0 \<notin> set path"
  shows "walk path = elements path"
  using assms
proof (induction path rule: walk.induct)
  case (1 path)
  define p where "p = dropWhile (\<lambda>c. c = 47) path"
  define e where "e = takeWhile (\<lambda>c. c \<noteq> 47) p"
  define q where "q = dropWhile (\<lambda>c. c \<noteq> 47) p"
  have el: "elements path = elements p" by (simp add: elements_def p_def pieces_slashes)
  show ?case
  proof (cases "p = []")
    case True
    then have "skipelem path = None" by (simp add: skipelem_def Let_def p_def)
    moreover have "elements path = []" unfolding el True by (simp add: elements_def)
    ultimately show ?thesis by (simp add: walk.simps)
  next
    case False
    let ?nm = "if length e \<ge> DIRSIZ then take DIRSIZ e else e @ [0]"
    let ?r = "dropWhile (\<lambda>c. c = 47) q"
    have sk: "skipelem path = Some (?r, ?nm)" using False by (simp add: skipelem_def Let_def p_def [symmetric] e_def q_def)
    have "hd p \<noteq> 47" using hd_dropWhile [of "\<lambda>c. c = 47" path] False by (simp add: p_def)
    then have ne: "e \<noteq> []" using False by (cases p) (auto simp: e_def)
    have sub: "set p \<subseteq> set path" unfolding p_def by (auto dest: set_dropWhileD)
    have se: "0 \<notin> set e" using 1(2) sub unfolding e_def by (auto dest: set_takeWhileD)
    have sr: "0 \<notin> set ?r" using 1(2) sub unfolding q_def by (auto dest!: set_dropWhileD)
    have name: "(if length ?nm < DIRSIZ \<or> last ?nm = 0 then butlast ?nm else ?nm) = take DIRSIZ e"
    proof (cases "length e \<ge> DIRSIZ")
      case True
      then have "take DIRSIZ e \<noteq> []" using ne by (simp add: DIRSIZ_def)
      then have "last (take DIRSIZ e) \<in> set e" using last_in_set set_take_subset by fast
      then show ?thesis using True se by (auto simp: min_def)
    qed simp
    have "elements p = take DIRSIZ e # elements q"
    proof (cases q)
      case Nil
      then show ?thesis using ne by (subst elements_def, subst pieces_first) (simp add: e_def [symmetric] q_def [symmetric] elements_def)
    next
      case (Cons c q')
      then have "c = 47" using hd_dropWhile [of "\<lambda>c. c \<noteq> 47" p] by (simp add: q_def)
      then show ?thesis
        using ne Cons by (subst elements_def, subst pieces_first) (simp add: e_def [symmetric] q_def [symmetric] elements_def)
    qed
    also have "elements q = elements ?r" by (simp add: elements_def pieces_slashes)
    finally have "elements path = take DIRSIZ e # elements ?r" unfolding el .
    then show ?thesis using 1(1) [OF sk refl sr] sk name by (subst walk.simps) simp
  qed
qed

theorem skipelem_elements_witness:
  "walk [47, 97, 47, 47, 98, 98, 47] = [[97], [98, 98]]"
  using skipelem_elements [of "[47, 97, 47, 47, 98, 98, 47]"] by (simp add: elements_def DIRSIZ_def)


subsection \<open>The entries of a directory\<close>

definition dir_ok :: "fsys \<Rightarrow> nat \<Rightarrow> bool" where
  "dir_ok s dp \<longleftrightarrow> file_ok s dp \<and> i_type (fs_inode s ! dp) = T_DIR \<and> i_size (fs_inode s ! dp) mod 16 = 0 \<and>
     i_size (fs_inode s ! dp) \<le> 140 * 512 \<and> (\<forall>o' < i_size (fs_inode s ! dp). blockof s dp (o' div 512) \<noteq> 0)"

definition nents :: "fsys \<Rightarrow> nat \<Rightarrow> nat" where
  "nents s dp = i_size (fs_inode s ! dp) div 16"

definition dent :: "fsys \<Rightarrow> nat \<Rightarrow> nat \<Rightarrow> byte list" where
  "dent s dp k = map (fbyte s dp) [16 * k..<16 * k + 16]"

definition name_ok :: "byte list \<Rightarrow> bool" where
  "name_ok name \<longleftrightarrow> 14 \<le> length name \<or> 0 \<in> set name"

lemma strncmp_total: "n \<le> length p \<or> 0 \<in> set p \<Longrightarrow> n \<le> length q \<or> 0 \<in> set q \<Longrightarrow> \<exists>c. strncmp n p q = Inr c"
  by (induction n p q rule: strncmp.induct) auto

lemma namecmp_total: "name_ok name \<Longrightarrow> length de = 16 \<Longrightarrow> \<exists>c. namecmp name (de_name de) = Inr c"
  unfolding namecmp_def name_ok_def by (rule strncmp_total) (auto simp: DIRSIZ_def de_name_def)

definition matches :: "byte list \<Rightarrow> byte list \<Rightarrow> bool" where
  "matches name de \<longleftrightarrow> de_inum de \<noteq> 0 \<and> namecmp name (de_name de) = Inr 0"

lemma length_dent [simp]: "length (dent s dp k) = 16"
  by (simp add: dent_def)

lemma dir_size: "dir_ok s dp \<Longrightarrow> i_size (fs_inode s ! dp) = 16 * nents s dp"
  by (auto simp: dir_ok_def nents_def)

lemma readi_dent:
  assumes d: "dir_ok s dp" and k: "k < nents s dp"
  shows "readi dv dp (16 * k) 16 s = Inr (Some (dent s dp k), s)"
proof -
  from d have f: "file_ok s dp" "i_type (fs_inode s ! dp) = T_DIR" "i_size (fs_inode s ! dp) \<le> 140 * 512"
    "\<And>o'. o' < i_size (fs_inode s ! dp) \<Longrightarrow> blockof s dp (o' div 512) \<noteq> 0" unfolding dir_ok_def by blast+
  have le: "16 * k + 16 \<le> i_size (fs_inode s ! dp)" using k dir_size [OF d] by simp
  have "readi_loop dp (16 * k) 16 s = Inr (dent s dp k, s)"
    unfolding dent_def using f le by (intro readi_loop_present) auto
  then show ?thesis using f le by (simp add: readi_def Let_def T_DIR_def T_DEV_def)
qed

lemma dirlookup_from_spec:
  assumes d: "dir_ok s dp" and nm: "name_ok name"
  shows "k \<le> nents s dp \<Longrightarrow> dirlookup_from dv dp name (16 * nents s dp) (16 * k) s =
    (case find (\<lambda>j. matches name (dent s dp j)) [k..<nents s dp] of
       None \<Rightarrow> Inr (None, s)
     | Some j \<Rightarrow> ebind (iget 1 (unat (de_inum (dent s dp j))) s) (\<lambda>(ip, s2). Inr (Some (ip, 16 * j), s2)))"
proof (induction "nents s dp - k" arbitrary: k)
  case 0
  then show ?case by (subst dirlookup_from.simps) simp
next
  case (Suc m)
  then have k: "k < nents s dp" by simp
  have dev: "i_dev (fs_inode s ! dp) = 1" using d file_okD(4) unfolding dir_ok_def by blast
  obtain c where c: "namecmp name (de_name (dent s dp k)) = Inr c" using namecmp_total [OF nm] length_dent by blast
  have IH: "dirlookup_from dv dp name (16 * nents s dp) (16 * k + 16) s =
    (case find (\<lambda>j. matches name (dent s dp j)) [Suc k..<nents s dp] of
       None \<Rightarrow> Inr (None, s)
     | Some j \<Rightarrow> ebind (iget 1 (unat (de_inum (dent s dp j))) s) (\<lambda>(ip, s2). Inr (Some (ip, 16 * j), s2)))"
    using Suc.hyps(1) [of "Suc k"] Suc.hyps(2) k by (simp add: add.commute)
  have up: "[k..<nents s dp] = k # [Suc k..<nents s dp]" using k by (rule upt_conv_Cons)
  show ?case
    unfolding up find.simps
    by (subst dirlookup_from.simps) (use k c readi_dent [OF d k] IH dev in \<open>simp add: matches_def\<close>)
qed

lemma empty_dirent_spec:
  assumes d: "dir_ok s dp"
  shows "k \<le> nents s dp \<Longrightarrow> empty_dirent dv dp (16 * nents s dp) (16 * k) s =
    Inr (case find (\<lambda>j. de_inum (dent s dp j) = 0) [k..<nents s dp] of None \<Rightarrow> 16 * nents s dp | Some j \<Rightarrow> 16 * j, s)"
proof (induction "nents s dp - k" arbitrary: k)
  case 0
  then show ?case by (subst empty_dirent.simps) simp
next
  case (Suc m)
  then have k: "k < nents s dp" by simp
  have IH: "empty_dirent dv dp (16 * nents s dp) (16 * k + 16) s =
    Inr (case find (\<lambda>j. de_inum (dent s dp j) = 0) [Suc k..<nents s dp] of None \<Rightarrow> 16 * nents s dp | Some j \<Rightarrow> 16 * j, s)"
    using Suc.hyps(1) [of "Suc k"] Suc.hyps(2) k by (simp add: add.commute)
  have up: "[k..<nents s dp] = k # [Suc k..<nents s dp]" using k by (rule upt_conv_Cons)
  show ?case
    unfolding up find.simps by (subst empty_dirent.simps) (use k readi_dent [OF d k] IH in simp)
qed

lemma dirlookup_spec:
  assumes d: "dir_ok s dp" and nm: "name_ok name"
  shows "dirlookup dv dp name s =
    (case find (\<lambda>j. matches name (dent s dp j)) [0..<nents s dp] of
       None \<Rightarrow> Inr (None, s)
     | Some j \<Rightarrow> ebind (iget 1 (unat (de_inum (dent s dp j))) s) (\<lambda>(ip, s2). Inr (Some (ip, 16 * j), s2)))"
  using dirlookup_from_spec [OF d nm, of 0 dv] dir_size [OF d] d unfolding dirlookup_def dir_ok_def by simp

text \<open>The entry that \<open>dirlink\<close> builds.\<close>

lemma strncpy_length: "strncpy n t = Inr r \<Longrightarrow> length r = n"
  by (induction n t arbitrary: r rule: strncpy.induct) (auto split: if_splits)

lemma strncpy_cmp: "strncpy n t = Inr r \<Longrightarrow> strncmp n t r = Inr 0"
  by (induction n t arbitrary: r rule: strncpy.induct) (auto split: if_splits)

lemma rd16_bytes16: "rd16 (bytes16 w @ xs) 0 = w"
proof -
  have "unat (ucast w :: byte) = unat w mod 256" "unat (ucast (drop_bit 8 w) :: byte) = unat w div 256 mod 256"
    by (simp_all add: unsigned_ucast_eq unat_drop_bit_eq take_bit_eq_mod drop_bit_eq_div unat_div_distrib)
  moreover have "unat w div 256 < 256" using unsigned_less [of w] by (simp add: div_less_iff_less_mult)
  ultimately show ?thesis by (simp add: rd16_def bytes16_def)
qed

lemma dent_at:
  "dent s dp k ! j = fbyte s dp (16 * k + j)" if "j < 16"
  using that by (simp add: dent_def)

text \<open>C22: entries of directories. On a well-formed directory, \<open>dirlookup\<close> finds the first entry in use with the given name. When
  \<open>dirlink\<close> accepts a name that is not in the directory, it stores the pair in an unused entry, or in a new one at the end, leaves
  all other entries alone and keeps the directory well-formed; \<open>dirlookup\<close> then finds exactly this entry and the
  inode with this number.\<close>

theorem dirlink_dirlookup:
  assumes d: "dir_ok s dp" and nm: "name_ok name" and inum: "0 < inum" "inum < 2 ^ 16"
    and run: "dirlink dv me dp name inum s = Inr (True, s')"
  shows "dir_ok s' dp \<and> (\<exists>k \<le> nents s dp.
    (\<forall>j < nents s dp. \<not> matches name (dent s dp j)) \<and>
    (k < nents s dp \<longrightarrow> de_inum (dent s dp k) = 0) \<and> nents s' dp = max (nents s dp) (Suc k) \<and>
    (\<forall>j < nents s dp. j \<noteq> k \<longrightarrow> dent s' dp j = dent s dp j) \<and>
    dirlookup dv dp name s' = ebind (iget 1 inum s') (\<lambda>(ip, s2). Inr (Some (ip, 16 * k), s2)))"
proof -
  let ?n = "nents s dp"
  have none: "find (\<lambda>j. matches name (dent s dp j)) [0..<?n] = None"
  proof (cases "find (\<lambda>j. matches name (dent s dp j)) [0..<?n]")
    case (Some j)
    then show ?thesis using run unfolding dirlink_def dirlookup_spec [OF d nm] by (auto split: prod.splits)
  qed
  then have fresh_name: "\<not> matches name (dent s dp j)" if "j < ?n" for j using that by (auto simp: find_None_iff)
  define k where "k = (case find (\<lambda>j. de_inum (dent s dp j) = 0) [0..<?n] of None \<Rightarrow> ?n | Some j \<Rightarrow> j)"
  have k: "k \<le> ?n" "k < ?n \<Longrightarrow> de_inum (dent s dp k) = 0"
    using find_in [of "\<lambda>j. de_inum (dent s dp j) = 0" "[0..<?n]"] by (auto simp: k_def split: option.splits)
  have e: "empty_dirent dv dp (16 * ?n) 0 s = Inr (16 * k, s)"
    using empty_dirent_spec [OF d, of 0 dv] by (simp add: k_def split: option.splits)
  from run none e obtain r where w: "strncpy DIRSIZ name = Inr r"
      "writei dv dp (bytes16 (word_of_nat inum) @ r) (16 * k) s = Inr (Some 16, s')"
    unfolding dirlink_def dirlookup_spec [OF d nm] by (auto simp: dir_size [OF d] split: if_splits)
  have rl: "length r = 14" using strncpy_length [OF w(1)] by (simp add: DIRSIZ_def)
  let ?de = "bytes16 (word_of_nat inum) @ r"
  have l: "length ?de = 16" using rl by (simp add: bytes16_def)
  from d have f: "file_ok s dp" "i_type (fs_inode s ! dp) = T_DIR" "i_size (fs_inode s ! dp) \<le> 140 * 512"
    "\<And>o'. o' < i_size (fs_inode s ! dp) \<Longrightarrow> blockof s dp (o' div 512) \<noteq> 0" unfolding dir_ok_def by blast+
  have ty: "i_type (fs_inode s ! dp) \<noteq> T_DEV" "i_size (fs_inode s ! dp) < 2 ^ 32" "length ?de < 2 ^ 32"
    using f l by (simp_all add: T_DIR_def T_DEV_def)
  note W = writei_done [OF f(1) ty w(2)]
  have fit: "16 * k + 16 \<le> 140 * 512" using W by blast
  have sz: "i_size (fs_inode s' ! dp) = 16 * max ?n (Suc k)" using W dir_size [OF d] by (auto simp: max_def)
  then have ne: "nents s' dp = max ?n (Suc k)" by (simp add: nents_def)
  have mapped': "blockof s' dp (o' div 512) \<noteq> 0" if o': "o' < 16 * max ?n (Suc k)" for o'
  proof (cases "o' < 16 * ?n")
    case True
    then have "o' < 140 * 512" "blockof s dp (o' div 512) \<noteq> 0" using f(3,4) dir_size [OF d] by auto
    then show ?thesis using W by (simp add: div_less_iff_less_mult)
  next
    case False
    then have "16 * k \<le> o'" "o' < 16 * k + 16" using o' k(1) by (auto simp: max_def split: if_splits)
    then show ?thesis using W by blast
  qed
  have d': "dir_ok s' dp" unfolding dir_ok_def sz using W f(2,3) fit mapped' dir_size [OF d] by (auto simp: max_def)
  have fb: "fbyte s' dp o' = (if 16 * k \<le> o' \<and> o' < 16 * k + 16 then ?de ! (o' - 16 * k) else fbyte s dp o')" if "o' < 140 * 512" for o'
    using W that by blast
  have other: "dent s' dp j = dent s dp j" if "j < ?n" "j \<noteq> k" for j
  proof (rule nth_equalityI)
    fix i assume "i < length (dent s' dp j)"
    then have i: "i < 16" by simp
    have lt: "16 * j + i < 140 * 512" using i that(1) f(3) dir_size [OF d] by linarith
    have out: "\<not> (16 * k \<le> 16 * j + i \<and> 16 * j + i < 16 * k + 16)" using i that(2) by linarith
    show "dent s' dp j ! i = dent s dp j ! i" using fb [OF lt, unfolded if_not_P [OF out]] i by (simp add: dent_at)
  qed simp
  have new: "dent s' dp k = ?de"
    by (rule nth_equalityI) (use l fb fit in \<open>simp_all add: dent_at\<close>)
  have in': "de_inum ?de = word_of_nat inum" by (simp add: de_inum_def rd16_bytes16)
  have ui: "unat (word_of_nat inum :: 16 word) = inum" using inum(2) by (simp add: unat_of_nat)
  have "de_name ?de = r" using rl by (simp add: de_name_def bytes16_def DIRSIZ_def)
  moreover have "(word_of_nat inum :: 16 word) \<noteq> 0" using ui inum(1) by auto
  ultimately have mk: "matches name (dent s' dp k)"
    unfolding matches_def new in' namecmp_def using strncpy_cmp [OF w(1)] by simp
  have "find (\<lambda>j. matches name (dent s' dp j)) [0..<nents s' dp] = Some k"
  proof (rule find_unique)
    show "k \<in> set [0..<nents s' dp]" using ne by simp
    fix j assume "j \<in> set [0..<nents s' dp]" "matches name (dent s' dp j)"
    then have j: "j < max ?n (Suc k)" "matches name (dent s' dp j)" using ne by simp_all
    show "j = k"
    proof (cases "j < ?n")
      case True
      show ?thesis
      proof (rule ccontr)
        assume "j \<noteq> k"
        then show False using j(2) fresh_name [OF True] unfolding other [OF True \<open>j \<noteq> k\<close>] by blast
      qed
    qed (use j(1) k(1) in \<open>auto simp: max_def split: if_splits\<close>)
  qed (rule mk)
  then have "dirlookup dv dp name s' = ebind (iget 1 inum s') (\<lambda>(ip, s2). Inr (Some (ip, 16 * k), s2))"
    unfolding dirlookup_spec [OF d' nm] by (simp add: new in' ui)
  then show ?thesis using d' k fresh_name ne other by blast
qed

definition tiny_dir :: fsys where
  "tiny_dir = upd_inode 0 (\<lambda>i. i\<lparr>i_type := T_DIR\<rparr>) tiny_fs"

lemma tiny_dir_ok: "dir_ok tiny_dir 0" "nents tiny_dir 0 = 0" "i_size (fs_inode tiny_dir ! 0) = 0" "addr_of tiny_dir 0 0 = 0"
  "i_type (fs_inode tiny_dir ! 0) = T_DIR"
proof -
  have l: "0 < length (fs_inode tiny_fs)" using file_okD(2) [OF tiny_file(1)] .
  have i: "fs_inode tiny_dir ! 0 = (fs_inode tiny_fs ! 0)\<lparr>i_type := T_DIR\<rparr>" using l by (simp add: tiny_dir_def upd_inode_def)
  have e: "fs_sb tiny_dir = fs_sb tiny_fs" "fs_blk tiny_dir = fs_blk tiny_fs" "length (fs_inode tiny_dir) = length (fs_inode tiny_fs)"
    by (simp_all add: tiny_dir_def upd_inode_def)
  have us: "used tiny_dir = used tiny_fs" by (simp add: used_def fun_eq_iff e)
  have a: "addr_of tiny_dir 0 k = addr_of tiny_fs 0 k" for k by (simp add: addr_of_def i)
  have b: "blockof tiny_dir 0 k = blockof tiny_fs 0 k" for k by (simp add: blockof_def a e)
  have o': "owned tiny_dir 0 = owned tiny_fs 0" by (simp add: owned_def a b)
  have ib: "iblk tiny_dir 0 = iblk tiny_fs 0" by (simp add: iblk_def i e)
  have bo: "block_ok tiny_dir 0 = block_ok tiny_fs 0" by (simp add: block_ok_def fun_eq_iff e us ib)
  have "fs_ok tiny_dir = fs_ok tiny_fs" by (simp add: fs_ok_def e us)
  then have "file_ok tiny_dir 0" using tiny_file(1) unfolding file_ok_def e us o' ib bo b a by (simp add: i)
  moreover show z: "i_size (fs_inode tiny_dir ! 0) = 0" "i_type (fs_inode tiny_dir ! 0) = T_DIR" by (simp_all add: i tiny_file no_inode_def)
  ultimately show "dir_ok tiny_dir 0" by (simp add: dir_ok_def)
  show "nents tiny_dir 0 = 0" by (simp add: nents_def z)
  show "addr_of tiny_dir 0 0 = 0" unfolding a by (simp add: addr_of_def tiny_file no_inode_def fs_consts)
qed

theorem dirlink_dirlookup_witness:
  "\<exists>s'. dirlink no_dev 1 0 [97, 0] 5 tiny_dir = Inr (True, s') \<and>
     dirlookup no_dev 0 [97, 0] s' = ebind (iget 1 5 s') (\<lambda>(ip, s2). Inr (Some (ip, 0), s2))"
proof -
  note d = tiny_dir_ok
  have nm: "name_ok [97, 0]" by (simp add: name_ok_def)
  have f: "file_ok tiny_dir 0" using d(1) by (simp add: dir_ok_def)
  let ?de = "bytes16 (word_of_nat 5) @ [97] @ replicate 13 0"
  have cp: "strncpy DIRSIZ [97, 0] = Inr ([97] @ replicate 13 0)" by (simp add: DIRSIZ_def eval_nat_numeral)
  have us: "used tiny_dir 4 = used tiny_fs 4" by (simp add: used_def tiny_dir_def upd_inode_def)
  have "\<exists>s'. writei no_dev 0 ?de 0 tiny_dir = Inr (Some (length ?de), s')"
    by (rule first_write_total [OF f, where c = 4])
      (use tiny_used [of 4] tiny_ok(2) us d in \<open>simp_all add: T_DIR_def T_DEV_def bytes16_def can_log_def tiny_dir_def upd_inode_def tiny_sb(1)\<close>)
  then obtain s' where w: "writei no_dev 0 ?de 0 tiny_dir = Inr (Some 16, s')" by (auto simp: bytes16_def)
  have e: "empty_dirent no_dev 0 0 0 tiny_dir = Inr (0, tiny_dir)" by (subst empty_dirent.simps) simp
  have l: "dirlink no_dev 1 0 [97, 0] 5 tiny_dir = Inr (True, s')"
    unfolding dirlink_def dirlookup_spec [OF d(1) nm] using cp w e d(2,3) by simp
  have inum: "0 < (5 :: nat)" "(5 :: nat) < 2 ^ 16" by simp_all
  from dirlink_dirlookup [OF d(1) nm inum l] d(2)
  have "dirlookup no_dev 0 [97, 0] s' = ebind (iget 1 5 s') (\<lambda>(ip, s2). Inr (Some (ip, 0), s2))" by simp
  with l show ?thesis by blast
qed

end
