(* ===== verification/XV6_Pipe.thy ===== *)
theory XV6_Pipe
  imports XV6_Ring
begin

text \<open>
  Pipes of xv6 (\<open>src/project3/xv6-modified/pipe.c\<close>): a ring of 512 bytes with two 32-bit counters that only
  grow and wrap around. A call runs until it returns or goes to sleep; a call that sleeps is the
  value \<open>Asleep\<close> with the work that is left, and runs again when it is woken. The main theorem says
  that in every interleaving of reads and writes the readers get the bytes that were written, in order.
\<close>

definition PIPESIZE :: nat where "PIPESIZE = 512"

record pipe =
  p_data :: "byte list"
  p_nread :: uint32
  p_nwrite :: uint32
  p_readopen :: bool
  p_writeopen :: bool

definition new_pipe :: "byte list \<Rightarrow> pipe" where
  "new_pipe page = \<lparr>p_data = page, p_nread = 0, p_nwrite = 0, p_readopen = True, p_writeopen = True\<rparr>"

text \<open>\<open>pipeclose\<close>: the pipe, unless both ends are closed and its page is given back.\<close>

definition pipeclose :: "bool \<Rightarrow> pipe \<Rightarrow> pipe option" where
  "pipeclose writable p =
     (let p1 = (if writable then p\<lparr>p_writeopen := False\<rparr> else p\<lparr>p_readopen := False\<rparr>) in
      if \<not> p_readopen p1 \<and> \<not> p_writeopen p1 then None else Some p1)"

datatype 'a outcome = Returned "'a option" | Asleep 'a

definition pipe_full :: "pipe \<Rightarrow> bool" where
  "pipe_full p \<longleftrightarrow> p_nwrite p = p_nread p + word_of_nat PIPESIZE"

definition pipe_put :: "byte \<Rightarrow> pipe \<Rightarrow> pipe" where
  "pipe_put c p = p\<lparr>p_data := (p_data p)[unat (p_nwrite p) mod PIPESIZE := c], p_nwrite := p_nwrite p + 1\<rparr>"

definition pipe_take :: "pipe \<Rightarrow> byte \<times> pipe" where
  "pipe_take p = (p_data p ! (unat (p_nread p) mod PIPESIZE), p\<lparr>p_nread := p_nread p + 1\<rparr>)"

text \<open>\<open>pipewrite\<close>: \<open>n\<close> is the length of the whole write, the list is what is left of it. \<open>Asleep\<close> has the
  bytes that are left. A caller that was killed gives up only when the pipe is full.\<close>

fun pipewrite :: "bool \<Rightarrow> nat \<Rightarrow> byte list \<Rightarrow> pipe \<Rightarrow> (nat option + byte list) \<times> pipe" where
  "pipewrite killed n [] p = (Inl (Some n), p)"
| "pipewrite killed n (c # cs) p =
     (if pipe_full p
      then if \<not> p_readopen p \<or> killed then (Inl None, p) else (Inr (c # cs), p)
      else pipewrite killed n cs (pipe_put c p))"

fun read_bytes :: "nat \<Rightarrow> pipe \<Rightarrow> byte list \<times> pipe" where
  "read_bytes 0 p = ([], p)"
| "read_bytes (Suc n) p =
     (if p_nread p = p_nwrite p then ([], p)
      else let (c, p1) = pipe_take p; (cs, p2) = read_bytes n p1 in (c # cs, p2))"

text \<open>\<open>piperead\<close>: the bytes read, \<open>-1\<close> for a killed caller, or \<open>Asleep\<close>.\<close>

definition piperead :: "bool \<Rightarrow> nat \<Rightarrow> pipe \<Rightarrow> byte list outcome \<times> pipe" where
  "piperead killed n p =
     (if p_nread p = p_nwrite p \<and> p_writeopen p
      then if killed then (Returned None, p) else (Asleep [], p)
      else let (cs, p1) = read_bytes n p in (Returned (Some cs), p1))"

subsection \<open>The queue in the ring\<close>

definition pipe_count :: "pipe \<Rightarrow> nat" where
  "pipe_count p = unat (p_nwrite p - p_nread p)"

definition pipe_queue :: "pipe \<Rightarrow> byte list" where
  "pipe_queue p = map (\<lambda>k. p_data p ! ((unat (p_nread p) + k) mod 512)) [0..<pipe_count p]"

definition pipe_ok :: "pipe \<Rightarrow> bool" where
  "pipe_ok p \<longleftrightarrow> length (p_data p) = 512 \<and> pipe_count p \<le> 512"

lemma pipe_full_count: "pipe_ok p \<Longrightarrow> pipe_full p \<longleftrightarrow> pipe_count p = 512"
proof -
  have "pipe_full p \<longleftrightarrow> p_nwrite p - p_nread p = 512" by (auto simp: pipe_full_def PIPESIZE_def algebra_simps)
  also have "\<dots> \<longleftrightarrow> pipe_count p = 512" by (simp add: pipe_count_def word_unat_eq_iff)
  finally show ?thesis .
qed

lemma pipe_empty_count: "p_nread p = p_nwrite p \<longleftrightarrow> pipe_count p = 0"
  by (auto simp: pipe_count_def unat_eq_0)

interpretation ring512: ring 512
  by unfold_locales simp_all

lemma pipe_queue_seg: "pipe_queue p = ring512.seg (p_data p) (p_nread p) (pipe_count p)"
  by (simp add: pipe_queue_def ring512.seg_def)

lemma pipe_put_queue:
  assumes ok: "pipe_ok p" and room: "\<not> pipe_full p"
  shows "pipe_ok (pipe_put c p)" "pipe_queue (pipe_put c p) = pipe_queue p @ [c]"
    "p_readopen (pipe_put c p) = p_readopen p" "p_writeopen (pipe_put c p) = p_writeopen p"
proof -
  have lt: "pipe_count p < 512" using ok room pipe_full_count by (auto simp: pipe_ok_def)
  have "pipe_count (pipe_put c p) = unat (p_nwrite p - p_nread p + 1)" by (simp add: pipe_count_def pipe_put_def algebra_simps)
  also have "\<dots> = Suc (pipe_count p)" using lt unfolding pipe_count_def by (intro unat_Suc) simp
  finally have ct: "pipe_count (pipe_put c p) = Suc (pipe_count p)" .
  show "pipe_ok (pipe_put c p)" using ok lt ct by (simp add: pipe_ok_def) (simp add: pipe_put_def)
  show "pipe_queue (pipe_put c p) = pipe_queue p @ [c]"
    using ring512.seg_put [OF _ _ lt, of "p_data p" "p_nwrite p" "p_nread p" c] ok
    unfolding pipe_queue_seg ct by (simp add: pipe_put_def PIPESIZE_def pipe_ok_def pipe_count_def)
qed (simp_all add: pipe_put_def)

lemma pipe_take_queue:
  assumes ok: "pipe_ok p" and some: "p_nread p \<noteq> p_nwrite p"
  shows "pipe_ok (snd (pipe_take p))" "pipe_queue p = fst (pipe_take p) # pipe_queue (snd (pipe_take p))"
    "p_readopen (snd (pipe_take p)) = p_readopen p" "p_writeopen (snd (pipe_take p)) = p_writeopen p"
proof -
  have ct: "pipe_count p = Suc (pipe_count (snd (pipe_take p)))"
    using unat_pred [of "p_nwrite p - p_nread p"] some by (simp add: pipe_count_def pipe_take_def diff_diff_eq)
  show "pipe_ok (snd (pipe_take p))" using ok ct by (simp add: pipe_ok_def) (simp add: pipe_take_def)
  show "pipe_queue p = fst (pipe_take p) # pipe_queue (snd (pipe_take p))"
    unfolding pipe_queue_seg ct ring512.seg_Suc by (simp add: pipe_take_def PIPESIZE_def)
qed (simp_all add: pipe_take_def)

lemma pipewrite_queue:
  assumes "pipe_ok p" and "pipewrite killed n cs p = (r, p')"
  shows "\<exists>done left. cs = done @ left \<and> pipe_ok p' \<and> pipe_queue p' = pipe_queue p @ done \<and>
    p_readopen p' = p_readopen p \<and> p_writeopen p' = p_writeopen p \<and>
    (case r of Inl (Some m) \<Rightarrow> left = [] \<and> m = n | Inl None \<Rightarrow> left \<noteq> [] \<and> pipe_full p' | Inr l \<Rightarrow> l = left \<and> left \<noteq> [] \<and> pipe_full p')"
  using assms
proof (induction cs arbitrary: p)
  case (Cons c cs)
  show ?case
  proof (cases "pipe_full p")
    case True
    then show ?thesis using Cons.prems by (intro exI [of _ "[]"] exI [of _ "c # cs"]) (auto split: if_splits)
  next
    case False
    note P = pipe_put_queue [OF Cons.prems(1) False, of c]
    from False Cons.prems(2) have "pipewrite killed n cs (pipe_put c p) = (r, p')" by simp
    from Cons.IH [OF P(1) this] obtain dn lf where "cs = dn @ lf" "pipe_ok p'" "pipe_queue p' = pipe_queue (pipe_put c p) @ dn"
      "p_readopen p' = p_readopen (pipe_put c p)" "p_writeopen p' = p_writeopen (pipe_put c p)"
      "case r of Inl (Some m) \<Rightarrow> lf = [] \<and> m = n | Inl None \<Rightarrow> lf \<noteq> [] \<and> pipe_full p' | Inr l \<Rightarrow> l = lf \<and> lf \<noteq> [] \<and> pipe_full p'" by blast
    with P show ?thesis by (intro exI [of _ "c # dn"] exI [of _ lf]) simp
  qed
qed auto

lemma read_bytes_queue:
  assumes "pipe_ok p" and "read_bytes n p = (cs, p')"
  shows "pipe_ok p' \<and> cs = take n (pipe_queue p) \<and> pipe_queue p' = drop n (pipe_queue p) \<and>
    p_readopen p' = p_readopen p \<and> p_writeopen p' = p_writeopen p"
  using assms
proof (induction n arbitrary: p cs)
  case (Suc n)
  show ?case
  proof (cases "p_nread p = p_nwrite p")
    case True
    then have "pipe_queue p = []" using pipe_empty_count by (auto simp: pipe_queue_def)
    with True Suc.prems show ?thesis by auto
  next
    case False
    note T = pipe_take_queue [OF Suc.prems(1) False]
    obtain cs' where c: "read_bytes n (snd (pipe_take p)) = (cs', p')" "cs = fst (pipe_take p) # cs'"
      using Suc.prems(2) False by (cases "read_bytes n (snd (pipe_take p))") (auto simp: split_beta Let_def)
    from Suc.IH [OF T(1) c(1)] T c(2) show ?thesis by simp
  qed
qed simp

text \<open>A write only moves \<open>nwrite\<close>, once for each byte.\<close>

lemma pipewrite_nread: "pipewrite killed n cs p = (r, p') \<Longrightarrow> p_nread p' = p_nread p"
  by (induction cs arbitrary: p) (auto simp: pipe_put_def split: if_splits)

lemma pipewrite_count:
  assumes ok: "pipe_ok p" and run: "pipewrite killed n cs p = (r, p')"
  shows "pipe_ok p' \<and> pipe_queue p' = pipe_queue p @ take (unat (p_nwrite p' - p_nwrite p)) cs"
proof -
  obtain dn lf where d: "cs = dn @ lf" "pipe_ok p'" "pipe_queue p' = pipe_queue p @ dn"
    using pipewrite_queue [OF ok run] by blast
  have len: "length (pipe_queue q) = pipe_count q" for q by (simp add: pipe_queue_def)
  have grow: "unat (p_nwrite p' - p_nread p') = unat (p_nwrite p - p_nread p) + length dn"
    using d(3) len unfolding pipe_count_def by (metis length_append)
  then have "unat ((p_nwrite p' - p_nread p') - (p_nwrite p - p_nread p)) = length dn"
    by (subst unat_sub) (simp_all add: word_le_nat_alt)
  then have "unat (p_nwrite p' - p_nwrite p) = length dn" using pipewrite_nread [OF run] by simp
  then show ?thesis using d by simp
qed

text \<open>Interleavings of calls on one pipe: \<open>W\<close> is everything that writers have handed over, \<open>R\<close> everything that
  readers have got. A write may be a new call or the rest of one that slept; how many of its bytes it has handed over is
  the number by which \<open>nwrite\<close> has grown.\<close>

inductive pipe_run :: "pipe \<Rightarrow> byte list \<Rightarrow> byte list \<Rightarrow> bool" where
  start: "length page = 512 \<Longrightarrow> pipe_run (new_pipe page) [] []"
| writes_some: "pipe_run p W R \<Longrightarrow> pipewrite killed n cs p = (r, p') \<Longrightarrow> pipe_run p' (W @ take (unat (p_nwrite p' - p_nwrite p)) cs) R"
| reads_some: "pipe_run p W R \<Longrightarrow> piperead killed n p = (Returned (Some cs), p') \<Longrightarrow> pipe_run p' W (R @ cs)"
| closes_end: "pipe_run p W R \<Longrightarrow> pipeclose writable p = Some p' \<Longrightarrow> pipe_run p' W R"

lemma pipeclose_queue: "pipeclose w p = Some p' \<Longrightarrow> pipe_queue p' = pipe_queue p \<and> pipe_ok p' = pipe_ok p"
  by (auto simp: pipeclose_def Let_def pipe_queue_def pipe_ok_def pipe_count_def split: if_splits)

lemma piperead_queue:
  assumes "pipe_ok p" and "piperead killed n p = (Returned (Some cs), p')"
  shows "pipe_ok p' \<and> pipe_queue p = cs @ pipe_queue p' \<and> length cs = min n (length (pipe_queue p))"
proof -
  obtain r q where rb: "read_bytes n p = (r, q)" by (cases "read_bytes n p")
  with assms(2) have "cs = r" "p' = q" by (auto simp: piperead_def split: if_splits)
  with read_bytes_queue [OF assms(1) rb] show ?thesis by auto
qed

text \<open>C26: a pipe is a bounded FIFO queue. In every interleaving of reads, writes (also those that sleep and resume) and
  closing of ends, the bytes the readers have got followed by the bytes in the ring are exactly the bytes the writers have
  put in, in order, the ring holds at most 512 bytes, and the counters may wrap around any number of times.\<close>

theorem pipe_fifo:
  assumes "pipe_run p W R"
  shows "pipe_ok p \<and> W = R @ pipe_queue p \<and> length (pipe_queue p) \<le> 512"
proof -
  have "pipe_ok p \<and> W = R @ pipe_queue p" using assms
  proof (induction rule: pipe_run.induct)
    case (start page)
    then show ?case by (simp add: new_pipe_def pipe_ok_def pipe_count_def pipe_queue_def)
  next
    case (writes_some p W R killed n cs r p')
    then show ?case using pipewrite_count [of p killed n cs r p'] by auto
  next
    case (reads_some p W R killed n cs p')
    then show ?case using piperead_queue [of p killed n cs p'] by auto
  next
    case (closes_end p W R writable p')
    then show ?case using pipeclose_queue by auto
  qed
  then show ?thesis by (simp add: pipe_queue_def pipe_ok_def)
qed

definition blank_page :: "byte list" where
  "blank_page = replicate 512 0"

theorem pipe_fifo_witness:
  "\<exists>p. pipe_run p [1, 2, 3] [1, 2] \<and> pipe_queue p = [3]"
proof -
  let ?p = "new_pipe blank_page"
  have s: "pipe_run ?p [] []" by (rule pipe_run.start) (simp add: blank_page_def)
  obtain r q where w: "pipewrite False 3 [1, 2, 3] ?p = (r, q)" by (cases "pipewrite False 3 [1, 2, 3] ?p")
  have q0: "pipe_ok ?p \<and> pipe_queue ?p = []" using pipe_fifo [OF s] by simp
  have r: "r = Inl (Some 3)" using w by (simp add: new_pipe_def pipe_full_def pipe_put_def PIPESIZE_def)
  then have wq: "pipe_queue q = [1, 2, 3]" using pipewrite_queue [OF conjunct1 [OF q0] w] q0 by auto
  have "take (unat (p_nwrite q - p_nwrite ?p)) [1, 2, 3 :: byte] = [1, 2, 3]"
    using pipewrite_count [OF conjunct1 [OF q0] w] wq q0 by (metis append_Nil)
  then have w': "pipe_run q [1, 2, 3] []" using pipe_run.writes_some [OF s w] by simp
  have ne: "p_nread q \<noteq> p_nwrite q"
    using wq pipe_empty_count [of q] by (auto simp: pipe_queue_def)
  obtain cs t where rd: "read_bytes 2 q = (cs, t)" by (cases "read_bytes 2 q")
  have "pipe_ok q" using pipe_fifo [OF w'] by simp
  from read_bytes_queue [OF this rd] wq have "cs = [1, 2]" "pipe_queue t = [3]" by simp_all
  moreover have "piperead False 2 q = (Returned (Some cs), t)" using rd ne by (simp add: piperead_def)
  ultimately show ?thesis using pipe_run.reads_some [OF w', of False 2 cs t] by auto
qed

end
