(* ===== verification/XV6_File.thy ===== *)
theory XV6_File
  imports XV6_Dir XV6_Pipe
begin

text \<open>
  Open files and the file system calls of xv6: the fetching of arguments from user memory
  (\<open>src/project3/xv6-modified/syscall.c\<close>), the table of open files (\<open>file.c\<close>), the creation of pipes
  (\<open>pipe.c\<close>) and the handlers of \<open>sysfile.c\<close>. The state has the file system, the table of open files,
  the pipes by the address of their page, the list of free pages, and of the current process its
  memory, its descriptors and its working directory. The result of a system call is an \<open>int\<close>; a call
  that has to sleep is the fault \<open>Sleeps\<close>; the calls on a pipe that sleep and resume are the subject of
  \<open>XV6_Pipe\<close>.
\<close>

definition NFILE :: nat where "NFILE = 100"

datatype fdtype = FD_NONE | FD_PIPE | FD_INODE

record file_struct =
  f_type :: fdtype
  f_ref :: int
  f_readable :: bool
  f_writable :: bool
  f_pipe :: nat
  f_ip :: nat
  f_off :: nat

record kst =
  k_fs :: fsys
  k_file :: "file_struct list"
  k_pipe :: "nat \<Rightarrow> pipe"
  k_free :: "nat list"
  k_ofile :: "nat option list"
  k_cwd :: nat
  k_me :: int
  k_killed :: bool
  k_mem :: mem
  k_sz :: nat
  k_esp :: nat

subsection \<open>Arguments of system calls\<close>

definition word_at :: "mem \<Rightarrow> nat \<Rightarrow> nat" where
  "word_at m a = unat (m a) + 256 * unat (m (a + 1)) + 65536 * unat (m (a + 2)) + 16777216 * unat (m (a + 3))"

definition fetchint :: "nat \<Rightarrow> kst \<Rightarrow> nat option" where
  "fetchint addr k =
     (if addr \<ge> k_sz k \<or> (addr + 4) mod 2 ^ 32 > k_sz k then None else Some (word_at (k_mem k) addr))"

text \<open>The string at an address, without the final zero.\<close>

function fetchstr_loop :: "nat \<Rightarrow> nat \<Rightarrow> mem \<Rightarrow> byte list option" where
  "fetchstr_loop s ep m =
     (if s < ep then if m s = 0 then Some [] else map_option (Cons (m s)) (fetchstr_loop (s + 1) ep m) else None)"
  by pat_completeness auto
termination
  by (relation "measure (\<lambda>(s, ep, m). ep - s)") auto

declare fetchstr_loop.simps [simp del]

definition fetchstr :: "nat \<Rightarrow> kst \<Rightarrow> byte list option" where
  "fetchstr addr k = (if addr \<ge> k_sz k then None else fetchstr_loop addr (k_sz k) (k_mem k))"

definition argint :: "nat \<Rightarrow> kst \<Rightarrow> nat option" where
  "argint n k = fetchint ((k_esp k + 4 + 4 * n) mod 2 ^ 32) k"

definition to_int :: "nat \<Rightarrow> int" where
  "to_int x = sint (word_of_nat x :: uint32)"

definition argptr :: "nat \<Rightarrow> int \<Rightarrow> kst \<Rightarrow> nat option" where
  "argptr n len k =
     (case argint n k of
        None \<Rightarrow> None
      | Some i \<Rightarrow> if len < 0 \<or> i \<ge> k_sz k \<or> (i + nat len) mod 2 ^ 32 > k_sz k then None else Some i)"

definition argstr :: "nat \<Rightarrow> kst \<Rightarrow> byte list option" where
  "argstr n k = (case argint n k of None \<Rightarrow> None | Some addr \<Rightarrow> fetchstr addr k)"

subsection \<open>Transactions\<close>

text \<open>\<open>begin_op\<close> and \<open>end_op\<close> on the state of the file system. The last \<open>end_op\<close> commits: the contents of the blocks
  stay, the header of the log is empty.\<close>

definition fs_begin_op :: "fsys \<Rightarrow> fault + fsys" where
  "fs_begin_op s =
     (if int (length (fs_log s)) + (fs_outstanding s + 1) * int MAXOPBLOCKS > int LOGSIZE then Inl Sleeps
      else Inr (s\<lparr>fs_outstanding := fs_outstanding s + 1\<rparr>))"

definition fs_end_op :: "fsys \<Rightarrow> fsys" where
  "fs_end_op s =
     (let s1 = s\<lparr>fs_outstanding := fs_outstanding s - 1\<rparr> in if fs_outstanding s1 = 0 then s1\<lparr>fs_log := []\<rparr> else s1)"

definition with_fs :: "kst \<Rightarrow> fsys \<Rightarrow> kst" where
  "with_fs k s = k\<lparr>k_fs := s\<rparr>"

subsection \<open>Open files\<close>

definition upd_file :: "nat \<Rightarrow> (file_struct \<Rightarrow> file_struct) \<Rightarrow> kst \<Rightarrow> kst" where
  "upd_file f g k = k\<lparr>k_file := (k_file k)[f := g (k_file k ! f)]\<rparr>"

definition filealloc :: "kst \<Rightarrow> (nat \<times> kst) option" where
  "filealloc k =
     (case find_slot (\<lambda>f. f_ref f = 0) (k_file k) of
        None \<Rightarrow> None
      | Some f \<Rightarrow> Some (f, upd_file f (\<lambda>x. x\<lparr>f_ref := 1\<rparr>) k))"

definition filedup :: "nat \<Rightarrow> kst \<Rightarrow> fault + kst" where
  "filedup f k =
     (if f_ref (k_file k ! f) < 1 then Inl (Panic ''filedup'') else Inr (upd_file f (\<lambda>x. x\<lparr>f_ref := f_ref x + 1\<rparr>) k))"

definition close_pipe :: "nat \<Rightarrow> bool \<Rightarrow> kst \<Rightarrow> kst" where
  "close_pipe a writable k =
     (case pipeclose writable (k_pipe k a) of
        Some p \<Rightarrow> k\<lparr>k_pipe := (k_pipe k)(a := p)\<rparr>
      | None \<Rightarrow> k\<lparr>k_free := a # k_free k\<rparr>)"

definition fileclose :: "nat \<Rightarrow> kst \<Rightarrow> fault + kst" where
  "fileclose f k =
     (let ff = k_file k ! f in
      if f_ref ff < 1 then Inl (Panic ''fileclose'')
      else if f_ref ff - 1 > 0 then Inr (upd_file f (\<lambda>x. x\<lparr>f_ref := f_ref x - 1\<rparr>) k)
      else
        let k1 = upd_file f (\<lambda>x. x\<lparr>f_ref := 0, f_type := FD_NONE\<rparr>) k in
        (case f_type ff of
           FD_PIPE \<Rightarrow> Inr (close_pipe (f_pipe ff) (f_writable ff) k1)
         | FD_INODE \<Rightarrow>
             ebind (fs_begin_op (k_fs k1)) (\<lambda>s1.
               ebind (iput (k_me k) (f_ip ff) s1) (\<lambda>s2. Inr (with_fs k1 (fs_end_op s2))))
         | FD_NONE \<Rightarrow> Inr k1))"

definition filestat :: "nat \<Rightarrow> kst \<Rightarrow> fault + stat option \<times> kst" where
  "filestat f k =
     (let ff = k_file k ! f in
      if f_type ff = FD_INODE
      then
        ebind (ilock (k_me k) (f_ip ff) (k_fs k)) (\<lambda>s1.
          ebind (iunlock (k_me k) (f_ip ff) s1) (\<lambda>s2. Inr (Some (stati (f_ip ff) s1), with_fs k s2)))
      else Inr (None, k))"

definition fileread :: "devsw \<Rightarrow> nat \<Rightarrow> nat \<Rightarrow> kst \<Rightarrow> fault + byte list option \<times> kst" where
  "fileread dv f n k =
     (let ff = k_file k ! f in
      if \<not> f_readable ff then Inr (None, k)
      else if f_type ff = FD_PIPE
      then
        (case piperead (k_killed k) n (k_pipe k (f_pipe ff)) of
           (Asleep _, p) \<Rightarrow> Inl Sleeps
         | (Returned r, p) \<Rightarrow> Inr (r, k\<lparr>k_pipe := (k_pipe k)(f_pipe ff := p)\<rparr>))
      else if f_type ff = FD_INODE
      then
        ebind (ilock (k_me k) (f_ip ff) (k_fs k)) (\<lambda>s1.
          ebind (readi dv (f_ip ff) (f_off ff) n s1) (\<lambda>(r, s2).
            let k1 = (case r of Some bs \<Rightarrow> upd_file f (\<lambda>x. x\<lparr>f_off := f_off x + length bs\<rparr>) k | None \<Rightarrow> k) in
            ebind (iunlock (k_me k) (f_ip ff) s2) (\<lambda>s3. Inr (r, with_fs k1 s3))))
      else Inl (Panic ''fileread''))"

text \<open>\<open>((MAXOPBLOCKS-1-1-2) / 2) * 512\<close>\<close>

definition write_max :: nat where "write_max = ((MAXOPBLOCKS - 1 - 1 - 2) div 2) * 512"

text \<open>The loop of \<open>filewrite\<close>: whether all of \<open>src\<close> was written.\<close>

function filewrite_loop :: "devsw \<Rightarrow> nat \<Rightarrow> byte list \<Rightarrow> kst \<Rightarrow> fault + bool \<times> kst" where
  "filewrite_loop dv f src k =
     (if src = [] then Inr (True, k)
      else
        let chunk = take write_max src; ip = f_ip (k_file k ! f) in
        ebind (fs_begin_op (k_fs k)) (\<lambda>s1.
          ebind (ilock (k_me k) ip s1) (\<lambda>s2.
            ebind (writei dv ip chunk (f_off (k_file k ! f)) s2) (\<lambda>(r, s3).
              let k1 = (case r of Some m \<Rightarrow> upd_file f (\<lambda>x. x\<lparr>f_off := f_off x + m\<rparr>) k | None \<Rightarrow> k) in
              ebind (iunlock (k_me k) ip s3) (\<lambda>s4.
                let k2 = with_fs k1 (fs_end_op s4) in
                if r = None then Inr (False, k2)
                else if r \<noteq> Some (length chunk) then Inl (Panic ''short filewrite'')
                else filewrite_loop dv f (drop write_max src) k2)))))"
  by pat_completeness auto
termination
  by (relation "measure (\<lambda>(dv, f, src, k). length src)") (auto simp: write_max_def MAXOPBLOCKS_def)

declare filewrite_loop.simps [simp del]

definition filewrite :: "devsw \<Rightarrow> nat \<Rightarrow> byte list \<Rightarrow> kst \<Rightarrow> fault + nat option \<times> kst" where
  "filewrite dv f src k =
     (let ff = k_file k ! f in
      if \<not> f_writable ff then Inr (None, k)
      else if f_type ff = FD_PIPE
      then
        (case pipewrite (k_killed k) (length src) src (k_pipe k (f_pipe ff)) of
           (Inr _, p) \<Rightarrow> Inl Sleeps
         | (Inl r, p) \<Rightarrow> Inr (r, k\<lparr>k_pipe := (k_pipe k)(f_pipe ff := p)\<rparr>))
      else if f_type ff = FD_INODE
      then ebind (filewrite_loop dv f src k) (\<lambda>(ok, k1). Inr (if ok then Some (length src) else None, k1))
      else Inl (Panic ''filewrite''))"

text \<open>\<open>pipealloc\<close>: the two ends, or nothing. A page from \<open>kalloc\<close> is filled with ones.\<close>

definition pipealloc :: "kst \<Rightarrow> fault + (nat \<times> nat) option \<times> kst" where
  "pipealloc k =
     (case filealloc k of
        None \<Rightarrow> Inr (None, k)
      | Some (f0, k1) \<Rightarrow>
          (case filealloc k1 of
             None \<Rightarrow> ebind (fileclose f0 k1) (\<lambda>k2. Inr (None, k2))
           | Some (f1, k2) \<Rightarrow>
               (case k_free k2 of
                  [] \<Rightarrow> ebind (fileclose f0 k2) (\<lambda>k3. ebind (fileclose f1 k3) (\<lambda>k4. Inr (None, k4)))
                | a # free \<Rightarrow>
                    let k3 = k2\<lparr>k_free := free, k_pipe := (k_pipe k2)(a := new_pipe (replicate PIPESIZE 1))\<rparr>;
                        k4 = upd_file f0 (\<lambda>x. x\<lparr>f_type := FD_PIPE, f_readable := True, f_writable := False, f_pipe := a\<rparr>) k3;
                        k5 = upd_file f1 (\<lambda>x. x\<lparr>f_type := FD_PIPE, f_readable := False, f_writable := True, f_pipe := a\<rparr>) k4
                    in Inr (Some (f0, f1), k5))))"

subsection \<open>System calls on files\<close>

definition argfd :: "nat \<Rightarrow> kst \<Rightarrow> (nat \<times> nat) option" where
  "argfd n k =
     (case argint n k of
        None \<Rightarrow> None
      | Some fd \<Rightarrow>
          if to_int fd < 0 \<or> fd \<ge> 16 then None
          else (case k_ofile k ! fd of None \<Rightarrow> None | Some f \<Rightarrow> Some (fd, f)))"

definition fdalloc :: "nat \<Rightarrow> kst \<Rightarrow> (nat \<times> kst) option" where
  "fdalloc f k =
     (case find_slot (\<lambda>x. x = None) (k_ofile k) of
        None \<Rightarrow> None
      | Some fd \<Rightarrow> Some (fd, k\<lparr>k_ofile := (k_ofile k)[fd := Some f]\<rparr>))"

definition put_bytes :: "nat \<Rightarrow> byte list \<Rightarrow> kst \<Rightarrow> kst" where
  "put_bytes a bs k = k\<lparr>k_mem := (\<lambda>x. if a \<le> x \<and> x < a + length bs then bs ! (x - a) else k_mem k x)\<rparr>"

definition get_bytes :: "nat \<Rightarrow> nat \<Rightarrow> kst \<Rightarrow> byte list" where
  "get_bytes a n k = map (k_mem k) [a..<a + n]"

definition sys_dup :: "kst \<Rightarrow> fault + int \<times> kst" where
  "sys_dup k =
     (case argfd 0 k of
        None \<Rightarrow> Inr (-1, k)
      | Some (_, f) \<Rightarrow>
          (case fdalloc f k of
             None \<Rightarrow> Inr (-1, k)
           | Some (fd, k1) \<Rightarrow> ebind (filedup f k1) (\<lambda>k2. Inr (int fd, k2))))"

definition sys_read :: "devsw \<Rightarrow> kst \<Rightarrow> fault + int \<times> kst" where
  "sys_read dv k =
     (case (argfd 0 k, argint 2 k) of
        (Some (_, f), Some n) \<Rightarrow>
          (case argptr 1 (to_int n) k of
             None \<Rightarrow> Inr (-1, k)
           | Some p \<Rightarrow>
               ebind (fileread dv f n k) (\<lambda>(r, k1).
                 case r of None \<Rightarrow> Inr (-1, k1) | Some bs \<Rightarrow> Inr (int (length bs), put_bytes p bs k1)))
      | _ \<Rightarrow> Inr (-1, k))"

definition sys_write :: "devsw \<Rightarrow> kst \<Rightarrow> fault + int \<times> kst" where
  "sys_write dv k =
     (case (argfd 0 k, argint 2 k) of
        (Some (_, f), Some n) \<Rightarrow>
          (case argptr 1 (to_int n) k of
             None \<Rightarrow> Inr (-1, k)
           | Some p \<Rightarrow>
               ebind (filewrite dv f (get_bytes p n k) k) (\<lambda>(r, k1).
                 Inr (case r of None \<Rightarrow> -1 | Some m \<Rightarrow> int m, k1)))
      | _ \<Rightarrow> Inr (-1, k))"

definition sys_close :: "kst \<Rightarrow> fault + int \<times> kst" where
  "sys_close k =
     (case argfd 0 k of
        None \<Rightarrow> Inr (-1, k)
      | Some (fd, f) \<Rightarrow> ebind (fileclose f (k\<lparr>k_ofile := (k_ofile k)[fd := None]\<rparr>)) (\<lambda>k1. Inr (0, k1)))"

text \<open>\<open>struct stat\<close> in user memory: 20 bytes with two gaps.\<close>

definition put_stat :: "nat \<Rightarrow> stat \<Rightarrow> kst \<Rightarrow> kst" where
  "put_stat a st k =
     put_bytes (a + 16) (bytes32 (st_size st)) (put_bytes (a + 12) (bytes16 (st_nlink st))
       (put_bytes (a + 4) (bytes32 (st_dev st) @ bytes32 (st_ino st)) (put_bytes a (bytes16 (st_type st)) k)))"

definition sys_fstat :: "kst \<Rightarrow> fault + int \<times> kst" where
  "sys_fstat k =
     (case (argfd 0 k, argptr 1 20 k) of
        (Some (_, f), Some p) \<Rightarrow>
          ebind (filestat f k) (\<lambda>(r, k1). Inr (case r of None \<Rightarrow> (-1, k1) | Some st \<Rightarrow> (0, put_stat p st k1)))
      | _ \<Rightarrow> Inr (-1, k))"

subsection \<open>System calls on the file system\<close>

definition set_nlink :: "nat \<Rightarrow> (16 word \<Rightarrow> 16 word) \<Rightarrow> fsys \<Rightarrow> fsys" where
  "set_nlink ip g s = upd_inode ip (\<lambda>i. i\<lparr>i_nlink := g (i_nlink i)\<rparr>) s"

definition finish :: "int \<Rightarrow> kst \<Rightarrow> fsys \<Rightarrow> fault + int \<times> kst" where
  "finish r k s = Inr (r, with_fs k (fs_end_op s))"

text \<open>The label \<open>bad\<close> of \<open>sys_link\<close>.\<close>

definition link_bad :: "kst \<Rightarrow> nat \<Rightarrow> fsys \<Rightarrow> fault + int \<times> kst" where
  "link_bad k ip s =
     ebind (ilock (k_me k) ip s) (\<lambda>s1.
       ebind (iupdate ip (set_nlink ip (\<lambda>x. x - 1) s1)) (\<lambda>s2.
         ebind (iunlockput (k_me k) ip s2) (finish (-1) k)))"

definition sys_link :: "devsw \<Rightarrow> kst \<Rightarrow> fault + int \<times> kst" where
  "sys_link dv k =
     (case (argstr 0 k, argstr 1 k) of
        (Some old, Some new) \<Rightarrow>
          ebind (fs_begin_op (k_fs k)) (\<lambda>s0.
            ebind (namei dv (k_me k) (k_cwd k) old s0) (\<lambda>(r, s1).
              case r of
                None \<Rightarrow> finish (-1) k s1
              | Some ip \<Rightarrow>
                  ebind (ilock (k_me k) ip s1) (\<lambda>s2.
                    if i_type (fs_inode s2 ! ip) = T_DIR
                    then ebind (iunlockput (k_me k) ip s2) (finish (-1) k)
                    else
                      ebind (iupdate ip (set_nlink ip (\<lambda>x. x + 1) s2)) (\<lambda>s3.
                        ebind (iunlock (k_me k) ip s3) (\<lambda>s4.
                          ebind (nameiparent dv (k_me k) (k_cwd k) new s4) (\<lambda>((d, name), s5).
                            case d of
                              None \<Rightarrow> link_bad k ip s5
                            | Some dp \<Rightarrow>
                                ebind (ilock (k_me k) dp s5) (\<lambda>s6.
                                  if i_dev (fs_inode s6 ! dp) \<noteq> i_dev (fs_inode s6 ! ip)
                                  then ebind (iunlockput (k_me k) dp s6) (link_bad k ip)
                                  else
                                    ebind (dirlink dv (k_me k) dp name (i_inum (fs_inode s6 ! ip)) s6) (\<lambda>(ok, s7).
                                      ebind (iunlockput (k_me k) dp s7) (\<lambda>s8.
                                        if \<not> ok then link_bad k ip s8
                                        else ebind (iput (k_me k) ip s8) (finish 0 k))))))))))
      | _ \<Rightarrow> Inr (-1, k))"

text \<open>Is there no entry in use from offset \<open>off\<close> on?\<close>

function isdirempty_from :: "devsw \<Rightarrow> nat \<Rightarrow> nat \<Rightarrow> nat \<Rightarrow> fsys \<Rightarrow> fault + bool \<times> fsys" where
  "isdirempty_from dv dp sz off s =
     (if off < sz
      then
        ebind (readi dv dp off 16 s) (\<lambda>(r, s1).
          case r of
            None \<Rightarrow> Inl (Panic ''isdirempty: readi'')
          | Some de \<Rightarrow>
              if length de \<noteq> 16 then Inl (Panic ''isdirempty: readi'')
              else if de_inum de \<noteq> 0 then Inr (False, s1)
              else isdirempty_from dv dp sz (off + 16) s1)
      else Inr (True, s))"
  by pat_completeness auto
termination
  by (relation "measure (\<lambda>(dv, dp, sz, off, s). sz - off)") auto

declare isdirempty_from.simps [simp del]

definition isdirempty :: "devsw \<Rightarrow> nat \<Rightarrow> fsys \<Rightarrow> fault + bool \<times> fsys" where
  "isdirempty dv dp s = isdirempty_from dv dp (i_size (fs_inode s ! dp)) 32 s"

text \<open>\<open>sys_unlink\<close> after the checks: the entry is cleared, the link counts go down.\<close>

definition unlink_entry :: "devsw \<Rightarrow> kst \<Rightarrow> nat \<Rightarrow> nat \<Rightarrow> nat \<Rightarrow> fsys \<Rightarrow> fault + int \<times> kst" where
  "unlink_entry dv k dp ip off s =
     ebind (writei dv dp (replicate 16 0) off s) (\<lambda>(w, s1).
       if w \<noteq> Some 16 then Inl (Panic ''unlink: writei'')
       else
         ebind (if i_type (fs_inode s1 ! ip) = T_DIR then iupdate dp (set_nlink dp (\<lambda>x. x - 1) s1) else Inr s1) (\<lambda>s2.
           ebind (iunlockput (k_me k) dp s2) (\<lambda>s3.
             ebind (iupdate ip (set_nlink ip (\<lambda>x. x - 1) s3)) (\<lambda>s4.
               ebind (iunlockput (k_me k) ip s4) (finish 0 k)))))"

definition sys_unlink :: "devsw \<Rightarrow> kst \<Rightarrow> fault + int \<times> kst" where
  "sys_unlink dv k =
     (case argstr 0 k of
        None \<Rightarrow> Inr (-1, k)
      | Some path \<Rightarrow>
          ebind (fs_begin_op (k_fs k)) (\<lambda>s0.
            ebind (nameiparent dv (k_me k) (k_cwd k) path s0) (\<lambda>((d, name), s1).
              case d of
                None \<Rightarrow> finish (-1) k s1
              | Some dp \<Rightarrow>
                  ebind (ilock (k_me k) dp s1) (\<lambda>s2.
                    ebind (namecmp name [46, 0]) (\<lambda>c1.
                      ebind (namecmp name [46, 46, 0]) (\<lambda>c2.
                        if c1 = 0 \<or> c2 = 0 then ebind (iunlockput (k_me k) dp s2) (finish (-1) k)
                        else
                          ebind (dirlookup dv dp name s2) (\<lambda>(r, s3).
                            case r of
                              None \<Rightarrow> ebind (iunlockput (k_me k) dp s3) (finish (-1) k)
                            | Some (ip, off) \<Rightarrow>
                                ebind (ilock (k_me k) ip s3) (\<lambda>s4.
                                  if sint (i_nlink (fs_inode s4 ! ip)) < 1 then Inl (Panic ''unlink: nlink < 1'')
                                  else
                                    ebind (if i_type (fs_inode s4 ! ip) = T_DIR then isdirempty dv ip s4 else Inr (True, s4)) (\<lambda>(e, s5).
                                      if \<not> e
                                      then
                                        ebind (iunlockput (k_me k) ip s5) (\<lambda>s6.
                                          ebind (iunlockput (k_me k) dp s6) (finish (-1) k))
                                      else unlink_entry dv k dp ip off s5)))))))))"


definition create_new :: "devsw \<Rightarrow> int \<Rightarrow> nat \<Rightarrow> byte list \<Rightarrow> 16 word \<Rightarrow> 16 word \<Rightarrow> 16 word \<Rightarrow> fsys \<Rightarrow> fault + nat option \<times> fsys" where
  "create_new dv me dp name ty mj mn s =
     ebind (ialloc (i_dev (fs_inode s ! dp)) ty s) (\<lambda>(ip, s1).
       ebind (ilock me ip s1) (\<lambda>s2.
         ebind (iupdate ip (upd_inode ip (\<lambda>i. i\<lparr>i_major := mj, i_minor := mn, i_nlink := 1\<rparr>) s2)) (\<lambda>s3.
           ebind
             (if ty = T_DIR
              then
                ebind (iupdate dp (set_nlink dp (\<lambda>x. x + 1) s3)) (\<lambda>s4.
                  ebind (dirlink dv me ip [46, 0] (i_inum (fs_inode s4 ! ip)) s4) (\<lambda>(ok1, s5).
                    if \<not> ok1 then Inl (Panic ''create dots'')
                    else
                      ebind (dirlink dv me ip [46, 46, 0] (i_inum (fs_inode s5 ! dp)) s5) (\<lambda>(ok2, s6).
                        if \<not> ok2 then Inl (Panic ''create dots'') else Inr s6)))
              else Inr s3)
             (\<lambda>s7.
               ebind (dirlink dv me dp name (i_inum (fs_inode s7 ! ip)) s7) (\<lambda>(ok, s8).
                 if \<not> ok then Inl (Panic ''create: dirlink'')
                 else ebind (iunlockput me dp s8) (\<lambda>s9. Inr (Some ip, s9)))))))"

definition create :: "devsw \<Rightarrow> int \<Rightarrow> nat \<Rightarrow> byte list \<Rightarrow> 16 word \<Rightarrow> 16 word \<Rightarrow> 16 word \<Rightarrow> fsys \<Rightarrow> fault + nat option \<times> fsys" where
  "create dv me cwd path ty mj mn s =
     ebind (nameiparent dv me cwd path s) (\<lambda>((d, name), s1).
       case d of
         None \<Rightarrow> Inr (None, s1)
       | Some dp \<Rightarrow>
           ebind (ilock me dp s1) (\<lambda>s2.
             ebind (dirlookup dv dp name s2) (\<lambda>(r, s3).
               case r of
                 Some (ip, _) \<Rightarrow>
                   ebind (iunlockput me dp s3) (\<lambda>s4.
                     ebind (ilock me ip s4) (\<lambda>s5.
                       if ty = T_FILE \<and> i_type (fs_inode s5 ! ip) = T_FILE then Inr (Some ip, s5)
                       else ebind (iunlockput me ip s5) (\<lambda>s6. Inr (None, s6))))
               | None \<Rightarrow> create_new dv me dp name ty mj mn s3)))"

unbundle bit_operations_syntax

definition O_RDONLY :: uint32 where "O_RDONLY = 0x000"
definition O_WRONLY :: uint32 where "O_WRONLY = 0x001"
definition O_RDWR :: uint32 where "O_RDWR = 0x002"
definition O_CREATE :: uint32 where "O_CREATE = 0x200"

text \<open>The inode that \<open>sys_open\<close> opens, locked.\<close>

definition open_inode :: "devsw \<Rightarrow> kst \<Rightarrow> byte list \<Rightarrow> uint32 \<Rightarrow> fsys \<Rightarrow> fault + nat option \<times> fsys" where
  "open_inode dv k path omode s =
     (if omode AND O_CREATE \<noteq> 0 then create dv (k_me k) (k_cwd k) path T_FILE 0 0 s
      else
        ebind (namei dv (k_me k) (k_cwd k) path s) (\<lambda>(r, s1).
          case r of
            None \<Rightarrow> Inr (None, s1)
          | Some ip \<Rightarrow>
              ebind (ilock (k_me k) ip s1) (\<lambda>s2.
                if i_type (fs_inode s2 ! ip) = T_DIR \<and> omode \<noteq> O_RDONLY
                then ebind (iunlockput (k_me k) ip s2) (\<lambda>s3. Inr (None, s3))
                else Inr (Some ip, s2))))"

definition sys_open :: "devsw \<Rightarrow> kst \<Rightarrow> fault + int \<times> kst" where
  "sys_open dv k =
     (case (argstr 0 k, argint 1 k) of
        (Some path, Some om) \<Rightarrow>
          let omode = word_of_nat om in
          ebind (fs_begin_op (k_fs k)) (\<lambda>s0.
            ebind (open_inode dv k path omode s0) (\<lambda>(r, s1).
              case r of
                None \<Rightarrow> finish (-1) k s1
              | Some ip \<Rightarrow>
                  (case filealloc (with_fs k s1) of
                     None \<Rightarrow> ebind (iunlockput (k_me k) ip s1) (finish (-1) k)
                   | Some (f, k1) \<Rightarrow>
                       (case fdalloc f k1 of
                          None \<Rightarrow>
                            ebind (fileclose f k1) (\<lambda>k2. ebind (iunlockput (k_me k) ip (k_fs k2)) (finish (-1) k2))
                        | Some (fd, k2) \<Rightarrow>
                            ebind (iunlock (k_me k) ip s1) (\<lambda>s2.
                              let k3 = with_fs k2 (fs_end_op s2) in
                              Inr (int fd, upd_file f (\<lambda>x. x\<lparr>f_type := FD_INODE, f_ip := ip, f_off := 0,
                                     f_readable := (omode AND O_WRONLY = 0),
                                     f_writable := (omode AND O_WRONLY \<noteq> 0 \<or> omode AND O_RDWR \<noteq> 0)\<rparr>) k3))))))
      | _ \<Rightarrow> Inr (-1, k))"

definition sys_mkdir :: "devsw \<Rightarrow> kst \<Rightarrow> fault + int \<times> kst" where
  "sys_mkdir dv k =
     ebind (fs_begin_op (k_fs k)) (\<lambda>s0.
       case argstr 0 k of
         None \<Rightarrow> finish (-1) k s0
       | Some path \<Rightarrow>
           ebind (create dv (k_me k) (k_cwd k) path T_DIR 0 0 s0) (\<lambda>(r, s1).
             case r of None \<Rightarrow> finish (-1) k s1 | Some ip \<Rightarrow> ebind (iunlockput (k_me k) ip s1) (finish 0 k)))"

definition sys_mknod :: "devsw \<Rightarrow> kst \<Rightarrow> fault + int \<times> kst" where
  "sys_mknod dv k =
     ebind (fs_begin_op (k_fs k)) (\<lambda>s0.
       case (argstr 0 k, argint 1 k, argint 2 k) of
         (Some path, Some mj, Some mn) \<Rightarrow>
           ebind (create dv (k_me k) (k_cwd k) path T_DEV (word_of_nat mj) (word_of_nat mn) s0) (\<lambda>(r, s1).
             case r of None \<Rightarrow> finish (-1) k s1 | Some ip \<Rightarrow> ebind (iunlockput (k_me k) ip s1) (finish 0 k))
       | _ \<Rightarrow> finish (-1) k s0)"

definition sys_chdir :: "devsw \<Rightarrow> kst \<Rightarrow> fault + int \<times> kst" where
  "sys_chdir dv k =
     ebind (fs_begin_op (k_fs k)) (\<lambda>s0.
       case argstr 0 k of
         None \<Rightarrow> finish (-1) k s0
       | Some path \<Rightarrow>
           ebind (namei dv (k_me k) (k_cwd k) path s0) (\<lambda>(r, s1).
             case r of
               None \<Rightarrow> finish (-1) k s1
             | Some ip \<Rightarrow>
                 ebind (ilock (k_me k) ip s1) (\<lambda>s2.
                   if i_type (fs_inode s2 ! ip) \<noteq> T_DIR
                   then ebind (iunlockput (k_me k) ip s2) (finish (-1) k)
                   else
                     ebind (iunlock (k_me k) ip s2) (\<lambda>s3.
                       ebind (iput (k_me k) (k_cwd k) s3) (\<lambda>s4.
                         Inr (0, (with_fs k (fs_end_op s4))\<lparr>k_cwd := ip\<rparr>))))))"

definition MAXARG :: nat where "MAXARG = 32"

text \<open>The arguments that \<open>sys_exec\<close> collects; \<open>None\<close> is the result \<open>-1\<close>.\<close>

fun exec_args :: "nat list \<Rightarrow> nat \<Rightarrow> kst \<Rightarrow> byte list list option" where
  "exec_args [] uargv k = None"
| "exec_args (i # rest) uargv k =
     (case fetchint ((uargv + 4 * i) mod 2 ^ 32) k of
        None \<Rightarrow> None
      | Some uarg \<Rightarrow>
          if uarg = 0 then Some []
          else (case fetchstr uarg k of None \<Rightarrow> None | Some s \<Rightarrow> map_option (Cons s) (exec_args rest uargv k)))"

text \<open>\<open>sys_exec\<close> with \<open>exec\<close> as an argument.\<close>

definition sys_exec :: "(byte list \<Rightarrow> byte list list \<Rightarrow> kst \<Rightarrow> fault + int \<times> kst) \<Rightarrow> kst \<Rightarrow> fault + int \<times> kst" where
  "sys_exec exe k =
     (case (argstr 0 k, argint 1 k) of
        (Some path, Some uargv) \<Rightarrow>
          (case exec_args [0..<MAXARG] uargv k of None \<Rightarrow> Inr (-1, k) | Some argv \<Rightarrow> exe path argv k)
      | _ \<Rightarrow> Inr (-1, k))"

definition sys_pipe :: "kst \<Rightarrow> fault + int \<times> kst" where
  "sys_pipe k =
     (case argptr 0 8 k of
        None \<Rightarrow> Inr (-1, k)
      | Some p \<Rightarrow>
          ebind (pipealloc k) (\<lambda>(r, k1).
            case r of
              None \<Rightarrow> Inr (-1, k1)
            | Some (rfile, wfile) \<Rightarrow>
                (case fdalloc rfile k1 of
                   None \<Rightarrow> ebind (fileclose rfile k1) (\<lambda>k2. ebind (fileclose wfile k2) (\<lambda>k3. Inr (-1, k3)))
                 | Some (fd0, k2) \<Rightarrow>
                     (case fdalloc wfile k2 of
                        None \<Rightarrow>
                          ebind (fileclose rfile (k2\<lparr>k_ofile := (k_ofile k2)[fd0 := None]\<rparr>)) (\<lambda>k3.
                            ebind (fileclose wfile k3) (\<lambda>k4. Inr (-1, k4)))
                      | Some (fd1, k3) \<Rightarrow> Inr (0, put_bytes p (bytes32 fd0 @ bytes32 fd1) k3)))))"

subsection \<open>Creating pipes\<close>

definition files_ok :: "kst \<Rightarrow> bool" where
  "files_ok k \<longleftrightarrow> (\<forall>f < length (k_file k). f_ref (k_file k ! f) = 0 \<longrightarrow> f_type (k_file k ! f) = FD_NONE)"

text \<open>Everything a failed call has to give back: references to files, pages, descriptors, the file system.\<close>

definition same_resources :: "kst \<Rightarrow> kst \<Rightarrow> bool" where
  "same_resources k k' \<longleftrightarrow> map f_ref (k_file k') = map f_ref (k_file k) \<and> k_free k' = k_free k \<and> k_ofile k' = k_ofile k \<and>
     k_fs k' = k_fs k \<and> k_mem k' = k_mem k \<and> (\<forall>f < length (k_file k). f_ref (k_file k ! f) \<noteq> 0 \<longrightarrow> k_file k' ! f = k_file k ! f)"

lemma update_twice: "i \<noteq> j \<Longrightarrow> xs[i := a, j := b, i := c, j := d] = xs[i := c, j := d]"
  by (metis list_update_overwrite list_update_swap)

lemma upd_file_simps [simp]:
  "k_file (upd_file f g k) = (k_file k)[f := g (k_file k ! f)]" "k_free (upd_file f g k) = k_free k" "k_ofile (upd_file f g k) = k_ofile k"
  "k_fs (upd_file f g k) = k_fs k" "k_pipe (upd_file f g k) = k_pipe k" "k_mem (upd_file f g k) = k_mem k"
  by (simp_all add: upd_file_def)

lemma filealloc_Some:
  assumes "filealloc k = Some (f, k1)"
  shows "f < length (k_file k)" "f_ref (k_file k ! f) = 0" "k1 = upd_file f (\<lambda>x. x\<lparr>f_ref := 1\<rparr>) k"
  using assms find_slot_SomeD [of "\<lambda>f. f_ref f = 0" "k_file k" f] by (auto simp: filealloc_def split: option.splits)

lemma fdalloc_Some:
  assumes "fdalloc f k = Some (fd, k1)"
  shows "fd < length (k_ofile k)" "k_ofile k ! fd = None" "k1 = k\<lparr>k_ofile := (k_ofile k)[fd := Some f]\<rparr>"
  using assms find_slot_SomeD [of "\<lambda>x. x = None" "k_ofile k" fd] by (auto simp: fdalloc_def split: option.splits)

lemma fileclose_plain:
  assumes "f_ref (k_file k ! f) = 1" and "f_type (k_file k ! f) = FD_NONE"
  shows "fileclose f k = Inr (upd_file f (\<lambda>x. x\<lparr>f_ref := 0, f_type := FD_NONE\<rparr>) k)"
  using assms by (simp add: fileclose_def Let_def)

lemma fileclose_end:
  assumes "f_ref (k_file k ! f) = 1" and "f_type (k_file k ! f) = FD_PIPE"
  shows "fileclose f k = Inr (close_pipe (f_pipe (k_file k ! f)) (f_writable (k_file k ! f)) (upd_file f (\<lambda>x. x\<lparr>f_ref := 0, f_type := FD_NONE\<rparr>) k))"
  using assms by (simp add: fileclose_def Let_def)

text \<open>The state after \<open>pipealloc\<close> has made the pipe on page \<open>a\<close>.\<close>

definition pipe_ends :: "kst \<Rightarrow> nat \<Rightarrow> nat \<Rightarrow> nat \<Rightarrow> nat list \<Rightarrow> kst \<Rightarrow> bool" where
  "pipe_ends k f0 f1 a free k' \<longleftrightarrow> f0 \<noteq> f1 \<and> f0 < length (k_file k) \<and> f1 < length (k_file k) \<and> f_ref (k_file k ! f0) = 0 \<and> f_ref (k_file k ! f1) = 0 \<and>
     k_free k = a # free \<and> k_free k' = free \<and> k_ofile k' = k_ofile k \<and> k_fs k' = k_fs k \<and> k_mem k' = k_mem k \<and>
     k_pipe k' a = new_pipe (replicate PIPESIZE 1) \<and>
     k_file k' = (k_file k)[f0 := (k_file k ! f0)\<lparr>f_ref := 1, f_type := FD_PIPE, f_readable := True, f_writable := False, f_pipe := a\<rparr>,
                            f1 := (k_file k ! f1)\<lparr>f_ref := 1, f_type := FD_PIPE, f_readable := False, f_writable := True, f_pipe := a\<rparr>]"

lemma pipealloc_cases:
  assumes ok: "files_ok k" and run: "pipealloc k = Inr (r, k')"
  obtains (failed) "r = None" "same_resources k k'" | (made) f0 f1 a free where "r = Some (f0, f1)" "pipe_ends k f0 f1 a free k'"
proof (cases "filealloc k")
  case None
  with run show thesis by (intro failed) (simp_all add: pipealloc_def same_resources_def)
next
  case (Some p)
  obtain f0 k1 where p: "p = (f0, k1)" by (cases p)
  note A = filealloc_Some [OF Some [unfolded p]]
  have n0: "f_type (k_file k ! f0) = FD_NONE" using ok A(1,2) by (simp add: files_ok_def)
  have at0: "k_file k1 ! f0 = (k_file k ! f0)\<lparr>f_ref := 1\<rparr>" using A(1,3) by simp
  have un0: "(map f_ref (k_file k))[f0 := 0] = map f_ref (k_file k)" using A(1,2) by (intro nth_equalityI) (auto simp: nth_list_update)
  show thesis
  proof (cases "filealloc k1")
    case None
    with run Some p fileclose_plain [of k1 f0] at0 n0 have "r = None" "k' = upd_file f0 (\<lambda>x. x\<lparr>f_ref := 0, f_type := FD_NONE\<rparr>) k1"
      by (simp_all add: pipealloc_def)
    with A un0 show thesis by (intro failed) (auto simp: same_resources_def map_update nth_list_update)
  next
    case (Some q)
    obtain f1 k2 where q: "q = (f1, k2)" by (cases q)
    note B = filealloc_Some [OF Some [unfolded q]]
    have ne: "f0 \<noteq> f1" using B(2) at0 by auto
    have f1: "f1 < length (k_file k)" "f_ref (k_file k ! f1) = 0" "k_file k1 ! f1 = k_file k ! f1" using B(1,2) A(1,3) ne by auto
    have n1: "f_type (k_file k ! f1) = FD_NONE" using ok f1 by (simp add: files_ok_def)
    have at: "k_file k2 ! f0 = (k_file k ! f0)\<lparr>f_ref := 1\<rparr>" "k_file k2 ! f1 = (k_file k ! f1)\<lparr>f_ref := 1\<rparr>"
      using B at0 ne f1 A(1,3) by simp_all
    have un1: "(map f_ref (k_file k))[f1 := 0] = map f_ref (k_file k)" using f1 by (intro nth_equalityI) (auto simp: nth_list_update)
    show thesis
    proof (cases "k_free k2")
      case Nil
      let ?c = "\<lambda>f k. upd_file f (\<lambda>x. x\<lparr>f_ref := 0, f_type := FD_NONE\<rparr>) k"
      have e0: "fileclose f0 k2 = Inr (?c f0 k2)" using at n0 by (intro fileclose_plain) simp_all
      have "k_file (?c f0 k2) ! f1 = k_file k2 ! f1" using ne by simp
      then have e1: "fileclose f1 (?c f0 k2) = Inr (?c f1 (?c f0 k2))" using at n1 by (intro fileclose_plain) simp_all
      have "r = None" "k' = ?c f1 (?c f0 k2)"
        using run \<open>filealloc k = Some p\<close> p Some q Nil e0 e1 by (simp_all add: pipealloc_def)
      moreover have "k_file k' = (k_file k)[f0 := (k_file k ! f0)\<lparr>f_ref := 0, f_type := FD_NONE\<rparr>, f1 := (k_file k ! f1)\<lparr>f_ref := 0, f_type := FD_NONE\<rparr>]"
        using calculation A(1,3) B(1,3) ne at by (simp add: update_twice)
      ultimately show thesis using A B f1 un0 un1 ne
        by (intro failed) (auto simp: same_resources_def map_update nth_list_update list_update_swap)
    next
      case (Cons a free)
      have "r = Some (f0, f1)" using run \<open>filealloc k = Some p\<close> p Some q Cons by (simp add: pipealloc_def Let_def)
      moreover have "pipe_ends k f0 f1 a free k'"
        using run \<open>filealloc k = Some p\<close> p Some q Cons A B ne f1 at
        by (auto simp: pipealloc_def Let_def pipe_ends_def update_twice)
      ultimately show thesis by (rule made)
    qed
  qed
qed

lemma pipe_ends_close:
  assumes e: "pipe_ends k f0 f1 a free k1"
  shows "\<exists>k2 k3. fileclose f0 k1 = Inr k2 \<and> fileclose f1 k2 = Inr k3 \<and> same_resources k k3"
proof -
  from e have E: "f0 \<noteq> f1" "f0 < length (k_file k)" "f1 < length (k_file k)" "f_ref (k_file k ! f0) = 0" "f_ref (k_file k ! f1) = 0"
    "k_free k = a # free" "k_free k1 = free" "k_ofile k1 = k_ofile k" "k_fs k1 = k_fs k" "k_mem k1 = k_mem k"
    "k_pipe k1 a = new_pipe (replicate PIPESIZE 1)"
    "k_file k1 = (k_file k)[f0 := (k_file k ! f0)\<lparr>f_ref := 1, f_type := FD_PIPE, f_readable := True, f_writable := False, f_pipe := a\<rparr>,
                            f1 := (k_file k ! f1)\<lparr>f_ref := 1, f_type := FD_PIPE, f_readable := False, f_writable := True, f_pipe := a\<rparr>]"
    unfolding pipe_ends_def by blast+
  have x0: "k_file k1 ! f0 = (k_file k ! f0)\<lparr>f_ref := 1, f_type := FD_PIPE, f_readable := True, f_writable := False, f_pipe := a\<rparr>"
    and x1: "k_file k1 ! f1 = (k_file k ! f1)\<lparr>f_ref := 1, f_type := FD_PIPE, f_readable := False, f_writable := True, f_pipe := a\<rparr>"
    using E(1,2,3,12) by simp_all
  let ?p = "(new_pipe (replicate PIPESIZE 1))\<lparr>p_readopen := False\<rparr>"
  let ?c = "\<lambda>f k. upd_file f (\<lambda>x. x\<lparr>f_ref := 0, f_type := FD_NONE\<rparr>) k"
  let ?k2 = "(?c f0 k1)\<lparr>k_pipe := (k_pipe k1)(a := ?p)\<rparr>"
  have c0: "fileclose f0 k1 = Inr ?k2"
    using fileclose_end [of k1 f0] x0 E(11) by (simp add: close_pipe_def pipeclose_def Let_def new_pipe_def)
  have y1: "k_file ?k2 ! f1 = k_file k1 ! f1" using E(1) by simp
  let ?k3 = "(?c f1 ?k2)\<lparr>k_free := a # free\<rparr>"
  have c1: "fileclose f1 ?k2 = Inr ?k3"
    using fileclose_end [of ?k2 f1] y1 x1 E(7) by (simp add: close_pipe_def pipeclose_def Let_def new_pipe_def)
  have "same_resources k ?k3"
    unfolding same_resources_def using E by (auto intro!: nth_equalityI simp: nth_list_update)
  with c0 c1 show ?thesis by blast
qed

lemma pipewrite_fits:
  assumes ok: "pipe_ok p" "pipe_queue p = []" and l: "length cs \<le> 512"
  shows "\<exists>p'. pipewrite killed n cs p = (Inl (Some n), p') \<and> pipe_ok p' \<and> pipe_queue p' = cs"
proof -
  obtain r p' where w: "pipewrite killed n cs p = (r, p')" by (cases "pipewrite killed n cs p")
  from pipewrite_queue [OF ok(1) w] obtain dn lf where d: "cs = dn @ lf" "pipe_ok p'" "pipe_queue p' = dn"
    "case r of Inl (Some m) \<Rightarrow> lf = [] \<and> m = n | Inl None \<Rightarrow> lf \<noteq> [] \<and> pipe_full p' | Inr l \<Rightarrow> l = lf \<and> lf \<noteq> [] \<and> pipe_full p'"
    using ok(2) by auto
  have "lf = []" if "pipe_full p'"
  proof -
    have "length dn = 512" using that pipe_full_count [OF d(2)] d(3) by (auto simp: pipe_queue_def)
    then show ?thesis using l d(1) by simp
  qed
  with d have "r = Inl (Some n) \<and> lf = []" by (auto split: sum.splits option.splits)
  with w d show ?thesis by simp
qed

lemma piperead_all:
  assumes ok: "pipe_ok p" and ne: "pipe_queue p \<noteq> []"
  shows "\<exists>p'. piperead killed (length (pipe_queue p)) p = (Returned (Some (pipe_queue p)), p')"
proof -
  have "p_nread p \<noteq> p_nwrite p" using ne pipe_empty_count [of p] by (auto simp: pipe_queue_def)
  moreover obtain cs p' where rd: "read_bytes (length (pipe_queue p)) p = (cs, p')" by (cases "read_bytes (length (pipe_queue p)) p")
  moreover have "cs = pipe_queue p" using read_bytes_queue [OF ok rd] by simp
  ultimately show ?thesis by (simp add: piperead_def)
qed

lemma new_pipe_ok: "pipe_ok (new_pipe (replicate PIPESIZE 1))" "pipe_queue (new_pipe (replicate PIPESIZE 1)) = []"
  by (simp_all add: new_pipe_def pipe_ok_def pipe_count_def pipe_queue_def PIPESIZE_def)

lemma pipe_transfer:
  assumes f: "k_file k ! f0 = x0" "k_file k ! f1 = x1" "f_type x0 = FD_PIPE" "f_type x1 = FD_PIPE" "f_readable x0" "f_writable x1"
      "f_pipe x0 = a" "f_pipe x1 = a" and p: "pipe_ok (k_pipe k a)" "pipe_queue (k_pipe k a) = []" and l: "length bs \<le> 512"
  shows "\<exists>k2. filewrite dv f1 bs k = Inr (Some (length bs), k2) \<and>
    (bs \<noteq> [] \<longrightarrow> (\<exists>k3. fileread dv f0 (length bs) k2 = Inr (Some bs, k3)))"
proof -
  obtain p' where w: "pipewrite (k_killed k) (length bs) bs (k_pipe k a) = (Inl (Some (length bs)), p')" "pipe_ok p'" "pipe_queue p' = bs"
    using pipewrite_fits [OF p l] by blast
  let ?k = "k\<lparr>k_pipe := (k_pipe k)(a := p')\<rparr>"
  have "filewrite dv f1 bs k = Inr (Some (length bs), ?k)" using f w by (simp add: filewrite_def Let_def)
  moreover have "\<exists>k3. fileread dv f0 (length bs) ?k = Inr (Some bs, k3)" if "bs \<noteq> []"
    using piperead_all [OF w(2), of "k_killed k"] that w(3) f by (auto simp: fileread_def Let_def)
  ultimately show ?thesis by blast
qed

text \<open>C27: \<open>sys_pipe\<close> gives back what it has taken. When it fails, in the file table, for want of a page, or because the process has
  no free descriptor for one of the two ends, all references to files, the free pages, the descriptors, the file system and the
  memory of the process are as before. When it succeeds, two free descriptors refer to the reading and the writing end of a new
  empty pipe, and a byte string of at most 512 bytes written to the one can be read from the other.\<close>

theorem sys_pipe_correct:
  assumes ok: "files_ok k" and run: "sys_pipe k = Inr (r, k')"
  shows "(r = -1 \<and> same_resources k k') \<or>
    (r = 0 \<and> (\<exists>fd0 fd1 f0 f1 a. fd0 \<noteq> fd1 \<and> k_ofile k ! fd0 = None \<and> k_ofile k ! fd1 = None \<and>
       k_ofile k' = (k_ofile k)[fd0 := Some f0, fd1 := Some f1] \<and> k_free k = a # k_free k' \<and>
       (\<forall>bs. length bs \<le> 512 \<longrightarrow> (\<exists>k2. filewrite dv f1 bs k' = Inr (Some (length bs), k2) \<and>
          (bs \<noteq> [] \<longrightarrow> (\<exists>k3. fileread dv f0 (length bs) k2 = Inr (Some bs, k3)))))))"
proof (cases "argptr 0 8 k")
  case None
  with run show ?thesis by (simp add: sys_pipe_def same_resources_def)
next
  case (Some p)
  with run obtain q k1 where pa: "pipealloc k = Inr (q, k1)" by (auto simp: sys_pipe_def)
  show ?thesis
  proof (cases rule: pipealloc_cases [OF ok pa])
    case 1
    with run Some pa show ?thesis by (simp add: sys_pipe_def)
  next
    case (2 f0 f1 a free)
    note E = 2(2) [unfolded pipe_ends_def]
    obtain c2 c3 where c: "fileclose f0 k1 = Inr c2" "fileclose f1 c2 = Inr c3" "same_resources k c3" using pipe_ends_close [OF 2(2)] by blast
    show ?thesis
    proof (cases "fdalloc f0 k1")
      case None
      with run Some pa 2(1) c show ?thesis by (simp add: sys_pipe_def)
    next
      case (Some fdk)
      obtain fd0 k2 where x: "fdalloc f0 k1 = Some (fd0, k2)" using Some by (cases fdk) auto
      note X = fdalloc_Some [OF x]
      show ?thesis
      proof (cases "fdalloc f1 k2")
        case None
        have "k2\<lparr>k_ofile := (k_ofile k2)[fd0 := None]\<rparr> = k1" using X by (simp add: list_update_same_conv)
        with None run \<open>argptr 0 8 k = Some p\<close> pa 2(1) x c show ?thesis by (simp add: sys_pipe_def)
      next
        case (Some y)
        obtain fd1 k3 where y: "fdalloc f1 k2 = Some (fd1, k3)" using Some by (cases y) auto
        note Y = fdalloc_Some [OF y]
        have ne: "fd0 \<noteq> fd1" using X Y by auto
        have r: "r = 0" "k' = put_bytes p (bytes32 fd0 @ bytes32 fd1) k3"
          using run \<open>argptr 0 8 k = Some p\<close> pa 2(1) x y by (simp_all add: sys_pipe_def)
        have keep: "k_file k' = k_file k1" "k_pipe k' = k_pipe k1" "k_free k' = k_free k1" "k_ofile k' = (k_ofile k)[fd0 := Some f0, fd1 := Some f1]"
          using r(2) X(3) Y(3) E by (simp_all add: put_bytes_def)
        have "\<exists>k2. filewrite dv f1 bs k' = Inr (Some (length bs), k2) \<and> (bs \<noteq> [] \<longrightarrow> (\<exists>k3. fileread dv f0 (length bs) k2 = Inr (Some bs, k3)))"
          if "length bs \<le> 512" for bs
          by (rule pipe_transfer [OF refl refl, where a = a])
            (use E keep that new_pipe_ok in simp_all)
        moreover have "k_ofile k ! fd0 = None" "k_ofile k ! fd1 = None" using X Y E ne by simp_all
        moreover have "k_free k = a # k_free k'" using E keep(3) by simp
        ultimately show ?thesis using r(1) ne keep(4) by blast
      qed
    qed
  qed
qed

definition free_file :: file_struct where
  "free_file = \<lparr>f_type = FD_NONE, f_ref = 0, f_readable = False, f_writable = False, f_pipe = 0, f_ip = 0, f_off = 0\<rparr>"

definition fresh_kst :: kst where
  "fresh_kst = \<lparr>k_fs = tiny_fs, k_file = free_file # free_file # replicate 98 free_file,
     k_pipe = (\<lambda>_. new_pipe []), k_free = [4096], k_ofile = None # None # replicate 14 None, k_cwd = 0, k_me = 1, k_killed = False,
     k_mem = (\<lambda>_. 0), k_sz = 4096, k_esp = 100\<rparr>"

lemma fresh_kst_files: "files_ok fresh_kst"
proof -
  have "set (k_file fresh_kst) = {free_file}" by (simp add: fresh_kst_def)
  then have "k_file fresh_kst ! f = free_file" if "f < length (k_file fresh_kst)" for f using nth_mem [OF that] by simp
  then show ?thesis by (simp add: files_ok_def free_file_def)
qed

lemma fresh_kst_arg: "argptr 0 8 fresh_kst = Some 0"
  by (simp add: argptr_def argint_def fetchint_def fresh_kst_def word_at_def)

lemma fresh_kst_pipe: "\<exists>k1. pipealloc fresh_kst = Inr (Some (0, 1), k1) \<and> k_ofile k1 = None # None # replicate 14 None"
  by (simp add: pipealloc_def filealloc_def fresh_kst_def free_file_def upd_file_def Let_def)

lemma fresh_kst_runs: "\<exists>k'. sys_pipe fresh_kst = Inr (0, k')"
proof -
  obtain k1 where p: "pipealloc fresh_kst = Inr (Some (0, 1), k1)" and o: "k_ofile k1 = None # None # replicate 14 None" using fresh_kst_pipe by blast
  have "\<exists>k2. fdalloc 0 k1 = Some (0, k2) \<and> k_ofile k2 = Some 0 # None # replicate 14 None" by (simp add: fdalloc_def o)
  then obtain k2 where a: "fdalloc 0 k1 = Some (0, k2)" and o2: "k_ofile k2 = Some 0 # None # replicate 14 None" by blast
  have "\<exists>k3. fdalloc 1 k2 = Some (1, k3)" by (simp add: fdalloc_def o2)
  then obtain k3 where b: "fdalloc 1 k2 = Some (1, k3)" by blast
  show ?thesis by (simp add: sys_pipe_def fresh_kst_arg p a b [simplified])
qed

theorem sys_pipe_correct_witness:
  "\<exists>k' f0 f1 k2 k3. sys_pipe fresh_kst = Inr (0, k') \<and> files_ok fresh_kst \<and>
     filewrite no_dev f1 [104, 105] k' = Inr (Some 2, k2) \<and> fileread no_dev f0 2 k2 = Inr (Some [104, 105], k3)"
proof -
  obtain k' where x: "sys_pipe fresh_kst = Inr (0, k')" using fresh_kst_runs by blast
  from sys_pipe_correct [OF fresh_kst_files x, of no_dev] obtain f0 f1 where
    t: "\<forall>bs. length bs \<le> 512 \<longrightarrow> (\<exists>k2. filewrite no_dev f1 bs k' = Inr (Some (length bs), k2) \<and>
          (bs \<noteq> [] \<longrightarrow> (\<exists>k3. fileread no_dev f0 (length bs) k2 = Inr (Some bs, k3))))" by auto
  from t [rule_format, of "[104, 105]"] obtain k2 k3 where
    "filewrite no_dev f1 [104, 105] k' = Inr (Some 2, k2)" "fileread no_dev f0 2 k2 = Inr (Some [104, 105], k3)" by (auto simp: numeral_2_eq_2)
  with x fresh_kst_files show ?thesis by blast
qed

end
