(* ===== verification/XV6_Sh.thy ===== *)
theory XV6_Sh
  imports XV6_File
begin

text \<open>
  The parser of the shell, \<open>src/project3/xv6-modified/sh.c\<close>. The line is the list \<open>b\<close> of its bytes
  without the final zero, a pointer into it an index, and \<open>es\<close> is \<open>length b\<close>. A command keeps, like the
  structures of the program, for each string the index of its first byte and the index behind its
  last; \<open>nulterminate\<close> then stores the zeros. \<open>malloc\<close> is taken to succeed. The four functions that
  call each other recurse on fuel, and \<open>parsecmd\<close> gives four units for every byte and four more; it is
  shown that they are never used up. The lemmas relate the parser to a grammar of token lists.
\<close>

definition MAXARGS :: nat where "MAXARGS = 10"

datatype cmd =
    Execcmd "(nat \<times> nat) list"
  | Redircmd cmd nat nat uint32 nat
  | Pipecmd cmd cmd
  | Listcmd cmd cmd
  | Backcmd cmd

definition whitespace :: "byte list" where "whitespace = [32, 9, 13, 10, 11]"
definition symbols :: "byte list" where "symbols = [60, 124, 62, 38, 59, 40, 41]"

text \<open>\<open>*s\<close>; the byte behind the line is the zero. \<open>strchr\<close> of the user library does not find the zero.\<close>

definition at :: "byte list \<Rightarrow> nat \<Rightarrow> byte" where
  "at b s = (if s < length b then b ! s else 0)"

definition among :: "byte list \<Rightarrow> byte \<Rightarrow> bool" where
  "among toks c \<longleftrightarrow> strchr (toks @ [0]) c \<noteq> Inr None"

function skipws :: "byte list \<Rightarrow> nat \<Rightarrow> nat" where
  "skipws b s = (if s < length b \<and> among whitespace (at b s) then skipws b (s + 1) else s)"
  by pat_completeness auto
termination
  by (relation "measure (\<lambda>(b, s). length b - s)") auto

function skipword :: "byte list \<Rightarrow> nat \<Rightarrow> nat" where
  "skipword b s =
     (if s < length b \<and> \<not> among whitespace (at b s) \<and> \<not> among symbols (at b s) then skipword b (s + 1) else s)"
  by pat_completeness auto
termination
  by (relation "measure (\<lambda>(b, s). length b - s)") auto

declare skipws.simps [simp del] skipword.simps [simp del]

text \<open>The result of \<open>gettoken\<close>: the kind of the token, its first byte, the byte behind it, and the next position. A
  word has the kind \<open>'a'\<close>, the symbol \<open>>>\<close> the kind \<open>'+'\<close>.\<close>

definition gettoken :: "byte list \<Rightarrow> nat \<Rightarrow> byte \<times> nat \<times> nat \<times> nat" where
  "gettoken b s =
     (let q = skipws b s; c = at b q in
      if c = 0 then (c, q, q, skipws b q)
      else if c \<in> {124, 40, 41, 59, 38, 60} then (c, q, q + 1, skipws b (q + 1))
      else if c = 62
      then if at b (q + 1) = 62 then (43, q, q + 2, skipws b (q + 2)) else (c, q, q + 1, skipws b (q + 1))
      else (97, q, skipword b q, skipws b (skipword b q)))"

definition peek :: "byte list \<Rightarrow> nat \<Rightarrow> byte list \<Rightarrow> bool \<times> nat" where
  "peek b s toks = (let s1 = skipws b s in (at b s1 \<noteq> 0 \<and> among toks (at b s1), s1))"

definition next_token :: "byte list \<Rightarrow> nat \<Rightarrow> nat" where
  "next_token b s = snd (snd (snd (gettoken b s)))"

lemma skipws_le: "s \<le> skipws b s"
  by (induction b s rule: skipws.induct) (subst skipws.simps, force)

lemma skipword_le: "s \<le> skipword b s"
  by (induction b s rule: skipword.induct) (subst skipword.simps, force)

lemma skipws_stop: "s \<le> length b \<Longrightarrow> skipws b s \<le> length b \<and> \<not> among whitespace (at b (skipws b s))"
proof (induction b s rule: skipws.induct)
  case (1 b s)
  show ?case
  proof (cases "s < length b \<and> among whitespace (at b s)")
    case True
    then show ?thesis using 1 by (subst (1 2) skipws.simps) simp
  next
    case False
    moreover have "\<not> among whitespace 0" by (simp add: among_def whitespace_def)
    ultimately show ?thesis using 1(2) by (subst (1 2) skipws.simps) (auto simp: at_def)
  qed
qed

lemma next_token_le: "s \<le> next_token b s"
  using skipws_le [of s b] skipws_le [of "skipws b s" b] skipws_le [of "skipws b s + 1" b] skipws_le [of "skipws b s + 2" b]
    skipws_le [of "skipword b (skipws b s)" b] skipword_le [of "skipws b s" b]
  by (auto simp: next_token_def gettoken_def Let_def)

lemma among_set: "0 \<notin> set toks \<Longrightarrow> among toks c \<longleftrightarrow> c \<in> set toks"
proof -
  have "strchr (toks @ [0]) c = (if c \<in> set toks then Inr (Some (length (takeWhile (\<lambda>x. x \<noteq> c) toks))) else Inr None)" if "0 \<notin> set toks"
    using that by (induction toks) auto
  then show "0 \<notin> set toks \<Longrightarrow> ?thesis" by (simp add: among_def)
qed

lemma at_lt: "at b s \<noteq> 0 \<Longrightarrow> s < length b"
  by (auto simp: at_def split: if_splits)

lemma next_token_less:
  assumes "at b (skipws b s) \<noteq> 0" "among symbols (at b (skipws b s))"
  shows "skipws b s < next_token b s"
proof -
  have "at b (skipws b s) \<in> {60, 124, 62, 38, 59, 40, 41}" using assms(2) by (simp add: among_set symbols_def)
  then show ?thesis using assms(1) skipws_le [of "skipws b s + 1" b] skipws_le [of "skipws b s + 2" b]
    by (auto simp: next_token_def gettoken_def Let_def)
qed

lemma peek_symbol:
  assumes "peek b s toks = (True, s1)" "set toks \<subseteq> set symbols"
  shows "s \<le> s1" "s1 < next_token b s1" "s1 < length b"
proof -
  have z: "0 \<notin> set toks" "0 \<notin> set symbols" using assms(2) by (auto simp: symbols_def)
  have p: "s1 = skipws b s" "at b s1 \<noteq> 0" "at b s1 \<in> set toks" using assms(1) z(1) by (auto simp: peek_def Let_def among_set)
  then have sy: "among symbols (at b s1)" using z(2) assms(2) by (auto simp: among_set)
  have i: "skipws b s1 = s1"
  proof -
    have "\<not> among whitespace (at b s1)" using p(3) assms(2) by (auto simp: among_set whitespace_def symbols_def)
    then show ?thesis by (subst skipws.simps) simp
  qed
  show "s \<le> s1" using skipws_le p(1) by simp
  show "s1 < next_token b s1" using next_token_less [of b s1] p(2) sy i by simp
  show "s1 < length b" using at_lt [OF p(2)] .
qed

subsection \<open>The parser\<close>

function parseredirs :: "byte list \<Rightarrow> cmd \<Rightarrow> nat \<Rightarrow> fault + cmd \<times> nat" where
  "parseredirs b cmd s =
     (case peek b s [60, 62] of
        (False, s1) \<Rightarrow> Inr (cmd, s1)
      | (True, s1) \<Rightarrow>
          (case gettoken b (next_token b s1) of
             (t, q, eq, s3) \<Rightarrow>
               if t \<noteq> 97 then Inl (Panic ''missing file for redirection'')
               else
                 let tok = fst (gettoken b s1) in
                 if tok = 60 then parseredirs b (Redircmd cmd q eq O_RDONLY 0) s3
                 else parseredirs b (Redircmd cmd q eq (O_WRONLY OR O_CREATE) 1) s3))"
  by pat_completeness auto
termination
proof (relation "measure (\<lambda>(b, cmd, s). length b - s)", goal_cases)
  case (2 b cmd s x s1 y q z s2 eq s3 tok)
  then have p: "peek b s [60, 62] = (True, s1)" by simp
  have "s \<le> s1" "s1 < next_token b s1" "s1 < length b" using peek_symbol [OF p] by (simp_all add: symbols_def)
  moreover have "gettoken b (next_token b s1) = (y, z, eq, s3)" using 2 by simp
  then have "next_token b s1 \<le> s3" using next_token_le [of "next_token b s1" b] by (simp add: next_token_def [of b "next_token b s1"])
  ultimately show ?case by simp
next
  case (3 b cmd s x s1 y q z s2 eq s3 tok)
  then have p: "peek b s [60, 62] = (True, s1)" by simp
  have "s \<le> s1" "s1 < next_token b s1" "s1 < length b" using peek_symbol [OF p] by (simp_all add: symbols_def)
  moreover have "gettoken b (next_token b s1) = (y, z, eq, s3)" using 3 by simp
  then have "next_token b s1 \<le> s3" using next_token_le [of "next_token b s1" b] by (simp add: next_token_def [of b "next_token b s1"])
  ultimately show ?case by simp
qed simp

declare parseredirs.simps [simp del]

text \<open>\<open>cmd->argv[argc] = q\<close> reaches the \<open>execcmd\<close> inside the redirections that \<open>ret\<close> has by now.\<close>

fun add_arg :: "nat \<times> nat \<Rightarrow> cmd \<Rightarrow> cmd" where
  "add_arg a (Execcmd as) = Execcmd (as @ [a])"
| "add_arg a (Redircmd c q eq mode fd) = Redircmd (add_arg a c) q eq mode fd"
| "add_arg a c = c"

function parseargs :: "byte list \<Rightarrow> cmd \<Rightarrow> nat \<Rightarrow> nat \<Rightarrow> fault + cmd \<times> nat" where
  "parseargs b ret argc s =
     (case peek b s [124, 41, 38, 59] of
        (True, s1) \<Rightarrow> Inr (ret, s1)
      | (False, s1) \<Rightarrow>
          (case gettoken b s1 of
             (tok, q, eq, s2) \<Rightarrow>
               if tok = 0 then Inr (ret, s2)
               else if tok \<noteq> 97 then Inl (Panic ''syntax'')
               else if argc + 1 \<ge> MAXARGS then Inl (Panic ''too many args'')
               else ebind (parseredirs b (add_arg (q, eq) ret) s2) (\<lambda>(ret1, s3). parseargs b ret1 (argc + 1) s3)))"
  by pat_completeness auto
termination
  by (relation "measure (\<lambda>(b, ret, argc, s). MAXARGS - argc)") auto

declare parseargs.simps [simp del]

function parseback :: "byte list \<Rightarrow> cmd \<Rightarrow> nat \<Rightarrow> cmd \<times> nat" where
  "parseback b cmd s =
     (case peek b s [38] of
        (True, s1) \<Rightarrow> parseback b (Backcmd cmd) (next_token b s1)
      | (False, s1) \<Rightarrow> (cmd, s1))"
  by pat_completeness auto
termination
proof (relation "measure (\<lambda>(b, cmd, s). length b - s)", goal_cases)
  case (2 b cmd s x s1)
  then have p: "peek b s [38] = (True, s1)" by simp
  have "s \<le> s1" "s1 < next_token b s1" "s1 < length b" using peek_symbol [OF p] by (simp_all add: symbols_def)
  then show ?case by simp
qed simp

declare parseback.simps [simp del]

fun parseline :: "nat \<Rightarrow> byte list \<Rightarrow> nat \<Rightarrow> fault + cmd \<times> nat"
  and parsepipe :: "nat \<Rightarrow> byte list \<Rightarrow> nat \<Rightarrow> fault + cmd \<times> nat"
  and parseexec :: "nat \<Rightarrow> byte list \<Rightarrow> nat \<Rightarrow> fault + cmd \<times> nat"
  and parseblock :: "nat \<Rightarrow> byte list \<Rightarrow> nat \<Rightarrow> fault + cmd \<times> nat" where
  "parseline 0 b s = Inl Diverges"
| "parseline (Suc n) b s =
     ebind (parsepipe n b s) (\<lambda>(c, s1).
       case parseback b c s1 of
         (c1, s2) \<Rightarrow>
           (case peek b s2 [59] of
              (False, s3) \<Rightarrow> Inr (c1, s3)
            | (True, s3) \<Rightarrow> ebind (parseline n b (next_token b s3)) (\<lambda>(c2, s4). Inr (Listcmd c1 c2, s4))))"
| "parsepipe 0 b s = Inl Diverges"
| "parsepipe (Suc n) b s =
     ebind (parseexec n b s) (\<lambda>(c, s1).
       case peek b s1 [124] of
         (False, s2) \<Rightarrow> Inr (c, s2)
       | (True, s2) \<Rightarrow> ebind (parsepipe n b (next_token b s2)) (\<lambda>(c2, s3). Inr (Pipecmd c c2, s3)))"
| "parseexec 0 b s = Inl Diverges"
| "parseexec (Suc n) b s =
     (case peek b s [40] of
        (True, s1) \<Rightarrow> parseblock n b s1
      | (False, s1) \<Rightarrow> ebind (parseredirs b (Execcmd []) s1) (\<lambda>(ret, s2). parseargs b ret 0 s2))"
| "parseblock 0 b s = Inl Diverges"
| "parseblock (Suc n) b s =
     (case peek b s [40] of
        (False, _) \<Rightarrow> Inl (Panic ''parseblock'')
      | (True, s1) \<Rightarrow>
          ebind (parseline n b (next_token b s1)) (\<lambda>(c, s2).
            case peek b s2 [41] of
              (False, _) \<Rightarrow> Inl (Panic ''syntax - missing )'')
            | (True, s3) \<Rightarrow> parseredirs b c (next_token b s3)))"

text \<open>The zeros are stored into the line with its final zero.\<close>

fun nulterminate :: "cmd \<Rightarrow> byte list \<Rightarrow> byte list" where
  "nulterminate (Execcmd as) B = fold (\<lambda>(q, eq) B. B[eq := 0]) as B"
| "nulterminate (Redircmd c q eq mode fd) B = (nulterminate c B)[eq := 0]"
| "nulterminate (Pipecmd l r) B = nulterminate r (nulterminate l B)"
| "nulterminate (Listcmd l r) B = nulterminate r (nulterminate l B)"
| "nulterminate (Backcmd c) B = nulterminate c B"

definition parsecmd :: "byte list \<Rightarrow> fault + cmd \<times> byte list" where
  "parsecmd b =
     ebind (parseline (4 * length b + 4) b 0) (\<lambda>(c, s).
       if snd (peek b s []) \<noteq> length b then Inl (Panic ''syntax'') else Inr (c, nulterminate c (b @ [0])))"

subsection \<open>Rules for the loops\<close>

lemma peek_le: "peek b s toks = (r, s1) \<Longrightarrow> s \<le> s1"
  using skipws_le by (auto simp: peek_def Let_def)

lemma token_le: "gettoken b s = (t, q, eq, s1) \<Longrightarrow> s \<le> s1"
  using next_token_le [of s b] by (simp add: next_token_def)

definition redir_mode :: "byte \<Rightarrow> uint32 \<times> nat" where
  "redir_mode tok = (if tok = 60 then (O_RDONLY, 0) else (O_WRONLY OR O_CREATE, 1))"

definition redirect :: "byte \<Rightarrow> cmd \<Rightarrow> nat \<Rightarrow> nat \<Rightarrow> cmd" where
  "redirect tok c q eq = Redircmd c q eq (fst (redir_mode tok)) (snd (redir_mode tok))"

lemma parseredirs_stop: "peek b s [60, 62] = (False, s1) \<Longrightarrow> parseredirs b c s = Inr (c, s1)"
  by (simp add: parseredirs.simps [of b c s])

lemma parseredirs_bad: "peek b s [60, 62] = (True, s1) \<Longrightarrow> gettoken b (next_token b s1) = (t, q, eq, s3) \<Longrightarrow> t \<noteq> 97 \<Longrightarrow>
    parseredirs b c s = Inl (Panic ''missing file for redirection'')"
  by (simp add: parseredirs.simps [of b c s])

lemma parseredirs_go: "peek b s [60, 62] = (True, s1) \<Longrightarrow> gettoken b (next_token b s1) = (97, q, eq, s3) \<Longrightarrow>
    parseredirs b c s = parseredirs b (redirect (fst (gettoken b s1)) c q eq) s3"
  by (simp add: parseredirs.simps [of b c s] redirect_def redir_mode_def)

lemma parseredirs_rule:
  assumes stop: "\<And>c s s1. peek b s [60, 62] = (False, s1) \<Longrightarrow> P c s (Inr (c, s1))"
    and bad: "\<And>c s. P c s (Inl (Panic ''missing file for redirection''))"
    and go: "\<And>c s s1 q eq s3 R. peek b s [60, 62] = (True, s1) \<Longrightarrow> gettoken b (next_token b s1) = (97, q, eq, s3) \<Longrightarrow> s < s3 \<Longrightarrow>
      P (redirect (fst (gettoken b s1)) c q eq) s3 R \<Longrightarrow> P c s R"
  shows "P c s (parseredirs b c s)"
proof (induction "length b - s" arbitrary: c s rule: less_induct)
  case less
  obtain r s1 where p: "peek b s [60, 62] = (r, s1)" by (cases "peek b s [60, 62]")
  obtain t q eq s3 where g: "gettoken b (next_token b s1) = (t, q, eq, s3)" by (cases "gettoken b (next_token b s1)") auto
  show ?case
  proof (cases r)
    case False
    then show ?thesis using p stop parseredirs_stop by simp
  next
    case True
    have p1: "peek b s [60, 62] = (True, s1)" using p True by simp
    have l: "s \<le> s1" "s1 < next_token b s1" "s1 < length b" using peek_symbol [OF p1] by (simp_all add: symbols_def)
    then have l3: "s < s3" "length b - s3 < length b - s" using token_le [OF g] by linarith+
    show ?thesis
    proof (cases "t = 97")
      case True
      note g1 = g [unfolded True]
      show ?thesis unfolding parseredirs_go [OF p1 g1] by (rule go [OF p1 g1 l3(1) less [OF l3(2)]])
    next
      case False
      then show ?thesis using parseredirs_bad [OF p1 g] bad by simp
    qed
  qed
qed

lemma parseargs_stop: "peek b s [124, 41, 38, 59] = (True, s1) \<Longrightarrow> parseargs b c k s = Inr (c, s1)"
  by (simp add: parseargs.simps [of b c k s])

lemma parseargs_end: "peek b s [124, 41, 38, 59] = (False, s1) \<Longrightarrow> gettoken b s1 = (0, q, eq, s2) \<Longrightarrow> parseargs b c k s = Inr (c, s2)"
  by (simp add: parseargs.simps [of b c k s])

lemma parseargs_bad: "peek b s [124, 41, 38, 59] = (False, s1) \<Longrightarrow> gettoken b s1 = (t, q, eq, s2) \<Longrightarrow> t \<noteq> 0 \<Longrightarrow> t \<noteq> 97 \<or> MAXARGS \<le> k + 1 \<Longrightarrow>
    \<exists>e. parseargs b c k s = Inl (Panic e)"
  by (auto simp: parseargs.simps [of b c k s])

lemma parseargs_go: "peek b s [124, 41, 38, 59] = (False, s1) \<Longrightarrow> gettoken b s1 = (97, q, eq, s2) \<Longrightarrow> k + 1 < MAXARGS \<Longrightarrow>
    parseargs b c k s = ebind (parseredirs b (add_arg (q, eq) c) s2) (\<lambda>(c1, s3). parseargs b c1 (k + 1) s3)"
  by (simp add: parseargs.simps [of b c k s])

lemma parseargs_rule:
  assumes stop: "\<And>c k s s1. peek b s [124, 41, 38, 59] = (True, s1) \<Longrightarrow> P c k s (Inr (c, s1))"
    and ends: "\<And>c k s s1 q eq s2. peek b s [124, 41, 38, 59] = (False, s1) \<Longrightarrow> gettoken b s1 = (0, q, eq, s2) \<Longrightarrow> P c k s (Inr (c, s2))"
    and bad: "\<And>c k s e. P c k s (Inl (Panic e))"
    and fail: "\<And>c k s s1 q eq s2 e. peek b s [124, 41, 38, 59] = (False, s1) \<Longrightarrow> gettoken b s1 = (97, q, eq, s2) \<Longrightarrow> parseredirs b (add_arg (q, eq) c) s2 = Inl e \<Longrightarrow> P c k s (Inl e)"
    and go: "\<And>c k s s1 q eq s2 c1 s3 R. peek b s [124, 41, 38, 59] = (False, s1) \<Longrightarrow> gettoken b s1 = (97, q, eq, s2) \<Longrightarrow>
      parseredirs b (add_arg (q, eq) c) s2 = Inr (c1, s3) \<Longrightarrow> P c1 (k + 1) s3 R \<Longrightarrow> P c k s R"
  shows "P c k s (parseargs b c k s)"
proof (induction "MAXARGS - k" arbitrary: c k s rule: less_induct)
  case less
  obtain r s1 where p: "peek b s [124, 41, 38, 59] = (r, s1)" by (cases "peek b s [124, 41, 38, 59]")
  obtain t q eq s2 where g: "gettoken b s1 = (t, q, eq, s2)" by (cases "gettoken b s1") auto
  consider "r" | "\<not> r" "t = 0" | "\<not> r" "t \<noteq> 0" "t \<noteq> 97 \<or> MAXARGS \<le> k + 1" | "\<not> r" "t = 97" "k + 1 < MAXARGS" by fastforce
  then show ?case
  proof cases
    case 1
    then show ?thesis using p stop parseargs_stop by simp
  next
    case 2
    then show ?thesis using p g ends parseargs_end [of b s s1] by simp
  next
    case 3
    then show ?thesis using p g bad parseargs_bad [of b s s1 t q eq s2 k c] by auto
  next
    case 4
    have p1: "peek b s [124, 41, 38, 59] = (False, s1)" and g1: "gettoken b s1 = (97, q, eq, s2)" using p g 4 by simp_all
    show ?thesis unfolding parseargs_go [OF p1 g1 4(3)]
    proof (cases "parseredirs b (add_arg (q, eq) c) s2")
      case (Inl e)
      then show "P c k s (ebind (parseredirs b (add_arg (q, eq) c) s2) (\<lambda>(c1, s3). parseargs b c1 (k + 1) s3))" using fail [OF p1 g1] by simp
    next
      case (Inr x)
      obtain c1 s3 where x: "x = (c1, s3)" by (cases x)
      have "MAXARGS - (k + 1) < MAXARGS - k" using 4(3) by simp
      then show "P c k s (ebind (parseredirs b (add_arg (q, eq) c) s2) (\<lambda>(c1, s3). parseargs b c1 (k + 1) s3))"
        using go [OF p1 g1, of c c1 s3] Inr x less by simp
    qed
  qed
qed

lemma parseback_rule:
  assumes stop: "\<And>c s s1. peek b s [38] = (False, s1) \<Longrightarrow> P c s (c, s1)"
    and go: "\<And>c s s1 R. peek b s [38] = (True, s1) \<Longrightarrow> P (Backcmd c) (next_token b s1) R \<Longrightarrow> P c s R"
  shows "P c s (parseback b c s)"
proof (induction "length b - s" arbitrary: c s rule: less_induct)
  case less
  obtain r s1 where p: "peek b s [38] = (r, s1)" by (cases "peek b s [38]")
  show ?case
  proof (cases r)
    case False
    then show ?thesis using p stop by (simp add: parseback.simps [of b c s])
  next
    case True
    then have p1: "peek b s [38] = (True, s1)" using p by simp
    have "s \<le> s1" "s1 < next_token b s1" "s1 < length b" using peek_symbol [OF p1] by (simp_all add: symbols_def)
    then have "length b - next_token b s1 < length b - s" by linarith
    then show ?thesis using go [OF p1 less] p1 by (simp add: parseback.simps [of b c s])
  qed
qed

lemma parseline_cases:
  assumes run: "parseline (Suc n) b s = Inr (c, s')"
  obtains c1 s1 c2 s2 where "parsepipe n b s = Inr (c1, s1)" "parseback b c1 s1 = (c2, s2)" "peek b s2 [59] = (False, s')" "c = c2"
  | c1 s1 c2 s2 s3 c3 where "parsepipe n b s = Inr (c1, s1)" "parseback b c1 s1 = (c2, s2)" "peek b s2 [59] = (True, s3)"
      "parseline n b (next_token b s3) = Inr (c3, s')" "c = Listcmd c2 c3"
proof -
  obtain c1 s1 where p: "parsepipe n b s = Inr (c1, s1)" using run by (cases "parsepipe n b s") auto
  obtain c2 s2 where k: "parseback b c1 s1 = (c2, s2)" by (cases "parseback b c1 s1")
  obtain r s3 where q: "peek b s2 [59] = (r, s3)" by (cases "peek b s2 [59]")
  show thesis
  proof (cases r)
    case True
    then show thesis using run that(2) [OF p k] p k q by (cases "parseline n b (next_token b s3)") auto
  qed (use run that(1) [OF p k] p k q in simp)
qed

lemma parsepipe_cases:
  assumes run: "parsepipe (Suc n) b s = Inr (c, s')"
  obtains s1 where "parseexec n b s = Inr (c, s1)" "peek b s1 [124] = (False, s')"
  | c1 s1 s2 c2 where "parseexec n b s = Inr (c1, s1)" "peek b s1 [124] = (True, s2)" "parsepipe n b (next_token b s2) = Inr (c2, s')" "c = Pipecmd c1 c2"
proof -
  obtain c1 s1 where p: "parseexec n b s = Inr (c1, s1)" using run by (cases "parseexec n b s") auto
  obtain r s2 where q: "peek b s1 [124] = (r, s2)" by (cases "peek b s1 [124]")
  show thesis
  proof (cases r)
    case True
    then show thesis using run that(2) [OF p] p q by (cases "parsepipe n b (next_token b s2)") auto
  qed (use run that(1) p q in simp)
qed

lemma parseexec_cases:
  assumes run: "parseexec (Suc n) b s = Inr (c, s')"
  obtains s1 where "peek b s [40] = (True, s1)" "parseblock n b s1 = Inr (c, s')"
  | s1 c1 s2 where "peek b s [40] = (False, s1)" "parseredirs b (Execcmd []) s1 = Inr (c1, s2)" "parseargs b c1 0 s2 = Inr (c, s')"
proof -
  obtain r s1 where q: "peek b s [40] = (r, s1)" by (cases "peek b s [40]")
  show thesis
  proof (cases r)
    case False
    then show thesis using run that(2) q by (cases "parseredirs b (Execcmd []) s1") auto
  qed (use run that(1) q in simp)
qed

lemma parseblock_cases:
  assumes run: "parseblock (Suc n) b s = Inr (c, s')"
  obtains s1 c1 s2 s3 where "peek b s [40] = (True, s1)" "parseline n b (next_token b s1) = Inr (c1, s2)" "peek b s2 [41] = (True, s3)"
    "parseredirs b c1 (next_token b s3) = Inr (c, s')"
proof -
  obtain r s1 where q: "peek b s [40] = (r, s1)" by (cases "peek b s [40]")
  then have r: "r" using run by (cases r) auto
  obtain c1 s2 where p: "parseline n b (next_token b s1) = Inr (c1, s2)" using run q r by (cases "parseline n b (next_token b s1)") auto
  obtain r3 s3 where t: "peek b s2 [41] = (r3, s3)" by (cases "peek b s2 [41]")
  then show thesis using run q r p that by (cases r3) auto
qed

subsection \<open>Termination\<close>

lemma parseredirs_le: "parseredirs b c s = Inr (c', s') \<Longrightarrow> s \<le> s'"
proof -
  have "\<forall>c' s'. parseredirs b c s = Inr (c', s') \<longrightarrow> s \<le> s'"
    by (rule parseredirs_rule [where P = "\<lambda>c s R. \<forall>c' s'. R = Inr (c', s') \<longrightarrow> s \<le> s'"]) (auto dest: peek_le)
  then show "parseredirs b c s = Inr (c', s') \<Longrightarrow> s \<le> s'" by blast
qed

lemma parseredirs_ends: "parseredirs b c s \<noteq> Inl Diverges"
  by (rule parseredirs_rule [where P = "\<lambda>c s R. R \<noteq> Inl Diverges"]) auto

lemma parseargs_le: "parseargs b c k s = Inr (c', s') \<Longrightarrow> s \<le> s'"
proof -
  have "\<forall>c' s'. parseargs b c k s = Inr (c', s') \<longrightarrow> s \<le> s'"
    by (rule parseargs_rule [where P = "\<lambda>c k s R. \<forall>c' s'. R = Inr (c', s') \<longrightarrow> s \<le> s'"])
      (auto dest: peek_le, (meson peek_le token_le parseredirs_le le_trans)+)
  then show "parseargs b c k s = Inr (c', s') \<Longrightarrow> s \<le> s'" by blast
qed

lemma parseargs_ends: "parseargs b c k s \<noteq> Inl Diverges"
  by (rule parseargs_rule [where P = "\<lambda>c k s R. R \<noteq> Inl Diverges"]) (auto simp: parseredirs_ends)

lemma parseback_le: "parseback b c s = (c', s') \<Longrightarrow> s \<le> s'"
proof -
  have "\<forall>c' s'. parseback b c s = (c', s') \<longrightarrow> s \<le> s'"
    by (rule parseback_rule [where P = "\<lambda>c s R. \<forall>c' s'. R = (c', s') \<longrightarrow> s \<le> s'"])
      (auto dest: peek_le, meson peek_le next_token_le le_trans)
  then show "parseback b c s = (c', s') \<Longrightarrow> s \<le> s'" by blast
qed

lemma parse_le:
  "(\<forall>s c s'. parseline n b s = Inr (c, s') \<longrightarrow> s \<le> s') \<and> (\<forall>s c s'. parsepipe n b s = Inr (c, s') \<longrightarrow> s \<le> s') \<and>
   (\<forall>s c s'. parseexec n b s = Inr (c, s') \<longrightarrow> s \<le> s') \<and> (\<forall>s c s'. parseblock n b s = Inr (c, s') \<longrightarrow> s \<le> s')"
proof (induction n)
  case (Suc n)
  note IH = Suc.IH [THEN conjunct1, rule_format] Suc.IH [THEN conjunct2, THEN conjunct1, rule_format]
    Suc.IH [THEN conjunct2, THEN conjunct2, THEN conjunct1, rule_format] Suc.IH [THEN conjunct2, THEN conjunct2, THEN conjunct2, rule_format]
  have "s \<le> s'" if "parseline (Suc n) b s = Inr (c, s')" for s c s'
    using that by (cases rule: parseline_cases) (meson IH(1,2) parseback_le peek_le next_token_le le_trans)+
  moreover have "s \<le> s'" if "parsepipe (Suc n) b s = Inr (c, s')" for s c s'
    using that by (cases rule: parsepipe_cases) (meson IH(2,3) peek_le next_token_le le_trans)+
  moreover have "s \<le> s'" if "parseexec (Suc n) b s = Inr (c, s')" for s c s'
    using that by (cases rule: parseexec_cases) (meson IH(4) peek_le parseredirs_le parseargs_le le_trans)+
  moreover have "s \<le> s'" if "parseblock (Suc n) b s = Inr (c, s')" for s c s'
    using that by (cases rule: parseblock_cases) (meson IH(1) peek_le next_token_le parseredirs_le le_trans)
  ultimately show ?case by blast
qed simp

lemma parse_ends:
  "(\<forall>s. 4 * (length b - s) + 4 \<le> n \<longrightarrow> parseline n b s \<noteq> Inl Diverges) \<and> (\<forall>s. 4 * (length b - s) + 3 \<le> n \<longrightarrow> parsepipe n b s \<noteq> Inl Diverges) \<and>
   (\<forall>s. 4 * (length b - s) + 2 \<le> n \<longrightarrow> parseexec n b s \<noteq> Inl Diverges) \<and> (\<forall>s. 4 * (length b - s) + 1 \<le> n \<longrightarrow> parseblock n b s \<noteq> Inl Diverges)"
proof (induction n)
  case (Suc n)
  note IH = Suc.IH [THEN conjunct1, rule_format] Suc.IH [THEN conjunct2, THEN conjunct1, rule_format]
    Suc.IH [THEN conjunct2, THEN conjunct2, THEN conjunct1, rule_format] Suc.IH [THEN conjunct2, THEN conjunct2, THEN conjunct2, rule_format]
  note le = parse_le [of n b, THEN conjunct2, THEN conjunct1, rule_format] parse_le [of n b, THEN conjunct2, THEN conjunct2, THEN conjunct1, rule_format]
  have room: "4 * (length b - next_token b s1) + 4 \<le> 4 * (length b - s)" if "peek b s0 toks = (True, s1)" "set toks \<subseteq> set symbols" "s \<le> s0" for s s0 s1 toks
    using peek_symbol [OF that(1,2)] that(3) by linarith
  have "parseline (Suc n) b s \<noteq> Inl Diverges" if f: "4 * (length b - s) + 4 \<le> Suc n" for s
  proof (cases "parsepipe n b s")
    case (Inl e)
    then show ?thesis using IH(2) [of s] f by auto
  next
    case (Inr x)
    obtain c1 s1 where p: "parsepipe n b s = Inr (c1, s1)" using Inr by (cases x) auto
    obtain c2 s2 where k: "parseback b c1 s1 = (c2, s2)" by (cases "parseback b c1 s1")
    obtain r s3 where q: "peek b s2 [59] = (r, s3)" by (cases "peek b s2 [59]")
    have s2: "s \<le> s2" using le(1) [OF p] parseback_le [OF k] by simp
    show ?thesis
    proof (cases r)
      case True
      have "parseline n b (next_token b s3) \<noteq> Inl Diverges" using room [of s2 "[59]" s3 s] q True s2 f by (intro IH(1)) (simp add: symbols_def)
      then show ?thesis using p k q True by (auto simp: ebind_def split: sum.splits)
    qed (use p k q in simp)
  qed
  moreover have "parsepipe (Suc n) b s \<noteq> Inl Diverges" if f: "4 * (length b - s) + 3 \<le> Suc n" for s
  proof (cases "parseexec n b s")
    case (Inl e)
    then show ?thesis using IH(3) [of s] f by auto
  next
    case (Inr x)
    obtain c1 s1 where p: "parseexec n b s = Inr (c1, s1)" using Inr by (cases x) auto
    obtain r s3 where q: "peek b s1 [124] = (r, s3)" by (cases "peek b s1 [124]")
    show ?thesis
    proof (cases r)
      case True
      have "parsepipe n b (next_token b s3) \<noteq> Inl Diverges" using room [of s1 "[124]" s3 s] q True le(2) [OF p] f by (intro IH(2)) (simp add: symbols_def)
      then show ?thesis using p q True by (auto simp: ebind_def split: sum.splits)
    qed (use p q in simp)
  qed
  moreover have "parseexec (Suc n) b s \<noteq> Inl Diverges" if f: "4 * (length b - s) + 2 \<le> Suc n" for s
  proof -
    obtain r s1 where q: "peek b s [40] = (r, s1)" by (cases "peek b s [40]")
    have "parseblock n b s1 \<noteq> Inl Diverges" using peek_le [OF q] f by (intro IH(4)) linarith
    moreover have "ebind (parseredirs b (Execcmd []) s1) (\<lambda>(ret, s2). parseargs b ret 0 s2) \<noteq> Inl Diverges"
      using parseredirs_ends parseargs_ends by (auto simp: ebind_def split: sum.splits)
    ultimately show ?thesis using q by (cases r) auto
  qed
  moreover have "parseblock (Suc n) b s \<noteq> Inl Diverges" if f: "4 * (length b - s) + 1 \<le> Suc n" for s
  proof -
    obtain r s1 where q: "peek b s [40] = (r, s1)" by (cases "peek b s [40]")
    show ?thesis
    proof (cases r)
      case True
      have "parseline n b (next_token b s1) \<noteq> Inl Diverges" using room [of s "[40]" s1 s] q True f by (intro IH(1)) (simp add: symbols_def)
      then show ?thesis using q True parseredirs_ends by (auto simp: ebind_def split: sum.splits prod.splits bool.splits)
    qed (use q in simp)
  qed
  ultimately show ?case by blast
qed simp

subsection \<open>The strings of a command\<close>

definition word_char :: "byte \<Rightarrow> bool" where
  "word_char c \<longleftrightarrow> c \<noteq> 0 \<and> \<not> among whitespace c \<and> \<not> among symbols c"

definition piece :: "byte list \<Rightarrow> nat \<times> nat \<Rightarrow> byte list" where
  "piece b t = take (snd t - fst t) (drop (fst t) b)"

definition cstring :: "byte list \<Rightarrow> nat \<times> nat \<Rightarrow> byte list" where
  "cstring B t = takeWhile (\<lambda>c. c \<noteq> 0) (drop (fst t) B)"

datatype scmd =
    SExec "byte list list"
  | SRedir scmd "byte list" uint32 nat
  | SPipe scmd scmd
  | SList scmd scmd
  | SBack scmd

fun strings :: "(nat \<times> nat \<Rightarrow> byte list) \<Rightarrow> cmd \<Rightarrow> scmd" where
  "strings f (Execcmd as) = SExec (map f as)"
| "strings f (Redircmd c q eq mode fd) = SRedir (strings f c) (f (q, eq)) mode fd"
| "strings f (Pipecmd l r) = SPipe (strings f l) (strings f r)"
| "strings f (Listcmd l r) = SList (strings f l) (strings f r)"
| "strings f (Backcmd c) = SBack (strings f c)"

fun cmd_tokens :: "cmd \<Rightarrow> (nat \<times> nat) list" where
  "cmd_tokens (Execcmd as) = as"
| "cmd_tokens (Redircmd c q eq mode fd) = cmd_tokens c @ [(q, eq)]"
| "cmd_tokens (Pipecmd l r) = cmd_tokens l @ cmd_tokens r"
| "cmd_tokens (Listcmd l r) = cmd_tokens l @ cmd_tokens r"
| "cmd_tokens (Backcmd c) = cmd_tokens c"

text \<open>A token is a maximal run of word characters.\<close>

definition ok_token :: "byte list \<Rightarrow> nat \<times> nat \<Rightarrow> bool" where
  "ok_token b t \<longleftrightarrow> fst t < snd t \<and> snd t \<le> length b \<and> (\<forall>i. fst t \<le> i \<longrightarrow> i < snd t \<longrightarrow> word_char (b ! i)) \<and> \<not> word_char (at b (snd t))"

definition cmd_ok :: "byte list \<Rightarrow> cmd \<Rightarrow> bool" where
  "cmd_ok b c \<longleftrightarrow> (\<forall>t \<in> set (cmd_tokens c). ok_token b t)"

lemma cmd_ok_simps [simp]:
  "cmd_ok b (Execcmd as) \<longleftrightarrow> (\<forall>t \<in> set as. ok_token b t)" "cmd_ok b (Redircmd c q eq mode fd) \<longleftrightarrow> cmd_ok b c \<and> ok_token b (q, eq)"
  "cmd_ok b (Pipecmd l r) \<longleftrightarrow> cmd_ok b l \<and> cmd_ok b r" "cmd_ok b (Listcmd l r) \<longleftrightarrow> cmd_ok b l \<and> cmd_ok b r" "cmd_ok b (Backcmd c) \<longleftrightarrow> cmd_ok b c"
  "cmd_ok b (redirect t c q eq) \<longleftrightarrow> cmd_ok b c \<and> ok_token b (q, eq)"
  by (auto simp: cmd_ok_def redirect_def)

lemma cmd_ok_add_arg: "cmd_ok b c \<Longrightarrow> ok_token b t \<Longrightarrow> cmd_ok b (add_arg t c)"
  by (induction t c rule: add_arg.induct) auto

lemma skipword_spec:
  "s \<le> length b \<Longrightarrow> skipword b s \<le> length b \<and> (\<forall>i. s \<le> i \<longrightarrow> i < skipword b s \<longrightarrow> \<not> among whitespace (at b i) \<and> \<not> among symbols (at b i)) \<and> \<not> word_char (at b (skipword b s))"
proof (induction b s rule: skipword.induct)
  case (1 b s)
  show ?case
  proof (cases "s < length b \<and> \<not> among whitespace (at b s) \<and> \<not> among symbols (at b s)")
    case True
    then have e: "skipword b s = skipword b (s + 1)" by (simp add: skipword.simps [of b s])
    have "\<not> among whitespace (at b i) \<and> \<not> among symbols (at b i)" if "s \<le> i" "i < skipword b (s + 1)" for i
      using 1(1) [OF True] True that by (cases "i = s") auto
    then show ?thesis using 1(1) [OF True] True by (simp add: e)
  next
    case False
    then have e: "skipword b s = s" by (simp only: skipword.simps [of b s] if_False)
    show ?thesis using False 1(2) by (auto simp: e word_char_def at_def)
  qed
qed

lemma gettoken_word:
  assumes g: "gettoken b s = (97, q, eq, s1)" and z: "0 \<notin> set b"
  shows "ok_token b (q, eq)"
proof -
  let ?q = "skipws b s"
  have c: "at b ?q \<noteq> 0" "at b ?q \<notin> {124, 40, 41, 59, 38, 60, 62}" "q = ?q" "eq = skipword b ?q"
    using g by (auto simp: gettoken_def Let_def split: if_splits)
  then have l: "?q < length b" using at_lt by blast
  have "s \<le> length b" using l skipws_le [of s b] by linarith
  then have w: "\<not> among whitespace (at b ?q)" using skipws_stop by blast
  have y: "\<not> among symbols (at b ?q)" using c(2) by (simp add: among_set symbols_def)
  have "skipword b ?q = skipword b (?q + 1)" using l w y by (simp add: skipword.simps [of b ?q])
  then have "q < eq" using c(3,4) skipword_le [of "?q + 1" b] by linarith
  moreover have "word_char (b ! i)" if "q \<le> i" "i < eq" for i
  proof -
    have "i < length b" using that skipword_spec [of ?q b] l c(4) by auto
    then have "b ! i \<in> set b" "at b i = b ! i" by (auto simp: at_def)
    then have "b ! i \<noteq> 0" "at b i = b ! i" using z by auto
    then show ?thesis using skipword_spec [of ?q b] l c(3,4) that by (auto simp: word_char_def)
  qed
  ultimately show ?thesis using skipword_spec [of ?q b] l c(3,4) by (auto simp: ok_token_def)
qed

lemma parseredirs_tokens:
  assumes "0 \<notin> set b" "cmd_ok b c" "parseredirs b c s = Inr (c', s')"
  shows "cmd_ok b c'"
proof -
  have "cmd_ok b c \<longrightarrow> (\<forall>c' s'. parseredirs b c s = Inr (c', s') \<longrightarrow> cmd_ok b c')"
    by (rule parseredirs_rule [where P = "\<lambda>c s R. cmd_ok b c \<longrightarrow> (\<forall>c' s'. R = Inr (c', s') \<longrightarrow> cmd_ok b c')"])
      (auto dest: gettoken_word [OF _ assms(1)])
  then show ?thesis using assms(2,3) by blast
qed

lemma parseargs_tokens:
  assumes "0 \<notin> set b" "cmd_ok b c" "parseargs b c k s = Inr (c', s')"
  shows "cmd_ok b c'"
proof -
  have "cmd_ok b c \<longrightarrow> (\<forall>c' s'. parseargs b c k s = Inr (c', s') \<longrightarrow> cmd_ok b c')"
  proof (rule parseargs_rule [where P = "\<lambda>c k s R. cmd_ok b c \<longrightarrow> (\<forall>c' s'. R = Inr (c', s') \<longrightarrow> cmd_ok b c')"])
    fix c k s s1 q eq s2 c1 s3 R
    assume a: "gettoken b s1 = (97, q, eq, s2)" "parseredirs b (add_arg (q, eq) c) s2 = Inr (c1, s3)" "cmd_ok b c1 \<longrightarrow> (\<forall>c' s'. R = Inr (c', s') \<longrightarrow> cmd_ok b c')"
    have "cmd_ok b c1" if "cmd_ok b c" using parseredirs_tokens [OF assms(1) cmd_ok_add_arg [OF that gettoken_word [OF a(1) assms(1)]] a(2)] .
    then show "cmd_ok b c \<longrightarrow> (\<forall>c' s'. R = Inr (c', s') \<longrightarrow> cmd_ok b c')" using a(3) by blast
  qed auto
  then show ?thesis using assms(2,3) by blast
qed

lemma parseback_tokens: "cmd_ok b c \<Longrightarrow> parseback b c s = (c', s') \<Longrightarrow> cmd_ok b c'"
proof -
  have "cmd_ok b c \<longrightarrow> (\<forall>c' s'. parseback b c s = (c', s') \<longrightarrow> cmd_ok b c')"
    by (rule parseback_rule [where P = "\<lambda>c s R. cmd_ok b c \<longrightarrow> (\<forall>c' s'. R = (c', s') \<longrightarrow> cmd_ok b c')"]) auto
  then show "cmd_ok b c \<Longrightarrow> parseback b c s = (c', s') \<Longrightarrow> cmd_ok b c'" by blast
qed

lemma parse_tokens:
  assumes z: "0 \<notin> set b"
  shows "(\<forall>s c s'. parseline n b s = Inr (c, s') \<longrightarrow> cmd_ok b c) \<and> (\<forall>s c s'. parsepipe n b s = Inr (c, s') \<longrightarrow> cmd_ok b c) \<and>
   (\<forall>s c s'. parseexec n b s = Inr (c, s') \<longrightarrow> cmd_ok b c) \<and> (\<forall>s c s'. parseblock n b s = Inr (c, s') \<longrightarrow> cmd_ok b c)"
proof (induction n)
  case (Suc n)
  note IH = Suc.IH [THEN conjunct1, rule_format] Suc.IH [THEN conjunct2, THEN conjunct1, rule_format]
    Suc.IH [THEN conjunct2, THEN conjunct2, THEN conjunct1, rule_format] Suc.IH [THEN conjunct2, THEN conjunct2, THEN conjunct2, rule_format]
  have ex: "cmd_ok b (Execcmd [])" by simp
  have "cmd_ok b c" if "parseline (Suc n) b s = Inr (c, s')" for s c s'
    using that by (cases rule: parseline_cases) (auto dest: IH(1,2) parseback_tokens)
  moreover have "cmd_ok b c" if "parsepipe (Suc n) b s = Inr (c, s')" for s c s'
    using that by (cases rule: parsepipe_cases) (auto dest: IH(2,3))
  moreover have "cmd_ok b c" if "parseexec (Suc n) b s = Inr (c, s')" for s c s'
    using that by (cases rule: parseexec_cases) (meson IH(4) parseargs_tokens [OF z] parseredirs_tokens [OF z ex])+
  moreover have "cmd_ok b c" if "parseblock (Suc n) b s = Inr (c, s')" for s c s'
    using that by (cases rule: parseblock_cases) (meson IH(1) parseredirs_tokens [OF z])
  ultimately show ?case by blast
qed simp

lemma nulterminate_fold: "nulterminate c B = fold (\<lambda>(q, eq) B. B[eq := 0]) (cmd_tokens c) B"
  by (induction c B rule: nulterminate.induct) auto

lemma fold_zeros: "length (fold (\<lambda>(q, eq) B. B[eq := 0]) ts B) = length B"
  "i < length B \<Longrightarrow> fold (\<lambda>(q, eq) B. B[eq := 0]) ts B ! i = (if i \<in> snd ` set ts then 0 else B ! i)"
  by (induction ts arbitrary: B) (auto simp: nth_list_update, force)

lemma nulterminate_cstring:
  assumes ok: "cmd_ok b c" and t: "t \<in> set (cmd_tokens c)"
  shows "cstring (nulterminate c (b @ [0])) t = piece b t"
proof -
  let ?B = "nulterminate c (b @ [0])"
  obtain q eq where qe: "t = (q, eq)" by (cases t)
  have o: "q < eq" "eq \<le> length b" "\<And>i. q \<le> i \<Longrightarrow> i < eq \<Longrightarrow> word_char (b ! i)" using ok t qe by (auto simp: cmd_ok_def ok_token_def)
  have len: "length ?B = length b + 1" by (simp add: nulterminate_fold fold_zeros(1))
  have zero: "?B ! eq = 0" using t o(2) qe by (force simp: nulterminate_fold fold_zeros(2))
  have same: "?B ! i = b ! i" if "q \<le> i" "i < eq" for i
  proof -
    have "i < length b" using that o(2) by simp
    have "i \<noteq> snd u" if "u \<in> set (cmd_tokens c)" for u
    proof
      assume "i = snd u"
      then have "\<not> word_char (at b i)" using ok that by (auto simp: cmd_ok_def ok_token_def)
      then show False using o(3) [OF \<open>q \<le> i\<close> \<open>i < eq\<close>] \<open>i < length b\<close> by (simp add: at_def)
    qed
    then have "i \<notin> snd ` set (cmd_tokens c)" by blast
    then show ?thesis using \<open>i < length b\<close> by (simp add: nulterminate_fold fold_zeros(2) nth_append)
  qed
  have sl: "take (eq - q) (drop q ?B) = piece b (q, eq)"
    using o len same by (intro nth_equalityI) (auto simp: piece_def)
  have "drop q ?B = piece b (q, eq) @ 0 # drop (eq + 1) ?B"
  proof -
    have "drop (eq - q) (drop q ?B) = drop eq ?B" using o(1) by simp
    also have "\<dots> = ?B ! eq # drop (Suc eq) ?B" using o(2) len by (intro Cons_nth_drop_Suc [symmetric]) simp
    finally have e: "drop (eq - q) (drop q ?B) = 0 # drop (eq + 1) ?B" using zero by simp
    have "drop q ?B = take (eq - q) (drop q ?B) @ drop (eq - q) (drop q ?B)" by (rule append_take_drop_id [symmetric])
    then show ?thesis by (simp only: sl e)
  qed
  moreover have "\<forall>x \<in> set (piece b (q, eq)). x \<noteq> 0"
    using o by (auto simp: piece_def in_set_conv_nth word_char_def)
  ultimately show ?thesis by (simp add: cstring_def qe takeWhile_append)
qed

lemma strings_cong: "(\<And>t. t \<in> set (cmd_tokens c) \<Longrightarrow> f t = g t) \<Longrightarrow> strings f c = strings g c"
  by (induction c) auto

lemma parsecmd_Inr:
  assumes "parsecmd b = Inr (c, B)" "0 \<notin> set b"
  shows "strings (cstring B) c = strings (piece b) c"
proof -
  obtain s where p: "parseline (4 * length b + 4) b 0 = Inr (c, s)" "B = nulterminate c (b @ [0])"
    using assms(1) by (cases "parseline (4 * length b + 4) b 0") (auto simp: parsecmd_def split: if_splits)
  then have "cmd_ok b c" using parse_tokens [OF assms(2)] by blast
  then show ?thesis unfolding p(2) by (intro strings_cong nulterminate_cstring)
qed


subsection \<open>Text and tokens\<close>

definition is_word :: "byte list \<Rightarrow> bool" where
  "is_word w \<longleftrightarrow> w \<noteq> [] \<and> (\<forall>c \<in> set w. word_char c)"

definition sym_tokens :: "byte list list" where
  "sym_tokens = [[60], [62], [62, 62], [124], [38], [59], [40], [41]]"

definition tok_ok :: "byte list \<Rightarrow> bool" where
  "tok_ok t \<longleftrightarrow> is_word t \<or> t \<in> set sym_tokens"

definition text_of :: "byte list list \<Rightarrow> byte list" where
  "text_of ts = concat (map (\<lambda>t. t @ [32]) ts)"

text \<open>The rest of the line from position \<open>s\<close> on consists of the given tokens, each followed by a space.\<close>

definition reads :: "byte list \<Rightarrow> nat \<Rightarrow> byte list list \<Rightarrow> bool" where
  "reads b s ts \<longleftrightarrow> drop s b = text_of ts \<and> s \<le> length b \<and> (\<forall>t \<in> set ts. tok_ok t)"

definition kind :: "byte list \<Rightarrow> byte" where
  "kind t = (if is_word t then 97 else if t = [62, 62] then 43 else hd t)"

lemma readsD_at:
  assumes "reads b s (t # ts)" "i \<le> length t"
  shows "at b (s + i) = (t @ [32]) ! i" "s + length t < length b"
proof -
  have d: "drop s b = (t @ [32]) @ text_of ts" using assms(1) by (simp add: reads_def text_of_def)
  then have l: "length b - s = length t + 1 + length (text_of ts)" by (metis length_append length_drop length_append_singleton Suc_eq_plus1)
  then show lt: "s + length t < length b" by linarith
  have "b ! (s + i) = drop s b ! i" using lt assms(2) by simp
  then show "at b (s + i) = (t @ [32]) ! i" using lt assms(2) by (simp add: at_def d nth_append)
qed

lemma reads_next: "reads b s (t # ts) \<Longrightarrow> reads b (s + length t + 1) ts"
proof -
  assume r: "reads b s (t # ts)"
  have "drop (s + length t + 1) b = drop (length t + 1) (drop s b)" by (simp add: add.commute add.left_commute)
  also have "\<dots> = text_of ts" using r by (simp add: reads_def text_of_def)
  finally show ?thesis using r readsD_at(2) [OF r, of 0] by (simp add: reads_def)
qed

lemma reads_end: "reads b s [] \<Longrightarrow> s = length b"
  by (auto simp: reads_def text_of_def)

lemma hd_char:
  assumes "tok_ok t"
  shows "t \<noteq> []" "\<not> among whitespace (hd t)" "hd t \<noteq> 0"
proof -
  have "t \<noteq> [] \<and> \<not> among whitespace (hd t) \<and> hd t \<noteq> 0"
  proof (cases "is_word t")
    case True
    then have "t \<noteq> []" "word_char (hd t)" by (simp_all add: is_word_def)
    then show ?thesis by (simp add: word_char_def)
  next
    case False
    then have "t \<in> set sym_tokens" using assms by (simp add: tok_ok_def)
    then consider "t = [60]" | "t = [62]" | "t = [62, 62]" | "t = [124]" | "t = [38]" | "t = [59]" | "t = [40]" | "t = [41]"
      by (simp add: sym_tokens_def) blast
    then show ?thesis by cases (simp_all add: among_def whitespace_def)
  qed
  then show "t \<noteq> []" "\<not> among whitespace (hd t)" "hd t \<noteq> 0" by simp_all
qed

lemma reads_hd:
  assumes "reads b s (t # ts)"
  shows "at b s = hd t"
proof -
  have "t \<noteq> []" using assms hd_char(1) by (simp add: reads_def)
  then show ?thesis using readsD_at(1) [OF assms, of 0] by (simp add: nth_append hd_conv_nth)
qed

lemma skipws_stay: "\<not> among whitespace (at b s) \<Longrightarrow> skipws b s = s"
  by (subst skipws.simps) simp

lemma reads_skipws:
  assumes "reads b s ts"
  shows "skipws b s = s"
proof (rule skipws_stay, cases ts)
  case Nil
  then have "at b s = 0" using reads_end [of b s] assms by (simp add: at_def)
  then show "\<not> among whitespace (at b s)" by (simp add: among_def whitespace_def)
next
  case (Cons t ts')
  then have "at b s = hd t" "tok_ok t" using reads_hd [of b s t ts'] assms by (simp_all add: reads_def)
  then show "\<not> among whitespace (at b s)" using hd_char(2) [of t] by simp
qed

lemma reads_skip_space: "reads b s (t # ts) \<Longrightarrow> skipws b (s + length t) = s + length t + 1"
proof -
  assume r: "reads b s (t # ts)"
  have "at b (s + length t) = 32" "s + length t < length b" using readsD_at [OF r le_refl] by simp_all
  moreover have "among whitespace 32" by (simp add: among_def whitespace_def)
  ultimately have "skipws b (s + length t) = skipws b (s + length t + 1)" by (simp add: skipws.simps [of b "s + length t"])
  then show ?thesis using reads_skipws [OF reads_next [OF r]] by simp
qed

lemma peek_reads:
  assumes "reads b s ts" "0 \<notin> set toks"
  shows "peek b s toks = (case ts of [] \<Rightarrow> False | t # _ \<Rightarrow> hd t \<in> set toks, s)"
proof (cases ts)
  case Nil
  then show ?thesis using reads_skipws [OF assms(1)] reads_end [of b s] assms(1) by (simp add: peek_def at_def)
next
  case (Cons t ts')
  then have "tok_ok t" using assms(1) by (simp add: reads_def)
  then show ?thesis using Cons reads_skipws [OF assms(1)] reads_hd [of b s t ts'] assms hd_char(3) [of t] by (simp add: peek_def among_set)
qed

lemma skipword_all:
  assumes "\<And>i. i < n \<Longrightarrow> s + i < length b \<and> \<not> among whitespace (at b (s + i)) \<and> \<not> among symbols (at b (s + i))"
  shows "skipword b s = skipword b (s + n)"
  using assms
proof (induction n arbitrary: s)
  case (Suc n)
  have "skipword b s = skipword b (s + 1)" using Suc.prems [of 0] by (simp add: skipword.simps [of b s])
  also have "\<dots> = skipword b (s + 1 + n)" using Suc.prems [of "Suc _"] by (intro Suc.IH) simp
  finally show ?case by simp
qed simp

lemma reads_skipword:
  assumes r: "reads b s (t # ts)" and w: "is_word t"
  shows "skipword b s = s + length t"
proof -
  have "s + i < length b \<and> \<not> among whitespace (at b (s + i)) \<and> \<not> among symbols (at b (s + i))" if "i < length t" for i
  proof -
    have "word_char (t ! i)" using w that by (simp add: is_word_def)
    then show ?thesis using readsD_at [OF r, of i] that by (simp add: word_char_def nth_append)
  qed
  then have "skipword b s = skipword b (s + length t)" by (rule skipword_all)
  moreover have "at b (s + length t) = 32" using readsD_at(1) [OF r le_refl] by simp
  moreover have "among whitespace 32" by (simp add: among_def whitespace_def)
  ultimately have "skipword b (s + length t) = s + length t" by (subst skipword.simps) simp
  then show ?thesis using \<open>skipword b s = skipword b (s + length t)\<close> by simp
qed

lemma gettoken_reads:
  assumes r: "reads b s (t # ts)"
  shows "gettoken b s = (kind t, s, s + length t, s + length t + 1)"
proof -
  note sp = reads_skip_space [OF r] and q = reads_skipws [OF r] and h = reads_hd [OF r]
  show ?thesis
  proof (cases "is_word t")
    case True
    then have c: "word_char (hd t)" by (auto simp: is_word_def)
    then have "hd t \<noteq> 0" "hd t \<notin> {124, 40, 41, 59, 38, 60, 62}" by (auto simp: word_char_def among_set symbols_def)
    then show ?thesis using True sp q h reads_skipword [OF r True] by (simp add: gettoken_def kind_def Let_def)
  next
    case False
    then have "t \<in> set sym_tokens" using r by (simp add: reads_def tok_ok_def)
    moreover have "at b (s + 1) = 32" if "length t = 1" using readsD_at(1) [OF r, of 1] that by (simp add: nth_append)
    moreover have "at b (s + 1) = t ! 1" if "length t = 2" using readsD_at(1) [OF r, of 1] that by (simp add: nth_append)
    ultimately show ?thesis using False sp q h by (auto simp: gettoken_def kind_def Let_def sym_tokens_def)
  qed
qed

lemma gettoken_reads_end: "reads b s [] \<Longrightarrow> gettoken b s = (0, s, s, s)"
  using reads_skipws [of b s "[]"] reads_end [of b s] by (simp add: gettoken_def at_def Let_def)

lemma next_token_reads: "reads b s (t # ts) \<Longrightarrow> next_token b s = s + length t + 1"
  by (simp add: next_token_def gettoken_reads)

lemma piece_reads: "reads b s (t # ts) \<Longrightarrow> piece b (s, s + length t) = t"
  by (simp add: piece_def reads_def text_of_def)

lemma kind_word: "is_word w \<Longrightarrow> kind w = 97"
  by (simp add: kind_def)

lemma reads_nonzero:
  assumes "\<forall>t \<in> set ts. tok_ok t"
  shows "0 \<notin> set (text_of ts)"
  using assms by (auto simp: text_of_def tok_ok_def is_word_def word_char_def sym_tokens_def)



subsection \<open>A grammar of command lines\<close>

datatype rd = In "byte list" | Out "byte list" | App "byte list"

datatype sline = Last spipe nat | Seq spipe nat sline
  and spipe = One sexec | More sexec spipe
  and sexec = Simple "rd list" "(byte list \<times> rd list) list" | Block sline "rd list"

fun rd_word :: "rd \<Rightarrow> byte list" where
  "rd_word (In w) = w" | "rd_word (Out w) = w" | "rd_word (App w) = w"

fun rd_toks :: "rd \<Rightarrow> byte list list" where
  "rd_toks (In w) = [[60], w]" | "rd_toks (Out w) = [[62], w]" | "rd_toks (App w) = [[62, 62], w]"

fun rd_meaning :: "scmd \<Rightarrow> rd \<Rightarrow> scmd" where
  "rd_meaning c (In w) = SRedir c w O_RDONLY 0"
| "rd_meaning c (Out w) = SRedir c w (O_WRONLY OR O_CREATE) 1"
| "rd_meaning c (App w) = SRedir c w (O_WRONLY OR O_CREATE) 1"

definition rds_toks :: "rd list \<Rightarrow> byte list list" where
  "rds_toks rs = concat (map rd_toks rs)"

definition args_toks :: "(byte list \<times> rd list) list \<Rightarrow> byte list list" where
  "args_toks as = concat (map (\<lambda>(w, rs). w # rds_toks rs) as)"

primrec line_toks :: "sline \<Rightarrow> byte list list" and pipe_toks :: "spipe \<Rightarrow> byte list list" and exec_toks :: "sexec \<Rightarrow> byte list list" where
  "line_toks (Last p k) = pipe_toks p @ replicate k [38]"
| "line_toks (Seq p k l) = pipe_toks p @ replicate k [38] @ [59] # line_toks l"
| "pipe_toks (One e) = exec_toks e"
| "pipe_toks (More e p) = exec_toks e @ [124] # pipe_toks p"
| "exec_toks (Simple rs as) = rds_toks rs @ args_toks as"
| "exec_toks (Block l rs) = [40] # line_toks l @ [41] # rds_toks rs"

text \<open>What the line asks for: an argument list inside its redirections in the order of the line, the last one
  outermost, wherever they stand between the arguments.\<close>

primrec line_meaning :: "sline \<Rightarrow> scmd" and pipe_meaning :: "spipe \<Rightarrow> scmd" and exec_meaning :: "sexec \<Rightarrow> scmd" where
  "line_meaning (Last p k) = (SBack ^^ k) (pipe_meaning p)"
| "line_meaning (Seq p k l) = SList ((SBack ^^ k) (pipe_meaning p)) (line_meaning l)"
| "pipe_meaning (One e) = exec_meaning e"
| "pipe_meaning (More e p) = SPipe (exec_meaning e) (pipe_meaning p)"
| "exec_meaning (Simple rs as) = foldl rd_meaning (SExec (map fst as)) (rs @ concat (map snd as))"
| "exec_meaning (Block l rs) = foldl rd_meaning (line_meaning l) rs"

definition rds_ok :: "rd list \<Rightarrow> bool" where
  "rds_ok rs \<longleftrightarrow> (\<forall>r \<in> set rs. is_word (rd_word r))"

primrec line_ok :: "sline \<Rightarrow> bool" and pipe_ok :: "spipe \<Rightarrow> bool" and exec_ok :: "sexec \<Rightarrow> bool" where
  "line_ok (Last p k) \<longleftrightarrow> pipe_ok p"
| "line_ok (Seq p k l) \<longleftrightarrow> pipe_ok p \<and> line_ok l"
| "pipe_ok (One e) \<longleftrightarrow> exec_ok e"
| "pipe_ok (More e p) \<longleftrightarrow> exec_ok e \<and> pipe_ok p"
| "exec_ok (Simple rs as) \<longleftrightarrow> rds_ok rs \<and> length as < MAXARGS \<and> (\<forall>(w, rs) \<in> set as. is_word w \<and> rds_ok rs)"
| "exec_ok (Block l rs) \<longleftrightarrow> line_ok l \<and> rds_ok rs"

definition parses :: "byte list \<Rightarrow> fault + cmd \<times> nat \<Rightarrow> byte list list \<Rightarrow> scmd \<Rightarrow> bool" where
  "parses b R ts m \<longleftrightarrow> (\<exists>c s. R = Inr (c, s) \<and> reads b s ts \<and> strings (piece b) c = m)"

text \<open>The first byte of the first token is, or is not, among the given ones.\<close>

definition starts :: "byte set \<Rightarrow> byte list list \<Rightarrow> bool" where
  "starts S ts \<longleftrightarrow> (case ts of [] \<Rightarrow> False | t # _ \<Rightarrow> hd t \<in> S)"

lemma starts_simps [simp]: "\<not> starts S []" "starts S (t # ts) \<longleftrightarrow> hd t \<in> S"
  by (simp_all add: starts_def)

lemma peek_starts: "reads b s ts \<Longrightarrow> 0 \<notin> set toks \<Longrightarrow> peek b s toks = (starts (set toks) ts, s)"
  using peek_reads [of b s ts toks] by (cases ts) (auto simp: starts_def)

lemma is_word_hd: "is_word w \<Longrightarrow> hd w \<notin> {60, 124, 62, 38, 59, 40, 41}"
proof -
  assume "is_word w"
  then have "word_char (hd w)" by (simp add: is_word_def)
  then show ?thesis by (simp add: word_char_def among_set symbols_def)
qed

lemma parsesI: "R = Inr (c, s) \<Longrightarrow> reads b s ts \<Longrightarrow> strings (piece b) c = m \<Longrightarrow> parses b R ts m"
  by (auto simp: parses_def)

lemma rds_starts: "\<not> starts (set toks) ts \<Longrightarrow> 60 \<notin> set toks \<Longrightarrow> 62 \<notin> set toks \<Longrightarrow> \<not> starts (set toks) (rds_toks rs @ ts)"
proof (cases rs)
  case (Cons r rs')
  then show "60 \<notin> set toks \<Longrightarrow> 62 \<notin> set toks \<Longrightarrow> ?thesis" by (cases r) (simp_all add: rds_toks_def)
qed (simp add: rds_toks_def)

lemma args_starts:
  assumes "\<not> starts S ts" "S \<subseteq> {60, 124, 62, 38, 59, 40, 41}" "\<forall>(w, rs) \<in> set as. is_word w \<and> rds_ok rs"
  shows "\<not> starts S (args_toks as @ ts)"
proof (cases as)
  case (Cons a as')
  obtain w rs where a: "a = (w, rs)" by (cases a)
  then have "is_word w" using assms(3) Cons by simp
  then have "hd w \<notin> S" using is_word_hd assms(2) by blast
  then show ?thesis by (simp add: Cons a args_toks_def)
qed (simp add: args_toks_def assms(1))

lemma parseredirs_on:
  assumes "rds_ok rs" "reads b s (rds_toks rs @ ts)" "\<not> starts {60, 62} ts"
  shows "parses b (parseredirs b c s) ts (foldl rd_meaning (strings (piece b) c) rs)"
  using assms
proof (induction rs arbitrary: c s)
  case Nil
  then have "peek b s [60, 62] = (False, s)" by (simp add: peek_starts rds_toks_def)
  then have "parseredirs b c s = Inr (c, s)" by (simp add: parseredirs.simps [of b c s])
  then show ?case using Nil by (intro parsesI) (simp_all add: rds_toks_def)
next
  case (Cons r rs)
  define w t where "w = rd_word r" and "t = (case r of In _ \<Rightarrow> [60] | Out _ \<Rightarrow> [62] | App _ \<Rightarrow> [62, 62 :: byte])"
  have rt: "rd_toks r = [t, w]" by (cases r) (simp_all add: w_def t_def)
  have w: "is_word w" using Cons.prems(1) by (simp add: rds_ok_def w_def)
  have r0: "reads b s (t # w # rds_toks rs @ ts)" using Cons.prems(2) by (simp add: rds_toks_def rt)
  define s1 where "s1 = s + length t + 1"
  have r1: "reads b s1 (w # rds_toks rs @ ts)" using reads_next [OF r0] by (simp add: s1_def)
  define s2 where "s2 = s1 + length w + 1"
  have r2: "reads b s2 (rds_toks rs @ ts)" using reads_next [OF r1] by (simp add: s2_def)
  have pk: "peek b s [60, 62] = (True, s)" using r0 by (cases r) (simp_all add: peek_starts t_def)
  have n1: "next_token b s = s1" using next_token_reads [OF r0] by (simp add: s1_def)
  have g1: "gettoken b s1 = (97, s1, s1 + length w, s2)" using gettoken_reads [OF r1] w by (simp add: kind_word s2_def)
  have g0: "fst (gettoken b s) = 60 \<longleftrightarrow> t = [60]" using gettoken_reads [OF r0]
    by (cases r) (simp_all add: t_def kind_def is_word_def word_char_def among_def symbols_def)
  define c' where "c' = (if t = [60] then Redircmd c s1 (s1 + length w) O_RDONLY 0 else Redircmd c s1 (s1 + length w) (O_WRONLY OR O_CREATE) 1)"
  have "parseredirs b c s = parseredirs b c' s2"
    by (subst parseredirs.simps) (simp add: pk n1 g1 g0 c'_def Let_def)
  moreover have "strings (piece b) c' = rd_meaning (strings (piece b) c) r"
    using piece_reads [OF r1] by (cases r) (simp_all add: c'_def t_def w_def)
  moreover have "parses b (parseredirs b c' s2) ts (foldl rd_meaning (strings (piece b) c') rs)"
    using Cons.prems(1,3) r2 by (intro Cons.IH) (simp_all add: rds_ok_def)
  ultimately show ?case by simp
qed

lemma strings_add_arg:
  "strings f c = foldl rd_meaning (SExec ws) rs \<Longrightarrow> strings f (add_arg a c) = foldl rd_meaning (SExec (ws @ [f a])) rs"
proof (induction rs arbitrary: c rule: rev_induct)
  case Nil
  then show ?case by (cases c) simp_all
next
  case (snoc r rs)
  then obtain c1 q eq mode fd where c: "c = Redircmd c1 q eq mode fd" by (cases c; cases r) simp_all
  with snoc.prems have "strings f c1 = foldl rd_meaning (SExec ws) rs" by (cases r) simp_all
  from snoc.IH [OF this] show ?case using snoc.prems by (cases r) (simp_all add: c)
qed


lemma parseargs_on:
  assumes "\<forall>(w, rs) \<in> set as. is_word w \<and> rds_ok rs" "reads b s (args_toks as @ ts)" "ts = [] \<or> starts {124, 41, 38, 59} ts"
    "k + length as < MAXARGS" "strings (piece b) c = foldl rd_meaning (SExec ws) rs0"
  shows "parses b (parseargs b c k s) ts (foldl rd_meaning (SExec (ws @ map fst as)) (rs0 @ concat (map snd as)))"
  using assms
proof (induction as arbitrary: c k s ws rs0)
  case Nil
  have r: "reads b s ts" using Nil.prems(2) by (simp add: args_toks_def)
  have p: "peek b s [124, 41, 38, 59] = (ts \<noteq> [], s)" using r Nil.prems(3) by (auto simp: peek_starts)
  have "parseargs b c k s = Inr (c, s)"
  proof (cases "ts = []")
    case True
    then show ?thesis using p gettoken_reads_end [of b s] r by (subst parseargs.simps) simp
  next
    case False
    then show ?thesis using p by (subst parseargs.simps) simp
  qed
  then show ?case using r Nil.prems(5) by (intro parsesI) simp_all
next
  case (Cons a as)
  obtain w rs where a: "a = (w, rs)" by (cases a)
  have w: "is_word w" "rds_ok rs" using Cons.prems(1) by (simp_all add: a)
  have as: "\<forall>(w, rs) \<in> set as. is_word w \<and> rds_ok rs" using Cons.prems(1) by simp
  have r0: "reads b s (w # rds_toks rs @ args_toks as @ ts)" using Cons.prems(2) by (simp add: a args_toks_def)
  define s1 where "s1 = s + length w + 1"
  have r1: "reads b s1 (rds_toks rs @ args_toks as @ ts)" using reads_next [OF r0] by (simp add: s1_def)
  have p: "peek b s [124, 41, 38, 59] = (False, s)" using is_word_hd [OF w(1)] by (simp add: peek_starts [OF r0])
  have g: "gettoken b s = (97, s, s + length w, s1)" using gettoken_reads [OF r0] w(1) by (simp add: kind_word s1_def)
  have nt: "\<not> starts {60, 62} (args_toks as @ ts)"
  proof (rule args_starts [OF _ _ as])
    show "\<not> starts {60, 62} ts" using Cons.prems(3) by (cases ts) auto
  qed simp
  have e: "strings (piece b) (add_arg (s, s + length w) c) = foldl rd_meaning (SExec (ws @ [w])) rs0"
    using strings_add_arg [OF Cons.prems(5), of "(s, s + length w)"] piece_reads [OF r0] by simp
  obtain c1 s2 where q: "parseredirs b (add_arg (s, s + length w) c) s1 = Inr (c1, s2)" "reads b s2 (args_toks as @ ts)"
    "strings (piece b) c1 = foldl rd_meaning (SExec (ws @ [w])) (rs0 @ rs)"
    using parseredirs_on [OF w(2) r1 nt, of "add_arg (s, s + length w) c"] by (auto simp: parses_def e)
  have "parseargs b c k s = parseargs b c1 (k + 1) s2"
    using Cons.prems(4) by (subst parseargs.simps) (simp add: p g q(1))
  moreover have "parses b (parseargs b c1 (k + 1) s2) ts (foldl rd_meaning (SExec ((ws @ [w]) @ map fst as)) ((rs0 @ rs) @ concat (map snd as)))"
    using Cons.prems(3,4) as q(2,3) by (intro Cons.IH) simp_all
  ultimately show ?case by (simp add: a)
qed

lemma parseback_on:
  assumes "reads b s (replicate k [38] @ ts)" "\<not> starts {38} ts"
  shows "\<exists>c' s'. parseback b c s = (c', s') \<and> reads b s' ts \<and> strings (piece b) c' = (SBack ^^ k) (strings (piece b) c)"
  using assms
proof (induction k arbitrary: c s)
  case 0
  then have "peek b s [38] = (False, s)" by (simp add: peek_starts)
  then show ?case using 0 by (simp add: parseback.simps [of b c s])
next
  case (Suc k)
  have r0: "reads b s ([38] # replicate k [38] @ ts)" using Suc.prems(1) by simp
  have "peek b s [38] = (True, s)" by (simp add: peek_starts [OF r0])
  then have "parseback b c s = parseback b (Backcmd c) (s + 2)" using next_token_reads [OF r0] by (subst parseback.simps) simp
  moreover have "\<exists>c' s'. parseback b (Backcmd c) (s + 2) = (c', s') \<and> reads b s' ts \<and> strings (piece b) c' = (SBack ^^ k) (strings (piece b) (Backcmd c))"
    using reads_next [OF r0] Suc.prems(2) by (intro Suc.IH) simp_all
  ultimately show ?case by (simp add: funpow_swap1)
qed


lemma parseline_last:
  assumes "parses b (parsepipe m b s) (replicate k [38] @ ts) p" "ts = [] \<or> starts {41} ts"
  shows "parses b (parseline (Suc m) b s) ts ((SBack ^^ k) p)"
proof -
  obtain c s1 where a: "parsepipe m b s = Inr (c, s1)" "reads b s1 (replicate k [38] @ ts)" "strings (piece b) c = p"
    using assms(1) by (auto simp: parses_def)
  have ns: "\<not> starts {38} ts" "\<not> starts {59} ts" using assms(2) by (cases ts; auto)+
  obtain c2 s2 where k: "parseback b c s1 = (c2, s2)" "reads b s2 ts" "strings (piece b) c2 = (SBack ^^ k) p"
    using parseback_on [OF a(2) ns(1), of c] a(3) by auto
  have "peek b s2 [59] = (False, s2)" using ns(2) by (simp add: peek_starts [OF k(2)])
  then show ?thesis using a(1) k by (intro parsesI) simp_all
qed

lemma parseline_seq:
  assumes "parses b (parsepipe m b s) (replicate k [38] @ [59] # us) p"
    "\<And>s1. s < s1 \<Longrightarrow> s1 \<le> length b \<Longrightarrow> reads b s1 us \<Longrightarrow> parses b (parseline m b s1) ts l"
  shows "parses b (parseline (Suc m) b s) ts (SList ((SBack ^^ k) p) l)"
proof -
  obtain c s1 where a: "parsepipe m b s = Inr (c, s1)" "reads b s1 (replicate k [38] @ [59] # us)" "strings (piece b) c = p"
    using assms(1) by (auto simp: parses_def)
  have ns: "\<not> starts {38} ([59] # us)" by simp
  obtain c2 s2 where k: "parseback b c s1 = (c2, s2)" "reads b s2 ([59] # us)" "strings (piece b) c2 = (SBack ^^ k) p"
    using parseback_on [OF a(2) ns, of c] a(3) by auto
  have pk: "peek b s2 [59] = (True, s2)" by (simp add: peek_starts [OF k(2)])
  have nt: "next_token b s2 = s2 + 2" using next_token_reads [OF k(2)] by simp
  have "s \<le> s2" using parse_le [of m b, THEN conjunct2, THEN conjunct1, rule_format, OF a(1)] parseback_le [OF k(1)] by simp
  moreover have r: "reads b (s2 + 2) us" using reads_next [OF k(2)] by simp
  ultimately have "parses b (parseline m b (s2 + 2)) ts l" by (intro assms(2)) (simp_all add: reads_def)
  then show ?thesis using a(1) k pk nt by (auto simp: parses_def)
qed

lemma parsepipe_one:
  assumes "parses b (parseexec m b s) ts e" "\<not> starts {124} ts"
  shows "parses b (parsepipe (Suc m) b s) ts e"
proof -
  obtain c s1 where a: "parseexec m b s = Inr (c, s1)" "reads b s1 ts" "strings (piece b) c = e"
    using assms(1) by (auto simp: parses_def)
  then show ?thesis using assms(2) by (intro parsesI) (simp_all add: peek_starts [OF a(2)])
qed

lemma parsepipe_more:
  assumes "parses b (parseexec m b s) ([124] # us) e"
    "\<And>s1. s < s1 \<Longrightarrow> s1 \<le> length b \<Longrightarrow> reads b s1 us \<Longrightarrow> parses b (parsepipe m b s1) ts p"
  shows "parses b (parsepipe (Suc m) b s) ts (SPipe e p)"
proof -
  obtain c s1 where a: "parseexec m b s = Inr (c, s1)" "reads b s1 ([124] # us)" "strings (piece b) c = e"
    using assms(1) by (auto simp: parses_def)
  have pk: "peek b s1 [124] = (True, s1)" by (simp add: peek_starts [OF a(2)])
  have nt: "next_token b s1 = s1 + 2" using next_token_reads [OF a(2)] by simp
  have "s \<le> s1" using parse_le [of m b, THEN conjunct2, THEN conjunct2, THEN conjunct1, rule_format, OF a(1)] .
  moreover have r: "reads b (s1 + 2) us" using reads_next [OF a(2)] by simp
  ultimately have "parses b (parsepipe m b (s1 + 2)) ts p" by (intro assms(2)) (simp_all add: reads_def)
  then show ?thesis using a pk nt by (auto simp: parses_def)
qed

lemma parseexec_simple:
  assumes "exec_ok (Simple rs as)" "reads b s (exec_toks (Simple rs as) @ ts)" "ts = [] \<or> starts {124, 41, 38, 59} ts"
  shows "parses b (parseexec (Suc m) b s) ts (exec_meaning (Simple rs as))"
proof -
  have as: "rds_ok rs" "\<forall>(w, rs) \<in> set as. is_word w \<and> rds_ok rs" "0 + length as < MAXARGS" using assms(1) by simp_all
  have r: "reads b s (rds_toks rs @ args_toks as @ ts)" using assms(2) by simp
  have nt: "\<not> starts {60, 62} ts" "\<not> starts {40} ts" using assms(3) by (cases ts; auto)+
  have n1: "\<not> starts {60, 62} (args_toks as @ ts)" by (rule args_starts [OF nt(1) _ as(2)]) simp
  have n2: "\<not> starts {40} (args_toks as @ ts)" by (rule args_starts [OF nt(2) _ as(2)]) simp
  then have "\<not> starts (set [40]) (rds_toks rs @ args_toks as @ ts)" by (intro rds_starts) simp_all
  then have pk: "peek b s [40] = (False, s)" by (simp add: peek_starts [OF r])
  obtain c s1 where q: "parseredirs b (Execcmd []) s = Inr (c, s1)" "reads b s1 (args_toks as @ ts)" "strings (piece b) c = foldl rd_meaning (SExec []) rs"
    using parseredirs_on [OF as(1) r n1, of "Execcmd []"] by (auto simp: parses_def)
  show ?thesis using parseargs_on [OF as(2) q(2) assms(3) as(3) q(3)] by (simp add: pk q(1))
qed

lemma parseexec_block:
  assumes r: "reads b s ([40] # us)" and "rds_ok rs" "\<not> starts {60, 62} ts"
    and l: "s + 2 \<le> length b \<Longrightarrow> reads b (s + 2) us \<Longrightarrow> parses b (parseline m b (s + 2)) ([41] # rds_toks rs @ ts) l"
  shows "parses b (parseexec (Suc (Suc m)) b s) ts (foldl rd_meaning l rs)"
proof -
  have pk: "peek b s [40] = (True, s)" by (simp add: peek_starts [OF r])
  have nt: "next_token b s = s + 2" using next_token_reads [OF r] by simp
  have "reads b (s + 2) us" using reads_next [OF r] by simp
  then obtain c s1 where a: "parseline m b (s + 2) = Inr (c, s1)" "reads b s1 ([41] # rds_toks rs @ ts)" "strings (piece b) c = l"
    using l by (auto simp: parses_def reads_def)
  have p1: "peek b s1 [41] = (True, s1)" by (simp add: peek_starts [OF a(2)])
  have n1: "next_token b s1 = s1 + 2" using next_token_reads [OF a(2)] by simp
  have "reads b (s1 + 2) (rds_toks rs @ ts)" using reads_next [OF a(2)] by simp
  from parseredirs_on [OF assms(2) this assms(3), of c] show ?thesis by (simp add: pk nt a(3) a(1) [simplified] p1 n1)
qed

lemma starts_back: "ts = [] \<or> starts S ts \<Longrightarrow> replicate k [38] @ ts = [] \<or> starts (insert 38 S) (replicate k [38] @ ts)"
  by (cases k; cases ts) simp_all

lemma parse_on:
  shows "line_ok l \<Longrightarrow> reads b s (line_toks l @ ts) \<Longrightarrow> ts = [] \<or> starts {41} ts \<Longrightarrow> 4 * (length b - s) + 4 \<le> n \<Longrightarrow>
      parses b (parseline n b s) ts (line_meaning l)"
    and "pipe_ok p \<Longrightarrow> reads b s (pipe_toks p @ ts) \<Longrightarrow> ts = [] \<or> starts {41, 38, 59} ts \<Longrightarrow> 4 * (length b - s) + 3 \<le> n \<Longrightarrow>
      parses b (parsepipe n b s) ts (pipe_meaning p)"
    and "exec_ok e \<Longrightarrow> reads b s (exec_toks e @ ts) \<Longrightarrow> ts = [] \<or> starts {124, 41, 38, 59} ts \<Longrightarrow> 4 * (length b - s) + 2 \<le> n \<Longrightarrow>
      parses b (parseexec n b s) ts (exec_meaning e)"
proof (induction l and p and e arbitrary: s ts n and s ts n and s ts n)
  case (Last p k)
  obtain m where n: "n = Suc m" using Last.prems(4) by (cases n) auto
  have st: "replicate k [38] @ ts = [] \<or> starts {41, 38, 59} (replicate k [38] @ ts)"
    using starts_back [OF Last.prems(3), of k] by (cases "replicate k [38] @ ts") auto
  have "parses b (parsepipe m b s) (replicate k [38] @ ts) (pipe_meaning p)"
    using Last.prems(1,2,4) n st by (intro Last.IH) simp_all
  then show ?case using parseline_last Last.prems(3) by (simp add: n)
next
  case (Seq p k l)
  obtain m where n: "n = Suc m" using Seq.prems(4) by (cases n) auto
  let ?us = "line_toks l @ ts"
  have st: "replicate k [38] @ [59] # ?us = [] \<or> starts {41, 38, 59} (replicate k [38] @ [59] # ?us)" by (cases k) simp_all
  have "parses b (parsepipe m b s) (replicate k [38] @ [59] # ?us) (pipe_meaning p)"
    using Seq.prems(1,2,4) n st by (intro Seq.IH(1)) simp_all
  moreover have "parses b (parseline m b s1) ts (line_meaning l)" if "s < s1" "s1 \<le> length b" "reads b s1 ?us" for s1
    using Seq.prems(1,3,4) n that by (intro Seq.IH(2)) simp_all
  ultimately show ?case using parseline_seq by (simp add: n)
next
  case (One e)
  obtain m where n: "n = Suc m" using One.prems(4) by (cases n) auto
  have st: "ts = [] \<or> starts {124, 41, 38, 59} ts" "\<not> starts {124} ts" using One.prems(3) by (cases ts; auto)+
  have "parses b (parseexec m b s) ts (exec_meaning e)" using One.prems(1,2,4) n st(1) by (intro One.IH) simp_all
  then show ?case using parsepipe_one st(2) by (simp add: n)
next
  case (More e p)
  obtain m where n: "n = Suc m" using More.prems(4) by (cases n) auto
  let ?us = "pipe_toks p @ ts"
  have "parses b (parseexec m b s) ([124] # ?us) (exec_meaning e)" using More.prems(1,2,4) n by (intro More.IH(1)) simp_all
  moreover have "parses b (parsepipe m b s1) ts (pipe_meaning p)" if "s < s1" "s1 \<le> length b" "reads b s1 ?us" for s1
    using More.prems(1,3,4) n that by (intro More.IH(2)) simp_all
  ultimately show ?case using parsepipe_more by (simp add: n)
next
  case (Simple rs as)
  obtain m where n: "n = Suc m" using Simple.prems(4) by (cases n) auto
  show ?case unfolding n by (rule parseexec_simple [OF Simple.prems(1-3)])
next
  case (Block l rs)
  let ?vs = "[41] # rds_toks rs @ ts"
  have r: "reads b s ([40] # line_toks l @ ?vs)" using Block.prems(2) by simp
  have lt: "s < length b" using readsD_at(2) [OF r, of 0] by simp
  obtain m where n: "n = Suc (Suc m)" using Block.prems(4) by (cases n; cases "n - 1") auto
  have "parses b (parseline m b (s + 2)) ?vs (line_meaning l)" if "s + 2 \<le> length b" "reads b (s + 2) (line_toks l @ ?vs)"
    using Block.prems(1,4) n that lt by (intro Block.IH) simp_all
  moreover have "\<not> starts {60, 62} ts" using Block.prems(3) by (cases ts) auto
  ultimately show ?case using parseexec_block [OF r] Block.prems(1) by (simp add: n)
qed

lemma toks_ok:
  shows "line_ok l \<Longrightarrow> \<forall>t \<in> set (line_toks l). tok_ok t" and "pipe_ok p \<Longrightarrow> \<forall>t \<in> set (pipe_toks p). tok_ok t"
    and "exec_ok e \<Longrightarrow> \<forall>t \<in> set (exec_toks e). tok_ok t"
proof (induction l and p and e)
  case (Simple rs as)
  have r: "\<forall>t \<in> set (rds_toks rs). tok_ok t" if "rds_ok rs" for rs
  proof -
    have "\<forall>t \<in> set (rd_toks r). tok_ok t" if "is_word (rd_word r)" for r using that by (cases r) (simp_all add: tok_ok_def sym_tokens_def)
    then show ?thesis using that by (auto simp: rds_toks_def rds_ok_def)
  qed
  have "\<forall>t \<in> set (args_toks as). tok_ok t" using Simple r by (fastforce simp: args_toks_def tok_ok_def)
  then show ?case using Simple r by auto
next
  case (Block l rs)
  have "\<forall>t \<in> set (rd_toks r). tok_ok t" if "is_word (rd_word r)" for r using that by (cases r) (simp_all add: tok_ok_def sym_tokens_def)
  then have "\<forall>t \<in> set (rds_toks rs). tok_ok t" using Block.prems by (auto simp: rds_toks_def rds_ok_def)
  moreover have "tok_ok [40]" "tok_ok [41]" by (simp_all add: tok_ok_def sym_tokens_def)
  ultimately show ?case using Block by auto
qed (auto simp: tok_ok_def sym_tokens_def)

text \<open>C19: the recursive-descent parser of the shell ends on every line. It panics (\<open>panic\<close> ends the shell's child)
  or accepts, and then, when the line has no zero byte, every string of the command is a longest run of bytes that
  are neither blanks nor symbols, and the zeros that \<open>nulterminate\<close> stores make the pointers of the command
  exactly these strings: no zero falls into another string.\<close>

theorem parsecmd_ends:
  assumes "0 \<notin> set b"
  shows "case parsecmd b of Inl e \<Rightarrow> e \<noteq> Diverges
    | Inr (c, B) \<Rightarrow> cmd_ok b c \<and> length B = length b + 1 \<and> strings (cstring B) c = strings (piece b) c"
proof (cases "parseline (4 * length b + 4) b 0")
  case (Inl e)
  then show ?thesis using parse_ends [of b "4 * length b + 4", THEN conjunct1, rule_format, of 0] by (auto simp: parsecmd_def)
next
  case (Inr x)
  obtain c s where x: "x = (c, s)" by (cases x)
  have "cmd_ok b c" using parse_tokens [OF assms, THEN conjunct1, rule_format] Inr x by blast
  moreover have "strings (cstring B) c' = strings (piece b) c'" if "parsecmd b = Inr (c', B)" for c' B using parsecmd_Inr [OF that assms] .
  ultimately show ?thesis using Inr x by (auto simp: parsecmd_def nulterminate_fold fold_zeros(1))
qed

text \<open>Witness: \<open>a>b\<close>.\<close>

theorem parsecmd_ends_witness:
  "case parsecmd [97, 62, 98] of Inl e \<Rightarrow> e \<noteq> Diverges
    | Inr (c, B) \<Rightarrow> cmd_ok [97, 62, 98] c \<and> length B = length [97, 62, 98 :: byte] + 1 \<and> strings (cstring B) c = strings (piece [97, 62, 98]) c"
  by (rule parsecmd_ends) simp

text \<open>C7: the parser is right for the whole language of the shell: every line of the grammar (lists, background marks,
  pipes, redirections before, between and behind the arguments, nested blocks), with words of any bytes
  that are neither blanks nor symbols and at most nine arguments per command, is accepted when its tokens are
  written with a space behind each, and the strings of the command read back from the line are the line's own.\<close>

theorem parsecmd_roundtrip:
  assumes "line_ok l"
  shows "\<exists>c B. parsecmd (text_of (line_toks l)) = Inr (c, B) \<and> strings (cstring B) c = line_meaning l"
proof -
  let ?b = "text_of (line_toks l)"
  have r: "reads ?b 0 (line_toks l @ [])" using toks_ok(1) [OF assms] by (simp add: reads_def)
  have "parses ?b (parseline (4 * length ?b + 4) ?b 0) [] (line_meaning l)" by (rule parse_on(1) [OF assms r]) simp_all
  then obtain c s where p: "parseline (4 * length ?b + 4) ?b 0 = Inr (c, s)" "reads ?b s []" "strings (piece ?b) c = line_meaning l"
    by (auto simp: parses_def)
  have "snd (peek ?b s []) = length ?b" using peek_starts [OF p(2), of "[]"] reads_end [OF p(2)] by simp
  then have e: "parsecmd ?b = Inr (c, nulterminate c (?b @ [0]))" by (simp add: parsecmd_def p(1))
  moreover have "0 \<notin> set ?b" using reads_nonzero [OF toks_ok(1) [OF assms]] .
  ultimately show ?thesis using parsecmd_Inr [OF e] p(3) by auto
qed

text \<open>Witness: \<open>( a > o ) | b &\<close>.\<close>

theorem parsecmd_roundtrip_witness:
  "line_toks (Last (More (Block (Last (One (Simple [] [([97], [Out [111]])])) 0) []) (One (Simple [] [([98], [])]))) 1)
    = [[40], [97], [62], [111], [41], [124], [98], [38]] \<and>
   (\<exists>c B. parsecmd (text_of (line_toks (Last (More (Block (Last (One (Simple [] [([97], [Out [111]])])) 0) []) (One (Simple [] [([98], [])]))) 1))) = Inr (c, B) \<and>
     strings (cstring B) c = SBack (SPipe (SRedir (SExec [[97]]) [111] (O_WRONLY OR O_CREATE) 1) (SExec [[98]])))"
  using parsecmd_roundtrip [of "Last (More (Block (Last (One (Simple [] [([97], [Out [111]])])) 0) []) (One (Simple [] [([98], [])]))) 1"]
  by (simp add: rds_ok_def is_word_def word_char_def among_def whitespace_def symbols_def MAXARGS_def rds_toks_def args_toks_def)

end
