(* ===== verification/XV6_Kalloc.thy ===== *)
theory XV6_Kalloc
  imports XV6_String
begin

text \<open>
  The physical memory allocator of xv6, \<open>src/project3/xv6-modified/kalloc.c\<close>, with the constants of
  \<open>mmu.h\<close> and \<open>memlayout.h\<close>. The memory maps kernel virtual addresses to bytes; the free pages form a
  linked list through their first four bytes. \<open>kalloc\<close> and \<open>kfree\<close> each hold the allocator's lock from
  the first access of the list to the last, so a call is one step. \<open>end\<close>, the first address after the
  kernel, comes from the linker script and is a field of the state.
\<close>

definition PGSIZE :: nat where "PGSIZE = 4096"
definition EXTMEM :: nat where "EXTMEM = 0x100000"
definition PHYSTOP :: nat where "PHYSTOP = 0xE000000"
definition DEVSPACE :: nat where "DEVSPACE = 0xFE000000"
definition KERNBASE :: nat where "KERNBASE = 0x80000000"
definition KERNLINK :: nat where "KERNLINK = KERNBASE + EXTMEM"

text \<open>Addresses are 32 bit unsigned numbers.\<close>

definition V2P :: "nat \<Rightarrow> nat" where "V2P a = (a + 2 ^ 32 - KERNBASE) mod 2 ^ 32"
definition P2V :: "nat \<Rightarrow> nat" where "P2V a = (a + KERNBASE) mod 2 ^ 32"
definition PGROUNDDOWN :: "nat \<Rightarrow> nat" where "PGROUNDDOWN a = a - a mod PGSIZE"
definition PGROUNDUP :: "nat \<Rightarrow> nat" where "PGROUNDUP sz = PGROUNDDOWN ((sz + PGSIZE - 1) mod 2 ^ 32)"

record kmem =
  kend :: nat
  use_lock :: bool
  freelist :: nat
  kmemory :: mem

definition load32 :: "nat \<Rightarrow> mem \<Rightarrow> nat" where
  "load32 a m = unat (m a) + 256 * unat (m (a + 1)) + 65536 * unat (m (a + 2)) + 16777216 * unat (m (a + 3))"

definition page_ok :: "nat \<Rightarrow> nat \<Rightarrow> bool" where
  "page_ok e v \<longleftrightarrow> \<not> (v mod PGSIZE \<noteq> 0 \<or> v < e \<or> V2P v \<ge> PHYSTOP)"

definition kfree :: "nat \<Rightarrow> kmem \<Rightarrow> fault + kmem" where
  "kfree v s =
     (if \<not> page_ok (kend s) v then Inl (Panic ''kfree'')
      else
        let m1 = memset_c v 1 PGSIZE (kmemory s) in
        Inr (s\<lparr>kmemory := store32 v (word_of_nat (freelist s)) m1, freelist := v\<rparr>))"

definition kalloc :: "kmem \<Rightarrow> nat \<times> kmem" where
  "kalloc s =
     (let r = freelist s in
      if r \<noteq> 0 then (r, s\<lparr>freelist := load32 r (kmemory s)\<rparr>) else (r, s))"

function freerange_loop :: "nat \<Rightarrow> nat \<Rightarrow> kmem \<Rightarrow> fault + kmem" where
  "freerange_loop p vend s =
     (if p + PGSIZE \<le> vend then ebind (kfree p s) (freerange_loop (p + PGSIZE) vend) else Inr s)"
  by pat_completeness auto
termination
  by (relation "measure (\<lambda>(p, vend, s). vend - p)") (auto simp: PGSIZE_def)

declare freerange_loop.simps [simp del]

definition freerange :: "nat \<Rightarrow> nat \<Rightarrow> kmem \<Rightarrow> fault + kmem" where
  "freerange vstart vend s = freerange_loop (PGROUNDUP vstart) vend s"

definition kinit1 :: "nat \<Rightarrow> nat \<Rightarrow> kmem \<Rightarrow> fault + kmem" where
  "kinit1 vstart vend s = freerange vstart vend (s\<lparr>use_lock := False\<rparr>)"

definition kinit2 :: "nat \<Rightarrow> nat \<Rightarrow> kmem \<Rightarrow> fault + kmem" where
  "kinit2 vstart vend s = ebind (freerange vstart vend s) (\<lambda>s1. Inr (s1\<lparr>use_lock := True\<rparr>))"

subsection \<open>Words in memory\<close>

lemma word_of_bytes:
  "unat (ucast w :: byte) + 256 * unat (ucast (drop_bit 8 w) :: byte) + 65536 * unat (ucast (drop_bit 16 w) :: byte) +
   16777216 * unat (ucast (drop_bit 24 w) :: byte) = unat (w :: uint32)"
proof -
  have l: "unat w < 256 * 16777216" using unsigned_less [where 'a = nat, of w] by simp
  have e: "unat (ucast (drop_bit k w) :: byte) = unat w div 2 ^ k mod 256" for k
    by (simp add: unsigned_ucast_eq unsigned_drop_bit_eq take_bit_eq_mod) (use l in \<open>simp add: drop_bit_eq_div\<close>)
  have "unat (ucast w :: byte) = unat w mod 256" using e [of 0] by simp
  moreover have "unat w div 16777216 mod 256 = unat w div 16777216" using l by simp
  moreover have "unat w = unat w mod 256 + 256 * (unat w div 256 mod 256) + 65536 * (unat w div 65536 mod 256) + 16777216 * (unat w div 16777216)"
  proof -
    have "unat w div 256 = unat w div 65536 * 256 + unat w div 256 mod 256" "unat w div 65536 = unat w div 16777216 * 256 + unat w div 65536 mod 256"
      using div_mult_mod_eq [of "unat w div 256" 256] div_mult_mod_eq [of "unat w div 65536" 256] by (simp_all add: div_mult2_eq [symmetric])
    then show ?thesis using div_mult_mod_eq [of "unat w" 256] by linarith
  qed
  ultimately show ?thesis using e [of 8] e [of 16] e [of 24] by simp
qed

lemma load32_less: "load32 a m < 2 ^ 32"
  using unsigned_less [where 'a = nat, of "m a"] unsigned_less [where 'a = nat, of "m (a + 1)"]
    unsigned_less [where 'a = nat, of "m (a + 2)"] unsigned_less [where 'a = nat, of "m (a + 3)"]
  by (simp add: load32_def)

lemma load32_store32 [simp]: "load32 a (store32 a w m) = unat w"
  by (simp add: load32_def store32_def word_of_bytes)

lemma store32_other [simp]: "x < a \<or> a + 4 \<le> x \<Longrightarrow> store32 a w m x = m x"
  by (auto simp: store32_def)

lemma load32_cong: "(\<And>x. a \<le> x \<Longrightarrow> x < a + 4 \<Longrightarrow> m' x = m x) \<Longrightarrow> load32 a m' = load32 a m"
  by (simp add: load32_def)

lemma load32_store32_other [simp]: "a + 4 \<le> b \<or> b + 4 \<le> a \<Longrightarrow> load32 a (store32 b w m) = load32 a m"
  by (rule load32_cong) auto

subsection \<open>The free list\<close>

definition in_page :: "nat \<Rightarrow> nat \<Rightarrow> bool" where
  "in_page p x \<longleftrightarrow> p \<le> x \<and> x < p + PGSIZE"

definition same_outside :: "nat \<Rightarrow> mem \<Rightarrow> mem \<Rightarrow> bool" where
  "same_outside p m m' \<longleftrightarrow> (\<forall>x. \<not> in_page p x \<longrightarrow> m' x = m x)"

fun free_chain :: "mem \<Rightarrow> nat \<Rightarrow> nat list \<Rightarrow> bool" where
  "free_chain m p [] \<longleftrightarrow> p = 0"
| "free_chain m p (x # xs) \<longleftrightarrow> p = x \<and> free_chain m (load32 x m) xs"

text \<open>The pages the allocator deals with: those that \<open>kfree\<close> accepts, at 32 bit addresses.\<close>

definition valid_page :: "nat \<Rightarrow> nat \<Rightarrow> bool" where
  "valid_page e v \<longleftrightarrow> page_ok e v \<and> v < 2 ^ 32"

definition kmem_ok :: "kmem \<Rightarrow> nat list \<Rightarrow> bool" where
  "kmem_ok s xs \<longleftrightarrow> free_chain (kmemory s) (freelist s) xs \<and> distinct xs \<and> (\<forall>x \<in> set xs. valid_page (kend s) x)"

lemma valid_page_range:
  assumes "valid_page e v"
  shows "v mod PGSIZE = 0" "e \<le> v" "KERNBASE \<le> v" "v < KERNBASE + PHYSTOP" "v < 2 ^ 32" "v \<noteq> 0"
proof -
  have v: "v mod PGSIZE = 0" "e \<le> v" "(v + 2 ^ 31) mod 2 ^ 32 < PHYSTOP" "v < 2 ^ 32"
    using assms by (auto simp: valid_page_def page_ok_def V2P_def KERNBASE_def add.commute)
  have ge: "KERNBASE \<le> v"
  proof (rule ccontr)
    assume "\<not> KERNBASE \<le> v"
    then have "(v + 2 ^ 31) mod 2 ^ 32 = v + 2 ^ 31" by (simp add: KERNBASE_def)
    with v(3) show False by (simp add: PHYSTOP_def)
  qed
  then have "(v + 2 ^ 31) mod 2 ^ 32 = v - 2 ^ 31" using v(4) by (simp add: KERNBASE_def mod_if)
  with v(3) ge show "v < KERNBASE + PHYSTOP" by (simp add: KERNBASE_def)
  show "v mod PGSIZE = 0" "e \<le> v" "KERNBASE \<le> v" "v < 2 ^ 32" "v \<noteq> 0" using v ge by (auto simp: KERNBASE_def)
qed

lemma valid_pageI:
  assumes "v mod PGSIZE = 0" "e \<le> v" "KERNBASE \<le> v" "v + PGSIZE \<le> KERNBASE + PHYSTOP"
  shows "valid_page e v"
proof -
  obtain d where d: "v = KERNBASE + d" using assms(3) le_Suc_ex by blast
  have "d < 2 ^ 31" using assms(4) d by (simp add: PHYSTOP_def)
  then show ?thesis using assms d by (simp add: valid_page_def page_ok_def V2P_def KERNBASE_def PGSIZE_def)
qed

lemma P2V_V2P: "valid_page e v \<Longrightarrow> P2V (V2P v) = v"
  using valid_page_range [of e v] by (simp add: P2V_def V2P_def KERNBASE_def mod_simps)

lemma pages_apart:
  assumes "v mod PGSIZE = 0" "w mod PGSIZE = 0" "v \<noteq> w" "in_page v x"
  shows "\<not> in_page w x"
proof
  assume "in_page w x"
  have "x div PGSIZE = v div PGSIZE" "x div PGSIZE = w div PGSIZE"
    using assms \<open>in_page w x\<close> by (auto simp: in_page_def PGSIZE_def)
  then show False using assms by (metis mod_div_mult_eq)
qed

lemma free_chain_frame:
  "free_chain m p xs \<Longrightarrow> (\<And>x y. x \<in> set xs \<Longrightarrow> in_page x y \<Longrightarrow> m' y = m y) \<Longrightarrow> free_chain m' p xs"
proof (induction m p xs rule: free_chain.induct)
  case (2 m p x xs)
  have "load32 x m' = load32 x m" by (rule load32_cong) (rule 2(3) [of x], simp_all add: in_page_def PGSIZE_def)
  moreover have "free_chain m' (load32 x m) xs" by (rule 2(1)) (use 2(2,3) in auto)
  ultimately show ?case using 2(2) by simp
qed simp

lemma kmem_ok_outside:
  assumes "kmem_ok s xs" "v mod PGSIZE = 0" "v \<notin> set xs" "same_outside v (kmemory s) m"
  shows "kmem_ok (s\<lparr>kmemory := m\<rparr>) xs"
proof -
  have "m y = kmemory s y" if "x \<in> set xs" "in_page x y" for x y
  proof -
    have "\<not> in_page v y" using pages_apart [of x v y] that assms valid_page_range(1) [of "kend s" x] by (auto simp: kmem_ok_def)
    then show ?thesis using assms(4) by (simp add: same_outside_def)
  qed
  then have "free_chain m (freelist s) xs" using free_chain_frame [of "kmemory s" "freelist s" xs m] assms(1) by (simp add: kmem_ok_def)
  then show ?thesis using assms(1) by (simp add: kmem_ok_def)
qed

lemma kalloc_Nil: "kmem_ok s [] \<Longrightarrow> kalloc s = (0, s)"
  by (simp add: kmem_ok_def kalloc_def)

lemma kalloc_Cons:
  assumes "kmem_ok s (v # xs)"
  shows "kalloc s = (v, s\<lparr>freelist := load32 v (kmemory s)\<rparr>)" "kmem_ok (s\<lparr>freelist := load32 v (kmemory s)\<rparr>) xs"
proof -
  have "v \<noteq> 0" using assms valid_page_range(6) by (auto simp: kmem_ok_def)
  then show "kalloc s = (v, s\<lparr>freelist := load32 v (kmemory s)\<rparr>)" using assms by (simp add: kmem_ok_def kalloc_def)
  show "kmem_ok (s\<lparr>freelist := load32 v (kmemory s)\<rparr>) xs" using assms by (auto simp: kmem_ok_def)
qed

lemma kfree_ok:
  assumes ok: "kmem_ok s xs" and v: "valid_page (kend s) v" "v \<notin> set xs"
  obtains s' where "kfree v s = Inr s'" "kmem_ok s' (v # xs)" "kend s' = kend s" "same_outside v (kmemory s) (kmemory s')"
proof -
  let ?m = "store32 v (word_of_nat (freelist s)) (memset_c v 1 PGSIZE (kmemory s))"
  have "freelist s < 2 ^ 32" using ok valid_page_range(5) by (cases xs) (auto simp: kmem_ok_def)
  then have n: "load32 v ?m = freelist s" by (simp add: unat_of_nat)
  have out: "same_outside v (kmemory s) ?m"
    by (auto simp: same_outside_def in_page_def memset_spec PGSIZE_def)
  have "kmem_ok (s\<lparr>kmemory := ?m\<rparr>) xs" using kmem_ok_outside [OF ok valid_page_range(1) [OF v(1)] v(2) out] .
  then have "kmem_ok (s\<lparr>kmemory := ?m, freelist := v\<rparr>) (v # xs)" using v n by (simp add: kmem_ok_def)
  then show thesis using that [of "s\<lparr>kmemory := ?m, freelist := v\<rparr>"] v out by (simp add: kfree_def valid_page_def Let_def)
qed

subsection \<open>The contract of a page allocator\<close>

text \<open>A pool of pages: \<open>pool s xs\<close> says that the pages \<open>xs\<close> are free in \<open>s\<close>. A page that is taken was free, and a page
  that is given back is free again; the clients of the allocator rely on nothing else.\<close>

locale page_pool =
  fixes pool :: "'s \<Rightarrow> nat list \<Rightarrow> bool"
    and valid :: "'s \<Rightarrow> nat \<Rightarrow> bool"
    and take_page :: "'s \<Rightarrow> nat \<times> 's"
    and give_page :: "nat \<Rightarrow> 's \<Rightarrow> fault + 's"
  assumes pool_distinct: "pool s xs \<Longrightarrow> distinct xs"
    and pool_valid: "pool s xs \<Longrightarrow> x \<in> set xs \<Longrightarrow> valid s x \<and> x \<noteq> 0"
    and take_none: "pool s [] \<Longrightarrow> take_page s = (0, s)"
    and take_some: "pool s (v # xs) \<Longrightarrow> \<exists>s'. take_page s = (v, s') \<and> pool s' xs \<and> (\<forall>w. valid s' w \<longleftrightarrow> valid s w)"
    and give_back: "pool s xs \<Longrightarrow> valid s v \<Longrightarrow> v \<notin> set xs \<Longrightarrow>
      \<exists>s'. give_page v s = Inr s' \<and> pool s' (v # xs) \<and> (\<forall>w. valid s' w \<longleftrightarrow> valid s w)"
begin

text \<open>No page is both free and in use, and together they are all pages.\<close>

definition accounted :: "nat set \<Rightarrow> 's \<Rightarrow> nat set \<Rightarrow> bool" where
  "accounted U s A \<longleftrightarrow> (\<exists>xs. pool s xs \<and> set xs \<inter> A = {} \<and> set xs \<union> A = U) \<and> (\<forall>w \<in> U. valid s w)"

lemma accounted_take:
  assumes "accounted U s A" "take_page s = (v, s')" "v \<noteq> 0"
  shows "v \<in> U" "v \<notin> A" "accounted U s' (insert v A)"
proof -
  obtain xs where xs: "pool s xs" "set xs \<inter> A = {}" "set xs \<union> A = U" "\<forall>w \<in> U. valid s w" using assms(1) by (auto simp: accounted_def)
  obtain ys where ys: "xs = v # ys" "pool s' ys" "\<forall>w. valid s' w \<longleftrightarrow> valid s w"
    using xs(1) assms(2,3) take_none take_some by (cases xs) fastforce+
  then show "v \<in> U" "v \<notin> A" using xs by auto
  have "distinct xs" using pool_distinct xs(1) .
  then have "set ys \<inter> insert v A = {}" "set ys \<union> insert v A = U" using xs(2,3) ys(1) by auto
  then show "accounted U s' (insert v A)" using xs(4) ys(2,3) unfolding accounted_def by auto
qed

lemma accounted_give:
  assumes "accounted U s A" "v \<in> A"
  shows "\<exists>s'. give_page v s = Inr s' \<and> accounted U s' (A - {v})"
proof -
  obtain xs where xs: "pool s xs" "set xs \<inter> A = {}" "set xs \<union> A = U" "\<forall>w \<in> U. valid s w" using assms(1) by (auto simp: accounted_def)
  then obtain s' where s': "give_page v s = Inr s'" "pool s' (v # xs)" "\<forall>w. valid s' w \<longleftrightarrow> valid s w"
    using give_back [OF xs(1), of v] assms(2) by auto
  have "set (v # xs) \<inter> (A - {v}) = {}" "set (v # xs) \<union> (A - {v}) = U" using xs(2,3) assms(2) by auto
  then show ?thesis using xs(4) s' unfolding accounted_def by blast
qed

lemma accounted_full:
  assumes "accounted U s A"
  shows "fst (take_page s) = 0 \<longleftrightarrow> A = U"
proof -
  obtain xs where xs: "pool s xs" "set xs \<inter> A = {}" "set xs \<union> A = U" using assms by (auto simp: accounted_def)
  show ?thesis
  proof (cases xs)
    case Nil
    then show ?thesis using xs take_none by simp
  next
    case (Cons v ys)
    then obtain s' where "take_page s = (v, s')" "v \<noteq> 0" using take_some pool_valid [OF xs(1)] xs(1) by force
    then show ?thesis using xs Cons by auto
  qed
qed

end

interpretation kp: page_pool kmem_ok "\<lambda>s. valid_page (kend s)" kalloc kfree
proof unfold_locales
  fix s xs v
  show "kmem_ok s xs \<Longrightarrow> distinct xs" by (simp add: kmem_ok_def)
  show "kmem_ok s xs \<Longrightarrow> x \<in> set xs \<Longrightarrow> valid_page (kend s) x \<and> x \<noteq> 0" for x
    using valid_page_range(6) by (auto simp: kmem_ok_def)
  show "kmem_ok s [] \<Longrightarrow> kalloc s = (0, s)" by (rule kalloc_Nil)
  show "\<exists>s'. kalloc s = (v, s') \<and> kmem_ok s' xs \<and> (\<forall>w. valid_page (kend s') w \<longleftrightarrow> valid_page (kend s) w)" if "kmem_ok s (v # xs)"
    using kalloc_Cons [OF that] by auto
  show "\<exists>s'. kfree v s = Inr s' \<and> kmem_ok s' (v # xs) \<and> (\<forall>w. valid_page (kend s') w \<longleftrightarrow> valid_page (kend s) w)"
    if "kmem_ok s xs" "valid_page (kend s) v" "v \<notin> set xs"
    by (rule kfree_ok [OF that]) auto
qed

subsection \<open>Initialisation and use\<close>

definition range_pages :: "nat \<Rightarrow> nat \<Rightarrow> nat set" where
  "range_pages lo hi = {p. p mod PGSIZE = 0 \<and> lo \<le> p \<and> p + PGSIZE \<le> hi}"

lemma freerange_loop_pool:
  assumes "kmem_ok s xs" "p mod PGSIZE = 0" "kend s \<le> p" "KERNBASE \<le> p" "vend \<le> KERNBASE + PHYSTOP" "\<forall>x \<in> set xs. x < p"
  shows "\<exists>s' ys. freerange_loop p vend s = Inr s' \<and> kmem_ok s' ys \<and> set ys = set xs \<union> range_pages p vend \<and> kend s' = kend s"
  using assms
proof (induction p vend s arbitrary: xs rule: freerange_loop.induct)
  case (1 p vend s)
  show ?case
  proof (cases "p + PGSIZE \<le> vend")
    case True
    have v: "valid_page (kend s) p" using "1.prems" True by (intro valid_pageI) simp_all
    have "p \<notin> set xs" using "1.prems"(6) by blast
    then obtain s1 where s1: "kfree p s = Inr s1" "kmem_ok s1 (p # xs)" "kend s1 = kend s" using kfree_ok [OF "1.prems"(1) v] by blast
    have al: "(p + PGSIZE) mod PGSIZE = 0" "kend s1 \<le> p + PGSIZE" "KERNBASE \<le> p + PGSIZE" "\<forall>x \<in> set (p # xs). x < p + PGSIZE"
      using "1.prems"(2,3,4,6) s1(3) by (auto simp: PGSIZE_def)
    obtain s' ys where s': "freerange_loop (p + PGSIZE) vend s1 = Inr s'" "kmem_ok s' ys"
      "set ys = set (p # xs) \<union> range_pages (p + PGSIZE) vend" "kend s' = kend s1"
      using "1.IH" [OF True s1(1,2) al(1,2,3) "1.prems"(5) al(4)] by blast
    have "range_pages p vend = insert p (range_pages (p + PGSIZE) vend)"
    proof -
      have st: "p \<le> q \<longleftrightarrow> q = p \<or> p + PGSIZE \<le> q" if "PGSIZE dvd q" for q
        using that "1.prems"(2) by (auto simp: PGSIZE_def elim!: dvdE)
      have "q \<in> range_pages p vend \<longleftrightarrow> q = p \<or> q \<in> range_pages (p + PGSIZE) vend" for q
        using st [of q] True "1.prems"(2) unfolding range_pages_def mod_eq_0_iff_dvd mem_Collect_eq by blast
      then show ?thesis by blast
    qed
    then have "set ys = set xs \<union> range_pages p vend" using s'(3) by simp
    moreover have "freerange_loop p vend s = Inr s'" using True s1(1) s'(1) by (simp add: freerange_loop.simps [of p vend s])
    ultimately show ?thesis using s'(2,4) s1(3) by (intro exI [of _ s'] exI [of _ ys]) simp
  next
    case False
    then have "freerange_loop p vend s = Inr s" "range_pages p vend = {}" by (auto simp: freerange_loop.simps [of p vend s] range_pages_def)
    then show ?thesis using "1.prems"(1) by auto
  qed
qed

lemma PGROUNDUP_range:
  assumes "lo < 2 ^ 32 - PGSIZE"
  shows "PGROUNDUP lo mod PGSIZE = 0" "lo \<le> PGROUNDUP lo" "PGROUNDUP lo < lo + PGSIZE" "range_pages (PGROUNDUP lo) hi = range_pages lo hi"
proof -
  let ?k = "(lo + 4095) div 4096"
  have e: "PGROUNDUP lo = 4096 * ?k"
    using assms by (simp add: PGROUNDUP_def PGROUNDDOWN_def PGSIZE_def minus_mod_eq_mult_div)
  then show a: "PGROUNDUP lo mod PGSIZE = 0" "lo \<le> PGROUNDUP lo" "PGROUNDUP lo < lo + PGSIZE" by (auto simp: PGSIZE_def)
  have "4096 * ?k \<le> q" if "q mod 4096 = 0" "lo \<le> q" for q using that by (auto simp: mod_eq_0_iff_dvd elim!: dvdE)
  then show "range_pages (PGROUNDUP lo) hi = range_pages lo hi" using a e by (auto simp: range_pages_def PGSIZE_def)
qed

lemma freerange_pool:
  assumes "kmem_ok s xs" "kend s \<le> lo" "KERNBASE \<le> lo" "lo < 2 ^ 32 - PGSIZE" "vend \<le> KERNBASE + PHYSTOP" "\<forall>x \<in> set xs. x < lo"
  shows "\<exists>s' ys. freerange lo vend s = Inr s' \<and> kmem_ok s' ys \<and> set ys = set xs \<union> range_pages lo vend \<and> kend s' = kend s"
proof -
  note r = PGROUNDUP_range [OF assms(4)]
  have "\<forall>x \<in> set xs. x < PGROUNDUP lo" using assms(6) r(2) by auto
  then show ?thesis
    using freerange_loop_pool [OF assms(1) r(1), of vend] assms(2,3,5) r by (simp add: freerange_def)
qed

lemma range_pages_join:
  assumes "PGSIZE dvd mid" "lo \<le> mid" "mid \<le> hi"
  shows "range_pages lo mid \<union> range_pages mid hi = range_pages lo hi"
proof -
  have "q + PGSIZE \<le> mid \<or> mid \<le> q" if "PGSIZE dvd q" for q using that assms(1) by (auto simp: PGSIZE_def elim!: dvdE)
  then show ?thesis using assms(2,3) by (force simp: range_pages_def)
qed

text \<open>What happens from the start of \<open>main\<close> to any later moment: \<open>kinit1\<close> frees the memory that the first page table maps, and
  after some allocations \<open>kinit2\<close> the rest. Pages are allocated, the pages in use are written to, and freed by their users.\<close>

definition low_end :: nat where "low_end = KERNBASE + 4 * 1024 * 1024"

definition page_frames :: "nat \<Rightarrow> bool \<Rightarrow> nat set" where
  "page_frames e b = range_pages e (if b then KERNBASE + PHYSTOP else low_end)"

inductive in_use :: "nat \<Rightarrow> bool \<Rightarrow> kmem \<Rightarrow> nat set \<Rightarrow> bool" for e :: nat where
  booted: "kend s0 = e \<Longrightarrow> freelist s0 = 0 \<Longrightarrow> kinit1 e (P2V (4 * 1024 * 1024)) s0 = Inr s \<Longrightarrow> in_use e False s {}"
| extended: "in_use e False s A \<Longrightarrow> kinit2 (P2V (4 * 1024 * 1024)) (P2V PHYSTOP) s = Inr s' \<Longrightarrow> in_use e True s' A"
| allocated: "in_use e b s A \<Longrightarrow> kalloc s = (v, s') \<Longrightarrow> v \<noteq> 0 \<Longrightarrow> in_use e b s' (insert v A)"
| freed: "in_use e b s A \<Longrightarrow> v \<in> A \<Longrightarrow> kfree v s = Inr s' \<Longrightarrow> in_use e b s' (A - {v})"
| written: "in_use e b s A \<Longrightarrow> v \<in> A \<Longrightarrow> in_page v x \<Longrightarrow> in_use e b (s\<lparr>kmemory := (kmemory s)(x := c)\<rparr>) A"

lemma boot_addresses: "P2V (4 * 1024 * 1024) = low_end" "P2V PHYSTOP = KERNBASE + PHYSTOP" "PGSIZE dvd low_end" "low_end \<le> KERNBASE + PHYSTOP" "low_end < 2 ^ 32 - PGSIZE"
  by (simp_all add: P2V_def low_end_def KERNBASE_def PHYSTOP_def PGSIZE_def)

lemma page_frames_valid: "KERNLINK \<le> e \<Longrightarrow> w \<in> page_frames e b \<Longrightarrow> valid_page e w"
  using boot_addresses(4) by (intro valid_pageI) (auto simp: page_frames_def range_pages_def KERNLINK_def split: if_splits)

lemma page_frames_grow: "e \<le> low_end \<Longrightarrow> page_frames e False \<union> range_pages low_end (KERNBASE + PHYSTOP) = page_frames e True"
  using range_pages_join [OF boot_addresses(3)] boot_addresses(4) by (simp add: page_frames_def)

lemma kinit1_pool:
  assumes "kend s = e" "freelist s = 0" "KERNLINK \<le> e" "e < low_end"
  shows "\<exists>s'. kinit1 e (P2V (4 * 1024 * 1024)) s = Inr s' \<and> kend s' = e \<and> kp.accounted (page_frames e False) s' {}"
proof -
  have e: "KERNBASE \<le> e" "e < 2 ^ 32 - PGSIZE" using assms(3,4) boot_addresses(5) by (simp_all add: KERNLINK_def)
  have ok: "kmem_ok (s\<lparr>use_lock := False\<rparr>) []" using assms(2) by (simp add: kmem_ok_def)
  obtain s1 xs where s1: "freerange e low_end (s\<lparr>use_lock := False\<rparr>) = Inr s1" "kmem_ok s1 xs" "set xs = range_pages e low_end" "kend s1 = e"
    using freerange_pool [OF ok, of e low_end] assms e boot_addresses(4) by auto
  have "kp.accounted (page_frames e False) s1 {}"
    using s1(2,3,4) page_frames_valid [OF assms(3), of _ False] unfolding kp.accounted_def by (auto simp: page_frames_def [of e False])
  then show ?thesis using s1(1,4) by (simp only: kinit1_def boot_addresses) blast
qed

lemma kinit2_pool:
  assumes acc: "kp.accounted (page_frames e False) s A" and e: "kend s = e" "KERNLINK \<le> e" "e < low_end"
  shows "\<exists>s'. kinit2 (P2V (4 * 1024 * 1024)) (P2V PHYSTOP) s = Inr s' \<and> kend s' = e \<and> kp.accounted (page_frames e True) s' A"
proof -
  obtain xs where xs: "kmem_ok s xs" "set xs \<inter> A = {}" "set xs \<union> A = page_frames e False" using acc by (auto simp: kp.accounted_def)
  have below: "x < low_end" if "x \<in> page_frames e False" for x using that by (auto simp: page_frames_def range_pages_def PGSIZE_def)
  have "KERNBASE \<le> low_end" by (simp add: low_end_def)
  moreover have "\<forall>x \<in> set xs. x < low_end" using below xs(3) by auto
  ultimately obtain s1 ys where s1: "freerange low_end (KERNBASE + PHYSTOP) s = Inr s1" "kmem_ok s1 ys" "set ys = set xs \<union> range_pages low_end (KERNBASE + PHYSTOP)" "kend s1 = kend s"
    using freerange_pool [OF xs(1), of low_end "KERNBASE + PHYSTOP"] e boot_addresses(5) by auto
  have "A \<inter> range_pages low_end (KERNBASE + PHYSTOP) = {}"
  proof -
    have "x < low_end" if "x \<in> A" for x using below that xs(3) by blast
    then show ?thesis by (force simp: range_pages_def)
  qed
  then have "set ys \<inter> A = {}" using s1(3) xs(2) by blast
  moreover have "set ys \<union> A = page_frames e True" using s1(3) xs(3) page_frames_grow [of e] e(3) by auto
  moreover have "kmem_ok (s1\<lparr>use_lock := True\<rparr>) ys" using s1(2) by (simp add: kmem_ok_def)
  ultimately have "kp.accounted (page_frames e True) (s1\<lparr>use_lock := True\<rparr>) A"
    using page_frames_valid [OF e(2)] s1(4) e(1) unfolding kp.accounted_def by auto
  moreover have "kinit2 (P2V (4 * 1024 * 1024)) (P2V PHYSTOP) s = Inr (s1\<lparr>use_lock := True\<rparr>)" using s1(1) by (simp only: kinit2_def boot_addresses ebind_simps)
  ultimately show ?thesis using s1(4) e(1) by auto
qed

lemma in_use_accounted:
  assumes "in_use e b s A" and e: "KERNLINK \<le> e" "e < low_end"
  shows "kend s = e \<and> kp.accounted (page_frames e b) s A"
  using assms(1)
proof (induction rule: in_use.induct)
  case (booted s0 s)
  then show ?case using kinit1_pool [OF booted(1,2) e] by auto
next
  case (extended s A s')
  then show ?case using kinit2_pool [of e s A] e by auto
next
  case (allocated b s A v s')
  have "kend s' = kend s" using allocated(2) by (auto simp: kalloc_def Let_def split: if_splits)
  then show ?case using allocated kp.accounted_take(3) by auto
next
  case (freed b s A v s')
  have "kend s' = kend s" using freed(3) by (auto simp: kfree_def Let_def split: if_splits)
  then show ?case using freed kp.accounted_give [of "page_frames e b" s A v] by auto
next
  case (written b s A v x c)
  then obtain xs where xs: "kmem_ok s xs" "set xs \<inter> A = {}" "set xs \<union> A = page_frames e b" "\<forall>w \<in> page_frames e b. valid_page (kend s) w"
    by (auto simp: kp.accounted_def)
  have "v \<notin> set xs" "v mod PGSIZE = 0" using written(2) xs valid_page_range(1) by blast+
  then have "kmem_ok (s\<lparr>kmemory := (kmemory s)(x := c)\<rparr>) xs"
    using kmem_ok_outside [OF xs(1), of v] written(3) by (auto simp: same_outside_def)
  then show ?case using xs written by (auto simp: kp.accounted_def)
qed

text \<open>C12: the kernel never hands out a page that is in use and never loses one. At every moment of the boot and after it, with
  any number of pages allocated, freed again by their users and written to, the chain of free pages in memory and the pages
  in use are exactly the page frames between the kernel and the end of the memory initialised so far: \<open>kalloc\<close> returns one of
  these that is not in use, or zero exactly when all of them are; \<open>kfree\<close> of a page in use and \<open>kinit2\<close> do not panic.\<close>

theorem kalloc_safe:
  assumes "in_use e b s A" "KERNLINK \<le> e" "e < low_end"
  shows "A \<subseteq> page_frames e b \<and> (fst (kalloc s) = 0 \<longleftrightarrow> A = page_frames e b) \<and> (fst (kalloc s) \<noteq> 0 \<longrightarrow> fst (kalloc s) \<in> page_frames e b - A) \<and>
    (\<forall>v \<in> A. \<exists>s'. kfree v s = Inr s') \<and> (\<not> b \<longrightarrow> (\<exists>s'. kinit2 (P2V (4 * 1024 * 1024)) (P2V PHYSTOP) s = Inr s'))"
proof -
  have acc: "kp.accounted (page_frames e b) s A" "kend s = e" using in_use_accounted [OF assms] by simp_all
  then have "A \<subseteq> page_frames e b" by (auto simp: kp.accounted_def)
  moreover have "fst (kalloc s) \<noteq> 0 \<longrightarrow> fst (kalloc s) \<in> page_frames e b - A"
    using kp.accounted_take(1,2) [OF acc(1), of "fst (kalloc s)" "snd (kalloc s)"] by simp
  moreover have "\<forall>v \<in> A. \<exists>s'. kfree v s = Inr s'" using kp.accounted_give [OF acc(1)] by blast
  moreover have "\<not> b \<longrightarrow> (\<exists>s'. kinit2 (P2V (4 * 1024 * 1024)) (P2V PHYSTOP) s = Inr s')" using kinit2_pool [OF _ acc(2) assms(2,3)] acc(1) by (cases b) auto
  ultimately show ?thesis using kp.accounted_full [OF acc(1)] by blast
qed

theorem kalloc_safe_witness:
  "\<exists>s v s' s''. in_use 0x80110000 False s {} \<and> kalloc s = (v, s') \<and> v \<in> page_frames 0x80110000 False \<and> in_use 0x80110000 False s' {v} \<and>
     in_use 0x80110000 True s'' {v} \<and> (\<exists>t. kfree v s'' = Inr t)"
proof -
  let ?e = "0x80110000 :: nat"
  have e: "KERNLINK \<le> ?e" "?e < low_end" by (simp_all add: KERNLINK_def KERNBASE_def EXTMEM_def low_end_def)
  obtain s where s: "kinit1 ?e (P2V (4 * 1024 * 1024)) \<lparr>kend = ?e, use_lock = False, freelist = 0, kmemory = (\<lambda>_. 0)\<rparr> = Inr s"
    using kinit1_pool [OF _ _ e, of "\<lparr>kend = ?e, use_lock = False, freelist = 0, kmemory = (\<lambda>_. 0)\<rparr>"] by auto
  have u: "in_use ?e False s {}" by (rule booted [OF _ _ s]) simp_all
  have "?e \<in> page_frames ?e False" by (simp add: page_frames_def range_pages_def PGSIZE_def KERNBASE_def low_end_def)
  then have v: "fst (kalloc s) \<noteq> 0" "fst (kalloc s) \<in> page_frames ?e False" using kalloc_safe [OF u e] by auto
  obtain v s' where k: "kalloc s = (v, s')" by (cases "kalloc s")
  have u': "in_use ?e False s' {v}" using allocated [OF u k] v k by simp
  then obtain s'' where "kinit2 (P2V (4 * 1024 * 1024)) (P2V PHYSTOP) s' = Inr s''" using kalloc_safe [OF u' e] by blast
  then have u'': "in_use ?e True s'' {v}" by (rule extended [OF u'])
  then obtain t where "kfree v s'' = Inr t" using kalloc_safe [OF u'' e] by blast
  then show ?thesis using u u' u'' k v(2) [unfolded k fst_conv] by blast
qed

end
