(* ===== verification/XV6_VM.thy ===== *)
theory XV6_VM
  imports XV6_Kalloc
begin

text \<open>
  Virtual memory of xv6, \<open>src/project3/xv6-modified/vm.c\<close>: two-level page tables in the pages of the
  allocator. A page directory is the address of its page, an entry the 32 bit number stored there; a
  null pointer is the address zero. The processor's registers and descriptors (\<open>seginit\<close>, \<open>switchuvm\<close>,
  \<open>lcr3\<close>) are not part of the state. The abstraction of an address space is the partial map from page
  numbers to entries, and the lemmas show how each operation changes it and which page it takes from
  the allocator or gives back.
\<close>

unbundle bit_operations_syntax

definition PTE_P :: nat where "PTE_P = 0x001"
definition PTE_W :: nat where "PTE_W = 0x002"
definition PTE_U :: nat where "PTE_U = 0x004"
definition NPDENTRIES :: nat where "NPDENTRIES = 1024"

definition PDX :: "nat \<Rightarrow> nat" where "PDX va = drop_bit 22 va AND 0x3FF"
definition PTX :: "nat \<Rightarrow> nat" where "PTX va = drop_bit 12 va AND 0x3FF"
definition PGADDR :: "nat \<Rightarrow> nat \<Rightarrow> nat \<Rightarrow> nat" where "PGADDR d t j = (push_bit 22 d OR push_bit 12 t OR j) mod 2 ^ 32"
definition PTE_ADDR :: "nat \<Rightarrow> nat" where "PTE_ADDR pte = pte - pte mod 4096"
definition PTE_FLAGS :: "nat \<Rightarrow> nat" where "PTE_FLAGS pte = pte AND 0xFFF"

definition stw :: "nat \<Rightarrow> nat \<Rightarrow> kmem \<Rightarrow> kmem" where
  "stw a x s = s\<lparr>kmemory := store32 a (word_of_nat x) (kmemory s)\<rparr>"

definition ldw :: "nat \<Rightarrow> kmem \<Rightarrow> nat" where
  "ldw a s = load32 a (kmemory s)"

definition fill :: "nat \<Rightarrow> uint32 \<Rightarrow> kmem \<Rightarrow> kmem" where
  "fill a c s = s\<lparr>kmemory := memset_c a c PGSIZE (kmemory s)\<rparr>"

definition walkpgdir :: "nat \<Rightarrow> nat \<Rightarrow> bool \<Rightarrow> kmem \<Rightarrow> nat \<times> kmem" where
  "walkpgdir pgdir va alloc s =
     (let pde = pgdir + 4 * PDX va in
      if ldw pde s AND PTE_P \<noteq> 0 then (P2V (PTE_ADDR (ldw pde s)) + 4 * PTX va, s)
      else if \<not> alloc then (0, s)
      else
        (case kalloc s of
           (pgtab, s1) \<Rightarrow>
             if pgtab = 0 then (0, s1)
             else (pgtab + 4 * PTX va, stw pde (V2P pgtab OR PTE_P OR PTE_W OR PTE_U) (fill pgtab 0 s1))))"

text \<open>The loop of \<open>mappages\<close> for \<open>Suc k\<close> pages; \<open>True\<close> is the result \<open>0\<close>, \<open>False\<close> is \<open>-1\<close>.\<close>

fun mappages_loop :: "nat \<Rightarrow> nat \<Rightarrow> nat \<Rightarrow> nat \<Rightarrow> nat \<Rightarrow> kmem \<Rightarrow> fault + bool \<times> kmem" where
  "mappages_loop k pgdir a pa perm s =
     (case walkpgdir pgdir a True s of
        (pte, s1) \<Rightarrow>
          if pte = 0 then Inr (False, s1)
          else if ldw pte s1 AND PTE_P \<noteq> 0 then Inl (Panic ''remap'')
          else
            let s2 = stw pte (pa OR perm OR PTE_P) s1 in
            (case k of
               0 \<Rightarrow> Inr (True, s2)
             | Suc k' \<Rightarrow> mappages_loop k' pgdir ((a + PGSIZE) mod 2 ^ 32) ((pa + PGSIZE) mod 2 ^ 32) perm s2))"

declare mappages_loop.simps [simp del]

definition mappages :: "nat \<Rightarrow> nat \<Rightarrow> nat \<Rightarrow> nat \<Rightarrow> nat \<Rightarrow> kmem \<Rightarrow> fault + bool \<times> kmem" where
  "mappages pgdir va sz pa perm s =
     (let a = PGROUNDDOWN va; last = PGROUNDDOWN ((va + sz + 2 ^ 32 - 1) mod 2 ^ 32) in
      mappages_loop ((last + 2 ^ 32 - a) mod 2 ^ 32 div PGSIZE) pgdir a pa perm s)"

text \<open>One round of the loop of \<open>deallocuvm\<close>: the next address. The address is 32 bits wide; when it wraps around it is below
  \<open>oldsz\<close> again, everything from there on is unmapped already, and the loop never ends.\<close>

definition dealloc_page :: "nat \<Rightarrow> nat \<Rightarrow> kmem \<Rightarrow> fault + nat \<times> kmem" where
  "dealloc_page pgdir a s =
     (case walkpgdir pgdir a False s of
        (pte, s0) \<Rightarrow>
          if pte = 0 then Inr (PGADDR (PDX a + 1) 0 0, s0)
          else if ldw pte s0 AND PTE_P \<noteq> 0
          then
            let pa = PTE_ADDR (ldw pte s0) in
            if pa = 0 then Inl (Panic ''kfree'')
            else ebind (kfree (P2V pa) s0) (\<lambda>s1. Inr ((a + PGSIZE) mod 2 ^ 32, stw pte 0 s1))
          else Inr ((a + PGSIZE) mod 2 ^ 32, s0))"

function deallocuvm_loop :: "nat \<Rightarrow> nat \<Rightarrow> nat \<Rightarrow> kmem \<Rightarrow> fault + kmem" where
  "deallocuvm_loop pgdir a oldsz s =
     (if a < oldsz
      then ebind (dealloc_page pgdir a s) (\<lambda>(a', s1). if a' \<le> a then Inl Diverges else deallocuvm_loop pgdir a' oldsz s1)
      else Inr s)"
  by pat_completeness auto
termination
  by (relation "measure (\<lambda>(pgdir, a, oldsz, s). oldsz - a)") auto

declare deallocuvm_loop.simps [simp del]

definition deallocuvm :: "nat \<Rightarrow> nat \<Rightarrow> nat \<Rightarrow> kmem \<Rightarrow> fault + nat \<times> kmem" where
  "deallocuvm pgdir oldsz newsz s =
     (if newsz \<ge> oldsz then Inr (oldsz, s)
      else ebind (deallocuvm_loop pgdir (PGROUNDUP newsz) oldsz s) (\<lambda>s1. Inr (newsz, s1)))"

function allocuvm_loop :: "nat \<Rightarrow> nat \<Rightarrow> nat \<Rightarrow> nat \<Rightarrow> kmem \<Rightarrow> fault + nat \<times> kmem" where
  "allocuvm_loop pgdir a oldsz newsz s =
     (if a < newsz
      then
        (case kalloc s of
           (mem, s1) \<Rightarrow>
             if mem = 0 then ebind (deallocuvm pgdir newsz oldsz s1) (\<lambda>(_, s2). Inr (0, s2))
             else
               ebind (mappages pgdir a PGSIZE (V2P mem) (PTE_W OR PTE_U) (fill mem 0 s1)) (\<lambda>(ok, s2).
                 if \<not> ok
                 then ebind (deallocuvm pgdir newsz oldsz s2) (\<lambda>(_, s3). ebind (kfree mem s3) (\<lambda>s4. Inr (0, s4)))
                 else allocuvm_loop pgdir (a + PGSIZE) oldsz newsz s2))
      else Inr (newsz, s))"
  by pat_completeness auto
termination
  by (relation "measure (\<lambda>(pgdir, a, oldsz, newsz, s). newsz - a)") (auto simp: PGSIZE_def)

declare allocuvm_loop.simps [simp del]

text \<open>The loop runs only when \<open>newsz < KERNBASE\<close>, so \<open>a + PGSIZE\<close> stays below \<open>2 ^ 32\<close>.\<close>

definition allocuvm :: "nat \<Rightarrow> nat \<Rightarrow> nat \<Rightarrow> kmem \<Rightarrow> fault + nat \<times> kmem" where
  "allocuvm pgdir oldsz newsz s =
     (if newsz \<ge> KERNBASE then Inr (0, s)
      else if newsz < oldsz then Inr (oldsz, s)
      else allocuvm_loop pgdir (PGROUNDUP oldsz) oldsz newsz s)"

fun free_tables :: "nat \<Rightarrow> nat list \<Rightarrow> kmem \<Rightarrow> fault + kmem" where
  "free_tables pgdir [] s = Inr s"
| "free_tables pgdir (i # is) s =
     (if ldw (pgdir + 4 * i) s AND PTE_P \<noteq> 0
      then ebind (kfree (P2V (PTE_ADDR (ldw (pgdir + 4 * i) s))) s) (free_tables pgdir is)
      else free_tables pgdir is s)"

definition freevm :: "nat \<Rightarrow> kmem \<Rightarrow> fault + kmem" where
  "freevm pgdir s =
     (if pgdir = 0 then Inl (Panic ''freevm: no pgdir'')
      else
        ebind (deallocuvm pgdir KERNBASE 0 s) (\<lambda>(_, s1).
          ebind (free_tables pgdir [0..<NPDENTRIES] s1) (kfree pgdir)))"

text \<open>The kernel's mappings: virtual address, physical start and end, permission; \<open>data\<close> comes from the linker script.\<close>

definition kmap :: "nat \<Rightarrow> (nat \<times> nat \<times> nat \<times> nat) list" where
  "kmap data = [(KERNBASE, 0, EXTMEM, PTE_W), (KERNLINK, V2P KERNLINK, V2P data, 0), (data, V2P data, PHYSTOP, PTE_W), (DEVSPACE, DEVSPACE, 0, PTE_W)]"

fun setup_maps :: "nat \<Rightarrow> (nat \<times> nat \<times> nat \<times> nat) list \<Rightarrow> kmem \<Rightarrow> fault + nat \<times> kmem" where
  "setup_maps pgdir [] s = Inr (pgdir, s)"
| "setup_maps pgdir ((virt, start, stop, perm) # ks) s =
     ebind (mappages pgdir virt ((stop + 2 ^ 32 - start) mod 2 ^ 32) start perm s) (\<lambda>(ok, s1).
       if ok then setup_maps pgdir ks s1 else ebind (freevm pgdir s1) (\<lambda>s2. Inr (0, s2)))"

definition setupkvm :: "nat \<Rightarrow> kmem \<Rightarrow> fault + nat \<times> kmem" where
  "setupkvm data s =
     (case kalloc s of
        (pgdir, s1) \<Rightarrow>
          if pgdir = 0 then Inr (0, s1)
          else if P2V PHYSTOP > DEVSPACE then Inl (Panic ''PHYSTOP too high'')
          else setup_maps pgdir (kmap data) (fill pgdir 0 s1))"

definition inituvm :: "nat \<Rightarrow> byte list \<Rightarrow> kmem \<Rightarrow> fault + kmem" where
  "inituvm pgdir init s =
     (if length init \<ge> PGSIZE then Inl (Panic ''inituvm: more than a page'')
      else
        (case kalloc s of
           (mem, s1) \<Rightarrow>
             if mem = 0 then Inl Null_deref
             else
               ebind (mappages pgdir 0 PGSIZE (V2P mem) (PTE_W OR PTE_U) (fill mem 0 s1)) (\<lambda>(_, s2).
                 Inr (s2\<lparr>kmemory := (\<lambda>x. if mem \<le> x \<and> x < mem + length init then init ! (x - mem) else kmemory s2 x)\<rparr>))))"

definition clearpteu :: "nat \<Rightarrow> nat \<Rightarrow> kmem \<Rightarrow> fault + kmem" where
  "clearpteu pgdir uva s =
     (case walkpgdir pgdir uva False s of
        (pte, s1) \<Rightarrow> if pte = 0 then Inl (Panic ''clearpteu'') else Inr (stw pte (unat (word_of_nat (ldw pte s1) AND NOT (word_of_nat PTE_U) :: uint32)) s1))"

fun copy_pages :: "nat \<Rightarrow> nat \<Rightarrow> nat list \<Rightarrow> kmem \<Rightarrow> fault + nat \<times> kmem" where
  "copy_pages pgdir d [] s = Inr (d, s)"
| "copy_pages pgdir d (i # is) s =
     (case walkpgdir pgdir i False s of
        (pte, s0) \<Rightarrow>
          if pte = 0 then Inl (Panic ''copyuvm: pte should exist'')
          else if ldw pte s0 AND PTE_P = 0 then Inl (Panic ''copyuvm: page not present'')
          else
            let pa = PTE_ADDR (ldw pte s0); flags = PTE_FLAGS (ldw pte s0) in
            (case kalloc s0 of
               (mem, s1) \<Rightarrow>
                 if mem = 0 then ebind (freevm d s1) (\<lambda>s2. Inr (0, s2))
                 else
                   let s2 = s1\<lparr>kmemory := memmove mem (P2V pa) PGSIZE (kmemory s1)\<rparr> in
                   ebind (mappages d i PGSIZE (V2P mem) flags s2) (\<lambda>(ok, s3).
                     if ok then copy_pages pgdir d is s3
                     else ebind (kfree mem s3) (\<lambda>s4. ebind (freevm d s4) (\<lambda>s5. Inr (0, s5))))))"

text \<open>The addresses \<open>i\<close> of the loop \<open>for (i = 0; i < sz; i += PGSIZE)\<close>.\<close>

definition page_starts :: "nat \<Rightarrow> nat list" where
  "page_starts sz = map (\<lambda>k. k * PGSIZE) [0..<(sz + PGSIZE - 1) div PGSIZE]"

definition copyuvm :: "nat \<Rightarrow> nat \<Rightarrow> nat \<Rightarrow> kmem \<Rightarrow> fault + nat \<times> kmem" where
  "copyuvm data pgdir sz s =
     ebind (setupkvm data s) (\<lambda>(d, s1). if d = 0 then Inr (0, s1) else copy_pages pgdir d (page_starts sz) s1)"

text \<open>\<open>uva2ka\<close> reads the entry without a test for the null pointer.\<close>

definition uva2ka :: "nat \<Rightarrow> nat \<Rightarrow> kmem \<Rightarrow> fault + nat" where
  "uva2ka pgdir uva s =
     (case walkpgdir pgdir uva False s of
        (pte, _) \<Rightarrow>
          if pte = 0 then Inl Null_deref
          else if ldw pte s AND PTE_P = 0 then Inr 0
          else if ldw pte s AND PTE_U = 0 then Inr 0
          else Inr (P2V (PTE_ADDR (ldw pte s))))"

definition put_mem :: "nat \<Rightarrow> byte list \<Rightarrow> kmem \<Rightarrow> kmem" where
  "put_mem a bs s = s\<lparr>kmemory := (\<lambda>x. if a \<le> x \<and> x < a + length bs then bs ! (x - a) else kmemory s x)\<rparr>"

function copyout :: "nat \<Rightarrow> nat \<Rightarrow> byte list \<Rightarrow> kmem \<Rightarrow> fault + bool \<times> kmem" where
  "copyout pgdir va p s =
     (if p = [] then Inr (True, s)
      else
        let va0 = PGROUNDDOWN va in
        ebind (uva2ka pgdir va0 s) (\<lambda>pa0.
          if pa0 = 0 then Inr (False, s)
          else
            let n = min (PGSIZE - (va - va0)) (length p) in
            copyout pgdir ((va0 + PGSIZE) mod 2 ^ 32) (drop n p) (put_mem (pa0 + (va - va0)) (take n p) s)))"
  by pat_completeness auto
termination
  by (relation "measure (\<lambda>(pgdir, va, p, s). length p)") (auto simp: PGROUNDDOWN_def PGSIZE_def)

declare copyout.simps [simp del]

subsection \<open>Entries\<close>

lemma and_present [simp]: "(x AND PTE_P = 0) = even x"
  by (simp add: PTE_P_def and_one_eq even_iff_mod_2_eq_zero)

lemma index_mask: "(x :: nat) AND 1023 = x mod 1024"
  using take_bit_eq_mask [of 10 x] by (simp add: mask_eq_exp_minus_1 take_bit_eq_mod)

text \<open>Page numbers: \<open>n\<close> is the page of the addresses from \<open>4096 * n\<close> on.\<close>

lemma PDX_page: "n < 2 ^ 20 \<Longrightarrow> PDX (PGSIZE * n) = n div 1024"
  by (simp add: PDX_def index_mask PGSIZE_def drop_bit_eq_div div_mult2_eq)

lemma PTX_page: "PTX (PGSIZE * n) = n mod 1024"
  by (simp add: PTX_def index_mask PGSIZE_def drop_bit_eq_div)

lemma or_disjoint: "4096 dvd (p :: nat) \<Longrightarrow> f < 4096 \<Longrightarrow> p OR f = p + f"
proof (rule disjunctive_add_eq_or [symmetric])
  assume "4096 dvd p" "f < 4096"
  then have "take_bit 12 p = 0" "take_bit 12 f = f" by (auto simp: take_bit_eq_mod)
  then have "p AND f = p AND take_bit 12 f" by simp
  also have "\<dots> = take_bit 12 p AND f" by (simp add: take_bit_eq_mask ac_simps)
  finally show "p AND f = 0" using \<open>take_bit 12 p = 0\<close> by simp
qed

lemma flags_or: "perm < 4096 \<Longrightarrow> (perm :: nat) OR PTE_P < 4096" "odd ((perm :: nat) OR PTE_P)"
  by (auto simp: PTE_P_def or_Suc_0_eq)

lemma PTE_ADDR_or: "4096 dvd p \<Longrightarrow> f < 4096 \<Longrightarrow> PTE_ADDR (p OR f) = p" "4096 dvd p \<Longrightarrow> f < 4096 \<Longrightarrow> odd (p OR f) = odd f"
  using dvd_trans [of 2 4096 p] by (auto simp: or_disjoint PTE_ADDR_def mod_eq_0_iff_dvd mod_add_left_eq dvd_imp_mod_0 mod_add_eq [symmetric])

text \<open>A page of the allocator as physical address.\<close>

lemma V2P_page:
  assumes "valid_page e v"
  shows "4096 dvd V2P v" "V2P v < PHYSTOP" "V2P v = v - KERNBASE"
proof -
  note r = valid_page_range [OF assms]
  obtain d where "v = KERNBASE + d" using r(3) le_Suc_ex by blast
  then have e: "V2P v = v - KERNBASE" using r(4) by (simp add: V2P_def KERNBASE_def PHYSTOP_def)
  then show "V2P v = v - KERNBASE" .
  show "4096 dvd V2P v" "V2P v < PHYSTOP" using r e by (auto simp: PGSIZE_def KERNBASE_def dvd_minus_self intro!: dvd_diff_nat)
qed

lemma pte_value:
  assumes "valid_page e t" "f < 4096"
  shows "V2P t OR f < 2 ^ 32" "odd (V2P t OR f) = odd f" "PTE_ADDR (V2P t OR f) = V2P t" "P2V (PTE_ADDR (V2P t OR f)) = t"
proof -
  note d = V2P_page(1) [OF assms(1)]
  show "V2P t OR f < 2 ^ 32" unfolding or_disjoint [OF d assms(2)] using V2P_page(2) [OF assms(1)] assms(2) by (simp add: PHYSTOP_def)
  show "odd (V2P t OR f) = odd f" by (rule PTE_ADDR_or(2) [OF d assms(2)])
  show a: "PTE_ADDR (V2P t OR f) = V2P t" by (rule PTE_ADDR_or(1) [OF d assms(2)])
  show "P2V (PTE_ADDR (V2P t OR f)) = t" unfolding a by (rule P2V_V2P [OF assms(1)])
qed

subsection \<open>Words of pages\<close>

lemma stw_simps [simp]: "kend (stw a x s) = kend s" "freelist (stw a x s) = freelist s" "kend (fill a c s) = kend s" "freelist (fill a c s) = freelist s"
  by (simp_all add: stw_def fill_def)

lemma ldw_stw [simp]: "x < 2 ^ 32 \<Longrightarrow> ldw a (stw a x s) = x"
  by (simp add: ldw_def stw_def unat_of_nat)

lemma ldw_stw_other: "a + 4 \<le> b \<or> b + 4 \<le> a \<Longrightarrow> ldw a (stw b x s) = ldw a s"
  by (simp add: ldw_def stw_def)

lemma ldw_slots:
  assumes "p mod PGSIZE = 0" "q mod PGSIZE = 0" "i < 1024" "j < 1024" "(p, i) \<noteq> (q, j)"
  shows "ldw (p + 4 * i) (stw (q + 4 * j) x s) = ldw (p + 4 * i) s"
proof (rule ldw_stw_other)
  have "p = q \<or> p + PGSIZE \<le> q \<or> q + PGSIZE \<le> p"
    using pages_apart [OF assms(1,2), of q] pages_apart [OF assms(2,1), of p] by (force simp: in_page_def PGSIZE_def)
  then show "p + 4 * i + 4 \<le> q + 4 * j \<or> q + 4 * j + 4 \<le> p + 4 * i" using assms(3,4,5) by (auto simp: PGSIZE_def)
qed

lemma ldw_page:
  assumes "i < 1024" "\<And>x. in_page p x \<Longrightarrow> kmemory s' x = kmemory s x"
  shows "ldw (p + 4 * i) s' = ldw (p + 4 * i) s"
  unfolding ldw_def by (rule load32_cong) (rule assms(2), use assms(1) in \<open>auto simp: in_page_def PGSIZE_def\<close>)

lemma fill_outside: "same_outside p (kmemory s) (kmemory (fill p c s))"
  by (auto simp: same_outside_def fill_def memset_spec in_page_def)

lemma stw_outside: "i < 1024 \<Longrightarrow> same_outside p (kmemory s) (kmemory (stw (p + 4 * i) x s))"
  by (auto simp: same_outside_def stw_def in_page_def PGSIZE_def)

lemma ldw_fill: "i < 1024 \<Longrightarrow> ldw (p + 4 * i) (fill p 0 s) = 0"
  by (simp add: ldw_def fill_def load32_def memset_spec PGSIZE_def)

subsection \<open>Address spaces\<close>

definition pde :: "kmem \<Rightarrow> nat \<Rightarrow> nat \<Rightarrow> nat" where
  "pde s pd i = ldw (pd + 4 * i) s"

definition tab :: "kmem \<Rightarrow> nat \<Rightarrow> nat \<Rightarrow> nat" where
  "tab s pd i = P2V (PTE_ADDR (pde s pd i))"

definition entry :: "kmem \<Rightarrow> nat \<Rightarrow> nat \<Rightarrow> nat option" where
  "entry s pd n =
     (if odd (pde s pd (n div 1024))
      then let x = ldw (tab s pd (n div 1024) + 4 * (n mod 1024)) s in if odd x then Some x else None
      else None)"

definition frame_of :: "nat \<Rightarrow> nat" where
  "frame_of x = P2V (PTE_ADDR x)"

definition live :: "kmem \<Rightarrow> nat \<Rightarrow> nat set" where
  "live s pd = {i. i < 1024 \<and> odd (pde s pd i)}"

definition tables :: "kmem \<Rightarrow> nat \<Rightarrow> nat set" where
  "tables s pd = insert pd (tab s pd ` live s pd)"

text \<open>The number of pages below \<open>KERNBASE\<close>.\<close>

definition user_pages :: nat where "user_pages = 524288"

definition frames :: "kmem \<Rightarrow> nat \<Rightarrow> nat set" where
  "frames s pd = {frame_of x | n x. n < user_pages \<and> entry s pd n = Some x}"

definition vm_ok :: "kmem \<Rightarrow> nat \<Rightarrow> nat list \<Rightarrow> bool" where
  "vm_ok s pd xs \<longleftrightarrow> KERNBASE < kend s \<and> kmem_ok s xs \<and> (\<forall>p \<in> tables s pd \<union> frames s pd. valid_page (kend s) p) \<and>
     set xs \<inter> (tables s pd \<union> frames s pd) = {} \<and> tables s pd \<inter> frames s pd = {} \<and>
     pd \<notin> tab s pd ` live s pd \<and> inj_on (tab s pd) (live s pd) \<and>
     (\<forall>n n' x x'. n < user_pages \<longrightarrow> n' < user_pages \<longrightarrow> entry s pd n = Some x \<longrightarrow> entry s pd n' = Some x' \<longrightarrow> frame_of x = frame_of x' \<longrightarrow> n = n')"

lemma vpn_index: "n < 2 ^ 20 \<Longrightarrow> n div 1024 < 1024" "n < user_pages \<Longrightarrow> n < 2 ^ 20"
  by (auto simp: user_pages_def)

text \<open>An address space depends on the contents of its tables only.\<close>

definition agree :: "nat set \<Rightarrow> kmem \<Rightarrow> kmem \<Rightarrow> bool" where
  "agree P s s' \<longleftrightarrow> (\<forall>p \<in> P. \<forall>x. in_page p x \<longrightarrow> kmemory s' x = kmemory s x)"

lemma agreeD: "agree P s s' \<Longrightarrow> p \<in> P \<Longrightarrow> i < 1024 \<Longrightarrow> ldw (p + 4 * i) s' = ldw (p + 4 * i) s"
  by (rule ldw_page) (auto simp: agree_def)

lemma agree_outside:
  assumes "same_outside q (kmemory s) (kmemory s')" "q mod PGSIZE = 0" "q \<notin> P" "\<forall>p \<in> P. p mod PGSIZE = 0"
  shows "agree P s s'"
  using assms pages_apart [OF _ assms(2)] unfolding agree_def same_outside_def by metis

lemma agree_trans: "agree P s s' \<Longrightarrow> agree P s' s'' \<Longrightarrow> agree P s s''"
  by (simp add: agree_def)

lemma agree_refl: "kmemory s' = kmemory s \<Longrightarrow> agree P s s'"
  by (simp add: agree_def)

lemma agree_mono: "agree P s s' \<Longrightarrow> Q \<subseteq> P \<Longrightarrow> agree Q s s'"
  by (auto simp: agree_def)

lemma space_agree:
  assumes "agree (tables s pd) s s'"
  shows "i < 1024 \<Longrightarrow> pde s' pd i = pde s pd i" "i < 1024 \<Longrightarrow> tab s' pd i = tab s pd i" "live s' pd = live s pd"
    "tables s' pd = tables s pd" "n < 2 ^ 20 \<Longrightarrow> entry s' pd n = entry s pd n" "frames s' pd = frames s pd"
proof -
  have p: "pde s' pd i = pde s pd i" if "i < 1024" for i using agreeD [OF assms, of pd i] that by (simp add: pde_def tables_def)
  then show "i < 1024 \<Longrightarrow> pde s' pd i = pde s pd i" .
  have t: "tab s' pd i = tab s pd i" if "i < 1024" for i using p [OF that] by (simp add: tab_def)
  then show "i < 1024 \<Longrightarrow> tab s' pd i = tab s pd i" .
  show l: "live s' pd = live s pd" using p by (auto simp: live_def)
  show "tables s' pd = tables s pd" proof -
    have "tab s' pd ` live s pd = tab s pd ` live s pd" using t by (auto simp: live_def)
    then show ?thesis by (simp add: tables_def l)
  qed
  have e: "entry s' pd n = entry s pd n" if "n < 2 ^ 20" for n
  proof (cases "odd (pde s pd (n div 1024))")
    case True
    note i = vpn_index(1) [OF that]
    have "tab s pd (n div 1024) \<in> tables s pd" using True i by (auto simp: tables_def live_def)
    then have "ldw (tab s pd (n div 1024) + 4 * (n mod 1024)) s' = ldw (tab s pd (n div 1024) + 4 * (n mod 1024)) s"
      using agreeD [OF assms] by simp
    then show ?thesis using p [OF i] t [OF i] by (simp add: entry_def)
  next
    case False
    then show ?thesis using p [OF vpn_index(1) [OF that]] by (simp add: entry_def)
  qed
  then show "n < 2 ^ 20 \<Longrightarrow> entry s' pd n = entry s pd n" .
  have "entry s' pd n = entry s pd n" if "n < user_pages" for n using e vpn_index(2) [OF that] by simp
  then show "frames s' pd = frames s pd" unfolding frames_def by force
qed

lemma vm_ok_agree:
  assumes ok: "vm_ok s pd xs" and a: "agree (tables s pd) s s'" and k: "kmem_ok s' ys" "kend s' = kend s"
    and d: "set ys \<inter> (tables s pd \<union> frames s pd) = {}"
  shows "vm_ok s' pd ys"
proof -
  note eq = space_agree [OF a]
  have e: "entry s' pd n = entry s pd n" if "n < user_pages" for n using eq(5) vpn_index(2) [OF that] by simp
  have t: "tab s' pd ` live s pd = tab s pd ` live s pd" using eq(2) by (auto simp: live_def)
  have "inj_on (tab s' pd) (live s pd) \<longleftrightarrow> inj_on (tab s pd) (live s pd)" using eq(2) by (intro inj_on_cong) (simp add: live_def)
  then show ?thesis using ok k d unfolding vm_ok_def by (simp add: eq(3,4,6) t e)
qed

lemma vm_ok_aligned: "vm_ok s pd xs \<Longrightarrow> p \<in> tables s pd \<union> frames s pd \<union> set xs \<Longrightarrow> p mod PGSIZE = 0"
  using valid_page_range(1) by (auto simp: vm_ok_def kmem_ok_def)

text \<open>What the writing of an entry relies on.\<close>

definition tables_ok :: "kmem \<Rightarrow> nat \<Rightarrow> nat list \<Rightarrow> bool" where
  "tables_ok s pd xs \<longleftrightarrow> kmem_ok s xs \<and> (\<forall>p \<in> tables s pd. valid_page (kend s) p) \<and> set xs \<inter> tables s pd = {} \<and>
     pd \<notin> tab s pd ` live s pd \<and> inj_on (tab s pd) (live s pd)"

lemma vm_ok_tables: "vm_ok s pd xs \<Longrightarrow> tables_ok s pd xs"
  by (auto simp: vm_ok_def tables_ok_def)

lemma tables_ok_aligned: "tables_ok s pd xs \<Longrightarrow> p \<in> tables s pd \<Longrightarrow> p mod PGSIZE = 0"
  using valid_page_range(1) by (auto simp: tables_ok_def)

lemma tables_ok_agree:
  assumes ok: "tables_ok s pd xs" and a: "agree (tables s pd) s s'" and k: "kmem_ok s' ys" "kend s' = kend s" "set ys \<inter> tables s pd = {}"
  shows "tables_ok s' pd ys"
proof -
  note eq = space_agree [OF a]
  have t: "tab s' pd ` live s pd = tab s pd ` live s pd" using eq(2) by (auto simp: live_def)
  have "inj_on (tab s' pd) (live s pd) \<longleftrightarrow> inj_on (tab s pd) (live s pd)" using eq(2) by (intro inj_on_cong) (simp add: live_def)
  then show ?thesis using ok k unfolding tables_ok_def by (simp add: eq(3,4) t)
qed

text \<open>\<open>walkpgdir\<close> adds a page table.\<close>

lemma add_table:
  assumes ok: "vm_ok s pd xs" and i: "i < 1024" "even (pde s pd i)"
    and t: "valid_page (kend s) t" "t \<notin> tables s pd \<union> frames s pd" "t \<notin> set xs"
  defines "s' \<equiv> stw (pd + 4 * i) (V2P t OR PTE_P OR PTE_W OR PTE_U) (fill t 0 s)"
  shows "vm_ok s' pd xs" "tables s' pd = insert t (tables s pd)" "\<And>n. n < 2 ^ 20 \<Longrightarrow> entry s' pd n = entry s pd n"
    "odd (pde s' pd i)" "tab s' pd i = t" "frames s' pd = frames s pd" "kend s' = kend s" "\<And>x. \<not> in_page t x \<Longrightarrow> \<not> in_page pd x \<Longrightarrow> kmemory s' x = kmemory s x"
proof -
  have al: "pd mod PGSIZE = 0" "t mod PGSIZE = 0" "t \<noteq> pd"
    using vm_ok_aligned [OF ok] valid_page_range(1) [OF t(1)] t(2) by (auto simp: tables_def)
  let ?v = "V2P t OR PTE_P OR PTE_W OR PTE_U"
  have seven: "?v = V2P t OR 7" by (simp add: PTE_P_def PTE_W_def PTE_U_def)
  have v: "?v < 2 ^ 32" "odd ?v" "PTE_ADDR ?v = V2P t"
    unfolding seven using pte_value [OF t(1), of 7] by simp_all
  have other: "ldw (p + 4 * j) s' = ldw (p + 4 * j) s" if "p mod PGSIZE = 0" "p \<noteq> t" "j < 1024" "(p, j) \<noteq> (pd, i)" for p j
  proof -
    have "ldw (p + 4 * j) s' = ldw (p + 4 * j) (fill t 0 s)" unfolding s'_def using ldw_slots [OF that(1) al(1) that(3) i(1) that(4)] .
    also have "\<dots> = ldw (p + 4 * j) s" using fill_outside [of t s 0] pages_apart [OF that(1) al(2) that(2)] that(3)
      by (intro ldw_page) (auto simp: same_outside_def)
    finally show ?thesis .
  qed
  have pi: "pde s' pd i = ?v" using v(1) by (simp add: pde_def s'_def)
  have pj: "pde s' pd j = pde s pd j" if "j < 1024" "j \<noteq> i" for j using other [of pd j] that al by (simp add: pde_def)
  show oi: "odd (pde s' pd i)" and ti: "tab s' pd i = t" using pi v P2V_V2P [OF t(1)] by (simp_all add: tab_def)
  have tj: "tab s' pd j = tab s pd j" if "j < 1024" "j \<noteq> i" for j using pj [OF that] by (simp add: tab_def)
  have oj: "odd (pde s' pd j) \<longleftrightarrow> j = i \<or> odd (pde s pd j)" if "j < 1024" for j using oi pj [OF that] by (cases "j = i") auto
  have live: "live s' pd = insert i (live s pd)" "i \<notin> live s pd" using i oj by (auto simp: live_def)
  have im: "tab s' pd ` live s pd = tab s pd ` live s pd" using tj live(2) by (intro image_cong) (auto simp: live_def)
  show tabs: "tables s' pd = insert t (tables s pd)" using ti im by (auto simp: tables_def live(1))
  have en: "entry s' pd n = entry s pd n" if "n < 2 ^ 20" for n
  proof (cases "n div 1024 = i")
    case True
    have z: "ldw (t + 4 * j) s' = 0" if "j < 1024" for j
      using ldw_slots [OF al(2,1) that i(1), of ?v "fill t 0 s"] al(3) ldw_fill [OF that] by (simp add: s'_def)
    show ?thesis using True i(2) z ti by (simp add: entry_def Let_def)
  next
    case False
    note d = vpn_index(1) [OF that]
    show ?thesis
    proof (cases "odd (pde s pd (n div 1024))")
      case True
      then have "tab s pd (n div 1024) \<in> tab s pd ` live s pd" using d by (auto simp: live_def)
      then have "ldw (tab s pd (n div 1024) + 4 * (n mod 1024)) s' = ldw (tab s pd (n div 1024) + 4 * (n mod 1024)) s"
        using ok t(2) vm_ok_aligned [OF ok] by (intro other) (auto simp: tables_def vm_ok_def)
      then show ?thesis using pj [OF d False] tj [OF d False] by (simp add: entry_def)
    qed (use pj [OF d False] in \<open>simp add: entry_def\<close>)
  qed
  then show "\<And>n. n < 2 ^ 20 \<Longrightarrow> entry s' pd n = entry s pd n" .
  have eu: "entry s' pd n = entry s pd n" if "n < user_pages" for n using en vpn_index(2) [OF that] by simp
  show fr: "frames s' pd = frames s pd" unfolding frames_def using eu by force
  show ke: "kend s' = kend s" by (simp add: s'_def)
  show mem: "kmemory s' x = kmemory s x" if "\<not> in_page t x" "\<not> in_page pd x" for x
    using that fill_outside [of t s 0] stw_outside [OF i(1), of pd "fill t 0 s" ?v] by (simp add: s'_def same_outside_def)
  have "kmem_ok s' xs"
  proof -
    have "kmem_ok (fill t 0 s) xs" using kmem_ok_outside [OF _ al(2) t(3) fill_outside [of t s 0]] ok by (simp add: vm_ok_def fill_def)
    moreover have "pd \<notin> set xs" using ok by (auto simp: vm_ok_def tables_def)
    ultimately have "kmem_ok ((fill t 0 s)\<lparr>kmemory := kmemory s'\<rparr>) xs"
      using kmem_ok_outside [OF _ al(1), of "fill t 0 s" xs] stw_outside [OF i(1), of pd "fill t 0 s" ?v] by (simp add: s'_def)
    then show ?thesis by (simp add: s'_def stw_def)
  qed
  moreover have "inj_on (tab s' pd) (live s' pd)"
  proof -
    have "inj_on (tab s' pd) (live s pd)" using ok tj live(2) by (subst inj_on_cong [of _ _ "tab s pd"]) (auto simp: live_def vm_ok_def)
    then show ?thesis using t(2) im ti live by (auto simp: tables_def)
  qed
  ultimately show "vm_ok s' pd xs"
    using ok t al(3) unfolding vm_ok_def by (auto simp: tabs fr ke eu im ti live(1) simp del: image_iff)
qed

text \<open>A store to an entry.\<close>

lemma set_entry:
  assumes ok: "tables_ok s pd xs" and n: "n < 2 ^ 20" "odd (pde s pd (n div 1024))" and x: "x < 2 ^ 32"
  defines "s' \<equiv> stw (tab s pd (n div 1024) + 4 * (n mod 1024)) x s"
  shows "tables s' pd = tables s pd" "live s' pd = live s pd" "\<And>i. i < 1024 \<Longrightarrow> tab s' pd i = tab s pd i"
    "\<And>m. m < 2 ^ 20 \<Longrightarrow> entry s' pd m = (if m = n then if odd x then Some x else None else entry s pd m)"
    "kmem_ok s' xs" "kend s' = kend s" "\<And>y. (\<And>p. p \<in> tables s pd \<Longrightarrow> \<not> in_page p y) \<Longrightarrow> kmemory s' y = kmemory s y"
    "\<And>i. i < 1024 \<Longrightarrow> pde s' pd i = pde s pd i"
proof -
  let ?t = "tab s pd (n div 1024)"
  note d = vpn_index(1) [OF n(1)]
  have t: "?t \<in> tab s pd ` live s pd" "?t \<in> tables s pd" using d n(2) by (auto simp: tables_def live_def)
  have al: "?t mod PGSIZE = 0" "pd mod PGSIZE = 0" using tables_ok_aligned [OF ok] t(2) by (auto simp: tables_def)
  have pd: "?t \<noteq> pd" "pd \<noteq> ?t" using ok t(1) by (auto simp: tables_ok_def)
  have p: "pde s' pd i = pde s pd i" if "i < 1024" for i
    using ldw_slots [OF al(2,1) that, of "n mod 1024" x s] pd by (simp add: pde_def s'_def)
  then show "\<And>i. i < 1024 \<Longrightarrow> pde s' pd i = pde s pd i" .
  have tb: "tab s' pd i = tab s pd i" if "i < 1024" for i using p [OF that] by (simp add: tab_def)
  then show "\<And>i. i < 1024 \<Longrightarrow> tab s' pd i = tab s pd i" .
  show l: "live s' pd = live s pd" using p by (auto simp: live_def)
  have "tab s' pd ` live s pd = tab s pd ` live s pd" using tb by (auto simp: live_def)
  then show "tables s' pd = tables s pd" by (simp add: tables_def l)
  show "entry s' pd m = (if m = n then if odd x then Some x else None else entry s pd m)" if m: "m < 2 ^ 20" for m
  proof (cases "odd (pde s pd (m div 1024))")
    case True
    note dm = vpn_index(1) [OF m]
    have tm: "tab s pd (m div 1024) \<in> tab s pd ` live s pd" using True dm by (auto simp: live_def)
    then have am: "tab s pd (m div 1024) mod PGSIZE = 0" using tables_ok_aligned [OF ok] by (auto simp: tables_def)
    show ?thesis
    proof (cases "m = n")
      case True
      then show ?thesis using n(2) p [OF d] tb [OF d] x by (simp add: entry_def s'_def)
    next
      case False
      have "tab s pd (m div 1024) \<noteq> ?t \<or> m mod 1024 \<noteq> n mod 1024"
      proof (rule ccontr)
        assume "\<not> (tab s pd (m div 1024) \<noteq> ?t \<or> m mod 1024 \<noteq> n mod 1024)"
        moreover have "inj_on (tab s pd) (live s pd)" using ok by (simp add: tables_ok_def)
        ultimately have "m div 1024 = n div 1024" "m mod 1024 = n mod 1024" using True n(2) d dm by (auto simp: live_def inj_on_def)
        with False show False by (metis div_mult_mod_eq)
      qed
      then have "ldw (tab s pd (m div 1024) + 4 * (m mod 1024)) s' = ldw (tab s pd (m div 1024) + 4 * (m mod 1024)) s"
        unfolding s'_def by (intro ldw_slots [OF am al(1)]) auto
      then show ?thesis using False p [OF dm] tb [OF dm] by (simp add: entry_def)
    qed
  next
    case False
    then show ?thesis using n(2) p [OF vpn_index(1) [OF m]] by (auto simp: entry_def)
  qed
  have "?t \<notin> set xs" using ok t(2) by (auto simp: tables_ok_def)
  then show "kmem_ok s' xs" using kmem_ok_outside [OF _ al(1), of s xs "kmemory s'"] stw_outside [of "n mod 1024" ?t s x] ok
    by (simp add: s'_def stw_def tables_ok_def)
  show "kend s' = kend s" by (simp add: s'_def)
  show "kmemory s' y = kmemory s y" if "\<And>p. p \<in> tables s pd \<Longrightarrow> \<not> in_page p y" for y
    using that [OF t(2)] stw_outside [of "n mod 1024" ?t s x] by (simp add: s'_def same_outside_def)
qed

lemma vm_ok_entry:
  assumes ok: "vm_ok s pd xs" and t: "tables s' pd = tables s pd" "live s' pd = live s pd" "\<And>i. i < 1024 \<Longrightarrow> tab s' pd i = tab s pd i"
    and k: "kmem_ok s' ys" "kend s' = kend s" "set ys \<inter> tables s pd = {}"
    and f: "frames s' pd \<inter> (tables s pd \<union> set ys) = {}" "\<And>p. p \<in> frames s' pd \<Longrightarrow> valid_page (kend s) p"
    and inj: "\<And>n n' x x'. n < user_pages \<Longrightarrow> n' < user_pages \<Longrightarrow> entry s' pd n = Some x \<Longrightarrow> entry s' pd n' = Some x' \<Longrightarrow> frame_of x = frame_of x' \<Longrightarrow> n = n'"
  shows "vm_ok s' pd ys"
proof -
  have im: "tab s' pd ` live s pd = tab s pd ` live s pd" using t(3) by (auto simp: live_def)
  have "inj_on (tab s' pd) (live s pd) \<longleftrightarrow> inj_on (tab s pd) (live s pd)" using t(3) by (intro inj_on_cong) (simp add: live_def)
  then show ?thesis using ok k f inj unfolding vm_ok_def by (simp add: t(1,2) im) blast
qed

lemma frames_eq:
  assumes "\<And>m. m < user_pages \<Longrightarrow> entry s' pd m = (if m = n then v else entry s pd m)" "n < user_pages"
  shows "frames s' pd = {frame_of x | m x. m < user_pages \<and> m \<noteq> n \<and> entry s pd m = Some x} \<union> (case v of None \<Rightarrow> {} | Some x \<Rightarrow> {frame_of x})"
  using assms by (auto simp: frames_def split: option.splits if_splits) metis+

lemma map_entry:
  assumes ok: "vm_ok s pd xs" and n: "n < user_pages" "odd (pde s pd (n div 1024))" "entry s pd n = None"
    and x: "x < 2 ^ 32" "odd x" "valid_page (kend s) (frame_of x)" "frame_of x \<notin> tables s pd \<union> frames s pd \<union> set xs"
  defines "s' \<equiv> stw (tab s pd (n div 1024) + 4 * (n mod 1024)) x s"
  shows "vm_ok s' pd xs" "frames s' pd = insert (frame_of x) (frames s pd)"
proof -
  note S = set_entry [OF vm_ok_tables [OF ok] vpn_index(2) [OF n(1)] n(2) x(1), folded s'_def]
  have e: "entry s' pd m = (if m = n then Some x else entry s pd m)" if "m < user_pages" for m
    using S(4) [OF vpn_index(2) [OF that]] x(2) by simp
  have "{frame_of y | m y. m < user_pages \<and> m \<noteq> n \<and> entry s pd m = Some y} = frames s pd"
  proof -
    have "m \<noteq> n" if "entry s pd m = Some y" for m y using that n(3) by auto
    then show ?thesis unfolding frames_def by blast
  qed
  then show f: "frames s' pd = insert (frame_of x) (frames s pd)" using frames_eq [OF e n(1)] by simp
  have fr: "frame_of y \<noteq> frame_of x" if "entry s pd m = Some y" "m < user_pages" for m y using that x(4) by (auto simp: frames_def)
  show "vm_ok s' pd xs"
  proof (rule vm_ok_entry [OF ok S(1,2,3,5,6)])
    show "frames s' pd \<inter> (tables s pd \<union> set xs) = {}" "set xs \<inter> tables s pd = {}" using ok x(4) by (auto simp: f vm_ok_def)
    show "\<And>p. p \<in> frames s' pd \<Longrightarrow> valid_page (kend s) p" using ok x(3) by (auto simp: f vm_ok_def)
    show "k = k'" if "k < user_pages" "k' < user_pages" "entry s' pd k = Some y" "entry s' pd k' = Some y'" "frame_of y = frame_of y'" for k k' y y'
      using that ok fr by (auto simp: e vm_ok_def split: if_splits)
  qed
qed

lemma unmap_entry:
  assumes ok: "vm_ok s pd xs" and n: "n < user_pages" "entry s pd n = Some y"
  obtains s1 where "kfree (frame_of y) s = Inr s1"
    "ldw (tab s pd (n div 1024) + 4 * (n mod 1024)) s = y"
    "vm_ok (stw (tab s pd (n div 1024) + 4 * (n mod 1024)) 0 s1) pd (frame_of y # xs)"
    "\<And>m. m < 2 ^ 20 \<Longrightarrow> entry (stw (tab s pd (n div 1024) + 4 * (n mod 1024)) 0 s1) pd m = (if m = n then None else entry s pd m)"
    "tables (stw (tab s pd (n div 1024) + 4 * (n mod 1024)) 0 s1) pd = tables s pd"
    "frames (stw (tab s pd (n div 1024) + 4 * (n mod 1024)) 0 s1) pd = frames s pd - {frame_of y}"
    "kend s1 = kend s"
    "\<And>z. (\<And>p. p \<in> insert (frame_of y) (tables s pd) \<Longrightarrow> \<not> in_page p z) \<Longrightarrow> kmemory (stw (tab s pd (n div 1024) + 4 * (n mod 1024)) 0 s1) z = kmemory s z"
proof -
  let ?v = "frame_of y" and ?a = "tab s pd (n div 1024) + 4 * (n mod 1024)"
  have vf: "?v \<in> frames s pd" using n by (auto simp: frames_def)
  have v: "valid_page (kend s) ?v" "?v \<notin> set xs" "?v \<notin> tables s pd" "kmem_ok s xs" "set xs \<inter> tables s pd = {}" using ok vf by (auto simp: vm_ok_def)
  obtain s1 where s1: "kfree ?v s = Inr s1" "kmem_ok s1 (?v # xs)" "kend s1 = kend s" "same_outside ?v (kmemory s) (kmemory s1)"
    using kfree_ok [OF v(4,1,2)] by blast
  have ag: "agree (tables s pd) s s1"
    using agree_outside [OF s1(4) valid_page_range(1) [OF v(1)] v(3)] tables_ok_aligned [OF vm_ok_tables [OF ok]] by blast
  note eq = space_agree [OF ag]
  note d = vpn_index(1) [OF vpn_index(2) [OF n(1)]]
  have op: "odd (pde s pd (n div 1024))" "ldw ?a s = y" using n(2) by (auto simp: entry_def Let_def split: if_splits)
  have t1: "tables_ok s1 pd (?v # xs)" by (rule tables_ok_agree [OF vm_ok_tables [OF ok] ag s1(2,3)]) (use v in auto)
  let ?s = "stw ?a 0 s1"
  have "tab s1 pd (n div 1024) = tab s pd (n div 1024)" "odd (pde s1 pd (n div 1024))" using eq(1,2) [OF d] op by simp_all
  note S = set_entry [OF t1 vpn_index(2) [OF n(1)] this(2), of 0, simplified, unfolded this(1)]
  have e: "entry ?s pd m = (if m = n then None else entry s pd m)" if "m < 2 ^ 20" for m using S(4) eq(5) that by simp
  have eu: "entry ?s pd m = (if m = n then None else entry s pd m)" if "m < user_pages" for m using e vpn_index(2) [OF that] by simp
  have inj: "k = k'" if "k < user_pages" "k' < user_pages" "entry s pd k = Some z" "entry s pd k' = Some z'" "frame_of z = frame_of z'" for k k' z z'
    using ok that unfolding vm_ok_def by blast
  have f: "frames ?s pd = frames s pd - {?v}"
  proof -
    have "(m < user_pages \<and> m \<noteq> n \<and> entry s pd m = Some x) \<longleftrightarrow> (m < user_pages \<and> entry s pd m = Some x \<and> frame_of x \<noteq> ?v)" for m x
      using inj [OF n(1) _ n(2), of m x] n(2) by auto
    then have "{frame_of x | m x. m < user_pages \<and> m \<noteq> n \<and> entry s pd m = Some x} = frames s pd - {?v}"
      unfolding frames_def by auto
    then show ?thesis using frames_eq [OF eu n(1)] by simp
  qed
  have "vm_ok ?s pd (?v # xs)"
  proof (rule vm_ok_entry [OF ok])
    show "tables ?s pd = tables s pd" "live ?s pd = live s pd" "\<And>i. i < 1024 \<Longrightarrow> tab ?s pd i = tab s pd i" using S(1,2,3) eq(2,3,4) by simp_all
    show "kmem_ok ?s (?v # xs)" "kend ?s = kend s" using S(5) s1(3) by simp_all
    show "set (?v # xs) \<inter> tables s pd = {}" "frames ?s pd \<inter> (tables s pd \<union> set (?v # xs)) = {}" using ok v by (auto simp: f vm_ok_def)
    show "\<And>p. p \<in> frames ?s pd \<Longrightarrow> valid_page (kend s) p" using ok by (auto simp: f vm_ok_def)
    show "k = k'" if "k < user_pages" "k' < user_pages" "entry ?s pd k = Some z" "entry ?s pd k' = Some z'" "frame_of z = frame_of z'" for k k' z z'
      using that inj by (auto simp: eu split: if_splits)
  qed
  moreover have "kmemory ?s z = kmemory s z" if "\<And>p. p \<in> insert ?v (tables s pd) \<Longrightarrow> \<not> in_page p z" for z
    using S(7) [of z] that s1(4) eq(4) by (simp add: same_outside_def)
  ultimately show thesis using that [OF s1(1) op(2) _ e _ f s1(3)] S(1) eq(4) by simp
qed

subsection \<open>Growing and shrinking\<close>

definition pages_of :: "nat \<Rightarrow> nat" where
  "pages_of sz = (sz + PGSIZE - 1) div PGSIZE"

lemma page_below: "PGSIZE * k < sz \<longleftrightarrow> k < pages_of sz"
  by (auto simp: pages_of_def PGSIZE_def)

lemma PGROUNDUP_pages: "sz \<le> KERNBASE \<Longrightarrow> PGROUNDUP sz = PGSIZE * pages_of sz"
  by (simp add: PGROUNDUP_def PGROUNDDOWN_def pages_of_def PGSIZE_def KERNBASE_def minus_mod_eq_mult_div)

lemma pages_of_mono: "a \<le> b \<Longrightarrow> pages_of a \<le> pages_of b"
  by (simp add: pages_of_def div_le_mono)

lemma pages_of_user: "sz \<le> KERNBASE \<Longrightarrow> pages_of sz \<le> user_pages"
  by (simp add: pages_of_def PGSIZE_def KERNBASE_def user_pages_def)

definition same_off :: "nat set \<Rightarrow> kmem \<Rightarrow> kmem \<Rightarrow> bool" where
  "same_off P s s' \<longleftrightarrow> (\<forall>x. (\<forall>p \<in> P. \<not> in_page p x) \<longrightarrow> kmemory s' x = kmemory s x)"

lemma same_off_refl: "kmemory s' = kmemory s \<Longrightarrow> same_off P s s'"
  by (simp add: same_off_def)

lemma same_off_trans: "same_off P s s' \<Longrightarrow> same_off Q s' s'' \<Longrightarrow> P \<subseteq> R \<Longrightarrow> Q \<subseteq> R \<Longrightarrow> same_off R s s''"
  unfolding same_off_def by (metis subsetD)

lemma same_off_mono: "same_off P s s' \<Longrightarrow> P \<subseteq> Q \<Longrightarrow> same_off Q s s'"
  by (auto simp: same_off_def)

text \<open>One round of \<open>deallocuvm\<close>.\<close>

lemma walk_look: "n < 2 ^ 20 \<Longrightarrow> walkpgdir pd (PGSIZE * n) False s =
   (if odd (pde s pd (n div 1024)) then tab s pd (n div 1024) + 4 * (n mod 1024) else 0, s)"
  by (simp add: walkpgdir_def PDX_page PTX_page pde_def tab_def Let_def)

lemma tab_pos: "vm_ok s pd xs \<Longrightarrow> i < 1024 \<Longrightarrow> odd (pde s pd i) \<Longrightarrow> 0 < tab s pd i"
  using valid_page_range(6) by (auto simp: vm_ok_def tables_def live_def)

lemma dealloc_page_cases:
  assumes ok: "vm_ok s pd xs" and n: "n < user_pages"
  obtains (jump) "dealloc_page pd (PGSIZE * n) s = Inr (PGSIZE * (1024 * (n div 1024 + 1)), s)" "\<And>m. m div 1024 = n div 1024 \<Longrightarrow> entry s pd m = None"
  | (empty) "dealloc_page pd (PGSIZE * n) s = Inr (PGSIZE * (n + 1), s)" "entry s pd n = None"
  | (freed) y s' where "entry s pd n = Some y" "dealloc_page pd (PGSIZE * n) s = Inr (PGSIZE * (n + 1), s')" "vm_ok s' pd (frame_of y # xs)"
      "\<And>m. m < 2 ^ 20 \<Longrightarrow> entry s' pd m = (if m = n then None else entry s pd m)" "tables s' pd = tables s pd"
      "frames s' pd = frames s pd - {frame_of y}" "kend s' = kend s" "same_off (insert (frame_of y) (tables s pd)) s s'"
proof -
  note l = vpn_index(2) [OF n]
  have nx: "(PGSIZE * n + PGSIZE) mod 2 ^ 32 = PGSIZE * (n + 1)" using n by (simp add: user_pages_def PGSIZE_def)
  show thesis
  proof (cases "odd (pde s pd (n div 1024))")
    case False
    have "PGADDR (PDX (PGSIZE * n) + 1) 0 0 = PGSIZE * (1024 * (n div 1024 + 1))"
    proof -
      have "n div 1024 < 512" using n by (simp add: user_pages_def)
      then show ?thesis unfolding PDX_page [OF l] by (simp add: PGADDR_def PGSIZE_def push_bit_eq_mult)
    qed
    then have "dealloc_page pd (PGSIZE * n) s = Inr (PGSIZE * (1024 * (n div 1024 + 1)), s)" using False by (simp add: dealloc_page_def walk_look [OF l])
    then show thesis by (rule jump) (use False in \<open>simp add: entry_def\<close>)
  next
    case True
    note pos = tab_pos [OF ok vpn_index(1) [OF l] True]
    show thesis
    proof (cases "entry s pd n")
      case None
      then have "even (ldw (tab s pd (n div 1024) + 4 * (n mod 1024)) s)" using True by (simp add: entry_def Let_def split: if_splits)
      then show thesis using empty None True pos nx by (simp add: dealloc_page_def walk_look [OF l])
    next
      case (Some y)
      have f: "valid_page (kend s) (frame_of y)" "KERNBASE < kend s" using ok Some n by (auto simp: vm_ok_def frames_def)
      have pa: "PTE_ADDR y \<noteq> 0" using valid_page_range(2) [OF f(1)] f(2) by (auto simp: frame_of_def P2V_def KERNBASE_def)
      have "odd y" using Some by (auto simp: entry_def Let_def split: if_splits)
      obtain s1 where s1: "kfree (frame_of y) s = Inr s1" "ldw (tab s pd (n div 1024) + 4 * (n mod 1024)) s = y"
        "vm_ok (stw (tab s pd (n div 1024) + 4 * (n mod 1024)) 0 s1) pd (frame_of y # xs)"
        "\<And>m. m < 2 ^ 20 \<Longrightarrow> entry (stw (tab s pd (n div 1024) + 4 * (n mod 1024)) 0 s1) pd m = (if m = n then None else entry s pd m)"
        "tables (stw (tab s pd (n div 1024) + 4 * (n mod 1024)) 0 s1) pd = tables s pd"
        "frames (stw (tab s pd (n div 1024) + 4 * (n mod 1024)) 0 s1) pd = frames s pd - {frame_of y}"
        "kend s1 = kend s"
        "\<And>z. (\<And>p. p \<in> insert (frame_of y) (tables s pd) \<Longrightarrow> \<not> in_page p z) \<Longrightarrow> kmemory (stw (tab s pd (n div 1024) + 4 * (n mod 1024)) 0 s1) z = kmemory s z"
        using unmap_entry [OF ok n Some] by blast
      have "dealloc_page pd (PGSIZE * n) s = Inr (PGSIZE * (n + 1), stw (tab s pd (n div 1024) + 4 * (n mod 1024)) 0 s1)"
        using True pos s1(1,2) pa \<open>odd y\<close> nx by (simp add: dealloc_page_def walk_look [OF l] frame_of_def [symmetric] Let_def)
      then show thesis by (rule freed [OF Some _ s1(3,4,5,6)]) (use s1(7,8) in \<open>auto simp: same_off_def\<close>)
    qed
  qed
qed

lemma deallocuvm_loop_unmaps:
  assumes "vm_ok s pd xs" "n \<le> user_pages" "oldsz \<le> KERNBASE"
  shows "\<exists>s' ys. deallocuvm_loop pd (PGSIZE * n) oldsz s = Inr s' \<and> vm_ok s' pd ys \<and> kend s' = kend s \<and>
    (\<forall>m < 2 ^ 20. entry s' pd m = (if n \<le> m \<and> m < pages_of oldsz then None else entry s pd m)) \<and>
    tables s' pd = tables s pd \<and> set xs \<subseteq> set ys \<and> set ys \<union> frames s' pd = set xs \<union> frames s pd \<and> same_off (tables s pd \<union> set ys) s s'"
  using assms
proof (induction "user_pages - n" arbitrary: n s xs rule: less_induct)
  case less
  note step = deallocuvm_loop.simps [of pd "PGSIZE * n" oldsz s]
  show ?case
  proof (cases "n < pages_of oldsz")
    case False
    then have "deallocuvm_loop pd (PGSIZE * n) oldsz s = Inr s" by (simp add: step page_below)
    then show ?thesis using less.prems(1) False by (intro exI [of _ s] exI [of _ xs]) (auto intro: same_off_refl)
  next
    case True
    then have nu: "n < user_pages" using pages_of_user [OF less.prems(3)] by simp
    have lt: "PGSIZE * n < oldsz" using True page_below by simp
    have m1: "user_pages - (n + 1) < user_pages - n" "n + 1 \<le> user_pages" using nu by simp_all
    have ng: "\<not> PGSIZE * (n + 1) \<le> PGSIZE * n" by (simp add: PGSIZE_def)
    show ?thesis
    proof (cases rule: dealloc_page_cases [OF less.prems(1) nu])
      case 1
      let ?n = "1024 * (n div 1024 + 1)"
      have gt: "n < ?n" by (simp add: mult.commute dividend_less_times_div)
      then have ng: "\<not> PGSIZE * ?n \<le> PGSIZE * n" by (simp add: PGSIZE_def)
      have le: "?n \<le> user_pages" using nu by (auto simp: user_pages_def)
      obtain s' ys where r: "deallocuvm_loop pd (PGSIZE * ?n) oldsz s = Inr s'" "vm_ok s' pd ys" "kend s' = kend s"
        "\<forall>m < 2 ^ 20. entry s' pd m = (if ?n \<le> m \<and> m < pages_of oldsz then None else entry s pd m)"
        "tables s' pd = tables s pd" "set xs \<subseteq> set ys" "set ys \<union> frames s' pd = set xs \<union> frames s pd" "same_off (tables s pd \<union> set ys) s s'"
        using less.hyps [OF _ less.prems(1) le less.prems(3)] diff_less_mono2 [OF gt nu] by blast
      have "deallocuvm_loop pd (PGSIZE * n) oldsz s = Inr s'" by (simp only: step if_P [OF lt] 1(1) ebind_simps prod.case if_not_P [OF ng] r(1))
      moreover have "entry s pd m = None" if "n \<le> m" "m < ?n" for m using that by (intro 1(2)) auto
      ultimately show ?thesis using r(2-8) by (intro exI [of _ s'] exI [of _ ys]) auto
    next
      case 2
      obtain s' ys where r: "deallocuvm_loop pd (PGSIZE * (n + 1)) oldsz s = Inr s'" "vm_ok s' pd ys" "kend s' = kend s"
        "\<forall>m < 2 ^ 20. entry s' pd m = (if n + 1 \<le> m \<and> m < pages_of oldsz then None else entry s pd m)"
        "tables s' pd = tables s pd" "set xs \<subseteq> set ys" "set ys \<union> frames s' pd = set xs \<union> frames s pd" "same_off (tables s pd \<union> set ys) s s'"
        using less.hyps [OF m1(1) less.prems(1) m1(2) less.prems(3)] by blast
      have "deallocuvm_loop pd (PGSIZE * n) oldsz s = Inr s'" by (simp only: step if_P [OF lt] 2(1) ebind_simps prod.case if_not_P [OF ng] r(1))
      moreover have "entry s pd m = None" if "n \<le> m" "\<not> n + 1 \<le> m" for m using that 2(2) by (simp add: le_antisym not_less_eq_eq)
      ultimately show ?thesis using r(2-8) by (intro exI [of _ s'] exI [of _ ys]) (auto simp: not_less_eq_eq)
    next
      case (3 y s1)
      obtain s' ys where r: "deallocuvm_loop pd (PGSIZE * (n + 1)) oldsz s1 = Inr s'" "vm_ok s' pd ys" "kend s' = kend s1"
        "\<forall>m < 2 ^ 20. entry s' pd m = (if n + 1 \<le> m \<and> m < pages_of oldsz then None else entry s1 pd m)"
        "tables s' pd = tables s1 pd" "set (frame_of y # xs) \<subseteq> set ys" "set ys \<union> frames s' pd = set (frame_of y # xs) \<union> frames s1 pd" "same_off (tables s1 pd \<union> set ys) s1 s'"
        using less.hyps [OF m1(1) 3(3) m1(2) less.prems(3)] by blast
      have a: "deallocuvm_loop pd (PGSIZE * n) oldsz s = Inr s'" by (simp only: step if_P [OF lt] 3(2) ebind_simps prod.case if_not_P [OF ng] r(1))
      have b: "entry s' pd m = (if n \<le> m \<and> m < pages_of oldsz then None else entry s pd m)" if "m < 2 ^ 20" for m
        using r(4) 3(4) [OF that] that True by (cases "m = n") (auto simp: le_less Suc_le_eq)
      have "frame_of y \<in> frames s pd" using 3(1) nu by (auto simp: frames_def)
      then have c: "set ys \<union> frames s' pd = set xs \<union> frames s pd" using r(7) 3(6) by auto
      have "same_off (tables s pd \<union> set ys) s s'"
        by (rule same_off_trans [OF 3(8) r(8)]) (use r(6) 3(5) in auto)
      then show ?thesis using a b c r(2,3,5,6) 3(5,7) by (intro exI [of _ s'] exI [of _ ys]) auto
    qed
  qed
qed

text \<open>Mapping one page of user memory.\<close>

lemma mappages_one: "n < 2 ^ 20 \<Longrightarrow> mappages pd (PGSIZE * n) PGSIZE pa perm s = mappages_loop 0 pd (PGSIZE * n) pa perm s"
proof -
  assume n: "n < 2 ^ 20"
  have "PGROUNDDOWN (PGSIZE * n) = PGSIZE * n" by (simp add: PGROUNDDOWN_def)
  moreover have "PGROUNDDOWN ((PGSIZE * n + PGSIZE + 2 ^ 32 - 1) mod 2 ^ 32) = PGSIZE * n"
  proof -
    have "(PGSIZE * n + PGSIZE + 2 ^ 32 - 1) mod 2 ^ 32 = 4096 * n + 4095" using n by (simp add: PGSIZE_def mod_if)
    then show ?thesis by (simp add: PGROUNDDOWN_def PGSIZE_def)
  qed
  ultimately show ?thesis by (simp add: mappages_def)
qed

lemma take_page:
  assumes ok: "vm_ok s pd (t # ys)"
  shows "kalloc s = (t, s\<lparr>freelist := load32 t (kmemory s)\<rparr>)" "vm_ok (s\<lparr>freelist := load32 t (kmemory s)\<rparr>) pd ys"
    "\<And>n. entry (s\<lparr>freelist := load32 t (kmemory s)\<rparr>) pd n = entry s pd n" "tables (s\<lparr>freelist := load32 t (kmemory s)\<rparr>) pd = tables s pd"
    "frames (s\<lparr>freelist := load32 t (kmemory s)\<rparr>) pd = frames s pd" "t \<notin> tables s pd \<union> frames s pd \<union> set ys" "valid_page (kend s) t" "t \<noteq> 0"
proof -
  have k: "kmem_ok s (t # ys)" using ok by (simp add: vm_ok_def)
  note K = kalloc_Cons [OF k]
  let ?s = "s\<lparr>freelist := load32 t (kmemory s)\<rparr>"
  have a: "agree (tables s pd) s ?s" by (rule agree_refl) simp
  show "kalloc s = (t, ?s)" by (rule K(1))
  show "vm_ok ?s pd ys" by (rule vm_ok_agree [OF ok a K(2)]) (use ok in \<open>auto simp: vm_ok_def\<close>)
  show "entry ?s pd n = entry s pd n" for n by (simp add: entry_def pde_def tab_def ldw_def)
  show "tables ?s pd = tables s pd" "frames ?s pd = frames s pd" using space_agree(4,6) [OF a] by simp_all
  show "t \<notin> tables s pd \<union> frames s pd \<union> set ys" "valid_page (kend s) t" using ok k by (auto simp: vm_ok_def kmem_ok_def)
  then show "t \<noteq> 0" using valid_page_range(6) by blast
qed

lemma walk_alloc_cases:
  assumes ok: "vm_ok s pd xs" and n: "n < 2 ^ 20"
  obtains (out) "walkpgdir pd (PGSIZE * n) True s = (0, s)" "xs = []"
  | (slot) s' ys where "walkpgdir pd (PGSIZE * n) True s = (tab s' pd (n div 1024) + 4 * (n mod 1024), s')" "odd (pde s' pd (n div 1024))"
      "vm_ok s' pd ys" "\<And>m. m < 2 ^ 20 \<Longrightarrow> entry s' pd m = entry s pd m" "frames s' pd = frames s pd" "kend s' = kend s"
      "set ys \<union> tables s' pd = set xs \<union> tables s pd" "set ys \<subseteq> set xs" "same_off (tables s' pd) s s'" "length xs \<le> length ys + 1"
proof (cases "odd (pde s pd (n div 1024))")
  case True
  then have "walkpgdir pd (PGSIZE * n) True s = (tab s pd (n div 1024) + 4 * (n mod 1024), s)"
    using n by (simp add: walkpgdir_def PDX_page PTX_page pde_def tab_def Let_def)
  then show thesis using slot [of s xs] True ok by (simp add: same_off_refl)
next
  case False
  show thesis
  proof (cases xs)
    case Nil
    then have "kalloc s = (0, s)" using ok kalloc_Nil by (simp add: vm_ok_def)
    then have "walkpgdir pd (PGSIZE * n) True s = (0, s)" using n False by (simp add: walkpgdir_def PDX_page pde_def Let_def)
    then show thesis using out Nil by blast
  next
    case (Cons t ys)
    note T = take_page [OF ok [unfolded Cons]]
    let ?s1 = "s\<lparr>freelist := load32 t (kmemory s)\<rparr>"
    have e1: "even (pde ?s1 pd (n div 1024))" using False by (simp add: pde_def ldw_def)
    have t1: "valid_page (kend ?s1) t" "t \<notin> tables ?s1 pd \<union> frames ?s1 pd" "t \<notin> set ys" using T by auto
    note A = add_table [OF T(2) vpn_index(1) [OF n] e1 t1]
    let ?s = "stw (pd + 4 * (n div 1024)) (V2P t OR PTE_P OR PTE_W OR PTE_U) (fill t 0 ?s1)"
    have w: "walkpgdir pd (PGSIZE * n) True s = (t + 4 * (n mod 1024), ?s)"
      using n False T(1,8) by (simp add: walkpgdir_def PDX_page PTX_page pde_def Let_def)
    show thesis
    proof (rule slot)
      show "walkpgdir pd (PGSIZE * n) True s = (tab ?s pd (n div 1024) + 4 * (n mod 1024), ?s)" using w A(5) by simp
      show "same_off (tables ?s pd) s ?s" using A(2,8) by (auto simp: same_off_def tables_def)
      show "set ys \<union> tables ?s pd = set xs \<union> tables s pd" using A(2) T(4) Cons by auto
    qed (use A T Cons in auto)
  qed
qed

lemma map_page_cases:
  assumes ok: "vm_ok s pd xs" and n: "n < user_pages" "entry s pd n = None"
    and v: "valid_page (kend s) v" "v \<notin> tables s pd \<union> frames s pd \<union> set xs" and perm: "perm < 4096"
  obtains (out) "mappages pd (PGSIZE * n) PGSIZE (V2P v) perm s = Inr (False, s)" "xs = []"
  | (mapped) s' ys where "mappages pd (PGSIZE * n) PGSIZE (V2P v) perm s = Inr (True, s')" "vm_ok s' pd ys"
      "\<And>m. m < 2 ^ 20 \<Longrightarrow> entry s' pd m = (if m = n then Some (V2P v OR (perm OR PTE_P)) else entry s pd m)"
      "frames s' pd = insert v (frames s pd)" "kend s' = kend s" "set ys \<union> tables s' pd = set xs \<union> tables s pd" "set ys \<subseteq> set xs" "same_off (tables s' pd) s s'" "length xs \<le> length ys + 1"
proof (cases rule: walk_alloc_cases [OF ok vpn_index(2) [OF n(1)]])
  case 1
  have "mappages pd (PGSIZE * n) PGSIZE (V2P v) perm s = Inr (False, s)"
    unfolding mappages_one [OF vpn_index(2) [OF n(1)]] by (subst mappages_loop.simps) (simp add: 1)
  then show thesis using 1(2) out by blast
next
  case (2 s1 ys)
  note l = vpn_index(2) [OF n(1)]
  let ?x = "V2P v OR (perm OR PTE_P)"
  note X = pte_value [OF v(1) flags_or(1) [OF perm]]
  have ox: "odd ?x" using X(2) flags_or(2) by simp
  let ?a = "tab s1 pd (n div 1024) + 4 * (n mod 1024)"
  have none: "entry s1 pd n = None" using 2(4) [OF l] n(2) by simp
  then have ev: "even (ldw ?a s1)" using 2(2) by (simp add: entry_def Let_def split: if_splits)
  have m: "mappages pd (PGSIZE * n) PGSIZE (V2P v) perm s = Inr (True, stw ?a ?x s1)"
    unfolding mappages_one [OF l]
    by (subst mappages_loop.simps) (use 2(1) ev tab_pos [OF 2(3) vpn_index(1) [OF l] 2(2)] in \<open>simp add: or.assoc Let_def\<close>)
  have f: "frame_of ?x = v" using X(4) by (simp add: frame_of_def)
  have nv: "frame_of ?x \<notin> tables s1 pd \<union> frames s1 pd \<union> set ys" unfolding f using v(2) 2(5,7,8) by auto
  have vv: "valid_page (kend s1) (frame_of ?x)" using v(1) 2(6) f by simp
  note M = map_entry [OF 2(3) n(1) 2(2) none X(1) ox vv nv]
  note S = set_entry [OF vm_ok_tables [OF 2(3)] l 2(2) X(1)]
  show thesis
  proof (rule mapped [OF m M(1)])
    show "entry (stw ?a ?x s1) pd m = (if m = n then Some ?x else entry s pd m)" if "m < 2 ^ 20" for m
      using S(4) [OF that] 2(4) [OF that] ox by simp
    show "frames (stw ?a ?x s1) pd = insert v (frames s pd)" using M(2) f 2(5) by simp
    show "kend (stw ?a ?x s1) = kend s" "set ys \<subseteq> set xs" using 2(6,8) by simp_all
    show "set ys \<union> tables (stw ?a ?x s1) pd = set xs \<union> tables s pd" using S(1) 2(7) by simp
    have "same_off (tables s1 pd) s1 (stw ?a ?x s1)" using S(7) by (auto simp: same_off_def)
    then show "same_off (tables (stw ?a ?x s1) pd) s (stw ?a ?x s1)" using same_off_trans [OF 2(9)] S(1) by simp
    show "length xs \<le> length ys + 1" by (rule 2(10))
  qed
qed

definition zeroed :: "kmem \<Rightarrow> nat \<Rightarrow> bool" where
  "zeroed s p \<longleftrightarrow> (\<forall>x. in_page p x \<longrightarrow> kmemory s x = 0)"

text \<open>The bytes of the pages that stay mapped are not touched.\<close>

definition contents_kept :: "nat \<Rightarrow> kmem \<Rightarrow> kmem \<Rightarrow> bool" where
  "contents_kept pd s s' \<longleftrightarrow> (\<forall>m < user_pages. \<forall>x. entry s pd m = Some x \<longrightarrow> entry s' pd m = Some x \<longrightarrow> agree {frame_of x} s s')"

definition held :: "kmem \<Rightarrow> nat \<Rightarrow> nat list \<Rightarrow> nat set" where
  "held s pd xs = set xs \<union> tables s pd \<union> frames s pd"

lemma same_off_agree:
  assumes "same_off P s s'" "q \<notin> P" "q mod PGSIZE = 0" "\<forall>p \<in> P. p mod PGSIZE = 0"
  shows "agree {q} s s'"
proof -
  have "kmemory s' x = kmemory s x" if "in_page q x" for x
  proof -
    have "\<not> in_page p x" if "p \<in> P" for p
    proof -
      have "p mod PGSIZE = 0" "q \<noteq> p" using assms(2,4) that by auto
      then show ?thesis using pages_apart [OF assms(3) _ _ \<open>in_page q x\<close>] by simp
    qed
    then show ?thesis using assms(1) by (simp add: same_off_def)
  qed
  then show ?thesis by (simp add: agree_def)
qed

lemma frame_in: "m < user_pages \<Longrightarrow> entry s pd m = Some x \<Longrightarrow> frame_of x \<in> frames s pd"
  by (auto simp: frames_def)

lemma contents_kept_off:
  assumes ok: "vm_ok s pd xs" and off: "same_off P s s'" "P \<inter> frames s pd = {}" "\<forall>p \<in> P. p mod PGSIZE = 0"
  shows "contents_kept pd s s'"
  unfolding contents_kept_def
proof (intro allI impI)
  fix m x assume "m < user_pages" "entry s pd m = Some x"
  then have "frame_of x \<in> frames s pd" by (rule frame_in)
  then show "agree {frame_of x} s s'" using vm_ok_aligned [OF ok] off(2) by (intro same_off_agree [OF off(1) _ _ off(3)]) auto
qed

lemma contents_kept_outside:
  "vm_ok s pd xs \<Longrightarrow> same_outside v (kmemory s) (kmemory s') \<Longrightarrow> v \<notin> frames s pd \<Longrightarrow> v mod PGSIZE = 0 \<Longrightarrow> contents_kept pd s s'"
  by (rule contents_kept_off [where P = "{v}"]) (auto simp: same_off_def same_outside_def)

lemma contents_kept_trans:
  assumes "contents_kept pd s s1" "contents_kept pd s1 s2"
    "\<And>m x. m < user_pages \<Longrightarrow> entry s pd m = Some x \<Longrightarrow> entry s2 pd m = Some x \<Longrightarrow> entry s1 pd m = Some x"
  shows "contents_kept pd s s2"
  using assms agree_trans unfolding contents_kept_def by metis

definition grown :: "nat \<Rightarrow> nat \<Rightarrow> nat \<Rightarrow> nat list \<Rightarrow> kmem \<Rightarrow> kmem \<Rightarrow> bool" where
  "grown pd k l xs s s' \<longleftrightarrow> (\<forall>m < 2 ^ 20. if k \<le> m \<and> m < l
      then \<exists>v. entry s' pd m = Some (V2P v OR (PTE_W OR PTE_U OR PTE_P)) \<and> frame_of (V2P v OR (PTE_W OR PTE_U OR PTE_P)) = v \<and> v \<in> set xs \<and> zeroed s' v
      else entry s' pd m = entry s pd m)"

definition cleared :: "nat \<Rightarrow> nat \<Rightarrow> nat \<Rightarrow> kmem \<Rightarrow> kmem \<Rightarrow> bool" where
  "cleared pd k l s s' \<longleftrightarrow> (\<forall>m < 2 ^ 20. entry s' pd m = (if k \<le> m \<and> m < l then None else entry s pd m))"

lemma deallocuvm_clears:
  assumes ok: "vm_ok s pd xs" and sz: "newsz < oldsz" "oldsz \<le> KERNBASE"
  obtains s' ys where "deallocuvm pd oldsz newsz s = Inr (newsz, s')" "vm_ok s' pd ys" "kend s' = kend s" "cleared pd (pages_of newsz) (pages_of oldsz) s s'"
    "held s' pd ys = held s pd xs" "tables s' pd = tables s pd" "contents_kept pd s s'" "set xs \<subseteq> set ys" "set ys \<subseteq> set xs \<union> frames s pd" "same_off (tables s pd \<union> set ys) s s'"
proof -
  have "newsz \<le> KERNBASE" using sz by simp
  note up = PGROUNDUP_pages [OF this] pages_of_user [OF this]
  obtain s' ys where r: "deallocuvm_loop pd (PGSIZE * pages_of newsz) oldsz s = Inr s'" "vm_ok s' pd ys" "kend s' = kend s"
    "\<forall>m < 2 ^ 20. entry s' pd m = (if pages_of newsz \<le> m \<and> m < pages_of oldsz then None else entry s pd m)"
    "tables s' pd = tables s pd" "set xs \<subseteq> set ys" "set ys \<union> frames s' pd = set xs \<union> frames s pd" "same_off (tables s pd \<union> set ys) s s'"
    using deallocuvm_loop_unmaps [OF ok up(2) sz(2)] by blast
  have "contents_kept pd s s'" unfolding contents_kept_def
  proof (intro allI impI)
    fix m x assume "m < user_pages" "entry s' pd m = Some x"
    then have "frame_of x \<in> frames s' pd" by (rule frame_in)
    moreover have "p mod PGSIZE = 0" if "p \<in> tables s pd \<union> set ys \<union> frames s' pd" for p using that vm_ok_aligned [OF r(2)] r(5) by auto
    ultimately show "agree {frame_of x} s s'" using r(2,5) by (intro same_off_agree [OF r(8)]) (auto simp: vm_ok_def)
  qed
  moreover have "deallocuvm pd oldsz newsz s = Inr (newsz, s')" using sz r(1) by (simp add: deallocuvm_def up(1))
  moreover have "held s' pd ys = held s pd xs" using r(5,7) by (auto simp: held_def)
  moreover have "set ys \<subseteq> set xs \<union> frames s pd" using r(7) by blast
  moreover have "cleared pd (pages_of newsz) (pages_of oldsz) s s'" using r(4) by (simp add: cleared_def)
  ultimately show thesis using that r(2,3,5,6,8) by blast
qed

lemma deallocuvm_off: "same_off (tables s pd \<union> set ys) s s' \<Longrightarrow> tables s' pd = tables s pd \<Longrightarrow> held s' pd ys = held s pd xs \<Longrightarrow> same_off (held s pd xs) s s'"
  by (erule same_off_mono) (auto simp: held_def)

text \<open>The step of the loop of \<open>allocuvm\<close>: a page is taken, filled with zeros and mapped.\<close>

lemma fill_page:
  assumes ok: "vm_ok s pd (v # ys)"
  defines "s1 \<equiv> fill v 0 (s\<lparr>freelist := load32 v (kmemory s)\<rparr>)"
  shows "vm_ok s1 pd ys" "\<And>n. n < 2 ^ 20 \<Longrightarrow> entry s1 pd n = entry s pd n" "tables s1 pd = tables s pd" "frames s1 pd = frames s pd" "kend s1 = kend s"
    "zeroed s1 v" "contents_kept pd s s1" "same_off {v} s s1"
proof -
  note T = take_page [OF ok]
  let ?s = "s\<lparr>freelist := load32 v (kmemory s)\<rparr>"
  have al: "v mod PGSIZE = 0" using valid_page_range(1) [OF T(7)] .
  have out: "same_outside v (kmemory ?s) (kmemory s1)" unfolding s1_def by (rule fill_outside)
  have ag: "agree (tables ?s pd) ?s s1"
    using agree_outside [OF out al] T(4,6) vm_ok_aligned [OF T(2)] by auto
  have "kmem_ok (?s\<lparr>kmemory := kmemory s1\<rparr>) ys" using kmem_ok_outside [OF _ al _ out] T(2,6) by (simp add: vm_ok_def)
  then have k: "kmem_ok s1 ys" by (simp add: s1_def fill_def)
  show ke: "kend s1 = kend s" by (simp add: s1_def)
  show "vm_ok s1 pd ys" by (rule vm_ok_agree [OF T(2) ag k]) (use T(2) in \<open>auto simp: vm_ok_def s1_def\<close>)
  show "entry s1 pd n = entry s pd n" if "n < 2 ^ 20" for n using space_agree(5) [OF ag that] T(3) by simp
  show "tables s1 pd = tables s pd" "frames s1 pd = frames s pd" using space_agree(4,6) [OF ag] T(4,5) by simp_all
  show "zeroed s1 v" by (simp add: zeroed_def s1_def fill_def memset_spec in_page_def)
  show "contents_kept pd s s1" using contents_kept_outside [OF ok, of v s1] out T(6) al by simp
  show "same_off {v} s s1" using out by (simp add: same_off_def same_outside_def)
qed

lemma give_page:
  assumes ok: "vm_ok s pd xs" and v: "valid_page (kend s) v" "v \<notin> held s pd xs"
  obtains s' where "kfree v s = Inr s'" "vm_ok s' pd (v # xs)" "kend s' = kend s" "\<And>n. n < 2 ^ 20 \<Longrightarrow> entry s' pd n = entry s pd n"
    "tables s' pd = tables s pd" "frames s' pd = frames s pd" "contents_kept pd s s'" "same_off {v} s s'"
proof -
  obtain s' where s': "kfree v s = Inr s'" "kmem_ok s' (v # xs)" "kend s' = kend s" "same_outside v (kmemory s) (kmemory s')"
    using kfree_ok [of s xs v] ok v by (auto simp: vm_ok_def held_def)
  have ag: "agree (tables s pd) s s'"
    using agree_outside [OF s'(4) valid_page_range(1) [OF v(1)]] v(2) vm_ok_aligned [OF ok] by (auto simp: held_def)
  have "vm_ok s' pd (v # xs)" by (rule vm_ok_agree [OF ok ag s'(2,3)]) (use ok v(2) in \<open>auto simp: vm_ok_def held_def\<close>)
  moreover have "contents_kept pd s s'"
    using contents_kept_outside [OF ok s'(4)] v(2) valid_page_range(1) [OF v(1)] by (simp add: held_def)
  moreover have "same_off {v} s s'" using s'(4) by (simp add: same_off_def same_outside_def)
  ultimately show thesis using that s'(1,3) space_agree(4,5,6) [OF ag] by blast
qed

lemma grownI:
  assumes "\<And>m. m < 2 ^ 20 \<Longrightarrow> k \<le> m \<Longrightarrow> m < l \<Longrightarrow>
      \<exists>v. entry s' pd m = Some (V2P v OR (PTE_W OR PTE_U OR PTE_P)) \<and> frame_of (V2P v OR (PTE_W OR PTE_U OR PTE_P)) = v \<and> v \<in> set xs \<and> zeroed s' v"
    and "\<And>m. m < 2 ^ 20 \<Longrightarrow> \<not> (k \<le> m \<and> m < l) \<Longrightarrow> entry s' pd m = entry s pd m"
  shows "grown pd k l xs s s'"
  using assms by (simp add: grown_def)

lemma grownD:
  assumes "grown pd k l xs s s'" "m < 2 ^ 20"
  shows "k \<le> m \<Longrightarrow> m < l \<Longrightarrow>
      \<exists>v. entry s' pd m = Some (V2P v OR (PTE_W OR PTE_U OR PTE_P)) \<and> frame_of (V2P v OR (PTE_W OR PTE_U OR PTE_P)) = v \<and> v \<in> set xs \<and> zeroed s' v"
    and "\<not> (k \<le> m \<and> m < l) \<Longrightarrow> entry s' pd m = entry s pd m"
  using assms by (simp_all add: grown_def)

lemma grown_step:
  assumes g: "grown pd (k + 1) l zs s2 s'" and k: "k < user_pages" "k < l"
    and e2: "\<And>m. m < 2 ^ 20 \<Longrightarrow> entry s2 pd m = (if m = k then Some (V2P v OR (PTE_W OR PTE_U OR PTE_P)) else entry s pd m)"
    and v: "frame_of (V2P v OR (PTE_W OR PTE_U OR PTE_P)) = v" "zeroed s2 v" "contents_kept pd s2 s'" and xs: "set zs \<subseteq> set xs" "v \<in> set xs"
  shows "grown pd k l xs s s'"
proof (rule grownI)
  note k2 = vpn_index(2) [OF k(1)]
  have ek: "entry s' pd k = Some (V2P v OR (PTE_W OR PTE_U OR PTE_P))" using grownD(2) [OF g k2] e2 [OF k2] by simp
  then have "agree {v} s2 s'" using v(1,3) k(1) e2 [OF k2] by (auto simp: contents_kept_def)
  then have zv: "zeroed s' v" using v(2) by (simp add: zeroed_def agree_def)
  fix m assume m: "m < 2 ^ 20" "k \<le> m" "m < l"
  show "\<exists>v. entry s' pd m = Some (V2P v OR (PTE_W OR PTE_U OR PTE_P)) \<and> frame_of (V2P v OR (PTE_W OR PTE_U OR PTE_P)) = v \<and> v \<in> set xs \<and> zeroed s' v"
  proof (cases "m = k")
    case True
    then show ?thesis using ek v(1) zv xs(2) by auto
  next
    case False
    then show ?thesis using grownD(1) [OF g m(1)] m(2,3) xs(1) by fastforce
  qed
next
  fix m assume m: "m < 2 ^ 20" "\<not> (k \<le> m \<and> m < l)"
  then have "m \<noteq> k" using k(2) by auto
  then show "entry s' pd m = entry s pd m" using grownD(2) [OF g m(1)] m(2) e2 [OF m(1)] by auto
qed

text \<open>A round of the loop of \<open>allocuvm\<close>: it fails and undoes everything, or maps page \<open>k\<close> to a new page.\<close>

lemma alloc_round_cases:
  assumes ok: "vm_ok s pd xs" and sz: "newsz < KERNBASE" "oldsz < newsz" and k: "k < pages_of newsz" "entry s pd k = None"
  obtains (undone) s' ys where "allocuvm_loop pd (PGSIZE * k) oldsz newsz s = Inr (0, s')" "vm_ok s' pd ys" "kend s' = kend s"
      "held s' pd ys = held s pd xs" "contents_kept pd s s'" "cleared pd (pages_of oldsz) (pages_of newsz) s s'" "length xs < 2" "same_off (held s pd xs) s s'"
  | (more) v s2 zs where "allocuvm_loop pd (PGSIZE * k) oldsz newsz s = allocuvm_loop pd (PGSIZE * (k + 1)) oldsz newsz s2" "vm_ok s2 pd zs" "kend s2 = kend s"
      "held s2 pd zs = held s pd xs" "contents_kept pd s s2" "\<And>m. m < 2 ^ 20 \<Longrightarrow> entry s2 pd m = (if m = k then Some (V2P v OR (PTE_W OR PTE_U OR PTE_P)) else entry s pd m)"
      "frame_of (V2P v OR (PTE_W OR PTE_U OR PTE_P)) = v" "zeroed s2 v" "set zs \<subseteq> set xs" "v \<in> set xs" "length xs \<le> length zs + 2" "same_off (held s pd xs) s s2"
proof -
  note step = allocuvm_loop.simps [of pd "PGSIZE * k" oldsz newsz s]
  have lt: "PGSIZE * k < newsz" using k(1) page_below by simp
  have nb: "newsz \<le> KERNBASE" using sz(1) by simp
  have nu: "k < user_pages" using k(1) pages_of_user [OF nb] by simp
  show thesis
  proof (cases xs)
    case Nil
    then have ka: "kalloc s = (0, s)" using ok kalloc_Nil by (simp add: vm_ok_def)
    obtain s' ys where d: "deallocuvm pd newsz oldsz s = Inr (oldsz, s')" "vm_ok s' pd ys" "kend s' = kend s"
      "cleared pd (pages_of oldsz) (pages_of newsz) s s'" "held s' pd ys = held s pd xs" "contents_kept pd s s'" "same_off (held s pd xs) s s'"
      using deallocuvm_clears [OF ok sz(2) nb] deallocuvm_off by metis
    have "allocuvm_loop pd (PGSIZE * k) oldsz newsz s = Inr (0, s')" by (simp add: step lt ka d(1))
    then show thesis using undone [OF _ d(2,3,5,6,4)] d(7) Nil by simp
  next
    case (Cons v ys)
    note T = take_page [OF ok [unfolded Cons]] and F = fill_page [OF ok [unfolded Cons]]
    let ?s1 = "fill v 0 (s\<lparr>freelist := load32 v (kmemory s)\<rparr>)"
    have e1: "entry ?s1 pd k = None" using F(2) [OF vpn_index(2) [OF nu]] k(2) by simp
    have v1: "valid_page (kend ?s1) v" "v \<notin> tables ?s1 pd \<union> frames ?s1 pd \<union> set ys" using T(6,7) F(3,4,5) by auto
    have pm: "PTE_W OR PTE_U < 4096" by (simp add: PTE_W_def PTE_U_def)
    show thesis
    proof (cases rule: map_page_cases [OF F(1) nu e1 v1 pm])
      case 1
      obtain s3 zs where d: "deallocuvm pd newsz oldsz ?s1 = Inr (oldsz, s3)" "vm_ok s3 pd zs" "kend s3 = kend ?s1"
        "cleared pd (pages_of oldsz) (pages_of newsz) ?s1 s3" "held s3 pd zs = held ?s1 pd ys" "contents_kept pd ?s1 s3" "same_off (held ?s1 pd ys) ?s1 s3"
        using deallocuvm_clears [OF F(1) sz(2) nb] deallocuvm_off by metis
      have v3: "valid_page (kend s3) v" "v \<notin> held s3 pd zs" using v1 d(3,5) by (auto simp: held_def)
      obtain s4 where g: "kfree v s3 = Inr s4" "vm_ok s4 pd (v # zs)" "kend s4 = kend s3" "\<And>n. n < 2 ^ 20 \<Longrightarrow> entry s4 pd n = entry s3 pd n"
        "tables s4 pd = tables s3 pd" "frames s4 pd = frames s3 pd" "contents_kept pd s3 s4" "same_off {v} s3 s4"
        using give_page [OF d(2) v3] by blast
      have "contents_kept pd s s3" by (rule contents_kept_trans [OF F(7) d(6)]) (use F(2) vpn_index(2) in simp)
      then have ck: "contents_kept pd s s4" by (rule contents_kept_trans [OF _ g(7)]) (use g(4) vpn_index(2) in simp)
      have vs: "v \<in> held s pd xs" "held ?s1 pd ys \<subseteq> held s pd xs" using F(3,4) Cons by (auto simp: held_def)
      then have "same_off (held s pd xs) s s3" by (intro same_off_trans [OF F(8) d(7)]) auto
      then have off: "same_off (held s pd xs) s s4" by (rule same_off_trans [OF _ g(8)]) (use vs in auto)
      show thesis
      proof (rule undone [OF _ g(2) _ _ ck _ _ off])
        show "allocuvm_loop pd (PGSIZE * k) oldsz newsz s = Inr (0, s4)" using T(8) by (simp add: step lt T(1) 1(1) d(1) g(1))
        show "cleared pd (pages_of oldsz) (pages_of newsz) s s4" using d(4) g(4) F(2) by (simp add: cleared_def)
        show "held s4 pd (v # zs) = held s pd xs" using d(5) g(5,6) F(3,4) Cons by (auto simp: held_def)
        show "kend s4 = kend s" "length xs < 2" using g(3) d(3) F(5) 1(2) Cons by simp_all
      qed
    next
      case (2 s2 zs)
      have tv: "v \<notin> tables s2 pd" "v mod PGSIZE = 0" using 2(2,4) valid_page_range(1) [OF T(7)] by (auto simp: vm_ok_def)
      have ta: "\<forall>p \<in> tables s2 pd. p mod PGSIZE = 0" using vm_ok_aligned [OF 2(2)] by simp
      have c2: "contents_kept pd ?s1 s2" by (rule contents_kept_off [OF F(1) 2(8) _ ta]) (use 2(2,4) in \<open>auto simp: vm_ok_def\<close>)
      have off: "same_off (held s pd xs) s s2"
        by (rule same_off_trans [OF F(8) 2(8)]) (use 2(6) F(3) Cons in \<open>auto simp: held_def\<close>)
      show thesis
      proof (rule more [OF _ 2(2) _ _ _ _ _ _ _ _ _ off])
        show "allocuvm_loop pd (PGSIZE * k) oldsz newsz s = allocuvm_loop pd (PGSIZE * (k + 1)) oldsz newsz s2"
          using T(8) by (simp add: step lt T(1) 2(1) add.commute)
        show "entry s2 pd m = (if m = k then Some (V2P v OR (PTE_W OR PTE_U OR PTE_P)) else entry s pd m)" if "m < 2 ^ 20" for m
          using 2(3) [OF that] F(2) [OF that] by (simp add: or.assoc)
        show "held s2 pd zs = held s pd xs" using 2(4,6) F(3,4) Cons by (auto simp: held_def)
        show "frame_of (V2P v OR (PTE_W OR PTE_U OR PTE_P)) = v"
          using pte_value(4) [OF T(7), of "PTE_W OR PTE_U OR PTE_P"] by (simp add: frame_of_def PTE_W_def PTE_U_def PTE_P_def)
        show "zeroed s2 v" using F(6) same_off_agree [OF 2(8) tv ta] by (simp add: zeroed_def agree_def)
        show "contents_kept pd s s2" by (rule contents_kept_trans [OF F(7) c2]) (use F(2) vpn_index(2) in simp)
        show "kend s2 = kend s" "set zs \<subseteq> set xs" "v \<in> set xs" "length xs \<le> length zs + 2" using 2(5,7,9) F(5) Cons by auto
      qed
    qed
  qed
qed

lemma allocuvm_loop_result:
  assumes "vm_ok s pd xs" "newsz < KERNBASE" "oldsz \<le> newsz" "pages_of oldsz \<le> k" "k \<le> user_pages" "\<And>m. k \<le> m \<Longrightarrow> m < user_pages \<Longrightarrow> entry s pd m = None"
  shows "\<exists>r s' ys. allocuvm_loop pd (PGSIZE * k) oldsz newsz s = Inr (r, s') \<and> vm_ok s' pd ys \<and> kend s' = kend s \<and> held s' pd ys = held s pd xs \<and> contents_kept pd s s' \<and> same_off (held s pd xs) s s' \<and>
    (2 * (pages_of newsz - k) \<le> length xs \<longrightarrow> r = newsz) \<and> (r = newsz \<and> grown pd k (pages_of newsz) xs s s' \<or> r = 0 \<and> cleared pd (pages_of oldsz) (pages_of newsz) s s')"
  using assms
proof (induction "user_pages - k" arbitrary: k s xs rule: less_induct)
  case less
  note ok = less.prems(1)
  show ?case
  proof (cases "k < pages_of newsz")
    case False
    then have "allocuvm_loop pd (PGSIZE * k) oldsz newsz s = Inr (newsz, s)" by (simp add: allocuvm_loop.simps [of pd "PGSIZE * k" oldsz newsz s] page_below)
    moreover have "contents_kept pd s s" "same_off (held s pd xs) s s" "grown pd k (pages_of newsz) xs s s"
      using False by (auto simp: contents_kept_def agree_refl grown_def same_off_refl)
    ultimately show ?thesis using ok by blast
  next
    case True
    have nu: "k < user_pages" using True pages_of_user [of newsz] less.prems(2) by simp
    have old: "oldsz < newsz"
      using pages_of_mono [of newsz oldsz] True less.prems(4) by (meson leD leI le_trans)
    show ?thesis
    proof (cases rule: alloc_round_cases [OF ok less.prems(2) old True less.prems(6) [OF le_refl nu]])
      case (1 s' ys)
      have "\<not> 2 * (pages_of newsz - k) \<le> length xs" using 1(7) True by simp
      then show ?thesis using 1 by blast
    next
      case (2 v s2 zs)
      have n2: "entry s2 pd m = None" if "k + 1 \<le> m" "m < user_pages" for m using 2(6) [OF vpn_index(2) [OF that(2)]] that less.prems(6) by simp
      have lk: "user_pages - (k + 1) < user_pages - k" "pages_of oldsz \<le> k + 1" "k + 1 \<le> user_pages" using nu less.prems(4) by simp_all
      obtain r s' us where R: "allocuvm_loop pd (PGSIZE * (k + 1)) oldsz newsz s2 = Inr (r, s')" "vm_ok s' pd us" "kend s' = kend s2" "held s' pd us = held s2 pd zs"
        "contents_kept pd s2 s'" "r = newsz \<and> grown pd (k + 1) (pages_of newsz) zs s2 s' \<or> r = 0 \<and> cleared pd (pages_of oldsz) (pages_of newsz) s2 s'"
        "2 * (pages_of newsz - (k + 1)) \<le> length zs \<longrightarrow> r = newsz" "same_off (held s2 pd zs) s2 s'"
        using less.hyps [OF lk(1) 2(2) less.prems(2,3) lk(2,3) n2] by blast
      have "entry s2 pd m = Some x" if "m < user_pages" "entry s pd m = Some x" for m x
        using 2(6) [OF vpn_index(2) [OF that(1)]] that less.prems(6) [OF le_refl nu] by auto
      then have ck: "contents_kept pd s s'" by (rule contents_kept_trans [OF 2(5) R(5)])
      have "grown pd k (pages_of newsz) xs s s'" if "grown pd (k + 1) (pages_of newsz) zs s2 s'"
        by (rule grown_step [OF that nu True 2(6,7,8) R(5) 2(9,10)])
      moreover have "cleared pd (pages_of oldsz) (pages_of newsz) s s'" if "cleared pd (pages_of oldsz) (pages_of newsz) s2 s'"
        using that 2(6) True less.prems(4) by (auto simp: cleared_def)
      ultimately have "r = newsz \<and> grown pd k (pages_of newsz) xs s s' \<or> r = 0 \<and> cleared pd (pages_of oldsz) (pages_of newsz) s s'" using R(6) by blast
      moreover have "2 * (pages_of newsz - k) \<le> length xs \<longrightarrow> r = newsz" using R(7) 2(11) by linarith
      moreover have "same_off (held s pd xs) s s'" by (rule same_off_trans [OF 2(12) R(8)]) (use 2(4) in auto)
      ultimately show ?thesis using 2(1,3,4) R(1,2,3,4) ck by (intro exI [of _ r] exI [of _ s'] exI [of _ us]) simp
    qed
  qed
qed

lemma free_tables_pool:
  assumes "kmem_ok s ys" "pd mod PGSIZE = 0" "distinct js" "\<forall>i \<in> set js. i < 1024"
    "\<And>i. i \<in> set js \<Longrightarrow> odd (pde s pd i) \<Longrightarrow> valid_page (kend s) (tab s pd i) \<and> tab s pd i \<notin> set ys \<and> tab s pd i \<noteq> pd"
    "inj_on (tab s pd) {i \<in> set js. odd (pde s pd i)}"
  shows "\<exists>s' zs. free_tables pd js s = Inr s' \<and> kmem_ok s' zs \<and> kend s' = kend s \<and> set zs = set ys \<union> tab s pd ` {i \<in> set js. odd (pde s pd i)} \<and>
    same_off (tab s pd ` {i \<in> set js. odd (pde s pd i)}) s s'"
  using assms
proof (induction js arbitrary: s ys)
  case (Cons i js)
  show ?case
  proof (cases "odd (pde s pd i)")
    case False
    then have "{j \<in> set (i # js). odd (pde s pd j)} = {j \<in> set js. odd (pde s pd j)}" by auto
    with False Cons.prems Cons.IH [OF Cons.prems(1,2)] show ?thesis by (simp add: pde_def)
  next
    case True
    let ?t = "tab s pd i"
    have t: "valid_page (kend s) ?t" "?t \<notin> set ys" "?t \<noteq> pd" using Cons.prems(5) True by auto
    obtain s1 where s1: "kfree ?t s = Inr s1" "kmem_ok s1 (?t # ys)" "kend s1 = kend s" "same_outside ?t (kmemory s) (kmemory s1)"
      using kfree_ok [OF Cons.prems(1) t(1,2)] by blast
    have ag: "agree {pd} s s1" using agree_outside [OF s1(4) valid_page_range(1) [OF t(1)]] t(3) Cons.prems(2) by auto
    have p: "pde s1 pd j = pde s pd j" "tab s1 pd j = tab s pd j" if "j \<in> set js" for j
      using agreeD [OF ag, of pd j] that Cons.prems(4) by (auto simp: pde_def tab_def)
    have same: "{j \<in> set js. odd (pde s1 pd j)} = {j \<in> set js. odd (pde s pd j)}" using p(1) by auto
    have im: "tab s1 pd ` {j \<in> set js. odd (pde s pd j)} = tab s pd ` {j \<in> set js. odd (pde s pd j)}" using p(2) by auto
    have ne: "tab s pd j \<noteq> ?t" if "j \<in> set js" "odd (pde s pd j)" for j using Cons.prems(3,6) that True by (auto simp: inj_on_def)
    have "\<exists>s' zs. free_tables pd js s1 = Inr s' \<and> kmem_ok s' zs \<and> kend s' = kend s1 \<and> set zs = set (?t # ys) \<union> tab s1 pd ` {j \<in> set js. odd (pde s1 pd j)} \<and>
        same_off (tab s1 pd ` {j \<in> set js. odd (pde s1 pd j)}) s1 s'"
    proof (rule Cons.IH [OF s1(2) Cons.prems(2)])
      show "distinct js" "\<forall>i \<in> set js. i < 1024" using Cons.prems(3,4) by auto
      show "valid_page (kend s1) (tab s1 pd j) \<and> tab s1 pd j \<notin> set (?t # ys) \<and> tab s1 pd j \<noteq> pd" if "j \<in> set js" "odd (pde s1 pd j)" for j
        using Cons.prems(5) that p s1(3) ne by auto
      show "inj_on (tab s1 pd) {j \<in> set js. odd (pde s1 pd j)}" using Cons.prems(6) p(2) unfolding same by (auto simp: inj_on_def)
    qed
    moreover have "free_tables pd (i # js) s = free_tables pd js s1" using True s1(1) by (simp add: pde_def tab_def)
    moreover have "{j \<in> set (i # js). odd (pde s pd j)} = insert i {j \<in> set js. odd (pde s pd j)}" using True by auto
    moreover have "same_off (insert ?t P) s s'" if "same_off P s1 s'" for P s'
      using same_off_trans [OF _ that, of "{?t}" s "insert ?t P"] s1(4) by (auto simp: same_off_def same_outside_def)
    ultimately show ?thesis using s1(3) im same by auto
  qed
qed (auto simp: same_off_refl)

lemma freevm_pool:
  assumes ok: "vm_ok s pd xs"
  obtains s' ys where "freevm pd s = Inr s'" "kmem_ok s' ys" "kend s' = kend s" "set ys = held s pd xs" "same_off (held s pd xs) s s'"
proof -
  have pd: "pd \<in> tables s pd" "pd \<noteq> 0" using ok valid_page_range(6) by (auto simp: vm_ok_def tables_def)
  obtain s1 ys where d: "deallocuvm pd KERNBASE 0 s = Inr (0, s1)" "vm_ok s1 pd ys" "kend s1 = kend s"
    "cleared pd (pages_of 0) (pages_of KERNBASE) s s1" "held s1 pd ys = held s pd xs" "tables s1 pd = tables s pd" "same_off (held s pd xs) s s1"
    using deallocuvm_clears [OF ok, of 0 KERNBASE] deallocuvm_off by (simp add: KERNBASE_def) metis
  have "pages_of 0 = 0" "pages_of KERNBASE = user_pages" by (simp_all add: pages_of_def PGSIZE_def KERNBASE_def user_pages_def)
  then have "frames s1 pd = {}" using d(4) vpn_index(2) by (auto simp: frames_def cleared_def)
  then have h: "set ys \<union> tables s1 pd = held s pd xs" using d(5) by (simp add: held_def)
  have lv: "{i \<in> set [0..<NPDENTRIES]. odd (pde s1 pd i)} = live s1 pd" by (auto simp: live_def NPDENTRIES_def)
  have np: "pd \<notin> tab s1 pd ` live s1 pd" using d(2) by (simp add: vm_ok_def)
  have T: "valid_page (kend s1) (tab s1 pd i) \<and> tab s1 pd i \<notin> set ys \<and> tab s1 pd i \<noteq> pd" if "i \<in> live s1 pd" for i
  proof -
    have "tab s1 pd i \<in> tables s1 pd" "tab s1 pd i \<noteq> pd" using that np by (auto simp: tables_def) (metis imageI)
    then show ?thesis using d(2) by (auto simp: vm_ok_def)
  qed
  have K: "kmem_ok s1 ys" "pd mod PGSIZE = 0" "inj_on (tab s1 pd) (live s1 pd)" using d(2) vm_ok_aligned [OF d(2), of pd] by (auto simp: vm_ok_def tables_def)
  have "\<exists>s2 zs. free_tables pd [0..<NPDENTRIES] s1 = Inr s2 \<and> kmem_ok s2 zs \<and> kend s2 = kend s1 \<and>
      set zs = set ys \<union> tab s1 pd ` {i \<in> set [0..<NPDENTRIES]. odd (pde s1 pd i)} \<and>
      same_off (tab s1 pd ` {i \<in> set [0..<NPDENTRIES]. odd (pde s1 pd i)}) s1 s2"
  proof (rule free_tables_pool [OF K(1,2)])
    show "inj_on (tab s1 pd) {i \<in> set [0..<NPDENTRIES]. odd (pde s1 pd i)}" unfolding lv by (rule K(3))
    show "valid_page (kend s1) (tab s1 pd i) \<and> tab s1 pd i \<notin> set ys \<and> tab s1 pd i \<noteq> pd" if "i \<in> set [0..<NPDENTRIES]" "odd (pde s1 pd i)" for i
      using T lv that by blast
  qed (auto simp: NPDENTRIES_def)
  then obtain s2 zs where f: "free_tables pd [0..<NPDENTRIES] s1 = Inr s2" "kmem_ok s2 zs" "kend s2 = kend s1" "set zs = set ys \<union> tab s1 pd ` live s1 pd"
    "same_off (tab s1 pd ` live s1 pd) s1 s2"
    unfolding lv by blast
  have "valid_page (kend s2) pd" "pd \<notin> set zs" using d(2) f(3,4) by (auto simp: vm_ok_def tables_def)
  then obtain s3 where k: "kfree pd s2 = Inr s3" "kmem_ok s3 (pd # zs)" "kend s3 = kend s2" "same_outside pd (kmemory s2) (kmemory s3)"
    using kfree_ok [OF f(2)] by blast
  have "same_off (held s pd xs) s s2" by (rule same_off_trans [OF d(7) f(5)]) (use h in \<open>auto simp: tables_def\<close>)
  then have off: "same_off (held s pd xs) s s3"
    by (rule same_off_trans [of _ _ _ "{pd}"]) (use k(4) h in \<open>auto simp: same_off_def same_outside_def tables_def\<close>)
  have "freevm pd s = Inr s3" using pd(2) d(1) f(1) k(1) by (simp add: freevm_def)
  moreover have "set (pd # zs) = held s pd xs" using h f(4) by (auto simp: tables_def)
  ultimately show thesis using that [OF _ k(2) _ _ off] k(3) f(3) d(3) by simp
qed

lemma new_space:
  assumes k: "kmem_ok s (v # xs)" and e: "KERNBASE < kend s"
  defines "s1 \<equiv> fill v 0 (s\<lparr>freelist := load32 v (kmemory s)\<rparr>)"
  shows "vm_ok s1 v xs" "\<And>n. n < 2 ^ 20 \<Longrightarrow> entry s1 v n = None" "kend s1 = kend s" "held s1 v xs = set (v # xs)"
proof -
  have v: "valid_page (kend s) v" "v \<notin> set xs" using k by (auto simp: kmem_ok_def)
  have z: "pde s1 v i = 0" if "i < 1024" for i using ldw_fill [OF that] by (simp add: pde_def s1_def)
  show en: "entry s1 v n = None" if "n < 2 ^ 20" for n using z [OF vpn_index(1) [OF that]] by (simp add: entry_def)
  have lv: "live s1 v = {}" "tables s1 v = {v}" using z by (auto simp: live_def tables_def)
  have fr: "frames s1 v = {}" using en vpn_index(2) by (auto simp: frames_def)
  let ?s = "s\<lparr>freelist := load32 v (kmemory s)\<rparr>"
  have "kmem_ok (?s\<lparr>kmemory := kmemory s1\<rparr>) xs" unfolding s1_def
    by (rule kmem_ok_outside [OF kalloc_Cons(2) [OF k] valid_page_range(1) [OF v(1)] v(2) fill_outside])
  then have "kmem_ok s1 xs" by (simp add: s1_def fill_def)
  moreover show "kend s1 = kend s" by (simp add: s1_def)
  moreover have "entry s1 v n \<noteq> Some x" if "n < user_pages" for n x using en vpn_index(2) [OF that] by simp
  ultimately show "vm_ok s1 v xs" using v e by (auto simp: vm_ok_def lv fr)
  show "held s1 v xs = set (v # xs)" by (simp add: held_def lv fr)
qed

lemma allocuvm_result:
  assumes "vm_ok s pd xs" "newsz < KERNBASE" "oldsz \<le> newsz" "\<And>m. pages_of oldsz \<le> m \<Longrightarrow> m < user_pages \<Longrightarrow> entry s pd m = None"
  shows "\<exists>r s' ys. allocuvm pd oldsz newsz s = Inr (r, s') \<and> vm_ok s' pd ys \<and> kend s' = kend s \<and> held s' pd ys = held s pd xs \<and> contents_kept pd s s' \<and> same_off (held s pd xs) s s' \<and>
    (2 * (pages_of newsz - pages_of oldsz) \<le> length xs \<longrightarrow> r = newsz) \<and>
    (r = newsz \<and> grown pd (pages_of oldsz) (pages_of newsz) xs s s' \<or> r = 0 \<and> (\<forall>m < 2 ^ 20. entry s' pd m = entry s pd m))"
proof -
  have sz: "oldsz \<le> KERNBASE" "newsz \<le> KERNBASE" using assms(2,3) by simp_all
  have "allocuvm pd oldsz newsz s = allocuvm_loop pd (PGSIZE * pages_of oldsz) oldsz newsz s"
    using assms(2,3) by (simp add: allocuvm_def PGROUNDUP_pages [OF sz(1)])
  moreover have "entry s' pd m = entry s pd m" if "cleared pd (pages_of oldsz) (pages_of newsz) s s'" "m < 2 ^ 20" for s' m
    using that assms(4) [of m] pages_of_user [OF sz(2)] by (auto simp: cleared_def)
  ultimately show ?thesis
    using allocuvm_loop_result [OF assms(1,2,3) le_refl pages_of_user [OF sz(1)] assms(4)] by metis
qed

text \<open>C6: \<open>allocuvm\<close> grows an address space completely or not at all. When it returns the new size, each new page of the
  process is mapped writable for the user to a page of its own that was free and holds zeros. When memory runs out, for a
  page of the process or for a page table, it returns 0 and the process has the mappings it had before. It does
  return the new size when two pages are free for each page it adds. In both cases the old pages keep their mapping and their bytes, no page is free and in use at once, no page is lost, and no other page of memory is written.\<close>

theorem allocuvm_all_or_nothing:
  assumes "vm_ok s pd xs" "newsz < KERNBASE" "oldsz \<le> newsz" "\<And>m. pages_of oldsz \<le> m \<Longrightarrow> m < user_pages \<Longrightarrow> entry s pd m = None"
  shows "\<exists>r s' ys. allocuvm pd oldsz newsz s = Inr (r, s') \<and> vm_ok s' pd ys \<and> kend s' = kend s \<and> held s' pd ys = held s pd xs \<and> contents_kept pd s s' \<and> same_off (held s pd xs) s s' \<and>
    (2 * (pages_of newsz - pages_of oldsz) \<le> length xs \<longrightarrow> r = newsz) \<and>
    (r = newsz \<and> grown pd (pages_of oldsz) (pages_of newsz) xs s s' \<or> r = 0 \<and> (\<forall>m < 2 ^ 20. entry s' pd m = entry s pd m))"
  using assms by (rule allocuvm_result)

text \<open>C24: \<open>freevm\<close> gives back everything an address space holds: afterwards exactly the pages that were free before, the page
  directory, its page tables and the pages mapped below \<open>KERNBASE\<close> are on the free list, each of them once, and
  the call does not panic.\<close>

theorem freevm_returns_all:
  assumes "vm_ok s pd xs"
  shows "\<exists>s' ys. freevm pd s = Inr s' \<and> kmem_ok s' ys \<and> set ys = set xs \<union> tables s pd \<union> frames s pd"
  by (rule freevm_pool [OF assms]) (auto simp: held_def)

text \<open>Three pages above a small kernel.\<close>

definition little :: kmem where
  "little = \<lparr>kend = 0x80110000, use_lock = False, freelist = 0, kmemory = (\<lambda>_. 0)\<rparr>"

lemma little_pool:
  obtains s where "kmem_ok s [0x80112000, 0x80111000, 0x80110000]" "kend s = 0x80110000"
proof -
  have v: "valid_page 0x80110000 p" if "p \<in> {0x80110000, 0x80111000, 0x80112000}" for p
    using that by (intro valid_pageI) (auto simp: PGSIZE_def KERNBASE_def PHYSTOP_def)
  have "kmem_ok little []" by (simp add: little_def kmem_ok_def)
  then obtain s1 where 1: "kmem_ok s1 [0x80110000]" "kend s1 = 0x80110000" using kfree_ok [of little "[]" "0x80110000"] v by (auto simp: little_def)
  obtain s2 where 2: "kmem_ok s2 [0x80111000, 0x80110000]" "kend s2 = 0x80110000" using kfree_ok [OF 1(1), of "0x80111000"] 1(2) v by auto
  show thesis using kfree_ok [OF 2(1), of "0x80112000"] 2(2) v that by auto
qed

text \<open>A new directory with two more free pages: one page of memory fits, because it needs a table; two do not.\<close>

lemma little_space: "\<exists>s. vm_ok s 0x80112000 [0x80111000, 0x80110000] \<and> (\<forall>n < 2 ^ 20. entry s 0x80112000 n = None)"
proof -
  obtain s where s: "kmem_ok s [0x80112000, 0x80111000, 0x80110000]" "kend s = 0x80110000" by (rule little_pool)
  then show ?thesis using new_space(1,2) [OF s(1)] by (auto simp: KERNBASE_def)
qed

theorem allocuvm_all_or_nothing_witness:
  "\<exists>s s' ys. vm_ok s 0x80112000 [0x80111000, 0x80110000] \<and> allocuvm 0x80112000 0 4096 s = Inr (4096, s') \<and> vm_ok s' 0x80112000 ys"
proof -
  obtain s where s: "vm_ok s 0x80112000 [0x80111000, 0x80110000]" "\<forall>n < 2 ^ 20. entry s 0x80112000 n = None" using little_space by blast
  have z: "(4096 :: nat) < KERNBASE" "(0 :: nat) \<le> 4096" by (simp_all add: KERNBASE_def)
  have n: "entry s 0x80112000 m = None" if "m < user_pages" for m using s(2) vpn_index(2) [OF that] by simp
  have "2 * (pages_of 4096 - pages_of 0) \<le> length [0x80111000 :: nat, 0x80110000]" by (simp add: pages_of_def PGSIZE_def)
  then show ?thesis using allocuvm_all_or_nothing [OF s(1) z n] s(1) by blast
qed

theorem freevm_returns_all_witness:
  "\<exists>s s' ys. vm_ok s 0x80112000 [0x80111000, 0x80110000] \<and> freevm 0x80112000 s = Inr s' \<and> kmem_ok s' ys"
proof -
  obtain s where s: "vm_ok s 0x80112000 [0x80111000, 0x80110000]" using little_space by blast
  then show ?thesis using freevm_returns_all [OF s] by blast
qed

subsection \<open>Writing to user memory\<close>

definition ubyte :: "kmem \<Rightarrow> nat \<Rightarrow> nat \<Rightarrow> byte option" where
  "ubyte s pd a = map_option (\<lambda>x. kmemory s (frame_of x + a mod PGSIZE)) (entry s pd (a div PGSIZE))"

definition user_ok :: "kmem \<Rightarrow> nat \<Rightarrow> nat \<Rightarrow> bool" where
  "user_ok s pd n \<longleftrightarrow> (\<exists>x. entry s pd n = Some x \<and> x AND PTE_U \<noteq> 0)"

lemma user_page: "a < KERNBASE \<Longrightarrow> a div PGSIZE < user_pages"
  by (simp add: PGSIZE_def KERNBASE_def user_pages_def)

lemma uva2ka_ok:
  assumes ok: "vm_ok s pd xs" and n: "n < user_pages" "entry s pd n = Some x" "x AND PTE_U \<noteq> 0"
  shows "uva2ka pd (PGSIZE * n) s = Inr (frame_of x)" "frame_of x \<noteq> 0"
proof -
  note l = vpn_index(2) [OF n(1)]
  have x: "odd (pde s pd (n div 1024))" "ldw (tab s pd (n div 1024) + 4 * (n mod 1024)) s = x" "odd x"
    using n(2) by (auto simp: entry_def Let_def split: if_splits)
  then show "uva2ka pd (PGSIZE * n) s = Inr (frame_of x)"
    using tab_pos [OF ok vpn_index(1) [OF l] x(1)] n(3) by (simp add: uva2ka_def walk_look [OF l] frame_of_def)
  show "frame_of x \<noteq> 0" using ok frame_in [OF n(1,2)] valid_page_range(6) by (auto simp: vm_ok_def)
qed

text \<open>Bytes written within one page of the user.\<close>

lemma put_mem_page:
  assumes ok: "vm_ok s pd xs" and n: "n < user_pages" "entry s pd n = Some x" and l: "d + length bs \<le> PGSIZE"
  defines "s1 \<equiv> put_mem (frame_of x + d) bs s"
  shows "vm_ok s1 pd xs" "\<And>m. m < 2 ^ 20 \<Longrightarrow> entry s1 pd m = entry s pd m"
    "\<And>a. a < KERNBASE \<Longrightarrow> ubyte s1 pd a = (if PGSIZE * n + d \<le> a \<and> a < PGSIZE * n + d + length bs then Some (bs ! (a - (PGSIZE * n + d))) else ubyte s pd a)"
proof -
  let ?f = "frame_of x"
  have f: "?f \<in> frames s pd" using frame_in [OF n] .
  have al: "?f mod PGSIZE = 0" using vm_ok_aligned [OF ok] f by blast
  have out: "same_outside ?f (kmemory s) (kmemory s1)" using l by (auto simp: s1_def put_mem_def same_outside_def in_page_def)
  have nf: "?f \<notin> tables s pd" "?f \<notin> set xs" using ok f by (auto simp: vm_ok_def)
  have ag: "agree (tables s pd) s s1" using agree_outside [OF out al nf(1)] vm_ok_aligned [OF ok] by blast
  have "kmem_ok (s\<lparr>kmemory := kmemory s1\<rparr>) xs" using kmem_ok_outside [OF _ al nf(2) out] ok by (simp add: vm_ok_def)
  then have k: "kmem_ok s1 xs" "kend s1 = kend s" by (simp_all add: s1_def put_mem_def)
  show "vm_ok s1 pd xs" by (rule vm_ok_agree [OF ok ag k]) (use ok in \<open>auto simp: vm_ok_def\<close>)
  show e: "entry s1 pd m = entry s pd m" if "m < 2 ^ 20" for m using space_agree(5) [OF ag that] .
  fix a assume a: "a < KERNBASE"
  have ea: "entry s1 pd (a div PGSIZE) = entry s pd (a div PGSIZE)" using e vpn_index(2) [OF user_page [OF a]] by simp
  have d: "PGSIZE * (a div PGSIZE) + a mod PGSIZE = a" by simp
  show "ubyte s1 pd a = (if PGSIZE * n + d \<le> a \<and> a < PGSIZE * n + d + length bs then Some (bs ! (a - (PGSIZE * n + d))) else ubyte s pd a)"
  proof (cases "a div PGSIZE = n")
    case True
    then have "a = PGSIZE * n + a mod PGSIZE" using d by simp
    then have "PGSIZE * n + d \<le> a \<longleftrightarrow> d \<le> a mod PGSIZE" "a < PGSIZE * n + d + length bs \<longleftrightarrow> a mod PGSIZE < d + length bs" "a - (PGSIZE * n + d) = a mod PGSIZE - d" by linarith+
    then show ?thesis using True ea n(2) by (simp add: ubyte_def s1_def put_mem_def)
  next
    case False
    have no: "\<not> (PGSIZE * n + d \<le> a \<and> a < PGSIZE * n + d + length bs)"
    proof
      assume "PGSIZE * n + d \<le> a \<and> a < PGSIZE * n + d + length bs"
      then have "a div PGSIZE = n" using l by (auto simp: PGSIZE_def)
      with False show False ..
    qed
    have "kmemory s1 (frame_of y + a mod PGSIZE) = kmemory s (frame_of y + a mod PGSIZE)" if "entry s pd (a div PGSIZE) = Some y" for y
    proof -
      note ua = user_page [OF a]
      have "frame_of y \<noteq> ?f" using ok that n ua False unfolding vm_ok_def by blast
      moreover have "frame_of y mod PGSIZE = 0" using vm_ok_aligned [OF ok] frame_in [OF ua that] by blast
      ultimately have "agree {frame_of y} s s1" using agree_outside [OF out al] by auto
      then show ?thesis by (simp add: agree_def in_page_def PGSIZE_def)
    qed
    then show ?thesis using ea no by (cases "entry s pd (a div PGSIZE)") (auto simp: ubyte_def)
  qed
qed

lemma copyout_Nil [simp]: "copyout pd va [] s = Inr (True, s)"
  by (simp add: copyout.simps)

lemma copyout_writes:
  assumes "vm_ok s pd xs" "va + length p \<le> KERNBASE" "\<And>n. va div PGSIZE \<le> n \<Longrightarrow> PGSIZE * n < va + length p \<Longrightarrow> user_ok s pd n"
  shows "\<exists>s'. copyout pd va p s = Inr (True, s') \<and> vm_ok s' pd xs \<and> (\<forall>m < 2 ^ 20. entry s' pd m = entry s pd m) \<and>
    (\<forall>a < KERNBASE. ubyte s' pd a = (if va \<le> a \<and> a < va + length p then Some (p ! (a - va)) else ubyte s pd a))"
  using assms
proof (induction p arbitrary: va s rule: length_induct)
  case (1 p)
  note step = copyout.simps [of pd va p s]
  show ?case
  proof (cases "p = []")
    case True
    then have "copyout pd va p s = Inr (True, s)" by simp
    then show ?thesis using "1.prems"(1) True by auto
  next
    case False
    let ?n = "va div PGSIZE" and ?d = "va mod PGSIZE"
    have va: "va = PGSIZE * ?n + ?d" "?d < PGSIZE" by (simp_all add: PGSIZE_def)
    have down: "PGROUNDDOWN va = PGSIZE * ?n" by (simp add: PGROUNDDOWN_def minus_mod_eq_mult_div)
    have nu: "?n < user_pages" using False "1.prems"(2) by (intro user_page) (cases p, auto)
    have "PGSIZE * ?n \<le> va" "0 < length p" using False by simp_all
    then have "PGSIZE * ?n < va + length p" by linarith
    then obtain x where x: "entry s pd ?n = Some x" "x AND PTE_U \<noteq> 0" using "1.prems"(3) by (auto simp: user_ok_def)
    note U = uva2ka_ok [OF "1.prems"(1) nu x]
    let ?k = "min (PGSIZE - ?d) (length p)"
    have k: "?d + length (take ?k p) \<le> PGSIZE" "length (drop ?k p) < length p" "0 < ?k" using va(2) False by (auto simp: PGSIZE_def)
    note P = put_mem_page [OF "1.prems"(1) nu x(1) k(1)]
    let ?s = "put_mem (frame_of x + ?d) (take ?k p) s" and ?va = "PGSIZE * (?n + 1)"
    have sub: "va - PGSIZE * ?n = ?d" by (simp add: minus_mult_div_eq_mod)
    have nx: "(PGSIZE * ?n + PGSIZE) mod 2 ^ 32 = ?va" using nu by (simp add: user_pages_def PGSIZE_def)
    have c: "copyout pd va p s = copyout pd ?va (drop ?k p) ?s"
      using False U by (simp only: step down sub nx if_False Let_def ebind_simps)
    show ?thesis
    proof (cases "length p \<le> PGSIZE - ?d")
      case True
      then have "copyout pd va p s = Inr (True, ?s)" by (simp add: c)
      then show ?thesis using P [unfolded va(1) [symmetric]] True by (simp add: min_def)
    next
      case False
      then have k0: "?k = PGSIZE - ?d" by simp
      have "?va = PGSIZE * ?n + PGSIZE" by simp
      then have "?va = va + ?k" using va k0 by linarith
      then have kk: "?k = PGSIZE - ?d" "?va = va + ?k" "length (drop ?k p) = length p - ?k" "?k \<le> length p" using k0 by simp_all
      have pre: "?va + length (drop ?k p) \<le> KERNBASE" using kk "1.prems"(2) by simp
      have us: "user_ok ?s pd m" if "?va div PGSIZE \<le> m" "PGSIZE * m < ?va + length (drop ?k p)" for m
      proof -
        have m: "?n \<le> m" "PGSIZE * m < va + length p" using that kk by (auto simp: PGSIZE_def)
        then have "m < 2 ^ 20" using "1.prems"(2) by (simp add: PGSIZE_def KERNBASE_def)
        then show ?thesis using "1.prems"(3) [OF m] P(2) by (simp add: user_ok_def)
      qed
      obtain s' where s': "copyout pd ?va (drop ?k p) ?s = Inr (True, s')" "vm_ok s' pd xs" "\<forall>m < 2 ^ 20. entry s' pd m = entry ?s pd m"
        "\<forall>a < KERNBASE. ubyte s' pd a = (if ?va \<le> a \<and> a < ?va + length (drop ?k p) then Some (drop ?k p ! (a - ?va)) else ubyte ?s pd a)"
        using "1.IH" [rule_format, OF k(2) P(1) pre us] by blast
      have "ubyte s' pd a = (if va \<le> a \<and> a < va + length p then Some (p ! (a - va)) else ubyte s pd a)" if "a < KERNBASE" for a
        using s'(4) [rule_format, OF that] P(3) [OF that, unfolded va(1) [symmetric]] kk by (auto simp: nth_append)
      then show ?thesis using c s'(1,2,3) P(2) by auto
    qed
  qed
qed

text \<open>C25: \<open>copyout\<close> writes exactly the given bytes at the given user addresses, also across page boundaries. When every page
  it needs is mapped for the user it succeeds; then each of the addresses holds its byte, every other byte of user memory
  and all mappings are as before.\<close>

theorem copyout_correct:
  assumes "vm_ok s pd xs" "va + length p \<le> KERNBASE" "\<And>n. va div PGSIZE \<le> n \<Longrightarrow> PGSIZE * n < va + length p \<Longrightarrow> user_ok s pd n"
  shows "\<exists>s'. copyout pd va p s = Inr (True, s') \<and> vm_ok s' pd xs \<and> (\<forall>m < 2 ^ 20. entry s' pd m = entry s pd m) \<and>
    (\<forall>a < KERNBASE. ubyte s' pd a = (if va \<le> a \<and> a < va + length p then Some (p ! (a - va)) else ubyte s pd a))"
  using assms by (rule copyout_writes)

lemma grown_user: "grown pd k l xs s s' \<Longrightarrow> k \<le> n \<Longrightarrow> n < l \<Longrightarrow> n < 2 ^ 20 \<Longrightarrow> user_ok s' pd n"
proof -
  have "bit ((v OR (PTE_W OR PTE_U OR PTE_P)) AND PTE_U) 2" for v :: nat
    by (simp add: PTE_W_def PTE_U_def PTE_P_def bit_simps)
  then have "(v OR (PTE_W OR PTE_U OR PTE_P)) AND PTE_U \<noteq> 0" for v :: nat by (metis bit_0_eq bot_apply bot_bool_def)
  then show "grown pd k l xs s s' \<Longrightarrow> k \<le> n \<Longrightarrow> n < l \<Longrightarrow> n < 2 ^ 20 \<Longrightarrow> user_ok s' pd n"
    using grownD(1) [of pd k l xs s s' n] by (auto simp: user_ok_def)
qed

lemma little_grown: "\<exists>s ys. vm_ok s 0x80112000 ys \<and> user_ok s 0x80112000 0"
proof -
  obtain s where s: "vm_ok s 0x80112000 [0x80111000, 0x80110000]" "\<forall>n < 2 ^ 20. entry s 0x80112000 n = None" using little_space by blast
  have z: "(4096 :: nat) < KERNBASE" "(0 :: nat) \<le> 4096" by (simp_all add: KERNBASE_def)
  have n: "entry s 0x80112000 m = None" if "m < user_pages" for m using s(2) vpn_index(2) [OF that] by simp
  have p: "pages_of 0 = 0" "pages_of 4096 = 1" by (simp_all add: pages_of_def PGSIZE_def)
  obtain r s' ys where r: "vm_ok s' 0x80112000 ys" "r = (4096 :: nat)" "r = 4096 \<and> grown 0x80112000 0 1 [0x80111000, 0x80110000] s s' \<or> r = 0 \<and> (\<forall>m < 2 ^ 20. entry s' 0x80112000 m = entry s 0x80112000 m)"
    using allocuvm_result [OF s(1) z n] unfolding p by force
  then have "grown 0x80112000 0 1 [0x80111000, 0x80110000] s s'" by simp
  then have "user_ok s' 0x80112000 0" by (rule grown_user) simp_all
  then show ?thesis using r(1) by blast
qed

theorem copyout_correct_witness:
  "\<exists>s s'. user_ok s 0x80112000 0 \<and> copyout 0x80112000 4094 [104, 105] s = Inr (True, s') \<and> ubyte s' 0x80112000 4095 = Some 105"
proof -
  obtain s ys where s: "vm_ok s 0x80112000 ys" "user_ok s 0x80112000 0" using little_grown by blast
  have l: "4094 + length [104 :: byte, 105] \<le> KERNBASE" by (simp add: KERNBASE_def)
  have u: "user_ok s 0x80112000 n" if "4094 div PGSIZE \<le> n" "PGSIZE * n < 4094 + length [104 :: byte, 105]" for n
    using that s(2) by (cases "n = 0") (auto simp: PGSIZE_def)
  obtain s' where s': "copyout 0x80112000 4094 [104, 105] s = Inr (True, s')"
    "\<forall>a < KERNBASE. ubyte s' 0x80112000 a = (if 4094 \<le> a \<and> a < 4094 + length [104 :: byte, 105] then Some ([104, 105] ! (a - 4094)) else ubyte s 0x80112000 a)"
    using copyout_correct [OF s(1) l u] by blast
  then have "ubyte s' 0x80112000 4095 = Some 105" by (simp add: KERNBASE_def)
  then show ?thesis using s(2) s'(1) by blast
qed

text \<open>\<open>uva2ka\<close> follows the null pointer when not even the page table exists.\<close>

lemma uva2ka_no_table: "n < 2 ^ 20 \<Longrightarrow> even (pde s pd (n div 1024)) \<Longrightarrow> uva2ka pd (PGSIZE * n) s = Inl Null_deref"
  by (simp add: uva2ka_def walk_look)


end
