(* ===== verification/XV6_Exec.thy ===== *)
theory XV6_Exec
  imports XV6_File XV6_VM
begin

text \<open>
  Loading of programs, \<open>src/project3/xv6-modified/exec.c\<close> with \<open>elf.h\<close>, and \<open>loaduvm\<close> of \<open>vm.c\<close>. The state has the
  file system, the memory with the page allocator, and the fields of the process that \<open>exec\<close> sets. An argument string
  is the list of its bytes before the final zero. \<open>switchuvm\<close>, which loads the registers of the processor, has no
  counterpart. The lemmas follow the pages that the new address space takes from the allocator: whatever goes wrong, they
  are all free again and the old address space is intact; when all goes well the old pages are free and the new stack
  holds the arguments.
\<close>

subsection \<open>The operations\<close>

record elfhdr =
  elf_magic :: nat
  elf_entry :: nat
  elf_phoff :: nat
  elf_phnum :: nat

record proghdr =
  ph_type :: nat
  ph_off :: nat
  ph_vaddr :: nat
  ph_filesz :: nat
  ph_memsz :: nat

definition ELF_MAGIC :: nat where "ELF_MAGIC = 0x464C457F"
definition ELF_PROG_LOAD :: nat where "ELF_PROG_LOAD = 1"

definition get_elf :: "byte list \<Rightarrow> elfhdr" where
  "get_elf bs = \<lparr>elf_magic = rd32 bs 0, elf_entry = rd32 bs 24, elf_phoff = rd32 bs 28, elf_phnum = unat (rd16 bs 44)\<rparr>"

definition get_ph :: "byte list \<Rightarrow> proghdr" where
  "get_ph bs = \<lparr>ph_type = rd32 bs 0, ph_off = rd32 bs 4, ph_vaddr = rd32 bs 8, ph_filesz = rd32 bs 16, ph_memsz = rd32 bs 20\<rparr>"

text \<open>\<open>readi\<close> into the page at \<open>P2V(pa)\<close>; the result \<open>False\<close> is \<open>-1\<close>.\<close>

function loaduvm_loop :: "devsw \<Rightarrow> nat \<Rightarrow> nat \<Rightarrow> nat \<Rightarrow> nat \<Rightarrow> nat \<Rightarrow> nat \<Rightarrow> fsys \<Rightarrow> kmem \<Rightarrow> fault + bool \<times> fsys \<times> kmem" where
  "loaduvm_loop dv pgdir addr ip offset sz i f m =
     (if i < sz
      then
        (case walkpgdir pgdir ((addr + i) mod 2 ^ 32) False m of
           (pte, m1) \<Rightarrow>
             if pte = 0 then Inl (Panic ''loaduvm: address should exist'')
             else
               let pa = PTE_ADDR (ldw pte m1); n = (if sz - i < PGSIZE then sz - i else PGSIZE) in
               ebind (readi dv ip ((offset + i) mod 2 ^ 32) n f) (\<lambda>(r, f1).
                 case r of
                   None \<Rightarrow> Inr (False, f1, m1)
                 | Some bs \<Rightarrow>
                     if length bs \<noteq> n then Inr (False, f1, put_mem (P2V pa) bs m1)
                     else loaduvm_loop dv pgdir addr ip offset sz (i + PGSIZE) f1 (put_mem (P2V pa) bs m1)))
      else Inr (True, f, m))"
  by pat_completeness auto
termination
  by (relation "measure (\<lambda>(dv, pgdir, addr, ip, offset, sz, i, f, m). sz - i)") (auto simp: PGSIZE_def)

declare loaduvm_loop.simps [simp del]

definition loaduvm :: "devsw \<Rightarrow> nat \<Rightarrow> nat \<Rightarrow> nat \<Rightarrow> nat \<Rightarrow> nat \<Rightarrow> fsys \<Rightarrow> kmem \<Rightarrow> fault + bool \<times> fsys \<times> kmem" where
  "loaduvm dv pgdir addr ip offset sz f m =
     (if addr mod PGSIZE \<noteq> 0 then Inl (Panic ''loaduvm: addr must be page aligned'')
      else loaduvm_loop dv pgdir addr ip offset sz 0 f m)"

text \<open>The loop over the program headers, with \<open>k\<close> headers to go; \<open>None\<close> is \<open>goto bad\<close>.\<close>

fun load_segs :: "devsw \<Rightarrow> nat \<Rightarrow> nat \<Rightarrow> nat \<Rightarrow> nat \<Rightarrow> nat \<Rightarrow> fsys \<Rightarrow> kmem \<Rightarrow> fault + nat option \<times> fsys \<times> kmem" where
  "load_segs dv ip pgdir 0 off sz f m = Inr (Some sz, f, m)"
| "load_segs dv ip pgdir (Suc k) off sz f m =
     ebind (readi dv ip off 32 f) (\<lambda>(r, f1).
       case r of
         None \<Rightarrow> Inr (None, f1, m)
       | Some bs \<Rightarrow>
           let ph = get_ph bs; top = (ph_vaddr ph + ph_memsz ph) mod 2 ^ 32 in
           if length bs \<noteq> 32 then Inr (None, f1, m)
           else if ph_type ph \<noteq> ELF_PROG_LOAD then load_segs dv ip pgdir k ((off + 32) mod 2 ^ 32) sz f1 m
           else if ph_memsz ph < ph_filesz ph then Inr (None, f1, m)
           else if top < ph_vaddr ph then Inr (None, f1, m)
           else
             ebind (allocuvm pgdir sz top m) (\<lambda>(sz1, m1).
               if sz1 = 0 then Inr (None, f1, m1)
               else if ph_vaddr ph mod PGSIZE \<noteq> 0 then Inr (None, f1, m1)
               else
                 ebind (loaduvm dv pgdir (ph_vaddr ph) ip (ph_off ph) (ph_filesz ph) f1 m1) (\<lambda>(ok, f2, m2).
                   if \<not> ok then Inr (None, f2, m2)
                   else load_segs dv ip pgdir k ((off + 32) mod 2 ^ 32) sz1 f2 m2)))"

text \<open>Up to the end of that loop: \<open>pgdir\<close> as \<open>bad\<close> finds it, and the size and the entry point when all went well.\<close>

definition exec_load :: "devsw \<Rightarrow> nat \<Rightarrow> nat \<Rightarrow> fsys \<Rightarrow> kmem \<Rightarrow> fault + (nat \<times> (nat \<times> nat) option) \<times> fsys \<times> kmem" where
  "exec_load dv data ip f m =
     ebind (readi dv ip 0 52 f) (\<lambda>(r, f1).
       case r of
         None \<Rightarrow> Inr ((0, None), f1, m)
       | Some bs \<Rightarrow>
           let elf = get_elf bs in
           if length bs \<noteq> 52 then Inr ((0, None), f1, m)
           else if elf_magic elf \<noteq> ELF_MAGIC then Inr ((0, None), f1, m)
           else
             ebind (setupkvm data m) (\<lambda>(pgdir, m1).
               if pgdir = 0 then Inr ((0, None), f1, m1)
               else
                 ebind (load_segs dv ip pgdir (elf_phnum elf) (elf_phoff elf) 0 f1 m1) (\<lambda>(r, f2, m2).
                   Inr ((pgdir, map_option (\<lambda>sz. (sz, elf_entry elf)) r), f2, m2))))"

definition minus32 :: "nat \<Rightarrow> nat \<Rightarrow> nat" where
  "minus32 a b = (a + 2 ^ 32 - b mod 2 ^ 32) mod 2 ^ 32"

text \<open>The loop that pushes the argument strings: the new stack pointer and the addresses of the strings.\<close>

fun push_args :: "nat \<Rightarrow> byte list list \<Rightarrow> nat \<Rightarrow> nat \<Rightarrow> kmem \<Rightarrow> fault + (nat \<times> nat list) option \<times> kmem" where
  "push_args pgdir [] argc sp m = Inr (Some (sp, []), m)"
| "push_args pgdir (a # argv) argc sp m =
     (if argc \<ge> MAXARG then Inr (None, m)
      else
        let sp1 = minus32 sp (length a + 1); sp2 = sp1 - sp1 mod 4 in
        ebind (copyout pgdir sp2 (a @ [0]) m) (\<lambda>(ok, m1).
          if \<not> ok then Inr (None, m1)
          else
            ebind (push_args pgdir argv (argc + 1) sp2 m1) (\<lambda>(r, m2).
              Inr (map_option (\<lambda>(sp3, ps). (sp3, sp2 # ps)) r, m2))))"

text \<open>From the allocation of the stack to the last \<open>copyout\<close>: the size and the stack pointer.\<close>

definition exec_stack :: "nat \<Rightarrow> nat \<Rightarrow> byte list list \<Rightarrow> kmem \<Rightarrow> fault + (nat \<times> nat) option \<times> kmem" where
  "exec_stack pgdir sz argv m =
     (let sz0 = PGROUNDUP sz in
      ebind (allocuvm pgdir sz0 ((sz0 + 2 * PGSIZE) mod 2 ^ 32) m) (\<lambda>(sz1, m1).
        if sz1 = 0 then Inr (None, m1)
        else
          ebind (clearpteu pgdir (minus32 sz1 (2 * PGSIZE)) m1) (\<lambda>m2.
            ebind (push_args pgdir argv 0 sz1 m2) (\<lambda>(r, m3).
              case r of
                None \<Rightarrow> Inr (None, m3)
              | Some (sp, ps) \<Rightarrow>
                  let argc = length ps;
                      ustack = [0xffffffff, argc, minus32 sp ((argc + 1) * 4)] @ ps @ [0];
                      sp1 = minus32 sp ((3 + argc + 1) * 4)
                  in ebind (copyout pgdir sp1 (concat (map bytes32 ustack)) m3) (\<lambda>(ok, m4).
                       if ok then Inr (Some (sz1, sp1), m4) else Inr (None, m4))))))"

fun last_elem :: "byte list \<Rightarrow> byte list \<Rightarrow> byte list" where
  "last_elem l [] = l"
| "last_elem l (c # s) = last_elem (if c = 47 then s else l) s"

record exst =
  x_fs :: fsys
  x_mem :: kmem
  x_name :: "byte list"
  x_pgdir :: nat
  x_sz :: nat
  x_eip :: nat
  x_esp :: nat

definition exec :: "devsw \<Rightarrow> nat \<Rightarrow> int \<Rightarrow> nat \<Rightarrow> byte list \<Rightarrow> byte list list \<Rightarrow> exst \<Rightarrow> fault + int \<times> exst" where
  "exec dv data me cwd path argv st =
     ebind (fs_begin_op (x_fs st)) (\<lambda>f0.
       ebind (namei dv me cwd path f0) (\<lambda>(r, f1).
         case r of
           None \<Rightarrow> Inr (-1, st\<lparr>x_fs := fs_end_op f1\<rparr>)
         | Some ip \<Rightarrow>
             ebind (ilock me ip f1) (\<lambda>f2.
               ebind (exec_load dv data ip f2 (x_mem st)) (\<lambda>((pgdir, image), f3, m3).
                 case image of
                   None \<Rightarrow>
                     ebind (if pgdir \<noteq> 0 then freevm pgdir m3 else Inr m3) (\<lambda>m4.
                       ebind (iunlockput me ip f3) (\<lambda>f4. Inr (-1, st\<lparr>x_fs := fs_end_op f4, x_mem := m4\<rparr>)))
                 | Some (sz, start) \<Rightarrow>
                     ebind (iunlockput me ip f3) (\<lambda>f4.
                       let st1 = st\<lparr>x_fs := fs_end_op f4\<rparr> in
                       ebind (exec_stack pgdir sz argv m3) (\<lambda>(r, m4).
                         case r of
                           None \<Rightarrow> ebind (freevm pgdir m4) (\<lambda>m5. Inr (-1, st1\<lparr>x_mem := m5\<rparr>))
                         | Some (sz1, sp) \<Rightarrow>
                             ebind (safestrcpy 16 (last_elem path path @ [0])) (\<lambda>nm.
                               ebind (freevm (x_pgdir st) m4) (\<lambda>m5.
                                 Inr (0, st1\<lparr>x_mem := m5, x_name := nm @ drop (length nm) (x_name st),
                                              x_pgdir := pgdir, x_sz := sz1, x_eip := start, x_esp := sp\<rparr>)))))))))"


subsection \<open>Building an address space\<close>

text \<open>The address space \<open>pd\<close> in \<open>s\<close> is made of pages of \<open>U\<close>, the pages that were free in \<open>s0\<close>: those it does not hold
  are still free, and no page outside \<open>U\<close> has been written to.\<close>

definition built :: "kmem \<Rightarrow> nat set \<Rightarrow> nat \<Rightarrow> kmem \<Rightarrow> bool" where
  "built s0 U pd s \<longleftrightarrow> (\<exists>ys. vm_ok s pd ys \<and> held s pd ys = U) \<and> same_off U s0 s \<and> kend s = kend s0"

definition given_back :: "kmem \<Rightarrow> nat set \<Rightarrow> kmem \<Rightarrow> bool" where
  "given_back s0 U s \<longleftrightarrow> (\<exists>ys. kmem_ok s ys \<and> set ys = U) \<and> same_off U s0 s \<and> kend s = kend s0"

lemma builtE:
  assumes "built s0 U pd s"
  obtains ys where "vm_ok s pd ys" "held s pd ys = U" "same_off U s0 s" "kend s = kend s0"
  using assms by (auto simp: built_def)

lemma builtI:
  assumes "vm_ok s' pd ys" "held s' pd ys = U" "same_off U s0 s" "same_off P s s'" "P \<subseteq> U" "kend s' = kend s0"
  shows "built s0 U pd s'"
  using assms same_off_trans [of U s0 s P s' U] by (auto simp: built_def)

lemma freevm_built:
  assumes "built s0 U pd s"
  shows "\<exists>s'. freevm pd s = Inr s' \<and> given_back s0 U s'"
proof -
  obtain ys where b: "vm_ok s pd ys" "held s pd ys = U" "same_off U s0 s" "kend s = kend s0" using assms by (rule builtE)
  obtain s' zs where f: "freevm pd s = Inr s'" "kmem_ok s' zs" "kend s' = kend s" "set zs = held s pd ys" "same_off (held s pd ys) s s'"
    by (rule freevm_pool [OF b(1)])
  have "same_off U s0 s'" by (rule same_off_trans [OF b(3) f(5)]) (simp_all add: b(2))
  then show ?thesis using f b by (auto simp: given_back_def)
qed

text \<open>A mapping of the kernel.\<close>

lemma map_kernel_entry:
  assumes ok: "vm_ok s pd xs" and n: "user_pages \<le> n" "n < 2 ^ 20" "odd (pde s pd (n div 1024))" and x: "x < 2 ^ 32"
  defines "s' \<equiv> stw (tab s pd (n div 1024) + 4 * (n mod 1024)) x s"
  shows "vm_ok s' pd xs" "held s' pd xs = held s pd xs"
proof -
  note S = set_entry [OF vm_ok_tables [OF ok] n(2,3) x, folded s'_def]
  have e: "entry s' pd m = entry s pd m" if "m < user_pages" for m using S(4) [OF vpn_index(2) [OF that]] that n(1) by simp
  have f: "frames s' pd = frames s pd" using e unfolding frames_def by force
  show "vm_ok s' pd xs"
  proof (rule vm_ok_entry [OF ok S(1,2,3,5,6)])
    show "set xs \<inter> tables s pd = {}" "frames s' pd \<inter> (tables s pd \<union> set xs) = {}" using ok by (auto simp: f vm_ok_def)
    show "\<And>p. p \<in> frames s' pd \<Longrightarrow> valid_page (kend s) p" using ok by (auto simp: f vm_ok_def)
    show "k = k'" if "k < user_pages" "k' < user_pages" "entry s' pd k = Some y" "entry s' pd k' = Some y'" "frame_of y = frame_of y'" for k k' y y'
      using that ok by (auto simp: e vm_ok_def)
  qed
  show "held s' pd xs = held s pd xs" using S(1) f by (simp add: held_def)
qed

lemma or_less32: "(a :: nat) < 2 ^ 32 \<Longrightarrow> b < 2 ^ 32 \<Longrightarrow> a OR b < 2 ^ 32"
  by (metis take_bit_nat_eq_self take_bit_nat_less_exp take_bit_or)

lemma kernel_round_cases:
  assumes ok: "vm_ok s pd xs" and n: "user_pages \<le> n" "n < 2 ^ 20" "entry s pd n = None" and pa: "pa < 2 ^ 32" "perm < 2 ^ 32"
  obtains (out) "mappages_loop k pd (PGSIZE * n) pa perm s = Inr (False, s)"
  | (more) s2 ys where "mappages_loop k pd (PGSIZE * n) pa perm s =
        (case k of 0 \<Rightarrow> Inr (True, s2) | Suc k' \<Rightarrow> mappages_loop k' pd ((PGSIZE * n + PGSIZE) mod 2 ^ 32) ((pa + PGSIZE) mod 2 ^ 32) perm s2)"
      "vm_ok s2 pd ys" "held s2 pd ys = held s pd xs" "same_off (held s pd xs) s s2" "kend s2 = kend s"
      "\<And>m. m < 2 ^ 20 \<Longrightarrow> m \<noteq> n \<Longrightarrow> entry s2 pd m = entry s pd m"
proof (cases rule: walk_alloc_cases [OF ok n(2)])
  case 1
  then have "mappages_loop k pd (PGSIZE * n) pa perm s = Inr (False, s)" by (subst mappages_loop.simps) simp
  then show thesis by (rule out)
next
  case (2 s1 ys)
  let ?x = "pa OR perm OR PTE_P"
  let ?a = "tab s1 pd (n div 1024) + 4 * (n mod 1024)"
  have x: "?x < 2 ^ 32" using pa by (intro or_less32) (simp_all add: PTE_P_def)
  have "entry s1 pd n = None" using 2(4) [OF n(2)] n(3) by simp
  then have ev: "even (ldw ?a s1)" using 2(2) by (simp add: entry_def Let_def split: if_splits)
  note M = map_kernel_entry [OF 2(3) n(1,2) 2(2) x]
  note S = set_entry [OF vm_ok_tables [OF 2(3)] n(2) 2(2) x]
  show thesis
  proof (rule more [OF _ M(1)])
    show "mappages_loop k pd (PGSIZE * n) pa perm s =
        (case k of 0 \<Rightarrow> Inr (True, stw ?a ?x s1)
         | Suc k' \<Rightarrow> mappages_loop k' pd ((PGSIZE * n + PGSIZE) mod 2 ^ 32) ((pa + PGSIZE) mod 2 ^ 32) perm (stw ?a ?x s1))"
      by (subst mappages_loop.simps) (use 2(1) ev tab_pos [OF 2(3) vpn_index(1) [OF n(2)] 2(2)] in \<open>simp add: Let_def\<close>)
    show h: "held (stw ?a ?x s1) pd ys = held s pd xs" using M(2) 2(5,7) by (auto simp: held_def)
    have "same_off (tables s1 pd) s1 (stw ?a ?x s1)" using S(7) by (auto simp: same_off_def)
    then show "same_off (held s pd xs) s (stw ?a ?x s1)" by (rule same_off_trans [OF 2(9)]) (use 2(7) in \<open>auto simp: held_def\<close>)
    show "kend (stw ?a ?x s1) = kend s" using 2(6) by simp
    show "entry (stw ?a ?x s1) pd m = entry s pd m" if "m < 2 ^ 20" "m \<noteq> n" for m using S(4) [OF that(1)] 2(4) [OF that(1)] that(2) by simp
  qed
qed

lemma mappages_kernel:
  "vm_ok s pd xs \<Longrightarrow> user_pages \<le> n \<Longrightarrow> n + k < 2 ^ 20 \<Longrightarrow> \<forall>m. n \<le> m \<and> m \<le> n + k \<longrightarrow> entry s pd m = None \<Longrightarrow>
    pa < 2 ^ 32 \<Longrightarrow> perm < 2 ^ 32 \<Longrightarrow>
    \<exists>b s' ys. mappages_loop k pd (PGSIZE * n) pa perm s = Inr (b, s') \<and> vm_ok s' pd ys \<and> held s' pd ys = held s pd xs \<and>
      same_off (held s pd xs) s s' \<and> kend s' = kend s \<and> (\<forall>m < 2 ^ 20. m < n \<or> n + k < m \<longrightarrow> entry s' pd m = entry s pd m)"
proof (induction k arbitrary: n s xs pa)
  case (0 n s xs pa)
  have n: "n < 2 ^ 20" "entry s pd n = None" using "0.prems" by simp_all
  show ?case
  proof (cases rule: kernel_round_cases [OF "0.prems"(1,2) n "0.prems"(5,6), where k = 0])
    case 1
    then show ?thesis using "0.prems"(1) same_off_refl by blast
  next
    case (2 s2 ys)
    then show ?thesis by (intro exI [of _ True] exI [of _ s2] exI [of _ ys]) simp
  qed
next
  case (Suc k)
  have n: "n < 2 ^ 20" "entry s pd n = None" using Suc.prems by simp_all
  show ?case
  proof (cases rule: kernel_round_cases [OF Suc.prems(1,2) n Suc.prems(5,6), where k = "Suc k"])
    case 1
    then show ?thesis using Suc.prems(1) same_off_refl by blast
  next
    case (2 s2 ys)
    have nx: "(PGSIZE * n + PGSIZE) mod 2 ^ 32 = PGSIZE * (n + 1)" using Suc.prems(3) by (simp add: PGSIZE_def)
    have n1: "user_pages \<le> n + 1" "n + 1 + k < 2 ^ 20" "(pa + PGSIZE) mod 2 ^ 32 < 2 ^ 32" using Suc.prems(2,3) by simp_all
    have none: "\<forall>m. n + 1 \<le> m \<and> m \<le> n + 1 + k \<longrightarrow> entry s2 pd m = None" using 2(6) Suc.prems(3,4) by simp
    obtain b s' zs where r: "mappages_loop k pd (PGSIZE * (n + 1)) ((pa + PGSIZE) mod 2 ^ 32) perm s2 = Inr (b, s')" "vm_ok s' pd zs"
      "held s' pd zs = held s2 pd ys" "same_off (held s2 pd ys) s2 s'" "kend s' = kend s2"
      "\<forall>m < 2 ^ 20. m < n + 1 \<or> n + 1 + k < m \<longrightarrow> entry s' pd m = entry s2 pd m"
      using Suc.IH [OF 2(2) n1(1,2) none n1(3) Suc.prems(6)] by blast
    have "same_off (held s pd xs) s s'" by (rule same_off_trans [OF 2(4) r(4)]) (simp_all add: 2(3))
    moreover have "mappages_loop (Suc k) pd (PGSIZE * n) pa perm s = Inr (b, s')" using 2(1) r(1) by (simp only: nx nat.case)
    moreover have "\<forall>m < 2 ^ 20. m < n \<or> n + Suc k < m \<longrightarrow> entry s' pd m = entry s pd m" using r(6) 2(6) by simp
    ultimately show ?thesis using r(2,3,5) 2(3,5) by (intro exI [of _ b] exI [of _ s'] exI [of _ zs]) simp
  qed
qed

text \<open>The ranges of \<open>kmap\<close> lie above the user's pages, in ascending order.\<close>

fun ranges_ok :: "nat \<Rightarrow> (nat \<times> nat \<times> nat \<times> nat) list \<Rightarrow> bool" where
  "ranges_ok lo [] = True"
| "ranges_ok lo ((virt, start, stop, perm) # ks) =
     (\<exists>n k. virt = PGSIZE * n \<and> (stop + 2 ^ 32 - start) mod 2 ^ 32 = PGSIZE * (k + 1) \<and> lo \<le> n \<and> n + k < 2 ^ 20 \<and>
        start < 2 ^ 32 \<and> perm < 2 ^ 32 \<and> ranges_ok (n + k + 1) ks)"

lemma ranges_okI:
  "virt = PGSIZE * n \<Longrightarrow> (stop + 2 ^ 32 - start) mod 2 ^ 32 = PGSIZE * (k + 1) \<Longrightarrow> lo \<le> n \<Longrightarrow> n + k < 2 ^ 20 \<Longrightarrow>
    start < 2 ^ 32 \<Longrightarrow> perm < 2 ^ 32 \<Longrightarrow> ranges_ok (n + k + 1) ks \<Longrightarrow> ranges_ok lo ((virt, start, stop, perm) # ks)"
  by auto

declare ranges_ok.simps(2) [simp del]

lemma mappages_range:
  assumes "n + k < 2 ^ 20"
  shows "mappages pd (PGSIZE * n) (PGSIZE * (k + 1)) pa perm s = mappages_loop k pd (PGSIZE * n) pa perm s"
proof -
  have "(PGSIZE * n + PGSIZE * (k + 1) + 2 ^ 32 - 1) mod 2 ^ 32 = 4096 * (n + k) + 4095"
    using assms by (simp add: PGSIZE_def mod_if)
  moreover have "PGROUNDDOWN (4096 * q + 4095) = PGSIZE * q" for q by (simp add: PGROUNDDOWN_def PGSIZE_def)
  moreover have "PGROUNDDOWN (PGSIZE * n) = PGSIZE * n" by (simp add: PGROUNDDOWN_def)
  moreover have "(PGSIZE * (n + k) + 2 ^ 32 - PGSIZE * n) mod 2 ^ 32 div PGSIZE = k" using assms by (simp add: PGSIZE_def)
  ultimately show ?thesis by (simp only: mappages_def Let_def)
qed

lemma setup_maps_built:
  "built s0 U pd s \<Longrightarrow> ranges_ok lo ks \<Longrightarrow> user_pages \<le> lo \<Longrightarrow> \<forall>m < 2 ^ 20. lo \<le> m \<or> m < user_pages \<longrightarrow> entry s pd m = None \<Longrightarrow> 0 < pd \<Longrightarrow>
    (\<exists>s'. setup_maps pd ks s = Inr (0, s') \<and> given_back s0 U s') \<or>
    (\<exists>s'. setup_maps pd ks s = Inr (pd, s') \<and> built s0 U pd s' \<and> (\<forall>m < user_pages. entry s' pd m = None))"
proof (induction ks arbitrary: lo s)
  case Nil
  then show ?case using vpn_index(2) by auto
next
  case (Cons r ks)
  obtain virt start stop perm where [simp]: "r = (virt, start, stop, perm)" by (cases r)
  obtain n k where r: "virt = PGSIZE * n" "(stop + 2 ^ 32 - start) mod 2 ^ 32 = PGSIZE * (k + 1)" "lo \<le> n" "n + k < 2 ^ 20"
    "start < 2 ^ 32" "perm < 2 ^ 32" "ranges_ok (n + k + 1) ks" using Cons.prems(2) by (auto simp: ranges_ok.simps(2))
  obtain ys where b: "vm_ok s pd ys" "held s pd ys = U" "same_off U s0 s" "kend s = kend s0" using Cons.prems(1) by (rule builtE)
  have up: "user_pages \<le> n" "\<forall>m. n \<le> m \<and> m \<le> n + k \<longrightarrow> entry s pd m = None" using Cons.prems(3,4) r(3,4) by auto
  obtain ok s' zs where m: "mappages_loop k pd (PGSIZE * n) start perm s = Inr (ok, s')" "vm_ok s' pd zs" "held s' pd zs = held s pd ys"
    "same_off (held s pd ys) s s'" "kend s' = kend s" "\<forall>m < 2 ^ 20. m < n \<or> n + k < m \<longrightarrow> entry s' pd m = entry s pd m"
    using mappages_kernel [OF b(1) up(1) r(4) up(2) r(5,6)] by blast
  have b': "built s0 U pd s'" by (rule builtI [OF m(2) _ b(3) m(4)]) (use m(3,5) b(2,4) in auto)
  have eq: "setup_maps pd (r # ks) s = (if ok then setup_maps pd ks s' else ebind (freevm pd s') (\<lambda>s2. Inr (0, s2)))"
  proof -
    have "mappages pd virt ((stop + 2 ^ 32 - start) mod 2 ^ 32) start perm s = Inr (ok, s')"
      using m(1) mappages_range [OF r(4), of pd start perm s] by (simp only: r(1,2))
    then show ?thesis by simp
  qed
  show ?case
  proof (cases ok)
    case True
    have "\<forall>m < 2 ^ 20. n + k + 1 \<le> m \<or> m < user_pages \<longrightarrow> entry s' pd m = None"
      using m(6) Cons.prems(3,4) up(1) r(3) by auto
    then show ?thesis using Cons.IH [OF b' r(7) _ _ Cons.prems(5)] eq True up(1) by simp
  next
    case False
    then show ?thesis using freevm_built [OF b'] eq by auto
  qed
qed

text \<open>The linker script puts \<open>data\<close> on a page boundary after the code of the kernel.\<close>

definition data_ok :: "nat \<Rightarrow> bool" where
  "data_ok data \<longleftrightarrow> data mod PGSIZE = 0 \<and> KERNLINK < data \<and> data < KERNBASE + PHYSTOP"

lemma kmap_ranges:
  assumes "data_ok data"
  shows "ranges_ok user_pages (kmap data)"
proof -
  obtain d where d: "data = PGSIZE * d" "0x80100 < d" "d < 0x8E000"
    using assms by (auto simp: data_ok_def mod_eq_0_iff_dvd PGSIZE_def KERNLINK_def KERNBASE_def EXTMEM_def PHYSTOP_def elim!: dvdE)
  have vd: "V2P (4096 * d) = 4096 * d - 0x80000000" using d by (simp add: V2P_def KERNBASE_def PGSIZE_def mod_if)
  have 4: "ranges_ok (d + (0x8E000 - d - 1) + 1) [(DEVSPACE, DEVSPACE, 0, PTE_W)]"
    by (rule ranges_okI [where n = "0xFE000" and k = "0x1FFF"]) (use d in \<open>simp_all add: DEVSPACE_def PGSIZE_def PTE_W_def\<close>)
  have 3: "ranges_ok (0x80100 + (d - 0x80100 - 1) + 1) [(data, V2P data, PHYSTOP, PTE_W), (DEVSPACE, DEVSPACE, 0, PTE_W)]"
  proof (rule ranges_okI [OF _ _ _ _ _ _ 4])
    have "PHYSTOP + 2 ^ 32 - V2P data = PGSIZE * (0x8E000 - d) + 2 ^ 32"
      using d by (simp add: vd PHYSTOP_def PGSIZE_def diff_mult_distrib2)
    then have "(PHYSTOP + 2 ^ 32 - V2P data) mod 2 ^ 32 = PGSIZE * (0x8E000 - d)" using d by (simp add: PGSIZE_def)
    moreover have "0x8E000 - d - 1 + 1 = 0x8E000 - d" using d by simp
    ultimately show "(PHYSTOP + 2 ^ 32 - V2P data) mod 2 ^ 32 = PGSIZE * (0x8E000 - d - 1 + 1)" by (simp only:)
  qed (use d in \<open>simp_all add: vd PGSIZE_def PTE_W_def\<close>)
  have 2: "ranges_ok (0x80000 + 0xFF + 1) [(KERNLINK, V2P KERNLINK, V2P data, 0), (data, V2P data, PHYSTOP, PTE_W), (DEVSPACE, DEVSPACE, 0, PTE_W)]"
  proof (rule ranges_okI [OF _ _ _ _ _ _ 3])
    have vk: "V2P KERNLINK = 0x100000" by (simp add: V2P_def KERNLINK_def EXTMEM_def KERNBASE_def)
    have "V2P data + 2 ^ 32 - V2P KERNLINK = PGSIZE * (d - 0x80100) + 2 ^ 32"
      unfolding vk using d by (simp add: vd PGSIZE_def diff_mult_distrib2)
    then have "(V2P data + 2 ^ 32 - V2P KERNLINK) mod 2 ^ 32 = PGSIZE * (d - 0x80100)" using d by (simp add: PGSIZE_def)
    moreover have "d - 0x80100 - 1 + 1 = d - 0x80100" using d by simp
    ultimately show "(V2P data + 2 ^ 32 - V2P KERNLINK) mod 2 ^ 32 = PGSIZE * (d - 0x80100 - 1 + 1)" by (simp only:)
  qed (use d in \<open>simp_all add: KERNLINK_def EXTMEM_def PGSIZE_def V2P_def KERNBASE_def\<close>)
  show ?thesis unfolding kmap_def
    by (rule ranges_okI [OF _ _ _ _ _ _ 2]) (simp_all add: EXTMEM_def PGSIZE_def KERNBASE_def PTE_W_def user_pages_def)
qed

lemma setupkvm_built:
  assumes k: "kmem_ok s xs" "KERNBASE < kend s" and d: "data_ok data"
  shows "(\<exists>s'. setupkvm data s = Inr (0, s') \<and> given_back s (set xs) s') \<or>
    (\<exists>pd s'. setupkvm data s = Inr (pd, s') \<and> pd \<noteq> 0 \<and> built s (set xs) pd s' \<and> (\<forall>m < user_pages. entry s' pd m = None))"
proof (cases xs)
  case Nil
  then have "setupkvm data s = Inr (0, s)" using kalloc_Nil k(1) by (simp add: setupkvm_def)
  then show ?thesis using k(1) by (auto simp: given_back_def same_off_refl)
next
  case (Cons v ys)
  let ?s = "fill v 0 (s\<lparr>freelist := load32 v (kmemory s)\<rparr>)"
  note N = new_space [OF k(1) [unfolded Cons] k(2)]
  have v: "0 < v" using k(1) Cons valid_page_range(6) by (auto simp: kmem_ok_def)
  have "same_off {v} s ?s" using fill_outside [of v "s\<lparr>freelist := load32 v (kmemory s)\<rparr>" 0] by (simp add: same_off_def same_outside_def)
  then have b: "built s (set xs) v ?s" using builtI [OF N(1) N(4) same_off_refl [of s s]] N(3) Cons by simp
  have eq: "setupkvm data s = setup_maps v (kmap data) ?s"
    using kalloc_Cons(1) [OF k(1) [unfolded Cons]] v by (simp add: setupkvm_def P2V_def PHYSTOP_def KERNBASE_def DEVSPACE_def)
  have "(\<exists>s'. setup_maps v (kmap data) ?s = Inr (0, s') \<and> given_back s (set xs) s') \<or>
    (\<exists>s'. setup_maps v (kmap data) ?s = Inr (v, s') \<and> built s (set xs) v s' \<and> (\<forall>m < user_pages. entry s' v m = None))"
    by (rule setup_maps_built [OF b kmap_ranges [OF d] le_refl _ v]) (use N(2) in simp)
  then show ?thesis using v by (auto simp: eq)
qed

subsection \<open>Reading the file\<close>

definition plain_file :: "fsys \<Rightarrow> nat \<Rightarrow> bool" where
  "plain_file f ip \<longleftrightarrow> file_ok f ip \<and> i_type (fs_inode f ! ip) \<noteq> T_DEV \<and> i_size (fs_inode f ! ip) \<le> 140 * 512 \<and>
     (\<forall>o' < i_size (fs_inode f ! ip). blockof f ip (o' div 512) \<noteq> 0)"

lemma readi_plain:
  assumes p: "plain_file f ip" and n: "off < 2 ^ 32" "n < 2 ^ 32"
  shows "readi dv ip off n f =
    Inr (if off > i_size (fs_inode f ! ip) \<or> off + n \<ge> 2 ^ 32 then None
         else Some (map (fbyte f ip) [off..<min (off + n) (i_size (fs_inode f ! ip))]), f)"
proof -
  let ?sz = "i_size (fs_inode f ! ip)"
  have wrap: "(off + n) mod 2 ^ 32 < off \<longleftrightarrow> off + n \<ge> 2 ^ 32" using n by (auto simp: mod_if)
  show ?thesis
  proof (cases "off > ?sz \<or> off + n \<ge> 2 ^ 32")
    case True
    then show ?thesis using p wrap by (auto simp: readi_def plain_file_def)
  next
    case False
    let ?n = "if (off + n) mod 2 ^ 32 > ?sz then ?sz - off else n"
    have m: "off + ?n = min (off + n) ?sz" using False by auto
    have "readi_loop ip off ?n f = Inr (map (fbyte f ip) [off..<off + ?n], f)"
      by (rule readi_loop_present) (use p m False in \<open>auto simp: plain_file_def\<close>)
    then show ?thesis using p False wrap m by (simp add: readi_def plain_file_def Let_def)
  qed
qed

text \<open>A read that returns as many bytes as it should.\<close>

lemma readi_full:
  assumes p: "plain_file f ip" and n: "off < 2 ^ 32" "n < 2 ^ 32" and r: "readi dv ip off n f = Inr (r, f')"
  shows "f' = f" "r = Some bs \<Longrightarrow> length bs \<le> n" "r = Some bs \<Longrightarrow> length bs = n \<Longrightarrow> bs = map (fbyte f ip) [off..<off + n] \<and> off + n < 2 ^ 32"
proof -
  note R = r [unfolded readi_plain [OF p n]]
  show "f' = f" using R by simp
  show "length bs \<le> n" if "r = Some bs" using R that by (auto split: if_splits)
  assume b: "r = Some bs" "length bs = n"
  then have bs: "bs = map (fbyte f ip) [off..<min (off + n) (i_size (fs_inode f ! ip))]" "off + n < 2 ^ 32" using R by (auto split: if_splits)
  then have "min (off + n) (i_size (fs_inode f ! ip)) = off + n \<or> n = 0" using b(2) by auto
  then show "bs = map (fbyte f ip) [off..<off + n] \<and> off + n < 2 ^ 32" using bs by auto
qed

lemma readi_returns:
  assumes p: "plain_file f ip" and n: "off < 2 ^ 32" "n < 2 ^ 32"
  obtains r where "readi dv ip off n f = Inr (r, f)" "\<And>bs. r = Some bs \<Longrightarrow> length bs \<le> n"
    "\<And>bs. r = Some bs \<Longrightarrow> length bs = n \<Longrightarrow> bs = map (fbyte f ip) [off..<off + n] \<and> off + n < 2 ^ 32"
proof -
  obtain r where r: "readi dv ip off n f = Inr (r, f)" using readi_plain [OF p n, of dv] by blast
  show thesis by (rule that [OF r readi_full(2) [OF p n r] readi_full(3) [OF p n r]])
qed

subsection \<open>Writing the pages of the new address space\<close>

definition present :: "kmem \<Rightarrow> nat \<Rightarrow> nat \<Rightarrow> bool" where
  "present s pd N \<longleftrightarrow> N \<le> user_pages \<and> (\<forall>m < user_pages. entry s pd m \<noteq> None \<longleftrightarrow> m < N)"

lemma presentD: "present s pd N \<Longrightarrow> m < N \<Longrightarrow> \<exists>x. entry s pd m = Some x"
  by (fastforce simp: present_def)

lemma present_cong: "\<forall>m < 2 ^ 20. entry s' pd m = entry s pd m \<Longrightarrow> present s' pd N = present s pd N"
  using vpn_index(2) by (simp add: present_def)

definition frame_mem :: "(nat \<Rightarrow> byte) \<Rightarrow> nat \<Rightarrow> nat \<Rightarrow> (nat \<Rightarrow> byte option) \<Rightarrow> nat \<Rightarrow> byte option" where
  "frame_mem c a n g x = (if a \<le> x \<and> x < a + n then Some (c (x - a)) else g x)"

lemma put_mem_built:
  assumes b: "built s0 U pd s" and n: "n < user_pages" "entry s pd n = Some x" and l: "d + length bs \<le> PGSIZE"
  defines "s1 \<equiv> put_mem (frame_of x + d) bs s"
  shows "built s0 U pd s1" "\<forall>m < 2 ^ 20. entry s1 pd m = entry s pd m"
    "\<And>a. a < KERNBASE \<Longrightarrow> ubyte s1 pd a = frame_mem (\<lambda>i. bs ! i) (PGSIZE * n + d) (length bs) (ubyte s pd) a"
proof -
  obtain ys where y: "vm_ok s pd ys" "held s pd ys = U" "same_off U s0 s" "kend s = kend s0" using b by (rule builtE)
  note P = put_mem_page [OF y(1) n l, folded s1_def]
  have f: "frame_of x \<in> frames s pd" using frame_in [OF n] .
  have off: "same_off {frame_of x} s s1" using l by (auto simp: s1_def put_mem_def same_off_def in_page_def)
  have al: "p mod PGSIZE = 0" if "p \<in> tables s pd \<union> frames s pd" for p using vm_ok_aligned [OF y(1)] that by auto
  have "frame_of x \<notin> tables s pd" using f y(1) by (auto simp: vm_ok_def)
  then have "agree (tables s pd) s s1"
    using agree_outside [of "frame_of x" s s1 "tables s pd"] off al f by (auto simp: same_off_def same_outside_def)
  then have "held s1 pd ys = U" using space_agree(4,6) y(2) by (simp add: held_def)
  then show "built s0 U pd s1" using f y(2,4) by (intro builtI [OF P(1) _ y(3) off]) (auto simp: held_def s1_def put_mem_def)
  show "\<forall>m < 2 ^ 20. entry s1 pd m = entry s pd m" using P(2) by simp
  show "ubyte s1 pd a = frame_mem (\<lambda>i. bs ! i) (PGSIZE * n + d) (length bs) (ubyte s pd) a" if "a < KERNBASE" for a
    using P(3) [OF that] by (simp add: frame_mem_def)
qed

lemma allocuvm_built:
  assumes b: "built s0 U pd s" and pr: "present s pd (pages_of old)" and sz: "old < KERNBASE"
  shows "\<exists>r s'. allocuvm pd old new s = Inr (r, s') \<and> built s0 U pd s' \<and>
    (r \<noteq> 0 \<longrightarrow> r = max old new \<and> r < KERNBASE \<and> present s' pd (pages_of r) \<and>
       (\<forall>m. pages_of old \<le> m \<and> m < pages_of r \<longrightarrow> user_ok s' pd m) \<and>
       (\<forall>a < PGSIZE * pages_of r. ubyte s' pd a = (if a < PGSIZE * pages_of old then ubyte s pd a else Some 0)))"
proof (cases "new \<ge> KERNBASE \<or> new < old")
  case True
  show ?thesis
  proof (cases "new \<ge> KERNBASE")
    case True
    then have "allocuvm pd old new s = Inr (0, s)" by (simp add: allocuvm_def)
    then show ?thesis using b by auto
  next
    case False
    with True have "allocuvm pd old new s = Inr (old, s)" "new < old" by (simp_all add: allocuvm_def)
    then show ?thesis using b pr sz by (auto simp: max_def)
  qed
next
  case False
  obtain ys where y: "vm_ok s pd ys" "held s pd ys = U" "same_off U s0 s" "kend s = kend s0" using b by (rule builtE)
  have none: "entry s pd m = None" if "pages_of old \<le> m" "m < user_pages" for m using pr that by (auto simp: present_def)
  obtain r s' zs where R: "allocuvm pd old new s = Inr (r, s')" "vm_ok s' pd zs" "kend s' = kend s" "held s' pd zs = held s pd ys"
    "contents_kept pd s s'" "same_off (held s pd ys) s s'"
    "r = new \<and> grown pd (pages_of old) (pages_of new) ys s s' \<or> r = 0 \<and> (\<forall>m < 2 ^ 20. entry s' pd m = entry s pd m)"
    using allocuvm_result [where oldsz = old and newsz = new, OF y(1) _ _ none] False unfolding not_le not_less de_Morgan_disj by blast
  have b': "built s0 U pd s'" by (rule builtI [OF R(2) _ y(3) R(6)]) (use y(2,4) R(3,4) in auto)
  show ?thesis
  proof (cases "r = 0")
    case True
    then show ?thesis using R(1) b' by auto
  next
    case False
    then have g: "r = new" "grown pd (pages_of old) (pages_of new) ys s s'" using R(7) by auto
    have nu: "pages_of new \<le> user_pages" using pages_of_user [of new] \<open>\<not> (new \<ge> KERNBASE \<or> new < old)\<close> by simp
    have pr': "present s' pd (pages_of new)" unfolding present_def
    proof (intro conjI allI impI nu)
      fix m assume m: "m < user_pages"
      show "entry s' pd m \<noteq> None \<longleftrightarrow> m < pages_of new"
        using grownD [OF g(2) vpn_index(2) [OF m]] pr m pages_of_mono [of old new] \<open>\<not> (new \<ge> KERNBASE \<or> new < old)\<close>
        by (cases "pages_of old \<le> m \<and> m < pages_of new") (auto simp: present_def)
    qed
    have us: "user_ok s' pd m" if "pages_of old \<le> m" "m < pages_of new" for m
      using grown_user [OF g(2) that] vpn_index(2) [of m] that nu by simp
    have ub: "ubyte s' pd a = (if a < PGSIZE * pages_of old then ubyte s pd a else Some 0)" if a: "a < PGSIZE * pages_of new" for a
    proof -
      have n: "a div PGSIZE < pages_of new" "(a div PGSIZE < pages_of old) = (a < PGSIZE * pages_of old)"
        using a by (simp_all add: div_less_iff_less_mult PGSIZE_def mult.commute)
      have m: "a div PGSIZE < user_pages" using n(1) nu by simp
      have ip: "in_page p (p + a mod PGSIZE)" for p by (simp add: in_page_def PGSIZE_def)
      show ?thesis
      proof (cases "a div PGSIZE < pages_of old")
        case True
        obtain x where x: "entry s pd (a div PGSIZE) = Some x" using presentD [OF pr True] by blast
        then have x': "entry s' pd (a div PGSIZE) = Some x" using grownD(2) [OF g(2) vpn_index(2) [OF m]] True by simp
        then have "agree {frame_of x} s s'" using R(5) m x by (simp add: contents_kept_def)
        then show ?thesis using x x' True n(2) ip by (simp add: ubyte_def agree_def)
      next
        case False
        then obtain v where v: "entry s' pd (a div PGSIZE) = Some (V2P v OR (PTE_W OR PTE_U OR PTE_P))"
          "frame_of (V2P v OR (PTE_W OR PTE_U OR PTE_P)) = v" "zeroed s' v" using grownD(1) [OF g(2) vpn_index(2) [OF m]] n(1) by auto
        then show ?thesis using False n(2) ip by (simp add: ubyte_def zeroed_def)
      qed
    qed
    show ?thesis using R(1) b' g(1) pr' us ub False \<open>\<not> (new \<ge> KERNBASE \<or> new < old)\<close> by auto
  qed
qed

subsection \<open>Loading a segment\<close>

lemma offset_mod:
  fixes off :: nat
  assumes "(off + i) mod 2 ^ 32 + k < 2 ^ 32"
  shows "(off + (i + k)) mod 2 ^ 32 = (off + i) mod 2 ^ 32 + k"
  using assms by (metis add.assoc mod_add_left_eq mod_less)

lemma load_page:
  assumes b: "built s0 U pd s" and pr: "present s pd N" and f: "plain_file f ip"
    and n: "n < N" "addr + i = PGSIZE * n" "i < sz" and k: "k = min PGSIZE (sz - i)"
  obtains (bad) s' where "loaduvm_loop dv pd addr ip offset sz i f s = Inr (False, f, s')" "built s0 U pd s'"
  | (good) s' where "loaduvm_loop dv pd addr ip offset sz i f s = loaduvm_loop dv pd addr ip offset sz (i + PGSIZE) f s'" "built s0 U pd s'"
      "\<forall>m < 2 ^ 20. entry s' pd m = entry s pd m"
      "\<And>a. a < KERNBASE \<Longrightarrow> ubyte s' pd a = (if addr + i \<le> a \<and> a < addr + i + k then Some (fbyte f ip ((offset + (a - addr)) mod 2 ^ 32)) else ubyte s pd a)"
proof -
  obtain ys where y: "vm_ok s pd ys" using b by (rule builtE)
  have nu: "n < user_pages" using pr n(1) by (simp add: present_def)
  note l = vpn_index(2) [OF nu]
  obtain x where x: "entry s pd n = Some x" using presentD [OF pr n(1)] by blast
  have xx: "odd (pde s pd (n div 1024))" "ldw (tab s pd (n div 1024) + 4 * (n mod 1024)) s = x"
    using x by (auto simp: entry_def Let_def split: if_splits)
  note t = tab_pos [OF y vpn_index(1) [OF l] xx(1)]
  have am: "(addr + i) mod 2 ^ 32 = PGSIZE * n" using nu n(2) by (simp add: user_pages_def PGSIZE_def)
  have kk: "(if sz - i < PGSIZE then sz - i else PGSIZE) = k" "k \<le> PGSIZE" "k < 2 ^ 32" "(offset + i) mod 2 ^ 32 < 2 ^ 32"
    using k by (auto simp: PGSIZE_def)
  obtain r where r: "readi dv ip ((offset + i) mod 2 ^ 32) k f = Inr (r, f)" "\<And>bs. r = Some bs \<Longrightarrow> length bs \<le> k"
    "\<And>bs. r = Some bs \<Longrightarrow> length bs = k \<Longrightarrow> bs = map (fbyte f ip) [(offset + i) mod 2 ^ 32..<(offset + i) mod 2 ^ 32 + k] \<and> (offset + i) mod 2 ^ 32 + k < 2 ^ 32"
    by (rule readi_returns [OF f kk(4,3), where dv = dv]) blast
  have step: "loaduvm_loop dv pd addr ip offset sz i f s =
    (case r of None \<Rightarrow> Inr (False, f, s)
     | Some bs \<Rightarrow> if length bs \<noteq> k then Inr (False, f, put_mem (frame_of x + 0) bs s)
         else loaduvm_loop dv pd addr ip offset sz (i + PGSIZE) f (put_mem (frame_of x + 0) bs s))"
    using n(3) t xx r(1)
    by (subst loaduvm_loop.simps) (simp only: am walk_look [OF l] kk(1) Let_def if_True prod.case ebind_simps frame_of_def add_0_right split: if_split, simp)
  show thesis
  proof (cases r)
    case None
    then show thesis using bad [of s] step b by simp
  next
    case (Some bs)
    have "0 + length bs \<le> PGSIZE" using r(2) [OF Some] kk(2) by simp
    note P = put_mem_built [OF b nu x this]
    show thesis
    proof (cases "length bs = k")
      case False
      then show thesis using bad [OF _ P(1)] step Some by simp
    next
      case True
      note B = r(3) [OF Some True]
      show thesis
      proof (rule good [OF _ P(1,2)])
        show "loaduvm_loop dv pd addr ip offset sz i f s = loaduvm_loop dv pd addr ip offset sz (i + PGSIZE) f (put_mem (frame_of x + 0) bs s)"
          using step Some True by simp
        fix a assume a: "a < KERNBASE"
        have "bs ! (a - (addr + i)) = fbyte f ip ((offset + (a - addr)) mod 2 ^ 32)" if w: "addr + i \<le> a" "a < addr + i + k"
        proof -
          have "(offset + (i + (a - (addr + i)))) mod 2 ^ 32 = (offset + i) mod 2 ^ 32 + (a - (addr + i))"
            using B w by (intro offset_mod) linarith
          moreover have "i + (a - (addr + i)) = a - addr" using w by simp
          ultimately show ?thesis using B w by simp
        qed
        then show "ubyte (put_mem (frame_of x + 0) bs s) pd a =
            (if addr + i \<le> a \<and> a < addr + i + k then Some (fbyte f ip ((offset + (a - addr)) mod 2 ^ 32)) else ubyte s pd a)"
          using P(3) [OF a] True by (simp add: frame_mem_def n(2) [symmetric])
      qed
    qed
  qed
qed

lemma loaduvm_loop_built:
  assumes "built s0 U pd s" "present s pd N" "plain_file f ip" "addr = PGSIZE * n0" "addr + sz \<le> PGSIZE * N"
  shows "\<exists>ok s'. loaduvm_loop dv pd addr ip offset sz (PGSIZE * j) f s = Inr (ok, f, s') \<and> built s0 U pd s' \<and>
    (ok \<longrightarrow> (\<forall>m < 2 ^ 20. entry s' pd m = entry s pd m) \<and>
      (\<forall>a < KERNBASE. ubyte s' pd a = (if addr + PGSIZE * j \<le> a \<and> a < addr + sz then Some (fbyte f ip ((offset + (a - addr)) mod 2 ^ 32)) else ubyte s pd a)))"
  using assms
proof (induction "sz - PGSIZE * j" arbitrary: j s rule: less_induct)
  case less
  show ?case
  proof (cases "PGSIZE * j < sz")
    case False
    then have "loaduvm_loop dv pd addr ip offset sz (PGSIZE * j) f s = Inr (True, f, s)" by (subst loaduvm_loop.simps) simp
    moreover have "(addr + PGSIZE * j \<le> a \<and> a < addr + sz) = False" for a using False by (simp only: eq_False) linarith
    ultimately show ?thesis using less.prems(1) by (intro exI [of _ True] exI [of _ s]) (simp only: if_False, simp)
  next
    case True
    have e: "addr + PGSIZE * j = PGSIZE * (n0 + j)" using less.prems(4) by (simp add: distrib_left)
    then have "PGSIZE * (n0 + j) < PGSIZE * N" using True less.prems(5) by linarith
    then have nN: "n0 + j < N" by simp
    show ?thesis
    proof (cases rule: load_page [OF less.prems(1,2,3) nN e True refl, where dv = dv and offset = offset])
      case (1 s')
      then show ?thesis by auto
    next
      case (2 s1)
      have dec: "sz - PGSIZE * (j + 1) < sz - PGSIZE * j" using True by (simp add: PGSIZE_def)
      have pr: "present s1 pd N" using present_cong [OF 2(3)] less.prems(2) by simp
      obtain ok s' where r: "loaduvm_loop dv pd addr ip offset sz (PGSIZE * (j + 1)) f s1 = Inr (ok, f, s')" "built s0 U pd s'"
        "ok \<longrightarrow> (\<forall>m < 2 ^ 20. entry s' pd m = entry s1 pd m) \<and>
          (\<forall>a < KERNBASE. ubyte s' pd a = (if addr + PGSIZE * (j + 1) \<le> a \<and> a < addr + sz then Some (fbyte f ip ((offset + (a - addr)) mod 2 ^ 32)) else ubyte s1 pd a))"
        using less.hyps [OF dec 2(2) pr less.prems(3,4,5)] by blast
      have "loaduvm_loop dv pd addr ip offset sz (PGSIZE * j) f s = Inr (ok, f, s')" using 2(1) r(1) by (simp add: add.commute)
      moreover have "ubyte s' pd a = (if addr + PGSIZE * j \<le> a \<and> a < addr + sz then Some (fbyte f ip ((offset + (a - addr)) mod 2 ^ 32)) else ubyte s pd a)"
        if ok "a < KERNBASE" for a
      proof -
        have "addr + PGSIZE * (j + 1) = addr + PGSIZE * j + PGSIZE" by simp
        then have "(addr + PGSIZE * j \<le> a \<and> a < addr + sz) \<longleftrightarrow>
           (addr + PGSIZE * (j + 1) \<le> a \<and> a < addr + sz) \<or> (addr + PGSIZE * j \<le> a \<and> a < addr + PGSIZE * j + min PGSIZE (sz - PGSIZE * j))"
          using True by linarith
        then show ?thesis using r(3) 2(4) that by auto
      qed
      ultimately show ?thesis using r(2,3) 2(3) by auto
    qed
  qed
qed

text \<open>The memory of a program: zeros, overwritten by the bytes of its segments in the order of the program headers.\<close>

fun image :: "(nat \<Rightarrow> byte) \<Rightarrow> proghdr list \<Rightarrow> (nat \<Rightarrow> byte) \<Rightarrow> nat \<Rightarrow> byte" where
  "image c [] g = g"
| "image c (ph # phs) g =
     image c phs (if ph_type ph = ELF_PROG_LOAD
       then (\<lambda>a. if ph_vaddr ph \<le> a \<and> a < ph_vaddr ph + ph_filesz ph then c ((ph_off ph + (a - ph_vaddr ph)) mod 2 ^ 32) else g a)
       else g)"

fun headers :: "(nat \<Rightarrow> byte) \<Rightarrow> nat \<Rightarrow> nat \<Rightarrow> proghdr list" where
  "headers c off 0 = []"
| "headers c off (Suc k) = get_ph (map c [off..<off + 32]) # headers c ((off + 32) mod 2 ^ 32) k"

text \<open>The pages of the user hold \<open>g\<close>, which is zero above them.\<close>

definition holds :: "kmem \<Rightarrow> nat \<Rightarrow> nat \<Rightarrow> (nat \<Rightarrow> byte) \<Rightarrow> bool" where
  "holds s pd N g \<longleftrightarrow> present s pd N \<and> (\<forall>a < PGSIZE * N. ubyte s pd a = Some (g a)) \<and> (\<forall>a \<ge> PGSIZE * N. g a = 0)"

lemma rd32_less: "rd32 bs off < 2 ^ 32"
  using unsigned_less [where 'a = nat, of "bs ! off"] unsigned_less [where 'a = nat, of "bs ! (off + 1)"]
    unsigned_less [where 'a = nat, of "bs ! (off + 2)"] unsigned_less [where 'a = nat, of "bs ! (off + 3)"]
  by (simp add: rd32_def)

lemma pages_of_above: "sz \<le> PGSIZE * pages_of sz"
  by (simp add: pages_of_def PGSIZE_def)

lemma present_KERNBASE: "present s pd N \<Longrightarrow> PGSIZE * N \<le> KERNBASE"
  by (simp add: present_def user_pages_def PGSIZE_def KERNBASE_def)

lemma add_no_wrap: "(a :: nat) < 2 ^ 32 \<Longrightarrow> b < 2 ^ 32 \<Longrightarrow> \<not> (a + b) mod 2 ^ 32 < a \<Longrightarrow> (a + b) mod 2 ^ 32 = a + b"
  by (cases "a + b < 2 ^ 32") (auto simp: mod_if split: if_splits)

lemma load_segment:
  assumes b: "built s0 U pd s" and h: "holds s pd (pages_of sz) g" and sz: "sz < KERNBASE" and f: "plain_file f ip"
    and v: "vaddr < 2 ^ 32" "memsz < 2 ^ 32" "\<not> memsz < filesz" "\<not> (vaddr + memsz) mod 2 ^ 32 < vaddr"
  obtains (bad) s1 where "allocuvm pd sz ((vaddr + memsz) mod 2 ^ 32) s = Inr (0, s1)" "built s0 U pd s1"
  | (good) sz1 s1 where "allocuvm pd sz ((vaddr + memsz) mod 2 ^ 32) s = Inr (sz1, s1)" "sz1 \<noteq> 0" "built s0 U pd s1" "sz1 < KERNBASE"
      "vaddr mod PGSIZE = 0 \<Longrightarrow> \<exists>ok s2. loaduvm dv pd vaddr ip offset filesz f s1 = Inr (ok, f, s2) \<and> built s0 U pd s2 \<and>
         (ok \<longrightarrow> holds s2 pd (pages_of sz1) (\<lambda>a. if vaddr \<le> a \<and> a < vaddr + filesz then fbyte f ip ((offset + (a - vaddr)) mod 2 ^ 32) else g a))"
proof -
  have top: "(vaddr + memsz) mod 2 ^ 32 = vaddr + memsz" using add_no_wrap v by blast
  have pr: "present s pd (pages_of sz)" using h by (simp add: holds_def)
  obtain sz1 s1 where A: "allocuvm pd sz (vaddr + memsz) s = Inr (sz1, s1)" "built s0 U pd s1"
    "sz1 \<noteq> 0 \<longrightarrow> sz1 = max sz (vaddr + memsz) \<and> sz1 < KERNBASE \<and> present s1 pd (pages_of sz1) \<and>
       (\<forall>m. pages_of sz \<le> m \<and> m < pages_of sz1 \<longrightarrow> user_ok s1 pd m) \<and>
       (\<forall>a < PGSIZE * pages_of sz1. ubyte s1 pd a = (if a < PGSIZE * pages_of sz then ubyte s pd a else Some 0))"
    using allocuvm_built [OF b pr sz] by blast
  show thesis
  proof (cases "sz1 = 0")
    case True
    then show thesis using bad A(1,2) top by simp
  next
    case False
    then have C: "sz1 = max sz (vaddr + memsz)" "sz1 < KERNBASE" "present s1 pd (pages_of sz1)"
      "\<forall>a < PGSIZE * pages_of sz1. ubyte s1 pd a = (if a < PGSIZE * pages_of sz then ubyte s pd a else Some 0)" using A(3) by auto
    have le: "vaddr + filesz \<le> PGSIZE * pages_of sz1" using C(1) v(3) pages_of_above [of sz1] by linarith
    show thesis
    proof (rule good [OF _ False A(2) C(2)])
      show "allocuvm pd sz ((vaddr + memsz) mod 2 ^ 32) s = Inr (sz1, s1)" using A(1) top by simp
      assume al: "vaddr mod PGSIZE = 0"
      then have "vaddr = PGSIZE * (vaddr div PGSIZE)" by (simp add: mod_eq_0_iff_dvd)
      from loaduvm_loop_built [OF A(2) C(3) f this le, of dv offset 0] obtain ok s2 where
        L: "loaduvm dv pd vaddr ip offset filesz f s1 = Inr (ok, f, s2)" "built s0 U pd s2"
        "ok \<longrightarrow> (\<forall>m < 2 ^ 20. entry s2 pd m = entry s1 pd m) \<and>
          (\<forall>a < KERNBASE. ubyte s2 pd a = (if vaddr \<le> a \<and> a < vaddr + filesz then Some (fbyte f ip ((offset + (a - vaddr)) mod 2 ^ 32)) else ubyte s1 pd a))"
        using al by (auto simp: loaduvm_def)
      have "holds s2 pd (pages_of sz1) (\<lambda>a. if vaddr \<le> a \<and> a < vaddr + filesz then fbyte f ip ((offset + (a - vaddr)) mod 2 ^ 32) else g a)" if ok
      proof -
        have "ubyte s1 pd a = Some (g a)" if "a < PGSIZE * pages_of sz1" for a using that C(4) h by (auto simp: holds_def)
        moreover have "g a = 0" if "PGSIZE * pages_of sz1 \<le> a" for a
        proof -
          have "PGSIZE * pages_of sz \<le> PGSIZE * pages_of sz1" using pages_of_mono [of sz sz1] C(1) by simp
          then show ?thesis using h that le_trans unfolding holds_def by blast
        qed
        ultimately show ?thesis
          using L(3) \<open>ok\<close> present_cong [of s2 pd s1 "pages_of sz1"] C(3) present_KERNBASE [OF C(3)] le unfolding holds_def by auto
      qed
      then show "\<exists>ok s2. loaduvm dv pd vaddr ip offset filesz f s1 = Inr (ok, f, s2) \<and> built s0 U pd s2 \<and>
         (ok \<longrightarrow> holds s2 pd (pages_of sz1) (\<lambda>a. if vaddr \<le> a \<and> a < vaddr + filesz then fbyte f ip ((offset + (a - vaddr)) mod 2 ^ 32) else g a))"
        using L(1,2) by blast
    qed
  qed
qed

lemma get_ph_less: "ph_vaddr (get_ph bs) < 2 ^ 32" "ph_memsz (get_ph bs) < 2 ^ 32"
  by (simp_all only: get_ph_def proghdr.simps rd32_less)

lemma load_segs_built:
  assumes "built s0 U pd s" "holds s pd (pages_of sz) g" "sz < KERNBASE" "plain_file f ip" "off < 2 ^ 32"
  shows "\<exists>r s'. load_segs dv ip pd k off sz f s = Inr (r, f, s') \<and> built s0 U pd s' \<and>
    (\<forall>sz'. r = Some sz' \<longrightarrow> sz' < KERNBASE \<and> holds s' pd (pages_of sz') (image (fbyte f ip) (headers (fbyte f ip) off k) g))"
  using assms
proof (induction k arbitrary: off sz s g)
  case 0
  then show ?case by simp
next
  case (Suc k)
  obtain r where r: "readi dv ip off 32 f = Inr (r, f)"
    "\<And>bs. r = Some bs \<Longrightarrow> length bs = 32 \<Longrightarrow> bs = map (fbyte f ip) [off..<off + 32] \<and> off + 32 < 2 ^ 32"
    by (rule readi_returns [OF Suc.prems(4,5), where dv = dv and n = 32]) auto
  have o': "(off + 32) mod 2 ^ 32 < 2 ^ 32" by simp
  show ?case
  proof (cases "\<exists>bs. r = Some bs \<and> length bs = 32")
    case False
    then have "load_segs dv ip pd (Suc k) off sz f s = Inr (None, f, s)" using r(1) by (auto split: option.splits)
    then show ?thesis using Suc.prems(1) by blast
  next
    case True
    then obtain bs where bs: "r = Some bs" "length bs = 32" "bs = map (fbyte f ip) [off..<off + 32]" using r(2) by blast
    let ?ph = "get_ph bs"
    let ?top = "(ph_vaddr ?ph + ph_memsz ?ph) mod 2 ^ 32"
    have hd: "headers (fbyte f ip) off (Suc k) = ?ph # headers (fbyte f ip) ((off + 32) mod 2 ^ 32) k" using bs(3) by simp
    have eq: "load_segs dv ip pd (Suc k) off sz f s =
      (if ph_type ?ph \<noteq> ELF_PROG_LOAD then load_segs dv ip pd k ((off + 32) mod 2 ^ 32) sz f s
       else if ph_memsz ?ph < ph_filesz ?ph then Inr (None, f, s)
       else if ?top < ph_vaddr ?ph then Inr (None, f, s)
       else ebind (allocuvm pd sz ?top s) (\<lambda>(sz1, m1).
         if sz1 = 0 then Inr (None, f, m1)
         else if ph_vaddr ?ph mod PGSIZE \<noteq> 0 then Inr (None, f, m1)
         else ebind (loaduvm dv pd (ph_vaddr ?ph) ip (ph_off ?ph) (ph_filesz ?ph) f m1) (\<lambda>(ok, f2, m2).
           if \<not> ok then Inr (None, f2, m2) else load_segs dv ip pd k ((off + 32) mod 2 ^ 32) sz1 f2 m2)))"
      using r(1) bs(1,2) by (simp only: load_segs.simps Let_def ebind_simps prod.case option.case) simp
    show ?thesis
    proof (cases "ph_type ?ph = ELF_PROG_LOAD")
      case False
      then show ?thesis using Suc.IH [OF Suc.prems(1,2,3,4) o'] eq hd by simp
    next
      case load: True
      show ?thesis
      proof (cases "ph_memsz ?ph < ph_filesz ?ph \<or> ?top < ph_vaddr ?ph")
        case True
        then have "load_segs dv ip pd (Suc k) off sz f s = Inr (None, f, s)" using eq load by (simp only: if_True if_False) auto
        then show ?thesis using Suc.prems(1) by blast
      next
        case False
        then have ns: "\<not> ph_memsz ?ph < ph_filesz ?ph" "\<not> ?top < ph_vaddr ?ph" by auto
        note eq' = eq [unfolded if_not_P [OF ns(1)] if_not_P [OF ns(2)], simplified load, simplified]
        show ?thesis
        proof (cases rule: load_segment [OF Suc.prems(1,2,3,4) get_ph_less ns, where dv = dv and offset = "ph_off ?ph"])
          case (1 s1)
          then show ?thesis using eq' by auto
        next
          case (2 sz1 s1)
          show ?thesis
          proof (cases "ph_vaddr ?ph mod PGSIZE = 0")
            case False
            then have "load_segs dv ip pd (Suc k) off sz f s = Inr (None, f, s1)" using eq' 2(1,2) by simp
            then show ?thesis using 2(3) by blast
          next
            case True
            obtain ok s2 where L: "loaduvm dv pd (ph_vaddr ?ph) ip (ph_off ?ph) (ph_filesz ?ph) f s1 = Inr (ok, f, s2)" "built s0 U pd s2"
              "ok \<longrightarrow> holds s2 pd (pages_of sz1) (\<lambda>a. if ph_vaddr ?ph \<le> a \<and> a < ph_vaddr ?ph + ph_filesz ?ph
                 then fbyte f ip ((ph_off ?ph + (a - ph_vaddr ?ph)) mod 2 ^ 32) else g a)"
              using 2(5) [OF True] by blast
            show ?thesis
            proof (cases ok)
              case False
              then have "load_segs dv ip pd (Suc k) off sz f s = Inr (None, f, s2)" using eq' 2(1,2) True L(1) by simp
              then show ?thesis using L(2) by blast
            next
              case okT: True
              have "load_segs dv ip pd (Suc k) off sz f s = load_segs dv ip pd k ((off + 32) mod 2 ^ 32) sz1 f s2"
                using eq' 2(1,2) True L(1) okT by simp
              then show ?thesis using Suc.IH [OF L(2) _ 2(4) Suc.prems(4) o'] L(3) okT hd load by simp
            qed
          qed
        qed
      qed
    qed
  qed
qed

subsection \<open>The stack\<close>

text \<open>An entry that loses the flag \<open>PTE_U\<close> keeps its frame.\<close>

lemma clear_user:
  assumes "x < 2 ^ 32"
  defines "y \<equiv> unat (word_of_nat x AND NOT (word_of_nat PTE_U) :: uint32)"
  shows "y < 2 ^ 32" "odd y = odd x" "frame_of y = frame_of x"
proof -
  show "y < 2 ^ 32" unfolding y_def by (rule order_less_le_trans [OF unsigned_less]) simp
  have b: "bit y i \<longleftrightarrow> bit x i \<and> i \<noteq> 2" for i
  proof -
    have l: "bit x i \<Longrightarrow> i < 32" using assms(1) by (metis bit_take_bit_iff take_bit_nat_eq_self)
    have u: "bit (word_of_nat PTE_U :: uint32) i \<longleftrightarrow> i = 2"
      using bit_exp_iff [where 'a = uint32, of 2 i] by (simp add: PTE_U_def) auto
    have "bit y i \<longleftrightarrow> i < 32 \<and> bit x i \<and> \<not> bit (word_of_nat PTE_U :: uint32) i"
      unfolding y_def by (simp only: bit_simps) auto
    then show ?thesis using l u by blast
  qed
  show "odd y = odd x" using b [of 0] by (simp add: bit_0)
  have "drop_bit 12 y = drop_bit 12 x" by (rule bit_eqI) (simp add: bit_drop_bit_eq b)
  then have "y div 4096 = x div 4096" by (simp add: drop_bit_eq_div)
  then show "frame_of y = frame_of x" by (simp add: frame_of_def PTE_ADDR_def minus_mod_eq_mult_div)
qed

lemma remap_entry:
  assumes b: "built s0 U pd s" and n: "n < user_pages" "entry s pd n = Some x" and y: "y < 2 ^ 32" "odd y" "frame_of y = frame_of x"
  defines "s' \<equiv> stw (tab s pd (n div 1024) + 4 * (n mod 1024)) y s"
  shows "built s0 U pd s'" "\<And>m. m < 2 ^ 20 \<Longrightarrow> entry s' pd m = (if m = n then Some y else entry s pd m)"
    "\<And>a. a < KERNBASE \<Longrightarrow> ubyte s' pd a = ubyte s pd a"
proof -
  obtain ys where k: "vm_ok s pd ys" "held s pd ys = U" "same_off U s0 s" "kend s = kend s0" using b by (rule builtE)
  have pt: "odd (pde s pd (n div 1024))" using n(2) by (auto simp: entry_def split: if_splits)
  note S = set_entry [OF vm_ok_tables [OF k(1)] vpn_index(2) [OF n(1)] pt y(1), folded s'_def]
  show e: "entry s' pd m = (if m = n then Some y else entry s pd m)" if "m < 2 ^ 20" for m using S(4) [OF that] y(2) by simp
  have fr: "map_option frame_of (entry s' pd m) = map_option frame_of (entry s pd m)" if "m < user_pages" for m
    using e [OF vpn_index(2) [OF that]] n(2) y(3) by simp
  have "(\<exists>z. entry s' pd m = Some z \<and> p = frame_of z) \<longleftrightarrow> (\<exists>z. entry s pd m = Some z \<and> p = frame_of z)" if "m < user_pages" for m p
    using fr [OF that] by (metis map_option_eq_Some)
  then have f: "frames s' pd = frames s pd" unfolding frames_def by blast
  have v: "vm_ok s' pd ys"
  proof (rule vm_ok_entry [OF k(1) S(1,2,3,5,6)])
    show "set ys \<inter> tables s pd = {}" "frames s' pd \<inter> (tables s pd \<union> set ys) = {}" using k(1) by (auto simp: f vm_ok_def)
    show "\<And>p. p \<in> frames s' pd \<Longrightarrow> valid_page (kend s) p" using k(1) by (auto simp: f vm_ok_def)
    show "i = j" if w: "i < user_pages" "j < user_pages" "entry s' pd i = Some u" "entry s' pd j = Some w" "frame_of u = frame_of w" for i j u w
    proof -
      obtain u' where u: "entry s pd i = Some u'" "frame_of u' = frame_of u" using fr [OF w(1)] w(3) by (cases "entry s pd i") auto
      obtain w' where "entry s pd j = Some w'" "frame_of w' = frame_of w" using fr [OF w(2)] w(4) by (cases "entry s pd j") auto
      with u w(5) have "frame_of u' = frame_of w'" "entry s pd j = Some w'" by simp_all
      then show ?thesis using k(1) w(1,2) u(1) by (auto simp: vm_ok_def)
    qed
  qed
  have off: "same_off (tables s pd) s s'" using S(7) by (auto simp: same_off_def)
  show "built s0 U pd s'"
    by (rule builtI [OF v _ k(3) off]) (use k(2,4) S(1,6) f in \<open>auto simp: held_def\<close>)
  show "ubyte s' pd a = ubyte s pd a" if a: "a < KERNBASE" for a
  proof -
    note u = user_page [OF a]
    have "kmemory s' (frame_of z + a mod PGSIZE) = kmemory s (frame_of z + a mod PGSIZE)" if z: "entry s pd (a div PGSIZE) = Some z" for z
    proof -
      have "frame_of z \<notin> tables s pd" "frame_of z mod PGSIZE = 0"
        using frame_in [OF u z] k(1) vm_ok_aligned [OF k(1)] by (auto simp: vm_ok_def)
      then have "agree {frame_of z} s s'" using vm_ok_aligned [OF k(1)] by (intro same_off_agree [OF off]) auto
      then show ?thesis by (simp add: agree_def in_page_def PGSIZE_def)
    qed
    then show ?thesis using e [OF vpn_index(2) [OF u]] n(2) y(3) by (cases "entry s pd (a div PGSIZE)") (auto simp: ubyte_def)
  qed
qed

lemma clearpteu_built:
  assumes b: "built s0 U pd s" and pr: "present s pd N" and n: "n < N"
  obtains s' where "clearpteu pd (PGSIZE * n) s = Inr s'" "built s0 U pd s'" "present s' pd N" "\<And>a. a < KERNBASE \<Longrightarrow> ubyte s' pd a = ubyte s pd a"
proof -
  have nu: "n < user_pages" using pr n by (simp add: present_def)
  note l = vpn_index(2) [OF nu]
  obtain ys where y: "vm_ok s pd ys" using b by (rule builtE)
  obtain x where x: "entry s pd n = Some x" using presentD [OF pr n] by blast
  have xx: "odd (pde s pd (n div 1024))" "ldw (tab s pd (n div 1024) + 4 * (n mod 1024)) s = x" "odd x"
    using x by (auto simp: entry_def Let_def split: if_splits)
  have "x < 2 ^ 32" unfolding xx(2) [symmetric] ldw_def by (rule load32_less)
  note C = clear_user [OF this]
  let ?y = "unat (word_of_nat x AND NOT (word_of_nat PTE_U) :: uint32)"
  note R = remap_entry [OF b nu x C(1) _ C(3)]
  have "present (stw (tab s pd (n div 1024) + 4 * (n mod 1024)) ?y s) pd N"
    unfolding present_def
  proof (intro conjI allI impI)
    show "N \<le> user_pages" using pr by (simp add: present_def)
    fix m assume "m < user_pages"
    then show "entry (stw (tab s pd (n div 1024) + 4 * (n mod 1024)) ?y s) pd m \<noteq> None \<longleftrightarrow> m < N"
      using R(2) [OF _ vpn_index(2), of m] C(2) xx(3) pr n by (auto simp: present_def)
  qed
  then show thesis
    using that [OF _ R(1) _ R(3)] C(2) xx tab_pos [OF y vpn_index(1) [OF l] xx(1)] by (simp add: clearpteu_def walk_look [OF l])
qed

text \<open>\<open>copyout\<close> on any range of mapped pages, whether or not they are the user's.\<close>

definition ustr :: "kmem \<Rightarrow> nat \<Rightarrow> nat \<Rightarrow> byte list \<Rightarrow> bool" where
  "ustr s pd a bs \<longleftrightarrow> (\<forall>i < length bs. ubyte s pd (a + i) = Some (bs ! i))"

lemma uva2ka_not_user:
  assumes ok: "vm_ok s pd xs" and n: "n < user_pages" "entry s pd n = Some x" "x AND PTE_U = 0"
  shows "uva2ka pd (PGSIZE * n) s = Inr 0"
proof -
  note l = vpn_index(2) [OF n(1)]
  have x: "odd (pde s pd (n div 1024))" "ldw (tab s pd (n div 1024) + 4 * (n mod 1024)) s = x" "odd x"
    using n(2) by (auto simp: entry_def Let_def split: if_splits)
  then show ?thesis using tab_pos [OF ok vpn_index(1) [OF l] x(1)] n(3) by (simp add: uva2ka_def walk_look [OF l])
qed

lemma copyout_round:
  assumes b: "built s0 U pd s" and pr: "present s pd N" and va: "va + length p \<le> PGSIZE * N" "p \<noteq> []"
  defines "k \<equiv> min (PGSIZE - va mod PGSIZE) (length p)"
  obtains (stop) "copyout pd va p s = Inr (False, s)"
  | (more) s1 where "copyout pd va p s = copyout pd ((va - va mod PGSIZE + PGSIZE) mod 2 ^ 32) (drop k p) s1" "built s0 U pd s1"
      "\<forall>m < 2 ^ 20. entry s1 pd m = entry s pd m"
      "\<And>a. a < KERNBASE \<Longrightarrow> ubyte s1 pd a = (if va \<le> a \<and> a < va + k then Some (p ! (a - va)) else ubyte s pd a)"
proof -
  let ?n = "va div PGSIZE" and ?d = "va mod PGSIZE"
  obtain ys where y: "vm_ok s pd ys" using b by (rule builtE)
  have vd: "va = PGSIZE * ?n + ?d" "?d < PGSIZE" by (simp_all add: PGSIZE_def)
  have "va < PGSIZE * N" using va by (cases p) auto
  then have nN: "?n < N" by (simp add: div_less_iff_less_mult PGSIZE_def mult.commute)
  then have nu: "?n < user_pages" using pr by (simp add: present_def)
  have down: "PGROUNDDOWN va = PGSIZE * ?n" by (simp add: PGROUNDDOWN_def minus_mod_eq_mult_div)
  have sub: "va - PGSIZE * ?n = ?d" "va - ?d = PGSIZE * ?n" using vd by linarith+
  obtain x where x: "entry s pd ?n = Some x" using presentD [OF pr nN] by blast
  show thesis
  proof (cases "x AND PTE_U = 0")
    case True
    then have "copyout pd va p s = Inr (False, s)"
      using uva2ka_not_user [OF y nu x True] va(2) by (subst copyout.simps) (simp add: down)
    then show thesis by (rule stop)
  next
    case False
    note U = uva2ka_ok [OF y nu x False]
    have k: "?d + length (take k p) \<le> PGSIZE" "length (take k p) = k" using vd(2) by (auto simp: k_def)
    note P = put_mem_built [OF b nu x k(1)]
    show thesis
    proof (rule more [OF _ P(1,2)])
      show "copyout pd va p s = copyout pd ((va - ?d + PGSIZE) mod 2 ^ 32) (drop k p) (put_mem (frame_of x + ?d) (take k p) s)"
        using va(2) U by (subst copyout.simps) (simp only: down sub if_False Let_def ebind_simps k_def)
      show "ubyte (put_mem (frame_of x + ?d) (take k p) s) pd a = (if va \<le> a \<and> a < va + k then Some (p ! (a - va)) else ubyte s pd a)"
        if "a < KERNBASE" for a using P(3) [OF that] k(2) by (auto simp: frame_mem_def vd(1) [symmetric])
    qed
  qed
qed

lemma copyout_result:
  assumes "built s0 U pd s" "present s pd N" "va + length p \<le> PGSIZE * N"
  shows "\<exists>b s'. copyout pd va p s = Inr (b, s') \<and> built s0 U pd s' \<and> present s' pd N \<and>
    (\<forall>a < KERNBASE. a < va \<or> va + length p \<le> a \<longrightarrow> ubyte s' pd a = ubyte s pd a) \<and> (b \<longrightarrow> ustr s' pd va p)"
  using assms
proof (induction p arbitrary: va s rule: length_induct)
  case (1 p)
  show ?case
  proof (cases "p = []")
    case True
    then have "copyout pd va p s = Inr (True, s)" by simp
    then show ?thesis using "1.prems" True by (intro exI [of _ True] exI [of _ s]) (simp add: ustr_def)
  next
    case False
    define k where "k = min (PGSIZE - va mod PGSIZE) (length p)"
    have vlt: "va mod PGSIZE < PGSIZE" by (simp add: PGSIZE_def)
    have kp: "0 < k" "k \<le> length p" using False vlt by (auto simp: k_def)
    note KB = present_KERNBASE [OF "1.prems"(2)]
    show ?thesis
    proof (cases rule: copyout_round [OF "1.prems" False, folded k_def])
      case 1
      then show ?thesis using "1.prems" by blast
    next
      case (2 s1)
      have pr1: "present s1 pd N" using present_cong [OF 2(3)] "1.prems"(2) by simp
      show ?thesis
      proof (cases "k = length p")
        case True
        then have "copyout pd va p s = Inr (True, s1)" using 2(1) by simp
        moreover have "ustr s1 pd va p" using 2(4) True "1.prems"(3) KB by (simp add: ustr_def)
        ultimately show ?thesis using 2(2,4) pr1 True by auto
      next
        case False
        then have k: "k = PGSIZE - va mod PGSIZE" "k < length p" using kp by (auto simp: k_def)
        have nx: "(va - va mod PGSIZE + PGSIZE) mod 2 ^ 32 = va + k"
        proof -
          have "va - va mod PGSIZE + PGSIZE = va + k" using k vlt by (simp add: mod_less_eq_dividend)
          moreover have "va + k < 2 ^ 32" using k(2) "1.prems"(3) KB by (simp add: KERNBASE_def)
          ultimately show ?thesis by simp
        qed
        have l: "length (drop k p) < length p" "va + k + length (drop k p) \<le> PGSIZE * N" using k(2) kp "1.prems"(3) by auto
        obtain b s' where r: "copyout pd (va + k) (drop k p) s1 = Inr (b, s')" "built s0 U pd s'" "present s' pd N"
          "\<forall>a < KERNBASE. a < va + k \<or> va + k + length (drop k p) \<le> a \<longrightarrow> ubyte s' pd a = ubyte s1 pd a" "b \<longrightarrow> ustr s' pd (va + k) (drop k p)"
          using "1.IH" [rule_format, OF l(1) 2(2) pr1 l(2)] by blast
        have "ustr s' pd va p" if b
        proof -
          have "ubyte s' pd (va + i) = Some (p ! i)" if i: "i < length p" for i
          proof (cases "i < k")
            case True
            then show ?thesis using r(4) [rule_format, of "va + i"] 2(4) [of "va + i"] i "1.prems"(3) KB by simp
          next
            case False
            have "\<forall>j < length (drop k p). ubyte s' pd (va + k + j) = Some (drop k p ! j)" using r(5) \<open>b\<close> unfolding ustr_def by blast
            from this [rule_format, of "i - k"] show ?thesis using False i by simp
          qed
          then show ?thesis by (simp add: ustr_def)
        qed
        moreover have "copyout pd va p s = Inr (b, s')" using 2(1) r(1) nx by simp
        moreover have "ubyte s' pd a = ubyte s pd a" if "a < KERNBASE" "a < va \<or> va + length p \<le> a" for a
          using r(4) 2(4) that k(2) by auto
        ultimately show ?thesis using r(2,3) by blast
      qed
    qed
  qed
qed

lemma ustr_keep: "ustr s pd a bs \<Longrightarrow> (\<And>x. a \<le> x \<Longrightarrow> x < a + length bs \<Longrightarrow> ubyte s' pd x = ubyte s pd x) \<Longrightarrow> ustr s' pd a bs"
  by (simp add: ustr_def)

definition args_need :: "byte list list \<Rightarrow> nat" where
  "args_need argv = sum_list (map (\<lambda>a. length a + 4) argv)"

lemma args_need_simps [simp]: "args_need [] = 0" "args_need (a # as) = length a + 4 + args_need as"
  by (simp_all add: args_need_def)

lemma minus32_le: "b \<le> a \<Longrightarrow> a < 2 ^ 32 \<Longrightarrow> minus32 a b = a - b"
  by (simp add: minus32_def mod_if)

lemma push_args_result:
  assumes "built s0 U pd s" "present s pd N" "sp \<le> PGSIZE * N" "args_need argv \<le> sp"
  shows "\<exists>r s'. push_args pd argv argc sp s = Inr (r, s') \<and> built s0 U pd s' \<and> present s' pd N \<and>
    (\<forall>a < KERNBASE. a < sp - args_need argv \<or> sp \<le> a \<longrightarrow> ubyte s' pd a = ubyte s pd a) \<and>
    (\<forall>sp' ps. r = Some (sp', ps) \<longrightarrow> length ps = length argv \<and> sp - args_need argv \<le> sp' \<and> sp' \<le> sp \<and>
       (\<forall>i < length argv. sp' \<le> ps ! i \<and> ps ! i + length (argv ! i) + 1 \<le> sp \<and> ustr s' pd (ps ! i) (argv ! i @ [0])))"
  using assms
proof (induction argv arbitrary: argc sp s)
  case Nil
  then show ?case by simp
next
  case (Cons a argv)
  note KB = present_KERNBASE [OF Cons.prems(2)]
  define sp2 where "sp2 = (sp - (length a + 1)) - (sp - (length a + 1)) mod 4"
  have "(sp - (length a + 1)) mod 4 < 4" by simp
  then have s2: "sp2 + length a + 1 \<le> sp" "sp \<le> sp2 + length a + 4" using Cons.prems(4) unfolding sp2_def args_need_simps by linarith+
  have m32: "minus32 sp (length a + 1) = sp - (length a + 1)"
    using Cons.prems(3,4) KB by (intro minus32_le) (simp_all add: KERNBASE_def)
  show ?case
  proof (cases "argc \<ge> MAXARG")
    case True
    then have "push_args pd (a # argv) argc sp s = Inr (None, s)" by simp
    then show ?thesis using Cons.prems(1,2) by blast
  next
    case False
    have l: "sp2 + length (a @ [0 :: byte]) \<le> PGSIZE * N" using s2 Cons.prems(3) by simp
    obtain ok s1 where c: "copyout pd sp2 (a @ [0]) s = Inr (ok, s1)" "built s0 U pd s1" "present s1 pd N"
      "\<forall>x < KERNBASE. x < sp2 \<or> sp2 + length (a @ [0 :: byte]) \<le> x \<longrightarrow> ubyte s1 pd x = ubyte s pd x" "ok \<longrightarrow> ustr s1 pd sp2 (a @ [0])"
      using copyout_result [OF Cons.prems(1,2) l] by blast
    have keep1: "ubyte s1 pd x = ubyte s pd x" if "x < KERNBASE" "x < sp - args_need (a # argv) \<or> sp \<le> x" for x
      using c(4) that s2 by auto
    have eq: "push_args pd (a # argv) argc sp s = (if \<not> ok then Inr (None, s1)
       else ebind (push_args pd argv (argc + 1) sp2 s1) (\<lambda>(r, m2). Inr (map_option (\<lambda>(sp3, ps). (sp3, sp2 # ps)) r, m2)))"
      using False by (simp only: push_args.simps m32 if_False Let_def sp2_def [symmetric] c(1) ebind_simps prod.case)
    show ?thesis
    proof (cases ok)
      case False
      then show ?thesis using eq c(2,3) keep1 by auto
    next
      case True
      have n: "sp2 \<le> PGSIZE * N" "args_need argv \<le> sp2" using s2 Cons.prems(3,4) by simp_all
      obtain r s' where R: "push_args pd argv (argc + 1) sp2 s1 = Inr (r, s')" "built s0 U pd s'" "present s' pd N"
        "\<forall>x < KERNBASE. x < sp2 - args_need argv \<or> sp2 \<le> x \<longrightarrow> ubyte s' pd x = ubyte s1 pd x"
        "\<forall>sp' ps. r = Some (sp', ps) \<longrightarrow> length ps = length argv \<and> sp2 - args_need argv \<le> sp' \<and> sp' \<le> sp2 \<and>
           (\<forall>i < length argv. sp' \<le> ps ! i \<and> ps ! i + length (argv ! i) + 1 \<le> sp2 \<and> ustr s' pd (ps ! i) (argv ! i @ [0]))"
        using Cons.IH [OF c(2,3) n] by blast
      have low: "sp - args_need (a # argv) \<le> sp2 - args_need argv" using s2 by simp
      have u: "ustr s' pd sp2 (a @ [0])"
        by (rule ustr_keep [of s1]) (use c(5) True R(4) l KB in auto)
      have keep: "ubyte s' pd x = ubyte s pd x" if "x < KERNBASE" "x < sp - args_need (a # argv) \<or> sp \<le> x" for x
      proof -
        have "x < sp2 - args_need argv \<or> sp2 \<le> x" using that(2) low s2 by linarith
        then show ?thesis using R(4) keep1 [OF that] that(1) by auto
      qed
      have strs: "length (sp2 # ps) = length (a # argv) \<and> sp - args_need (a # argv) \<le> sp' \<and> sp' \<le> sp \<and>
          (\<forall>i < length (a # argv). sp' \<le> (sp2 # ps) ! i \<and> (sp2 # ps) ! i + length ((a # argv) ! i) + 1 \<le> sp \<and> ustr s' pd ((sp2 # ps) ! i) ((a # argv) ! i @ [0]))"
        if "r = Some (sp', ps)" for sp' ps
      proof -
        have q: "length ps = length argv" "sp2 - args_need argv \<le> sp'" "sp' \<le> sp2"
          "\<And>i. i < length argv \<Longrightarrow> sp' \<le> ps ! i \<and> ps ! i + length (argv ! i) + 1 \<le> sp2 \<and> ustr s' pd (ps ! i) (argv ! i @ [0])"
          using R(5) that by auto
        have "sp' \<le> (sp2 # ps) ! i \<and> (sp2 # ps) ! i + length ((a # argv) ! i) + 1 \<le> sp \<and> ustr s' pd ((sp2 # ps) ! i) ((a # argv) ! i @ [0])"
          if i: "i < length (a # argv)" for i
        proof (cases i)
          case 0
          then show ?thesis using q(3) s2 u by simp
        next
          case (Suc j)
          then show ?thesis using q(4) [of j] i s2 by fastforce
        qed
        then show ?thesis using q(1,2,3) low s2 by simp
      qed
      have "push_args pd (a # argv) argc sp s = Inr (map_option (\<lambda>(sp3, ps). (sp3, sp2 # ps)) r, s')" using eq True R(1) by simp
      then show ?thesis using R(2,3) keep strs by (intro exI [of _ "map_option (\<lambda>(sp3, ps). (sp3, sp2 # ps)) r"] exI [of _ s']) auto
    qed
  qed
qed

definition stack_holds :: "kmem \<Rightarrow> nat \<Rightarrow> nat \<Rightarrow> byte list list \<Rightarrow> bool" where
  "stack_holds s pd esp argv \<longleftrightarrow> (\<exists>ps. length ps = length argv \<and> esp + 4 * (length argv + 4) \<le> KERNBASE \<and>
     ustr s pd esp (concat (map bytes32 ([0xffffffff, length argv, esp + 12] @ ps @ [0]))) \<and>
     (\<forall>i < length argv. ps ! i + length (argv ! i) + 1 \<le> KERNBASE \<and> ustr s pd (ps ! i) (argv ! i @ [0])))"

lemma stack_holds_keep:
  assumes "stack_holds s pd esp argv" "\<And>a. a < KERNBASE \<Longrightarrow> ubyte s' pd a = ubyte s pd a"
  shows "stack_holds s' pd esp argv"
proof -
  obtain ps where p: "length ps = length argv" "esp + 4 * (length argv + 4) \<le> KERNBASE"
    "ustr s pd esp (concat (map bytes32 ([0xffffffff, length argv, esp + 12] @ ps @ [0])))"
    "\<forall>i < length argv. ps ! i + length (argv ! i) + 1 \<le> KERNBASE \<and> ustr s pd (ps ! i) (argv ! i @ [0])"
    using assms(1) unfolding stack_holds_def by blast
  have "ustr s' pd esp (concat (map bytes32 ([0xffffffff, length argv, esp + 12] @ ps @ [0])))"
    by (rule ustr_keep [OF p(3) assms(2)]) (use p(1,2) length_concat_bytes32 [of "[0xffffffff, length argv, esp + 12] @ ps @ [0]"] in simp)
  moreover have "ustr s' pd (ps ! i) (argv ! i @ [0])" if "i < length argv" for i
    by (rule ustr_keep [OF _ assms(2)]) (use p(4) that in auto)
  ultimately show ?thesis using p unfolding stack_holds_def by blast
qed

lemma exec_stack_result:
  assumes b: "built s0 U pd s" and pr: "present s pd (pages_of sz)" and sz: "sz < KERNBASE"
    and need: "args_need argv + 4 * (length argv + 4) \<le> 2 * PGSIZE"
  shows "\<exists>r s'. exec_stack pd sz argv s = Inr (r, s') \<and> built s0 U pd s' \<and>
    (\<forall>sz1 esp. r = Some (sz1, esp) \<longrightarrow> sz1 = PGSIZE * pages_of sz + 2 * PGSIZE \<and>
       (\<forall>a < PGSIZE * pages_of sz. ubyte s' pd a = ubyte s pd a) \<and> stack_holds s' pd esp argv)"
proof -
  let ?n = "pages_of sz" and ?z = "PGSIZE * pages_of sz"
  have up: "PGROUNDUP sz = ?z" using sz by (intro PGROUNDUP_pages) simp
  have zK: "?z \<le> KERNBASE" using present_KERNBASE [OF pr] .
  have w: "(?z + 2 * PGSIZE) mod 2 ^ 32 = ?z + 2 * PGSIZE" using zK by (simp add: KERNBASE_def PGSIZE_def)
  have pz: "pages_of ?z = ?n" "pages_of (?z + 2 * PGSIZE) = ?n + 2" by (simp_all add: pages_of_def PGSIZE_def)
  show ?thesis
  proof (cases "?z < KERNBASE")
    case False
    then have "exec_stack pd sz argv s = Inr (None, s)" using up w by (simp add: exec_stack_def allocuvm_def Let_def)
    then show ?thesis using b by blast
  next
    case True
    obtain sz1 s1 where A: "allocuvm pd ?z (?z + 2 * PGSIZE) s = Inr (sz1, s1)" "built s0 U pd s1"
      "sz1 \<noteq> 0 \<longrightarrow> sz1 = max ?z (?z + 2 * PGSIZE) \<and> sz1 < KERNBASE \<and> present s1 pd (pages_of sz1) \<and>
        (\<forall>m. pages_of ?z \<le> m \<and> m < pages_of sz1 \<longrightarrow> user_ok s1 pd m) \<and>
        (\<forall>a < PGSIZE * pages_of sz1. ubyte s1 pd a = (if a < PGSIZE * pages_of ?z then ubyte s pd a else Some 0))"
      using allocuvm_built [OF b _ True, of "?z + 2 * PGSIZE"] pr pz(1) by auto
    show ?thesis
    proof (cases "sz1 = 0")
      case True
      then have "exec_stack pd sz argv s = Inr (None, s1)" using A(1) up w by (simp add: exec_stack_def Let_def)
      then show ?thesis using A(2) by blast
    next
      case False
      then have C: "sz1 = ?z + 2 * PGSIZE" "sz1 < KERNBASE" "present s1 pd (?n + 2)" "\<forall>a < ?z. ubyte s1 pd a = ubyte s pd a"
        using A(3) pz by (auto simp: max_def)
      have sN: "PGSIZE * (?n + 2) = sz1" using C(1) by simp
      obtain s2 where L: "clearpteu pd ?z s1 = Inr s2" "built s0 U pd s2" "present s2 pd (?n + 2)" "\<And>a. a < KERNBASE \<Longrightarrow> ubyte s2 pd a = ubyte s1 pd a"
        using clearpteu_built [OF A(2) C(3), of ?n] by auto
      have m1: "minus32 sz1 (2 * PGSIZE) = ?z" using C(1,2) by (subst minus32_le) (simp_all add: KERNBASE_def)
      have an: "args_need argv \<le> sz1" "sz1 \<le> PGSIZE * (?n + 2)" using need C(1) sN by simp_all
      obtain r s3 where P: "push_args pd argv 0 sz1 s2 = Inr (r, s3)" "built s0 U pd s3" "present s3 pd (?n + 2)"
        "\<forall>a < KERNBASE. a < sz1 - args_need argv \<or> sz1 \<le> a \<longrightarrow> ubyte s3 pd a = ubyte s2 pd a"
        "\<forall>sp ps. r = Some (sp, ps) \<longrightarrow> length ps = length argv \<and> sz1 - args_need argv \<le> sp \<and> sp \<le> sz1 \<and>
          (\<forall>i < length argv. sp \<le> ps ! i \<and> ps ! i + length (argv ! i) + 1 \<le> sz1 \<and> ustr s3 pd (ps ! i) (argv ! i @ [0]))"
        using push_args_result [OF L(2,3) an(2,1), of 0] by blast
      show ?thesis
      proof (cases r)
        case None
        then have "exec_stack pd sz argv s = Inr (None, s3)" using A(1) up w False L(1) m1 P(1) by (simp add: exec_stack_def Let_def)
        then show ?thesis using P(2) by blast
      next
        case (Some q)
        then obtain sp ps where r: "r = Some (sp, ps)" by (cases q) auto
        then have Q: "length ps = length argv" "sz1 - args_need argv \<le> sp" "sp \<le> sz1"
          "\<And>i. i < length argv \<Longrightarrow> sp \<le> ps ! i \<and> ps ! i + length (argv ! i) + 1 \<le> sz1 \<and> ustr s3 pd (ps ! i) (argv ! i @ [0])"
          using P(5) by auto
        define esp where "esp = sp - 4 * (length argv + 4)"
        have e: "esp + 4 * (length argv + 4) = sp" "?z \<le> esp" using need Q(2) C(1) by (auto simp: esp_def)
        have sp32: "sp < 2 ^ 32" using Q(3) C(2) by (simp add: KERNBASE_def)
        have mm: "minus32 sp ((length ps + 1) * 4) = esp + 12" "minus32 sp ((3 + length ps + 1) * 4) = esp"
          using e(1) Q(1) sp32 by (auto simp: minus32_le)
        let ?u = "concat (map bytes32 ([0xffffffff, length argv, esp + 12] @ ps @ [0]))"
        have lu: "length ?u = 4 * (length argv + 4)" using Q(1) by (simp add: length_concat_bytes32)
        have fit: "esp + length ?u \<le> PGSIZE * (?n + 2)" using lu e(1) Q(3) sN by simp
        obtain ok s4 where K: "copyout pd esp ?u s3 = Inr (ok, s4)" "built s0 U pd s4"
          "\<forall>a < KERNBASE. a < esp \<or> esp + length ?u \<le> a \<longrightarrow> ubyte s4 pd a = ubyte s3 pd a" "ok \<longrightarrow> ustr s4 pd esp ?u"
          using copyout_result [OF P(2,3) fit] by blast
        have eq: "exec_stack pd sz argv s = (if ok then Inr (Some (sz1, esp), s4) else Inr (None, s4))"
          using A(1) up w False L(1) m1 P(1) r mm K(1) Q(1) by (simp add: exec_stack_def Let_def)
        have strs: "ustr s4 pd (ps ! i) (argv ! i @ [0])" if "i < length argv" for i
          by (rule ustr_keep [of s3]) (use Q(4) [OF that] K(3) lu e(1) C(2) in auto)
        have low: "ubyte s4 pd a = ubyte s pd a" if "a < ?z" for a
          using K(3) P(4) L(4) C(4) that zK e(2) need C(1) by auto
        show ?thesis
        proof (cases ok)
          case True
          then have "stack_holds s4 pd esp argv" 
            using K(4) strs Q(1,3) Q(4) C(2) e(1) unfolding stack_holds_def by (intro exI [of _ ps]) fastforce
          then show ?thesis using eq True K(2) C(1) low by (intro exI [of _ "Some (sz1, esp)"] exI [of _ s4]) simp
        next
          case False
          then show ?thesis using eq K(2) by auto
        qed
      qed
    qed
  qed
qed

subsection \<open>All or nothing\<close>

text \<open>An address space is not affected by writes to other pages.\<close>

lemma space_off:
  assumes ok: "vm_ok s pd xs" and off: "same_off P s s'" "P \<inter> (tables s pd \<union> frames s pd) = {}" "\<forall>p \<in> P. p mod PGSIZE = 0"
    and k: "kmem_ok s' ys" "kend s' = kend s" "set ys \<inter> (tables s pd \<union> frames s pd) = {}"
  shows "vm_ok s' pd ys" "tables s' pd = tables s pd" "frames s' pd = frames s pd" "\<And>a. a < KERNBASE \<Longrightarrow> ubyte s' pd a = ubyte s pd a"
proof -
  have ag: "agree {q} s s'" if "q \<in> tables s pd \<union> frames s pd" for q
    using vm_ok_aligned [OF ok] off(2,3) that by (intro same_off_agree [OF off(1)]) auto
  then have t: "agree (tables s pd) s s'" by (auto simp: agree_def)
  show "vm_ok s' pd ys" by (rule vm_ok_agree [OF ok t k])
  note eq = space_agree [OF t]
  show "tables s' pd = tables s pd" "frames s' pd = frames s pd" by (rule eq)+
  show "ubyte s' pd a = ubyte s pd a" if a: "a < KERNBASE" for a
  proof -
    note u = user_page [OF a]
    have "kmemory s' (frame_of z + a mod PGSIZE) = kmemory s (frame_of z + a mod PGSIZE)" if z: "entry s pd (a div PGSIZE) = Some z" for z
      using ag [of "frame_of z"] frame_in [OF u z] by (simp add: agree_def in_page_def PGSIZE_def)
    then show ?thesis using eq(5) [OF vpn_index(2) [OF u]] by (cases "entry s pd (a div PGSIZE)") (auto simp: ubyte_def)
  qed
qed

lemma kmem_ok_aligned: "kmem_ok s xs \<Longrightarrow> p \<in> set xs \<Longrightarrow> p mod PGSIZE = 0"
  using valid_page_range(1) by (auto simp: kmem_ok_def)

text \<open>The old address space while the new one is built from the free pages, and after these have been given back.\<close>

lemma old_space:
  assumes old: "vm_ok s old xs" and off: "same_off (set xs) s s'" and k: "kmem_ok s' ys" "set ys \<subseteq> set xs" "kend s' = kend s"
  shows "vm_ok s' old ys" "tables s' old = tables s old" "frames s' old = frames s old" "\<And>a. a < KERNBASE \<Longrightarrow> ubyte s' old a = ubyte s old a"
proof -
  have d: "set xs \<inter> (tables s old \<union> frames s old) = {}" "kmem_ok s xs" using old by (auto simp: vm_ok_def)
  note S = space_off [OF old off d(1) _ k(1,3)]
  show "vm_ok s' old ys" "tables s' old = tables s old" "frames s' old = frames s old" "\<And>a. a < KERNBASE \<Longrightarrow> ubyte s' old a = ubyte s old a"
    using S kmem_ok_aligned [OF d(2)] d(1) k(2) by blast+
qed

lemma replace_space:
  assumes old: "vm_ok s old xs" and b: "built s (set xs) pd s1"
  obtains s2 zs where "freevm old s1 = Inr s2" "vm_ok s2 pd zs" "held s2 pd zs = held s old xs" "\<And>a. a < KERNBASE \<Longrightarrow> ubyte s2 pd a = ubyte s1 pd a"
proof -
  obtain ys where y: "vm_ok s1 pd ys" "held s1 pd ys = set xs" "same_off (set xs) s s1" "kend s1 = kend s" using b by (rule builtE)
  have k: "kmem_ok s1 ys" "set ys \<subseteq> set xs" using y(1,2) by (auto simp: vm_ok_def held_def)
  note O = old_space [OF old y(3) k y(4)]
  obtain s2 zs where f: "freevm old s1 = Inr s2" "kmem_ok s2 zs" "kend s2 = kend s1" "set zs = held s1 old ys" "same_off (held s1 old ys) s1 s2"
    by (rule freevm_pool [OF O(1)])
  have d: "set zs \<inter> (tables s1 pd \<union> frames s1 pd) = {}"
  proof -
    have "set ys \<inter> (tables s1 pd \<union> frames s1 pd) = {}" "tables s1 pd \<union> frames s1 pd \<subseteq> set xs" using y(1,2) by (auto simp: vm_ok_def held_def)
    moreover have "(tables s old \<union> frames s old) \<inter> set xs = {}" using old by (auto simp: vm_ok_def)
    ultimately show ?thesis using f(4) O(2,3) by (auto simp: held_def)
  qed
  have al: "\<forall>p \<in> set zs. p mod PGSIZE = 0" using kmem_ok_aligned [OF f(2)] by blast
  note S = space_off [OF y(1) f(5) _ _ f(2,3) d, folded f(4), OF d al]
  have "held s2 pd zs = held s old xs" using S(2,3) f(4) y(2) O(2,3) by (auto simp: held_def)
  then show thesis using that f(1) S(1,4) by blast
qed

lemma given_back_intact:
  assumes old: "vm_ok s old xs" and g: "given_back s (set xs) s'"
  obtains zs where "vm_ok s' old zs" "set zs = set xs" "\<And>a. a < KERNBASE \<Longrightarrow> ubyte s' old a = ubyte s old a"
proof -
  obtain zs where z: "kmem_ok s' zs" "set zs = set xs" "same_off (set xs) s s'" "kend s' = kend s" using g by (auto simp: given_back_def)
  show thesis by (rule that [OF old_space(1) [OF old z(3,1) _ z(4)] z(2) old_space(4) [OF old z(3,1) _ z(4)]]) (simp_all add: z(2))
qed

lemma exec_load_result:
  fixes f ip
  defines "c \<equiv> fbyte f ip"
  defines "elf \<equiv> get_elf (map c [0..<52])"
  assumes k: "kmem_ok m xs" "KERNBASE < kend m" and d: "data_ok data" and f: "plain_file f ip"
  shows "\<exists>pd image' m'. exec_load dv data ip f m = Inr ((pd, image'), f, m') \<and>
    (pd = 0 \<and> image' = None \<and> given_back m (set xs) m' \<or>
     pd \<noteq> 0 \<and> built m (set xs) pd m' \<and> (\<forall>sz start. image' = Some (sz, start) \<longrightarrow> sz < KERNBASE \<and> start = elf_entry elf \<and>
        holds m' pd (pages_of sz) (image c (headers c (elf_phoff elf) (elf_phnum elf)) (\<lambda>_. 0))))"
proof -
  have same: "given_back m (set xs) m" using k(1) by (auto simp: given_back_def same_off_refl)
  obtain r where r: "readi dv ip 0 52 f = Inr (r, f)" "\<And>bs. r = Some bs \<Longrightarrow> length bs = 52 \<Longrightarrow> bs = map c [0..<52]"
    unfolding c_def by (rule readi_returns [OF f, where dv = dv and n = 52 and off = 0]) auto
  show ?thesis
  proof (cases "\<exists>bs. r = Some bs \<and> length bs = 52 \<and> elf_magic elf = ELF_MAGIC")
    case False
    then have "exec_load dv data ip f m = Inr ((0, None), f, m)"
      using r(1) r(2) by (auto simp: exec_load_def elf_def Let_def split: option.splits)
    then show ?thesis using same by blast
  next
    case True
    then obtain bs where bs: "r = Some bs" "length bs = 52" "get_elf bs = elf" "elf_magic elf = ELF_MAGIC" using r(2) by (auto simp: elf_def)
    have eq: "exec_load dv data ip f m =
      ebind (setupkvm data m) (\<lambda>(pgdir, m1).
        if pgdir = 0 then Inr ((0, None), f, m1)
        else ebind (load_segs dv ip pgdir (elf_phnum elf) (elf_phoff elf) 0 f m1) (\<lambda>(r, f2, m2).
          Inr ((pgdir, map_option (\<lambda>sz. (sz, elf_entry elf)) r), f2, m2)))"
      using r(1) bs by (simp add: exec_load_def Let_def)
    consider m1 where "setupkvm data m = Inr (0, m1)" "given_back m (set xs) m1"
      | pd m1 where "setupkvm data m = Inr (pd, m1)" "pd \<noteq> 0" "built m (set xs) pd m1" "\<forall>n < user_pages. entry m1 pd n = None"
      using setupkvm_built [OF k d] by blast
    then show ?thesis
    proof cases
      case 1
      then have "exec_load dv data ip f m = Inr ((0, None), f, m1)" using eq by simp
      then show ?thesis using 1(2) by blast
    next
      case 2
      have h: "holds m1 pd (pages_of 0) (\<lambda>_. 0)" using 2(4) by (simp add: holds_def present_def pages_of_def PGSIZE_def)
      have o': "elf_phoff elf < 2 ^ 32" by (simp only: elf_def get_elf_def elfhdr.simps rd32_less)
      obtain r s' where L: "load_segs dv ip pd (elf_phnum elf) (elf_phoff elf) 0 f m1 = Inr (r, f, s')" "built m (set xs) pd s'"
        "\<forall>sz'. r = Some sz' \<longrightarrow> sz' < KERNBASE \<and> holds s' pd (pages_of sz') (image c (headers c (elf_phoff elf) (elf_phnum elf)) (\<lambda>_. 0))"
        using load_segs_built [OF 2(3) h _ f o', of dv "elf_phnum elf"] unfolding c_def by (auto simp: KERNBASE_def)
      have "exec_load dv data ip f m = Inr ((pd, map_option (\<lambda>sz. (sz, elf_entry elf)) r), f, s')" using eq 2(1,2) L(1) by simp
      then show ?thesis using 2(2) L(2,3) by (intro exI [of _ pd] exI [of _ "map_option (\<lambda>sz. (sz, elf_entry elf)) r"] exI [of _ s']) auto
    qed
  qed
qed

lemma safestrcpy_total: "0 \<in> set t \<Longrightarrow> \<exists>r. safestrcpy n t = Inr r"
  by (induction n t rule: safestrcpy.induct) (auto split: if_splits)

text \<open>C8: \<open>exec\<close> replaces the program of a process or leaves it alone. Let the path name a well-formed file, and let the
  arguments fit into two pages. Then \<open>exec\<close> returns, without a panic. If it returns \<open>-1\<close>, for a bad program
  header, a file that is too short, arguments that do not fit into the stack page or for want of memory, every page that it took
  is free again and the process has its old memory, byte for byte. If it returns 0, the process runs in a new address space: its
  memory holds the segments of the file in the order of the program headers and zeros elsewhere, the stack holds
  the return address, \<open>argc\<close>, \<open>argv\<close> and the strings, execution starts at the entry point of the file, and every page of the old address
  space is free.\<close>

theorem exec_all_or_nothing:
  fixes st :: exst and f2 :: fsys
  assumes mem: "vm_ok (x_mem st) (x_pgdir st) xs" and data: "data_ok data"
    and fs: "fs_begin_op (x_fs st) = Inr f0" "namei dv me cwd path f0 = Inr (Some ip, f1)" "ilock me ip f1 = Inr f2"
      "plain_file f2 ip" "iunlockput me ip f2 = Inr f3"
    and need: "args_need argv + 4 * (length argv + 4) \<le> 2 * PGSIZE"
  defines "c \<equiv> fbyte f2 ip"
  defines "elf \<equiv> get_elf (map c [0..<52])"
  shows "\<exists>r st' zs. exec dv data me cwd path argv st = Inr (r, st') \<and> x_fs st' = fs_end_op f3 \<and> vm_ok (x_mem st') (x_pgdir st') zs \<and>
    (r = -1 \<and> set zs = set xs \<and> st' = st\<lparr>x_fs := x_fs st', x_mem := x_mem st'\<rparr> \<and>
       (\<forall>a < KERNBASE. ubyte (x_mem st') (x_pgdir st) a = ubyte (x_mem st) (x_pgdir st) a) \<or>
     r = 0 \<and> held (x_mem st') (x_pgdir st') zs = held (x_mem st) (x_pgdir st) xs \<and> x_eip st' = elf_entry elf \<and>
       (\<forall>a < x_sz st' - 2 * PGSIZE.
          ubyte (x_mem st') (x_pgdir st') a = Some (image c (headers c (elf_phoff elf) (elf_phnum elf)) (\<lambda>_. 0) a)) \<and>
       stack_holds (x_mem st') (x_pgdir st') (x_esp st') argv)"
proof -
  have k: "kmem_ok (x_mem st) xs" "KERNBASE < kend (x_mem st)" using mem by (simp_all add: vm_ok_def)
  obtain pd im m1 where L: "exec_load dv data ip f2 (x_mem st) = Inr ((pd, im), f2, m1)"
    "pd = 0 \<and> im = None \<and> given_back (x_mem st) (set xs) m1 \<or>
     pd \<noteq> 0 \<and> built (x_mem st) (set xs) pd m1 \<and> (\<forall>sz start. im = Some (sz, start) \<longrightarrow> sz < KERNBASE \<and> start = elf_entry elf \<and>
        holds m1 pd (pages_of sz) (image c (headers c (elf_phoff elf) (elf_phnum elf)) (\<lambda>_. 0)))"
    using exec_load_result [OF k data fs(4), of dv] unfolding c_def elf_def by blast
  have failed: ?thesis if at: "exec dv data me cwd path argv st = Inr (-1, st\<lparr>x_fs := fs_end_op f3, x_mem := m'\<rparr>)" "given_back (x_mem st) (set xs) m'" for m'
  proof -
    obtain zs where "vm_ok m' (x_pgdir st) zs" "set zs = set xs" "\<And>a. a < KERNBASE \<Longrightarrow> ubyte m' (x_pgdir st) a = ubyte (x_mem st) (x_pgdir st) a"
      using given_back_intact [OF mem at(2)] by blast
    then show ?thesis using at(1) by (intro exI [of _ "-1"] exI [of _ "st\<lparr>x_fs := fs_end_op f3, x_mem := m'\<rparr>"] exI [of _ zs]) simp
  qed
  show ?thesis
  proof (cases im)
    case None
    obtain m2 where m2: "(if pd \<noteq> 0 then freevm pd m1 else Inr m1) = Inr m2" "given_back (x_mem st) (set xs) m2"
      using L(2) freevm_built [of "x_mem st" "set xs" pd m1] by auto
    have "exec dv data me cwd path argv st = Inr (-1, st\<lparr>x_fs := fs_end_op f3, x_mem := m2\<rparr>)"
      using fs L(1) None m2(1) by (simp add: exec_def)
    then show ?thesis using failed m2(2) by blast
  next
    case (Some q)
    then obtain sz where im: "im = Some (sz, elf_entry elf)" and b: "pd \<noteq> 0" "built (x_mem st) (set xs) pd m1" "sz < KERNBASE"
      "holds m1 pd (pages_of sz) (image c (headers c (elf_phoff elf) (elf_phnum elf)) (\<lambda>_. 0))" using L(2) by (cases q) auto
    have pr: "present m1 pd (pages_of sz)" using b(4) by (simp add: holds_def)
    obtain r m2 where E: "exec_stack pd sz argv m1 = Inr (r, m2)" "built (x_mem st) (set xs) pd m2"
      "\<forall>sz1 esp. r = Some (sz1, esp) \<longrightarrow> sz1 = PGSIZE * pages_of sz + 2 * PGSIZE \<and>
         (\<forall>a < PGSIZE * pages_of sz. ubyte m2 pd a = ubyte m1 pd a) \<and> stack_holds m2 pd esp argv"
      using exec_stack_result [OF b(2) pr b(3) need] by blast
    show ?thesis
    proof (cases r)
      case None
      obtain m3 where m3: "freevm pd m2 = Inr m3" "given_back (x_mem st) (set xs) m3" using freevm_built [OF E(2)] by blast
      have "exec dv data me cwd path argv st = Inr (-1, st\<lparr>x_fs := fs_end_op f3, x_mem := m3\<rparr>)"
        using fs L(1) im E(1) None m3(1) by (simp add: exec_def Let_def)
      then show ?thesis using failed m3(2) by blast
    next
      case (Some q)
      then obtain sz1 esp where r: "r = Some (sz1, esp)" by (cases q) auto
      obtain m3 zs where F: "freevm (x_pgdir st) m2 = Inr m3" "vm_ok m3 pd zs" "held m3 pd zs = held (x_mem st) (x_pgdir st) xs"
        "\<And>a. a < KERNBASE \<Longrightarrow> ubyte m3 pd a = ubyte m2 pd a"
        by (rule replace_space [OF mem E(2)]) blast
      obtain nm where nm: "safestrcpy 16 (last_elem path path @ [0]) = Inr nm" using safestrcpy_total [of "last_elem path path @ [0]" 16] by auto
      let ?st = "st\<lparr>x_fs := fs_end_op f3, x_mem := m3, x_name := nm @ drop (length nm) (x_name st), x_pgdir := pd, x_sz := sz1, x_eip := elf_entry elf, x_esp := esp\<rparr>"
      have ex: "exec dv data me cwd path argv st = Inr (0, ?st)" using fs L(1) im E(1) r nm F(1) by (simp add: exec_def Let_def)
      have sz1: "sz1 - 2 * PGSIZE = PGSIZE * pages_of sz" "PGSIZE * pages_of sz \<le> KERNBASE" using E(3) r present_KERNBASE [OF pr] by auto
      have img: "ubyte m3 pd a = Some (image c (headers c (elf_phoff elf) (elf_phnum elf)) (\<lambda>_. 0) a)" if "a < sz1 - 2 * PGSIZE" for a
        using that F(4) [of a] E(3) r b(4) sz1 by (simp add: holds_def)
      have stk: "stack_holds m3 pd esp argv" using E(3) r stack_holds_keep F(4) by blast
      show ?thesis using ex F(2,3) img stk by (intro exI [of _ 0] exI [of _ ?st] exI [of _ zs]) simp
    qed
  qed
qed

lemma plain_file_same:
  assumes "plain_file s ip" "fs_sb s' = fs_sb s" "fs_blk s' = fs_blk s" "length (fs_inode s') = length (fs_inode s)"
    "i_addrs (fs_inode s' ! ip) = i_addrs (fs_inode s ! ip)" "i_dev (fs_inode s' ! ip) = i_dev (fs_inode s ! ip)"
    "i_inum (fs_inode s' ! ip) = i_inum (fs_inode s ! ip)" "i_type (fs_inode s' ! ip) = i_type (fs_inode s ! ip)"
    "i_size (fs_inode s' ! ip) = i_size (fs_inode s ! ip)"
  shows "plain_file s' ip"
proof -
  have us: "used s' = used s" by (simp add: used_def fun_eq_iff assms)
  have a: "addr_of s' ip k = addr_of s ip k" for k by (simp add: addr_of_def assms)
  have b: "blockof s' ip k = blockof s ip k" for k by (simp add: blockof_def a assms)
  have o': "owned s' ip = owned s ip" by (simp add: owned_def a b)
  have ib: "iblk s' ip = iblk s ip" by (simp add: iblk_def assms)
  have bo: "block_ok s' ip = block_ok s ip" by (simp add: block_ok_def fun_eq_iff assms us ib)
  have "fs_ok s' = fs_ok s" by (simp add: fs_ok_def assms us)
  then have "file_ok s' ip = file_ok s ip" unfolding file_ok_def assms us o' ib bo b a by simp
  then show ?thesis using assms(1) by (simp add: plain_file_def assms(2-) b)
qed

text \<open>The root directory of a small file system, as the file to run, and three pages of memory.\<close>

lemma tiny_path:
  obtains f0 f1 f2 f3 where "fs_begin_op tiny_dir = Inr f0" "namei no_dev 1 0 [47] f0 = Inr (Some 0, f1)" "ilock 1 0 f1 = Inr f2"
    "plain_file f2 0" "iunlockput 1 0 f2 = Inr f3"
proof -
  let ?i = "fs_inode tiny_dir ! 0"
  have l: "0 < length (fs_inode tiny_dir)" using tiny_dir_ok(1) by (auto simp: dir_ok_def dest: file_okD(2))
  have i: "?i = no_inode\<lparr>i_dev := 1, i_inum := 1, i_ref := 1, i_valid := True, i_type := T_DIR\<rparr>"
    using tiny_file(2) file_okD(2) [OF tiny_file(1)] by (simp add: tiny_dir_def upd_inode_def)
  obtain j js where js: "fs_inode tiny_dir = j # js" using l by (cases "fs_inode tiny_dir") auto
  then have j: "j = no_inode\<lparr>i_dev := 1, i_inum := 1, i_ref := 1, i_valid := True, i_type := T_DIR\<rparr>" using i by simp
  define f0 where "f0 = tiny_dir\<lparr>fs_outstanding := 2\<rparr>"
  define f1 where "f1 = upd_inode 0 (\<lambda>i. i\<lparr>i_ref := 2\<rparr>) f0"
  define f2 where "f2 = upd_inode 0 (\<lambda>i. i\<lparr>i_lock := Some 1\<rparr>) f1"
  define f3 where "f3 = upd_inode 0 (\<lambda>i. i\<lparr>i_lock := None, i_ref := 1\<rparr>) f2"
  have o1: "fs_outstanding tiny_dir = 1" "fs_log tiny_dir = []" by (simp_all add: tiny_dir_def upd_inode_def tiny_fs_def)
  have b: "fs_begin_op tiny_dir = Inr f0" by (simp add: fs_begin_op_def o1 MAXOPBLOCKS_def LOGSIZE_def f0_def)
  have n: "namei no_dev 1 0 [47] f0 = Inr (Some 0, f1)"
    by (simp add: namei_def namex_def iget_def f0_def f1_def js j ROOTDEV_def ROOTINO_def upd_inode_def namex_loop.simps skipelem_def no_inode_def)
  have k: "ilock 1 0 f1 = Inr f2"
    by (simp add: ilock_def acquiresleep_inode_def f0_def f1_def f2_def js j upd_inode_def no_inode_def)
  have p: "plain_file tiny_dir 0" using tiny_dir_ok by (simp add: plain_file_def dir_ok_def T_DIR_def T_DEV_def)
  have p2: "plain_file f2 0" by (rule plain_file_same [OF p]) (simp_all add: f2_def f1_def f0_def upd_inode_def js)
  have u: "iunlockput 1 0 f2 = Inr f3"
    by (simp add: iunlockput_def iunlock_def iput_def acquiresleep_inode_def f0_def f1_def f2_def f3_def js j upd_inode_def no_inode_def)
  show thesis by (rule that [OF b n k p2 u])
qed

theorem exec_all_or_nothing_witness:
  "\<exists>st r st'. x_fs st = tiny_dir \<and> vm_ok (x_mem st) (x_pgdir st) [0x80111000, 0x80110000] \<and> exec no_dev 0x80108000 1 0 [47] [] st = Inr (r, st')"
proof -
  obtain s where s: "vm_ok s 0x80112000 [0x80111000, 0x80110000]" using little_space by blast
  define st where "st = \<lparr>x_fs = tiny_dir, x_mem = s, x_name = replicate 16 0, x_pgdir = 0x80112000, x_sz = 0, x_eip = 0, x_esp = 0\<rparr>"
  have m: "vm_ok (x_mem st) (x_pgdir st) [0x80111000, 0x80110000]" "fs_begin_op (x_fs st) = fs_begin_op tiny_dir" using s by (simp_all add: st_def)
  have d: "data_ok 0x80108000" by (simp add: data_ok_def PGSIZE_def KERNLINK_def KERNBASE_def EXTMEM_def PHYSTOP_def)
  obtain f0 f1 f2 f3 where f: "fs_begin_op tiny_dir = Inr f0" "namei no_dev 1 0 [47] f0 = Inr (Some 0, f1)" "ilock 1 0 f1 = Inr f2"
    "plain_file f2 0" "iunlockput 1 0 f2 = Inr f3" by (rule tiny_path)
  have "args_need [] + 4 * (length ([] :: byte list list) + 4) \<le> 2 * PGSIZE" by (simp add: PGSIZE_def)
  from exec_all_or_nothing [OF m(1) d trans [OF m(2) f(1)] f(2-5) this] have "\<exists>r st'. exec no_dev 0x80108000 1 0 [47] [] st = Inr (r, st')" by blast
  moreover have "x_fs st = tiny_dir" by (simp add: st_def)
  ultimately show ?thesis using m(1) by blast
qed

end
