(* ===== verification/XV6_Mkfs.thy ===== *)
theory XV6_Mkfs
  imports XV6_Dir
begin

text \<open>
  The program that makes the initial file system, \<open>src/project3/xv6-modified/mkfs.c\<close>. The image is the list of its blocks;
  the files to put into it are given by their names and contents. \<open>xshort\<close> and \<open>xint\<close>, which put numbers into
  the byte order of the target, are part of the encodings \<open>bytes16\<close>, \<open>bytes32\<close> and \<open>dinode_bytes\<close>. Writes to the image succeed; a read past
  its end is the error exit of \<open>rsect\<close>. The lemmas show that the image is a file system in the sense of the kernel: the bit
  map marks the blocks in use, the inodes describe the contents of the files, and the root directory names them.
\<close>

subsection \<open>The program\<close>

definition NINODES :: nat where "NINODES = 200"
definition nbitmap :: nat where "nbitmap = FSSIZE div (BSIZE * 8) + 1"
definition ninodeblocks :: nat where "ninodeblocks = NINODES div IPB + 1"
definition nlog :: nat where "nlog = LOGSIZE"
definition nmeta :: nat where "nmeta = 2 + nlog + ninodeblocks + nbitmap"
definition nblocks :: nat where "nblocks = FSSIZE - nmeta"

definition mk_sb :: superblock where
  "mk_sb = \<lparr>sb_size = FSSIZE, sb_nblocks = nblocks, sb_ninodes = NINODES, sb_nlog = nlog, sb_logstart = 2,
     sb_inodestart = 2 + nlog, sb_bmapstart = 2 + nlog + ninodeblocks\<rparr>"

record mkst =
  m_img :: "block list"
  m_freeinode :: nat
  m_freeblock :: nat

definition wsect :: "nat \<Rightarrow> block \<Rightarrow> mkst \<Rightarrow> mkst" where
  "wsect sec buf st =
     st\<lparr>m_img := (if sec < length (m_img st) then (m_img st)[sec := buf]
                  else m_img st @ replicate (sec - length (m_img st)) (replicate BSIZE 0) @ [buf])\<rparr>"

definition rsect :: "nat \<Rightarrow> mkst \<Rightarrow> fault + block" where
  "rsect sec st = (if sec < length (m_img st) then Inr (m_img st ! sec) else Inl (Panic ''read''))"

definition winode :: "nat \<Rightarrow> dinode \<Rightarrow> mkst \<Rightarrow> fault + mkst" where
  "winode inum di st =
     (let bn = IBLOCK inum mk_sb in
      ebind (rsect bn st) (\<lambda>buf. Inr (wsect bn (put_dinode buf (inum mod IPB) di) st)))"

definition rinode :: "nat \<Rightarrow> mkst \<Rightarrow> fault + dinode" where
  "rinode inum st = ebind (rsect (IBLOCK inum mk_sb) st) (\<lambda>buf. Inr (get_dinode buf (inum mod IPB)))"

definition mk_ialloc :: "16 word \<Rightarrow> mkst \<Rightarrow> fault + nat \<times> mkst" where
  "mk_ialloc ty st =
     (let inum = m_freeinode st; st1 = st\<lparr>m_freeinode := inum + 1\<rparr>;
          din = \<lparr>d_type = ty, d_major = 0, d_minor = 0, d_nlink = 1, d_size = 0, d_addrs = replicate (NDIRECT + 1) 0\<rparr>
      in ebind (winode inum din st1) (\<lambda>st2. Inr (inum, st2)))"

definition mk_balloc :: "nat \<Rightarrow> mkst \<Rightarrow> fault + mkst" where
  "mk_balloc n st =
     (if \<not> n < BSIZE * 8 then Inl Assertion
      else Inr (wsect (sb_bmapstart mk_sb) (fold mark_used [0..<n] (replicate BSIZE 0)) st))"

text \<open>\<open>if (din.addrs[k] == 0) din.addrs[k] = freeblock++;\<close>\<close>

definition take_addr :: "nat \<Rightarrow> dinode \<Rightarrow> mkst \<Rightarrow> dinode \<times> mkst" where
  "take_addr k din st =
     (if d_addrs din ! k = 0
      then (din\<lparr>d_addrs := (d_addrs din)[k := m_freeblock st]\<rparr>, st\<lparr>m_freeblock := m_freeblock st + 1\<rparr>)
      else (din, st))"

definition iappend_block :: "dinode \<Rightarrow> nat \<Rightarrow> mkst \<Rightarrow> fault + nat \<times> dinode \<times> mkst" where
  "iappend_block din fbn st =
     (if fbn < NDIRECT
      then (case take_addr fbn din st of (din1, st1) \<Rightarrow> Inr (d_addrs din1 ! fbn, din1, st1))
      else
        (case take_addr NDIRECT din st of (din1, st1) \<Rightarrow>
           let ia = d_addrs din1 ! NDIRECT; o' = 4 * (fbn - NDIRECT) in
           ebind (rsect ia st1) (\<lambda>indirect.
             if rd32 indirect o' = 0
             then
               let indirect1 = wr32 indirect o' (m_freeblock st1);
                   st2 = wsect ia indirect1 (st1\<lparr>m_freeblock := m_freeblock st1 + 1\<rparr>)
               in Inr (rd32 indirect1 o', din1, st2)
             else Inr (rd32 indirect o', din1, st1))))"

function iappend_loop :: "dinode \<Rightarrow> nat \<Rightarrow> byte list \<Rightarrow> mkst \<Rightarrow> fault + dinode \<times> nat \<times> mkst" where
  "iappend_loop din off p st =
     (if p = [] then Inr (din, off, st)
      else
        let fbn = off div BSIZE in
        if \<not> fbn < MAXFILE then Inl Assertion
        else
          ebind (iappend_block din fbn st) (\<lambda>(x, din1, st1).
            let n1 = min (length p) ((fbn + 1) * BSIZE - off) in
            ebind (rsect x st1) (\<lambda>buf.
              iappend_loop din1 (off + n1) (drop n1 p) (wsect x (patch buf (off - fbn * BSIZE) (take n1 p)) st1))))"
  by pat_completeness auto
termination
proof (relation "measure (\<lambda>(din, off, p, st). length p)")
  fix off :: nat and p :: "byte list"
  have "off < (off div BSIZE + 1) * BSIZE" by (simp add: BSIZE_def)
  then show "p \<noteq> [] \<Longrightarrow> x = off div BSIZE \<Longrightarrow> xc = min (length p) ((x + 1) * BSIZE - off) \<Longrightarrow>
      ((din', off + xc, drop xc p, st'), (din, off, p, st)) \<in> measure (\<lambda>(din, off, p, st). length p)"
    for x xc :: nat and din din' :: dinode and st st' :: mkst by (cases p) auto
qed simp

declare iappend_loop.simps [simp del]

definition iappend :: "nat \<Rightarrow> byte list \<Rightarrow> mkst \<Rightarrow> fault + mkst" where
  "iappend inum xp st =
     ebind (rinode inum st) (\<lambda>din.
       ebind (iappend_loop din (d_size din) xp st) (\<lambda>(din1, off, st1). winode inum (din1\<lparr>d_size := off\<rparr>) st1))"

text \<open>\<open>while ((cc = read(fd, buf, sizeof(buf))) > 0) iappend(inum, buf, cc);\<close>\<close>

function append_file :: "nat \<Rightarrow> byte list \<Rightarrow> mkst \<Rightarrow> fault + mkst" where
  "append_file inum c st =
     (if c = [] then Inr st else ebind (iappend inum (take BSIZE c) st) (append_file inum (drop BSIZE c)))"
  by pat_completeness auto
termination
  by (relation "measure (\<lambda>(inum, c, st). length c)") (auto simp: BSIZE_def)

declare append_file.simps [simp del]

definition dirent_bytes :: "nat \<Rightarrow> byte list \<Rightarrow> byte list" where
  "dirent_bytes inum nm = bytes16 (word_of_nat inum) @ nm"

definition strip_underscore :: "byte list \<Rightarrow> byte list" where
  "strip_underscore name = (if name \<noteq> [] \<and> hd name = 95 then tl name else name)"

definition add_file :: "byte list \<times> byte list \<Rightarrow> mkst \<Rightarrow> fault + mkst" where
  "add_file nc st =
     (case nc of (name, c) \<Rightarrow>
        if 47 \<in> set name then Inl Assertion
        else
          ebind (mk_ialloc T_FILE st) (\<lambda>(inum, st1).
            ebind (strncpy DIRSIZ (strip_underscore name @ [0])) (\<lambda>nm.
              ebind (iappend ROOTINO (dirent_bytes inum nm) st1) (append_file inum c))))"

fun add_files :: "(byte list \<times> byte list) list \<Rightarrow> mkst \<Rightarrow> fault + mkst" where
  "add_files [] st = Inr st"
| "add_files (nc # ncs) st = ebind (add_file nc st) (add_files ncs)"

definition sb_bytes :: "superblock \<Rightarrow> byte list" where
  "sb_bytes sb = concat (map bytes32 [sb_size sb, sb_nblocks sb, sb_ninodes sb, sb_nlog sb, sb_logstart sb, sb_inodestart sb, sb_bmapstart sb])"

definition mkfs_start :: mkst where
  "mkfs_start =
     wsect 1 (patch (replicate BSIZE 0) 0 (sb_bytes mk_sb))
       (fold (\<lambda>i. wsect i (replicate BSIZE 0)) [0..<FSSIZE] \<lparr>m_img = [], m_freeinode = 1, m_freeblock = nmeta\<rparr>)"

definition fix_root :: "nat \<Rightarrow> mkst \<Rightarrow> fault + mkst" where
  "fix_root rootino st =
     ebind (rinode rootino st) (\<lambda>din. winode rootino (din\<lparr>d_size := (d_size din div BSIZE + 1) * BSIZE\<rparr>) st)"

definition mkfs :: "(byte list \<times> byte list) list \<Rightarrow> fault + block list" where
  "mkfs files =
     ebind (mk_ialloc T_DIR mkfs_start) (\<lambda>(rootino, st1).
       if rootino \<noteq> ROOTINO then Inl Assertion
       else
         ebind (iappend rootino (dirent_bytes rootino (46 # replicate 13 0)) st1) (\<lambda>st2.
           ebind (iappend rootino (dirent_bytes rootino (46 # 46 # replicate 12 0)) st2) (\<lambda>st3.
             ebind (add_files files st3) (\<lambda>st4.
               ebind (fix_root rootino st4) (\<lambda>st5.
                 ebind (mk_balloc (m_freeblock st5) st5) (\<lambda>st6. Inr (m_img st6)))))))"

subsection \<open>The layout and the encodings\<close>

lemma mk_layout [simp]:
  "sb_size mk_sb = 1000" "sb_nlog mk_sb = 30" "sb_ninodes mk_sb = 200" "sb_bmapstart mk_sb = 58" "nmeta = 59"
  "IBLOCK i mk_sb = i div 8 + 32" "BBLOCK b mk_sb = b div 4096 + 58"
  by (simp_all add: mk_sb_def IBLOCK_def BBLOCK_def nmeta_def nlog_def ninodeblocks_def nbitmap_def FSSIZE_def NINODES_def LOGSIZE_def
      MAXOPBLOCKS_def fs_consts)

lemma rd_skip:
  "length xs = n \<Longrightarrow> n \<le> m \<Longrightarrow> rd16 (xs @ ys) m = rd16 ys (m - n)"
  "length xs = n \<Longrightarrow> n \<le> m \<Longrightarrow> rd32 (xs @ ys) m = rd32 ys (m - n)"
  by (simp_all add: rd16_def rd32_def nth_append Suc_diff_le)

lemma rd32_bytes32: "x < 2 ^ 32 \<Longrightarrow> rd32 (bytes32 x @ ys) 0 = x"
  using rd32_wr32_same [of 0 "replicate 4 0 @ ys" x] by (simp add: wr32_def patch_def)

lemma rd32_words: "\<forall>x \<in> set xs. x < 2 ^ 32 \<Longrightarrow> j < length xs \<Longrightarrow> rd32 (concat (map bytes32 xs) @ ys) (4 * j) = xs ! j"
proof (induction xs arbitrary: j)
  case (Cons x xs)
  show ?case
  proof (cases j)
    case 0
    then show ?thesis using Cons.prems rd32_bytes32 [of x "concat (map bytes32 xs) @ ys"] by simp
  next
    case (Suc i)
    then show ?thesis using Cons.prems Cons.IH [of i] by (simp add: rd_skip)
  qed
qed simp

lemma rd_patch:
  assumes "off + length ys \<le> length xs"
  shows "j + 2 \<le> length ys \<Longrightarrow> rd16 (patch xs off ys) (off + j) = rd16 ys j"
    "j + 4 \<le> length ys \<Longrightarrow> rd32 (patch xs off ys) (off + j) = rd32 ys j"
    "i + 2 \<le> off \<or> off + length ys \<le> i \<and> i + 2 \<le> length xs \<Longrightarrow> rd16 (patch xs off ys) i = rd16 xs i"
    "i + 4 \<le> off \<or> off + length ys \<le> i \<and> i + 4 \<le> length xs \<Longrightarrow> rd32 (patch xs off ys) i = rd32 xs i"
  using assms by (auto simp: rd16_def rd32_def nth_patch)

definition dinode_fits :: "dinode \<Rightarrow> bool" where
  "dinode_fits di \<longleftrightarrow> length (d_addrs di) = 13 \<and> d_size di < 2 ^ 32 \<and> (\<forall>a \<in> set (d_addrs di). a < 2 ^ 32)"

lemma rd_dinode_bytes:
  assumes "dinode_fits di"
  shows "rd16 (dinode_bytes di) 0 = d_type di" "rd16 (dinode_bytes di) 2 = d_major di" "rd16 (dinode_bytes di) 4 = d_minor di"
    "rd16 (dinode_bytes di) 6 = d_nlink di" "rd32 (dinode_bytes di) 8 = d_size di"
    "j < 13 \<Longrightarrow> rd32 (dinode_bytes di) (12 + 4 * j) = d_addrs di ! j"
proof -
  have l: "length (bytes16 w) = 2" for w by (simp add: bytes16_def)
  show "rd16 (dinode_bytes di) 0 = d_type di" by (simp add: dinode_bytes_def rd16_bytes16)
  show "rd16 (dinode_bytes di) 2 = d_major di" "rd16 (dinode_bytes di) 4 = d_minor di" "rd16 (dinode_bytes di) 6 = d_nlink di"
    by (simp_all add: dinode_bytes_def rd_skip(1) [OF l] rd16_bytes16)
  show "rd32 (dinode_bytes di) 8 = d_size di"
    using assms by (simp add: dinode_bytes_def rd_skip(2) [OF l] rd32_bytes32 dinode_fits_def)
  show "rd32 (dinode_bytes di) (12 + 4 * j) = d_addrs di ! j" if "j < 13"
    using assms that rd32_words [of "d_addrs di" j "[]"]
    by (simp add: dinode_bytes_def rd_skip(2) [OF l] rd_skip(2) [OF length_bytes32] dinode_fits_def)
qed

lemma get_put_dinode:
  assumes d: "length d = 512" and k: "k < 8" "l < 8" and di: "dinode_fits di"
  shows "get_dinode (put_dinode d k di) l = (if l = k then di else get_dinode d l)"
proof -
  have l: "length (dinode_bytes di) = 64" using length_dinode_bytes di by (simp add: dinode_fits_def)
  then have fit: "64 * k + length (dinode_bytes di) \<le> length d" using d k by simp
  show ?thesis
  proof (cases "l = k")
    case True
    have "map (\<lambda>j. rd32 (put_dinode d k di) (64 * k + 12 + 4 * j)) [0..<13] = d_addrs di"
      by (rule nth_equalityI)
        (use di rd_patch(2) [OF fit, where j = "12 + 4 * i" for i] in \<open>simp_all add: put_dinode_def rd_dinode_bytes [OF di] l dinode_fits_def add.assoc\<close>)
    then show ?thesis
      using True rd_patch(1) [OF fit, of 0] rd_patch(1) [OF fit, of 2] rd_patch(1) [OF fit, of 4] rd_patch(1) [OF fit, of 6] rd_patch(2) [OF fit, of 8]
      by (intro dinode.equality) (simp_all add: get_dinode_def Let_def fs_consts put_dinode_def rd_dinode_bytes [OF di] l)
  next
    case False
    then have sep: "64 * l + 64 \<le> 64 * k \<or> 64 * k + 64 \<le> 64 * l \<and> 64 * l + 64 \<le> 512" using k by linarith
    have r: "rd16 (patch d (64 * k) (dinode_bytes di)) (64 * l + j) = rd16 d (64 * l + j)" if "j \<le> 62" for j
      by (rule rd_patch(3) [OF fit]) (use that sep l d in linarith)
    have r': "rd32 (patch d (64 * k) (dinode_bytes di)) (64 * l + j) = rd32 d (64 * l + j)" if "j \<le> 60" for j
      by (rule rd_patch(4) [OF fit]) (use that sep l d in linarith)
    have "map (\<lambda>j. rd32 (put_dinode d k di) (64 * l + 12 + 4 * j)) [0..<13] = map (\<lambda>j. rd32 d (64 * l + 12 + 4 * j)) [0..<13]"
      by (rule map_cong [OF refl]) (use r' [where j = "12 + 4 * i" for i] in \<open>simp add: put_dinode_def add.assoc\<close>)
    then show ?thesis
      using False r [of 0] r [of 2] r [of 4] r [of 6] r' [of 8]
      by (intro dinode.equality) (simp_all add: get_dinode_def Let_def fs_consts put_dinode_def)
  qed
qed
subsection \<open>The blocks of the files\<close>

text \<open>The block in slot \<open>k\<close> of an inode: block \<open>k\<close> of the file for \<open>k < 140\<close>, the indirect block for \<open>k = 140\<close>. A file of \<open>n\<close> blocks
  has its first \<open>n\<close> slots, and the indirect block from 13 blocks on.\<close>

definition slot :: "block list \<Rightarrow> dinode \<Rightarrow> nat \<Rightarrow> nat" where
  "slot img di k =
     (if k < 12 then d_addrs di ! k
      else if k = 140 then d_addrs di ! 12
      else if d_addrs di ! 12 = 0 then 0 else rd32 (img ! (d_addrs di ! 12)) (4 * (k - 12)))"

definition has :: "nat \<Rightarrow> nat \<Rightarrow> bool" where
  "has n k \<longleftrightarrow> k < 140 \<and> k < n \<or> k = 140 \<and> 12 < n"

definition cost :: "nat \<Rightarrow> nat" where
  "cost n = (if 12 < n then n + 1 else n)"

definition nblk :: "nat \<Rightarrow> nat" where
  "nblk len = (len + 511) div 512"

definition pad :: "byte list \<Rightarrow> nat \<Rightarrow> byte" where
  "pad c o' = (if o' < length c then c ! o' else 0)"

text \<open>The image holds the files in \<open>I\<close>: file \<open>i\<close> has the inode \<open>dis i\<close>, \<open>nb i\<close> blocks and the contents \<open>cs i\<close>, followed by
  zeros. All blocks in use are different and lie between the metadata and \<open>fb\<close>; the blocks from \<open>fb\<close> on are zero.\<close>

definition files_ok :: "block list \<Rightarrow> nat \<Rightarrow> nat set \<Rightarrow> (nat \<Rightarrow> dinode) \<Rightarrow> (nat \<Rightarrow> nat) \<Rightarrow> (nat \<Rightarrow> byte list) \<Rightarrow> bool" where
  "files_ok img fb I dis nb cs \<longleftrightarrow>
     length img = 1000 \<and> (\<forall>b < 1000. length (img ! b) = 512) \<and> finite I \<and> fb = 59 + (\<Sum>i \<in> I. cost (nb i)) \<and> fb \<le> 1000 \<and>
     (\<forall>b < 1000. fb \<le> b \<longrightarrow> img ! b = replicate 512 0) \<and>
     (\<forall>i \<in> I. length (d_addrs (dis i)) = 13 \<and> nb i \<le> 140 \<and> length (cs i) \<le> 512 * nb i) \<and>
     (\<forall>i \<in> I. \<forall>k \<le> 140. if has (nb i) k then 59 \<le> slot img (dis i) k \<and> slot img (dis i) k < fb else slot img (dis i) k = 0) \<and>
     (\<forall>i \<in> I. \<forall>o' < 512 * nb i. img ! slot img (dis i) (o' div 512) ! (o' mod 512) = pad (cs i) o') \<and>
     (\<forall>i \<in> I. \<forall>j \<in> I. \<forall>k l. has (nb i) k \<longrightarrow> has (nb j) l \<longrightarrow> slot img (dis i) k = slot img (dis j) l \<longrightarrow> i = j \<and> k = l)"

lemma files_okD:
  assumes "files_ok img fb I dis nb cs"
  shows "length img = 1000" "b < 1000 \<Longrightarrow> length (img ! b) = 512" "finite I" "fb = 59 + (\<Sum>i \<in> I. cost (nb i))" "fb \<le> 1000"
    "b < 1000 \<Longrightarrow> fb \<le> b \<Longrightarrow> img ! b = replicate 512 0"
    "i \<in> I \<Longrightarrow> length (d_addrs (dis i)) = 13" "i \<in> I \<Longrightarrow> nb i \<le> 140" "i \<in> I \<Longrightarrow> length (cs i) \<le> 512 * nb i"
    "i \<in> I \<Longrightarrow> has (nb i) k \<Longrightarrow> 59 \<le> slot img (dis i) k \<and> slot img (dis i) k < fb"
    "i \<in> I \<Longrightarrow> k \<le> 140 \<Longrightarrow> \<not> has (nb i) k \<Longrightarrow> slot img (dis i) k = 0"
    "i \<in> I \<Longrightarrow> o' < 512 * nb i \<Longrightarrow> img ! slot img (dis i) (o' div 512) ! (o' mod 512) = pad (cs i) o'"
    "i \<in> I \<Longrightarrow> j \<in> I \<Longrightarrow> has (nb i) k \<Longrightarrow> has (nb j) l \<Longrightarrow> slot img (dis i) k = slot img (dis j) l \<Longrightarrow> i = j \<and> k = l"
proof -
  have "k \<le> 140" if "has (nb i) k" for i k using that by (auto simp: has_def)
  then show "i \<in> I \<Longrightarrow> has (nb i) k \<Longrightarrow> 59 \<le> slot img (dis i) k \<and> slot img (dis i) k < fb"
    using assms unfolding files_ok_def by meson
qed (use assms in \<open>auto simp: files_ok_def\<close>)

lemma files_okI:
  assumes "length img = 1000" "\<And>b. b < 1000 \<Longrightarrow> length (img ! b) = 512" "finite I" "fb = 59 + (\<Sum>i \<in> I. cost (nb i))" "fb \<le> 1000"
    "\<And>b. b < 1000 \<Longrightarrow> fb \<le> b \<Longrightarrow> img ! b = replicate 512 0"
    "\<And>i. i \<in> I \<Longrightarrow> length (d_addrs (dis i)) = 13" "\<And>i. i \<in> I \<Longrightarrow> nb i \<le> 140" "\<And>i. i \<in> I \<Longrightarrow> length (cs i) \<le> 512 * nb i"
    "\<And>i k. i \<in> I \<Longrightarrow> has (nb i) k \<Longrightarrow> 59 \<le> slot img (dis i) k \<and> slot img (dis i) k < fb"
    "\<And>i k. i \<in> I \<Longrightarrow> k \<le> 140 \<Longrightarrow> \<not> has (nb i) k \<Longrightarrow> slot img (dis i) k = 0"
    "\<And>i o'. i \<in> I \<Longrightarrow> o' < 512 * nb i \<Longrightarrow> img ! slot img (dis i) (o' div 512) ! (o' mod 512) = pad (cs i) o'"
    "\<And>i j k l. i \<in> I \<Longrightarrow> j \<in> I \<Longrightarrow> has (nb i) k \<Longrightarrow> has (nb j) l \<Longrightarrow> slot img (dis i) k = slot img (dis j) l \<Longrightarrow> i = j \<and> k = l"
  shows "files_ok img fb I dis nb cs"
  unfolding files_ok_def using assms by (intro conjI ballI allI impI) (simp_all split: if_splits)

lemma slot_frame:
  "(d_addrs di ! 12 \<noteq> 0 \<Longrightarrow> img' ! (d_addrs di ! 12) = img ! (d_addrs di ! 12)) \<Longrightarrow> slot img' di k = slot img di k"
  by (auto simp: slot_def)

lemma slot_140: "slot img di 140 = d_addrs di ! 12"
  by (simp add: slot_def)

lemma sum_upd: "finite I \<Longrightarrow> i \<in> I \<Longrightarrow> (\<Sum>j \<in> I. cost ((nb(i := m)) j)) + cost (nb i) = (\<Sum>j \<in> I. cost (nb j)) + cost m"
  by (simp add: sum.remove [of I i])

text \<open>The indirect block of another file, or a block that is not an indirect block at all, leaves a block map alone.\<close>

lemma slot_other:
  assumes ok: "files_ok img fb I dis nb cs" and j: "j \<in> I" and a: "\<And>l. l = 140 \<Longrightarrow> has (nb j) l \<Longrightarrow> slot img (dis j) l \<noteq> a"
  shows "slot (img[a := d]) (dis j) k = slot img (dis j) k"
proof (rule slot_frame)
  assume nz: "d_addrs (dis j) ! 12 \<noteq> 0"
  then have "has (nb j) 140" using files_okD(11) [OF ok j, of 140] by (auto simp: slot_140)
  then show "img[a := d] ! (d_addrs (dis j) ! 12) = img ! (d_addrs (dis j) ! 12)" using a [of 140] by (simp add: slot_140)
qed

text \<open>File \<open>i\<close> gets its next block \<open>x\<close>, which is zero; for block 12 it also gets the indirect block.\<close>

lemma files_ok_grow:
  assumes ok: "files_ok img fb I dis nb cs" and i: "i \<in> I" and n: "nb i = n" "n < 140" and fb': "fb' + cost n = fb + cost (Suc n)" "fb' \<le> 1000"
    and len: "length img' = 1000" "\<And>b. b < 1000 \<Longrightarrow> length (img' ! b) = 512" "length (d_addrs di') = 13"
    and other: "\<And>j l. j \<in> I \<Longrightarrow> j \<noteq> i \<Longrightarrow> slot img' (dis j) l = slot img (dis j) l"
    and old: "\<And>l. has n l \<Longrightarrow> slot img' di' l = slot img (dis i) l"
    and absent: "\<And>l. l \<le> 140 \<Longrightarrow> \<not> has (Suc n) l \<Longrightarrow> slot img' di' l = 0"
    and new: "\<And>l. has (Suc n) l \<Longrightarrow> \<not> has n l \<Longrightarrow> fb \<le> slot img' di' l \<and> slot img' di' l < fb'"
    and neq: "\<And>k l. has (Suc n) k \<Longrightarrow> \<not> has n k \<Longrightarrow> has (Suc n) l \<Longrightarrow> \<not> has n l \<Longrightarrow> slot img' di' k = slot img' di' l \<Longrightarrow> k = l"
    and data: "\<And>j l. j \<in> I \<Longrightarrow> l < nb j \<Longrightarrow> img' ! slot img (dis j) l = img ! slot img (dis j) l"
    and zero: "img' ! slot img' di' n = replicate 512 0" "\<And>b. b < 1000 \<Longrightarrow> fb' \<le> b \<Longrightarrow> img' ! b = replicate 512 0"
  shows "files_ok img' fb' I (dis(i := di')) (nb(i := Suc n)) cs"
proof -
  note D = files_okD [OF ok]
  let ?dis = "dis(i := di')" and ?nb = "nb(i := Suc n)"
  have le: "fb \<le> fb'" using fb'(1) by (auto simp: cost_def split: if_splits)
  have old': "slot img' (?dis j) l = slot img (dis j) l" if "j \<in> I" "has (nb j) l" for j l
    using that other old n(1) by (cases "j = i") auto
  have abs: "slot img' (?dis j) l = 0" if "j \<in> I" "l \<le> 140" "\<not> has (?nb j) l" for j l
    using that other absent D(11) by (cases "j = i") auto
  have isnew: "j = i \<and> has (Suc n) l \<and> \<not> has n l" if "has (?nb j) l" "\<not> has (nb j) l" for j l
    using that n(1) by (cases "j = i") auto
  have range: "59 \<le> slot img' (?dis j) l \<and> slot img' (?dis j) l < fb'" if "j \<in> I" "has (?nb j) l" for j l
  proof (cases "has (nb j) l")
    case True
    then show ?thesis using D(10) [OF that(1) True] old' [OF that(1) True] le by simp
  next
    case False
    then show ?thesis using isnew [OF that(2) False] new [of l] D(4) by simp
  qed
  have inj: "j = j' \<and> k = l" if "j \<in> I" "j' \<in> I" "has (?nb j) k" "has (?nb j') l" "slot img' (?dis j) k = slot img' (?dis j') l" for j j' k l
  proof -
    have lo: "slot img' (?dis j) k < fb" if "j \<in> I" "has (nb j) k" for j k using old' [OF that] D(10) [OF that] by simp
    have hi: "fb \<le> slot img' (?dis j) k" if "has (?nb j) k" "\<not> has (nb j) k" for j k using isnew [OF that] new by auto
    show ?thesis
    proof (cases "has (nb j) k")
      case True
      then have "has (nb j') l" using lo [OF that(1)] hi [OF that(4)] that(5) by fastforce
      then show ?thesis using D(13) [OF that(1,2) True] old' True that by simp
    next
      case False
      then have F: "\<not> has (nb j') l" using lo [OF that(2)] hi [OF that(3)] that(5) by fastforce
      show ?thesis using isnew [OF that(3) False] isnew [OF that(4) F] neq [of k l] that(5) by auto
    qed
  qed
  have bytes: "img' ! slot img' (?dis j) (o' div 512) ! (o' mod 512) = pad (cs j) o'" if j: "j \<in> I" "o' < 512 * ?nb j" for j o'
  proof (cases "o' < 512 * nb j")
    case True
    then have l: "o' div 512 < nb j" by (simp add: div_less_iff_less_mult mult.commute)
    then have "has (nb j) (o' div 512)" using D(8) [OF j(1)] by (simp add: has_def)
    then show ?thesis using old' j data [OF j(1) l] D(12) [OF j(1) True] by simp
  next
    case False
    then have ji: "j = i" using j(2) by (auto split: if_splits)
    have "o' div 512 = n" by (rule div_nat_eqI) (use ji False j(2) n(1) in simp_all)
    then show ?thesis using zero(1) False ji n(1) D(9) [OF i] by (simp add: pad_def)
  qed
  have s: "fb' = 59 + (\<Sum>j \<in> I. cost (?nb j))" using sum_upd [OF D(3) i, of nb "Suc n"] D(4) n(1) fb'(1) by simp
  show ?thesis
  proof (rule files_okI [OF len(1,2) D(3) s fb'(2) zero(2)])
    fix j assume j: "j \<in> I"
    show "length (d_addrs (?dis j)) = 13" "?nb j \<le> 140" "length (cs j) \<le> 512 * ?nb j"
      using D(7-9) [OF j] len(3) n by auto
  qed (use range abs bytes inj in blast)+
qed

text \<open>Bytes are put at the end of file \<open>i\<close>, inside its last block.\<close>

lemma files_ok_write:
  assumes ok: "files_ok img fb I dis nb cs" and i: "i \<in> I" and k: "length (cs i) div 512 = k" "k < nb i" "length (cs i) mod 512 + length ys \<le> 512"
    and a: "a = slot img (dis i) k"
  shows "files_ok (img[a := patch (img ! a) (length (cs i) mod 512) ys]) fb I dis nb (cs(i := cs i @ ys))"
proof -
  note D = files_okD [OF ok]
  let ?off = "length (cs i)" and ?img = "img[a := patch (img ! a) (length (cs i) mod 512) ys]"
  have hk: "has (nb i) k" using k(2) D(8) [OF i] by (simp add: has_def)
  have a1: "59 \<le> a" "a < fb" "a < 1000" using D(10) [OF i hk] D(5) a by auto
  have sl: "slot ?img (dis j) l = slot img (dis j) l" if "j \<in> I" for j l
    by (rule slot_other [OF ok that]) (use D(13) [OF that i _ hk, of 140] a k(2) D(8) [OF i] in auto)
  have split: "?off = 512 * k + ?off mod 512" using k(1) mult_div_mod_eq [of 512 ?off] by simp
  have bytes: "?img ! slot ?img (dis j) (o' div 512) ! (o' mod 512) = pad ((cs(i := cs i @ ys)) j) o'" if j: "j \<in> I" "o' < 512 * nb j" for j o'
  proof -
    have hl: "has (nb j) (o' div 512)" using j D(8) [OF j(1)] by (simp add: has_def div_less_iff_less_mult mult.commute)
    note old = D(12) [OF j]
    show ?thesis
    proof (cases "slot img (dis j) (o' div 512) = a")
      case True
      then have e: "j = i" "o' div 512 = k" using D(13) [OF j(1) i hl hk] a by simp_all
      then have o': "o' = 512 * k + o' mod 512" using mult_div_mod_eq [of 512 o'] by simp
      have rel: "?off mod 512 \<le> o' mod 512 \<longleftrightarrow> ?off \<le> o'" "o' mod 512 < ?off mod 512 + length ys \<longleftrightarrow> o' < ?off + length ys"
        "o' mod 512 - ?off mod 512 = o' - ?off" using split o' by linarith+
      have "?img ! a ! (o' mod 512) = (if ?off \<le> o' \<and> o' < ?off + length ys then ys ! (o' - ?off) else img ! a ! (o' mod 512))"
        using a1 D(1,2) k(3) by (simp add: nth_patch rel)
      then show ?thesis using True old e(1) sl [OF j(1)] by (auto simp: pad_def nth_append)
    next
      case False
      have "o' < ?off \<or> ?off + length ys \<le> o'" if "j = i"
      proof (rule ccontr)
        assume "\<not> (o' < ?off \<or> ?off + length ys \<le> o')"
        then have "o' div 512 = k" by (intro div_nat_eqI) (use split k(3) in simp_all)
        then show False using False that a by simp
      qed
      then show ?thesis using old False sl [OF j(1)] by (auto simp: pad_def nth_append)
    qed
  qed
  show ?thesis
  proof (rule files_okI)
    show "length (?img ! b) = 512" if "b < 1000" for b using that D(1,2) a1 k(3) by (simp add: nth_list_update)
    show "?img ! b = replicate 512 0" if "b < 1000" "fb \<le> b" for b using that D(6) a1 by (simp add: nth_list_update)
    show "length ((cs(i := cs i @ ys)) j) \<le> 512 * nb j" if "j \<in> I" for j using D(9) [OF that] split k by simp
    show "59 \<le> slot ?img (dis j) l \<and> slot ?img (dis j) l < fb" if "j \<in> I" "has (nb j) l" for j l using D(10) [OF that] sl [OF that(1)] by simp
    show "slot ?img (dis j) l = 0" if "j \<in> I" "l \<le> 140" "\<not> has (nb j) l" for j l using D(11) [OF that] sl [OF that(1)] by simp
    show "j = j' \<and> l = l'" if "j \<in> I" "j' \<in> I" "has (nb j) l" "has (nb j') l'" "slot ?img (dis j) l = slot ?img (dis j') l'" for j j' l l'
      using D(13) [OF that(1-4)] that(5) sl [OF that(1)] sl [OF that(2)] by simp
  qed (use D bytes in simp_all)
qed
subsection \<open>The next block of a file\<close>

lemma rsect_in: "sec < length (m_img st) \<Longrightarrow> rsect sec st = Inr (m_img st ! sec)"
  by (simp add: rsect_def)

lemma wsect_in: "sec < length (m_img st) \<Longrightarrow> wsect sec d st = st\<lparr>m_img := (m_img st)[sec := d]\<rparr>"
  by (simp add: wsect_def)

lemma cost_Suc: "cost (Suc n) = (if n = 12 then cost n + 2 else cost n + 1)"
  by (simp add: cost_def)

lemma files_ok_fb: "files_ok img fb I dis nb cs \<Longrightarrow> 59 \<le> fb"
  using files_okD(4) by fastforce

lemma grow_direct:
  assumes ok: "files_ok img fb I dis nb cs" and i: "i \<in> I" and n: "nb i = n" "n < 12" and fb: "fb < 1000"
  shows "files_ok img (Suc fb) I (dis(i := (dis i)\<lparr>d_addrs := (d_addrs (dis i))[n := fb]\<rparr>)) (nb(i := Suc n)) cs"
proof -
  note D = files_okD [OF ok]
  let ?di = "(dis i)\<lparr>d_addrs := (d_addrs (dis i))[n := fb]\<rparr>"
  have sl: "slot img ?di l = (if l = n then fb else slot img (dis i) l)" for l
    using n(2) D(7) [OF i] by (simp add: slot_def)
  have h: "has (Suc n) l \<longleftrightarrow> has n l \<or> l = n" "has n l \<Longrightarrow> l \<noteq> n" for l using n(2) by (auto simp: has_def)
  show ?thesis
  proof (rule files_ok_grow [OF ok i n(1)])
    show "Suc fb + cost n = fb + cost (Suc n)" using n(2) by (simp add: cost_Suc)
    show "slot img ?di l = 0" if "l \<le> 140" "\<not> has (Suc n) l" for l
      using that h D(11) [OF i that(1)] n(1) by (simp add: sl)
    show "img ! slot img ?di n = replicate 512 0" using D(6) fb by (simp add: sl)
  qed (use D(1-3,6-8) n(2) fb h i in \<open>auto simp: sl\<close>)
qed

lemma grow_indirect:
  assumes ok: "files_ok img fb I dis nb cs" and i: "i \<in> I" and n: "nb i = n" "12 < n" "n < 140" and fb: "fb < 1000"
    and a: "a = d_addrs (dis i) ! 12"
  shows "files_ok (img[a := wr32 (img ! a) (4 * (n - 12)) fb]) (Suc fb) I dis (nb(i := Suc n)) cs \<and> 59 \<le> a \<and> a < fb \<and>
    rd32 (img ! a) (4 * (n - 12)) = 0"
proof -
  note D = files_okD [OF ok]
  let ?img = "img[a := wr32 (img ! a) (4 * (n - 12)) fb]"
  have ha: "has (nb i) 140" "slot img (dis i) 140 = a" using n by (simp_all add: has_def slot_140 a)
  have ab: "59 \<le> a" "a < fb" "a < 1000" "length (img ! a) = 512" using D(10) [OF i ha(1)] D(2) [of a] ha(2) fb by auto
  have other: "slot ?img (dis j) l = slot img (dis j) l" if "j \<in> I" "j \<noteq> i" for j l
    by (rule slot_other [OF ok that(1)]) (use D(13) [OF that(1) i _ ha(1)] ha(2) that(2) in auto)
  have sl: "slot ?img (dis i) l = (if l = n then fb else slot img (dis i) l)" if "l \<le> 140" for l
  proof -
    have "4 * (n - 12) + 4 \<le> 4 * (l - 12) \<or> 4 * (l - 12) + 4 \<le> 4 * (n - 12)" if "\<not> l < 12" "l \<noteq> n" using that n(2) by auto
    then show ?thesis
      using that n(2,3) D(1) ab fb a rd32_wr32_same [of "4 * (n - 12)" "img ! a" fb] rd32_wr32_other [of "4 * (n - 12)" "img ! a" "4 * (l - 12)" fb]
      by (auto simp: slot_def)
  qed
  have h: "has (Suc n) l \<longleftrightarrow> has n l \<or> l = n" "has n l \<Longrightarrow> l \<noteq> n" "has n l \<Longrightarrow> l \<le> 140" for l using n(2,3) by (auto simp: has_def)
  have "files_ok ?img (Suc fb) I (dis(i := dis i)) (nb(i := Suc n)) cs"
  proof (rule files_ok_grow [OF ok i n(1)])
    show "Suc fb + cost n = fb + cost (Suc n)" using n(2) by (simp add: cost_Suc)
    show "slot ?img (dis i) l = 0" if "l \<le> 140" "\<not> has (Suc n) l" for l
      using that h D(11) [OF i that(1)] n(1) by (simp add: sl)
    show "?img ! slot ?img (dis i) n = replicate 512 0" using D(6) fb n(3) ab by (simp add: sl)
    show "?img ! slot img (dis j) l = img ! slot img (dis j) l" if j: "j \<in> I" "l < nb j" for j l
    proof -
      have "has (nb j) l" "l \<noteq> 140" using j D(8) [OF j(1)] by (simp_all add: has_def)
      then have "slot img (dis j) l \<noteq> a" using D(13) [OF j(1) i _ ha(1)] ha(2) by auto
      then show ?thesis by simp
    qed
    show "length (?img ! b) = 512" if "b < 1000" for b using that D(1,2) ab n(2,3) by (simp add: nth_list_update)
    show "?img ! b = replicate 512 0" if "b < 1000" "Suc fb \<le> b" for b using that D(6) ab by (simp add: nth_list_update)
  qed (use D(1-3,6-8) n(2,3) fb h i other in \<open>simp_all add: sl\<close>)
  moreover have "rd32 (img ! a) (4 * (n - 12)) = 0"
    using D(11) [OF i, of n] n ab a by (auto simp: slot_def has_def split: if_splits)
  ultimately show ?thesis using ab by simp
qed

lemma grow_first_indirect:
  assumes ok: "files_ok img fb I dis nb cs" and i: "i \<in> I" and n: "nb i = 12" and fb: "Suc fb < 1000"
  shows "files_ok (img[fb := wr32 (img ! fb) 0 (Suc fb)]) (Suc (Suc fb)) I (dis(i := (dis i)\<lparr>d_addrs := (d_addrs (dis i))[12 := fb]\<rparr>)) (nb(i := 13)) cs \<and>
    d_addrs (dis i) ! 12 = 0 \<and> rd32 (img ! fb) 0 = 0"
proof -
  note D = files_okD [OF ok] and fb59 = files_ok_fb [OF ok]
  let ?img = "img[fb := wr32 (img ! fb) 0 (Suc fb)]" and ?di = "(dis i)\<lparr>d_addrs := (d_addrs (dis i))[12 := fb]\<rparr>"
  have z: "img ! fb = replicate 512 0" using D(6) fb by simp
  have lo: "slot img (dis j) l < fb" if "j \<in> I" "has (nb j) l" for j l using D(10) [OF that] by simp
  have other: "slot ?img (dis j) l = slot img (dis j) l" if "j \<in> I" for j l
    by (rule slot_other [OF ok that]) (use lo [OF that] in blast)
  have sl: "slot ?img ?di l = (if l = 12 then Suc fb else if l = 140 then fb else if l < 12 then slot img (dis i) l else 0)" if "l \<le> 140" for l
    using that D(1) D(7) [OF i] fb fb59 rd32_wr32_same [of 0 "replicate 512 0" "Suc fb"] rd32_wr32_other [of 0 "replicate 512 0" "4 * (l - 12)" "Suc fb"]
      rd32_zero [of "4 * (l - 12)"]
    by (auto simp: slot_def z)
  have h: "has 13 l \<longleftrightarrow> l < 12 \<or> l = 12 \<or> l = 140" "has 12 l \<longleftrightarrow> l < 12" for l by (auto simp: has_def)
  have "files_ok ?img (Suc (Suc fb)) I (dis(i := ?di)) (nb(i := Suc 12)) cs"
  proof (rule files_ok_grow [OF ok i n])
    show "Suc (Suc fb) + cost 12 = fb + cost (Suc 12)" by (simp add: cost_def)
    show "slot ?img ?di l = 0" if "l \<le> 140" "\<not> has (Suc 12) l" for l
      using that h by (simp add: sl)
    show "?img ! slot ?img ?di 12 = replicate 512 0" using D(6) [of "Suc fb"] fb sl [of 12] by simp
    show "?img ! slot img (dis j) l = img ! slot img (dis j) l" if j: "j \<in> I" "l < nb j" for j l
      using lo [OF j(1), of l] j D(8) [OF j(1)] by (simp add: has_def)
    show "length (?img ! b) = 512" if "b < 1000" for b using that D(1,2) fb by (simp add: nth_list_update)
    show "?img ! b = replicate 512 0" if "b < 1000" "Suc (Suc fb) \<le> b" for b using that D(6) fb by (simp add: nth_list_update)
    show "k = l" if "has (Suc 12) k" "\<not> has 12 k" "has (Suc 12) l" "\<not> has 12 l" "slot ?img ?di k = slot ?img ?di l" for k l
    proof -
      have "k = 12 \<or> k = 140" "l = 12 \<or> l = 140" using that(1-4) h by auto
      then show ?thesis using that(5) sl [of 12] sl [of 140] by auto
    qed
    show "slot ?img ?di l = slot img (dis i) l" if "has 12 l" for l using that h sl [of l] by simp
    show "fb \<le> slot ?img ?di l \<and> slot ?img ?di l < Suc (Suc fb)" if "has (Suc 12) l" "\<not> has 12 l" for l
    proof -
      have "l = 12 \<or> l = 140" using that h by auto
      then show ?thesis using sl [of 12] sl [of 140] by auto
    qed
  qed (use D(1) D(7) [OF i] fb other in simp_all)
  moreover have "d_addrs (dis i) ! 12 = 0" using D(11) [OF i, of 140] n by (simp add: slot_140 has_def)
  ultimately show ?thesis using rd32_zero [of 0] by (simp add: z)
qed
lemma nblk_cases: "nblk len = len div 512 \<and> len mod 512 = 0 \<or> nblk len = Suc (len div 512) \<and> len mod 512 \<noteq> 0"
proof -
  define q r where "q = len div 512" and "r = len mod 512"
  have "len = 512 * q + r" "r < 512" by (simp_all add: q_def r_def)
  moreover have "(512 * q + r + 511) div 512 = (if r = 0 then q else Suc q)" if "r < 512"
    by (rule div_nat_eqI) (use that in auto)
  ultimately show ?thesis unfolding nblk_def q_def [symmetric] r_def [symmetric] by simp
qed

definition meta_same :: "block list \<Rightarrow> block list \<Rightarrow> bool" where
  "meta_same img img' \<longleftrightarrow> (\<forall>b < 59. img' ! b = img ! b)"

lemma iappend_block_ok:
  assumes ok: "files_ok (m_img st) (m_freeblock st) I dis nb cs" and i: "i \<in> I"
    and n: "n = length (cs i) div 512" "n < 140" "nb i = nblk (length (cs i))" and room: "m_freeblock st + cost (Suc n) \<le> 1000 + cost (nb i)"
  obtains di' st' where "iappend_block (dis i) n st = Inr (slot (m_img st') di' n, di', st')"
    "files_ok (m_img st') (m_freeblock st') I (dis(i := di')) (nb(i := Suc n)) cs" "m_freeinode st' = m_freeinode st"
    "meta_same (m_img st) (m_img st')" "di'\<lparr>d_addrs := []\<rparr> = (dis i)\<lparr>d_addrs := []\<rparr>"
proof -
  note D = files_okD [OF ok] and fb59 = files_ok_fb [OF ok]
  let ?img = "m_img st" and ?fb = "m_freeblock st" and ?a = "d_addrs (dis i) ! 12"
  note res = that
  consider "nb i = Suc n" | "nb i = n" "n < 12" | "nb i = n" "n = 12" | "nb i = n" "12 < n"
    using nblk_cases [of "length (cs i)"] n by fastforce
  then show ?thesis
  proof cases
    case 1
    have h: "has (nb i) n" using 1 n(2) by (simp add: has_def)
    have sl: "59 \<le> slot ?img (dis i) n" using D(10) [OF i h] by simp
    have ia: "?a \<noteq> 0" "?a < 1000" if "\<not> n < 12"
      using D(10) [OF i, of 140] D(5) that 1 n(2) by (auto simp: slot_140 has_def)
    have "iappend_block (dis i) n st = Inr (slot ?img (dis i) n, dis i, st)"
      using sl ia n(2) D(1) by (auto simp: iappend_block_def take_addr_def fs_consts slot_def rsect_in)
    moreover have "files_ok ?img ?fb I (dis(i := dis i)) (nb(i := Suc n)) cs" using ok 1 by (simp add: fun_upd_idem)
    ultimately show ?thesis using res by (simp add: meta_same_def)
  next
    case 2
    have fb: "?fb < 1000" using room 2 by (simp add: cost_Suc)
    let ?di = "(dis i)\<lparr>d_addrs := (d_addrs (dis i))[n := ?fb]\<rparr>" and ?st = "st\<lparr>m_freeblock := Suc ?fb\<rparr>"
    have "d_addrs (dis i) ! n = 0" using D(11) [OF i, of n] 2 by (simp add: slot_def has_def)
    then have "iappend_block (dis i) n st = Inr (slot (m_img ?st) ?di n, ?di, ?st)"
      using 2 by (simp add: iappend_block_def take_addr_def fs_consts slot_def)
    then show ?thesis using res grow_direct [OF ok i 2 fb] by (simp add: meta_same_def)
  next
    case 3
    have fb: "Suc ?fb < 1000" using room 3 by (simp add: cost_def)
    let ?di = "(dis i)\<lparr>d_addrs := (d_addrs (dis i))[12 := ?fb]\<rparr>"
    let ?st = "st\<lparr>m_freeblock := Suc (Suc ?fb), m_img := ?img[?fb := wr32 (?img ! ?fb) 0 (Suc ?fb)]\<rparr>"
    have nb: "nb i = 12" using 3 by simp
    note G = grow_first_indirect [OF ok i nb fb]
    have r: "rd32 (wr32 (?img ! ?fb) 0 (Suc ?fb)) 0 = Suc ?fb" using fb D(2) by (simp add: rd32_wr32_same)
    have "iappend_block (dis i) n st = Inr (Suc ?fb, ?di, ?st)"
      using 3(2) G D(1) D(7) [OF i] fb r by (simp add: iappend_block_def take_addr_def fs_consts rsect_in wsect_in Let_def)
    moreover have "slot (m_img ?st) ?di n = Suc ?fb" using 3(2) r fb fb59 D(1) D(7) [OF i] by (simp add: slot_def)
    ultimately show ?thesis using res [of ?st ?di] G 3(2) fb59 by (simp add: meta_same_def)
  next
    case 4
    have fb: "?fb < 1000" using room 4 by (simp add: cost_Suc)
    let ?st = "st\<lparr>m_freeblock := Suc ?fb, m_img := ?img[?a := wr32 (?img ! ?a) (4 * (n - 12)) ?fb]\<rparr>"
    note G = grow_indirect [OF ok i 4 n(2) fb refl]
    have r: "rd32 (wr32 (?img ! ?a) (4 * (n - 12)) ?fb) (4 * (n - 12)) = ?fb" using fb D(2) G n(2) by (simp add: rd32_wr32_same)
    have "iappend_block (dis i) n st = Inr (?fb, dis i, ?st)"
      using 4(2) G D(1) fb r by (simp add: iappend_block_def take_addr_def fs_consts rsect_in wsect_in Let_def)
    moreover have "slot (m_img ?st) (dis i) n = ?fb" using 4(2) n(2) r fb G D(1) by (simp add: slot_def)
    ultimately show ?thesis using res [of ?st "dis i"] G by (simp add: meta_same_def)
  qed
qed

subsection \<open>Appending to a file\<close>

lemma cost_mono: "m \<le> n \<Longrightarrow> cost m \<le> cost n"
  by (simp add: cost_def)

lemma nblk_mono: "m \<le> n \<Longrightarrow> nblk m \<le> nblk n"
  by (simp add: nblk_def div_le_mono)

lemma meta_same_trans: "meta_same a b \<Longrightarrow> meta_same b c \<Longrightarrow> meta_same a c"
  by (simp add: meta_same_def)

lemma files_ok_count:
  assumes "files_ok img fb I dis nb cs" and "files_ok img' fb' I dis' (nb(i := m)) cs'" and "i \<in> I"
  shows "fb' + cost (nb i) = fb + cost m"
  using files_okD(3,4) [OF assms(1)] files_okD(4) [OF assms(2)] sum_upd [of I i nb m] assms(3) by simp

lemma iappend_loop_ok:
  assumes "files_ok (m_img st) (m_freeblock st) I dis nb cs" "i \<in> I" "nb i = nblk (length (cs i))"
    "length (cs i) + length p \<le> 140 * 512" "m_freeblock st + cost (nblk (length (cs i) + length p)) \<le> 1000 + cost (nb i)"
  shows "\<exists>di' st'. iappend_loop (dis i) (length (cs i)) p st = Inr (di', length (cs i) + length p, st') \<and>
    files_ok (m_img st') (m_freeblock st') I (dis(i := di')) (nb(i := nblk (length (cs i) + length p))) (cs(i := cs i @ p)) \<and>
    m_freeinode st' = m_freeinode st \<and> meta_same (m_img st) (m_img st') \<and> di'\<lparr>d_addrs := []\<rparr> = (dis i)\<lparr>d_addrs := []\<rparr>"
  using assms
proof (induction "length p" arbitrary: p st dis nb cs rule: less_induct)
  case less
  show ?case
  proof (cases "p = []")
    case True
    then show ?thesis
      using less.prems by (subst iappend_loop.simps) (auto simp: fun_upd_idem meta_same_def intro!: exI [of _ "dis i"] exI [of _ st])
  next
    case False
    note D = files_okD [OF less.prems(1)]
    define off where "off = length (cs i)"
    define n where "n = off div 512"
    define m where "m = min (length p) ((n + 1) * 512 - off)"
    have lp: "0 < length p" using False by simp
    have n: "n < 140" using less.prems(4) lp unfolding n_def off_def by (intro less_mult_imp_div_less) linarith
    have spl: "off = 512 * n + off mod 512" "off mod 512 < 512" unfolding n_def by simp_all
    have m: "0 < m" "m \<le> length p" "off mod 512 + m \<le> 512" using lp spl unfolding m_def by auto
    have one: "nblk (off + m) = Suc n"
    proof -
      obtain r where "off = 512 * n + r" "r + m \<le> 512" using spl m(3) by blast
      then have "(off + m + 511) div 512 = Suc n" by (intro div_nat_eqI) (use m(1) in simp_all)
      then show ?thesis by (simp add: nblk_def)
    qed
    have nb1: "nb i = nblk off" using less.prems(3) by (simp add: off_def)
    have "cost (Suc n) \<le> cost (nblk (off + length p))" using one m(2) cost_mono [OF nblk_mono [of "off + m" "off + length p"]] by simp
    then have room: "m_freeblock st + cost (Suc n) \<le> 1000 + cost (nb i)" using less.prems(5) by (simp add: off_def)
    obtain di1 st1 where B: "iappend_block (dis i) n st = Inr (slot (m_img st1) di1 n, di1, st1)"
      "files_ok (m_img st1) (m_freeblock st1) I (dis(i := di1)) (nb(i := Suc n)) cs" "m_freeinode st1 = m_freeinode st"
      "meta_same (m_img st) (m_img st1)" "di1\<lparr>d_addrs := []\<rparr> = (dis i)\<lparr>d_addrs := []\<rparr>"
      by (rule iappend_block_ok [OF less.prems(1,2) _ n less.prems(3) room]) (auto simp: n_def off_def)
    define x where "x = slot (m_img st1) di1 n"
    define st2 where "st2 = st1\<lparr>m_img := (m_img st1)[x := patch (m_img st1 ! x) (off mod 512) (take m p)]\<rparr>"
    have x: "59 \<le> x" "x < 1000"
      using files_okD(10) [OF B(2) less.prems(2), of n] files_okD(5) [OF B(2)] n by (auto simp: has_def x_def)
    have ok2: "files_ok (m_img st2) (m_freeblock st2) I (dis(i := di1)) (nb(i := Suc n)) (cs(i := cs i @ take m p))"
      using files_ok_write [OF B(2) less.prems(2), of n "take m p" x] m n_def off_def by (simp add: st2_def x_def)
    have om: "off - n * 512 = off mod 512" using spl(1) by simp
    have step: "iappend_loop (dis i) off p st = iappend_loop di1 (off + m) (drop m p) st2"
      using False n B(1) x files_okD(1) [OF B(2)] unfolding st2_def
      by (subst iappend_loop.simps)
        (simp add: Let_def fs_consts n_def [symmetric] x_def [symmetric] m_def [symmetric, simplified] rsect_in wsect_in om)
    have l2: "length (cs i @ take m p) = off + m" using m(2) by (simp add: off_def)
    have cnt: "m_freeblock st2 + cost (nb i) = m_freeblock st + cost (Suc n)"
      using files_ok_count [OF less.prems(1) ok2 less.prems(2)] by simp
    have tot: "off + m + length (drop m p) = off + length p" using m(2) by simp
    have IH: "\<exists>di' st'. iappend_loop ((dis(i := di1)) i) (length ((cs(i := cs i @ take m p)) i)) (drop m p) st2 =
        Inr (di', length ((cs(i := cs i @ take m p)) i) + length (drop m p), st') \<and>
      files_ok (m_img st') (m_freeblock st') I ((dis(i := di1))(i := di')) ((nb(i := Suc n))(i := nblk (length ((cs(i := cs i @ take m p)) i) + length (drop m p))))
        ((cs(i := cs i @ take m p))(i := (cs(i := cs i @ take m p)) i @ drop m p)) \<and>
      m_freeinode st' = m_freeinode st2 \<and> meta_same (m_img st2) (m_img st') \<and> di'\<lparr>d_addrs := []\<rparr> = ((dis(i := di1)) i)\<lparr>d_addrs := []\<rparr>"
      by (rule less.hyps [OF _ ok2 less.prems(2)])
        (use m lp l2 one tot less.prems(4,5) cnt in \<open>simp_all add: off_def [symmetric]\<close>)
    have "meta_same (m_img st) (m_img st2)" using B(4) x by (simp add: meta_same_def st2_def)
    then show ?thesis
      using IH B(3,5) unfolding off_def [symmetric] step fun_upd_same fun_upd_upd l2 tot append.assoc append_take_drop_id
      by (auto simp: st2_def intro: meta_same_trans)
  qed
qed
subsection \<open>Inodes in the image\<close>

definition di_of :: "block list \<Rightarrow> nat \<Rightarrow> dinode" where
  "di_of img i = get_dinode (img ! (i div 8 + 32)) (i mod 8)"

definition blocks_ok :: "block list \<Rightarrow> bool" where
  "blocks_ok img \<longleftrightarrow> length img = 1000 \<and> (\<forall>b < 1000. length (img ! b) = 512)"

lemma rinode_in: "blocks_ok (m_img st) \<Longrightarrow> i < 208 \<Longrightarrow> rinode i st = Inr (di_of (m_img st) i)"
  by (simp add: rinode_def rsect_in di_of_def blocks_ok_def IPB_def)

text \<open>\<open>winode\<close> changes one inode and no other block than the one that holds it.\<close>

lemma winode_in:
  assumes b: "blocks_ok (m_img st)" and i: "i < 208" and di: "dinode_fits di"
  obtains img' where "winode i di st = Inr (st\<lparr>m_img := img'\<rparr>)" "blocks_ok img'" "\<And>j. di_of img' j = (if j = i then di else di_of (m_img st) j)"
    "\<And>b. b < 32 \<or> 58 \<le> b \<Longrightarrow> img' ! b = m_img st ! b"
proof -
  let ?img = "m_img st" and ?n = "i div 8 + 32"
  let ?img' = "?img[?n := put_dinode (?img ! ?n) (i mod 8) di]"
  have n: "?n < 1000" "length (?img ! ?n) = 512" using i b by (simp_all add: blocks_ok_def)
  have l: "length (put_dinode (?img ! ?n) (i mod 8) di) = 512"
    using n di by (simp add: put_dinode_def length_dinode_bytes dinode_fits_def)
  show ?thesis
  proof (rule that [of ?img'])
    show "winode i di st = Inr (st\<lparr>m_img := ?img'\<rparr>)" using n b by (simp add: winode_def rsect_in wsect_in blocks_ok_def IPB_def Let_def)
    show "blocks_ok ?img'" using b n l by (simp add: blocks_ok_def nth_list_update)
    show "di_of ?img' j = (if j = i then di else di_of ?img j)" for j
    proof (cases "j div 8 = i div 8")
      case True
      have "j mod 8 = i mod 8 \<longleftrightarrow> j = i" using div_mod_8 [OF True] by auto
      then show ?thesis using True n b get_put_dinode [OF n(2) _ _ di] by (simp add: di_of_def blocks_ok_def)
    next
      case False
      then show ?thesis by (auto simp: di_of_def)
    qed
    show "?img' ! b = ?img ! b" if "b < 32 \<or> 58 \<le> b" for b using that i by (auto simp: less_mult_imp_div_less)
  qed
qed

lemma files_ok_fits:
  assumes ok: "files_ok img fb I dis nb cs" and i: "i \<in> I"
  shows "\<forall>a \<in> set (d_addrs (dis i)). a < 2 ^ 32"
proof
  fix a assume "a \<in> set (d_addrs (dis i))"
  then obtain k where k: "k < 13" "a = d_addrs (dis i) ! k" using files_okD(7) [OF ok i] by (auto simp: in_set_conv_nth)
  define l where "l = (if k = 12 then 140 else k)"
  have "a = slot img (dis i) l" "l \<le> 140" using k by (auto simp: l_def slot_def)
  then have "a < 1000" using files_okD(5,10,11) [OF ok] i by (cases "has (nb i) l") fastforce+
  then show "a < 2 ^ 32" by simp
qed

lemma files_ok_meta:
  assumes ok: "files_ok img fb I dis nb cs" and b: "blocks_ok img'" "\<And>b. 59 \<le> b \<Longrightarrow> b < 1000 \<Longrightarrow> img' ! b = img ! b"
    and dis: "\<And>i. i \<in> I \<Longrightarrow> dis' i = dis i"
  shows "files_ok img' fb I dis' nb cs"
proof -
  note D = files_okD [OF ok] and fb59 = files_ok_fb [OF ok]
  have sl: "slot img' (dis i) k = slot img (dis i) k" if "i \<in> I" for i k
  proof (rule slot_frame)
    assume nz: "d_addrs (dis i) ! 12 \<noteq> 0"
    then have "has (nb i) 140" using D(11) [OF that, of 140] by (auto simp: slot_140)
    then have "59 \<le> d_addrs (dis i) ! 12" "d_addrs (dis i) ! 12 < 1000" using D(10) [OF that, of 140] D(5) by (auto simp: slot_140)
    then show "img' ! (d_addrs (dis i) ! 12) = img ! (d_addrs (dis i) ! 12)" by (rule b(2))
  qed
  show ?thesis
  proof (rule files_okI)
    show "img' ! b = replicate 512 0" if "b < 1000" "fb \<le> b" for b using that fb59 b(2) D(6) by simp
    show "img' ! slot img' (dis' i) (o' div 512) ! (o' mod 512) = pad (cs i) o'" if i: "i \<in> I" "o' < 512 * nb i" for i o'
    proof -
      have "has (nb i) (o' div 512)" using i D(8) [OF i(1)] by (simp add: has_def div_less_iff_less_mult mult.commute)
      then show ?thesis using D(12) [OF i] D(10) [OF i(1)] D(5) sl [OF i(1)] dis [OF i(1)] b(2) by fastforce
    qed
    show "i = j \<and> k = l" if "i \<in> I" "j \<in> I" "has (nb i) k" "has (nb j) l" "slot img' (dis' i) k = slot img' (dis' j) l" for i j k l
      using D(13) [OF that(1-4)] that(5) sl dis that(1,2) by simp
  qed (use b(1) D(1-5,7-11) sl dis in \<open>simp_all add: blocks_ok_def\<close>)
qed

lemma files_ok_blocks: "files_ok img fb I dis nb cs \<Longrightarrow> blocks_ok img"
  using files_okD(1,2) unfolding blocks_ok_def by blast

lemma files_ok_insert:
  assumes ok: "files_ok img fb I dis nb cs" and i: "i \<notin> I" "nb i = 0" "cs i = []" "d_addrs (dis i) = replicate 13 0"
  shows "files_ok img fb (insert i I) dis nb cs"
proof -
  note D = files_okD [OF ok]
  have sl: "k \<le> 140 \<Longrightarrow> slot img (dis i) k = 0" for k using i(4) by (simp add: slot_def)
  have h: "\<not> has (nb i) k" for k using i(2) by (simp add: has_def)
  have "(\<Sum>j \<in> insert i I. cost (nb j)) = (\<Sum>j \<in> I. cost (nb j))" using D(3) i(1,2) by (simp add: cost_def)
  then show ?thesis by (intro files_okI) (use D i h sl in auto)
qed

subsection \<open>The state of the program\<close>

definition node :: "nat \<Rightarrow> nat \<Rightarrow> dinode" where
  "node i len = \<lparr>d_type = (if i = 1 then T_DIR else T_FILE), d_major = 0, d_minor = 0, d_nlink = 1, d_size = len, d_addrs = []\<rparr>"

definition mk_ok :: "mkst \<Rightarrow> (nat \<Rightarrow> byte list) \<Rightarrow> bool" where
  "mk_ok st cs \<longleftrightarrow> 1 \<le> m_freeinode st \<and> m_freeinode st \<le> 208 \<and>
     files_ok (m_img st) (m_freeblock st) {1..<m_freeinode st} (di_of (m_img st)) (\<lambda>i. nblk (length (cs i))) cs \<and>
     (\<forall>i \<in> {1..<m_freeinode st}. (di_of (m_img st) i)\<lparr>d_addrs := []\<rparr> = node i (length (cs i))) \<and>
     get_sb (m_img st ! 1) = mk_sb"

lemma node_upd: "di\<lparr>d_addrs := []\<rparr> = node i len \<Longrightarrow> (di\<lparr>d_size := len'\<rparr>)\<lparr>d_addrs := []\<rparr> = node i len'"
  by (cases di) (simp add: node_def)

lemma iappend_ok:
  assumes ok: "mk_ok st cs" and i: "1 \<le> i" "i < m_freeinode st" and len: "length (cs i) + length p \<le> 140 * 512"
    and room: "m_freeblock st + cost (nblk (length (cs i) + length p)) \<le> 1000 + cost (nblk (length (cs i)))"
  shows "\<exists>st'. iappend i p st = Inr st' \<and> mk_ok st' (cs(i := cs i @ p)) \<and> m_freeinode st' = m_freeinode st \<and>
    m_freeblock st' + cost (nblk (length (cs i))) = m_freeblock st + cost (nblk (length (cs i) + length p))"
proof -
  let ?I = "{1..<m_freeinode st}" and ?nb = "\<lambda>i. nblk (length (cs i))" and ?dis = "di_of (m_img st)" and ?cs = "cs(i := cs i @ p)"
  from ok have f: "files_ok (m_img st) (m_freeblock st) ?I ?dis ?nb cs" and fi: "m_freeinode st \<le> 208" "get_sb (m_img st ! 1) = mk_sb"
    and nd: "\<And>j. j \<in> ?I \<Longrightarrow> (?dis j)\<lparr>d_addrs := []\<rparr> = node j (length (cs j))" unfolding mk_ok_def by blast+
  have I: "i \<in> ?I" using i by simp
  have sz: "d_size (?dis i) = length (cs i)" using nd [OF I] by (cases "?dis i") (simp add: node_def)
  obtain di' st1 where L: "iappend_loop (?dis i) (length (cs i)) p st = Inr (di', length (cs i) + length p, st1)"
    "files_ok (m_img st1) (m_freeblock st1) ?I (?dis(i := di')) (?nb(i := nblk (length (cs i) + length p))) ?cs"
    "m_freeinode st1 = m_freeinode st" "meta_same (m_img st) (m_img st1)" "di'\<lparr>d_addrs := []\<rparr> = (?dis i)\<lparr>d_addrs := []\<rparr>"
    using iappend_loop_ok [OF f I refl len room] by blast
  let ?di = "di'\<lparr>d_size := length (cs i) + length p\<rparr>"
  note b1 = files_ok_blocks [OF L(2)]
  have i208: "i < 208" using i(2) fi(1) by simp
  have fits: "dinode_fits ?di"
    using files_ok_fits [OF L(2) I] files_okD(7) [OF L(2) I] len by (simp add: dinode_fits_def)
  obtain img' where W: "winode i ?di st1 = Inr (st1\<lparr>m_img := img'\<rparr>)" "blocks_ok img'"
    "\<And>j. di_of img' j = (if j = i then ?di else di_of (m_img st1) j)" "\<And>b. b < 32 \<or> 58 \<le> b \<Longrightarrow> img' ! b = m_img st1 ! b"
    by (rule winode_in [OF b1 i208 fits]) blast
  have same: "di_of (m_img st1) j = ?dis j" if "j < 208" for j
    using that L(4) by (simp add: di_of_def meta_same_def less_mult_imp_div_less)
  have nd': "?di\<lparr>d_addrs := []\<rparr> = node i (length (cs i) + length p)"
    by (rule node_upd) (use L(5) nd [OF I] in simp)
  have f2: "files_ok (m_img st1) (m_freeblock st1) ?I (?dis(i := ?di)) (?nb(i := nblk (length (cs i) + length p))) ?cs"
  proof -
    have s: "slot img ((?dis(i := ?di)) j) k = slot img ((?dis(i := di')) j) k" "length (d_addrs ((?dis(i := ?di)) j)) = length (d_addrs ((?dis(i := di')) j))" for img j k
      by (simp_all add: slot_def)
    show ?thesis using L(2) unfolding files_ok_def s .
  qed
  have nb: "?nb(i := nblk (length (cs i) + length p)) = (\<lambda>j. nblk (length (?cs j)))" by (auto simp: fun_eq_iff)
  have "files_ok img' (m_freeblock st1) ?I (di_of img') (\<lambda>j. nblk (length (?cs j))) ?cs"
    unfolding nb [symmetric]
    by (rule files_ok_meta [OF f2 W(2)]) (use W(3,4) same fi(1) in auto)
  moreover have "(di_of img' j)\<lparr>d_addrs := []\<rparr> = node j (length (?cs j))" if "j \<in> ?I" for j
    using nd [OF that] nd' same [of j] that fi(1) W(3) by simp
  moreover have "get_sb (img' ! 1) = mk_sb" using W(4) [of 1] L(4) fi(2) by (simp add: meta_same_def)
  ultimately have "mk_ok (st1\<lparr>m_img := img'\<rparr>) ?cs" using i fi(1) L(3) by (simp add: mk_ok_def)
  moreover have "iappend i p st = Inr (st1\<lparr>m_img := img'\<rparr>)"
    using rinode_in [OF files_ok_blocks [OF f], of i] i(2) fi(1) sz L(1) W(1) by (simp add: iappend_def)
  moreover have "m_freeblock st1 + cost (nblk (length (cs i))) = m_freeblock st + cost (nblk (length (cs i) + length p))"
    using files_ok_count [OF f L(2) I] by simp
  ultimately show ?thesis using L(3) by simp
qed
lemma append_file_ok:
  assumes "mk_ok st cs" "1 \<le> i" "i < m_freeinode st" "length (cs i) + length c \<le> 140 * 512"
    "m_freeblock st + cost (nblk (length (cs i) + length c)) \<le> 1000 + cost (nblk (length (cs i)))"
  shows "\<exists>st'. append_file i c st = Inr st' \<and> mk_ok st' (cs(i := cs i @ c)) \<and> m_freeinode st' = m_freeinode st \<and>
    m_freeblock st' + cost (nblk (length (cs i))) = m_freeblock st + cost (nblk (length (cs i) + length c))"
  using assms
proof (induction "length c" arbitrary: c st cs rule: less_induct)
  case less
  show ?case
  proof (cases "c = []")
    case True
    then show ?thesis using less.prems(1) by (subst append_file.simps) (simp add: fun_upd_idem)
  next
    case False
    let ?p = "take 512 c" and ?q = "drop 512 c" and ?n = "length (cs i)"
    have len: "length ?p + length ?q = length c" "0 < length ?p" "length ?p \<le> length c" using False by auto
    have mono: "cost (nblk (?n + length ?p)) \<le> cost (nblk (?n + length c))" by (intro cost_mono nblk_mono) simp
    have "?n + length ?p \<le> 140 * 512" "m_freeblock st + cost (nblk (?n + length ?p)) \<le> 1000 + cost (nblk ?n)"
      using less.prems(4,5) len mono by linarith+
    from iappend_ok [OF less.prems(1-3) this] obtain st1 where A: "iappend i ?p st = Inr st1" "mk_ok st1 (cs(i := cs i @ ?p))"
      "m_freeinode st1 = m_freeinode st" "m_freeblock st1 + cost (nblk ?n) = m_freeblock st + cost (nblk (?n + length ?p))" by blast
    have n1: "length ((cs(i := cs i @ ?p)) i) = ?n + length ?p" "?n + length ?p + length ?q = ?n + length c" using len(1) by simp_all
    have "\<exists>st'. append_file i ?q st1 = Inr st' \<and> mk_ok st' ((cs(i := cs i @ ?p))(i := (cs(i := cs i @ ?p)) i @ ?q)) \<and>
        m_freeinode st' = m_freeinode st1 \<and>
        m_freeblock st' + cost (nblk (length ((cs(i := cs i @ ?p)) i))) = m_freeblock st1 + cost (nblk (length ((cs(i := cs i @ ?p)) i) + length ?q))"
      by (rule less.hyps [OF _ A(2) less.prems(2)])
        (unfold n1, use less.prems(3-5) A(3,4) len False in \<open>simp_all\<close>)
    then obtain st' where B: "append_file i ?q st1 = Inr st'" "mk_ok st' (cs(i := cs i @ c))" "m_freeinode st' = m_freeinode st1"
      "m_freeblock st' + cost (nblk (?n + length ?p)) = m_freeblock st1 + cost (nblk (?n + length c))"
      unfolding n1 by (auto simp: append_take_drop_id)
    have "append_file i c st = Inr st'" using False A(1) B(1) by (subst append_file.simps) (simp add: BSIZE_def)
    then show ?thesis using B A by simp
  qed
qed

lemma mk_ialloc_ok:
  assumes ok: "mk_ok st cs" and fi: "m_freeinode st < 208" and ty: "ty = (if m_freeinode st = 1 then T_DIR else T_FILE)"
  shows "\<exists>st'. mk_ialloc ty st = Inr (m_freeinode st, st') \<and> mk_ok st' (cs(m_freeinode st := [])) \<and>
    m_freeinode st' = Suc (m_freeinode st) \<and> m_freeblock st' = m_freeblock st"
proof -
  let ?i = "m_freeinode st" and ?I = "{1..<m_freeinode st}" and ?cs = "cs(m_freeinode st := [])" and ?st = "st\<lparr>m_freeinode := m_freeinode st + 1\<rparr>"
  let ?di = "\<lparr>d_type = ty, d_major = 0, d_minor = 0, d_nlink = 1, d_size = 0, d_addrs = replicate (NDIRECT + 1) 0\<rparr>"
  from ok have f: "files_ok (m_img st) (m_freeblock st) ?I (di_of (m_img st)) (\<lambda>i. nblk (length (cs i))) cs" and i1: "1 \<le> ?i"
    and sb: "get_sb (m_img st ! 1) = mk_sb"
    and nd: "\<And>j. j \<in> ?I \<Longrightarrow> (di_of (m_img st) j)\<lparr>d_addrs := []\<rparr> = node j (length (cs j))" unfolding mk_ok_def by blast+
  have b: "blocks_ok (m_img ?st)" using files_ok_blocks [OF f] by simp
  have fits: "dinode_fits ?di" by (simp add: dinode_fits_def fs_consts)
  obtain img' where W: "winode ?i ?di ?st = Inr (?st\<lparr>m_img := img'\<rparr>)" "blocks_ok img'"
    "\<And>j. di_of img' j = (if j = ?i then ?di else di_of (m_img ?st) j)" "\<And>b. b < 32 \<or> 58 \<le> b \<Longrightarrow> img' ! b = m_img ?st ! b"
    by (rule winode_in [OF b fi fits]) blast
  have f1: "files_ok img' (m_freeblock st) ?I (di_of img') (\<lambda>i. nblk (length (cs i))) cs"
    by (rule files_ok_meta [OF f W(2)]) (use W(3,4) in auto)
  have f2: "files_ok img' (m_freeblock st) ?I (di_of img') (\<lambda>i. nblk (length (?cs i))) ?cs"
  proof (rule files_okI)
    have "(\<Sum>j \<in> ?I. cost (nblk (length (?cs j)))) = (\<Sum>j \<in> ?I. cost (nblk (length (cs j))))" by (rule sum.cong) auto
    then show "m_freeblock st = 59 + (\<Sum>j \<in> ?I. cost (nblk (length (?cs j))))" using files_okD(4) [OF f1] by simp
  qed (use files_okD(1-3,5-13) [OF f1] in auto)
  have "files_ok img' (m_freeblock st) (insert ?i ?I) (di_of img') (\<lambda>i. nblk (length (?cs i))) ?cs"
    by (rule files_ok_insert [OF f2]) (use W(3) in \<open>simp_all add: nblk_def fs_consts\<close>)
  moreover have "insert ?i ?I = {1..<Suc ?i}" using i1 by auto
  moreover have "(di_of img' j)\<lparr>d_addrs := []\<rparr> = node j (length (?cs j))" if "j \<in> {1..<Suc ?i}" for j
    using that nd [of j] W(3) [of j] ty by (auto simp: node_def)
  moreover have "get_sb (img' ! 1) = mk_sb" using W(4) [of 1] sb by simp
  ultimately have "mk_ok (?st\<lparr>m_img := img'\<rparr>) ?cs" using fi by (simp add: mk_ok_def)
  then show ?thesis using W(1) by (simp add: mk_ialloc_def Let_def)
qed

lemma fold_wsect:
  "fold (\<lambda>i. wsect i d) [0..<n] \<lparr>m_img = [], m_freeinode = a, m_freeblock = b\<rparr> = \<lparr>m_img = replicate n d, m_freeinode = a, m_freeblock = b\<rparr>"
  by (induction n) (simp_all add: wsect_def replicate_append_same)

lemma get_sb_bytes: "get_sb (patch (replicate BSIZE 0) 0 (sb_bytes mk_sb)) = mk_sb"
proof -
  let ?xs = "[sb_size mk_sb, sb_nblocks mk_sb, sb_ninodes mk_sb, sb_nlog mk_sb, sb_logstart mk_sb, sb_inodestart mk_sb, sb_bmapstart mk_sb]"
  have lt: "\<forall>x \<in> set ?xs. x < 2 ^ 32"
    by (simp add: mk_sb_def nblocks_def nmeta_def nlog_def ninodeblocks_def nbitmap_def FSSIZE_def NINODES_def LOGSIZE_def MAXOPBLOCKS_def fs_consts)
  have w: "rd32 (concat (map bytes32 ?xs)) (4 * j) = ?xs ! j" if "j < 7" for j using rd32_words [OF lt, of j "[]"] that by simp
  have l: "0 + length (sb_bytes mk_sb) \<le> length (replicate BSIZE (0 :: byte))" by (simp add: sb_bytes_def BSIZE_def)
  have r: "rd32 (patch (replicate BSIZE 0) 0 (sb_bytes mk_sb)) (4 * j) = ?xs ! j" if "j < 7" for j
    using rd_patch(2) [OF l, of "4 * j"] w [OF that] that by (simp add: sb_bytes_def)
  show ?thesis
    using r [of 0] r [of 1] r [of 2] r [of 3] r [of 4] r [of 5] r [of 6] by (intro superblock.equality) (simp_all add: get_sb_def)
qed

lemma mkfs_start_ok: "mk_ok mkfs_start (\<lambda>_. []) \<and> m_freeinode mkfs_start = 1 \<and> m_freeblock mkfs_start = 59"
proof -
  let ?d = "patch (replicate BSIZE 0) 0 (sb_bytes mk_sb)"
  have st: "mkfs_start = \<lparr>m_img = (replicate 1000 (replicate 512 0))[1 := ?d], m_freeinode = 1, m_freeblock = 59\<rparr>"
    by (simp add: mkfs_start_def fold_wsect FSSIZE_def wsect_in BSIZE_def)
  have l: "length ?d = 512" by (simp add: BSIZE_def sb_bytes_def)
  have "files_ok (m_img mkfs_start) 59 {1..<1} (di_of (m_img mkfs_start)) (\<lambda>i. nblk (length [])) (\<lambda>_. [])"
    by (rule files_okI) (use l in \<open>auto simp: st nth_list_update\<close>)
  then show ?thesis using get_sb_bytes by (simp add: mk_ok_def) (simp add: st)
qed
subsection \<open>All files\<close>

text \<open>The name in a directory entry and the entry, and the contents of the inodes after the files have been added from inode \<open>i\<close> on.\<close>

definition dname :: "byte list \<Rightarrow> byte list" where
  "dname nm = take 14 (strip_underscore nm @ replicate 14 0)"

definition dentry :: "nat \<Rightarrow> byte list \<Rightarrow> byte list" where
  "dentry i nm = dirent_bytes i (dname nm)"

fun put_files :: "(byte list \<times> byte list) list \<Rightarrow> nat \<Rightarrow> (nat \<Rightarrow> byte list) \<Rightarrow> nat \<Rightarrow> byte list" where
  "put_files [] i cs = cs"
| "put_files (nc # ncs) i cs = put_files ncs (Suc i) (cs(i := snd nc, 1 := cs 1 @ dentry i (fst nc)))"

definition file_fits :: "byte list \<times> byte list \<Rightarrow> bool" where
  "file_fits nc \<longleftrightarrow> 47 \<notin> set (fst nc) \<and> 0 \<notin> set (fst nc) \<and> length (snd nc) \<le> 140 * 512"

definition fcost :: "byte list \<Rightarrow> nat" where
  "fcost c = cost (nblk (length c))"

lemma strncpy_pad: "0 \<notin> set nm \<Longrightarrow> strncpy n (nm @ [0]) = Inr (take n (nm @ replicate n 0))"
proof (induction n arbitrary: nm)
  case (Suc n)
  show ?case
  proof (cases nm)
    case (Cons x xs)
    have "take (n - length xs) (replicate (Suc n) (0 :: byte)) = take (n - length xs) (replicate n 0)"
      unfolding take_replicate by (simp add: min_def)
    then show ?thesis using Suc Cons by (simp del: replicate_Suc take_replicate)
  qed simp
qed simp

lemma strip_set: "set (strip_underscore nm) \<subseteq> set nm"
  by (cases nm) (auto simp: strip_underscore_def)

lemma length_dirent_bytes: "length (dirent_bytes i nm) = 2 + length nm"
  by (simp add: dirent_bytes_def bytes16_def)

lemma length_dentry [simp]: "length (dentry i nm) = 16"
  by (simp add: dentry_def length_dirent_bytes dname_def)

lemma add_file_ok:
  assumes ok: "mk_ok st cs" and fi: "2 \<le> m_freeinode st" "m_freeinode st < 208" and nc: "file_fits nc" and len: "length (cs 1) + 16 \<le> 140 * 512"
    and room: "m_freeblock st + cost (nblk (length (cs 1) + 16)) + fcost (snd nc) \<le> 1000 + fcost (cs 1)"
  shows "\<exists>st'. add_file nc st = Inr st' \<and> mk_ok st' (cs(m_freeinode st := snd nc, 1 := cs 1 @ dentry (m_freeinode st) (fst nc))) \<and>
    m_freeinode st' = Suc (m_freeinode st) \<and> m_freeblock st' + fcost (cs 1) = m_freeblock st + cost (nblk (length (cs 1) + 16)) + fcost (snd nc)"
proof -
  obtain nm c where nmc: "nc = (nm, c)" by (cases nc)
  let ?i = "m_freeinode st" and ?de = "dentry (m_freeinode st) nm" and ?cs = "cs(m_freeinode st := [])"
  have i1: "?i \<noteq> 1" using fi(1) by simp
  obtain st1 where A: "mk_ialloc T_FILE st = Inr (?i, st1)" "mk_ok st1 ?cs" "m_freeinode st1 = Suc ?i" "m_freeblock st1 = m_freeblock st"
    using mk_ialloc_ok [OF ok fi(2)] i1 by auto
  have c1: "?cs 1 = cs 1" using i1 by simp
  obtain st2 where B: "iappend 1 ?de st1 = Inr st2" "mk_ok st2 (?cs(1 := cs 1 @ ?de))" "m_freeinode st2 = Suc ?i"
    "m_freeblock st2 + fcost (cs 1) = m_freeblock st + cost (nblk (length (cs 1) + 16))"
    using iappend_ok [OF A(2), of 1 ?de] A(3,4) c1 fi(1) len room nmc by (auto simp: fcost_def)
  have e: "(?cs(1 := cs 1 @ ?de)) ?i = []" using i1 by simp
  obtain st3 where C: "append_file ?i c st2 = Inr st3" "mk_ok st3 (?cs(1 := cs 1 @ ?de, ?i := c))" "m_freeinode st3 = Suc ?i"
    "m_freeblock st3 = m_freeblock st2 + fcost c"
    using append_file_ok [OF B(2), of ?i c] B(3,4) e fi nc nmc room by (auto simp: fcost_def file_fits_def cost_def nblk_def)
  have s: "strncpy DIRSIZ (strip_underscore nm @ [0]) = Inr (dname nm)"
    using strncpy_pad [of "strip_underscore nm" 14] strip_set [of nm] nc nmc by (auto simp: file_fits_def dname_def DIRSIZ_def)
  have "add_file nc st = Inr st3"
    using A(1) B(1) C(1) s nc by (simp add: add_file_def nmc file_fits_def ROOTINO_def dentry_def)
  moreover have "?cs(1 := cs 1 @ ?de, ?i := c) = cs(?i := c, 1 := cs 1 @ ?de)" using i1 by (auto simp: fun_eq_iff)
  ultimately show ?thesis using C B(4) nmc by auto
qed

lemma add_files_ok:
  assumes "mk_ok st cs" "2 \<le> m_freeinode st" "m_freeinode st + length ncs \<le> 208" "\<forall>nc \<in> set ncs. file_fits nc"
    "length (cs 1) + 16 * length ncs \<le> 140 * 512"
    "m_freeblock st + cost (nblk (length (cs 1) + 16 * length ncs)) + sum_list (map (\<lambda>nc. fcost (snd nc)) ncs) \<le> 1000 + fcost (cs 1)"
  shows "\<exists>st'. add_files ncs st = Inr st' \<and> mk_ok st' (put_files ncs (m_freeinode st) cs) \<and> m_freeinode st' = m_freeinode st + length ncs \<and>
    m_freeblock st' + fcost (cs 1) = m_freeblock st + cost (nblk (length (cs 1) + 16 * length ncs)) + sum_list (map (\<lambda>nc. fcost (snd nc)) ncs)"
  using assms
proof (induction ncs arbitrary: st cs)
  case Nil
  then show ?case by (simp add: fcost_def)
next
  case (Cons nc ncs)
  let ?i = "m_freeinode st" and ?cs = "cs(m_freeinode st := snd nc, 1 := cs 1 @ dentry (m_freeinode st) (fst nc))" and ?l = "length (cs 1)"
  have mono: "cost (nblk (?l + 16)) \<le> cost (nblk (?l + 16 * length (nc # ncs)))" by (intro cost_mono nblk_mono) simp
  have fi: "?i < 208" and nc: "file_fits nc" and len: "?l + 16 \<le> 140 * 512" using Cons.prems by auto
  have "m_freeblock st + cost (nblk (?l + 16)) + fcost (snd nc) \<le> 1000 + fcost (cs 1)" using Cons.prems(6) mono by simp
  from add_file_ok [OF Cons.prems(1,2) fi nc len this] obtain st1 where A: "add_file nc st = Inr st1" "mk_ok st1 ?cs" "m_freeinode st1 = Suc ?i"
    "m_freeblock st1 + fcost (cs 1) = m_freeblock st + cost (nblk (?l + 16)) + fcost (snd nc)" by blast
  have l1: "length (?cs 1) = ?l + 16" "fcost (?cs 1) = cost (nblk (?l + 16))" by (simp_all add: fcost_def)
  have l2: "?l + 16 + 16 * length ncs = ?l + 16 * length (nc # ncs)" by simp
  have "\<exists>st'. add_files ncs st1 = Inr st' \<and> mk_ok st' (put_files ncs (m_freeinode st1) ?cs) \<and> m_freeinode st' = m_freeinode st1 + length ncs \<and>
    m_freeblock st' + fcost (?cs 1) = m_freeblock st1 + cost (nblk (length (?cs 1) + 16 * length ncs)) + sum_list (map (\<lambda>nc. fcost (snd nc)) ncs)"
    by (rule Cons.IH [OF A(2)]) (unfold l1 l2, use Cons.prems(2-6) A(3,4) in simp_all)
  then show ?case unfolding l1 l2 using A by auto
qed

lemma put_files_root: "2 \<le> i \<Longrightarrow> put_files ncs i cs 1 = cs 1 @ concat (map (\<lambda>k. dentry (i + k) (fst (ncs ! k))) [0..<length ncs])"
proof (induction ncs arbitrary: i cs)
  case (Cons nc ncs)
  have "[0..<length (nc # ncs)] = 0 # map Suc [0..<length ncs]" by (simp add: upt_conv_Cons map_Suc_upt del: upt_Suc)
  then show ?case using Cons by (simp del: upt_Suc add: comp_def)
qed simp

lemma put_files_below: "j < i \<Longrightarrow> j \<noteq> 1 \<Longrightarrow> put_files ncs i cs j = cs j"
  by (induction ncs arbitrary: i cs) auto

lemma put_files_file: "2 \<le> i \<Longrightarrow> k < length ncs \<Longrightarrow> put_files ncs i cs (i + k) = snd (ncs ! k)"
proof (induction ncs arbitrary: i cs k)
  case (Cons nc ncs)
  show ?case
  proof (cases k)
    case 0
    then show ?thesis using Cons.prems put_files_below [of i "Suc i"] by simp
  next
    case (Suc l)
    then show ?thesis using Cons.prems Cons.IH [of "Suc i" l] by simp
  qed
qed simp

subsection \<open>The image\<close>

definition image_ok :: "block list \<Rightarrow> nat \<Rightarrow> nat \<Rightarrow> (nat \<Rightarrow> byte list) \<Rightarrow> bool" where
  "image_ok img fb n cs \<longleftrightarrow> files_ok img fb {1..<2 + n} (di_of img) (\<lambda>i. nblk (length (cs i))) cs \<and>
     (\<forall>i \<in> {1..<2 + n}. (di_of img i)\<lparr>d_addrs := []\<rparr> = node i (if i = 1 then (length (cs 1) div 512 + 1) * 512 else length (cs i))) \<and>
     get_sb (img ! 1) = mk_sb \<and> (\<forall>b < 1000. bit_clear (img ! 58) b \<longleftrightarrow> fb \<le> b)"

definition dots :: "byte list" where
  "dots = dirent_bytes 1 (46 # replicate 13 0) @ dirent_bytes 1 (46 # 46 # replicate 12 0)"

definition contents :: "(byte list \<times> byte list) list \<Rightarrow> nat \<Rightarrow> byte list" where
  "contents files = put_files files 2 (\<lambda>i. if i = 1 then dots else [])"

definition blocks_used :: "(byte list \<times> byte list) list \<Rightarrow> nat" where
  "blocks_used files = 59 + cost (nblk (32 + 16 * length files)) + sum_list (map (\<lambda>nc. fcost (snd nc)) files)"

lemma mark_all:
  "n \<le> 4096 \<Longrightarrow> length (fold mark_used [0..<n] (replicate 512 0)) = 512 \<and>
    (\<forall>b < 4096. bit_clear (fold mark_used [0..<n] (replicate 512 0)) b \<longleftrightarrow> n \<le> b)"
proof (induction n)
  case 0
  then show ?case by (simp add: bit_clear_def less_mult_imp_div_less)
next
  case (Suc n)
  then show ?case by (auto simp: mark_used_bit)
qed

lemma fix_root_ok:
  assumes ok: "mk_ok st cs" and fi: "2 \<le> m_freeinode st" and len: "length (cs 1) < 2 ^ 31"
  shows "\<exists>img'. fix_root 1 st = Inr (st\<lparr>m_img := img'\<rparr>) \<and>
    files_ok img' (m_freeblock st) {1..<m_freeinode st} (di_of img') (\<lambda>i. nblk (length (cs i))) cs \<and>
    (\<forall>i \<in> {1..<m_freeinode st}. (di_of img' i)\<lparr>d_addrs := []\<rparr> = node i (if i = 1 then (length (cs 1) div 512 + 1) * 512 else length (cs i))) \<and>
    get_sb (img' ! 1) = mk_sb"
proof -
  let ?I = "{1..<m_freeinode st}" and ?sz = "(length (cs 1) div 512 + 1) * 512" and ?dis = "di_of (m_img st)"
  from ok have f: "files_ok (m_img st) (m_freeblock st) ?I ?dis (\<lambda>i. nblk (length (cs i))) cs" and sb: "get_sb (m_img st ! 1) = mk_sb"
    and nd: "\<And>j. j \<in> ?I \<Longrightarrow> (?dis j)\<lparr>d_addrs := []\<rparr> = node j (length (cs j))" unfolding mk_ok_def by blast+
  note b = files_ok_blocks [OF f]
  have I: "1 \<in> ?I" using fi by simp
  let ?di = "(?dis 1)\<lparr>d_size := ?sz\<rparr>"
  have szlt: "?sz < 2 ^ 32" using len div_le_dividend [of "length (cs 1)" 512] div_times_less_eq_dividend [of "length (cs 1)" 512] by simp
  have fits: "dinode_fits ?di" using files_ok_fits [OF f I] files_okD(7) [OF f I] szlt by (simp add: dinode_fits_def)
  have i208: "(1 :: nat) < 208" by simp
  obtain img' where W: "winode 1 ?di st = Inr (st\<lparr>m_img := img'\<rparr>)" "blocks_ok img'"
    "\<And>j. di_of img' j = (if j = 1 then ?di else ?dis j)" "\<And>b. b < 32 \<or> 58 \<le> b \<Longrightarrow> img' ! b = m_img st ! b"
    by (rule winode_in [OF b i208 fits]) blast
  have s: "slot img (di_of img' j) k = slot img (?dis j) k" "d_addrs (di_of img' j) = d_addrs (?dis j)" for img j k
    by (simp_all add: W(3) slot_def)
  have f1: "files_ok (m_img st) (m_freeblock st) ?I (di_of img') (\<lambda>i. nblk (length (cs i))) cs" using f unfolding files_ok_def s .
  have "files_ok img' (m_freeblock st) ?I (di_of img') (\<lambda>i. nblk (length (cs i))) cs"
    by (rule files_ok_meta [OF f1 W(2)]) (use W(4) in auto)
  moreover have "(di_of img' i)\<lparr>d_addrs := []\<rparr> = node i (if i = 1 then ?sz else length (cs i))" if "i \<in> ?I" for i
    using W(3) [of i] nd [OF that] node_upd [OF nd [OF I], of ?sz] by simp
  moreover have "fix_root 1 st = Inr (st\<lparr>m_img := img'\<rparr>)"
    using rinode_in [OF b i208] nd [OF I] W(1) by (cases "?dis 1") (simp add: fix_root_def BSIZE_def node_def)
  ultimately show ?thesis using W(4) [of 1] sb by auto
qed

lemma mkfs_image:
  assumes "\<forall>nc \<in> set files. file_fits nc" and "length files \<le> 206" and "blocks_used files \<le> 1000"
  shows "\<exists>img. mkfs files = Inr img \<and> image_ok img (blocks_used files) (length files) (contents files)"
proof -
  obtain st1 where A: "mk_ialloc T_DIR mkfs_start = Inr (1, st1)" "mk_ok st1 (\<lambda>_. [])" "m_freeinode st1 = 2" "m_freeblock st1 = 59"
    using mk_ialloc_ok [of mkfs_start "\<lambda>_. []" T_DIR] mkfs_start_ok by (auto simp: fun_upd_idem numeral_2_eq_2)
  have c1: "cost (nblk 16) = 1" "cost (nblk 32) = 1" "cost (nblk 0) = 0" by (simp_all add: cost_def nblk_def)
  let ?d1 = "dirent_bytes 1 (46 # replicate 13 0)" and ?d2 = "dirent_bytes 1 (46 # 46 # replicate 12 0)"
  have dl: "length ?d1 = 16" "length ?d2 = 16" by (simp_all add: length_dirent_bytes)
  obtain st2 where B: "iappend 1 ?d1 st1 = Inr st2" "mk_ok st2 ((\<lambda>_. [])(1 := ?d1))" "m_freeinode st2 = 2" "m_freeblock st2 = 60"
    using iappend_ok [OF A(2), of 1 ?d1] A(3,4) c1 dl by auto
  have two: "(\<lambda>_. [])(Suc 0 := ?d1 @ ?d2) = (\<lambda>i. if i = Suc 0 then dots else [])" by (auto simp: fun_eq_iff dots_def)
  obtain st3 where C: "iappend 1 ?d2 st2 = Inr st3" "mk_ok st3 (\<lambda>i. if i = 1 then dots else [])" "m_freeinode st3 = 2" "m_freeblock st3 = 60"
    using iappend_ok [OF B(2), of 1 ?d2] B(3,4) c1 dl by (auto simp: two [unfolded One_nat_def])
  have ld: "length dots = 32" using dl by (simp add: dots_def)
  obtain st4 where E: "add_files files st3 = Inr st4" "mk_ok st4 (contents files)" "m_freeinode st4 = 2 + length files"
    "m_freeblock st4 = blocks_used files"
    using add_files_ok [OF C(2), of files] C(3,4) assms ld c1(2) by (auto simp: contents_def blocks_used_def fcost_def)
  have "concat (map f ks) = ys \<Longrightarrow> (\<forall>k \<in> set ks. length (f k) = 16) \<Longrightarrow> length ys = 16 * length ks" for f :: "nat \<Rightarrow> byte list" and ks ys
    by (induction ks arbitrary: ys) auto
  then have rl: "length (contents files 1) = 32 + 16 * length files"
    using put_files_root [of 2 files] ld by (simp add: contents_def)
  then have rl': "length (contents files 1) < 2 ^ 31" "2 \<le> m_freeinode st4" using assms(2) E(3) by simp_all
  obtain img5 where F: "fix_root 1 st4 = Inr (st4\<lparr>m_img := img5\<rparr>)"
    "files_ok img5 (blocks_used files) {1..<2 + length files} (di_of img5) (\<lambda>i. nblk (length (contents files i))) (contents files)"
    "\<forall>i \<in> {1..<2 + length files}. (di_of img5 i)\<lparr>d_addrs := []\<rparr> =
      node i (if i = 1 then (length (contents files 1) div 512 + 1) * 512 else length (contents files i))"
    "get_sb (img5 ! 1) = mk_sb"
    using fix_root_ok [OF E(2) rl'(2,1)] E(3,4) by auto
  note b5 = files_ok_blocks [OF F(2)]
  let ?m = "fold mark_used [0..<blocks_used files] (replicate BSIZE 0)" and ?img = "img5[58 := fold mark_used [0..<blocks_used files] (replicate BSIZE 0)]"
  have m: "length ?m = 512" "\<forall>b < 4096. bit_clear ?m b \<longleftrightarrow> blocks_used files \<le> b"
    using mark_all [of "blocks_used files"] assms(3) by (simp_all add: BSIZE_def)
  have di: "di_of ?img i = di_of img5 i" if "i < 2 + length files" for i using that assms(2) by (simp add: di_of_def less_mult_imp_div_less)
  have "files_ok ?img (blocks_used files) {1..<2 + length files} (di_of ?img) (\<lambda>i. nblk (length (contents files i))) (contents files)"
    by (rule files_ok_meta [OF F(2)]) (use b5 m(1) di in \<open>auto simp: blocks_ok_def nth_list_update\<close>)
  then have "image_ok ?img (blocks_used files) (length files) (contents files)"
    using F(3,4) di b5 m(2) by (simp add: image_ok_def blocks_ok_def)
  moreover have "mkfs files = Inr ?img"
    using A(1) B(1) C(1) E(1,4) F(1) b5 assms(3) by (simp add: mkfs_def ROOTINO_def mk_balloc_def BSIZE_def wsect_in blocks_ok_def)
  ultimately show ?thesis by blast
qed
subsection \<open>The kernel on the image\<close>

lemma mk_bitmap: "bitmap mk_sb = {58}"
  by (auto simp: bitmap_def image_iff) (rule exI [of _ 0], simp)

lemma image_fs_ok:
  assumes img: "image_ok (fs_blk s) fb n cs" and sb: "fs_sb s = mk_sb"
  shows "fs_ok s" "b < 1000 \<Longrightarrow> used s b \<longleftrightarrow> b < fb"
proof -
  from img have f: "files_ok (fs_blk s) fb {1..<2 + n} (di_of (fs_blk s)) (\<lambda>i. nblk (length (cs i))) cs"
    and bm: "\<forall>b < 1000. bit_clear (fs_blk s ! 58) b \<longleftrightarrow> fb \<le> b" unfolding image_ok_def by blast+
  have us: "used s b \<longleftrightarrow> b < fb" if "b < 1000" for b using bm that by (auto simp: used_def sb BPB_def not_le)
  then show "b < 1000 \<Longrightarrow> used s b \<longleftrightarrow> b < fb" .
  show "fs_ok s" using files_okD(1,2) [OF f] files_ok_fb [OF f] us by (auto simp: fs_ok_def sb mk_bitmap)
qed

text \<open>An inode in the cache that has been read from the image.\<close>

lemma image_file_ok:
  assumes img: "image_ok (fs_blk s) fb n cs" and sb: "fs_sb s = mk_sb" and n: "n \<le> 206"
    and ip: "ip < length (fs_inode s)" "i_dev (fs_inode s ! ip) = 1" "i_inum (fs_inode s ! ip) = i" "i_addrs (fs_inode s ! ip) = d_addrs (di_of (fs_blk s) i)"
    and i: "1 \<le> i" "i < 2 + n"
  shows "file_ok s ip" "k < 140 \<Longrightarrow> blockof s ip k \<noteq> 0 \<longleftrightarrow> k < nblk (length (cs i))"
    "off < 512 * nblk (length (cs i)) \<Longrightarrow> fbyte s ip off = pad (cs i) off"
proof -
  let ?img = "fs_blk s" and ?di = "di_of (fs_blk s) i" and ?nb = "nblk (length (cs i))"
  from img have f: "files_ok ?img fb {1..<2 + n} (di_of ?img) (\<lambda>i. nblk (length (cs i))) cs" unfolding image_ok_def by blast
  note D = files_okD [OF f]
  have I: "i \<in> {1..<2 + n}" using i by simp
  have ad: "addr_of s ip k = d_addrs ?di ! k" for k using ip(4) by (simp add: addr_of_def)
  have bo: "blockof s ip k = slot ?img ?di k" if "k < 140" for k using that by (simp add: blockof_def slot_def ad)
  have s140: "addr_of s ip 12 = slot ?img ?di 140" by (simp add: ad slot_140)
  have h: "has ?nb k \<longleftrightarrow> slot ?img ?di k \<noteq> 0" if "k \<le> 140" for k using D(10) [OF I, of k] D(11) [OF I that] by fastforce
  have hk: "has ?nb k \<longleftrightarrow> k < ?nb" if "k < 140" for k using that by (auto simp: has_def)
  show nz: "blockof s ip k \<noteq> 0 \<longleftrightarrow> k < ?nb" if "k < 140" for k using h [of k] hk that bo by simp
  have ib: "iblk s ip = i div 8 + 32" "i div 8 + 32 < 58" using ip(3) i n by (simp_all add: iblk_def sb less_mult_imp_div_less)
  have own: "\<exists>k \<le> 140. has ?nb k \<and> a = slot ?img ?di k" if a: "a \<in> owned s ip" for a
  proof -
    from a consider "a = slot ?img ?di 140" "a \<noteq> 0" | k where "k < 140" "a = slot ?img ?di k" "a \<noteq> 0"
      unfolding owned_def using bo s140 by auto
    then show ?thesis
    proof cases
      case 1
      then show ?thesis using h [of 140] by blast
    next
      case 2
      then show ?thesis using h [of k] by (intro exI [of _ k]) auto
    qed
  qed
  have blk: "block_ok s ip a" if "a \<in> owned s ip" for a
  proof -
    have "59 \<le> a" "a < fb" using own [OF that] D(10) [OF I] by auto
    then show ?thesis using D(5) image_fs_ok(2) [OF img sb] ib by (auto simp: block_ok_def sb mk_bitmap)
  qed
  have inj: "k = l" if "k < 140" "l < 140" "blockof s ip k = blockof s ip l" "blockof s ip k \<noteq> 0" for k l
    using D(13) [OF I I] that bo h by (metis less_imp_le)
  have ind: "blockof s ip k = 0" if "k < 140" "blockof s ip k = addr_of s ip 12" for k
  proof (rule ccontr)
    assume "blockof s ip k \<noteq> 0"
    then have "has ?nb k" "has ?nb 140" "slot ?img ?di k = slot ?img ?di 140" using that bo s140 h [of k] h [of 140] by simp_all
    then show False using D(13) [OF I I] that(1) by blast
  qed
  have "used s (iblk s ip)" using image_fs_ok(2) [OF img sb, of "iblk s ip"] ib files_ok_fb [OF f] by simp
  then show "file_ok s ip"
    unfolding file_ok_def using image_fs_ok(1) [OF img sb] ip D(1) D(7) [OF I] ib blk inj ind by (auto simp: sb mk_bitmap)
  show "fbyte s ip off = pad (cs i) off" if "off < 512 * ?nb"
  proof -
    have lt: "off div 512 < ?nb" "off div 512 < 140" using that D(8) [OF I] by (simp_all add: div_less_iff_less_mult mult.commute)
    then show ?thesis using nz [of "off div 512"] D(12) [OF I that] bo by (simp add: fbyte_def)
  qed
qed

definition loaded :: "int \<Rightarrow> nat \<Rightarrow> int \<Rightarrow> dinode \<Rightarrow> inode" where
  "loaded me i r di = \<lparr>i_dev = 1, i_inum = i, i_ref = r, i_lock = Some me, i_valid = True, i_type = d_type di, i_major = d_major di,
     i_minor = d_minor di, i_nlink = d_nlink di, i_size = d_size di, i_addrs = d_addrs di\<rparr>"

definition fetched :: "nat \<Rightarrow> inode" where
  "fetched i = no_inode\<lparr>i_dev := 1, i_inum := i, i_ref := 1\<rparr>"

lemma ilock_image:
  assumes "fs_sb s = mk_sb" and "length (fs_blk s) = 1000" and "i < 208" and "ip < length (fs_inode s)" and "fs_inode s ! ip = fetched i"
    and "d_type (di_of (fs_blk s) i) \<noteq> 0"
  shows "ilock me ip s = Inr (s\<lparr>fs_inode := (fs_inode s)[ip := loaded me i 1 (di_of (fs_blk s) i)]\<rparr>)"
  using assms
  by (simp add: ilock_def acquiresleep_inode_def fetched_def no_inode_def upd_inode_def Let_def rd_blk_def di_of_def IPB_def loaded_def)

lemma node_fields:
  assumes "di\<lparr>d_addrs := []\<rparr> = node i len"
  shows "d_type di = (if i = 1 then T_DIR else T_FILE)" "d_nlink di = 1" "d_size di = len"
  using assms by (cases di; simp add: node_def)+

lemma strncmp_names:
  assumes "0 \<notin> set a" "0 \<notin> set b"
  shows "strncmp n (if n \<le> length a then take n a else a @ [0]) (take n (b @ replicate n 0)) = Inr 0 \<longleftrightarrow> take n a = take n b"
  using assms
proof (induction n arbitrary: a b)
  case (Suc n)
  have r: "take n (ys @ replicate (Suc n) (0 :: byte)) = take n (ys @ replicate n 0)" for ys
  proof -
    have "take (n - length ys) (replicate (Suc n) (0 :: byte)) = take (n - length ys) (replicate n 0)"
      unfolding take_replicate by (simp add: min_def)
    then show ?thesis by (simp del: replicate_Suc take_replicate)
  qed
  have u: "uint x - uint y = 0 \<longleftrightarrow> x = y" for x y :: byte by (simp add: word_uint_eq_iff)
  show ?case
  proof (cases a)
    case Nil
    then show ?thesis using Suc.prems u [of 0] by (cases b) auto
  next
    case (Cons x a')
    show ?thesis
    proof (cases b)
      case Nil
      then show ?thesis using Cons Suc.prems u [of x 0] by simp
    next
      case (Cons y b')
      have p: "(if Suc n \<le> length a then take (Suc n) a else a @ [0]) = x # (if n \<le> length a' then take n a' else a' @ [0])"
        using \<open>a = x # a'\<close> by simp
      have q: "take (Suc n) (b @ replicate (Suc n) 0) = y # take n (b' @ replicate n 0)" using Cons r [of b'] by simp
      show ?thesis
        unfolding p q using Suc.IH [of a' b'] Suc.prems \<open>a = x # a'\<close> Cons u [of x y] by auto
    qed
  qed
qed simp

lemma skipelem_name:
  assumes "nm \<noteq> []" "47 \<notin> set nm"
  shows "skipelem (47 # nm) = Some ([], if 14 \<le> length nm then take 14 nm else nm @ [0])"
proof -
  have "hd nm \<noteq> 47" using assms hd_in_set by metis
  then have d: "dropWhile (\<lambda>c. c = 47) (47 # nm) = nm" using assms(1) by (cases nm) auto
  have t: "takeWhile (\<lambda>c. c \<noteq> 47) nm = nm" "dropWhile (\<lambda>c. c \<noteq> 47) nm = []" using assms(2) by (auto simp: takeWhile_eq_all_conv dropWhile_eq_Nil_conv)
  show ?thesis unfolding skipelem_def Let_def d t DIRSIZ_def using assms(1) by simp
qed

subsection \<open>The root directory\<close>

definition ents :: "(byte list \<times> byte list) list \<Rightarrow> byte list list" where
  "ents files = [dirent_bytes 1 (46 # replicate 13 0), dirent_bytes 1 (46 # 46 # replicate 12 0)] @
     map (\<lambda>k. dentry (2 + k) (fst (files ! k))) [0..<length files]"

lemma contents_root: "contents files 1 = concat (ents files)"
  using put_files_root [of 2 files] by (simp add: contents_def ents_def dots_def)

lemma contents_file: "k < length files \<Longrightarrow> contents files (2 + k) = snd (files ! k)"
  unfolding contents_def by (rule put_files_file) simp_all

lemma ents_length: "length (ents files) = 2 + length files" "e \<in> set (ents files) \<Longrightarrow> length e = 16"
  by (auto simp: ents_def length_dirent_bytes)

lemma length_chunks: "(\<And>x. x \<in> set xss \<Longrightarrow> length x = 16) \<Longrightarrow> length (concat xss) = 16 * length xss"
  by (induction xss) auto

lemma nth_chunk: "(\<And>x. x \<in> set xss \<Longrightarrow> length x = 16) \<Longrightarrow> j < length xss \<Longrightarrow> k < 16 \<Longrightarrow> concat xss ! (16 * j + k) = xss ! j ! k"
proof (induction xss arbitrary: j)
  case (Cons x xss)
  then show ?case by (cases j) (simp_all add: nth_append)
qed simp
definition enames :: "(byte list \<times> byte list) list \<Rightarrow> byte list list" where
  "enames files = [[46], [46, 46]] @ map (strip_underscore \<circ> fst) files"

text \<open>What \<open>mkfs\<close> is given: names without slashes and zero bytes, which differ in their first 14 bytes, also from \<open>.\<close> and \<open>..\<close>; at most 198 files
  of up to 140 blocks; they fit into the image; and the directory does not fill its last block.\<close>

definition good_files :: "(byte list \<times> byte list) list \<Rightarrow> bool" where
  "good_files files \<longleftrightarrow> (\<forall>nc \<in> set files. file_fits nc \<and> strip_underscore (fst nc) \<noteq> []) \<and> distinct (map (take DIRSIZ) (enames files)) \<and>
     length files \<le> 198 \<and> blocks_used files \<le> 1000 \<and> (2 + length files) mod 32 \<noteq> 0"

lemma nth_ents:
  assumes "j < 2 + length files"
  shows "ents files ! j = dirent_bytes (if j < 2 then 1 else j) (take 14 (enames files ! j @ replicate 14 0))"
proof -
  consider "j = 0" | "j = 1" | l where "j = 2 + l" by (metis One_nat_def less_2_cases le_Suc_ex not_less)
  then show ?thesis
  proof cases
    case (3 l)
    then show ?thesis using assms by (simp add: ents_def enames_def dentry_def dname_def nth_append)
  qed (simp_all add: ents_def enames_def)
qed

lemma root_dir:
  assumes img: "image_ok (fs_blk s) fb (length files) (contents files)" and sb: "fs_sb s = mk_sb" and n: "length files \<le> 198" "(2 + length files) mod 32 \<noteq> 0"
    and ip: "ip < length (fs_inode s)" "fs_inode s ! ip = loaded me 1 r (di_of (fs_blk s) 1)"
  shows "dir_ok s ip" "2 + length files \<le> nents s ip"
    "j < nents s ip \<Longrightarrow> dent s ip j = (if j < 2 + length files then ents files ! j else replicate 16 0)"
proof -
  let ?cs = "contents files" and ?i = "fs_inode s ! ip"
  define L where "L = 16 * (2 + length files)"
  have len: "length (?cs 1) = L" unfolding contents_root using length_chunks [of "ents files"] ents_length by (metis L_def)
  have nb: "nblk L = L div 512 + 1"
  proof -
    have "L mod 512 = 16 * ((2 + length files) mod 32)" using mult_mod_right [of 16 "2 + length files" 32] by (simp add: L_def)
    then have "L mod 512 \<noteq> 0" using n(2) by simp
    then show ?thesis using nblk_cases [of L] by auto
  qed
  have "(di_of (fs_blk s) 1)\<lparr>d_addrs := []\<rparr> = node 1 ((length (?cs 1) div 512 + 1) * 512)" using img by (simp add: image_ok_def)
  note N = node_fields [OF this, unfolded len]
  have I: "i_dev ?i = 1" "i_inum ?i = 1" "i_addrs ?i = d_addrs (di_of (fs_blk s) 1)" "i_type ?i = T_DIR" "i_size ?i = 512 * nblk L"
    using ip(2) N by (simp_all add: loaded_def nb)
  have n206: "length files \<le> 206" using n(1) by simp
  note K = image_file_ok [OF img sb n206 ip(1) I(1-3) order.refl, unfolded len, simplified]
  have lt: "nblk L \<le> 140" using n(1) unfolding nblk_def L_def by simp
  have lel: "L \<le> 512 * nblk L" unfolding nb by (simp add: less_imp_le)
  have mapped: "blockof s ip (o' div 512) \<noteq> 0" if "o' < 512 * nblk L" for o'
    using K(2) [of "o' div 512"] that lt by (simp add: div_less_iff_less_mult mult.commute)
  then show "dir_ok s ip" unfolding dir_ok_def I using K(1) lt by (simp add: mod_mult_left_eq)
  have ne: "nents s ip = 32 * nblk L" by (simp add: nents_def I)
  then show "2 + length files \<le> nents s ip" using lel L_def by simp
  show "dent s ip j = (if j < 2 + length files then ents files ! j else replicate 16 0)" if "j < nents s ip"
  proof (rule nth_equalityI)
    show "length (dent s ip j) = length (if j < 2 + length files then ents files ! j else replicate 16 0)"
      using ents_length(2) [of "ents files ! j" files] ents_length(1) [of files] by simp
    fix k assume "k < length (dent s ip j)"
    then have k: "k < 16" by simp
    then have "16 * j + k < 512 * nblk L" using that ne by simp
    then have "dent s ip j ! k = pad (?cs 1) (16 * j + k)" using K(3) k by (simp add: dent_at)
    also have "\<dots> = (if j < 2 + length files then ents files ! j else replicate 16 0) ! k"
    proof (cases "j < 2 + length files")
      case True
      then have "16 * j + k < length (?cs 1)" using k len L_def by simp
      then show ?thesis using True k nth_chunk [of "ents files" j k] ents_length by (simp add: pad_def contents_root [simplified])
    next
      case False
      then have "\<not> 16 * j + k < length (?cs 1)" using len L_def by simp
      then show ?thesis using False k by (simp add: pad_def)
    qed
    finally show "dent s ip j ! k = (if j < 2 + length files then ents files ! j else replicate 16 0) ! k" .
  qed
qed

lemma matches_ent:
  assumes "j < 2 + length files" "length files \<le> 198" "0 \<notin> set a" "0 \<notin> set (enames files ! j)"
  shows "matches (if 14 \<le> length a then take 14 a else a @ [0]) (ents files ! j) \<longleftrightarrow> take 14 a = take 14 (enames files ! j)"
proof -
  let ?i = "if j < 2 then 1 else j" and ?nm = "take 14 (enames files ! j @ replicate 14 0)"
  have e: "ents files ! j = bytes16 (word_of_nat ?i) @ ?nm" using nth_ents [OF assms(1)] by (simp add: dirent_bytes_def)
  have i: "?i mod 65536 = ?i" "?i \<noteq> 0" using assms(1,2) by auto
  have "unat (word_of_nat ?i :: 16 word) = ?i" using i(1) unfolding unat_of_nat by simp
  then have "(word_of_nat ?i :: 16 word) \<noteq> 0" using i(2) by (metis unsigned_0)
  then have "de_inum (ents files ! j) \<noteq> 0" unfolding e by (simp add: de_inum_def rd16_bytes16)
  moreover have "de_name (ents files ! j) = ?nm" unfolding e by (simp add: de_name_def DIRSIZ_def bytes16_def)
  ultimately show ?thesis using strncmp_names [OF assms(3,4), of 14] by (simp add: matches_def namecmp_def DIRSIZ_def)
qed
subsection \<open>From the program that makes the image to the kernel that reads it\<close>

text \<open>The kernel after \<open>iinit\<close> on the image: nothing is in the inode cache.\<close>

definition booted :: "block list \<Rightarrow> fsys \<Rightarrow> bool" where
  "booted img s \<longleftrightarrow> fs_blk s = img \<and> fs_inode s = replicate NINODE no_inode"

definition with_nodes :: "fsys \<Rightarrow> inode list \<Rightarrow> fsys" where
  "with_nodes s xs = s\<lparr>fs_inode := xs @ replicate (NINODE - length xs) no_inode\<rparr>"

lemma iinit_image: "booted img s \<Longrightarrow> length img = 1000 \<Longrightarrow> get_sb (img ! 1) = mk_sb \<Longrightarrow> iinit 1 s = Inr (s\<lparr>fs_sb := mk_sb\<rparr>)"
  by (simp add: iinit_def readsb_def rd_blk_def booted_def no_inode_def)

lemma find_slot_append:
  "\<forall>x \<in> set xs. \<not> P x \<Longrightarrow> P y \<Longrightarrow> find_slot P (xs @ y # ys) = Some (length xs)"
  by (induction xs) auto

text \<open>\<open>iget\<close> of an inode that is not in the cache takes the next slot.\<close>

lemma iget_next:
  assumes "fs_inode s = xs @ replicate (Suc m) no_inode" and "\<forall>x \<in> set xs. 0 < i_ref x \<and> i_inum x \<noteq> i"
  shows "iget 1 i s = Inr (length xs, s\<lparr>fs_inode := xs @ [fetched i] @ replicate m no_inode\<rparr>)"
proof -
  have n: "find_slot (\<lambda>x. i_ref x > 0 \<and> i_dev x = 1 \<and> i_inum x = i) (fs_inode s) = None"
    using assms by (auto simp: find_slot_None no_inode_def)
  have "find_slot (\<lambda>x. i_ref x = 0) (fs_inode s) = Some (length xs)"
    unfolding assms(1) replicate_Suc by (rule find_slot_append) (use assms(2) in \<open>auto simp: no_inode_def\<close>)
  then show ?thesis using n assms(1) by (simp add: iget_def upd_inode_def fetched_def nth_append list_update_append no_inode_def)
qed

lemma put_root:
  assumes "fs_inode s = loaded me 1 1 di # xs" and "d_nlink di = 1"
  shows "iunlockput me 0 s = Inr (s\<lparr>fs_inode := (loaded me 1 1 di)\<lparr>i_lock := None, i_ref := 0\<rparr> # xs\<rparr>)"
  using assms by (simp add: iunlockput_def iunlock_def iput_def acquiresleep_inode_def upd_inode_def loaded_def)

lemma namei_image:
  assumes img: "image_ok (fs_blk s) fb (length files) (contents files)" and sb: "fs_sb s = mk_sb" and g: "good_files files" and k: "k < length files"
    and ino: "fs_inode s = replicate 50 no_inode"
  shows "\<exists>x. namei dv me cwd (47 # strip_underscore (fst (files ! k))) s = Inr (Some 1, s\<lparr>fs_inode := [x, fetched (2 + k)] @ replicate 48 no_inode\<rparr>)"
proof -
  let ?nm = "strip_underscore (fst (files ! k))" and ?n = "length files" and ?di = "di_of (fs_blk s) 1"
  let ?name = "if 14 \<le> length ?nm then take 14 ?nm else ?nm @ [0]"
  have fk: "files ! k \<in> set files" using k by simp
  have nm: "?nm \<noteq> []" "47 \<notin> set ?nm" "0 \<notin> set ?nm"
    using g fk strip_set [of "fst (files ! k)"] unfolding good_files_def file_fits_def by blast+
  have n: "?n \<le> 198" "(2 + ?n) mod 32 \<noteq> 0" using g by (simp_all add: good_files_def)
  from img have f: "files_ok (fs_blk s) fb {1..<2 + ?n} (di_of (fs_blk s)) (\<lambda>i. nblk (length (contents files i))) (contents files)"
    and N: "?di\<lparr>d_addrs := []\<rparr> = node 1 ((length (contents files 1) div 512 + 1) * 512)" by (simp_all add: image_ok_def)
  note Nf = node_fields [OF N]
  define s1 where "s1 = s\<lparr>fs_inode := fetched 1 # replicate 49 no_inode\<rparr>"
  define s2 where "s2 = s\<lparr>fs_inode := loaded me 1 1 ?di # replicate 49 no_inode\<rparr>"
  define s3 where "s3 = s\<lparr>fs_inode := [loaded me 1 1 ?di, fetched (2 + k)] @ replicate 48 no_inode\<rparr>"
  have g1: "iget 1 1 s = Inr (0, s1)" using iget_next [of s "[]" 49 1] ino by (simp add: s1_def eval_nat_numeral)
  have g2: "ilock me 0 s1 = Inr s2"
    using ilock_image [of s1 1 0 me] sb files_okD(1) [OF f] Nf(1) by (simp add: s1_def s2_def T_DIR_def)
  have e2: "fs_blk s2 = fs_blk s" "fs_sb s2 = mk_sb" "0 < length (fs_inode s2)" "fs_inode s2 ! 0 = loaded me 1 1 (di_of (fs_blk s2) 1)"
    by (simp_all add: s2_def sb)
  note R = root_dir [of s2 fb files 0 me 1, unfolded e2(1), OF img e2(2) n e2(3) e2(4) [unfolded e2(1)]]
  have name: "name_ok ?name" by (simp add: name_ok_def)
  have lk: "length (enames files) = 2 + ?n" "enames files ! (2 + k) = ?nm" using k by (simp_all add: enames_def)
  have z: "0 \<notin> set e" if e: "e \<in> set (enames files)" for e
  proof -
    consider "e = [46]" | "e = [46, 46]" | nc where "nc \<in> set files" "e = strip_underscore (fst nc)" using e unfolding enames_def by fastforce
    then show ?thesis using g strip_set unfolding good_files_def file_fits_def by cases auto
  qed
  have dist: "distinct (map (take 14) (enames files))" using g by (simp add: good_files_def DIRSIZ_def)
  have m: "matches ?name (dent s2 0 j) \<longleftrightarrow> j = 2 + k" if "j < nents s2 0" for j
  proof (cases "j < 2 + ?n")
    case True
    then have "matches ?name (dent s2 0 j) \<longleftrightarrow> take 14 ?nm = take 14 (enames files ! j)"
      using R(3) [OF that] matches_ent [OF True n(1) nm(3)] z lk(1) by simp
    also have "\<dots> \<longleftrightarrow> j = 2 + k"
      using dist True k lk nth_eq_iff_index_eq [OF dist, of j "2 + k"] by auto
    finally show ?thesis .
  next
    case False
    then have "de_inum (dent s2 0 j) = 0" using R(3) [OF that] by (simp add: de_inum_def rd16_def)
    then show ?thesis using False k by (simp add: matches_def)
  qed
  have "find (\<lambda>j. matches ?name (dent s2 0 j)) [0..<nents s2 0] = Some (2 + k)"
    by (rule find_unique) (use m R(2) k in auto)
  moreover have "unat (de_inum (dent s2 0 (2 + k))) = 2 + k"
  proof -
    have "dent s2 0 (2 + k) = bytes16 (word_of_nat (2 + k)) @ take 14 (enames files ! (2 + k) @ replicate 14 0)"
      using R(2) R(3) [of "2 + k"] k nth_ents [of "2 + k" files] by (simp add: dirent_bytes_def)
    then have "de_inum (dent s2 0 (2 + k)) = word_of_nat (2 + k)" by (simp only: de_inum_def rd16_bytes16)
    moreover have "(2 + k) mod 65536 = 2 + k" using k n(1) by simp
    ultimately show ?thesis by (simp only: unat_of_nat) simp
  qed
  moreover have "iget 1 (2 + k) s2 = Inr (1, s3)"
    using iget_next [of s2 "[loaded me 1 1 ?di]" 48 "2 + k"] by (simp add: s2_def s3_def eval_nat_numeral loaded_def)
  ultimately have g3: "dirlookup dv 0 ?name s2 = Inr (Some (1, 16 * (2 + k)), s3)" unfolding dirlookup_spec [OF R(1) name] by simp
  have g4: "iunlockput me 0 s3 = Inr (s\<lparr>fs_inode := [(loaded me 1 1 ?di)\<lparr>i_lock := None, i_ref := 0\<rparr>, fetched (2 + k)] @ replicate 48 no_inode\<rparr>)"
    using put_root [of s3 me ?di] Nf(2) by (simp add: s3_def)
  have t: "i_type (fs_inode s2 ! 0) = T_DIR" using Nf(1) by (simp add: s2_def loaded_def)
  have last: "namex_loop dv me False [] nm' ip' s' = Inr ((Some ip', nm'), s')" for nm' ip' s'
    by (subst namex_loop.simps) (simp add: skipelem_def)
  have "namex_loop dv me False (47 # ?nm) [] 0 s1 =
      Inr ((Some 1, ?name), s\<lparr>fs_inode := [(loaded me 1 1 ?di)\<lparr>i_lock := None, i_ref := 0\<rparr>, fetched (2 + k)] @ replicate 48 no_inode\<rparr>)"
    by (subst namex_loop.simps) (simp only: skipelem_name [OF nm(1,2)] option.case prod.case g2 ebind_simps t g3 g4 last not_True_eq_False not_False_eq_True if_False if_True
        simp_thms)
  then have "namei dv me cwd (47 # ?nm) s = Inr (Some 1, s\<lparr>fs_inode := [(loaded me 1 1 ?di)\<lparr>i_lock := None, i_ref := 0\<rparr>, fetched (2 + k)] @ replicate 48 no_inode\<rparr>)"
    using g1 by (simp add: namei_def namex_def ROOTDEV_def ROOTINO_def)
  then show ?thesis by blast
qed
text \<open>C3: the round trip from the image maker to the kernel. For names without slashes and zero bytes that differ in their first 14 bytes, and contents that
  fit, \<open>mkfs\<close> succeeds. A kernel that starts on the image reads the superblock, finds a well-formed free map in which exactly the first
  \<open>blocks_used\<close> blocks are marked, \<open>namei\<close> of \<open>/\<close> and the name (without a leading underscore) finds the file, and \<open>readi\<close> returns exactly
  the contents that \<open>mkfs\<close> was given.\<close>

theorem mkfs_namei_readi:
  assumes g: "good_files files" and k: "k < length files"
  shows "\<exists>img. mkfs files = Inr img \<and>
    (\<forall>s. booted img s \<longrightarrow>
      (\<exists>s1 s2 s3 ip. iinit 1 s = Inr s1 \<and> fs_ok s1 \<and> (\<forall>b < FSSIZE. used s1 b \<longleftrightarrow> b < blocks_used files) \<and>
        namei dv me cwd (47 # strip_underscore (fst (files ! k))) s1 = Inr (Some ip, s2) \<and> ilock me ip s2 = Inr s3 \<and>
        stati ip s3 = \<lparr>st_type = T_FILE, st_dev = 1, st_ino = 2 + k, st_nlink = 1, st_size = length (snd (files ! k))\<rparr> \<and>
        readi dv ip 0 (length (snd (files ! k))) s3 = Inr (Some (snd (files ! k)), s3)))"
proof -
  let ?c = "snd (files ! k)" and ?n = "length files" and ?i = "2 + k"
  from g have fits: "\<forall>nc \<in> set files. file_fits nc" "?n \<le> 206" "blocks_used files \<le> 1000" by (auto simp: good_files_def)
  obtain img where I: "mkfs files = Inr img" "image_ok img (blocks_used files) ?n (contents files)" using mkfs_image [OF fits] by blast
  from I(2) have f: "files_ok img (blocks_used files) {1..<2 + ?n} (di_of img) (\<lambda>i. nblk (length (contents files i))) (contents files)"
    and sb: "get_sb (img ! 1) = mk_sb" and N: "(di_of img ?i)\<lparr>d_addrs := []\<rparr> = node ?i (length ?c)"
    using k contents_file [OF k] by (simp_all add: image_ok_def)
  note Nf = node_fields [OF N]
  have "\<exists>s1 s2 s3 ip. iinit 1 s = Inr s1 \<and> fs_ok s1 \<and> (\<forall>b < FSSIZE. used s1 b \<longleftrightarrow> b < blocks_used files) \<and>
        namei dv me cwd (47 # strip_underscore (fst (files ! k))) s1 = Inr (Some ip, s2) \<and> ilock me ip s2 = Inr s3 \<and>
        stati ip s3 = \<lparr>st_type = T_FILE, st_dev = 1, st_ino = ?i, st_nlink = 1, st_size = length ?c\<rparr> \<and>
        readi dv ip 0 (length ?c) s3 = Inr (Some ?c, s3)" if b: "booted img s" for s
  proof -
    define s1 where "s1 = s\<lparr>fs_sb := mk_sb\<rparr>"
    have e1: "fs_blk s1 = img" "fs_sb s1 = mk_sb" "fs_inode s1 = replicate 50 no_inode" using b by (simp_all add: s1_def booted_def NINODE_def)
    have r1: "iinit 1 s = Inr s1" using iinit_image [OF b files_okD(1) [OF f] sb] by (simp add: s1_def)
    note ok1 = image_fs_ok [of s1, unfolded e1(1), OF I(2) e1(2)]
    obtain x where r2: "namei dv me cwd (47 # strip_underscore (fst (files ! k))) s1 =
        Inr (Some 1, s1\<lparr>fs_inode := [x, fetched ?i] @ replicate 48 no_inode\<rparr>)"
      using namei_image [of s1, unfolded e1(1), OF I(2) e1(2) g k e1(3)] by blast
    define s2 where "s2 = s1\<lparr>fs_inode := [x, fetched ?i] @ replicate 48 no_inode\<rparr>"
    define s3 where "s3 = s1\<lparr>fs_inode := [x, loaded me ?i 1 (di_of img ?i)] @ replicate 48 no_inode\<rparr>"
    have r3: "ilock me 1 s2 = Inr s3"
      using ilock_image [of s2 ?i 1 me] e1 files_okD(1) [OF f] k fits(2) Nf(1) by (simp add: s2_def s3_def T_FILE_def)
    have e3: "fs_blk s3 = img" "fs_sb s3 = mk_sb" "1 < length (fs_inode s3)" "fs_inode s3 ! 1 = loaded me ?i 1 (di_of img ?i)"
      by (simp_all add: s3_def e1)
    have L: "i_dev (fs_inode s3 ! 1) = 1" "i_inum (fs_inode s3 ! 1) = ?i" "i_addrs (fs_inode s3 ! 1) = d_addrs (di_of img ?i)"
      "i_type (fs_inode s3 ! 1) = T_FILE" "i_size (fs_inode s3 ! 1) = length ?c" "i_nlink (fs_inode s3 ! 1) = 1"
      unfolding e3(4) using Nf by (simp_all add: loaded_def)
    have i: "1 \<le> ?i" "?i < 2 + ?n" using k by simp_all
    note K = image_file_ok [of s3, unfolded e3(1), OF I(2) e3(2) fits(2) e3(3) L(1-3) i, unfolded contents_file [OF k]]
    have len: "length ?c \<le> 140 * 512" using fits(1) k by (simp add: file_fits_def)
    have le: "length ?c \<le> 512 * nblk (length ?c)" using files_okD(9) [OF f, of ?i] k contents_file [OF k] by simp
    have "blockof s3 1 (o' div 512) \<noteq> 0" if "o' < length ?c" for o'
      using K(2) [of "o' div 512"] that len le by (simp add: div_less_iff_less_mult mult.commute)
    then have "readi_loop 1 0 (length ?c) s3 = Inr (map (fbyte s3 1) [0..<length ?c], s3)" using readi_loop_present [OF K(1), of 0 "length ?c"] len by simp
    moreover have "map (fbyte s3 1) [0..<length ?c] = ?c"
      by (rule nth_equalityI) (use K(3) le in \<open>simp_all add: pad_def\<close>)
    ultimately have r4: "readi dv 1 0 (length ?c) s3 = Inr (Some ?c, s3)" using L(4,5) len by (simp add: readi_def Let_def T_FILE_def T_DEV_def)
    have r5: "stati 1 s3 = \<lparr>st_type = T_FILE, st_dev = 1, st_ino = ?i, st_nlink = 1, st_size = length ?c\<rparr>"
      unfolding stati_def Let_def L by simp
    have "\<forall>b < FSSIZE. used s1 b \<longleftrightarrow> b < blocks_used files" using ok1(2) by (simp add: FSSIZE_def)
    then show ?thesis using r1 ok1(1) r2 [folded s2_def] r3 r4 r5 by blast
  qed
  then show ?thesis using I(1) by blast
qed

theorem mkfs_namei_readi_witness:
  "\<exists>img. mkfs [([95, 97], [7, 8, 9])] = Inr img \<and>
    (\<forall>s. booted img s \<longrightarrow> (\<exists>s1 s2 s3 ip. iinit 1 s = Inr s1 \<and> namei no_dev 1 0 [47, 97] s1 = Inr (Some ip, s2) \<and>
      ilock 1 ip s2 = Inr s3 \<and> readi no_dev ip 0 3 s3 = Inr (Some [7, 8, 9], s3)))"
proof -
  have g: "good_files [([95, 97], [7, 8, 9])]"
    by (simp add: good_files_def file_fits_def strip_underscore_def enames_def DIRSIZ_def blocks_used_def cost_def nblk_def fcost_def)
  have k: "0 < length [([95, 97 :: byte], [7, 8, 9 :: byte])]" by simp
  show ?thesis using mkfs_namei_readi [OF g k, of no_dev 1 0] by (simp add: strip_underscore_def numeral_3_eq_3) meson
qed

text \<open>When the entries fill the blocks of the root directory exactly, the size that \<open>mkfs\<close> gives to the directory covers one more block,
  which is not there.\<close>

lemma full_directory_has_hole:
  assumes "\<forall>nc \<in> set files. file_fits nc" and "length files \<le> 198" and "blocks_used files \<le> 1000" and "(2 + length files) mod 32 = 0"
  shows "\<exists>img. mkfs files = Inr img \<and> d_size (di_of img 1) = (length (contents files 1) div 512 + 1) * 512 \<and>
    slot img (di_of img 1) (length (contents files 1) div 512) = 0"
proof -
  have "length files \<le> 206" using assms(2) by simp
  then obtain img where I: "mkfs files = Inr img" "image_ok img (blocks_used files) (length files) (contents files)" using mkfs_image assms by blast
  from I(2) have f: "files_ok img (blocks_used files) {1..<2 + length files} (di_of img) (\<lambda>i. nblk (length (contents files i))) (contents files)"
    and N: "(di_of img 1)\<lparr>d_addrs := []\<rparr> = node 1 ((length (contents files 1) div 512 + 1) * 512)" by (simp_all add: image_ok_def)
  have len: "length (contents files 1) = 16 * (2 + length files)"
    unfolding contents_root using length_chunks [of "ents files"] ents_length by metis
  have "16 * (2 + length files) mod 512 = 0" using mult_mod_right [of 16 "2 + length files" 32] assms(4) by simp
  then have nb: "nblk (length (contents files 1)) = length (contents files 1) div 512"
    using nblk_cases [of "length (contents files 1)"] len by simp
  have "length (contents files 1) div 512 \<le> 140" using files_okD(8) [OF f, of 1] nb by simp
  then have "slot img (di_of img 1) (length (contents files 1) div 512) = 0"
    using files_okD(11) [OF f, of 1 "length (contents files 1) div 512"] nb len assms(2) by (auto simp: has_def)
  then show ?thesis using I(1) node_fields(3) [OF N] by blast
qed

end
