(* ===== verification/XV6_Utils.thy ===== *)
theory XV6_Utils
  imports XV6_String
begin

text \<open>
  User programs of xv6 that filter their input: \<open>src/project3/xv6-modified/grep.c\<close>, \<open>wc.c\<close> and \<open>cat.c\<close>. A pattern
  and a text are the bytes of a string before its final zero, so the empty list is the string at its end. The input of a
  program is the list of what the file descriptor delivers: one element for a regular file, one for each piece that a
  writer has put into a pipe or a line on the console, \<open>None\<close> for a failing \<open>read\<close>. The lemmas show that the matcher
  decides the language of its pattern, which lines \<open>grep\<close> prints, and that \<open>wc\<close> counts lines, words and bytes however the
  input is cut into pieces.
\<close>

subsection \<open>The matcher\<close>

function matchhere :: "byte list \<Rightarrow> byte list \<Rightarrow> bool"
  and matchstar :: "byte \<Rightarrow> byte list \<Rightarrow> byte list \<Rightarrow> bool" where
  "matchhere re text =
     (case re of
        [] \<Rightarrow> True
      | r # re1 \<Rightarrow>
          if re1 \<noteq> [] \<and> hd re1 = 42 then matchstar r (tl re1) text
          else if r = 36 \<and> re1 = [] then text = []
          else if text \<noteq> [] \<and> (r = 46 \<or> r = hd text) then matchhere re1 (tl text)
          else False)"
| "matchstar c re text =
     (if matchhere re text then True
      else if text \<noteq> [] \<and> (hd text = c \<or> c = 46) then matchstar c re (tl text)
      else False)"
  by pat_completeness auto
termination
  by (relation "measure (case_sum (\<lambda>(re, text). length re + length text) (\<lambda>(c, re, text). length re + length text + 1))") auto

declare matchhere.simps [simp del] matchstar.simps [simp del]

fun match_from :: "byte list \<Rightarrow> byte list \<Rightarrow> bool" where
  "match_from re [] = matchhere re []"
| "match_from re (c # text) = (matchhere re (c # text) \<or> match_from re text)"

definition match :: "byte list \<Rightarrow> byte list \<Rightarrow> bool" where
  "match re text = (if re \<noteq> [] \<and> hd re = 94 then matchhere (tl re) text else match_from re text)"

subsection \<open>Reading\<close>

text \<open>\<open>read(fd, buf, n)\<close>: at most \<open>n\<close> bytes of the first piece; the empty list at the end of the input or for \<open>n = 0\<close>.\<close>

fun read_fd :: "nat \<Rightarrow> byte list option list \<Rightarrow> byte list option \<times> byte list option list" where
  "read_fd n [] = (Some [], [])"
| "read_fd n (None # cs) = (None, cs)"
| "read_fd n (Some c # cs) = (Some (take n c), if length c \<le> n then cs else Some (drop n c) # cs)"

definition left_over :: "byte list option list \<Rightarrow> nat" where
  "left_over cs = sum_list (map (\<lambda>c. length (case_option [] id c)) cs)"

lemma left_over_simps [simp]: "left_over [] = 0" "left_over (None # cs) = left_over cs" "left_over (Some c # cs) = length c + left_over cs"
  by (simp_all add: left_over_def)

lemma read_fd_less: "(Some r, cs') = read_fd n cs \<Longrightarrow> r \<noteq> [] \<Longrightarrow> left_over cs' < left_over cs"
  by (cases "(n, cs)" rule: read_fd.cases) (auto split: if_splits)

subsection \<open>grep\<close>

lemma strchr_string: "strchr (s @ [0]) c = Inr r \<Longrightarrow> (\<forall>k. r = Some k \<longrightarrow> k < length s)"
  by (induction s arbitrary: r) (auto simp: ebind_def split: if_splits sum.splits)

text \<open>The inner loop on the \<open>m\<close> bytes \<open>b\<close> of the buffer, from \<open>p\<close> on: what is written, and the final \<open>p\<close>.\<close>

function grep_lines :: "byte list \<Rightarrow> byte list \<Rightarrow> nat \<Rightarrow> fault + byte list \<times> nat" where
  "grep_lines pat b p =
     (case strchr (drop p b @ [0]) 10 of
        Inl e \<Rightarrow> Inl e
      | Inr None \<Rightarrow> Inr ([], p)
      | Inr (Some k) \<Rightarrow>
          ebind (grep_lines pat b (p + k + 1)) (\<lambda>(out, p').
            Inr ((if match pat (take k (drop p b)) then take (k + 1) (drop p b) else []) @ out, p')))"
  by pat_completeness auto
termination
  by (relation "measure (\<lambda>(pat, b, p). length b - p)") (auto dest: strchr_string)

declare grep_lines.simps [simp del]

function grep_loop :: "byte list \<Rightarrow> byte list \<Rightarrow> byte list option list \<Rightarrow> fault + byte list \<times> byte list option list" where
  "grep_loop pat kept cs =
     (case read_fd (1024 - length kept - 1) cs of
        (None, cs') \<Rightarrow> Inr ([], cs')
      | (Some r, cs') \<Rightarrow>
          if r = [] then Inr ([], cs')
          else
            ebind (grep_lines pat (kept @ r) 0) (\<lambda>(out, p).
              ebind (grep_loop pat (if p = 0 then [] else drop p (kept @ r)) cs') (\<lambda>(out', cs'').
                Inr (out @ out', cs''))))"
  by pat_completeness auto
termination
  by (relation "measure (\<lambda>(pat, kept, cs). left_over cs)") (auto dest: read_fd_less)

declare grep_loop.simps [simp del]

definition grep :: "byte list \<Rightarrow> byte list option list \<Rightarrow> fault + byte list \<times> byte list option list" where
  "grep pat cs = grep_loop pat [] cs"

subsection \<open>wc and cat\<close>

record counts =
  wc_l :: nat
  wc_w :: nat
  wc_c :: nat
  wc_inword :: bool

definition wc_byte :: "byte \<Rightarrow> counts \<Rightarrow> fault + counts" where
  "wc_byte x t =
     (let t1 = t\<lparr>wc_c := wc_c t + 1\<rparr>;
          t2 = (if x = 10 then t1\<lparr>wc_l := wc_l t1 + 1\<rparr> else t1)
      in ebind (strchr [32, 13, 9, 10, 11, 0] x) (\<lambda>r.
           if r \<noteq> None then Inr (t2\<lparr>wc_inword := False\<rparr>)
           else if \<not> wc_inword t2 then Inr (t2\<lparr>wc_w := wc_w t2 + 1, wc_inword := True\<rparr>)
           else Inr t2))"

fun wc_buf :: "byte list \<Rightarrow> counts \<Rightarrow> fault + counts" where
  "wc_buf [] t = Inr t"
| "wc_buf (x # b) t = ebind (wc_byte x t) (wc_buf b)"

text \<open>\<open>None\<close> as result is the message \<open>wc: read error\<close> and \<open>exit\<close>.\<close>

function wc_loop :: "byte list option list \<Rightarrow> counts \<Rightarrow> fault + counts option \<times> byte list option list" where
  "wc_loop cs t =
     (case read_fd 512 cs of
        (None, cs') \<Rightarrow> Inr (None, cs')
      | (Some r, cs') \<Rightarrow> if r = [] then Inr (Some t, cs') else ebind (wc_buf r t) (wc_loop cs'))"
  by pat_completeness auto
termination
  by (relation "measure (\<lambda>(cs, t). left_over cs)") (auto dest: read_fd_less)

declare wc_loop.simps [simp del]

definition wc :: "byte list option list \<Rightarrow> fault + counts option \<times> byte list option list" where
  "wc cs = wc_loop cs \<lparr>wc_l = 0, wc_w = 0, wc_c = 0, wc_inword = False\<rparr>"

text \<open>\<open>cat\<close>: \<open>ok\<close> tells whether \<open>write\<close> takes all of a piece. The result is what has been written and whether the
  program goes on to the next file.\<close>

function cat_loop :: "(byte list \<Rightarrow> bool) \<Rightarrow> byte list option list \<Rightarrow> byte list \<times> bool" where
  "cat_loop ok cs =
     (case read_fd 512 cs of
        (None, cs') \<Rightarrow> ([], False)
      | (Some r, cs') \<Rightarrow>
          if r = [] then ([], True)
          else if \<not> ok r then ([], False)
          else (case cat_loop ok cs' of (out, go) \<Rightarrow> (r @ out, go)))"
  by pat_completeness auto
termination
  by (relation "measure (\<lambda>(ok, cs). left_over cs)") (auto dest: read_fd_less)

declare cat_loop.simps [simp del]

subsection \<open>The language of a pattern\<close>

text \<open>What a pattern means: a sequence of characters, dots and starred ones, and whether it is anchored at its ends.\<close>

datatype atom = Any | Lit byte

fun atom_ok :: "atom \<Rightarrow> byte \<Rightarrow> bool" where
  "atom_ok Any c = True"
| "atom_ok (Lit d) c = (c = d)"

datatype item = One atom | Many atom

fun lang :: "item list \<Rightarrow> byte list set" where
  "lang [] = {[]}"
| "lang (One a # is) = {c # w | c w. atom_ok a c \<and> w \<in> lang is}"
| "lang (Many a # is) = {u @ w | u w. (\<forall>c \<in> set u. atom_ok a c) \<and> w \<in> lang is}"

definition atom_of :: "byte \<Rightarrow> atom" where
  "atom_of c = (if c = 46 then Any else Lit c)"

fun parse_items :: "byte list \<Rightarrow> item list \<times> bool" where
  "parse_items [] = ([], False)"
| "parse_items [c] = (if c = 36 then ([], True) else ([One (atom_of c)], False))"
| "parse_items (c # d # re) =
     (if d = 42 then (case parse_items re of (is, e) \<Rightarrow> (Many (atom_of c) # is, e))
      else (case parse_items (d # re) of (is, e) \<Rightarrow> (One (atom_of c) # is, e)))"

definition pattern :: "byte list \<Rightarrow> bool \<times> item list \<times> bool" where
  "pattern re = (if re \<noteq> [] \<and> hd re = 94 then (True, parse_items (tl re)) else (False, parse_items re))"

definition here :: "byte list \<Rightarrow> byte list \<Rightarrow> bool" where
  "here re t = (case parse_items re of (is, e) \<Rightarrow> \<exists>w v. t = w @ v \<and> w \<in> lang is \<and> (e \<longrightarrow> v = []))"

lemma atom_of_ok: "atom_ok (atom_of c) d \<longleftrightarrow> c = 46 \<or> d = c"
  by (simp add: atom_of_def)

lemma here_Nil: "here [] t"
  by (simp add: here_def)

lemma here_dollar: "here [36] t = (t = [])"
  by (simp add: here_def)

lemma here_one:
  assumes "re \<noteq> [] \<and> hd re \<noteq> 42 \<or> re = [] \<and> c \<noteq> 36"
  shows "here (c # re) t = (t \<noteq> [] \<and> (c = 46 \<or> c = hd t) \<and> here re (tl t))"
proof -
  obtain "is" e where p: "parse_items re = (is, e)" by fastforce
  have "parse_items (c # re) = (One (atom_of c) # is, e)" using assms p by (cases re) auto
  then show ?thesis using p by (cases t) (auto simp: here_def atom_of_ok Cons_eq_append_conv)
qed

lemma split_twice:
  "(\<exists>y v. t = y @ v \<and> (\<exists>u w. y = u @ w \<and> A u \<and> B w) \<and> C v) \<longleftrightarrow> (\<exists>u w v. t = u @ w @ v \<and> A u \<and> B w \<and> C v)"
  by (metis append.assoc)

lemma here_star: "here (c # 42 # re) t =
  (here re t \<or> t \<noteq> [] \<and> (hd t = c \<or> c = 46) \<and> here (c # 42 # re) (tl t))"
proof -
  obtain "is" e where p: "parse_items re = (is, e)" by fastforce
  have eq: "here (c # 42 # re) t = (\<exists>u w v. t = u @ w @ v \<and> (\<forall>d \<in> set u. c = 46 \<or> d = c) \<and> w \<in> lang is \<and> (e \<longrightarrow> v = []))" for t
    using p split_twice [of t "\<lambda>u. \<forall>d \<in> set u. c = 46 \<or> d = c" "\<lambda>w. w \<in> lang is" "\<lambda>v. e \<longrightarrow> v = []"]
    by (simp add: here_def atom_of_ok)
  have base: "here re t = (\<exists>w v. t = w @ v \<and> w \<in> lang is \<and> (e \<longrightarrow> v = []))"
    using p by (simp add: here_def)
  show ?thesis (is "?L = ?R")
  proof
    assume ?L
    then obtain u w v where u: "t = u @ w @ v" "\<forall>d \<in> set u. c = 46 \<or> d = c" "w \<in> lang is" "e \<longrightarrow> v = []"
      using eq by blast
    show ?R
    proof (cases u)
      case Nil
      with u base show ?thesis by auto
    next
      case (Cons d u')
      with u have "here (c # 42 # re) (u' @ w @ v)" unfolding eq by (metis list.set_intros(2))
      with u Cons show ?thesis by auto
    qed
  next
    assume ?R
    then consider "here re t" | d t' where "t = d # t'" "d = c \<or> c = 46" "here (c # 42 # re) t'"
      by (metis list.collapse)
    then show ?L
    proof cases
      case 1
      then show ?thesis unfolding base eq by (metis append_Nil empty_iff empty_set)
    next
      case 2
      then obtain u w v where "t' = u @ w @ v" "\<forall>d \<in> set u. c = 46 \<or> d = c" "w \<in> lang is" "e \<longrightarrow> v = []"
        using eq by blast
      with 2 have "t = (d # u) @ w @ v \<and> (\<forall>d \<in> set (d # u). c = 46 \<or> d = c) \<and> w \<in> lang is \<and> (e \<longrightarrow> v = [])" by auto
      then show ?thesis unfolding eq by blast
    qed
  qed
qed

lemma matchhere_here:
  shows "matchhere re t = here re t" and "matchstar c re t = here (c # 42 # re) t"
proof (induction re t and c re t rule: matchhere_matchstar.induct)
  case (1 re t)
  show ?case
  proof (cases re)
    case Nil
    then show ?thesis by (simp add: matchhere.simps here_Nil)
  next
    case (Cons r re1)
    consider "re1 \<noteq> [] \<and> hd re1 = 42" | "r = 36 \<and> re1 = []" | "re1 \<noteq> [] \<and> hd re1 \<noteq> 42 \<or> re1 = [] \<and> r \<noteq> 36"
      by blast
    then show ?thesis
    proof cases
      case 1
      then have "re1 = 42 # tl re1" by (metis list.collapse)
      with 1 "1.IH"(1) [OF Cons] Cons show ?thesis by (simp add: matchhere.simps)
    next
      case 2
      with Cons show ?thesis by (simp add: matchhere.simps here_dollar)
    next
      case 3
      then have "\<not> (re1 \<noteq> [] \<and> hd re1 = 42)" "\<not> (r = 36 \<and> re1 = [])" by auto
      with "1.IH"(2) [OF Cons] 3 Cons show ?thesis by (auto simp: matchhere.simps here_one)
    qed
  qed
next
  case (2 c re t)
  then show ?case by (subst matchstar.simps, subst here_star) auto
qed

text \<open>C20: The matcher of \<open>grep\<close> decides its pattern: \<open>match\<close> accepts a text exactly when a part of the text is in the
  language of the characters, dots and stars of the pattern, at the start of the text when the pattern begins with a
  circumflex and at its end when the pattern ends with a dollar.\<close>

theorem match_correct:
  "match re text \<longleftrightarrow>
     (case pattern re of (bol, is, eol) \<Rightarrow>
        \<exists>u w v. text = u @ w @ v \<and> w \<in> lang is \<and> (bol \<longrightarrow> u = []) \<and> (eol \<longrightarrow> v = []))"
proof -
  have "match_from re t \<longleftrightarrow> (\<exists>u t'. t = u @ t' \<and> here re t')" for t
    by (induction t) (auto simp: matchhere_here Cons_eq_append_conv)
  then show ?thesis
    by (auto simp: match_def pattern_def matchhere_here here_def split: prod.splits)
qed


theorem match_correct_witness: "match [97, 42, 98, 36] [99, 97, 98]"
proof -
  have p: "pattern [97, 42, 98, 36] = (False, [Many (Lit 97), One (Lit 98)], True)"
    by (simp add: pattern_def atom_of_def)
  have "[99, 97, 98] = [99] @ ([97] @ [98]) @ ([] :: byte list) \<and> [97] @ [98] \<in> lang [Many (Lit 97), One (Lit 98)]"
    by force
  then show ?thesis unfolding match_correct [of "[97, 42, 98, 36]"] p by blast
qed

subsection \<open>The lines that grep prints\<close>

definition text_of :: "byte list list \<Rightarrow> byte list" where
  "text_of ls = concat (map (\<lambda>l. l @ [10]) ls)"

lemma text_of_simps [simp]: "text_of [] = []" "text_of (l # ls) = l @ 10 # text_of ls" "text_of (ls @ ls') = text_of ls @ text_of ls'"
  by (simp_all add: text_of_def)

lemma strchr_line: "0 \<notin> set l \<Longrightarrow> 10 \<notin> set l \<Longrightarrow> strchr (l @ 10 # s) 10 = Inr (Some (length l))"
  by (induction l) (auto simp: ebind_def)

lemma strchr_no_line: "10 \<notin> set q \<Longrightarrow> strchr (q @ [0]) 10 = Inr None"
  by (induction q) (auto simp: ebind_def)

lemma grep_lines_step:
  "0 \<notin> set l \<Longrightarrow> 10 \<notin> set l \<Longrightarrow> grep_lines pat (pre @ l @ 10 # s) (length pre) =
    ebind (grep_lines pat (pre @ l @ 10 # s) (length (pre @ l @ [10]))) (\<lambda>(out, p). Inr ((if match pat l then l @ [10] else []) @ out, p))"
  by (subst grep_lines.simps) (simp add: strchr_line)

lemma grep_lines_text:
  "\<forall>l \<in> set ls. 0 \<notin> set l \<and> 10 \<notin> set l \<Longrightarrow> 10 \<notin> set q \<Longrightarrow>
    grep_lines pat (pre @ text_of ls @ q) (length pre) = Inr (text_of (filter (match pat) ls), length pre + length (text_of ls))"
proof (induction ls arbitrary: pre)
  case Nil
  then show ?case by (subst grep_lines.simps) (simp add: strchr_no_line)
next
  case (Cons l ls)
  have "grep_lines pat ((pre @ l @ [10]) @ text_of ls @ q) (length (pre @ l @ [10])) =
      Inr (text_of (filter (match pat) ls), length (pre @ l @ [10]) + length (text_of ls))"
    using Cons.prems by (intro Cons.IH) simp_all
  with Cons.prems grep_lines_step [of l pat pre "text_of ls @ q"] show ?case by simp
qed

lemma take_text:
  "\<forall>l \<in> set ls. 10 \<notin> set l \<Longrightarrow> 10 \<notin> set r \<Longrightarrow>
    \<exists>ls1 ls2 q. ls = ls1 @ ls2 \<and> take n (text_of ls @ r) = text_of ls1 @ q \<and> q @ drop n (text_of ls @ r) = text_of ls2 @ r \<and>
      10 \<notin> set q \<and> (ls1 = [] \<longrightarrow> ls = [] \<or> n \<le> length (hd ls))"
proof (induction ls arbitrary: n)
  case Nil
  then have "10 \<notin> set (take n r)" by (meson in_set_takeD)
  with Nil show ?case by (intro exI [of _ "[]"] exI [of _ "take n r"]) simp
next
  case (Cons l ls)
  show ?case
  proof (cases "n \<le> length l")
    case True
    moreover have "10 \<notin> set (take n l)" using Cons.prems by (auto dest: in_set_takeD)
    ultimately show ?thesis by (intro exI [of _ "[]"] exI [of _ "l # ls"] exI [of _ "take n l"]) simp
  next
    case False
    then obtain k where n: "n = length l + 1 + k" by (metis Suc_eq_plus1 less_iff_Suc_add add_Suc not_le)
    obtain ls1 ls2 q where i: "ls = ls1 @ ls2" "take k (text_of ls @ r) = text_of ls1 @ q"
        "q @ drop k (text_of ls @ r) = text_of ls2 @ r" "10 \<notin> set q"
      using Cons.IH [of k] Cons.prems by auto
    then show ?thesis using n
      by (intro exI [of _ "l # ls1"] exI [of _ ls2] exI [of _ q]) simp
  qed
qed

definition one_piece :: "byte list \<Rightarrow> byte list option list" where
  "one_piece s = (if s = [] then [] else [Some s])"

lemma read_piece: "read_fd n (one_piece s) = (Some (take n s), one_piece (drop n s))"
  by (simp add: one_piece_def)

lemma grep_loop_text:
  "kept @ s = text_of ls @ r \<Longrightarrow> length kept < 1023 \<Longrightarrow> 10 \<notin> set kept \<Longrightarrow> 10 \<notin> set r \<Longrightarrow>
    \<forall>l \<in> set ls. 0 \<notin> set l \<and> 10 \<notin> set l \<and> length l < 1023 \<Longrightarrow>
    grep_loop pat kept (one_piece s) = Inr (text_of (filter (match pat) ls), [])"
proof (induction "length s" arbitrary: s kept ls r rule: less_induct)
  case less
  let ?n = "1024 - length kept - 1"
  show ?case
  proof (cases "s = []")
    case True
    with less.prems have "10 \<notin> set (text_of ls)" by (metis Un_iff append_Nil2 set_append)
    then have "ls = []" by (cases ls) auto
    with True show ?thesis by (subst grep_loop.simps) (simp add: one_piece_def)
  next
    case False
    obtain ls1 ls2 q where i: "ls = ls1 @ ls2" "take 1023 (kept @ s) = text_of ls1 @ q"
        "q @ drop 1023 (kept @ s) = text_of ls2 @ r" "10 \<notin> set q" "ls1 = [] \<longrightarrow> ls = [] \<or> 1023 \<le> length (hd ls)"
      using take_text [of ls r 1023] less.prems unfolding less.prems(1) by blast
    have b: "kept @ take ?n s = text_of ls1 @ q" and d: "drop ?n s = drop 1023 (kept @ s)"
      using i(2) less.prems(2) by simp_all
    have len: "length (text_of ls1 @ q) \<le> 1023" unfolding i(2) [symmetric] by simp
    have found: "grep_lines pat (text_of ls1 @ q) 0 = Inr (text_of (filter (match pat) ls1), length (text_of ls1))"
      using grep_lines_text [of ls1 q pat "[]"] i less.prems by simp
    let ?kept = "if text_of ls1 = [] then [] else q"
    have less_s: "length (drop ?n s) < length s" using False less.prems(2) by (cases s) auto
    have "grep_loop pat ?kept (one_piece (drop ?n s)) = Inr (text_of (filter (match pat) ls2), [])"
    proof (cases "ls1 = []")
      case True
      with i less.prems have "ls = []" by (cases ls) auto
      then have "kept @ s = r" "ls2 = []" using less.prems i by simp_all
      then have "10 \<notin> set (drop ?n s)" using less.prems by (metis Un_iff in_set_dropD set_append)
      with True \<open>ls2 = []\<close> less_s show ?thesis using less.hyps [of "drop ?n s" "[]" "[]" "drop ?n s"] by simp
    next
      case False
      then have pos: "0 < length (text_of ls1)" by (cases ls1) auto
      then have "length q < 1023" using len unfolding length_append by linarith
      with pos less_s show ?thesis using less.hyps [of "drop ?n s" q ls2 r] i(1,3,4) d len less.prems by simp
    qed
    moreover have "take ?n s \<noteq> []" using False less.prems by simp
    ultimately show ?thesis
      using b found i(1) by (subst grep_loop.simps) (auto simp: read_piece ebind_def)
  qed
qed

text \<open>C29: On a regular file whose lines have no zero byte and fit into the buffer, \<open>grep\<close> writes exactly the lines that the
  matcher accepts, in their order and each with its newline; a last line without a newline is not looked at.\<close>

theorem grep_prints_matching_lines:
  assumes "\<forall>l \<in> set ls. 0 \<notin> set l \<and> 10 \<notin> set l \<and> length l < 1023" and "10 \<notin> set r"
  shows "grep pat [Some (text_of ls @ r)] = Inr (text_of (filter (match pat) ls), [])"
proof (cases "text_of ls @ r = []")
  case True
  then have "ls = []" by (cases ls) auto
  with True show ?thesis by (simp add: grep_def grep_loop.simps)
next
  case False
  then have "[Some (text_of ls @ r)] = one_piece (text_of ls @ r)" by (simp add: one_piece_def)
  then show ?thesis using grep_loop_text [of "[]" "text_of ls @ r" ls r pat] assms by (simp add: grep_def)
qed

theorem grep_prints_matching_lines_witness:
  "grep [94, 97, 46, 42, 98, 36] [Some [97, 120, 98, 10, 98, 97, 10, 97]] = Inr ([97, 120, 98, 10], [])"
proof -
  have m: "match [94, 97, 46, 42, 98, 36] [97, 120, 98]" "\<not> match [94, 97, 46, 42, 98, 36] [98, 97]"
    by (simp_all add: match_def matchhere.simps matchstar.simps)
  show ?thesis
    using grep_prints_matching_lines [of "[[97, 120, 98], [98, 97]]" "[97]" "[94, 97, 46, 42, 98, 36]"] m by simp
qed

text \<open>A line that arrives in two pieces is lost when the first piece has no newline: \<open>if(p == buf) m = 0\<close> drops what
  is in the buffer, also when the buffer is not full.\<close>

lemma grep_loses_split_line:
  "grep [97, 98] [Some [97], Some [98, 10]] = Inr ([], [])" "grep [97, 98] [Some [97, 98, 10]] = Inr ([97, 98, 10], [])"
  by (simp_all add: grep_def grep_loop.simps grep_lines.simps match_def matchhere.simps ebind_def)

subsection \<open>Counting\<close>

definition blank :: "byte \<Rightarrow> bool" where
  "blank x \<longleftrightarrow> x \<in> {32, 13, 9, 10, 11}"

definition word_starts :: "byte list \<Rightarrow> nat set" where
  "word_starts s = {i. i < length s \<and> \<not> blank (s ! i) \<and> (i = 0 \<or> blank (s ! (i - 1)))}"

lemma word_starts_snoc:
  "word_starts (s @ [x]) = word_starts s \<union> (if \<not> blank x \<and> (s = [] \<or> blank (last s)) then {length s} else {})"
  by (cases s rule: rev_cases) (auto simp: word_starts_def nth_append less_Suc_eq)

lemma card_word_starts_snoc:
  "card (word_starts (s @ [x])) = card (word_starts s) + (if \<not> blank x \<and> (s = [] \<or> blank (last s)) then 1 else 0)"
proof -
  have "finite (word_starts s)" "length s \<notin> word_starts s" by (simp_all add: word_starts_def)
  then show ?thesis by (simp add: word_starts_snoc)
qed

lemma wc_buf_append: "wc_buf (a @ b) t = ebind (wc_buf a t) (wc_buf b)"
  by (induction a arbitrary: t) (auto simp: ebind_def split: sum.splits)

definition counted :: "byte list \<Rightarrow> counts" where
  "counted s = \<lparr>wc_l = count_list s 10, wc_w = card (word_starts s), wc_c = length s, wc_inword = (s \<noteq> [] \<and> \<not> blank (last s))\<rparr>"

lemma strchr_blank: "strchr [32, 13, 9, 10, 11, 0] x = Inr (if x = 32 then Some 0 else if x = 13 then Some 1 else if x = 9 then Some 2
   else if x = 10 then Some 3 else if x = 11 then Some 4 else None)"
  by (simp add: ebind_def)

lemma wc_byte_counted: "wc_byte x (counted s) = Inr (counted (s @ [x]))"
  by (auto simp: wc_byte_def counted_def strchr_blank card_word_starts_snoc blank_def ebind_def Let_def)

lemma wc_buf_counted: "wc_buf b (counted s) = Inr (counted (s @ b))"
  by (induction b arbitrary: s) (simp_all add: wc_byte_counted ebind_def)

lemma wc_loop_counted: "\<forall>p \<in> set ps. p \<noteq> [] \<Longrightarrow> wc_loop (map Some ps) (counted s) = Inr (Some (counted (s @ concat ps)), [])"
proof (induction "length (concat ps)" arbitrary: ps s rule: less_induct)
  case less
  show ?case
  proof (cases ps)
    case Nil
    then show ?thesis by (simp add: wc_loop.simps)
  next
    case (Cons p ps')
    let ?rest = "if length p \<le> 512 then ps' else drop 512 p # ps'"
    have "wc_loop (map Some ?rest) (counted (s @ take 512 p)) = Inr (Some (counted ((s @ take 512 p) @ concat ?rest)), [])"
      using less.prems Cons by (intro less.hyps) (auto simp: length_greater_0_conv)
    moreover have "take 512 p @ concat ?rest = concat ps" using Cons by auto
    moreover have "map Some ?rest = (if length p \<le> 512 then map Some ps' else Some (drop 512 p) # map Some ps')" by simp
    ultimately show ?thesis
      using less.prems Cons by (subst wc_loop.simps) (simp add: wc_buf_counted ebind_def)
  qed
qed

text \<open>\<open>wc\<close> counts the newlines, the words and the bytes of its input, however \<open>read\<close> cuts the input into pieces. A
  word starts at a character that is no blank and is the first one or comes after a blank. The counters are exact for inputs
  shorter than \<open>2 ^ 31\<close> bytes, the range of \<open>int\<close>.\<close>

theorem wc_counts:
  assumes "\<forall>p \<in> set ps. p \<noteq> []"
  shows "\<exists>t. wc (map Some ps) = Inr (Some t, []) \<and> wc_l t = count_list (concat ps) 10 \<and> wc_c t = length (concat ps) \<and>
    wc_w t = card {i. i < length (concat ps) \<and> \<not> blank (concat ps ! i) \<and> (i = 0 \<or> blank (concat ps ! (i - 1)))}"
proof -
  have "wc (map Some ps) = Inr (Some (counted (concat ps)), [])"
    using wc_loop_counted [OF assms, of "[]"] by (simp add: wc_def counted_def word_starts_def)
  then show ?thesis by (simp add: counted_def word_starts_def)
qed

theorem wc_counts_witness:
  "\<exists>t. wc [Some [97, 32], Some [98, 10]] = Inr (Some t, []) \<and> wc_l t = 1 \<and> wc_w t = 2"
proof -
  let ?s = "concat [[97, 32], [98, 10 :: byte]]"
  have "{i. i < length ?s \<and> \<not> blank (?s ! i) \<and> (i = 0 \<or> blank (?s ! (i - 1)))} =
      set (filter (\<lambda>i. \<not> blank (?s ! i) \<and> (i = 0 \<or> blank (?s ! (i - 1)))) [0..<4])" by auto
  also have "\<dots> = {0, Suc (Suc 0)}" by (simp add: blank_def upt_rec)
  finally have "card {i. i < length ?s \<and> \<not> blank (?s ! i) \<and> (i = 0 \<or> blank (?s ! (i - 1)))} = 2" by simp
  then show ?thesis using wc_counts [of "[[97, 32], [98, 10]]"] by auto
qed

lemma cat_copies: "\<forall>p \<in> set ps. p \<noteq> [] \<Longrightarrow> cat_loop (\<lambda>_. True) (map Some ps) = (concat ps, True)"
proof (induction "length (concat ps)" arbitrary: ps rule: less_induct)
  case less
  show ?case
  proof (cases ps)
    case Nil
    then show ?thesis by (simp add: cat_loop.simps)
  next
    case (Cons p ps')
    let ?rest = "if length p \<le> 512 then ps' else drop 512 p # ps'"
    have "cat_loop (\<lambda>_. True) (map Some ?rest) = (concat ?rest, True)"
      using less.prems Cons by (intro less.hyps) (auto simp: length_greater_0_conv)
    then show ?thesis
      using less.prems Cons by (subst cat_loop.simps) (auto split: if_splits)
  qed
qed


end
