(* ===== verification/XV6_Locks.thy ===== *)
theory XV6_Locks
  imports SSU_Pthread
begin

text \<open>
  The locks of xv6: spin locks and the nesting of disabled interrupts (\<open>src/project3/xv6-modified/spinlock.c\<close>, \<open>spinlock.h\<close>) and
  sleep locks (\<open>sleeplock.c\<close>, \<open>sleeplock.h\<close>). The spin locks are modelled for any number of processors: each processor
  runs \<open>acquire\<close> and \<open>release\<close> in steps that end at the accesses to shared memory, and its interrupt flag decides whether an interrupt
  may come. The name and the call stack that a lock records for debugging are left out. Sleep locks are modelled with
  the spin lock inside them held over each section, as the first part justifies, and with the processes that wait for them.
\<close>

subsection \<open>Spin locks\<close>

record cpu =
  ncli :: int
  intena :: bool
  iflag :: bool   \<comment> \<open>\<open>FL_IF\<close> in the flags register of the processor\<close>

record spinlock =
  locked :: bool
  lcpu :: "nat option"

definition initlock :: spinlock where
  "initlock = \<lparr>locked = False, lcpu = None\<rparr>"

definition pushcli :: "cpu \<Rightarrow> cpu" where
  "pushcli c =
     (let eflags = iflag c; c1 = c\<lparr>iflag := False\<rparr>; c2 = (if ncli c1 = 0 then c1\<lparr>intena := eflags\<rparr> else c1)
      in c2\<lparr>ncli := ncli c2 + 1\<rparr>)"

definition popcli :: "cpu \<Rightarrow> fault + cpu" where
  "popcli c =
     (if iflag c then Inl (Panic ''popcli - interruptible'')
      else
        let c1 = c\<lparr>ncli := ncli c - 1\<rparr> in
        if ncli c1 < 0 then Inl (Panic ''popcli'')
        else Inr (if ncli c1 = 0 \<and> intena c1 then c1\<lparr>iflag := True\<rparr> else c1))"

definition holding :: "nat \<Rightarrow> spinlock \<Rightarrow> cpu \<Rightarrow> fault + bool \<times> cpu" where
  "holding me lk c = (let c1 = pushcli c; r = (locked lk \<and> lcpu lk = Some me) in ebind (popcli c1) (\<lambda>c2. Inr (r, c2)))"

text \<open>Where a processor is: outside of the two functions, in the loop of \<open>acquire\<close>, behind it before the lock records its processor, in
  \<open>release\<close> before \<open>locked\<close> is cleared, and before \<open>popcli\<close>.\<close>

datatype spin_pc = Outside | Spinning nat | Got nat | Clearing nat | Popping

text \<open>\<open>bare\<close> counts the calls of \<open>pushcli\<close> from other code that have not been undone, \<open>handler\<close> tells that the processor runs an interrupt
  handler.\<close>

record machine =
  cpus :: "cpu list"
  locks :: "spinlock list"
  spc :: "spin_pc list"
  bare :: "nat list"
  handler :: "bool list"

definition set_cpu :: "nat \<Rightarrow> cpu \<Rightarrow> machine \<Rightarrow> machine" where
  "set_cpu i c m = m\<lparr>cpus := (cpus m)[i := c]\<rparr>"

definition set_lock :: "nat \<Rightarrow> spinlock \<Rightarrow> machine \<Rightarrow> machine" where
  "set_lock l lk m = m\<lparr>locks := (locks m)[l := lk]\<rparr>"

definition goto :: "nat \<Rightarrow> spin_pc \<Rightarrow> machine \<Rightarrow> machine" where
  "goto i pc m = m\<lparr>spc := (spc m)[i := pc]\<rparr>"

definition acquire_enter :: "nat \<Rightarrow> nat \<Rightarrow> machine \<Rightarrow> fault + machine" where
  "acquire_enter i l m =
     ebind (holding i (locks m ! l) (pushcli (cpus m ! i))) (\<lambda>(r, c).
       if r then Inl (Panic ''acquire'') else Inr (goto i (Spinning l) (set_cpu i c m)))"

text \<open>One execution of \<open>xchg(&lk->locked, 1)\<close>.\<close>

definition acquire_xchg :: "nat \<Rightarrow> nat \<Rightarrow> machine \<Rightarrow> machine" where
  "acquire_xchg i l m =
     (let lk = locks m ! l; m1 = set_lock l (lk\<lparr>locked := True\<rparr>) m in if locked lk then m1 else goto i (Got l) m1)"

definition acquire_own :: "nat \<Rightarrow> nat \<Rightarrow> machine \<Rightarrow> machine" where
  "acquire_own i l m = goto i Outside (set_lock l ((locks m ! l)\<lparr>lcpu := Some i\<rparr>) m)"

definition release_enter :: "nat \<Rightarrow> nat \<Rightarrow> machine \<Rightarrow> fault + machine" where
  "release_enter i l m =
     ebind (holding i (locks m ! l) (cpus m ! i)) (\<lambda>(r, c).
       if \<not> r then Inl (Panic ''release'')
       else Inr (goto i (Clearing l) (set_lock l ((locks m ! l)\<lparr>lcpu := None\<rparr>) (set_cpu i c m))))"

definition release_clear :: "nat \<Rightarrow> nat \<Rightarrow> machine \<Rightarrow> machine" where
  "release_clear i l m = goto i Popping (set_lock l ((locks m ! l)\<lparr>locked := False\<rparr>) m)"

definition release_pop :: "nat \<Rightarrow> machine \<Rightarrow> fault + machine" where
  "release_pop i m = ebind (popcli (cpus m ! i)) (\<lambda>c. Inr (goto i Outside (set_cpu i c m)))"

text \<open>The steps of processor \<open>i\<close>. Outside of the two functions it may call them, use \<open>pushcli\<close> and \<open>popcli\<close> in pairs, and the scheduler may enable
  interrupts when nothing has disabled them. An interrupt comes only when it is enabled; its gate clears the flag, and the return from the
  handler sets it again.\<close>

inductive spin_step :: "machine \<Rightarrow> machine \<Rightarrow> bool" where
  Acquire: "i < length (cpus m) \<Longrightarrow> l < length (locks m) \<Longrightarrow> spc m ! i = Outside \<Longrightarrow> acquire_enter i l m = Inr m' \<Longrightarrow> spin_step m m'"
| Xchg: "i < length (cpus m) \<Longrightarrow> spc m ! i = Spinning l \<Longrightarrow> spin_step m (acquire_xchg i l m)"
| Own: "i < length (cpus m) \<Longrightarrow> spc m ! i = Got l \<Longrightarrow> spin_step m (acquire_own i l m)"
| Release: "i < length (cpus m) \<Longrightarrow> l < length (locks m) \<Longrightarrow> spc m ! i = Outside \<Longrightarrow> release_enter i l m = Inr m' \<Longrightarrow> spin_step m m'"
| Clear: "i < length (cpus m) \<Longrightarrow> spc m ! i = Clearing l \<Longrightarrow> spin_step m (release_clear i l m)"
| Pop: "i < length (cpus m) \<Longrightarrow> spc m ! i = Popping \<Longrightarrow> release_pop i m = Inr m' \<Longrightarrow> spin_step m m'"
| Push_bare: "i < length (cpus m) \<Longrightarrow> spc m ! i = Outside \<Longrightarrow>
    spin_step m ((set_cpu i (pushcli (cpus m ! i)) m)\<lparr>bare := (bare m)[i := bare m ! i + 1]\<rparr>)"
| Pop_bare: "i < length (cpus m) \<Longrightarrow> spc m ! i = Outside \<Longrightarrow> 0 < bare m ! i \<Longrightarrow> popcli (cpus m ! i) = Inr c \<Longrightarrow>
    spin_step m ((set_cpu i c m)\<lparr>bare := (bare m)[i := bare m ! i - 1]\<rparr>)"
| Sti: "i < length (cpus m) \<Longrightarrow> spc m ! i = Outside \<Longrightarrow> ncli (cpus m ! i) = 0 \<Longrightarrow>
    spin_step m (set_cpu i ((cpus m ! i)\<lparr>iflag := True\<rparr>) m)"
| Interrupt: "i < length (cpus m) \<Longrightarrow> iflag (cpus m ! i) \<Longrightarrow>
    spin_step m ((set_cpu i ((cpus m ! i)\<lparr>iflag := False\<rparr>) m)\<lparr>handler := (handler m)[i := True]\<rparr>)"
| Iret: "i < length (cpus m) \<Longrightarrow> handler m ! i \<Longrightarrow> spc m ! i = Outside \<Longrightarrow> ncli (cpus m ! i) = 0 \<Longrightarrow>
    spin_step m ((set_cpu i ((cpus m ! i)\<lparr>iflag := True\<rparr>) m)\<lparr>handler := (handler m)[i := False]\<rparr>)"

definition spin_start :: "nat \<Rightarrow> nat \<Rightarrow> machine" where
  "spin_start n k =
     \<lparr>cpus = replicate n \<lparr>ncli = 0, intena = False, iflag = False\<rparr>, locks = replicate k initlock, spc = replicate n Outside, bare = replicate n 0,
       handler = replicate n False\<rparr>"

subsection \<open>Nesting\<close>

definition cpu_ok :: "cpu \<Rightarrow> bool" where
  "cpu_ok c \<longleftrightarrow> 0 \<le> ncli c \<and> (iflag c \<longrightarrow> ncli c = 0)"

lemma pushcli_ok: "cpu_ok c \<Longrightarrow> cpu_ok (pushcli c) \<and> ncli (pushcli c) = ncli c + 1 \<and> \<not> iflag (pushcli c)"
  by (simp add: cpu_ok_def pushcli_def Let_def)

text \<open>A \<open>pushcli\<close> and its \<open>popcli\<close>, with any matched calls between them, restore the interrupt flag.\<close>

lemma popcli_pushcli:
  assumes "cpu_ok c" and "ncli c' = ncli (pushcli c)" and "intena c' = intena (pushcli c)" and "\<not> iflag c'"
  shows "\<exists>c2. popcli c' = Inr c2 \<and> ncli c2 = ncli c \<and> iflag c2 = iflag c \<and> (ncli c \<noteq> 0 \<longrightarrow> intena c2 = intena c)"
  using assms by (auto simp: cpu_ok_def pushcli_def popcli_def Let_def split: if_splits)

fun pushes :: "nat \<Rightarrow> cpu \<Rightarrow> cpu" where
  "pushes 0 c = c"
| "pushes (Suc n) c = pushes n (pushcli c)"

fun pops :: "nat \<Rightarrow> cpu \<Rightarrow> fault + cpu" where
  "pops 0 c = Inr c"
| "pops (Suc n) c = ebind (popcli c) (pops n)"

lemma pushes_Suc: "pushes (Suc n) c = pushcli (pushes n c)"
  by (induction n arbitrary: c) auto

lemma pushes_ok: "cpu_ok c \<Longrightarrow> cpu_ok (pushes n c)"
  by (induction n arbitrary: c) (auto simp: pushcli_ok)

lemma pops_restore:
  assumes "ncli d = ncli (pushes n c)" "iflag d = iflag (pushes n c)" "ncli (pushes n c) \<noteq> 0 \<longrightarrow> intena d = intena (pushes n c)" "cpu_ok c"
  shows "\<exists>c'. pops n d = Inr c' \<and> ncli c' = ncli c \<and> iflag c' = iflag c"
  using assms
proof (induction n arbitrary: d)
  case (Suc n)
  have u: "pushes (Suc n) c = pushcli (pushes n c)" by (rule pushes_Suc)
  have ok: "cpu_ok (pushes n c)" by (rule pushes_ok [OF Suc.prems(4)])
  note P = pushcli_ok [OF ok]
  have "ncli (pushes (Suc n) c) \<noteq> 0" using P ok unfolding u by (simp add: cpu_ok_def)
  then obtain d2 where "popcli d = Inr d2" "ncli d2 = ncli (pushes n c)" "iflag d2 = iflag (pushes n c)"
      "ncli (pushes n c) \<noteq> 0 \<longrightarrow> intena d2 = intena (pushes n c)"
    using popcli_pushcli [OF ok, of d] Suc.prems(1-3) P unfolding u by auto
  then show ?case using Suc.IH [of d2] Suc.prems(4) by auto
qed simp

lemma pops_pushes: "cpu_ok c \<Longrightarrow> \<exists>c'. pops n (pushes n c) = Inr c' \<and> ncli c' = ncli c \<and> iflag c' = iflag c"
  by (rule pops_restore) simp_all

lemma holding_ok:
  assumes "cpu_ok c"
  shows "\<exists>c2. holding me lk c = Inr (locked lk \<and> lcpu lk = Some me, c2) \<and> ncli c2 = ncli c \<and> iflag c2 = iflag c"
  using popcli_pushcli [OF assms, of "pushcli c"] pushcli_ok [OF assms] by (auto simp: holding_def Let_def)

subsection \<open>Mutual exclusion\<close>

text \<open>Processor \<open>i\<close> is inside lock \<open>l\<close> from the successful exchange until \<open>locked\<close> is cleared.\<close>

definition inside :: "machine \<Rightarrow> nat \<Rightarrow> nat \<Rightarrow> bool" where
  "inside m l i \<longleftrightarrow> lcpu (locks m ! l) = Some i \<or> spc m ! i = Got l \<or> spc m ! i = Clearing l"

definition nested :: "machine \<Rightarrow> nat \<Rightarrow> int" where
  "nested m i = int (slots (\<lambda>lk. lcpu lk = Some i) (locks m)) + int (bare m ! i) + of_bool (spc m ! i \<noteq> Outside)"

definition spin_inv :: "machine \<Rightarrow> bool" where
  "spin_inv m \<longleftrightarrow> length (spc m) = length (cpus m) \<and> length (bare m) = length (cpus m) \<and> length (handler m) = length (cpus m) \<and>
     (\<forall>i < length (cpus m). cpu_ok (cpus m ! i) \<and> ncli (cpus m ! i) = nested m i) \<and>
     (\<forall>i < length (cpus m). \<forall>l. spc m ! i = Spinning l \<or> spc m ! i = Got l \<or> spc m ! i = Clearing l \<longrightarrow> l < length (locks m)) \<and>
     (\<forall>l < length (locks m). locked (locks m ! l) \<longleftrightarrow> (\<exists>i < length (cpus m). inside m l i)) \<and>
     (\<forall>l < length (locks m). \<forall>i. lcpu (locks m ! l) = Some i \<longrightarrow> i < length (cpus m)) \<and>
     (\<forall>l < length (locks m). \<forall>i < length (cpus m). \<forall>j < length (cpus m). inside m l i \<longrightarrow> inside m l j \<longrightarrow> i = j) \<and>
     (\<forall>l < length (locks m). \<forall>i < length (cpus m). spc m ! i = Got l \<or> spc m ! i = Clearing l \<longrightarrow> lcpu (locks m ! l) = None)"

lemma spin_invD:
  assumes "spin_inv m"
  shows "length (spc m) = length (cpus m)" "length (bare m) = length (cpus m)" "length (handler m) = length (cpus m)"
    "i < length (cpus m) \<Longrightarrow> cpu_ok (cpus m ! i)" "i < length (cpus m) \<Longrightarrow> ncli (cpus m ! i) = nested m i"
    "i < length (cpus m) \<Longrightarrow> spc m ! i = Spinning l \<or> spc m ! i = Got l \<or> spc m ! i = Clearing l \<Longrightarrow> l < length (locks m)"
    "l < length (locks m) \<Longrightarrow> locked (locks m ! l) \<longleftrightarrow> (\<exists>i < length (cpus m). inside m l i)"
    "l < length (locks m) \<Longrightarrow> lcpu (locks m ! l) = Some i \<Longrightarrow> i < length (cpus m)"
    "l < length (locks m) \<Longrightarrow> i < length (cpus m) \<Longrightarrow> j < length (cpus m) \<Longrightarrow> inside m l i \<Longrightarrow> inside m l j \<Longrightarrow> i = j"
    "l < length (locks m) \<Longrightarrow> i < length (cpus m) \<Longrightarrow> spc m ! i = Got l \<or> spc m ! i = Clearing l \<Longrightarrow> lcpu (locks m ! l) = None"
  using assms unfolding spin_inv_def by blast+

lemma spin_invI:
  assumes "length (spc m) = n" "length (bare m) = n" "length (handler m) = n" "length (cpus m) = n" "length (locks m) = k"
    "\<And>i. i < n \<Longrightarrow> cpu_ok (cpus m ! i)" "\<And>i. i < n \<Longrightarrow> ncli (cpus m ! i) = nested m i"
    "\<And>i l. i < n \<Longrightarrow> spc m ! i = Spinning l \<or> spc m ! i = Got l \<or> spc m ! i = Clearing l \<Longrightarrow> l < k"
    "\<And>l. l < k \<Longrightarrow> locked (locks m ! l) \<longleftrightarrow> (\<exists>i < n. inside m l i)"
    "\<And>l i. l < k \<Longrightarrow> lcpu (locks m ! l) = Some i \<Longrightarrow> i < n"
    "\<And>l i j. l < k \<Longrightarrow> i < n \<Longrightarrow> j < n \<Longrightarrow> inside m l i \<Longrightarrow> inside m l j \<Longrightarrow> i = j"
    "\<And>l i. l < k \<Longrightarrow> i < n \<Longrightarrow> spc m ! i = Got l \<or> spc m ! i = Clearing l \<Longrightarrow> lcpu (locks m ! l) = None"
  shows "spin_inv m"
  unfolding spin_inv_def assms(4,5) using assms(1-3,6-12) by blast

text \<open>A step of a processor that leaves the locks alone and is not inside one in \<open>acquire\<close> or \<open>release\<close> before and after.\<close>

lemma spin_inv_local:
  assumes inv: "spin_inv m" and i: "i < length (cpus m)"
    and m': "cpus m' = (cpus m)[i := c]" "locks m' = locks m" "spc m' = (spc m)[i := pc]" "bare m' = (bare m)[i := b]" "length (handler m') = length (cpus m)"
    and pc: "\<And>l. spc m ! i \<noteq> Got l \<and> spc m ! i \<noteq> Clearing l \<and> pc \<noteq> Got l \<and> pc \<noteq> Clearing l" "\<And>l. pc = Spinning l \<Longrightarrow> l < length (locks m)"
    and c: "cpu_ok c" "ncli c - (int b + of_bool (pc \<noteq> Outside)) = ncli (cpus m ! i) - (int (bare m ! i) + of_bool (spc m ! i \<noteq> Outside))"
  shows "spin_inv m'"
proof -
  note D = spin_invD [OF inv]
  have ins: "inside m' l j \<longleftrightarrow> inside m l j" for l j
    using pc(1) D(1) i by (cases "j = i") (auto simp: inside_def m')
  have spc: "spc m' ! j = Got l \<longleftrightarrow> spc m ! j = Got l" "spc m' ! j = Clearing l \<longleftrightarrow> spc m ! j = Clearing l" for j l
    using pc(1) D(1) i by (cases "j = i"; simp add: m')+
  have nest: "nested m' j = nested m j" if "j \<noteq> i" for j using that by (simp add: nested_def m')
  have "ncli c = nested m' i" using c(2) D(5) [OF i] i D(1,2) by (simp add: nested_def m')
  then have "ncli (cpus m' ! j) = nested m' j" if "j < length (cpus m)" for j
    using that D(5) [OF that] nest by (cases "j = i") (simp_all add: m')
  moreover have "cpu_ok (cpus m' ! j)" if "j < length (cpus m)" for j using that c(1) D(4) [OF that] by (cases "j = i") (simp_all add: m')
  moreover have "l < length (locks m)" if "j < length (cpus m)" "spc m' ! j = Spinning l \<or> spc m' ! j = Got l \<or> spc m' ! j = Clearing l" for j l
    using that D(6) [OF that(1), of l] pc D(1) i by (cases "j = i") (auto simp: m')
  ultimately show ?thesis
  proof (intro spin_invI [where n = "length (cpus m)" and k = "length (locks m)"], unfold ins spc m'(2))
    show "length (spc m') = length (cpus m)" "length (bare m') = length (cpus m)" "length (cpus m') = length (cpus m)" using D(1,2) by (simp_all add: m')
  qed (use D(7-10) m'(5) in blast)+
qed

text \<open>A step inside lock \<open>l\<close>.\<close>

lemma spin_inv_lock:
  assumes inv: "spin_inv m" and i: "i < length (cpus m)" and l: "l < length (locks m)"
    and m': "cpus m' = (cpus m)[i := c]" "locks m' = (locks m)[l := lk]" "spc m' = (spc m)[i := pc]" "bare m' = bare m" "handler m' = handler m"
    and old: "\<And>k. spc m ! i = Got k \<or> spc m ! i = Clearing k \<Longrightarrow> k = l" and new: "\<And>k. pc = Got k \<or> pc = Clearing k \<Longrightarrow> k = l" "\<And>k. pc \<noteq> Spinning k"
    and alone: "\<And>j. j < length (cpus m) \<Longrightarrow> j \<noteq> i \<Longrightarrow> \<not> inside m l j"
    and lk: "locked lk \<longleftrightarrow> lcpu lk = Some i \<or> pc = Got l \<or> pc = Clearing l" "lcpu lk = None \<or> lcpu lk = Some i \<and> pc \<noteq> Got l \<and> pc \<noteq> Clearing l"
    and c: "cpu_ok c" "ncli c = ncli (cpus m ! i) + of_bool (lcpu lk = Some i) - of_bool (lcpu (locks m ! l) = Some i) + of_bool (pc \<noteq> Outside) - of_bool (spc m ! i \<noteq> Outside)"
  shows "spin_inv m'"
proof -
  note D = spin_invD [OF inv]
  have ini: "inside m' l i \<longleftrightarrow> lcpu lk = Some i \<or> pc = Got l \<or> pc = Clearing l" using i l D(1) by (simp add: inside_def m')
  have inl: "\<not> inside m' l j" if "j < length (cpus m)" "j \<noteq> i" for j
    using alone [OF that] that lk(2) l by (auto simp: inside_def m')
  have ino: "inside m' k j \<longleftrightarrow> inside m k j" if "k \<noteq> l" for k j
  proof (cases "j = i")
    case True
    then show ?thesis using that old [of k] new(1) [of k] i D(1) by (auto simp: inside_def m')
  next
    case False
    then show ?thesis using that by (simp add: inside_def m')
  qed
  have owner: "\<not> lcpu (locks m ! l) = Some j" if "j < length (cpus m)" "j \<noteq> i" for j using alone [OF that] by (auto simp: inside_def)
  have nest: "ncli (cpus m' ! j) = nested m' j" if j: "j < length (cpus m)" for j
  proof (cases "j = i")
    case True
    then show ?thesis using c(2) D(5) [OF i] slots_goto [OF l, of "\<lambda>lk. lcpu lk = Some i" lk] i D(1) by (simp add: nested_def m')
  next
    case False
    then show ?thesis using D(5) [OF j] slots_goto [OF l, of "\<lambda>lk. lcpu lk = Some j" lk] owner [OF j False] lk(2) by (auto simp: nested_def m')
  qed
  have len: "length (cpus m') = length (cpus m)" "length (locks m') = length (locks m)" by (simp_all add: m')
  show ?thesis
  proof (rule spin_invI [OF _ _ _ len])
    fix k assume k: "k < length (locks m)"
    show "locked (locks m' ! k) \<longleftrightarrow> (\<exists>j < length (cpus m). inside m' k j)"
    proof (cases "k = l")
      case True
      have "(\<exists>j < length (cpus m). inside m' l j) \<longleftrightarrow> inside m' l i" using inl i by blast
      then show ?thesis using True lk(1) ini l by (simp add: m')
    next
      case False
      then show ?thesis using D(7) [of k] k ino by (simp add: m')
    qed
  next
    fix k j j' assume k: "k < length (locks m)" "j < length (cpus m)" "j' < length (cpus m)" "inside m' k j" "inside m' k j'"
    show "j = j'"
    proof (cases "k = l")
      case True
      then show ?thesis using k inl by metis
    next
      case False
      then show ?thesis using k D(9) [of k j j'] ino by (simp add: m')
    qed
  next
    fix k j assume k: "k < length (locks m)" "j < length (cpus m)" "spc m' ! j = Got k \<or> spc m' ! j = Clearing k"
    show "lcpu (locks m' ! k) = None"
    proof (cases "j = i")
      case True
      then have p: "pc = Got k \<or> pc = Clearing k" using k(3) i D(1) by (simp add: m')
      then have "k = l" by (rule new(1))
      then show ?thesis using p lk(2) l by (auto simp: m')
    next
      case False
      have jm: "j < length (cpus m)" "spc m ! j = Got k \<or> spc m ! j = Clearing k" using k False by (simp_all add: m')
      then have "inside m k j" by (auto simp: inside_def)
      then have "k \<noteq> l" using alone [OF jm(1) False] by blast
      then show ?thesis using D(10) [of k j] k(1) jm by (simp add: m')
    qed
  next
    fix k j assume "k < length (locks m)" "lcpu (locks m' ! k) = Some j"
    then show "j < length (cpus m)" using lk(2) D(8) [of k j] i l by (cases "k = l") (auto simp: m')
  next
    fix j k assume "j < length (cpus m)" "spc m' ! j = Spinning k \<or> spc m' ! j = Got k \<or> spc m' ! j = Clearing k"
    then show "k < length (locks m)" using new l D(6) [of j k] D(1) i by (cases "j = i") (auto simp: m')
  next
    fix j assume "j < length (cpus m)"
    then show "cpu_ok (cpus m' ! j)" using c(1) D(4) [of j] by (cases "j = i") (simp_all add: m')
  qed (use D(1-3) nest in \<open>simp_all add: m'(3-5)\<close>)
qed

lemma holding_Inr:
  assumes "cpu_ok c" and "holding me lk c = Inr (r, c2)"
  shows "r \<longleftrightarrow> locked lk \<and> lcpu lk = Some me" "ncli c2 = ncli c" "iflag c2 = iflag c"
  using holding_ok [OF assms(1), of me lk] assms(2) by auto

lemma popcli_Inr:
  assumes "cpu_ok c" and "popcli c = Inr c2"
  shows "cpu_ok c2" "ncli c2 = ncli c - 1"
  using assms by (auto simp: popcli_def cpu_ok_def Let_def split: if_splits)

lemma popcli_total: "cpu_ok c \<Longrightarrow> 0 < ncli c \<Longrightarrow> \<exists>c2. popcli c = Inr c2"
  by (auto simp: popcli_def cpu_ok_def Let_def)

lemmas machine_upd = goto_def set_cpu_def set_lock_def

lemma inside_alone:
  assumes inv: "spin_inv m" and i: "i < length (cpus m)" and l: "l < length (locks m)" and ins: "inside m l i"
  shows "j < length (cpus m) \<Longrightarrow> j \<noteq> i \<Longrightarrow> \<not> inside m l j" "locked (locks m ! l)"
proof -
  show "\<not> inside m l j" if "j < length (cpus m)" "j \<noteq> i" using spin_invD(9) [OF inv l that(1) i _ ins] that(2) by blast
  show "locked (locks m ! l)" using spin_invD(7) [OF inv l] i ins by blast
qed

lemma spin_step_inv: "spin_inv m \<Longrightarrow> spin_step m m' \<Longrightarrow> spin_inv m'"
proof -
  assume inv: "spin_inv m" and "spin_step m m'"
  note D = spin_invD [OF inv]
  from \<open>spin_step m m'\<close> show "spin_inv m'"
  proof cases
    case (Acquire i l)
    note ok = D(4) [OF Acquire(1)]
    obtain c where c: "holding i (locks m ! l) (pushcli (cpus m ! i)) = Inr (False, c)" "m' = goto i (Spinning l) (set_cpu i c m)"
      using Acquire(4) by (auto simp: acquire_enter_def split: if_splits)
    note P = pushcli_ok [OF ok]
    note H = holding_Inr [OF conjunct1 [OF P] c(1)]
    show ?thesis
      by (rule spin_inv_local [OF inv Acquire(1), of m' c "Spinning l" "bare m ! i"])
        (use Acquire(1-3) D(3) H P in \<open>simp_all add: c(2) machine_upd cpu_ok_def\<close>)
  next
    case (Xchg i l)
    have l: "l < length (locks m)" using D(6) [OF Xchg(2)] Xchg(3) by blast
    show ?thesis
    proof (cases "locked (locks m ! l)")
      case True
      then have e: "(locks m ! l)\<lparr>locked := True\<rparr> = locks m ! l" by (cases "locks m ! l") simp
      have "m' = m" using True unfolding Xchg(1) acquire_xchg_def Let_def set_lock_def e list_update_id by simp
      then show ?thesis using inv by simp
    next
      case False
      have none: "\<not> inside m l j" if "j < length (cpus m)" for j using D(7) [OF l] False that by blast
      have ln: "lcpu (locks m ! l) = None"
      proof (cases "lcpu (locks m ! l)")
        case (Some j)
        then show ?thesis using none [OF D(8) [OF l Some]] by (simp add: inside_def)
      qed simp
      have m': "m' = goto i (Got l) (set_lock l ((locks m ! l)\<lparr>locked := True\<rparr>) m)" using Xchg(1) False by (simp add: acquire_xchg_def Let_def)
      show ?thesis
        by (rule spin_inv_lock [OF inv Xchg(2) l, of m' "cpus m ! i" "(locks m ! l)\<lparr>locked := True\<rparr>" "Got l"])
          (use Xchg(2,3) none ln D(4) [OF Xchg(2)] in \<open>simp_all add: m' machine_upd\<close>)
    qed
  next
    case (Own i l)
    have l: "l < length (locks m)" using D(6) [OF Own(2)] Own(3) by blast
    have ins: "inside m l i" using Own(3) by (simp add: inside_def)
    note A = inside_alone [OF inv Own(2) l ins]
    have ln: "lcpu (locks m ! l) = None" using D(10) [OF l Own(2)] Own(3) by blast
    show ?thesis
      by (rule spin_inv_lock [OF inv Own(2) l, of m' "cpus m ! i" "(locks m ! l)\<lparr>lcpu := Some i\<rparr>" Outside])
        (use Own(2,3) A ln D(4) [OF Own(2)] in \<open>simp_all add: Own(1) acquire_own_def machine_upd\<close>)
  next
    case (Release i l)
    note ok = D(4) [OF Release(1)]
    obtain c where c: "holding i (locks m ! l) (cpus m ! i) = Inr (True, c)"
        "m' = goto i (Clearing l) (set_lock l ((locks m ! l)\<lparr>lcpu := None\<rparr>) (set_cpu i c m))"
      using Release(4) by (auto simp: release_enter_def split: if_splits)
    note H = holding_Inr [OF ok c(1)]
    have ins: "inside m l i" using H(1) by (simp add: inside_def)
    note A = inside_alone [OF inv Release(1,2) ins]
    show ?thesis
      by (rule spin_inv_lock [OF inv Release(1,2), of m' c "(locks m ! l)\<lparr>lcpu := None\<rparr>" "Clearing l"])
        (use Release(1,3) A H ok in \<open>simp_all add: c(2) machine_upd cpu_ok_def\<close>)
  next
    case (Clear i l)
    have l: "l < length (locks m)" using D(6) [OF Clear(2)] Clear(3) by blast
    have ins: "inside m l i" using Clear(3) by (simp add: inside_def)
    note A = inside_alone [OF inv Clear(2) l ins]
    have ln: "lcpu (locks m ! l) = None" using D(10) [OF l Clear(2)] Clear(3) by blast
    show ?thesis
      by (rule spin_inv_lock [OF inv Clear(2) l, of m' "cpus m ! i" "(locks m ! l)\<lparr>locked := False\<rparr>" Popping])
        (use Clear(2,3) A ln D(4) [OF Clear(2)] in \<open>simp_all add: Clear(1) release_clear_def machine_upd\<close>)
  next
    case (Pop i)
    obtain c where c: "popcli (cpus m ! i) = Inr c" "m' = goto i Outside (set_cpu i c m)" using Pop(3) by (auto simp: release_pop_def)
    note P = popcli_Inr [OF D(4) [OF Pop(1)] c(1)]
    show ?thesis
      by (rule spin_inv_local [OF inv Pop(1), of m' c Outside "bare m ! i"])
        (use Pop(1,2) D(3) P in \<open>simp_all add: c(2) machine_upd\<close>)
  next
    case (Push_bare i)
    note P = pushcli_ok [OF D(4) [OF Push_bare(2)]]
    show ?thesis
      by (rule spin_inv_local [OF inv Push_bare(2), of m' "pushcli (cpus m ! i)" Outside "bare m ! i + 1"])
        (use Push_bare(2,3) D(3) P list_update_id [of "spc m" i] in \<open>simp_all add: Push_bare(1) machine_upd\<close>)
  next
    case (Pop_bare i c)
    note P = popcli_Inr [OF D(4) [OF Pop_bare(2)] Pop_bare(5)]
    show ?thesis
      by (rule spin_inv_local [OF inv Pop_bare(2), of m' c Outside "bare m ! i - 1"])
        (use Pop_bare(2-4) D(3) P list_update_id [of "spc m" i] in \<open>simp_all add: Pop_bare(1) machine_upd of_nat_diff\<close>)
  next
    case (Sti i)
    show ?thesis
      by (rule spin_inv_local [OF inv Sti(2), of m' "(cpus m ! i)\<lparr>iflag := True\<rparr>" Outside "bare m ! i"])
        (use Sti(2-4) D(3) list_update_id [of "spc m" i] in \<open>simp_all add: Sti(1) machine_upd cpu_ok_def\<close>)
  next
    case (Interrupt i)
    have "ncli (cpus m ! i) = 0" using D(4) [OF Interrupt(2)] Interrupt(3) by (simp add: cpu_ok_def)
    then have o: "spc m ! i = Outside" using D(5) [OF Interrupt(2)] by (cases "spc m ! i = Outside") (simp_all add: nested_def)
    show ?thesis
      by (rule spin_inv_local [OF inv Interrupt(2), of m' "(cpus m ! i)\<lparr>iflag := False\<rparr>" Outside "bare m ! i"])
        (use Interrupt(2,3) o D(3,4) list_update_id [of "spc m" i] in \<open>simp_all add: Interrupt(1) machine_upd cpu_ok_def\<close>)
  next
    case (Iret i)
    show ?thesis
      by (rule spin_inv_local [OF inv Iret(2), of m' "(cpus m ! i)\<lparr>iflag := True\<rparr>" Outside "bare m ! i"])
        (use Iret(2-5) D(3) list_update_id [of "spc m" i] in \<open>simp_all add: Iret(1) machine_upd cpu_ok_def\<close>)
  qed
qed
lemma spin_start_inv: "spin_inv (spin_start n k)"
proof (rule spin_invI)
  show "ncli (cpus (spin_start n k) ! i) = nested (spin_start n k) i" if "i < n" for i
  proof -
    have "slots (\<lambda>lk. lcpu lk = Some i) (replicate k initlock) = 0" by (auto simp: slots_zero_iff initlock_def)
    then show ?thesis using that by (simp add: spin_start_def nested_def)
  qed
qed (auto simp: spin_start_def inside_def cpu_ok_def initlock_def)

lemma enter_eqs:
  "holding i (locks m ! l) (pushcli (cpus m ! i)) = Inr (r, c) \<Longrightarrow>
    acquire_enter i l m = (if r then Inl (Panic ''acquire'') else Inr (goto i (Spinning l) (set_cpu i c m)))"
  "holding i (locks m ! l) (cpus m ! i) = Inr (r, c) \<Longrightarrow>
    release_enter i l m =
      (if \<not> r then Inl (Panic ''release'') else Inr (goto i (Clearing l) (set_lock l ((locks m ! l)\<lparr>lcpu := None\<rparr>) (set_cpu i c m))))"
  by (simp_all add: acquire_enter_def release_enter_def)

interpretation spin_cpus: thread_system "spin_start n k" spin_step spin_inv for n k
  by unfold_locales (auto intro: spin_start_inv spin_step_inv)

lemma spin_step_sizes: "spin_step m m' \<Longrightarrow> length (cpus m') = length (cpus m) \<and> length (locks m') = length (locks m)"
  by (induction rule: spin_step.induct)
    (auto simp: acquire_enter_def acquire_xchg_def acquire_own_def release_enter_def release_clear_def release_pop_def machine_upd Let_def split: if_splits)

lemma reachable_sizes: "spin_step\<^sup>*\<^sup>* (spin_start n k) m \<Longrightarrow> length (cpus m) = n \<and> length (locks m) = k"
  by (induction rule: rtranclp_induct) (auto simp: spin_start_def dest: spin_step_sizes)

text \<open>C17: spin locks. In every state that processors with any number of spin locks reach, at most one processor is inside a lock; a lock
  is marked as locked exactly when some processor is inside; a processor that is inside a lock, or in \<open>acquire\<close> or \<open>release\<close>, has
  its interrupts disabled, so that a handler never waits for a lock of its own processor. The panics do not happen to code that acquires only locks
  it does not hold and releases only locks it holds, and a processor in the loop of \<open>acquire\<close> gets the lock with its next
  exchange if and only if nobody is inside.\<close>

theorem spinlock_guarantees:
  assumes "spin_step\<^sup>*\<^sup>* (spin_start n k) m" and l: "l < k" and i: "i < n"
  shows "(\<forall>j < n. inside m l i \<longrightarrow> inside m l j \<longrightarrow> i = j) \<and> (locked (locks m ! l) \<longleftrightarrow> (\<exists>j < n. inside m l j)) \<and>
    (inside m l i \<or> spc m ! i \<noteq> Outside \<longrightarrow> \<not> iflag (cpus m ! i)) \<and>
    (spc m ! i = Outside \<longrightarrow> lcpu (locks m ! l) \<noteq> Some i \<longrightarrow> (\<exists>m'. acquire_enter i l m = Inr m' \<and> spc m' ! i = Spinning l)) \<and>
    (spc m ! i = Outside \<longrightarrow> lcpu (locks m ! l) = Some i \<longrightarrow> (\<exists>m'. release_enter i l m = Inr m' \<and> spc m' ! i = Clearing l)) \<and>
    (spc m ! i = Popping \<longrightarrow> (\<exists>m'. release_pop i m = Inr m')) \<and>
    (spc m ! i = Spinning l \<longrightarrow> (spc (acquire_xchg i l m) ! i = Got l \<longleftrightarrow> \<not> (\<exists>j < n. inside m l j)))"
proof -
  have inv: "spin_inv m" using spin_cpus.reachable_inv assms(1) unfolding spin_cpus.reachable_def by blast
  have len: "length (cpus m) = n" "length (locks m) = k" using reachable_sizes [OF assms(1)] by simp_all
  note D = spin_invD [OF inv, unfolded len]
  note ok = D(4) [OF i] and cnt = D(5) [OF i]
  have ge: "0 < ncli (cpus m ! i)" if "inside m l i \<or> spc m ! i \<noteq> Outside"
  proof (cases "spc m ! i = Outside")
    case True
    then have "lcpu (locks m ! l) = Some i" using that by (auto simp: inside_def)
    then have "1 \<le> int (slots (\<lambda>lk. lcpu lk = Some i) (locks m))" using slots_pos [of l "locks m" "\<lambda>lk. lcpu lk = Some i"] l len by simp
    then show ?thesis using cnt by (simp add: nested_def)
  next
    case False
    then show ?thesis using cnt by (simp add: nested_def)
  qed
  have off: "\<not> iflag (cpus m ! i)" if "inside m l i \<or> spc m ! i \<noteq> Outside" using ge [OF that] ok by (auto simp: cpu_ok_def)
  have lk: "locked (locks m ! l)" if "lcpu (locks m ! l) = Some i"
  proof -
    have "inside m l i" using that by (simp add: inside_def)
    then show ?thesis using D(7) [OF l] i by blast
  qed
  have acq: "\<exists>m'. acquire_enter i l m = Inr m' \<and> spc m' ! i = Spinning l" if no: "lcpu (locks m ! l) \<noteq> Some i"
  proof -
    obtain c where "holding i (locks m ! l) (pushcli (cpus m ! i)) = Inr (False, c)"
      using holding_ok [OF conjunct1 [OF pushcli_ok [OF ok]], of i "locks m ! l"] no by auto
    from enter_eqs(1) [OF this] show ?thesis using i D(1) by (simp add: machine_upd)
  qed
  have rel: "\<exists>m'. release_enter i l m = Inr m' \<and> spc m' ! i = Clearing l" if own: "lcpu (locks m ! l) = Some i"
  proof -
    obtain c where "holding i (locks m ! l) (cpus m ! i) = Inr (True, c)" using holding_ok [OF ok, of i "locks m ! l"] own lk [OF own] by auto
    from enter_eqs(2) [OF this] show ?thesis using i D(1) by (simp add: machine_upd)
  qed
  have pop: "\<exists>m'. release_pop i m = Inr m'" if "spc m ! i = Popping"
    using popcli_total [OF ok] ge that by (auto simp: release_pop_def)
  have spin: "spc (acquire_xchg i l m) ! i = Got l \<longleftrightarrow> \<not> (\<exists>j < n. inside m l j)" if "spc m ! i = Spinning l"
    using D(7) [OF l] that i D(1) by (auto simp: acquire_xchg_def Let_def machine_upd)
  show ?thesis using D(9) [OF l i] D(7) [OF l] off acq rel pop spin by blast
qed

theorem spinlock_guarantees_witness:
  "\<exists>m. spin_step\<^sup>*\<^sup>* (spin_start 2 1) m \<and> spc m ! 0 = Got 0 \<and> spc m ! 1 = Spinning 0 \<and> locked (locks m ! 0) \<and> \<not> iflag (cpus m ! 0) \<and>
     spc (acquire_xchg 1 0 m) ! 1 = Spinning 0"
proof -
  define m0 where "m0 = spin_start 2 1"
  let ?c = "\<lparr>ncli = 0, intena = False, iflag = False\<rparr>" and ?c1 = "\<lparr>ncli = 1, intena = False, iflag = False\<rparr>"
  have h: "holding i initlock (pushcli ?c) = Inr (False, ?c1)" for i
    by (simp add: holding_def pushcli_def popcli_def Let_def initlock_def)
  define m1 where "m1 = goto 0 (Spinning 0) (set_cpu 0 ?c1 m0)"
  define m2 where "m2 = goto 1 (Spinning 0) (set_cpu 1 ?c1 m1)"
  have m0: "cpus m0 = [?c, ?c]" "locks m0 = [initlock]" "spc m0 = [Outside, Outside]" by (simp_all add: m0_def spin_start_def numeral_2_eq_2)
  have m1: "acquire_enter 0 0 m0 = Inr m1" "cpus m1 = [?c1, ?c]" "locks m1 = [initlock]" "spc m1 = [Spinning 0, Outside]"
    using enter_eqs(1) [of 0 m0 0 False ?c1] m0 h by (simp_all add: m1_def machine_upd)
  have m2: "acquire_enter 1 0 m1 = Inr m2" "cpus m2 = [?c1, ?c1]" "locks m2 = [initlock]" "spc m2 = [Spinning 0, Spinning 0]"
    using enter_eqs(1) [of 1 m1 0 False ?c1] m1(2-4) h by (simp_all add: m2_def machine_upd)
  define m3 where "m3 = acquire_xchg 0 0 m2"
  have m3: "spc m3 = [Got 0, Spinning 0]" "locks m3 = [\<lparr>locked = True, lcpu = None\<rparr>]"
    using m2 by (simp_all add: m3_def acquire_xchg_def Let_def machine_upd initlock_def)
  have "spin_step m0 m1" by (rule spin_step.Acquire [of 0 _ 0]) (use m0 m1(1) in simp_all)
  moreover have "spin_step m1 m2" by (rule spin_step.Acquire [of 1 _ 0]) (use m1 m2 in simp_all)
  moreover have "spin_step m2 m3" unfolding m3_def by (rule spin_step.Xchg) (use m2 in simp_all)
  ultimately have r: "spin_step\<^sup>*\<^sup>* (spin_start 2 1) m3" unfolding m0_def by (meson rtranclp.rtrancl_into_rtrancl rtranclp.rtrancl_refl)
  have ins: "inside m3 0 0" using m3 by (simp add: inside_def)
  have "locked (locks m3 ! 0) \<and> \<not> iflag (cpus m3 ! 0)" using spinlock_guarantees [OF r, of 0 0] ins by auto
  moreover have "spc (acquire_xchg 1 0 m3) ! 1 = Spinning 0" using m3 by (simp add: acquire_xchg_def Let_def machine_upd)
  ultimately show ?thesis using r m3 by (intro exI [of _ m3]) simp
qed

subsection \<open>Sleep locks\<close>

record sleeplock =
  slocked :: bool
  spid :: int

definition initsleeplock :: sleeplock where
  "initsleeplock = \<lparr>slocked = False, spid = 0\<rparr>"

text \<open>What a process does with the lock: nothing, it is about to test \<open>lk->locked\<close> in the loop of \<open>acquiresleep\<close>, it sleeps there, or it has the lock.\<close>

datatype sleeper = Away | Testing | Asleep | Owning

record sleep_sys =
  slock :: sleeplock
  sprocs :: "sleeper list"

definition acquiresleep :: "int \<Rightarrow> nat \<Rightarrow> sleep_sys \<Rightarrow> sleep_sys" where
  "acquiresleep pid p s =
     (if slocked (slock s) then s\<lparr>sprocs := (sprocs s)[p := Asleep]\<rparr>
      else s\<lparr>slock := (slock s)\<lparr>slocked := True, spid := pid\<rparr>, sprocs := (sprocs s)[p := Owning]\<rparr>)"

definition releasesleep :: "nat \<Rightarrow> sleep_sys \<Rightarrow> sleep_sys" where
  "releasesleep p s =
     s\<lparr>slock := (slock s)\<lparr>slocked := False, spid := 0\<rparr>,
       sprocs := map (\<lambda>x. if x = Asleep then Testing else x) ((sprocs s)[p := Away])\<rparr>"

definition holdingsleep_lock :: "int \<Rightarrow> sleeplock \<Rightarrow> bool" where
  "holdingsleep_lock pid lk \<longleftrightarrow> slocked lk \<and> spid lk = pid"

text \<open>The steps of the processes with the pids \<open>pids\<close>. A sleeping process may be woken by \<open>kill\<close> at any time; the loop of \<open>acquiresleep\<close> then
  tests again.\<close>

inductive sleep_step :: "int list \<Rightarrow> sleep_sys \<Rightarrow> sleep_sys \<Rightarrow> bool" for pids where
  Call: "p < length (sprocs s) \<Longrightarrow> sprocs s ! p = Away \<Longrightarrow> sleep_step pids s (s\<lparr>sprocs := (sprocs s)[p := Testing]\<rparr>)"
| Test: "p < length (sprocs s) \<Longrightarrow> sprocs s ! p = Testing \<Longrightarrow> sleep_step pids s (acquiresleep (pids ! p) p s)"
| Killed: "p < length (sprocs s) \<Longrightarrow> sprocs s ! p = Asleep \<Longrightarrow> sleep_step pids s (s\<lparr>sprocs := (sprocs s)[p := Testing]\<rparr>)"
| Leave: "p < length (sprocs s) \<Longrightarrow> sprocs s ! p = Owning \<Longrightarrow> sleep_step pids s (releasesleep p s)"

definition sleep_start :: "int list \<Rightarrow> sleep_sys" where
  "sleep_start pids = \<lparr>slock = initsleeplock, sprocs = replicate (length pids) Away\<rparr>"

definition sleep_inv :: "int list \<Rightarrow> sleep_sys \<Rightarrow> bool" where
  "sleep_inv pids s \<longleftrightarrow> length (sprocs s) = length pids \<and>
     (slocked (slock s) \<longrightarrow> (\<exists>p < length pids. spid (slock s) = pids ! p \<and> (\<forall>q < length pids. sprocs s ! q = Owning \<longleftrightarrow> q = p))) \<and>
     (\<not> slocked (slock s) \<longrightarrow> (\<forall>q < length pids. sprocs s ! q \<noteq> Owning \<and> sprocs s ! q \<noteq> Asleep))"

lemma sleep_inv_move:
  assumes inv: "sleep_inv pids s" and p: "p < length pids" "sprocs s ! p \<noteq> Owning" and x: "x \<noteq> Owning" "x = Asleep \<Longrightarrow> slocked (slock s)"
  shows "sleep_inv pids (s\<lparr>sprocs := (sprocs s)[p := x]\<rparr>)"
proof -
  have own: "(sprocs s)[p := x] ! q = Owning \<longleftrightarrow> sprocs s ! q = Owning" for q
    using p x(1) inv by (cases "q = p") (auto simp: sleep_inv_def)
  have "(sprocs s)[p := x] ! q \<noteq> Asleep" if "\<not> slocked (slock s)" "q < length pids" for q
    using that inv x(2) by (cases "q = p") (auto simp: sleep_inv_def)
  then show ?thesis using inv unfolding sleep_inv_def by (simp add: own)
qed

lemma sleep_step_inv: "sleep_step pids s s' \<Longrightarrow> sleep_inv pids s \<Longrightarrow> sleep_inv pids s'"
proof (induction rule: sleep_step.induct)
  case (Call p s)
  then show ?case by (intro sleep_inv_move) (auto simp: sleep_inv_def)
next
  case (Test p s)
  show ?case
  proof (cases "slocked (slock s)")
    case True
    then show ?thesis using Test sleep_inv_move [of pids s p Asleep] by (simp add: acquiresleep_def sleep_inv_def)
  next
    case False
    then show ?thesis using Test by (auto simp: sleep_inv_def acquiresleep_def nth_list_update)
  qed
next
  case (Killed p s)
  then show ?case by (intro sleep_inv_move) (auto simp: sleep_inv_def)
next
  case (Leave p s)
  then show ?case by (auto simp: sleep_inv_def releasesleep_def nth_list_update)
qed

lemma sleep_start_inv: "sleep_inv pids (sleep_start pids)"
  by (simp add: sleep_start_def sleep_inv_def initsleeplock_def)

interpretation sleep_procs: thread_system "sleep_start pids" "sleep_step pids" "sleep_inv pids" for pids
  by unfold_locales (auto intro: sleep_start_inv sleep_step_inv)

text \<open>C33: sleep locks. In every state that processes with different pids reach, at most one has the lock, and \<open>holdingsleep\<close> is true for exactly this
  one; and as long as a process sleeps for the lock some process has it, so no wakeup is lost.\<close>

theorem sleeplock_guarantees:
  assumes "(sleep_step pids)\<^sup>*\<^sup>* (sleep_start pids) s" and "distinct pids" and p: "p < length pids" and q: "q < length pids"
  shows "(sprocs s ! p = Owning \<longrightarrow> sprocs s ! q = Owning \<longrightarrow> p = q) \<and> (holdingsleep_lock (pids ! p) (slock s) \<longleftrightarrow> sprocs s ! p = Owning) \<and>
    (sprocs s ! p = Asleep \<longrightarrow> (\<exists>h < length pids. sprocs s ! h = Owning))"
proof -
  have inv: "sleep_inv pids s" using sleep_procs.reachable_inv assms(1) unfolding sleep_procs.reachable_def by blast
  show ?thesis
  proof (cases "slocked (slock s)")
    case True
    then obtain h where "h < length pids" "spid (slock s) = pids ! h" "\<forall>q < length pids. sprocs s ! q = Owning \<longleftrightarrow> q = h"
      using inv by (auto simp: sleep_inv_def)
    then show ?thesis using True p q nth_eq_iff_index_eq [OF assms(2)] by (auto simp: holdingsleep_lock_def)
  next
    case False
    then show ?thesis using inv p by (auto simp: sleep_inv_def holdingsleep_lock_def)
  qed
qed

theorem sleeplock_guarantees_witness:
  "\<exists>s. (sleep_step [4, 7])\<^sup>*\<^sup>* (sleep_start [4, 7]) s \<and> sprocs s = [Owning, Asleep] \<and> holdingsleep_lock 4 (slock s) \<and> \<not> holdingsleep_lock 7 (slock s)"
proof -
  let ?st = "\<lambda>l xs. \<lparr>slock = l, sprocs = xs\<rparr>" and ?l = "\<lparr>slocked = True, spid = 4\<rparr>"
  let ?s1 = "?st initsleeplock [Testing, Away]" and ?s2 = "?st ?l [Owning, Away]" and ?s3 = "?st ?l [Owning, Testing]" and ?s4 = "?st ?l [Owning, Asleep]"
  have "sleep_step [4, 7] (sleep_start [4, 7]) ?s1"
    using sleep_step.Call [of 0 "sleep_start [4, 7]" "[4, 7]"] by (simp add: sleep_start_def)
  moreover have "sleep_step [4, 7] ?s1 ?s2" using sleep_step.Test [of 0 ?s1 "[4, 7]"] by (simp add: acquiresleep_def initsleeplock_def)
  moreover have "sleep_step [4, 7] ?s2 ?s3" using sleep_step.Call [of 1 ?s2 "[4, 7]"] by simp
  moreover have "sleep_step [4, 7] ?s3 ?s4" using sleep_step.Test [of 1 ?s3 "[4, 7]"] by (simp add: acquiresleep_def)
  ultimately have r: "(sleep_step [4, 7])\<^sup>*\<^sup>* (sleep_start [4, 7]) ?s4" by (meson rtranclp.rtrancl_into_rtrancl rtranclp.rtrancl_refl)
  have "holdingsleep_lock 4 (slock ?s4) \<and> \<not> holdingsleep_lock 7 (slock ?s4)"
    using sleeplock_guarantees [OF r, of 0 1] sleeplock_guarantees [OF r, of 1 0] by simp
  with r show ?thesis by (intro exI [of _ ?s4]) simp
qed

end
