(* ===== verification/XV6_Trap.thy ===== *)
theory XV6_Trap
  imports XV6_Proc
begin

text \<open>
  Traps, interrupts and system calls of xv6: \<open>src/project3/xv6-modified/trap.c\<close>, the dispatcher of \<open>syscall.c\<close> and the calls of \<open>sysproc.c\<close>, on the kernel
  of the processes. The memory of the running process, the calls of \<open>sysfile.c\<close> and the handlers of the devices are arguments of
  the definitions. Their types say what this code can do to the process table: a call on files reads the entry of its caller and the rest of the kernel, may give new
  values to the fields that \<open>sysfile.c\<close> and \<open>exec.c\<close> write (\<open>own\<close>), change the rest, wake channels, and ends with a value or goes to sleep on a channel; a
  device handler changes the rest and wakes channels. Nothing is assumed of them. The messages that are printed are left out. A call ends with a value, sleeps, in which case the process will go on where it
  slept, or ends the process. A trap is run here without being interrupted itself; \<open>kstep\<close> of \<open>XV6_Proc\<close> has the interleavings. The clock counts in 32 bits.
\<close>

subsection \<open>System calls\<close>

definition T_SYSCALL :: nat where "T_SYSCALL = 64"
definition T_IRQ0 :: nat where "T_IRQ0 = 32"
definition IRQ_TIMER :: nat where "IRQ_TIMER = 0"
definition IRQ_KBD :: nat where "IRQ_KBD = 1"
definition IRQ_COM1 :: nat where "IRQ_COM1 = 4"
definition IRQ_IDE :: nat where "IRQ_IDE = 14"
definition IRQ_SPURIOUS :: nat where "IRQ_SPURIOUS = 31"

lemmas trap_consts = T_SYSCALL_def T_IRQ0_def IRQ_TIMER_def IRQ_KBD_def IRQ_COM1_def IRQ_IDE_def IRQ_SPURIOUS_def

record 'k tkernel =
  tk :: "'k kernel"
  ticks :: uint32

text \<open>What a call on files does for the process table: the fields of its own process, and how it ends.\<close>

record own =
  o_ofile :: "nat \<Rightarrow> nat option"
  o_cwd :: "nat option"
  o_sz :: uint32
  o_pgdir :: "nat option"
  o_name :: string
  o_tf :: trapframe

datatype file_result = File_value uint32 | File_sleep chan

record 'k trap_env =
  te_byte :: "nat option \<Rightarrow> uint32 \<Rightarrow> 'k \<Rightarrow> byte"
  te_word :: "nat option \<Rightarrow> uint32 \<Rightarrow> 'k \<Rightarrow> uint32"
  te_store :: "nat option \<Rightarrow> uint32 \<Rightarrow> uint32 list \<Rightarrow> 'k \<Rightarrow> 'k"
  te_filecall :: "nat \<Rightarrow> proc \<Rightarrow> 'k \<Rightarrow> fault + file_result \<times> own \<times> chan list \<times> 'k"
  te_device :: "nat \<Rightarrow> 'k \<Rightarrow> fault + chan list \<times> 'k"

datatype 'a result = Value uint32 'a | Sleeping 'a | Ended 'a

text \<open>The channel \<open>&ticks\<close>.\<close>

definition ticks_chan :: chan where
  "ticks_chan = Chan_addr 0"

definition proc_argint :: "'k trap_env \<Rightarrow> nat \<Rightarrow> 'k tkernel \<Rightarrow> fault + uint32 option" where
  "proc_argint E n t =
     ebind (myproc (tk t)) (\<lambda>c.
       let p = proc_at (tk t) c; addr = tf_esp (p_tf p) + 4 + 4 * word_of_nat n in
       Inr (if addr \<ge> p_sz p \<or> addr + 4 > p_sz p then None else Some (te_word E (p_pgdir p) addr (rest (tk t)))))"

definition proc_argptr :: "'k trap_env \<Rightarrow> nat \<Rightarrow> uint32 \<Rightarrow> 'k tkernel \<Rightarrow> fault + uint32 option" where
  "proc_argptr E n len t =
     ebind (myproc (tk t)) (\<lambda>c.
       ebind (proc_argint E n t) (\<lambda>a.
         let sz = p_sz (proc_at (tk t) c) in
         Inr (case a of None \<Rightarrow> None | Some i \<Rightarrow> if i \<ge> sz \<or> i + len > sz then None else Some i)))"

text \<open>Whether \<open>argstr\<close> finds a string that ends inside the memory of the process.\<close>

definition proc_argstr :: "'k trap_env \<Rightarrow> nat \<Rightarrow> 'k tkernel \<Rightarrow> fault + bool" where
  "proc_argstr E n t =
     ebind (myproc (tk t)) (\<lambda>c.
       ebind (proc_argint E n t) (\<lambda>a.
         let p = proc_at (tk t) c in
         Inr (case a of
                None \<Rightarrow> False
              | Some addr \<Rightarrow> list_ex (\<lambda>s. te_byte E (p_pgdir p) (word_of_nat s) (rest (tk t)) = 0) [unat addr..<unat (p_sz p)])))"

definition value_of :: "int \<Rightarrow> 'k kernel \<Rightarrow> 'k tkernel \<Rightarrow> 'k tkernel result" where
  "value_of r k t = Value (word_of_int r) (t\<lparr>tk := k\<rparr>)"

definition sys_fork :: "'k services \<Rightarrow> 'k tkernel \<Rightarrow> fault + 'k tkernel result" where
  "sys_fork S t = ebind (fork S (tk t)) (\<lambda>(r, k). Inr (value_of r k t))"

definition sys_exit :: "'k services \<Rightarrow> 'k tkernel \<Rightarrow> fault + 'k tkernel result" where
  "sys_exit S t = ebind (exit_proc S (tk t)) (\<lambda>k. Inr (Ended (t\<lparr>tk := k\<rparr>)))"

definition sys_wait :: "'k services \<Rightarrow> 'k tkernel \<Rightarrow> fault + 'k tkernel result" where
  "sys_wait S t =
     ebind (wait_pass S (tk t)) (\<lambda>(r, k). Inr (case r of Returned pid \<Rightarrow> value_of pid k t | Slept \<Rightarrow> Sleeping (t\<lparr>tk := k\<rparr>)))"

definition sys_kill :: "'k trap_env \<Rightarrow> 'k tkernel \<Rightarrow> fault + 'k tkernel result" where
  "sys_kill E t =
     ebind (proc_argint E 0 t) (\<lambda>a.
       Inr (case a of None \<Rightarrow> value_of (-1) (tk t) t | Some pid \<Rightarrow> (case kill (sint pid) (tk t) of (r, k) \<Rightarrow> value_of r k t)))"

definition sys_getpid :: "'k tkernel \<Rightarrow> fault + 'k tkernel result" where
  "sys_getpid t = ebind (myproc (tk t)) (\<lambda>c. Inr (value_of (p_pid (proc_at (tk t) c)) (tk t) t))"

definition sys_sbrk :: "'k services \<Rightarrow> 'k trap_env \<Rightarrow> 'k tkernel \<Rightarrow> fault + 'k tkernel result" where
  "sys_sbrk S E t =
     ebind (proc_argint E 0 t) (\<lambda>a.
       case a of
         None \<Rightarrow> Inr (value_of (-1) (tk t) t)
       | Some n \<Rightarrow>
           ebind (myproc (tk t)) (\<lambda>c.
             let addr = p_sz (proc_at (tk t) c) in
             ebind (growproc S (sint n) (tk t)) (\<lambda>(r, k).
               Inr (if r < 0 then value_of (-1) k t else Value addr (t\<lparr>tk := k\<rparr>)))))"

text \<open>One iteration of the loop of \<open>sys_sleep\<close>. The comparison \<open>ticks - ticks0 < n\<close> is one of unsigned numbers.\<close>

definition sleep_pass :: "uint32 \<Rightarrow> uint32 \<Rightarrow> 'k tkernel \<Rightarrow> fault + 'k tkernel result" where
  "sleep_pass n ticks0 t =
     (if ticks t - ticks0 < n
      then
        ebind (myproc (tk t)) (\<lambda>c.
          if p_killed (proc_at (tk t) c) then Inr (value_of (-1) (tk t) t)
          else ebind (sleep_on ticks_chan (tk t)) (\<lambda>k. Inr (Sleeping (t\<lparr>tk := k\<rparr>))))
      else Inr (value_of 0 (tk t) t))"

definition sys_sleep :: "'k trap_env \<Rightarrow> 'k tkernel \<Rightarrow> fault + 'k tkernel result" where
  "sys_sleep E t =
     ebind (proc_argint E 0 t) (\<lambda>a. case a of None \<Rightarrow> Inr (value_of (-1) (tk t) t) | Some n \<Rightarrow> sleep_pass n (ticks t) t)"

definition sys_uptime :: "'k tkernel \<Rightarrow> fault + 'k tkernel result" where
  "sys_uptime t = Inr (Value (ticks t) t)"

definition sys_hello :: "'k tkernel \<Rightarrow> fault + 'k tkernel result" where
  "sys_hello t = Inr (value_of 0 (tk t) t)"

definition sys_hello_name :: "'k trap_env \<Rightarrow> 'k tkernel \<Rightarrow> fault + 'k tkernel result" where
  "sys_hello_name E t = ebind (proc_argstr E 0 t) (\<lambda>ok. Inr (value_of (if ok then 0 else -1) (tk t) t))"

definition sys_get_num_proc :: "'k tkernel \<Rightarrow> fault + 'k tkernel result" where
  "sys_get_num_proc t = Inr (value_of (get_num_proc (tk t)) (tk t) t)"

definition sys_get_max_pid :: "'k tkernel \<Rightarrow> fault + 'k tkernel result" where
  "sys_get_max_pid t = Inr (value_of (get_max_pid (tk t)) (tk t) t)"

definition sys_get_proc_info :: "'k trap_env \<Rightarrow> 'k tkernel \<Rightarrow> fault + 'k tkernel result" where
  "sys_get_proc_info E t =
     ebind (proc_argint E 0 t) (\<lambda>a.
       case a of
         None \<Rightarrow> Inr (value_of (-1) (tk t) t)
       | Some pid \<Rightarrow>
           ebind (proc_argptr E 1 12 t) (\<lambda>b.
             case b of
               None \<Rightarrow> Inr (value_of (-1) (tk t) t)
             | Some ptr \<Rightarrow>
                 ebind (myproc (tk t)) (\<lambda>c.
                   Inr (case get_proc_info (sint pid) (tk t) of
                          None \<Rightarrow> value_of (-1) (tk t) t
                        | Some i \<Rightarrow>
                            value_of 0 ((tk t)\<lparr>rest := te_store E (p_pgdir (proc_at (tk t) c)) ptr
                              [word_of_int (ppid i), psize i, numberContextSwitches i] (rest (tk t))\<rparr>) t))))"

definition sys_get_prio :: "'k tkernel \<Rightarrow> fault + 'k tkernel result" where
  "sys_get_prio t = ebind (get_prio (tk t)) (\<lambda>r. Inr (value_of r (tk t) t))"

definition sys_set_prio :: "'k trap_env \<Rightarrow> 'k tkernel \<Rightarrow> fault + 'k tkernel result" where
  "sys_set_prio E t =
     ebind (proc_argint E 0 t) (\<lambda>a.
       case a of None \<Rightarrow> Inr (value_of (-1) (tk t) t) | Some n \<Rightarrow> ebind (set_prio (sint n) (tk t)) (\<lambda>(r, k). Inr (value_of r k t)))"

definition set_own :: "own \<Rightarrow> proc \<Rightarrow> proc" where
  "set_own ow p = p\<lparr>p_ofile := o_ofile ow, p_cwd := o_cwd ow, p_sz := o_sz ow, p_pgdir := o_pgdir ow, p_name := o_name ow, p_tf := o_tf ow\<rparr>"

definition file_call :: "'k trap_env \<Rightarrow> nat \<Rightarrow> 'k tkernel \<Rightarrow> fault + 'k tkernel result" where
  "file_call E num t =
     ebind (myproc (tk t)) (\<lambda>c.
       ebind (te_filecall E num (proc_at (tk t) c) (rest (tk t))) (\<lambda>(w, ow, chs, r).
         let k1 = fold wakeup chs (upd_proc c (set_own ow) ((tk t)\<lparr>rest := r\<rparr>)) in
         case w of
           File_value v \<Rightarrow> Inr (Value v (t\<lparr>tk := k1\<rparr>))
         | File_sleep ch \<Rightarrow> ebind (sleep_on ch k1) (\<lambda>k2. Inr (Sleeping (t\<lparr>tk := k2\<rparr>)))))"

text \<open>The table \<open>syscalls\<close>: the calls of \<open>sysfile.c\<close> have the numbers 4, 5, 7 to 10 and 15 to 21.\<close>

definition file_calls :: "nat list" where
  "file_calls = [4, 5, 7, 8, 9, 10, 15, 16, 17, 18, 19, 20, 21]"

definition syscalls :: "'k services \<Rightarrow> 'k trap_env \<Rightarrow> nat \<Rightarrow> ('k tkernel \<Rightarrow> fault + 'k tkernel result) option" where
  "syscalls S E num =
     (if num = 1 then Some (sys_fork S) else if num = 2 then Some (sys_exit S) else if num = 3 then Some (sys_wait S)
      else if num = 6 then Some (sys_kill E) else if num = 11 then Some sys_getpid else if num = 12 then Some (sys_sbrk S E)
      else if num = 13 then Some (sys_sleep E) else if num = 14 then Some sys_uptime else if num = 22 then Some sys_hello
      else if num = 23 then Some (sys_hello_name E) else if num = 24 then Some sys_get_num_proc else if num = 25 then Some sys_get_max_pid
      else if num = 26 then Some (sys_get_proc_info E) else if num = 27 then Some sys_get_prio else if num = 28 then Some (sys_set_prio E)
      else if num \<in> set file_calls then Some (file_call E num)
      else None)"

definition set_eax :: "nat \<Rightarrow> uint32 \<Rightarrow> 'k tkernel \<Rightarrow> 'k tkernel" where
  "set_eax c v t = t\<lparr>tk := upd_proc c (\<lambda>p. p\<lparr>p_tf := (p_tf p)\<lparr>tf_eax := v\<rparr>\<rparr>) (tk t)\<rparr>"

definition syscall :: "'k services \<Rightarrow> 'k trap_env \<Rightarrow> 'k tkernel \<Rightarrow> fault + 'k tkernel result" where
  "syscall S E t =
     ebind (myproc (tk t)) (\<lambda>c.
       let num = sint (tf_eax (p_tf (proc_at (tk t) c))) in
       case (if num > 0 \<and> num < 29 then syscalls S E (nat num) else None) of
         None \<Rightarrow> Inr (Value (-1) (set_eax c (-1) t))
       | Some f \<Rightarrow> ebind (f t) (\<lambda>r. Inr (case r of Value v t1 \<Rightarrow> Value v (set_eax c v t1) | r \<Rightarrow> r)))"

subsection \<open>Traps\<close>

text \<open>\<open>exit()\<close> when the current process is killed and the test of the privilege level holds; it does not return.\<close>

definition exit_if :: "'k services \<Rightarrow> bool \<Rightarrow> 'k tkernel \<Rightarrow> (fault + 'k tkernel result) \<Rightarrow> fault + 'k tkernel result" where
  "exit_if S user t next' =
     (case cur (tk t) of
        Some c \<Rightarrow> if p_killed (proc_at (tk t) c) \<and> user then ebind (exit_proc S (tk t)) (\<lambda>k. Inr (Ended (t\<lparr>tk := k\<rparr>))) else next'
      | None \<Rightarrow> next')"

definition clock :: "nat \<Rightarrow> 'k tkernel \<Rightarrow> 'k tkernel" where
  "clock cpuid t = (if cpuid = 0 then t\<lparr>ticks := ticks t + 1, tk := wakeup ticks_chan (tk t)\<rparr> else t)"

text \<open>The \<open>switch\<close> of \<open>trap\<close>.\<close>

definition dispatch :: "'k trap_env \<Rightarrow> nat \<Rightarrow> nat \<Rightarrow> bool \<Rightarrow> 'k tkernel \<Rightarrow> fault + 'k tkernel" where
  "dispatch E cpuid trapno user t =
     (if trapno = T_IRQ0 + IRQ_TIMER then Inr (clock cpuid t)
      else if trapno = T_IRQ0 + IRQ_IDE \<or> trapno = T_IRQ0 + IRQ_KBD \<or> trapno = T_IRQ0 + IRQ_COM1
      then ebind (te_device E trapno (rest (tk t))) (\<lambda>(chs, r). Inr (t\<lparr>tk := fold wakeup chs ((tk t)\<lparr>rest := r\<rparr>)\<rparr>))
      else if trapno = T_IRQ0 + IRQ_IDE + 1 \<or> trapno = T_IRQ0 + 7 \<or> trapno = T_IRQ0 + IRQ_SPURIOUS then Inr t
      else
        case cur (tk t) of
          None \<Rightarrow> Inl (Panic ''trap'')
        | Some c \<Rightarrow> if \<not> user then Inl (Panic ''trap'') else Inr (t\<lparr>tk := upd_proc c (\<lambda>p. p\<lparr>p_killed := True\<rparr>) (tk t)\<rparr>))"

text \<open>The end of \<open>trap\<close>, which a process also runs when it comes back from \<open>yield\<close>.\<close>

definition trap_end :: "'k services \<Rightarrow> bool \<Rightarrow> 'k tkernel \<Rightarrow> fault + 'k tkernel result" where
  "trap_end S user t = exit_if S user t (Inr (Value 0 t))"

definition trap :: "'k services \<Rightarrow> 'k trap_env \<Rightarrow> nat \<Rightarrow> nat \<Rightarrow> trapframe \<Rightarrow> 'k tkernel \<Rightarrow> fault + 'k tkernel result" where
  "trap S E cpuid trapno tf t =
     (if trapno = T_SYSCALL
      then
        ebind (myproc (tk t)) (\<lambda>c.
          exit_if S True t
            (ebind (syscall S E (t\<lparr>tk := upd_proc c (\<lambda>p. p\<lparr>p_tf := tf\<rparr>) (tk t)\<rparr>)) (\<lambda>r.
               case r of Value v t1 \<Rightarrow> exit_if S True t1 (Inr (Value v t1)) | r \<Rightarrow> Inr r)))
      else
        ebind (dispatch E cpuid trapno (tf_user tf) t) (\<lambda>t1.
          exit_if S (tf_user tf) t1
            (case cur (tk t1) of
               Some c \<Rightarrow>
                 if p_state (proc_at (tk t1) c) = RUNNING \<and> trapno = T_IRQ0 + IRQ_TIMER
                 then ebind (yield_cpu (tk t1)) (\<lambda>k. Inr (Sleeping (t1\<lparr>tk := k\<rparr>)))
                 else trap_end S (tf_user tf) t1
             | None \<Rightarrow> trap_end S (tf_user tf) t1)))"

subsection \<open>The dispatcher\<close>

text \<open>The table has an entry for exactly the numbers 1 to 28; any other number gives -1 and changes nothing else.\<close>

lemma syscalls_total: "syscalls S E num = None \<longleftrightarrow> num = 0 \<or> 28 < num"
proof (cases "28 < num")
  case True
  then show ?thesis by (auto simp: syscalls_def file_calls_def)
next
  case False
  then have "num \<in> {0..28}" by simp
  then show ?thesis by (simp add: atLeastAtMost_upt upt_rec [of _ 29]) (auto simp: syscalls_def file_calls_def)
qed

lemma syscall_unknown:
  assumes "cur (tk t) = Some c" and "sint (tf_eax (p_tf (ptable (tk t) ! c))) \<le> 0 \<or> 28 < sint (tf_eax (p_tf (ptable (tk t) ! c)))"
  shows "syscall S E t = Inr (Value (-1) (set_eax c (-1) t))"
  using assms by (auto simp: syscall_def proc_at_def Let_def)

subsection \<open>The process table under traps\<close>

primrec state_of :: "'a result \<Rightarrow> 'a" where
  "state_of (Value v t) = t"
| "state_of (Sleeping t) = t"
| "state_of (Ended t) = t"

lemma fold_wakeup: "kernel_inv pcs k \<Longrightarrow> kernel_inv pcs (fold wakeup chs k)" "cur (fold wakeup chs k) = cur k"
  by (induction chs arbitrary: k) (simp_all add: wakeup_kinv, simp add: wakeup_def)

lemma value_of_simps [simp]: "state_of (value_of r k t) = t\<lparr>tk := k\<rparr>" "value_of r k t \<noteq> Sleeping t'" "value_of r k t \<noteq> Ended t'"
  by (simp_all add: value_of_def)

lemma value_of_Value: "value_of r k t = Value v t' \<longleftrightarrow> v = word_of_int r \<and> t' = t\<lparr>tk := k\<rparr>"
  by (auto simp: value_of_def)

text \<open>A system call keeps the process table consistent; when it returns a value the process still has the processor.\<close>

definition keeps :: "(nat \<Rightarrow> kcall) \<Rightarrow> 'k tkernel \<Rightarrow> 'k tkernel result \<Rightarrow> bool" where
  "keeps pcs t r \<longleftrightarrow> kernel_inv pcs (tk (state_of r)) \<and> (\<forall>v t'. r = Value v t' \<longrightarrow> cur (tk t') = cur (tk t))"

lemma keeps_value_of: "keeps pcs t (value_of r k t) \<longleftrightarrow> kernel_inv pcs k \<and> cur k = cur (tk t)"
  by (auto simp: keeps_def value_of_Value)

lemma keeps_others [simp]: "keeps pcs t (Sleeping t') \<longleftrightarrow> kernel_inv pcs (tk t')" "keeps pcs t (Ended t') \<longleftrightarrow> kernel_inv pcs (tk t')"
  "keeps pcs t (Value v t') \<longleftrightarrow> kernel_inv pcs (tk t') \<and> cur (tk t') = cur (tk t)"
  by (auto simp: keeps_def)

lemma wait_returns_cur:
  assumes "wait_pass S k = Inr (Returned r, k')"
  shows "cur k' = cur k"
  using assms by (auto simp: wait_pass_def reap_def split: option.splits if_splits)

lemma file_call_keeps:
  assumes inv: "kernel_inv pcs (tk t)" and c: "cur (tk t) = Some c" "pcs c = Elsewhere" and run: "file_call E num t = Inr r"
  shows "keeps pcs t r"
proof -
  from run c(1) obtain w ow chs q where q: "te_filecall E num (proc_at (tk t) c) (rest (tk t)) = Inr (w, ow, chs, q)"
    by (auto simp: file_call_def)
  define k1 where "k1 = fold wakeup chs (upd_proc c (set_own ow) ((tk t)\<lparr>rest := q\<rparr>))"
  have "kernel_inv pcs (upd_proc c (set_own ow) ((tk t)\<lparr>rest := q\<rparr>))"
    by (rule own_same_kinv [OF inv c(1)]) (simp_all add: set_own_def c(2))
  then have k1: "kernel_inv pcs k1" "cur k1 = Some c" using c by (simp_all add: k1_def fold_wakeup)
  show ?thesis
  proof (cases w)
    case (File_value v)
    then have "r = Value v (t\<lparr>tk := k1\<rparr>)" using run c q by (simp add: file_call_def k1_def myproc_def)
    then show ?thesis using k1 c by simp
  next
    case (File_sleep ch)
    then obtain k2 where "sleep_on ch k1 = Inr k2" "r = Sleeping (t\<lparr>tk := k2\<rparr>)" using run c q by (auto simp: file_call_def k1_def)
    then show ?thesis using sleep_kinv [OF k1(1)] by simp
  qed
qed

lemma call_keeps:
  assumes inv: "kernel_inv pcs (tk t)" and c: "cur (tk t) = Some c" "pcs c = Elsewhere" and f: "syscalls S E num = Some f" and run: "f t = Inr r"
  shows "keeps pcs t r"
proof -
  note vals = keeps_value_of
  have pinv: "proc_inv (tk t)" by (rule proc_invI [OF inv]) (use c in simp)
  have fork: "keeps pcs t r" if "sys_fork S t = Inr r" for r
    using that fork_kinv [OF inv c] fork_cur [OF pinv c(1)] c(1) by (auto simp: sys_fork_def vals)
  have ex: "keeps pcs t r" if "sys_exit S t = Inr r" for r using that exit_kinv [OF inv c] by (auto simp: sys_exit_def)
  have wt: "keeps pcs t r" if wr: "sys_wait S t = Inr r" for r
  proof -
    obtain w k where w: "wait_pass S (tk t) = Inr (w, k)" "r = (case w of Returned pid \<Rightarrow> value_of pid k t | Slept \<Rightarrow> Sleeping (t\<lparr>tk := k\<rparr>))"
      using wr by (auto simp: sys_wait_def)
    then show ?thesis using wait_kinv [OF inv w(1)] wait_returns_cur by (cases w) (auto simp: vals)
  qed
  have kl: "keeps pcs t r" if kr: "sys_kill E t = Inr r" for r
  proof -
    from kr obtain a where "proc_argint E 0 t = Inr a" and a: "r = (case a of None \<Rightarrow> value_of (-1) (tk t) t | Some pid \<Rightarrow> (case kill (sint pid) (tk t) of (r, k) \<Rightarrow> value_of r k t))"
      by (auto simp: sys_kill_def)
    show ?thesis
    proof (cases a)
      case (Some pid)
      obtain q k where q: "kill (sint pid) (tk t) = (q, k)" by fastforce
      then show ?thesis using a Some kill_kinv [OF inv q] kill_cur [OF q] by (simp add: vals)
    qed (use a inv in \<open>simp add: vals\<close>)
  qed
  have gp: "keeps pcs t r" if "sys_getpid t = Inr r" for r using that inv by (auto simp: sys_getpid_def vals)
  have sb: "keeps pcs t r" if sr: "sys_sbrk S E t = Inr r" for r
  proof -
    consider "r = value_of (-1) (tk t) t" | n q k where "growproc S n (tk t) = Inr (q, k)" "r = value_of (-1) k t \<or> (\<exists>a. r = Value a (t\<lparr>tk := k\<rparr>))"
      using sr by (cases "proc_argint E 0 t") (fastforce simp: sys_sbrk_def Let_def split: option.splits if_splits)+
    then show ?thesis
    proof cases
      case (2 n q k)
      then show ?thesis using grow_kinv [OF inv 2(1)] grow_cur [OF 2(1)] by (auto simp: vals)
    qed (use inv in \<open>simp add: vals\<close>)
  qed
  have sl: "keeps pcs t r" if sr: "sys_sleep E t = Inr r" for r
  proof -
    consider q where "r = value_of q (tk t) t" | k where "sleep_on ticks_chan (tk t) = Inr k" "r = Sleeping (t\<lparr>tk := k\<rparr>)"
      using sr by (fastforce simp: sys_sleep_def sleep_pass_def split: option.split_asm if_split_asm)
    then show ?thesis by cases (use inv sleep_kinv [OF inv] in \<open>simp_all add: vals\<close>)
  qed
  have up: "keeps pcs t r" if "sys_uptime t = Inr r" for r using that inv by (auto simp: sys_uptime_def)
  have he: "keeps pcs t r" if "sys_hello t = Inr r" for r using that inv by (auto simp: sys_hello_def vals)
  have hn: "keeps pcs t r" if "sys_hello_name E t = Inr r" for r using that inv by (auto simp: sys_hello_name_def vals)
  have np: "keeps pcs t r" if "sys_get_num_proc t = Inr r" for r using that inv by (auto simp: sys_get_num_proc_def vals)
  have mp: "keeps pcs t r" if "sys_get_max_pid t = Inr r" for r using that inv by (auto simp: sys_get_max_pid_def vals)
  have pi: "keeps pcs t r" if "sys_get_proc_info E t = Inr r" for r
    using that inv by (auto simp: sys_get_proc_info_def vals split: option.splits)
  have gq: "keeps pcs t r" if "sys_get_prio t = Inr r" for r using that inv by (auto simp: sys_get_prio_def vals)
  have sp: "keeps pcs t r" if "sys_set_prio E t = Inr r" for r
    using that inv by (auto simp: sys_set_prio_def vals set_prio_def own_same_kinv2 split: option.splits)
  have fc: "keeps pcs t r" if "file_call E num t = Inr r" for r by (rule file_call_keeps [OF inv c that])
  have "f = sys_fork S \<or> f = sys_exit S \<or> f = sys_wait S \<or> f = sys_kill E \<or> f = sys_getpid \<or>
      f = sys_sbrk S E \<or> f = sys_sleep E \<or> f = sys_uptime \<or> f = sys_hello \<or> f = sys_hello_name E \<or>
      f = sys_get_num_proc \<or> f = sys_get_max_pid \<or> f = sys_get_proc_info E \<or> f = sys_get_prio \<or> f = sys_set_prio E \<or>
      f = file_call E num"
    using f unfolding syscalls_def by (simp split: if_split_asm)
  then show ?thesis using run fork ex wt kl gp sb sl up he hn np mp pi gq sp fc by (elim disjE) (simp_all only:)
qed

lemma syscall_keeps:
  assumes inv: "kernel_inv pcs (tk t)" and c: "cur (tk t) = Some c" "pcs c = Elsewhere" and run: "syscall S E t = Inr r"
  shows "keeps pcs t r"
proof -
  have eax: "kernel_inv pcs (tk (set_eax c v t1)) \<and> cur (tk (set_eax c v t1)) = Some c" if "kernel_inv pcs (tk t1)" "cur (tk t1) = Some c" for v t1
    using own_same_kinv2 [OF that, of "\<lambda>p. p\<lparr>p_tf := (p_tf p)\<lparr>tf_eax := v\<rparr>\<rparr>"] that(2) by (simp add: set_eax_def)
  define num where "num = sint (tf_eax (p_tf (proc_at (tk t) c)))"
  show ?thesis
  proof (cases "if num > 0 \<and> num < 29 then syscalls S E (nat num) else None")
    case None
    then have "syscall S E t = Inr (Value (-1) (set_eax c (-1) t))" using c by (auto simp: syscall_def num_def [symmetric] Let_def)
    then show ?thesis using run c eax [OF inv c(1)] by simp
  next
    case (Some f)
    then have f: "syscalls S E (nat num) = Some f" and "0 < num \<and> num < 29" by (simp_all split: if_splits)
    then have "syscall S E t = ebind (f t) (\<lambda>r. Inr (case r of Value v t1 \<Rightarrow> Value v (set_eax c v t1) | r \<Rightarrow> r))"
      using c unfolding syscall_def num_def by (simp add: myproc_def Let_def)
    with run obtain q where q: "f t = Inr q" "r = (case q of Value v t1 \<Rightarrow> Value v (set_eax c v t1) | r \<Rightarrow> r)" by auto
    have "keeps pcs t q" by (rule call_keeps [OF inv c f q(1)])
    then show ?thesis using q(2) c eax by (cases q) auto
  qed
qed

lemma exit_if_keeps:
  assumes "kernel_inv pcs (tk t)" and out: "\<And>c. user \<Longrightarrow> cur (tk t) = Some c \<Longrightarrow> pcs c = Elsewhere"
    and "\<And>r. next' = Inr r \<Longrightarrow> kernel_inv pcs (tk (state_of r))" and "exit_if S user t next' = Inr r"
  shows "kernel_inv pcs (tk (state_of r))"
proof (cases "\<exists>c. cur (tk t) = Some c \<and> p_killed (proc_at (tk t) c) \<and> user")
  case True
  then obtain c k where "exit_proc S (tk t) = Inr k" "r = Ended (t\<lparr>tk := k\<rparr>)" and c: "cur (tk t) = Some c" user using assms(4) by (auto simp: exit_if_def)
  then show ?thesis using exit_kinv [OF assms(1) c(1) out [OF c(2,1)]] by simp
next
  case False
  then have "next' = Inr r" using assms(4) by (auto simp: exit_if_def split: option.splits if_splits)
  then show ?thesis by (rule assms(3))
qed

lemma exit_if_value_keeps:
  assumes "kernel_inv pcs (tk t)" and "\<And>c. user \<Longrightarrow> cur (tk t) = Some c \<Longrightarrow> pcs c = Elsewhere" and "exit_if S user t (Inr (Value v t)) = Inr r"
  shows "kernel_inv pcs (tk (state_of r))"
  by (rule exit_if_keeps [OF assms(1,2) _ assms(3)]) (use assms(1) in auto)

lemma dispatch_keeps:
  assumes inv: "kernel_inv pcs (tk t)" and run: "dispatch E cpuid trapno user t = Inr t1"
  shows "kernel_inv pcs (tk t1) \<and> cur (tk t1) = cur (tk t)"
proof -
  have wake: "kernel_inv pcs (wakeup ch (tk t))" "cur (wakeup ch (tk t)) = cur (tk t)" for ch using wakeup_kinv [OF inv] by (simp_all add: wakeup_def)
  consider (timer) "trapno = T_IRQ0 + IRQ_TIMER"
    | (device) "trapno \<noteq> T_IRQ0 + IRQ_TIMER" "trapno = T_IRQ0 + IRQ_IDE \<or> trapno = T_IRQ0 + IRQ_KBD \<or> trapno = T_IRQ0 + IRQ_COM1"
    | (none) "trapno \<noteq> T_IRQ0 + IRQ_TIMER" "\<not> (trapno = T_IRQ0 + IRQ_IDE \<or> trapno = T_IRQ0 + IRQ_KBD \<or> trapno = T_IRQ0 + IRQ_COM1)"
        "trapno = T_IRQ0 + IRQ_IDE + 1 \<or> trapno = T_IRQ0 + 7 \<or> trapno = T_IRQ0 + IRQ_SPURIOUS"
    | (other) "trapno \<noteq> T_IRQ0 + IRQ_TIMER" "\<not> (trapno = T_IRQ0 + IRQ_IDE \<or> trapno = T_IRQ0 + IRQ_KBD \<or> trapno = T_IRQ0 + IRQ_COM1)"
        "\<not> (trapno = T_IRQ0 + IRQ_IDE + 1 \<or> trapno = T_IRQ0 + 7 \<or> trapno = T_IRQ0 + IRQ_SPURIOUS)"
    by blast
  then show ?thesis
  proof cases
    case timer
    then have "t1 = clock cpuid t" using run by (simp add: dispatch_def)
    then show ?thesis using inv wake by (simp add: clock_def)
  next
    case device
    then have "ebind (te_device E trapno (rest (tk t))) (\<lambda>(chs, r). Inr (t\<lparr>tk := fold wakeup chs ((tk t)\<lparr>rest := r\<rparr>)\<rparr>)) = Inr t1"
      using run unfolding dispatch_def by (simp only: if_True if_False)
    then obtain chs r where "t1 = t\<lparr>tk := fold wakeup chs ((tk t)\<lparr>rest := r\<rparr>)\<rparr>" by auto
    then show ?thesis using inv by (simp add: fold_wakeup)
  next
    case none
    then show ?thesis using run inv unfolding dispatch_def by (simp only: if_True if_False sum.inject)
  next
    case other
    then have "(case cur (tk t) of None \<Rightarrow> Inl (Panic ''trap'')
        | Some c \<Rightarrow> if \<not> user then Inl (Panic ''trap'') else Inr (t\<lparr>tk := upd_proc c (\<lambda>p. p\<lparr>p_killed := True\<rparr>) (tk t)\<rparr>)) = Inr t1"
      using run unfolding dispatch_def by (simp only: if_True if_False)
    then obtain c where c: "cur (tk t) = Some c" "t1 = t\<lparr>tk := upd_proc c (\<lambda>p. p\<lparr>p_killed := True\<rparr>) (tk t)\<rparr>"
      by (auto split: option.splits if_splits)
    then show ?thesis using own_same_kinv2 [OF inv c(1), of "\<lambda>p. p\<lparr>p_killed := True\<rparr>"] by simp
  qed
qed

text \<open>C18: traps and the process table. From any consistent process table, in which every process may be at any place inside \<open>fork\<close> or \<open>exit\<close>
  (\<open>pcs\<close>), every trap, interrupt or system call that does not end in a fault (a panic, or the overflow of \<open>nextpid\<close>) leaves the process table
  consistent with the same places, whatever the number of the trap, the contents of the registers and the arguments in user memory are, and whatever the calls on files and the
  device handlers do to the fields of the calling process that they write, to the sleeping processes and to the rest of the kernel. The running process is itself inside \<open>fork\<close>
  or \<open>exit\<close> only when the trap came from kernel mode and is not a system call: a process makes a system call, and runs in user mode, outside of them.\<close>

theorem trap_keeps_processes:
  assumes inv: "kernel_inv pcs (tk t)" and run: "trap S E cpuid trapno tf t = Inr r"
    and out: "\<And>c. cur (tk t) = Some c \<Longrightarrow> trapno = T_SYSCALL \<or> tf_user tf \<Longrightarrow> pcs c = Elsewhere"
  shows "kernel_inv pcs (tk (state_of r))"
proof (cases "trapno = T_SYSCALL")
  case True
  from run True obtain c where c: "cur (tk t) = Some c" by (auto simp: trap_def)
  then have e: "pcs c = Elsewhere" using out True by simp
  define t1 where "t1 = t\<lparr>tk := upd_proc c (\<lambda>p. p\<lparr>p_tf := tf\<rparr>) (tk t)\<rparr>"
  have inv1: "kernel_inv pcs (tk t1)" "cur (tk t1) = Some c" using own_same_kinv2 [OF inv c, of "\<lambda>p. p\<lparr>p_tf := tf\<rparr>"] c by (simp_all add: t1_def)
  have body: "kernel_inv pcs (tk (state_of r'))"
    if b: "ebind (syscall S E t1) (\<lambda>r. case r of Value v t2 \<Rightarrow> exit_if S True t2 (Inr (Value v t2)) | r \<Rightarrow> Inr r) = Inr r'" for r'
  proof -
    from b obtain q where q: "syscall S E t1 = Inr q" "(case q of Value v t2 \<Rightarrow> exit_if S True t2 (Inr (Value v t2)) | r \<Rightarrow> Inr r) = Inr r'" by auto
    have "keeps pcs t1 q" by (rule syscall_keeps [OF inv1 e q(1)])
    then show ?thesis
    proof (cases q)
      case (Value v t2)
      with \<open>keeps pcs t1 q\<close> have "kernel_inv pcs (tk t2)" "\<And>c'. True \<Longrightarrow> cur (tk t2) = Some c' \<Longrightarrow> pcs c' = Elsewhere" using inv1(2) e by simp_all
      then show ?thesis by (rule exit_if_value_keeps [where user = True and S = S and v = v]) (use q(2) Value in simp_all)
    qed (use q(2) in auto)
  qed
  from run True c have "exit_if S True t (ebind (syscall S E t1) (\<lambda>r. case r of Value v t2 \<Rightarrow> exit_if S True t2 (Inr (Value v t2)) | r \<Rightarrow> Inr r)) = Inr r"
    by (simp add: trap_def t1_def)
  then show ?thesis by (rule exit_if_keeps [OF inv _ body, rotated -1]) (use c e in simp_all)
next
  case False
  from run False obtain t1 where t1: "dispatch E cpuid trapno (tf_user tf) t = Inr t1"
    and r: "exit_if S (tf_user tf) t1
            (case cur (tk t1) of
               Some c \<Rightarrow>
                 if p_state (proc_at (tk t1) c) = RUNNING \<and> trapno = T_IRQ0 + IRQ_TIMER
                 then ebind (yield_cpu (tk t1)) (\<lambda>k. Inr (Sleeping (t1\<lparr>tk := k\<rparr>)))
                 else trap_end S (tf_user tf) t1
             | None \<Rightarrow> trap_end S (tf_user tf) t1) = Inr r"
    by (auto simp: trap_def)
  have inv1: "kernel_inv pcs (tk t1)" and out1: "\<And>c. tf_user tf \<Longrightarrow> cur (tk t1) = Some c \<Longrightarrow> pcs c = Elsewhere"
    using dispatch_keeps [OF inv t1] out by simp_all
  have fin: "kernel_inv pcs (tk (state_of r'))" if "trap_end S (tf_user tf) t1 = Inr r'" for r'
    by (rule exit_if_value_keeps [OF inv1 out1 that [unfolded trap_end_def]])
  show ?thesis
    by (rule exit_if_keeps [OF inv1 out1 _ r]) (use fin inv1 in \<open>auto split: option.splits if_splits dest: yield_kinv\<close>)
qed

subsection \<open>Killed processes\<close>

text \<open>What \<open>exit\<close> does to the rest of the kernel: closing the open files and releasing the directory. It can fail only there, unless the process is the first one.\<close>

definition close_all :: "'k services \<Rightarrow> proc \<Rightarrow> 'k \<Rightarrow> fault + 'k" where
  "close_all S p r = ebind (close_files S (p_ofile p) [0..<NOFILE] r) (sv_iput_op S (p_cwd p))"

lemma exit_outcome:
  assumes inv: "proc_inv k" and c: "cur k = Some c" "initproc k \<noteq> Some c"
  shows "case close_all S (ptable k ! c) (rest k) of Inl e \<Rightarrow> exit_proc S k = Inl e
    | Inr r \<Rightarrow> \<exists>k'. exit_proc S k = Inr k' \<and> cur k' = None \<and> p_state (ptable k' ! c) = ZOMBIE \<and> proc_inv k' \<and> rest k' = r"
proof -
  note C = cur_live [OF inv c(1)]
  have len: "c < length (ptable k)" using C by simp
  have close: "exit_close S c k = ebind (close_all S (ptable k ! c) (rest k)) (\<lambda>r.
      Inr (upd_proc c (\<lambda>p. p\<lparr>p_ofile := without [0..<NOFILE] (p_ofile p), p_cwd := None\<rparr>) (k\<lparr>rest := r\<rparr>)))"
    by (simp add: exit_close_run [OF len] close_all_def ebind_assoc)
  from inv c obtain pcs where pcs: "kernel_inv pcs k" "pcs c = Elsewhere" by (auto simp: proc_inv_def)
  then obtain ini where ini: "initproc k = Some ini" by (auto elim: kernel_invE)
  then have b: "exit_begin k = Inr c" using c by (simp add: exit_begin_def myproc_def)
  have run: "exit_proc S k = ebind (exit_close S c k) (exit_last c)" by (simp add: exit_proc_def b)
  show ?thesis
  proof (cases "close_all S (ptable k ! c) (rest k)")
    case (Inr r)
    then obtain k1 where k1: "exit_close S c k = Inr k1" "initproc k1 = Some ini" "rest k1 = r" using close ini by simp
    have inv1: "kernel_inv (pcs(c := Exit_last)) k1" "cur k1 = Some c" using exit_close_kinv [OF pcs b k1(1)] by simp_all
    have ci: "c \<noteq> ini" using ini c(2) by simp
    obtain k' where l: "exit_last c k1 = Inr k'" using exit_last_total [OF inv1(2) _ k1(2)] kcur_live [OF inv1] by auto
    then have e: "exit_proc S k = Inr k'" using run k1(1) by simp
    have "rest k' = r" "p_state (ptable k' ! c) = ZOMBIE" using exit_last_cases(6,7) [OF inv1 l k1(2) ci] k1(3) C(1) by auto
    then show ?thesis using Inr e exit_cur [OF e] exit_inv [OF inv e] by simp
  qed (simp add: run close)
qed

lemma exit_if_exits:
  assumes inv: "proc_inv (tk t)" and c: "cur (tk t) = Some c" "initproc (tk t) \<noteq> Some c" and k: "p_killed (ptable (tk t) ! c)"
  shows "case close_all S (ptable (tk t) ! c) (rest (tk t)) of Inl e \<Rightarrow> exit_if S True t next' = Inl e
    | Inr r \<Rightarrow> \<exists>t'. exit_if S True t next' = Inr (Ended t') \<and> cur (tk t') = None \<and> p_state (ptable (tk t') ! c) = ZOMBIE \<and> proc_inv (tk t') \<and>
        rest (tk t') = r"
proof -
  have "exit_if S True t next' = ebind (exit_proc S (tk t)) (\<lambda>k. Inr (Ended (t\<lparr>tk := k\<rparr>)))" using c k by (simp add: exit_if_def proc_at_def)
  then show ?thesis using exit_outcome [OF inv c, of S]
    by (cases "close_all S (ptable (tk t) ! c) (rest (tk t))") fastforce+
qed

text \<open>The numbers of \<open>trap\<close> that are not exceptions: the clock, the keyboard, the serial line, the disk, the spurious ones and the system call.
  An exception in kernel mode, or without a process, is a panic.\<close>

lemma dispatch_exception:
  assumes "n \<notin> {32, 33, 36, 39, 46, 47, 63}"
  shows "dispatch E cpuid n user t = (case cur (tk t) of None \<Rightarrow> Inl (Panic ''trap'')
    | Some c \<Rightarrow> if \<not> user then Inl (Panic ''trap'') else Inr (t\<lparr>tk := upd_proc c (\<lambda>p. p\<lparr>p_killed := True\<rparr>) (tk t)\<rparr>))"
  using assms by (simp add: dispatch_def trap_consts)

lemma dispatch_quiet:
  assumes inv: "proc_inv (tk t)" and c: "cur (tk t) = Some c" and n: "n \<in> {32, 39, 47, 63}"
  shows "\<exists>t1. dispatch E cpuid n user t = Inr t1 \<and> cur (tk t1) = Some c \<and> initproc (tk t1) = initproc (tk t) \<and>
    ptable (tk t1) ! c = ptable (tk t) ! c \<and> rest (tk t1) = rest (tk t) \<and> proc_inv (tk t1) \<and>
    ticks t1 = ticks t + of_bool (n = 32 \<and> cpuid = 0)"
proof -
  note C = cur_live [OF inv c]
  have w: "wakeup1 ch (ptable (tk t)) ! c = ptable (tk t) ! c" for ch using C by (simp add: wakeup1_def)
  show ?thesis using n c w C(2) inv wakeup_inv [OF inv, of ticks_chan] by (auto simp: dispatch_def trap_consts clock_def wakeup_def)
qed

text \<open>C31: killed processes end. A process other than the first one that has been killed does not get back to user mode: its next system call, or the next
  trap from user mode that is not one of the three device interrupts (numbers 33, 36 and 46), runs \<open>exit\<close>. So does an exception in user mode, killed or not. The open files and the directory are
  closed; if that ends in a fault, such as the panic of \<open>fileclose\<close> for a file without references, so does the trap. Otherwise the process is
  then a zombie that has given up the processor and waits for its parent, and the process table is consistent.\<close>

theorem trap_killed_ends:
  assumes inv: "proc_inv (tk t)" and c: "cur (tk t) = Some c" "initproc (tk t) \<noteq> Some c"
    and n: "trapno = 64 \<or> tf_user tf \<and> trapno \<notin> {33, 36, 46}"
    and k: "p_killed (ptable (tk t) ! c) \<or> trapno \<notin> {32, 33, 36, 39, 46, 47, 63, 64}"
  shows "case close_all S (ptable (tk t) ! c) (rest (tk t)) of Inl e \<Rightarrow> trap S E cpuid trapno tf t = Inl e
    | Inr r \<Rightarrow> \<exists>t'. trap S E cpuid trapno tf t = Inr (Ended t') \<and> cur (tk t') = None \<and> p_state (ptable (tk t') ! c) = ZOMBIE \<and> proc_inv (tk t') \<and>
        rest (tk t') = r"
proof (cases "trapno = 64")
  case True
  then have "p_killed (ptable (tk t) ! c)" using k by simp
  note ex = exit_if_exits [OF inv c this]
  obtain next' where eq: "trap S E cpuid trapno tf t = exit_if S True t next'" using True c(1) by (auto simp: trap_def trap_consts myproc_def)
  show ?thesis unfolding eq by (rule ex)
next
  case False
  then have user: "tf_user tf" and n': "trapno \<notin> {33, 36, 46}" using n by auto
  let ?p = "(ptable (tk t) ! c)\<lparr>p_killed := True\<rparr>"
  have "\<exists>t1. dispatch E cpuid trapno True t = Inr t1 \<and> cur (tk t1) = Some c \<and> initproc (tk t1) = initproc (tk t) \<and> ptable (tk t1) ! c = ?p \<and>
      rest (tk t1) = rest (tk t) \<and> proc_inv (tk t1)"
  proof (cases "trapno \<in> {32, 39, 47, 63}")
    case True
    then have "p_killed (ptable (tk t) ! c)" using k by auto
    then have "?p = ptable (tk t) ! c" by simp
    with dispatch_quiet [OF inv c(1) True, of E cpuid True] show ?thesis by metis
  next
    case False
    then have "dispatch E cpuid trapno True t = Inr (t\<lparr>tk := upd_proc c (\<lambda>p. p\<lparr>p_killed := True\<rparr>) (tk t)\<rparr>)"
      using n' c dispatch_exception [of trapno E cpuid True t] by simp
    then show ?thesis using c(1) cur_update_inv2 [OF inv c(1), of "\<lambda>p. p\<lparr>p_killed := True\<rparr>"] cur_live [OF inv c(1)] by simp
  qed
  then obtain t1 where d: "dispatch E cpuid trapno True t = Inr t1" and t1: "cur (tk t1) = Some c" "initproc (tk t1) \<noteq> Some c"
      "ptable (tk t1) ! c = ?p" "rest (tk t1) = rest (tk t)" "proc_inv (tk t1)" using c(2) by auto
  have same: "close_all S (ptable (tk t1) ! c) (rest (tk t1)) = close_all S (ptable (tk t) ! c) (rest (tk t))"
    by (simp add: t1(3,4) close_all_def)
  obtain next' where eq: "trap S E cpuid trapno tf t = exit_if S True t1 next'" using False user d by (auto simp: trap_def T_SYSCALL_def)
  show ?thesis unfolding eq same [symmetric] by (rule exit_if_exits [OF t1(5,1,2)]) (simp add: t1(3))
qed

text \<open>An environment in which every call on a file closes the descriptor 0, wakes a channel and sleeps on another one.\<close>

definition demo_env :: "nat trap_env" where
  "demo_env = \<lparr>te_byte = \<lambda>_ _ _. 0, te_word = \<lambda>_ _ _. 3, te_store = \<lambda>_ _ _ r. r,
     te_filecall = \<lambda>_ p r. Inr (File_sleep (Chan_addr 8),
       \<lparr>o_ofile = (p_ofile p)(0 := None), o_cwd = p_cwd p, o_sz = p_sz p, o_pgdir = p_pgdir p, o_name = p_name p, o_tf = p_tf p\<rparr>, [Chan_addr 4], r + 1),
     te_device = \<lambda>_ r. Inr ([Chan_addr 4], r)\<rparr>"

text \<open>A page fault (trap 14) of the child.\<close>

theorem trap_killed_ends_witness:
  "\<exists>t'. trap calm_services demo_env 0 14 (zero_tf\<lparr>tf_user := True\<rparr>) \<lparr>tk = child_kernel, ticks = 0\<rparr> = Inr (Ended t') \<and> p_state (ptable (tk t') ! 1) = ZOMBIE"
proof -
  have "close_all calm_services p r = Inr r" for p r by (simp add: close_all_def calm_loops calm_simps)
  with trap_killed_ends [of "\<lparr>tk = child_kernel, ticks = 0\<rparr>" 1 14 "zero_tf\<lparr>tf_user := True\<rparr>" calm_services demo_env 0] child_kernel_facts
  show ?thesis by auto
qed

text \<open>The child calls \<open>read\<close>, which sleeps.\<close>

theorem trap_keeps_processes_witness:
  "\<exists>t'. trap calm_services demo_env 0 64 (zero_tf\<lparr>tf_eax := 5\<rparr>) \<lparr>tk = upd_proc 1 (\<lambda>p. p\<lparr>p_killed := False\<rparr>) child_kernel, ticks = 0\<rparr> = Inr (Sleeping t') \<and>
     cur (tk t') = None \<and> p_chan (ptable (tk t') ! 1) = Some (Chan_addr 8) \<and> proc_inv (tk t')"
proof -
  define k0 where "k0 = upd_proc 1 (\<lambda>p. p\<lparr>p_killed := False\<rparr>) child_kernel"
  have inv: "proc_inv k0" unfolding k0_def by (rule cur_update_inv2 [OF child_kernel_facts(1,2)]) simp_all
  have c: "cur k0 = Some 1" "\<not> p_killed (ptable k0 ! 1)" using child_kernel_facts cur_live [OF child_kernel_facts(1,2)] by (simp_all add: k0_def)
  define k1 where "k1 = upd_proc 1 (\<lambda>p. p\<lparr>p_tf := zero_tf\<lparr>tf_eax := 5\<rparr>\<rparr>) k0"
  have c1: "cur k1 = Some 1" "sint (tf_eax (p_tf (ptable k1 ! 1))) = 5" using c cur_live [OF inv c(1)] by (simp_all add: k1_def zero_tf_def)
  have inv1: "proc_inv k1" unfolding k1_def by (rule cur_update_inv2 [OF inv c(1)]) simp_all
  obtain ow where ow: "te_filecall demo_env 5 (proc_at k1 1) (rest k1) = Inr (File_sleep (Chan_addr 8), ow, [Chan_addr 4], rest k1 + 1)"
    by (simp add: demo_env_def)
  define k2 where "k2 = wakeup (Chan_addr 4) (upd_proc 1 (set_own ow) (k1\<lparr>rest := rest k1 + 1\<rparr>))"
  have "proc_inv (upd_proc 1 (set_own ow) (k1\<lparr>rest := rest k1 + 1\<rparr>))" by (rule cur_update_inv [OF inv1 c1(1)]) (simp_all add: set_own_def)
  then have k2: "proc_inv k2" "cur k2 = Some 1" using c1 by (simp_all add: k2_def wakeup_inv) (simp add: wakeup_def)
  note C = cur_live [OF k2]
  obtain k3 where k3: "sleep_on (Chan_addr 8) k2 = Inr k3" "cur k3 = None" "p_chan (ptable k3 ! 1) = Some (Chan_addr 8)"
    using k2(2) C sched_run [of k2 1 "\<lambda>p. p\<lparr>p_chan := Some (Chan_addr 8), p_state := SLEEPING\<rparr>"] by (simp add: sleep_on_def)
  have "file_call demo_env 5 \<lparr>tk = k1, ticks = 0\<rparr> = Inr (Sleeping \<lparr>tk = k3, ticks = 0\<rparr>)"
    using c1(1) ow k3(1) by (simp add: file_call_def myproc_def k2_def Let_def)
  then have "syscall calm_services demo_env \<lparr>tk = k1, ticks = 0\<rparr> = Inr (Sleeping \<lparr>tk = k3, ticks = 0\<rparr>)"
    using c1 by (simp add: syscall_def myproc_def proc_at_def Let_def syscalls_def file_calls_def)
  then have r: "trap calm_services demo_env 0 64 (zero_tf\<lparr>tf_eax := 5\<rparr>) \<lparr>tk = k0, ticks = 0\<rparr> = Inr (Sleeping \<lparr>tk = k3, ticks = 0\<rparr>)"
    using c by (simp add: trap_def trap_consts myproc_def exit_if_def proc_at_def k1_def)
  from inv obtain pcs where pcs: "kernel_inv pcs k0" "\<forall>c. cur k0 = Some c \<longrightarrow> pcs c = Elsewhere" by (rule proc_invE)
  have "kernel_inv pcs k3" using trap_keeps_processes [OF _ r, of pcs] pcs by simp
  then have "proc_inv k3" by (rule proc_invI) (simp add: k3(2))
  with k3 r show ?thesis unfolding k0_def [symmetric] by auto
qed

subsection \<open>The clock\<close>

lemma ticks_passed:
  fixes n :: uint32
  assumes "now = ticks0 + word_of_nat m" and "m < 2 ^ 32"
  shows "(now - ticks0 < n) = (m < unat n)"
  using assms by (simp add: word_less_nat_alt unat_of_nat)

text \<open>C35: sleeping for a time. A process that called \<open>sleep(n)\<close> when the clock showed \<open>ticks0\<close> and tests it after \<open>m\<close> ticks, where the 32 bits
  of the clock may have wrapped around, returns 0 if \<open>n\<close> ticks have passed. Before that it returns -1 if it has been killed, and otherwise gives up the
  processor; the next tick makes it runnable, so that it tests again after \<open>m + 1\<close> ticks. It cannot miss the end.\<close>

theorem sys_sleep_counts_ticks:
  assumes inv: "proc_inv (tk t)" and c: "cur (tk t) = Some c" and now: "ticks t = ticks0 + word_of_nat m" and m: "m < 2 ^ 32"
  shows "if unat n \<le> m then sleep_pass n ticks0 t = Inr (Value 0 t)
    else if p_killed (ptable (tk t) ! c) then sleep_pass n ticks0 t = Inr (Value (-1) t)
    else \<exists>t'. sleep_pass n ticks0 t = Inr (Sleeping t') \<and> cur (tk t') = None \<and> p_state (ptable (tk t') ! c) = SLEEPING \<and>
      proc_inv (tk (clock 0 t')) \<and> p_state (ptable (tk (clock 0 t')) ! c) = RUNNABLE \<and> ticks (clock 0 t') = ticks0 + word_of_nat (m + 1)"
proof -
  note C = cur_live [OF inv c]
  note passed = ticks_passed [OF now m, of n]
  have my: "myproc (tk t) = Inr c" using c by simp
  show ?thesis
  proof (cases "unat n \<le> m \<or> p_killed (ptable (tk t) ! c)")
    case True
    then show ?thesis using my by (auto simp: sleep_pass_def passed value_of_def proc_at_def)
  next
    case False
    let ?f = "\<lambda>p. p\<lparr>p_chan := Some ticks_chan, p_state := SLEEPING\<rparr>"
    define k where "k = (upd_proc c (\<lambda>p. (?f p)\<lparr>p_nice := p_nice (?f p) + 1\<rparr>) (tk t))\<lparr>cur := None, sch_pc := picked c (sch_pc (tk t))\<rparr>"
    have k: "sleep_on ticks_chan (tk t) = Inr k" using sched_run [OF c, of ?f] c C by (simp add: sleep_on_def k_def)
    have pk: "p_state (ptable k ! c) = SLEEPING" "p_chan (ptable k ! c) = Some ticks_chan" "cur k = None" "c < length (ptable k)"
      using C by (simp_all add: k_def upd_proc_def)
    have "sleep_pass n ticks0 t = Inr (Sleeping (t\<lparr>tk := k\<rparr>))" using False my k by (simp add: sleep_pass_def passed proc_at_def)
    moreover have "proc_inv (wakeup ticks_chan k)" by (rule wakeup_inv [OF sleep_inv [OF inv k]])
    moreover have "p_state (ptable (wakeup ticks_chan k) ! c) = RUNNABLE" using pk by (simp add: wakeup_def wakeup1_def)
    ultimately show ?thesis using False pk now by (simp add: clock_def)
  qed
qed

theorem sys_sleep_counts_ticks_witness:
  "\<exists>(k :: nat kernel) t'. proc_inv k \<and> sleep_pass 3 (-1) \<lparr>tk = k, ticks = 1\<rparr> = Inr (Sleeping t') \<and> p_state (ptable (tk (clock 0 t')) ! 0) = RUNNABLE \<and> ticks (clock 0 t') = 2"
proof -
  define k where "k = upd_proc 0 (\<lambda>p. p\<lparr>p_killed := False\<rparr>) demo_kernel"
  have inv: "proc_inv k" unfolding k_def by (rule cur_update_inv2 [OF demo_kernel_facts]) simp_all
  have "cur k = Some 0" "\<not> p_killed (ptable k ! 0)" using demo_kernel_facts cur_live [OF demo_kernel_facts] by (simp_all add: k_def upd_proc_def)
  with sys_sleep_counts_ticks [of "\<lparr>tk = k, ticks = 1\<rparr>" 0 "-1" 2 3] inv have "\<exists>t'. sleep_pass 3 (-1) \<lparr>tk = k, ticks = 1\<rparr> = Inr (Sleeping t') \<and>
      p_state (ptable (tk (clock 0 t')) ! 0) = RUNNABLE \<and> ticks (clock 0 t') = 2" by auto
  with inv show ?thesis by blast
qed

text \<open>The argument is an \<open>int\<close> and is compared as an unsigned number: a negative one does not fail but sleeps for at least \<open>2 ^ 31\<close> ticks.\<close>

lemma negative_sleep: "sint n < 0 \<Longrightarrow> 2 ^ 31 \<le> unat n" for n :: uint32
proof (rule ccontr)
  assume n: "sint n < 0" "\<not> 2 ^ 31 \<le> unat n"
  then have "int (unat n) < int (2 ^ 31)" by (simp only: of_nat_less_iff not_le)
  then have "uint n < 2 ^ 31" by simp
  then have "sint n = uint n" unfolding sint_uint by (intro signed_take_bit_int_eq_self) (simp_all add: order_trans [of _ 0])
  with n(1) show False by simp
qed

end
