(* ===== verification/XV6_Ide.thy ===== *)
theory XV6_Ide
  imports XV6_Bio SSU_Pthread
begin

unbundle bit_operations_syntax

text \<open>
  The driver of the disk: \<open>src/project3/xv6-modified/ide.c\<close>. Processes append their buffers to a queue and sleep; the
  interrupt of the drive completes the first request and starts the next one. The drive is an argument of the definitions: what it answers to
  the bytes the driver writes to its ports. As in the buffer cache, a buffer pointer is an index; the queue through \<open>qnext\<close> is the
  sequence of these indices. The lock \<open>idelock\<close> makes each section one step. It is shown that the driver with its queue and interrupts implements the memory
  disk of \<open>memide.c\<close>, on which the buffer cache is verified.
\<close>

subsection \<open>The driver\<close>

definition SECTOR_SIZE :: nat where "SECTOR_SIZE = 512"
definition IDE_BSY :: byte where "IDE_BSY = 0x80"
definition IDE_DRDY :: byte where "IDE_DRDY = 0x40"
definition IDE_DF :: byte where "IDE_DF = 0x20"
definition IDE_ERR :: byte where "IDE_ERR = 0x01"
definition IDE_CMD_READ :: byte where "IDE_CMD_READ = 0x20"
definition IDE_CMD_WRITE :: byte where "IDE_CMD_WRITE = 0x30"
definition IDE_CMD_RDMUL :: byte where "IDE_CMD_RDMUL = 0xc4"
definition IDE_CMD_WRMUL :: byte where "IDE_CMD_WRMUL = 0xc5"

lemmas ide_consts = SECTOR_SIZE_def FSSIZE_def IDE_BSY_def IDE_DRDY_def IDE_DF_def IDE_ERR_def IDE_CMD_READ_def IDE_CMD_WRITE_def
  IDE_CMD_RDMUL_def IDE_CMD_WRMUL_def BSIZE_def

text \<open>The instructions \<open>outb\<close> and \<open>outsl\<close> with their ports. The drive gives the values of its status port while it is idle, and for a sequence of
  writes that is a command the values of the status port at its end, the data it offers, and its new state.\<close>

datatype io = Outb nat byte | Outsl nat block

record 'd drive =
  dr_idle :: "'d \<Rightarrow> byte list"
  dr_do :: "io list \<Rightarrow> 'd \<Rightarrow> byte list \<times> block \<times> 'd"

fun idewait :: "bool \<Rightarrow> byte list \<Rightarrow> fault + int" where
  "idewait checkerr [] = Inl Diverges"
| "idewait checkerr (r # rs) =
     (if r AND (IDE_BSY OR IDE_DRDY) \<noteq> IDE_DRDY then idewait checkerr rs
      else if checkerr \<and> r AND (IDE_DF OR IDE_ERR) \<noteq> 0 then Inr (-1) else Inr 0)"

text \<open>\<open>ideinit\<close> finds disk 1 when one of 1000 reads of the status port is not zero.\<close>

definition ideinit :: "byte list \<Rightarrow> byte list \<Rightarrow> fault + bool" where
  "ideinit statuses probes = ebind (idewait False statuses) (\<lambda>_. Inr (list_ex (\<lambda>r. r \<noteq> 0) (take 1000 probes)))"

definition idestart :: "'d drive \<Rightarrow> buf \<Rightarrow> 'd \<Rightarrow> fault + io list" where
  "idestart D b d =
     (if b_blockno b \<ge> FSSIZE then Inl (Panic ''incorrect blockno'')
      else
        let sector_per_block = BSIZE div SECTOR_SIZE;
            sector = b_blockno b * sector_per_block;
            read_cmd = (if sector_per_block = 1 then IDE_CMD_READ else IDE_CMD_RDMUL);
            write_cmd = (if sector_per_block = 1 then IDE_CMD_WRITE else IDE_CMD_WRMUL)
        in if sector_per_block > 7 then Inl (Panic ''idestart'')
           else
             ebind (idewait False (dr_idle D d)) (\<lambda>_.
               Inr ([Outb 0x3f6 0, Outb 0x1f2 (word_of_nat sector_per_block), Outb 0x1f3 (word_of_nat (sector mod 256)),
                     Outb 0x1f4 (word_of_nat (sector div 2 ^ 8 mod 256)), Outb 0x1f5 (word_of_nat (sector div 2 ^ 16 mod 256)),
                     Outb 0x1f6 (0xe0 OR push_bit 4 (word_of_nat (b_dev b) AND 1) OR (word_of_nat (sector div 2 ^ 24) AND 0x0f))] @
                    (if b_dirty b then [Outb 0x1f7 write_cmd, Outsl 0x1f0 (b_data b)] else [Outb 0x1f7 read_cmd]))))"

text \<open>A process is outside of the driver, sleeps in \<open>iderw\<close> for its buffer, or has been woken and is about to test the flags of the buffer.\<close>

datatype ide_pc = Out_of | Sleeps nat | Tests nat

record 'd ide_sys =
  d_bufs :: "buf list"
  d_queue :: "nat list"
  d_disk :: 'd
  d_task :: "io list"
  d_have1 :: bool
  d_procs :: "ide_pc list"

definition ide_test :: "nat \<Rightarrow> nat \<Rightarrow> 'd ide_sys \<Rightarrow> 'd ide_sys" where
  "ide_test p i s =
     (let b = d_bufs s ! i in
      s\<lparr>d_procs := (d_procs s)[p := if b_valid b \<and> \<not> b_dirty b then Out_of else Sleeps i]\<rparr>)"

definition ide_rw :: "'d drive \<Rightarrow> int \<Rightarrow> nat \<Rightarrow> nat \<Rightarrow> 'd ide_sys \<Rightarrow> fault + 'd ide_sys" where
  "ide_rw D me p i s =
     (let b = d_bufs s ! i in
      if \<not> holdingsleep me b then Inl (Panic ''iderw: buf not locked'')
      else if b_valid b \<and> \<not> b_dirty b then Inl (Panic ''iderw: nothing to do'')
      else if b_dev b \<noteq> 0 \<and> \<not> d_have1 s then Inl (Panic ''iderw: ide disk 1 not present'')
      else
        let s1 = s\<lparr>d_queue := d_queue s @ [i]\<rparr> in
        ebind (if hd (d_queue s1) = i then ebind (idestart D b (d_disk s1)) (\<lambda>ws. Inr (s1\<lparr>d_task := ws\<rparr>)) else Inr s1) (\<lambda>s2.
          Inr (ide_test p i s2)))"

definition ide_wakeup :: "nat \<Rightarrow> ide_pc list \<Rightarrow> ide_pc list" where
  "ide_wakeup i = map (\<lambda>pc. if pc = Sleeps i then Tests i else pc)"

text \<open>The interrupt at the end of a command.\<close>

definition ide_intr :: "'d drive \<Rightarrow> 'd ide_sys \<Rightarrow> fault + 'd ide_sys" where
  "ide_intr D s =
     (case d_queue s of
        [] \<Rightarrow> Inr s
      | i # q \<Rightarrow>
          let b = d_bufs s ! i; (sts, data, d1) = dr_do D (d_task s) (d_disk s) in
          ebind (if \<not> b_dirty b then ebind (idewait True sts) (\<lambda>r. Inr (if r \<ge> 0 then b\<lparr>b_data := data\<rparr> else b)) else Inr b) (\<lambda>b1.
            let s1 = s\<lparr>d_bufs := (d_bufs s)[i := b1\<lparr>b_valid := True, b_dirty := False\<rparr>], d_queue := q, d_disk := d1, d_task := [],
                       d_procs := ide_wakeup i (d_procs s)\<rparr>
            in case q of [] \<Rightarrow> Inr s1 | j # _ \<Rightarrow> ebind (idestart D (d_bufs s1 ! j) d1) (\<lambda>ws. Inr (s1\<lparr>d_task := ws\<rparr>))))"

text \<open>The steps of processes with the pids \<open>pids\<close>. A process outside of the driver may take, change and give back buffers under their sleep locks;
  a sleeping one may be woken by \<open>kill\<close>.\<close>

inductive ide_step :: "'d drive \<Rightarrow> int list \<Rightarrow> 'd ide_sys \<Rightarrow> 'd ide_sys \<Rightarrow> bool" for D pids where
  Call: "p < length pids \<Longrightarrow> d_procs s ! p = Out_of \<Longrightarrow> i < length (d_bufs s) \<Longrightarrow> ide_rw D (pids ! p) p i s = Inr s' \<Longrightarrow> ide_step D pids s s'"
| Test: "p < length pids \<Longrightarrow> d_procs s ! p = Tests i \<Longrightarrow> ide_step D pids s (ide_test p i s)"
| Killed: "p < length pids \<Longrightarrow> d_procs s ! p = Sleeps i \<Longrightarrow> ide_step D pids s (s\<lparr>d_procs := (d_procs s)[p := Tests i]\<rparr>)"
| Interrupt: "ide_intr D s = Inr s' \<Longrightarrow> ide_step D pids s s'"
| Client: "p < length pids \<Longrightarrow> d_procs s ! p = Out_of \<Longrightarrow> i < length (d_bufs s) \<Longrightarrow>
    b_lock (d_bufs s ! i) = None \<or> b_lock (d_bufs s ! i) = Some (pids ! p) \<Longrightarrow> b_lock b = None \<or> b_lock b = Some (pids ! p) \<Longrightarrow>
    b_blockno b < FSSIZE \<Longrightarrow> ide_step D pids s (s\<lparr>d_bufs := (d_bufs s)[i := b]\<rparr>)"

definition ide_start :: "int list \<Rightarrow> nat \<Rightarrow> bool \<Rightarrow> 'd \<Rightarrow> 'd ide_sys" where
  "ide_start pids n have1 d =
     \<lparr>d_bufs = replicate n zero_buf, d_queue = [], d_disk = d, d_task = [], d_have1 = have1, d_procs = replicate (length pids) Out_of\<rparr>"

subsection \<open>The drive\<close>

text \<open>What the manuals of such drives promise. The ports \<open>0x1f2\<close> to \<open>0x1f6\<close> hold the number of sectors, the 28 bits of the sector in LBA mode, and the
  drive; a byte written to \<open>0x1f7\<close> is a command. The drive becomes ready for a command, and a command on one sector ends without an error.\<close>

definition port :: "nat \<Rightarrow> io list \<Rightarrow> byte" where
  "port n ws = fold (\<lambda>w v. case w of Outb m x \<Rightarrow> if m = n then x else v | _ \<Rightarrow> v) ws 0"

definition sent :: "io list \<Rightarrow> block" where
  "sent ws = concat (map (\<lambda>w. case w of Outsl m xs \<Rightarrow> xs | _ \<Rightarrow> []) ws)"

definition lba :: "io list \<Rightarrow> nat" where
  "lba ws = unat (port 0x1f3 ws) + 2 ^ 8 * unat (port 0x1f4 ws) + 2 ^ 16 * unat (port 0x1f5 ws) + 2 ^ 24 * unat (port 0x1f6 ws AND 0x0f)"

definition one_sector :: "io list \<Rightarrow> bool" where
  "one_sector ws \<longleftrightarrow> port 0x1f2 ws = 1 \<and> port 0x1f6 ws AND 0xe0 = 0xe0"

definition ready :: "byte \<Rightarrow> bool" where
  "ready r \<longleftrightarrow> r AND 0xc0 = 0x40"

definition ata :: "'d drive \<Rightarrow> ('d \<Rightarrow> bool \<Rightarrow> nat \<Rightarrow> block) \<Rightarrow> bool" where
  "ata D content \<longleftrightarrow>
     (\<forall>d. \<exists>r \<in> set (dr_idle D d). ready r) \<and>
     (\<forall>d ws. one_sector ws \<and> port 0x1f7 ws = 0x20 \<longrightarrow> (\<exists>sts data d'. dr_do D ws d = (sts, data, d') \<and> content d' = content d \<and>
        data = content d (bit (port 0x1f6 ws) 4) (lba ws) \<and> (\<exists>r \<in> set sts. ready r) \<and> (\<forall>r \<in> set sts. ready r \<longrightarrow> r AND 0x21 = 0))) \<and>
     (\<forall>d ws. one_sector ws \<and> port 0x1f7 ws = 0x30 \<longrightarrow> (\<exists>sts data d'. dr_do D ws d = (sts, data, d') \<and>
        content d' = (\<lambda>v n. if v = bit (port 0x1f6 ws) 4 \<and> n = lba ws then sent ws else content d v n)))"

text \<open>The state as the memory disk has it: the buffers, and the blocks of disk 1.\<close>

definition mem_view :: "('d \<Rightarrow> bool \<Rightarrow> nat \<Rightarrow> block) \<Rightarrow> 'd ide_sys \<Rightarrow> bcache" where
  "mem_view content s = \<lparr>bc_buf = d_bufs s, bc_mru = [], bc_disk = map (content (d_disk s) True) [0..<FSSIZE]\<rparr>"

subsection \<open>The command of a buffer\<close>

lemma ready_iff: "ready r \<longleftrightarrow> r AND (IDE_BSY OR IDE_DRDY) = IDE_DRDY"
  by (simp add: ready_def ide_consts)

lemma idewait_ready: "\<exists>r \<in> set rs. ready r \<Longrightarrow> c \<longrightarrow> (\<forall>r \<in> set rs. ready r \<longrightarrow> r AND 0x21 = 0) \<Longrightarrow> idewait c rs = Inr 0"
proof (induction rs)
  case (Cons r rs)
  have e: "IDE_DF OR IDE_ERR = (0x21 :: byte)" by (simp add: ide_consts)
  show ?case using Cons by (cases "ready r") (auto simp: ready_iff e)
qed simp

lemma ataD:
  assumes "ata D content"
  shows "\<exists>r \<in> set (dr_idle D d). ready r"
    and "one_sector ws \<Longrightarrow> port 0x1f7 ws = 0x20 \<Longrightarrow> \<exists>sts data d'. dr_do D ws d = (sts, data, d') \<and> content d' = content d \<and>
      data = content d (bit (port 0x1f6 ws) 4) (lba ws) \<and> (\<exists>r \<in> set sts. ready r) \<and> (\<forall>r \<in> set sts. ready r \<longrightarrow> r AND 0x21 = 0)"
    and "one_sector ws \<Longrightarrow> port 0x1f7 ws = 0x30 \<Longrightarrow> \<exists>sts data d'. dr_do D ws d = (sts, data, d') \<and>
      content d' = (\<lambda>v n. if v = bit (port 0x1f6 ws) 4 \<and> n = lba ws then sent ws else content d v n)"
  using assms unfolding ata_def by blast+

definition ide_task :: "buf \<Rightarrow> io list" where
  "ide_task b =
     [Outb 0x3f6 0, Outb 0x1f2 1, Outb 0x1f3 (word_of_nat (b_blockno b mod 256)), Outb 0x1f4 (word_of_nat (b_blockno b div 2 ^ 8 mod 256)),
      Outb 0x1f5 (word_of_nat (b_blockno b div 2 ^ 16 mod 256)), Outb 0x1f6 (if odd (b_dev b) then 0xf0 else 0xe0)] @
     (if b_dirty b then [Outb 0x1f7 0x30, Outsl 0x1f0 (b_data b)] else [Outb 0x1f7 0x20])"

lemma dev_bit: "word_of_nat n AND 1 = (if odd n then 1 else 0 :: byte)"
  by (simp add: and_one_eq mod_2_eq_odd)

lemma idestart_task:
  assumes "ata D content" and "b_blockno b < FSSIZE"
  shows "idestart D b d = Inr (ide_task b)"
proof -
  have "idewait False (dr_idle D d) = Inr 0" by (rule idewait_ready) (use ataD(1) [OF assms(1)] in simp_all)
  moreover have "b_blockno b div 2 ^ 24 = 0" using assms(2) by (simp add: ide_consts)
  ultimately show ?thesis using assms(2)
    by (simp add: idestart_def ide_task_def Let_def BSIZE_def SECTOR_SIZE_def IDE_CMD_READ_def IDE_CMD_WRITE_def dev_bit)
qed

lemma unat_byte: "unat (word_of_nat (n mod 256) :: byte) = n mod 256"
  by (simp add: unat_of_nat)

lemma split_bytes:
  fixes n :: nat
  assumes "n < 2 ^ 24"
  shows "n mod 256 + 2 ^ 8 * (n div 2 ^ 8 mod 256) + 2 ^ 16 * (n div 2 ^ 16 mod 256) = n"
proof -
  define a where "a = n div 256"
  have "n div 2 ^ 16 = a div 256" by (simp add: a_def flip: div_mult2_eq)
  moreover have "a div 256 < 256" using assms by (simp add: a_def less_mult_imp_div_less flip: div_mult2_eq)
  moreover have "n mod 256 + 256 * (a mod 256) + 65536 * (a div 256) = n"
    using div_mult_mod_eq [of n 256] div_mult_mod_eq [of a 256] unfolding a_def by linarith
  ultimately show ?thesis by (simp add: a_def [symmetric])
qed

lemma ide_task_ports:
  assumes "b_blockno b < FSSIZE"
  shows "lba (ide_task b) = b_blockno b" "one_sector (ide_task b)" "bit (port 0x1f6 (ide_task b)) 4 = odd (b_dev b)"
    "port 0x1f7 (ide_task b) = (if b_dirty b then 0x30 else 0x20)" "b_dirty b \<Longrightarrow> sent (ide_task b) = b_data b"
proof -
  let ?n = "b_blockno b"
  have n: "?n < 2 ^ 24" using assms by (simp add: FSSIZE_def)
  have "port 0x1f3 (ide_task b) = word_of_nat (?n mod 256)" "port 0x1f4 (ide_task b) = word_of_nat (?n div 2 ^ 8 mod 256)"
    "port 0x1f5 (ide_task b) = word_of_nat (?n div 2 ^ 16 mod 256)" "port 0x1f6 (ide_task b) AND 0x0f = 0"
    by (simp_all add: port_def ide_task_def)
  then show "lba (ide_task b) = ?n" unfolding lba_def unat_byte using split_bytes [OF n] by (simp only: unat_byte unat_0 mult_0_right add_0_right)
qed (simp_all add: one_sector_def port_def ide_task_def sent_def)

text \<open>What the drive does with it.\<close>

lemma drive_task:
  assumes D: "ata D content" and b: "b_blockno b < FSSIZE"
  shows "b_dirty b \<Longrightarrow> \<exists>sts data d'. dr_do D (ide_task b) d = (sts, data, d') \<and>
      content d' = (\<lambda>v n. if v = odd (b_dev b) \<and> n = b_blockno b then b_data b else content d v n)"
    and "\<not> b_dirty b \<Longrightarrow> \<exists>sts d'. dr_do D (ide_task b) d = (sts, content d (odd (b_dev b)) (b_blockno b), d') \<and> content d' = content d \<and> idewait True sts = Inr 0"
proof -
  note P = ide_task_ports [OF b]
  show "\<exists>sts data d'. dr_do D (ide_task b) d = (sts, data, d') \<and>
      content d' = (\<lambda>v n. if v = odd (b_dev b) \<and> n = b_blockno b then b_data b else content d v n)" if "b_dirty b"
    using ataD(3) [OF D P(2), unfolded P(1,3) P(5) [OF that]] P(4) that by simp
  show "\<exists>sts d'. dr_do D (ide_task b) d = (sts, content d (odd (b_dev b)) (b_blockno b), d') \<and> content d' = content d \<and> idewait True sts = Inr 0" if c: "\<not> b_dirty b"
  proof -
    obtain sts d' where "dr_do D (ide_task b) d = (sts, content d (odd (b_dev b)) (b_blockno b), d')" "content d' = content d"
        and st: "\<exists>r \<in> set sts. ready r" "\<forall>r \<in> set sts. ready r \<longrightarrow> r AND 0x21 = 0"
      using ataD(2) [OF D P(2), of d, unfolded P(1,3)] P(4) c by auto
    then show ?thesis using idewait_ready [OF st(1), of True] by blast
  qed
qed
subsection \<open>The invariant of the queue\<close>

definition waits :: "'d ide_sys \<Rightarrow> nat \<Rightarrow> nat \<Rightarrow> bool" where
  "waits s p i \<longleftrightarrow> d_procs s ! p = Sleeps i \<or> d_procs s ! p = Tests i"

definition synced :: "buf \<Rightarrow> bool" where
  "synced b \<longleftrightarrow> b_valid b \<and> \<not> b_dirty b"

definition ide_inv :: "int list \<Rightarrow> 'd ide_sys \<Rightarrow> bool" where
  "ide_inv pids s \<longleftrightarrow> length (d_procs s) = length pids \<and> distinct (d_queue s) \<and>
     (\<forall>i \<in> set (d_queue s). i < length (d_bufs s) \<and> \<not> synced (d_bufs s ! i) \<and> (\<exists>p < length pids. waits s p i)) \<and>
     (\<forall>p < length pids. \<forall>i. waits s p i \<longrightarrow>
        i < length (d_bufs s) \<and> b_lock (d_bufs s ! i) = Some (pids ! p) \<and> (i \<in> set (d_queue s) \<or> synced (d_bufs s ! i) \<and> d_procs s ! p = Tests i)) \<and>
     (\<forall>i < length (d_bufs s). b_blockno (d_bufs s ! i) < FSSIZE) \<and>
     (d_queue s \<noteq> [] \<longrightarrow> d_task s = ide_task (d_bufs s ! hd (d_queue s)))"

lemma ide_invI:
  assumes "length (d_procs s) = length pids" "distinct (d_queue s)"
    and "\<And>i. i \<in> set (d_queue s) \<Longrightarrow> i < length (d_bufs s) \<and> \<not> synced (d_bufs s ! i) \<and> (\<exists>p < length pids. waits s p i)"
    and "\<And>p i. p < length pids \<Longrightarrow> waits s p i \<Longrightarrow>
      i < length (d_bufs s) \<and> b_lock (d_bufs s ! i) = Some (pids ! p) \<and> (i \<in> set (d_queue s) \<or> synced (d_bufs s ! i) \<and> d_procs s ! p = Tests i)"
    and "\<And>i. i < length (d_bufs s) \<Longrightarrow> b_blockno (d_bufs s ! i) < FSSIZE"
    and "d_queue s \<noteq> [] \<Longrightarrow> d_task s = ide_task (d_bufs s ! hd (d_queue s))"
  shows "ide_inv pids s"
  using assms unfolding ide_inv_def by blast

lemma ide_invD:
  assumes "ide_inv pids s"
  shows "length (d_procs s) = length pids" "distinct (d_queue s)"
    and "i \<in> set (d_queue s) \<Longrightarrow> i < length (d_bufs s) \<and> \<not> synced (d_bufs s ! i) \<and> (\<exists>p < length pids. waits s p i)"
    and "p < length pids \<Longrightarrow> waits s p i \<Longrightarrow>
      i < length (d_bufs s) \<and> b_lock (d_bufs s ! i) = Some (pids ! p) \<and> (i \<in> set (d_queue s) \<or> synced (d_bufs s ! i) \<and> d_procs s ! p = Tests i)"
    and "i < length (d_bufs s) \<Longrightarrow> b_blockno (d_bufs s ! i) < FSSIZE"
    and "d_queue s \<noteq> [] \<Longrightarrow> d_task s = ide_task (d_bufs s ! hd (d_queue s))"
  using assms unfolding ide_inv_def by blast+

text \<open>A buffer that a process outside of the driver can lock has no request.\<close>

lemma no_request:
  assumes inv: "ide_inv pids s" and pids: "distinct pids" and p: "p < length pids" "d_procs s ! p = Out_of"
    and l: "b_lock (d_bufs s ! i) = None \<or> b_lock (d_bufs s ! i) = Some (pids ! p)"
  shows "q < length pids \<Longrightarrow> \<not> waits s q i" "i \<notin> set (d_queue s)"
proof -
  show *: "\<not> waits s q i" if q: "q < length pids" for q
  proof
    assume w: "waits s q i"
    then have "pids ! q = pids ! p" using ide_invD(4) [OF inv q w] l by auto
    then have "q = p" using nth_eq_iff_index_eq [OF pids q p(1)] by simp
    then show False using w p(2) by (simp add: waits_def)
  qed
  show "i \<notin> set (d_queue s)" using ide_invD(3) [OF inv, of i] * by blast
qed

text \<open>A process changes between testing and sleeping for the same request.\<close>

lemma ide_inv_toggle:
  assumes inv: "ide_inv pids s" and p: "p < length pids" "waits s p i" and pc: "pc = Tests i \<or> pc = Sleeps i \<and> \<not> synced (d_bufs s ! i)"
  shows "ide_inv pids (s\<lparr>d_procs := (d_procs s)[p := pc]\<rparr>)"
proof -
  note D = ide_invD [OF inv]
  define s' where "s' = s\<lparr>d_procs := (d_procs s)[p := pc]\<rparr>"
  have S: "d_bufs s' = d_bufs s" "d_queue s' = d_queue s" "d_task s' = d_task s" and P: "d_procs s' = (d_procs s)[p := pc]" by (simp_all add: s'_def)
  have w: "waits s' q j \<longleftrightarrow> waits s q j" if "q < length pids" for q j
    using that p pc D(1) by (cases "q = p") (auto simp: waits_def P)
  have "ide_inv pids s'"
  proof (rule ide_invI, unfold S)
    fix j assume "j \<in> set (d_queue s)"
    then show "j < length (d_bufs s) \<and> \<not> synced (d_bufs s ! j) \<and> (\<exists>p < length pids. waits s' p j)" using D(3) [of j] w by blast
  next
    fix q j assume q: "q < length pids" "waits s' q j"
    then have wj: "waits s q j" using w by blast
    show "j < length (d_bufs s) \<and> b_lock (d_bufs s ! j) = Some (pids ! q) \<and> (j \<in> set (d_queue s) \<or> synced (d_bufs s ! j) \<and> d_procs s' ! q = Tests j)"
    proof (cases "q = p")
      case True
      then have "j = i" "d_procs s' ! q = pc" using q(2) p pc D(1) by (auto simp: waits_def P)
      then show ?thesis using True D(4) [OF p] pc by auto
    next
      case False
      then show ?thesis using D(4) [OF q(1) wj] by (simp add: P)
    qed
  qed (use D P in simp_all)
  then show ?thesis by (simp add: s'_def)
qed

lemma ide_inv_test:
  assumes inv: "ide_inv pids s" and p: "p < length pids" "waits s p i"
  shows "ide_inv pids (ide_test p i s)"
proof (cases "synced (d_bufs s ! i)")
  case False
  then have "ide_test p i s = s\<lparr>d_procs := (d_procs s)[p := Sleeps i]\<rparr>" by (auto simp: ide_test_def synced_def)
  then show ?thesis using ide_inv_toggle [OF inv p, of "Sleeps i"] False by simp
next
  case True
  note D = ide_invD [OF inv]
  define s' where "s' = s\<lparr>d_procs := (d_procs s)[p := Out_of]\<rparr>"
  have e: "ide_test p i s = s'" using True by (auto simp: ide_test_def synced_def s'_def)
  have S: "d_bufs s' = d_bufs s" "d_queue s' = d_queue s" "d_task s' = d_task s" and P: "d_procs s' = (d_procs s)[p := Out_of]" by (simp_all add: s'_def)
  have w: "waits s' q j \<longleftrightarrow> q \<noteq> p \<and> waits s q j" if "q < length pids" for q j
    using that p D(1) by (cases "q = p") (auto simp: waits_def P)
  show ?thesis unfolding e
  proof (rule ide_invI, unfold S)
    fix j assume "j \<in> set (d_queue s)"
    then obtain q where q: "j < length (d_bufs s)" "\<not> synced (d_bufs s ! j)" "q < length pids" "waits s q j" using D(3) [of j] by blast
    have "q \<noteq> p" using q(2,4) True p(2) by (auto simp: waits_def)
    then show "j < length (d_bufs s) \<and> \<not> synced (d_bufs s ! j) \<and> (\<exists>p < length pids. waits s' p j)" using q w by blast
  next
    fix q j assume q: "q < length pids" "waits s' q j"
    then have "q \<noteq> p" "waits s q j" using w by blast+
    then show "j < length (d_bufs s) \<and> b_lock (d_bufs s ! j) = Some (pids ! q) \<and> (j \<in> set (d_queue s) \<or> synced (d_bufs s ! j) \<and> d_procs s' ! q = Tests j)"
      using D(4) [OF q(1)] by (simp add: P)
  qed (use D P in simp_all)
qed
subsection \<open>Requests and interrupts\<close>

definition enqueued :: "nat \<Rightarrow> nat \<Rightarrow> 'd ide_sys \<Rightarrow> 'd ide_sys" where
  "enqueued p i s =
     s\<lparr>d_queue := d_queue s @ [i], d_task := (if d_queue s = [] then ide_task (d_bufs s ! i) else d_task s), d_procs := (d_procs s)[p := Sleeps i]\<rparr>"

lemma ide_rw_run:
  assumes D: "ata D content" and b: "b_blockno (d_bufs s ! i) < FSSIZE" and i: "i \<notin> set (d_queue s)"
    and ok: "b_lock (d_bufs s ! i) = Some me" "\<not> synced (d_bufs s ! i)" "b_dev (d_bufs s ! i) = 0 \<or> d_have1 s"
  shows "ide_rw D me p i s = Inr (enqueued p i s)"
proof -
  have "hd (d_queue s @ [i]) = i \<longleftrightarrow> d_queue s = []" using i by (cases "d_queue s") auto
  then show ?thesis using ok idestart_task [OF D b]
    by (auto simp: ide_rw_def Let_def holdingsleep_def synced_def ide_test_def enqueued_def)
qed

lemma ide_rw_Inr:
  "ide_rw D me p i s = Inr s' \<Longrightarrow> b_lock (d_bufs s ! i) = Some me \<and> \<not> synced (d_bufs s ! i) \<and> (b_dev (d_bufs s ! i) = 0 \<or> d_have1 s)"
  unfolding ide_rw_def Let_def by (simp add: holdingsleep_def synced_def split: if_split_asm)

lemma enqueued_inv:
  assumes inv: "ide_inv pids s" and pids: "distinct pids" and p: "p < length pids" "d_procs s ! p = Out_of"
    and i: "i < length (d_bufs s)" "b_lock (d_bufs s ! i) = Some (pids ! p)" "\<not> synced (d_bufs s ! i)"
  shows "ide_inv pids (enqueued p i s)"
proof -
  note D = ide_invD [OF inv]
  have none: "i \<notin> set (d_queue s)" by (rule no_request(2) [OF inv pids p]) (simp add: i)
  define s' where "s' = enqueued p i s"
  have S: "d_bufs s' = d_bufs s" "d_queue s' = d_queue s @ [i]" "d_procs s' = (d_procs s)[p := Sleeps i]"
    "d_task s' = (if d_queue s = [] then ide_task (d_bufs s ! i) else d_task s)" by (simp_all add: s'_def enqueued_def)
  have w: "waits s' q j \<longleftrightarrow> (if q = p then j = i else waits s q j)" if "q < length pids" for q j
    using that p D(1) by (auto simp: waits_def S)
  have "ide_inv pids s'"
  proof (rule ide_invI, unfold S(1,2))
    fix j assume "j \<in> set (d_queue s @ [i])"
    then consider "j \<in> set (d_queue s)" | "j = i" by auto
    then show "j < length (d_bufs s) \<and> \<not> synced (d_bufs s ! j) \<and> (\<exists>p < length pids. waits s' p j)"
    proof cases
      case 1
      then obtain q where q: "j < length (d_bufs s)" "\<not> synced (d_bufs s ! j)" "q < length pids" "waits s q j" using D(3) [of j] by blast
      have "q \<noteq> p" using q(4) p(2) by (auto simp: waits_def)
      then show ?thesis using q w by auto
    qed (use i p w in auto)
  next
    fix q j assume q: "q < length pids" "waits s' q j"
    show "j < length (d_bufs s) \<and> b_lock (d_bufs s ! j) = Some (pids ! q) \<and> (j \<in> set (d_queue s @ [i]) \<or> synced (d_bufs s ! j) \<and> d_procs s' ! q = Tests j)"
      using w [OF q(1)] q i D(4) [OF q(1), of j] by (cases "q = p") (auto simp: S)
  next
    show "d_task s' = ide_task (d_bufs s ! hd (d_queue s @ [i]))" using D(6) by (cases "d_queue s") (simp_all add: S)
  qed (use D S none in simp_all)
  then show ?thesis by (simp add: s'_def)
qed

text \<open>The effect of an interrupt: the buffer at the head of the queue is exchanged with the drive.\<close>

definition completed :: "('d \<Rightarrow> bool \<Rightarrow> nat \<Rightarrow> block) \<Rightarrow> 'd \<Rightarrow> buf \<Rightarrow> buf" where
  "completed content d b =
     b\<lparr>b_data := if b_dirty b then b_data b else content d (odd (b_dev b)) (b_blockno b), b_valid := True, b_dirty := False\<rparr>"

definition stored :: "('d \<Rightarrow> bool \<Rightarrow> nat \<Rightarrow> block) \<Rightarrow> 'd \<Rightarrow> buf \<Rightarrow> bool \<Rightarrow> nat \<Rightarrow> block" where
  "stored content d b v n = (if b_dirty b \<and> v = odd (b_dev b) \<and> n = b_blockno b then b_data b else content d v n)"

lemma ide_intr_run:
  assumes D: "ata D content" and inv: "ide_inv pids s" and q: "d_queue s = i # q"
  shows "\<exists>d'. ide_intr D s = Inr (s\<lparr>d_bufs := (d_bufs s)[i := completed content (d_disk s) (d_bufs s ! i)], d_queue := q, d_disk := d',
      d_task := (if q = [] then [] else ide_task (d_bufs s ! hd q)), d_procs := ide_wakeup i (d_procs s)\<rparr>) \<and>
    content d' = stored content (d_disk s) (d_bufs s ! i)"
proof -
  let ?b = "d_bufs s ! i"
  note V = ide_invD [OF inv]
  have b: "?b = d_bufs s ! i" "b_blockno ?b < FSSIZE" using V(3,5) q by simp_all
  have task: "d_task s = ide_task ?b" using V(6) q by simp
  obtain sts data d' where do: "dr_do D (ide_task ?b) (d_disk s) = (sts, data, d')" and d': "content d' = stored content (d_disk s) ?b"
    and rd: "\<not> b_dirty ?b \<Longrightarrow> data = content (d_disk s) (odd (b_dev ?b)) (b_blockno ?b) \<and> idewait True sts = Inr 0"
  proof (cases "b_dirty ?b")
    case True
    then show thesis using drive_task(1) [OF D b(2) True, of "d_disk s"] that by (fastforce simp: stored_def)
  next
    case False
    then show thesis using drive_task(2) [OF D b(2) False, of "d_disk s"] that by (fastforce simp: stored_def)
  qed
  define b1 where "b1 = (if b_dirty ?b then ?b else ?b\<lparr>b_data := data\<rparr>)"
  have read: "(if \<not> b_dirty ?b then ebind (idewait True sts) (\<lambda>r. Inr (if r \<ge> 0 then ?b\<lparr>b_data := data\<rparr> else ?b)) else Inr ?b) = Inr b1"
    using rd by (auto simp: b1_def)
  have b1: "b1\<lparr>b_valid := True, b_dirty := False\<rparr> = completed content (d_disk s) ?b"
    using rd by (auto simp: b1_def completed_def)
  define s1 where "s1 = s\<lparr>d_bufs := (d_bufs s)[i := completed content (d_disk s) ?b], d_queue := q, d_disk := d', d_task := [],
    d_procs := ide_wakeup i (d_procs s)\<rparr>"
  have run: "ide_intr D s = (case q of [] \<Rightarrow> Inr s1 | j # _ \<Rightarrow> ebind (idestart D (d_bufs s1 ! j) d') (\<lambda>ws. Inr (s1\<lparr>d_task := ws\<rparr>)))"
    by (simp only: ide_intr_def q list.case Let_def task do prod.case read ebind_simps(2) b1 s1_def)
  show ?thesis
  proof (cases q)
    case Nil
    then show ?thesis using run d' by (intro exI [of _ d']) (simp add: s1_def)
  next
    case (Cons j js)
    have j: "j \<noteq> i" "j \<in> set (d_queue s)" using V(2) q Cons by auto
    have "idestart D (d_bufs s1 ! j) d' = Inr (ide_task (d_bufs s ! j))"
      using idestart_task [OF D, of "d_bufs s ! j" d'] V(3,5) j by (simp add: s1_def)
    then show ?thesis using run d' Cons by (intro exI [of _ d']) (simp add: s1_def)
  qed
qed
lemma ide_intr_inv:
  assumes D: "ata D content" and inv: "ide_inv pids s" and run: "ide_intr D s = Inr s'"
  shows "ide_inv pids s'"
proof (cases "d_queue s")
  case Nil
  then show ?thesis using run inv by (simp add: ide_intr_def)
next
  case (Cons i q)
  note V = ide_invD [OF inv]
  obtain d' where s': "s' = s\<lparr>d_bufs := (d_bufs s)[i := completed content (d_disk s) (d_bufs s ! i)], d_queue := q, d_disk := d',
      d_task := (if q = [] then [] else ide_task (d_bufs s ! hd q)), d_procs := ide_wakeup i (d_procs s)\<rparr>"
    using ide_intr_run [OF D inv Cons] run by auto
  have i: "i < length (d_bufs s)" "i \<notin> set q" "distinct q" using V(2,3) Cons by auto
  have S: "d_bufs s' = (d_bufs s)[i := completed content (d_disk s) (d_bufs s ! i)]" "d_queue s' = q"
    "d_task s' = (if q = [] then [] else ide_task (d_bufs s ! hd q))" "d_procs s' = ide_wakeup i (d_procs s)" by (simp_all add: s')
  have pc: "d_procs s' ! p = (if d_procs s ! p = Sleeps i then Tests i else d_procs s ! p)" if "p < length pids" for p
    using that V(1) by (simp add: S(4) ide_wakeup_def)
  have w: "waits s' p j \<longleftrightarrow> waits s p j" if "p < length pids" for p j using pc [OF that] by (auto simp: waits_def)
  have fin: "synced (completed c d b)" "b_lock (completed c d b) = b_lock b" "b_blockno (completed c d b) = b_blockno b" for c b and d :: 'a
    by (simp_all add: synced_def completed_def)
  show ?thesis
  proof (rule ide_invI, unfold S(2))
    fix j assume j: "j \<in> set q"
    then have "j \<noteq> i" "j \<in> set (d_queue s)" using i Cons by auto
    then show "j < length (d_bufs s') \<and> \<not> synced (d_bufs s' ! j) \<and> (\<exists>p < length pids. waits s' p j)" using V(3) [of j] w by (auto simp: S(1))
  next
    fix p j assume p: "p < length pids" "waits s' p j"
    then have j: "j < length (d_bufs s)" "b_lock (d_bufs s ! j) = Some (pids ! p)" "j \<in> set (d_queue s) \<or> synced (d_bufs s ! j) \<and> d_procs s ! p = Tests j"
      using V(4) [OF p(1), of j] w by simp_all
    show "j < length (d_bufs s') \<and> b_lock (d_bufs s' ! j) = Some (pids ! p) \<and> (j \<in> set q \<or> synced (d_bufs s' ! j) \<and> d_procs s' ! p = Tests j)"
    proof (cases "j = i")
      case True
      then show ?thesis using j p pc [OF p(1)] by (auto simp: S(1) fin waits_def)
    next
      case False
      then show ?thesis using j pc [OF p(1)] Cons by (auto simp: S(1))
    qed
  next
    fix j assume "j < length (d_bufs s')"
    then show "b_blockno (d_bufs s' ! j) < FSSIZE" using V(5) [of j] by (cases "j = i") (simp_all add: S(1) fin)
  next
    assume "q \<noteq> []"
    then show "d_task s' = ide_task (d_bufs s' ! hd q)" using i(2) by (cases q) (auto simp: S)
  qed (use V(1) i S in \<open>simp_all add: ide_wakeup_def\<close>)
qed

lemma client_inv:
  assumes inv: "ide_inv pids s" and pids: "distinct pids" and p: "p < length pids" "d_procs s ! p = Out_of"
    and l: "b_lock (d_bufs s ! i) = None \<or> b_lock (d_bufs s ! i) = Some (pids ! p)" and b: "b_blockno b < FSSIZE"
  shows "ide_inv pids (s\<lparr>d_bufs := (d_bufs s)[i := b]\<rparr>)"
proof -
  note V = ide_invD [OF inv]
  note N = no_request [OF inv pids p l]
  define s' where "s' = s\<lparr>d_bufs := (d_bufs s)[i := b]\<rparr>"
  have S: "d_queue s' = d_queue s" "d_task s' = d_task s" "d_procs s' = d_procs s" and B: "d_bufs s' = (d_bufs s)[i := b]" by (simp_all add: s'_def)
  have w: "waits s' q j \<longleftrightarrow> waits s q j" for q j by (simp add: waits_def S)
  have "ide_inv pids s'"
  proof (rule ide_invI, unfold S w)
    fix j assume j: "j \<in> set (d_queue s)"
    then have "j \<noteq> i" using N(2) by auto
    then show "j < length (d_bufs s') \<and> \<not> synced (d_bufs s' ! j) \<and> (\<exists>p < length pids. waits s p j)" using V(3) [OF j] by (simp add: B)
  next
    fix q j assume q: "q < length pids" "waits s q j"
    then have "j \<noteq> i" using N(1) by auto
    then show "j < length (d_bufs s') \<and> b_lock (d_bufs s' ! j) = Some (pids ! q) \<and> (j \<in> set (d_queue s) \<or> synced (d_bufs s' ! j) \<and> d_procs s ! q = Tests j)"
      using V(4) [OF q] by (simp add: B)
  next
    fix j assume "j < length (d_bufs s')"
    then show "b_blockno (d_bufs s' ! j) < FSSIZE" using V(5) [of j] b by (cases "j = i") (simp_all add: B)
  next
    assume ne: "d_queue s \<noteq> []"
    then have "hd (d_queue s) \<noteq> i" using N(2) by auto
    then show "d_task s = ide_task (d_bufs s' ! hd (d_queue s))" using V(6) [OF ne] by (simp add: B)
  qed (use V in simp_all)
  then show ?thesis by (simp add: s'_def)
qed

lemma ide_step_inv:
  assumes "ide_step D pids s s'" and D: "ata D content" and pids: "distinct pids" and inv: "ide_inv pids s"
  shows "ide_inv pids s'"
  using assms(1)
proof cases
  case (Call p i)
  have l: "b_lock (d_bufs s ! i) = Some (pids ! p) \<and> \<not> synced (d_bufs s ! i) \<and> (b_dev (d_bufs s ! i) = 0 \<or> d_have1 s)" by (rule ide_rw_Inr [OF Call(4)])
  have "i \<notin> set (d_queue s)" by (rule no_request(2) [OF inv pids Call(1,2)]) (simp add: l)
  then have "s' = enqueued p i s" using ide_rw_run [OF D, of s i "pids ! p" p] ide_invD(5) [OF inv Call(3)] l Call(4) by simp
  then show ?thesis using enqueued_inv [OF inv pids Call(1-3)] l by simp
next
  case (Test p i)
  then show ?thesis using ide_inv_test [OF inv, of p i] by (simp add: waits_def)
next
  case (Killed p i)
  then show ?thesis using ide_inv_toggle [OF inv, of p i "Tests i"] by (simp add: waits_def)
next
  case Interrupt
  then show ?thesis by (rule ide_intr_inv [OF D inv])
next
  case (Client p i b)
  then show ?thesis using client_inv [OF inv pids] by simp
qed

lemma ide_start_inv: "ide_inv pids (ide_start pids n have1 d)"
  by (rule ide_invI) (auto simp: ide_start_def waits_def zero_buf_def FSSIZE_def)

interpretation ide_procs: thread_system "ide_start pids n have1 d" "ide_step D pids" "\<lambda>s. ata D content \<and> distinct pids \<longrightarrow> ide_inv pids s"
  for pids n have1 d D content
  by unfold_locales (auto intro: ide_start_inv ide_step_inv)

text \<open>The transfer of one interrupt is the one of \<open>iderw\<close> in \<open>memide.c\<close>.\<close>

lemma transfer_refines:
  assumes i: "i < length (d_bufs s)" "b_blockno (d_bufs s ! i) < FSSIZE" "b_dev (d_bufs s ! i) = 1" "b_lock (d_bufs s ! i) = Some me" "\<not> synced (d_bufs s ! i)"
    and s': "d_bufs s' = (d_bufs s)[i := completed content (d_disk s) (d_bufs s ! i)]" "content (d_disk s') = stored content (d_disk s) (d_bufs s ! i)"
  shows "iderw me i (mem_view content s) = Inr (mem_view content s')"
proof -
  let ?b = "d_bufs s ! i"
  have "map (stored content (d_disk s) ?b True) [0..<FSSIZE] =
      (if b_dirty ?b then (map (content (d_disk s) True) [0..<FSSIZE])[b_blockno ?b := b_data ?b] else map (content (d_disk s) True) [0..<FSSIZE])"
    using i(3) by (auto simp: stored_def nth_list_update intro!: nth_equalityI)
  moreover have "completed content (d_disk s) ?b = (if b_dirty ?b then ?b\<lparr>b_dirty := False, b_valid := True\<rparr>
      else ?b\<lparr>b_data := content (d_disk s) True (b_blockno ?b), b_valid := True\<rparr>)"
    using i(3) by (simp add: completed_def)
  ultimately show ?thesis using i s' by (auto simp: iderw_def Let_def mem_view_def upd_buf_def holdingsleep_def synced_def)
qed
text \<open>C5: the disk driver implements the memory disk. Take any drive that keeps to its manual and any number of processes with different pids that use
  the driver for buffers they have locked, in any reachable state. A process that sleeps in \<open>iderw\<close> has its request in the queue. An interrupt never panics; it
  takes the first request off the queue, wakes its process, and changes buffers and disk 1 exactly as \<open>iderw\<close> of \<open>memide.c\<close> does in one step; so the
  requests are served in the order of the calls. A woken process whose request is done returns, with the buffer valid and clean. A call on a locked buffer with work to
  do appends the request and changes neither buffers nor disk.\<close>

theorem ide_refines_memory_disk:
  assumes D: "ata D content" and pids: "distinct pids" and reach: "(ide_step D pids)\<^sup>*\<^sup>* (ide_start pids n have1 d) s"
  shows "(\<forall>p < length pids. \<forall>i. d_procs s ! p = Sleeps i \<longrightarrow> i \<in> set (d_queue s)) \<and>
    (\<forall>i q. d_queue s = i # q \<longrightarrow> (\<exists>s'. ide_intr D s = Inr s' \<and> d_queue s' = q \<and> synced (d_bufs s' ! i) \<and>
       (\<exists>p < length pids. d_procs s' ! p = Tests i \<and> (b_dev (d_bufs s ! i) = 1 \<longrightarrow> iderw (pids ! p) i (mem_view content s) = Inr (mem_view content s'))))) \<and>
    (\<forall>p < length pids. \<forall>i. d_procs s ! p = Tests i \<and> i \<notin> set (d_queue s) \<longrightarrow>
       synced (d_bufs s ! i) \<and> ide_test p i s = s\<lparr>d_procs := (d_procs s)[p := Out_of]\<rparr>) \<and>
    (\<forall>p < length pids. \<forall>i < length (d_bufs s). d_procs s ! p = Out_of \<and> b_lock (d_bufs s ! i) = Some (pids ! p) \<and> \<not> synced (d_bufs s ! i) \<and>
       (b_dev (d_bufs s ! i) = 0 \<or> d_have1 s) \<longrightarrow>
       (\<exists>s'. ide_rw D (pids ! p) p i s = Inr s' \<and> d_queue s' = d_queue s @ [i] \<and> mem_view content s' = mem_view content s))"
proof -
  have inv: "ide_inv pids s" using ide_procs.reachable_inv [of pids n have1 d D s content] reach D pids unfolding ide_procs.reachable_def by blast
  note V = ide_invD [OF inv]
  have sleep: "i \<in> set (d_queue s)" if "p < length pids" "d_procs s ! p = Sleeps i" for p i
    using V(4) [OF that(1), of i] that(2) by (simp add: waits_def)
  have intr: "\<exists>s'. ide_intr D s = Inr s' \<and> d_queue s' = q \<and> synced (d_bufs s' ! i) \<and>
       (\<exists>p < length pids. d_procs s' ! p = Tests i \<and> (b_dev (d_bufs s ! i) = 1 \<longrightarrow> iderw (pids ! p) i (mem_view content s) = Inr (mem_view content s')))"
    if q: "d_queue s = i # q" for i q
  proof -
    obtain d' where run: "ide_intr D s = Inr (s\<lparr>d_bufs := (d_bufs s)[i := completed content (d_disk s) (d_bufs s ! i)], d_queue := q, d_disk := d',
        d_task := (if q = [] then [] else ide_task (d_bufs s ! hd q)), d_procs := ide_wakeup i (d_procs s)\<rparr>)" (is "_ = Inr ?s'")
      and d': "content d' = stored content (d_disk s) (d_bufs s ! i)" using ide_intr_run [OF D inv q] by blast
    obtain p where i: "i < length (d_bufs s)" "\<not> synced (d_bufs s ! i)" and p: "p < length pids" "waits s p i" using V(3) [of i] q by auto
    have "d_procs ?s' ! p = Tests i" using p V(1) by (auto simp: ide_wakeup_def waits_def)
    moreover have "iderw (pids ! p) i (mem_view content s) = Inr (mem_view content ?s')" if "b_dev (d_bufs s ! i) = 1"
      by (rule transfer_refines) (use i V(5) [OF i(1)] V(4) [OF p] that d' in simp_all)
    moreover have "synced (d_bufs ?s' ! i)" using i by (simp add: completed_def synced_def)
    ultimately show ?thesis using run p(1) by (intro exI [of _ ?s']) auto
  qed
  have test: "synced (d_bufs s ! i) \<and> ide_test p i s = s\<lparr>d_procs := (d_procs s)[p := Out_of]\<rparr>"
    if "p < length pids" "d_procs s ! p = Tests i" "i \<notin> set (d_queue s)" for p i
    using V(4) [OF that(1), of i] that by (auto simp: waits_def ide_test_def synced_def)
  have call: "\<exists>s'. ide_rw D (pids ! p) p i s = Inr s' \<and> d_queue s' = d_queue s @ [i] \<and> mem_view content s' = mem_view content s"
    if c: "p < length pids" "i < length (d_bufs s)" "d_procs s ! p = Out_of" "b_lock (d_bufs s ! i) = Some (pids ! p)" "\<not> synced (d_bufs s ! i)"
      "b_dev (d_bufs s ! i) = 0 \<or> d_have1 s" for p i
  proof -
    have "i \<notin> set (d_queue s)" by (rule no_request(2) [OF inv pids c(1,3)]) (simp add: c)
    then show ?thesis using ide_rw_run [OF D V(5) [OF c(2)] _ c(4-6), of p] by (simp add: enqueued_def mem_view_def)
  qed
  show ?thesis using sleep intr test call by blast
qed

text \<open>A drive that keeps its sectors in a function.\<close>

definition ram_drive :: "(bool \<Rightarrow> nat \<Rightarrow> block) drive" where
  "ram_drive = \<lparr>dr_idle = \<lambda>_. [0x80, 0x40], dr_do = \<lambda>ws d. let v = bit (port 0x1f6 ws) 4 in
     if port 0x1f7 ws = 0x30 then ([0x40], [], \<lambda>w n. if w = v \<and> n = lba ws then sent ws else d w n) else ([0xc0, 0x40], d v (lba ws), d)\<rparr>"

lemma ram_drive_ata: "ata ram_drive (\<lambda>d. d)"
  by (simp add: ata_def ram_drive_def ready_def Let_def)

theorem ide_refines_memory_disk_witness:
  "\<exists>s s'. (ide_step ram_drive [7])\<^sup>*\<^sup>* (ide_start [7] 1 True (\<lambda>_ _. [])) s \<and> d_procs s = [Sleeps 0] \<and> d_queue s = [0] \<and>
     ide_intr ram_drive s = Inr s' \<and> synced (d_bufs s' ! 0)"
proof -
  let ?b = "zero_buf\<lparr>b_lock := Some 7, b_dev := 1, b_blockno := 999, b_data := [1], b_dirty := True, b_valid := True\<rparr>"
  let ?s0 = "ide_start [7] 1 True (\<lambda>_ _. []) :: (bool \<Rightarrow> nat \<Rightarrow> block) ide_sys"
  define s1 where "s1 = ?s0\<lparr>d_bufs := [?b]\<rparr>"
  define s2 where "s2 = enqueued 0 0 s1"
  have "ide_step ram_drive [7] ?s0 s1"
    using ide_step.Client [of 0 "[7]" ?s0 0 ?b ram_drive] by (simp add: s1_def ide_start_def zero_buf_def FSSIZE_def)
  moreover have "ide_rw ram_drive 7 0 0 s1 = Inr s2" unfolding s2_def
    by (rule ide_rw_run [OF ram_drive_ata]) (simp_all add: s1_def ide_start_def FSSIZE_def synced_def)
  then have "ide_step ram_drive [7] s1 s2" using ide_step.Call [of 0 "[7]" s1 0 ram_drive s2] by (simp add: s1_def ide_start_def)
  ultimately have r: "(ide_step ram_drive [7])\<^sup>*\<^sup>* ?s0 s2" by (meson rtranclp.rtrancl_into_rtrancl rtranclp.rtrancl_refl)
  have s2: "d_procs s2 = [Sleeps 0]" "d_queue s2 = [0]" by (simp_all add: s2_def enqueued_def s1_def ide_start_def)
  have "\<exists>s'. ide_intr ram_drive s2 = Inr s' \<and> synced (d_bufs s' ! 0)"
    using ide_refines_memory_disk [OF ram_drive_ata _ r] s2 by auto
  with r s2 show ?thesis by blast
qed

text \<open>When the drive reports an error of a read, the buffer is marked as valid all the same, with its old bytes.\<close>

lemma read_error_unnoticed:
  assumes "d_queue s = [i]" "i < length (d_bufs s)" "\<not> b_dirty (d_bufs s ! i)" "dr_do D (d_task s) (d_disk s) = (sts, data, d')" "idewait True sts = Inr (-1)"
  shows "\<exists>s'. ide_intr D s = Inr s' \<and> synced (d_bufs s' ! i) \<and> b_data (d_bufs s' ! i) = b_data (d_bufs s ! i)"
  using assms by (simp add: ide_intr_def synced_def)

text \<open>A request for a block behind the end of the file system is accepted while another one is running, and panics in the interrupt handler.\<close>

lemma late_panic:
  assumes "d_queue s = [i, j]" "i \<noteq> j" "b_dirty (d_bufs s ! i)" "FSSIZE \<le> b_blockno (d_bufs s ! j)"
  shows "ide_intr D s = Inl (Panic ''incorrect blockno'')"
  using assms by (cases "dr_do D (d_task s) (d_disk s)") (simp add: ide_intr_def idestart_def)

end
