(* ===== verification/XV6_Kbd.thy ===== *)
theory XV6_Kbd
  imports XV6_Console
begin

unbundle bit_operations_syntax

text \<open>
  The keyboard: \<open>src/project3/xv6-modified/kbd.c\<close> and the tables of \<open>kbd.h\<close>. The controller delivers scan codes, one when a key is
  pressed and one when it is released; \<open>kbdgetc\<close> keeps the state of the modifier keys and delivers characters, or 0, to the console.
  The lemmas show that every text can be typed: the scan codes of its keys give back its characters, also through the console.
\<close>

subsection \<open>Tables\<close>

definition SHIFT :: uint32 where "SHIFT = 1"
definition CTL :: uint32 where "CTL = 2"
definition ALT :: uint32 where "ALT = 4"
definition CAPSLOCK :: uint32 where "CAPSLOCK = 8"
definition NUMLOCK :: uint32 where "NUMLOCK = 16"
definition SCROLLLOCK :: uint32 where "SCROLLLOCK = 32"
definition E0ESC :: uint32 where "E0ESC = 64"

lemmas kbd_consts = SHIFT_def CTL_def ALT_def CAPSLOCK_def NUMLOCK_def SCROLLLOCK_def E0ESC_def

text \<open>An array of 256 elements with an initialiser that lists the first elements and then designates single ones.\<close>

definition table :: "'a list \<Rightarrow> (nat \<times> 'a) list \<Rightarrow> 'a :: zero list" where
  "table xs ds = fold (\<lambda>(i, v) ys. ys[i := v]) ds (xs @ replicate (256 - length xs) 0)"

definition codes :: "string \<Rightarrow> byte list" where
  "codes = map of_char"

definition C_of :: "string \<Rightarrow> byte list" where
  "C_of xs = map (\<lambda>c. of_char c - 64) xs"

text \<open>The keys of the extended part: \<open>KEY_UP\<close> and so on. The entries of the keypad come first.\<close>

definition extended :: "byte \<Rightarrow> byte \<Rightarrow> (nat \<times> byte) list" where
  "extended enter div' =
     [(0x9C, enter), (0xB5, div'), (0xC8, 0xE2), (0xD0, 0xE3), (0xC9, 0xE6), (0xD1, 0xE7), (0xCB, 0xE4), (0xCD, 0xE5), (0x97, 0xE0), (0xCF, 0xE1),
      (0xD2, 0xE8), (0xD3, 0xE9)]"

definition shiftcode :: "uint32 list" where
  "shiftcode = table [] [(0x1D, CTL), (0x2A, SHIFT), (0x36, SHIFT), (0x38, ALT), (0x9D, CTL), (0xB8, ALT)]"

definition togglecode :: "uint32 list" where
  "togglecode = table [] [(0x3A, CAPSLOCK), (0x45, NUMLOCK), (0x46, SCROLLLOCK)]"

definition keypad :: "byte list" where
  "keypad = [0] @ codes '' '' @ replicate 13 0 @ codes ''789-456+1230.'' @ [0, 0, 0, 0]"

definition normalmap :: "byte list" where
  "normalmap = table
     ([0, 0x1B] @ codes ''1234567890-='' @ [8, 9] @ codes ''qwertyuiop[]'' @ [10, 0] @ codes ''asdfghjkl;'' @ [39, 96, 0, 92] @
      codes ''zxcvbnm,./'' @ [0] @ codes ''*'' @ keypad)
     (extended 10 47)"

definition shiftmap :: "byte list" where
  "shiftmap = table
     ([0, 0x1B] @ codes ''!@#$%^&*()_+'' @ [8, 9] @ codes ''QWERTYUIOP{}'' @ [10, 0] @ codes ''ASDFGHJKL:'' @ [34, 126, 0, 124] @
      codes ''ZXCVBNM<>?'' @ [0] @ codes ''*'' @ keypad)
     (extended 10 47)"

definition ctlmap :: "byte list" where
  "ctlmap = table
     (replicate 16 0 @ C_of ''QWERTYUIOP'' @ [0, 0, 13, 0] @ C_of ''ASDFGHJKL'' @ [0, 0, 0, 0, 92 - 64] @
      C_of ''ZXCVBNM'' @ [0, 0] @ C_of ''/'' @ [0, 0])
     (extended 13 (47 - 64))"

definition charcode :: "byte list list" where
  "charcode = [normalmap, shiftmap, ctlmap, ctlmap]"

subsection \<open>The driver\<close>

text \<open>\<open>kbdgetc\<close> when the status port shows a scan code \<open>data\<close>; without one it returns -1 and changes nothing.\<close>

definition capslock :: "byte \<Rightarrow> byte" where
  "capslock c = (if 97 \<le> c \<and> c \<le> 122 then c + (65 - 97) else if 65 \<le> c \<and> c \<le> 90 then c + (97 - 65) else c)"

definition kbdgetc :: "byte \<Rightarrow> uint32 \<Rightarrow> byte \<times> uint32" where
  "kbdgetc data shift =
     (if data = 0xE0 then (0, shift OR E0ESC)
      else if data AND 0x80 \<noteq> 0 then
        let data1 = (if shift AND E0ESC \<noteq> 0 then data else data AND 0x7F)
        in (0, shift AND NOT (shiftcode ! unat data1 OR E0ESC))
      else
        let (data1, shift1) = (if shift AND E0ESC \<noteq> 0 then (data OR 0x80, shift AND NOT E0ESC) else (data, shift));
            shift2 = shift1 OR shiftcode ! unat data1;
            shift3 = shift2 XOR togglecode ! unat data1;
            c = charcode ! unat (shift3 AND (CTL OR SHIFT)) ! unat data1
        in (if shift3 AND CAPSLOCK \<noteq> 0 then capslock c else c, shift3))"

text \<open>The characters \<open>consoleintr\<close> gets from \<open>kbdgetc\<close> while there are scan codes.\<close>

fun kbd_chars :: "byte list \<Rightarrow> uint32 \<Rightarrow> byte list \<times> uint32" where
  "kbd_chars [] shift = ([], shift)"
| "kbd_chars (d # ds) shift = (let (c, shift1) = kbdgetc d shift; (cs, shift2) = kbd_chars ds shift1 in (c # cs, shift2))"

definition kbdintr :: "byte list \<Rightarrow> uint32 \<times> console \<Rightarrow> fault + uint32 \<times> console" where
  "kbdintr ds = (\<lambda>(shift, s). let (cs, shift1) = kbd_chars ds shift in ebind (consoleintr cs s) (\<lambda>(_, s1). Inr (shift1, s1)))"

subsection \<open>Keys\<close>

text \<open>The keyboard itself, which is not part of the program: the scan codes (set 1) of the main block of a US keyboard, with the characters printed on
  the keys, without and with the shift key.\<close>

definition key_row :: "nat \<Rightarrow> string \<Rightarrow> string \<Rightarrow> (nat \<times> byte \<times> byte) list" where
  "key_row first plain shifted = zip [first..<first + length plain] (zip (codes plain) (codes shifted))"

definition us_keyboard :: "(nat \<times> byte \<times> byte) list" where
  "us_keyboard =
     [(0x01, 27, 27)] @ key_row 0x02 ''1234567890-='' ''!@#$%^&*()_+'' @ [(0x0E, 8, 8), (0x0F, 9, 9)] @
     key_row 0x10 ''qwertyuiop[]'' ''QWERTYUIOP{}'' @ [(0x1C, 10, 10)] @
     key_row 0x1E ''asdfghjkl;'' ''ASDFGHJKL:'' @ [(0x28, 39, 34), (0x29, 96, 126), (0x2B, 92, 124)] @
     key_row 0x2C ''zxcvbnm,./'' ''ZXCVBNM<>?'' @ [(0x39, 32, 32)]"

text \<open>What the keyboard sends for a character: its key pressed and released, alone or while the left shift key is held.\<close>

definition strokes :: "byte \<Rightarrow> byte list" where
  "strokes c =
     (case find (\<lambda>(i, l, u). l = c) us_keyboard of
        Some (i, _, _) \<Rightarrow> [word_of_nat i, word_of_nat (i + 128)]
      | None \<Rightarrow>
          (case find (\<lambda>(i, l, u). u = c) us_keyboard of
             Some (i, _, _) \<Rightarrow> [0x2A, word_of_nat i, word_of_nat (i + 128), 0xAA]
           | None \<Rightarrow> []))"

definition typeable :: "byte list" where
  "typeable = [8, 9, 10, 27] @ map word_of_nat [32..<127]"

lemma table_length [simp]: "length xs \<le> 256 \<Longrightarrow> length (table xs ds) = 256"
proof -
  have "length (fold (\<lambda>(i, v) ys. ys[i := v]) ds ys) = length ys" for ys :: "'a list"
    by (induction ds arbitrary: ys) (auto split: prod.splits)
  then show "length xs \<le> 256 \<Longrightarrow> length (table xs ds) = 256" by (simp add: table_def)
qed

lemma normal_prefix: "take 58 normalmap = [0, 27, 49, 50, 51, 52, 53, 54, 55, 56, 57, 48, 45, 61, 8, 9, 113, 119, 101, 114, 116, 121, 117, 105, 111, 112, 91, 93, 10, 0,
    97, 115, 100, 102, 103, 104, 106, 107, 108, 59, 39, 96, 0, 92, 122, 120, 99, 118, 98, 110, 109, 44, 46, 47, 0, 42, 0, 32]"
  by code_simp

lemma shift_prefix: "take 58 shiftmap = [0, 27, 33, 64, 35, 36, 37, 94, 38, 42, 40, 41, 95, 43, 8, 9, 81, 87, 69, 82, 84, 89, 85, 73, 79, 80, 123, 125, 10, 0,
    65, 83, 68, 70, 71, 72, 74, 75, 76, 58, 34, 126, 0, 124, 90, 88, 67, 86, 66, 78, 77, 60, 62, 63, 0, 42, 0, 32]"
  by code_simp

lemma modifier_prefix: "list_all (\<lambda>(n, s, t, u). (n \<noteq> 0 \<or> s \<noteq> 0 \<longrightarrow> t = 0 \<and> u = 0)) (take 58 (zip normalmap (zip shiftmap (zip shiftcode togglecode))))"
  by code_simp
lemma plain_key:
  assumes "i < 58" and "normalmap ! i \<noteq> 0 \<or> shiftmap ! i \<noteq> 0"
  shows "shiftcode ! i = 0" "togglecode ! i = 0"
proof -
  have l: "length normalmap = 256" "length shiftmap = 256" "length shiftcode = 256" "length togglecode = 256"
    by (simp_all add: normalmap_def shiftmap_def shiftcode_def togglecode_def codes_def keypad_def)
  let ?zs = "take 58 (zip normalmap (zip shiftmap (zip shiftcode togglecode)))"
  have "i < length ?zs" using assms(1) l by simp
  moreover have "?zs ! i = (normalmap ! i, shiftmap ! i, shiftcode ! i, togglecode ! i)" using assms(1) l by simp
  ultimately show "shiftcode ! i = 0" "togglecode ! i = 0" using modifier_prefix assms(2) unfolding list_all_length by fastforce+
qed

lemma maps_length: "length normalmap = 256" "length shiftmap = 256"
  by (simp_all add: normalmap_def shiftmap_def codes_def keypad_def)

text \<open>The tables of the driver agree with the keyboard, and the keyboard has every character of \<open>typeable\<close>.\<close>

lemma keyboard_tables:
  assumes "(i, l, u) \<in> set us_keyboard"
  shows "i < 58" "normalmap ! i = l" "shiftmap ! i = u" "l \<noteq> 0" "u \<noteq> 0"
proof -
  have "list_all (\<lambda>(i, l, u). i < 58 \<and> take 58 normalmap ! i = l \<and> take 58 shiftmap ! i = u \<and> l \<noteq> 0 \<and> u \<noteq> 0) us_keyboard"
    unfolding normal_prefix shift_prefix by code_simp
  then have "case (i, l, u) of (i, l, u) \<Rightarrow> i < 58 \<and> take 58 normalmap ! i = l \<and> take 58 shiftmap ! i = u \<and> l \<noteq> 0 \<and> u \<noteq> 0"
    using assms unfolding list_all_iff by (rule bspec)
  then show "i < 58" "normalmap ! i = l" "shiftmap ! i = u" "l \<noteq> 0" "u \<noteq> 0" by auto
qed

lemma typeable_keys: "c \<in> set typeable \<Longrightarrow> \<exists>(i, l, u) \<in> set us_keyboard. l = c \<or> u = c"
proof -
  have "list_all (\<lambda>c. list_ex (\<lambda>(i, l, u). l = c \<or> u = c) us_keyboard) typeable" by code_simp
  then show "c \<in> set typeable \<Longrightarrow> \<exists>(i, l, u) \<in> set us_keyboard. l = c \<or> u = c" unfolding list_all_iff list_ex_iff by blast
qed

text \<open>No shift, control or prefix is pending; the other modifiers are arbitrary.\<close>

definition at_rest :: "uint32 \<Rightarrow> bool" where
  "at_rest shift \<longleftrightarrow> shift AND 67 = 0"

definition caps :: "uint32 \<Rightarrow> byte \<Rightarrow> byte" where
  "caps shift = (if shift AND CAPSLOCK \<noteq> 0 then capslock else id)"

lemma masked: "shift AND m = 0 \<Longrightarrow> shift AND NOT m = shift" for shift m :: uint32
proof -
  have "shift = (shift AND m) OR (shift AND NOT m)" by (simp flip: bit.conj_disj_distrib)
  then show "shift AND m = 0 \<Longrightarrow> shift AND NOT m = shift" by simp
qed

lemma at_rest_bits:
  assumes "at_rest shift"
  shows "shift AND 3 = 0" "shift AND 64 = 0" "(shift OR 1) AND 3 = 1" "(shift OR 1) AND 64 = 0" "(shift OR 1) AND CAPSLOCK = shift AND CAPSLOCK"
    "shift AND NOT 64 = shift" "(shift OR 1) AND NOT 64 = shift OR 1" "(shift OR 1) AND NOT 65 = shift"
proof -
  have part: "shift AND m = 0" if "67 AND m = m" for m
  proof -
    have "shift AND m = (shift AND 67) AND m" using that by (simp only: and.assoc)
    then show ?thesis using assms by (simp add: at_rest_def)
  qed
  show r: "shift AND 3 = 0" "shift AND 64 = 0" by (simp_all add: part)
  show o: "(shift OR 1) AND 3 = 1" "(shift OR 1) AND 64 = 0" "(shift OR 1) AND CAPSLOCK = shift AND CAPSLOCK"
    using r by (simp_all add: bit.conj_disj_distrib2 CAPSLOCK_def)
  show "shift AND NOT 64 = shift" "(shift OR 1) AND NOT 64 = shift OR 1" using masked r(2) o(2) by blast+
  have "shift AND NOT 65 = shift" by (rule masked) (simp add: part)
  then show "(shift OR 1) AND NOT 65 = shift" by (simp add: bit.conj_disj_distrib2)
qed

lemma scan_code:
  assumes "i < 58"
  shows "word_of_nat i \<noteq> (0xE0 :: byte)" "word_of_nat i AND 0x80 = (0 :: byte)" "unat (word_of_nat i :: byte) = i"
    "word_of_nat (i + 128) \<noteq> (0xE0 :: byte)" "word_of_nat (i + 128) AND 0x80 \<noteq> (0 :: byte)" "unat (word_of_nat (i + 128) AND 0x7F :: byte) = i"
proof -
  let ?P = "\<lambda>i. word_of_nat i \<noteq> (0xE0 :: byte) \<and> word_of_nat i AND 0x80 = (0 :: byte) \<and> unat (word_of_nat i :: byte) = i \<and>
    word_of_nat (i + 128) \<noteq> (0xE0 :: byte) \<and> word_of_nat (i + 128) AND 0x80 \<noteq> (0 :: byte) \<and> unat (word_of_nat (i + 128) AND 0x7F :: byte) = i"
  have "list_all ?P [0..<58]" by code_simp
  then have "?P i" using assms unfolding list_all_iff by simp
  then show "word_of_nat i \<noteq> (0xE0 :: byte)" "word_of_nat i AND 0x80 = (0 :: byte)" "unat (word_of_nat i :: byte) = i"
    "word_of_nat (i + 128) \<noteq> (0xE0 :: byte)" "word_of_nat (i + 128) AND 0x80 \<noteq> (0 :: byte)" "unat (word_of_nat (i + 128) AND 0x7F :: byte) = i"
    by blast+
qed

lemma press:
  assumes "i < 58" "shiftcode ! i = 0" "togglecode ! i = 0" "shift AND 64 = 0"
  shows "kbdgetc (word_of_nat i) shift = (caps shift (charcode ! unat (shift AND 3) ! i), shift)"
proof -
  have "CTL OR SHIFT = 3" by (simp add: kbd_consts)
  then show ?thesis unfolding kbdgetc_def using scan_code [OF assms(1)] assms(2-4) by (simp only: if_False if_True Let_def E0ESC_def prod.case caps_def)  simp
qed

lemma release:
  assumes "i < 58" "shiftcode ! i = 0" "shift AND 64 = 0"
  shows "kbdgetc (word_of_nat (i + 128)) shift = (0, shift AND NOT 64)"
  unfolding kbdgetc_def using scan_code [OF assms(1)] assms(2,3) by (simp only: if_False if_True Let_def E0ESC_def) simp
lemma shift_key:
  assumes "at_rest shift"
  shows "kbdgetc 0x2A shift = (0, shift OR 1)" "kbdgetc 0xAA (shift OR 1) = (0, shift)"
proof -
  have t: "shiftcode ! 42 = 1" "togglecode ! 42 = 0" "shiftmap ! 42 = 0" by code_simp+
  have c: "CTL OR SHIFT = 3" by (simp add: kbd_consts)
  note R = at_rest_bits [OF assms]
  show "kbdgetc 0x2A shift = (0, shift OR 1)"
    using t c R by (simp add: kbdgetc_def E0ESC_def charcode_def capslock_def)
  show "kbdgetc 0xAA (shift OR 1) = (0, shift)"
    using t R by (simp add: kbdgetc_def E0ESC_def)
qed

text \<open>The strokes of one character deliver it once, and leave the state as it was.\<close>

lemma strokes_char:
  assumes c: "c \<in> set typeable" and r: "at_rest shift"
  shows "\<exists>cs. kbd_chars (strokes c) shift = (cs, shift) \<and> filter (\<lambda>x. x \<noteq> 0) cs = [caps shift c]"
proof -
  note R = at_rest_bits [OF r]
  have nz: "caps shift c \<noteq> 0" if "c \<noteq> 0" using that by (auto simp: caps_def capslock_def word_le_nat_alt unat_arith_simps)
  show ?thesis
  proof (cases "find (\<lambda>(i, l, u). l = c) us_keyboard")
    case (Some key)
    obtain i l u where key: "key = (i, l, u)" by (cases key)
    then have m: "(i, l, u) \<in> set us_keyboard" "l = c" using Some by (auto simp: find_Some_iff in_set_conv_nth)
    note T = keyboard_tables [OF m(1)]
    have k: "shiftcode ! i = 0" "togglecode ! i = 0" using plain_key [OF T(1)] T by simp_all
    have s: "strokes c = [word_of_nat i, word_of_nat (i + 128)]" using Some key by (simp add: strokes_def)
    have "kbdgetc (word_of_nat i) shift = (caps shift c, shift)" "kbdgetc (word_of_nat (i + 128)) shift = (0, shift)"
      using press [OF T(1) k R(2)] release [OF T(1) k(1) R(2)] R T(2) m(2) by (simp_all add: charcode_def del: of_nat_add)
    then show ?thesis using nz T(4) m(2) by (simp add: s del: of_nat_add)
  next
    case None
    then have "\<exists>(i, l, u) \<in> set us_keyboard. u = c" using typeable_keys [OF c] by (fastforce simp: find_None_iff)
    then have "find (\<lambda>(i, l, u). u = c) us_keyboard \<noteq> None" by (auto simp: find_None_iff)
    then obtain i l u where f: "find (\<lambda>(i, l, u). u = c) us_keyboard = Some (i, l, u)" by auto
    then have m: "(i, l, u) \<in> set us_keyboard" "u = c" by (auto simp: find_Some_iff in_set_conv_nth)
    note T = keyboard_tables [OF m(1)]
    have k: "shiftcode ! i = 0" "togglecode ! i = 0" using plain_key [OF T(1)] T by simp_all
    have s: "strokes c = [0x2A, word_of_nat i, word_of_nat (i + 128), 0xAA]" using f None by (simp add: strokes_def)
    have "kbdgetc (word_of_nat i) (shift OR 1) = (caps shift c, shift OR 1)" "kbdgetc (word_of_nat (i + 128)) (shift OR 1) = (0, shift OR 1)"
      using press [OF T(1) k R(4)] release [OF T(1) k(1) R(4)] R T(3) m(2) by (simp_all add: charcode_def caps_def del: of_nat_add)
    then show ?thesis using nz T(5) m(2) shift_key [OF r] by (simp add: s del: of_nat_add)
  qed
qed

lemma kbd_chars_append:
  "kbd_chars (xs @ ys) shift = (let (cs, s1) = kbd_chars xs shift; (ds, s2) = kbd_chars ys s1 in (cs @ ds, s2))"
  by (induction xs arbitrary: shift) (auto split: prod.splits simp: Let_def)

lemma strokes_text:
  "set typed \<subseteq> set typeable \<Longrightarrow> at_rest shift \<Longrightarrow>
    \<exists>cs. kbd_chars (concat (map strokes typed)) shift = (cs, shift) \<and> filter (\<lambda>x. x \<noteq> 0) cs = map (caps shift) typed"
proof (induction typed)
  case (Cons c typed)
  obtain cs where "kbd_chars (strokes c) shift = (cs, shift)" "filter (\<lambda>x. x \<noteq> 0) cs = [caps shift c]"
    using strokes_char [of c shift] Cons.prems by auto
  moreover obtain ds where "kbd_chars (concat (map strokes typed)) shift = (ds, shift)" "filter (\<lambda>x. x \<noteq> 0) ds = map (caps shift) typed"
    using Cons by auto
  ultimately show ?case by (simp add: kbd_chars_append)
qed simp

lemma key_spec_zeros: "fold key_spec (filter (\<lambda>x. x \<noteq> 0) cs) st = fold key_spec cs st"
proof (induction cs arbitrary: st)
  case (Cons c cs)
  have "key_spec 0 st = st" by (cases st) (simp add: key_spec_def Ctl_def)
  with Cons show ?case by simp
qed simp

text \<open>C34: every text can be typed. For every text of printable ASCII characters, tabulators, newlines, escapes and backspaces, the scan codes that a US
  keyboard sends for it, each key pressed and released and the shift key held where the character needs it, bring exactly the characters of
  the text to the line editor of the console, with upper and lower case exchanged when caps lock is on; alt, num lock and scroll lock do not matter, the driver does not panic,
  and afterwards the state of the modifiers is what it was.\<close>

theorem kbd_types_text:
  assumes "set typed \<subseteq> set typeable" and "at_rest shift" and "con_ok s"
  shows "\<exists>s'. kbdintr (concat (map strokes typed)) (shift, s) = Inr (shift, s') \<and> con_ok s' \<and>
    (committed s', editing s') = fold key_spec (map (caps shift) typed) (committed s, editing s)"
proof -
  obtain cs where cs: "kbd_chars (concat (map strokes typed)) shift = (cs, shift)" "filter (\<lambda>x. x \<noteq> 0) cs = map (caps shift) typed"
    using strokes_text [OF assms(1,2)] by blast
  obtain f s' where "consoleintr cs s = Inr (f, s')" "con_ok s'" "(committed s', editing s') = fold key_spec cs (committed s, editing s)"
    using consoleintr_spec [OF assms(3)] by blast
  then show ?thesis using cs key_spec_zeros [of cs] by (simp add: kbdintr_def)
qed

text \<open>Witness: \<open>Hi!\<close> and return, with caps lock on.\<close>

theorem kbd_types_text_witness:
  "\<exists>s'. kbdintr (concat (map strokes [72, 105, 33, 10])) (CAPSLOCK, blank_console) = Inr (CAPSLOCK, s') \<and> committed s' = [104, 73, 33, 10] \<and> editing s' = []"
proof -
  have t: "set [72, 105, 33, 10] \<subseteq> set typeable" by (simp add: typeable_def upt_conv_Cons)
  have r: "at_rest CAPSLOCK" by (simp add: at_rest_def CAPSLOCK_def)
  obtain s' where s': "kbdintr (concat (map strokes [72, 105, 33, 10])) (CAPSLOCK, blank_console) = Inr (CAPSLOCK, s')"
    "(committed s', editing s') = fold key_spec (map (caps CAPSLOCK) [72, 105, 33, 10]) (committed blank_console, editing blank_console)"
    using kbd_types_text [OF t r blank_console_ok(1)] by blast
  have "map (caps CAPSLOCK) [72, 105, 33, 10] = [104, 73, 33, 10]" by (simp add: caps_def capslock_def CAPSLOCK_def)
  with s' show ?thesis by (simp add: blank_console_ok key_spec_def Ctl_def)
qed

subsection \<open>Keys that do not work\<close>

text \<open>The home key sends \<open>E0 47\<close>, but its entry in the tables is at \<open>0x97\<close> and not at \<open>0xC7\<close>. Control and the slash give a byte that is
  no control character. Releasing one shift key ends the effect of the other one.\<close>

lemma home_key_dead: "kbd_chars [0xE0, 0x47] 0 = ([0, 0], 0)"
  by code_simp

lemma control_slash: "kbd_chars [0x1D, 0x35] 0 = ([0, 239], CTL)"
  by code_simp

lemma two_shift_keys: "kbd_chars [0x2A, 0x36, 0xB6, 0x1E] 0 = ([0, 0, 0, 97], 0)"
  by code_simp

end
