(* ===== verification/Spec2Isabelle.thy ===== *)
theory Spec2Isabelle
  imports SSU_Ealloc SSU_Sem SSU_RwLock SSU_Workers SSU_Shell SSUFS_Ops XV6_Proc XV6_Console XV6_Umalloc XV6_Sh XV6_Exec XV6_Mkfs XV6_Utils XV6_Locks XV6_Trap XV6_Ide XV6_Kbd
begin

text \<open>
  \<^bold>\<open>Six operating system projects, verified.\<close> The repository holds six course projects in C. Project 3 is a modified
  xv6 kernel with its user programs (\<open>src/project3/xv6-modified\<close>), project 4 three small libraries on POSIX threads,
  project 5 two memory allocators, project 6 a file system on an emulated disk; project 2 has a shell and clones of \<open>ps\<close> and
  of \<open>top\<close>, project 1 measurement programs. The development models the parts with logic of their own as HOL
  functions and step relations translated from the C text and proves what each part promises to its users.

  \<^bold>\<open>Conventions.\<close> A C structure is a record, a tagged union a datatype, an array a list. A function that may
  fail returns \<open>fault + 'a\<close>: the left side (\<^typ>\<open>fault\<close> of \<open>Prelude\<close>) is a panic, a failed assertion, an access
  outside an array, a null dereference, a signed overflow, a loop that does not end or a wait for a lock; a theorem that a call ends with
  \<open>Inr\<close> therefore excludes all of them. An error code the C program returns is a value on the right side. Numbers that
  only index or count are \<open>nat\<close>, with the reduction modulo \<open>2 ^ 32\<close> written out where the C text can wrap around; the
  counters and the bytes are words. Locks held by one call for its whole length make the call one atomic step; where
  threads interleave inside a call (project 4), every statement or library call is a step of its own.

  \<^bold>\<open>Project 5.\<close> \<open>SSU_Alloc\<close> is \<open>alloc.c\<close>: chunk table, first fit, splitting, merging. Its locale \<open>page_heap\<close> states
  the laws of a page cut into chunks of a granularity and proves the behaviour of the operations once; it is interpreted
  for the granularity 8 of \<open>alloc.c\<close> and, in \<open>SSU_Ealloc\<close> (\<open>ealloc.c\<close>, several pages mapped on demand), for 256.
  The allocator is refined to a first-fit specification on sets of addresses, and the two defects (splitting
  an interior chunk, the fixed number of page descriptors) are theorems.

  \<^bold>\<open>Project 6.\<close> \<open>SSUFS_Disk\<close> is \<open>ssufs-disk.c\<close> on the bytes of the disk file: superblock, inodes, data blocks, the free
  lists. \<open>SSUFS_Ops\<close> is \<open>ssufs-ops.c\<close>: create, delete, open, close, read, write, seek, with the invariant that the
  free lists describe exactly the blocks of the inodes in use, the exact effect of every operation on it, and the round
  trip of a write and a read.

  \<^bold>\<open>Project 4.\<close> \<open>SSU_Pthread\<close> has the mutex and the condition variable as data, and the locale \<open>thread_system\<close>,
  which turns an invariant of the steps into an invariant of the reachable states; \<open>SSU_Sem\<close>, \<open>SSU_RwLock\<close>
  and \<open>SSU_Workers\<close> interpret it for the semaphore, the two reader-writer locks and the master-worker pool. The number of
  threads, of slots and of items is arbitrary in all three.

  \<^bold>\<open>Project 3, storage.\<close> \<open>XV6_Bio\<close> (\<open>bio.c\<close>, \<open>memide.c\<close>) is the buffer cache in LRU order over the disk,
  \<open>XV6_Log\<close> (\<open>log.c\<close>) the write-ahead log over it with a crash possible before every write to the disk. \<open>XV6_Fs\<close>
  (\<open>fs.c\<close>: blocks, inodes, contents) works on the blocks as seen through cache and log; the locale \<open>block_layer\<close> is
  the interface, interpreted for both sides, and \<open>block_layer_refined\<close> proves that the one implements the other.
  \<open>XV6_Dir\<close> has directories and path names, \<open>XV6_Pipe\<close> the pipes, \<open>XV6_File\<close> the file table
  and the system calls of \<open>sysfile.c\<close> with their fetching of arguments (\<open>syscall.c\<close>). \<open>XV6_Ring\<close> is the locale of a
  ring buffer with wrapping counters, interpreted for pipes (512 bytes) and for the console (128 bytes).

  \<open>XV6_Ide\<close> (\<open>ide.c\<close>) is the driver of a real disk, with its queue of requests, sleeping processes and interrupts. The drive is an argument that
  keeps to its manual (\<open>ata\<close>); the driver then implements the memory disk under the buffer cache.
  \<open>XV6_Mkfs\<close> (\<open>mkfs.c\<close>) writes the image that all of this starts from: \<open>mkfs_namei_readi\<close> shows that the kernel's
  own \<open>namei\<close> and \<open>readi\<close> find every file in it, with its bytes.

  \<^bold>\<open>Project 3, memory and processes.\<close> \<open>XV6_Kalloc\<close> (\<open>kalloc.c\<close>) is the list of free page frames threaded through
  memory, with the locale \<open>page_pool\<close> of its contract; \<open>XV6_VM\<close> (\<open>vm.c\<close>) builds page tables in these frames and shows
  which page every operation takes and gives back. \<open>XV6_Proc\<close> (\<open>proc.c\<close>) is the process table, the priority scheduler of the
  repository and the process system calls, with the services of memory and files as a parameter (\<open>services\<close>). \<open>fork\<close> and \<open>exit\<close> are cut
  into the sections between which they can be preempted or sleep; the step relation \<open>kstep\<close> interleaves the sections of all processes, and the invariant
  of the table holds at every step of it. Among processes of the highest priority the scheduler is a round robin with bounded waiting; lower ones starve.
  \<open>XV6_Exec\<close> (\<open>exec.c\<close>) puts file system and virtual memory together: a program is loaded completely, or the process keeps its
  memory and every page is given back. \<open>XV6_Trap\<close> (\<open>trap.c\<close>, the dispatcher of \<open>syscall.c\<close>, \<open>sysproc.c\<close>) is the way into the kernel, over
  \<open>XV6_Proc\<close>: it keeps the invariant of the process table, ends killed processes, and counts the ticks of the clock; the calls on files and the devices are
  arbitrary functions with the types of what they can do to the table. \<open>XV6_Locks\<close>
  (\<open>spinlock.c\<close>, \<open>sleeplock.c\<close>) has the locks below all of it, for any number of processors that interleave at the accesses
  to shared memory and take interrupts; it interprets \<open>thread_system\<close> of project 4, and justifies that the sections under one lock are atomic
  steps elsewhere.

  \<^bold>\<open>Project 3, console and user level.\<close> \<open>XV6_Console\<close> (\<open>console.c\<close>) refines a line editor, which
  \<open>XV6_Kbd\<close> (\<open>kbd.c\<close>, \<open>kbd.h\<close>) feeds with the characters of the keys; \<open>XV6_String\<close> has
  \<open>string.c\<close>, \<open>ulib.c\<close> and \<open>printf.c\<close>; \<open>XV6_Umalloc\<close> (\<open>umalloc.c\<close>) the user heap on its circular list; \<open>XV6_Sh\<close>
  (\<open>sh.c\<close>) the parser of the shell on the bytes of the line; \<open>XV6_Utils\<close> the programs \<open>grep\<close>, \<open>wc\<close> and \<open>cat\<close>,
  where the pattern matcher is equivalent to the language of the pattern.

  \<^bold>\<open>Project 2.\<close> \<open>SSU_Shell\<close> is \<open>ssu_shell.c\<close>: tokenizer, queue of words, the pipes and descriptors of shell and
  children, and the reading of lines.

  \<^bold>\<open>Bounds and fuel.\<close> Loops are recursive functions with a measure. The loops of \<open>umalloc.c\<close> follow pointers
  and are partial functions into \<open>option\<close>, and \<open>umalloc_correct\<close>, \<open>ufree_correct\<close> show that they return. The
  parser of the shell has the fuel \<open>4 * length + 4\<close>, since each level consumes a byte or descends one of four
  nonterminals; \<open>parsecmd_ends\<close> shows that it never runs out. Loops that the C text can run for ever return \<open>Diverges\<close>.

  \<^bold>\<open>Not modelled.\<close> Interrupt controllers, the serial port, the search for processors, assembly and booting, which act on the
  hardware; \<open>runcmd\<close> of the shell and the small user programs, which only make system calls; the test programs; \<open>pps\<close> and \<open>ttop\<close> of project 2,
  which read \<open>/proc\<close> with \<open>fscanf\<close> and draw on a terminal; the loads of project 1.
\<close>

end
